(* ===== verification/Cy_Prelude.thy ===== *)
theory Cy_Prelude
  imports Main "HOL-Library.Word" "HOL-Library.Monad_Syntax"
begin

text \<open>
  Shared material of the Cyanurus development: names for the C integer types of
  \<^verbatim>\<open>src/kernel/lib/type.h\<close>, the error numbers of
  \<^verbatim>\<open>src/kernel/lib/errno.h\<close> that the kernel returns, the interface of a set of small
  indices (implemented by \<open>bitset\<close> and by \<open>sigset_t\<close>), and the generic facts on words, lists
  and ring buffers that the component theories use.

  Conventions.  A kernel function that can stop the machine (\<^verbatim>\<open>system_halt\<close> never returns)
  has a result of type \<^typ>\<open>'a option\<close>, and \<^const>\<open>None\<close> is "control does not come back to the
  caller".  A pointer that can be \<^verbatim>\<open>NULL\<close> is an option.  Words are used where the C code
  depends on their width; counters and indices for which the development proves a bound below
  \<open>2 ^ 32\<close> are natural numbers.
\<close>

unbundle bit_operations_syntax

type_synonym u8 = "8 word"
type_synonym u16 = "16 word"
type_synonym u32 = "32 word"
type_synonym u64 = "64 word"

text \<open>Error numbers; a system call returns their negation.\<close>

datatype errno = ENOENT | ESRCH | E2BIG | EBADF | ECHILD | EACCES | EFAULT | EEXIST | ENOTDIR
  | EISDIR | EINVAL | EMFILE | ENOTTY | ENOSPC | ESPIPE | EPIPE | ERANGE | ENAMETOOLONG
  | ENOTEMPTY | EOVERFLOW

fun errno_code :: "errno \<Rightarrow> int" where
  "errno_code ENOENT = 2"
| "errno_code ESRCH = 3"
| "errno_code E2BIG = 7"
| "errno_code EBADF = 9"
| "errno_code ECHILD = 10"
| "errno_code EACCES = 13"
| "errno_code EFAULT = 14"
| "errno_code EEXIST = 17"
| "errno_code ENOTDIR = 20"
| "errno_code EISDIR = 21"
| "errno_code EINVAL = 22"
| "errno_code EMFILE = 24"
| "errno_code ENOTTY = 25"
| "errno_code ENOSPC = 28"
| "errno_code ESPIPE = 29"
| "errno_code EPIPE = 32"
| "errno_code ERANGE = 34"
| "errno_code ENAMETOOLONG = 36"
| "errno_code ENOTEMPTY = 39"
| "errno_code EOVERFLOW = 75"

lemma sint_of_nat_small: "n < 2 ^ (LENGTH('a) - 1) \<Longrightarrow> sint (of_nat n :: 'a::len word) = int n"
  using sint_sbintrunc' [of "int n", where 'a = 'a] signed_take_bit_int_eq_self [of "LENGTH('a) - 1" "int n"]
  by (simp add: order.trans [of _ 0])

lemma unat_of_nat_small: "n < 2 ^ LENGTH('a) \<Longrightarrow> unat (of_nat n :: 'a::len word) = n"
  by (simp add: unat_of_nat)

named_theorems bit_facts \<open>rewriting a flag test to a bit of the word\<close>

lemma errno_code_pos: "0 < errno_code e"
  by (cases e) simp_all

lemma errno_code_inj: "errno_code e = errno_code e' \<Longrightarrow> e = e'"
  by (cases e; cases e') simp_all

subsection \<open>Words\<close>

lemma and_exp_iff [bit_facts]:
  "(w AND 2 ^ n \<noteq> 0) \<longleftrightarrow> bit (w :: 'a::len word) n"
  by (auto simp: bit_eq_iff [where 'a = "'a word"] bit_simps dest: bit_imp_le_length)

lemma bit_or_exp [bit_facts]:
  "bit (w OR 2 ^ n :: 'a::len word) m \<longleftrightarrow> bit w m \<or> (m = n \<and> n < LENGTH('a))"
  by (auto simp: bit_simps)

lemma bit_and_not_exp [bit_facts]:
  "bit (w AND NOT (2 ^ n) :: 'a::len word) m \<longleftrightarrow> bit w m \<and> m \<noteq> n"
  by (auto simp: bit_simps dest: bit_imp_le_length)

subsection \<open>Sets of small indices\<close>

text \<open>
  The contract that the bitmap macros of \<^verbatim>\<open>lib/bitset.h\<close> and the signal sets of
  \<^verbatim>\<open>lib/signal.c\<close> both implement: within the indices a set can hold, adding and removing
  change the membership of one index and of no other.
\<close>

locale index_set =
  fixes valid :: "'s \<Rightarrow> 'i \<Rightarrow> bool"
    and add :: "'s \<Rightarrow> 'i \<Rightarrow> 's"
    and remove :: "'s \<Rightarrow> 'i \<Rightarrow> 's"
    and test :: "'s \<Rightarrow> 'i \<Rightarrow> bool"
  assumes valid_add: "valid s i \<Longrightarrow> valid (add s i) j = valid s j"
    and valid_remove: "valid s i \<Longrightarrow> valid (remove s i) j = valid s j"
    and test_add: "valid s i \<Longrightarrow> valid s j \<Longrightarrow> test (add s i) j \<longleftrightarrow> j = i \<or> test s j"
    and test_remove: "valid s i \<Longrightarrow> valid s j \<Longrightarrow> test (remove s i) j \<longleftrightarrow> j \<noteq> i \<and> test s j"
begin

definition members :: "'s \<Rightarrow> 'i set" where
  "members s = {i. valid s i \<and> test s i}"

lemma members_add: "valid s i \<Longrightarrow> members (add s i) = insert i (members s)"
  by (auto simp: members_def valid_add test_add)

lemma members_remove: "valid s i \<Longrightarrow> members (remove s i) = members s - {i}"
  by (auto simp: members_def valid_remove test_remove)

lemma members_remove_add: "valid s i \<Longrightarrow> members (remove (add s i) i) = members s - {i}"
  by (simp add: members_add members_remove valid_add)

lemma members_foldr_add:
  "\<forall>i \<in> set is. valid s i \<Longrightarrow> members (foldr (\<lambda>i s. add s i) is s) = set is \<union> members s \<and>
     (\<forall>j. valid (foldr (\<lambda>i s. add s i) is s) j = valid s j)"
  by (induction "is") (auto simp: members_add valid_add)

end

lemma option_eqI: "(\<And>c. a = Some c \<longleftrightarrow> b = Some c) \<Longrightarrow> a = b"
  by (cases a; cases b) auto

end
