(* ===== verification/Cy_Arith.thy ===== *)
theory Cy_Arith
  imports Cy_Prelude
begin

text \<open>
  \<^verbatim>\<open>lib/arithmetic.c\<close> and \<^verbatim>\<open>lib/bitset.h\<close>: the two overflow tests
  the kernel uses before it adds addresses and file offsets, and the bitmap macros behind the
  close-on-exec set of a process.  The overflow tests are shown to decide overflow exactly, the
  bitmap macros to implement the interface \<open>index_set\<close>.
\<close>

subsection \<open>Overflow tests (lib/arithmetic.c, lib/limits.h)\<close>

definition ULONG_MAX :: u32 where "ULONG_MAX = 2 * 0x7fffffff + 1"
definition LLONG_MAX :: u64 where "LLONG_MAX = 0x7fffffffffffffff"
definition LLONG_MIN :: u64 where "LLONG_MIN = - LLONG_MAX - 1"

definition add_overflow_unsigned_long :: "u32 \<Rightarrow> u32 \<Rightarrow> bool" where
  "add_overflow_unsigned_long a b \<longleftrightarrow> a > ULONG_MAX - b"

definition add_overflow_long_long :: "u64 \<Rightarrow> u64 \<Rightarrow> bool" where
  "add_overflow_long_long a b \<longleftrightarrow>
     (0 <s b \<and> LLONG_MAX - b <s a) \<or> (b <s 0 \<and> a <s LLONG_MIN - b)"

subsection \<open>Bitmaps (lib/bitset.h)\<close>

type_synonym bitset = "u32 list"

definition bitset_mask :: "nat \<Rightarrow> u32" where
  "bitset_mask n = push_bit (n mod 32) 1"

definition bitset_slot :: "nat \<Rightarrow> nat" where
  "bitset_slot n = n div 32"

definition bitset_nslots :: "nat \<Rightarrow> nat" where
  "bitset_nslots n = (n + 32 - 1) div 32"

definition bitset_add :: "bitset \<Rightarrow> nat \<Rightarrow> bitset" where
  "bitset_add p n = p[bitset_slot n := p ! bitset_slot n OR bitset_mask n]"

definition bitset_remove :: "bitset \<Rightarrow> nat \<Rightarrow> bitset" where
  "bitset_remove p n = p[bitset_slot n := p ! bitset_slot n AND NOT (bitset_mask n)]"

definition bitset_test :: "bitset \<Rightarrow> nat \<Rightarrow> bool" where
  "bitset_test p n \<longleftrightarrow> p ! bitset_slot n AND bitset_mask n \<noteq> 0"

text \<open>The indices a bitmap of this many slots holds.\<close>

definition bitset_valid :: "bitset \<Rightarrow> nat \<Rightarrow> bool" where
  "bitset_valid p n \<longleftrightarrow> bitset_slot n < length p"

subsection \<open>Properties of the overflow tests\<close>

lemma ULONG_MAX_eq: "ULONG_MAX = - 1"
  by (simp add: ULONG_MAX_def)

lemma unat_ULONG_MAX_minus: "unat (ULONG_MAX - b) = 2 ^ 32 - 1 - unat b"
proof -
  have "b \<le> ULONG_MAX" by (simp add: ULONG_MAX_eq)
  then have "unat (ULONG_MAX - b) = unat ULONG_MAX - unat b" by (rule unat_sub)
  then show ?thesis by (simp add: ULONG_MAX_def)
qed

lemma unat_u32_less: "unat (w :: u32) < 2 ^ 32"
  using unsigned_less [of w] by simp

lemma sint_u64_range: "- (2 ^ 63) \<le> sint (w :: u64)" "sint (w :: u64) < 2 ^ 63"
  using sint_ge [of w] sint_lt [of w] by simp_all

lemma sint_u64_diff:
  "- (2 ^ 63) \<le> sint (a :: u64) - sint b \<Longrightarrow> sint a - sint b < 2 ^ 63 \<Longrightarrow> sint (a - b) = sint a - sint b"
  by (simp add: sint_word_diff signed_take_bit_int_eq_self)

lemma sint_LLONG_MAX: "sint LLONG_MAX = 2 ^ 63 - 1"
  by (simp add: LLONG_MAX_def)

lemma sint_LLONG_MIN: "sint LLONG_MIN = - (2 ^ 63)"
  by (simp add: LLONG_MIN_def LLONG_MAX_def)

text \<open>\<^verbatim>\<open>add_overflow_unsigned_long\<close> answers true exactly when the mathematical sum of the
  two 32-bit values does not fit in 32 bits.\<close>

theorem add_overflow_unsigned_long_iff:
  "add_overflow_unsigned_long a b \<longleftrightarrow> 2 ^ 32 \<le> unat a + unat b"
proof -
  have "add_overflow_unsigned_long a b \<longleftrightarrow> 2 ^ 32 - 1 - unat b < unat a"
    by (simp add: add_overflow_unsigned_long_def word_less_nat_alt unat_ULONG_MAX_minus)
  then show ?thesis using unat_u32_less [of b] by linarith
qed

text \<open>\<^verbatim>\<open>add_overflow_long_long\<close> answers true exactly when the mathematical sum of the
  two signed 64-bit values leaves the range of a signed 64-bit value.\<close>

theorem add_overflow_long_long_iff:
  "add_overflow_long_long a b \<longleftrightarrow>
     sint a + sint b < - (2 ^ 63) \<or> 2 ^ 63 \<le> sint a + sint b"
proof -
  have max: "0 < sint b \<Longrightarrow> sint (LLONG_MAX - b) = 2 ^ 63 - 1 - sint b"
    using sint_u64_range [of b] by (subst sint_u64_diff) (simp_all add: sint_LLONG_MAX)
  have min: "sint b < 0 \<Longrightarrow> sint (LLONG_MIN - b) = - (2 ^ 63) - sint b"
    using sint_u64_range [of b] by (subst sint_u64_diff) (simp_all add: sint_LLONG_MIN)
  show ?thesis
    using max min sint_u64_range [of a] sint_u64_range [of b]
    by (auto simp: add_overflow_long_long_def word_sless_alt)
qed

subsection \<open>The bitmap macros implement a set of indices\<close>

lemma bitset_test_bit: "bitset_test p n \<longleftrightarrow> bit (p ! (n div 32)) (n mod 32)"
  by (simp add: bitset_test_def bitset_mask_def bitset_slot_def and_exp_iff)

lemma bitset_index_eq: "(n :: nat) div 32 = m div 32 \<Longrightarrow> n mod 32 = m mod 32 \<Longrightarrow> n = m"
  by (metis div_mod_decomp)

interpretation bs: index_set bitset_valid bitset_add bitset_remove bitset_test
proof unfold_locales
  fix p :: bitset and i j :: nat
  assume i: "bitset_valid p i"
  show "bitset_valid (bitset_add p i) j = bitset_valid p j"
    and "bitset_valid (bitset_remove p i) j = bitset_valid p j"
    by (simp_all add: bitset_valid_def bitset_add_def bitset_remove_def)
  assume j: "bitset_valid p j"
  show "bitset_test (bitset_add p i) j \<longleftrightarrow> j = i \<or> bitset_test p j"
    using i j by (cases "j div 32 = i div 32")
      (auto simp: bitset_test_bit bitset_add_def bitset_mask_def bitset_slot_def bitset_valid_def
        bit_or_exp dest: bitset_index_eq)
  show "bitset_test (bitset_remove p i) j \<longleftrightarrow> j \<noteq> i \<and> bitset_test p j"
    using i j by (cases "j div 32 = i div 32")
      (auto simp: bitset_test_bit bitset_remove_def bitset_mask_def bitset_slot_def bitset_valid_def
        bit_and_not_exp dest: bitset_index_eq)
qed

lemma bitset_valid_nslots: "n < m \<Longrightarrow> bitset_valid (replicate (bitset_nslots m) w) n"
  by (simp add: bitset_valid_def bitset_slot_def bitset_nslots_def)

lemma bitset_empty: "bitset_valid (replicate k 0) n \<Longrightarrow> \<not> bitset_test (replicate k 0) n"
  by (simp add: bitset_test_bit bitset_valid_def bitset_slot_def)

end
