(* ===== verification/Cy_Signal.thy ===== *)
theory Cy_Signal
  imports Cy_Arith
begin

text \<open>
  \<^verbatim>\<open>lib/signal.h\<close> and \<^verbatim>\<open>lib/signal.c\<close>: signal sets of 64 signals in two 32-bit
  fields.  Every operation is shown to be the corresponding operation on the set of signal
  numbers \<^term>\<open>{1..<65::int}\<close>, and \<open>sigpeekset\<close> to return the least pending number.
\<close>

subsection \<open>Signal numbers and sets (lib/signal.h)\<close>

definition NSIG :: int where "NSIG = 65"
definition SIGKILL :: int where "SIGKILL = 9"
definition SIGSEGV :: int where "SIGSEGV = 11"
definition SIGPIPE :: int where "SIGPIPE = 13"
definition SIGCHLD :: int where "SIGCHLD = 17"
definition SIGSTOP :: int where "SIGSTOP = 19"
definition SIGURG :: int where "SIGURG = 23"
definition SIGWINCH :: int where "SIGWINCH = 28"
definition SIG_DFL :: u32 where "SIG_DFL = 0"
definition SIG_IGN :: u32 where "SIG_IGN = 1"

record sigset =
  field0 :: u32
  field1 :: u32

subsection \<open>Operations (lib/signal.c)\<close>

definition sigemptyset :: sigset where
  "sigemptyset = \<lparr>field0 = 0, field1 = 0\<rparr>"

definition sigfillset :: sigset where
  "sigfillset = \<lparr>field0 = 0xffffffff, field1 = 0xffffffff\<rparr>"

definition sigaddset :: "sigset \<Rightarrow> int \<Rightarrow> int \<times> sigset" where
  "sigaddset sset signum =
     (if signum < 1 \<or> signum \<ge> NSIG then (-1, sset)
      else if signum > 32 then (0, sset\<lparr>field1 := field1 sset OR push_bit (nat (signum - 33)) 1\<rparr>)
      else (0, sset\<lparr>field0 := field0 sset OR push_bit (nat (signum - 1)) 1\<rparr>))"

definition sigdelset :: "sigset \<Rightarrow> int \<Rightarrow> int \<times> sigset" where
  "sigdelset sset signum =
     (if signum < 1 \<or> signum \<ge> NSIG then (-1, sset)
      else if signum > 32 then (0, sset\<lparr>field1 := field1 sset AND NOT (push_bit (nat (signum - 33)) 1)\<rparr>)
      else (0, sset\<lparr>field0 := field0 sset AND NOT (push_bit (nat (signum - 1)) 1)\<rparr>))"

definition sigismember :: "sigset \<Rightarrow> int \<Rightarrow> int" where
  "sigismember sset signum =
     (if signum < 1 \<or> signum \<ge> NSIG then -1
      else if signum > 32 then (if field1 sset AND push_bit (nat (signum - 33)) 1 \<noteq> 0 then 1 else 0)
      else (if field0 sset AND push_bit (nat (signum - 1)) 1 \<noteq> 0 then 1 else 0))"

definition sigisemptyset :: "sigset \<Rightarrow> int" where
  "sigisemptyset sset = (if field0 sset = 0 \<and> field1 sset = 0 then 1 else 0)"

definition signotset :: "sigset \<Rightarrow> sigset" where
  "signotset src = \<lparr>field0 = NOT (field0 src), field1 = NOT (field1 src)\<rparr>"

definition sigorset :: "sigset \<Rightarrow> sigset \<Rightarrow> sigset" where
  "sigorset left right = \<lparr>field0 = field0 left OR field0 right, field1 = field1 left OR field1 right\<rparr>"

definition sigandset :: "sigset \<Rightarrow> sigset \<Rightarrow> sigset" where
  "sigandset left right = \<lparr>field0 = field0 left AND field0 right, field1 = field1 left AND field1 right\<rparr>"

text \<open>The compiler built-in: one plus the index of the least set bit, zero if there is none.\<close>

definition builtin_ffs :: "u32 \<Rightarrow> int" where
  "builtin_ffs w = (case List.find (bit w) [0..<32] of None \<Rightarrow> 0 | Some i \<Rightarrow> int i + 1)"

definition sigpeekset :: "sigset \<Rightarrow> int" where
  "sigpeekset sset =
     (let sig = builtin_ffs (field0 sset) in
      if sig > 0 then sig
      else let sig = builtin_ffs (field1 sset) in
        if sig > 0 then sig + 32 else 0)"

text \<open>The signal numbers a set stands for.\<close>

definition sigset_set :: "sigset \<Rightarrow> int set" where
  "sigset_set s = {i. sigismember s i = 1}"

definition sig_valid :: "sigset \<Rightarrow> int \<Rightarrow> bool" where
  "sig_valid s i \<longleftrightarrow> 1 \<le> i \<and> i < NSIG"

subsection \<open>Membership\<close>

lemma sigismember_iff:
  "sigismember s i = 1 \<longleftrightarrow>
     (1 \<le> i \<and> i \<le> 32 \<and> bit (field0 s) (nat (i - 1))) \<or>
     (33 \<le> i \<and> i \<le> 64 \<and> bit (field1 s) (nat (i - 33)))"
  by (auto simp: sigismember_def NSIG_def bit_facts)

lemma in_sigset_set_iff:
  "i \<in> sigset_set s \<longleftrightarrow>
     (1 \<le> i \<and> i \<le> 32 \<and> bit (field0 s) (nat (i - 1))) \<or>
     (33 \<le> i \<and> i \<le> 64 \<and> bit (field1 s) (nat (i - 33)))"
  by (simp add: sigset_set_def sigismember_iff)

lemma sigset_set_range: "sigset_set s \<subseteq> {1..64}"
  by (auto simp: in_sigset_set_iff)

interpretation ss: index_set sig_valid "\<lambda>s i. snd (sigaddset s i)" "\<lambda>s i. snd (sigdelset s i)"
  "\<lambda>s i. sigismember s i = 1"
proof unfold_locales
  fix s :: sigset and i j :: int
  assume i: "sig_valid s i"
  show "sig_valid (snd (sigaddset s i)) j = sig_valid s j"
    and "sig_valid (snd (sigdelset s i)) j = sig_valid s j"
    by (simp_all add: sig_valid_def)
  assume j: "sig_valid s j"
  show "sigismember (snd (sigaddset s i)) j = 1 \<longleftrightarrow> j = i \<or> sigismember s j = 1"
    using i j by (auto simp: sigismember_iff sigaddset_def sig_valid_def NSIG_def bit_facts)
  show "sigismember (snd (sigdelset s i)) j = 1 \<longleftrightarrow> j \<noteq> i \<and> sigismember s j = 1"
    using i j by (auto simp: sigismember_iff sigdelset_def sig_valid_def NSIG_def bit_facts)
qed

lemma sigset_set_members: "sigset_set s = ss.members s"
  unfolding sigset_set_def ss.members_def sig_valid_def
  by (auto simp: sigismember_iff NSIG_def)

lemma sigset_set_add: "1 \<le> i \<Longrightarrow> i \<le> 64 \<Longrightarrow> sigset_set (snd (sigaddset s i)) = insert i (sigset_set s)"
  using ss.members_add [of s i] by (simp add: sigset_set_members sig_valid_def NSIG_def)

lemma sigset_set_del: "1 \<le> i \<Longrightarrow> i \<le> 64 \<Longrightarrow> sigset_set (snd (sigdelset s i)) = sigset_set s - {i}"
  using ss.members_remove [of s i] by (simp add: sigset_set_members sig_valid_def NSIG_def)

lemma sigset_set_not: "sigset_set (signotset s) = {1..64} - sigset_set s"
  by (auto simp: in_sigset_set_iff signotset_def bit_not_iff)

lemma sigset_set_or: "sigset_set (sigorset s t) = sigset_set s \<union> sigset_set t"
  by (auto simp: in_sigset_set_iff sigorset_def bit_or_iff)

lemma sigset_set_and: "sigset_set (sigandset s t) = sigset_set s \<inter> sigset_set t"
  by (auto simp: in_sigset_set_iff sigandset_def bit_and_iff)

lemma sigset_set_empty: "sigset_set sigemptyset = {}"
  by (auto simp: in_sigset_set_iff sigemptyset_def)

lemma sigset_set_fill: "sigset_set sigfillset = {1..64}"
proof -
  have fill: "sigfillset = signotset sigemptyset"
    by (simp add: sigfillset_def signotset_def sigemptyset_def)
  show ?thesis unfolding fill sigset_set_not sigset_set_empty by simp
qed

lemma sigset_eqI: "sigset_set s = sigset_set t \<Longrightarrow> s = (t :: sigset)"
proof -
  assume eq: "sigset_set s = sigset_set t"
  have "bit (field0 s) n = bit (field0 t) n" if "n < 32" for n
    using eq that by (auto simp: set_eq_iff in_sigset_set_iff dest: spec [of _ "int n + 1"])
  moreover have "bit (field1 s) n = bit (field1 t) n" if "n < 32" for n
    using eq that by (auto simp: set_eq_iff in_sigset_set_iff dest: spec [of _ "int n + 33"])
  ultimately show "s = t" by (auto intro!: sigset.equality bit_word_eqI)
qed

lemma sigisemptyset_iff: "sigisemptyset s = 1 \<longleftrightarrow> sigset_set s = {}"
proof
  show "sigisemptyset s = 1 \<Longrightarrow> sigset_set s = {}"
    by (auto simp: sigisemptyset_def in_sigset_set_iff split: if_splits)
  assume "sigset_set s = {}"
  then have "s = sigemptyset" by (intro sigset_eqI) (simp add: sigset_set_empty)
  then show "sigisemptyset s = 1" by (simp add: sigisemptyset_def sigemptyset_def)
qed

subsection \<open>The least member\<close>

lemma builtin_ffs_0: "builtin_ffs w = 0 \<longleftrightarrow> w = 0"
proof -
  have "builtin_ffs w = 0 \<longleftrightarrow> (\<forall>i<32. \<not> bit w i)"
    by (auto simp: builtin_ffs_def find_None_iff find_Some_iff split: option.splits)
  then show ?thesis by (auto intro: bit_word_eqI)
qed

lemma builtin_ffs_least:
  assumes "builtin_ffs w > 0"
  shows "bit w (nat (builtin_ffs w - 1))" "builtin_ffs w \<le> 32"
    "\<And>j. bit w j \<Longrightarrow> builtin_ffs w \<le> int j + 1"
proof -
  obtain i where find: "List.find (bit w) [0..<32] = Some i" and ffs: "builtin_ffs w = int i + 1"
    using assms by (auto simp: builtin_ffs_def split: option.splits)
  from find have i: "i < 32" "bit w i" and least: "\<And>j. j < i \<Longrightarrow> \<not> bit w j"
    by (auto simp: find_Some_iff)
  show "bit w (nat (builtin_ffs w - 1))" "builtin_ffs w \<le> 32" using i ffs by simp_all
  show "builtin_ffs w \<le> int j + 1" if "bit w j" for j
    using least [of j] that ffs by linarith
qed

lemma builtin_ffs_nonneg: "0 \<le> builtin_ffs w"
  by (simp add: builtin_ffs_def split: option.splits)

text \<open>\<^verbatim>\<open>sigpeekset\<close> returns 0 for the empty set and otherwise the least signal number
  of the set, so signals are delivered in increasing order of their numbers.\<close>

theorem sigpeekset_least:
  "sigpeekset s = (if sigset_set s = {} then 0 else Min (sigset_set s))"
proof (cases "sigset_set s = {}")
  case True
  then have "s = sigemptyset" by (intro sigset_eqI) (simp add: sigset_set_empty)
  with True show ?thesis
    by (simp add: sigpeekset_def sigemptyset_def builtin_ffs_0 [THEN iffD2])
next
  case False
  have fin: "finite (sigset_set s)" using sigset_set_range by (rule finite_subset) simp
  have "sigpeekset s \<in> sigset_set s \<and> (\<forall>j \<in> sigset_set s. sigpeekset s \<le> j)"
  proof (cases "builtin_ffs (field0 s) > 0")
    case True
    then show ?thesis
      using builtin_ffs_least [OF True]
      by (fastforce simp: sigpeekset_def in_sigset_set_iff)
  next
    case f0: False
    then have "field0 s = 0" using builtin_ffs_0 builtin_ffs_nonneg [of "field0 s"] by fastforce
    with False have "field1 s \<noteq> 0" by (auto simp: in_sigset_set_iff set_eq_iff)
    then have f1: "builtin_ffs (field1 s) > 0"
      using builtin_ffs_0 builtin_ffs_nonneg [of "field1 s"] by fastforce
    show ?thesis
      using builtin_ffs_least [OF f1] f0 f1 \<open>field0 s = 0\<close>
      by (fastforce simp: sigpeekset_def in_sigset_set_iff)
  qed
  then show ?thesis using False fin by (auto intro: Min_eqI [symmetric])
qed

text \<open>C34: the signal-set operations of \<^verbatim>\<open>lib/signal.c\<close> are the set operations on
  \<open>{1..64}\<close>: complement, union, intersection, insertion and removal of a valid number (an
  invalid number is refused with -1 and leaves the set alone), the empty and the full set, and
  the emptiness test.\<close>

theorem sigset_operations_are_set_operations:
  "sigset_set sigemptyset = {} \<and> sigset_set sigfillset = {1..64} \<and>
   sigset_set (signotset s) = {1..64} - sigset_set s \<and>
   sigset_set (sigorset s t) = sigset_set s \<union> sigset_set t \<and>
   sigset_set (sigandset s t) = sigset_set s \<inter> sigset_set t \<and>
   (sigisemptyset s = 1) = (sigset_set s = {}) \<and>
   sigaddset s i = (if i \<in> {1..64} then (0, snd (sigaddset s i)) else (-1, s)) \<and>
   sigset_set (snd (sigaddset s i)) = (if i \<in> {1..64} then insert i (sigset_set s) else sigset_set s) \<and>
   sigset_set (snd (sigdelset s i)) = sigset_set s - {i}"
proof -
  have add: "sigaddset s i = (if i \<in> {1..64} then (0, snd (sigaddset s i)) else (-1, s))"
    by (auto simp: sigaddset_def NSIG_def)
  have del: "sigset_set (snd (sigdelset s i)) = sigset_set s - {i}"
  proof (cases "1 \<le> i \<and> i \<le> 64")
    case True
    then show ?thesis by (simp add: sigset_set_del)
  next
    case False
    then have "i \<notin> sigset_set s" using sigset_set_range [of s] by auto
    with False show ?thesis by (auto simp: sigdelset_def NSIG_def)
  qed
  have addset: "sigset_set (snd (sigaddset s i)) =
      (if i \<in> {1..64} then insert i (sigset_set s) else sigset_set s)"
    by (auto simp: sigset_set_add) (auto simp: sigaddset_def NSIG_def split: if_splits)
  show ?thesis
    using add del addset
    by (simp add: sigset_set_empty sigset_set_fill sigset_set_not sigset_set_or sigset_set_and
        sigisemptyset_iff)
qed

end
