(* ===== verification/Cy_List.thy ===== *)
theory Cy_List
  imports Cy_Prelude
begin

text \<open>
  \<^verbatim>\<open>lib/list.h\<close> and \<^verbatim>\<open>lib/list.c\<close>: the intrusive circular doubly linked lists
  that hold processes, wait queues, inodes, blocks, dentries and page-table mappings.  The model
  is a store from addresses to nodes and every assignment of the C functions is one store
  update, in order.  The interface \<open>intrusive_list\<close> states what the rest of the kernel relies on:
  each operation is an operation on the sequence of items and leaves disjoint lists alone.  The
  other theories of the development represent such lists by HOL lists on the strength of it.
\<close>

subsection \<open>Nodes (lib/list.h)\<close>

type_synonym addr = nat

definition NULL :: addr where "NULL = 0"

record node =
  prev :: addr
  "next" :: addr

type_synonym store = "addr \<Rightarrow> node"

text \<open>The assignments \<open>a->prev = v\<close> and \<open>a->next = v\<close>.\<close>

definition set_prev :: "store \<Rightarrow> addr \<Rightarrow> addr \<Rightarrow> store" where
  "set_prev h a v = h(a := (h a)\<lparr>prev := v\<rparr>)"

definition set_next :: "store \<Rightarrow> addr \<Rightarrow> addr \<Rightarrow> store" where
  "set_next h a v = h(a := (h a)\<lparr>next := v\<rparr>)"

subsection \<open>Operations (lib/list.c)\<close>

definition list_init :: "store \<Rightarrow> addr \<Rightarrow> store" where
  "list_init h l = (let h = set_next h l l in set_prev h l l)"

definition list_add :: "store \<Rightarrow> addr \<Rightarrow> addr \<Rightarrow> store" where
  "list_add h l item =
     (let h = set_prev h item l;
          h = set_next h item (next (h l));
          h = set_next h l item
      in set_prev h (next (h item)) item)"

definition list_empty :: "store \<Rightarrow> addr \<Rightarrow> bool" where
  "list_empty h l \<longleftrightarrow> next (h l) = l"

definition list_concat :: "store \<Rightarrow> addr \<Rightarrow> addr \<Rightarrow> store" where
  "list_concat h l other =
     (if list_empty h other then h
      else let h = set_prev h (next (h other)) l;
               h = set_next h (prev (h other)) (next (h l));
               h = set_prev h (next (h l)) (prev (h other));
               h = set_next h l (next (h other))
           in list_init h other)"

definition list_remove :: "store \<Rightarrow> addr \<Rightarrow> store" where
  "list_remove h item =
     (let h = set_next h (prev (h item)) (next (h item));
          h = set_prev h (next (h item)) (prev (h item));
          h = set_next h item NULL
      in set_prev h item NULL)"

partial_function (option) list_length_loop :: "store \<Rightarrow> addr \<Rightarrow> addr \<Rightarrow> nat \<Rightarrow> nat option" where
  "list_length_loop h l item count =
     (if item \<noteq> l then list_length_loop h l (next (h item)) (count + 1) else Some count)"

definition list_length :: "store \<Rightarrow> addr \<Rightarrow> nat option" where
  "list_length h l = list_length_loop h l (next (h l)) 0"

text \<open>\<^verbatim>\<open>list_foreach\<close>: the items in the order the loop visits them.\<close>

partial_function (option) list_foreach :: "store \<Rightarrow> addr \<Rightarrow> addr \<Rightarrow> addr list \<Rightarrow> addr list option" where
  "list_foreach h head item visited =
     (if item \<noteq> head then list_foreach h head (next (h item)) (visited @ [item]) else Some visited)"

subsection \<open>Lists in the store\<close>

lemma set_fields [simp]:
  "prev (set_prev h a v c) = (if c = a then v else prev (h c))" "next (set_prev h a v c) = next (h c)"
  "next (set_next h a v c) = (if c = a then v else next (h c))" "prev (set_next h a v c) = prev (h c)"
  by (simp_all add: set_prev_def set_next_def)

lemma set_fields_other: "c \<noteq> a \<Longrightarrow> set_prev h a v c = h c" "c \<noteq> a \<Longrightarrow> set_next h a v c = h c"
  by (simp_all add: set_prev_def set_next_def)

fun seg :: "store \<Rightarrow> addr \<Rightarrow> addr list \<Rightarrow> addr \<Rightarrow> bool" where
  "seg h a [] b \<longleftrightarrow> next (h a) = b \<and> prev (h b) = a"
| "seg h a (x # xs) b \<longleftrightarrow> next (h a) = x \<and> prev (h x) = a \<and> seg h x xs b"

definition is_list :: "store \<Rightarrow> addr \<Rightarrow> addr list \<Rightarrow> bool" where
  "is_list h l xs \<longleftrightarrow> seg h l xs l \<and> distinct (l # xs) \<and> NULL \<notin> set (l # xs)"

lemma seg_frame:
  "next (h' a) = next (h a) \<Longrightarrow> prev (h' b) = prev (h b) \<Longrightarrow> 
   \<forall>x \<in> set xs. next (h' x) = next (h x) \<and> prev (h' x) = prev (h x) \<Longrightarrow>
   seg h a xs b \<Longrightarrow> seg h' a xs b"
  by (induction xs arbitrary: a) auto

lemma seg_append: "seg h a (xs @ y # ys) b \<longleftrightarrow> seg h a xs y \<and> seg h y ys b"
  by (induction xs arbitrary: a) auto

lemma seg_last: "seg h a xs b \<Longrightarrow> prev (h b) = last (a # xs)"
  by (induction xs arbitrary: a) auto

lemma seg_first: "seg h a xs b \<Longrightarrow> next (h a) = hd (xs @ [b])"
  by (cases xs) auto

lemma is_list_frame:
  "is_list h l xs \<Longrightarrow> \<forall>x \<in> set (l # xs). h' x = h x \<Longrightarrow> is_list h' l xs"
  by (auto simp: is_list_def intro: seg_frame)

lemma is_list_init: "l \<noteq> NULL \<Longrightarrow> is_list (list_init h l) l []"
  by (simp add: is_list_def list_init_def Let_def)

lemma is_list_empty: "is_list h l xs \<Longrightarrow> list_empty h l \<longleftrightarrow> xs = []"
  by (cases xs) (auto simp: is_list_def list_empty_def)

lemma is_list_add:
  assumes l: "is_list h l xs" and x: "x \<notin> set (l # xs)" "x \<noteq> NULL"
  shows "is_list (list_add h l x) l (x # xs)"
proof (cases xs)
  case Nil
  with l x show ?thesis by (auto simp: is_list_def list_add_def Let_def)
next
  case (Cons y ys)
  let ?h = "list_add h l x"
  from l Cons x have y: "next (h l) = y" "y \<noteq> x" "y \<noteq> l" "l \<noteq> x" "seg h y ys l" "distinct (y # ys)"
    "l \<notin> set ys" "x \<notin> set ys" by (auto simp: is_list_def)
  then have "seg ?h y ys l"
    by (intro seg_frame [of ?h y h]) (auto simp: list_add_def Let_def)
  moreover have "next (?h l) = x" "prev (?h x) = l" "next (?h x) = y" "prev (?h y) = x"
    using y by (auto simp: list_add_def Let_def)
  ultimately show ?thesis using l x Cons by (simp add: is_list_def)
qed

text \<open>The store after \<^verbatim>\<open>list_remove\<close>: the neighbours \<open>p\<close> and \<open>n\<close> of \<open>x\<close> are linked.\<close>

definition bypass :: "store \<Rightarrow> addr \<Rightarrow> addr \<Rightarrow> addr \<Rightarrow> store" where
  "bypass h x p n = (\<lambda>c. if c = x then (h x)\<lparr>prev := NULL, next := NULL\<rparr>
      else (h c)\<lparr>next := (if c = p then n else next (h c)), prev := (if c = n then p else prev (h c))\<rparr>)"

lemma list_remove_bypass:
  "prev (h x) \<noteq> x \<Longrightarrow> next (h x) \<noteq> x \<Longrightarrow> list_remove h x = bypass h x (prev (h x)) (next (h x))"
  by (auto simp: list_remove_def Let_def fun_eq_iff bypass_def set_prev_def set_next_def)

lemma bypass_fields:
  "next (bypass h x p n c) = (if c = x then NULL else if c = p then n else next (h c))"
  "prev (bypass h x p n c) = (if c = x then NULL else if c = n then p else prev (h c))"
  by (simp_all add: bypass_def)

lemma seg_bypass:
  "seg h a xs x \<Longrightarrow> seg h x ys b \<Longrightarrow> distinct (a # xs @ x # ys) \<Longrightarrow> b \<notin> set (xs @ x # ys) \<Longrightarrow>
   seg (bypass h x (last (a # xs)) (hd (ys @ [b]))) a (xs @ ys) b"
proof (induction xs arbitrary: a)
  case Nil
  show ?case
  proof (cases ys)
    case Nil
    have "b \<noteq> x" "a \<noteq> x" using Nil.prems by auto
    then show ?thesis using Nil by (simp add: bypass_fields)
  next
    case (Cons z zs)
    have ne: "a \<noteq> x" "z \<noteq> x" "b \<noteq> x" "b \<noteq> z" "z \<noteq> a" using Nil.prems Cons by auto
    have zs: "\<forall>c \<in> set zs. c \<noteq> x \<and> c \<noteq> a \<and> c \<noteq> z" using Nil.prems Cons by auto
    have "seg h z zs b" using Nil.prems Cons by simp
    then have "seg (bypass h x a z) z zs b"
      by (rule seg_frame [rotated 3]) (use ne zs in \<open>simp_all add: bypass_fields\<close>)
    with Cons ne show ?thesis by (simp add: bypass_fields)
  qed
next
  case (Cons y xs)
  let ?h = "bypass h x (last (y # xs)) (hd (ys @ [b]))"
  have ne: "a \<noteq> x" "y \<noteq> x" "a \<noteq> last (y # xs)" using Cons.prems(3) by auto
  have yn: "y \<noteq> hd (ys @ [b])" using Cons.prems(3,4) by (cases ys) auto
  have ay: "next (h a) = y" "prev (h y) = a" using Cons.prems(1) by auto
  have "seg ?h y (xs @ ys) b" using Cons.prems by (intro Cons.IH) auto
  then show ?case using ne yn ay by (simp add: bypass_fields)
qed

lemma is_list_remove:
  assumes l: "is_list h l (xs @ x # ys)"
  shows "is_list (list_remove h x) l (xs @ ys)"
    and "next (list_remove h x x) = NULL" and "prev (list_remove h x x) = NULL"
    and "\<And>c. c \<notin> set (l # xs @ x # ys) \<Longrightarrow> list_remove h x c = h c"
proof -
  from l have sx: "seg h l xs x" and sy: "seg h x ys l" and d: "distinct (l # xs @ x # ys)"
    by (auto simp: is_list_def seg_append)
  have p: "prev (h x) = last (l # xs)" using sx by (rule seg_last)
  have n: "next (h x) = hd (ys @ [l])" using sy by (rule seg_first)
  have pmem: "prev (h x) \<in> set (l # xs)" unfolding p by (rule last_in_set) simp
  have nmem: "next (h x) \<in> set (l # ys)" unfolding n by (cases ys) auto
  have "prev (h x) \<noteq> x" "next (h x) \<noteq> x" using pmem nmem d by auto
  then have eq: "list_remove h x = bypass h x (last (l # xs)) (hd (ys @ [l]))"
    unfolding p [symmetric] n [symmetric] by (rule list_remove_bypass)
  have "seg (list_remove h x) l (xs @ ys) l"
    unfolding eq using sx sy d by (intro seg_bypass) auto
  with l show "is_list (list_remove h x) l (xs @ ys)" by (auto simp: is_list_def)
  show "next (list_remove h x x) = NULL" "prev (list_remove h x x) = NULL"
    by (simp_all add: eq bypass_def)
  show "list_remove h x c = h c" if "c \<notin> set (l # xs @ x # ys)" for c
    using that pmem nmem unfolding eq p [symmetric] n [symmetric] by (auto simp: bypass_def)
qed

lemma list_add_frame:
  "is_list h l xs \<Longrightarrow> c \<notin> set (l # x # xs) \<Longrightarrow> list_add h l x c = h c"
  by (cases xs) (auto simp: is_list_def list_add_def Let_def set_fields_other)

lemma seg_cut:
  assumes "seg h a xs b" "xs \<noteq> []"
  shows "next (h a) = hd xs" "prev (h (hd xs)) = a" "next (h (last xs)) = b" "prev (h b) = last xs"
proof -
  show "next (h a) = hd xs" "prev (h (hd xs)) = a" using assms by (cases xs; simp)+
  show "next (h (last xs)) = b" "prev (h b) = last xs"
    using assms by (induction xs arbitrary: a) (auto split: if_splits)
qed

text \<open>A non-empty segment between new ends.\<close>

lemma seg_move:
  "seg h a xs b \<Longrightarrow> xs \<noteq> [] \<Longrightarrow> distinct xs \<Longrightarrow>
   next (h' a') = hd xs \<Longrightarrow> prev (h' (hd xs)) = a' \<Longrightarrow> next (h' (last xs)) = b' \<Longrightarrow> prev (h' b') = last xs \<Longrightarrow>
   \<forall>x \<in> set xs. x \<noteq> last xs \<longrightarrow> next (h' x) = next (h x) \<Longrightarrow>
   \<forall>x \<in> set xs. x \<noteq> hd xs \<longrightarrow> prev (h' x) = prev (h x) \<Longrightarrow> seg h' a' xs b'"
proof (induction xs arbitrary: a a')
  case (Cons x xs)
  note hyps = Cons.prems and IH = Cons.IH
  show ?case
  proof (cases xs)
    case Nil
    with hyps show ?thesis by simp
  next
    case (Cons y ys)
    have "seg h x xs b" "distinct xs" using hyps(1,3) by simp_all
    moreover have "x \<noteq> last (x # xs)" "hd xs \<noteq> hd (x # xs)" "hd xs \<in> set (x # xs)"
      using hyps(3) Cons by auto
    then have "next (h' x) = next (h x)" "prev (h' (hd xs)) = prev (h (hd xs))"
      using hyps(8,9) by simp_all
    then have "next (h' x) = hd xs" "prev (h' (hd xs)) = x"
      using hyps(1) Cons by simp_all
    moreover have "next (h' (last xs)) = b'" "prev (h' b') = last xs" using hyps(6,7) Cons by simp_all
    moreover have "\<forall>z \<in> set xs. z \<noteq> last xs \<longrightarrow> next (h' z) = next (h z)"
      using hyps(8) Cons by simp
    moreover have "\<forall>z \<in> set xs. z \<noteq> hd xs \<longrightarrow> prev (h' z) = prev (h z)"
      using hyps(3,9) by auto
    ultimately have "seg h' x xs b'" using Cons by (intro IH [of x]) simp_all
    with hyps(4,5) show ?thesis by simp
  qed
qed simp

lemma list_concat_fields:
  assumes "next (h m) = n0" "prev (h m) = n1" "next (h l) = n" "l \<noteq> m" "n \<noteq> m" "n0 \<noteq> l" "n1 \<noteq> l"
    "n0 \<noteq> m" "n1 \<noteq> m" "n0 \<noteq> n"
  shows "next (list_concat h l m c) = (if c = m then m else if c = l then n0 else if c = n1 then n else next (h c))"
    and "prev (list_concat h l m c) = (if c = m then m else if c = n then n1 else if c = n0 then l else prev (h c))"
  using assms by (simp_all add: list_concat_def list_empty_def list_init_def Let_def)

lemma is_list_concat:
  assumes "is_list h l xs" "is_list h m ys" "set (l # xs) \<inter> set (m # ys) = {}"
  shows "is_list (list_concat h l m) l (ys @ xs) \<and> is_list (list_concat h l m) m []"
proof (cases "ys = []")
  case True
  with assms show ?thesis using is_list_empty [of h m ys] by (simp add: list_concat_def)
next
  case False
  let ?h = "list_concat h l m" and ?n = "hd (xs @ [l])"
  have sx: "seg h l xs l" and sy: "seg h m ys m" and d: "distinct (l # xs)" "distinct (m # ys)"
    and null: "NULL \<notin> set (l # xs)" "NULL \<notin> set (m # ys)"
    using assms(1,2) by (auto simp: is_list_def)
  have mem: "hd ys \<in> set ys" "last ys \<in> set ys" "?n \<in> set (l # xs)"
    using False by (auto simp: hd_append)
  then have ne: "l \<noteq> m" "?n \<noteq> m" "hd ys \<noteq> l" "last ys \<noteq> l" "hd ys \<noteq> m" "last ys \<noteq> m" "hd ys \<noteq> ?n"
    "?n \<notin> set ys" using assms(3) d by auto
  note f = list_concat_fields [OF seg_cut(1) [OF sy False] seg_cut(4) [OF sy False] seg_first [OF sx]
      ne(1-7)]
  have out: "z \<noteq> m \<and> z \<noteq> l \<and> z \<noteq> ?n" if "z \<in> set ys" for z
    using that assms(3) d mem(3) by auto
  have "seg ?h l ys ?n"
  proof (rule seg_move [OF sy False])
    show "distinct ys" using d by simp
    show "next (?h l) = hd ys" "prev (?h (hd ys)) = l" "next (?h (last ys)) = ?n" "prev (?h ?n) = last ys"
      using ne by (simp_all add: f)
    show "\<forall>z \<in> set ys. z \<noteq> last ys \<longrightarrow> next (?h z) = next (h z)"
      and "\<forall>z \<in> set ys. z \<noteq> hd ys \<longrightarrow> prev (?h z) = prev (h z)"
      using out by (simp_all add: f)
  qed
  moreover have "seg ?h x xs' l" if xs: "xs = x # xs'" for x xs'
  proof (rule seg_frame)
    have out: "z \<noteq> m \<and> z \<noteq> last ys \<and> z \<noteq> hd ys" if "z \<in> set (l # xs)" for z
      using that assms(3) mem by auto
    show "next (?h x) = next (h x)" using out [of x] xs d by (simp add: f)
    show "prev (?h l) = prev (h l)" using out [of l] xs d by (simp add: f)
    show "\<forall>z \<in> set xs'. next (?h z) = next (h z) \<and> prev (?h z) = prev (h z)"
    proof
      fix z assume z: "z \<in> set xs'"
      then have "z \<noteq> l" "z \<noteq> x" using xs d by auto
      with z out [of z] xs show "next (?h z) = next (h z) \<and> prev (?h z) = prev (h z)" by (simp add: f)
    qed
    show "seg h x xs' l" using sx xs by simp
  qed
  ultimately have "seg ?h l (ys @ xs) l" by (cases xs) (auto simp: seg_append)
  then have "is_list ?h l (ys @ xs)" using assms(3) d null by (auto simp: is_list_def)
  moreover have "is_list ?h m []" using null(2) by (simp add: is_list_def f)
  ultimately show ?thesis by simp
qed

subsection \<open>The loops end\<close>

lemma list_length_loop_seg:
  "seg h a xs l \<Longrightarrow> l \<notin> set xs \<Longrightarrow> list_length_loop h l (next (h a)) n = Some (n + length xs)"
proof (induction xs arbitrary: a n)
  case Nil
  then show ?case by (simp add: list_length_loop.simps)
next
  case (Cons x xs)
  then show ?case by (simp add: list_length_loop.simps [of h l x])
qed

lemma list_foreach_seg:
  "seg h a xs l \<Longrightarrow> l \<notin> set xs \<Longrightarrow> list_foreach h l (next (h a)) vs = Some (vs @ xs)"
proof (induction xs arbitrary: a vs)
  case Nil
  then show ?case by (simp add: list_foreach.simps)
next
  case (Cons x xs)
  then show ?case by (simp add: list_foreach.simps [of h l x])
qed

lemma is_list_length: "is_list h l xs \<Longrightarrow> list_length h l = Some (length xs)"
  by (auto simp: is_list_def list_length_def list_length_loop_seg)

lemma is_list_foreach: "is_list h l xs \<Longrightarrow> list_foreach h l (next (h l)) [] = Some xs"
  by (auto simp: is_list_def list_foreach_seg)

subsection \<open>The interface of intrusive lists\<close>

text \<open>
  What the clients of \<^verbatim>\<open>lib/list.c\<close> rely on.  \<open>repr h l xs\<close> says that the list with head \<open>l\<close>
  holds the items \<open>xs\<close> in iteration order; two lists are independent when their cells are disjoint.
\<close>

locale intrusive_list =
  fixes repr :: "'h \<Rightarrow> 'a \<Rightarrow> 'a list \<Rightarrow> bool"
    and usable :: "'a \<Rightarrow> bool"
    and init :: "'h \<Rightarrow> 'a \<Rightarrow> 'h"
    and add :: "'h \<Rightarrow> 'a \<Rightarrow> 'a \<Rightarrow> 'h"
    and remove :: "'h \<Rightarrow> 'a \<Rightarrow> 'h"
  assumes repr_init: "usable l \<Longrightarrow> repr (init h l) l []"
    and repr_distinct: "repr h l xs \<Longrightarrow> distinct (l # xs)"
    and repr_usable: "repr h l xs \<Longrightarrow> x \<in> set (l # xs) \<Longrightarrow> usable x"
    and repr_add: "repr h l xs \<Longrightarrow> usable x \<Longrightarrow> x \<notin> set (l # xs) \<Longrightarrow> repr (add h l x) l (x # xs)"
    and repr_add_other: "repr h l xs \<Longrightarrow> repr h m ys \<Longrightarrow> set (m # ys) \<inter> set (l # x # xs) = {} \<Longrightarrow>
      repr (add h l x) m ys"
    and repr_remove: "repr h l (xs @ x # ys) \<Longrightarrow> repr (remove h x) l (xs @ ys)"
    and repr_remove_other: "repr h l (xs @ x # ys) \<Longrightarrow> repr h m zs \<Longrightarrow>
      set (m # zs) \<inter> set (l # xs @ x # ys) = {} \<Longrightarrow> repr (remove h x) m zs"
begin

text \<open>Removing the item just added gives the old list.\<close>

lemma remove_add:
  assumes "repr h l xs" "usable x" "x \<notin> set (l # xs)"
  shows "repr (remove (add h l x) x) l xs"
  using repr_remove [of "add h l x" l "[]" x xs] repr_add [OF assms] by simp

text \<open>
  Moving an item to the front of another list, as \<^verbatim>\<open>get_block\<close> does with a free block and the
  scheduler with a process.
\<close>

lemma move_item:
  assumes l: "repr h l (xs @ x # ys)" and m: "repr h m zs"
    and disj: "set (m # zs) \<inter> set (l # xs @ x # ys) = {}"
  shows "repr (add (remove h x) m x) l (xs @ ys)" "repr (add (remove h x) m x) m (x # zs)"
proof -
  have rm: "repr (remove h x) l (xs @ ys)" "repr (remove h x) m zs"
    using repr_remove [OF l] repr_remove_other [OF l m disj] by auto
  have x: "usable x" "x \<notin> set (m # zs)" "x \<notin> set (l # xs @ ys)"
    using repr_usable [OF l, of x] disj repr_distinct [OF l] by auto
  show "repr (add (remove h x) m x) m (x # zs)" using rm(2) x(1,2) by (rule repr_add)
  show "repr (add (remove h x) m x) l (xs @ ys)"
    using rm(2,1) by (rule repr_add_other) (use disj x in auto)
qed

end

interpretation il: intrusive_list is_list "\<lambda>a. a \<noteq> NULL" list_init list_add list_remove
proof unfold_locales
  fix h l m xs ys zs x
  show "l \<noteq> NULL \<Longrightarrow> is_list (list_init h l) l []" by (rule is_list_init)
  show "is_list h l xs \<Longrightarrow> distinct (l # xs)" by (simp add: is_list_def)
  show "is_list h l xs \<Longrightarrow> x \<in> set (l # xs) \<Longrightarrow> x \<noteq> NULL" by (auto simp: is_list_def)
  show "is_list h l xs \<Longrightarrow> x \<noteq> NULL \<Longrightarrow> x \<notin> set (l # xs) \<Longrightarrow> is_list (list_add h l x) l (x # xs)"
    by (rule is_list_add)
  show "is_list (list_add h l x) m ys"
    if "is_list h l xs" "is_list h m ys" "set (m # ys) \<inter> set (l # x # xs) = {}"
    by (rule is_list_frame [OF that(2)]) (use that list_add_frame [OF that(1)] in blast)
  show "is_list h l (xs @ x # ys) \<Longrightarrow> is_list (list_remove h x) l (xs @ ys)"
    by (rule is_list_remove)
  show "is_list (list_remove h x) m zs"
    if "is_list h l (xs @ x # ys)" "is_list h m zs" "set (m # zs) \<inter> set (l # xs @ x # ys) = {}"
    by (rule is_list_frame [OF that(2)]) (use that is_list_remove(4) [OF that(1)] in blast)
qed

text \<open>C38: the linked-list functions of \<^verbatim>\<open>lib/list.c\<close> implement sequences: on a well-formed list
  \<open>list_add\<close> puts an item in front, \<open>list_remove\<close> takes an item out wherever it is (and clears its
  links), \<open>list_concat\<close> puts all items of the second list before those of the first and leaves the
  second empty, \<open>list_empty\<close> and \<open>list_length\<close> agree with the sequence, and the \<open>list_foreach\<close> loop
  ends and visits the items in order.\<close>

theorem list_refines_sequence:
  assumes l: "is_list h l xs"
  shows "(x \<noteq> NULL \<and> x \<notin> set (l # xs) \<longrightarrow> is_list (list_add h l x) l (x # xs)) \<and>
    (xs = us @ y # vs \<longrightarrow> is_list (list_remove h y) l (us @ vs) \<and>
       next (list_remove h y y) = NULL \<and> prev (list_remove h y y) = NULL) \<and>
    (is_list h m ys \<and> set (l # xs) \<inter> set (m # ys) = {} \<longrightarrow>
       is_list (list_concat h l m) l (ys @ xs) \<and> is_list (list_concat h l m) m []) \<and>
    (list_empty h l \<longleftrightarrow> xs = []) \<and> list_length h l = Some (length xs) \<and>
    list_foreach h l (next (h l)) [] = Some xs"
proof (intro conjI impI)
  show "is_list (list_add h l x) l (x # xs)" if "x \<noteq> NULL \<and> x \<notin> set (l # xs)"
    using l that by (intro is_list_add) simp_all
  show "is_list (list_remove h y) l (us @ vs)" "next (list_remove h y y) = NULL"
    "prev (list_remove h y y) = NULL" if "xs = us @ y # vs"
    using is_list_remove [of h l us y vs] l that by simp_all
  show "is_list (list_concat h l m) l (ys @ xs)" "is_list (list_concat h l m) m []"
    if "is_list h m ys \<and> set (l # xs) \<inter> set (m # ys) = {}"
    using is_list_concat [OF l, of m ys] that by blast+
  show "list_empty h l = (xs = [])" using l by (rule is_list_empty)
  show "list_length h l = Some (length xs)" using l by (rule is_list_length)
  show "list_foreach h l (next (h l)) [] = Some xs" using l by (rule is_list_foreach)
qed

theorem list_refines_sequence_witness:
  "\<exists>h. is_list h 1 [2] \<and> is_list (list_add h 1 3) 1 [3, 2] \<and> is_list (list_remove h 2) 1 [] \<and>
     list_length h 1 = Some 1 \<and> list_foreach h 1 2 [] = Some [2]"
proof -
  let ?h = "\<lambda>a. \<lparr>prev = (if a = 1 then 2 else 1), next = (if a = 1 then 2 else 1)\<rparr>"
  have l: "is_list ?h 1 [2]" by (simp add: is_list_def NULL_def)
  show ?thesis
    using list_refines_sequence [OF l, of 3 "[]" 2 "[]" 5 "[]"] l
    by (intro exI [of _ ?h]) (simp add: NULL_def)
qed

end
