(* ===== verification/Cy_Buddy.thy ===== *)
theory Cy_Buddy
  imports Cy_Prelude "HOL-Library.Signed_Division"
begin

text \<open>
  \<^verbatim>\<open>page.h\<close>, \<^verbatim>\<open>page.c\<close> and \<^verbatim>\<open>buddy.c\<close>: the page frames and the buddy
  allocator.  A pointer into the array \<^verbatim>\<open>pages\<close> is the index of the page in it.  The state
  is the array and the heads of the eleven free lists, linked through the pages.
\<close>

subsection \<open>Pages (page.h)\<close>

definition PAGE_START :: u32 where "PAGE_START = 0x65000000"
definition PAGE_SIZE :: nat where "PAGE_SIZE = 0x1000"
definition PAGE_NUM :: nat where "PAGE_NUM = 0x4000"
definition PAGE_MAX_ORDER :: nat where "PAGE_MAX_ORDER = 10"
definition PAGE_MAX_DEPTH :: nat where "PAGE_MAX_DEPTH = PAGE_MAX_ORDER + 1"
definition PF_FREE_LIST :: u32 where "PF_FREE_LIST = push_bit 0 1"
definition PF_FIRST_PAGE :: u32 where "PF_FIRST_PAGE = push_bit 1 1"

record page =
  pg_index :: nat
  pg_flags :: u32
  pg_order :: nat
  pg_next :: "nat option"

text \<open>The globals \<^verbatim>\<open>pages\<close> and \<^verbatim>\<open>free_lists\<close>.\<close>

record buddy =
  pages :: "nat \<Rightarrow> page"
  free_lists :: "nat \<Rightarrow> nat option"

definition upd_page :: "buddy \<Rightarrow> nat \<Rightarrow> (page \<Rightarrow> page) \<Rightarrow> buddy" where
  "upd_page s i f = s\<lparr>pages := (pages s)(i := f (pages s i))\<rparr>"

definition set_head :: "buddy \<Rightarrow> nat \<Rightarrow> nat option \<Rightarrow> buddy" where
  "set_head s k v = s\<lparr>free_lists := (free_lists s)(k := v)\<rparr>"

subsection \<open>Address arithmetic (page.c)\<close>

definition page_address :: "buddy \<Rightarrow> nat \<Rightarrow> u32" where
  "page_address s page = PAGE_START + of_nat (PAGE_SIZE * pg_index (pages s page))"

text \<open>The pointer difference is signed and C division truncates towards zero.\<close>

definition page_find_by_address :: "u32 \<Rightarrow> nat option" where
  "page_find_by_address address =
     (let idx = unat (word_of_int (sint (address - PAGE_START) sdiv int PAGE_SIZE) :: u32)
      in if idx < PAGE_NUM then Some idx else None)"

function page_find_head_loop :: "buddy \<Rightarrow> nat \<Rightarrow> nat option" where
  "page_find_head_loop s idx =
     (if idx < PAGE_NUM then
        if pg_flags (pages s idx) AND PF_FIRST_PAGE \<noteq> 0 then Some idx
        else page_find_head_loop s (if idx = 0 then 2 ^ 32 - 1 else idx - 1)
      else None)"
  by pat_completeness auto
termination
  by (relation "measure (\<lambda>(s, idx). if idx < PAGE_NUM then idx + 1 else 0)") (auto simp: PAGE_NUM_def)

definition page_find_head :: "buddy \<Rightarrow> nat \<Rightarrow> nat option" where
  "page_find_head s page = page_find_head_loop s (pg_index (pages s page))"

subsection \<open>Free lists (buddy.c)\<close>

definition buddy_find_buddy_index :: "page \<Rightarrow> nat" where
  "buddy_find_buddy_index p =
     (if odd (pg_index p div 2 ^ pg_order p) then pg_index p - 2 ^ pg_order p
      else pg_index p + 2 ^ pg_order p)"

definition buddy_list_pop :: "buddy \<Rightarrow> nat \<Rightarrow> nat option \<times> buddy" where
  "buddy_list_pop s k =
     (case free_lists s k of
        None \<Rightarrow> (None, s)
      | Some p \<Rightarrow>
          let s = set_head s k (pg_next (pages s p));
              s = upd_page s p (pg_next_update (\<lambda>_. None));
              s = upd_page s p (pg_flags_update (\<lambda>f. f AND NOT PF_FREE_LIST))
          in (Some p, s))"

definition buddy_list_push :: "buddy \<Rightarrow> nat \<Rightarrow> nat \<Rightarrow> buddy" where
  "buddy_list_push s k p =
     (let s = (case free_lists s k of
                 Some q \<Rightarrow> upd_page s p (pg_next_update (\<lambda>_. Some q))
               | None \<Rightarrow> upd_page s p (pg_next_update (\<lambda>_. None)));
          s = set_head s k (Some p)
      in upd_page s p (pg_flags_update (\<lambda>f. f OR PF_FREE_LIST)))"

text \<open>
  The loop of \<^verbatim>\<open>buddy_list_remove\<close>.  The pointer \<open>pp\<close> is the head of the list (\<^const>\<open>None\<close>)
  or the \<open>next\<close> field of a page.
\<close>

definition store_pp :: "buddy \<Rightarrow> nat \<Rightarrow> nat option \<Rightarrow> nat option \<Rightarrow> buddy" where
  "store_pp s k pp v =
     (case pp of None \<Rightarrow> set_head s k v | Some q \<Rightarrow> upd_page s q (pg_next_update (\<lambda>_. v)))"

partial_function (option) buddy_list_remove_loop ::
    "buddy \<Rightarrow> nat \<Rightarrow> nat option \<Rightarrow> nat option \<Rightarrow> nat \<Rightarrow> (nat option \<times> buddy) option" where
  "buddy_list_remove_loop s k pp page idx =
     (case page of
        None \<Rightarrow> Some (None, s)
      | Some p \<Rightarrow>
          if pg_index (pages s p) = idx then
            let s = store_pp s k pp (pg_next (pages s p));
                s = upd_page s p (pg_next_update (\<lambda>_. None));
                s = upd_page s p (pg_flags_update (\<lambda>f. f AND NOT PF_FREE_LIST))
            in Some (Some p, s)
          else buddy_list_remove_loop s k (Some p) (pg_next (pages s p)) idx)"

definition buddy_list_remove :: "buddy \<Rightarrow> nat \<Rightarrow> nat \<Rightarrow> (nat option \<times> buddy) option" where
  "buddy_list_remove s k idx = buddy_list_remove_loop s k None (free_lists s k) idx"

definition buddy_is_free_buddy :: "buddy \<Rightarrow> nat \<Rightarrow> nat \<Rightarrow> bool" where
  "buddy_is_free_buddy s page bud \<longleftrightarrow>
     pg_flags (pages s bud) AND PF_FREE_LIST \<noteq> 0 \<and> pg_order (pages s bud) = pg_order (pages s page)"

subsection \<open>Initialisation, allocation and release (buddy.c)\<close>

definition buddy_init :: buddy where
  "buddy_init =
     (let max_page_block = 2 ^ PAGE_MAX_ORDER;
          len = PAGE_NUM div max_page_block;
          s = \<lparr>pages = (\<lambda>_. \<lparr>pg_index = 0, pg_flags = 0, pg_order = 0, pg_next = None\<rparr>),
               free_lists = (\<lambda>_. None)\<rparr>;
          s = fold (\<lambda>i s. upd_page s i (pg_index_update (\<lambda>_. i))) [0..<PAGE_NUM] s;
          s = fold (\<lambda>i s. upd_page s (i * max_page_block)
                 (\<lambda>p. let p = (if i < len - 1 then p\<lparr>pg_next := Some ((i + 1) * max_page_block)\<rparr> else p)
                      in p\<lparr>pg_order := PAGE_MAX_ORDER, pg_flags := pg_flags p OR PF_FREE_LIST\<rparr>))
               [0..<len] s
      in set_head s PAGE_MAX_ORDER (Some 0))"

text \<open>The first loop of \<^verbatim>\<open>buddy_pull_block\<close>: the first non-empty list from \<open>i\<close> up.\<close>

function pull_find :: "buddy \<Rightarrow> nat \<Rightarrow> (nat \<times> nat \<times> buddy) option" where
  "pull_find s i =
     (if i < PAGE_MAX_DEPTH then
        case buddy_list_pop s i of
          (Some p, s') \<Rightarrow> Some (i, p, s')
        | (None, s') \<Rightarrow> pull_find s' (i + 1)
      else None)"
  by pat_completeness auto
termination
  by (relation "measure (\<lambda>(s, i). PAGE_MAX_DEPTH - i)") auto

text \<open>
  Its second loop, \<open>for (i = to; i >= from; --i)\<close>; the second argument is \<open>i + 1\<close>, so that the
  signed counter may pass below zero.
\<close>

fun pull_split :: "nat \<Rightarrow> nat \<Rightarrow> nat \<Rightarrow> buddy \<Rightarrow> nat \<times> buddy" where
  "pull_split from 0 page s = (page, s)"
| "pull_split from (Suc i) page s =
     (if i \<ge> from then
        let s = upd_page s page (pg_order_update (\<lambda>_. i));
            s = set_head s i (Some page);
            s = upd_page s page (pg_flags_update (\<lambda>f. f OR PF_FREE_LIST))
        in pull_split from i (page + 2 ^ i) s
      else (page, s))"

definition buddy_pull_block :: "buddy \<Rightarrow> nat \<Rightarrow> (nat \<times> buddy) option" where
  "buddy_pull_block s from =
     (case pull_find s (from + 1) of
        None \<Rightarrow> None
      | Some (i, page, s) \<Rightarrow>
          (case pull_split from i page s of
             (page, s) \<Rightarrow> Some (page, upd_page s page (pg_order_update (\<lambda>_. from)))))"

function buddy_alloc_loop :: "buddy \<Rightarrow> nat \<Rightarrow> nat \<Rightarrow> (nat \<times> buddy) option" where
  "buddy_alloc_loop s sz i =
     (if i < PAGE_MAX_DEPTH then
        if 2 ^ i * PAGE_SIZE \<ge> sz then
          case buddy_list_pop s i of
            (Some p, s') \<Rightarrow> Some (p, s')
          | (None, s') \<Rightarrow> buddy_pull_block s' i
        else buddy_alloc_loop s sz (i + 1)
      else None)"
  by pat_completeness auto
termination
  by (relation "measure (\<lambda>(s, sz, i). PAGE_MAX_DEPTH - i)") auto

definition buddy_alloc :: "buddy \<Rightarrow> nat \<Rightarrow> (nat \<times> buddy) option" where
  "buddy_alloc s sz =
     (case buddy_alloc_loop s sz 0 of
        None \<Rightarrow> None
      | Some (p, s) \<Rightarrow> Some (p, upd_page s p (pg_flags_update (\<lambda>f. f OR PF_FIRST_PAGE))))"

partial_function (option) buddy_free :: "buddy \<Rightarrow> nat \<Rightarrow> buddy option" where
  "buddy_free s page =
     (let k = pg_order (pages s page);
          bi = buddy_find_buddy_index (pages s page);
          s = upd_page s page (pg_flags_update (\<lambda>f. f AND NOT PF_FIRST_PAGE))
      in if k = PAGE_MAX_ORDER \<or> \<not> buddy_is_free_buddy s page bi then Some (buddy_list_push s k page)
         else
           let s = upd_page s page (pg_flags_update (\<lambda>f. f AND NOT PF_FREE_LIST));
               s = upd_page s page (pg_next_update (\<lambda>_. None))
           in Option.bind (buddy_list_remove s k bi) (\<lambda>(r, s).
                case r of
                  None \<Rightarrow> None
                | Some p \<Rightarrow>
                    let (page, s) =
                      (if odd (bi div 2 ^ pg_order (pages s page))
                       then (page, upd_page s p (pg_order_update (\<lambda>_. 0)))
                       else (p, upd_page s page (pg_order_update (\<lambda>_. 0))))
                    in buddy_free (upd_page s page (pg_order_update (\<lambda>k. k + 1))) page))"

end
