(* ===== verification/Cy_Buddy_Spec.thy ===== *)
theory Cy_Buddy_Spec
  imports Cy_Buddy
begin

text \<open>
  The abstract side of the buddy allocator: a tiling of the page frames by aligned power-of-two
  blocks, given by a map from the first page of a block to its order.  Splitting a block in two
  and merging two buddies are the two moves of the allocator, and both keep a tiling a tiling.
\<close>

definition tiling :: "(nat \<rightharpoonup> nat) \<Rightarrow> bool" where
  "tiling B \<longleftrightarrow>
     (\<forall>p k. B p = Some k \<longrightarrow> p < PAGE_NUM \<and> k \<le> PAGE_MAX_ORDER \<and> 2 ^ k dvd p) \<and>
     (\<forall>p k q. B p = Some k \<longrightarrow> p < q \<longrightarrow> q < p + 2 ^ k \<longrightarrow> B q = None) \<and>
     (\<forall>j < PAGE_NUM. \<exists>p k. B p = Some k \<and> p \<le> j \<and> j < p + 2 ^ k)"

definition buddy_of :: "nat \<Rightarrow> nat \<Rightarrow> nat" where
  "buddy_of p k = (if odd (p div 2 ^ k) then p - 2 ^ k else p + 2 ^ k)"

text \<open>No two free buddies of the same order remain unmerged.\<close>

definition coalesced :: "(nat \<rightharpoonup> nat) \<Rightarrow> nat set \<Rightarrow> bool" where
  "coalesced B FR \<longleftrightarrow>
     (\<forall>p \<in> FR. \<forall>k. B p = Some k \<longrightarrow> k < PAGE_MAX_ORDER \<longrightarrow> buddy_of p k \<in> FR \<longrightarrow> B (buddy_of p k) \<noteq> Some k)"

lemma tilingD:
  assumes "tiling B" "B p = Some k"
  shows "p < PAGE_NUM" "k \<le> PAGE_MAX_ORDER" "2 ^ k dvd p" "\<And>q. p < q \<Longrightarrow> q < p + 2 ^ k \<Longrightarrow> B q = None"
  using assms by (auto simp: tiling_def)

lemma tiling_coverE:
  assumes "tiling B" "j < PAGE_NUM"
  obtains p k where "B p = Some k" "p \<le> j" "j < p + 2 ^ k"
  using assms by (auto simp: tiling_def)

lemma aligned_add_le: "(d :: nat) dvd p \<Longrightarrow> d dvd n \<Longrightarrow> p < n \<Longrightarrow> p + d \<le> n"
  by (metis dvd_diff_nat dvd_imp_le le_diff_conv2 less_or_eq_imp_le zero_less_diff add.commute)

lemma order_dvd_PAGE_NUM: "k \<le> PAGE_MAX_ORDER \<Longrightarrow> 2 ^ k dvd PAGE_NUM"
proof -
  assume "k \<le> PAGE_MAX_ORDER"
  then have "(2::nat) ^ k dvd 2 ^ 14" by (intro le_imp_power_dvd) (simp add: PAGE_MAX_ORDER_def)
  then show ?thesis by (simp add: PAGE_NUM_def)
qed

lemma tiling_end: "tiling B \<Longrightarrow> B p = Some k \<Longrightarrow> p + 2 ^ k \<le> PAGE_NUM"
  by (rule aligned_add_le [OF tilingD(3) order_dvd_PAGE_NUM [OF tilingD(2)] tilingD(1)])

text \<open>Two different blocks share no page.\<close>

lemma tiling_disjoint:
  assumes "tiling B" "B p = Some k" "B q = Some l" "p \<noteq> q"
  shows "p + 2 ^ k \<le> q \<or> q + 2 ^ l \<le> p"
proof (rule ccontr)
  assume "\<not> ?thesis"
  then have o: "q < p + 2 ^ k" "p < q + 2 ^ l" by auto
  show False
  proof (cases "p < q")
    case True
    then show ?thesis using tilingD(4) [OF assms(1,2), of q] o assms(3) by simp
  next
    case False
    then show ?thesis using tilingD(4) [OF assms(1,3), of p] o assms(2,4) by simp
  qed
qed

subsection \<open>Buddies\<close>

lemma pow_Suc_dvd: "2 ^ Suc k dvd (p :: nat) \<Longrightarrow> 2 ^ k dvd p"
  by (metis dvd_mult_right power_Suc)

lemma even_div_of_dvd:
  assumes "2 ^ Suc k dvd (p :: nat)"
  shows "even (p div 2 ^ k)"
proof -
  from assms obtain m where "p = 2 ^ k * (2 * m)" by (auto elim: dvdE simp: mult.assoc)
  then show ?thesis by simp
qed

lemma buddy_of_cases:
  assumes "2 ^ k dvd (p :: nat)"
  obtains (upper) "odd (p div 2 ^ k)" "buddy_of p k + 2 ^ k = p" "2 ^ Suc k dvd buddy_of p k"
      "even (buddy_of p k div 2 ^ k)"
    | (lower) "even (p div 2 ^ k)" "buddy_of p k = p + 2 ^ k" "2 ^ Suc k dvd p"
      "odd (buddy_of p k div 2 ^ k)"
proof -
  from assms obtain m where m: "p = 2 ^ k * m" by (elim dvdE)
  show thesis
  proof (cases "odd m")
    case True
    then obtain n where n: "m = 2 * n + 1" by (elim oddE)
    have "buddy_of p k = 2 ^ Suc k * n" using m n True by (simp add: buddy_of_def algebra_simps)
    moreover have "2 ^ Suc k * n div 2 ^ k = 2 * n" by (simp add: mult.assoc [symmetric])
    ultimately show thesis using m n True by (intro upper) simp_all
  next
    case False
    then obtain n where n: "m = 2 * n" by auto
    have "buddy_of p k = 2 ^ k * (m + 1)" using m False by (simp add: buddy_of_def algebra_simps)
    then show thesis using m n False by (intro lower) simp_all
  qed
qed

lemma buddy_of_less:
  assumes "2 ^ k dvd p" "p < PAGE_NUM" "k < PAGE_MAX_ORDER"
  shows "buddy_of p k < PAGE_NUM"
  using assms(1)
proof (cases rule: buddy_of_cases)
  case upper
  then show ?thesis using assms(2) by (metis le_add1 le_less_trans)
next
  case lower
  have "p + 2 ^ Suc k \<le> PAGE_NUM"
    using lower(3) order_dvd_PAGE_NUM [of "Suc k"] assms by (intro aligned_add_le) simp_all
  moreover have "p + 2 ^ k < p + 2 ^ Suc k" by simp
  ultimately show ?thesis using lower(2) by linarith
qed

lemma buddy_of_aligned:
  assumes "2 ^ k dvd p"
  shows "2 ^ k dvd buddy_of p k"
  using assms by (cases rule: buddy_of_cases) (use assms in \<open>auto dest: pow_Suc_dvd\<close>)

lemma buddy_of_involutive:
  assumes "2 ^ k dvd p"
  shows "buddy_of (buddy_of p k) k = p"
  using assms by (cases rule: buddy_of_cases) (simp_all add: buddy_of_def [of "buddy_of p k"] buddy_of_def [of "p + 2 ^ k"])

subsection \<open>Splitting and merging\<close>

lemma tiling_split:
  assumes t: "tiling B" and p: "B p = Some (Suc k)"
  shows "tiling (B(p \<mapsto> k, p + 2 ^ k \<mapsto> k))" (is "tiling ?B")
  unfolding tiling_def
proof (intro conjI allI impI)
  have al: "2 ^ Suc k dvd p" using tilingD(3) [OF t p] .
  have fin: "p + 2 ^ Suc k \<le> PAGE_NUM" using tiling_end [OF t p] .
  have free: "q \<noteq> p \<Longrightarrow> p \<le> q \<Longrightarrow> q < p + 2 ^ Suc k \<Longrightarrow> B q = None" for q
    using tilingD(4) [OF t p, of q] by simp
  have two: "(2::nat) ^ Suc k = 2 ^ k + 2 ^ k" "(0::nat) < 2 ^ k" by simp_all
  have lo: "2 ^ k dvd p" "2 ^ k dvd p + 2 ^ k" using pow_Suc_dvd [OF al] by simp_all
  have lt: "p < PAGE_NUM" "p + 2 ^ k < PAGE_NUM" using fin two by linarith+
  fix q l assume ql: "?B q = Some l"
  then consider "q = p" "l = k" | "q = p + 2 ^ k" "l = k" | "q \<noteq> p" "q \<noteq> p + 2 ^ k" "B q = Some l"
    by (auto split: if_splits)
  note cs = this
  have "q < PAGE_NUM \<and> l \<le> PAGE_MAX_ORDER \<and> 2 ^ l dvd q"
    using cs
  proof cases
    case 3
    then show ?thesis using tilingD(1-3) [OF t 3(3)] by blast
  qed (use lt lo tilingD(2) [OF t p] in simp_all)
  then show "q < PAGE_NUM" "l \<le> PAGE_MAX_ORDER" "2 ^ l dvd q" by blast+
  fix r assume r: "q < r" "r < q + 2 ^ l"
  from cs show "?B r = None"
  proof cases
    case 3
    then have "B r = None" using tilingD(4) [OF t 3(3) r] by simp
    moreover have "q + 2 ^ l \<le> p \<or> p + 2 ^ Suc k \<le> q" using tiling_disjoint [OF t 3(3) p 3(1)] by simp
    ultimately show ?thesis using r two by auto
  qed (use r free two in auto)
next
  fix j assume "j < PAGE_NUM"
  then obtain q l where q: "B q = Some l" "q \<le> j" "j < q + 2 ^ l" by (rule tiling_coverE [OF t])
  have mid: "B (p + 2 ^ k) = None" using tilingD(4) [OF t p, of "p + 2 ^ k"] by simp
  show "\<exists>p' l. ?B p' = Some l \<and> p' \<le> j \<and> j < p' + 2 ^ l"
  proof (cases "q = p")
    case True
    then have "l = Suc k" using q p by simp
    then have j: "p \<le> j" "j < p + 2 ^ k + 2 ^ k" using q True by simp_all
    show ?thesis
    proof (cases "j < p + 2 ^ k")
      case True
      then show ?thesis using j by (intro exI [of _ p] exI [of _ k]) simp
    next
      case False
      then show ?thesis using j by (intro exI [of _ "p + 2 ^ k"] exI [of _ k]) simp
    qed
  next
    case False
    then have "?B q = Some l" using q(1) mid by auto
    then show ?thesis using q by blast
  qed
qed

lemma tiling_merge_lower:
  assumes t: "tiling B" and p: "B p = Some k" and q: "B (p + 2 ^ k) = Some k"
    and al: "2 ^ Suc k dvd p" and k: "k < PAGE_MAX_ORDER"
  shows "tiling (B(p \<mapsto> Suc k, p + 2 ^ k := None))" (is "tiling ?B")
  unfolding tiling_def
proof (intro conjI allI impI)
  have two: "(2::nat) ^ Suc k = 2 ^ k + 2 ^ k" "(0::nat) < 2 ^ k" by simp_all
  fix r l assume rl: "?B r = Some l"
  then consider "r = p" "l = Suc k" | "r \<noteq> p" "r \<noteq> p + 2 ^ k" "B r = Some l"
    by (auto split: if_splits)
  note cs = this
  have "r < PAGE_NUM \<and> l \<le> PAGE_MAX_ORDER \<and> 2 ^ l dvd r"
    using cs
  proof cases
    case 1
    then show ?thesis using al k tilingD(1) [OF t p] by simp
  next
    case 2
    then show ?thesis using tilingD(1-3) [OF t 2(3)] by blast
  qed
  then show "r < PAGE_NUM" "l \<le> PAGE_MAX_ORDER" "2 ^ l dvd r" by blast+
  fix j assume j: "r < j" "j < r + 2 ^ l"
  from cs show "?B j = None"
  proof cases
    case 1
    then show ?thesis
      using tilingD(4) [OF t p, of j] tilingD(4) [OF t q, of j] j two by (cases "j < p + 2 ^ k") auto
  next
    case 2
    then have "B j = None" "j \<noteq> p"
      using tilingD(4) [OF t 2(3) j] p by auto
    then show ?thesis by simp
  qed
next
  fix j assume "j < PAGE_NUM"
  then obtain r l where r: "B r = Some l" "r \<le> j" "j < r + 2 ^ l" by (rule tiling_coverE [OF t])
  show "\<exists>p' l. ?B p' = Some l \<and> p' \<le> j \<and> j < p' + 2 ^ l"
  proof (cases "r = p \<or> r = p + 2 ^ k")
    case True
    then have "p \<le> j \<and> j < p + 2 ^ Suc k" using r p q by auto
    then show ?thesis by (intro exI [of _ p] exI [of _ "Suc k"]) simp
  next
    case False
    then show ?thesis using r by (intro exI [of _ r] exI [of _ l]) simp
  qed
qed

text \<open>The first and the second half of the block two buddies make.\<close>

lemma tiling_merge:
  assumes t: "tiling B" and p: "B p = Some k" and b: "B (buddy_of p k) = Some k" and k: "k < PAGE_MAX_ORDER"
  shows "tiling (B(min p (buddy_of p k) \<mapsto> Suc k, max p (buddy_of p k) := None))"
  using tilingD(3) [OF t p]
proof (cases rule: buddy_of_cases)
  case upper
  have "tiling (B(buddy_of p k \<mapsto> Suc k, buddy_of p k + 2 ^ k := None))"
    using t b _ upper(3) k by (rule tiling_merge_lower) (use upper(2) p in simp)
  moreover have "min p (buddy_of p k) = buddy_of p k" "max p (buddy_of p k) = buddy_of p k + 2 ^ k"
    using upper(2) by linarith+
  ultimately show ?thesis by simp
next
  case lower
  have "tiling (B(p \<mapsto> Suc k, p + 2 ^ k := None))"
    using t p _ lower(3) k by (rule tiling_merge_lower) (use lower(2) b in simp)
  then show ?thesis using lower(2) by simp
qed

subsection \<open>No fragmentation\<close>

text \<open>
  A block of the smallest order below the maximum has its buddy in the tiling; so a coalesced
  tiling in which every block is free consists of maximal blocks only.
\<close>

lemma smallest_block_buddy:
  assumes t: "tiling B" and p: "B p = Some k" and k: "k < PAGE_MAX_ORDER"
    and least: "\<And>q l. B q = Some l \<Longrightarrow> k \<le> l"
  shows "B (buddy_of p k) = Some k"
proof -
  let ?b = "buddy_of p k"
  have al: "2 ^ k dvd p" and lt: "p < PAGE_NUM" using tilingD [OF t p] by auto
  obtain q l where q: "B q = Some l" "q \<le> ?b" "?b < q + 2 ^ l"
    using buddy_of_less [OF al lt k] by (rule tiling_coverE [OF t])
  have ql: "2 ^ l dvd q" using tilingD(3) [OF t q(1)] .
  have kl: "k \<le> l" using least q(1) .
  have "l = k"
  proof (rule ccontr)
    assume "l \<noteq> k"
    with kl have "(2::nat) ^ Suc k dvd 2 ^ l" by (intro le_imp_power_dvd) simp
    then have big: "2 ^ Suc k dvd q" "2 ^ Suc k dvd q + 2 ^ l" using ql by (auto intro: dvd_trans dvd_add)
    have "q \<le> p \<and> p < q + 2 ^ l"
      using al
    proof (cases rule: buddy_of_cases)
      case upper
      have "?b + 2 ^ Suc k \<le> q + 2 ^ l" using upper(3) big(2) q(3) by (rule aligned_add_le)
      moreover have "(0::nat) < 2 ^ k" "(2::nat) ^ Suc k = 2 * 2 ^ k" by simp_all
      ultimately show ?thesis using upper(2) q(2) by (intro conjI; linarith)
    next
      case lower
      have "q \<le> p"
      proof (rule ccontr)
        assume "\<not> q \<le> p"
        then have "p + 2 ^ Suc k \<le> q" using aligned_add_le [OF lower(3) big(1)] by simp
        moreover have "(0::nat) < 2 ^ k" "(2::nat) ^ Suc k = 2 * 2 ^ k" by simp_all
        ultimately show False using q(2) lower(2) by linarith
      qed
      then show ?thesis using q(3) lower(2) by simp
    qed
    moreover have "p \<noteq> q" using p q(1) \<open>l \<noteq> k\<close> by auto
    ultimately show False using tiling_disjoint [OF t p q(1)] zero_less_power [of "2::nat" k] by linarith
  qed
  have "2 ^ k dvd ?b" using al by (rule buddy_of_aligned)
  then have "q = ?b" using q(2,3) ql \<open>l = k\<close> aligned_add_le [of "2 ^ k" q ?b] by fastforce
  then show ?thesis using q(1) \<open>l = k\<close> by simp
qed

lemma coalesced_all_free_maximal:
  assumes t: "tiling B" and c: "coalesced B (dom B)" and p: "B p = Some k"
  shows "k = PAGE_MAX_ORDER"
proof -
  let ?P = "\<lambda>l. \<exists>q. B q = Some l"
  let ?m = "LEAST l. ?P l"
  obtain q where q: "B q = Some ?m" using LeastI [of ?P k] p by blast
  have least: "?m \<le> l" if "B r = Some l" for r l using that by (auto intro: Least_le)
  have "\<not> ?m < PAGE_MAX_ORDER"
  proof
    assume m: "?m < PAGE_MAX_ORDER"
    have "B (buddy_of q ?m) = Some ?m" using smallest_block_buddy [OF t q m] least by blast
    then show False using c q m by (auto simp: coalesced_def dom_def)
  qed
  then show ?thesis using least [OF p] tilingD(2) [OF t p] by simp
qed

end
