(* ===== verification/Cy_Buddy_Correct.thy ===== *)
theory Cy_Buddy_Correct
  imports Cy_Buddy_Spec
begin

text \<open>
  The buddy allocator implements a tiling.  \<open>repr s B FR US\<close> relates a state to a tiling \<open>B\<close>, the
  first pages \<open>FR\<close> of its free blocks and the first pages \<open>US\<close> of its blocks in use; a block of
  the tiling in neither is the one an operation has in its hands.  Each list operation is a move
  of one page between these sets, and allocation and release are sequences of such moves with
  splits and merges of the tiling in between.
\<close>

subsection \<open>Definitions\<close>

definition is_free :: "buddy \<Rightarrow> nat \<Rightarrow> bool" where
  "is_free s i \<longleftrightarrow> bit (pg_flags (pages s i)) 0"

definition is_first :: "buddy \<Rightarrow> nat \<Rightarrow> bool" where
  "is_first s i \<longleftrightarrow> bit (pg_flags (pages s i)) 1"

fun chain :: "(nat \<Rightarrow> page) \<Rightarrow> nat option \<Rightarrow> nat list \<Rightarrow> bool" where
  "chain ps p [] \<longleftrightarrow> p = None"
| "chain ps p (x # xs) \<longleftrightarrow> p = Some x \<and> chain ps (pg_next (ps x)) xs"

definition lists_ok :: "(nat \<Rightarrow> page) \<Rightarrow> (nat \<Rightarrow> nat option) \<Rightarrow> (nat \<rightharpoonup> nat) \<Rightarrow> nat set \<Rightarrow> bool" where
  "lists_ok ps fl B FR \<longleftrightarrow>
     (\<forall>k \<le> PAGE_MAX_ORDER. \<exists>xs. chain ps (fl k) xs \<and> distinct xs \<and> set xs = {i \<in> FR. B i = Some k})"

definition repr :: "buddy \<Rightarrow> (nat \<rightharpoonup> nat) \<Rightarrow> nat set \<Rightarrow> nat set \<Rightarrow> bool" where
  "repr s B FR US \<longleftrightarrow> tiling B \<and> FR \<union> US \<subseteq> dom B \<and> FR \<inter> US = {} \<and>
     (\<forall>i < PAGE_NUM. pg_index (pages s i) = i \<and> is_free s i = (i \<in> FR) \<and> is_first s i = (i \<in> US) \<and>
        (B i = None \<longrightarrow> pg_next (pages s i) = None)) \<and>
     (\<forall>i \<in> FR \<union> US. B i = Some (pg_order (pages s i))) \<and>
     lists_ok (pages s) (free_lists s) B FR"

text \<open>The allocator's invariant: every block of the tiling is free or in use, and free buddies
  are merged.\<close>

definition buddy_inv :: "buddy \<Rightarrow> bool" where
  "buddy_inv s \<longleftrightarrow> (\<exists>B FR US. repr s B FR US \<and> dom B = FR \<union> US \<and> coalesced B FR)"

text \<open>The blocks in use and the free blocks, as pairs of first page and order.\<close>

definition used_blocks :: "buddy \<Rightarrow> (nat \<times> nat) set" where
  "used_blocks s = {(i, pg_order (pages s i)) | i. i < PAGE_NUM \<and> is_first s i}"

definition free_blocks :: "buddy \<Rightarrow> (nat \<times> nat) set" where
  "free_blocks s = {(i, pg_order (pages s i)) | i. i < PAGE_NUM \<and> is_free s i}"

definition block_pages :: "nat \<times> nat \<Rightarrow> nat set" where
  "block_pages b = {fst b..<fst b + 2 ^ snd b}"

subsection \<open>State updates and flags\<close>

lemma upd_page_simps [simp]:
  "pages (upd_page s i f) j = (if j = i then f (pages s i) else pages s j)"
  "free_lists (upd_page s i f) = free_lists s"
  by (simp_all add: upd_page_def)

lemma set_head_simps [simp]:
  "pages (set_head s k v) = pages s" "free_lists (set_head s k v) = (free_lists s)(k := v)"
  by (simp_all add: set_head_def)

lemma flag_bits [simp]:
  "(f AND PF_FREE_LIST \<noteq> 0) = bit f 0" "(f AND PF_FREE_LIST = 0) = (\<not> bit f 0)"
  "(f AND PF_FIRST_PAGE \<noteq> 0) = bit f 1" "(f AND PF_FIRST_PAGE = 0) = (\<not> bit f 1)"
  "bit (f OR PF_FREE_LIST) n = (bit f n \<or> n = 0)" "bit (f AND NOT PF_FREE_LIST) n = (bit f n \<and> n \<noteq> 0)"
  "bit (f OR PF_FIRST_PAGE) n = (bit f n \<or> n = 1)" "bit (f AND NOT PF_FIRST_PAGE) n = (bit f n \<and> n \<noteq> 1)"
  using and_exp_iff [of f 0] and_exp_iff [of f 1] bit_or_exp [of f 0 n] bit_and_not_exp [of f 0 n]
    bit_or_exp [of f 1 n] bit_and_not_exp [of f 1 n]
  by (auto simp: PF_FREE_LIST_def PF_FIRST_PAGE_def)

subsection \<open>Linked free lists\<close>

lemma chain_frame:
  "\<forall>x \<in> set xs. pg_next (ps' x) = pg_next (ps x) \<Longrightarrow> chain ps' p xs = chain ps p xs"
  by (induction xs arbitrary: p) auto

lemma chain_append: "chain ps p (xs @ y # ys) \<Longrightarrow> chain ps (Some y) (y # ys)"
  by (induction xs arbitrary: p) auto

lemma lists_okE:
  assumes "lists_ok ps fl B FR" "k \<le> PAGE_MAX_ORDER"
  obtains xs where "chain ps (fl k) xs" "distinct xs" "set xs = {i \<in> FR. B i = Some k}"
  using assms by (auto simp: lists_ok_def)

lemma lists_ok_frame:
  assumes "lists_ok ps fl B FR" "\<And>i. i \<in> FR \<Longrightarrow> pg_next (ps' i) = pg_next (ps i)"
    "\<And>i. i \<in> FR \<Longrightarrow> B' i = B i"
  shows "lists_ok ps' fl B' FR"
  unfolding lists_ok_def
proof (intro allI impI)
  fix k assume "k \<le> PAGE_MAX_ORDER"
  with assms(1) obtain xs where xs: "chain ps (fl k) xs" "distinct xs" "set xs = {i \<in> FR. B i = Some k}"
    by (rule lists_okE)
  then have "chain ps' (fl k) xs" using assms(2) chain_frame [of xs ps' ps] by simp
  then show "\<exists>xs. chain ps' (fl k) xs \<and> distinct xs \<and> set xs = {i \<in> FR. B' i = Some k}"
    using xs assms(3) by (intro exI [of _ xs]) auto
qed

text \<open>Changing one list: the other lists are as they were.\<close>

lemma lists_ok_update:
  assumes ok: "lists_ok ps fl B FR" and k: "k \<le> PAGE_MAX_ORDER"
    and new: "chain ps' v xs" "distinct xs" "set xs = {i \<in> FR'. B i = Some k}"
    and same: "\<And>i l. B i = Some l \<Longrightarrow> l \<noteq> k \<Longrightarrow> i \<in> FR' \<longleftrightarrow> i \<in> FR"
    and nxt: "\<And>i. i \<in> FR \<Longrightarrow> B i \<noteq> Some k \<Longrightarrow> pg_next (ps' i) = pg_next (ps i)"
  shows "lists_ok ps' (fl(k := v)) B FR'"
  unfolding lists_ok_def
proof (intro allI impI)
  fix l assume l: "l \<le> PAGE_MAX_ORDER"
  show "\<exists>xs. chain ps' ((fl(k := v)) l) xs \<and> distinct xs \<and> set xs = {i \<in> FR'. B i = Some l}"
  proof (cases "l = k")
    case True
    with new show ?thesis by auto
  next
    case False
    from ok l obtain ys where ys: "chain ps (fl l) ys" "distinct ys" "set ys = {i \<in> FR. B i = Some l}"
      by (rule lists_okE)
    then have "chain ps' (fl l) ys" using nxt False chain_frame [of ys ps' ps] by simp
    moreover have "set ys = {i \<in> FR'. B i = Some l}" using ys(3) same False by auto
    ultimately show ?thesis using ys(2) False by auto
  qed
qed

lemma lists_ok_pop:
  assumes ok: "lists_ok ps fl B FR" and k: "k \<le> PAGE_MAX_ORDER" and p: "fl k = Some p"
    and nxt: "\<And>i. i \<noteq> p \<Longrightarrow> pg_next (ps' i) = pg_next (ps i)"
  shows "p \<in> FR" "B p = Some k" "lists_ok ps' (fl(k := pg_next (ps p))) B (FR - {p})"
proof -
  from ok k obtain xs where xs: "chain ps (fl k) xs" "distinct xs" "set xs = {i \<in> FR. B i = Some k}"
    by (rule lists_okE)
  with p obtain ys where ys: "xs = p # ys" by (cases xs) auto
  with xs show "p \<in> FR" "B p = Some k" by auto
  have "\<forall>y \<in> set ys. pg_next (ps' y) = pg_next (ps y)" using xs(2) ys nxt by (metis distinct.simps(2))
  then have "chain ps' (pg_next (ps p)) ys" using xs(1) ys chain_frame [of ys ps' ps] by simp
  moreover have "set ys = {i \<in> FR - {p}. B i = Some k}" using xs ys by auto
  ultimately show "lists_ok ps' (fl(k := pg_next (ps p))) B (FR - {p})"
    using xs ys nxt \<open>B p = Some k\<close> by (intro lists_ok_update [OF ok k, where xs = ys]) auto
qed

lemma lists_ok_push:
  assumes ok: "lists_ok ps fl B FR" and k: "k \<le> PAGE_MAX_ORDER" and p: "p \<notin> FR" "B p = Some k"
    and nxt: "pg_next (ps' p) = fl k" "\<And>i. i \<noteq> p \<Longrightarrow> pg_next (ps' i) = pg_next (ps i)"
  shows "lists_ok ps' (fl(k := Some p)) B (insert p FR)"
proof -
  from ok k obtain xs where xs: "chain ps (fl k) xs" "distinct xs" "set xs = {i \<in> FR. B i = Some k}"
    by (rule lists_okE)
  have pxs: "p \<notin> set xs" using xs(3) p(1) by simp
  then have "\<forall>y \<in> set xs. pg_next (ps' y) = pg_next (ps y)" using nxt(2) by metis
  then have "chain ps' (fl k) xs" using xs(1) chain_frame [of xs ps' ps] by simp
  then have new: "chain ps' (Some p) (p # xs)" using nxt(1) by simp
  have "distinct (p # xs)" using xs(2) pxs by simp
  moreover have "set (p # xs) = {i \<in> insert p FR. B i = Some k}" using xs(3) p(2) by auto
  ultimately show ?thesis using ok k new
  proof (intro lists_ok_update [where ps = ps and FR = FR and xs = "p # xs"])
    show "(i \<in> insert p FR) = (i \<in> FR)" if "B i = Some l" "l \<noteq> k" for i l using that p(2) by auto
    show "pg_next (ps' i) = pg_next (ps i)" if "i \<in> FR" for i using that p(1) nxt(2) by metis
  qed
qed

lemma chain_unlink:
  "chain ps h (us @ q # x # vs) \<Longrightarrow> distinct (us @ q # x # vs) \<Longrightarrow>
   pg_next (ps' q) = pg_next (ps x) \<Longrightarrow> (\<And>i. i \<noteq> q \<Longrightarrow> i \<noteq> x \<Longrightarrow> pg_next (ps' i) = pg_next (ps i)) \<Longrightarrow>
   chain ps' h (us @ q # vs)"
proof (induction us arbitrary: h)
  case Nil
  then have "chain ps (pg_next (ps x)) vs" "q \<notin> set vs" "x \<notin> set vs" by auto
  moreover from this have "\<forall>y \<in> set vs. pg_next (ps' y) = pg_next (ps y)" using Nil.prems(4) by metis
  ultimately have "chain ps' (pg_next (ps x)) vs" using chain_frame [of vs ps' ps] by simp
  with Nil show ?case by simp
next
  case (Cons u us)
  then have "u \<noteq> q" "u \<noteq> x" by auto
  with Cons show ?case by simp
qed

text \<open>The store after unlinking \<open>x\<close>.\<close>

definition unlinked :: "buddy \<Rightarrow> nat \<Rightarrow> nat option \<Rightarrow> nat \<Rightarrow> buddy" where
  "unlinked s k pp x =
     upd_page (upd_page (store_pp s k pp (pg_next (pages s x))) x (pg_next_update (\<lambda>_. None)))
       x (pg_flags_update (\<lambda>f. f AND NOT PF_FREE_LIST))"

lemma buddy_list_remove_loop_finds:
  "chain (pages s) page (ws @ x # vs) \<Longrightarrow> distinct (ws @ x # vs) \<Longrightarrow>
   \<forall>y \<in> set (ws @ [x]). pg_index (pages s y) = y \<Longrightarrow>
   buddy_list_remove_loop s k pp page x =
     Some (Some x, unlinked s k (if ws = [] then pp else Some (last ws)) x)"
proof (induction ws arbitrary: pp page)
  case Nil
  then show ?case by (simp add: buddy_list_remove_loop.simps unlinked_def Let_def)
next
  case (Cons w ws)
  then have "page = Some w" "pg_index (pages s w) = w" "w \<noteq> x" by auto
  then have "buddy_list_remove_loop s k pp page x =
      buddy_list_remove_loop s k (Some w) (pg_next (pages s w)) x"
    by (simp add: buddy_list_remove_loop.simps [of s k pp "Some w"])
  also have "\<dots> = Some (Some x, unlinked s k (if ws = [] then Some w else Some (last ws)) x)"
    using Cons.prems \<open>page = Some w\<close> by (intro Cons.IH) auto
  finally show ?case by (simp split: if_splits)
qed

subsection \<open>One page changes hands\<close>

lemma reprD:
  assumes "repr s B FR US"
  shows "tiling B" "FR \<subseteq> dom B" "US \<subseteq> dom B" "FR \<inter> US = {}"
    "lists_ok (pages s) (free_lists s) B FR"
    "\<And>i. i < PAGE_NUM \<Longrightarrow> pg_index (pages s i) = i"
    "\<And>i. i < PAGE_NUM \<Longrightarrow> is_free s i = (i \<in> FR)"
    "\<And>i. i < PAGE_NUM \<Longrightarrow> is_first s i = (i \<in> US)"
    "\<And>i. i < PAGE_NUM \<Longrightarrow> B i = None \<Longrightarrow> pg_next (pages s i) = None"
    "\<And>i. i \<in> FR \<Longrightarrow> B i = Some (pg_order (pages s i))"
    "\<And>i. i \<in> US \<Longrightarrow> B i = Some (pg_order (pages s i))"
  using assms by (auto simp: repr_def)

text \<open>
  A state that differs from a represented one in the membership of one block's first page (and in
  the links of the free lists) is represented by the sets with that page moved.
\<close>

lemma repr_move:
  assumes r: "repr s B FR US" and p: "B p = Some k"
    and other: "\<And>i. i \<noteq> p \<Longrightarrow> pg_index (pages s' i) = pg_index (pages s i) \<and>
        pg_flags (pages s' i) = pg_flags (pages s i) \<and> pg_order (pages s' i) = pg_order (pages s i)"
    and none: "\<And>i. B i = None \<Longrightarrow> pg_next (pages s' i) = pg_next (pages s i)"
    and page: "pg_index (pages s' p) = p" "is_free s' p = (p \<in> FR')" "is_first s' p = (p \<in> US')"
      "p \<in> FR' \<union> US' \<Longrightarrow> pg_order (pages s' p) = k"
    and sets: "FR' - {p} = FR - {p}" "US' - {p} = US - {p}" "FR' \<inter> US' = {}"
    and lists: "lists_ok (pages s') (free_lists s') B FR'"
  shows "repr s' B FR' US'"
proof -
  note d = reprD [OF r]
  have mem: "i \<in> FR' \<longleftrightarrow> i \<in> FR" "i \<in> US' \<longleftrightarrow> i \<in> US" if "i \<noteq> p" for i using sets that by auto
  have flags: "is_free s' i = is_free s i" "is_first s' i = is_first s i" if "i \<noteq> p" for i
    using other [OF that] by (simp_all add: is_free_def is_first_def)
  have "FR' \<union> US' \<subseteq> insert p (FR \<union> US)" using sets by auto
  then have "FR' \<union> US' \<subseteq> dom B" using d(2,3) p by auto
  moreover have "pg_index (pages s' i) = i \<and> is_free s' i = (i \<in> FR') \<and> is_first s' i = (i \<in> US') \<and>
      (B i = None \<longrightarrow> pg_next (pages s' i) = None)" if i: "i < PAGE_NUM" for i
  proof (cases "i = p")
    case True
    then show ?thesis using page p by simp
  next
    case False
    then show ?thesis using d(6-9) [OF i] other [OF False] flags [OF False] mem [OF False] none [of i] by simp
  qed
  moreover have "B i = Some (pg_order (pages s' i))" if i: "i \<in> FR' \<union> US'" for i
  proof (cases "i = p")
    case True
    then show ?thesis using page(4) p i by simp
  next
    case False
    then show ?thesis using d(10,11) [of i] other [OF False] mem [OF False] i by auto
  qed
  ultimately show ?thesis unfolding repr_def using d(1) sets(3) lists by blast
qed

lemma repr_pop:
  assumes r: "repr s B FR US" and k: "k \<le> PAGE_MAX_ORDER" and p: "free_lists s k = Some p"
    and pop: "buddy_list_pop s k = (q, s')"
  shows "q = Some p" "p \<in> FR" "B p = Some k" "repr s' B (FR - {p}) US" "pg_next (pages s' p) = None"
    "pg_order (pages s' p) = k" "\<And>i. i \<noteq> p \<Longrightarrow> pages s' i = pages s i"
    "\<And>l. l \<noteq> k \<Longrightarrow> free_lists s' l = free_lists s l"
proof -
  note d = reprD [OF r]
  have s': "s' = upd_page (upd_page (set_head s k (pg_next (pages s p))) p (pg_next_update (\<lambda>_. None)))
      p (pg_flags_update (\<lambda>f. f AND NOT PF_FREE_LIST))" and q: "q = Some p"
    using p pop by (simp_all add: buddy_list_pop_def Let_def)
  show "q = Some p" by (rule q)
  have pop_ok: "p \<in> FR" "B p = Some k"
    "lists_ok (pages s') ((free_lists s)(k := pg_next (pages s p))) B (FR - {p})"
    by (rule lists_ok_pop [OF d(5) k p]; simp add: s')+
  show "p \<in> FR" "B p = Some k" by (rule pop_ok)+
  show other: "\<And>i. i \<noteq> p \<Longrightarrow> pages s' i = pages s i" "pg_next (pages s' p) = None"
    "\<And>l. l \<noteq> k \<Longrightarrow> free_lists s' l = free_lists s l"
    by (simp_all add: s')
  show ord: "pg_order (pages s' p) = k" using d(10) [OF pop_ok(1)] pop_ok(2) by (simp add: s')
  have "p < PAGE_NUM" using tilingD(1) [OF d(1) pop_ok(2)] .
  show "repr s' B (FR - {p}) US"
    using r pop_ok(2)
  proof (rule repr_move)
    show "pg_index (pages s' p) = p" "is_free s' p = (p \<in> FR - {p})" "is_first s' p = (p \<in> US)"
      using d(6,8) [OF \<open>p < PAGE_NUM\<close>] by (simp_all add: s' is_free_def is_first_def)
    show "lists_ok (pages s') (free_lists s') B (FR - {p})" using pop_ok(3) by (simp add: s')
    show "pg_next (pages s' i) = pg_next (pages s i)" if "B i = None" for i
      using that pop_ok(2) other(1) [of i] by (cases "i = p") simp_all
  qed (use other ord d(4) in auto)
qed

lemma repr_push:
  assumes r: "repr s B FR US" and p: "B p = Some k" "p \<notin> FR" "p \<notin> US" and ord: "pg_order (pages s p) = k"
  shows "repr (buddy_list_push s k p) B (insert p FR) US"
    "\<And>i. i \<noteq> p \<Longrightarrow> pages (buddy_list_push s k p) i = pages s i"
proof -
  let ?s = "buddy_list_push s k p"
  note d = reprD [OF r]
  have k: "k \<le> PAGE_MAX_ORDER" and pn: "p < PAGE_NUM" using tilingD [OF d(1) p(1)] by auto
  have pg: "pages ?s p = (pages s p)\<lparr>pg_next := free_lists s k, pg_flags := pg_flags (pages s p) OR PF_FREE_LIST\<rparr>"
    and fl: "free_lists ?s = (free_lists s)(k := Some p)"
    by (simp_all add: buddy_list_push_def Let_def split: option.splits)
  show other: "\<And>i. i \<noteq> p \<Longrightarrow> pages ?s i = pages s i"
    by (simp add: buddy_list_push_def Let_def split: option.splits)
  have lists: "lists_ok (pages ?s) ((free_lists s)(k := Some p)) B (insert p FR)"
    using d(5) k p(2,1) by (rule lists_ok_push) (simp_all add: pg other)
  show "repr ?s B (insert p FR) US"
    using r p(1)
  proof (rule repr_move)
    show "pg_index (pages ?s p) = p" "is_free ?s p = (p \<in> insert p FR)" "is_first ?s p = (p \<in> US)"
      using d(6,8) [OF pn] by (simp_all add: pg is_free_def is_first_def)
    show "pg_next (pages ?s i) = pg_next (pages s i)" if "B i = None" for i
      using that p(1) other [of i] by (cases "i = p") simp_all
  qed (use other ord d(4) p lists in \<open>auto simp: pg fl\<close>)
qed

text \<open>Marking a block as in use, and unmarking it.\<close>

lemma repr_mark:
  assumes r: "repr s B FR US" and p: "B p = Some k" "p \<notin> FR" and ord: "pg_order (pages s p) = k"
  shows "repr (upd_page s p (pg_flags_update (\<lambda>f. f OR PF_FIRST_PAGE))) B FR (insert p US)" (is "repr ?s _ _ _")
  using r p(1)
proof (rule repr_move)
  note d = reprD [OF r]
  have "p < PAGE_NUM" using tilingD [OF d(1) p(1)] by auto
  then show "pg_index (pages ?s p) = p" "is_free ?s p = (p \<in> FR)" "is_first ?s p = (p \<in> insert p US)"
    using d(6,7) by (simp_all add: is_free_def is_first_def)
  show "lists_ok (pages ?s) (free_lists ?s) B FR"
    using lists_ok_frame [OF d(5), of "pages ?s" B] by simp
qed (use ord p reprD(4) [OF r] in auto)

lemma repr_unmark:
  assumes r: "repr s B FR US" and p: "B p = Some k" "p \<notin> FR"
  shows "repr (upd_page s p (pg_flags_update (\<lambda>f. f AND NOT PF_FIRST_PAGE))) B FR (US - {p})" (is "repr ?s _ _ _")
  using r p(1)
proof (rule repr_move)
  note d = reprD [OF r]
  have "p < PAGE_NUM" using tilingD [OF d(1) p(1)] by auto
  then show "pg_index (pages ?s p) = p" "is_free ?s p = (p \<in> FR)" "is_first ?s p = (p \<in> US - {p})"
    using d(6,7) by (simp_all add: is_free_def is_first_def)
  show "lists_ok (pages ?s) (free_lists ?s) B FR"
    using lists_ok_frame [OF d(5), of "pages ?s" B] by simp
qed (use p reprD(4) [OF r] in auto)

lemma unlinked_pages:
  "pages (unlinked s k pp p) p = (pages s p)\<lparr>pg_next := None, pg_flags := pg_flags (pages s p) AND NOT PF_FREE_LIST\<rparr>"
  "i \<noteq> p \<Longrightarrow> pages (unlinked s k pp p) i =
     (if pp = Some i then (pages s i)\<lparr>pg_next := pg_next (pages s p)\<rparr> else pages s i)"
  "free_lists (unlinked s k pp p) = (if pp = None then (free_lists s)(k := pg_next (pages s p)) else free_lists s)"
  by (auto simp: unlinked_def store_pp_def split: option.splits)

lemma lists_ok_unlink:
  assumes ok: "lists_ok (pages s) (free_lists s) B FR" and k: "k \<le> PAGE_MAX_ORDER"
    and xs: "chain (pages s) (free_lists s k) (ws @ p # vs)" "distinct (ws @ p # vs)"
      "set (ws @ p # vs) = {i \<in> FR. B i = Some k}"
    and s': "s' = unlinked s k (if ws = [] then None else Some (last ws)) p"
  shows "lists_ok (pages s') (free_lists s') B (FR - {p})"
proof (cases ws rule: rev_cases)
  case Nil
  then have "free_lists s k = Some p" using xs(1) by simp
  from lists_ok_pop(3) [OF ok k this, of "pages s'"] show ?thesis
    using Nil by (simp add: s' unlinked_pages)
next
  case (snoc us q)
  then have s'q: "s' = unlinked s k (Some q) p" by (simp add: s')
  have qp: "q \<noteq> p" using xs(2) snoc by auto
  have chain: "chain (pages s') (free_lists s k) (us @ q # vs)"
    by (rule chain_unlink [of "pages s" _ us q p vs]) (use xs snoc qp in \<open>auto simp: s'q unlinked_pages\<close>)
  have "lists_ok (pages s') ((free_lists s)(k := free_lists s k)) B (FR - {p})"
    using ok k chain
  proof (rule lists_ok_update)
    show "distinct (us @ q # vs)" using xs(2) snoc by auto
    show "set (us @ q # vs) = {i \<in> FR - {p}. B i = Some k}" using xs(2,3) snoc by auto
    have "B p = Some k" "B q = Some k" using xs(3) snoc by auto
    then show "(i \<in> FR - {p}) = (i \<in> FR)" if "B i = Some l" "l \<noteq> k" for i l using that by auto
    show "pg_next (pages s' i) = pg_next (pages s i)" if "B i \<noteq> Some k" for i
      using that \<open>B p = Some k\<close> \<open>B q = Some k\<close> by (cases "i = p") (auto simp: s'q unlinked_pages)
  qed
  then show ?thesis by (simp add: s'q unlinked_pages)
qed

lemma repr_remove:
  assumes r: "repr s B FR US" and p: "B p = Some k" "p \<in> FR"
  obtains s' where "buddy_list_remove s k p = Some (Some p, s')" "repr s' B (FR - {p}) US"
    "pg_next (pages s' p) = None" "\<forall>i. pg_order (pages s' i) = pg_order (pages s i)"
    "\<forall>i. i \<notin> FR \<longrightarrow> pages s' i = pages s i"
proof -
  note d = reprD [OF r]
  have k: "k \<le> PAGE_MAX_ORDER" using tilingD [OF d(1) p(1)] by auto
  have less: "i < PAGE_NUM" if "i \<in> FR" for i using that d(2) tilingD(1) [OF d(1)] by blast
  obtain xs where xs: "chain (pages s) (free_lists s k) xs" "distinct xs" "set xs = {i \<in> FR. B i = Some k}"
    using d(5) k by (rule lists_okE)
  then obtain ws vs where ws: "xs = ws @ p # vs" using p by (metis (mono_tags, lifting) mem_Collect_eq split_list)
  define pp where "pp = (if ws = [] then None else Some (last ws))"
  define s' where "s' = unlinked s k pp p"
  have ppFR: "q \<in> FR \<and> q \<noteq> p" if "pp = Some q" for q
  proof -
    from that have q: "q \<in> set ws" by (auto simp: pp_def split: if_splits)
    then have "q \<in> set xs" "q \<noteq> p" using xs(2) ws by auto
    then show ?thesis using xs(3) by simp
  qed
  have "\<forall>y \<in> set (ws @ [p]). pg_index (pages s y) = y" using xs(3) ws d(6) less by auto
  then have "buddy_list_remove s k p = Some (Some p, s')"
    unfolding buddy_list_remove_def s'_def pp_def
    using xs(1,2) ws buddy_list_remove_loop_finds [of s "free_lists s k" ws p vs k None] by simp
  moreover have lists: "lists_ok (pages s') (free_lists s') B (FR - {p})"
    using lists_ok_unlink [OF d(5) k, of ws p vs s'] xs ws by (simp add: s'_def pp_def)
  have "repr s' B (FR - {p}) US"
    using r p(1)
  proof (rule repr_move)
    show "pg_next (pages s' i) = pg_next (pages s i)" if "B i = None" for i
      using that p(1) ppFR d(2) by (cases "i = p") (auto simp: s'_def unlinked_pages)
  qed (use d(4,6,8) less p d(10) lists in \<open>auto simp: s'_def unlinked_pages is_free_def is_first_def\<close>)
  moreover have "pg_next (pages s' p) = None" by (simp add: s'_def unlinked_pages)
  moreover have "pg_order (pages s' i) = pg_order (pages s i)" for i
    by (cases "i = p") (simp_all add: s'_def unlinked_pages)
  moreover have "pages s' i = pages s i" if "i \<notin> FR" for i
    using that p(2) ppFR by (cases "i = p") (auto simp: s'_def unlinked_pages)
  ultimately show thesis using that by simp
qed

subsection \<open>Splitting and merging in the state\<close>

lemma repr_split:
  assumes r: "repr s B FR US" and p: "B p = Some (Suc i)" "p \<notin> FR" "p \<notin> US"
    and nxt: "pg_next (pages s p) = None" and fl: "free_lists s i = None"
    and s': "s' = upd_page (set_head (upd_page s p (pg_order_update (\<lambda>_. i))) i (Some p)) p
        (pg_flags_update (\<lambda>f. f OR PF_FREE_LIST))"
    and B': "B' = B(p \<mapsto> i, p + 2 ^ i \<mapsto> i)"
  shows "repr s' B' (insert p FR) US" "B (p + 2 ^ i) = None" "pg_next (pages s' (p + 2 ^ i)) = None"
    "\<And>j. j \<noteq> p \<Longrightarrow> pages s' j = pages s j"
proof -
  note d = reprD [OF r]
  let ?q = "p + 2 ^ i"
  have i: "i \<le> PAGE_MAX_ORDER" and pn: "p < PAGE_NUM" using tilingD [OF d(1) p(1)] by auto
  have qn: "?q < PAGE_NUM" using tiling_end [OF d(1) p(1)] power_Suc [of "2::nat" i] zero_less_power [of "2::nat" i]
    by linarith
  show Bq: "B ?q = None" using tilingD(4) [OF d(1) p(1), of ?q] by simp
  show other: "\<And>j. j \<noteq> p \<Longrightarrow> pages s' j = pages s j" by (simp add: s')
  show "pg_next (pages s' ?q) = None" using d(9) [OF qn Bq] by (simp add: s')
  have pg: "pages s' p = (pages s p)\<lparr>pg_order := i, pg_flags := pg_flags (pages s p) OR PF_FREE_LIST\<rparr>"
    by (simp add: s')
  have agree: "B' j = B j" if "j \<in> FR \<union> US" for j
    using that p(2,3) Bq d(2,3) by (auto simp: B' dom_def)
  have "lists_ok (pages s) (free_lists s) B' FR" using d(5) by (rule lists_ok_frame) (simp_all add: agree)
  then have lists: "lists_ok (pages s') ((free_lists s)(i := Some p)) B' (insert p FR)"
    using i p(2) _ by (rule lists_ok_push) (auto simp: pg nxt fl other B')
  show "repr s' B' (insert p FR) US"
    unfolding repr_def
  proof (intro conjI ballI allI impI)
    show "tiling B'" unfolding B' using d(1) p(1) by (rule tiling_split)
    show "insert p FR \<union> US \<subseteq> dom B'" using d(2,3) by (auto simp: B')
    show "insert p FR \<inter> US = {}" using d(4) p(3) by auto
    show "lists_ok (pages s') (free_lists s') B' (insert p FR)" using lists by (simp add: s')
    fix j
    show "B' j = Some (pg_order (pages s' j))" if "j \<in> insert p FR \<union> US"
      using that agree [of j] d(10,11) [of j] other [of j] by (cases "j = p") (auto simp: pg B')
    assume j: "j < PAGE_NUM"
    show "pg_index (pages s' j) = j" "is_free s' j = (j \<in> insert p FR)" "is_first s' j = (j \<in> US)"
      using d(6-8) [OF j] other [of j] by (cases "j = p"; simp add: pg is_free_def is_first_def)+
    show "pg_next (pages s' j) = None" if "B' j = None"
      using that d(9) [OF j] other [of j] by (auto simp: B' split: if_splits)
  qed
qed

lemma repr_merge:
  assumes r: "repr s B FR US" and B: "B lo = Some k" "B hi = Some k" and t: "tiling (B(lo \<mapsto> Suc k, hi := None))"
    and ne: "lo \<noteq> hi" and free: "lo \<notin> FR \<union> US" "hi \<notin> FR \<union> US" and nxt: "pg_next (pages s hi) = None"
    and s': "\<And>i. pg_index (pages s' i) = pg_index (pages s i) \<and> pg_flags (pages s' i) = pg_flags (pages s i) \<and>
        pg_next (pages s' i) = pg_next (pages s i)"
      "\<And>i. i \<noteq> lo \<Longrightarrow> i \<noteq> hi \<Longrightarrow> pg_order (pages s' i) = pg_order (pages s i)" "free_lists s' = free_lists s"
  shows "repr s' (B(lo \<mapsto> Suc k, hi := None)) FR US"
  unfolding repr_def
proof (intro conjI ballI allI impI)
  note d = reprD [OF r]
  let ?B = "B(lo \<mapsto> Suc k, hi := None)"
  show "tiling ?B" by (rule t)
  show "FR \<union> US \<subseteq> dom ?B" using d(2,3) free by auto
  show "FR \<inter> US = {}" by (rule d)
  show "lists_ok (pages s') (free_lists s') ?B FR"
    unfolding s'(3) using d(5) by (rule lists_ok_frame) (use s' free in auto)
  fix i
  show "?B i = Some (pg_order (pages s' i))" if i: "i \<in> FR \<union> US"
  proof -
    have "i \<noteq> lo" "i \<noteq> hi" using i free by auto
    then show ?thesis using i d(10,11) [of i] s'(2) [of i] by auto
  qed
  assume i: "i < PAGE_NUM"
  show "pg_index (pages s' i) = i" "is_free s' i = (i \<in> FR)" "is_first s' i = (i \<in> US)"
    using d(6-8) [OF i] s'(1) [of i] by (simp_all add: is_free_def is_first_def)
  show "pg_next (pages s' i) = None" if "?B i = None"
    using that nxt d(9) [OF i] s'(1) [of i] by (auto split: if_splits)
qed

end
