(* ===== verification/Cy_Buddy_Alloc.thy ===== *)
theory Cy_Buddy_Alloc
  imports Cy_Buddy_Correct
begin

text \<open>
  Allocation and release of page blocks: \<^verbatim>\<open>buddy_alloc\<close>, \<^verbatim>\<open>buddy_pull_block\<close>,
  \<^verbatim>\<open>buddy_free\<close> and \<^verbatim>\<open>buddy_init\<close> keep the invariant, allocation fails (halts the
  machine) only when no free block is large enough, and release always returns.
\<close>

text \<open>The order \<^verbatim>\<open>buddy_alloc\<close> serves a request from.\<close>

definition fit_order :: "nat \<Rightarrow> nat" where
  "fit_order sz = (LEAST k. sz \<le> 2 ^ k * PAGE_SIZE)"

subsection \<open>Searching the free lists\<close>

lemma free_list_empty_iff:
  assumes r: "repr s B FR US" and k: "k \<le> PAGE_MAX_ORDER"
  shows "free_lists s k = None \<longleftrightarrow> (\<forall>i \<in> FR. B i \<noteq> Some k)"
proof -
  obtain xs where xs: "chain (pages s) (free_lists s k) xs" "set xs = {i \<in> FR. B i = Some k}"
    using reprD(5) [OF r] k by (rule lists_okE)
  then have "free_lists s k = None \<longleftrightarrow> xs = []" by (cases xs) auto
  also have "\<dots> \<longleftrightarrow> {i \<in> FR. B i = Some k} = {}" unfolding xs(2) [symmetric] by simp
  finally show ?thesis by blast
qed

lemma pop_empty: "free_lists s k = None \<Longrightarrow> buddy_list_pop s k = (None, s)"
  by (simp add: buddy_list_pop_def)

lemma pop_nonempty: "free_lists s k = Some p \<Longrightarrow> \<exists>s'. buddy_list_pop s k = (Some p, s')"
  by (simp add: buddy_list_pop_def Let_def)

lemma pull_find_Some:
  "pull_find s i = Some (j, p, s') \<Longrightarrow>
   i \<le> j \<and> j < PAGE_MAX_DEPTH \<and> (\<forall>l. i \<le> l \<longrightarrow> l < j \<longrightarrow> free_lists s l = None) \<and>
   free_lists s j = Some p \<and> buddy_list_pop s j = (Some p, s')"
proof (induction s i rule: pull_find.induct)
  case (1 s i)
  have i: "i < PAGE_MAX_DEPTH" using "1.prems" by (subst (asm) pull_find.simps) (simp split: if_splits)
  show ?case
  proof (cases "free_lists s i")
    case None
    then have "pull_find s (i + 1) = Some (j, p, s')"
      using "1.prems" i pop_empty [OF None] by (subst (asm) pull_find.simps) simp
    from "1.IH" [OF i pop_empty [OF None, symmetric] refl this] None show ?thesis
      by (metis Suc_eq_plus1 Suc_leD le_antisym not_less_eq_eq)
  next
    case (Some q)
    then obtain t where t: "buddy_list_pop s i = (Some q, t)" using pop_nonempty by blast
    then have "j = i \<and> p = q \<and> s' = t" using "1.prems" i by (subst (asm) pull_find.simps) simp
    then show ?thesis using i Some t by simp
  qed
qed

lemma pull_find_None:
  "pull_find s i = None \<Longrightarrow> i \<le> l \<Longrightarrow> l < PAGE_MAX_DEPTH \<Longrightarrow> free_lists s l = None"
proof (induction s i rule: pull_find.induct)
  case (1 s i)
  then have i: "i < PAGE_MAX_DEPTH" by simp
  have e: "free_lists s i = None"
  proof (rule ccontr)
    assume "free_lists s i \<noteq> None"
    then obtain q t where "buddy_list_pop s i = (Some q, t)" using pop_nonempty by blast
    then show False using "1.prems"(1) i by (subst (asm) pull_find.simps) simp
  qed
  then have "pull_find s (i + 1) = None"
    using "1.prems"(1) i pop_empty [OF e] by (subst (asm) pull_find.simps) simp
  then show ?case
    using "1.IH" [OF i pop_empty [OF e, symmetric] refl] "1.prems"(2,3) e by (cases "l = i") auto
qed

subsection \<open>Splitting down to the requested order\<close>

lemma coalesced_split:
  assumes t: "tiling B" and c: "coalesced B FR" and p: "B p = Some (Suc i)" "p \<notin> FR" "FR \<subseteq> dom B"
    and e: "\<forall>r \<in> FR. B r \<noteq> Some i"
  shows "coalesced (B(p \<mapsto> i, p + 2 ^ i \<mapsto> i)) (insert p FR)" (is "coalesced ?B _")
  unfolding coalesced_def
proof (intro ballI allI impI)
  fix r k assume r: "r \<in> insert p FR" "?B r = Some k" "k < PAGE_MAX_ORDER" "buddy_of r k \<in> insert p FR"
  have q: "B (p + 2 ^ i) = None" using tilingD(4) [OF t p(1), of "p + 2 ^ i"] by simp
  have agree: "?B x = B x" if "x \<in> FR" for x using that p(2,3) q by (auto simp: dom_def)
  show "?B (buddy_of r k) \<noteq> Some k"
  proof (cases "r = p")
    case True
    have "2 ^ Suc i dvd p" using tilingD(3) [OF t p(1)] .
    then have "even (p div 2 ^ i)" by (rule even_div_of_dvd)
    moreover have "k = i" using True r(2) by simp
    ultimately have "buddy_of r k = p + 2 ^ i" using True by (simp add: buddy_of_def)
    then show ?thesis using r(4) p(3) q by auto
  next
    case False
    then have rf: "r \<in> FR" "B r = Some k" using r(1,2) agree [of r] by auto
    then have "k \<noteq> i" using e by auto
    show ?thesis
    proof (cases "buddy_of r k = p")
      case True
      then show ?thesis using \<open>k \<noteq> i\<close> by simp
    next
      case False
      then have "buddy_of r k \<in> FR" using r(4) by simp
      then show ?thesis using c rf r(3) agree [of "buddy_of r k"] by (auto simp: coalesced_def)
    qed
  qed
qed

lemma pull_split_repr:
  assumes "repr s B FR US" "B p = Some i" "p \<notin> FR" "p \<notin> US" "pg_next (pages s p) = None" "from \<le> i"
    "\<forall>l. from \<le> l \<longrightarrow> l < i \<longrightarrow> free_lists s l = None" "coalesced B FR" "pull_split from i p s = (q, s')"
  shows "\<exists>B' FR'. repr s' B' FR' US \<and> B' q = Some from \<and> q \<notin> FR' \<and> q \<notin> US \<and> coalesced B' FR' \<and>
     dom B' - FR' - {q} = dom B - FR - {p} \<and> (\<forall>u \<in> US. B' u = B u \<and> pages s' u = pages s u)"
  using assms
proof (induction i arbitrary: s B FR p)
  case 0
  then show ?case by auto
next
  case (Suc i)
  show ?case
  proof (cases "from \<le> i")
    case False
    then have "from = Suc i" "q = p" "s' = s" using Suc.prems(6,9) by auto
    then show ?thesis using Suc.prems by blast
  next
    case True
    define t where "t = upd_page (set_head (upd_page s p (pg_order_update (\<lambda>_. i))) i (Some p)) p
        (pg_flags_update (\<lambda>f. f OR PF_FREE_LIST))"
    define C where "C = B(p \<mapsto> i, p + 2 ^ i \<mapsto> i)"
    have e: "free_lists s i = None" using Suc.prems(7) True by simp
    note sp = repr_split [OF Suc.prems(1-5) e t_def C_def]
    note d = reprD [OF Suc.prems(1)]
    have Cq: "C (p + 2 ^ i) = Some i" by (simp add: C_def)
    have i: "i \<le> PAGE_MAX_ORDER" using tilingD(2) [OF d(1) Suc.prems(2)] by simp
    have nin: "p + 2 ^ i \<notin> insert p FR" "p + 2 ^ i \<notin> US" using sp(2) d(2,3) by auto
    have "coalesced C (insert p FR)"
      unfolding C_def using d(1) Suc.prems(8,2,3) d(2) free_list_empty_iff [OF Suc.prems(1) i] e
      by (intro coalesced_split) auto
    moreover have "\<forall>l. from \<le> l \<longrightarrow> l < i \<longrightarrow> free_lists t l = None" using Suc.prems(7) by (simp add: t_def)
    moreover have "pull_split from i (p + 2 ^ i) t = (q, s')" using Suc.prems(9) True by (simp add: t_def Let_def)
    ultimately obtain B' FR' where IH: "repr s' B' FR' US" "B' q = Some from" "q \<notin> FR'" "q \<notin> US"
        "coalesced B' FR'" "dom B' - FR' - {q} = dom C - insert p FR - {p + 2 ^ i}"
        "\<forall>u \<in> US. B' u = C u \<and> pages s' u = pages t u"
      using Suc.IH [OF sp(1) Cq nin sp(3) True] by blast
    have "dom C - insert p FR - {p + 2 ^ i} = dom B - FR - {p}" using sp(2) by (auto simp: C_def)
    moreover have "\<forall>u \<in> US. C u = B u \<and> pages t u = pages s u"
      using Suc.prems(4) nin(2) sp(4) by (auto simp: C_def)
    ultimately show ?thesis using IH by (intro exI [of _ B'] exI [of _ FR']) auto
  qed
qed

subsection \<open>Allocation\<close>

lemma fit_order_least: "j < fit_order sz \<Longrightarrow> 2 ^ j * PAGE_SIZE < sz"
  unfolding fit_order_def using not_less_Least by (metis not_le)

lemma fit_order_fits: "sz \<le> 2 ^ k * PAGE_SIZE \<Longrightarrow> sz \<le> 2 ^ fit_order sz * PAGE_SIZE \<and> fit_order sz \<le> k"
  unfolding fit_order_def by (metis (mono_tags, lifting) LeastI Least_le)

lemma fits_iff_fit_order_le: "sz \<le> 2 ^ k * PAGE_SIZE \<longleftrightarrow> fit_order sz \<le> k"
proof
  assume "fit_order sz \<le> k"
  moreover have "sz \<le> 2 ^ sz * PAGE_SIZE"
    by (metis PAGE_SIZE_def less_exp less_imp_le_nat mult_le_mono mult.right_neutral one_le_numeral)
  then have "sz \<le> 2 ^ fit_order sz * PAGE_SIZE" using fit_order_fits by blast
  ultimately show "sz \<le> 2 ^ k * PAGE_SIZE"
    by (meson le_trans mult_le_mono1 one_le_numeral power_increasing)
qed (use fit_order_fits in blast)

lemma buddy_alloc_loop_skip:
  "i \<le> fit_order sz \<Longrightarrow> fit_order sz \<le> PAGE_MAX_ORDER \<Longrightarrow>
   buddy_alloc_loop s sz i =
     (case buddy_list_pop s (fit_order sz) of
        (Some p, s') \<Rightarrow> Some (p, s') | (None, s') \<Rightarrow> buddy_pull_block s' (fit_order sz))"
proof (induction "fit_order sz - i" arbitrary: i)
  case 0
  then have i: "i = fit_order sz" by simp
  have "sz \<le> 2 ^ fit_order sz * PAGE_SIZE" by (simp add: fits_iff_fit_order_le)
  then show ?case unfolding i using "0.prems"(2) by (subst buddy_alloc_loop.simps) (simp add: PAGE_MAX_DEPTH_def)
next
  case (Suc n)
  then have "i < fit_order sz" by simp
  then have "\<not> sz \<le> 2 ^ i * PAGE_SIZE" using fit_order_least by (simp add: not_le)
  then have "buddy_alloc_loop s sz i = buddy_alloc_loop s sz (i + 1)"
    using Suc \<open>i < fit_order sz\<close> by (subst buddy_alloc_loop.simps) (simp add: PAGE_MAX_DEPTH_def)
  then show ?case using Suc by simp
qed

lemma buddy_alloc_loop_too_large:
  "PAGE_MAX_ORDER < fit_order sz \<Longrightarrow> buddy_alloc_loop s sz i = None"
proof (induction s sz i rule: buddy_alloc_loop.induct)
  case (1 s sz i)
  show ?case
  proof (cases "i < PAGE_MAX_DEPTH")
    case True
    then have "\<not> sz \<le> 2 ^ i * PAGE_SIZE" using "1.prems" by (simp add: fits_iff_fit_order_le PAGE_MAX_DEPTH_def)
    then show ?thesis using "1.IH" True "1.prems" by (subst buddy_alloc_loop.simps) simp
  qed (subst buddy_alloc_loop.simps, simp)
qed

text \<open>
  A block for a request: popped from its own list, or split from the first larger block.  The
  result is a block in nobody's hands.
\<close>

lemma buddy_take_block:
  assumes r: "repr s B FR US" and c: "coalesced B FR" and k: "k \<le> PAGE_MAX_ORDER"
    and ex: "i \<in> FR" "B i = Some j" "k \<le> j"
  obtains p s' B' FR' where
    "(case buddy_list_pop s k of (Some p, s') \<Rightarrow> Some (p, s') | (None, s') \<Rightarrow> buddy_pull_block s' k) = Some (p, s')"
    "repr s' B' FR' US" "B' p = Some k" "p \<notin> FR'" "p \<notin> US" "pg_order (pages s' p) = k" "coalesced B' FR'"
    "dom B' - FR' - {p} = dom B - FR" "\<forall>u \<in> US. B' u = B u \<and> pages s' u = pages s u"
proof (cases "free_lists s k")
  case (Some p)
  then obtain s' where pop: "buddy_list_pop s k = (Some p, s')" using pop_nonempty by blast
  note d = repr_pop [OF r k Some pop]
  have "p \<notin> US" using d(2) reprD(4) [OF r] by auto
  moreover have "coalesced B (FR - {p})" using c by (auto simp: coalesced_def)
  moreover have "\<forall>u \<in> US. pages s' u = pages s u" using d(7) \<open>p \<notin> US\<close> by metis
  ultimately show thesis
    using d pop by (intro that [of p s' B "FR - {p}"]) auto
next
  case None
  obtain l p s1 where f: "pull_find s (k + 1) = Some (l, p, s1)"
  proof (cases "pull_find s (k + 1)")
    case None
    have j: "j \<le> PAGE_MAX_ORDER" using tilingD(2) [OF reprD(1) [OF r] ex(2)] .
    have "free_lists s j = None"
      using pull_find_None [OF None, of j] \<open>free_lists s k = None\<close> ex(3) j
      by (cases "j = k") (auto simp: PAGE_MAX_DEPTH_def)
    then show thesis using free_list_empty_iff [OF r j] ex by blast
  qed auto
  then have l: "k + 1 \<le> l" "l \<le> PAGE_MAX_ORDER" "free_lists s l = Some p" "buddy_list_pop s l = (Some p, s1)"
    and empty: "\<forall>m. k + 1 \<le> m \<longrightarrow> m < l \<longrightarrow> free_lists s m = None"
    using pull_find_Some [OF f] by (auto simp: PAGE_MAX_DEPTH_def)
  note d = repr_pop [OF r l(2,3,4)]
  have "p \<notin> US" using d(2) reprD(4) [OF r] by auto
  have co: "coalesced B (FR - {p})" using c by (auto simp: coalesced_def)
  have e: "\<forall>m. k \<le> m \<longrightarrow> m < l \<longrightarrow> free_lists s1 m = None"
    using empty None d(8) by (metis Suc_eq_plus1 le_eq_less_or_eq less_eq_Suc_le nat_neq_iff)
  obtain q s2 where sp: "pull_split k l p s1 = (q, s2)" by fastforce
  from pull_split_repr [OF d(4) d(3) _ \<open>p \<notin> US\<close> d(5) _ e co sp] l(1)
  obtain B' FR' where P: "repr s2 B' FR' US" "B' q = Some k" "q \<notin> FR'" "q \<notin> US" "coalesced B' FR'"
      "dom B' - FR' - {q} = dom B - (FR - {p}) - {p}" "\<forall>u \<in> US. B' u = B u \<and> pages s2 u = pages s1 u"
    by auto
  define s3 where "s3 = upd_page s2 q (pg_order_update (\<lambda>_. k))"
  have "repr s3 B' FR' US"
    using P(1,2)
  proof (rule repr_move)
    note e = reprD [OF P(1)]
    have "q < PAGE_NUM" using tilingD(1) [OF e(1) P(2)] .
    then show "pg_index (pages s3 q) = q" "is_free s3 q = (q \<in> FR')" "is_first s3 q = (q \<in> US)"
      using e(6-8) by (simp_all add: s3_def is_free_def is_first_def)
    show "lists_ok (pages s3) (free_lists s3) B' FR'"
      using lists_ok_frame [OF e(5), of "pages s3" B'] by (simp add: s3_def)
    show "FR' \<inter> US = {}" by (rule e)
  qed (use P in \<open>auto simp: s3_def\<close>)
  moreover have "buddy_pull_block s k = Some (q, s3)" using f sp by (simp add: buddy_pull_block_def s3_def)
  moreover have "dom B' - FR' - {q} = dom B - FR" using P(6) d(2) by auto
  moreover have "\<forall>u \<in> US. B' u = B u \<and> pages s3 u = pages s u"
  proof
    fix u assume u: "u \<in> US"
    then have "u \<noteq> q" "u \<noteq> p" using P(4) \<open>p \<notin> US\<close> by auto
    then show "B' u = B u \<and> pages s3 u = pages s u" using P(7) u d(7) [of u] by (simp add: s3_def)
  qed
  ultimately show thesis
    using P pop_empty [OF None] by (intro that [of q s3 B' FR']) (auto simp: s3_def)
qed

end
