(* ===== verification/Cy_Buddy_Free.thy ===== *)
theory Cy_Buddy_Free
  imports Cy_Buddy_Alloc
begin

text \<open>
  Release of a block.  \<^const>\<open>buddy_free\<close> is followed through all its merges by one induction on
  the distance of the block from the largest order: each round takes the block as the one block
  nobody owns, and ends with a larger such block or pushes it on its list.
\<close>

subsection \<open>One round\<close>

lemma buddy_find_buddy_index_repr:
  "repr s B FR US \<Longrightarrow> B p = Some k \<Longrightarrow> pg_order (pages s p) = k \<Longrightarrow>
   buddy_find_buddy_index (pages s p) = buddy_of p k"
  using reprD(6) [of s B FR US p] tilingD(1) [of B p k] reprD(1) [of s B FR US]
  by (simp add: buddy_find_buddy_index_def buddy_of_def)

lemma buddy_is_free_buddy_repr:
  assumes r: "repr s B FR US" and p: "B p = Some k" "pg_order (pages s p) = k" and k: "k < PAGE_MAX_ORDER"
  shows "buddy_is_free_buddy s p (buddy_of p k) \<longleftrightarrow> buddy_of p k \<in> FR \<and> B (buddy_of p k) = Some k"
proof -
  have "buddy_of p k < PAGE_NUM" using buddy_of_less tilingD [OF reprD(1) [OF r] p(1)] k by blast
  then have "is_free s (buddy_of p k) \<longleftrightarrow> buddy_of p k \<in> FR" using reprD(7) [OF r] by blast
  moreover have "B (buddy_of p k) = Some (pg_order (pages s (buddy_of p k)))" if "buddy_of p k \<in> FR"
    using reprD(10) [OF r that] .
  ultimately show ?thesis
    using p(2) flag_bits by (auto simp: buddy_is_free_buddy_def is_free_def)
qed

text \<open>The block that goes back to its list has no free buddy.\<close>

lemma buddy_of_neq: "2 ^ k dvd p \<Longrightarrow> buddy_of p k \<noteq> p"
  by (erule buddy_of_cases) auto

lemma coalesced_push:
  assumes t: "tiling B" and c: "coalesced B FR" and p: "B p = Some k"
    and nofree: "k < PAGE_MAX_ORDER \<Longrightarrow> \<not> (buddy_of p k \<in> FR \<and> B (buddy_of p k) = Some k)"
  shows "coalesced B (insert p FR)"
  unfolding coalesced_def
proof (intro ballI allI impI notI)
  fix q j assume q: "q \<in> insert p FR" "B q = Some j" "j < PAGE_MAX_ORDER" "buddy_of q j \<in> insert p FR"
    and b: "B (buddy_of q j) = Some j"
  note a = tilingD(3) [OF t q(2)]
  consider "q = p" | "q \<in> FR" "buddy_of q j = p" | "q \<in> FR" "buddy_of q j \<in> FR" using q by auto
  then show False
  proof cases
    case 1
    then show False using q b p nofree buddy_of_neq [OF a] by auto
  next
    case 2
    then have "j = k" "buddy_of p k = q" using b p buddy_of_involutive [OF a] by auto
    then show False using 2 q nofree by auto
  next
    case 3
    then show False using q b c by (auto simp: coalesced_def)
  qed
qed

lemma coalesced_merge:
  assumes t: "tiling B" and c: "coalesced B FR" and p: "B p = Some k" and b: "B (buddy_of p k) = Some k"
    and "p \<notin> FR"
  shows "coalesced (B(min p (buddy_of p k) \<mapsto> Suc k, max p (buddy_of p k) := None)) (FR - {buddy_of p k})"
  unfolding coalesced_def
proof (intro ballI allI impI notI)
  let ?b = "buddy_of p k"
  let ?B = "B(min p ?b \<mapsto> Suc k, max p ?b := None)"
  fix q j assume q: "q \<in> FR - {?b}" "?B q = Some j" "j < PAGE_MAX_ORDER" "buddy_of q j \<in> FR - {?b}"
    and bud: "?B (buddy_of q j) = Some j"
  have "?B x = B x" if "x \<in> FR - {?b}" for x
    using that \<open>p \<notin> FR\<close> by (auto simp: min_def max_def)
  then show False using q bud c by (auto simp: coalesced_def)
qed

subsection \<open>All rounds\<close>

lemma buddy_free_round:
  assumes r: "repr s B FR US" and p: "B p = Some k" "p \<notin> FR" "p \<notin> US" "pg_order (pages s p) = k"
    and k: "k < PAGE_MAX_ORDER" and b: "buddy_of p k \<in> FR" "B (buddy_of p k) = Some k"
  defines "lo \<equiv> min p (buddy_of p k)" and "hi \<equiv> max p (buddy_of p k)"
  obtains s1 s2 where
    "buddy_list_remove (upd_page (upd_page s p (pg_flags_update (\<lambda>f. f AND NOT PF_FREE_LIST)))
        p (pg_next_update (\<lambda>_. None))) k (buddy_of p k) = Some (Some (buddy_of p k), s1)"
    "pg_order (pages s1 p) = k"
    "s2 = upd_page (upd_page s1 hi (pg_order_update (\<lambda>_. 0))) lo (pg_order_update (\<lambda>k. k + 1))"
    "repr s2 (B(lo \<mapsto> Suc k, hi := None)) (FR - {buddy_of p k}) US" "pg_order (pages s2 lo) = Suc k"
    "\<And>i. i \<in> US \<Longrightarrow> pages s2 i = pages s i"
proof -
  let ?b = "buddy_of p k"
  let ?s = "upd_page (upd_page s p (pg_flags_update (\<lambda>f. f AND NOT PF_FREE_LIST))) p (pg_next_update (\<lambda>_. None))"
  note d = reprD [OF r]
  have al: "2 ^ k dvd p" and pn: "p < PAGE_NUM" using tilingD [OF d(1) p(1)] by auto
  have ne: "p \<noteq> ?b" using buddy_of_neq [OF al] by simp
  have "repr ?s B FR US" using r p(1)
  proof (rule repr_move)
    show "pg_index (pages ?s p) = p" "is_free ?s p = (p \<in> FR)" "is_first ?s p = (p \<in> US)"
      using d(6-8) [OF pn] p(2) by (simp_all add: is_free_def is_first_def)
    show "lists_ok (pages ?s) (free_lists ?s) B FR"
      using d(5) unfolding upd_page_simps(2) by (rule lists_ok_frame) (use p(2) in auto)
    show "FR \<inter> US = {}" by (rule d)
  qed (use p in auto)
  then obtain s1 where s1: "buddy_list_remove ?s k ?b = Some (Some ?b, s1)" "repr s1 B (FR - {?b}) US"
      "pg_next (pages s1 ?b) = None" "\<forall>i. pg_order (pages s1 i) = pg_order (pages ?s i)"
      "\<forall>i. i \<notin> FR \<longrightarrow> pages s1 i = pages ?s i"
    using b(2,1) by (rule repr_remove)
  define s2 where "s2 = upd_page (upd_page s1 hi (pg_order_update (\<lambda>_. 0))) lo (pg_order_update (\<lambda>k. k + 1))"
  have lh: "lo = p \<and> hi = ?b \<or> lo = ?b \<and> hi = p" "lo \<noteq> hi"
    using ne by (auto simp: lo_def hi_def min_def max_def)
  have ord: "pg_order (pages s1 p) = k" "pg_order (pages s1 ?b) = k"
    using s1(4) p(4) b d(10) [OF b(1)] ne by auto
  have nb: "?b \<notin> US" using d(4) b by auto
  have "pg_next (pages s1 p) = None" using s1(5) p(2) by simp
  then have nxt: "pg_next (pages s1 hi) = None" using lh s1(3) by auto
  have "repr s2 (B(lo \<mapsto> Suc k, hi := None)) (FR - {?b}) US"
    using s1(2)
  proof (rule repr_merge)
    show "tiling (B(lo \<mapsto> Suc k, hi := None))"
      unfolding lo_def hi_def using d(1) p(1) b(2) k by (rule tiling_merge)
    show "B lo = Some k" "B hi = Some k" "lo \<noteq> hi" using lh p(1) b(2) by auto
    show "lo \<notin> FR - {?b} \<union> US" "hi \<notin> FR - {?b} \<union> US" using lh p nb by auto
    show "pg_next (pages s1 hi) = None" by (rule nxt)
  qed (simp_all add: s2_def)
  moreover have "pages s2 i = pages s i" if "i \<in> US" for i
  proof -
    have "i \<noteq> lo" "i \<noteq> hi" "i \<noteq> p" "i \<notin> FR" using that lh p nb d(4) by auto
    then show ?thesis using s1(5) by (simp add: s2_def)
  qed
  moreover have "pg_order (pages s2 lo) = Suc k" using lh ord by (auto simp: s2_def)
  ultimately show thesis using that [OF s1(1) ord(1) s2_def] by simp
qed

lemma buddy_free_push:
  assumes r: "repr s B FR US" and p: "B p = Some k" "p \<notin> FR" "pg_order (pages s p) = k" and c: "coalesced B FR"
    and nofree: "k < PAGE_MAX_ORDER \<Longrightarrow> \<not> (buddy_of p k \<in> FR \<and> B (buddy_of p k) = Some k)"
  shows "\<exists>s' B' FR'. buddy_free s p = Some s' \<and> repr s' B' FR' (US - {p}) \<and> coalesced B' FR' \<and>
    dom B' - FR' = dom B - FR - {p} \<and> (\<forall>u \<in> US - {p}. B' u = B u \<and> pages s' u = pages s u)"
proof -
  let ?s = "upd_page s p (pg_flags_update (\<lambda>f. f AND NOT PF_FIRST_PAGE))"
  have r1: "repr ?s B FR (US - {p})" using r p(1,2) by (rule repr_unmark)
  have o: "pg_order (pages ?s p) = k" using p(3) by simp
  have "k = PAGE_MAX_ORDER \<or> \<not> buddy_is_free_buddy ?s p (buddy_of p k)"
    using nofree buddy_is_free_buddy_repr [OF r1 p(1) o] tilingD(2) [OF reprD(1) [OF r] p(1)] by fastforce
  then have "buddy_free s p = Some (buddy_list_push ?s k p)"
    using buddy_find_buddy_index_repr [OF r p(1,3)] p(3) by (subst buddy_free.simps) (simp add: Let_def)
  moreover have "repr (buddy_list_push ?s k p) B (insert p FR) (US - {p})"
    using r1 p(1,2) _ o by (rule repr_push) simp
  moreover have "coalesced B (insert p FR)"
    using reprD(1) [OF r] c p(1) nofree by (rule coalesced_push)
  moreover have "dom B - insert p FR = dom B - FR - {p}" by auto
  moreover have "pages (buddy_list_push ?s k p) u = pages s u" if "u \<in> US - {p}" for u
    using repr_push(2) [OF r1 p(1,2) _ o, of u] that by simp
  ultimately show ?thesis by blast
qed

lemma buddy_free_step:
  assumes r: "repr s B FR US" and p: "B p = Some k" "p \<notin> FR" "pg_order (pages s p) = k" "2 ^ k dvd p"
    and k: "k < PAGE_MAX_ORDER" and b: "buddy_of p k \<in> FR" "B (buddy_of p k) = Some k"
    and rm: "buddy_list_remove (upd_page (upd_page
        (upd_page s p (pg_flags_update (\<lambda>f. f AND NOT PF_FIRST_PAGE)))
        p (pg_flags_update (\<lambda>f. f AND NOT PF_FREE_LIST)))
        p (pg_next_update (\<lambda>_. None))) k (buddy_of p k) = Some (Some (buddy_of p k), s1)"
      "pg_order (pages s1 p) = k"
  shows "buddy_free s p =
    buddy_free (upd_page (upd_page s1 (max p (buddy_of p k)) (pg_order_update (\<lambda>_. 0)))
      (min p (buddy_of p k)) (pg_order_update (\<lambda>k. k + 1))) (min p (buddy_of p k))"
proof -
  let ?b = "buddy_of p k"
  let ?s = "upd_page s p (pg_flags_update (\<lambda>f. f AND NOT PF_FIRST_PAGE))"
  have r1: "repr ?s B FR (US - {p})" using r p(1,2) by (rule repr_unmark)
  have o: "pg_order (pages ?s p) = k" using p(3) by simp
  have fb: "buddy_is_free_buddy ?s p ?b"
    using buddy_is_free_buddy_repr [OF r1 p(1) o k] b by blast
  have "(if odd (?b div 2 ^ k) then (p, upd_page s1 ?b (pg_order_update (\<lambda>_. 0)))
         else (?b, upd_page s1 p (pg_order_update (\<lambda>_. 0)))) =
        (min p ?b, upd_page s1 (max p ?b) (pg_order_update (\<lambda>_. 0)))"
    using p(4)
  proof (cases rule: buddy_of_cases)
    case upper
    then have "min p ?b = ?b" "max p ?b = p" by linarith+
    then show ?thesis using upper by simp
  next
    case lower
    then have "min p ?b = p" "max p ?b = ?b" by linarith+
    then show ?thesis using lower(4) by simp
  qed
  then show ?thesis
    using buddy_find_buddy_index_repr [OF r p(1,3)] p(3) k fb rm
    by (subst buddy_free.simps) (simp add: Let_def)
qed

lemma buddy_free_repr:
  assumes "repr s B FR US" "B p = Some k" "p \<notin> FR" "pg_order (pages s p) = k" "coalesced B FR"
  shows "\<exists>s' B' FR'. buddy_free s p = Some s' \<and> repr s' B' FR' (US - {p}) \<and> coalesced B' FR' \<and>
    dom B' - FR' = dom B - FR - {p} \<and> (\<forall>u \<in> US - {p}. B' u = B u \<and> pages s' u = pages s u)"
  using assms
proof (induction "PAGE_MAX_ORDER - k" arbitrary: s B FR US p k)
  case (0 k s B FR US p)
  have "k = PAGE_MAX_ORDER" using "0.hyps" tilingD(2) [OF reprD(1) [OF "0.prems"(1)] "0.prems"(2)] by simp
  then show ?case using buddy_free_push [OF "0.prems"] by simp
next
  case (Suc n k s B FR US p)
  note r = "Suc.prems"(1)
  let ?b = "buddy_of p k"
  have k: "k < PAGE_MAX_ORDER" using Suc.hyps by simp
  let ?s = "upd_page s p (pg_flags_update (\<lambda>f. f AND NOT PF_FIRST_PAGE))"
  show ?case
  proof (cases "?b \<in> FR \<and> B ?b = Some k")
    case False
    then show ?thesis using buddy_free_push [OF Suc.prems] by simp
  next
    case True
    let ?lo = "min p ?b" and ?hi = "max p ?b"
    let ?B = "B(?lo \<mapsto> Suc k, ?hi := None)"
    have r1: "repr ?s B FR (US - {p})" using r Suc.prems(2,3) by (rule repr_unmark)
    have al: "2 ^ k dvd p" using tilingD(3) [OF reprD(1) [OF r] Suc.prems(2)] .
    obtain s1 s2 where s2:
      "buddy_list_remove (upd_page (upd_page ?s p (pg_flags_update (\<lambda>f. f AND NOT PF_FREE_LIST)))
          p (pg_next_update (\<lambda>_. None))) k ?b = Some (Some ?b, s1)"
      "pg_order (pages s1 p) = k"
      "s2 = upd_page (upd_page s1 ?hi (pg_order_update (\<lambda>_. 0))) ?lo (pg_order_update (\<lambda>k. k + 1))"
      "repr s2 ?B (FR - {?b}) (US - {p})" "pg_order (pages s2 ?lo) = Suc k"
      "\<And>i. i \<in> US - {p} \<Longrightarrow> pages s2 i = pages ?s i"
      by (rule buddy_free_round [OF r1 Suc.prems(2,3) _ _ k conjunct1 [OF True] conjunct2 [OF True]])
        (use Suc.prems(4) in simp_all)
    have "buddy_free s p = buddy_free s2 ?lo"
      unfolding s2(3) using r Suc.prems(2-4) al k conjunct1 [OF True] conjunct2 [OF True] s2(1,2)
      by (rule buddy_free_step)
    moreover have ne: "?lo \<noteq> ?hi" using buddy_of_neq [OF al] by (auto simp: min_def max_def)
    moreover have lo: "?lo \<notin> FR - {?b}" "?lo \<notin> US - {p}" using Suc.prems(3) True reprD(4) [OF r]
      by (auto simp: min_def)
    moreover have "n = PAGE_MAX_ORDER - Suc k" using Suc.hyps(2) by simp
    moreover have "coalesced ?B (FR - {?b})"
      using reprD(1) [OF r] Suc.prems True by (intro coalesced_merge) auto
    ultimately obtain s' B' FR' where
      s': "buddy_free s p = Some s'" "repr s' B' FR' (US - {p} - {?lo})" "coalesced B' FR'"
        "dom B' - FR' = dom ?B - (FR - {?b}) - {?lo}"
        "\<forall>u \<in> US - {p} - {?lo}. B' u = ?B u \<and> pages s' u = pages s2 u"
      using Suc.hyps(1) [of "Suc k" s2 ?B "FR - {?b}" "US - {p}" ?lo] s2(4,5) by auto
    have US: "US - {p} - {?lo} = US - {p}" using lo by auto
    have "dom ?B - (FR - {?b}) - {?lo} = dom B - FR - {p}"
      using Suc.prems(2,3) True ne by (auto simp: min_def max_def split: if_splits)
    moreover have "B' u = B u \<and> pages s' u = pages s u" if u: "u \<in> US - {p}" for u
    proof -
      have "u \<noteq> ?lo" "u \<noteq> ?hi" using u True reprD(4) [OF r] by (auto simp: min_def max_def)
      then show ?thesis using s'(5) s2(6) [OF u] u US by auto
    qed
    ultimately show ?thesis using s' US by metis
  qed
qed

end
