(* ===== verification/Cy_Page.thy ===== *)
theory Cy_Page
  imports Cy_Buddy_Free
begin

text \<open>
  The page allocator as its clients see it.  The blocks in use and the free blocks are read off
  the flags and orders of the pages; the theorems state what each operation does to them.  The
  locale of this theory is the contract the clients rely on, interpreted on \<^const>\<open>buddy_alloc\<close> and
  \<^const>\<open>buddy_free\<close>.
\<close>

subsection \<open>The two sets of blocks\<close>

lemma used_blocks_repr:
  assumes r: "repr s B FR US"
  shows "used_blocks s = {(i, k). i \<in> US \<and> B i = Some k}"
proof -
  have "i < PAGE_NUM" if "i \<in> US" for i using that reprD(3) [OF r] tilingD(1) [OF reprD(1) [OF r]] by blast
  moreover have "B i = Some (pg_order (pages s i))" if "i \<in> US" for i using reprD(11) [OF r that] .
  ultimately show ?thesis using reprD(8) [OF r] by (auto simp: used_blocks_def)
qed

lemma free_blocks_repr:
  assumes r: "repr s B FR US"
  shows "free_blocks s = {(i, k). i \<in> FR \<and> B i = Some k}"
proof -
  have "i < PAGE_NUM" if "i \<in> FR" for i using that reprD(2) [OF r] tilingD(1) [OF reprD(1) [OF r]] by blast
  moreover have "B i = Some (pg_order (pages s i))" if "i \<in> FR" for i using reprD(10) [OF r that] .
  ultimately show ?thesis using reprD(7) [OF r] by (auto simp: free_blocks_def)
qed

lemma buddy_invE:
  assumes "buddy_inv s"
  obtains B FR US where "repr s B FR US" "dom B = FR \<union> US" "coalesced B FR"
    "used_blocks s = {(i, k). i \<in> US \<and> B i = Some k}" "free_blocks s = {(i, k). i \<in> FR \<and> B i = Some k}"
proof -
  from assms obtain B FR US where B: "repr s B FR US" "dom B = FR \<union> US" "coalesced B FR"
    unfolding buddy_inv_def by blast
  show thesis using B used_blocks_repr [OF B(1)] free_blocks_repr [OF B(1)] by (rule that)
qed

lemma tiling_disjoint_blocks:
  "tiling B \<Longrightarrow> B p = Some k \<Longrightarrow> B q = Some j \<Longrightarrow> p \<noteq> q \<Longrightarrow> block_pages (p, k) \<inter> block_pages (q, j) = {}"
  using tiling_disjoint [of B p k q j] by (auto simp: block_pages_def)

lemma used_blocks_disjoint:
  assumes "buddy_inv s" "(p, k) \<in> used_blocks s" "(q, j) \<in> used_blocks s" "p \<noteq> q"
  shows "block_pages (p, k) \<inter> block_pages (q, j) = {}"
  using assms(1)
proof (rule buddy_invE)
  fix B FR US assume r: "repr s B FR US" and u: "used_blocks s = {(i, k). i \<in> US \<and> B i = Some k}"
  show ?thesis using assms(2-4) u by (intro tiling_disjoint_blocks [OF reprD(1) [OF r]]) auto
qed

lemma buddy_inv_index: "buddy_inv s \<Longrightarrow> i < PAGE_NUM \<Longrightarrow> pg_index (pages s i) = i"
  using reprD(6) by (metis buddy_inv_def)

lemma used_blocks_unique: "(p, k) \<in> used_blocks s \<Longrightarrow> (p, j) \<in> used_blocks s \<Longrightarrow> k = j"
  by (auto simp: used_blocks_def)

lemma used_blocks_bounds:
  assumes "buddy_inv s" "(p, k) \<in> used_blocks s"
  shows "p < PAGE_NUM" "k \<le> PAGE_MAX_ORDER" "2 ^ k dvd p" "p + 2 ^ k \<le> PAGE_NUM" "pg_index (pages s p) = p"
proof -
  obtain B FR US where B: "repr s B FR US" "used_blocks s = {(i, k). i \<in> US \<and> B i = Some k}"
    using assms(1) by (rule buddy_invE)
  then have p: "B p = Some k" using assms(2) by auto
  show "p < PAGE_NUM" "k \<le> PAGE_MAX_ORDER" "2 ^ k dvd p" using tilingD [OF reprD(1) [OF B(1)] p] by auto
  then show "p + 2 ^ k \<le> PAGE_NUM" "pg_index (pages s p) = p"
    using tiling_end [OF reprD(1) [OF B(1)] p] reprD(6) [OF B(1)] by auto
qed

subsection \<open>Allocation and release on the invariant\<close>

lemma owned_after_take:
  "X - F - {p} = D - G \<Longrightarrow> D = G \<union> U \<Longrightarrow> G \<inter> U = {} \<Longrightarrow> p \<in> X \<Longrightarrow> F \<subseteq> X \<Longrightarrow> X = F \<union> insert p U"
  by blast

lemma owned_after_release:
  "X - F = D - G - {p} \<Longrightarrow> D = G \<union> U \<Longrightarrow> G \<inter> U = {} \<Longrightarrow> F \<subseteq> X \<Longrightarrow> X = F \<union> (U - {p})"
  by blast

lemma buddy_alloc_Some:
  assumes inv: "buddy_inv s" and f: "(i, j) \<in> free_blocks s" "sz \<le> 2 ^ j * PAGE_SIZE"
  obtains p s' where "buddy_alloc s sz = Some (p, s')" "buddy_inv s'"
    "used_blocks s' = insert (p, fit_order sz) (used_blocks s)"
    "\<forall>b \<in> used_blocks s. block_pages (p, fit_order sz) \<inter> block_pages b = {} \<and> pages s' (fst b) = pages s (fst b)"
proof -
  let ?k = "fit_order sz"
  obtain B FR US where B: "repr s B FR US" "dom B = FR \<union> US" "coalesced B FR"
    "used_blocks s = {(i, k). i \<in> US \<and> B i = Some k}" "free_blocks s = {(i, k). i \<in> FR \<and> B i = Some k}"
    using inv by (rule buddy_invE)
  have i: "i \<in> FR" "B i = Some j" "?k \<le> j" using f B(5) by (auto simp: fits_iff_fit_order_le)
  then have k: "?k \<le> PAGE_MAX_ORDER" using tilingD(2) [OF reprD(1) [OF B(1)]] by fastforce
  obtain p s1 B' FR' where P:
    "(case buddy_list_pop s ?k of (Some p, s') \<Rightarrow> Some (p, s') | (None, s') \<Rightarrow> buddy_pull_block s' ?k) = Some (p, s1)"
    "repr s1 B' FR' US" "B' p = Some ?k" "p \<notin> FR'" "p \<notin> US" "pg_order (pages s1 p) = ?k" "coalesced B' FR'"
    "dom B' - FR' - {p} = dom B - FR" "\<forall>u \<in> US. B' u = B u \<and> pages s1 u = pages s u"
    using B(1,3) k i by (rule buddy_take_block)
  define s' where "s' = upd_page s1 p (pg_flags_update (\<lambda>f. f OR PF_FIRST_PAGE))"
  have r': "repr s' B' FR' (insert p US)" unfolding s'_def using P(2-4,6) by (rule repr_mark)
  have "dom B' = FR' \<union> insert p US"
    using P(8) B(2) reprD(4) [OF B(1)] domI [where m = B', OF P(3)] reprD(2) [OF P(2)] by (rule owned_after_take)
  then have "buddy_inv s'" using r' P(7) unfolding buddy_inv_def by blast
  moreover have u: "used_blocks s' = insert (p, ?k) (used_blocks s)"
    using used_blocks_repr [OF r'] B(4) P(3,9) by auto
  moreover have "buddy_alloc s sz = Some (p, s')"
    unfolding buddy_alloc_def using buddy_alloc_loop_skip [of 0 sz s] k P(1) by (simp add: s'_def)
  moreover have "block_pages (p, ?k) \<inter> block_pages b = {} \<and> pages s' (fst b) = pages s (fst b)"
    if b: "b \<in> used_blocks s" for b
  proof -
    have b': "fst b \<in> US" "b \<in> used_blocks s'" "(p, ?k) \<in> used_blocks s'" using b B(4) u by auto
    then have "fst b \<noteq> p" using P(5) by auto
    then show ?thesis
      using used_blocks_disjoint [OF \<open>buddy_inv s'\<close> b'(3), of "fst b" "snd b"] b' P(9) by (auto simp: s'_def)
  qed
  ultimately show thesis using that by blast
qed

lemma buddy_alloc_None:
  assumes inv: "buddy_inv s" and no: "\<forall>(i, k) \<in> free_blocks s. \<not> sz \<le> 2 ^ k * PAGE_SIZE"
  shows "buddy_alloc s sz = None"
proof (cases "fit_order sz \<le> PAGE_MAX_ORDER")
  case False
  then show ?thesis using buddy_alloc_loop_too_large by (simp add: buddy_alloc_def)
next
  case True
  obtain B FR US where B: "repr s B FR US" "free_blocks s = {(i, k). i \<in> FR \<and> B i = Some k}"
    using inv by (rule buddy_invE)
  have e: "free_lists s k = None" if "fit_order sz \<le> k" "k \<le> PAGE_MAX_ORDER" for k
    using free_list_empty_iff [OF B(1) that(2)] no B(2) that(1) by (fastforce simp: fits_iff_fit_order_le)
  then have "pull_find s (fit_order sz + 1) = None"
    using pull_find_Some [of s "fit_order sz + 1"]
    by (cases "pull_find s (fit_order sz + 1)") (fastforce simp: PAGE_MAX_DEPTH_def)+
  then show ?thesis
    unfolding buddy_alloc_def using buddy_alloc_loop_skip [of 0 sz s] True pop_empty e
    by (simp add: buddy_pull_block_def)
qed

lemma buddy_free_Some:
  assumes inv: "buddy_inv s" and u: "(p, k) \<in> used_blocks s"
  shows "\<exists>s'. buddy_free s p = Some s' \<and> buddy_inv s' \<and> used_blocks s' = used_blocks s - {(p, k)} \<and>
    (\<forall>b \<in> used_blocks s'. pages s' (fst b) = pages s (fst b))"
proof -
  obtain B FR US where B: "repr s B FR US" "dom B = FR \<union> US" "coalesced B FR"
    "used_blocks s = {(i, k). i \<in> US \<and> B i = Some k}"
    using inv by (rule buddy_invE)
  then have p: "p \<in> US" "B p = Some k" "p \<notin> FR" using u reprD(4) [OF B(1)] by auto
  then have "pg_order (pages s p) = k" using reprD(11) [OF B(1) p(1)] by simp
  from buddy_free_repr [OF B(1) p(2,3) this B(3)]
  obtain s' B' FR' where P: "buddy_free s p = Some s'" "repr s' B' FR' (US - {p})" "coalesced B' FR'"
    "dom B' - FR' = dom B - FR - {p}" "\<forall>u \<in> US - {p}. B' u = B u \<and> pages s' u = pages s u"
    by (elim exE conjE) (rule that)
  have "dom B' = FR' \<union> (US - {p})"
    using P(4) B(2) reprD(4) [OF B(1)] reprD(2) [OF P(2)] by (rule owned_after_release)
  then have "buddy_inv s'" using P(2,3) unfolding buddy_inv_def by blast
  moreover have "used_blocks s' = used_blocks s - {(p, k)}"
    using used_blocks_repr [OF P(2)] B(4) P(5) p(2) by auto (metis DiffI option.inject singletonD)
  moreover have "\<forall>b \<in> used_blocks s'. pages s' (fst b) = pages s (fst b)"
    using used_blocks_repr [OF P(2)] P(5) by auto
  ultimately show ?thesis using P(1) by blast
qed

subsection \<open>The initial state\<close>

lemma fold_upd_page_pointwise:
  "distinct xs \<Longrightarrow> inj_on h (set xs) \<Longrightarrow>
   free_lists (fold (\<lambda>i s. upd_page s (h i) (f i)) xs s) = free_lists s \<and>
   (\<forall>i \<in> set xs. pages (fold (\<lambda>i s. upd_page s (h i) (f i)) xs s) (h i) = f i (pages s (h i))) \<and>
   (\<forall>j. j \<notin> h ` set xs \<longrightarrow> pages (fold (\<lambda>i s. upd_page s (h i) (f i)) xs s) j = pages s j)"
proof (induction xs arbitrary: s)
  case (Cons a xs)
  have a: "h a \<notin> h ` set xs" "inj_on h (set xs)" "distinct xs" using Cons.prems by (auto simp: inj_on_def)
  note ih = Cons.IH [OF a(3,2), of "upd_page s (h a) (f a)"]
  have "h i \<noteq> h a" if "i \<in> set xs" for i using that a(1) by (metis imageI)
  then show ?case using ih a(1) by simp
qed simp

lemma fold_upd_page:
  assumes "distinct xs" "inj_on h (set xs)"
  shows "free_lists (fold (\<lambda>i s. upd_page s (h i) (f i)) xs s) = free_lists s"
    "\<And>i. i \<in> set xs \<Longrightarrow> pages (fold (\<lambda>i s. upd_page s (h i) (f i)) xs s) (h i) = f i (pages s (h i))"
    "\<And>j. j \<notin> h ` set xs \<Longrightarrow> pages (fold (\<lambda>i s. upd_page s (h i) (f i)) xs s) j = pages s j"
  using fold_upd_page_pointwise [OF assms, of f s] by simp_all

definition init_page :: "nat \<Rightarrow> page" where
  "init_page j =
     (if 2 ^ PAGE_MAX_ORDER dvd j then
        \<lparr>pg_index = j, pg_flags = PF_FREE_LIST, pg_order = PAGE_MAX_ORDER,
          pg_next = (if j + 2 ^ PAGE_MAX_ORDER < PAGE_NUM then Some (j + 2 ^ PAGE_MAX_ORDER) else None)\<rparr>
      else \<lparr>pg_index = j, pg_flags = 0, pg_order = 0, pg_next = None\<rparr>)"

lemma buddy_init_page:
  assumes j: "j < PAGE_NUM"
  shows "pages buddy_init j = init_page j"
proof -
  let ?z = "\<lparr>pages = (\<lambda>_. \<lparr>pg_index = 0, pg_flags = 0, pg_order = 0, pg_next = None\<rparr>),
               free_lists = (\<lambda>_. None)\<rparr>"
  let ?s1 = "fold (\<lambda>i s. upd_page s i (pg_index_update (\<lambda>_. i))) [0..<PAGE_NUM] ?z"
  let ?f = "\<lambda>i p. let p = (if i < PAGE_NUM div 2 ^ PAGE_MAX_ORDER - 1
                          then p\<lparr>pg_next := Some ((i + 1) * 2 ^ PAGE_MAX_ORDER)\<rparr> else p)
              in p\<lparr>pg_order := PAGE_MAX_ORDER, pg_flags := pg_flags p OR PF_FREE_LIST\<rparr>"
  let ?s2 = "fold (\<lambda>i s. upd_page s (i * 2 ^ PAGE_MAX_ORDER) (?f i)) [0..<PAGE_NUM div 2 ^ PAGE_MAX_ORDER] ?s1"
  have s1: "pages ?s1 j = \<lparr>pg_index = j, pg_flags = 0, pg_order = 0, pg_next = None\<rparr>"
    using fold_upd_page(2) [of "[0..<PAGE_NUM]" "\<lambda>i. i" j "\<lambda>i. pg_index_update (\<lambda>_. i)" ?z] j by simp
  have s2: "pages buddy_init j = pages ?s2 j" by (simp add: buddy_init_def Let_def)
  note upd = fold_upd_page [where xs = "[0..<PAGE_NUM div 2 ^ PAGE_MAX_ORDER]" and
    h = "\<lambda>i. i * 2 ^ PAGE_MAX_ORDER" and f = ?f and s = ?s1]
  show ?thesis
  proof (cases "2 ^ PAGE_MAX_ORDER dvd j")
    case True
    then obtain i where i: "j = i * 2 ^ PAGE_MAX_ORDER" by (auto simp: dvd_def mult.commute)
    then have "i \<in> set [0..<PAGE_NUM div 2 ^ PAGE_MAX_ORDER]" using j by (simp add: PAGE_NUM_def PAGE_MAX_ORDER_def)
    then have "pages ?s2 (i * 2 ^ PAGE_MAX_ORDER) = ?f i (pages ?s1 (i * 2 ^ PAGE_MAX_ORDER))"
      by (intro upd(2)) (auto simp: inj_on_def)
    then have "pages ?s2 j = ?f i (pages ?s1 j)" using i by simp
    then show ?thesis
      unfolding s2 s1 using i j True by (auto simp: init_page_def Let_def PAGE_NUM_def PAGE_MAX_ORDER_def)
  next
    case False
    then have "pages ?s2 j = pages ?s1 j" by (intro upd(3)) (auto simp: inj_on_def)
    then show ?thesis using s1 s2 False by (simp add: init_page_def)
  qed
qed

lemma buddy_init_free_lists: "free_lists buddy_init k = (if k = PAGE_MAX_ORDER then Some 0 else None)"
  using fold_upd_page(1) [of "[0..<PAGE_NUM]" "\<lambda>i. i"]
    fold_upd_page(1) [of "[0..<PAGE_NUM div 2 ^ PAGE_MAX_ORDER]" "\<lambda>i. i * 2 ^ PAGE_MAX_ORDER"]
  by (simp add: buddy_init_def Let_def inj_on_def)

definition init_blocks :: "nat \<rightharpoonup> nat" where
  "init_blocks p = (if p < PAGE_NUM \<and> 2 ^ PAGE_MAX_ORDER dvd p then Some PAGE_MAX_ORDER else None)"

lemma tiling_init_blocks: "tiling init_blocks"
  unfolding tiling_def
proof (intro conjI allI impI)
  fix p k q assume "init_blocks p = Some k" "p < q" "q < p + 2 ^ k"
  then have "k = PAGE_MAX_ORDER" "2 ^ k dvd p" by (auto simp: init_blocks_def split: if_splits)
  then show "init_blocks q = None"
    using \<open>p < q\<close> \<open>q < p + 2 ^ k\<close> aligned_add_le [of "2 ^ k" p q] by (fastforce simp: init_blocks_def)
next
  fix j :: nat assume "j < PAGE_NUM"
  then show "\<exists>p k. init_blocks p = Some k \<and> p \<le> j \<and> j < p + 2 ^ k"
    by (intro exI [of _ "j div 2 ^ PAGE_MAX_ORDER * 2 ^ PAGE_MAX_ORDER"] exI [of _ PAGE_MAX_ORDER])
      (auto simp: init_blocks_def PAGE_MAX_ORDER_def PAGE_NUM_def)
qed (auto simp: init_blocks_def split: if_splits)

lemma chain_init:
  "n \<le> 16 \<Longrightarrow> m + n = 16 \<Longrightarrow>
   chain (pages buddy_init) (if n = 0 then None else Some (m * 1024)) (map (\<lambda>i. i * 1024) [m..<16])"
proof (induction n arbitrary: m)
  case (Suc n)
  have "m * 1024 < PAGE_NUM" using Suc.prems by (simp add: PAGE_NUM_def)
  then have "pg_next (pages buddy_init (m * 1024)) = (if n = 0 then None else Some (Suc m * 1024))"
    using Suc.prems by (auto simp: buddy_init_page init_page_def PAGE_MAX_ORDER_def PAGE_NUM_def)
  then show ?case using Suc.IH [of "Suc m"] Suc.prems by (simp add: upt_conv_Cons)
qed simp

lemma repr_init: "repr buddy_init init_blocks (dom init_blocks) {}"
  unfolding repr_def
proof (intro conjI allI ballI impI)
  show "tiling init_blocks" by (rule tiling_init_blocks)
  fix i assume i: "i < PAGE_NUM"
  show "pg_index (pages buddy_init i) = i" using i by (simp add: buddy_init_page init_page_def)
  show "is_free buddy_init i = (i \<in> dom init_blocks)" "is_first buddy_init i = (i \<in> {})"
    using i by (auto simp: buddy_init_page init_page_def is_free_def is_first_def dom_def init_blocks_def PF_FREE_LIST_def)
  show "pg_next (pages buddy_init i) = None" if "init_blocks i = None"
    using i that by (auto simp: buddy_init_page init_page_def init_blocks_def split: if_splits)
next
  fix i assume "i \<in> dom init_blocks \<union> {}"
  then show "init_blocks i = Some (pg_order (pages buddy_init i))"
    by (auto simp: init_blocks_def buddy_init_page init_page_def split: if_splits)
next
  show "lists_ok (pages buddy_init) (free_lists buddy_init) init_blocks (dom init_blocks)"
    unfolding lists_ok_def
  proof (intro allI impI)
    fix k assume "k \<le> PAGE_MAX_ORDER"
    let ?xs = "if k = PAGE_MAX_ORDER then map (\<lambda>i. i * 1024) [0..<16] else []"
    have "set ?xs = {i \<in> dom init_blocks. init_blocks i = Some k}"
      by (auto simp: init_blocks_def PAGE_NUM_def PAGE_MAX_ORDER_def dvd_def split: if_splits)
    moreover have "chain (pages buddy_init) (free_lists buddy_init k) ?xs"
      using chain_init [of 16 0] by (simp add: buddy_init_free_lists)
    ultimately show "\<exists>xs. chain (pages buddy_init) (free_lists buddy_init k) xs \<and> distinct xs \<and>
        set xs = {i \<in> dom init_blocks. init_blocks i = Some k}"
      by (intro exI [of _ ?xs]) (simp add: distinct_map inj_on_def)
  qed
qed auto

lemma coalesced_init: "coalesced init_blocks (dom init_blocks)"
  by (auto simp: coalesced_def init_blocks_def split: if_splits)

lemma buddy_init_inv: "buddy_inv buddy_init"
  unfolding buddy_inv_def using repr_init coalesced_init by blast

lemma buddy_init_used: "used_blocks buddy_init = {}"
  using used_blocks_repr [OF repr_init] by simp

lemma buddy_init_free: "free_blocks buddy_init = {(i, PAGE_MAX_ORDER) | i. i < PAGE_NUM \<and> 2 ^ PAGE_MAX_ORDER dvd i}"
  using free_blocks_repr [OF repr_init] by (auto simp: init_blocks_def split: if_splits)

lemma coalesced_init_blocks:
  assumes t: "tiling B" and c: "coalesced B (dom B)"
  shows "B = init_blocks"
proof
  fix p
  show "B p = init_blocks p"
  proof (cases "B p")
    case (Some k)
    then have "k = PAGE_MAX_ORDER" using t c by (intro coalesced_all_free_maximal)
    then show ?thesis using Some tilingD [OF t Some] by (simp add: init_blocks_def)
  next
    case None
    have "\<not> (p < PAGE_NUM \<and> 2 ^ PAGE_MAX_ORDER dvd p)"
    proof
      assume p: "p < PAGE_NUM \<and> 2 ^ PAGE_MAX_ORDER dvd p"
      then obtain q k where q: "B q = Some k" "q \<le> p" "p < q + 2 ^ k" using t by (blast elim: tiling_coverE)
      then have "k = PAGE_MAX_ORDER" using t c by (intro coalesced_all_free_maximal)
      then show False
        using q p None tilingD(3) [OF t q(1)] aligned_add_le [of "2 ^ k" q p] by (cases "q = p") auto
    qed
    then show ?thesis using None by (simp add: init_blocks_def)
  qed
qed

subsection \<open>Release of a pointer variable (page.c)\<close>

text \<open>
  \<^verbatim>\<open>page_cleanup\<close> runs when a variable declared \<^verbatim>\<open>_page_cleanup_\<close> leaves its scope; the
  argument is the value of the variable.
\<close>

definition page_cleanup :: "buddy \<Rightarrow> nat option \<Rightarrow> buddy option" where
  "page_cleanup s page = (case page of Some p \<Rightarrow> buddy_free s p | None \<Rightarrow> Some s)"

subsection \<open>The contract\<close>

text \<open>
  What a client of an allocator of blocks relies on: a new block is disjoint from all blocks in
  use, and a block in use can be released.  \<open>blk\<close> gives the units a block occupies.
\<close>

locale block_allocator =
  fixes inv :: "'s \<Rightarrow> bool"
    and used :: "'s \<Rightarrow> (nat \<times> nat) set"
    and alloc :: "'s \<Rightarrow> nat \<Rightarrow> (nat \<times> 's) option"
    and free :: "'s \<Rightarrow> nat \<Rightarrow> 's option"
    and blk :: "nat \<times> nat \<Rightarrow> nat set"
    and ord :: "nat \<Rightarrow> nat"
  assumes alloc_used: "inv s \<Longrightarrow> alloc s n = Some (p, s') \<Longrightarrow>
      inv s' \<and> used s' = insert (p, ord n) (used s) \<and> (\<forall>b \<in> used s. blk (p, ord n) \<inter> blk b = {})"
    and free_used: "inv s \<Longrightarrow> (p, k) \<in> used s \<Longrightarrow> \<exists>s'. free s p = Some s' \<and> inv s' \<and> used s' = used s - {(p, k)}"
    and blk_nonempty: "blk b \<noteq> {}"
begin

lemma alloc_fresh: "inv s \<Longrightarrow> alloc s n = Some (p, s') \<Longrightarrow> (p, ord n) \<notin> used s"
  using alloc_used [of s n p s'] blk_nonempty [of "(p, ord n)"] by (metis Int_absorb)

text \<open>A block held over a scope: whatever the scope does to other blocks is all that remains.\<close>

lemma scoped:
  assumes "inv s" "alloc s n = Some (p, s1)" "inv s2" "used s2 = insert (p, ord n) U" "(p, ord n) \<notin> U"
  shows "\<exists>s3. free s2 p = Some s3 \<and> inv s3 \<and> used s3 = U"
  using free_used [OF assms(3), of p "ord n"] assms(4,5) by auto

text \<open>Allocations one after the other, and their release in any order.\<close>

fun allocs :: "'s \<Rightarrow> nat list \<Rightarrow> ((nat \<times> nat) list \<times> 's) option" where
  "allocs s [] = Some ([], s)"
| "allocs s (n # ns) =
     (case alloc s n of
        None \<Rightarrow> None
      | Some (p, s1) \<Rightarrow> (case allocs s1 ns of None \<Rightarrow> None | Some (bs, s2) \<Rightarrow> Some ((p, ord n) # bs, s2)))"

fun frees :: "'s \<Rightarrow> (nat \<times> nat) list \<Rightarrow> 's option" where
  "frees s [] = Some s"
| "frees s (b # bs) = (case free s (fst b) of None \<Rightarrow> None | Some s1 \<Rightarrow> frees s1 bs)"

lemma allocs_used:
  "inv s \<Longrightarrow> allocs s ns = Some (bs, s') \<Longrightarrow>
   inv s' \<and> used s' = used s \<union> set bs \<and> distinct bs \<and> set bs \<inter> used s = {} \<and>
   (\<forall>b \<in> set bs. \<forall>c \<in> used s \<union> set bs. b \<noteq> c \<longrightarrow> blk b \<inter> blk c = {})"
proof (induction ns arbitrary: s bs)
  case (Cons n ns)
  then obtain p s1 cs where s1: "alloc s n = Some (p, s1)" "allocs s1 ns = Some (cs, s')" "bs = (p, ord n) # cs"
    by (auto split: option.splits)
  note a = alloc_used [OF Cons.prems(1) s1(1)] and f = alloc_fresh [OF Cons.prems(1) s1(1)]
  have "inv s1" using a by simp
  note ih = Cons.IH [OF this s1(2)]
  have i: "inv s'" "used s' = used s1 \<union> set cs" "distinct cs" "set cs \<inter> used s1 = {}"
    "\<forall>b \<in> set cs. \<forall>c \<in> used s1 \<union> set cs. b \<noteq> c \<longrightarrow> blk b \<inter> blk c = {}" 
    using ih by simp_all
  have "blk b \<inter> blk c = {}" if b: "b \<in> set bs" and c: "c \<in> used s \<union> set bs" and ne: "b \<noteq> c" for b c
  proof -
    have u: "used s1 = insert (p, ord n) (used s)" using a by simp
    consider "b = (p, ord n)" "c \<in> used s" | "b = (p, ord n)" "c \<in> set cs" | "b \<in> set cs" "c \<in> used s1 \<union> set cs"
      using b c ne s1(3) u by auto
    then show ?thesis
    proof cases
      case 1
      then show ?thesis using a by simp
    next
      case 2
      then have "blk c \<inter> blk b = {}" using i(5) ne u by (metis UnI1 insertI1)
      then show ?thesis by (simp add: Int_commute)
    next
      case 3
      then show ?thesis using i(5) ne by simp
    qed
  qed
  moreover have "used s' = used s \<union> set bs" using i(2) a s1(3) by auto
  moreover have "distinct bs" "set bs \<inter> used s = {}" using i(3,4) a s1(3) f by auto
  ultimately show ?case using i(1) by blast
qed simp

lemma frees_used:
  "inv s \<Longrightarrow> distinct bs \<Longrightarrow> set bs \<subseteq> used s \<Longrightarrow> \<exists>s'. frees s bs = Some s' \<and> inv s' \<and> used s' = used s - set bs"
proof (induction bs arbitrary: s)
  case (Cons b bs)
  have "(fst b, snd b) \<in> used s" using Cons.prems(3) by simp
  then obtain s1 where s1: "free s (fst b) = Some s1" "inv s1" "used s1 = used s - {b}"
    using free_used [OF Cons.prems(1), of "fst b" "snd b"] by auto
  then have "\<exists>s'. frees s1 bs = Some s' \<and> inv s' \<and> used s' = used s1 - set bs"
    using Cons.prems by (intro Cons.IH) auto
  then show ?case using s1 by auto
qed simp

lemma frees_after_allocs:
  assumes "inv s" "allocs s ns = Some (bs, s1)" "distinct cs" "set cs = set bs"
  shows "\<exists>s2. frees s1 cs = Some s2 \<and> inv s2 \<and> used s2 = used s"
  using allocs_used [OF assms(1,2)] frees_used [of s1 cs] assms(3,4) by fastforce

end

interpretation pa: block_allocator buddy_inv used_blocks buddy_alloc buddy_free block_pages fit_order
proof
  fix s n p s' assume inv: "buddy_inv s" and a: "buddy_alloc s n = Some (p, s')"
  then obtain i j where "(i, j) \<in> free_blocks s" "n \<le> 2 ^ j * PAGE_SIZE"
    using buddy_alloc_None [OF inv, of n] by force
  with inv obtain q s2 where "buddy_alloc s n = Some (q, s2)" "buddy_inv s2"
    "used_blocks s2 = insert (q, fit_order n) (used_blocks s)"
    "\<forall>b \<in> used_blocks s. block_pages (q, fit_order n) \<inter> block_pages b = {} \<and> pages s2 (fst b) = pages s (fst b)"
    by (rule buddy_alloc_Some)
  then show "buddy_inv s' \<and> used_blocks s' = insert (p, fit_order n) (used_blocks s) \<and>
      (\<forall>b \<in> used_blocks s. block_pages (p, fit_order n) \<inter> block_pages b = {})"
    using a by auto
next
  fix s p k assume "buddy_inv s" "(p, k) \<in> used_blocks s"
  then show "\<exists>s'. buddy_free s p = Some s' \<and> buddy_inv s' \<and> used_blocks s' = used_blocks s - {(p, k)}"
    using buddy_free_Some by blast
qed (auto simp: block_pages_def)

subsection \<open>Properties\<close>

text \<open>A first allocation, for the examples: a request of two pages in the initial state.\<close>

lemma fit_order_5000: "fit_order 5000 = 1"
  using fits_iff_fit_order_le [of 5000 0] fits_iff_fit_order_le [of 5000 1] by (simp add: PAGE_SIZE_def)

lemma buddy_alloc_example:
  obtains p s where "buddy_alloc buddy_init 5000 = Some (p, s)" "buddy_inv s" "used_blocks s = {(p, 1)}"
proof -
  have "(0, PAGE_MAX_ORDER) \<in> free_blocks buddy_init" by (simp add: buddy_init_free PAGE_NUM_def)
  moreover have "5000 \<le> 2 ^ PAGE_MAX_ORDER * PAGE_SIZE" by (simp add: PAGE_SIZE_def PAGE_MAX_ORDER_def)
  ultimately obtain p s where "buddy_alloc buddy_init 5000 = Some (p, s)" "buddy_inv s"
      "used_blocks s = insert (p, fit_order 5000) (used_blocks buddy_init)"
    by (rule buddy_alloc_Some [OF buddy_init_inv])
  then show thesis using that by (simp add: fit_order_5000 buddy_init_used)
qed

text \<open>
  C20: An allocation that returns gives a block of pages that is large enough, aligned to its size,
  inside the page array and disjoint from every block in use; it adds exactly this block to the
  blocks in use, leaves the pages of the others alone and keeps the allocator's invariant.
\<close>

theorem buddy_alloc_correct:
  assumes "buddy_inv s" "buddy_alloc s sz = Some (p, s')"
  shows "buddy_inv s' \<and> used_blocks s' = insert (p, fit_order sz) (used_blocks s) \<and>
    sz \<le> 2 ^ fit_order sz * PAGE_SIZE \<and> 2 ^ fit_order sz dvd p \<and> p + 2 ^ fit_order sz \<le> PAGE_NUM \<and>
    (\<forall>b \<in> used_blocks s. block_pages (p, fit_order sz) \<inter> block_pages b = {} \<and> pages s' (fst b) = pages s (fst b))"
proof -
  obtain i j where ij: "(i, j) \<in> free_blocks s" "sz \<le> 2 ^ j * PAGE_SIZE"
    using buddy_alloc_None [OF assms(1), of sz] assms(2) by force
  note a = pa.alloc_used [OF assms]
  have "\<forall>b \<in> used_blocks s. pages s' (fst b) = pages s (fst b)"
    using assms ij by (metis buddy_alloc_Some option.inject prod.inject)
  moreover have "2 ^ fit_order sz dvd p" "p + 2 ^ fit_order sz \<le> PAGE_NUM"
    using used_blocks_bounds [of s' p "fit_order sz"] a by auto
  moreover have "sz \<le> 2 ^ fit_order sz * PAGE_SIZE" by (simp add: fits_iff_fit_order_le)
  ultimately show ?thesis using a by blast
qed

theorem buddy_alloc_correct_witness:
  "\<exists>p s'. buddy_alloc buddy_init 5000 = Some (p, s') \<and> used_blocks s' = {(p, 1)}"
proof -
  obtain p s' where "buddy_alloc buddy_init 5000 = Some (p, s')" by (rule buddy_alloc_example)
  then show ?thesis
    using buddy_alloc_correct [OF buddy_init_inv, of 5000 p s'] fit_order_5000 by (auto simp: buddy_init_used)
qed

text \<open>
  C35: An allocation returns exactly when some free block is large enough: splitting never fails
  while there is memory in one piece, and a request above the largest order is refused.
\<close>

theorem buddy_alloc_returns_iff:
  assumes "buddy_inv s"
  shows "(\<exists>p s'. buddy_alloc s sz = Some (p, s')) \<longleftrightarrow> (\<exists>(i, k) \<in> free_blocks s. sz \<le> 2 ^ k * PAGE_SIZE)"
proof
  assume "\<exists>(i, k) \<in> free_blocks s. sz \<le> 2 ^ k * PAGE_SIZE"
  then obtain i k where "(i, k) \<in> free_blocks s" "sz \<le> 2 ^ k * PAGE_SIZE" by blast
  then show "\<exists>p s'. buddy_alloc s sz = Some (p, s')" using buddy_alloc_Some [OF assms] by metis
next
  assume "\<exists>p s'. buddy_alloc s sz = Some (p, s')"
  then show "\<exists>(i, k) \<in> free_blocks s. sz \<le> 2 ^ k * PAGE_SIZE"
    using buddy_alloc_None [OF assms, of sz] by force
qed

theorem buddy_alloc_returns_iff_witness:
  "(\<exists>p s'. buddy_alloc buddy_init 4194304 = Some (p, s')) \<and> \<not> (\<exists>p s'. buddy_alloc buddy_init 4194305 = Some (p, s'))"
  unfolding buddy_alloc_returns_iff [OF buddy_init_inv]
  by (auto simp: buddy_init_free PAGE_NUM_def PAGE_SIZE_def PAGE_MAX_ORDER_def intro: exI [of _ 0])

text \<open>
  C21: The release of a block in use returns (its chain of merges ends and finds every buddy it
  looks for), takes exactly this block out of the blocks in use, leaves the pages of the others
  alone and keeps the invariant, coalescing included.
\<close>

theorem buddy_free_correct:
  assumes "buddy_inv s" "(p, k) \<in> used_blocks s"
  shows "\<exists>s'. buddy_free s p = Some s' \<and> buddy_inv s' \<and> used_blocks s' = used_blocks s - {(p, k)} \<and>
    (\<forall>b \<in> used_blocks s'. pages s' (fst b) = pages s (fst b))"
  using assms by (rule buddy_free_Some)


theorem buddy_free_correct_witness:
  "\<exists>p s1 s2. buddy_alloc buddy_init 5000 = Some (p, s1) \<and> buddy_free s1 p = Some s2 \<and> used_blocks s2 = {}"
proof -
  obtain p s1 where s1: "buddy_alloc buddy_init 5000 = Some (p, s1)" "buddy_inv s1" "used_blocks s1 = {(p, 1)}"
    by (rule buddy_alloc_example)
  then show ?thesis using buddy_free_correct [of s1 p 1] by auto
qed

text \<open>The states the kernel's page allocator can be in: any history of allocations and releases.\<close>

inductive buddy_reachable :: "buddy \<Rightarrow> bool" where
  init: "buddy_reachable buddy_init"
| alloc: "buddy_reachable s \<Longrightarrow> buddy_alloc s sz = Some (p, s') \<Longrightarrow> buddy_reachable s'"
| release: "buddy_reachable s \<Longrightarrow> (p, k) \<in> used_blocks s \<Longrightarrow> buddy_free s p = Some s' \<Longrightarrow> buddy_reachable s'"

lemma buddy_reachable_inv: "buddy_reachable s \<Longrightarrow> buddy_inv s"
proof (induction rule: buddy_reachable.induct)
  case init
  show ?case by (rule buddy_init_inv)
next
  case alloc
  then show ?case using pa.alloc_used by blast
next
  case release
  then show ?case using pa.free_used by fastforce
qed

text \<open>
  C22: In every state reached by allocations and releases, the blocks in use and the free blocks
  together partition the page array: each page is in exactly one block.
\<close>

theorem buddy_blocks_partition_pages:
  assumes "buddy_reachable s" "i < PAGE_NUM"
  shows "\<exists>!b. b \<in> used_blocks s \<union> free_blocks s \<and> i \<in> block_pages b"
proof -
  obtain B FR US where B: "repr s B FR US" "dom B = FR \<union> US"
    "used_blocks s = {(i, k). i \<in> US \<and> B i = Some k}" "free_blocks s = {(i, k). i \<in> FR \<and> B i = Some k}"
    using buddy_reachable_inv [OF assms(1)] by (rule buddy_invE)
  have all: "used_blocks s \<union> free_blocks s = {(i, k). B i = Some k}" using B by auto
  note t = reprD(1) [OF B(1)]
  obtain p k where p: "B p = Some k" "p \<le> i" "i < p + 2 ^ k" using t assms(2) by (rule tiling_coverE)
  show ?thesis
  proof (rule ex1I [of _ "(p, k)"])
    show "(p, k) \<in> used_blocks s \<union> free_blocks s \<and> i \<in> block_pages (p, k)"
      using p all by (simp add: block_pages_def)
  next
    fix b assume b: "b \<in> used_blocks s \<union> free_blocks s \<and> i \<in> block_pages b"
    obtain q j where q: "b = (q, j)" by fastforce
    have "B q = Some j" using b all q by auto
    moreover have "block_pages (p, k) \<inter> block_pages b \<noteq> {}" using b p by (auto simp: block_pages_def)
    ultimately have "q = p" "B q = Some j" using tiling_disjoint_blocks [OF t p(1), of q j] q by auto
    then show "b = (p, k)" using p(1) q by simp
  qed
qed

theorem buddy_blocks_partition_pages_witness:
  "\<exists>!b. b \<in> used_blocks buddy_init \<union> free_blocks buddy_init \<and> 12345 \<in> block_pages b"
  by (rule buddy_blocks_partition_pages [OF buddy_reachable.init]) (simp add: PAGE_NUM_def)

text \<open>
  There is no fragmentation that outlives the blocks causing it: when every block has been
  released, in whatever order, the free blocks are those of the initial state.
\<close>

theorem buddy_all_released:
  assumes "buddy_reachable s" "used_blocks s = {}"
  shows "free_blocks s = free_blocks buddy_init"
proof -
  obtain B FR US where B: "repr s B FR US" "dom B = FR \<union> US" "coalesced B FR"
    "used_blocks s = {(i, k). i \<in> US \<and> B i = Some k}" "free_blocks s = {(i, k). i \<in> FR \<and> B i = Some k}"
    using buddy_reachable_inv [OF assms(1)] by (rule buddy_invE)
  have "US = {}"
  proof (rule ccontr)
    assume "US \<noteq> {}"
    then obtain i k where "i \<in> US" "B i = Some k" using reprD(3) [OF B(1)] by blast
    then show False using B(4) assms(2) by blast
  qed
  then have dom: "dom B = FR" using B(2) by simp
  have "B = init_blocks" using reprD(1) [OF B(1)] B(3) dom by (intro coalesced_init_blocks) simp_all
  then show ?thesis using B(5) free_blocks_repr [OF repr_init] dom by simp
qed

theorem buddy_all_released_witness:
  "\<exists>p s1 s2. buddy_alloc buddy_init 5000 = Some (p, s1) \<and> buddy_free s1 p = Some s2 \<and>
     free_blocks s2 = free_blocks buddy_init"
proof -
  obtain p s1 where s1: "buddy_alloc buddy_init 5000 = Some (p, s1)" "buddy_inv s1" "used_blocks s1 = {(p, 1)}"
    by (rule buddy_alloc_example)
  then obtain s2 where s2: "buddy_free s1 p = Some s2" "used_blocks s2 = {}"
    using buddy_free_Some [of s1 p 1] by auto
  have "buddy_reachable s2"
    by (rule buddy_reachable.release [OF buddy_reachable.alloc [OF buddy_reachable.init s1(1)] _ s2(1)])
      (use s1(3) in auto)
  then show ?thesis using s1(1) s2 buddy_all_released by blast
qed

subsection \<open>From addresses to blocks\<close>

lemma is_first_iff_used: "i < PAGE_NUM \<Longrightarrow> is_first s i \<longleftrightarrow> (\<exists>k. (i, k) \<in> used_blocks s)"
  by (auto simp: used_blocks_def)

lemma page_find_head_loop_used:
  assumes inv: "buddy_inv s" and u: "(q, k) \<in> used_blocks s"
  shows "q \<le> i \<Longrightarrow> i < q + 2 ^ k \<Longrightarrow> page_find_head_loop s i = Some q"
proof (induction "i - q" arbitrary: i)
  case 0
  then have "i = q" by simp
  moreover have "is_first s q" "q < PAGE_NUM" using u by (auto simp: used_blocks_def)
  ultimately show ?case by (subst page_find_head_loop.simps) (simp add: is_first_def)
next
  case (Suc n)
  then have i: "q < i" "i < PAGE_NUM" "i \<in> block_pages (q, k)"
    using used_blocks_bounds(4) [OF inv u] by (auto simp: block_pages_def)
  have "\<not> is_first s i"
  proof
    assume "is_first s i"
    then obtain j where "(i, j) \<in> used_blocks s" using is_first_iff_used i(2) by blast
    then show False using used_blocks_disjoint [OF inv u, of i j] i by (auto simp: block_pages_def)
  qed
  then have "page_find_head_loop s i = page_find_head_loop s (i - 1)"
    using i by (subst page_find_head_loop.simps) (simp add: is_first_def)
  then show ?case using Suc by simp
qed

lemma page_find_by_address_offset:
  assumes "i < PAGE_NUM" "off < PAGE_SIZE"
  shows "page_find_by_address (PAGE_START + of_nat (PAGE_SIZE * i) + of_nat off) = Some i"
proof -
  let ?n = "PAGE_SIZE * i + off"
  have n: "?n < 2 ^ 26" using assms by (simp add: PAGE_NUM_def PAGE_SIZE_def)
  have "PAGE_START + of_nat (PAGE_SIZE * i) + of_nat off - PAGE_START = (of_nat ?n :: u32)" by simp
  moreover have "sint (of_nat ?n :: u32) = int ?n" using n by (intro sint_of_nat_small) simp
  moreover have "int ?n sdiv int PAGE_SIZE = int i"
  proof -
    have "int ?n sdiv int PAGE_SIZE = int ?n div int PAGE_SIZE"
      by (simp add: signed_divide_int_def PAGE_SIZE_def sgn_if)
    also have "\<dots> = int (?n div PAGE_SIZE)" by (simp only: zdiv_int)
    finally show ?thesis using assms(2) by simp
  qed
  moreover have "unat (word_of_int (int i) :: u32) = i" using assms(1) by (simp add: PAGE_NUM_def unat_of_nat)
  ultimately show ?thesis using assms(1) by (simp add: page_find_by_address_def Let_def)
qed

lemma find_block_of_address:
  assumes "buddy_inv s" "(p, k) \<in> used_blocks s" "off < 2 ^ k * PAGE_SIZE"
  shows "page_find_by_address (page_address s p + of_nat off) = Some (p + off div PAGE_SIZE)"
    "page_find_head s (p + off div PAGE_SIZE) = Some p"
proof -
  note b = used_blocks_bounds [OF assms(1,2)]
  let ?i = "p + off div PAGE_SIZE"
  have i: "?i < p + 2 ^ k" using assms(3) by (simp add: less_mult_imp_div_less)
  then have "?i < PAGE_NUM" using b(4) by linarith
  moreover have "of_nat (PAGE_SIZE * p) + of_nat off = (of_nat (PAGE_SIZE * ?i) + of_nat (off mod PAGE_SIZE) :: u32)"
    by (metis (no_types) add.assoc add_mult_distrib2 mult_div_mod_eq of_nat_add)
  ultimately show "page_find_by_address (page_address s p + of_nat off) = Some ?i"
    using page_find_by_address_offset [of ?i "off mod PAGE_SIZE"] b(5)
    by (simp add: page_address_def PAGE_SIZE_def add.assoc)
  show "page_find_head s ?i = Some p"
    using page_find_head_loop_used [OF assms(1,2), of ?i] i buddy_inv_index [OF assms(1) \<open>?i < PAGE_NUM\<close>]
    by (simp add: page_find_head_def)
qed

text \<open>
  From any address inside a block in use, \<^verbatim>\<open>page_find_by_address\<close> and \<^verbatim>\<open>page_find_head\<close>
  lead back to the first page of the block, the one \<^verbatim>\<open>page_address\<close> gave out.
\<close>

theorem page_address_roundtrip:
  assumes "buddy_inv s" "(p, k) \<in> used_blocks s" "off < 2 ^ k * PAGE_SIZE"
  shows "Option.bind (page_find_by_address (page_address s p + of_nat off)) (page_find_head s) = Some p"
  using find_block_of_address [OF assms] by simp

theorem page_address_roundtrip_witness:
  "\<exists>p s. buddy_alloc buddy_init 5000 = Some (p, s) \<and>
     Option.bind (page_find_by_address (page_address s p + of_nat 4999)) (page_find_head s) = Some p"
proof -
  obtain p s1 where s1: "buddy_alloc buddy_init 5000 = Some (p, s1)" "buddy_inv s1" "used_blocks s1 = {(p, 1)}"
    by (rule buddy_alloc_example)
  then show ?thesis
    using page_address_roundtrip [of s1 p 1 4999] by (auto simp: PAGE_SIZE_def)
qed

end
