(* ===== verification/Cy_Slab.thy ===== *)
theory Cy_Slab
  imports Cy_Page
begin

text \<open>
  \<^verbatim>\<open>slab.c\<close>: caches of objects of one size.  A slab is a block of pages that starts with a
  header and the array \<^verbatim>\<open>free_list\<close>, followed by the objects; here the header is kept with the
  index of its first page, and pointers into \<^verbatim>\<open>free_list\<close> are indices.  A cache is known by the
  page it was carved from and its place in it.
\<close>

subsection \<open>State\<close>

definition MAX_SLAB_NAME :: nat where "MAX_SLAB_NAME = 32"
definition SLAB_FREE_END :: u32 where "SLAB_FREE_END = 0xffffffff"

text \<open>The sizes of the two structures, in bytes.\<close>

definition sizeof_slab_header :: nat where "sizeof_slab_header = 12"
definition sizeof_slab_cache :: nat where "sizeof_slab_cache = 52"

definition SLAB_HEADER_SIZE :: nat where "SLAB_HEADER_SIZE = sizeof_slab_header + 4"

record slab_header =
  sh_next :: "nat option"
  sh_free :: nat
  sh_list :: "nat \<Rightarrow> u32"
  sh_object :: nat

type_synonym cache_ptr = "nat \<times> nat"

record slab_cache =
  sc_name :: "u8 list"
  sc_next :: "cache_ptr option"
  slab_size :: nat
  object_size :: nat
  slabs_full :: "nat option"
  slabs_partial :: "nat option"

text \<open>The page allocator, the headers in memory, the caches and the two globals of \<^verbatim>\<open>slab.c\<close>.\<close>

record slabs =
  sl_pages :: buddy
  sl_headers :: "nat \<Rightarrow> slab_header"
  sl_caches :: "cache_ptr \<Rightarrow> slab_cache"
  slab_size_limits :: "nat \<Rightarrow> nat"
  free_cache_head :: "cache_ptr option"

definition upd_header :: "slabs \<Rightarrow> nat \<Rightarrow> (slab_header \<Rightarrow> slab_header) \<Rightarrow> slabs" where
  "upd_header s p f = s\<lparr>sl_headers := (sl_headers s)(p := f (sl_headers s p))\<rparr>"

definition upd_cache :: "slabs \<Rightarrow> cache_ptr \<Rightarrow> (slab_cache \<Rightarrow> slab_cache) \<Rightarrow> slabs" where
  "upd_cache s c f = s\<lparr>sl_caches := (sl_caches s)(c := f (sl_caches s c))\<rparr>"

subsection \<open>Slabs and caches\<close>

definition slab_max_object_num :: "slab_cache \<Rightarrow> nat" where
  "slab_max_object_num cache = (slab_size cache - SLAB_HEADER_SIZE) div (object_size cache + 4)"

text \<open>A page that cannot be had ends in a null dereference: \<^const>\<open>None\<close>.\<close>

definition slab_new :: "slabs \<Rightarrow> slab_cache \<Rightarrow> (nat \<times> slabs) option" where
  "slab_new s cache =
     (let n = slab_max_object_num cache in
      case buddy_alloc (sl_pages s) (slab_size cache) of
        None \<Rightarrow> None
      | Some (p, b) \<Rightarrow>
          let fl = fold (\<lambda>i fl. fl(i := of_nat (i + 1))) [0..<n] (\<lambda>_. 0);
              fl = fl(n := SLAB_FREE_END);
              h = \<lparr>sh_next = None, sh_free = 0, sh_list = fl, sh_object = sizeof_slab_header + 4 * (n + 1)\<rparr>
          in Some (p, s\<lparr>sl_pages := b, sl_headers := (sl_headers s)(p := h)\<rparr>))"

definition empty_cache :: slab_cache where
  "empty_cache = \<lparr>sc_name = [], sc_next = None, slab_size = 0, object_size = 0, slabs_full = None, slabs_partial = None\<rparr>"

definition slab_cache_new :: "slabs \<Rightarrow> (cache_ptr \<times> slabs) option" where
  "slab_cache_new s =
     Option.bind
       (case free_cache_head s of
          Some c \<Rightarrow> Some (c, s)
        | None \<Rightarrow>
            (case buddy_alloc (sl_pages s) PAGE_SIZE of
               None \<Rightarrow> None
             | Some (p, b) \<Rightarrow>
                 let s = s\<lparr>sl_pages := b\<rparr>;
                     n = PAGE_SIZE div sizeof_slab_cache;
                     s = fold (\<lambda>i s. upd_cache s (p, i) (\<lambda>_. empty_cache)) [0..<n] s;
                     s = fold (\<lambda>i s. upd_cache s (p, i) (\<lambda>c. c\<lparr>sc_next := Some (p, i + 1)\<rparr>)) [0..<n - 1] s
                 in Some ((p, 0), s)))
       (\<lambda>(c, s).
          let s = s\<lparr>free_cache_head := sc_next (sl_caches s c)\<rparr>
          in Some (c, upd_cache s c (\<lambda>c. c\<lparr>sc_next := None\<rparr>)))"

definition slab_cache_delete :: "slabs \<Rightarrow> cache_ptr \<Rightarrow> slabs" where
  "slab_cache_delete s c =
     (let s = upd_cache s c (\<lambda>_. empty_cache);
          s = upd_cache s c (\<lambda>x. x\<lparr>sc_next := free_cache_head s\<rparr>)
      in s\<lparr>free_cache_head := Some c\<rparr>)"

definition slab_cache_init :: "slabs \<Rightarrow> slabs" where
  "slab_cache_init s =
     s\<lparr>slab_size_limits :=
         fold (\<lambda>i l. let page_size = PAGE_SIZE * 2 ^ i
                     in l(i := page_size div 8 - (SLAB_HEADER_SIZE div 8 + 1) - 4))
           [0..<PAGE_MAX_DEPTH] (slab_size_limits s),
       free_cache_head := None\<rparr>"

definition page_init :: "slabs \<Rightarrow> slabs" where
  "page_init s = slab_cache_init (s\<lparr>sl_pages := buddy_init\<rparr>)"

text \<open>The search of \<^verbatim>\<open>slab_cache_create\<close> for the slab size: \<open>for (i = 0; i < PAGE_MAX_DEPTH; ++i)\<close>.\<close>

function find_slab_size :: "(nat \<Rightarrow> nat) \<Rightarrow> nat \<Rightarrow> nat \<Rightarrow> nat" where
  "find_slab_size limits osize i =
     (if i < PAGE_MAX_DEPTH then
        if osize \<le> limits i then PAGE_SIZE * 2 ^ i else find_slab_size limits osize (i + 1)
      else 0)"
  by pat_completeness auto
termination
  by (relation "measure (\<lambda>(l, sz, i). PAGE_MAX_DEPTH - i)") auto

definition slab_cache_create :: "slabs \<Rightarrow> u8 list \<Rightarrow> nat \<Rightarrow> (cache_ptr option \<times> slabs) option" where
  "slab_cache_create s name sz =
     (if sz = 0 then Some (None, s)
      else if length name \<ge> MAX_SLAB_NAME then Some (None, s)
      else
        Option.bind (slab_cache_new s) (\<lambda>(c, s).
          let s = upd_cache s c (\<lambda>x. x\<lparr>sc_name := name\<rparr>);
              s = upd_cache s c (\<lambda>x. x\<lparr>object_size := (sz + 3) div 4 * 4\<rparr>);
              ssz = find_slab_size (slab_size_limits s) (object_size (sl_caches s c)) 0;
              s = (if ssz \<noteq> 0 then upd_cache s c (\<lambda>x. x\<lparr>slab_size := ssz\<rparr>) else s)
          in if slab_size (sl_caches s c) = 0 then Some (None, s) else Some (Some c, s)))"

text \<open>Both loops of \<^verbatim>\<open>slab_cache_destroy\<close>: releasing a list of slabs.\<close>

partial_function (option) release_slabs :: "slabs \<Rightarrow> nat option \<Rightarrow> slabs option" where
  "release_slabs s header =
     (case header of
        None \<Rightarrow> Some s
      | Some p \<Rightarrow>
          let next_header = sh_next (sl_headers s p)
          in Option.bind (page_find_by_address (page_address (sl_pages s) p)) (\<lambda>i.
             Option.bind (buddy_free (sl_pages s) i) (\<lambda>b. release_slabs (s\<lparr>sl_pages := b\<rparr>) next_header)))"

definition slab_cache_destroy :: "slabs \<Rightarrow> cache_ptr \<Rightarrow> slabs option" where
  "slab_cache_destroy s c =
     Option.bind (release_slabs s (slabs_full (sl_caches s c))) (\<lambda>s.
     Option.bind (release_slabs s (slabs_partial (sl_caches s c))) (\<lambda>s.
     Some (slab_cache_delete s c)))"

definition slab_cache_alloc :: "slabs \<Rightarrow> cache_ptr \<Rightarrow> (u32 \<times> slabs) option" where
  "slab_cache_alloc s c =
     Option.bind
       (case slabs_partial (sl_caches s c) of
          Some p \<Rightarrow> Some (p, s)
        | None \<Rightarrow>
            map_option (\<lambda>(p, s). (p, upd_cache s c (\<lambda>x. x\<lparr>slabs_partial := Some p\<rparr>))) (slab_new s (sl_caches s c)))
       (\<lambda>(p, s).
          let idx = sh_free (sl_headers s p);
              next_index = unat (sh_list (sl_headers s p) idx);
              s = upd_header s p (\<lambda>h. h\<lparr>sh_list := (sh_list h)(idx := SLAB_FREE_END)\<rparr>);
              s = upd_header s p (\<lambda>h. h\<lparr>sh_free := next_index\<rparr>);
              s = (if sh_list (sl_headers s p) next_index = SLAB_FREE_END then
                     let s = upd_cache s c (\<lambda>x. x\<lparr>slabs_partial := sh_next (sl_headers s p)\<rparr>);
                         s = upd_header s p (\<lambda>h. h\<lparr>sh_next := slabs_full (sl_caches s c)\<rparr>)
                     in upd_cache s c (\<lambda>x. x\<lparr>slabs_full := Some p\<rparr>)
                   else s)
          in Some (page_address (sl_pages s) p + of_nat (sh_object (sl_headers s p) + object_size (sl_caches s c) * idx), s))"

text \<open>
  The loop of \<^verbatim>\<open>slab_cache_free\<close> over the full slabs; \<open>hp\<close> is the head of the list (\<^const>\<open>None\<close>) or the
  \<open>next\<close> field of a header.  When the slab is not found the kernel halts.
\<close>

partial_function (option) unfull_slab :: "slabs \<Rightarrow> cache_ptr \<Rightarrow> nat \<Rightarrow> nat option \<Rightarrow> nat option \<Rightarrow> slabs option" where
  "unfull_slab s c header hp h =
     (case h of
        None \<Rightarrow> None
      | Some p \<Rightarrow>
          if p = header then
            let s = (case hp of
                       None \<Rightarrow> upd_cache s c (\<lambda>x. x\<lparr>slabs_full := sh_next (sl_headers s p)\<rparr>)
                     | Some q \<Rightarrow> upd_header s q (\<lambda>x. x\<lparr>sh_next := sh_next (sl_headers s p)\<rparr>));
                s = upd_header s p (\<lambda>x. x\<lparr>sh_next := slabs_partial (sl_caches s c)\<rparr>)
            in Some (upd_cache s c (\<lambda>x. x\<lparr>slabs_partial := Some p\<rparr>))
          else unfull_slab s c header (Some p) (sh_next (sl_headers s p)))"

definition slab_cache_free :: "slabs \<Rightarrow> cache_ptr \<Rightarrow> u32 \<Rightarrow> slabs option" where
  "slab_cache_free s c obj =
     Option.bind (Option.bind (page_find_by_address obj) (page_find_head (sl_pages s))) (\<lambda>p.
       let base = page_address (sl_pages s) p + of_nat (sh_object (sl_headers s p));
           idx = unat (obj - base) div object_size (sl_caches s c);
           next_index = sh_free (sl_headers s p);
           s = upd_header s p (\<lambda>h. h\<lparr>sh_list := (sh_list h)(idx := of_nat next_index)\<rparr>);
           s = upd_header s p (\<lambda>h. h\<lparr>sh_free := idx\<rparr>)
       in if sh_list (sl_headers s p) next_index = SLAB_FREE_END
          then unfull_slab s c p None (slabs_full (sl_caches s c))
          else Some s)"

end
