(* ===== verification/Cy_Slab_Correct.thy ===== *)
theory Cy_Slab_Correct
  imports Cy_Slab
begin

text \<open>
  Correctness of the slab caches.  \<^term>\<open>cache_inv s c FUL PAR FS\<close> describes one cache: its full and
  its partial slabs as lists of pages and, for each slab, the list of its free objects.  The objects
  in use are the others.  The allocator over all caches of a set is an interpretation of the block
  allocator of \<^theory_text>\<open>Cy_Page\<close>.
\<close>

subsection \<open>Lists of slabs and of free objects\<close>

fun linked :: "('a \<Rightarrow> 'a option) \<Rightarrow> 'a option \<Rightarrow> 'a list \<Rightarrow> bool" where
  "linked nx p [] \<longleftrightarrow> p = None"
| "linked nx p (x # xs) \<longleftrightarrow> p = Some x \<and> linked nx (nx x) xs"

lemma linked_cong: "\<forall>x \<in> set xs. nx' x = nx x \<Longrightarrow> linked nx' p xs = linked nx p xs"
  by (induction xs arbitrary: p) auto

lemma linked_unique: "linked nx p xs \<Longrightarrow> linked nx p ys \<Longrightarrow> xs = ys"
proof (induction xs arbitrary: p ys)
  case Nil
  then show ?case by (cases ys) auto
next
  case (Cons x xs)
  then show ?case by (cases ys) auto
qed

lemma linked_eq: "linked nx p xs \<Longrightarrow> linked nx p ys \<longleftrightarrow> ys = xs"
  using linked_unique by metis

lemma linked_None [simp]: "linked nx None xs \<longleftrightarrow> xs = []"
  by (cases xs) auto

text \<open>The free objects of a slab, in the order of its list; the index \<open>n\<close> ends the list.\<close>

fun fchain :: "(nat \<Rightarrow> u32) \<Rightarrow> nat \<Rightarrow> nat \<Rightarrow> nat list \<Rightarrow> bool" where
  "fchain fl n i [] \<longleftrightarrow> i = n"
| "fchain fl n i (x # xs) \<longleftrightarrow> i = x \<and> x < n \<and> fchain fl n (unat (fl x)) xs"

lemma fchain_cong: "\<forall>x \<in> set xs. fl' x = fl x \<Longrightarrow> fchain fl' n i xs = fchain fl n i xs"
  by (induction xs arbitrary: i) auto

lemma fchain_unique: "fchain fl n i xs \<Longrightarrow> fchain fl n i ys \<Longrightarrow> xs = ys"
proof (induction xs arbitrary: i ys)
  case Nil
  then show ?case by (cases ys) auto
next
  case (Cons x xs)
  then show ?case by (cases ys) auto
qed

lemma fchain_less: "fchain fl n i xs \<Longrightarrow> \<forall>x \<in> set xs. x < n"
  by (induction xs arbitrary: i) auto

lemma fchain_start: "fchain fl n i xs \<Longrightarrow> i = n \<longleftrightarrow> xs = []"
  by (cases xs) auto

lemma fchain_start_le: "fchain fl n i xs \<Longrightarrow> i \<le> n"
  by (cases xs) auto

lemma fold_list_init: "fold (\<lambda>i fl. fl(i := of_nat (i + 1))) [0..<n] (\<lambda>_. 0 :: u32) j = (if j < n then of_nat (j + 1) else 0)"
  by (induction n) auto

lemma fchain_init:
  "n < 2 ^ 32 \<Longrightarrow> m \<le> n \<Longrightarrow> \<forall>j < n. fl j = (of_nat (j + 1) :: u32) \<Longrightarrow> fchain fl n m [m..<n]"
proof (induction "n - m" arbitrary: m)
  case (Suc k)
  then have "unat (fl m) = Suc m" using unat_of_nat_small [of "Suc m", where 'a = 32] by simp
  then show ?case using Suc by (simp add: upt_conv_Cons)
qed simp

subsection \<open>The invariant\<close>

definition slab_ok :: "slab_header \<Rightarrow> nat \<Rightarrow> nat list \<Rightarrow> bool" where
  "slab_ok h n F \<longleftrightarrow> sh_object h = sizeof_slab_header + 4 * (n + 1) \<and>
     fchain (sh_list h) n (sh_free h) F \<and> distinct F \<and> sh_list h n = SLAB_FREE_END"

definition cache_sizes :: "slab_cache \<Rightarrow> bool" where
  "cache_sizes C \<longleftrightarrow> 0 < object_size C \<and> 0 < slab_max_object_num C \<and> slab_size C \<le> 2 ^ PAGE_MAX_ORDER * PAGE_SIZE"

definition cache_inv :: "slabs \<Rightarrow> cache_ptr \<Rightarrow> nat list \<Rightarrow> nat list \<Rightarrow> (nat \<Rightarrow> nat list) \<Rightarrow> bool" where
  "cache_inv s c FUL PAR FS \<longleftrightarrow>
     cache_sizes (sl_caches s c) \<and>
     linked (\<lambda>p. sh_next (sl_headers s p)) (slabs_full (sl_caches s c)) FUL \<and>
     linked (\<lambda>p. sh_next (sl_headers s p)) (slabs_partial (sl_caches s c)) PAR \<and>
     distinct (FUL @ PAR) \<and>
     (\<forall>p \<in> set (FUL @ PAR). (p, fit_order (slab_size (sl_caches s c))) \<in> used_blocks (sl_pages s) \<and>
        slab_ok (sl_headers s p) (slab_max_object_num (sl_caches s c)) (FS p)) \<and>
     (\<forall>p \<in> set FUL. FS p = []) \<and> (\<forall>p \<in> set PAR. FS p \<noteq> [])"

text \<open>The slabs of a cache and its objects in use, read off the memory.\<close>

definition slab_pages :: "slabs \<Rightarrow> cache_ptr \<Rightarrow> nat set" where
  "slab_pages s c = {p. \<exists>q xs. q \<in> {slabs_full (sl_caches s c), slabs_partial (sl_caches s c)} \<and>
     linked (\<lambda>p. sh_next (sl_headers s p)) q xs \<and> p \<in> set xs}"

definition live :: "slabs \<Rightarrow> cache_ptr \<Rightarrow> (nat \<times> nat) set" where
  "live s c = {(p, i). p \<in> slab_pages s c \<and> i < slab_max_object_num (sl_caches s c) \<and>
     \<not> (\<exists>F. fchain (sh_list (sl_headers s p)) (slab_max_object_num (sl_caches s c)) (sh_free (sl_headers s p)) F \<and> i \<in> set F)}"

definition object_offset :: "slab_cache \<Rightarrow> nat \<Rightarrow> nat" where
  "object_offset C i = sizeof_slab_header + 4 * (slab_max_object_num C + 1) + object_size C * i"

definition object_address :: "slabs \<Rightarrow> cache_ptr \<Rightarrow> nat \<times> nat \<Rightarrow> u32" where
  "object_address s c x = page_address (sl_pages s) (fst x) + of_nat (object_offset (sl_caches s c) (snd x))"

lemma cache_inv_pages:
  assumes "cache_inv s c FUL PAR FS"
  shows "slab_pages s c = set FUL \<union> set PAR"
proof -
  have l: "linked (\<lambda>p. sh_next (sl_headers s p)) (slabs_full (sl_caches s c)) FUL"
    "linked (\<lambda>p. sh_next (sl_headers s p)) (slabs_partial (sl_caches s c)) PAR"
    using assms by (auto simp: cache_inv_def)
  have "slab_pages s c =
      {p. \<exists>xs. linked (\<lambda>p. sh_next (sl_headers s p)) (slabs_full (sl_caches s c)) xs \<and> p \<in> set xs} \<union>
      {p. \<exists>xs. linked (\<lambda>p. sh_next (sl_headers s p)) (slabs_partial (sl_caches s c)) xs \<and> p \<in> set xs}"
    unfolding slab_pages_def by blast
  then show ?thesis unfolding linked_eq [OF l(1)] linked_eq [OF l(2)] by simp
qed

lemma cache_inv_live:
  assumes "cache_inv s c FUL PAR FS"
  shows "live s c = {(p, i). p \<in> set FUL \<union> set PAR \<and> i < slab_max_object_num (sl_caches s c) \<and> i \<notin> set (FS p)}"
proof -
  have "(\<exists>F. fchain (sh_list (sl_headers s p)) (slab_max_object_num (sl_caches s c)) (sh_free (sl_headers s p)) F \<and> i \<in> set F)
      \<longleftrightarrow> i \<in> set (FS p)" if "p \<in> set FUL \<union> set PAR" for p i
  proof -
    have "fchain (sh_list (sl_headers s p)) (slab_max_object_num (sl_caches s c)) (sh_free (sl_headers s p)) (FS p)"
      using assms that by (auto simp: cache_inv_def slab_ok_def)
    then show ?thesis using fchain_unique by blast
  qed
  then show ?thesis unfolding live_def cache_inv_pages [OF assms] by auto
qed

text \<open>A step that leaves a cache, its headers and its pages alone keeps its invariant and objects.\<close>

lemma cache_inv_frame:
  assumes i: "cache_inv s c FUL PAR FS" and c: "sl_caches s' c = sl_caches s c"
    and h: "\<forall>p \<in> set FUL \<union> set PAR. sl_headers s' p = sl_headers s p"
    and u: "used_blocks (sl_pages s) \<subseteq> used_blocks (sl_pages s')"
  shows "cache_inv s' c FUL PAR FS" "live s' c = live s c"
proof -
  have l: "linked (\<lambda>p. sh_next (sl_headers s' p)) q xs = linked (\<lambda>p. sh_next (sl_headers s p)) q xs"
    if "set xs \<subseteq> set FUL \<union> set PAR" for q xs
    using that h by (intro linked_cong) auto
  show i': "cache_inv s' c FUL PAR FS" using i c h u l [of FUL] l [of PAR] by (auto simp: cache_inv_def)
  show "live s' c = live s c" unfolding cache_inv_live [OF i] cache_inv_live [OF i'] c ..
qed

subsection \<open>Field updates\<close>

lemma upd_header_simps [simp]:
  "sl_headers (upd_header s p f) q = (if q = p then f (sl_headers s p) else sl_headers s q)"
  "sl_caches (upd_header s p f) = sl_caches s" "sl_pages (upd_header s p f) = sl_pages s"
  by (simp_all add: upd_header_def)

lemma upd_cache_simps [simp]:
  "sl_caches (upd_cache s c f) d = (if d = c then f (sl_caches s c) else sl_caches s d)"
  "sl_headers (upd_cache s c f) = sl_headers s" "sl_pages (upd_cache s c f) = sl_pages s"
  by (simp_all add: upd_cache_def)

lemma max_object_num_cong [simp]:
  "slab_max_object_num (x\<lparr>slabs_partial := a\<rparr>) = slab_max_object_num x"
  "slab_max_object_num (x\<lparr>slabs_full := b\<rparr>) = slab_max_object_num x"
  by (simp_all add: slab_max_object_num_def)

lemma cache_sizes_cong [simp]:
  "cache_sizes (x\<lparr>slabs_partial := a\<rparr>) = cache_sizes x" "cache_sizes (x\<lparr>slabs_full := b\<rparr>) = cache_sizes x"
  by (simp_all add: cache_sizes_def)

lemma max_object_num_bound: "cache_sizes C \<Longrightarrow> slab_max_object_num C < 2 ^ 23"
proof -
  assume "cache_sizes C"
  then have "slab_size C \<le> 2 ^ 22" by (simp add: cache_sizes_def PAGE_MAX_ORDER_def PAGE_SIZE_def)
  moreover have "slab_max_object_num C \<le> slab_size C"
    unfolding slab_max_object_num_def by (meson diff_le_self div_le_dividend order.trans)
  ultimately show ?thesis by simp
qed

subsection \<open>Allocation\<close>

text \<open>First part: a slab with a free object is at the head of the partial list.\<close>

definition take_slab :: "slabs \<Rightarrow> cache_ptr \<Rightarrow> (nat \<times> slabs) option" where
  "take_slab s c =
     (case slabs_partial (sl_caches s c) of
        Some p \<Rightarrow> Some (p, s)
      | None \<Rightarrow>
          map_option (\<lambda>(p, s). (p, upd_cache s c (\<lambda>x. x\<lparr>slabs_partial := Some p\<rparr>))) (slab_new s (sl_caches s c)))"

lemma take_slab_inv:
  assumes inv: "buddy_inv (sl_pages s)" "cache_inv s c FUL PAR FS" and t: "take_slab s c = Some (p, s')"
  obtains PAR' FS' where "cache_inv s' c FUL (p # PAR') FS'" "live s' c = live s c" "buddy_inv (sl_pages s')"
    "used_blocks (sl_pages s) \<subseteq> used_blocks (sl_pages s')"
    "\<forall>d. d \<noteq> c \<longrightarrow> sl_caches s' d = sl_caches s d"
    "object_size (sl_caches s' c) = object_size (sl_caches s c)" "slab_size (sl_caches s' c) = slab_size (sl_caches s c)"
    "p \<in> slab_pages s c \<and> s' = s \<or> (\<forall>k. (p, k) \<notin> used_blocks (sl_pages s)) \<and> (\<forall>q. q \<noteq> p \<longrightarrow> sl_headers s' q = sl_headers s q)"
    "slab_pages s' c \<subseteq> slab_pages s c \<union> {p}"
proof (cases "slabs_partial (sl_caches s c)")
  case (Some q)
  then have q: "q = p" "s' = s" using t by (auto simp: take_slab_def)
  then obtain PAR' where "PAR = p # PAR'" using inv(2) Some by (cases PAR) (auto simp: cache_inv_def)
  then show thesis using that [of PAR' FS] inv q cache_inv_pages [OF inv(2)] by simp
next
  case None
  let ?C = "sl_caches s c"
  let ?n = "slab_max_object_num ?C"
  obtain b where b: "buddy_alloc (sl_pages s) (slab_size ?C) = Some (p, b)"
    using t None by (auto simp: take_slab_def slab_new_def Let_def split: option.splits)
  let ?fl = "(fold (\<lambda>i fl. fl(i := of_nat (i + 1))) [0..<?n] (\<lambda>_. 0))(?n := SLAB_FREE_END)"
  let ?h = "\<lparr>sh_next = None, sh_free = 0, sh_list = ?fl, sh_object = sizeof_slab_header + 4 * (?n + 1)\<rparr>"
  have s': "s' = upd_cache (s\<lparr>sl_pages := b, sl_headers := (sl_headers s)(p := ?h)\<rparr>) c (\<lambda>x. x\<lparr>slabs_partial := Some p\<rparr>)"
    using t None b by (simp add: take_slab_def slab_new_def Let_def)
  note a = pa.alloc_used [OF inv(1) b]
  have fresh: "(p, k) \<notin> used_blocks (sl_pages s)" for k
    using a block_pages_def [of "(p, k)"] block_pages_def [of "(p, fit_order (slab_size ?C))"] by fastforce
  have n: "?n < 2 ^ 32" using inv(2) max_object_num_bound [of ?C] by (simp add: cache_inv_def)
  have par: "PAR = []" using inv(2) None by (simp add: cache_inv_def)
  have notin: "p \<notin> set FUL" using inv(2) fresh by (auto simp: cache_inv_def)
  have pos: "0 < ?n" using inv(2) by (simp add: cache_inv_def cache_sizes_def)
  have ok: "slab_ok ?h ?n [0..<?n]"
  proof -
    have "?fl j = of_nat (j + 1)" if "j < ?n" for j using that fold_list_init [of ?n j] by simp
    then have "fchain ?fl ?n 0 [0..<?n]" using n by (intro fchain_init) auto
    then show ?thesis by (simp add: slab_ok_def)
  qed
  have ful: "linked (\<lambda>q. sh_next (sl_headers s' q)) (slabs_full ?C) FUL"
    using inv(2) notin s' linked_cong [of FUL "\<lambda>q. sh_next (sl_headers s' q)" "\<lambda>q. sh_next (sl_headers s q)"]
    by (auto simp: cache_inv_def)
  let ?FS = "FS(p := [0..<?n])"
  have i': "cache_inv s' c FUL [p] ?FS"
    using inv(2) ful notin pos ok a par unfolding cache_inv_def by (auto simp: s')
  moreover have "live s' c = live s c"
    unfolding cache_inv_live [OF i'] cache_inv_live [OF inv(2)] par using notin by (auto simp: s' split: if_splits)
  moreover have "slab_pages s' c \<subseteq> slab_pages s c \<union> {p}"
    unfolding cache_inv_pages [OF i'] cache_inv_pages [OF inv(2)] by auto
  ultimately show thesis
    using a fresh by (intro that [of "[]" ?FS]) (auto simp: s')
qed

text \<open>Second part: the first free object of the slab is taken.\<close>

definition take_object :: "slabs \<Rightarrow> cache_ptr \<Rightarrow> nat \<Rightarrow> u32 \<times> slabs" where
  "take_object s c p =
     (let idx = sh_free (sl_headers s p);
          next_index = unat (sh_list (sl_headers s p) idx);
          s = upd_header s p (\<lambda>h. h\<lparr>sh_list := (sh_list h)(idx := SLAB_FREE_END)\<rparr>);
          s = upd_header s p (\<lambda>h. h\<lparr>sh_free := next_index\<rparr>);
          s = (if sh_list (sl_headers s p) next_index = SLAB_FREE_END then
                 let s = upd_cache s c (\<lambda>x. x\<lparr>slabs_partial := sh_next (sl_headers s p)\<rparr>);
                     s = upd_header s p (\<lambda>h. h\<lparr>sh_next := slabs_full (sl_caches s c)\<rparr>)
                 in upd_cache s c (\<lambda>x. x\<lparr>slabs_full := Some p\<rparr>)
               else s)
      in (page_address (sl_pages s) p + of_nat (sh_object (sl_headers s p) + object_size (sl_caches s c) * idx), s))"

lemma slab_cache_alloc_parts:
  "slab_cache_alloc s c = map_option (\<lambda>(p, s). take_object s c p) (take_slab s c)"
  unfolding slab_cache_alloc_def take_slab_def take_object_def Let_def
  by (cases "slabs_partial (sl_caches s c)"; cases "slab_new s (sl_caches s c)") auto

lemma free_list_end:
  assumes "fchain fl n i F" "n < 2 ^ 32 - 1" "fl n = SLAB_FREE_END"
  shows "fl i = SLAB_FREE_END \<longleftrightarrow> F = []"
proof (cases F)
  case (Cons x xs)
  then have "unat (fl i) \<le> n" using assms(1) fchain_start_le by auto
  then have "fl i \<noteq> SLAB_FREE_END" using assms(2) by (auto simp: SLAB_FREE_END_def)
  then show ?thesis using Cons by simp
qed (use assms in simp)

lemma take_object_state:
  fixes c :: cache_ptr
  assumes "sh_free (sl_headers s p) = i"
  defines "h \<equiv> sl_headers s p" and "C \<equiv> sl_caches s c"
  defines "fl \<equiv> (sh_list h)(i := SLAB_FREE_END)" and "nx \<equiv> unat (sh_list h i)"
  shows "sl_headers (snd (take_object s c p)) q =
      (if q = p then h\<lparr>sh_list := fl, sh_free := nx, sh_next := if fl nx = SLAB_FREE_END then slabs_full C else sh_next h\<rparr>
       else sl_headers s q)"
    "sl_caches (snd (take_object s c p)) e =
      (if e = c then if fl nx = SLAB_FREE_END then C\<lparr>slabs_partial := sh_next h, slabs_full := Some p\<rparr> else C else sl_caches s e)"
    "sl_pages (snd (take_object s c p)) = sl_pages s"
    "fst (take_object s c p) = page_address (sl_pages s) p + of_nat (sh_object h + object_size C * i)"
proof -
  have i: "sh_free h = i" using assms(1) by (simp add: h_def)
  show "sl_headers (snd (take_object s c p)) q =
      (if q = p then h\<lparr>sh_list := fl, sh_free := nx, sh_next := if fl nx = SLAB_FREE_END then slabs_full C else sh_next h\<rparr>
       else sl_headers s q)"
    unfolding take_object_def Let_def h_def [symmetric] i
    by (cases "fl nx = SLAB_FREE_END") (simp_all add: h_def C_def fl_def nx_def)
  show "sl_caches (snd (take_object s c p)) e =
      (if e = c then if fl nx = SLAB_FREE_END then C\<lparr>slabs_partial := sh_next h, slabs_full := Some p\<rparr> else C else sl_caches s e)"
    unfolding take_object_def Let_def h_def [symmetric] i
    by (cases "fl nx = SLAB_FREE_END") (simp_all add: h_def C_def fl_def nx_def)
  show "sl_pages (snd (take_object s c p)) = sl_pages s"
    "fst (take_object s c p) = page_address (sl_pages s) p + of_nat (sh_object h + object_size C * i)"
    unfolding take_object_def Let_def h_def [symmetric] i
    by (cases "fl nx = SLAB_FREE_END"; simp add: h_def C_def fl_def nx_def)+
qed

lemma take_object_inv:
  assumes inv: "cache_inv s c FUL (p # PAR) FS" and t: "take_object s c p = (obj, s')"
  obtains FUL' PAR' FS' i where "cache_inv s' c FUL' PAR' FS'" "(p, i) \<notin> live s c"
    "live s' c = insert (p, i) (live s c)" "obj = object_address s c (p, i)" "i < slab_max_object_num (sl_caches s c)"
    "sl_pages s' = sl_pages s" "\<forall>d. d \<noteq> c \<longrightarrow> sl_caches s' d = sl_caches s d"
    "\<forall>q. q \<noteq> p \<longrightarrow> sl_headers s' q = sl_headers s q"
    "object_size (sl_caches s' c) = object_size (sl_caches s c)" "slab_size (sl_caches s' c) = slab_size (sl_caches s c)"
    "slab_pages s' c = slab_pages s c"
proof -
  let ?C = "sl_caches s c" and ?h = "sl_headers s p"
  let ?n = "slab_max_object_num ?C"
  have ok: "slab_ok ?h ?n (FS p)" and ne: "FS p \<noteq> []" and d: "distinct (FUL @ p # PAR)" and sz: "cache_sizes ?C"
    using inv by (auto simp: cache_inv_def)
  have n: "?n < 2 ^ 32 - 1" using max_object_num_bound [OF sz] by simp
  obtain i F where F: "FS p = i # F" using ne by (cases "FS p") auto
  then have fc: "sh_free ?h = i" "i < ?n" "fchain (sh_list ?h) ?n (unat (sh_list ?h i)) F" "i \<notin> set F" "distinct F"
      "sh_list ?h ?n = SLAB_FREE_END" "sh_object ?h = sizeof_slab_header + 4 * (?n + 1)"
    using ok by (auto simp: slab_ok_def)
  define fl where "fl = (sh_list ?h)(i := SLAB_FREE_END)"
  let ?nx = "unat (sh_list ?h i)"
  have fc': "fchain fl ?n ?nx F" unfolding fl_def using fc(3,4) by (subst fchain_cong) auto
  have fend: "fl ?n = SLAB_FREE_END" using fc by (simp add: fl_def)
  have stop: "fl ?nx = SLAB_FREE_END \<longleftrightarrow> F = []" using fc' n fend by (rule free_list_end)
  have obj: "obj = object_address s c (p, i)"
    using t fc(7) take_object_state(4) [OF fc(1), of c] by (simp add: object_address_def object_offset_def add.assoc)
  define FUL' where "FUL' = (if F = [] then p # FUL else FUL)"
  define PAR' where "PAR' = (if F = [] then PAR else p # PAR)"
  define h' where "h' = ?h\<lparr>sh_list := fl, sh_free := ?nx, sh_next := (if F = [] then slabs_full ?C else sh_next ?h)\<rparr>"
  define C' where "C' = (if F = [] then ?C\<lparr>slabs_partial := sh_next ?h, slabs_full := Some p\<rparr> else ?C)"
  have s': "sl_headers s' q = (if q = p then h' else sl_headers s q)" "sl_caches s' e = (if e = c then C' else sl_caches s e)"
    "sl_pages s' = sl_pages s" for q e
    using take_object_state(1-3) [OF fc(1), of c, folded fl_def] stop unfolding t snd_conv h'_def C'_def by simp_all
  have n': "slab_max_object_num C' = ?n" "object_size C' = object_size ?C" "slab_size C' = slab_size ?C"
    by (simp_all add: C'_def)
  have l: "linked (\<lambda>q. sh_next (sl_headers s' q)) x xs = linked (\<lambda>q. sh_next (sl_headers s q)) x xs" if "p \<notin> set xs" for x xs
    using that s'(1) by (intro linked_cong) auto
  have lists: "linked (\<lambda>q. sh_next (sl_headers s' q)) (slabs_full C') FUL'"
    "linked (\<lambda>q. sh_next (sl_headers s' q)) (slabs_partial C') PAR'"
    using inv d l [of FUL] l [of PAR] s'(1)
    by (cases "F = []"; simp add: cache_inv_def FUL'_def PAR'_def C'_def h'_def)+
  have pages: "set FUL' \<union> set PAR' = set FUL \<union> set (p # PAR)" "distinct (FUL' @ PAR')"
    using d by (auto simp: FUL'_def PAR'_def)
  have "slab_ok h' ?n F" using fc fc' fend by (simp add: slab_ok_def h'_def)
  then have ok': "slab_ok (sl_headers s' q) ?n ((FS(p := F)) q)" if "q \<in> set FUL \<union> set (p # PAR)" for q
    using inv that s'(1) by (auto simp: cache_inv_def)
  have used: "(q, fit_order (slab_size ?C)) \<in> used_blocks (sl_pages s)" if "q \<in> set FUL \<union> set (p # PAR)" for q
    using inv that by (auto simp: cache_inv_def)
  have kinds: "\<forall>q \<in> set FUL'. (FS(p := F)) q = []" "\<forall>q \<in> set PAR'. (FS(p := F)) q \<noteq> []"
    using inv d by (auto simp: cache_inv_def FUL'_def PAR'_def)
  have cs: "cache_sizes C'" using sz by (simp add: C'_def)
  have i': "cache_inv s' c FUL' PAR' (FS(p := F))"
    unfolding cache_inv_def s'(2,3) if_P [OF refl] n' set_append pages(1)
    using lists pages(2) ok' used kinds cs by simp
  have lv: "live s' c = insert (p, i) (live s c)"
    unfolding cache_inv_live [OF i'] cache_inv_live [OF inv] pages(1) s'(2) if_P [OF refl] n'
    using F fc(2,4) by (auto split: if_splits)
  have "(p, i) \<notin> live s c" unfolding cache_inv_live [OF inv] using F by simp
  moreover have "slab_pages s' c = slab_pages s c"
    unfolding cache_inv_pages [OF i'] cache_inv_pages [OF inv] by (rule pages(1))
  ultimately show thesis
    using i' lv obj fc(2) s' n' by (intro that [of FUL' PAR' "FS(p := F)" i]) auto
qed

subsection \<open>Objects in memory\<close>

lemma object_offset_bound:
  assumes "i < slab_max_object_num C"
  shows "object_offset C i + object_size C \<le> slab_size C"
proof -
  let ?n = "slab_max_object_num C" and ?os = "object_size C"
  have "?n * (?os + 4) \<le> slab_size C - SLAB_HEADER_SIZE" by (simp add: slab_max_object_num_def)
  moreover have "SLAB_HEADER_SIZE \<le> slab_size C"
    using assms by (cases "SLAB_HEADER_SIZE \<le> slab_size C") (auto simp: slab_max_object_num_def)
  ultimately have "SLAB_HEADER_SIZE + ?n * (?os + 4) \<le> slab_size C" by simp
  moreover have "?os * i + ?os \<le> ?os * ?n" using assms by (metis Suc_leI mult_Suc_right mult_le_mono2 add.commute)
  ultimately show ?thesis
    by (simp add: object_offset_def SLAB_HEADER_SIZE_def sizeof_slab_header_def algebra_simps)
qed

lemma fit_order_covers: "sz \<le> 2 ^ fit_order sz * PAGE_SIZE"
  by (simp add: fits_iff_fit_order_le)

definition page_base :: "nat \<Rightarrow> nat" where
  "page_base p = 0x65000000 + PAGE_SIZE * p"

lemma page_address_unat:
  assumes "buddy_inv b" "(p, k) \<in> used_blocks b" "off < 2 ^ k * PAGE_SIZE"
  shows "unat (page_address b p + of_nat off) = page_base p + off"
proof -
  note d = used_blocks_bounds [OF assms(1,2)]
  have "PAGE_SIZE * p + off < PAGE_SIZE * (p + 2 ^ k)" using assms(3) by (simp add: algebra_simps)
  also have "\<dots> \<le> PAGE_SIZE * PAGE_NUM" using d(4) by simp
  finally have "page_base p + off < 2 ^ 32" by (simp add: page_base_def PAGE_SIZE_def PAGE_NUM_def)
  then have "unat (of_nat (page_base p + off) :: u32) = page_base p + off" by (intro unat_of_nat_small) simp
  then show ?thesis using d(5) by (simp add: page_address_def page_base_def PAGE_START_def add.assoc)
qed

lemma object_address_unat:
  assumes "buddy_inv (sl_pages s)" "(p, fit_order (slab_size (sl_caches s c))) \<in> used_blocks (sl_pages s)"
    "i < slab_max_object_num (sl_caches s c)" "0 < object_size (sl_caches s c)"
  shows "unat (object_address s c (p, i)) = page_base p + object_offset (sl_caches s c) i"
proof -
  have "object_offset (sl_caches s c) i < slab_size (sl_caches s c)"
    using object_offset_bound [OF assms(3)] assms(4) by linarith
  also have "\<dots> \<le> 2 ^ fit_order (slab_size (sl_caches s c)) * PAGE_SIZE" by (rule fit_order_covers)
  finally show ?thesis
    using page_address_unat [OF assms(1,2)] by (simp add: object_address_def)
qed

definition object_bytes :: "slabs \<Rightarrow> cache_ptr \<Rightarrow> nat \<times> nat \<Rightarrow> nat set" where
  "object_bytes s c x = {unat (object_address s c x)..<unat (object_address s c x) + object_size (sl_caches s c)}"

definition slabs_inv :: "slabs \<Rightarrow> cache_ptr set \<Rightarrow> bool" where
  "slabs_inv s D \<longleftrightarrow> buddy_inv (sl_pages s) \<and> (\<forall>c \<in> D. \<exists>FUL PAR FS. cache_inv s c FUL PAR FS) \<and>
     (\<forall>c \<in> D. \<forall>d \<in> D. c \<noteq> d \<longrightarrow> slab_pages s c \<inter> slab_pages s d = {})"

lemma slabs_invE:
  assumes "slabs_inv s D" "c \<in> D"
  obtains FUL PAR FS where "cache_inv s c FUL PAR FS"
  using assms unfolding slabs_inv_def by blast

lemma live_page:
  assumes "cache_inv s c FUL PAR FS" "(p, i) \<in> live s c"
  shows "p \<in> slab_pages s c" "(p, fit_order (slab_size (sl_caches s c))) \<in> used_blocks (sl_pages s)"
    "i < slab_max_object_num (sl_caches s c)" "0 < object_size (sl_caches s c)"
  using assms cache_inv_live [OF assms(1)] cache_inv_pages [OF assms(1)]
  by (auto simp: cache_inv_def cache_sizes_def)

lemma object_bytes_in_block:
  assumes "buddy_inv (sl_pages s)" "cache_inv s c FUL PAR FS" "(p, i) \<in> live s c"
  shows "object_bytes s c (p, i) \<subseteq> {page_base p..<page_base (p + 2 ^ fit_order (slab_size (sl_caches s c)))}"
proof -
  note l = live_page [OF assms(2,3)]
  have "object_offset (sl_caches s c) i + object_size (sl_caches s c) \<le> 2 ^ fit_order (slab_size (sl_caches s c)) * PAGE_SIZE"
    using object_offset_bound [OF l(3)] fit_order_covers order.trans by blast
  then show ?thesis
    unfolding object_bytes_def object_address_unat [OF assms(1) l(2-4)] by (auto simp: page_base_def algebra_simps)
qed

lemma page_ranges_disjoint:
  assumes "block_pages (p, k) \<inter> block_pages (q, j) = {}"
  shows "{page_base p..<page_base (p + 2 ^ k)} \<inter> {page_base q..<page_base (q + 2 ^ j)} = {}"
proof -
  have "p + 2 ^ k \<le> q \<or> q + 2 ^ j \<le> p"
    using assms by (auto simp: block_pages_def disjoint_iff)
  then have "page_base (p + 2 ^ k) \<le> page_base q \<or> page_base (q + 2 ^ j) \<le> page_base p"
    by (auto simp: page_base_def PAGE_SIZE_def)
  then show ?thesis by auto
qed

text \<open>No two objects in use share a byte, whatever their caches.\<close>

lemma live_disjoint:
  assumes inv: "slabs_inv s D" and c: "c \<in> D" "(p, i) \<in> live s c" and d: "d \<in> D" "(q, j) \<in> live s d"
    and ne: "(c, p, i) \<noteq> (d, q, j)"
  shows "object_bytes s c (p, i) \<inter> object_bytes s d (q, j) = {}"
proof -
  obtain F1 P1 S1 where ci: "cache_inv s c F1 P1 S1" using inv c(1) by (rule slabs_invE)
  obtain F2 P2 S2 where di: "cache_inv s d F2 P2 S2" using inv d(1) by (rule slabs_invE)
  have b: "buddy_inv (sl_pages s)" using inv by (simp add: slabs_inv_def)
  note lc = live_page [OF ci c(2)] and ld = live_page [OF di d(2)]
  show ?thesis
  proof (cases "p = q")
    case False
    then have "block_pages (p, fit_order (slab_size (sl_caches s c))) \<inter> block_pages (q, fit_order (slab_size (sl_caches s d))) = {}"
      using used_blocks_disjoint [OF b lc(2) ld(2)] by simp
    then show ?thesis
      using page_ranges_disjoint object_bytes_in_block [OF b ci c(2)] object_bytes_in_block [OF b di d(2)] by blast
  next
    case True
    then have "c = d" using inv c(1) d(1) lc(1) ld(1) unfolding slabs_inv_def by blast
    then have "i \<noteq> j" using ne True by simp
    then have "object_size (sl_caches s c) * i + object_size (sl_caches s c) \<le> object_size (sl_caches s c) * j \<or>
        object_size (sl_caches s c) * j + object_size (sl_caches s c) \<le> object_size (sl_caches s c) * i"
      by (metis Suc_leI linorder_neqE_nat mult_Suc_right mult_le_mono2 add.commute)
    then show ?thesis
      unfolding object_bytes_def object_address_unat [OF b lc(2-4)] object_address_unat [OF b ld(2-4)]
      using True \<open>c = d\<close> by (auto simp: object_offset_def)
  qed
qed

subsection \<open>All caches\<close>

lemma slabs_inv_step:
  assumes inv: "slabs_inv s D" and c: "c \<in> D"
    and b: "buddy_inv (sl_pages s')" "used_blocks (sl_pages s) \<subseteq> used_blocks (sl_pages s')"
    and i': "cache_inv s' c FUL' PAR' FS'"
    and other: "\<forall>d. d \<noteq> c \<longrightarrow> sl_caches s' d = sl_caches s d"
    and heads: "\<forall>q. q \<notin> N \<longrightarrow> sl_headers s' q = sl_headers s q"
    and N: "N \<subseteq> slab_pages s c \<union> {p. \<forall>k. (p, k) \<notin> used_blocks (sl_pages s)}"
    and pages: "slab_pages s' c \<subseteq> slab_pages s c \<union> N"
  shows "slabs_inv s' D" "\<forall>d \<in> D. d \<noteq> c \<longrightarrow> live s' d = live s d"
proof -
  have d: "(\<exists>FUL PAR FS. cache_inv s' d FUL PAR FS) \<and> live s' d = live s d \<and> slab_pages s' d = slab_pages s d \<and>
      slab_pages s d \<inter> (slab_pages s c \<union> N) = {}" if "d \<in> D" "d \<noteq> c" for d
  proof -
    obtain FUL PAR FS where di: "cache_inv s d FUL PAR FS" using inv \<open>d \<in> D\<close> by (rule slabs_invE)
    have "slab_pages s d \<inter> slab_pages s c = {}" using inv c that by (auto simp: slabs_inv_def)
    moreover have "\<exists>k. (p, k) \<in> used_blocks (sl_pages s)" if "p \<in> slab_pages s d" for p
      using di that cache_inv_pages [OF di] by (auto simp: cache_inv_def)
    ultimately have dis: "slab_pages s d \<inter> (slab_pages s c \<union> N) = {}" using N by blast
    then have "\<forall>p \<in> set FUL \<union> set PAR. sl_headers s' p = sl_headers s p" using heads cache_inv_pages [OF di] by blast
    moreover have "sl_caches s' d = sl_caches s d" using other \<open>d \<noteq> c\<close> by blast
    ultimately have "cache_inv s' d FUL PAR FS" "live s' d = live s d"
      using cache_inv_frame [OF di _ _ b(2)] by auto
    then show ?thesis using dis cache_inv_pages [OF di] cache_inv_pages [of s' d FUL PAR FS] by auto
  qed
  then show "\<forall>d \<in> D. d \<noteq> c \<longrightarrow> live s' d = live s d" by blast
  show "slabs_inv s' D" unfolding slabs_inv_def
  proof (intro conjI ballI impI)
    show "buddy_inv (sl_pages s')" by (rule b)
    show "\<exists>FUL PAR FS. cache_inv s' e FUL PAR FS" if "e \<in> D" for e using d i' that by (cases "e = c") blast+
    fix e f assume ef: "e \<in> D" "f \<in> D" "e \<noteq> f"
    show "slab_pages s' e \<inter> slab_pages s' f = {}"
    proof (cases "e = c \<or> f = c")
      case True
      then show ?thesis using d [of e] d [of f] ef pages by blast
    next
      case False
      then show ?thesis using d [of e] d [of f] ef inv by (auto simp: slabs_inv_def)
    qed
  qed
qed

lemma slab_cache_alloc_inv:
  assumes inv: "slabs_inv s D" and c: "c \<in> D" and a: "slab_cache_alloc s c = Some (obj, s')"
  shows "slabs_inv s' D \<and> (\<forall>d \<in> D. d \<noteq> c \<longrightarrow> live s' d = live s d) \<and>
    (\<exists>x. obj = object_address s' c x \<and> x \<notin> live s c \<and> live s' c = insert x (live s c)) \<and>
    (\<forall>d. object_size (sl_caches s' d) = object_size (sl_caches s d))"
proof -
  obtain FUL PAR FS where ci: "cache_inv s c FUL PAR FS" using inv c by (rule slabs_invE)
  have b: "buddy_inv (sl_pages s)" using inv by (simp add: slabs_inv_def)
  obtain p s1 where t: "take_slab s c = Some (p, s1)" "take_object s1 c p = (obj, s')"
    using a by (auto simp: slab_cache_alloc_parts)
  obtain PAR1 FS1 where 1: "cache_inv s1 c FUL (p # PAR1) FS1" "live s1 c = live s c" "buddy_inv (sl_pages s1)"
    "used_blocks (sl_pages s) \<subseteq> used_blocks (sl_pages s1)"
    "\<forall>d. d \<noteq> c \<longrightarrow> sl_caches s1 d = sl_caches s d"
    "object_size (sl_caches s1 c) = object_size (sl_caches s c)" "slab_size (sl_caches s1 c) = slab_size (sl_caches s c)"
    "p \<in> slab_pages s c \<and> s1 = s \<or> (\<forall>k. (p, k) \<notin> used_blocks (sl_pages s)) \<and> (\<forall>q. q \<noteq> p \<longrightarrow> sl_headers s1 q = sl_headers s q)"
    "slab_pages s1 c \<subseteq> slab_pages s c \<union> {p}"
    using b ci t(1) by (rule take_slab_inv)
  obtain FUL2 PAR2 FS2 i where 2: "cache_inv s' c FUL2 PAR2 FS2" "(p, i) \<notin> live s1 c"
    "live s' c = insert (p, i) (live s1 c)" "obj = object_address s1 c (p, i)" "i < slab_max_object_num (sl_caches s1 c)"
    "sl_pages s' = sl_pages s1" "\<forall>d. d \<noteq> c \<longrightarrow> sl_caches s' d = sl_caches s1 d"
    "\<forall>q. q \<noteq> p \<longrightarrow> sl_headers s' q = sl_headers s1 q"
    "object_size (sl_caches s' c) = object_size (sl_caches s1 c)" "slab_size (sl_caches s' c) = slab_size (sl_caches s1 c)"
    "slab_pages s' c = slab_pages s1 c"
    using 1(1) t(2) by (rule take_object_inv)
  have st: "slabs_inv s' D" "\<forall>d \<in> D. d \<noteq> c \<longrightarrow> live s' d = live s d"
    by (rule slabs_inv_step [OF inv c _ _ 2(1), where N = "{p}"]; use 1 2 in auto)+
  have "object_address s' c (p, i) = object_address s1 c (p, i)"
    using 2 by (simp add: object_address_def object_offset_def slab_max_object_num_def)
  then have "\<exists>x. obj = object_address s' c x \<and> x \<notin> live s c \<and> live s' c = insert x (live s c)"
    using 1(2) 2(2-4) by (intro exI [of _ "(p, i)"]) simp
  moreover have "object_size (sl_caches s' d) = object_size (sl_caches s d)" for d
    using 1(5) [rule_format, of d] 1(6) 2(7) [rule_format, of d] 2(9) by (cases "d = c") simp_all
  ultimately show ?thesis using st by simp
qed

subsection \<open>Release\<close>

definition relink :: "slabs \<Rightarrow> cache_ptr \<Rightarrow> nat \<Rightarrow> nat option \<Rightarrow> slabs" where
  "relink s c p hp =
     (let s = (case hp of
                 None \<Rightarrow> upd_cache s c (\<lambda>x. x\<lparr>slabs_full := sh_next (sl_headers s p)\<rparr>)
               | Some q \<Rightarrow> upd_header s q (\<lambda>x. x\<lparr>sh_next := sh_next (sl_headers s p)\<rparr>));
          s = upd_header s p (\<lambda>x. x\<lparr>sh_next := slabs_partial (sl_caches s c)\<rparr>)
      in upd_cache s c (\<lambda>x. x\<lparr>slabs_partial := Some p\<rparr>))"

lemma unfull_slab_finds:
  "linked (\<lambda>q. sh_next (sl_headers s q)) h (ws @ p # vs) \<Longrightarrow> p \<notin> set ws \<Longrightarrow>
   unfull_slab s c p hp h = Some (relink s c p (if ws = [] then hp else Some (last ws)))"
proof (induction ws arbitrary: h hp)
  case Nil
  then show ?case by (subst unfull_slab.simps) (simp add: relink_def Let_def)
next
  case (Cons w ws)
  then show ?case by (subst unfull_slab.simps) auto
qed

lemma linked_unlink:
  "linked nx h (ws @ p # vs) \<Longrightarrow> distinct (ws @ p # vs) \<Longrightarrow> ws \<noteq> [] \<Longrightarrow>
   linked (nx(last ws := nx p)) h (ws @ vs)"
proof (induction ws arbitrary: h)
  case (Cons w ws)
  show ?case
  proof (cases "ws = []")
    case True
    then have "linked (nx(w := nx p)) (nx p) vs = linked nx (nx p) vs" using Cons.prems(2) by (intro linked_cong) auto
    then show ?thesis using Cons.prems True by (simp del: fun_upd_apply add: fun_upd_same)
  next
    case False
    moreover have "(nx(last ws := nx p)) w = nx w" using False Cons.prems(2) by auto
    ultimately show ?thesis using Cons by simp
  qed
qed simp

text \<open>The slab leaves the full list and joins the partial one.\<close>

lemma relink_lists:
  assumes l: "linked (\<lambda>q. sh_next (sl_headers s q)) (slabs_full (sl_caches s c)) (ws @ p # vs)"
    "linked (\<lambda>q. sh_next (sl_headers s q)) (slabs_partial (sl_caches s c)) PAR"
    and d: "distinct ((ws @ p # vs) @ PAR)"
  defines "s' \<equiv> relink s c p (if ws = [] then None else Some (last ws))"
  shows "linked (\<lambda>q. sh_next (sl_headers s' q)) (slabs_full (sl_caches s' c)) (ws @ vs)"
    "linked (\<lambda>q. sh_next (sl_headers s' q)) (slabs_partial (sl_caches s' c)) (p # PAR)"
proof -
  let ?nx = "\<lambda>q. sh_next (sl_headers s q)"
  have nx: "sh_next (sl_headers s' q) =
      (if q = p then slabs_partial (sl_caches s c) else if ws \<noteq> [] \<and> q = last ws then ?nx p else ?nx q)" for q
    by (simp add: s'_def relink_def Let_def)
  have lw: "ws \<noteq> [] \<Longrightarrow> last ws \<in> set ws" by simp
  have par: "linked (\<lambda>q. sh_next (sl_headers s' q)) x PAR = linked ?nx x PAR" for x
  proof (rule linked_cong, rule ballI)
    fix q assume q: "q \<in> set PAR"
    have "set ws \<inter> set PAR = {}" using d by auto
    then have "\<not> (ws \<noteq> [] \<and> q = last ws)" using q lw by blast
    moreover have "q \<noteq> p" using q d by auto
    ultimately show "sh_next (sl_headers s' q) = ?nx q" unfolding nx by auto
  qed
  have sp: "slabs_partial (sl_caches s' c) = Some p" by (simp add: s'_def relink_def Let_def split: option.splits)
  show "linked (\<lambda>q. sh_next (sl_headers s' q)) (slabs_partial (sl_caches s' c)) (p # PAR)"
    using par l(2) nx [of p] sp by simp
  show "linked (\<lambda>q. sh_next (sl_headers s' q)) (slabs_full (sl_caches s' c)) (ws @ vs)"
  proof (cases "ws = []")
    case True
    then have "slabs_full (sl_caches s' c) = ?nx p" by (simp add: s'_def relink_def Let_def)
    moreover have "linked (\<lambda>q. sh_next (sl_headers s' q)) x vs = linked ?nx x vs" for x
      using d nx True by (intro linked_cong) auto
    ultimately show ?thesis using l(1) True by simp
  next
    case False
    then have "slabs_full (sl_caches s' c) = slabs_full (sl_caches s c)" by (simp add: s'_def relink_def Let_def)
    moreover have "linked (\<lambda>q. sh_next (sl_headers s' q)) x (ws @ vs) = linked (?nx(last ws := ?nx p)) x (ws @ vs)" for x
      using d nx False by (intro linked_cong) auto
    ultimately show ?thesis using linked_unlink [OF l(1) _ False] d by (simp add: Int_Un_distrib)
  qed
qed

text \<open>The object goes back to the free list of its slab.\<close>

definition put_object :: "slabs \<Rightarrow> nat \<Rightarrow> nat \<Rightarrow> slabs" where
  "put_object s p i =
     upd_header s p (\<lambda>h. h\<lparr>sh_list := (sh_list h)(i := of_nat (sh_free h)), sh_free := i\<rparr>)"

lemma put_object_ok:
  assumes ok: "slab_ok (sl_headers s p) n F" and i: "i < n" "i \<notin> set F" and n: "n < 2 ^ 32 - 1"
  shows "slab_ok (sl_headers (put_object s p i) p) n (i # F)"
    "sh_list (sl_headers (put_object s p i) p) (sh_free (sl_headers s p)) = SLAB_FREE_END \<longleftrightarrow> F = []"
proof -
  let ?h = "sl_headers s p"
  let ?fl = "(sh_list ?h)(i := of_nat (sh_free ?h))"
  have fc: "fchain ?fl n (sh_free ?h) F" using ok i by (subst fchain_cong) (auto simp: slab_ok_def)
  have fe: "?fl n = SLAB_FREE_END" using ok i by (simp add: slab_ok_def)
  have "unat (of_nat (sh_free ?h) :: u32) = sh_free ?h"
    using fchain_start_le [OF fc] n by (intro unat_of_nat_small) simp
  then show "slab_ok (sl_headers (put_object s p i) p) n (i # F)"
    using ok i fc fe by (simp add: slab_ok_def put_object_def)
  show "sh_list (sl_headers (put_object s p i) p) (sh_free ?h) = SLAB_FREE_END \<longleftrightarrow> F = []"
    using free_list_end [OF fc n fe] by (simp add: put_object_def)
qed

lemma slab_cache_free_parts:
  assumes b: "buddy_inv (sl_pages s)" and ci: "cache_inv s c FUL PAR FS" and x: "(p, i) \<in> live s c"
  shows "slab_cache_free s c (object_address s c (p, i)) =
    (if FS p = [] then unfull_slab (put_object s p i) c p None (slabs_full (sl_caches s c)) else Some (put_object s p i))"
proof -
  let ?C = "sl_caches s c"
  note l = live_page [OF ci x]
  have p: "p \<in> set FUL \<union> set PAR" using l(1) cache_inv_pages [OF ci] by simp
  then have ok: "slab_ok (sl_headers s p) (slab_max_object_num ?C) (FS p)" using ci by (auto simp: cache_inv_def)
  have i: "i \<notin> set (FS p)" using x unfolding cache_inv_live [OF ci] by simp
  have n: "slab_max_object_num ?C < 2 ^ 32 - 1" using ci max_object_num_bound [of ?C] by (simp add: cache_inv_def)
  have off: "object_offset ?C i < 2 ^ fit_order (slab_size ?C) * PAGE_SIZE"
    using object_offset_bound [OF l(3)] fit_order_covers [of "slab_size ?C"] l(4) by linarith
  have "Option.bind (page_find_by_address (object_address s c (p, i))) (page_find_head (sl_pages s)) = Some p"
    using find_block_of_address [OF b l(2) off] by (simp add: object_address_def)
  moreover have "unat (object_address s c (p, i) - (page_address (sl_pages s) p + of_nat (sh_object (sl_headers s p))))
      div object_size ?C = i"
  proof -
    have "object_size ?C * i \<le> object_offset ?C i" by (simp add: object_offset_def)
    then have "object_size ?C * i < 2 ^ 32"
      using object_offset_bound [OF l(3)] ci by (auto simp: cache_inv_def cache_sizes_def PAGE_MAX_ORDER_def PAGE_SIZE_def)
    then have "unat (of_nat (object_size ?C * i) :: u32) = object_size ?C * i" by (intro unat_of_nat_small) simp
    moreover have "object_address s c (p, i) - (page_address (sl_pages s) p + of_nat (sh_object (sl_headers s p))) =
        of_nat (object_size ?C * i)"
      using ok by (simp add: object_address_def object_offset_def slab_ok_def)
    ultimately show ?thesis using l(4) by simp
  qed
  ultimately show ?thesis
    using put_object_ok(2) [OF ok l(3) i n] by (simp add: slab_cache_free_def Let_def put_object_def upd_header_def)
qed

lemma slab_cache_free_lists:
  assumes b: "buddy_inv (sl_pages s)" and ci: "cache_inv s c FUL PAR FS" and x: "(p, i) \<in> live s c"
  obtains s' FUL' PAR' where "slab_cache_free s c (object_address s c (p, i)) = Some s'"
    "linked (\<lambda>q. sh_next (sl_headers s' q)) (slabs_full (sl_caches s' c)) FUL'"
    "linked (\<lambda>q. sh_next (sl_headers s' q)) (slabs_partial (sl_caches s' c)) PAR'"
    "set (FUL' @ PAR') = set (FUL @ PAR)" "distinct (FUL' @ PAR')" "set FUL' = set FUL - {p}"
    "\<forall>q \<in> set (FUL @ PAR). sl_headers s' q = (sl_headers (put_object s p i) q)\<lparr>sh_next := sh_next (sl_headers s' q)\<rparr>"
    "\<forall>q. q \<notin> set (FUL @ PAR) \<longrightarrow> sl_headers s' q = sl_headers s q"
    "\<forall>d. d \<noteq> c \<longrightarrow> sl_caches s' d = sl_caches s d" "sl_pages s' = sl_pages s"
    "object_size (sl_caches s' c) = object_size (sl_caches s c)" "slab_size (sl_caches s' c) = slab_size (sl_caches s c)"
proof -
  let ?s1 = "put_object s p i"
  have nx: "sh_next (sl_headers ?s1 q) = sh_next (sl_headers s q)" for q by (simp add: put_object_def)
  have ca: "sl_caches ?s1 = sl_caches s" "sl_pages ?s1 = sl_pages s" by (simp_all add: put_object_def)
  have p: "p \<in> set FUL \<union> set PAR" using live_page(1) [OF ci x] cache_inv_pages [OF ci] by simp
  have l: "linked (\<lambda>q. sh_next (sl_headers ?s1 q)) (slabs_full (sl_caches ?s1 c)) FUL"
    "linked (\<lambda>q. sh_next (sl_headers ?s1 q)) (slabs_partial (sl_caches ?s1 c)) PAR" and d: "distinct (FUL @ PAR)"
    using ci by (simp_all add: cache_inv_def nx ca)
  have other: "\<forall>q. q \<noteq> p \<longrightarrow> sl_headers ?s1 q = sl_headers s q" by (simp add: put_object_def)
  note parts = slab_cache_free_parts [OF b ci x]
  show thesis
  proof (cases "FS p = []")
    case False
    then have "p \<notin> set FUL" using ci by (auto simp: cache_inv_def)
    moreover from this have "\<forall>q. q \<notin> set (FUL @ PAR) \<longrightarrow> sl_headers ?s1 q = sl_headers s q" using other p by auto
    ultimately show thesis using that [OF _ l] parts False d ca by simp
  next
    case True
    then have "p \<in> set FUL" using ci p by (auto simp: cache_inv_def)
    then obtain ws vs where w: "FUL = ws @ p # vs" by (auto simp: in_set_conv_decomp)
    then have "p \<notin> set ws" using d by auto
    let ?s2 = "relink ?s1 c p (if ws = [] then None else Some (last ws))"
    have r: "slab_cache_free s c (object_address s c (p, i)) = Some ?s2"
      using parts True unfull_slab_finds [OF l(1) [unfolded w] \<open>p \<notin> set ws\<close>] ca by simp
    have lw: "ws \<noteq> [] \<Longrightarrow> last ws \<in> set FUL" using w by simp
    note l2 = relink_lists [OF l(1) [unfolded w] l(2), folded w, OF d]
    have "sl_headers ?s2 q = (sl_headers ?s1 q)\<lparr>sh_next := sh_next (sl_headers ?s2 q)\<rparr>" for q
      by (simp add: relink_def Let_def split: option.splits)
    moreover have "sl_headers ?s2 q = sl_headers s q" if "q \<notin> set (FUL @ PAR)" for q
      using that lw p other by (auto simp: relink_def Let_def)
    moreover have "object_size (sl_caches ?s2 c) = object_size (sl_caches s c)"
      "slab_size (sl_caches ?s2 c) = slab_size (sl_caches s c)"
      by (simp_all add: relink_def Let_def ca)
    moreover have "\<forall>d. d \<noteq> c \<longrightarrow> sl_caches ?s2 d = sl_caches s d" "sl_pages ?s2 = sl_pages s"
      by (simp_all add: relink_def Let_def ca)
    ultimately show thesis
      using that [OF r l2] w d by auto
  qed
qed

lemma slab_cache_free_inv:
  assumes inv: "slabs_inv s D" and c: "c \<in> D" and x: "x \<in> live s c"
  shows "\<exists>s'. slab_cache_free s c (object_address s c x) = Some s' \<and> slabs_inv s' D \<and>
    live s' c = live s c - {x} \<and> (\<forall>d \<in> D. d \<noteq> c \<longrightarrow> live s' d = live s d)"
proof -
  obtain p i where x': "x = (p, i)" by (cases x)
  obtain FUL PAR FS where ci: "cache_inv s c FUL PAR FS" using inv c by (rule slabs_invE)
  have b: "buddy_inv (sl_pages s)" using inv by (simp add: slabs_inv_def)
  have pi: "(p, i) \<in> live s c" using x x' by simp
  obtain s' FUL' PAR' where f: "slab_cache_free s c (object_address s c (p, i)) = Some s'"
    "linked (\<lambda>q. sh_next (sl_headers s' q)) (slabs_full (sl_caches s' c)) FUL'"
    "linked (\<lambda>q. sh_next (sl_headers s' q)) (slabs_partial (sl_caches s' c)) PAR'"
    "set (FUL' @ PAR') = set (FUL @ PAR)" "distinct (FUL' @ PAR')" "set FUL' = set FUL - {p}"
    "\<forall>q \<in> set (FUL @ PAR). sl_headers s' q = (sl_headers (put_object s p i) q)\<lparr>sh_next := sh_next (sl_headers s' q)\<rparr>"
    "\<forall>q. q \<notin> set (FUL @ PAR) \<longrightarrow> sl_headers s' q = sl_headers s q"
    "\<forall>d. d \<noteq> c \<longrightarrow> sl_caches s' d = sl_caches s d" "sl_pages s' = sl_pages s"
    "object_size (sl_caches s' c) = object_size (sl_caches s c)" "slab_size (sl_caches s' c) = slab_size (sl_caches s c)"
    using b ci pi by (rule slab_cache_free_lists)
  let ?n = "slab_max_object_num (sl_caches s c)" and ?FS = "FS(p := i # FS p)"
  note lp = live_page [OF ci pi]
  have p: "p \<in> set (FUL @ PAR)" using lp(1) cache_inv_pages [OF ci] by simp
  have i: "i \<notin> set (FS p)" using pi unfolding cache_inv_live [OF ci] by simp
  have n: "?n < 2 ^ 32 - 1" "slab_max_object_num (sl_caches s' c) = ?n"
    using ci max_object_num_bound [of "sl_caches s c"] f by (auto simp: cache_inv_def slab_max_object_num_def)
  have okF: "\<forall>q \<in> set (FUL @ PAR). slab_ok (sl_headers s q) ?n (FS q)" using ci by (simp add: cache_inv_def)
  have ok: "slab_ok (sl_headers s' q) ?n (?FS q)" if q: "q \<in> set (FUL @ PAR)" for q
  proof -
    have "slab_ok (sl_headers (put_object s p i) q) ?n (?FS q)"
      using okF p q put_object_ok(1) [OF _ lp(3) i n(1)] by (cases "q = p") (auto simp: put_object_def)
    moreover have "slab_ok (h\<lparr>sh_next := y\<rparr>) m F = slab_ok h m F" for h y m F by (simp add: slab_ok_def)
    ultimately show ?thesis using f(7) q by metis
  qed
  have used: "(q, fit_order (slab_size (sl_caches s c))) \<in> used_blocks (sl_pages s)" if "q \<in> set (FUL @ PAR)" for q
    using ci that by (auto simp: cache_inv_def)
  have par: "set PAR' = insert p (set PAR)"
  proof -
    have "set FUL \<inter> set PAR = {}" using ci by (simp add: cache_inv_def)
    moreover have "set FUL' \<inter> set PAR' = {}" "set FUL' \<union> set PAR' = set FUL \<union> set PAR" using f(4,5) by simp_all
    ultimately show ?thesis using f(6) p by auto
  qed
  have kinds: "\<forall>q \<in> set FUL'. ?FS q = []" "\<forall>q \<in> set PAR'. ?FS q \<noteq> []"
    unfolding par f(6) using ci by (auto simp: cache_inv_def)
  have cs: "cache_sizes (sl_caches s' c)" using ci f(11,12) n(2) by (simp add: cache_inv_def cache_sizes_def)
  have i': "cache_inv s' c FUL' PAR' ?FS"
    unfolding cache_inv_def f(4,10,12) n(2) using f(2,3,5) ok used kinds cs by blast
  have pages: "slab_pages s' c = slab_pages s c"
    unfolding cache_inv_pages [OF i'] cache_inv_pages [OF ci] using f(4) by simp
  have lv: "live s' c = live s c - {x}"
    unfolding cache_inv_live [OF i'] cache_inv_live [OF ci] n x' using f(4) by (auto split: if_splits)
  have "slabs_inv s' D" "\<forall>d \<in> D. d \<noteq> c \<longrightarrow> live s' d = live s d"
    by (rule slabs_inv_step [OF inv c _ _ i', where N = "slab_pages s c"];
        use b f(8-10) pages cache_inv_pages [OF ci] in auto)+
  then show ?thesis using f(1) lv x' by blast
qed

subsection \<open>Creation\<close>

declare find_slab_size.simps [simp del]

text \<open>The caches not given out: a list through \<^verbatim>\<open>next\<close> of cleared structures, in pages of their own.\<close>

definition cache_pool :: "slabs \<Rightarrow> cache_ptr set \<Rightarrow> bool" where
  "cache_pool s D \<longleftrightarrow> (\<exists>xs. linked (\<lambda>c. sc_next (sl_caches s c)) (free_cache_head s) xs \<and> distinct xs \<and> set xs \<inter> D = {} \<and>
     (\<forall>c \<in> set xs. sl_caches s c = empty_cache\<lparr>sc_next := sc_next (sl_caches s c)\<rparr>) \<and>
     (\<forall>c \<in> D \<union> set xs. (fst c, 0) \<in> used_blocks (sl_pages s)))"

definition limits_set :: "slabs \<Rightarrow> bool" where
  "limits_set s \<longleftrightarrow> (\<forall>i < PAGE_MAX_DEPTH. slab_size_limits s i = PAGE_SIZE * 2 ^ i div 8 - 7)"

lemma slab_cache_init_limits: "limits_set (slab_cache_init s)"
proof -
  have "fold (\<lambda>i l. let page_size = PAGE_SIZE * 2 ^ i in l(i := page_size div 8 - (SLAB_HEADER_SIZE div 8 + 1) - 4)) [0..<n] l j =
      (if j < n then PAGE_SIZE * 2 ^ j div 8 - 7 else l j)" for n j and l :: "nat \<Rightarrow> nat"
    by (induction n) (auto simp: Let_def SLAB_HEADER_SIZE_def sizeof_slab_header_def)
  then show ?thesis by (simp add: limits_set_def slab_cache_init_def)
qed

lemma find_slab_size_found:
  "i \<le> PAGE_MAX_ORDER \<Longrightarrow> n \<le> l PAGE_MAX_ORDER \<Longrightarrow> \<exists>j \<le> PAGE_MAX_ORDER. find_slab_size l n i = PAGE_SIZE * 2 ^ j \<and> n \<le> l j"
proof (induction "PAGE_MAX_ORDER - i" arbitrary: i)
  case 0
  then show ?case by (subst find_slab_size.simps) (auto simp: PAGE_MAX_DEPTH_def PAGE_MAX_ORDER_def)
next
  case (Suc k)
  then have "\<exists>j \<le> PAGE_MAX_ORDER. find_slab_size l n (i + 1) = PAGE_SIZE * 2 ^ j \<and> n \<le> l j" by simp
  moreover have "i < PAGE_MAX_DEPTH" using Suc by (simp add: PAGE_MAX_DEPTH_def PAGE_MAX_ORDER_def)
  ultimately show ?case using Suc.prems by (subst find_slab_size.simps) auto
qed

text \<open>A slab of the size chosen for an object holds at least eight of them.\<close>

lemma capacity_8:
  assumes "PAGE_SIZE * 2 ^ j = ssz" "osz \<le> ssz div 8 - 7"
  shows "8 \<le> (ssz - SLAB_HEADER_SIZE) div (osz + 4)"
proof -
  define k :: nat where "k = 512 * 2 ^ j"
  have k: "ssz = 8 * k" "512 \<le> k" using assms(1) by (simp_all add: k_def PAGE_SIZE_def)
  then have "osz + 7 \<le> k" using assms(2) by simp
  then have "8 * (osz + 4) + 16 \<le> ssz" unfolding k(1) by simp
  then have "8 * (osz + 4) \<le> ssz - 16" by simp
  moreover have "8 * (osz + 4) div (osz + 4) = 8" by (rule nonzero_mult_div_cancel_right) simp
  ultimately show ?thesis using div_le_mono [of "8 * (osz + 4)" "ssz - 16" "osz + 4"]
    by (simp add: SLAB_HEADER_SIZE_def sizeof_slab_header_def)
qed

text \<open>A page carved into caches: each but the last is linked to the one after it.\<close>

definition carve :: "slabs \<Rightarrow> nat \<Rightarrow> slabs" where
  "carve s p =
     (let n = PAGE_SIZE div sizeof_slab_cache;
          s = fold (\<lambda>i s. upd_cache s (p, i) (\<lambda>_. empty_cache)) [0..<n] s
      in fold (\<lambda>i s. upd_cache s (p, i) (\<lambda>c. c\<lparr>sc_next := Some (p, i + 1)\<rparr>)) [0..<n - 1] s)"

lemma fold_upd_cache:
  "sl_caches (fold (\<lambda>i s. upd_cache s (p, i) (f i)) [0..<n] s) c =
     (if fst c = p \<and> snd c < n then f (snd c) (sl_caches s c) else sl_caches s c)"
  "sl_pages (fold (\<lambda>i s. upd_cache s (p, i) (f i)) [0..<n] s) = sl_pages s"
  "sl_headers (fold (\<lambda>i s. upd_cache s (p, i) (f i)) [0..<n] s) = sl_headers s"
  "slab_size_limits (fold (\<lambda>i s. upd_cache s (p, i) (f i)) [0..<n] s) = slab_size_limits s"
proof -
  show "sl_caches (fold (\<lambda>i s. upd_cache s (p, i) (f i)) [0..<n] s) c =
      (if fst c = p \<and> snd c < n then f (snd c) (sl_caches s c) else sl_caches s c)"
    by (cases c, induction n) (auto simp: less_Suc_eq)
qed (induction n; simp add: upd_cache_def)+

lemma carve_caches:
  "sl_caches (carve s p) c =
     (if fst c = p \<and> snd c < 78 then empty_cache\<lparr>sc_next := if snd c < 77 then Some (p, snd c + 1) else None\<rparr> else sl_caches s c)"
  "sl_pages (carve s p) = sl_pages s" "sl_headers (carve s p) = sl_headers s" "slab_size_limits (carve s p) = slab_size_limits s"
  by (cases c; simp add: carve_def Let_def fold_upd_cache PAGE_SIZE_def sizeof_slab_cache_def empty_cache_def)+

lemma linked_upt:
  "m \<le> n \<Longrightarrow> \<forall>i. m \<le> i \<and> i < n \<longrightarrow> nx (p, i) = Some (p, i + 1) \<Longrightarrow> nx (p, n) = None \<Longrightarrow>
   linked nx (Some (p, m)) (map (Pair p) [m..<n + 1])"
proof (induction "n - m" arbitrary: m)
  case (Suc k)
  then show ?case by (simp add: upt_conv_Cons [of m "Suc n"] del: upt_Suc)
qed simp

lemma carve_linked: "linked (\<lambda>c. sc_next (sl_caches (carve s p) c)) (Some (p, 0)) (map (Pair p) [0..<78])"
  using linked_upt [of 0 77 "\<lambda>c. sc_next (sl_caches (carve s p) c)" p] by (simp add: carve_caches empty_cache_def)

lemma slab_cache_new_carve:
  "slab_cache_new s =
     map_option (\<lambda>(c, s). (c, upd_cache (s\<lparr>free_cache_head := sc_next (sl_caches s c)\<rparr>) c (\<lambda>c. c\<lparr>sc_next := None\<rparr>)))
       (case free_cache_head s of
          Some c \<Rightarrow> Some (c, s)
        | None \<Rightarrow> map_option (\<lambda>(p, b). ((p, 0), carve (s\<lparr>sl_pages := b\<rparr>) p)) (buddy_alloc (sl_pages s) PAGE_SIZE))"
  by (auto simp: slab_cache_new_def carve_def Let_def split: option.splits)

lemma fit_order_page: "fit_order PAGE_SIZE = 0"
  using fits_iff_fit_order_le [of PAGE_SIZE 0] by simp

lemma slab_cache_new_pool:
  assumes inv: "buddy_inv (sl_pages s)" and pool: "cache_pool s D" and n: "slab_cache_new s = Some (c, s')"
  shows "c \<notin> D" "cache_pool s' (insert c D)" "sl_caches s' c = empty_cache" "\<forall>d \<in> D. sl_caches s' d = sl_caches s d"
    "sl_headers s' = sl_headers s" "slab_size_limits s' = slab_size_limits s" "buddy_inv (sl_pages s')"
    "used_blocks (sl_pages s) \<subseteq> used_blocks (sl_pages s')"
proof -
  obtain s1 xs where s1: "linked (\<lambda>c. sc_next (sl_caches s1 c)) (Some c) (c # xs)" "distinct (c # xs)" "set (c # xs) \<inter> D = {}"
      "\<forall>c \<in> set (c # xs). sl_caches s1 c = empty_cache\<lparr>sc_next := sc_next (sl_caches s1 c)\<rparr>"
      "\<forall>c \<in> D \<union> set (c # xs). (fst c, 0) \<in> used_blocks (sl_pages s1)"
      "\<forall>d \<in> D. sl_caches s1 d = sl_caches s d" "sl_headers s1 = sl_headers s" "slab_size_limits s1 = slab_size_limits s"
      "buddy_inv (sl_pages s1)" "used_blocks (sl_pages s) \<subseteq> used_blocks (sl_pages s1)"
    and s': "s' = upd_cache (s1\<lparr>free_cache_head := sc_next (sl_caches s1 c)\<rparr>) c (\<lambda>c. c\<lparr>sc_next := None\<rparr>)"
  proof (cases "free_cache_head s")
    case (Some d)
    then have d: "d = c" "s' = upd_cache (s\<lparr>free_cache_head := sc_next (sl_caches s c)\<rparr>) c (\<lambda>c. c\<lparr>sc_next := None\<rparr>)"
      using n by (auto simp: slab_cache_new_carve)
    obtain ys where ys: "linked (\<lambda>c. sc_next (sl_caches s c)) (free_cache_head s) ys" "distinct ys" "set ys \<inter> D = {}"
      "\<forall>c \<in> set ys. sl_caches s c = empty_cache\<lparr>sc_next := sc_next (sl_caches s c)\<rparr>"
      "\<forall>c \<in> D \<union> set ys. (fst c, 0) \<in> used_blocks (sl_pages s)"
      using pool unfolding cache_pool_def by blast
    then obtain xs where "ys = c # xs" using Some d by (cases ys) auto
    then show thesis using ys Some d inv by (intro that [of s xs]) simp_all
  next
    case None
    then obtain p b where b: "buddy_alloc (sl_pages s) PAGE_SIZE = Some (p, b)" "c = (p, 0)"
      "s' = upd_cache ((carve (s\<lparr>sl_pages := b\<rparr>) p)\<lparr>free_cache_head := sc_next (sl_caches (carve (s\<lparr>sl_pages := b\<rparr>) p) c)\<rparr>) c
              (\<lambda>c. c\<lparr>sc_next := None\<rparr>)"
      using n by (auto simp: slab_cache_new_carve)
    note a = pa.alloc_used [OF inv b(1), unfolded fit_order_page] and fr = pa.alloc_fresh [OF inv b(1), unfolded fit_order_page]
    let ?xs = "map (Pair p) [1..<78]"
    have e: "c # ?xs = map (Pair p) [0..<78]" using b(2) upt_conv_Cons [of 0 78] by simp
    have pD: "\<forall>d \<in> D. fst d \<noteq> p" "\<forall>d \<in> D. (fst d, 0) \<in> used_blocks (sl_pages s)"
      using pool fr unfolding cache_pool_def by blast+
    have l: "linked (\<lambda>c. sc_next (sl_caches (carve (s\<lparr>sl_pages := b\<rparr>) p) c)) (Some c) (c # ?xs)"
      using carve_linked [of "s\<lparr>sl_pages := b\<rparr>" p] unfolding e [symmetric] b(2) [symmetric] .
    show thesis
      by (rule that [OF l _ _ _ _ _ _ _ _ _ b(3)], unfold e)
        (use a pD in \<open>auto simp: distinct_map inj_on_def carve_caches empty_cache_def\<close>)
  qed
  show "c \<notin> D" using s1(3) by simp
  obtain y where "sl_caches s1 c = empty_cache\<lparr>sc_next := y\<rparr>" using s1(4) by auto
  then show "sl_caches s' c = empty_cache" using s' by (simp add: empty_cache_def)
  show "\<forall>d \<in> D. sl_caches s' d = sl_caches s d" using s1(3,6) s' by auto
  show "sl_headers s' = sl_headers s" "slab_size_limits s' = slab_size_limits s" "buddy_inv (sl_pages s')"
    "used_blocks (sl_pages s) \<subseteq> used_blocks (sl_pages s')"
    using s1(7-10) s' by (simp_all add: upd_cache_def)
  have "linked (\<lambda>d. sc_next (sl_caches s' d)) (free_cache_head s') xs"
    using s1(1,2) s' linked_cong [of xs "\<lambda>d. sc_next (sl_caches s' d)" "\<lambda>d. sc_next (sl_caches s1 d)"] by (auto simp: upd_cache_def)
  moreover have "\<forall>d \<in> set xs. sl_caches s' d = empty_cache\<lparr>sc_next := sc_next (sl_caches s' d)\<rparr>"
    using s1(2,4) s' by auto
  moreover have "sl_pages s' = sl_pages s1" using s' by simp
  ultimately show "cache_pool s' (insert c D)" unfolding cache_pool_def
    using s1(2,3,5) by (intro exI [of _ xs]) auto
qed

lemma slab_cache_create_inv:
  assumes inv: "slabs_inv s D" and pool: "cache_pool s D" and lim: "limits_set s"
    and name: "length name < MAX_SLAB_NAME" and sz: "0 < sz" "sz \<le> 524276"
    and r: "slab_cache_create s name sz = Some (r, s')"
  shows "\<exists>c. r = Some c \<and> c \<notin> D \<and> slabs_inv s' (insert c D) \<and> cache_pool s' (insert c D) \<and> limits_set s' \<and>
    live s' c = {} \<and> (\<forall>d \<in> D. live s' d = live s d) \<and>
    sz \<le> object_size (sl_caches s' c) \<and> 4 dvd object_size (sl_caches s' c) \<and> 8 \<le> slab_max_object_num (sl_caches s' c)"
proof -
  have b: "buddy_inv (sl_pages s)" using inv by (simp add: slabs_inv_def)
  obtain c s1 where n: "slab_cache_new s = Some (c, s1)"
    using r name sz(1) by (auto simp: slab_cache_create_def bind_eq_Some_conv)
  note w = slab_cache_new_pool [OF b pool n]
  let ?osz = "(sz + 3) div 4 * 4"
  have "?osz \<le> 524281" using sz(2) by linarith
  moreover have "slab_size_limits s1 PAGE_MAX_ORDER = 524281"
    using lim w(6) by (simp add: limits_set_def PAGE_MAX_DEPTH_def PAGE_MAX_ORDER_def PAGE_SIZE_def)
  ultimately obtain j where j: "j \<le> PAGE_MAX_ORDER" "find_slab_size (slab_size_limits s1) ?osz 0 = PAGE_SIZE * 2 ^ j"
      "?osz \<le> slab_size_limits s1 j"
    using find_slab_size_found [of 0 ?osz "slab_size_limits s1"] by auto
  let ?C = "empty_cache\<lparr>sc_name := name, object_size := ?osz, slab_size := PAGE_SIZE * 2 ^ j\<rparr>"
  have s': "r = Some c" "s' = upd_cache s1 c (\<lambda>_. ?C)"
    using r name sz(1) n j(2) w(3) by (auto simp: slab_cache_create_def Let_def upd_cache_def empty_cache_def PAGE_SIZE_def)
  have "?osz \<le> PAGE_SIZE * 2 ^ j div 8 - 7"
    using j(1,3) lim w(6) by (auto simp: limits_set_def PAGE_MAX_DEPTH_def)
  then have cap: "8 \<le> slab_max_object_num ?C" using capacity_8 [of j] by (simp add: slab_max_object_num_def)
  have "2 ^ j * PAGE_SIZE \<le> 2 ^ PAGE_MAX_ORDER * PAGE_SIZE" using j(1) by simp
  then have "cache_sizes ?C" using cap sz(1) by (simp add: cache_sizes_def mult.commute)
  then have i: "cache_inv s' c [] [] (\<lambda>_. [])" using s' by (simp add: cache_inv_def empty_cache_def)
  have fr: "(\<exists>FUL PAR FS. cache_inv s' d FUL PAR FS) \<and> live s' d = live s d \<and> slab_pages s' d = slab_pages s d" if "d \<in> D" for d
  proof -
    obtain FUL PAR FS where di: "cache_inv s d FUL PAR FS" using inv \<open>d \<in> D\<close> by (rule slabs_invE)
    have c: "sl_caches s' d = sl_caches s d" using that w(1,4) s' by auto
    have h: "\<forall>p \<in> set FUL \<union> set PAR. sl_headers s' p = sl_headers s p" using w(5) s'(2) by simp
    have u: "used_blocks (sl_pages s) \<subseteq> used_blocks (sl_pages s')" using w(8) s'(2) by simp
    note cache_inv_frame [OF di c h u]
    then show ?thesis using cache_inv_pages [OF di] cache_inv_pages [of s' d FUL PAR FS] by auto
  qed
  have "slabs_inv s' (insert c D)"
    using i fr inv w(1,7) s' cache_inv_pages [OF i] unfolding slabs_inv_def by (auto; metis)
  moreover have "cache_pool s' (insert c D)"
  proof -
    obtain xs where xs: "linked (\<lambda>c. sc_next (sl_caches s1 c)) (free_cache_head s1) xs" "distinct xs" "set xs \<inter> insert c D = {}"
      "\<forall>c \<in> set xs. sl_caches s1 c = empty_cache\<lparr>sc_next := sc_next (sl_caches s1 c)\<rparr>"
      "\<forall>d \<in> insert c D \<union> set xs. (fst d, 0) \<in> used_blocks (sl_pages s1)"
      using w(2) unfolding cache_pool_def by blast
    moreover have "linked (\<lambda>c. sc_next (sl_caches s' c)) x xs = linked (\<lambda>c. sc_next (sl_caches s1 c)) x xs" for x
      using s'(2) xs(3) by (intro linked_cong) auto
    moreover have "free_cache_head s' = free_cache_head s1" "sl_pages s' = sl_pages s1" using s'(2) by (simp_all add: upd_cache_def)
    moreover have "\<forall>d \<in> set xs. sl_caches s' d = sl_caches s1 d" using s'(2) xs(3) by auto
    ultimately show ?thesis unfolding cache_pool_def by (intro exI [of _ xs]) auto
  qed
  moreover have "limits_set s'" using lim w(6) s'(2) by (simp add: limits_set_def upd_cache_def)
  moreover have "live s' c = {}" unfolding cache_inv_live [OF i] by simp
  ultimately show ?thesis using s' w(1) fr cap by auto
qed

subsection \<open>Properties\<close>

text \<open>
  C23: The slab allocator never hands out a byte twice.  From a state that satisfies the invariant,
  \<^verbatim>\<open>slab_cache_alloc\<close> returns the address of an object that was not in use, adds exactly that object to
  the objects in use of its cache, and leaves those of all other caches alone; afterwards the bytes of
  the new object are disjoint from those of every other object in use in any cache.
\<close>

theorem slab_cache_alloc_correct:
  assumes "slabs_inv s D" "c \<in> D" "slab_cache_alloc s c = Some (obj, s')"
  shows "slabs_inv s' D \<and> (\<forall>d \<in> D. d \<noteq> c \<longrightarrow> live s' d = live s d) \<and>
    (\<exists>x. obj = object_address s' c x \<and> x \<notin> live s c \<and> live s' c = insert x (live s c) \<and>
      (\<forall>d \<in> D. \<forall>y \<in> live s' d. (d, y) \<noteq> (c, x) \<longrightarrow> object_bytes s' c x \<inter> object_bytes s' d y = {}))"
proof -
  obtain x where x: "obj = object_address s' c x" "x \<notin> live s c" "live s' c = insert x (live s c)"
    and inv: "slabs_inv s' D" "\<forall>d \<in> D. d \<noteq> c \<longrightarrow> live s' d = live s d"
    using slab_cache_alloc_inv [OF assms] by blast
  have "object_bytes s' c x \<inter> object_bytes s' d y = {}" if "d \<in> D" "y \<in> live s' d" "(d, y) \<noteq> (c, x)" for d y
    using live_disjoint [OF inv(1) assms(2), of "fst x" "snd x" d "fst y" "snd y"] x(3) that by (cases x; cases y) auto
  then show ?thesis using x inv by blast
qed

text \<open>A concrete state: one empty cache of 44-byte objects over an allocator that has all its pages.\<close>

definition example_slabs :: slabs where
  "example_slabs =
     \<lparr>sl_pages = buddy_init, sl_headers = (\<lambda>_. \<lparr>sh_next = None, sh_free = 0, sh_list = (\<lambda>_. 0), sh_object = 0\<rparr>),
      sl_caches = (\<lambda>_. empty_cache\<lparr>object_size := 44, slab_size := 4096\<rparr>), slab_size_limits = (\<lambda>_. 0), free_cache_head = None\<rparr>"

lemma example_slabs_inv: "slabs_inv example_slabs {(0, 0)}" "live example_slabs (0, 0) = {}"
proof -
  have i: "cache_inv example_slabs (0, 0) [] [] (\<lambda>_. [])"
    by (simp add: cache_inv_def cache_sizes_def example_slabs_def empty_cache_def slab_max_object_num_def SLAB_HEADER_SIZE_def
        sizeof_slab_header_def PAGE_MAX_ORDER_def PAGE_SIZE_def)
  then show "slabs_inv example_slabs {(0, 0)}" by (auto simp: slabs_inv_def example_slabs_def buddy_init_inv)
  show "live example_slabs (0, 0) = {}" unfolding cache_inv_live [OF i] by simp
qed

lemma example_slabs_alloc: obtains obj s where "slab_cache_alloc example_slabs (0, 0) = Some (obj, s)"
proof -
  have "(0, PAGE_MAX_ORDER) \<in> free_blocks buddy_init" by (simp add: buddy_init_free PAGE_NUM_def)
  moreover have "4096 \<le> 2 ^ PAGE_MAX_ORDER * PAGE_SIZE" by (simp add: PAGE_SIZE_def PAGE_MAX_ORDER_def)
  ultimately obtain p b where "buddy_alloc buddy_init 4096 = Some (p, b)" by (rule buddy_alloc_Some [OF buddy_init_inv])
  then have "\<exists>x. slab_cache_alloc example_slabs (0, 0) = Some x"
    by (simp add: slab_cache_alloc_parts take_slab_def slab_new_def example_slabs_def empty_cache_def Let_def)
  then show thesis using that by (metis surj_pair)
qed

theorem slab_cache_alloc_correct_witness:
  "\<exists>obj s x. slab_cache_alloc example_slabs (0, 0) = Some (obj, s) \<and> obj = object_address s (0, 0) x \<and> live s (0, 0) = {x}"
proof -
  obtain obj s where a: "slab_cache_alloc example_slabs (0, 0) = Some (obj, s)" by (rule example_slabs_alloc)
  then show ?thesis
    using slab_cache_alloc_correct [OF example_slabs_inv(1) _ a] example_slabs_inv(2) by auto
qed

text \<open>
  C24: Releasing an object of a cache by its address, through \<^verbatim>\<open>page_find_by_address\<close>, \<^verbatim>\<open>page_find_head\<close>
  and the search of the full slabs, always returns: the object, and no other, leaves the objects in use.
\<close>

theorem slab_cache_free_correct:
  assumes "slabs_inv s D" "c \<in> D" "x \<in> live s c"
  shows "\<exists>s'. slab_cache_free s c (object_address s c x) = Some s' \<and> slabs_inv s' D \<and>
    live s' c = live s c - {x} \<and> (\<forall>d \<in> D. d \<noteq> c \<longrightarrow> live s' d = live s d)"
  using assms by (rule slab_cache_free_inv)

theorem slab_cache_free_correct_witness:
  "\<exists>obj s s'. slab_cache_alloc example_slabs (0, 0) = Some (obj, s) \<and> slab_cache_free s (0, 0) obj = Some s' \<and> live s' (0, 0) = {}"
proof -
  obtain obj s where a: "slab_cache_alloc example_slabs (0, 0) = Some (obj, s)" by (rule example_slabs_alloc)
  then obtain x where "slabs_inv s {(0, 0)}" "obj = object_address s (0, 0) x" "live s (0, 0) = {x}"
    using slab_cache_alloc_inv [OF example_slabs_inv(1) _ a] example_slabs_inv(2) by auto
  then show ?thesis using a slab_cache_free_correct [of s "{(0, 0)}" "(0, 0)" x] by auto
qed

text \<open>
  A cache created for objects of at most 524276 bytes is a new one, empty, whose slabs hold at
  least eight objects of the size asked for, rounded up to a multiple of four; the caches created
  before keep their objects.
\<close>

theorem slab_cache_create_correct:
  assumes "slabs_inv s D" "cache_pool s D" "limits_set s" "length name < MAX_SLAB_NAME" "0 < sz" "sz \<le> 524276"
    "slab_cache_create s name sz = Some (r, s')"
  shows "\<exists>c. r = Some c \<and> c \<notin> D \<and> slabs_inv s' (insert c D) \<and> cache_pool s' (insert c D) \<and> limits_set s' \<and>
    live s' c = {} \<and> (\<forall>d \<in> D. live s' d = live s d) \<and>
    sz \<le> object_size (sl_caches s' c) \<and> 4 dvd object_size (sl_caches s' c) \<and> 8 \<le> slab_max_object_num (sl_caches s' c)"
  using assms by (rule slab_cache_create_inv)

theorem slab_cache_create_correct_witness:
  "\<exists>c s'. slab_cache_create (page_init example_slabs) [112] 40 = Some (Some c, s') \<and> slabs_inv s' {c} \<and> live s' c = {} \<and>
     40 \<le> object_size (sl_caches s' c)"
proof -
  let ?s = "page_init example_slabs"
  have s: "sl_pages ?s = buddy_init" "free_cache_head ?s = None" by (simp_all add: page_init_def slab_cache_init_def)
  have "slabs_inv ?s {}" "cache_pool ?s {}" "limits_set ?s"
    using slab_cache_init_limits by (simp_all add: slabs_inv_def cache_pool_def s buddy_init_inv page_init_def [symmetric])
      (simp add: page_init_def)
  moreover have "\<exists>r s'. slab_cache_create ?s [112] 40 = Some (r, s')"
  proof -
    have "(0, PAGE_MAX_ORDER) \<in> free_blocks buddy_init" by (simp add: buddy_init_free PAGE_NUM_def)
    moreover have "PAGE_SIZE \<le> 2 ^ PAGE_MAX_ORDER * PAGE_SIZE" by simp
    ultimately obtain p b where "buddy_alloc buddy_init PAGE_SIZE = Some (p, b)" by (rule buddy_alloc_Some [OF buddy_init_inv])
    then have "\<exists>c s1. slab_cache_new ?s = Some (c, s1)" by (simp add: slab_cache_new_carve s)
    then show ?thesis by (auto simp: slab_cache_create_def Let_def MAX_SLAB_NAME_def)
  qed
  ultimately show ?thesis
    using slab_cache_create_correct [of ?s "{}" "[112]" 40] by (fastforce simp: MAX_SLAB_NAME_def)
qed

end
