(* ===== verification/Cy_String.thy ===== *)
theory Cy_String
  imports Cy_Prelude
begin

text \<open>
  \<^verbatim>\<open>lib/string.c\<close>: the string and memory functions on a byte-addressed memory.  A \<^verbatim>\<open>char\<close>
  is an unsigned byte, as on ARM.  The loops that run to a terminating NUL are partial: on memory
  without one they do not come back.
\<close>

type_synonym memory = "nat \<Rightarrow> u8"

subsection \<open>The functions\<close>

text \<open>\<open>while (*s++);\<close> -- the value of \<open>s\<close> after the loop.\<close>

partial_function (option) strlen_loop :: "memory \<Rightarrow> nat \<Rightarrow> nat option" where
  "strlen_loop m s = (if m s \<noteq> 0 then strlen_loop m (s + 1) else Some (s + 1))"

definition strlen :: "memory \<Rightarrow> nat \<Rightarrow> nat option" where
  "strlen m str = map_option (\<lambda>s. s - str - 1) (strlen_loop m str)"

function strnlen_loop :: "memory \<Rightarrow> nat \<Rightarrow> nat \<Rightarrow> nat \<Rightarrow> nat" where
  "strnlen_loop m str maxlen i =
     (if m (str + i) \<noteq> 0 \<and> i < maxlen then strnlen_loop m str maxlen (i + 1) else i)"
  by pat_completeness auto
termination
  by (relation "measure (\<lambda>(m, str, maxlen, i). maxlen - i)") auto

definition strnlen :: "memory \<Rightarrow> nat \<Rightarrow> nat \<Rightarrow> nat" where
  "strnlen m str maxlen = strnlen_loop m str maxlen 0"

partial_function (option) strcpy :: "memory \<Rightarrow> nat \<Rightarrow> nat \<Rightarrow> memory option" where
  "strcpy m dest src =
     (let c = m src; m = m(dest := c)
      in if c \<noteq> 0 then strcpy m (dest + 1) (src + 1) else Some m)"

text \<open>The two loops of \<^verbatim>\<open>strncpy\<close>: copying, then filling up with NUL.\<close>

function strncpy_fill :: "memory \<Rightarrow> nat \<Rightarrow> nat \<Rightarrow> nat \<Rightarrow> memory" where
  "strncpy_fill m dest sz i = (if i < sz then strncpy_fill (m(dest + i := 0)) dest sz (i + 1) else m)"
  by pat_completeness auto
termination
  by (relation "measure (\<lambda>(m, dest, sz, i). sz - i)") auto

function strncpy_copy :: "memory \<Rightarrow> nat \<Rightarrow> nat \<Rightarrow> nat \<Rightarrow> nat \<Rightarrow> memory" where
  "strncpy_copy m dest src sz i =
     (if i < sz \<and> m (src + i) \<noteq> 0
      then strncpy_copy (m(dest + i := m (src + i))) dest src sz (i + 1)
      else strncpy_fill m dest sz i)"
  by pat_completeness auto
termination
  by (relation "measure (\<lambda>(m, dest, src, sz, i). sz - i)") auto

definition strncpy :: "memory \<Rightarrow> nat \<Rightarrow> nat \<Rightarrow> nat \<Rightarrow> memory" where
  "strncpy m dest src sz = strncpy_copy m dest src sz 0"

text \<open>The difference of two bytes, as the \<^verbatim>\<open>int\<close> the comparisons return.\<close>

definition byte_diff :: "u8 \<Rightarrow> u8 \<Rightarrow> int" where
  "byte_diff a b = int (unat a) - int (unat b)"

partial_function (option) strcmp :: "memory \<Rightarrow> nat \<Rightarrow> nat \<Rightarrow> int option" where
  "strcmp m s1 s2 =
     (if m s1 \<noteq> 0 \<or> m s2 \<noteq> 0 then
        if m s1 \<noteq> m s2 then Some (byte_diff (m s1) (m s2)) else strcmp m (s1 + 1) (s2 + 1)
      else Some 0)"

fun strncmp :: "memory \<Rightarrow> nat \<Rightarrow> nat \<Rightarrow> nat \<Rightarrow> int" where
  "strncmp m s1 s2 0 = 0"
| "strncmp m s1 s2 (Suc sz) =
     (if m s1 \<noteq> 0 \<or> m s2 \<noteq> 0 then
        if m s1 \<noteq> m s2 then byte_diff (m s1) (m s2) else strncmp m (s1 + 1) (s2 + 1) sz
      else 0)"

fun memcpy :: "memory \<Rightarrow> nat \<Rightarrow> nat \<Rightarrow> nat \<Rightarrow> memory" where
  "memcpy m d s 0 = m"
| "memcpy m d s (Suc sz) = memcpy (m(d := m s)) (d + 1) (s + 1) sz"

fun memset :: "memory \<Rightarrow> nat \<Rightarrow> u8 \<Rightarrow> nat \<Rightarrow> memory" where
  "memset m b c 0 = m"
| "memset m b c (Suc sz) = memset (m(b := c)) (b + 1) c sz"

fun memcmp :: "memory \<Rightarrow> nat \<Rightarrow> nat \<Rightarrow> nat \<Rightarrow> int" where
  "memcmp m s1 s2 0 = 0"
| "memcmp m s1 s2 (Suc n) =
     (if m s1 \<noteq> m s2 then byte_diff (m s1) (m s2) else memcmp m (s1 + 1) (s2 + 1) n)"

text \<open>\<open>while (*dest) dest++;\<close> of \<^verbatim>\<open>strcat\<close> and \<^verbatim>\<open>strncat\<close>.\<close>

partial_function (option) find_end :: "memory \<Rightarrow> nat \<Rightarrow> nat option" where
  "find_end m dest = (if m dest \<noteq> 0 then find_end m (dest + 1) else Some dest)"

definition strcat :: "memory \<Rightarrow> nat \<Rightarrow> nat \<Rightarrow> memory option" where
  "strcat m dest src = Option.bind (find_end m dest) (\<lambda>dest. strcpy m dest src)"

fun strncat_copy :: "memory \<Rightarrow> nat \<Rightarrow> nat \<Rightarrow> nat \<Rightarrow> memory" where
  "strncat_copy m dest src 0 = m(dest := 0)"
| "strncat_copy m dest src (Suc sz) =
     (if m src \<noteq> 0 then strncat_copy (m(dest := m src)) (dest + 1) (src + 1) sz else m(dest := 0))"

definition strncat :: "memory \<Rightarrow> nat \<Rightarrow> nat \<Rightarrow> nat \<Rightarrow> memory option" where
  "strncat m dest src sz = map_option (\<lambda>dest. strncat_copy m dest src sz) (find_end m dest)"

partial_function (option) strchrnul :: "memory \<Rightarrow> nat \<Rightarrow> u8 \<Rightarrow> nat option" where
  "strchrnul m r a = (if m r \<noteq> 0 then if m r = a then Some r else strchrnul m (r + 1) a else Some r)"

definition strchr :: "memory \<Rightarrow> nat \<Rightarrow> u8 \<Rightarrow> nat option option" where
  "strchr m s c = map_option (\<lambda>r. if m r = c then Some r else None) (strchrnul m s c)"

fun strrchr_loop :: "memory \<Rightarrow> nat \<Rightarrow> u8 \<Rightarrow> nat \<Rightarrow> nat option" where
  "strrchr_loop m r a 0 = (if m r = a then Some r else None)"
| "strrchr_loop m r a (Suc i) = (if m (r + Suc i) = a then Some (r + Suc i) else strrchr_loop m r a i)"

definition strrchr :: "memory \<Rightarrow> nat \<Rightarrow> u8 \<Rightarrow> nat option option" where
  "strrchr m s c = map_option (strrchr_loop m s c) (strlen m s)"

declare strnlen_loop.simps [simp del] strncpy_fill.simps [simp del] strncpy_copy.simps [simp del]

subsection \<open>Strings in memory\<close>

text \<open>\<open>cstr m p s\<close>: the bytes of \<open>s\<close>, none of them NUL, and then a NUL stand at \<open>p\<close>.\<close>

fun cstr :: "memory \<Rightarrow> nat \<Rightarrow> u8 list \<Rightarrow> bool" where
  "cstr m p [] \<longleftrightarrow> m p = 0"
| "cstr m p (c # s) \<longleftrightarrow> m p = c \<and> c \<noteq> 0 \<and> cstr m (p + 1) s"

text \<open>The memory with a list of bytes stored at an address: what the copying functions produce.\<close>

definition put :: "memory \<Rightarrow> nat \<Rightarrow> u8 list \<Rightarrow> memory" where
  "put m d bs = (\<lambda>a. if d \<le> a \<and> a < d + length bs then bs ! (a - d) else m a)"

lemma put_Nil [simp]: "put m d [] = m"
  by (auto simp: put_def fun_eq_iff)

lemma put_Cons: "put m d (b # bs) = put (m(d := b)) (d + 1) bs"
  by (auto simp: put_def fun_eq_iff nth_Cons' Suc_diff_Suc less_Suc_eq_le)

lemma put_outside: "a < d \<or> d + length bs \<le> a \<Longrightarrow> put m d bs a = m a"
  by (auto simp: put_def)

lemma put_append: "put m d (bs @ cs) = put (put m d bs) (d + length bs) cs"
  by (induction bs arbitrary: m d) (simp_all add: put_Cons)

lemma cstr_put: "0 \<notin> set s \<Longrightarrow> cstr (put m d (s @ [0])) d s"
proof (induction s arbitrary: m d)
  case (Cons c s)
  then show ?case using put_outside [of d "d + 1" "s @ [0]" "m(d := c)"] by (simp add: put_Cons)
qed (simp add: put_def)

lemma cstr_nonzero: "cstr m p s \<Longrightarrow> 0 \<notin> set s"
  by (induction s arbitrary: p) auto

lemma cstr_cong: "\<forall>a. p \<le> a \<and> a \<le> p + length s \<longrightarrow> m' a = m a \<Longrightarrow> cstr m' p s = cstr m p s"
  by (induction s arbitrary: p) auto

lemma cstr_unique: "cstr m p s \<Longrightarrow> cstr m p t \<Longrightarrow> s = t"
proof (induction s arbitrary: p t)
  case Nil
  then show ?case by (cases t) auto
next
  case (Cons c s)
  then show ?case by (cases t) auto
qed

lemma cstr_nth: "cstr m p s \<Longrightarrow> i < length s \<Longrightarrow> m (p + i) = s ! i"
proof (induction s arbitrary: p i)
  case (Cons c s)
  then show ?case using Cons.IH [of "p + 1" "i - 1"] by (cases i) auto
qed simp

lemma cstr_end: "cstr m p s \<Longrightarrow> m (p + length s) = 0"
proof (induction s arbitrary: p)
  case (Cons c s)
  then show ?case using Cons.IH [of "p + 1"] by simp
qed simp

subsection \<open>Lengths\<close>

lemma strlen_loop_cstr: "cstr m p s \<Longrightarrow> strlen_loop m p = Some (p + length s + 1)"
proof (induction s arbitrary: p)
  case Nil
  then show ?case by (subst strlen_loop.simps) simp
next
  case (Cons c s)
  then show ?case by (subst strlen_loop.simps) simp
qed

lemma strlen_cstr: "cstr m p s \<Longrightarrow> strlen m p = Some (length s)"
  by (simp add: strlen_def strlen_loop_cstr)

lemma strnlen_loop_cstr:
  "cstr m p s \<Longrightarrow> i \<le> length s \<Longrightarrow> i \<le> n \<Longrightarrow> strnlen_loop m p n i = min n (length s)"
proof (induction m p n i rule: strnlen_loop.induct)
  case (1 m p n i)
  show ?case
  proof (cases "i < length s \<and> i < n")
    case True
    then have "m (p + i) \<noteq> 0" using 1(2) cstr_nth cstr_nonzero by (metis nth_mem)
    then show ?thesis using 1 True by (subst strnlen_loop.simps) simp
  next
    case False
    then have "m (p + i) = 0 \<or> i = n" "i = min n (length s)" using 1(2-4) cstr_end [OF 1(2)] by auto
    then show ?thesis by (subst strnlen_loop.simps) auto
  qed
qed

lemma strnlen_cstr: "cstr m p s \<Longrightarrow> strnlen m p n = min n (length s)"
  by (simp add: strnlen_def strnlen_loop_cstr)

subsection \<open>Copies\<close>

lemma strcpy_cstr:
  "cstr m src s \<Longrightarrow> dest + length s < src \<or> src + length s < dest \<Longrightarrow>
   strcpy m dest src = Some (put m dest (s @ [0]))"
proof (induction s arbitrary: m dest src)
  case Nil
  then show ?case by (subst strcpy.simps) (simp add: Let_def put_Cons)
next
  case (Cons c s)
  have "cstr (m(dest := c)) (src + 1) s" using Cons.prems by (subst cstr_cong [where m = m]) auto
  then have "strcpy (m(dest := c)) (dest + 1) (src + 1) = Some (put (m(dest := c)) (dest + 1) (s @ [0]))"
    by (rule Cons.IH) (use Cons.prems(2) in auto)
  then show ?case using Cons.prems(1) by (subst strcpy.simps) (simp add: Let_def put_Cons)
qed

lemma strncpy_fill_put: "strncpy_fill m dest sz i = put m (dest + i) (replicate (sz - i) 0)"
proof (induction "sz - i" arbitrary: m i)
  case 0
  then show ?case by (subst strncpy_fill.simps) simp
next
  case (Suc k)
  then have "i < sz" "k = sz - (i + 1)" "sz - i = Suc k" by simp_all
  then show ?case using Suc.hyps(1) [of "i + 1" "m(dest + i := 0)"]
    by (subst strncpy_fill.simps) (simp add: put_Cons)
qed

lemma strncpy_copy_cstr:
  "cstr m (src + i) s \<Longrightarrow> i \<le> sz \<Longrightarrow> dest + sz \<le> src + i \<or> src + i + length s < dest + i \<Longrightarrow>
   strncpy_copy m dest src sz i = put m (dest + i) (take (sz - i) s @ replicate (sz - i - length s) 0)"
proof (induction s arbitrary: m i)
  case Nil
  then show ?case by (subst strncpy_copy.simps) (simp add: strncpy_fill_put)
next
  case (Cons c s)
  show ?case
  proof (cases "i < sz")
    case True
    then obtain k where k: "sz - i = Suc k" "sz - Suc i = k" by (metis Suc_diff_Suc)
    have "cstr (m(dest + i := c)) (src + (i + 1)) s" using Cons.prems True by (subst cstr_cong [where m = m]) auto
    then have "strncpy_copy (m(dest + i := c)) dest src sz (i + 1) =
        put (m(dest + i := c)) (dest + (i + 1)) (take (sz - (i + 1)) s @ replicate (sz - (i + 1) - length s) 0)"
      by (rule Cons.IH) (use Cons.prems(3) True in auto)
    then show ?thesis using Cons.prems(1) True k by (subst strncpy_copy.simps) (simp add: put_Cons)
  next
    case False
    then show ?thesis by (subst strncpy_copy.simps) (simp add: strncpy_fill_put)
  qed
qed

lemma strncpy_cstr:
  "cstr m src s \<Longrightarrow> dest + sz \<le> src \<or> src + length s < dest \<Longrightarrow>
   strncpy m dest src sz = put m dest (take sz s @ replicate (sz - length s) 0)"
  using strncpy_copy_cstr [of m src 0 s sz dest] by (simp add: strncpy_def)

lemma find_end_cstr: "cstr m p s \<Longrightarrow> find_end m p = Some (p + length s)"
proof (induction s arbitrary: p)
  case Nil
  then show ?case by (subst find_end.simps) simp
next
  case (Cons c s)
  then show ?case by (subst find_end.simps) simp
qed

lemma put_cstr_append:
  assumes "cstr m p s"
  shows "put m (p + length s) bs = put m p (s @ bs)"
proof -
  have "put m p s = m"
    using cstr_nth [OF assms] by (auto simp: put_def fun_eq_iff) (metis le_add_diff_inverse less_diff_conv2 add.commute)
  then show ?thesis by (simp add: put_append)
qed

lemma strncat_copy_cstr:
  "cstr m src s \<Longrightarrow> dest + length s < src \<or> src + length s < dest \<Longrightarrow>
   strncat_copy m dest src sz = put m dest (take sz s @ [0])"
proof (induction sz arbitrary: m dest src s)
  case (Suc sz)
  show ?case
  proof (cases s)
    case Nil
    then show ?thesis using Suc.prems by (simp add: put_Cons)
  next
    case (Cons c t)
    have "cstr (m(dest := c)) (src + 1) t" using Suc.prems Cons by (subst cstr_cong [where m = m]) auto
    then have "strncat_copy (m(dest := c)) (dest + 1) (src + 1) sz = put (m(dest := c)) (dest + 1) (take sz t @ [0])"
      by (rule Suc.IH) (use Suc.prems Cons in auto)
    then show ?thesis using Suc.prems Cons by (simp add: put_Cons)
  qed
qed (simp add: put_Cons)

lemma memcpy_put:
  "d + n \<le> src \<or> src + n \<le> d \<Longrightarrow> memcpy m d src n = put m d (map m [src..<src + n])"
proof (induction n arbitrary: m d src)
  case (Suc n)
  have "map (m(d := m src)) [src + 1..<src + 1 + n] = map m [src + 1..<src + 1 + n]" using Suc.prems by auto
  moreover have "memcpy (m(d := m src)) (d + 1) (src + 1) n =
      put (m(d := m src)) (d + 1) (map (m(d := m src)) [src + 1..<src + 1 + n])"
    by (rule Suc.IH) (use Suc.prems in auto)
  ultimately have "memcpy (m(d := m src)) (d + 1) (src + 1) n =
      put (m(d := m src)) (d + 1) (map m [src + 1..<src + 1 + n])" by (simp only:)
  then show ?case by (simp add: put_Cons upt_conv_Cons del: upt_Suc)
qed simp

lemma memset_put: "memset m b c n = put m b (replicate n c)"
  by (induction n arbitrary: m b) (simp_all add: put_Cons)

subsection \<open>Comparisons\<close>

text \<open>The result of a comparison on the strings themselves: the first difference, NUL at the end.\<close>

fun str_diff :: "u8 list \<Rightarrow> u8 list \<Rightarrow> int" where
  "str_diff [] [] = 0"
| "str_diff [] (d # t) = byte_diff 0 d"
| "str_diff (c # s) [] = byte_diff c 0"
| "str_diff (c # s) (d # t) = (if c = d then str_diff s t else byte_diff c d)"

lemma byte_diff_0 [simp]: "byte_diff a b = 0 \<longleftrightarrow> a = b"
  by (auto simp: byte_diff_def intro: unsigned_word_eqI)

lemma str_diff_0: "0 \<notin> set s \<Longrightarrow> 0 \<notin> set t \<Longrightarrow> str_diff s t = 0 \<longleftrightarrow> s = t"
  by (induction s t rule: str_diff.induct) auto

lemma str_diff_swap: "str_diff s t = - str_diff t s"
  by (induction s t rule: str_diff.induct) (auto simp: byte_diff_def)

lemma strcmp_cstr: "cstr m p s \<Longrightarrow> cstr m q t \<Longrightarrow> strcmp m p q = Some (str_diff s t)"
proof (induction s t arbitrary: p q rule: str_diff.induct)
  case (4 c s d t)
  then show ?case using "4.IH" [of "p + 1" "q + 1"] by (subst strcmp.simps) auto
qed (subst strcmp.simps, auto)+

lemma strncmp_cstr: "cstr m p s \<Longrightarrow> cstr m q t \<Longrightarrow> strncmp m p q n = str_diff (take n s) (take n t)"
proof (induction n arbitrary: p q s t)
  case (Suc n)
  show ?case
  proof (cases s; cases t)
    fix c s' d t' assume s: "s = c # s'" "t = d # t'"
    then have "strncmp m (p + 1) (q + 1) n = str_diff (take n s') (take n t')" using Suc.prems by (intro Suc.IH) auto
    then show ?thesis using s Suc.prems by auto
  qed (use Suc.prems in auto)
qed simp

lemma memcmp_0: "memcmp m p q n = 0 \<longleftrightarrow> map m [p..<p + n] = map m [q..<q + n]"
proof (induction n arbitrary: p q)
  case (Suc n)
  then show ?case using Suc.IH [of "p + 1" "q + 1"] by (simp add: upt_conv_Cons del: upt_Suc)
qed simp

subsection \<open>Searches\<close>

lemma strchrnul_cstr: "cstr m p s \<Longrightarrow> strchrnul m p a = Some (p + length (takeWhile (\<lambda>c. c \<noteq> a) s))"
proof (induction s arbitrary: p)
  case Nil
  then show ?case by (subst strchrnul.simps) simp
next
  case (Cons c s)
  then show ?case using Cons.IH [of "p + 1"] by (subst strchrnul.simps) auto
qed

lemma cstr_at_take: "cstr m p s \<Longrightarrow> a \<noteq> 0 \<Longrightarrow> m (p + length (takeWhile (\<lambda>c. c \<noteq> a) s)) = a \<longleftrightarrow> a \<in> set s"
proof (induction s arbitrary: p)
  case (Cons c s)
  then show ?case using Cons.IH [of "p + 1"] by auto
qed simp

lemma strrchr_loop_None: "strrchr_loop m p a n = None \<longleftrightarrow> (\<forall>i \<le> n. m (p + i) \<noteq> a)"
  by (induction n) (auto simp: le_Suc_eq)

lemma strrchr_loop_Some:
  "strrchr_loop m p a n = Some q \<Longrightarrow> \<exists>i \<le> n. q = p + i \<and> m q = a \<and> (\<forall>j. i < j \<and> j \<le> n \<longrightarrow> m (p + j) \<noteq> a)"
proof (induction n)
  case (Suc n)
  show ?case
  proof (cases "m (p + Suc n) = a")
    case False
    then obtain i where "i \<le> n" "q = p + i" "m q = a" "\<forall>j. i < j \<and> j \<le> n \<longrightarrow> m (p + j) \<noteq> a" using Suc by auto
    then show ?thesis using False by (intro exI [of _ i]) (auto simp: le_Suc_eq)
  qed (use Suc.prems in auto)
qed (auto split: if_splits)

subsection \<open>Properties\<close>

text \<open>
  On a source string and a destination that do not overlap, the copying functions return and
  leave exactly the expected bytes at the destination (and, by the definition of \<^const>\<open>put\<close>, every
  other byte as it was): the string with its NUL for \<^verbatim>\<open>strcpy\<close>, the field padded with NUL for
  \<^verbatim>\<open>strncpy\<close>, and the string appended to the one already there for \<^verbatim>\<open>strcat\<close> and
  \<^verbatim>\<open>strncat\<close>.
\<close>

theorem string_copies_correct:
  assumes "cstr m src s" "cstr m dest t"
    "dest + length t + length s + n < src \<or> src + length s < dest"
  shows "strcpy m dest src = Some (put m dest (s @ [0])) \<and>
    strncpy m dest src n = put m dest (take n s @ replicate (n - length s) 0) \<and>
    strcat m dest src = Some (put m dest (t @ s @ [0])) \<and>
    strncat m dest src n = Some (put m dest (t @ take n s @ [0]))"
proof (intro conjI)
  show "strcpy m dest src = Some (put m dest (s @ [0]))" using assms by (intro strcpy_cstr) auto
  show "strncpy m dest src n = put m dest (take n s @ replicate (n - length s) 0)"
    using assms by (intro strncpy_cstr) auto
  have "strcpy m (dest + length t) src = Some (put m (dest + length t) (s @ [0]))"
    using assms by (intro strcpy_cstr) auto
  then show "strcat m dest src = Some (put m dest (t @ s @ [0]))"
    using put_cstr_append [OF assms(2)] find_end_cstr [OF assms(2)] by (simp add: strcat_def)
  have "strncat_copy m (dest + length t) src n = put m (dest + length t) (take n s @ [0])"
    using assms by (intro strncat_copy_cstr) auto
  then show "strncat m dest src n = Some (put m dest (t @ take n s @ [0]))"
    using put_cstr_append [OF assms(2)] find_end_cstr [OF assms(2)] by (simp add: strncat_def)
qed

theorem string_copies_correct_witness:
  "strcat (put (\<lambda>_. 0) 0 [0x61, 0x62, 0, 0x63, 0]) 3 0 =
     Some (put (put (\<lambda>_. 0) 0 [0x61, 0x62, 0, 0x63, 0]) 3 [0x63, 0x61, 0x62, 0])"
  using string_copies_correct [of "put (\<lambda>_. 0) 0 [0x61, 0x62, 0, 0x63, 0]" 0 "[0x61, 0x62]" 3 "[0x63]" 0]
  by (simp add: put_def)

lemma byte_diff_less: "byte_diff a b < 0 \<longleftrightarrow> unat a < unat b"
  unfolding byte_diff_def by linarith

lemma str_diff_less:
  "0 \<notin> set s \<Longrightarrow> 0 \<notin> set t \<Longrightarrow> str_diff s t < 0 \<longleftrightarrow> (s, t) \<in> lexord {(a, b). unat a < unat b}"
proof (induction s t rule: str_diff.induct)
  case (2 d t)
  then have "0 < unat d" by (simp add: unat_gt_0)
  then show ?case by (simp add: byte_diff_less)
qed (auto simp: byte_diff_less)

text \<open>
  \<^verbatim>\<open>strcmp\<close> returns on any two strings; its result is zero exactly for equal strings and
  negative exactly when the first precedes the second in the lexicographic order of the bytes.
  \<^verbatim>\<open>strncmp\<close> gives the comparison of the first \<open>n\<close> bytes.
\<close>

theorem string_comparisons_correct:
  assumes "cstr m p s" "cstr m q t"
  shows "(\<exists>r. strcmp m p q = Some r \<and> (r = 0 \<longleftrightarrow> s = t) \<and> (r < 0 \<longleftrightarrow> (s, t) \<in> lexord {(a, b). unat a < unat b})) \<and>
    (strncmp m p q n = 0 \<longleftrightarrow> take n s = take n t) \<and>
    (strncmp m p q n < 0 \<longleftrightarrow> (take n s, take n t) \<in> lexord {(a, b). unat a < unat b})"
proof -
  have nz: "0 \<notin> set s" "0 \<notin> set t" using assms cstr_nonzero by auto
  then have "0 \<notin> set (take n s)" "0 \<notin> set (take n t)" by (auto dest: in_set_takeD)
  then show ?thesis using strcmp_cstr [OF assms] strncmp_cstr [OF assms] nz by (simp add: str_diff_0 str_diff_less)
qed

theorem string_comparisons_correct_witness:
  "strncmp (put (\<lambda>_. 0) 0 [0x61, 0x62, 0, 0x61, 0x63, 0]) 0 3 2 < 0"
  using string_comparisons_correct [of "put (\<lambda>_. 0) 0 [0x61, 0x62, 0, 0x61, 0x63, 0]" 0 "[0x61, 0x62]" 3 "[0x61, 0x63]" 2]
  by (simp add: put_def)

end
