(* ===== verification/Cy_Libgen.thy ===== *)
theory Cy_Libgen
  imports Cy_String
begin

text \<open>
  \<^verbatim>\<open>lib/libgen.c\<close>: \<^verbatim>\<open>dirname\<close> and \<^verbatim>\<open>basename\<close>.  Both write into the path they are given
  and return a pointer into it, or a string literal.  They are shown equal to functions on strings,
  which the file-system layers use.
\<close>

subsection \<open>The functions\<close>

definition slash :: u8 where "slash = 0x2f"
definition dot :: u8 where "dot = 0x2e"

text \<open>The pointer a function returns: a literal of the source, or an address.\<close>

datatype str_ptr = Literal "u8 list" | Address nat

text \<open>
  \<open>while (path[i] == '/') if (!i--) return ...\<close>: the value of \<open>i\<close> after the loop, or \<^const>\<open>None\<close> for
  the \<open>return\<close>.
\<close>

fun skip_slashes :: "memory \<Rightarrow> nat \<Rightarrow> nat \<Rightarrow> nat option" where
  "skip_slashes m path 0 = (if m path = slash then None else Some 0)"
| "skip_slashes m path (Suc i) = (if m (path + Suc i) = slash then skip_slashes m path i else Some (Suc i))"

fun skip_name :: "memory \<Rightarrow> nat \<Rightarrow> nat \<Rightarrow> nat option" where
  "skip_name m path 0 = (if m path \<noteq> slash then None else Some 0)"
| "skip_name m path (Suc i) = (if m (path + Suc i) \<noteq> slash then skip_name m path i else Some (Suc i))"

definition dirname :: "memory \<Rightarrow> nat \<Rightarrow> (memory \<times> str_ptr) option" where
  "dirname m path =
     (if path = 0 \<or> m path = 0 then Some (m, Literal [dot])
      else Option.bind (strlen m path) (\<lambda>len.
        case skip_slashes m path (len - 1) of
          None \<Rightarrow> Some (m, Literal [slash])
        | Some i \<Rightarrow>
            (case skip_name m path i of
               None \<Rightarrow> Some (m, Literal [dot])
             | Some i \<Rightarrow>
                 (case skip_slashes m path i of
                    None \<Rightarrow> Some (m, Literal [slash])
                  | Some i \<Rightarrow> Some (m(path + (i + 1) := 0), Address path)))))"

text \<open>The two loops of \<^verbatim>\<open>basename\<close>: clearing the trailing slashes, finding the last component.\<close>

fun clear_slashes :: "memory \<Rightarrow> nat \<Rightarrow> nat \<Rightarrow> memory \<times> nat" where
  "clear_slashes m path 0 = (m, 0)"
| "clear_slashes m path (Suc i) =
     (if m (path + Suc i) = slash then clear_slashes (m(path + Suc i := 0)) path i else (m, Suc i))"

fun find_component :: "memory \<Rightarrow> nat \<Rightarrow> nat \<Rightarrow> nat" where
  "find_component m path 0 = 0"
| "find_component m path (Suc i) = (if m (path + i) \<noteq> slash then find_component m path i else Suc i)"

definition basename :: "memory \<Rightarrow> nat \<Rightarrow> (memory \<times> str_ptr) option" where
  "basename m path =
     (if path = 0 \<or> m path = 0 then Some (m, Literal [dot])
      else Option.bind (strlen m path) (\<lambda>len.
        let (m, i) = clear_slashes m path (len - 1)
        in Some (m, Address (path + find_component m path i))))"

subsection \<open>On strings\<close>

definition strip_slashes :: "u8 list \<Rightarrow> u8 list" where
  "strip_slashes s = rev (dropWhile (\<lambda>c. c = slash) (rev s))"

definition strip_name :: "u8 list \<Rightarrow> u8 list" where
  "strip_name s = rev (dropWhile (\<lambda>c. c \<noteq> slash) (rev s))"

definition last_component :: "u8 list \<Rightarrow> u8 list" where
  "last_component s = rev (takeWhile (\<lambda>c. c \<noteq> slash) (rev s))"

definition dirname_str :: "u8 list \<Rightarrow> u8 list" where
  "dirname_str s =
     (if s = [] then [dot]
      else if strip_slashes s = [] then [slash]
      else if strip_name (strip_slashes s) = [] then [dot]
      else if strip_slashes (strip_name (strip_slashes s)) = [] then [slash]
      else strip_slashes (strip_name (strip_slashes s)))"

definition basename_str :: "u8 list \<Rightarrow> u8 list" where
  "basename_str s =
     (if s = [] then [dot]
      else if strip_slashes s = [] then [slash]
      else last_component (strip_slashes s))"

lemma strip_snoc [simp]:
  "strip_slashes (s @ [c]) = (if c = slash then strip_slashes s else s @ [c])"
  "strip_name (s @ [c]) = (if c \<noteq> slash then strip_name s else s @ [c])"
  "last_component (s @ [c]) = (if c \<noteq> slash then last_component s @ [c] else [])"
  by (simp_all add: strip_slashes_def strip_name_def last_component_def)

lemma strip_Nil [simp]: "strip_slashes [] = []" "strip_name [] = []" "last_component [] = []"
  by (simp_all add: strip_slashes_def strip_name_def last_component_def)

lemma strip_slashes_take: "strip_slashes s = take (length (strip_slashes s)) s \<and> length (strip_slashes s) \<le> length s"
  by (induction s rule: rev_induct) auto

lemma strip_name_take: "strip_name s = take (length (strip_name s)) s \<and> length (strip_name s) \<le> length s"
  by (induction s rule: rev_induct) auto

subsection \<open>The loops on a string in memory\<close>

lemma skip_slashes_prefix:
  "i < length s \<Longrightarrow> \<forall>j \<le> i. m (p + j) = s ! j \<Longrightarrow>
   skip_slashes m p i =
     (if strip_slashes (take (Suc i) s) = [] then None else Some (length (strip_slashes (take (Suc i) s)) - 1))"
proof (induction i)
  case 0
  then show ?case by (cases s) (auto simp: strip_slashes_def)
next
  case (Suc i)
  then show ?case by (auto simp: take_Suc_conv_app_nth [of "Suc i"])
qed

lemma skip_name_prefix:
  "i < length s \<Longrightarrow> \<forall>j \<le> i. m (p + j) = s ! j \<Longrightarrow>
   skip_name m p i =
     (if strip_name (take (Suc i) s) = [] then None else Some (length (strip_name (take (Suc i) s)) - 1))"
proof (induction i)
  case 0
  then show ?case by (cases s) (auto simp: strip_name_def)
next
  case (Suc i)
  then show ?case by (auto simp: take_Suc_conv_app_nth [of "Suc i"])
qed

lemma clear_slashes_prefix:
  assumes "strip_slashes (take (Suc i) s) \<noteq> []"
  shows "i < length s \<Longrightarrow> \<forall>j \<le> i. m (p + j) = s ! j \<Longrightarrow>
   clear_slashes m p i =
     (put m (p + length (strip_slashes (take (Suc i) s))) (replicate (Suc i - length (strip_slashes (take (Suc i) s))) 0),
      length (strip_slashes (take (Suc i) s)) - 1)"
  using assms
proof (induction i arbitrary: m)
  case 0
  then show ?case by (cases s) (auto simp: strip_slashes_def split: if_splits)
next
  case (Suc i)
  have at: "m (p + Suc i) = s ! Suc i" using Suc.prems(2) by blast
  show ?case
  proof (cases "s ! Suc i = slash")
    case True
    then have t: "strip_slashes (take (Suc (Suc i)) s) = strip_slashes (take (Suc i) s)" (is "_ = ?t")
      using Suc.prems(1) by (simp add: take_Suc_conv_app_nth [of "Suc i"])
    let ?n = "length ?t"
    have n: "?n \<le> Suc i" using strip_slashes_take [of "take (Suc i) s"] Suc.prems(1) by auto
    have "clear_slashes (m(p + Suc i := 0)) p i =
        (put (m(p + Suc i := 0)) (p + ?n) (replicate (Suc i - ?n) 0), ?n - 1)"
      using Suc.prems t by (intro Suc.IH) auto
    moreover have "put (m(p + Suc i := 0)) (p + ?n) (replicate (Suc i - ?n) 0) =
        put m (p + ?n) (replicate (Suc (Suc i) - ?n) 0)"
      using n by (auto simp: put_def fun_eq_iff)
    ultimately show ?thesis using True at t by simp
  next
    case False
    then have "strip_slashes (take (Suc (Suc i)) s) = take (Suc (Suc i)) s"
      using Suc.prems(1) by (simp add: take_Suc_conv_app_nth [of "Suc i"])
    then show ?thesis using False at Suc.prems(1) by simp
  qed
qed

lemma find_component_prefix:
  "i < length s \<Longrightarrow> \<forall>j < i. m (p + j) = s ! j \<Longrightarrow>
   find_component m p i = i - length (last_component (take i s))"
proof (induction i)
  case (Suc i)
  have "length (last_component (take i s)) \<le> i"
    using Suc.prems(1) length_takeWhile_le [of _ "rev (take i s)"] by (auto simp: last_component_def min_def)
  then show ?case using Suc by (auto simp: take_Suc_conv_app_nth)
qed simp

subsection \<open>Properties\<close>

definition denotes :: "memory \<Rightarrow> str_ptr \<Rightarrow> u8 list \<Rightarrow> bool" where
  "denotes m r s = (case r of Literal t \<Rightarrow> s = t | Address p \<Rightarrow> cstr m p s)"

lemma cstr_take:
  assumes "cstr m p s" "n \<le> length s" "m' (p + n) = 0" "\<forall>j < n. m' (p + j) = m (p + j)"
  shows "cstr m' p (take n s)"
  using assms
proof (induction n arbitrary: p s)
  case (Suc n)
  then obtain c t where s: "s = c # t" by (cases s) auto
  have "cstr m' (p + 1) (take n t)"
    by (rule Suc.IH) (use Suc.prems s in \<open>auto simp: add.commute [of p] dest: spec [of _ "Suc _"]\<close>)
  moreover have "m' p = m p" using Suc.prems(4) by (metis add.right_neutral zero_less_Suc)
  ultimately show ?case using s Suc.prems(1) by simp
qed simp

lemma cstr_drop: "cstr m p s \<Longrightarrow> n \<le> length s \<Longrightarrow> cstr m (p + n) (drop n s)"
proof (induction n arbitrary: p s)
  case (Suc n)
  then show ?case using Suc.IH [of "p + 1" "tl s"] by (cases s) auto
qed simp

lemma last_component_drop: "last_component s = drop (length s - length (last_component s)) s"
  by (induction s rule: rev_induct) (auto simp: Suc_diff_le length_takeWhile_le last_component_def)

lemma skip_take:
  assumes "0 < n" "n \<le> length s" "\<forall>j < length s. m (p + j) = s ! j"
  shows "skip_slashes m p (n - 1) =
      (if strip_slashes (take n s) = [] then None else Some (length (strip_slashes (take n s)) - 1))"
    "skip_name m p (n - 1) =
      (if strip_name (take n s) = [] then None else Some (length (strip_name (take n s)) - 1))"
  using assms skip_slashes_prefix [of "n - 1" s m p] skip_name_prefix [of "n - 1" s m p]
  by (cases n; simp)+

lemma dirname_cstr:
  assumes c: "cstr m p s" and p: "p \<noteq> 0"
  obtains m' r where "dirname m p = Some (m', r)" "denotes m' r (dirname_str s)"
proof (cases "s = []")
  case True
  then show thesis using c that [of m "Literal [dot]"] by (simp add: dirname_def denotes_def dirname_str_def)
next
  case False
  then have ne: "m p \<noteq> 0" using c by (cases s) auto
  let ?a = "strip_slashes s" and ?b = "strip_name (strip_slashes s)"
  let ?c = "strip_slashes ?b"
  have at: "\<forall>j < length s. m (p + j) = s ! j" using cstr_nth [OF c] by blast
  have a: "skip_slashes m p (length s - 1) = (if ?a = [] then None else Some (length ?a - 1))"
    using skip_take(1) [of "length s" s m p] False at by simp
  have la: "?a = take (length ?a) s" "length ?a \<le> length s" using strip_slashes_take by auto
  have b: "skip_name m p (length ?a - 1) = (if ?b = [] then None else Some (length ?b - 1))" if "?a \<noteq> []"
    using skip_take(2) [OF _ la(2) at] la(1) that by simp
  have lb: "?b = take (length ?b) s" "length ?b \<le> length s"
    using strip_name_take [of ?a] la by (auto simp: min_def) (metis take_take min.absorb1)
  have c': "skip_slashes m p (length ?b - 1) = (if ?c = [] then None else Some (length ?c - 1))" if "?b \<noteq> []"
    using skip_take(1) [OF _ lb(2) at] lb(1) that by simp
  have lc: "?c = take (length ?c) s" "length ?c \<le> length s"
    using strip_slashes_take [of ?b] lb by (auto simp: min_def) (metis take_take min.absorb1)
  have "cstr (m(p + length ?c := 0)) p (take (length ?c) s)" using c lc(2) by (rule cstr_take) auto
  then have end': "cstr (m(p + length ?c := 0)) p ?c" using lc(1) by simp
  note defs = dirname_def denotes_def dirname_str_def strlen_cstr [OF c]
  consider "?a = []" | "?a \<noteq> []" "?b = []" | "?a \<noteq> []" "?b \<noteq> []" "?c = []" | "?a \<noteq> []" "?b \<noteq> []" "?c \<noteq> []" by blast
  then show thesis
  proof cases
    case 1
    then show thesis using a p ne False that [of m "Literal [slash]"] by (simp add: defs)
  next
    case 2
    then show thesis using a b p ne False that [of m "Literal [dot]"] by (simp add: defs)
  next
    case 3
    then show thesis using a b c' p ne False that [of m "Literal [slash]"] by (simp add: defs)
  next
    case 4
    then show thesis using a b c' end' p ne False that [of "m(p + length ?c := 0)" "Address p"] by (simp add: defs)
  qed
qed

lemma last_strip_slashes: "strip_slashes s \<noteq> [] \<Longrightarrow> last (strip_slashes s) \<noteq> slash"
  by (induction s rule: rev_induct) auto

lemma all_slashes: "strip_slashes s = [] \<Longrightarrow> \<forall>j < length s. s ! j = slash"
  by (induction s rule: rev_induct) (auto simp: nth_append less_Suc_eq split: if_splits)

lemma clear_all: "\<forall>j \<le> n. m (p + j) = slash \<Longrightarrow> clear_slashes m p n = (put m (p + 1) (replicate n 0), 0)"
proof (induction n arbitrary: m)
  case (Suc n)
  have "clear_slashes (m(p + Suc n := 0)) p n = (put (m(p + Suc n := 0)) (p + 1) (replicate n 0), 0)"
    using Suc.prems by (intro Suc.IH) auto
  moreover have "put (m(p + Suc n := 0)) (p + 1) (replicate n 0) = put m (p + 1) (replicate (Suc n) 0)"
    by (auto simp: put_def fun_eq_iff nth_Cons')
  moreover have "m (p + Suc n) = slash" using Suc.prems by blast
  ultimately show ?case by simp
qed simp

lemma basename_cstr:
  assumes c: "cstr m p s" and p: "p \<noteq> 0"
  obtains m' r where "basename m p = Some (m', r)" "denotes m' r (basename_str s)"
proof (cases "s = []")
  case True
  then show thesis using c that [of m "Literal [dot]"] by (simp add: basename_def denotes_def basename_str_def)
next
  case False
  then have ne: "m p \<noteq> 0" using c by (cases s) auto
  have at: "\<forall>j < length s. m (p + j) = s ! j" using cstr_nth [OF c] by blast
  have "j < length s" if "j \<le> length s - 1" for j using that False by (cases s) auto
  then have at': "\<forall>j \<le> length s - 1. m (p + j) = s ! j" "\<And>j. j \<le> length s - 1 \<Longrightarrow> j < length s" using at by auto
  let ?a = "strip_slashes s"
  show thesis
  proof (cases "?a = []")
    case True
    then have "clear_slashes m p (length s - 1) = (put m (p + 1) (replicate (length s - 1) 0), 0)"
      using all_slashes [of s] at' by (intro clear_all) auto
    moreover have "cstr (put m (p + 1) (replicate (length s - 1) 0)) p [slash]"
      using True at False all_slashes [of s] cstr_end [OF c] by (cases s) (auto simp: put_def slash_def nth_Cons')
    ultimately show thesis using True p ne False that strlen_cstr [OF c]
      by (simp add: basename_def denotes_def basename_str_def)
  next
    case a: False
    let ?n = "length ?a"
    let ?m = "put m (p + ?n) (replicate (length s - ?n) 0)"
    have la: "?a = take ?n s" "?n \<le> length s" using strip_slashes_take by auto
    have cl: "clear_slashes m p (length s - 1) = (?m, ?n - 1)"
      using clear_slashes_prefix [of "length s - 1" s m p] a False at'(1) by simp
    have "cstr ?m p (take ?n s)" using c la(2)
      by (rule cstr_take) (use cstr_end [OF c] la(2) in \<open>auto simp: put_def\<close>)
    then have ca: "cstr ?m p ?a" using la(1) by simp
    have nl: "last ?a \<noteq> slash" using a last_strip_slashes by blast
    have "find_component ?m p (?n - 1) = (?n - 1) - length (last_component (take (?n - 1) ?a))"
      using a cstr_nth [OF ca] by (intro find_component_prefix) auto
    also have "\<dots> = ?n - length (last_component ?a)"
      using a nl by (cases ?a rule: rev_cases) auto
    finally have "cstr ?m (p + find_component ?m p (?n - 1)) (last_component ?a)"
      using cstr_drop [OF ca, of "?n - length (last_component ?a)"] last_component_drop [of ?a] by simp
    then show thesis using cl p ne False a that strlen_cstr [OF c]
      by (simp add: basename_def denotes_def basename_str_def)
  qed
qed

lemma strip_slashes_replicate: "strip_slashes (s @ replicate k slash) = strip_slashes s"
proof (induction k)
  case (Suc k)
  then show ?case using strip_snoc(1) [of "s @ replicate k slash" slash] by (simp add: replicate_append_same)
qed simp

lemma strip_slashes_no_slash: "n \<noteq> [] \<Longrightarrow> slash \<notin> set n \<Longrightarrow> strip_slashes (d @ n) = d @ n"
  using strip_snoc(1) [of "d @ butlast n" "last n"] last_in_set [of n]
  by (metis append.assoc append_butlast_last_id)

lemma strip_name_component: "slash \<notin> set n \<Longrightarrow> strip_name (d @ slash # n) = d @ [slash]"
proof (induction n rule: rev_induct)
  case (snoc c n)
  then show ?case using strip_snoc(2) [of "d @ slash # n" c] by auto
qed (use strip_snoc(2) [of d slash] in simp)

lemma last_component_append: "slash \<notin> set n \<Longrightarrow> last_component (d @ slash # n) = n"
proof (induction n rule: rev_induct)
  case (snoc c n)
  then show ?case using strip_snoc(3) [of "d @ slash # n" c] by auto
qed (use strip_snoc(3) [of d slash] in simp)

text \<open>
  C37: On a path that ends in a component \<open>n\<close>, followed by any number of slashes, \<^verbatim>\<open>dirname\<close>
  returns the directory before it without trailing slashes (the root when nothing is left) and
  \<^verbatim>\<open>basename\<close> returns \<open>n\<close>; both loops over the path end.
\<close>

theorem libgen_splits_path:
  assumes "cstr m p (d @ slash # n @ replicate k slash)" "p \<noteq> 0" "n \<noteq> []" "slash \<notin> set n"
  shows "(\<exists>m' r. dirname m p = Some (m', r) \<and>
      denotes m' r (if strip_slashes d = [] then [slash] else strip_slashes d)) \<and>
    (\<exists>m' r. basename m p = Some (m', r) \<and> denotes m' r n)"
proof -
  let ?s = "d @ slash # n @ replicate k slash"
  have s: "strip_slashes ?s = d @ slash # n"
    using strip_slashes_replicate [of "d @ slash # n" k] strip_slashes_no_slash [OF assms(3,4), of "d @ [slash]"] by simp
  then have "basename_str ?s = n" using last_component_append [OF assms(4)] by (simp add: basename_str_def)
  moreover have "dirname_str ?s = (if strip_slashes d = [] then [slash] else strip_slashes d)"
    using s strip_name_component [OF assms(4), of d] by (simp add: dirname_str_def)
  moreover obtain m1 r1 where "dirname m p = Some (m1, r1)" "denotes m1 r1 (dirname_str ?s)"
    using assms(1,2) by (rule dirname_cstr)
  moreover obtain m2 r2 where "basename m p = Some (m2, r2)" "denotes m2 r2 (basename_str ?s)"
    using assms(1,2) by (rule basename_cstr)
  ultimately show ?thesis by auto
qed

theorem libgen_splits_path_witness:
  "\<exists>m' r. basename (put (\<lambda>_. 0) 1 [slash, 0x61, slash, 0x62, slash, 0]) 1 = Some (m', r) \<and> denotes m' r [0x62]"
  using libgen_splits_path [of "put (\<lambda>_. 0) 1 [slash, 0x61, slash, 0x62, slash, 0]" 1 "[slash, 0x61]" "[0x62]" 1]
  by (simp add: put_def slash_def)

end
