(* ===== verification/Cy_Stdarg.thy ===== *)
theory Cy_Stdarg
  imports Cy_Prelude "HOL-Library.Signed_Division"
begin

text \<open>
  \<^verbatim>\<open>lib/stdarg.c\<close>: formatted output into a bounded buffer.  The format is given as the string up
  to its NUL.  A variable argument is a 32-bit word or the string a pointer leads to; reading an
  argument that is not there, or not of the kind asked for, is undefined (\<^const>\<open>None\<close>), and so
  is a width that leaves the range of \<^verbatim>\<open>int\<close>.  The index of the output is a \<^verbatim>\<open>size_t\<close>: it is a natural number
  here, and reduced modulo \<open>2 ^ 32\<close> where it is used to address the buffer and in the result.  The length of a
  string argument is an \<^verbatim>\<open>int\<close>; a string for which it is too long does not fit into the memory of the machine.
\<close>

subsection \<open>Types\<close>

definition PLACEHOLDER_FLAG_ZERO :: u32 where "PLACEHOLDER_FLAG_ZERO = push_bit 0 1"
definition INT_MAX :: nat where "INT_MAX = 0x7fffffff"
definition int_max :: int where "int_max = 0x7fffffff"
definition EOF :: int where "EOF = - 1"

record placeholder =
  ph_width :: int
  ph_flags :: u32

record buffer =
  buf_data :: "nat \<Rightarrow> char"
  buf_size :: nat

datatype format_state = STATE_STRING | STATE_PLACEHOLDER_FLAG | STATE_PLACEHOLDER_WIDTH | STATE_PLACEHOLDER_TYPE

datatype va_arg = Word_Arg u32 | String_Arg string

subsection \<open>Numbers\<close>

definition assign :: "buffer \<Rightarrow> nat \<Rightarrow> char \<Rightarrow> bool \<times> buffer" where
  "assign buf idx c =
     (let idx = idx mod 2 ^ 32
      in if idx < buf_size buf then (True, buf\<lparr>buf_data := (buf_data buf)(idx := c)\<rparr>) else (False, buf))"

function hex_width_loop :: "nat \<Rightarrow> nat \<Rightarrow> nat" where
  "hex_width_loop width v =
     (let width = width + 1; v = v div 16 in if v \<noteq> 0 then hex_width_loop width v else width)"
  by pat_completeness auto
termination
  by (relation "measure snd") auto

definition compute_hex_width :: "nat \<Rightarrow> nat" where
  "compute_hex_width v = hex_width_loop 0 v"

lemma sdiv_10_less: "(v :: int) sdiv 10 \<noteq> 0 \<Longrightarrow> \<bar>v sdiv 10\<bar> < \<bar>v\<bar>"
  by (auto simp: signed_divide_int_def abs_mult)

function dec_width_loop :: "nat \<Rightarrow> int \<Rightarrow> nat" where
  "dec_width_loop width v =
     (let width = width + 1; v = v sdiv 10 in if v \<noteq> 0 then dec_width_loop width v else width)"
  by pat_completeness auto
termination
  by (relation "measure (\<lambda>(width, v). nat \<bar>v\<bar>)") (auto dest: sdiv_10_less)

definition compute_signed_dec_width :: "int \<Rightarrow> nat" where
  "compute_signed_dec_width v = dec_width_loop (if v < 0 then 1 else 0) v"

definition compute_unsigned_dec_width :: "nat \<Rightarrow> nat" where
  "compute_unsigned_dec_width v = dec_width_loop 0 (int v)"

text \<open>\<open>for (i = 0; i < n; ++i) assign(buf, index++, c);\<close>\<close>

fun pad_loop :: "nat \<Rightarrow> char \<Rightarrow> nat \<Rightarrow> buffer \<Rightarrow> nat \<times> buffer" where
  "pad_loop 0 c idx buf = (idx, buf)"
| "pad_loop (Suc n) c idx buf = pad_loop n c (idx + 1) (snd (assign buf idx c))"

text \<open>The literal the digits are taken from; an index outside of it is undefined.\<close>

definition digit_at :: "int \<Rightarrow> char option" where
  "digit_at i = (if 0 \<le> i \<and> i < 16 then Some (''0123456789abcdef'' ! nat i) else None)"

function hex_loop :: "nat \<Rightarrow> buffer \<Rightarrow> nat \<Rightarrow> buffer" where
  "hex_loop rindex buf v =
     (let buf = snd (assign buf rindex (''0123456789abcdef'' ! (v mod 16)));
          v = v div 16
      in if v \<noteq> 0 then hex_loop (rindex - 1) buf v else buf)"
  by pat_completeness auto
termination
  by (relation "measure (\<lambda>(rindex, buf, v). v)") auto

definition format_hex :: "nat \<Rightarrow> buffer \<Rightarrow> placeholder \<Rightarrow> nat \<Rightarrow> nat \<times> buffer" where
  "format_hex idx buf ph v =
     (let width = compute_hex_width v;
          (idx, buf) =
            (if ph_width ph > int width
             then pad_loop (nat (ph_width ph - int width))
                    (if ph_flags ph AND PLACEHOLDER_FLAG_ZERO \<noteq> 0 then CHR ''0'' else CHR '' '') idx buf
             else (idx, buf));
          buf = hex_loop (idx + (width - 1)) buf v
      in (idx + width, buf))"

function dec_loop :: "nat \<Rightarrow> buffer \<Rightarrow> int \<Rightarrow> buffer option" where
  "dec_loop rindex buf v =
     (case digit_at (v smod 10) of
        None \<Rightarrow> None
      | Some c \<Rightarrow>
          let buf = snd (assign buf rindex c); v = v sdiv 10
          in if v \<noteq> 0 then dec_loop (rindex - 1) buf v else Some buf)"
  by pat_completeness auto
termination
  by (relation "measure (\<lambda>(rindex, buf, v). nat \<bar>v\<bar>)") (auto dest: sdiv_10_less)

text \<open>\<open>value *= -1\<close> on a 32-bit \<^verbatim>\<open>int\<close>: the least value is its own negation.\<close>

definition neg_int :: "int \<Rightarrow> int" where
  "neg_int v = signed_take_bit 31 (- v)"

definition format_signed_dec :: "nat \<Rightarrow> buffer \<Rightarrow> placeholder \<Rightarrow> int \<Rightarrow> (nat \<times> buffer) option" where
  "format_signed_dec idx buf ph v =
     (let width = compute_signed_dec_width v;
          minus = (\<lambda>(idx, buf). if v < 0 then (idx + 1, snd (assign buf idx (CHR ''-''))) else (idx, buf));
          pad = (\<lambda>c (idx, buf).
            if ph_width ph > int width then pad_loop (nat (ph_width ph - int width)) c idx buf else (idx, buf));
          (idx, buf) =
            (if ph_flags ph AND PLACEHOLDER_FLAG_ZERO \<noteq> 0
             then pad (CHR ''0'') (minus (idx, buf))
             else minus (pad (CHR '' '') (idx, buf)));
          (width, v) = (if v < 0 then (width - 1, neg_int v) else (width, v))
      in map_option (\<lambda>buf. (idx + width, buf)) (dec_loop (idx + (width - 1)) buf v))"

definition format_unsigned_dec :: "nat \<Rightarrow> buffer \<Rightarrow> placeholder \<Rightarrow> nat \<Rightarrow> (nat \<times> buffer) option" where
  "format_unsigned_dec idx buf ph v =
     (let width = compute_unsigned_dec_width v;
          (idx, buf) =
            (if ph_width ph > int width
             then pad_loop (nat (ph_width ph - int width))
                    (if ph_flags ph AND PLACEHOLDER_FLAG_ZERO \<noteq> 0 then CHR ''0'' else CHR '' '') idx buf
             else (idx, buf))
      in map_option (\<lambda>buf. (idx + width, buf)) (dec_loop (idx + (width - 1)) buf (int v)))"

subsection \<open>The format\<close>

text \<open>The variables of \<^verbatim>\<open>vsnprintf\<close>, and how one character of the format leaves them.\<close>

record format_vars =
  fv_st :: format_state
  fv_ph :: placeholder
  fv_index :: nat
  fv_buf :: buffer
  fv_args :: "va_arg list"

datatype format_step = Next format_vars | Return int buffer

definition reset_placeholder :: "format_vars \<Rightarrow> format_vars" where
  "reset_placeholder v = v\<lparr>fv_ph := \<lparr>ph_width = 0, ph_flags = 0\<rparr>, fv_st := STATE_STRING\<rparr>"

definition put_char :: "format_vars \<Rightarrow> char \<Rightarrow> format_vars" where
  "put_char v c = v\<lparr>fv_buf := snd (assign (fv_buf v) (fv_index v) c), fv_index := fv_index v + 1\<rparr>"

definition put_number :: "format_vars \<Rightarrow> va_arg list \<Rightarrow> nat \<times> buffer \<Rightarrow> format_vars" where
  "put_number v args r = reset_placeholder (v\<lparr>fv_index := fst r, fv_buf := snd r, fv_args := args\<rparr>)"

definition zero_flag :: "format_vars \<Rightarrow> bool" where
  "zero_flag v \<longleftrightarrow> ph_flags (fv_ph v) AND PLACEHOLDER_FLAG_ZERO \<noteq> 0"

text \<open>\<open>case STATE_PLACEHOLDER_TYPE\<close>\<close>

definition type_step :: "format_vars \<Rightarrow> char \<Rightarrow> format_step option" where
  "type_step v c =
     (let fail = Some (Return EOF (fv_buf v)); w = ph_width (fv_ph v) in
      if c = CHR ''%'' then
        if ph_flags (fv_ph v) \<noteq> 0 \<or> w \<noteq> 0 then fail
        else Some (Next ((put_char v c)\<lparr>fv_st := STATE_STRING\<rparr>))
      else if c = CHR ''c'' then
        if zero_flag v then fail
        else
          (case fv_args v of
             Word_Arg a # args \<Rightarrow>
               let (idx, buf) =
                     (if w > 1 then pad_loop (nat (w - 1)) (CHR '' '') (fv_index v) (fv_buf v)
                      else (fv_index v, fv_buf v));
                   v = put_char (v\<lparr>fv_index := idx, fv_buf := buf, fv_args := args\<rparr>) (char_of (unat a))
               in Some (Next (reset_placeholder v))
           | _ \<Rightarrow> None)
      else if c = CHR ''s'' then
        if zero_flag v then fail
        else
          (case fv_args v of
             String_Arg s # args \<Rightarrow>
               if int (length s) > int_max then None else
               let len = length s;
                   (idx, buf) =
                     (if w > int len then pad_loop (nat (w - int len)) (CHR '' '') (fv_index v) (fv_buf v)
                      else (fv_index v, fv_buf v));
                   v = foldl put_char (v\<lparr>fv_index := idx, fv_buf := buf, fv_args := args\<rparr>) s
               in Some (Next (reset_placeholder v))
           | _ \<Rightarrow> None)
      else if c \<in> {CHR ''x'', CHR ''d'', CHR ''u''} then
        if zero_flag v \<and> w = 0 then fail
        else
          (case fv_args v of
             Word_Arg a # args \<Rightarrow>
               let r = (if c = CHR ''x'' then Some (format_hex (fv_index v) (fv_buf v) (fv_ph v) (unat a))
                        else if c = CHR ''d'' then format_signed_dec (fv_index v) (fv_buf v) (fv_ph v) (sint a)
                        else format_unsigned_dec (fv_index v) (fv_buf v) (fv_ph v) (unat a))
               in map_option (\<lambda>r. Next (put_number v args r)) r
           | _ \<Rightarrow> None)
      else fail)"

text \<open>\<open>case STATE_PLACEHOLDER_WIDTH\<close>, falling through\<close>

definition digit_value :: "char \<Rightarrow> int" where
  "digit_value c = of_char c - of_char (CHR ''0'')"

definition width_step :: "format_vars \<Rightarrow> char \<Rightarrow> format_step option" where
  "width_step v c =
     (if c \<in> set ''0123456789'' then
        let w = ph_width (fv_ph v) * 10 + digit_value c
        in if w > int_max then None
           else if w = 0 then Some (Return EOF (fv_buf v))
           else Some (Next (v\<lparr>fv_ph := (fv_ph v)\<lparr>ph_width := w\<rparr>, fv_st := STATE_PLACEHOLDER_WIDTH\<rparr>))
      else type_step v c)"

text \<open>\<open>case STATE_PLACEHOLDER_FLAG\<close>, falling through\<close>

definition flag_step :: "format_vars \<Rightarrow> char \<Rightarrow> format_step option" where
  "flag_step v c =
     (if c = CHR ''0'' then
        if zero_flag v then Some (Return EOF (fv_buf v))
        else Some (Next (v\<lparr>fv_ph := (fv_ph v)\<lparr>ph_flags := ph_flags (fv_ph v) OR PLACEHOLDER_FLAG_ZERO\<rparr>,
                           fv_st := STATE_PLACEHOLDER_FLAG\<rparr>))
      else width_step v c)"

definition format_char :: "format_vars \<Rightarrow> char \<Rightarrow> format_step option" where
  "format_char v c =
     (case fv_st v of
        STATE_STRING \<Rightarrow>
          Some (Next (if c = CHR ''%'' then v\<lparr>fv_st := STATE_PLACEHOLDER_FLAG\<rparr> else put_char v c))
      | STATE_PLACEHOLDER_FLAG \<Rightarrow> flag_step v c
      | STATE_PLACEHOLDER_WIDTH \<Rightarrow> width_step v c
      | STATE_PLACEHOLDER_TYPE \<Rightarrow> type_step v c)"

fun format_loop :: "format_vars \<Rightarrow> string \<Rightarrow> format_step option" where
  "format_loop v [] = Some (Next v)"
| "format_loop v (c # cs) =
     (case format_char v c of
        Some (Next v) \<Rightarrow> format_loop v cs
      | r \<Rightarrow> r)"

definition vsnprintf :: "(nat \<Rightarrow> char) \<Rightarrow> nat \<Rightarrow> string \<Rightarrow> va_arg list \<Rightarrow> (int \<times> (nat \<Rightarrow> char)) option" where
  "vsnprintf str sz format ap =
     (if sz > INT_MAX then Some (EOF, str)
      else
        case format_loop \<lparr>fv_st = STATE_STRING, fv_ph = \<lparr>ph_width = 0, ph_flags = 0\<rparr>, fv_index = 0,
                          fv_buf = \<lparr>buf_data = str, buf_size = sz\<rparr>, fv_args = ap\<rparr> format of
          None \<Rightarrow> None
        | Some (Return r buf) \<Rightarrow> Some (r, buf_data buf)
        | Some (Next v) \<Rightarrow>
            if fv_st v \<noteq> STATE_STRING then Some (EOF, buf_data (fv_buf v))
            else
              let (ok, buf) = assign (fv_buf v) (fv_index v) (CHR 0x00);
                  idx = fv_index v + 1;
                  buf = (if \<not> ok then snd (assign buf (buf_size buf + 2 ^ 32 - 1) (CHR 0x00)) else buf)
              in Some (signed_take_bit 31 (int (idx - 1)), buf_data buf))"

definition vsprintf :: "(nat \<Rightarrow> char) \<Rightarrow> string \<Rightarrow> va_arg list \<Rightarrow> (int \<times> (nat \<Rightarrow> char)) option" where
  "vsprintf str format ap = vsnprintf str INT_MAX format ap"

declare hex_width_loop.simps [simp del] dec_width_loop.simps [simp del] hex_loop.simps [simp del]
  dec_loop.simps [simp del]

subsection \<open>Writing into the buffer\<close>

text \<open>The buffer with a string written from an index on, as far as the buffer reaches.\<close>

fun emit :: "buffer \<Rightarrow> nat \<Rightarrow> string \<Rightarrow> buffer" where
  "emit b i [] = b"
| "emit b i (c # cs) = emit (snd (assign b i c)) (i + 1) cs"

lemma buffer_eqI: "buf_size a = buf_size b \<Longrightarrow> (\<And>j. buf_data a j = buf_data b j) \<Longrightarrow> a = (b :: buffer)"
  by (cases a; cases b) auto

lemma buf_size_assign [simp]: "buf_size (snd (assign b i c)) = buf_size b"
  by (simp add: assign_def Let_def)

lemma buf_size_emit [simp]: "buf_size (emit b i cs) = buf_size b"
  by (induction cs arbitrary: b i) simp_all

lemma emit_append: "emit (emit b i cs) (i + length cs) ds = emit b i (cs @ ds)"
proof (induction cs arbitrary: b i)
  case (Cons c cs)
  then show ?case using Cons [of "snd (assign b i c)" "i + 1"] by simp
qed simp

lemma assign_emit: "snd (assign b i c) = emit b i [c]"
  by simp

declare emit.simps(2) [simp del]

lemma pad_loop_emit: "pad_loop n c i b = (i + n, emit b i (replicate n c))"
proof (induction n arbitrary: i b)
  case (Suc n)
  then show ?case using emit_append [of b i "[c]" "replicate n c"] by (simp add: assign_emit)
qed simp

text \<open>Characters whose indices differ, as numbers of type \<^verbatim>\<open>size_t\<close>, may be written in either order.\<close>

lemma mod_size_t_less: "i < k \<Longrightarrow> k < i + 2 ^ 32 \<Longrightarrow> i mod 2 ^ 32 \<noteq> k mod (2 ^ 32 :: nat)"
proof
  assume a: "i < k" "k < i + 2 ^ 32" "i mod 2 ^ 32 = k mod (2 ^ 32 :: nat)"
  then have "2 ^ 32 dvd k - i" by (metis mod_eq_dvd_iff_nat less_imp_le_nat)
  then show False using a(1,2) by (auto dest: dvd_imp_le)
qed

lemma emit_before: "i + length cs \<le> k \<Longrightarrow> k < i + 2 ^ 32 \<Longrightarrow> emit (emit b k [d]) i cs = emit (emit b i cs) k [d]"
proof (induction cs arbitrary: i b)
  case (Cons c cs)
  have n: "i mod 2 ^ 32 \<noteq> k mod 2 ^ 32" using mod_size_t_less Cons.prems by simp
  have "emit (emit (emit b k [d]) i [c]) (i + 1) cs = emit (emit (emit b i [c]) k [d]) (i + 1) cs"
    using n by (intro arg_cong2 [where f = "\<lambda>x. emit x (i + 1)"] buffer_eqI) (auto simp: emit.simps assign_def Let_def)
  also have "\<dots> = emit (emit (emit b i [c]) (i + 1) cs) k [d]" using Cons.prems by (intro Cons.IH) simp_all
  finally show ?case by (simp add: emit.simps)
qed simp

text \<open>What the buffer holds, as long as the index does not wrap.\<close>

lemma emit_data:
  "i + length cs \<le> 2 ^ 32 \<Longrightarrow>
   buf_data (emit b i cs) j = (if i \<le> j \<and> j < i + length cs \<and> j < buf_size b then cs ! (j - i) else buf_data b j)"
proof (induction cs arbitrary: b i)
  case (Cons c cs)
  have "i mod 2 ^ 32 = i" using Cons.prems by simp
  then have a: "buf_data (snd (assign b i c)) j = (if j = i \<and> i < buf_size b then c else buf_data b j)" by (simp add: assign_def)
  have "buf_data (emit b i (c # cs)) j = buf_data (emit (snd (assign b i c)) (i + 1) cs) j" by (simp add: emit.simps)
  also have "\<dots> = (if i + 1 \<le> j \<and> j < i + 1 + length cs \<and> j < buf_size b then cs ! (j - (i + 1)) else buf_data (snd (assign b i c)) j)"
    using Cons.IH [of "i + 1" "snd (assign b i c)"] Cons.prems by simp
  finally show ?case unfolding a by (cases "j = i"; cases "j < i") (simp_all add: nth_Cons')
qed auto

lemma emit_outside: "buf_size b \<le> j \<Longrightarrow> buf_data (emit b i cs) j = buf_data b j"
  by (induction cs arbitrary: b i) (auto simp: emit.simps assign_def Let_def)

subsection \<open>Digits\<close>

text \<open>The digits of a number, most significant first.\<close>

function digits :: "nat \<Rightarrow> nat \<Rightarrow> string" where
  "digits b v =
     (if 1 < b \<and> b \<le> v then digits b (v div b) @ [''0123456789abcdef'' ! (v mod b)]
      else [''0123456789abcdef'' ! v])"
  by pat_completeness auto
termination
  by (relation "measure snd") auto

declare digits.simps [simp del]

lemma digits_unfold:
  "1 < b \<Longrightarrow> digits b v = (if v div b \<noteq> 0 then digits b (v div b) else []) @ [''0123456789abcdef'' ! (v mod b)]"
  by (subst digits.simps) (auto simp: div_eq_0_iff)

lemma digits_nonempty [simp]: "digits b v \<noteq> []"
  by (subst digits.simps) simp

lemma length_digits: "1 < b \<Longrightarrow> length (digits b v) = Suc (if v div b \<noteq> 0 then length (digits b (v div b)) else 0)"
  by (subst digits_unfold) simp_all

lemma length_digits_le: "1 < b \<Longrightarrow> length (digits b v) \<le> Suc v"
proof (induction v rule: less_induct)
  case (less v)
  have "v div b < v" if "v div b \<noteq> 0" using that less.prems by (cases v) (auto simp: div_less_dividend)
  then show ?case using less.IH [of "v div b"] length_digits [OF less.prems, of v] less.prems by (auto split: if_splits)
qed

lemma digits_short: "1 < b \<Longrightarrow> v < 2 ^ 32 \<Longrightarrow> length (digits b v) = Suc n \<Longrightarrow> n < 2 ^ 32"
  using length_digits_le [of b v] by simp

lemma hex_width_loop_digits: "hex_width_loop w v = w + length (digits 16 v)"
proof (induction w v rule: hex_width_loop.induct)
  case (1 w v)
  then show ?case by (subst hex_width_loop.simps, subst digits_unfold) (simp_all add: Let_def)
qed

lemma compute_hex_width_digits: "compute_hex_width v = length (digits 16 v)"
  by (simp add: compute_hex_width_def hex_width_loop_digits)

lemma sdiv_nat: "int v sdiv 10 = int (v div 10)" "int v smod 10 = int (v mod 10)"
  by (auto simp: signed_divide_int_def signed_modulo_int_def zdiv_int sgn_if minus_div_mult_eq_mod [symmetric] zmod_int)

lemma sdiv_neg: "(- int v) sdiv 10 = - int (v div 10)"
  by (auto simp: signed_divide_int_def zdiv_int sgn_if)

lemma dec_width_loop_digits:
  "dec_width_loop w (int v) = w + length (digits 10 v) \<and> dec_width_loop w (- int v) = w + length (digits 10 v)"
proof (induction v arbitrary: w rule: less_induct)
  case (less v)
  show ?case
  proof (cases "v div 10 = 0")
    case True
    then show ?thesis
      using length_digits [of 10 v] by (subst (1 2) dec_width_loop.simps) (simp add: Let_def sdiv_nat sdiv_neg)
  next
    case False
    then have "v div 10 < v" by (cases v) auto
    note ih = less [OF this, of "w + 1"]
    show ?thesis using False ih length_digits [of 10 v]
      by (subst (1 2) dec_width_loop.simps) (simp add: Let_def sdiv_nat sdiv_neg)
  qed
qed

lemma compute_dec_width_digits:
  "compute_unsigned_dec_width v = length (digits 10 v)"
  "compute_signed_dec_width n = (if n < 0 then 1 else 0) + length (digits 10 (nat \<bar>n\<bar>))"
  using dec_width_loop_digits [of 0 v] dec_width_loop_digits [of "if n < 0 then 1 else 0" "nat \<bar>n\<bar>"]
  by (auto simp: compute_unsigned_dec_width_def compute_signed_dec_width_def)

lemma hex_loop_emit: "length (digits 16 v) = Suc n \<Longrightarrow> n < 2 ^ 32 \<Longrightarrow> hex_loop (i + n) b v = emit b i (digits 16 v)"
proof (induction v arbitrary: b n rule: less_induct)
  case (less v)
  let ?c = "''0123456789abcdef'' ! (v mod 16)"
  show ?case
  proof (cases "v div 16 = 0")
    case True
    then show ?thesis using less.prems
      by (subst hex_loop.simps, subst (asm) digits_unfold, simp, subst digits_unfold) (simp_all add: Let_def assign_emit)
  next
    case False
    then have lt: "v div 16 < v" by (cases v) auto
    have d: "digits 16 v = digits 16 (v div 16) @ [?c]" using False by (subst digits_unfold) simp_all
    then obtain k where k: "n = Suc k" "length (digits 16 (v div 16)) = Suc k"
      using less.prems by (cases n) (auto simp: digits_nonempty)
    have "hex_loop (i + n) b v = hex_loop (i + k) (emit b (i + n) [?c]) (v div 16)"
      using False k by (subst hex_loop.simps) (simp add: Let_def assign_emit)
    also have "\<dots> = emit (emit b (i + n) [?c]) i (digits 16 (v div 16))" using less.IH [OF lt k(2)] less.prems(2) k(1) by simp
    also have "\<dots> = emit (emit b i (digits 16 (v div 16))) (i + n) [?c]" using k less.prems(2) by (intro emit_before) simp_all
    finally show ?thesis using emit_append [of b i "digits 16 (v div 16)" "[?c]"] d k by simp
  qed
qed

lemma dec_loop_emit: "length (digits 10 v) = Suc n \<Longrightarrow> n < 2 ^ 32 \<Longrightarrow> dec_loop (i + n) b (int v) = Some (emit b i (digits 10 v))"
proof (induction v arbitrary: b n rule: less_induct)
  case (less v)
  let ?c = "''0123456789abcdef'' ! (v mod 10)"
  have c: "digit_at (int v smod 10) = Some ?c" by (simp add: digit_at_def sdiv_nat)
  show ?case
  proof (cases "v div 10 = 0")
    case True
    then show ?thesis using less.prems c
      by (subst dec_loop.simps, subst (asm) digits_unfold, simp, subst digits_unfold)
        (simp_all add: Let_def assign_emit sdiv_nat)
  next
    case False
    then have lt: "v div 10 < v" by (cases v) auto
    have d: "digits 10 v = digits 10 (v div 10) @ [?c]" using False by (subst digits_unfold) simp_all
    then obtain k where k: "n = Suc k" "length (digits 10 (v div 10)) = Suc k"
      using less.prems by (cases n) (auto simp: digits_nonempty)
    have "dec_loop (i + n) b (int v) = dec_loop (i + k) (emit b (i + n) [?c]) (int (v div 10))"
      using False k c by (subst dec_loop.simps) (simp add: Let_def assign_emit sdiv_nat)
    also have "\<dots> = Some (emit (emit b (i + n) [?c]) i (digits 10 (v div 10)))" using less.IH [OF lt k(2)] less.prems(2) k(1) by simp
    also have "emit (emit b (i + n) [?c]) i (digits 10 (v div 10)) = emit (emit b i (digits 10 (v div 10))) (i + n) [?c]"
      using k less.prems(2) by (intro emit_before) simp_all
    finally show ?thesis using emit_append [of b i "digits 10 (v div 10)" "[?c]"] d k by simp
  qed
qed

subsection \<open>A reference formatter\<close>

text \<open>
  What a format means, without buffer and state machine.  \<^const>\<open>None\<close>: undefined;
  \<open>Some None\<close>: a malformed format.
\<close>

definition pad_left :: "int \<Rightarrow> char \<Rightarrow> string \<Rightarrow> string" where
  "pad_left w c cs = replicate (nat (w - int (length cs))) c @ cs"

definition signed_digits :: "bool \<Rightarrow> int \<Rightarrow> int \<Rightarrow> string" where
  "signed_digits z w n =
     (if n < 0 then
        if z then CHR ''-'' # pad_left (w - 1) (CHR ''0'') (digits 10 (nat (- n)))
        else pad_left w (CHR '' '') (CHR ''-'' # digits 10 (nat (- n)))
      else pad_left w (if z then CHR ''0'' else CHR '' '') (digits 10 (nat n)))"

definition convert :: "bool \<Rightarrow> int \<Rightarrow> char \<Rightarrow> va_arg list \<Rightarrow> (string \<times> va_arg list) option option" where
  "convert z w t args =
     (if t = CHR ''%'' then if z \<or> w \<noteq> 0 then Some None else Some (Some (''%'', args))
      else if t \<in> {CHR ''c'', CHR ''s''} \<and> z \<or> t \<in> {CHR ''x'', CHR ''d'', CHR ''u''} \<and> z \<and> w = 0 then Some None
      else
        case args of
          Word_Arg a # args \<Rightarrow>
            if t = CHR ''c'' then Some (Some (pad_left w (CHR '' '') [char_of (unat a)], args))
            else if t = CHR ''x''
              then Some (Some (pad_left w (if z then CHR ''0'' else CHR '' '') (digits 16 (unat a)), args))
            else if t = CHR ''u''
              then Some (Some (pad_left w (if z then CHR ''0'' else CHR '' '') (digits 10 (unat a)), args))
            else if t = CHR ''d''
              then if sint a = - (2 ^ 31) then None else Some (Some (signed_digits z w (sint a), args))
            else if t = CHR ''s'' then None
            else Some None
        | String_Arg cs # args \<Rightarrow>
            if t = CHR ''s'' then if int (length cs) > int_max then None else Some (Some (pad_left w (CHR '' '') cs, args))
            else if t \<in> set ''cxdu'' then None
            else Some None
        | [] \<Rightarrow> if t \<in> set ''csxdu'' then None else Some None)"

definition decimal :: "string \<Rightarrow> int" where
  "decimal ds = foldl (\<lambda>w c. w * 10 + digit_value c) 0 ds"

definition after_zero :: "string \<Rightarrow> bool \<times> string" where
  "after_zero cs = (case cs of c # cs' \<Rightarrow> if c = CHR ''0'' then (True, cs') else (False, cs) | [] \<Rightarrow> (False, []))"

definition is_digit :: "char \<Rightarrow> bool" where
  "is_digit c \<longleftrightarrow> c \<in> set ''0123456789''"

lemma length_after_zero: "length (snd (after_zero cs)) \<le> length cs"
  by (auto simp: after_zero_def split: list.splits)

function fmt :: "string \<Rightarrow> va_arg list \<Rightarrow> string option option" where
  "fmt [] args = Some (Some [])"
| "fmt (c # cs) args =
     (if c \<noteq> CHR ''%'' then map_option (map_option (Cons c)) (fmt cs args)
      else
        let (z, cs1) = after_zero cs in
        if z \<and> fst (after_zero cs1) then Some None
        else if decimal (takeWhile is_digit cs1) > int_max then None
        else
          case dropWhile is_digit cs1 of
            [] \<Rightarrow> Some None
          | t # rest \<Rightarrow>
              (case convert z (decimal (takeWhile is_digit cs1)) t args of
                 None \<Rightarrow> None
               | Some None \<Rightarrow> Some None
               | Some (Some (out, args)) \<Rightarrow> map_option (map_option ((@) out)) (fmt rest args)))"
  by pat_completeness auto
termination
proof (relation "measure (\<lambda>(cs, args). length cs)", goal_cases)
  case (3 c cs args p z cs1 t rest q r out args')
  have "length (dropWhile is_digit cs1) \<le> length cs1" by (rule length_dropWhile_le)
  moreover have "length cs1 \<le> length cs" using 3 length_after_zero [of cs] by (metis snd_conv)
  ultimately show ?case using 3 by simp
qed auto

declare fmt.simps(2) [simp del]

subsection \<open>The state machine against the reference\<close>

definition between :: "buffer \<Rightarrow> string \<Rightarrow> va_arg list \<Rightarrow> format_vars" where
  "between b acc args = \<lparr>fv_st = STATE_STRING, fv_ph = \<lparr>ph_width = 0, ph_flags = 0\<rparr>, fv_index = length acc,
     fv_buf = emit b 0 acc, fv_args = args\<rparr>"

definition inside :: "format_state \<Rightarrow> bool \<Rightarrow> int \<Rightarrow> buffer \<Rightarrow> string \<Rightarrow> va_arg list \<Rightarrow> format_vars" where
  "inside st z w b acc args = \<lparr>fv_st = st, fv_ph = \<lparr>ph_width = w, ph_flags = (if z then 1 else 0)\<rparr>,
     fv_index = length acc, fv_buf = emit b 0 acc, fv_args = args\<rparr>"

lemma emit_acc [simp]: "emit (emit b 0 acc) (length acc) cs = emit b 0 (acc @ cs)"
  using emit_append [of b 0 acc cs] by simp

lemma zero_flag_inside [simp]: "zero_flag (inside st z w b acc args) = z"
  by (simp add: zero_flag_def inside_def PLACEHOLDER_FLAG_ZERO_def)

lemma foldl_put_char:
  "fv_index v = length acc \<Longrightarrow> fv_buf v = emit b 0 acc \<Longrightarrow>
   foldl put_char v cs = v\<lparr>fv_index := length (acc @ cs), fv_buf := emit b 0 (acc @ cs)\<rparr>"
proof (induction cs arbitrary: v acc)
  case (Cons c cs)
  have "foldl put_char (put_char v c) cs =
      (put_char v c)\<lparr>fv_index := length ((acc @ [c]) @ cs), fv_buf := emit b 0 ((acc @ [c]) @ cs)\<rparr>"
    using Cons.prems by (intro Cons.IH) (simp_all add: put_char_def assign_emit)
  moreover have "(put_char v c)\<lparr>fv_index := length ((acc @ [c]) @ cs), fv_buf := emit b 0 ((acc @ [c]) @ cs)\<rparr> =
      v\<lparr>fv_index := length (acc @ c # cs), fv_buf := emit b 0 (acc @ c # cs)\<rparr>" by (simp add: put_char_def)
  ultimately show ?case by simp
qed simp

lemma pad_left_emit:
  "(if w > int (length cs) then pad_loop (nat (w - int (length cs))) c (length acc) (emit b 0 acc)
    else (length acc, emit b 0 acc)) =
   (length (acc @ replicate (nat (w - int (length cs))) c), emit b 0 (acc @ replicate (nat (w - int (length cs))) c))"
  by (simp add: pad_loop_emit)

lemma format_hex_emit:
  "v < 2 ^ 32 \<Longrightarrow> format_hex (length acc) (emit b 0 acc) \<lparr>ph_width = w, ph_flags = (if z then 1 else 0)\<rparr> v =
   (let out = pad_left w (if z then CHR ''0'' else CHR '' '') (digits 16 v)
    in (length (acc @ out), emit b 0 (acc @ out)))"
proof -
  assume v: "v < 2 ^ 32"
  let ?c = "if z then CHR ''0'' else CHR '' ''"
  let ?p = "replicate (nat (w - int (length (digits 16 v)))) ?c"
  have flag: "(if ((if z then 1 else 0) :: u32) AND PLACEHOLDER_FLAG_ZERO \<noteq> 0 then CHR ''0'' else CHR '' '') = ?c"
    by (simp add: PLACEHOLDER_FLAG_ZERO_def)
  obtain n where n: "length (digits 16 v) = Suc n" using digits_nonempty [of 16 v] by (cases "digits 16 v") auto
  have "hex_loop (length (acc @ ?p) + n) (emit b 0 (acc @ ?p)) v = emit b 0 ((acc @ ?p) @ digits 16 v)"
    unfolding emit_acc [symmetric] using n digits_short [OF _ v n] by (intro hex_loop_emit) simp_all
  then show ?thesis
    unfolding format_hex_def Let_def placeholder.select_convs flag compute_hex_width_digits
    unfolding pad_left_emit by (simp add: n pad_left_def del: of_nat_Suc)
qed

lemma format_unsigned_dec_emit:
  "v < 2 ^ 32 \<Longrightarrow> format_unsigned_dec (length acc) (emit b 0 acc) \<lparr>ph_width = w, ph_flags = (if z then 1 else 0)\<rparr> v =
   (let out = pad_left w (if z then CHR ''0'' else CHR '' '') (digits 10 v)
    in Some (length (acc @ out), emit b 0 (acc @ out)))"
proof -
  assume v: "v < 2 ^ 32"
  let ?c = "if z then CHR ''0'' else CHR '' ''"
  let ?p = "replicate (nat (w - int (length (digits 10 v)))) ?c"
  have flag: "(if ((if z then 1 else 0) :: u32) AND PLACEHOLDER_FLAG_ZERO \<noteq> 0 then CHR ''0'' else CHR '' '') = ?c"
    by (simp add: PLACEHOLDER_FLAG_ZERO_def)
  obtain n where n: "length (digits 10 v) = Suc n" using digits_nonempty [of 10 v] by (cases "digits 10 v") auto
  have "dec_loop (length (acc @ ?p) + n) (emit b 0 (acc @ ?p)) (int v) = Some (emit b 0 ((acc @ ?p) @ digits 10 v))"
    unfolding emit_acc [symmetric] using n digits_short [OF _ v n] by (intro dec_loop_emit) simp_all
  then show ?thesis
    unfolding format_unsigned_dec_def Let_def placeholder.select_convs flag compute_dec_width_digits
    unfolding pad_left_emit by (simp add: n pad_left_def del: of_nat_Suc)
qed

lemma neg_int_small: "0 \<le> v \<Longrightarrow> v < 2 ^ 31 \<Longrightarrow> neg_int (- v) = v"
  using signed_take_bit_int_eq_self [of 31 v] by (simp add: neg_int_def)

lemma format_signed_dec_min:
  "format_signed_dec idx buf ph (- (2 ^ 31)) = None"
proof -
  have "neg_int (- (2 ^ 31)) = - (2 ^ 31)" by (simp add: neg_int_def signed_take_bit_eq_if_positive signed_take_bit_eq_if_negative bit_simps)
  moreover have "dec_loop i b (- (2 ^ 31)) = None" for i b
    by (subst dec_loop.simps) (simp add: digit_at_def signed_modulo_int_def signed_divide_int_def)
  ultimately show ?thesis by (auto simp: format_signed_dec_def Let_def split: prod.splits)
qed

lemma format_signed_dec_prefix:
  fixes n w :: int and z :: bool and acc :: string
  defines "width \<equiv> compute_signed_dec_width n"
  defines "r \<equiv> nat (w - int width)"
  defines "pre \<equiv> (if n < 0 then if z then CHR ''-'' # replicate r (CHR ''0'') else replicate r (CHR '' '') @ ''-''
                 else replicate r (if z then CHR ''0'' else CHR '' ''))"
  shows "format_signed_dec (length acc) (emit b 0 acc) \<lparr>ph_width = w, ph_flags = (if z then 1 else 0)\<rparr> n =
    (let (width, v) = (if n < 0 then (width - 1, neg_int n) else (width, n))
     in map_option (\<lambda>buf. (length (acc @ pre) + width, buf))
          (dec_loop (length (acc @ pre) + (width - 1)) (emit b 0 (acc @ pre)) v))"
proof -
  have z: "(((if z then 1 else 0) :: u32) AND PLACEHOLDER_FLAG_ZERO \<noteq> 0) = z" by (simp add: PLACEHOLDER_FLAG_ZERO_def)
  have pad: "(if w > int width then pad_loop (nat (w - int width)) c (length p) (emit b 0 p) else (length p, emit b 0 p)) =
      (length (p @ replicate r c), emit b 0 (p @ replicate r c))" for c p
    by (simp add: pad_loop_emit r_def)
  have minus: "(if n < 0 then (length p + 1, snd (assign (emit b 0 p) (length p) (CHR ''-''))) else (length p, emit b 0 p)) =
      (length (p @ (if n < 0 then ''-'' else [])), emit b 0 (p @ (if n < 0 then ''-'' else [])))" for p
    by (simp add: assign_emit)
  have "(if z then length (acc @ (if n < 0 then ''-'' else []) @ replicate r (CHR ''0''))
      else length (acc @ replicate r (CHR '' '') @ (if n < 0 then ''-'' else []))) = length (acc @ pre)"
    by (simp add: pre_def)
  moreover have "(if z then acc @ (if n < 0 then ''-'' else []) @ replicate r (CHR ''0'')
      else acc @ replicate r (CHR '' '') @ (if n < 0 then ''-'' else [])) = acc @ pre"
    by (simp add: pre_def)
  ultimately show ?thesis
    unfolding format_signed_dec_def Let_def placeholder.select_convs z width_def [symmetric] prod.case minus pad
    by (cases z) (simp_all only: if_True if_False prod.case append_assoc)
qed

lemma format_signed_dec_emit:
  assumes "- (2 ^ 31) < n" "n < 2 ^ 31"
  shows "format_signed_dec (length acc) (emit b 0 acc) \<lparr>ph_width = w, ph_flags = (if z then 1 else 0)\<rparr> n =
    (let out = signed_digits z w n in Some (length (acc @ out), emit b 0 (acc @ out)))"
proof (cases "n < 0")
  case False
  then obtain v where n: "n = int v" by (metis nonneg_int_cases not_less)
  obtain k where k: "length (digits 10 v) = Suc k" using digits_nonempty [of 10 v] by (cases "digits 10 v") auto
  have sh: "k < 2 ^ 32" using digits_short [OF _ _ k] n assms(2) by simp
  let ?p = "acc @ replicate (nat (w - int (Suc k))) (if z then CHR ''0'' else CHR '' '')"
  have width: "compute_signed_dec_width n = Suc k" using n k by (simp add: compute_dec_width_digits)
  have "dec_loop (length ?p + (Suc k - 1)) (emit b 0 ?p) (int v) = Some (emit b 0 (?p @ digits 10 v))"
    unfolding emit_acc [symmetric] diff_Suc_1 using k sh by (intro dec_loop_emit)
  moreover have "signed_digits z w n = replicate (nat (w - int (Suc k))) (if z then CHR ''0'' else CHR '' '') @ digits 10 v"
    using n k by (simp add: signed_digits_def pad_left_def del: of_nat_Suc)
  ultimately show ?thesis
    using False n k unfolding format_signed_dec_prefix width Let_def by (simp del: of_nat_Suc)
next
  case True
  then obtain v where n: "n = - int v" "0 < v" by (metis neg_int_cases)
  obtain k where k: "length (digits 10 v) = Suc k" using digits_nonempty [of 10 v] by (cases "digits 10 v") auto
  have sh: "k < 2 ^ 32" using digits_short [OF _ _ k] n assms(1) by simp
  let ?q = "if z then CHR ''-'' # replicate (nat (w - int (Suc (Suc k)))) (CHR ''0'')
    else replicate (nat (w - int (Suc (Suc k)))) (CHR '' '') @ ''-''"
  have width: "compute_signed_dec_width n = Suc (Suc k)" using n k by (simp add: compute_dec_width_digits)
  have neg: "neg_int n = int v" using neg_int_small [of "int v"] assms n by simp
  have "dec_loop (length (acc @ ?q) + (Suc k - 1)) (emit b 0 (acc @ ?q)) (int v) = Some (emit b 0 ((acc @ ?q) @ digits 10 v))"
    unfolding emit_acc [symmetric] diff_Suc_1 using k sh by (intro dec_loop_emit)
  moreover have "signed_digits z w n = ?q @ digits 10 v"
  proof -
    have "nat (w - 1 - int (Suc k)) = nat (w - int (Suc (Suc k)))" by simp
    then show ?thesis using n k by (simp add: signed_digits_def pad_left_def del: of_nat_Suc)
  qed
  ultimately show ?thesis
    using True k neg unfolding format_signed_dec_prefix width Let_def by (simp del: of_nat_Suc)
qed

definition step_of :: "buffer \<Rightarrow> string \<Rightarrow> (string \<times> va_arg list) option option \<Rightarrow> format_step option" where
  "step_of b acc r =
     (case r of
        None \<Rightarrow> None
      | Some None \<Rightarrow> Some (Return EOF (emit b 0 acc))
      | Some (Some (out, args)) \<Rightarrow> Some (Next (between b (acc @ out) args)))"

lemma pad_loop_acc:
  "pad_loop n c (length acc) (emit b 0 acc) = (length (acc @ replicate n c), emit b 0 (acc @ replicate n c))"
  by (simp add: pad_loop_emit)

lemma put_number_between:
  "put_number (inside st z w b acc args) args' (length (acc @ out), emit b 0 (acc @ out)) = between b (acc @ out) args'"
  by (simp add: put_number_def reset_placeholder_def between_def inside_def)

lemma reset_put_char:
  "reset_placeholder (put_char ((inside st z w b acc args)\<lparr>fv_index := length p, fv_buf := emit b 0 p, fv_args := args'\<rparr>) c) =
   between b (p @ [c]) args'"
  by (simp add: reset_placeholder_def put_char_def between_def inside_def assign_emit)

lemma reset_foldl_put_char:
  "reset_placeholder (foldl put_char ((inside st z w b acc args)\<lparr>fv_index := length p, fv_buf := emit b 0 p, fv_args := args'\<rparr>) cs) =
   between b (p @ cs) args'"
  by (subst foldl_put_char [where acc = p and b = b]) (simp_all add: reset_placeholder_def between_def inside_def)

lemma inside_sel [simp]:
  "fv_st (inside st z w b acc args) = st" "ph_width (fv_ph (inside st z w b acc args)) = w"
  "fv_index (inside st z w b acc args) = length acc" "fv_buf (inside st z w b acc args) = emit b 0 acc"
  "fv_args (inside st z w b acc args) = args"
  "fv_ph (inside st z w b acc args) = \<lparr>ph_width = w, ph_flags = (if z then 1 else 0)\<rparr>"
  by (simp_all add: inside_def)

lemma type_step_percent: "type_step (inside st z w b acc args) (CHR ''%'') = step_of b acc (convert z w (CHR ''%'') args)"
  by (auto simp: type_step_def Let_def convert_def step_of_def between_def put_char_def inside_def assign_emit)

lemma type_step_c: "type_step (inside st z w b acc args) (CHR ''c'') = step_of b acc (convert z w (CHR ''c'') args)"
proof (cases "\<not> z \<and> (\<exists>a as. args = Word_Arg a # as)")
  case True
  then obtain a as where a: "\<not> z" "args = Word_Arg a # as" by blast
  have q: "zero_flag (inside st z w b acc args) = False" using a by simp
  show ?thesis
    unfolding type_step_def Let_def inside_sel q using a
    by (simp add: pad_loop_acc convert_def step_of_def pad_left_def reset_put_char del: length_append)
next
  case False
  then show ?thesis
    by (cases z; cases args; cases "hd args") (auto simp: type_step_def Let_def convert_def step_of_def)
qed

lemma type_step_s: "type_step (inside st z w b acc args) (CHR ''s'') = step_of b acc (convert z w (CHR ''s'') args)"
proof (cases "\<not> z \<and> (\<exists>cs as. args = String_Arg cs # as)")
  case True
  then obtain cs as where a: "\<not> z" "args = String_Arg cs # as" by blast
  have q: "zero_flag (inside st z w b acc args) = False" using a by simp
  show ?thesis
    unfolding type_step_def Let_def inside_sel q using a
    by (simp add: pad_loop_acc convert_def step_of_def pad_left_def reset_foldl_put_char del: length_append)
next
  case False
  then show ?thesis
    by (cases z; cases args; cases "hd args") (auto simp: type_step_def Let_def convert_def step_of_def)
qed

lemma sint_u32: "- (2 ^ 31) \<le> sint (a :: u32)" "sint (a :: u32) < 2 ^ 31"
  using sint_greater_eq [of a] sint_less [of a] by simp_all

lemma type_step_number:
  assumes t: "t \<in> {CHR ''x'', CHR ''d'', CHR ''u''}"
  shows "type_step (inside st z w b acc args) t = step_of b acc (convert z w t args)"
proof (cases "\<not> (z \<and> w = 0) \<and> (\<exists>a as. args = Word_Arg a # as)")
  case True
  then obtain a as where a: "\<not> (z \<and> w = 0)" "args = Word_Arg a # as" by blast
  have d: "format_signed_dec (length acc) (emit b 0 acc) \<lparr>ph_width = w, ph_flags = (if z then 1 else 0)\<rparr> (sint a) =
      (if sint a = - (2 ^ 31) then None
       else Some (length (acc @ signed_digits z w (sint a)), emit b 0 (acc @ signed_digits z w (sint a))))"
    using sint_u32 [of a] format_signed_dec_min format_signed_dec_emit [of "sint a"] by (auto simp: Let_def)
  have q: "(zero_flag (inside st z w b acc args) \<and> w = 0) = False" using a by simp
  have a32: "unat a < 2 ^ 32" using unsigned_less [of a] by simp
  note defs = type_step_def Let_def inside_sel q format_hex_emit [OF a32] format_unsigned_dec_emit [OF a32] d
  consider "t = CHR ''x''" | "t = CHR ''d''" | "t = CHR ''u''" using t by blast
  then show ?thesis
  proof cases
    case 1
    show ?thesis unfolding defs 1 using a
      by (simp add: convert_def step_of_def put_number_between format_hex_emit [OF a32] Let_def del: length_append)
  next
    case 2
    show ?thesis unfolding defs 2 using a
      by (simp add: convert_def step_of_def put_number_between d del: length_append)
  next
    case 3
    show ?thesis unfolding defs 3 using a
      by (simp add: convert_def step_of_def put_number_between format_unsigned_dec_emit [OF a32] Let_def del: length_append)
  qed
next
  case False
  then show ?thesis using t
    by (cases args; cases "hd args") (auto simp: type_step_def Let_def convert_def step_of_def)
qed

lemma type_step_convert: "type_step (inside st z w b acc args) t = step_of b acc (convert z w t args)"
proof (cases "t \<in> set ''%csxdu''")
  case True
  then show ?thesis using type_step_percent type_step_c type_step_s type_step_number by auto
next
  case False
  then show ?thesis by (auto simp: type_step_def Let_def convert_def step_of_def split: list.splits va_arg.splits)
qed

text \<open>The rest of a run after a conversion.\<close>

definition resume :: "format_step option \<Rightarrow> string \<Rightarrow> format_step option" where
  "resume r cs = (case r of Some (Next v) \<Rightarrow> format_loop v cs | _ \<Rightarrow> r)"

lemma format_loop_Cons: "format_loop v (c # cs) = resume (format_char v c) cs"
  by (simp add: resume_def split: option.splits format_step.splits)

lemma digit_value_range: "is_digit c \<Longrightarrow> 0 \<le> digit_value c \<and> (c \<noteq> CHR ''0'' \<longrightarrow> 1 \<le> digit_value c)"
  by (auto simp: is_digit_def digit_value_def)

lemma int_max_pos [simp]: "\<not> int_max < 0"
  by (simp add: int_max_def)

lemma digit_value_small: "is_digit c \<Longrightarrow> digit_value c \<le> int_max"
  by (auto simp: is_digit_def digit_value_def int_max_def)

lemma width_step_digit:
  "is_digit c \<Longrightarrow> w * 10 + digit_value c \<noteq> 0 \<Longrightarrow>
   width_step (inside st z w b acc args) c =
   (if w * 10 + digit_value c > int_max then None
    else Some (Next (inside STATE_PLACEHOLDER_WIDTH z (w * 10 + digit_value c) b acc args)))"
  unfolding width_step_def is_digit_def [symmetric] Let_def by simp

lemma width_step_other:
  "\<not> is_digit c \<Longrightarrow> width_step (inside st z w b acc args) c = step_of b acc (convert z w c args)"
  unfolding width_step_def is_digit_def [symmetric] by (simp add: type_step_convert)

definition widened :: "int \<Rightarrow> string \<Rightarrow> int" where
  "widened w ds = foldl (\<lambda>w c. w * 10 + digit_value c) w ds"

lemma widened_simps [simp]: "widened w [] = w" "widened w (c # ds) = widened (w * 10 + digit_value c) ds"
  by (simp_all add: widened_def)

lemma widened_grows: "1 \<le> w \<Longrightarrow> \<forall>c \<in> set ds. is_digit c \<Longrightarrow> w \<le> widened w ds"
proof (induction ds arbitrary: w)
  case (Cons c ds)
  then have "0 \<le> digit_value c" using digit_value_range by simp
  then show ?case using Cons.IH [of "w * 10 + digit_value c"] Cons.prems by simp
qed simp

text \<open>What is left to do inside a placeholder, once its flag has been read.\<close>

definition finish :: "bool \<Rightarrow> int \<Rightarrow> buffer \<Rightarrow> string \<Rightarrow> va_arg list \<Rightarrow> string \<Rightarrow> format_step option \<Rightarrow> bool" where
  "finish z w b acc args cs r \<longleftrightarrow>
     (if widened w (takeWhile is_digit cs) > int_max then r = None
      else
        case dropWhile is_digit cs of
          [] \<Rightarrow> (\<exists>v. r = Some (Next v) \<and> fv_st v \<noteq> STATE_STRING \<and> fv_buf v = emit b 0 acc)
        | t # rest \<Rightarrow> r = resume (step_of b acc (convert z (widened w (takeWhile is_digit cs)) t args)) rest)"

lemma finish_digit:
  "is_digit c \<Longrightarrow> finish z (w * 10 + digit_value c) b acc args cs r \<Longrightarrow> finish z w b acc args (c # cs) r"
  unfolding finish_def takeWhile.simps dropWhile.simps by (simp only: if_True widened_simps)

lemma finish_too_wide: "1 \<le> w \<Longrightarrow> int_max < w \<Longrightarrow> finish z w b acc args cs None"
  using widened_grows [of w "takeWhile is_digit cs"] set_takeWhileD [of _ is_digit cs] unfolding finish_def by fastforce

lemma format_loop_width:
  "1 \<le> w \<Longrightarrow> w \<le> int_max \<Longrightarrow> finish z w b acc args cs (format_loop (inside STATE_PLACEHOLDER_WIDTH z w b acc args) cs)"
proof (induction cs arbitrary: w)
  case (Cons c cs)
  show ?case
  proof (cases "is_digit c")
    case True
    let ?w = "w * 10 + digit_value c"
    have w: "1 \<le> ?w" using Cons.prems digit_value_range [OF True] by simp
    have f: "format_char (inside STATE_PLACEHOLDER_WIDTH z w b acc args) c =
        (if ?w > int_max then None else Some (Next (inside STATE_PLACEHOLDER_WIDTH z ?w b acc args)))"
      using width_step_digit [OF True, of w] w by (simp add: format_char_def)
    have "finish z ?w b acc args cs (format_loop (inside STATE_PLACEHOLDER_WIDTH z w b acc args) (c # cs))"
      using f finish_too_wide [OF w] Cons.IH [OF w] by (simp add: not_less)
    then show ?thesis by (rule finish_digit [OF True])
  next
    case False
    then show ?thesis using width_step_other [OF False] Cons.prems(2)
      unfolding format_loop_Cons by (simp add: finish_def format_char_def)
  qed
qed (simp add: finish_def)

lemma format_loop_flag:
  assumes "\<not> fst (after_zero cs)"
  shows "finish z 0 b acc args cs (format_loop (inside STATE_PLACEHOLDER_FLAG z 0 b acc args) cs)"
proof (cases cs)
  case (Cons c cs')
  then have c: "c \<noteq> CHR ''0''" using assms by (auto simp: after_zero_def split: if_splits)
  then have f: "format_char (inside STATE_PLACEHOLDER_FLAG z 0 b acc args) c =
      width_step (inside STATE_PLACEHOLDER_FLAG z 0 b acc args) c" by (simp add: format_char_def flag_step_def)
  show ?thesis
  proof (cases "is_digit c")
    case True
    then have d: "1 \<le> digit_value c" "digit_value c \<le> int_max" using digit_value_range c digit_value_small by blast+
    then have "format_loop (inside STATE_PLACEHOLDER_FLAG z 0 b acc args) cs =
        format_loop (inside STATE_PLACEHOLDER_WIDTH z (digit_value c) b acc args) cs'"
      using f width_step_digit [OF True, of 0] Cons by (simp add: not_less [symmetric])
    then show ?thesis
      using format_loop_width [OF d, of z b acc args cs'] Cons finish_digit [OF True, of z 0] by simp
  next
    case False
    then show ?thesis using f width_step_other [OF False] Cons unfolding Cons format_loop_Cons by (simp add: finish_def)
  qed
qed (simp add: finish_def)

definition agrees :: "buffer \<Rightarrow> string \<Rightarrow> string option option \<Rightarrow> format_step option \<Rightarrow> bool" where
  "agrees b acc q r \<longleftrightarrow>
     (case q of
        None \<Rightarrow> r = None
      | Some None \<Rightarrow>
          (\<exists>out. r = Some (Return EOF (emit b 0 (acc @ out))) \<or>
            (\<exists>v. r = Some (Next v) \<and> fv_st v \<noteq> STATE_STRING \<and> fv_buf v = emit b 0 (acc @ out)))
      | Some (Some out) \<Rightarrow> (\<exists>args. r = Some (Next (between b (acc @ out) args))))"

lemma agrees_shift: "agrees b (acc @ cs) q r \<Longrightarrow> agrees b acc (map_option (map_option ((@) cs)) q) r"
proof (cases "q = Some None")
  case True
  assume "agrees b (acc @ cs) q r"
  then obtain out where "r = Some (Return EOF (emit b 0 (acc @ cs @ out))) \<or>
      (\<exists>v. r = Some (Next v) \<and> fv_st v \<noteq> STATE_STRING \<and> fv_buf v = emit b 0 (acc @ cs @ out))"
    using True by (auto simp: agrees_def)
  then show ?thesis using True unfolding agrees_def by (auto intro!: exI [of _ "cs @ out"])
qed (auto simp: agrees_def split: option.splits)

lemma format_loop_zero:
  "format_loop ((between b acc args)\<lparr>fv_st := STATE_PLACEHOLDER_FLAG\<rparr>) cs =
   (case after_zero cs of (z, cs1) \<Rightarrow> format_loop (inside STATE_PLACEHOLDER_FLAG z 0 b acc args) cs1)"
proof -
  have i: "(between b acc args)\<lparr>fv_st := STATE_PLACEHOLDER_FLAG\<rparr> = inside STATE_PLACEHOLDER_FLAG False 0 b acc args"
    by (simp add: between_def inside_def)
  have f: "format_char (inside STATE_PLACEHOLDER_FLAG False 0 b acc args) (CHR ''0'') =
      Some (Next (inside STATE_PLACEHOLDER_FLAG True 0 b acc args))"
    by (simp add: format_char_def flag_step_def) (simp add: inside_def PLACEHOLDER_FLAG_ZERO_def)
  show ?thesis unfolding i using f by (auto simp: after_zero_def split: list.splits)
qed

lemma finish_agrees:
  assumes fin: "finish z 0 b acc args cs r"
    and rest: "\<And>t rest out args'. \<not> decimal (takeWhile is_digit cs) > int_max \<Longrightarrow> dropWhile is_digit cs = t # rest \<Longrightarrow>
      convert z (decimal (takeWhile is_digit cs)) t args = Some (Some (out, args')) \<Longrightarrow>
      agrees b (acc @ out) (fmt rest args') (format_loop (between b (acc @ out) args') rest)"
  shows "agrees b acc
     (if decimal (takeWhile is_digit cs) > int_max then None else case dropWhile is_digit cs of
        [] \<Rightarrow> Some None
      | t # rest \<Rightarrow>
          (case convert z (decimal (takeWhile is_digit cs)) t args of
             None \<Rightarrow> None
           | Some None \<Rightarrow> Some None
           | Some (Some (out, args)) \<Rightarrow> map_option (map_option ((@) out)) (fmt rest args))) r"
proof -
  have w: "decimal (takeWhile is_digit cs) = widened 0 (takeWhile is_digit cs)" by (simp add: decimal_def widened_def)
  show ?thesis
  proof (cases "decimal (takeWhile is_digit cs) > int_max")
    case True
    then show ?thesis using fin by (simp add: agrees_def finish_def w)
  next
    case narrow: False
    show ?thesis
    proof (cases "dropWhile is_digit cs")
      case Nil
      then show ?thesis using fin narrow unfolding finish_def w
        by (auto simp: agrees_def simp del: dropWhile_eq_Nil_conv intro!: exI [of _ "[]"])
    next
      case (Cons t ts)
      let ?v = "convert z (decimal (takeWhile is_digit cs)) t args"
      have r: "r = resume (step_of b acc ?v) ts" using fin Cons narrow unfolding finish_def w by simp
      consider out args' where "?v = Some (Some (out, args'))" | "?v = None" | "?v = Some None" by (metis option.exhaust surj_pair)
      then show ?thesis
      proof cases
        case (1 out args')
        then show ?thesis using narrow Cons rest [OF narrow Cons 1] agrees_shift [of b acc out]
          unfolding r by (simp add: step_of_def resume_def)
      qed (use narrow Cons in \<open>auto simp: r step_of_def resume_def agrees_def intro!: exI [of _ "[]"]\<close>)
    qed
  qed
qed

lemma format_loop_fmt: "agrees b acc (fmt cs args) (format_loop (between b acc args) cs)"
proof (induction cs args arbitrary: acc rule: fmt.induct)
  case (1 args)
  then show ?case by (auto simp: agrees_def)
next
  case (2 c cs args)
  show ?case
  proof (cases "c = CHR ''%''")
    case False
    have "put_char (between b acc args) c = between b (acc @ [c]) args"
      by (simp add: put_char_def between_def assign_emit)
    moreover have "fv_st (between b acc args) = STATE_STRING" by (simp add: between_def)
    ultimately have "format_loop (between b acc args) (c # cs) = format_loop (between b (acc @ [c]) args) cs"
      using False by (simp add: format_char_def)
    moreover have "agrees b (acc @ [c]) (fmt cs args) (format_loop (between b (acc @ [c]) args) cs)"
      by (rule "2.IH"(1) [OF False])
    ultimately have "agrees b acc (map_option (map_option ((@) [c])) (fmt cs args)) (format_loop (between b acc args) (c # cs))"
      using agrees_shift [of b acc "[c]"] by simp
    moreover have "(@) [c] = Cons c" by auto
    ultimately show ?thesis using False by (simp only: fmt.simps(2) not_False_eq_True if_True)
  next
    case True
    obtain z cs1 where z: "after_zero cs = (z, cs1)" by fastforce
    have st: "fv_st (between b acc args) = STATE_STRING" by (simp add: between_def)
    then have run: "format_loop (between b acc args) (c # cs) = format_loop (inside STATE_PLACEHOLDER_FLAG z 0 b acc args) cs1"
      using True format_loop_zero [of b acc args cs] z by (simp add: format_char_def)
    show ?thesis
    proof (cases "z \<and> fst (after_zero cs1)")
      case bad: True
      then obtain cs2 where "cs1 = CHR ''0'' # cs2" by (auto simp: after_zero_def split: list.splits if_splits)
      then have "format_loop (inside STATE_PLACEHOLDER_FLAG z 0 b acc args) cs1 = Some (Return EOF (emit b 0 acc))"
        using bad by (simp add: format_char_def flag_step_def)
      then show ?thesis using run bad True z by (simp add: fmt.simps(2) agrees_def exI [of _ "[]"])
    next
      case ok: False
      have nz: "\<not> fst (after_zero cs1)" using ok z by (auto simp: after_zero_def split: list.splits if_splits)
      let ?r = "format_loop (inside STATE_PLACEHOLDER_FLAG z 0 b acc args) cs1"
      have fin: "finish z 0 b acc args cs1 ?r" using nz by (rule format_loop_flag)
      have eq: "fmt (c # cs) args = (if decimal (takeWhile is_digit cs1) > int_max then None else case dropWhile is_digit cs1 of
            [] \<Rightarrow> Some None
          | t # rest \<Rightarrow>
              (case convert z (decimal (takeWhile is_digit cs1)) t args of
                 None \<Rightarrow> None
               | Some None \<Rightarrow> Some None
               | Some (Some (out, args)) \<Rightarrow> map_option (map_option ((@) out)) (fmt rest args)))"
        using True z ok by (auto simp: fmt.simps(2) simp del: dropWhile_eq_Nil_conv)
      show ?thesis unfolding run eq
      proof (rule finish_agrees [OF fin])
        fix t rest out args' assume "\<not> decimal (takeWhile is_digit cs1) > int_max" "dropWhile is_digit cs1 = t # rest"
          "convert z (decimal (takeWhile is_digit cs1)) t args = Some (Some (out, args'))"
        then show "agrees b (acc @ out) (fmt rest args') (format_loop (between b (acc @ out) args') rest)"
          using True z ok by (intro "2.IH"(2)) auto
      qed
    qed
  qed
qed

subsection \<open>Properties\<close>

definition initial_vars :: "(nat \<Rightarrow> char) \<Rightarrow> nat \<Rightarrow> va_arg list \<Rightarrow> format_vars" where
  "initial_vars str sz ap = between \<lparr>buf_data = str, buf_size = sz\<rparr> [] ap"

lemma vsnprintf_run:
  "sz \<le> INT_MAX \<Longrightarrow> vsnprintf str sz format ap =
     (case format_loop (initial_vars str sz ap) format of
        None \<Rightarrow> None
      | Some (Return r buf) \<Rightarrow> Some (r, buf_data buf)
      | Some (Next v) \<Rightarrow>
          if fv_st v \<noteq> STATE_STRING then Some (EOF, buf_data (fv_buf v))
          else
            let (ok, buf) = assign (fv_buf v) (fv_index v) (CHR 0x00);
                buf = (if \<not> ok then snd (assign buf (buf_size buf + 2 ^ 32 - 1) (CHR 0x00)) else buf)
            in Some (signed_take_bit 31 (int (fv_index v)), buf_data buf))"
  by (simp add: vsnprintf_def initial_vars_def between_def not_less [symmetric] split: option.splits format_step.splits)

definition terminated :: "string \<Rightarrow> nat \<Rightarrow> (nat \<Rightarrow> char) \<Rightarrow> nat \<Rightarrow> char" where
  "terminated out sz str = (\<lambda>i.
     if sz \<le> i then str i
     else if i < length out \<and> i < sz - 1 then out ! i
     else if i = min (length out) (sz - 1) then CHR 0x00
     else str i)"

text \<open>The buffer after the NUL at the end, whatever is in it.\<close>

definition ended :: "buffer \<Rightarrow> nat \<Rightarrow> buffer" where
  "ended b i =
     (let (ok, buf) = assign b i (CHR 0x00)
      in if \<not> ok then snd (assign buf (buf_size buf + 2 ^ 32 - 1) (CHR 0x00)) else buf)"

lemma last_index: "0 < sz \<Longrightarrow> sz \<le> INT_MAX \<Longrightarrow> (sz + 2 ^ 32 - 1) mod 2 ^ 32 = sz - 1"
proof -
  assume "0 < sz" "sz \<le> INT_MAX"
  then have "sz + 2 ^ 32 - 1 = (sz - 1) + 2 ^ 32" "sz - 1 < 2 ^ 32" by (simp_all add: INT_MAX_def)
  then show ?thesis by (metis mod_add_self2 mod_less)
qed

lemma ended_nul:
  assumes "0 < buf_size b" "buf_size b \<le> INT_MAX"
  shows "\<exists>j < buf_size b. buf_data (ended b i) j = CHR 0x00"
proof (cases "i mod 2 ^ 32 < buf_size b")
  case True
  then show ?thesis by (intro exI [of _ "i mod 2 ^ 32"]) (simp add: ended_def assign_def Let_def)
next
  case False
  then show ?thesis using last_index [OF assms] assms(1)
    by (intro exI [of _ "buf_size b - 1"]) (simp add: ended_def assign_def Let_def)
qed

lemma ended_outside: "buf_size b \<le> j \<Longrightarrow> buf_data (ended b i) j = buf_data b j"
  by (auto simp: ended_def assign_def Let_def)

lemma terminate_emit:
  assumes "length out \<le> INT_MAX" "sz \<le> INT_MAX"
  shows "buf_data (ended (emit \<lparr>buf_data = str, buf_size = sz\<rparr> 0 out) (length out)) = terminated out sz str"
proof
  fix j
  let ?b = "emit \<lparr>buf_data = str, buf_size = sz\<rparr> 0 out"
  have l: "length out mod 2 ^ 32 = length out" using assms(1) by (simp add: INT_MAX_def)
  have d: "buf_data ?b j = (if j < length out \<and> j < sz then out ! j else str j)" using emit_data [of 0 out _ j] assms(1) by (simp add: INT_MAX_def)
  show "buf_data (ended ?b (length out)) j = terminated out sz str j"
  proof (cases "sz = 0")
    case True
    then show ?thesis using ended_outside [of ?b j] d by (simp add: terminated_def)
  next
    case False
    then have "(sz + 2 ^ 32 - 1) mod 2 ^ 32 = sz - 1" using last_index assms(2) by simp
    then show ?thesis using False l d unfolding ended_def assign_def Let_def terminated_def by (auto simp: min_def)
  qed
qed

lemma vsnprintf_out:
  assumes "sz \<le> INT_MAX" "fmt format ap = Some (Some out)"
  shows "vsnprintf str sz format ap = Some (signed_take_bit 31 (int (length out)), buf_data (ended (emit \<lparr>buf_data = str, buf_size = sz\<rparr> 0 out) (length out)))"
proof -
  let ?b = "\<lparr>buf_data = str, buf_size = sz\<rparr>"
  have "agrees ?b [] (fmt format ap) (format_loop (initial_vars str sz ap) format)"
    unfolding initial_vars_def by (rule format_loop_fmt)
  then obtain args where run: "format_loop (initial_vars str sz ap) format = Some (Next (between ?b out args))"
    using assms(2) by (auto simp: agrees_def)
  show ?thesis unfolding vsnprintf_run [OF assms(1)] run by (simp add: between_def ended_def Let_def split: prod.splits)
qed

lemma vsnprintf_fmt:
  assumes "sz \<le> INT_MAX"
  shows "case fmt format ap of
      None \<Rightarrow> vsnprintf str sz format ap = None
    | Some None \<Rightarrow> (\<exists>str'. vsnprintf str sz format ap = Some (EOF, str'))
    | Some (Some out) \<Rightarrow> (\<exists>str'. vsnprintf str sz format ap = Some (signed_take_bit 31 (int (length out)), str') \<and>
        (0 < sz \<longrightarrow> (\<exists>j < sz. str' j = CHR 0x00))) \<and>
        (length out \<le> INT_MAX \<longrightarrow> vsnprintf str sz format ap = Some (int (length out), terminated out sz str))"
proof -
  let ?b = "\<lparr>buf_data = str, buf_size = sz\<rparr>"
  have a: "agrees ?b [] (fmt format ap) (format_loop (initial_vars str sz ap) format)"
    unfolding initial_vars_def by (rule format_loop_fmt)
  consider "fmt format ap = None" | "fmt format ap = Some None" | out where "fmt format ap = Some (Some out)" by (metis option.exhaust)
  then show ?thesis
  proof cases
    case (3 out)
    have "signed_take_bit 31 (int (length out)) = int (length out)" if "length out \<le> INT_MAX"
      using that by (intro signed_take_bit_int_eq_self) (simp_all add: INT_MAX_def)
    then show ?thesis using 3 vsnprintf_out [OF assms 3] terminate_emit [OF _ assms] ended_nul [of "emit ?b 0 out" "length out"] assms by auto
  qed (use a in \<open>auto simp: vsnprintf_run [OF assms] agrees_def\<close>)
qed

text \<open>
  C31: \<^verbatim>\<open>vsnprintf\<close> computes the reference formatting.  For a well-formed format and matching
  arguments it returns the length of the whole output and leaves the output, cut to the buffer and
  always terminated by a NUL, in the buffer, if that length is within the range of \<^verbatim>\<open>int\<close>.  Of a longer output it
  returns the length as 32 bits with a sign, and still there is a NUL within the buffer.  For a malformed format it
  returns \<^verbatim>\<open>EOF\<close>.  \<^const>\<open>fmt\<close> is undefined only for missing or wrong arguments, for \<open>%d\<close> of the least
  integer, and for widths and strings beyond the range of \<^verbatim>\<open>int\<close>.
\<close>

theorem vsnprintf_correct:
  assumes "sz \<le> INT_MAX"
  shows "case fmt format ap of
      None \<Rightarrow> vsnprintf str sz format ap = None
    | Some None \<Rightarrow> (\<exists>str'. vsnprintf str sz format ap = Some (EOF, str'))
    | Some (Some out) \<Rightarrow> (\<exists>str'. vsnprintf str sz format ap = Some (signed_take_bit 31 (int (length out)), str') \<and>
        (0 < sz \<longrightarrow> (\<exists>j < sz. str' j = CHR 0x00))) \<and>
        (length out \<le> INT_MAX \<longrightarrow> vsnprintf str sz format ap = Some (int (length out), terminated out sz str))"
  using assms by (rule vsnprintf_fmt)

theorem vsnprintf_correct_witness:
  "vsnprintf (\<lambda>_. CHR ''z'') 8 ''%s=%04d;'' [String_Arg ''ab'', Word_Arg (- 7)] =
     Some (8, terminated ''ab=-007;'' 8 (\<lambda>_. CHR ''z''))"
proof -
  have "fmt ''%s=%04d;'' [String_Arg ''ab'', Word_Arg (- 7)] = Some (Some ''ab=-007;'')"
    by code_simp
  then show ?thesis using vsnprintf_correct [where sz = 8 and format = "''%s=%04d;''" and ap = "[String_Arg ''ab'', Word_Arg (- 7)]" and str = "\<lambda>_. CHR ''z''"]
    by (simp add: INT_MAX_def)
qed

lemma vsnprintf_outside:
  assumes "vsnprintf str sz format ap = Some (r, str')" "sz \<le> i"
  shows "str' i = str i"
proof (cases "sz \<le> INT_MAX")
  case False
  then show ?thesis using assms(1) by (simp add: vsnprintf_def)
next
  case True
  let ?b = "\<lparr>buf_data = str, buf_size = sz\<rparr>"
  have out: "buf_data (emit ?b 0 cs) i = str i" for cs using assms(2) emit_outside [of ?b i] by simp
  have a: "agrees ?b [] (fmt format ap) (format_loop (initial_vars str sz ap) format)"
    unfolding initial_vars_def by (rule format_loop_fmt)
  show ?thesis
  proof (cases "\<exists>out. fmt format ap = Some (Some out)")
    case ok: True
    then show ?thesis using vsnprintf_out [OF True] assms ended_outside out by fastforce
  next
    case False
    then have "fmt format ap = None \<or> fmt format ap = Some None" by (metis option.exhaust)
    then show ?thesis using a out assms(1) unfolding vsnprintf_run [OF True] agrees_def by auto
  qed
qed

text \<open>
  C36: Whatever the format and the arguments, \<^verbatim>\<open>vsnprintf\<close> writes nothing at or beyond the given
  size: when it returns, with an error or not, the memory behind the buffer is unchanged.
\<close>

theorem vsnprintf_in_bounds:
  assumes "vsnprintf str sz format ap = Some (r, str')" "sz \<le> i"
  shows "str' i = str i"
  using assms by (rule vsnprintf_outside)

theorem vsnprintf_in_bounds_witness:
  "\<exists>r str'. vsnprintf (\<lambda>_. CHR ''z'') 2 ''%x'' [Word_Arg 0xabc] = Some (r, str') \<and> str' 2 = CHR ''z''"
proof -
  have "\<exists>r str'. vsnprintf (\<lambda>_. CHR ''z'') 2 ''%x'' [Word_Arg 0xabc] = Some (r, str')"
  proof -
    have "fmt ''%x'' [Word_Arg 0xabc] = Some (Some ''abc'')"
      by (simp add: fmt.simps(2) after_zero_def convert_def is_digit_def decimal_def pad_left_def digits.simps int_max_def)
    then show ?thesis using vsnprintf_out [of 2 "''%x''" "[Word_Arg 0xabc]" "''abc''"] by (simp add: INT_MAX_def)
  qed
  then show ?thesis using vsnprintf_in_bounds [of "\<lambda>_. CHR ''z''" 2 "''%x''" "[Word_Arg 0xabc]" _ _ 2] by fastforce
qed

end
