(* ===== verification/Cy_Waitq.thy ===== *)
theory Cy_Waitq
  imports Cy_Prelude
begin

text \<open>
  The wait queues of \<^verbatim>\<open>process.c\<close>.  A queue is the list of the processes of its entries, the head
  first: \<^verbatim>\<open>list_add\<close> puts an entry in front, and \<^verbatim>\<open>process_wake\<close> takes the front one.  The states of
  all processes are a function of their ids.
\<close>

type_synonym pid = nat
type_synonym waitq = "pid list"

datatype process_state = STATE_READY | STATE_BLOCKED | STATE_DEAD

type_synonym states = "pid \<Rightarrow> process_state"

definition process_waitq_init :: waitq where
  "process_waitq_init = []"

text \<open>
  The part of \<^verbatim>\<open>process_sleep\<close> before the processor is given away: the process is blocked and its
  entry is on the queue.
\<close>

definition block_on :: "pid \<Rightarrow> waitq \<Rightarrow> states \<Rightarrow> waitq \<times> states" where
  "block_on me q st = (me # q, st(me := STATE_BLOCKED))"

definition process_wake :: "waitq \<Rightarrow> states \<Rightarrow> bool \<times> waitq \<times> states" where
  "process_wake q st =
     (case q of
        [] \<Rightarrow> (False, [], st)
      | p # q \<Rightarrow> (True, q, st(p := STATE_READY)))"

text \<open>\<open>while (process_wake(waitq));\<close>\<close>

fun wake_all :: "waitq \<Rightarrow> states \<Rightarrow> waitq \<times> states" where
  "wake_all [] st = ([], st)"
| "wake_all (p # q) st = wake_all q (st(p := STATE_READY))"

lemma process_wake_simps [simp]:
  "process_wake [] st = (False, [], st)" "process_wake (p # q) st = (True, q, st(p := STATE_READY))"
  by (simp_all add: process_wake_def)

lemma wake_all_eq: "wake_all q st = ([], \<lambda>p. if p \<in> set q then STATE_READY else st p)"
  by (induction q arbitrary: st) auto

text \<open>The loop of wake-ups is one after the other until the queue says it is empty.\<close>

lemma wake_all_step:
  "wake_all q st = (let (woken, q', st') = process_wake q st in if woken then wake_all q' st' else (q', st'))"
  by (cases q) auto

end
