(* ===== verification/Cy_Unix.thy ===== *)
theory Cy_Unix
  imports Cy_Prelude
begin

text \<open>The constants of \<^verbatim>\<open>lib/unix.h\<close> that the kernel tests (the flags are octal in the source).\<close>

definition O_SEARCH :: u32 where "O_SEARCH = 0x200000"
definition O_ACCMODE :: u32 where "O_ACCMODE = 3 OR O_SEARCH"
definition O_RDONLY :: u32 where "O_RDONLY = 0"
definition O_WRONLY :: u32 where "O_WRONLY = 1"
definition O_RDWR :: u32 where "O_RDWR = 2"
definition O_CREAT :: u32 where "O_CREAT = 0x40"
definition O_EXCL :: u32 where "O_EXCL = 0x80"
definition O_TRUNC :: u32 where "O_TRUNC = 0x200"
definition O_APPEND :: u32 where "O_APPEND = 0x400"
definition O_NONBLOCK :: u32 where "O_NONBLOCK = 0x800"
definition O_DSYNC :: u32 where "O_DSYNC = 0x1000"
definition O_SYNC :: u32 where "O_SYNC = 0x101000"
definition O_CLOEXEC :: u32 where "O_CLOEXEC = 0x80000"
definition O_ASYNC :: u32 where "O_ASYNC = 0x2000"
definition O_DIRECT :: u32 where "O_DIRECT = 0x10000"
definition O_NOATIME :: u32 where "O_NOATIME = 0x40000"
definition F_DUPFD :: u32 where "F_DUPFD = 0"
definition F_GETFD :: u32 where "F_GETFD = 1"
definition F_SETFD :: u32 where "F_SETFD = 2"
definition F_GETFL :: u32 where "F_GETFL = 3"
definition F_SETFL :: u32 where "F_SETFL = 4"
definition FD_CLOEXEC :: u32 where "FD_CLOEXEC = 1"
definition TCGETS :: u32 where "TCGETS = 0x5401"
definition TCSETS :: u32 where "TCSETS = 0x5402"
definition TCSETSW :: u32 where "TCSETSW = 0x5403"
definition TCSETSF :: u32 where "TCSETSF = 0x5404"
definition TIOCGWINSZ :: u32 where "TIOCGWINSZ = 0x5413"

lemmas unix_flags = O_SEARCH_def O_ACCMODE_def O_RDONLY_def O_WRONLY_def O_RDWR_def O_CREAT_def O_EXCL_def O_TRUNC_def O_APPEND_def O_NONBLOCK_def O_DSYNC_def O_SYNC_def O_CLOEXEC_def O_ASYNC_def O_DIRECT_def O_NOATIME_def F_DUPFD_def F_GETFD_def F_SETFD_def F_GETFL_def F_SETFL_def FD_CLOEXEC_def TCGETS_def TCSETS_def TCSETSW_def TCSETSF_def TIOCGWINSZ_def

end
