(* ===== verification/Cy_Pipe.thy ===== *)
theory Cy_Pipe
  imports Cy_Waitq Cy_Unix Cy_Buddy
begin

text \<open>
  \<^verbatim>\<open>pipe.c\<close>: a ring buffer of one page with the counts of its readers and writers.  A call runs until
  it returns or gives the processor away on a wait queue; it continues with what it has copied so far.
  \<^const>\<open>None\<close> is a failed \<^verbatim>\<open>SYSTEM_BUG_ON\<close>, which halts the kernel.
\<close>

record pipe =
  p_page :: nat
  p_buf :: "nat \<Rightarrow> u8"
  p_offset :: nat
  p_length :: nat
  p_readers :: nat
  p_writers :: nat
  p_readers_waitq :: waitq
  p_writers_waitq :: waitq

text \<open>The page is the one \<^verbatim>\<open>buddy_alloc\<close> gave, with whatever it holds.\<close>

definition pipe_create :: "nat \<Rightarrow> (nat \<Rightarrow> u8) \<Rightarrow> pipe" where
  "pipe_create page buf =
     \<lparr>p_page = page, p_buf = buf, p_offset = 0, p_length = 0, p_readers = 1, p_writers = 1,
      p_readers_waitq = process_waitq_init, p_writers_waitq = process_waitq_init\<rparr>"

datatype read_outcome = Read_Return nat "u8 list" | Read_Sleep "u8 list" | Read_Next "u8 list"

datatype write_outcome = Write_Return nat | Write_Broken | Write_Sleep nat | Write_Next nat

text \<open>One round of \<open>while (true)\<close> in \<^verbatim>\<open>pipe_read\<close>; \<open>got\<close> is what earlier rounds have copied.\<close>

definition pipe_read_round :: "pid \<Rightarrow> nat \<Rightarrow> u8 list \<Rightarrow> states \<Rightarrow> pipe \<Rightarrow> (read_outcome \<times> states \<times> pipe) option" where
  "pipe_read_round me sz got st p =
     (if p_length p = 0 then
        if p_writers p = 0 then Some (Read_Return 0 got, st, p)
        else
          let (q, st) = block_on me (p_readers_waitq p) st
          in Some (Read_Sleep got, st, p\<lparr>p_readers_waitq := q\<rparr>)
      else
        let start = (p_offset p + p_length p) mod PAGE_SIZE;
            remaining = (if start > p_offset p then start - p_offset p else PAGE_SIZE - p_offset p);
            len = (if remaining > sz - length got then sz - length got else remaining);
            got = got @ map (\<lambda>i. p_buf p (p_offset p + i)) [0..<len];
            p = p\<lparr>p_offset := (p_offset p + len) mod PAGE_SIZE, p_length := p_length p - len\<rparr>
        in if p_offset p \<ge> PAGE_SIZE \<or> p_length p \<ge> PAGE_SIZE then None
           else
             let (_, q, st) = process_wake (p_writers_waitq p) st;
                 p = p\<lparr>p_writers_waitq := q\<rparr>
             in Some (if p_length p = 0 \<or> sz = length got then Read_Return (length got) got else Read_Next got, st, p))"

partial_function (option) pipe_read :: "pid \<Rightarrow> nat \<Rightarrow> u8 list \<Rightarrow> states \<Rightarrow> pipe \<Rightarrow> (read_outcome \<times> states \<times> pipe) option" where
  "pipe_read me sz got st p =
     Option.bind (pipe_read_round me sz got st p) (\<lambda>(out, st, p).
       case out of Read_Next got \<Rightarrow> pipe_read me sz got st p | _ \<Rightarrow> Some (out, st, p))"

text \<open>
  One round of \<^verbatim>\<open>pipe_write\<close>.  A pipe without readers sends \<^verbatim>\<open>SIGPIPE\<close> to the caller and returns
  \<^verbatim>\<open>-EPIPE\<close>, whatever has been written before: \<^const>\<open>Write_Broken\<close>.
\<close>

definition pipe_write_round :: "pid \<Rightarrow> u8 list \<Rightarrow> nat \<Rightarrow> states \<Rightarrow> pipe \<Rightarrow> (write_outcome \<times> states \<times> pipe) option" where
  "pipe_write_round me data written st p =
     (if p_readers p = 0 then Some (Write_Broken, st, p)
      else if p_length p = PAGE_SIZE then
        let (q, st) = block_on me (p_writers_waitq p) st
        in Some (Write_Sleep written, st, p\<lparr>p_writers_waitq := q\<rparr>)
      else
        let start = (p_offset p + p_length p) mod PAGE_SIZE;
            remaining = (if start < p_offset p then p_offset p - start else PAGE_SIZE - start);
            len = (if remaining < length data - written then remaining else length data - written);
            p = p\<lparr>p_buf := (\<lambda>i. if start \<le> i \<and> i < start + len then data ! (written + (i - start)) else p_buf p i)\<rparr>;
            written = written + len;
            p = p\<lparr>p_length := p_length p + len\<rparr>;
            (_, q, st) = process_wake (p_readers_waitq p) st;
            p = p\<lparr>p_readers_waitq := q\<rparr>
        in if p_length p > PAGE_SIZE then None
           else Some (if length data = written then Write_Return written else Write_Next written, st, p))"

partial_function (option) pipe_write :: "pid \<Rightarrow> u8 list \<Rightarrow> nat \<Rightarrow> states \<Rightarrow> pipe \<Rightarrow> (write_outcome \<times> states \<times> pipe) option" where
  "pipe_write me data written st p =
     Option.bind (pipe_write_round me data written st p) (\<lambda>(out, st, p).
       case out of Write_Next written \<Rightarrow> pipe_write me data written st p | _ \<Rightarrow> Some (out, st, p))"

definition pipe_countup :: "pipe \<Rightarrow> u32 \<Rightarrow> pipe option" where
  "pipe_countup p flags =
     (if flags AND O_ACCMODE = O_RDONLY then Some (p\<lparr>p_readers := p_readers p + 1\<rparr>)
      else if flags AND O_ACCMODE = O_WRONLY then Some (p\<lparr>p_writers := p_writers p + 1\<rparr>)
      else None)"

text \<open>The pipe after a release, or \<^const>\<open>None\<close> inside when it was freed with its page.\<close>

definition pipe_release :: "pipe \<Rightarrow> u32 \<Rightarrow> states \<Rightarrow> (pipe option \<times> states) option" where
  "pipe_release p flags st =
     map_option (\<lambda>(p, st). (if p_readers p = 0 \<and> p_writers p = 0 then None else Some p, st))
       (if flags AND O_ACCMODE = O_RDONLY then
          if p_readers p = 0 then None
          else
            let p = p\<lparr>p_readers := p_readers p - 1\<rparr>
            in if p_readers p = 0 then
                 let (q, st) = wake_all (p_writers_waitq p) st in Some (p\<lparr>p_writers_waitq := q\<rparr>, st)
               else Some (p, st)
        else if flags AND O_ACCMODE = O_WRONLY then
          if p_writers p = 0 then None
          else
            let p = p\<lparr>p_writers := p_writers p - 1\<rparr>
            in if p_writers p = 0 then
                 let (q, st) = wake_all (p_readers_waitq p) st in Some (p\<lparr>p_readers_waitq := q\<rparr>, st)
               else Some (p, st)
        else None)"


subsection \<open>The buffer as a queue of bytes\<close>

definition pipe_inv :: "pipe \<Rightarrow> bool" where
  "pipe_inv p \<longleftrightarrow> p_offset p < PAGE_SIZE \<and> p_length p \<le> PAGE_SIZE"

definition content :: "pipe \<Rightarrow> u8 list" where
  "content p = map (\<lambda>i. p_buf p ((p_offset p + i) mod PAGE_SIZE)) [0..<p_length p]"

lemma length_content [simp]: "length (content p) = p_length p"
  by (simp add: content_def)

lemma content_cong:
  "content (p\<lparr>p_readers_waitq := a\<rparr>) = content p" "content (p\<lparr>p_writers_waitq := a\<rparr>) = content p"
  "content (p\<lparr>p_readers := n\<rparr>) = content p" "content (p\<lparr>p_writers := n\<rparr>) = content p"
  by (simp_all add: content_def)

lemma pipe_inv_cong:
  "pipe_inv (p\<lparr>p_readers_waitq := a\<rparr>) = pipe_inv p" "pipe_inv (p\<lparr>p_writers_waitq := a\<rparr>) = pipe_inv p"
  "pipe_inv (p\<lparr>p_readers := n\<rparr>) = pipe_inv p" "pipe_inv (p\<lparr>p_writers := n\<rparr>) = pipe_inv p"
  by (simp_all add: pipe_inv_def)

lemmas pipe_cong [simp] = content_cong pipe_inv_cong

definition advance :: "pipe \<Rightarrow> nat \<Rightarrow> pipe" where
  "advance p k = p\<lparr>p_offset := (p_offset p + k) mod PAGE_SIZE, p_length := p_length p - k\<rparr>"

lemma advance_queue:
  assumes "pipe_inv p" "k \<le> p_length p"
  shows "pipe_inv (advance p k)" "content (advance p k) = drop k (content p)"
proof -
  show "pipe_inv (advance p k)" using assms by (auto simp: pipe_inv_def advance_def PAGE_SIZE_def)
  show "content (advance p k) = drop k (content p)"
    using assms(2) by (intro nth_equalityI) (simp_all add: content_def advance_def less_diff_conv mod_simps ac_simps)
qed

lemma take_content:
  assumes "k \<le> p_length p" "k \<le> PAGE_SIZE - p_offset p"
  shows "map (\<lambda>i. p_buf p (p_offset p + i)) [0..<k] = take k (content p)"
  using assms by (intro nth_equalityI) (simp_all add: content_def)

definition extend :: "pipe \<Rightarrow> u8 list \<Rightarrow> pipe" where
  "extend p xs =
     (let start = (p_offset p + p_length p) mod PAGE_SIZE
      in p\<lparr>p_buf := (\<lambda>i. if start \<le> i \<and> i < start + length xs then xs ! (i - start) else p_buf p i),
           p_length := p_length p + length xs\<rparr>)"

lemma extend_queue:
  assumes inv: "pipe_inv p" and l: "p_length p + length xs \<le> PAGE_SIZE"
    and wrap: "(p_offset p + p_length p) mod PAGE_SIZE + length xs \<le> PAGE_SIZE"
  shows "pipe_inv (extend p xs)" "content (extend p xs) = content p @ xs"
proof -
  let ?start = "(p_offset p + p_length p) mod PAGE_SIZE"
  show "pipe_inv (extend p xs)" using inv l by (simp add: pipe_inv_def extend_def Let_def)
  have off: "p_offset p < PAGE_SIZE" using inv by (simp add: pipe_inv_def)
  have st: "?start = (if p_offset p + p_length p < PAGE_SIZE then p_offset p + p_length p else p_offset p + p_length p - PAGE_SIZE)"
    using inv l off by (auto simp: pipe_inv_def PAGE_SIZE_def mod_if)
  show "content (extend p xs) = content p @ xs"
  proof (rule nth_equalityI)
    fix i assume i: "i < length (content (extend p xs))"
    then have il: "i < p_length p + length xs" by (simp add: extend_def Let_def)
    let ?j = "(p_offset p + i) mod PAGE_SIZE"
    have j: "?j = (if p_offset p + i < PAGE_SIZE then p_offset p + i else p_offset p + i - PAGE_SIZE)"
      using il l off by (auto simp: PAGE_SIZE_def mod_if)
    have "content (extend p xs) ! i = (if ?start \<le> ?j \<and> ?j < ?start + length xs then xs ! (?j - ?start) else p_buf p ?j)"
      using il by (simp add: content_def extend_def Let_def)
    also have "\<dots> = (if i < p_length p then p_buf p ?j else xs ! (i - p_length p))"
    proof (cases "i < p_length p")
      case True
      then have "\<not> (?start \<le> ?j \<and> ?j < ?start + length xs)" using j st l off wrap by (auto split: if_splits)
      then show ?thesis using True by auto
    next
      case False
      then have "?start \<le> ?j" "?j - ?start = i - p_length p" "?j < ?start + length xs"
        using j st il off wrap l by (auto split: if_splits)
      then show ?thesis using False by simp
    qed
    also have "\<dots> = (content p @ xs) ! i" by (simp add: nth_append content_def)
    finally show "content (extend p xs) ! i = (content p @ xs) ! i" .
  qed (simp add: extend_def Let_def)
qed

subsection \<open>Rounds\<close>

lemma read_remaining:
  assumes "pipe_inv p" "0 < p_length p"
  shows "(if (p_offset p + p_length p) mod PAGE_SIZE > p_offset p then (p_offset p + p_length p) mod PAGE_SIZE - p_offset p
      else PAGE_SIZE - p_offset p) = min (p_length p) (PAGE_SIZE - p_offset p)"
  using assms by (auto simp: pipe_inv_def PAGE_SIZE_def mod_if)

lemma write_remaining:
  assumes "pipe_inv p" "p_length p < PAGE_SIZE"
  defines "start \<equiv> (p_offset p + p_length p) mod PAGE_SIZE"
  shows "(if start < p_offset p then p_offset p - start else PAGE_SIZE - start) = min (PAGE_SIZE - p_length p) (PAGE_SIZE - start)"
proof -
  have "start = (if p_offset p + p_length p < PAGE_SIZE then p_offset p + p_length p else p_offset p + p_length p - PAGE_SIZE)"
    using assms(1,2) unfolding start_def by (auto simp: pipe_inv_def mod_if)
  then show ?thesis using assms(1,2) unfolding pipe_inv_def by (cases "p_offset p + p_length p < PAGE_SIZE") auto
qed

lemma pipe_read_round_data:
  assumes inv: "pipe_inv p" "0 < p_length p" and sz: "length got < sz"
  defines "k \<equiv> min (sz - length got) (min (p_length p) (PAGE_SIZE - p_offset p))"
  shows "pipe_read_round me sz got st p =
      Some (if p_length p = k \<or> sz = length got + k then Read_Return (length got + k) (got @ take k (content p))
            else Read_Next (got @ take k (content p)),
            snd (snd (process_wake (p_writers_waitq p) st)),
            (advance p k)\<lparr>p_writers_waitq := tl (p_writers_waitq p)\<rparr>)" and "0 < k"
proof -
  let ?r = "min (p_length p) (PAGE_SIZE - p_offset p)"
  have k: "(if ?r > sz - length got then sz - length got else ?r) = k" by (auto simp: k_def)
  have kl: "k \<le> p_length p" "k \<le> PAGE_SIZE - p_offset p" by (auto simp: k_def)
  show "0 < k" using inv sz by (simp add: k_def pipe_inv_def)
  then have "\<not> (PAGE_SIZE \<le> (p_offset p + k) mod PAGE_SIZE \<or> PAGE_SIZE \<le> p_length p - k)"
    using inv by (auto simp: pipe_inv_def PAGE_SIZE_def not_le)
  then show "pipe_read_round me sz got st p =
      Some (if p_length p = k \<or> sz = length got + k then Read_Return (length got + k) (got @ take k (content p))
            else Read_Next (got @ take k (content p)),
            snd (snd (process_wake (p_writers_waitq p) st)),
            (advance p k)\<lparr>p_writers_waitq := tl (p_writers_waitq p)\<rparr>)"
    using kl inv(2) unfolding pipe_read_round_def Let_def read_remaining [OF inv] k take_content [OF kl]
    by (cases "p_writers_waitq p") (auto simp: advance_def)
qed

text \<open>A read of no bytes leaves the data alone; on a full pipe it trips the kernel's own check.\<close>

lemma pipe_read_round_zero:
  assumes "pipe_inv p" "0 < p_length p"
  shows "pipe_read_round me 0 [] st p =
    (if p_length p = PAGE_SIZE then None
     else Some (Read_Return 0 [], snd (snd (process_wake (p_writers_waitq p) st)), p\<lparr>p_writers_waitq := tl (p_writers_waitq p)\<rparr>))"
  using assms by (cases "p_writers_waitq p") (auto simp: pipe_read_round_def Let_def pipe_inv_def)

lemma pipe_write_round_data:
  assumes inv: "pipe_inv p" "p_length p < PAGE_SIZE" and r: "0 < p_readers p" and w: "written \<le> length data"
  defines "k \<equiv> min (length data - written) (min (PAGE_SIZE - p_length p) (PAGE_SIZE - (p_offset p + p_length p) mod PAGE_SIZE))"
  shows "pipe_write_round me data written st p =
      Some (if length data = written + k then Write_Return (written + k) else Write_Next (written + k),
            snd (snd (process_wake (p_readers_waitq p) st)),
            (extend p (take k (drop written data)))\<lparr>p_readers_waitq := tl (p_readers_waitq p)\<rparr>)"
    and "pipe_inv (extend p (take k (drop written data)))"
    and "content (extend p (take k (drop written data))) = content p @ take k (drop written data)"
    and "written < length data \<Longrightarrow> 0 < k"
proof -
  let ?start = "(p_offset p + p_length p) mod PAGE_SIZE"
  let ?r = "min (PAGE_SIZE - p_length p) (PAGE_SIZE - ?start)"
  have k: "(if ?r < length data - written then ?r else length data - written) = k"
  proof -
    have "(if a < b then a else b) = min b a" for a b :: nat by auto
    then show ?thesis unfolding k_def .
  qed
  have kl: "length (take k (drop written data)) = k" by (simp add: k_def)
  have st: "?start < PAGE_SIZE" by (simp add: PAGE_SIZE_def)
  have b: "p_length p + k \<le> PAGE_SIZE" "?start + k \<le> PAGE_SIZE" using inv st unfolding k_def by linarith+
  show "pipe_inv (extend p (take k (drop written data)))"
    "content (extend p (take k (drop written data))) = content p @ take k (drop written data)"
    using extend_queue [OF inv(1)] b kl by simp_all
  show "written < length data \<Longrightarrow> 0 < k" using inv st by (simp add: k_def)
  have buf: "(\<lambda>i. if ?start \<le> i \<and> i < ?start + k then data ! (written + (i - ?start)) else p_buf p i) =
      (\<lambda>i. if ?start \<le> i \<and> i < ?start + length (take k (drop written data)) then take k (drop written data) ! (i - ?start) else p_buf p i)"
    unfolding kl using w by (intro ext) auto
  show "pipe_write_round me data written st p =
      Some (if length data = written + k then Write_Return (written + k) else Write_Next (written + k),
            snd (snd (process_wake (p_readers_waitq p) st)),
            (extend p (take k (drop written data)))\<lparr>p_readers_waitq := tl (p_readers_waitq p)\<rparr>)"
    using r inv(2) b(1) unfolding pipe_write_round_def Let_def write_remaining [OF inv] k buf extend_def kl
    by (cases "p_readers_waitq p") auto
qed

subsection \<open>Calls\<close>

text \<open>The states after the first \<open>n\<close> entries of a queue have been woken.\<close>

definition woken :: "nat \<Rightarrow> waitq \<Rightarrow> states \<Rightarrow> states" where
  "woken n q st = (\<lambda>x. if x \<in> set (take n q) then STATE_READY else st x)"

lemma woken_0 [simp]: "woken 0 q st = st"
  by (simp add: woken_def)

lemma wake_woken: "snd (snd (process_wake q st)) = woken 1 q st"
  by (cases q) (auto simp: woken_def)

lemma woken_tl: "woken n (tl q) (woken 1 q st) = woken (Suc n) q st"
  by (cases q) (auto simp: woken_def)

lemma advance_fields [simp]:
  "p_readers (advance p k) = p_readers p" "p_writers (advance p k) = p_writers p" "p_page (advance p k) = p_page p"
  "p_readers_waitq (advance p k) = p_readers_waitq p" "p_writers_waitq (advance p k) = p_writers_waitq p"
  "p_length (advance p k) = p_length p - k"
  by (simp_all add: advance_def)

lemma extend_fields [simp]:
  "p_readers (extend p xs) = p_readers p" "p_writers (extend p xs) = p_writers p" "p_page (extend p xs) = p_page p"
  "p_readers_waitq (extend p xs) = p_readers_waitq p" "p_writers_waitq (extend p xs) = p_writers_waitq p"
  "p_length (extend p xs) = p_length p + length xs"
  by (simp_all add: extend_def Let_def)

lemma pipe_read_takes:
  assumes "pipe_inv p" "0 < p_length p" "length got < sz"
  shows "\<exists>n p'. pipe_read me sz got st p =
      Some (Read_Return (min sz (length got + p_length p)) (got @ take (sz - length got) (content p)), woken (Suc n) (p_writers_waitq p) st, p') \<and>
      pipe_inv p' \<and> content p' = drop (sz - length got) (content p) \<and> p_writers_waitq p' = drop (Suc n) (p_writers_waitq p) \<and>
      p_readers_waitq p' = p_readers_waitq p \<and> p_readers p' = p_readers p \<and> p_writers p' = p_writers p \<and> p_page p' = p_page p"
  using assms
proof (induction "p_length p" arbitrary: p got st rule: less_induct)
  case less
  define k where "k = min (sz - length got) (min (p_length p) (PAGE_SIZE - p_offset p))"
  note r = pipe_read_round_data [OF less.prems, folded k_def, unfolded wake_woken]
  have kl: "k \<le> p_length p" "k \<le> sz - length got" by (auto simp: k_def)
  note a = advance_queue [OF less.prems(1) kl(1)]
  let ?p = "(advance p k)\<lparr>p_writers_waitq := tl (p_writers_waitq p)\<rparr>"
  have cp: "content ?p = drop k (content p)" "pipe_inv ?p" using a by simp_all
  show ?case
  proof (cases "p_length p = k \<or> sz = length got + k")
    case True
    then have "take (sz - length got) (content p) = take k (content p)" "drop (sz - length got) (content p) = drop k (content p)"
      using kl less.prems(3) by (auto simp: take_all_iff)
    moreover have "min sz (length got + p_length p) = length got + k" using True kl less.prems(3) by auto
    ultimately show ?thesis
      using True cp by (intro exI [of _ 0] exI [of _ ?p]) (simp add: pipe_read.simps [of me sz got] r drop_Suc)
  next
    case False
    let ?got = "got @ take k (content p)"
    have g: "length ?got = length got + k" using kl by simp
    have "p_length ?p < p_length p" "0 < p_length ?p" "length ?got < sz"
      using False kl r(2) less.prems(3) by (auto simp: g)
    then obtain n p' where ih: "pipe_read me sz ?got (woken 1 (p_writers_waitq p) st) ?p =
        Some (Read_Return (min sz (length ?got + p_length ?p)) (?got @ take (sz - length ?got) (content ?p)),
              woken (Suc n) (p_writers_waitq ?p) (woken 1 (p_writers_waitq p) st), p')"
      "pipe_inv p'" "content p' = drop (sz - length ?got) (content ?p)" "p_writers_waitq p' = drop (Suc n) (p_writers_waitq ?p)"
      "p_readers_waitq p' = p_readers_waitq p" "p_readers p' = p_readers p" "p_writers p' = p_writers p" "p_page p' = p_page p"
      using less.hyps [of ?p ?got "woken 1 (p_writers_waitq p) st"] cp(2) by auto
    have sk: "k + (sz - (length got + k)) = sz - length got" using kl less.prems(3) by simp
    have t: "?got @ take (sz - length ?got) (content ?p) = got @ take (sz - length got) (content p)"
      unfolding cp g using take_add [of k "sz - (length got + k)" "content p"] sk by simp
    have d: "drop (sz - length ?got) (content ?p) = drop (sz - length got) (content p)"
      unfolding cp g using sk by (simp add: add.commute)
    have m: "min sz (length ?got + p_length ?p) = min sz (length got + p_length p)" using kl by (simp add: g)
    have w: "p_writers_waitq ?p = tl (p_writers_waitq p)" by simp
    have "pipe_read me sz got st p = pipe_read me sz ?got (woken 1 (p_writers_waitq p) st) ?p"
      by (subst pipe_read.simps) (simp add: r False)
    then show ?thesis
      using ih [unfolded t d m w woken_tl] by (intro exI [of _ "Suc n"] exI [of _ p']) (simp add: drop_Suc)
  qed
qed

lemma pipe_write_puts:
  assumes "pipe_inv p" "p_length p < PAGE_SIZE" "0 < p_readers p" "written \<le> length data"
  shows "\<exists>n p'. pipe_write me data written st p =
      Some (if length data - written \<le> PAGE_SIZE - p_length p
            then (Write_Return (length data), woken (Suc n) (p_readers_waitq p) st, p')
            else (Write_Sleep (written + (PAGE_SIZE - p_length p)), (woken (Suc n) (p_readers_waitq p) st)(me := STATE_BLOCKED), p')) \<and>
      pipe_inv p' \<and> content p' = content p @ take (PAGE_SIZE - p_length p) (drop written data) \<and>
      p_writers_waitq p' = (if length data - written \<le> PAGE_SIZE - p_length p then [] else [me]) @ p_writers_waitq p \<and>
      p_readers_waitq p' = drop (Suc n) (p_readers_waitq p) \<and>
      p_readers p' = p_readers p \<and> p_writers p' = p_writers p \<and> p_page p' = p_page p"
  using assms
proof (induction "PAGE_SIZE - p_length p" arbitrary: p written st rule: less_induct)
  case less
  let ?start = "(p_offset p + p_length p) mod PAGE_SIZE"
  define k where "k = min (length data - written) (min (PAGE_SIZE - p_length p) (PAGE_SIZE - ?start))"
  note r = pipe_write_round_data [OF less.prems, folded k_def, unfolded wake_woken]
  have kl: "k \<le> PAGE_SIZE - p_length p" "k \<le> length data - written" by (auto simp: k_def)
  let ?xs = "take k (drop written data)"
  let ?p = "(extend p ?xs)\<lparr>p_readers_waitq := tl (p_readers_waitq p)\<rparr>"
  have xs: "length ?xs = k" using kl by simp
  have cp: "content ?p = content p @ ?xs" "pipe_inv ?p" "p_length ?p = p_length p + k" using r(2,3) xs by simp_all
  consider (all) "length data = written + k" | (full) "length data \<noteq> written + k" "p_length p + k = PAGE_SIZE"
    | (more) "length data \<noteq> written + k" "p_length p + k < PAGE_SIZE"
    using kl less.prems(2) by linarith
  then show ?case
  proof cases
    case all
    then have "take (PAGE_SIZE - p_length p) (drop written data) = ?xs" "length data - written \<le> PAGE_SIZE - p_length p"
      using kl by (simp_all add: take_all_iff)
    then show ?thesis
      using all cp by (intro exI [of _ 0] exI [of _ ?p]) (simp add: pipe_write.simps [of me data written] r drop_Suc)
  next
    case full
    let ?q = "?p\<lparr>p_writers_waitq := me # p_writers_waitq p\<rparr>"
    have k: "k = PAGE_SIZE - p_length p" "\<not> length data - written \<le> PAGE_SIZE - p_length p" using full kl less.prems(4) by linarith+
    have "pipe_write me data written st p = pipe_write me data (written + k) (woken 1 (p_readers_waitq p) st) ?p"
      by (subst pipe_write.simps) (simp add: r full)
    also have "\<dots> = Some (Write_Sleep (written + k), (woken 1 (p_readers_waitq p) st)(me := STATE_BLOCKED), ?q)"
      using full less.prems(3) cp(3) by (subst pipe_write.simps) (simp add: pipe_write_round_def block_on_def xs del: length_take)
    finally show ?thesis
      using cp k by (intro exI [of _ 0] exI [of _ ?q]) (simp add: drop_Suc)
  next
    case more
    then have "PAGE_SIZE - p_length ?p < PAGE_SIZE - p_length p" "p_length ?p < PAGE_SIZE" "written + k \<le> length data"
      using kl r(4) less.prems(2,4) unfolding cp(3) by linarith+
    moreover have "0 < p_readers ?p" using less.prems(3) by simp
    ultimately obtain n p' where ih: "pipe_write me data (written + k) (woken 1 (p_readers_waitq p) st) ?p =
        Some (if length data - (written + k) \<le> PAGE_SIZE - p_length ?p
              then (Write_Return (length data), woken (Suc n) (p_readers_waitq ?p) (woken 1 (p_readers_waitq p) st), p')
              else (Write_Sleep (written + k + (PAGE_SIZE - p_length ?p)),
                    (woken (Suc n) (p_readers_waitq ?p) (woken 1 (p_readers_waitq p) st))(me := STATE_BLOCKED), p'))"
      "pipe_inv p'" "content p' = content ?p @ take (PAGE_SIZE - p_length ?p) (drop (written + k) data)"
      "p_writers_waitq p' = (if length data - (written + k) \<le> PAGE_SIZE - p_length ?p then [] else [me]) @ p_writers_waitq ?p"
      "p_readers_waitq p' = drop (Suc n) (p_readers_waitq ?p)"
      "p_readers p' = p_readers ?p" "p_writers p' = p_writers ?p" "p_page p' = p_page ?p"
      using less.hyps [OF _ cp(2)] by metis
    have w: "p_readers_waitq ?p = tl (p_readers_waitq p)" "p_writers_waitq ?p = p_writers_waitq p" by simp_all
    have c: "(length data - (written + k) \<le> PAGE_SIZE - (p_length p + k)) = (length data - written \<le> PAGE_SIZE - p_length p)"
      "written + k + (PAGE_SIZE - (p_length p + k)) = written + (PAGE_SIZE - p_length p)"
      using kl more(2) less.prems(2,4) by linarith+
    have "take (PAGE_SIZE - p_length p) (drop written data) = ?xs @ take (PAGE_SIZE - (p_length p + k)) (drop (written + k) data)"
    proof -
      have "k + (PAGE_SIZE - (p_length p + k)) = PAGE_SIZE - p_length p" using more(2) by linarith
      then show ?thesis using take_add [of k "PAGE_SIZE - (p_length p + k)" "drop written data"] by (simp add: add.commute)
    qed
    then have ct: "content ?p @ take (PAGE_SIZE - (p_length p + k)) (drop (written + k) data) =
        content p @ take (PAGE_SIZE - p_length p) (drop written data)" unfolding cp(1) by simp
    have "pipe_write me data written st p = pipe_write me data (written + k) (woken 1 (p_readers_waitq p) st) ?p"
      by (subst pipe_write.simps) (simp add: r more)
    then show ?thesis
      using ih [unfolded cp(3) w c ct woken_tl] by (intro exI [of _ "Suc n"] exI [of _ p']) (simp add: drop_Suc)
  qed
qed

subsection \<open>Interleaved readers and writers\<close>

fun read_so_far :: "read_outcome \<Rightarrow> u8 list" where
  "read_so_far (Read_Return n xs) = xs"
| "read_so_far (Read_Sleep xs) = xs"
| "read_so_far (Read_Next xs) = xs"

fun written_so_far :: "nat \<Rightarrow> write_outcome \<Rightarrow> nat" where
  "written_so_far w (Write_Return n) = n"
| "written_so_far w Write_Broken = w"
| "written_so_far w (Write_Sleep n) = n"
| "written_so_far w (Write_Next n) = n"

text \<open>
  The histories of a pipe: the kernel runs rounds of any number of calls, of any processes, one at a
  time and in any order, between them new ends are opened and old ones closed.  \<open>W\<close> collects the bytes
  that rounds of writers have taken from their callers and \<open>R\<close> those that rounds of readers have given.
\<close>

inductive pipe_history :: "u8 list \<Rightarrow> u8 list \<Rightarrow> pipe \<Rightarrow> bool" where
  created: "pipe_history [] [] (pipe_create pg buf)"
| reads: "pipe_history W R p \<Longrightarrow> length got \<le> sz \<Longrightarrow> pipe_read_round me sz got st p = Some (out, st', p') \<Longrightarrow>
    pipe_history W (R @ drop (length got) (read_so_far out)) p'"
| writes: "pipe_history W R p \<Longrightarrow> written \<le> length data \<Longrightarrow> pipe_write_round me data written st p = Some (out, st', p') \<Longrightarrow>
    pipe_history (W @ take (written_so_far written out - written) (drop written data)) R p'"
| opens: "pipe_history W R p \<Longrightarrow> pipe_countup p flags = Some p' \<Longrightarrow> pipe_history W R p'"
| closes: "pipe_history W R p \<Longrightarrow> pipe_release p flags st = Some (Some p', st') \<Longrightarrow> pipe_history W R p'"

lemma pipe_read_round_queue:
  assumes inv: "pipe_inv p" and g: "length got \<le> sz" and r: "pipe_read_round me sz got st p = Some (out, st', p')"
  shows "pipe_inv p' \<and> content p = drop (length got) (read_so_far out) @ content p'"
proof -
  consider "p_length p = 0" | "0 < p_length p" "length got < sz" | "0 < p_length p" "length got = sz" using g by linarith
  then show ?thesis
  proof cases
    case 1
    then show ?thesis using inv r by (auto simp: pipe_read_round_def block_on_def split: if_splits)
  next
    case 2
    define k where "k = min (sz - length got) (min (p_length p) (PAGE_SIZE - p_offset p))"
    have "k \<le> p_length p" by (simp add: k_def)
    note a = advance_queue [OF inv this]
    have "read_so_far out = got @ take k (content p)" "p' = (advance p k)\<lparr>p_writers_waitq := tl (p_writers_waitq p)\<rparr>"
      using r pipe_read_round_data(1) [OF inv 2, of me st, folded k_def] by (auto split: if_splits)
    then show ?thesis using a by simp
  next
    case 3
    have z: "(if x > sz - length got then sz - length got else x) = 0" for x using 3 by simp
    have "read_so_far out = got \<and> (\<exists>q. p' = (advance p 0)\<lparr>p_writers_waitq := q\<rparr>)"
      using r 3(1) unfolding pipe_read_round_def Let_def z
      by (cases "p_writers_waitq p") (auto simp: advance_def split: if_splits)
    then show ?thesis using advance_queue [OF inv, of 0] by auto
  qed
qed

lemma pipe_write_round_queue:
  assumes inv: "pipe_inv p" and w: "written \<le> length data" and r: "pipe_write_round me data written st p = Some (out, st', p')"
  shows "pipe_inv p' \<and> content p' = content p @ take (written_so_far written out - written) (drop written data)"
proof -
  consider "p_readers p = 0 \<or> p_length p = PAGE_SIZE" | "0 < p_readers p" "p_length p < PAGE_SIZE"
    using inv by (force simp: pipe_inv_def)
  then show ?thesis
  proof cases
    case 1
    then show ?thesis using inv r by (auto simp: pipe_write_round_def block_on_def split: if_splits)
  next
    case 2
    define k where "k = min (length data - written) (min (PAGE_SIZE - p_length p) (PAGE_SIZE - (p_offset p + p_length p) mod PAGE_SIZE))"
    note d = pipe_write_round_data(1-3) [OF inv 2(2,1) w, folded k_def]
    have "written_so_far written out - written = k"
      "p' = (extend p (take k (drop written data)))\<lparr>p_readers_waitq := tl (p_readers_waitq p)\<rparr>"
      using r d(1) [of me st] by (auto split: if_splits)
    then show ?thesis using d(2,3) by simp
  qed
qed

text \<open>
  C28: A pipe is a first-in first-out queue of bytes.  After any history of rounds of concurrent reads
  and writes, the bytes written are the bytes read followed by what the ring buffer still holds: none
  is lost, repeated or reordered, and the buffer never holds more than a page.
\<close>

theorem pipe_is_fifo:
  assumes "pipe_history W R p"
  shows "W = R @ content p \<and> p_length p \<le> PAGE_SIZE"
proof -
  have "W = R @ content p \<and> pipe_inv p"
    using assms
  proof induction
    case (created pg buf)
    show ?case by (simp add: pipe_create_def content_def pipe_inv_def PAGE_SIZE_def)
  next
    case (reads W R p got sz me st out st' p')
    then show ?case using pipe_read_round_queue [of p got sz me st out st' p'] by simp
  next
    case (writes W R p written data me st out st' p')
    then show ?case using pipe_write_round_queue [of p written data me st out st' p'] by simp
  next
    case (opens W R p flags p')
    then show ?case by (auto simp: pipe_countup_def split: if_splits)
  next
    case (closes W R p flags st p' st')
    then show ?case by (auto simp: pipe_release_def Let_def wake_all_eq split: if_splits)
  qed
  then show ?thesis by (simp add: pipe_inv_def)
qed

theorem pipe_is_fifo_witness:
  "\<exists>R p. pipe_history [10, 20, 30] R p \<and> R = [10, 20] \<and> content p = [30]"
proof -
  let ?p0 = "pipe_create 7 (\<lambda>_. 0)" and ?st = "\<lambda>_. STATE_READY"
  have i: "pipe_inv ?p0" by (simp add: pipe_create_def pipe_inv_def PAGE_SIZE_def)
  have h0: "pipe_history [] [] ?p0" by (rule created)
  obtain st1 p1 where w: "pipe_write_round 1 [10, 20, 30] 0 ?st ?p0 = Some (Write_Return 3, st1, p1)"
    using pipe_write_round_data(1) [OF i, of 0 "[10, 20, 30]" 1 ?st] by (simp add: pipe_create_def PAGE_SIZE_def)
  have h1: "pipe_history [10, 20, 30] [] p1" using writes [OF h0 _ w] by simp
  have i1: "pipe_inv p1" "content p1 = [10, 20, 30]"
    using pipe_write_round_queue [OF i _ w] by (simp_all add: pipe_create_def content_def)
  then have l: "p_length p1 = 3" using length_content [of p1] by simp
  have "p_offset p1 = 0" using w by (auto simp: pipe_write_round_def pipe_create_def Let_def PAGE_SIZE_def process_waitq_init_def)
  then obtain st2 p2 where r: "pipe_read_round 2 2 [] ?st p1 = Some (Read_Return 2 [10, 20], st2, p2)"
    using pipe_read_round_data(1) [OF i1(1), of "[]" 2 2 ?st] l i1(2) by (simp add: PAGE_SIZE_def)
  have "pipe_history [10, 20, 30] [10, 20] p2" using reads [OF h1 _ r] by simp
  then show ?thesis using pipe_is_fifo [of "[10, 20, 30]" "[10, 20]" p2] by auto
qed

text \<open>
  C29: What a call of \<^verbatim>\<open>pipe_read\<close> returns.  On an empty pipe it returns 0 when there is no writer left
  and otherwise blocks the caller on the readers' queue with nothing copied.  With data in the pipe it
  returns the first bytes, as many as fit, removes exactly these, and has woken a waiting writer.
\<close>

theorem pipe_read_correct:
  assumes "pipe_inv p" "0 < sz"
  shows "if p_length p = 0 then
      pipe_read me sz [] st p =
        Some (if p_writers p = 0 then (Read_Return 0 [], st, p)
              else (Read_Sleep [], st(me := STATE_BLOCKED), p\<lparr>p_readers_waitq := me # p_readers_waitq p\<rparr>))
    else \<exists>st' p'. pipe_read me sz [] st p = Some (Read_Return (min sz (p_length p)) (take sz (content p)), st', p') \<and>
      pipe_inv p' \<and> content p' = drop sz (content p) \<and>
      (\<forall>w q. p_writers_waitq p = w # q \<longrightarrow> st' w = STATE_READY \<and> set (p_writers_waitq p') \<subseteq> set q)"
proof (cases "p_length p = 0")
  case True
  then show ?thesis by (simp add: pipe_read.simps [of me sz] pipe_read_round_def block_on_def)
next
  case False
  then obtain n p' where r: "pipe_read me sz [] st p =
      Some (Read_Return (min sz (p_length p)) (take sz (content p)), woken (Suc n) (p_writers_waitq p) st, p')"
      "pipe_inv p'" "content p' = drop sz (content p)" "p_writers_waitq p' = drop (Suc n) (p_writers_waitq p)"
    using pipe_read_takes [OF assms(1), of "[]" sz me st] assms(2) by auto
  have "woken (Suc n) (p_writers_waitq p) st w = STATE_READY \<and> set (p_writers_waitq p') \<subseteq> set q"
    if "p_writers_waitq p = w # q" for w q
    using that r(4) set_drop_subset [of n q] by (simp add: woken_def)
  then show ?thesis using False r by auto
qed

theorem pipe_read_correct_witness:
  "pipe_read 5 8 [] (\<lambda>_. STATE_READY) (pipe_create 7 (\<lambda>_. 0)) =
     Some (Read_Sleep [], (\<lambda>_. STATE_READY)(5 := STATE_BLOCKED), (pipe_create 7 (\<lambda>_. 0))\<lparr>p_readers_waitq := [5]\<rparr>)"
  using pipe_read_correct [of "pipe_create 7 (\<lambda>_. 0)" 8 5 "\<lambda>_. STATE_READY"]
  by (simp add: pipe_inv_def pipe_create_def PAGE_SIZE_def process_waitq_init_def)

text \<open>
  C30: What a call of \<^verbatim>\<open>pipe_write\<close> does.  Without readers it is broken.  Otherwise it appends its data as
  far as there is room; it returns the full size when everything fits, and else fills the buffer to the
  last byte and blocks on the writers' queue, remembering how much it has written.
\<close>

theorem pipe_write_correct:
  assumes "pipe_inv p" "data \<noteq> []"
  shows "if p_readers p = 0 then pipe_write me data 0 st p = Some (Write_Broken, st, p)
    else \<exists>st' p'. pipe_write me data 0 st p =
        Some (if length data \<le> PAGE_SIZE - p_length p then Write_Return (length data) else Write_Sleep (PAGE_SIZE - p_length p), st', p') \<and>
      pipe_inv p' \<and> content p' = content p @ take (PAGE_SIZE - p_length p) data \<and>
      (length data > PAGE_SIZE - p_length p \<longrightarrow> st' me = STATE_BLOCKED \<and> p_writers_waitq p' = me # p_writers_waitq p)"
proof -
  consider "p_readers p = 0" | "0 < p_readers p" "p_length p = PAGE_SIZE" | "0 < p_readers p" "p_length p < PAGE_SIZE"
    using assms(1) by (force simp: pipe_inv_def)
  then show ?thesis
  proof cases
    case 1
    then show ?thesis by (simp add: pipe_write.simps [of me data] pipe_write_round_def)
  next
    case 2
    then show ?thesis using assms by (simp add: pipe_write.simps [of me data] pipe_write_round_def block_on_def)
  next
    case 3
    then show ?thesis using pipe_write_puts [OF assms(1) 3(2,1), of 0 data me st] by (auto simp: not_le)
  qed
qed

theorem pipe_write_correct_witness:
  "\<exists>st p. pipe_write 5 [1, 2] 0 (\<lambda>_. STATE_READY) (pipe_create 7 (\<lambda>_. 0)) = Some (Write_Return 2, st, p) \<and> content p = [1, 2]"
  using pipe_write_correct [of "pipe_create 7 (\<lambda>_. 0)" "[1, 2]" 5 "\<lambda>_. STATE_READY"]
  by (auto simp: pipe_inv_def pipe_create_def PAGE_SIZE_def content_def)

end
