(* ===== verification/Cy_Block.thy ===== *)
theory Cy_Block
  imports Cy_Buddy
begin

text \<open>
  \<^verbatim>\<open>block.c\<close>: the cache of disk blocks.  The disk is a function from block indices to contents; the
  driver's \<^verbatim>\<open>mmc_read\<close> and \<^verbatim>\<open>mmc_write\<close> of one block read it and write it.  A block's data are a
  function of the offset, of which the first \<^verbatim>\<open>BLOCK_SIZE\<close> values count.
\<close>

type_synonym data = "nat \<Rightarrow> u8"

definition BLOCK_SIZE :: nat where "BLOCK_SIZE = 1024 * 4"
definition BLOCKS_PER_PAGE :: nat where "BLOCKS_PER_PAGE = PAGE_SIZE div BLOCK_SIZE"

record block =
  b_index :: nat
  b_data :: data

text \<open>
  The two lists of \<^verbatim>\<open>block.c\<close>, the disk, and what the memory of a page holds when \<^verbatim>\<open>buddy_alloc\<close>
  gives it out.  \<^verbatim>\<open>buddy_alloc\<close> and \<^verbatim>\<open>slab_cache_alloc\<close> give memory or stop the machine; which of the two depends
  on what the rest of the kernel holds at that time.  \<open>grants n\<close> says whether the request number \<open>n\<close> of the cache is
  granted, and \<open>requests\<close> counts them.
\<close>

record block_cache =
  used_list :: "block list"
  free_list :: "block list"
  disk :: "nat \<Rightarrow> data"
  fresh_page :: data
  requests :: nat
  grants :: "nat \<Rightarrow> bool"

definition ask_memory :: "block_cache \<Rightarrow> block_cache option" where
  "ask_memory s = (if grants s (requests s) then Some (s\<lparr>requests := requests s + 1\<rparr>) else None)"

fun add_blocks :: "nat list \<Rightarrow> block_cache \<Rightarrow> block_cache option" where
  "add_blocks [] s = Some s"
| "add_blocks (i # is) s =
     Option.bind (ask_memory s) (\<lambda>s.
       add_blocks is (s\<lparr>free_list := \<lparr>b_index = 0, b_data = (\<lambda>j. fresh_page s (i * BLOCK_SIZE + j))\<rparr> # free_list s\<rparr>))"

definition prepare_blocks :: "block_cache \<Rightarrow> block_cache option" where
  "prepare_blocks s = Option.bind (ask_memory s) (add_blocks [0..<BLOCKS_PER_PAGE])"

text \<open>
  The block with the given index, at the place in the list of used blocks that is returned.  An empty
  list of free blocks after \<^verbatim>\<open>prepare_blocks\<close> would send the loop's cursor to the list head:
  \<^const>\<open>None\<close>.
\<close>

fun find_used :: "block list \<Rightarrow> nat \<Rightarrow> nat option" where
  "find_used [] i = None"
| "find_used (b # bs) i = (if b_index b = i then Some 0 else map_option Suc (find_used bs i))"

definition get_cached :: "block_cache \<Rightarrow> nat \<Rightarrow> (nat \<times> block_cache) option" where
  "get_cached s i =
     (case find_used (used_list s) i of
        Some k \<Rightarrow> Some (k, s)
      | None \<Rightarrow>
          Option.bind (if free_list s = [] then prepare_blocks s else Some s) (\<lambda>s.
            case free_list s of
              [] \<Rightarrow> None
            | b # bs \<Rightarrow>
                let s = s\<lparr>free_list := bs\<rparr>;
                    b = b\<lparr>b_index := i\<rparr>;
                    b = b\<lparr>b_data := disk s i\<rparr>
                in Some (0, s\<lparr>used_list := b # used_list s\<rparr>)))"

definition block_read :: "nat \<Rightarrow> block_cache \<Rightarrow> (data \<times> block_cache) option" where
  "block_read i s = map_option (\<lambda>(k, s). (b_data (used_list s ! k), s)) (get_cached s i)"

definition block_write :: "nat \<Rightarrow> data \<Rightarrow> block_cache \<Rightarrow> block_cache option" where
  "block_write i d s =
     map_option (\<lambda>(k, s).
       let s = s\<lparr>used_list := (used_list s)[k := (used_list s ! k)\<lparr>b_data := d\<rparr>]\<rparr>
       in s\<lparr>disk := (disk s)(i := b_data (used_list s ! k))\<rparr>) (get_cached s i)"

definition block_init :: "(nat \<Rightarrow> data) \<Rightarrow> data \<Rightarrow> (nat \<Rightarrow> bool) \<Rightarrow> block_cache" where
  "block_init c page g = \<lparr>used_list = [], free_list = [], disk = c, fresh_page = page, requests = 0, grants = g\<rparr>"

subsection \<open>Coherence\<close>

text \<open>
  Every used block holds what is on the disk, and there is one for each index at most.  The cache is coherent
  when that is so and the memory lasts: the requests still to come are granted.
\<close>

definition in_step :: "block_cache \<Rightarrow> bool" where
  "in_step s \<longleftrightarrow> (\<forall>b \<in> set (used_list s). b_data b = disk s (b_index b)) \<and> distinct (map b_index (used_list s))"

definition memory_lasts :: "block_cache \<Rightarrow> bool" where
  "memory_lasts s \<longleftrightarrow> (\<forall>n \<ge> requests s. grants s n)"

definition coherent :: "block_cache \<Rightarrow> bool" where
  "coherent s \<longleftrightarrow> in_step s \<and> memory_lasts s"

lemma coherent_init: "(\<And>n. g n) \<Longrightarrow> coherent (block_init c page g)"
  by (simp add: coherent_def in_step_def memory_lasts_def block_init_def)

lemma find_used_Some: "find_used bs i = Some k \<Longrightarrow> k < length bs \<and> b_index (bs ! k) = i"
  by (induction bs arbitrary: k) (auto split: if_splits)

lemma find_used_None: "find_used bs i = None \<longleftrightarrow> i \<notin> b_index ` set bs"
  by (induction bs) auto

text \<open>There is one block to a page, so preparing blocks takes two requests: one for the page, one for the structure.\<close>

lemma prepare_blocks_eq:
  "prepare_blocks s =
     (if grants s (requests s) \<and> grants s (requests s + 1)
      then Some (s\<lparr>requests := requests s + 2, free_list := \<lparr>b_index = 0, b_data = fresh_page s\<rparr> # free_list s\<rparr>) else None)"
  by (simp add: prepare_blocks_def ask_memory_def BLOCKS_PER_PAGE_def PAGE_SIZE_def BLOCK_SIZE_def)

text \<open>The block asked for is found, if there is memory for it, and it holds what the disk has.\<close>

lemma get_cached_hit:
  assumes "in_step s" "i \<in> b_index ` set (used_list s)"
  obtains k where "get_cached s i = Some (k, s)" "k < length (used_list s)" "b_index (used_list s ! k) = i" "b_data (used_list s ! k) = disk s i"
proof -
  obtain k where k: "find_used (used_list s) i = Some k" using assms(2) find_used_None [of "used_list s" i] by (cases "find_used (used_list s) i") auto
  have "b_data (used_list s ! k) = disk s i" using assms find_used_Some [OF k] by (auto simp: in_step_def)
  then show thesis using that [of k] k find_used_Some [OF k] by (simp add: get_cached_def)
qed

lemma get_cached_miss:
  assumes "in_step s" "i \<notin> b_index ` set (used_list s)" "free_list s = []"
  shows "get_cached s i =
    (if grants s (requests s) \<and> grants s (requests s + 1)
     then Some (0, s\<lparr>requests := requests s + 2, used_list := \<lparr>b_index = i, b_data = disk s i\<rparr> # used_list s\<rparr>) else None)"
  using assms(2,3) find_used_None [of "used_list s" i] by (simp add: get_cached_def prepare_blocks_eq Let_def)

lemma get_cached_coherent:
  assumes "coherent s"
  obtains k s' where "get_cached s i = Some (k, s')" "coherent s'" "disk s' = disk s"
    "k < length (used_list s')" "b_index (used_list s' ! k) = i" "b_data (used_list s' ! k) = disk s i"
proof (cases "find_used (used_list s) i")
  case (Some k)
  then have "i \<in> b_index ` set (used_list s)" using find_used_Some [OF Some] by force
  then show thesis using get_cached_hit [of s i] that assms by (metis coherent_def)
next
  case None
  obtain t where t: "(if free_list s = [] then prepare_blocks s else Some s) = Some t" "free_list t \<noteq> []" "used_list t = used_list s" "disk t = disk s" "memory_lasts t"
    using assms by (cases "free_list s = []") (auto simp: prepare_blocks_eq coherent_def memory_lasts_def)
  then obtain b bs where b: "free_list t = b # bs" by (cases "free_list t") auto
  let ?b = "b\<lparr>b_index := i, b_data := disk s i\<rparr>"
  let ?s = "t\<lparr>free_list := bs, used_list := ?b # used_list s\<rparr>"
  have "get_cached s i = Some (0, ?s)"
    using None b t by (simp add: get_cached_def Let_def)
  moreover have "coherent ?s" using assms None t(4,5) by (auto simp: coherent_def in_step_def memory_lasts_def find_used_None)
  ultimately show thesis using that [of 0 ?s] t(4) by simp
qed

lemma block_read_coherent:
  assumes "coherent s"
  shows "\<exists>s'. block_read i s = Some (disk s i, s') \<and> coherent s' \<and> disk s' = disk s"
proof -
  obtain k s' where "get_cached s i = Some (k, s')" "coherent s'" "disk s' = disk s"
    "k < length (used_list s')" "b_index (used_list s' ! k) = i" "b_data (used_list s' ! k) = disk s i"
    using assms by (rule get_cached_coherent)
  then show ?thesis by (auto simp: block_read_def)
qed

lemma in_step_written:
  assumes "in_step s" "k < length (used_list s)" "b_index (used_list s ! k) = i"
  shows "in_step (s\<lparr>used_list := (used_list s)[k := (used_list s ! k)\<lparr>b_data := d\<rparr>], disk := (disk s)(i := d)\<rparr>)"
    "map b_index ((used_list s)[k := (used_list s ! k)\<lparr>b_data := d\<rparr>]) = map b_index (used_list s)"
proof -
  let ?us = "(used_list s)[k := (used_list s ! k)\<lparr>b_data := d\<rparr>]"
  show ix: "map b_index ?us = map b_index (used_list s)"
    using assms(2) by (intro nth_equalityI) (simp_all add: nth_list_update)
  have "b_data b = ((disk s)(i := d)) (b_index b)" if "b \<in> set ?us" for b
  proof -
    obtain j where j: "j < length (used_list s)" "b = ?us ! j" using \<open>b \<in> set ?us\<close> by (auto simp: in_set_conv_nth)
    show ?thesis
    proof (cases "j = k")
      case True
      then show ?thesis using j assms(3) by simp
    next
      case False
      then have b: "b = used_list s ! j" using j by simp
      have "b_index b \<noteq> i"
        using assms j(1) False b nth_eq_iff_index_eq [of "map b_index (used_list s)" j k] by (auto simp: in_step_def)
      then show ?thesis using assms(1) j(1) b by (auto simp: in_step_def)
    qed
  qed
  then show "in_step (s\<lparr>used_list := ?us, disk := (disk s)(i := d)\<rparr>)" using ix assms(1) by (simp add: in_step_def)
qed

lemma block_write_coherent:
  assumes "coherent s"
  shows "\<exists>s'. block_write i d s = Some s' \<and> coherent s' \<and> disk s' = (disk s)(i := d)"
proof -
  obtain k s' where k: "get_cached s i = Some (k, s')" "coherent s'" "disk s' = disk s"
    "k < length (used_list s')" "b_index (used_list s' ! k) = i"
    using assms by (rule get_cached_coherent)
  then show ?thesis using in_step_written(1) [of s' k i d] by (simp add: block_write_def Let_def coherent_def memory_lasts_def)
qed

text \<open>
  The interface the file system uses: reading and writing of blocks, of which all that matters is the
  contents of the disk.  \<open>touched\<close> and \<open>stored\<close> name the states after a read and after a write.
\<close>

locale block_device =
  fixes inv :: "'s \<Rightarrow> bool"
    and contents :: "'s \<Rightarrow> nat \<Rightarrow> 'd"
    and rd :: "nat \<Rightarrow> 's \<Rightarrow> ('d \<times> 's) option"
    and wr :: "nat \<Rightarrow> 'd \<Rightarrow> 's \<Rightarrow> 's option"
  assumes rd_contents: "inv s \<Longrightarrow> \<exists>s'. rd i s = Some (contents s i, s') \<and> inv s' \<and> contents s' = contents s"
    and wr_contents: "inv s \<Longrightarrow> \<exists>s'. wr i d s = Some s' \<and> inv s' \<and> contents s' = (contents s)(i := d)"
begin

definition touched :: "nat \<Rightarrow> 's \<Rightarrow> 's" where
  "touched i s = snd (the (rd i s))"

definition stored :: "nat \<Rightarrow> 'd \<Rightarrow> 's \<Rightarrow> 's" where
  "stored i d s = the (wr i d s)"

lemma rd_touched: "inv s \<Longrightarrow> rd i s = Some (contents s i, touched i s)"
  using rd_contents [of s i] by (auto simp: touched_def)

lemma touched_inv: "inv s \<Longrightarrow> inv (touched i s)" and touched_contents: "inv s \<Longrightarrow> contents (touched i s) = contents s"
  using rd_contents [of s i] by (auto simp: touched_def)

lemma wr_stored: "inv s \<Longrightarrow> wr i d s = Some (stored i d s)"
  using wr_contents [of s i d] by (auto simp: stored_def)

lemma stored_inv: "inv s \<Longrightarrow> inv (stored i d s)"
  and stored_contents: "inv s \<Longrightarrow> contents (stored i d s) = (contents s)(i := d)"
  using wr_contents [of s i d] by (auto simp: stored_def)

lemmas device_simps = rd_touched touched_inv touched_contents wr_stored stored_inv stored_contents

lemma read_after_write:
  "inv s \<Longrightarrow> Option.bind (wr i d s) (rd j) = Some (if j = i then d else contents s j, touched j (stored i d s))"
  by (simp add: device_simps)

end

interpretation bd: block_device coherent disk block_read block_write
  by unfold_locales (rule block_read_coherent block_write_coherent, assumption)+

text \<open>Sequences of reads and writes, and what they do to a disk without a cache.\<close>

datatype block_op = Read nat | Write nat data

fun run_ops :: "block_op list \<Rightarrow> block_cache \<Rightarrow> (data list \<times> block_cache) option" where
  "run_ops [] s = Some ([], s)"
| "run_ops (Read i # ops) s =
     Option.bind (block_read i s) (\<lambda>(d, s). map_option (\<lambda>(ds, s). (d # ds, s)) (run_ops ops s))"
| "run_ops (Write i d # ops) s = Option.bind (block_write i d s) (run_ops ops)"

fun ideal_ops :: "block_op list \<Rightarrow> (nat \<Rightarrow> data) \<Rightarrow> data list \<times> (nat \<Rightarrow> data)" where
  "ideal_ops [] c = ([], c)"
| "ideal_ops (Read i # ops) c = (case ideal_ops ops c of (ds, c') \<Rightarrow> (c i # ds, c'))"
| "ideal_ops (Write i d # ops) c = ideal_ops ops (c(i := d))"

primrec op_index :: "block_op \<Rightarrow> nat" where
  "op_index (Read i) = i"
| "op_index (Write i d) = i"

text \<open>The number of requests for memory that a block with index \<open>i\<close> takes, and all of a sequence.\<close>

definition in_use :: "block_cache \<Rightarrow> nat set" where
  "in_use s = b_index ` set (used_list s)"

definition needs :: "block_cache \<Rightarrow> nat set \<Rightarrow> nat" where
  "needs s I = 2 * card (I - in_use s)"

definition granted :: "block_cache \<Rightarrow> nat \<Rightarrow> bool" where
  "granted s m \<longleftrightarrow> (\<forall>n < m. grants s (requests s + n))"

lemma needs_one: "needs s {i} = (if i \<in> in_use s then 0 else 2)"
  by (simp add: needs_def insert_Diff_if)

lemma needs_insert:
  assumes "finite I"
  shows "needs s (insert i I) = needs s {i} + 2 * card (I - insert i (in_use s))"
proof -
  have "insert i I - in_use s = (if i \<in> in_use s then I - insert i (in_use s) else insert i (I - insert i (in_use s)))" by auto
  then show ?thesis using assms unfolding needs_one by (simp add: needs_def)
qed

lemma granted_add: "granted s (m + n) \<longleftrightarrow> granted s m \<and> (\<forall>j < n. grants s (requests s + m + j))"
  unfolding granted_def
proof (intro iffI conjI allI impI)
  fix j assume "(\<forall>j < m. grants s (requests s + j)) \<and> (\<forall>j < n. grants s (requests s + m + j))" "j < m + n"
  then show "grants s (requests s + j)" by (cases "j < m") (auto dest: spec [of _ "j - m"])
qed (simp_all add: add.assoc)

text \<open>What one access to the cache does when no block waits in the list of free ones.\<close>

definition fetched :: "block_cache \<Rightarrow> nat \<Rightarrow> nat \<Rightarrow> block_cache \<Rightarrow> bool" where
  "fetched s i k t \<longleftrightarrow> in_step t \<and> free_list t = [] \<and> in_use t = insert i (in_use s) \<and> disk t = disk s \<and>
     requests t = requests s + needs s {i} \<and> grants t = grants s \<and>
     k < length (used_list t) \<and> b_index (used_list t ! k) = i \<and> b_data (used_list t ! k) = disk s i"

lemma get_cached_exact:
  assumes "in_step s" "free_list s = []"
  shows "(granted s (needs s {i}) \<longrightarrow> (\<exists>k t. get_cached s i = Some (k, t) \<and> fetched s i k t)) \<and>
    (\<not> granted s (needs s {i}) \<longrightarrow> get_cached s i = None)"
proof (cases "i \<in> in_use s")
  case True
  then obtain k where "get_cached s i = Some (k, s)" "k < length (used_list s)" "b_index (used_list s ! k) = i" "b_data (used_list s ! k) = disk s i"
    using get_cached_hit [OF assms(1), of i] unfolding in_use_def by blast
  then show ?thesis using True assms by (auto simp: fetched_def needs_one granted_def insert_absorb)
next
  case False
  then have n: "needs s {i} = 2" by (simp add: needs_one)
  have g: "granted s 2 \<longleftrightarrow> grants s (requests s) \<and> grants s (requests s + 1)"
    by (auto simp: granted_def numeral_2_eq_2 less_Suc_eq)
  let ?t = "s\<lparr>requests := requests s + 2, used_list := \<lparr>b_index = i, b_data = disk s i\<rparr> # used_list s\<rparr>"
  have "fetched s i 0 ?t" using assms False n by (auto simp: fetched_def in_step_def in_use_def)
  then show ?thesis using get_cached_miss [OF assms(1) _ assms(2), of i] False g n by (auto simp: in_use_def)
qed

lemma run_ops_exact:
  "in_step s \<Longrightarrow> free_list s = [] \<Longrightarrow>
   (granted s (needs s (op_index ` set ops)) \<longrightarrow>
     (\<exists>s'. run_ops ops s = Some (fst (ideal_ops ops (disk s)), s') \<and> disk s' = snd (ideal_ops ops (disk s)))) \<and>
   (\<not> granted s (needs s (op_index ` set ops)) \<longrightarrow> run_ops ops s = None)"
proof (induction ops arbitrary: s)
  case Nil
  then show ?case by (simp add: granted_def needs_def)
next
  case (Cons x ops)
  let ?i = "op_index x" and ?J = "op_index ` set ops"
  have n: "needs s (op_index ` set (x # ops)) = needs s {?i} + 2 * card (?J - insert ?i (in_use s))" using needs_insert [of ?J s ?i] by simp
  show ?case
  proof (cases "granted s (needs s {?i})")
    case False
    then have "get_cached s ?i = None" "\<not> granted s (needs s (op_index ` set (x # ops)))"
      using get_cached_exact [OF Cons.prems, of ?i] n granted_add by auto
    then show ?thesis by (cases x) (simp_all add: block_read_def block_write_def)
  next
    case True
    then obtain k t where t: "get_cached s ?i = Some (k, t)" "fetched s ?i k t" using get_cached_exact [OF Cons.prems, of ?i] by auto
    have g: "granted s (needs s (op_index ` set (x # ops))) \<longleftrightarrow> granted u (needs u ?J)"
      if "in_use u = insert ?i (in_use s)" "requests u = requests s + needs s {?i}" "grants u = grants s" for u
      unfolding n granted_add using True that by (simp add: granted_def needs_def)
    show ?thesis
    proof (cases x)
      case (Read i)
      have "in_step t" "free_list t = []" using t(2) by (simp_all add: fetched_def)
      note ih = Cons.IH [OF this]
      show ?thesis using ih t g [of t] Read by (auto simp: block_read_def fetched_def split: prod.splits)
    next
      case (Write i d)
      define u where "u = t\<lparr>used_list := (used_list t)[k := (used_list t ! k)\<lparr>b_data := d\<rparr>], disk := (disk t)(i := d)\<rparr>"
      have w: "in_step u" "map b_index (used_list u) = map b_index (used_list t)" "free_list u = []" "disk u = (disk s)(i := d)"
        "requests u = requests t" "grants u = grants t"
        using in_step_written [of t k i d] t(2) Write by (simp_all add: fetched_def u_def)
      have "in_use u = in_use t" using arg_cong [OF w(2), of set] by (simp add: in_use_def)
      then have "granted s (needs s (op_index ` set (x # ops))) \<longleftrightarrow> granted u (needs u ?J)"
        using t(2) w(5,6) by (intro g) (simp_all add: fetched_def)
      moreover have "block_write i d s = Some u" using t Write by (simp add: block_write_def fetched_def Let_def u_def)
      ultimately show ?thesis using Cons.IH [OF w(1,3), unfolded w(4)] Write by (simp add: fun_upd_def)
    qed
  qed
qed

text \<open>
  C19: The block cache is invisible as long as there is memory for it.  From an empty cache, a sequence of reads and
  writes asks for memory twice for every block that occurs in it: the cache never gives a block up.  If these requests
  are granted, every read returns what was last written to the block (or what the card held), and every write is on
  the card when it returns; if one is not, the machine stops.
\<close>

theorem block_cache_invisible:
  "((\<forall>n < 2 * card (op_index ` set ops). g n) \<longrightarrow>
     (\<exists>s. run_ops ops (block_init c page g) = Some (fst (ideal_ops ops c), s) \<and> disk s = snd (ideal_ops ops c))) \<and>
   ((\<exists>n < 2 * card (op_index ` set ops). \<not> g n) \<longrightarrow> run_ops ops (block_init c page g) = None)"
proof -
  let ?s = "block_init c page g"
  have "granted ?s (needs ?s (op_index ` set ops)) \<longleftrightarrow> (\<forall>n < 2 * card (op_index ` set ops). g n)"
    by (simp add: granted_def needs_def in_use_def block_init_def)
  moreover have "in_step ?s" "free_list ?s = []" "disk ?s = c" by (simp_all add: in_step_def block_init_def)
  ultimately show ?thesis using run_ops_exact [of ?s ops] by auto
qed

theorem block_cache_invisible_witness:
  "(\<exists>s. run_ops [Write 3 (\<lambda>_. 7), Read 3] (block_init (\<lambda>_ _. 0) (\<lambda>_. 0) (\<lambda>n. n < 2)) = Some ([\<lambda>_. 7], s)) \<and>
   run_ops [Write 3 (\<lambda>_. 7), Read 4] (block_init (\<lambda>_ _. 0) (\<lambda>_. 0) (\<lambda>n. n < 2)) = None"
proof -
  have "\<exists>n < 2 * card {3 :: nat, 4}. \<not> n < (2 :: nat)" by (rule exI [of _ 2]) simp
  then show ?thesis
    using block_cache_invisible [of "[Write 3 (\<lambda>_. 7), Read 3]" "\<lambda>n. n < 2" "\<lambda>_ _. 0" "\<lambda>_. 0"]
      block_cache_invisible [of "[Write 3 (\<lambda>_. 7), Read 4]" "\<lambda>n. n < 2" "\<lambda>_ _. 0" "\<lambda>_. 0"]
    by (auto simp: insert_commute simp del: run_ops.simps)
qed

end
