(* ===== verification/Cy_Inode.thy ===== *)
theory Cy_Inode
  imports Cy_Block
begin

text \<open>
  \<^verbatim>\<open>superblock.c\<close> and \<^verbatim>\<open>inode.c\<close>: the Minix file system on the block cache.  Block indices are the C
  type \<^verbatim>\<open>uint16_t\<close> and everything else is 32 bits wide: values are natural numbers, with \<open>trunc16\<close> and
  \<open>trunc32\<close> where the C code truncates.  The page that a function takes as a scratch buffer and gives back
  on return is a local variable.
\<close>

subsection \<open>Numbers in blocks\<close>

definition trunc16 :: "nat \<Rightarrow> nat" where "trunc16 n = n mod 2 ^ 16"
definition trunc32 :: "nat \<Rightarrow> nat" where "trunc32 n = n mod 2 ^ 32"

text \<open>The processor stores numbers with the least byte first.\<close>

definition get16 :: "data \<Rightarrow> nat \<Rightarrow> nat" where
  "get16 d i = unat (d i) + 2 ^ 8 * unat (d (i + 1))"

definition get32 :: "data \<Rightarrow> nat \<Rightarrow> nat" where
  "get32 d i = get16 d i + 2 ^ 16 * get16 d (i + 2)"

definition put16 :: "nat \<Rightarrow> nat \<Rightarrow> data \<Rightarrow> data" where
  "put16 i n d = d(i := of_nat n, i + 1 := of_nat (n div 2 ^ 8))"

definition put32 :: "nat \<Rightarrow> nat \<Rightarrow> data \<Rightarrow> data" where
  "put32 i n d = put16 (i + 2) (n div 2 ^ 16) (put16 i n d)"

definition copy_into :: "data \<Rightarrow> nat \<Rightarrow> data \<Rightarrow> nat \<Rightarrow> nat \<Rightarrow> data" where
  "copy_into buf off src from n = (\<lambda>j. if off \<le> j \<and> j < off + n then src (from + (j - off)) else buf j)"

subsection \<open>The superblock\<close>

record minix3_superblock =
  s_ninodes :: nat
  s_imap_blocks :: nat
  s_zmap_blocks :: nat
  s_firstdatazone :: nat
  s_log_zone_size :: nat
  s_max_size :: nat
  s_zones :: nat
  s_magic :: nat
  s_blocksize :: nat

definition SUPER_MAGIC_V3 :: nat where "SUPER_MAGIC_V3 = 0x4d5a"
definition SUPERBLOCK_ADDRESS :: nat where "SUPERBLOCK_ADDRESS = 0x400"

definition superblock_at :: "data \<Rightarrow> nat \<Rightarrow> minix3_superblock" where
  "superblock_at d a =
     \<lparr>s_ninodes = get32 d a, s_imap_blocks = get16 d (a + 6), s_zmap_blocks = get16 d (a + 8),
      s_firstdatazone = get16 d (a + 10), s_log_zone_size = get16 d (a + 12), s_max_size = get32 d (a + 16),
      s_zones = get32 d (a + 20), s_magic = get16 d (a + 24), s_blocksize = get16 d (a + 28)\<rparr>"

definition superblock_init :: "block_cache \<Rightarrow> (minix3_superblock \<times> block_cache) option" where
  "superblock_init c =
     Option.bind (block_read 0 c) (\<lambda>(buf, c).
       let sb = superblock_at buf SUPERBLOCK_ADDRESS
       in if s_magic sb \<noteq> SUPER_MAGIC_V3 then None
          else if s_log_zone_size sb \<noteq> 0 then None
          else if s_blocksize sb \<noteq> BLOCK_SIZE then None
          else Some (sb, c))"

definition IMAP_ZONE_INDEX :: nat where "IMAP_ZONE_INDEX = 2"
definition INODE_ZONE_INDEX :: "minix3_superblock \<Rightarrow> nat" where
  "INODE_ZONE_INDEX sb = IMAP_ZONE_INDEX + s_imap_blocks sb + s_zmap_blocks sb"
definition ZMAP_LIMITS :: "minix3_superblock \<Rightarrow> nat" where
  "ZMAP_LIMITS sb = trunc32 (s_zones sb + 2 ^ 32 - s_firstdatazone sb)"
definition sizeof_minix2_inode :: nat where "sizeof_minix2_inode = 64"
definition INODES_PER_BLOCK :: nat where "INODES_PER_BLOCK = BLOCK_SIZE div sizeof_minix2_inode"
definition ZONES_PER_BLOCK :: nat where "ZONES_PER_BLOCK = BLOCK_SIZE div 4"

subsection \<open>The maps of inodes and zones\<close>

text \<open>
  The loop over the eight bits of a byte: \<open>Inl b\<close> when bit \<open>b\<close> is clear, \<open>Inr True\<close> when the limit is
  reached and \<open>Inr False\<close> when no bit is clear.
\<close>

function find_bit :: "u8 \<Rightarrow> nat \<Rightarrow> nat \<Rightarrow> nat \<Rightarrow> nat + bool" where
  "find_bit byte idx limit b =
     (if b < 8 then
        if idx + b \<ge> limit then Inr True
        else if \<not> bit byte b then Inl b
        else find_bit byte idx limit (b + 1)
      else Inr False)"
  by pat_completeness auto
termination
  by (relation "measure (\<lambda>(y, x, l, b). 8 - b)") auto

datatype scan_result = Scan_End nat | Scan_Limit | Scan_Found nat nat nat

text \<open>The loop over the bytes of a block; a clear bit is given by its byte, its place and its index.\<close>

function scan_bytes :: "data \<Rightarrow> nat \<Rightarrow> nat \<Rightarrow> nat \<Rightarrow> scan_result" where
  "scan_bytes buf limit idx i =
     (if i < BLOCK_SIZE then
        if buf i = 0xff then scan_bytes buf limit (idx + 8) (i + 1)
        else
          case find_bit (buf i) idx limit 0 of
            Inl b \<Rightarrow> Scan_Found i b (idx + b)
          | Inr True \<Rightarrow> Scan_Limit
          | Inr False \<Rightarrow> scan_bytes buf limit idx (i + 1)
      else Scan_End idx)"
  by pat_completeness auto
termination
  by (relation "measure (\<lambda>(d, l, x, i). BLOCK_SIZE - i)") auto

function mark_map_loop :: "nat \<Rightarrow> nat \<Rightarrow> nat \<Rightarrow> nat \<Rightarrow> block_cache \<Rightarrow> (nat \<times> block_cache) option" where
  "mark_map_loop block end_block limit idx c =
     (if block < end_block then
        Option.bind (block_read block c) (\<lambda>(buf, c).
          case scan_bytes buf limit idx 0 of
            Scan_Limit \<Rightarrow> Some (0, c)
          | Scan_Found i b n \<Rightarrow>
              map_option (\<lambda>c. (n, c)) (block_write block (buf(i := set_bit b (buf i))) c)
          | Scan_End idx \<Rightarrow> mark_map_loop (block + 1) end_block limit idx c)
      else Some (0, c))"
  by pat_completeness auto
termination
  by (relation "measure (\<lambda>(b, e, l, x, c). e - b)") auto

definition mark_map :: "nat \<Rightarrow> nat \<Rightarrow> nat \<Rightarrow> block_cache \<Rightarrow> (nat \<times> block_cache) option" where
  "mark_map start end_block limit c = mark_map_loop start end_block limit 0 c"

definition unmark_map :: "nat \<Rightarrow> nat \<Rightarrow> block_cache \<Rightarrow> block_cache option" where
  "unmark_map idx start c =
     (let block = trunc16 (start + idx div 8 div BLOCK_SIZE);
          i = idx div 8 mod BLOCK_SIZE
      in Option.bind (block_read block c) (\<lambda>(buf, c).
           block_write block (buf(i := unset_bit (idx mod 8) (buf i))) c))"

definition mark_imap :: "minix3_superblock \<Rightarrow> block_cache \<Rightarrow> (nat \<times> block_cache) option" where
  "mark_imap sb c =
     (let start = IMAP_ZONE_INDEX in mark_map start (trunc16 (start + s_imap_blocks sb)) (s_ninodes sb) c)"

definition unmark_imap :: "nat \<Rightarrow> block_cache \<Rightarrow> block_cache option" where
  "unmark_imap idx c = unmark_map idx IMAP_ZONE_INDEX c"

definition mark_zmap :: "minix3_superblock \<Rightarrow> block_cache \<Rightarrow> (nat \<times> block_cache) option" where
  "mark_zmap sb c =
     (let start = trunc16 (IMAP_ZONE_INDEX + s_imap_blocks sb);
          end_block = trunc16 (start + s_zmap_blocks sb)
      in map_option (\<lambda>(n, c).
           let idx = trunc16 n in (if idx = 0 then 0 else trunc16 (idx + s_firstdatazone sb - 1), c))
         (mark_map start end_block (ZMAP_LIMITS sb) c))"

definition unmark_zmap :: "minix3_superblock \<Rightarrow> nat \<Rightarrow> block_cache \<Rightarrow> block_cache option" where
  "unmark_zmap sb idx c =
     (let start = trunc16 (IMAP_ZONE_INDEX + s_imap_blocks sb);
          idx = trunc16 idx
      in if idx < s_firstdatazone sb then Some c
         else unmark_map (idx - s_firstdatazone sb + 1) start c)"

subsection \<open>Inodes on the disk\<close>

record minix2_inode =
  i_mode :: nat
  i_nlinks :: nat
  i_uid :: nat
  i_gid :: nat
  i_size :: nat
  i_atime :: nat
  i_mtime :: nat
  i_ctime :: nat
  i_zone :: "nat list"

definition inode_at :: "data \<Rightarrow> nat \<Rightarrow> minix2_inode" where
  "inode_at d a =
     \<lparr>i_mode = get16 d a, i_nlinks = get16 d (a + 2), i_uid = get16 d (a + 4), i_gid = get16 d (a + 6),
      i_size = get32 d (a + 8), i_atime = get32 d (a + 12), i_mtime = get32 d (a + 16), i_ctime = get32 d (a + 20),
      i_zone = map (\<lambda>k. get32 d (a + 24 + 4 * k)) [0..<10]\<rparr>"

definition put_inode :: "nat \<Rightarrow> minix2_inode \<Rightarrow> data \<Rightarrow> data" where
  "put_inode a ino d =
     fold (\<lambda>k. put32 (a + 24 + 4 * k) (i_zone ino ! k)) [0..<10]
       (put32 (a + 20) (i_ctime ino) (put32 (a + 16) (i_mtime ino) (put32 (a + 12) (i_atime ino)
         (put32 (a + 8) (i_size ino) (put16 (a + 6) (i_gid ino) (put16 (a + 4) (i_uid ino)
           (put16 (a + 2) (i_nlinks ino) (put16 a (i_mode ino) d))))))))"

definition zero_inode :: minix2_inode where
  "zero_inode =
     \<lparr>i_mode = 0, i_nlinks = 0, i_uid = 0, i_gid = 0, i_size = 0, i_atime = 0, i_mtime = 0, i_ctime = 0,
      i_zone = replicate 10 0\<rparr>"

text \<open>The index of an inode is at least 1; block and place in the block of the structure.\<close>

definition inode_block :: "minix3_superblock \<Rightarrow> nat \<Rightarrow> nat" where
  "inode_block sb idx = trunc16 (INODE_ZONE_INDEX sb + trunc16 (trunc32 (idx + 2 ^ 32 - 1) div INODES_PER_BLOCK))"

definition inode_place :: "nat \<Rightarrow> nat" where
  "inode_place idx = sizeof_minix2_inode * (trunc32 (idx + 2 ^ 32 - 1) mod INODES_PER_BLOCK)"

definition read_inode :: "minix3_superblock \<Rightarrow> nat \<Rightarrow> block_cache \<Rightarrow> (minix2_inode \<times> block_cache) option" where
  "read_inode sb idx c =
     map_option (\<lambda>(buf, c). (inode_at buf (inode_place idx), c)) (block_read (inode_block sb idx) c)"

definition write_inode :: "minix3_superblock \<Rightarrow> nat \<Rightarrow> minix2_inode \<Rightarrow> block_cache \<Rightarrow> block_cache option" where
  "write_inode sb idx ino c =
     Option.bind (block_read (inode_block sb idx) c) (\<lambda>(buf, c).
       block_write (inode_block sb idx) (put_inode (inode_place idx) ino buf) c)"

subsection \<open>Zones\<close>

text \<open>Which entry of \<^verbatim>\<open>i_zone\<close> leads to a block of the file.\<close>

definition zone_slot :: "nat \<Rightarrow> nat" where
  "zone_slot block = (if block \<le> 6 then block else if block < 7 + ZONES_PER_BLOCK then 7 else 8)"

definition get_zone :: "data \<Rightarrow> nat \<Rightarrow> nat" where
  "get_zone d k = get32 d (4 * k)"

definition put_zone :: "nat \<Rightarrow> nat \<Rightarrow> data \<Rightarrow> data" where
  "put_zone k n d = put32 (4 * k) n d"

text \<open>
  The step both levels of \<^verbatim>\<open>extend_zone\<close> share: a zero entry of an indirect block gets a new zone.  The
  result is the entry, 0 when the disk is full.
\<close>

definition fill_entry :: "minix3_superblock \<Rightarrow> nat \<Rightarrow> nat \<Rightarrow> block_cache \<Rightarrow> (nat \<times> block_cache) option" where
  "fill_entry sb z1 z2 c =
     Option.bind (block_read z1 c) (\<lambda>(zones, c).
       if get_zone zones z2 = 0 then
         Option.bind (mark_zmap sb c) (\<lambda>(z, c).
           if z = 0 then Some (0, c)
           else map_option (\<lambda>c. (z, c)) (block_write z1 (put_zone z2 z zones) c))
       else Some (get_zone zones z2, c))"

text \<open>One round of the loop of \<^verbatim>\<open>extend_zone\<close>; the flag is false at \<^verbatim>\<open>goto fail\<close>.\<close>

definition extend_block :: "minix3_superblock \<Rightarrow> nat \<Rightarrow> minix2_inode \<Rightarrow> block_cache \<Rightarrow> (bool \<times> minix2_inode \<times> block_cache) option" where
  "extend_block sb block ino c =
     (let z0 = zone_slot block in
      Option.bind
        (if i_zone ino ! z0 = 0 then
           map_option (\<lambda>(z, c). (ino\<lparr>i_zone := (i_zone ino)[z0 := z]\<rparr>, c)) (mark_zmap sb c)
         else Some (ino, c))
        (\<lambda>(ino, c).
          if i_zone ino ! z0 = 0 then Some (False, ino, c)
          else if z0 = 7 then
            map_option (\<lambda>(z, c). (z \<noteq> 0, ino, c)) (fill_entry sb (trunc16 (i_zone ino ! z0)) (block - 7) c)
          else if z0 = 8 then
            Option.bind (fill_entry sb (trunc16 (i_zone ino ! z0)) ((block - (7 + ZONES_PER_BLOCK)) div ZONES_PER_BLOCK) c)
              (\<lambda>(z, c).
                if z = 0 then Some (False, ino, c)
                else map_option (\<lambda>(z, c). (z \<noteq> 0, ino, c))
                       (fill_entry sb (trunc16 z) ((block - (7 + ZONES_PER_BLOCK)) mod ZONES_PER_BLOCK) c))
          else Some (True, ino, c)))"

function extend_loop :: "minix3_superblock \<Rightarrow> nat \<Rightarrow> nat \<Rightarrow> minix2_inode \<Rightarrow> block_cache \<Rightarrow> (nat option \<times> minix2_inode \<times> block_cache) option" where
  "extend_loop sb block end_block ino c =
     (if block < end_block then
        Option.bind (extend_block sb block ino c) (\<lambda>(ok, ino, c).
          if ok then extend_loop sb (block + 1) end_block ino c else Some (Some block, ino, c))
      else Some (None, ino, c))"
  by pat_completeness auto
termination
  by (relation "measure (\<lambda>(sb, b, e, i, c). e - b)") auto

text \<open>A result of \<^verbatim>\<open>extend_zone\<close>: 0 or \<^verbatim>\<open>-ENOSPC\<close>.\<close>

definition extend_zone :: "minix3_superblock \<Rightarrow> minix2_inode \<Rightarrow> nat \<Rightarrow> block_cache \<Rightarrow> (int \<times> minix2_inode \<times> block_cache) option" where
  "extend_zone sb ino sz c =
     (let start = trunc16 (i_size ino div BLOCK_SIZE + 1);
          end_block = trunc16 (sz div BLOCK_SIZE + 1)
      in if end_block < start then Some (0, ino, c)
         else
           map_option (\<lambda>(r, ino, c).
             case r of
               None \<Rightarrow> (0, ino\<lparr>i_size := sz\<rparr>, c)
             | Some block \<Rightarrow> (- errno_code ENOSPC, ino\<lparr>i_size := block * BLOCK_SIZE\<rparr>, c))
             (extend_loop sb start end_block ino c))"

text \<open>One round of the loop of \<^verbatim>\<open>shrink_zone\<close>.\<close>

definition shrink_block :: "minix3_superblock \<Rightarrow> nat \<Rightarrow> minix2_inode \<Rightarrow> block_cache \<Rightarrow> (minix2_inode \<times> block_cache) option" where
  "shrink_block sb block ino c =
     (let z0 = zone_slot block;
          drop_slot = (\<lambda>c. map_option (\<lambda>c. (ino\<lparr>i_zone := (i_zone ino)[z0 := 0]\<rparr>, c)) (unmark_zmap sb (i_zone ino ! z0) c));
          z1 = trunc16 (i_zone ino ! z0)
      in if i_zone ino ! z0 = 0 then Some (ino, c)
         else if z0 = 7 then
           let z2 = block - 7 in
           Option.bind (block_read z1 c) (\<lambda>(zones0, c).
             if get_zone zones0 z2 = 0 then Some (ino, c)
             else
               Option.bind (unmark_zmap sb (get_zone zones0 z2) c) (\<lambda>c.
               Option.bind (block_write z1 (put_zone z2 0 zones0) c) (\<lambda>c.
                 if z2 = 0 then drop_slot c else Some (ino, c))))
         else if z0 = 8 then
           let z2 = (block - (7 + ZONES_PER_BLOCK)) div ZONES_PER_BLOCK;
               z4 = (block - (7 + ZONES_PER_BLOCK)) mod ZONES_PER_BLOCK in
           Option.bind (block_read z1 c) (\<lambda>(zones0, c).
             if get_zone zones0 z2 = 0 then Some (ino, c)
             else
               let z3 = trunc16 (get_zone zones0 z2) in
               Option.bind (block_read z3 c) (\<lambda>(zones1, c).
                 if get_zone zones1 z4 = 0 then Some (ino, c)
                 else
                   Option.bind (unmark_zmap sb (get_zone zones1 z4) c) (\<lambda>c.
                   Option.bind (block_write z3 (put_zone z4 0 zones1) c) (\<lambda>c.
                     if z4 = 0 then
                       Option.bind (unmark_zmap sb (get_zone zones0 z2) c) (\<lambda>c.
                       Option.bind (block_write z1 (put_zone z2 0 zones0) c) (\<lambda>c.
                         if z2 = 0 then drop_slot c else Some (ino, c)))
                     else Some (ino, c)))))
         else drop_slot c)"

function shrink_loop :: "minix3_superblock \<Rightarrow> nat \<Rightarrow> nat \<Rightarrow> minix2_inode \<Rightarrow> block_cache \<Rightarrow> (minix2_inode \<times> block_cache) option" where
  "shrink_loop sb block end_block ino c =
     (if block > end_block then
        Option.bind (shrink_block sb block ino c) (\<lambda>(ino, c). shrink_loop sb (block - 1) end_block ino c)
      else Some (ino, c))"
  by pat_completeness auto
termination
  by (relation "measure (\<lambda>(sb, b, e, i, c). b)") auto

definition shrink_zone :: "minix3_superblock \<Rightarrow> minix2_inode \<Rightarrow> nat \<Rightarrow> block_cache \<Rightarrow> (minix2_inode \<times> block_cache) option" where
  "shrink_zone sb ino sz c =
     map_option (\<lambda>(ino, c). (ino\<lparr>i_size := sz\<rparr>, c))
       (shrink_loop sb (trunc16 (i_size ino div BLOCK_SIZE)) (trunc16 (sz div BLOCK_SIZE)) ino c)"

text \<open>The disk block of a block of the file, 0 for a hole.\<close>

definition get_block :: "minix3_superblock \<Rightarrow> nat \<Rightarrow> nat \<Rightarrow> block_cache \<Rightarrow> (nat \<times> block_cache) option" where
  "get_block sb idx block c =
     Option.bind (read_inode sb idx c) (\<lambda>(ino, c).
       let z0 = zone_slot block;
           z1 = trunc16 (i_zone ino ! z0)
       in if i_zone ino ! z0 = 0 then Some (0, c)
          else if z0 = 7 then
            map_option (\<lambda>(zones, c). (trunc16 (get_zone zones (block - 7)), c)) (block_read z1 c)
          else if z0 = 8 then
            Option.bind (block_read z1 c) (\<lambda>(zones, c).
              let z2 = (block - (7 + ZONES_PER_BLOCK)) div ZONES_PER_BLOCK in
              if get_zone zones z2 = 0 then Some (0, c)
              else
                map_option (\<lambda>(zones, c). (trunc16 (get_zone zones ((block - (7 + ZONES_PER_BLOCK)) mod ZONES_PER_BLOCK)), c))
                  (block_read (trunc16 (get_zone zones z2)) c))
          else Some (trunc16 (i_zone ino ! z0), c))"

subsection \<open>Inodes in memory\<close>

record inode =
  in_mode :: nat
  in_nlinks :: nat
  in_size :: nat

text \<open>The inodes in memory are a list keyed by their index, searched before one is added.\<close>

record fs =
  fs_cache :: block_cache
  fs_super :: minix3_superblock
  fs_inodes :: "nat \<rightharpoonup> inode"

definition inode_init :: "block_cache \<Rightarrow> minix3_superblock \<Rightarrow> fs" where
  "inode_init c sb = \<lparr>fs_cache = c, fs_super = sb, fs_inodes = Map.empty\<rparr>"

definition get_inode :: "nat \<Rightarrow> fs \<Rightarrow> fs" where
  "get_inode idx s =
     (case fs_inodes s idx of
        Some ino \<Rightarrow> s
      | None \<Rightarrow> s\<lparr>fs_inodes := (fs_inodes s)(idx \<mapsto> \<lparr>in_mode = 0, in_nlinks = 0, in_size = 0\<rparr>)\<rparr>)"

definition release_inode :: "nat \<Rightarrow> fs \<Rightarrow> fs" where
  "release_inode idx s = s\<lparr>fs_inodes := (fs_inodes s)(idx := None)\<rparr>"

definition upd_inode :: "nat \<Rightarrow> (inode \<Rightarrow> inode) \<Rightarrow> fs \<Rightarrow> fs" where
  "upd_inode idx f s = s\<lparr>fs_inodes := (fs_inodes s)(idx := map_option f (fs_inodes s idx))\<rparr>"

definition on_cache :: "fs \<Rightarrow> ('a \<times> block_cache) option \<Rightarrow> ('a \<times> fs) option" where
  "on_cache s r = map_option (\<lambda>(x, c). (x, s\<lparr>fs_cache := c\<rparr>)) r"

definition calculate_block_offset :: "nat \<Rightarrow> nat" where
  "calculate_block_offset start = start mod BLOCK_SIZE"

definition calculate_block_copy_size :: "nat \<Rightarrow> nat \<Rightarrow> nat" where
  "calculate_block_copy_size start sz =
     (let off = calculate_block_offset start
      in if trunc32 (off + sz) > BLOCK_SIZE then BLOCK_SIZE - off else sz)"

text \<open>The new inode's index, 0 for the null pointer.\<close>

definition inode_create :: "nat \<Rightarrow> fs \<Rightarrow> (nat \<times> fs) option" where
  "inode_create mode s =
     Option.bind (on_cache s (mark_imap (fs_super s) (fs_cache s))) (\<lambda>(idx, s).
       if idx = 0 then Some (0, s)
       else
         Option.bind (on_cache s (mark_zmap (fs_super s) (fs_cache s))) (\<lambda>(z, s).
           if z = 0 then
             map_option (\<lambda>c. (0, s\<lparr>fs_cache := c\<rparr>)) (unmark_imap idx (fs_cache s))
           else
             let ino = zero_inode\<lparr>i_mode := trunc16 mode, i_zone := (i_zone zero_inode)[0 := z]\<rparr> in
             Option.bind (write_inode (fs_super s) idx ino (fs_cache s)) (\<lambda>c.
               let s = get_inode idx (s\<lparr>fs_cache := c\<rparr>)
               in Some (idx, upd_inode idx (in_mode_update (\<lambda>_. mode)) s))))"

text \<open>
  The loop of \<^verbatim>\<open>inode_truncate\<close> that clears the new bytes: \<open>Some True\<close> when they are cleared,
  \<open>Some False\<close> when a block is missing.
\<close>

partial_function (option) clear_loop :: "minix3_superblock \<Rightarrow> nat \<Rightarrow> nat \<Rightarrow> nat \<Rightarrow> nat \<Rightarrow> block_cache \<Rightarrow> (bool \<times> block_cache) option" where
  "clear_loop sb idx sz tstart tsize c =
     (if tsize > 0 then
        let toffset = calculate_block_offset tstart;
            tcopy = calculate_block_copy_size tstart tsize
        in Option.bind (get_block sb idx (trunc16 (tstart div BLOCK_SIZE)) c) (\<lambda>(b, c).
             if b = 0 then Some (False, c)
             else
               Option.bind (block_read b c) (\<lambda>(buf, c).
               Option.bind (block_write b (copy_into buf toffset (\<lambda>_. 0) 0 tcopy) c) (\<lambda>c.
                 let tstart = trunc32 (tstart + tcopy);
                     tsize = tsize - tcopy
                 in if trunc32 (tstart + tsize) \<noteq> sz then None else clear_loop sb idx sz tstart tsize c)))
      else Some (True, c))"

definition inode_truncate :: "nat \<Rightarrow> nat \<Rightarrow> fs \<Rightarrow> (int \<times> fs) option" where
  "inode_truncate idx sz s =
     Option.bind (fs_inodes s idx) (\<lambda>node.
       let sb = fs_super s in
       if sz = in_size node then Some (0, s)
       else
         Option.bind (read_inode sb idx (fs_cache s)) (\<lambda>(ino, c).
           let finish = (\<lambda>(ino, c).
                 map_option (\<lambda>c. (0, upd_inode idx (in_size_update (\<lambda>_. i_size ino)) (s\<lparr>fs_cache := c\<rparr>)))
                   (write_inode sb idx ino c))
           in if sz > in_size node then
                Option.bind (extend_zone sb ino sz c) (\<lambda>(r, ino, c).
                  if r < 0 then Some (r, s\<lparr>fs_cache := c\<rparr>)
                  else
                    Option.bind (clear_loop sb idx sz (in_size node) (sz - in_size node) c) (\<lambda>(ok, c).
                      if ok then finish (ino, c) else Some (- errno_code ENOSPC, s\<lparr>fs_cache := c\<rparr>)))
              else
                Option.bind (shrink_zone sb ino sz c) finish))"

definition inode_destroy :: "nat \<Rightarrow> fs \<Rightarrow> (int \<times> fs) option" where
  "inode_destroy idx s =
     Option.bind (inode_truncate idx 0 s) (\<lambda>(_, s).
     Option.bind (on_cache s (read_inode (fs_super s) idx (fs_cache s))) (\<lambda>(ino, s).
     Option.bind (unmark_zmap (fs_super s) (i_zone ino ! 0) (fs_cache s)) (\<lambda>c.
     Option.bind (write_inode (fs_super s) idx zero_inode c) (\<lambda>c.
     Option.bind (unmark_imap idx c) (\<lambda>c.
       Some (0, release_inode idx (s\<lparr>fs_cache := c\<rparr>)))))))"

definition inode_get :: "nat \<Rightarrow> fs \<Rightarrow> (nat \<times> fs) option" where
  "inode_get idx s =
     Option.bind (on_cache s (read_inode (fs_super s) idx (fs_cache s))) (\<lambda>(ino, s).
       let s = get_inode idx s
       in Some (idx, upd_inode idx (\<lambda>_. \<lparr>in_mode = i_mode ino, in_nlinks = i_nlinks ino, in_size = i_size ino\<rparr>) s))"

definition inode_set :: "nat \<Rightarrow> fs \<Rightarrow> fs option" where
  "inode_set idx s =
     Option.bind (fs_inodes s idx) (\<lambda>node.
     Option.bind (read_inode (fs_super s) idx (fs_cache s)) (\<lambda>(ino, c).
       let ino = ino\<lparr>i_mode := trunc16 (in_mode node), i_size := in_size node, i_nlinks := trunc16 (in_nlinks node)\<rparr>
       in map_option (\<lambda>c. s\<lparr>fs_cache := c\<rparr>) (write_inode (fs_super s) idx ino c)))"

text \<open>
  The loops over the blocks of a request.  The counter is a \<^verbatim>\<open>uint16_t\<close>: a request that ends in block
  65535 would wrap around and never finish.
\<close>

partial_function (option) write_loop ::
    "nat \<Rightarrow> nat \<Rightarrow> data \<Rightarrow> nat \<Rightarrow> nat \<Rightarrow> nat \<Rightarrow> nat \<Rightarrow> fs \<Rightarrow> (int \<times> fs) option" where
  "write_loop idx sz d ind_end ind_zone cur_start cur_size s =
     (if ind_zone \<le> ind_end then
        let off = calculate_block_offset cur_start;
            copy = calculate_block_copy_size cur_start cur_size;
            fail = (\<lambda>e s. Some (if sz = cur_size then e else int (sz - cur_size), s))
        in Option.bind (fs_inodes s idx) (\<lambda>node.
           Option.bind (if trunc32 (cur_start + copy) > in_size node then inode_truncate idx (trunc32 (cur_start + copy)) s else Some (0, s))
             (\<lambda>(r, s).
               if r < 0 then fail r s
               else
                 Option.bind (on_cache s (get_block (fs_super s) idx ind_zone (fs_cache s))) (\<lambda>(b, s).
                   if b = 0 then fail (- errno_code EINVAL) s
                   else
                     Option.bind (block_read b (fs_cache s)) (\<lambda>(buf, c).
                     Option.bind (block_write b (copy_into buf off d (sz - cur_size) copy) c) (\<lambda>c.
                       write_loop idx sz d ind_end (trunc16 (ind_zone + 1)) (trunc32 (cur_start + copy)) (cur_size - copy)
                         (s\<lparr>fs_cache := c\<rparr>))))))
      else Some (int sz, s))"

definition inode_write :: "nat \<Rightarrow> nat \<Rightarrow> nat \<Rightarrow> data \<Rightarrow> fs \<Rightarrow> (int \<times> fs) option" where
  "inode_write idx sz start d s =
     (let ind_start = trunc16 (start div BLOCK_SIZE);
          ind_end = trunc16 (trunc32 (start + sz) div BLOCK_SIZE)
      in if ind_end < ind_start then Some (- 1, s)
         else write_loop idx sz d ind_end ind_start start sz s)"

partial_function (option) read_loop ::
    "nat \<Rightarrow> nat \<Rightarrow> nat \<Rightarrow> nat \<Rightarrow> nat \<Rightarrow> nat \<Rightarrow> u8 list \<Rightarrow> fs \<Rightarrow> (u8 list \<times> fs) option" where
  "read_loop idx sz ind_end ind_zone cur_start cur_size got s =
     (if ind_zone \<le> ind_end then
        let off = calculate_block_offset cur_start;
            copy = calculate_block_copy_size cur_start cur_size
        in Option.bind (on_cache s (get_block (fs_super s) idx ind_zone (fs_cache s))) (\<lambda>(b, s).
           Option.bind (if b \<noteq> 0 then on_cache s (block_read b (fs_cache s)) else Some (\<lambda>_. 0, s)) (\<lambda>(buf, s).
             read_loop idx sz ind_end (trunc16 (ind_zone + 1)) (trunc32 (cur_start + copy)) (cur_size - copy)
               (got @ map (\<lambda>j. buf (off + j)) [0..<copy]) s))
      else Some (got, s))"

text \<open>The value returned and the bytes read.\<close>

definition inode_read :: "nat \<Rightarrow> nat \<Rightarrow> nat \<Rightarrow> fs \<Rightarrow> (int \<times> u8 list \<times> fs) option" where
  "inode_read idx sz start s =
     Option.bind (fs_inodes s idx) (\<lambda>node.
       if in_size node \<le> start then Some (0, [], s)
       else
         let sz = (if in_size node < trunc32 (start + sz) then in_size node - start else sz);
             ind_start = trunc16 (start div BLOCK_SIZE);
             ind_end = trunc16 (trunc32 (start + sz) div BLOCK_SIZE)
         in map_option (\<lambda>(got, s). (int sz, got, s)) (read_loop idx sz ind_end ind_start start sz [] s))"

declare find_bit.simps [simp del] scan_bytes.simps [simp del] mark_map_loop.simps [simp del]
  extend_loop.simps [simp del] shrink_loop.simps [simp del]

end
