(* ===== verification/Cy_Dentry.thy ===== *)
theory Cy_Dentry
  imports Cy_Inode Cy_Libgen
begin

text \<open>
  \<^verbatim>\<open>dentry.c\<close>: the tree of directory entries in memory.  An entry is known by a number, the address
  \<^verbatim>\<open>slab_cache_alloc\<close> gave it; the use of an entry that has been freed is \<^const>\<open>None\<close>.  The array
  \<^verbatim>\<open>name\<close> is the string it holds, at most \<^verbatim>\<open>NAME_MAX\<close> bytes, none of them 0; two names are equal when
  \<^verbatim>\<open>strncmp\<close> on \<^verbatim>\<open>NAME_MAX\<close> bytes says so.
\<close>

definition NAME_MAX :: nat where "NAME_MAX = 60"
definition PATH_MAX :: nat where "PATH_MAX = 1024"
definition DIRENT_SIZE :: nat where "DIRENT_SIZE = 64"

definition S_IFDIR :: nat where "S_IFDIR = 0x4000"
definition S_IFREG :: nat where "S_IFREG = 0x8000"

definition S_ISDIR :: "nat \<Rightarrow> bool" where
  "S_ISDIR m \<longleftrightarrow> m AND S_IFDIR \<noteq> 0"

record dentry =
  d_name :: "u8 list"
  d_loaded :: bool
  d_nentries :: nat
  d_inode :: nat
  d_parent :: nat
  d_children :: "nat list"

record vfs =
  v_fs :: fs
  dentries :: "nat \<rightharpoonup> dentry"
  next_dentry :: nat
  root_dentry :: nat

definition upd_dentry :: "nat \<Rightarrow> (dentry \<Rightarrow> dentry) \<Rightarrow> vfs \<Rightarrow> vfs" where
  "upd_dentry d f s = s\<lparr>dentries := (dentries s)(d := map_option f (dentries s d))\<rparr>"

definition on_fs :: "vfs \<Rightarrow> ('a \<times> fs) option \<Rightarrow> ('a \<times> vfs) option" where
  "on_fs s r = map_option (\<lambda>(x, f). (x, s\<lparr>v_fs := f\<rparr>)) r"

text \<open>The string in an array of \<^verbatim>\<open>NAME_MAX\<close> bytes.\<close>

definition array_name :: "u8 list \<Rightarrow> u8 list" where
  "array_name bs = takeWhile (\<lambda>c. c \<noteq> 0) (take NAME_MAX bs)"

definition alloc_dentry :: "nat option \<Rightarrow> nat \<Rightarrow> u8 list \<Rightarrow> vfs \<Rightarrow> nat \<times> vfs" where
  "alloc_dentry parent inode name s =
     (let new = next_dentry s
      in (new, s\<lparr>dentries := (dentries s)(new \<mapsto>
                   \<lparr>d_name = take NAME_MAX name, d_loaded = False, d_nentries = 0, d_inode = inode,
                    d_parent = (case parent of Some p \<Rightarrow> p | None \<Rightarrow> new), d_children = []\<rparr>),
                 next_dentry := new + 1\<rparr>))"

text \<open>The entries in the bytes of a directory: number of the inode and name.\<close>

definition dirent_at :: "u8 list \<Rightarrow> nat \<Rightarrow> nat \<times> u8 list" where
  "dirent_at bs i =
     (get32 (\<lambda>j. bs ! j) (i * DIRENT_SIZE), array_name (drop 4 (take DIRENT_SIZE (drop (i * DIRENT_SIZE) bs))))"

text \<open>The loop over the entries of one block: \<open>for (i = 0; i < rs / DIRENT_SIZE; ++i)\<close>.\<close>

fun load_entries :: "nat \<Rightarrow> (nat \<times> u8 list) list \<Rightarrow> nat list \<Rightarrow> vfs \<Rightarrow> (nat list \<times> vfs) option" where
  "load_entries d [] children s = Some (children, s)"
| "load_entries d ((ino, name) # es) children s =
     (if ino \<noteq> 0 then
        Option.bind (on_fs s (inode_get ino (v_fs s))) (\<lambda>(node, s).
          let (child, s) = alloc_dentry (Some d) node name s
          in load_entries d es (child # children) s)
      else load_entries d es children s)"

partial_function (option) load_loop :: "nat \<Rightarrow> nat \<Rightarrow> nat \<Rightarrow> nat list \<Rightarrow> vfs \<Rightarrow> (nat list option \<times> nat list \<times> vfs) option" where
  "load_loop d inode off children s =
     Option.bind (inode_read inode BLOCK_SIZE off (v_fs s)) (\<lambda>(rs, bs, f).
       let s = s\<lparr>v_fs := f\<rparr> in
       if rs < 0 then Some (None, children, s)
       else if nat rs mod DIRENT_SIZE \<noteq> 0 then Some (None, children, s)
       else if rs = 0 then Some (Some children, [], s)
       else
         Option.bind (load_entries d (map (dirent_at bs) [0..<nat rs div DIRENT_SIZE]) children s) (\<lambda>(children, s).
           load_loop d inode (trunc32 (off + nat rs)) children s))"

definition read_children :: "nat \<Rightarrow> vfs \<Rightarrow> (int \<times> vfs) option" where
  "read_children d s =
     Option.bind (dentries s d) (\<lambda>e.
       if d_loaded e then Some (0, s)
       else
         Option.bind (fs_inodes (v_fs s) (d_inode e)) (\<lambda>node.
           if \<not> S_ISDIR (in_mode node) then Some (0, upd_dentry d (d_loaded_update (\<lambda>_. True)) s)
           else
             Option.bind (load_loop d (d_inode e) 0 [] s) (\<lambda>(r, dropped, s).
               case r of
                 None \<Rightarrow> Some (- 1, s\<lparr>dentries := (dentries s) |` (- set dropped)\<rparr>)
               | Some children \<Rightarrow>
                   let s = upd_dentry d (\<lambda>e. e\<lparr>d_nentries := d_nentries e + length children\<rparr>) s;
                       s = upd_dentry d (\<lambda>e. e\<lparr>d_children := children @ d_children e\<rparr>) s
                   in Some (0, upd_dentry d (d_loaded_update (\<lambda>_. True)) s))))"

text \<open>
  A directory entry as it is written.  \<^verbatim>\<open>strcpy\<close> of a name that fills its array writes one byte past
  the structure on the stack: \<^const>\<open>None\<close>.
\<close>

definition dirent_bytes :: "nat \<Rightarrow> u8 list \<Rightarrow> data" where
  "dirent_bytes ino name =
     (\<lambda>j. if j < 4 then put32 0 ino (\<lambda>_. 0) j else if j - 4 < length name then name ! (j - 4) else 0)"

definition write_child :: "nat \<Rightarrow> vfs \<Rightarrow> (int \<times> vfs) option" where
  "write_child d s =
     Option.bind (dentries s d) (\<lambda>e.
     Option.bind (dentries s (d_parent e)) (\<lambda>p.
     Option.bind (fs_inodes (v_fs s) (d_inode p)) (\<lambda>pnode.
       if length (d_name e) \<ge> NAME_MAX then None
       else
         map_option (\<lambda>(r, s). (if r < 0 then - 1 else 0, s))
           (on_fs s (inode_write (d_inode p) DIRENT_SIZE (in_size pnode) (dirent_bytes (d_inode e) (d_name e)) (v_fs s))))))"

fun find_entry :: "u8 list \<Rightarrow> (nat \<times> u8 list) list \<Rightarrow> nat \<Rightarrow> nat option" where
  "find_entry name [] i = None"
| "find_entry name ((ino, n) # es) i = (if ino \<noteq> 0 \<and> n = name then Some i else find_entry name es (i + 1))"

partial_function (option) remove_loop :: "nat \<Rightarrow> u8 list \<Rightarrow> nat \<Rightarrow> vfs \<Rightarrow> (int \<times> vfs) option" where
  "remove_loop inode name off s =
     Option.bind (inode_read inode BLOCK_SIZE off (v_fs s)) (\<lambda>(rs, bs, f).
       let s = s\<lparr>v_fs := f\<rparr> in
       if rs < 0 then Some (- 1, s)
       else if rs = 0 \<or> nat rs mod DIRENT_SIZE \<noteq> 0 then Some (- 1, s)
       else
         (case find_entry name (map (dirent_at bs) [0..<nat rs div DIRENT_SIZE]) 0 of
            Some i \<Rightarrow>
              map_option (\<lambda>(r, s). (if r \<noteq> int DIRENT_SIZE then - 1 else 0, s))
                (on_fs s (inode_write inode DIRENT_SIZE (trunc32 (off + i * DIRENT_SIZE))
                   (put32 0 0 (\<lambda>j. bs ! (i * DIRENT_SIZE + j))) (v_fs s)))
          | None \<Rightarrow> remove_loop inode name (trunc32 (off + nat rs)) s))"

definition remove_child :: "nat \<Rightarrow> u8 list \<Rightarrow> vfs \<Rightarrow> (int \<times> vfs) option" where
  "remove_child d name s = Option.bind (dentries s d) (\<lambda>e. remove_loop (d_inode e) name 0 s)"

definition find_child :: "u8 list \<Rightarrow> nat list \<Rightarrow> vfs \<Rightarrow> nat option" where
  "find_child name children s =
     find (\<lambda>c. case dentries s c of Some e \<Rightarrow> d_name e = take NAME_MAX name | None \<Rightarrow> False) children"

text \<open>
  The walk of \<^verbatim>\<open>lookup_dentry\<close> along the path; \<open>p\<close> is the rest of the string.  The result is the entry or
  the null pointer.
\<close>

function walk :: "nat \<Rightarrow> u8 list \<Rightarrow> vfs \<Rightarrow> (nat option \<times> vfs) option" where
  "walk cur p s =
     (case p of
        [] \<Rightarrow> map_option (\<lambda>(_, s). (Some cur, s)) (read_children cur s)
      | _ # p \<Rightarrow>
          Option.bind (read_children cur s) (\<lambda>(_, s).
            let comp = takeWhile (\<lambda>c. c \<noteq> slash) p;
                pn = dropWhile (\<lambda>c. c \<noteq> slash) p
            in if comp = [] then walk cur p s
               else if length comp > NAME_MAX then Some (None, s)
               else
                 Option.bind (dentries s cur) (\<lambda>e.
                   case find_child comp (d_children e) s of
                     None \<Rightarrow> Some (None, s)
                   | Some child \<Rightarrow> walk child pn s)))"
  by pat_completeness auto
termination
  by (relation "measure (\<lambda>(c, p, s). length p)") (auto simp: le_imp_less_Suc length_dropWhile_le)

definition lookup_dentry :: "u8 list \<Rightarrow> vfs \<Rightarrow> (nat option \<times> vfs) option" where
  "lookup_dentry path s =
     (if path = [] \<or> hd path \<noteq> slash then Some (None, s) else walk (root_dentry s) path s)"

definition create_dentry :: "nat \<Rightarrow> u8 list \<Rightarrow> nat \<Rightarrow> vfs \<Rightarrow> (int \<times> vfs) option" where
  "create_dentry d name inode s =
     (if length name > NAME_MAX then Some (- 1, s)
      else
        Option.bind (read_children d s) (\<lambda>(_, s).
        Option.bind (dentries s d) (\<lambda>e.
          if find_child name (d_children e) s \<noteq> None then Some (- 1, s)
          else
            let (new, s) = alloc_dentry (Some d) inode name s;
                s = upd_dentry d (\<lambda>e. e\<lparr>d_children := new # d_children e\<rparr>) s
            in Option.bind (write_child new s) (\<lambda>(_, s).
                 let s = upd_dentry d (\<lambda>e. e\<lparr>d_nentries := d_nentries e + 1\<rparr>) s;
                     s = s\<lparr>v_fs := upd_inode inode (\<lambda>n. n\<lparr>in_nlinks := trunc32 (in_nlinks n + 1)\<rparr>) (v_fs s)\<rparr>
                 in map_option (\<lambda>f. (0, s\<lparr>v_fs := f\<rparr>)) (inode_set inode (v_fs s))))))"

definition destroy_dentry :: "nat \<Rightarrow> vfs \<Rightarrow> (int \<times> vfs) option" where
  "destroy_dentry d s =
     Option.bind (dentries s d) (\<lambda>e.
     Option.bind (remove_child (d_parent e) (d_name e) s) (\<lambda>(r, s).
       if r < 0 then Some (- 1, s)
       else
         let s = upd_dentry (d_parent e) (\<lambda>p. p\<lparr>d_nentries := trunc32 (d_nentries p + 2 ^ 32 - 1)\<rparr>) s;
             s = s\<lparr>v_fs := upd_inode (d_inode e) (\<lambda>n. n\<lparr>in_nlinks := trunc32 (in_nlinks n + 2 ^ 32 - 1)\<rparr>) (v_fs s)\<rparr>
         in Option.bind (inode_set (d_inode e) (v_fs s)) (\<lambda>f.
              let s = s\<lparr>v_fs := f\<rparr>;
                  s = upd_dentry (d_parent e) (\<lambda>p. p\<lparr>d_children := remove1 d (d_children p)\<rparr>) s
              in Some (0, s\<lparr>dentries := (dentries s)(d := None)\<rparr>))))"

definition dentry_init :: "fs \<Rightarrow> vfs option" where
  "dentry_init f =
     Option.bind (inode_get 1 f) (\<lambda>(node, f).
       let (root, s) = alloc_dentry None node [] \<lparr>v_fs = f, dentries = Map.empty, next_dentry = 0, root_dentry = 0\<rparr>
       in Some (s\<lparr>root_dentry := root\<rparr>))"

definition dentry_lookup :: "u8 list \<Rightarrow> vfs \<Rightarrow> (nat option \<times> vfs) option" where
  "dentry_lookup path s =
     (if length path \<ge> PATH_MAX then Some (None, s) else lookup_dentry path s)"

definition dentry_link :: "nat \<Rightarrow> u8 list \<Rightarrow> nat \<Rightarrow> vfs \<Rightarrow> (int \<times> vfs) option" where
  "dentry_link d name inode s = create_dentry d name inode s"

definition dentry_unlink :: "nat \<Rightarrow> vfs \<Rightarrow> (int \<times> vfs) option" where
  "dentry_unlink d s = destroy_dentry d s"

declare walk.simps [simp del]

end
