(* ===== verification/Cy_Fs.thy ===== *)
theory Cy_Fs
  imports Cy_Dentry Cy_Unix
begin

text \<open>
  \<^verbatim>\<open>fs.c\<close>: the operations on paths.  A result is the C return value, with errors as the negated error
  numbers.  \<^verbatim>\<open>dirname\<close> and \<^verbatim>\<open>basename\<close> work on a copy of the path in a scratch page; the functions on
  strings that \<^theory_text>\<open>Cy_Libgen\<close> proves equal to them are used in their place.
\<close>

fun unlink_all :: "nat list \<Rightarrow> vfs \<Rightarrow> vfs option" where
  "unlink_all [] s = Some s"
| "unlink_all (c # cs) s = Option.bind (dentry_unlink c s) (\<lambda>(_, s). unlink_all cs s)"

definition remove_dentry_and_children :: "nat \<Rightarrow> vfs \<Rightarrow> vfs option" where
  "remove_dentry_and_children d s =
     Option.bind (dentries s d) (\<lambda>e.
     Option.bind (unlink_all (d_children e) s) (\<lambda>s.
       map_option snd (dentry_unlink d s)))"

definition fs_init :: "(nat \<Rightarrow> data) \<Rightarrow> data \<Rightarrow> (nat \<Rightarrow> bool) \<Rightarrow> vfs option" where
  "fs_init disk0 page memory =
     (let c = block_init disk0 page memory
      in Option.bind (superblock_init c) (\<lambda>(sb, c). dentry_init (inode_init c sb)))"

definition path_too_long :: "u8 list \<Rightarrow> bool" where
  "path_too_long path \<longleftrightarrow> length path \<ge> PATH_MAX"

definition destroy_inode :: "nat \<Rightarrow> vfs \<Rightarrow> vfs option" where
  "destroy_inode inode s = map_option snd (on_fs s (inode_destroy inode (v_fs s)))"

definition fs_create :: "u8 list \<Rightarrow> u32 \<Rightarrow> nat \<Rightarrow> vfs \<Rightarrow> (int \<times> vfs) option" where
  "fs_create path flags mode s =
     (if path_too_long path then Some (- errno_code ENAMETOOLONG, s)
      else
        Option.bind (dentry_lookup path s) (\<lambda>(d, s).
          if d \<noteq> None then Some (if flags AND O_EXCL \<noteq> 0 then - errno_code EEXIST else 0, s)
          else
            Option.bind (dentry_lookup (dirname_str path) s) (\<lambda>(d, s).
              case d of
                None \<Rightarrow> Some (- errno_code EEXIST, s)
              | Some d \<Rightarrow>
                  Option.bind (on_fs s (inode_create (mode AND 0x1ff OR S_IFREG) (v_fs s))) (\<lambda>(inode, s).
                    if inode = 0 then Some (- errno_code ENOSPC, s)
                    else
                      Option.bind (dentry_link d (basename_str path) inode s) (\<lambda>(r, s).
                        if r < 0 then map_option (\<lambda>s. (r, s)) (destroy_inode inode s)
                        else Some (0, s))))))"

definition fs_unlink :: "u8 list \<Rightarrow> vfs \<Rightarrow> (int \<times> vfs) option" where
  "fs_unlink path s =
     (if path_too_long path then Some (- errno_code ENAMETOOLONG, s)
      else
        Option.bind (dentry_lookup path s) (\<lambda>(d, s).
          case d of
            None \<Rightarrow> Some (- errno_code ENOENT, s)
          | Some d \<Rightarrow>
              Option.bind (dentries s d) (\<lambda>e.
              Option.bind (fs_inodes (v_fs s) (d_inode e)) (\<lambda>node.
                if S_ISDIR (in_mode node) then Some (- errno_code EISDIR, s)
                else
                  Option.bind (dentry_unlink d s) (\<lambda>(r, s).
                    if r < 0 then Some (r, s)
                    else
                      Option.bind (fs_inodes (v_fs s) (d_inode e)) (\<lambda>node.
                        if in_nlinks node = 0 then map_option (\<lambda>s. (0, s)) (destroy_inode (d_inode e) s)
                        else Some (0, s)))))))"

definition mkdir_fail :: "int \<Rightarrow> nat option \<Rightarrow> nat \<Rightarrow> vfs \<Rightarrow> (int \<times> vfs) option" where
  "mkdir_fail errno d inode s =
     Option.bind (case d of None \<Rightarrow> Some s | Some d \<Rightarrow> remove_dentry_and_children d s) (\<lambda>s.
       if inode \<noteq> 0 then map_option (\<lambda>s. (errno, s)) (destroy_inode inode s) else Some (errno, s))"

definition fs_mkdir :: "u8 list \<Rightarrow> nat \<Rightarrow> vfs \<Rightarrow> (int \<times> vfs) option" where
  "fs_mkdir path mode s =
     (if path_too_long path then Some (- errno_code ENAMETOOLONG, s)
      else
        Option.bind (dentry_lookup path s) (\<lambda>(d, s).
          if d \<noteq> None then Some (- errno_code EEXIST, s)
          else
            Option.bind (dentry_lookup (dirname_str path) s) (\<lambda>(parent, s).
              case parent of
                None \<Rightarrow> Some (- errno_code ENOENT, s)
              | Some parent \<Rightarrow>
                  Option.bind (on_fs s (inode_create (mode AND 0x1ff OR S_IFDIR) (v_fs s))) (\<lambda>(inode, s).
                    if inode = 0 then Some (- errno_code ENOSPC, s)
                    else
                      Option.bind (dentry_link parent (basename_str path) inode s) (\<lambda>(r, s).
                        if r < 0 then mkdir_fail r None inode s
                        else
                          Option.bind (dentry_lookup path s) (\<lambda>(d, s).
                            case d of
                              None \<Rightarrow> mkdir_fail r None inode s
                            | Some d \<Rightarrow>
                                Option.bind (dentry_link d [dot] inode s) (\<lambda>(r, s).
                                  if r < 0 then mkdir_fail r (Some d) inode s
                                  else
                                    Option.bind (dentries s d) (\<lambda>e.
                                    Option.bind (dentries s (d_parent e)) (\<lambda>p.
                                    Option.bind (dentry_link d [dot, dot] (d_inode p) s) (\<lambda>(r, s).
                                      if r < 0 then mkdir_fail r (Some d) inode s
                                      else Some (0, s)))))))))))"

definition fs_rmdir :: "u8 list \<Rightarrow> vfs \<Rightarrow> (int \<times> vfs) option" where
  "fs_rmdir path s =
     (if path_too_long path then Some (- errno_code ENAMETOOLONG, s)
      else
        Option.bind (dentry_lookup path s) (\<lambda>(d, s).
          case d of
            None \<Rightarrow> Some (- errno_code ENOENT, s)
          | Some d \<Rightarrow>
              Option.bind (dentries s d) (\<lambda>e.
              Option.bind (fs_inodes (v_fs s) (d_inode e)) (\<lambda>node.
                if \<not> S_ISDIR (in_mode node) then Some (- errno_code ENOTDIR, s)
                else if d_nentries e \<noteq> 2 then Some (- errno_code ENOTEMPTY, s)
                else if \<exists>c \<in> set (d_children e). case dentries s c of
                          None \<Rightarrow> True | Some x \<Rightarrow> d_name x \<noteq> [dot] \<and> d_name x \<noteq> [dot, dot]
                then Some (- errno_code EINVAL, s)
                else
                  Option.bind (remove_dentry_and_children d s) (\<lambda>s.
                    map_option (\<lambda>s. (0, s)) (destroy_inode (d_inode e) s))))))"

subsection \<open>File status\<close>

record stat64 =
  st_ino :: nat
  st_mode :: nat
  st_nlink :: nat
  st_size :: nat
  st_blksize :: nat
  st_blocks :: nat

definition inode_stat :: "nat \<Rightarrow> inode \<Rightarrow> stat64" where
  "inode_stat idx node =
     \<lparr>st_ino = idx, st_mode = in_mode node, st_nlink = in_nlinks node, st_size = in_size node,
      st_blksize = BLOCK_SIZE, st_blocks = in_size node div BLOCK_SIZE\<rparr>"

definition fs_lstat64 :: "u8 list \<Rightarrow> vfs \<Rightarrow> (int \<times> stat64 option \<times> vfs) option" where
  "fs_lstat64 path s =
     Option.bind (dentry_lookup path s) (\<lambda>(d, s).
       case d of
         None \<Rightarrow> Some (- errno_code ENOENT, None, s)
       | Some d \<Rightarrow>
           Option.bind (dentries s d) (\<lambda>e.
           Option.bind (fs_inodes (v_fs s) (d_inode e)) (\<lambda>node.
             Some (0, Some (inode_stat (d_inode e) node), s))))"

text \<open>The kinds of an open file; for \<^verbatim>\<open>fs_fstat64\<close> a terminal and a pipe look the same.\<close>

datatype file_type = FF_UNUSED | FF_TTY | FF_INODE | FF_PIPE

definition S_IFCHR :: nat where "S_IFCHR = 0x2000"
definition S_IRUSR :: nat where "S_IRUSR = 0x100"
definition S_IWUSR :: nat where "S_IWUSR = 0x80"

definition fs_fstat64 :: "file_type \<Rightarrow> nat \<Rightarrow> vfs \<Rightarrow> (int \<times> stat64 option) option" where
  "fs_fstat64 ty d s =
     (case ty of
        FF_INODE \<Rightarrow>
          Option.bind (dentries s d) (\<lambda>e.
          Option.bind (fs_inodes (v_fs s) (d_inode e)) (\<lambda>node.
            Some (0, Some (inode_stat (d_inode e) node))))
      | FF_UNUSED \<Rightarrow> Some (- errno_code EINVAL, None)
      | _ \<Rightarrow>
          Some (0, Some \<lparr>st_ino = 0, st_mode = S_IFCHR OR S_IRUSR OR S_IWUSR, st_nlink = 1, st_size = 0,
                         st_blksize = BLOCK_SIZE, st_blocks = 0\<rparr>))"

end
