(* ===== verification/Cy_Inode_Correct.thy ===== *)
theory Cy_Inode_Correct
  imports Cy_Inode
begin

text \<open>Correctness of the Minix inode layer.\<close>

subsection \<open>Numbers in blocks\<close>

lemma unat_byte [simp]: "unat (of_nat n :: u8) = n mod 2 ^ 8"
  by (simp add: unat_of_nat)

lemma get16_put16: "get16 (put16 i n d) j = (if j = i then n mod 2 ^ 16 else get16 d j)" if "j = i \<or> j + 1 < i \<or> i + 1 < j"
proof (cases "j = i")
  case True
  have "n mod 256 + 256 * (n div 256 mod 256) = n mod 65536"
    using mod_mult2_eq [of n 256 256] by (simp add: mult.commute)
  then show ?thesis using True by (simp add: get16_def put16_def)
next
  case False
  then show ?thesis using that by (auto simp: get16_def put16_def)
qed

lemma get32_put16: "get32 (put16 i n d) j = get32 d j" if "j + 3 < i \<or> i + 1 < j"
  using that by (auto simp: get32_def get16_put16)

lemma get16_put32: "get16 (put32 i n d) j = get16 d j" if "j + 1 < i \<or> i + 3 < j"
  using that by (auto simp: put32_def get16_put16)

lemma get32_put32: "get32 (put32 i n d) j = (if j = i then n mod 2 ^ 32 else get32 d j)" if "j = i \<or> j + 3 < i \<or> i + 3 < j"
proof (cases "j = i")
  case True
  have "n mod 65536 + 65536 * (n div 65536 mod 65536) = n mod 4294967296"
    using mod_mult2_eq [of n 65536 65536] by (simp add: mult.commute)
  then show ?thesis using True by (simp add: get32_def put32_def get16_put16)
next
  case False
  then show ?thesis using that by (auto simp: put32_def get32_put16)
qed

lemmas get_put = get16_put16 get32_put16 get16_put32 get32_put32

subsection \<open>Inodes in blocks\<close>

definition inode_ok :: "minix2_inode \<Rightarrow> bool" where
  "inode_ok ino \<longleftrightarrow> i_mode ino < 2 ^ 16 \<and> i_nlinks ino < 2 ^ 16 \<and> i_uid ino < 2 ^ 16 \<and> i_gid ino < 2 ^ 16 \<and>
     i_size ino < 2 ^ 32 \<and> i_atime ino < 2 ^ 32 \<and> i_mtime ino < 2 ^ 32 \<and> i_ctime ino < 2 ^ 32 \<and>
     length (i_zone ino) = 10 \<and> (\<forall>z \<in> set (i_zone ino). z < 2 ^ 32)"

text \<open>The zones are the last ten numbers of the structure.\<close>

definition put_zones :: "nat \<Rightarrow> nat list \<Rightarrow> nat \<Rightarrow> data \<Rightarrow> data" where
  "put_zones a zs n d = fold (\<lambda>k. put32 (a + 24 + 4 * k) (zs ! k)) [0..<n] d"

lemma put_zones_Suc: "put_zones a zs (Suc n) d = put32 (a + 24 + 4 * n) (zs ! n) (put_zones a zs n d)"
  by (simp add: put_zones_def)

lemma get16_put_zones: "get16 (put_zones a zs n d) j = get16 d j" if "j + 1 < a + 24 \<or> a + 24 + 4 * n \<le> j"
  using that by (induction n) (auto simp: put_zones_Suc get_put put_zones_def [of _ _ 0])

lemma get32_put_zones: "get32 (put_zones a zs n d) j = get32 d j" if "j + 3 < a + 24 \<or> a + 24 + 4 * n \<le> j"
  using that by (induction n) (auto simp: put_zones_Suc get_put put_zones_def [of _ _ 0])

lemma get32_put_zones_at: "k < n \<Longrightarrow> get32 (put_zones a zs n d) (a + 24 + 4 * k) = zs ! k mod 2 ^ 32"
proof (induction n)
  case (Suc n)
  then show ?case by (cases "k = n") (simp_all add: put_zones_Suc get_put)
qed simp

lemma put_inode_zones:
  "put_inode a ino d = put_zones a (i_zone ino) 10
     (put32 (a + 20) (i_ctime ino) (put32 (a + 16) (i_mtime ino) (put32 (a + 12) (i_atime ino)
       (put32 (a + 8) (i_size ino) (put16 (a + 6) (i_gid ino) (put16 (a + 4) (i_uid ino)
         (put16 (a + 2) (i_nlinks ino) (put16 a (i_mode ino) d))))))))"
  by (simp add: put_inode_def put_zones_def)

lemma inode_at_put_inode:
  assumes "inode_ok ino"
  shows "inode_at (put_inode a ino d) a = ino"
proof -
  have "map (\<lambda>k. get32 (put_inode a ino d) (a + 24 + 4 * k)) [0..<10] = i_zone ino"
    using assms by (intro nth_equalityI) (auto simp: put_inode_zones get32_put_zones_at inode_ok_def)
  then have "inode_at (put_inode a ino d) a =
      \<lparr>i_mode = i_mode ino, i_nlinks = i_nlinks ino, i_uid = i_uid ino, i_gid = i_gid ino, i_size = i_size ino,
       i_atime = i_atime ino, i_mtime = i_mtime ino, i_ctime = i_ctime ino, i_zone = i_zone ino\<rparr>"
    using assms unfolding inode_at_def by (simp add: put_inode_zones get16_put_zones get32_put_zones get_put inode_ok_def)
  then show ?thesis by simp
qed

lemma inode_at_put_inode_other:
  assumes "b + 64 \<le> a \<or> a + 64 \<le> b"
  shows "inode_at (put_inode a ino d) b = inode_at d b"
proof -
  have 16: "get16 (put_inode a ino d) j = get16 d j" if "j + 1 < a \<or> a + 64 \<le> j" for j
    using that by (auto simp: put_inode_zones get16_put_zones get_put)
  have 32: "get32 (put_inode a ino d) j = get32 d j" if "j + 3 < a \<or> a + 64 \<le> j" for j
    using that by (auto simp: put_inode_zones get32_put_zones get_put)
  have "map (\<lambda>k. get32 (put_inode a ino d) (b + 24 + 4 * k)) [0..<10] = map (\<lambda>k. get32 d (b + 24 + 4 * k)) [0..<10]"
    using assms by (auto simp: 32)
  then show ?thesis using assms unfolding inode_at_def by (auto simp: 16 32)
qed

subsection \<open>Inodes on the disk\<close>

lemma disk_stored [simp]: "coherent c \<Longrightarrow> disk (bd.stored i d c) = (disk c)(i := d)"
  by (rule bd.stored_contents)

declare bd.rd_touched [simp] bd.touched_inv [simp] bd.touched_contents [simp] bd.wr_stored [simp] bd.stored_inv [simp]

definition disk_inode :: "minix3_superblock \<Rightarrow> (nat \<Rightarrow> data) \<Rightarrow> nat \<Rightarrow> minix2_inode" where
  "disk_inode sb D idx = inode_at (D (inode_block sb idx)) (inode_place idx)"

definition put_disk_inode :: "minix3_superblock \<Rightarrow> nat \<Rightarrow> minix2_inode \<Rightarrow> (nat \<Rightarrow> data) \<Rightarrow> nat \<Rightarrow> data" where
  "put_disk_inode sb idx ino D = D(inode_block sb idx := put_inode (inode_place idx) ino (D (inode_block sb idx)))"

lemma read_inode_disk:
  "coherent c \<Longrightarrow> read_inode sb idx c = Some (disk_inode sb (disk c) idx, bd.touched (inode_block sb idx) c)"
  by (simp add: read_inode_def disk_inode_def)

definition inode_written :: "minix3_superblock \<Rightarrow> nat \<Rightarrow> minix2_inode \<Rightarrow> block_cache \<Rightarrow> block_cache" where
  "inode_written sb idx ino c =
     (let b = inode_block sb idx in bd.stored b (put_inode (inode_place idx) ino (disk c b)) (bd.touched b c))"

lemma write_inode_disk:
  assumes "coherent c"
  shows "write_inode sb idx ino c = Some (inode_written sb idx ino c)" "coherent (inode_written sb idx ino c)"
    "disk (inode_written sb idx ino c) = put_disk_inode sb idx ino (disk c)"
  using assms by (simp_all add: write_inode_def inode_written_def put_disk_inode_def Let_def)

text \<open>The table holds the inodes 1 to \<open>n\<close> in blocks that a \<^verbatim>\<open>uint16_t\<close> can number.\<close>

definition table_fits :: "minix3_superblock \<Rightarrow> nat \<Rightarrow> bool" where
  "table_fits sb n \<longleftrightarrow> INODE_ZONE_INDEX sb + n div INODES_PER_BLOCK < 2 ^ 16 \<and> n < 2 ^ 32"

lemma inode_location:
  assumes "table_fits sb n" "1 \<le> idx" "idx \<le> n"
  shows "inode_block sb idx = INODE_ZONE_INDEX sb + (idx - 1) div 64" "inode_place idx = 64 * ((idx - 1) mod 64)"
proof -
  have t: "trunc32 (idx + 2 ^ 32 - 1) = idx - 1"
  proof -
    obtain k where k: "idx = Suc k" using assms(2) by (cases idx) auto
    then have "k < 2 ^ 32" using assms(1,3) by (simp add: table_fits_def)
    then show ?thesis using k by (simp add: trunc32_def)
  qed
  have "(idx - 1) div 64 \<le> n div 64" using assms(3) by (intro div_le_mono) simp
  then have "INODE_ZONE_INDEX sb + (idx - 1) div 64 < 2 ^ 16"
    using assms(1) by (simp add: table_fits_def INODES_PER_BLOCK_def BLOCK_SIZE_def sizeof_minix2_inode_def)
  then show "inode_block sb idx = INODE_ZONE_INDEX sb + (idx - 1) div 64"
    unfolding inode_block_def t by (simp add: trunc16_def INODES_PER_BLOCK_def BLOCK_SIZE_def sizeof_minix2_inode_def)
  show "inode_place idx = 64 * ((idx - 1) mod 64)"
    unfolding inode_place_def t by (simp add: INODES_PER_BLOCK_def BLOCK_SIZE_def sizeof_minix2_inode_def)
qed

lemma put_disk_inode_other:
  assumes t: "table_fits sb n" and i: "1 \<le> i" "i \<le> n" and j: "1 \<le> j" "j \<le> n" and ok: "inode_ok ino"
  shows "disk_inode sb (put_disk_inode sb i ino D) j = (if j = i then ino else disk_inode sb D j)"
proof -
  consider "j = i" | "j \<noteq> i" "inode_block sb j \<noteq> inode_block sb i" | "j \<noteq> i" "inode_block sb j = inode_block sb i" by blast
  then show ?thesis
  proof cases
    case 1
    then show ?thesis using inode_at_put_inode [OF ok] by (simp add: disk_inode_def put_disk_inode_def)
  next
    case 2
    then show ?thesis by (simp add: disk_inode_def put_disk_inode_def)
  next
    case 3
    then have "(j - 1) div 64 = (i - 1) div 64" using inode_location(1) [OF t i] inode_location(1) [OF t j] by simp
    moreover have "j - 1 \<noteq> i - 1" using 3(1) i j by simp
    ultimately have "(j - 1) mod 64 \<noteq> (i - 1) mod 64" by (metis div_mult_mod_eq)
    then have "64 * ((j - 1) mod 64) + 64 \<le> 64 * ((i - 1) mod 64) \<or> 64 * ((i - 1) mod 64) + 64 \<le> 64 * ((j - 1) mod 64)"
      by linarith
    then have "inode_place j + 64 \<le> inode_place i \<or> inode_place i + 64 \<le> inode_place j"
      using inode_location(2) [OF t i] inode_location(2) [OF t j] by simp
    then show ?thesis using 3 inode_at_put_inode_other by (simp add: disk_inode_def put_disk_inode_def)
  qed
qed

text \<open>
  An inode written to the disk is read back unchanged, through the byte format of the Minix file
  system and through the block cache, and every other inode of the table is as it was.
\<close>

theorem write_inode_roundtrip:
  assumes "coherent c" "table_fits sb n" "1 \<le> i" "i \<le> n" "inode_ok ino"
  shows "\<exists>c'. write_inode sb i ino c = Some c' \<and> coherent c' \<and>
    map_option fst (read_inode sb i c') = Some ino \<and>
    (\<forall>j \<in> {1..n} - {i}. map_option fst (read_inode sb j c') = map_option fst (read_inode sb j c))"
  using assms write_inode_disk [OF assms(1), of sb i ino] put_disk_inode_other [OF assms(2-4)]
  by (auto simp: read_inode_disk)

theorem write_inode_roundtrip_witness:
  "\<exists>c'. write_inode (superblock_at (\<lambda>_. 0) 0) 3 (zero_inode\<lparr>i_size := 77\<rparr>) (block_init (\<lambda>_ _. 0) (\<lambda>_. 0) (\<lambda>_. True)) = Some c' \<and>
     map_option fst (read_inode (superblock_at (\<lambda>_. 0) 0) 3 c') = Some (zero_inode\<lparr>i_size := 77\<rparr>)"
proof -
  let ?sb = "superblock_at (\<lambda>_. 0) 0"
  have "coherent (block_init (\<lambda>_ _. 0) (\<lambda>_. 0) (\<lambda>_. True))" by (simp add: coherent_init)
  moreover have "table_fits ?sb 64"
    by (simp add: table_fits_def INODE_ZONE_INDEX_def IMAP_ZONE_INDEX_def superblock_at_def get16_def INODES_PER_BLOCK_def
        BLOCK_SIZE_def sizeof_minix2_inode_def)
  moreover have "inode_ok (zero_inode\<lparr>i_size := 77\<rparr>)" by (simp add: inode_ok_def zero_inode_def)
  ultimately show ?thesis using write_inode_roundtrip [of _ ?sb 64 3 "zero_inode\<lparr>i_size := 77\<rparr>"] by fastforce
qed

subsection \<open>The maps\<close>

text \<open>Bit \<open>n\<close> of the map that starts at block \<open>start\<close>.\<close>

definition map_bit :: "(nat \<Rightarrow> data) \<Rightarrow> nat \<Rightarrow> nat \<Rightarrow> bool" where
  "map_bit D start n = bit (D (start + n div 8 div BLOCK_SIZE) (n div 8 mod BLOCK_SIZE)) (n mod 8)"

lemma find_bit_cases:
  "b \<le> 8 \<Longrightarrow> \<forall>k < b. bit y k \<and> x + k < limit \<Longrightarrow>
   case find_bit y x limit b of
     Inl k \<Rightarrow> k < 8 \<and> \<not> bit y k \<and> x + k < limit \<and> (\<forall>j < k. bit y j)
   | Inr True \<Rightarrow> \<exists>k < 8. limit \<le> x + k \<and> (\<forall>j < k. bit y j)
   | Inr False \<Rightarrow> \<forall>k < 8. bit y k"
proof (induction "8 - b" arbitrary: b)
  case 0
  then show ?case by (subst find_bit.simps) auto
next
  case (Suc n)
  then have "b < 8" by simp
  show ?case
  proof (cases "x + b \<ge> limit \<or> \<not> bit y b")
    case True
    then show ?thesis using Suc.prems \<open>b < 8\<close> by (subst find_bit.simps) auto
  next
    case False
    have "\<forall>k < b + 1. bit y k \<and> x + k < limit" using Suc.prems False by (auto simp: less_Suc_eq)
    moreover have "find_bit y x limit b = find_bit y x limit (b + 1)" using False \<open>b < 8\<close> by (subst find_bit.simps) simp
    ultimately show ?thesis using Suc.hyps(1) [of "b + 1"] Suc.hyps(2) by simp
  qed
qed

lemma full_byte: "y = 0xff \<longleftrightarrow> (\<forall>k < 8. bit y k)" for y :: u8
proof
  assume "\<forall>k < 8. bit y k"
  then have "y = mask 8" by (intro bit_word_eqI) (simp add: bit_mask_iff)
  then show "y = 0xff" by (simp add: mask_eq_exp_minus_1)
next
  assume "y = 0xff"
  then have "y = mask 8" by (simp add: mask_eq_exp_minus_1)
  then show "\<forall>k < 8. bit y k" by (simp add: bit_mask_iff)
qed

text \<open>Bit \<open>m\<close> of one block.\<close>

abbreviation block_bit :: "data \<Rightarrow> nat \<Rightarrow> bool" where
  "block_bit buf m \<equiv> bit (buf (m div 8)) (m mod 8)"

lemma scan_bytes_cases:
  "i \<le> BLOCK_SIZE \<Longrightarrow> \<forall>m < 8 * i. block_bit buf m \<Longrightarrow>
   case scan_bytes buf limit (base + 8 * i) i of
     Scan_End x \<Rightarrow> x = base + 8 * BLOCK_SIZE \<and> (\<forall>m < 8 * BLOCK_SIZE. block_bit buf m)
   | Scan_Limit \<Rightarrow> \<exists>n < 8 * BLOCK_SIZE. limit \<le> base + n \<and> (\<forall>m < n. block_bit buf m)
   | Scan_Found j b x \<Rightarrow> j < BLOCK_SIZE \<and> b < 8 \<and> x = base + (8 * j + b) \<and> x < limit \<and> \<not> bit (buf j) b \<and>
       (\<forall>m < 8 * j + b. block_bit buf m)"
proof (induction "BLOCK_SIZE - i" arbitrary: i)
  case 0
  then show ?case by (subst scan_bytes.simps) auto
next
  case (Suc n)
  then have i: "i < BLOCK_SIZE" by simp
  have more: "\<forall>m < 8 * i + k. block_bit buf m" if "\<forall>j < k. bit (buf i) j" "k \<le> 8" for k
  proof (intro allI impI)
    fix m assume m: "m < 8 * i + k"
    show "block_bit buf m"
    proof (cases "m < 8 * i")
      case False
      then have d: "m div 8 = i" using m that(2) by (intro div_nat_eqI) auto
      then have "m mod 8 < k" using m div_mult_mod_eq [of m 8] by linarith
      then show ?thesis using that(1) d by simp
    qed (use Suc.prems in simp)
  qed
  show ?case
  proof (cases "buf i = 0xff")
    case True
    then have "\<forall>m < 8 * (i + 1). block_bit buf m" using more [of 8] full_byte [of "buf i"] by simp
    moreover have "scan_bytes buf limit (base + 8 * i) i = scan_bytes buf limit (base + 8 * (i + 1)) (i + 1)"
      using True i by (subst scan_bytes.simps) (simp add: add.commute add.left_commute)
    ultimately show ?thesis using Suc.hyps(1) [of "i + 1"] Suc.hyps(2) i by simp
  next
    case False
    note f = find_bit_cases [of 0 "buf i" "base + 8 * i" limit]
    show ?thesis
    proof (cases "find_bit (buf i) (base + 8 * i) limit 0")
      case (Inl b)
      then have "b < 8" "\<not> bit (buf i) b" "base + 8 * i + b < limit" "\<forall>j < b. bit (buf i) j" using f by simp_all
      then show ?thesis using Inl False i more [of b] by (subst scan_bytes.simps) (simp add: add.assoc)
    next
      case (Inr r)
      show ?thesis
      proof (cases r)
        case True
        then obtain k where "k < 8" "limit \<le> base + 8 * i + k" "\<forall>j < k. bit (buf i) j" using f Inr by auto
        then show ?thesis
          using Inr True False i more [of k] by (subst scan_bytes.simps) (auto intro!: exI [of _ "8 * i + k"] simp: add.assoc)
      next
        case r: False
        then show ?thesis using f Inr False full_byte [of "buf i"] by simp
      qed
    qed
  qed
qed

definition mark_disk :: "(nat \<Rightarrow> data) \<Rightarrow> nat \<Rightarrow> nat \<Rightarrow> nat \<Rightarrow> data" where
  "mark_disk D start n =
     (let b = start + n div 8 div BLOCK_SIZE; i = n div 8 mod BLOCK_SIZE in D(b := (D b)(i := set_bit (n mod 8) (D b i))))"

definition unmark_disk :: "(nat \<Rightarrow> data) \<Rightarrow> nat \<Rightarrow> nat \<Rightarrow> nat \<Rightarrow> data" where
  "unmark_disk D start n =
     (let b = start + n div 8 div BLOCK_SIZE; i = n div 8 mod BLOCK_SIZE in D(b := (D b)(i := unset_bit (n mod 8) (D b i))))"

lemma bit_place: "n div 8 div BLOCK_SIZE = m div 8 div BLOCK_SIZE \<Longrightarrow> n div 8 mod BLOCK_SIZE = m div 8 mod BLOCK_SIZE \<Longrightarrow>
    n mod 8 = m mod 8 \<Longrightarrow> n = m"
  by (metis div_mult_mod_eq)

lemma map_bit_mark: "map_bit (mark_disk D start n) start m \<longleftrightarrow> m = n \<or> map_bit D start m"
proof -
  have "n mod 8 < 8" by simp
  then show ?thesis using bit_place [of n m]
    by (auto simp: map_bit_def mark_disk_def Let_def bit_set_bit_iff)
qed

lemma map_bit_unmark: "map_bit (unmark_disk D start n) start m \<longleftrightarrow> m \<noteq> n \<and> map_bit D start m"
  using bit_place [of n m] by (auto simp: map_bit_def unmark_disk_def Let_def bit_unset_bit_iff)

lemma map_bit_block:
  assumes "m < 8 * BLOCK_SIZE"
  shows "map_bit D start (8 * BLOCK_SIZE * k + m) = block_bit (D (start + k)) m"
proof -
  have "(8 * BLOCK_SIZE * k + m) div 8 = BLOCK_SIZE * k + m div 8" by simp
  moreover have "m div 8 < BLOCK_SIZE" using assms by (simp add: less_mult_imp_div_less mult.commute)
  moreover have "(8 * BLOCK_SIZE * k + m) mod 8 = m mod 8" using mod_mult_self4 [of 8 "BLOCK_SIZE * k" m] by (simp add: mult.assoc)
  ultimately show ?thesis by (simp add: map_bit_def)
qed

lemma mark_map_loop_cases:
  assumes "coherent c" "\<forall>m < 8 * BLOCK_SIZE * k. map_bit (disk c) start m"
  shows "\<exists>r c'. mark_map_loop (start + k) end_block limit (8 * BLOCK_SIZE * k) c = Some (r, c') \<and> coherent c' \<and>
    ((r < limit \<and> r < 8 * BLOCK_SIZE * (end_block - start) \<and> \<not> map_bit (disk c) start r \<and>
       (\<forall>m < r. map_bit (disk c) start m) \<and> disk c' = mark_disk (disk c) start r) \<or>
     (r = 0 \<and> disk c' = disk c \<and> (\<forall>m < limit. m < 8 * BLOCK_SIZE * (end_block - start) \<longrightarrow> map_bit (disk c) start m)))"
  using assms
proof (induction "end_block - (start + k)" arbitrary: k c)
  case 0
  have "8 * BLOCK_SIZE * (end_block - start) \<le> 8 * BLOCK_SIZE * k" using 0 by (intro mult_le_mono2) simp
  then have "\<forall>m < limit. m < 8 * BLOCK_SIZE * (end_block - start) \<longrightarrow> map_bit (disk c) start m"
    using 0(3) less_le_trans by blast
  then show ?case using 0 by (subst mark_map_loop.simps) simp
next
  case (Suc n)
  then have lt: "start + k < end_block" by simp
  let ?D = "disk c" and ?buf = "disk c (start + k)" and ?base = "8 * BLOCK_SIZE * k"
  have below: "map_bit ?D start m" if "\<forall>j < t. block_bit ?buf j" "t \<le> 8 * BLOCK_SIZE" "m < ?base + t" for m t
  proof (cases "m < ?base")
    case False
    then have "m = ?base + (m - ?base)" "m - ?base < t" using that(3) by auto
    then show ?thesis using that(1,2) map_bit_block [of "m - ?base" ?D start k] by simp
  qed (use Suc.prems in simp)
  have room: "?base + 8 * BLOCK_SIZE \<le> 8 * BLOCK_SIZE * (end_block - start)"
  proof -
    have "k + 1 \<le> end_block - start" using lt by simp
    from mult_le_mono2 [OF this, of "8 * BLOCK_SIZE"] show ?thesis by simp
  qed
  let ?c = "bd.touched (start + k) c"
  note sc = scan_bytes_cases [of 0 ?buf ?base limit]
  show ?case
  proof (cases "scan_bytes ?buf limit ?base 0")
    case (Scan_End x)
    then have x: "x = 8 * BLOCK_SIZE * (k + 1)" and full: "\<forall>m < 8 * BLOCK_SIZE. block_bit ?buf m" using sc by simp_all
    have "mark_map_loop (start + k) end_block limit ?base c = mark_map_loop (start + (k + 1)) end_block limit (8 * BLOCK_SIZE * (k + 1)) ?c"
      using lt Scan_End x Suc.prems(1) by (subst mark_map_loop.simps) simp
    moreover have "\<forall>m < 8 * BLOCK_SIZE * (k + 1). map_bit (disk ?c) start m"
      using below [OF full] Suc.prems(1) by simp
    ultimately show ?thesis using Suc.hyps(1) [of "k + 1" ?c] Suc.hyps(2) Suc.prems(1) by simp
  next
    case Scan_Limit
    then obtain t where "t < 8 * BLOCK_SIZE" "limit \<le> ?base + t" "\<forall>j < t. block_bit ?buf j" using sc by auto
    then have "\<forall>m < limit. map_bit ?D start m" using below [of t] by simp
    then show ?thesis using lt Scan_Limit Suc.prems(1) by (subst mark_map_loop.simps) simp
  next
    case (Scan_Found j b x)
    then have f: "j < BLOCK_SIZE" "b < 8" "x = ?base + (8 * j + b)" "x < limit" "\<not> bit (?buf j) b" "\<forall>m < 8 * j + b. block_bit ?buf m"
      using sc by simp_all
    then have l: "8 * j + b < 8 * BLOCK_SIZE" by simp
    have place: "x div 8 div BLOCK_SIZE = k" "x div 8 mod BLOCK_SIZE = j" "x mod 8 = b"
    proof -
      have "x = 8 * (BLOCK_SIZE * k + j) + b" using f(3) by simp
      moreover have "(8 * q + b) div 8 = q" "(8 * q + b) mod 8 = b" for q using f(2) by simp_all
      ultimately have x8: "x div 8 = BLOCK_SIZE * k + j" "x mod 8 = b" by (simp_all only:)
      then show "x div 8 div BLOCK_SIZE = k" "x div 8 mod BLOCK_SIZE = j" "x mod 8 = b" using f(1) by simp_all
    qed
    then have "\<not> map_bit ?D start x" "disk (bd.stored (start + k) (?buf(j := set_bit b (?buf j))) ?c) = mark_disk ?D start x"
      using f(5) Suc.prems(1) by (simp_all add: map_bit_def mark_disk_def Let_def)
    moreover have "\<forall>m < x. map_bit ?D start m" using below [OF f(6)] l f(3) by simp
    moreover have "x < 8 * BLOCK_SIZE * (end_block - start)" using room l f(3) by simp
    ultimately show ?thesis using lt Scan_Found Suc.prems(1) f(4) by (subst mark_map_loop.simps) simp
  qed
qed

lemma unmark_map_disk:
  assumes "coherent c" "start + n div 8 div BLOCK_SIZE < 2 ^ 16"
  shows "\<exists>c'. unmark_map n start c = Some c' \<and> coherent c' \<and> disk c' = unmark_disk (disk c) start n"
  using assms by (simp add: unmark_map_def unmark_disk_def Let_def trunc16_def)

text \<open>
  C39: \<^verbatim>\<open>mark_map\<close> finds the least clear bit of a map below the limit, sets it on the disk, changes no
  other bit, and returns its number; it returns 0 and changes nothing when there is none.  (Bit 0 of the
  Minix maps is always set, so that 0 is no number of a bit.)  \<^verbatim>\<open>unmark_map\<close> undoes it.
\<close>

theorem mark_map_correct:
  assumes "coherent c" "map_bit (disk c) start 0" "start \<le> end_block" "end_block < 2 ^ 16"
  shows "\<exists>r c'. mark_map start end_block limit c = Some (r, c') \<and>
    (if r = 0 then disk c' = disk c \<and> (\<forall>m < limit. m < 8 * BLOCK_SIZE * (end_block - start) \<longrightarrow> map_bit (disk c) start m)
     else r < limit \<and> \<not> map_bit (disk c) start r \<and> (\<forall>m < r. map_bit (disk c) start m) \<and>
       (\<forall>m. map_bit (disk c') start m = (m = r \<or> map_bit (disk c) start m)) \<and>
       (\<exists>c''. unmark_map r start c' = Some c'' \<and> (\<forall>m. map_bit (disk c'') start m = map_bit (disk c) start m)))"
proof -
  obtain r c' where m: "mark_map start end_block limit c = Some (r, c')" "coherent c'"
    "(r < limit \<and> r < 8 * BLOCK_SIZE * (end_block - start) \<and> \<not> map_bit (disk c) start r \<and>
       (\<forall>m < r. map_bit (disk c) start m) \<and> disk c' = mark_disk (disk c) start r) \<or>
     (r = 0 \<and> disk c' = disk c \<and> (\<forall>m < limit. m < 8 * BLOCK_SIZE * (end_block - start) \<longrightarrow> map_bit (disk c) start m))"
    using mark_map_loop_cases [OF assms(1), of 0 start end_block limit] by (auto simp: mark_map_def)
  show ?thesis
  proof (cases "r = 0")
    case True
    then show ?thesis using m assms(2) by auto
  next
    case False
    then have r: "r < limit" "r < 8 * BLOCK_SIZE * (end_block - start)" "\<not> map_bit (disk c) start r"
      "\<forall>m < r. map_bit (disk c) start m" "disk c' = mark_disk (disk c) start r"
      using m(3) by auto
    have "r div 8 div BLOCK_SIZE < end_block - start" using r(2) by (simp add: less_mult_imp_div_less mult.commute mult.left_commute)
    then have "start + r div 8 div BLOCK_SIZE < 2 ^ 16" using assms(3,4) by linarith
    then obtain c'' where "unmark_map r start c' = Some c''" "disk c'' = unmark_disk (disk c') start r"
      using unmark_map_disk [OF m(2)] by blast
    then have "unmark_map r start c' = Some c'' \<and> (\<forall>m. map_bit (disk c'') start m = map_bit (disk c) start m)"
      using r(3,5) by (auto simp: map_bit_unmark map_bit_mark)
    then show ?thesis using False m(1) r by (auto simp: map_bit_mark)
  qed
qed

theorem mark_map_correct_witness:
  "\<exists>c'. mark_map 2 3 100 (block_init (\<lambda>_ i. if i = 0 then 1 else 0) (\<lambda>_. 0) (\<lambda>_. True)) = Some (1, c')"
proof -
  let ?c = "block_init (\<lambda>_ i. if i = 0 then 1 else 0) (\<lambda>_. 0) (\<lambda>_. True)"
  have c: "coherent ?c" by (simp add: coherent_init)
  have b: "map_bit (disk ?c) 2 0" "\<not> map_bit (disk ?c) 2 1"
    by (simp_all add: map_bit_def block_init_def bit_1_iff)
  obtain r c' where r: "mark_map 2 3 100 ?c = Some (r, c')"
    "if r = 0 then \<forall>m < 100. m < 8 * BLOCK_SIZE * (3 - 2) \<longrightarrow> map_bit (disk ?c) 2 m
     else \<forall>m < r. map_bit (disk ?c) 2 m \<and> \<not> map_bit (disk ?c) 2 r"
    using mark_map_correct [OF c b(1), of 3 100] by (auto split: if_splits)
  have "r \<noteq> 0"
  proof
    assume "r = 0"
    then have "map_bit (disk ?c) 2 1" using r(2) by (simp add: BLOCK_SIZE_def)
    then show False using b(2) by simp
  qed
  moreover from this have "\<not> 1 < r" using r(2) b(2) by auto
  ultimately have "r = 1" by simp
  then show ?thesis using r(1) by blast
qed

subsection \<open>Blocks of a file\<close>

definition disk_block :: "minix3_superblock \<Rightarrow> (nat \<Rightarrow> data) \<Rightarrow> nat \<Rightarrow> nat \<Rightarrow> nat" where
  "disk_block sb D idx block =
     (let z = i_zone (disk_inode sb D idx) ! zone_slot block;
          k = block - (7 + ZONES_PER_BLOCK);
          z1 = get_zone (D (trunc16 z)) (k div ZONES_PER_BLOCK)
      in if z = 0 then 0
         else if zone_slot block = 7 then trunc16 (get_zone (D (trunc16 z)) (block - 7))
         else if zone_slot block = 8 then
           if z1 = 0 then 0 else trunc16 (get_zone (D (trunc16 z1)) (k mod ZONES_PER_BLOCK))
         else trunc16 z)"

lemma get_block_disk:
  assumes "coherent c"
  shows "\<exists>c'. get_block sb idx block c = Some (disk_block sb (disk c) idx block, c') \<and> coherent c' \<and> disk c' = disk c"
  using assms by (simp add: get_block_def read_inode_disk disk_block_def Let_def)

text \<open>The blocks that lead to a block of a file: its inode's and the indirect ones.\<close>

definition path_blocks :: "minix3_superblock \<Rightarrow> (nat \<Rightarrow> data) \<Rightarrow> nat \<Rightarrow> nat \<Rightarrow> nat set" where
  "path_blocks sb D idx block =
     (let z = trunc16 (i_zone (disk_inode sb D idx) ! zone_slot block)
      in {inode_block sb idx} \<union>
         (if zone_slot block = 7 then {z}
          else if zone_slot block = 8 then
            {z, trunc16 (get_zone (D z) ((block - (7 + ZONES_PER_BLOCK)) div ZONES_PER_BLOCK))}
          else {}))"

lemma disk_block_cong:
  assumes "\<forall>x \<in> path_blocks sb D idx block. D' x = D x"
  shows "disk_block sb D' idx block = disk_block sb D idx block" "path_blocks sb D' idx block = path_blocks sb D idx block"
proof -
  have "disk_inode sb D' idx = disk_inode sb D idx" using assms by (simp add: disk_inode_def path_blocks_def Let_def)
  then show "disk_block sb D' idx block = disk_block sb D idx block" "path_blocks sb D' idx block = path_blocks sb D idx block"
    using assms by (auto simp: disk_block_def path_blocks_def Let_def split: if_splits)
qed

text \<open>
  The layout of a file: its blocks 0 to \<open>n\<close> are the disk blocks \<open>f 0\<close> to \<open>f n\<close>, which are not holes, all
  different, and none of those that lead to them.
\<close>

definition file_ok :: "minix3_superblock \<Rightarrow> (nat \<Rightarrow> data) \<Rightarrow> nat \<Rightarrow> nat \<Rightarrow> (nat \<Rightarrow> nat) \<Rightarrow> bool" where
  "file_ok sb D idx n f \<longleftrightarrow> inj_on f {..n} \<and>
     (\<forall>b \<le> n. disk_block sb D idx b = f b \<and> f b \<noteq> 0 \<and> path_blocks sb D idx b \<inter> f ` {..n} = {})"

lemma file_ok_frame:
  assumes "file_ok sb D idx n f" "\<forall>x. x \<notin> f ` {..n} \<longrightarrow> D' x = D x"
  shows "file_ok sb D' idx n f"
proof -
  have "disk_block sb D' idx b = disk_block sb D idx b \<and> path_blocks sb D' idx b = path_blocks sb D idx b" if "b \<le> n" for b
  proof -
    have "path_blocks sb D idx b \<inter> f ` {..n} = {}" using assms(1) that by (simp add: file_ok_def)
    then have "\<forall>x \<in> path_blocks sb D idx b. D' x = D x" using assms(2) by blast
    then show ?thesis using disk_block_cong by blast
  qed
  then show ?thesis using assms(1) by (simp add: file_ok_def)
qed

definition file_byte :: "(nat \<Rightarrow> data) \<Rightarrow> (nat \<Rightarrow> nat) \<Rightarrow> nat \<Rightarrow> u8" where
  "file_byte D f i = D (f (i div BLOCK_SIZE)) (i mod BLOCK_SIZE)"

lemma file_byte_write:
  assumes "inj_on f {..n}" "b \<le> n" "off + k \<le> BLOCK_SIZE" "i div BLOCK_SIZE \<le> n"
  shows "file_byte (D(f b := copy_into (D (f b)) off d from k)) f i =
    (if b * BLOCK_SIZE + off \<le> i \<and> i < b * BLOCK_SIZE + off + k then d (from + (i - (b * BLOCK_SIZE + off))) else file_byte D f i)"
proof (cases "i div BLOCK_SIZE = b")
  case True
  then have i: "i = b * BLOCK_SIZE + i mod BLOCK_SIZE" by (metis div_mult_mod_eq)
  then have "(b * BLOCK_SIZE + off \<le> i \<and> i < b * BLOCK_SIZE + off + k) = (off \<le> i mod BLOCK_SIZE \<and> i mod BLOCK_SIZE < off + k)"
    "i - (b * BLOCK_SIZE + off) = i mod BLOCK_SIZE - off" by linarith+
  then show ?thesis using True by (simp add: file_byte_def copy_into_def)
next
  case False
  have "\<not> (b * BLOCK_SIZE + off \<le> i \<and> i < b * BLOCK_SIZE + off + k)"
  proof
    assume a: "b * BLOCK_SIZE + off \<le> i \<and> i < b * BLOCK_SIZE + off + k"
    then have "b * BLOCK_SIZE \<le> i" "i < Suc b * BLOCK_SIZE" using assms(3) by simp_all
    then show False using False div_nat_eqI [of BLOCK_SIZE b i] by (simp add: mult.commute)
  qed
  moreover have "f (i div BLOCK_SIZE) \<noteq> f b" using assms False inj_onD [of f "{..n}" "i div BLOCK_SIZE" b] by auto
  ultimately show ?thesis by (auto simp: file_byte_def)
qed

subsection \<open>Reading and writing\<close>

lemma BLOCK_SIZE_pos [simp]: "0 < BLOCK_SIZE"
  by (simp add: BLOCK_SIZE_def)

text \<open>One round of either loop goes to the end of the block or of the request.\<close>

lemma copy_size:
  assumes "start + sz < 2 ^ 32"
  defines "k \<equiv> calculate_block_copy_size start sz"
  shows "start mod BLOCK_SIZE + k \<le> BLOCK_SIZE" "k \<le> sz"
    "start div BLOCK_SIZE < (start + sz) div BLOCK_SIZE \<Longrightarrow> start + k = BLOCK_SIZE * (start div BLOCK_SIZE + 1)"
    "start div BLOCK_SIZE = (start + sz) div BLOCK_SIZE \<Longrightarrow> k = sz"
proof -
  define q where "q = start div BLOCK_SIZE"
  define r where "r = start mod BLOCK_SIZE"
  have st: "start = BLOCK_SIZE * q + r" and r: "r < BLOCK_SIZE" by (simp_all add: q_def r_def)
  have "r + sz < 2 ^ 32" using st assms(1) by linarith
  then have "trunc32 (r + sz) = r + sz" by (simp add: trunc32_def)
  then have k: "k = (if r + sz > BLOCK_SIZE then BLOCK_SIZE - r else sz)"
    by (simp add: k_def calculate_block_copy_size_def calculate_block_offset_def Let_def r_def [symmetric])
  then show "start mod BLOCK_SIZE + k \<le> BLOCK_SIZE" "k \<le> sz" using r unfolding r_def [symmetric] by auto
  show "start + k = BLOCK_SIZE * (start div BLOCK_SIZE + 1)" if lt: "start div BLOCK_SIZE < (start + sz) div BLOCK_SIZE"
  proof -
    have "BLOCK_SIZE * (q + 1) \<le> BLOCK_SIZE * ((start + sz) div BLOCK_SIZE)" using lt unfolding q_def by (intro mult_le_mono2) simp
    also have "\<dots> \<le> start + sz" by simp
    finally have "BLOCK_SIZE \<le> r + sz" unfolding st by simp
    then have "k = BLOCK_SIZE - r" by (auto simp: k)
    then show ?thesis using r unfolding q_def [symmetric] by (subst st) simp
  qed
  show "k = sz" if eq: "start div BLOCK_SIZE = (start + sz) div BLOCK_SIZE"
  proof -
    have "start + sz < BLOCK_SIZE * ((start + sz) div BLOCK_SIZE + 1)" using dividend_less_times_div [of BLOCK_SIZE "start + sz"] by simp
    then have "BLOCK_SIZE * q + r + sz < BLOCK_SIZE * (q + 1)" unfolding eq [symmetric] q_def [symmetric] using st by simp
    then show ?thesis by (simp add: k)
  qed
qed

lemma next_round:
  assumes "start + sz < 2 ^ 32"
  defines "k \<equiv> calculate_block_copy_size start sz"
  shows "start div BLOCK_SIZE < (start + sz) div BLOCK_SIZE \<Longrightarrow>
      (start + k) div BLOCK_SIZE = start div BLOCK_SIZE + 1 \<and> (start + k) mod BLOCK_SIZE = 0"
    "start + k + (sz - k) = start + sz" "trunc32 (start + k) = start + k"
  using copy_size [OF assms(1), folded k_def] assms(1) by (simp_all add: trunc32_def)

lemma block_bytes:
  assumes "start mod BLOCK_SIZE + k \<le> BLOCK_SIZE"
  shows "map (\<lambda>j. D (f (start div BLOCK_SIZE)) (start mod BLOCK_SIZE + j)) [0..<k] = map (file_byte D f) [start..<start + k]"
proof (rule nth_equalityI)
  fix j assume "j < length (map (\<lambda>j. D (f (start div BLOCK_SIZE)) (start mod BLOCK_SIZE + j)) [0..<k])"
  then have j: "j < k" "start mod BLOCK_SIZE + j < BLOCK_SIZE" using assms by simp_all
  have "start + j = BLOCK_SIZE * (start div BLOCK_SIZE) + (start mod BLOCK_SIZE + j)" by simp
  then have "(start + j) div BLOCK_SIZE = start div BLOCK_SIZE" "(start + j) mod BLOCK_SIZE = start mod BLOCK_SIZE + j"
    using j(2) by (metis div_mult_self4 div_less add.right_neutral BLOCK_SIZE_pos less_numeral_extra(3),
        metis mod_mult_self4 mod_less)
  then show "map (\<lambda>j. D (f (start div BLOCK_SIZE)) (start mod BLOCK_SIZE + j)) [0..<k] ! j = map (file_byte D f) [start..<start + k] ! j"
    using j(1) by (simp add: file_byte_def)
qed simp

text \<open>Two states that differ at most in what the cache holds.\<close>

definition same_disk :: "fs \<Rightarrow> fs \<Rightarrow> bool" where
  "same_disk s s' \<longleftrightarrow> coherent (fs_cache s') \<and> disk (fs_cache s') = disk (fs_cache s) \<and> fs_super s' = fs_super s \<and> fs_inodes s' = fs_inodes s"

lemma get_block_fs:
  assumes "coherent (fs_cache s)"
  shows "\<exists>s'. on_cache s (get_block (fs_super s) idx b (fs_cache s)) = Some (disk_block (fs_super s) (disk (fs_cache s)) idx b, s') \<and> same_disk s s'"
  using get_block_disk [OF assms, of "fs_super s" idx b] by (auto simp: on_cache_def same_disk_def)

text \<open>The bytes of a file as the disk has them; a block that is not there reads as zeros.\<close>

definition disk_byte :: "minix3_superblock \<Rightarrow> (nat \<Rightarrow> data) \<Rightarrow> nat \<Rightarrow> nat \<Rightarrow> u8" where
  "disk_byte sb D idx i =
     (let b = disk_block sb D idx (i div BLOCK_SIZE) in if b = 0 then 0 else D b (i mod BLOCK_SIZE))"

lemma disk_byte_file: "file_ok sb D idx n f \<Longrightarrow> i div BLOCK_SIZE \<le> n \<Longrightarrow> disk_byte sb D idx i = file_byte D f i"
  by (auto simp: disk_byte_def file_byte_def file_ok_def Let_def)

lemma read_round:
  assumes c: "coherent (fs_cache s)" and l: "cur_start + cur_size < 2 ^ 32" "cur_start div BLOCK_SIZE \<le> e"
  defines "k \<equiv> calculate_block_copy_size cur_start cur_size"
  shows "\<exists>s'. read_loop idx sz e (cur_start div BLOCK_SIZE) cur_start cur_size got s =
      read_loop idx sz e (trunc16 (cur_start div BLOCK_SIZE + 1)) (cur_start + k) (cur_size - k)
        (got @ map (disk_byte (fs_super s) (disk (fs_cache s)) idx) [cur_start..<cur_start + k]) s' \<and> same_disk s s'"
proof -
  let ?D = "disk (fs_cache s)" and ?z = "cur_start div BLOCK_SIZE"
  let ?f = "disk_block (fs_super s) ?D idx"
  let ?buf = "\<lambda>z. if ?f z = 0 then (\<lambda>_. 0) else ?D (?f z)"
  obtain s1 where s1: "on_cache s (get_block (fs_super s) idx ?z (fs_cache s)) = Some (?f ?z, s1)" "same_disk s s1"
    using get_block_fs [OF c, of idx ?z] by auto
  let ?s2 = "if ?f ?z = 0 then s1 else s1\<lparr>fs_cache := bd.touched (?f ?z) (fs_cache s1)\<rparr>"
  have "(if ?f ?z \<noteq> 0 then on_cache s1 (block_read (?f ?z) (fs_cache s1)) else Some (\<lambda>_. 0, s1)) = Some (?buf ?z, ?s2)" "same_disk s ?s2"
    using s1(2) by (simp_all add: on_cache_def same_disk_def)
  moreover have "map (\<lambda>j. ?buf ?z (cur_start mod BLOCK_SIZE + j)) [0..<k] = map (disk_byte (fs_super s) ?D idx) [cur_start..<cur_start + k]"
  proof -
    have "file_byte ?buf id = disk_byte (fs_super s) ?D idx" by (simp add: disk_byte_def file_byte_def Let_def fun_eq_iff)
    then show ?thesis using block_bytes [OF copy_size(1) [OF l(1), folded k_def], of ?buf id] unfolding id_apply by argo
  qed
  ultimately show ?thesis
    using l(2) s1(1) next_round(3) [OF l(1), folded k_def]
    by (subst read_loop.simps) (auto simp: Let_def calculate_block_offset_def k_def [symmetric])
qed

lemma read_loop_bytes:
  assumes "coherent (fs_cache s)" "cur_start + cur_size < 2 ^ 32" "(cur_start + cur_size) div BLOCK_SIZE < 2 ^ 16 - 1"
  shows "\<exists>s'. read_loop idx sz ((cur_start + cur_size) div BLOCK_SIZE) (cur_start div BLOCK_SIZE) cur_start cur_size got s =
      Some (got @ map (disk_byte (fs_super s) (disk (fs_cache s)) idx) [cur_start..<cur_start + cur_size], s') \<and> same_disk s s'"
  using assms
proof (induction "(cur_start + cur_size) div BLOCK_SIZE - cur_start div BLOCK_SIZE" arbitrary: cur_start cur_size got s)
  case (0 cur_start cur_size got s)
  let ?e = "(cur_start + cur_size) div BLOCK_SIZE"
  have e: "cur_start div BLOCK_SIZE = ?e" using 0(1) div_le_mono [of cur_start "cur_start + cur_size" BLOCK_SIZE] by simp
  have k: "calculate_block_copy_size cur_start cur_size = cur_size" using copy_size(4) [OF 0(3)] e by simp
  have "trunc16 (?e + 1) = ?e + 1" using 0(4) by (simp add: trunc16_def)
  then show ?case
    using read_round [OF 0(2,3), of ?e idx sz got] unfolding k e by (auto simp: read_loop.simps [of _ _ _ "Suc _"])
next
  case (Suc m cur_start cur_size got s)
  let ?e = "(cur_start + cur_size) div BLOCK_SIZE" and ?z = "cur_start div BLOCK_SIZE"
  let ?byte = "disk_byte (fs_super s) (disk (fs_cache s)) idx"
  define k where "k = calculate_block_copy_size cur_start cur_size"
  have lt: "?z < ?e" using Suc.hyps(2) by simp
  note nr = next_round [OF Suc.prems(2), folded k_def]
  have t: "trunc16 (?z + 1) = (cur_start + k) div BLOCK_SIZE" using nr(1) lt Suc.prems(3) by (simp add: trunc16_def)
  let ?got = "got @ map ?byte [cur_start..<cur_start + k]"
  obtain s1 where s1: "read_loop idx sz ?e ?z cur_start cur_size got s =
      read_loop idx sz ?e ((cur_start + k) div BLOCK_SIZE) (cur_start + k) (cur_size - k) ?got s1" "same_disk s s1"
    using read_round [OF Suc.prems(1,2), of ?e idx sz got, folded k_def, unfolded t] lt by auto
  have d: "coherent (fs_cache s1)" "disk (fs_cache s1) = disk (fs_cache s)" "fs_super s1 = fs_super s"
    using s1(2) by (simp_all add: same_disk_def)
  have "\<exists>s'. read_loop idx sz ((cur_start + k + (cur_size - k)) div BLOCK_SIZE) ((cur_start + k) div BLOCK_SIZE) (cur_start + k) (cur_size - k) ?got s1 =
      Some (?got @ map (disk_byte (fs_super s1) (disk (fs_cache s1)) idx) [cur_start + k..<cur_start + k + (cur_size - k)], s') \<and> same_disk s1 s'"
    using nr Suc.hyps(2) Suc.prems d lt by (intro Suc.hyps(1)) simp_all
  moreover have "[cur_start..<cur_start + cur_size] = [cur_start..<cur_start + k] @ [cur_start + k..<cur_start + cur_size]"
    using nr(2) upt_add_eq_append [of cur_start "cur_start + k" "cur_size - k"] by simp
  ultimately show ?case using s1 d unfolding nr(2) by (auto simp: same_disk_def)
qed

text \<open>The bytes of a file after some of them, from \<open>start\<close> on, have been replaced.\<close>

definition overwritten :: "(nat \<Rightarrow> u8) \<Rightarrow> nat \<Rightarrow> nat \<Rightarrow> (nat \<Rightarrow> u8) \<Rightarrow> nat \<Rightarrow> u8" where
  "overwritten old start sz d = (\<lambda>i. if start \<le> i \<and> i < start + sz then d (i - start) else old i)"

definition wrote :: "nat \<Rightarrow> (nat \<Rightarrow> nat) \<Rightarrow> nat \<Rightarrow> nat \<Rightarrow> (nat \<Rightarrow> u8) \<Rightarrow> fs \<Rightarrow> fs \<Rightarrow> bool" where
  "wrote n f start sz d s s' \<longleftrightarrow> coherent (fs_cache s') \<and> fs_super s' = fs_super s \<and> fs_inodes s' = fs_inodes s \<and>
     (\<forall>x. x \<notin> f ` {..n} \<longrightarrow> disk (fs_cache s') x = disk (fs_cache s) x) \<and>
     (\<forall>i. i div BLOCK_SIZE \<le> n \<longrightarrow>
        file_byte (disk (fs_cache s')) f i = overwritten (file_byte (disk (fs_cache s)) f) start sz d i)"

lemma write_round:
  assumes c: "coherent (fs_cache s)" and f: "file_ok (fs_super s) (disk (fs_cache s)) idx n f"
    and l: "cur_start + cur_size < 2 ^ 32" "cur_start div BLOCK_SIZE \<le> e" "e \<le> n"
    and node: "fs_inodes s idx = Some node" "cur_start + cur_size \<le> in_size node"
  defines "k \<equiv> calculate_block_copy_size cur_start cur_size"
  shows "\<exists>s'. write_loop idx sz d e (cur_start div BLOCK_SIZE) cur_start cur_size s =
      write_loop idx sz d e (trunc16 (cur_start div BLOCK_SIZE + 1)) (cur_start + k) (cur_size - k) s' \<and>
      wrote n f cur_start k (\<lambda>j. d (sz - cur_size + j)) s s'"
proof -
  let ?D = "disk (fs_cache s)" and ?z = "cur_start div BLOCK_SIZE" and ?off = "cur_start mod BLOCK_SIZE"
  have b: "disk_block (fs_super s) ?D idx ?z = f ?z" "f ?z \<noteq> 0" "?z \<le> n" "inj_on f {..n}" using f l by (auto simp: file_ok_def)
  obtain s1 where s1: "on_cache s (get_block (fs_super s) idx ?z (fs_cache s)) = Some (f ?z, s1)" "same_disk s s1"
    using get_block_fs [OF c, of idx ?z] b by auto
  let ?buf = "copy_into (?D (f ?z)) ?off d (sz - cur_size) k"
  let ?s2 = "s1\<lparr>fs_cache := bd.stored (f ?z) ?buf (bd.touched (f ?z) (fs_cache s1))\<rparr>"
  have cs: "?off + k \<le> BLOCK_SIZE" "k \<le> cur_size" using copy_size [OF l(1), folded k_def] by simp_all
  have t: "trunc32 (cur_start + k) = cur_start + k" using next_round(3) [OF l(1), folded k_def] .
  have "\<not> trunc32 (cur_start + k) > in_size node" using t cs(2) node(2) by simp
  then have "write_loop idx sz d e ?z cur_start cur_size s = write_loop idx sz d e (trunc16 (?z + 1)) (cur_start + k) (cur_size - k) ?s2"
    using l(2) s1 b(2) node(1) t
    by (subst write_loop.simps) (simp add: Let_def calculate_block_offset_def k_def [symmetric] same_disk_def)
  moreover have "wrote n f cur_start k (\<lambda>j. d (sz - cur_size + j)) s ?s2"
  proof -
    have D2: "disk (fs_cache ?s2) = ?D(f ?z := ?buf)" using s1(2) by (simp add: same_disk_def)
    have pos: "?z * BLOCK_SIZE + ?off = cur_start" by (simp add: mult.commute)
    have "file_byte (?D(f ?z := ?buf)) f i = overwritten (file_byte ?D f) cur_start k (\<lambda>j. d (sz - cur_size + j)) i"
      if "i div BLOCK_SIZE \<le> n" for i
      using file_byte_write [OF b(4,3) cs(1) that, of ?D d "sz - cur_size"] unfolding pos overwritten_def by simp
    moreover have "x \<notin> f ` {..n} \<Longrightarrow> (?D(f ?z := ?buf)) x = ?D x" for x using b(3) by auto
    ultimately show ?thesis unfolding wrote_def D2 using s1(2) by (simp add: same_disk_def)
  qed
  ultimately show ?thesis by blast
qed

lemma wrote_trans:
  assumes "wrote n f start k d s s1" "wrote n f (start + k) m (\<lambda>j. d (k + j)) s1 s2"
  shows "wrote n f start (k + m) d s s2"
proof -
  have "overwritten (overwritten old start k d) (start + k) m (\<lambda>j. d (k + j)) i = overwritten old start (k + m) d i" for old i
    by (auto simp: overwritten_def)
  then show ?thesis using assms unfolding wrote_def by (auto simp: overwritten_def)
qed

lemma write_loop_bytes:
  assumes "coherent (fs_cache s)" "file_ok (fs_super s) (disk (fs_cache s)) idx n f"
    "cur_start + cur_size < 2 ^ 32" "(cur_start + cur_size) div BLOCK_SIZE \<le> n" "n < 2 ^ 16 - 1"
    "fs_inodes s idx = Some node" "cur_start + cur_size \<le> in_size node" "cur_size \<le> sz"
  shows "\<exists>s'. write_loop idx sz d ((cur_start + cur_size) div BLOCK_SIZE) (cur_start div BLOCK_SIZE) cur_start cur_size s =
      Some (int sz, s') \<and> wrote n f cur_start cur_size (\<lambda>j. d (sz - cur_size + j)) s s'"
  using assms
proof (induction "(cur_start + cur_size) div BLOCK_SIZE - cur_start div BLOCK_SIZE" arbitrary: cur_start cur_size s)
  case (0 cur_start cur_size s)
  let ?e = "(cur_start + cur_size) div BLOCK_SIZE"
  have e: "cur_start div BLOCK_SIZE = ?e" using 0(1) div_le_mono [of cur_start "cur_start + cur_size" BLOCK_SIZE] by simp
  have k: "calculate_block_copy_size cur_start cur_size = cur_size" using copy_size(4) [OF 0(4)] e by simp
  have "trunc16 (?e + 1) = ?e + 1" using 0(5,6) by (simp add: trunc16_def)
  then show ?case
    using write_round [OF 0(2-4) _ 0(5) 0(7,8), of sz d] unfolding k e by (auto simp: write_loop.simps [of _ _ _ _ "Suc _"])
next
  case (Suc m cur_start cur_size s)
  let ?e = "(cur_start + cur_size) div BLOCK_SIZE" and ?z = "cur_start div BLOCK_SIZE"
  define k where "k = calculate_block_copy_size cur_start cur_size"
  have lt: "?z < ?e" using Suc.hyps(2) by simp
  note nr = next_round [OF Suc.prems(3), folded k_def]
  have kc: "k \<le> cur_size" using copy_size(2) [OF Suc.prems(3), folded k_def] .
  have t: "trunc16 (?z + 1) = (cur_start + k) div BLOCK_SIZE" using nr(1) lt Suc.prems(4,5) by (simp add: trunc16_def)
  obtain s1 where s1: "write_loop idx sz d ?e ?z cur_start cur_size s =
      write_loop idx sz d ?e ((cur_start + k) div BLOCK_SIZE) (cur_start + k) (cur_size - k) s1"
    "wrote n f cur_start k (\<lambda>j. d (sz - cur_size + j)) s s1"
    using write_round [OF Suc.prems(1-3) _ Suc.prems(4,6,7), of sz d, folded k_def, unfolded t] lt by auto
  have w: "coherent (fs_cache s1)" "fs_super s1 = fs_super s" "fs_inodes s1 = fs_inodes s"
    "file_ok (fs_super s1) (disk (fs_cache s1)) idx n f"
    using s1(2) file_ok_frame [OF Suc.prems(2)] by (auto simp: wrote_def)
  obtain s2 where s2: "write_loop idx sz d ?e ((cur_start + k) div BLOCK_SIZE) (cur_start + k) (cur_size - k) s1 = Some (int sz, s2)"
    "wrote n f (cur_start + k) (cur_size - k) (\<lambda>j. d (sz - (cur_size - k) + j)) s1 s2"
  proof -
    have "\<exists>s2. write_loop idx sz d ((cur_start + k + (cur_size - k)) div BLOCK_SIZE) ((cur_start + k) div BLOCK_SIZE) (cur_start + k) (cur_size - k) s1 =
        Some (int sz, s2) \<and> wrote n f (cur_start + k) (cur_size - k) (\<lambda>j. d (sz - (cur_size - k) + j)) s1 s2"
      using nr Suc.hyps(2) Suc.prems w lt by (intro Suc.hyps(1)) simp_all
    then show thesis using that unfolding nr(2) by blast
  qed
  have "(\<lambda>j. d (sz - (cur_size - k) + j)) = (\<lambda>j. d (sz - cur_size + (k + j)))" using kc Suc.prems(8) by (simp add: add.assoc)
  then have "wrote n f cur_start (k + (cur_size - k)) (\<lambda>j. d (sz - cur_size + j)) s s2"
    using s2(2) by (intro wrote_trans [OF s1(2)]) (simp only:)
  then show ?case using s1(1) s2(1) kc by simp
qed

lemma inode_write_bytes:
  assumes "coherent (fs_cache s)" "fs_inodes s idx = Some node" "start + sz \<le> in_size node"
    "in_size node < BLOCK_SIZE * (2 ^ 16 - 1)" "file_ok (fs_super s) (disk (fs_cache s)) idx (in_size node div BLOCK_SIZE) f"
  shows "\<exists>s'. inode_write idx sz start d s = Some (int sz, s') \<and> wrote (in_size node div BLOCK_SIZE) f start sz d s s'"
proof -
  let ?n = "in_size node div BLOCK_SIZE"
  have n: "?n < 2 ^ 16 - 1" using assms(4) by (simp add: less_mult_imp_div_less mult.commute)
  have le: "(start + sz) div BLOCK_SIZE \<le> ?n" "start div BLOCK_SIZE \<le> ?n" using assms(3) by (simp_all add: div_le_mono)
  have lt: "start + sz < 2 ^ 32" using assms(3,4) by (simp add: BLOCK_SIZE_def)
  have t: "trunc32 (start + sz) = start + sz" "trunc16 ((start + sz) div BLOCK_SIZE) = (start + sz) div BLOCK_SIZE"
    "trunc16 (start div BLOCK_SIZE) = start div BLOCK_SIZE"
    using lt le n by (simp_all add: trunc32_def trunc16_def)
  obtain s' where w: "write_loop idx sz d ((start + sz) div BLOCK_SIZE) (start div BLOCK_SIZE) start sz s = Some (int sz, s')"
      "wrote ?n f start sz d s s'"
    using write_loop_bytes [OF assms(1,5) lt le(1) n assms(2,3), of sz d] by auto
  have "inode_write idx sz start d s = Some (int sz, s')"
    using w(1) div_le_mono [of start "start + sz" BLOCK_SIZE] unfolding inode_write_def t by (simp add: Let_def)
  then show ?thesis using w(2) by blast
qed

lemma inode_read_disk:
  assumes "coherent (fs_cache s)" "fs_inodes s idx = Some node" "from + n < 2 ^ 32" "in_size node < BLOCK_SIZE * (2 ^ 16 - 1)"
  defines "k \<equiv> min n (in_size node - from)"
  shows "\<exists>s'. inode_read idx n from s = Some (int k, map (disk_byte (fs_super s) (disk (fs_cache s)) idx) [from..<from + k], s') \<and> same_disk s s'"
proof (cases "in_size node \<le> from")
  case True
  then show ?thesis using assms(1,2) by (simp add: inode_read_def k_def same_disk_def)
next
  case False
  let ?n = "in_size node div BLOCK_SIZE"
  have n: "?n < 2 ^ 16 - 1" using assms(4) by (simp add: less_mult_imp_div_less mult.commute)
  have r: "from + k \<le> in_size node" using False by (simp add: k_def)
  then have le: "(from + k) div BLOCK_SIZE \<le> ?n" "from div BLOCK_SIZE \<le> ?n" using False by (simp_all add: div_le_mono)
  have lt: "from + k < 2 ^ 32" using r assms(4) by (simp add: BLOCK_SIZE_def)
  have t: "trunc32 (from + n) = from + n" "trunc32 (from + k) = from + k" "trunc16 ((from + k) div BLOCK_SIZE) = (from + k) div BLOCK_SIZE"
    "trunc16 (from div BLOCK_SIZE) = from div BLOCK_SIZE"
    using lt le n assms(3) by (simp_all add: trunc32_def trunc16_def)
  have k: "(if in_size node < from + n then in_size node - from else n) = k" using False by (auto simp: k_def)
  obtain s' where "read_loop idx k ((from + k) div BLOCK_SIZE) (from div BLOCK_SIZE) from k [] s =
      Some (map (disk_byte (fs_super s) (disk (fs_cache s)) idx) [from..<from + k], s')" "same_disk s s'"
    using read_loop_bytes [OF assms(1) lt, of idx k "[]"] le(1) n by auto
  then show ?thesis using False assms(2) unfolding inode_read_def by (simp add: Let_def t k)
qed

lemma inode_read_bytes:
  assumes "coherent (fs_cache s)" "fs_inodes s idx = Some node" "from + n < 2 ^ 32"
    "in_size node < BLOCK_SIZE * (2 ^ 16 - 1)" "file_ok (fs_super s) (disk (fs_cache s)) idx (in_size node div BLOCK_SIZE) f"
  defines "k \<equiv> min n (in_size node - from)"
  shows "\<exists>s'. inode_read idx n from s = Some (int k, map (file_byte (disk (fs_cache s)) f) [from..<from + k], s') \<and> same_disk s s'"
proof -
  have "disk_byte (fs_super s) (disk (fs_cache s)) idx i = file_byte (disk (fs_cache s)) f i" if "i \<in> set [from..<from + k]" for i
    using that by (intro disk_byte_file [OF assms(5)] div_le_mono) (auto simp: k_def)
  then have "map (disk_byte (fs_super s) (disk (fs_cache s)) idx) [from..<from + k] = map (file_byte (disk (fs_cache s)) f) [from..<from + k]" by simp
  then show ?thesis using inode_read_disk [OF assms(1-4)] unfolding k_def by (simp only: )
qed

text \<open>Overwriting bytes within the size of a file.\<close>

lemma inode_overwrite:
  assumes "coherent (fs_cache s)" "fs_inodes s idx = Some node" "start + sz \<le> in_size node"
    "in_size node < BLOCK_SIZE * (2 ^ 16 - 1)" "file_ok (fs_super s) (disk (fs_cache s)) idx (in_size node div BLOCK_SIZE) f"
  shows "\<exists>s'. inode_write idx sz start d s = Some (int sz, s') \<and>
    (\<forall>x. x \<notin> f ` {..in_size node div BLOCK_SIZE} \<longrightarrow> disk (fs_cache s') x = disk (fs_cache s) x) \<and>
    (\<forall>from n. from + n \<le> in_size node \<longrightarrow>
      (\<exists>s''. inode_read idx n from s' = Some (int n, map (overwritten (file_byte (disk (fs_cache s)) f) start sz d) [from..<from + n], s'')))"
proof -
  let ?n = "in_size node div BLOCK_SIZE"
  obtain s' where w: "inode_write idx sz start d s = Some (int sz, s')" "wrote ?n f start sz d s s'"
    using inode_write_bytes [OF assms] by blast
  have s': "coherent (fs_cache s')" "fs_inodes s' idx = Some node" "file_ok (fs_super s') (disk (fs_cache s')) idx ?n f"
    using w(2) assms(2) file_ok_frame [OF assms(5)] by (auto simp: wrote_def)
  have "\<exists>s''. inode_read idx n from s' = Some (int n, map (overwritten (file_byte (disk (fs_cache s)) f) start sz d) [from..<from + n], s'')"
    if r: "from + n \<le> in_size node" for "from" n
  proof -
    have "x div BLOCK_SIZE \<le> ?n" if "x < from + n" for x using that r by (intro div_le_mono) simp
    then have "map (file_byte (disk (fs_cache s')) f) [from..<from + n] = map (overwritten (file_byte (disk (fs_cache s)) f) start sz d) [from..<from + n]"
      using w(2) by (auto simp: wrote_def)
    moreover have "min n (in_size node - from) = n" "from + n < 2 ^ 32" using r assms(4) by (simp_all add: BLOCK_SIZE_def)
    ultimately show ?thesis using inode_read_bytes [OF s'(1,2) _ assms(4) s'(3), of "from" n] by auto
  qed
  then show ?thesis using w by (auto simp: wrote_def)
qed

subsection \<open>Growing a file within its last block\<close>

text \<open>The on-disk inode says what the one in memory says, and its block is not one of the file's indirect blocks.\<close>

definition indirect_apart :: "minix3_superblock \<Rightarrow> (nat \<Rightarrow> data) \<Rightarrow> nat \<Rightarrow> nat \<Rightarrow> bool" where
  "indirect_apart sb D idx b \<longleftrightarrow> (let ino = disk_inode sb D idx; z = trunc16 (i_zone ino ! zone_slot b) in
     zone_slot b \<in> {7, 8} \<longrightarrow> z \<noteq> inode_block sb idx \<and>
       (zone_slot b = 8 \<longrightarrow> trunc16 (get_zone (D z) ((b - (7 + ZONES_PER_BLOCK)) div ZONES_PER_BLOCK)) \<noteq> inode_block sb idx))"

lemma indirect_apart_cong:
  assumes "indirect_apart sb D idx b" "i_zone (disk_inode sb D' idx) = i_zone (disk_inode sb D idx)"
    "\<forall>x \<in> path_blocks sb D idx b - {inode_block sb idx}. D' x = D x"
  shows "indirect_apart sb D' idx b"
  using assms by (auto simp: indirect_apart_def path_blocks_def Let_def)

definition inode_synced :: "fs \<Rightarrow> nat \<Rightarrow> inode \<Rightarrow> (nat \<Rightarrow> nat) \<Rightarrow> bool" where
  "inode_synced s idx node f \<longleftrightarrow>
     (let sb = fs_super s; D = disk (fs_cache s); n = in_size node div BLOCK_SIZE in
      coherent (fs_cache s) \<and> fs_inodes s idx = Some node \<and> file_ok sb D idx n f \<and> n < 2 ^ 16 - 1 \<and>
      inode_ok (disk_inode sb D idx) \<and> i_size (disk_inode sb D idx) = in_size node \<and>
      (\<forall>b \<le> n. indirect_apart sb D idx b))"

lemma disk_block_resized:
  assumes "disk_inode sb D' idx = (disk_inode sb D idx)\<lparr>i_size := sz\<rparr>" "\<forall>x \<in> path_blocks sb D idx b - {inode_block sb idx}. D' x = D x"
    "indirect_apart sb D idx b"
  shows "disk_block sb D' idx b = disk_block sb D idx b" "path_blocks sb D' idx b = path_blocks sb D idx b"
  using assms by (auto simp: disk_block_def path_blocks_def indirect_apart_def Let_def split: if_splits)

text \<open>The disk after the size of a file has grown within its last block and the new bytes are zero.\<close>

definition grown_disk :: "fs \<Rightarrow> nat \<Rightarrow> inode \<Rightarrow> (nat \<Rightarrow> nat) \<Rightarrow> nat \<Rightarrow> nat \<Rightarrow> data" where
  "grown_disk s idx node f sz =
     (let sb = fs_super s; D = disk (fs_cache s); b = f (in_size node div BLOCK_SIZE) in
      put_disk_inode sb idx ((disk_inode sb D idx)\<lparr>i_size := sz\<rparr>)
        (D(b := copy_into (D b) (in_size node mod BLOCK_SIZE) (\<lambda>_. 0) 0 (sz - in_size node))))"

lemma inode_truncate_within:
  assumes i: "inode_synced s idx node f" and sz: "in_size node < sz" "sz div BLOCK_SIZE = in_size node div BLOCK_SIZE" "sz < 2 ^ 32"
  shows "\<exists>s'. inode_truncate idx sz s = Some (0, s') \<and> coherent (fs_cache s') \<and> fs_super s' = fs_super s \<and>
    fs_inodes s' = (fs_inodes s)(idx \<mapsto> node\<lparr>in_size := sz\<rparr>) \<and> disk (fs_cache s') = grown_disk s idx node f sz"
proof -
  let ?sb = "fs_super s" and ?D = "disk (fs_cache s)" and ?n = "in_size node div BLOCK_SIZE" and ?is = "in_size node"
  let ?ino = "disk_inode ?sb ?D idx"
  have c: "coherent (fs_cache s)" and node: "fs_inodes s idx = Some node" and f: "f ?n \<noteq> 0" "disk_block ?sb ?D idx ?n = f ?n"
    and n: "?n < 2 ^ 16 - 1" and size: "i_size ?ino = ?is"
    using i by (auto simp: inode_synced_def Let_def file_ok_def)
  define c1 where "c1 = bd.touched (inode_block ?sb idx) (fs_cache s)"
  have c1: "coherent c1" "disk c1 = ?D" using c by (simp_all add: c1_def)
  have t: "trunc16 (?n + 1) = ?n + 1" "trunc16 ?n = ?n" using n by (simp_all add: trunc16_def)
  have ex: "extend_zone ?sb ?ino sz c1 = Some (0, ?ino\<lparr>i_size := sz\<rparr>, c1)"
    using size sz(2) t by (simp add: extend_zone_def Let_def extend_loop.simps)
  have sum: "?is + (sz - ?is) = sz" using sz(1) by simp
  have k: "calculate_block_copy_size ?is (sz - ?is) = sz - ?is" using copy_size(4) [of ?is "sz - ?is"] sz sum by simp
  obtain c2 where c2: "get_block ?sb idx ?n c1 = Some (f ?n, c2)" "coherent c2" "disk c2 = ?D"
    using get_block_disk [OF c1(1), of ?sb idx ?n] c1(2) f(2) by auto
  let ?buf = "copy_into (?D (f ?n)) (?is mod BLOCK_SIZE) (\<lambda>_. 0) 0 (sz - ?is)"
  define c3 where "c3 = bd.stored (f ?n) ?buf (bd.touched (f ?n) c2)"
  have c3: "coherent c3" "disk c3 = ?D(f ?n := ?buf)" using c2 by (simp_all add: c3_def)
  have "clear_loop ?sb idx sz ?is (sz - ?is) c1 = clear_loop ?sb idx sz sz 0 c3"
    using c2 f(1) sz t(2) k
    by (subst clear_loop.simps) (simp add: Let_def calculate_block_offset_def trunc32_def c3_def)
  then have cl: "clear_loop ?sb idx sz ?is (sz - ?is) c1 = Some (True, c3)" by (simp add: clear_loop.simps [of _ _ _ _ 0])
  let ?s' = "upd_inode idx (in_size_update (\<lambda>_. sz)) (s\<lparr>fs_cache := inode_written ?sb idx (?ino\<lparr>i_size := sz\<rparr>) c3\<rparr>)"
  have "inode_truncate idx sz s = Some (0, ?s')"
    using node sz(1) c cl ex write_inode_disk(1) [OF c3(1)]
    by (simp add: inode_truncate_def read_inode_disk Let_def c1_def [symmetric])
  moreover have "disk (fs_cache ?s') = grown_disk s idx node f sz"
    using write_inode_disk(3) [OF c3(1)] c3(2) by (simp add: upd_inode_def grown_disk_def Let_def)
  ultimately show ?thesis
    using write_inode_disk(2) [OF c3(1)] node by (intro exI [of _ ?s']) (simp add: upd_inode_def)
qed

lemma grown_disk_file:
  assumes i: "inode_synced s idx node f" and sz: "in_size node < sz" "sz div BLOCK_SIZE = in_size node div BLOCK_SIZE" "sz < 2 ^ 32"
  defines "D' \<equiv> grown_disk s idx node f sz" and "n \<equiv> in_size node div BLOCK_SIZE"
  shows "file_ok (fs_super s) D' idx n f" "disk_inode (fs_super s) D' idx = (disk_inode (fs_super s) (disk (fs_cache s)) idx)\<lparr>i_size := sz\<rparr>"
    "i < in_size node \<Longrightarrow> file_byte D' f i = file_byte (disk (fs_cache s)) f i"
proof -
  let ?sb = "fs_super s" and ?D = "disk (fs_cache s)"
  let ?ino = "disk_inode ?sb ?D idx"
  let ?D1 = "?D(f n := copy_into (?D (f n)) (in_size node mod BLOCK_SIZE) (\<lambda>_. 0) 0 (sz - in_size node))"
  have D': "D' = put_disk_inode ?sb idx (?ino\<lparr>i_size := sz\<rparr>) ?D1" by (simp add: D'_def grown_disk_def Let_def n_def)
  have fo: "file_ok ?sb ?D idx n f" and ok: "inode_ok ?ino" using i by (auto simp: inode_synced_def Let_def n_def)
  then have ok': "inode_ok (?ino\<lparr>i_size := sz\<rparr>)" using sz(3) by (simp add: inode_ok_def)
  have ib: "inode_block ?sb idx \<notin> f ` {..n}" using fo by (auto simp: file_ok_def path_blocks_def Let_def)
  show di: "disk_inode ?sb D' idx = ?ino\<lparr>i_size := sz\<rparr>"
    unfolding D' using inode_at_put_inode [OF ok'] by (simp add: disk_inode_def put_disk_inode_def)
  have same: "D' x = ?D x" if "x \<noteq> inode_block ?sb idx" "x \<notin> f ` {..n}" for x
    using that by (auto simp: D' put_disk_inode_def)
  have "disk_block ?sb D' idx b = disk_block ?sb ?D idx b \<and> path_blocks ?sb D' idx b = path_blocks ?sb ?D idx b" if "b \<le> n" for b
  proof -
    have "\<forall>x \<in> path_blocks ?sb ?D idx b - {inode_block ?sb idx}. D' x = ?D x" using fo that same by (auto simp: file_ok_def)
    then show ?thesis
      using disk_block_resized [OF di, of b] i that unfolding inode_synced_def Let_def n_def by auto
  qed
  then show "file_ok ?sb D' idx n f" using fo by (simp add: file_ok_def)
  show "file_byte D' f i = file_byte ?D f i" if l: "i < in_size node"
  proof -
    have b: "i div BLOCK_SIZE \<le> n" using l unfolding n_def by (intro div_le_mono) simp
    then have "f (i div BLOCK_SIZE) \<noteq> inode_block ?sb idx" using ib by (metis atMost_iff imageI)
    then have "file_byte D' f i = file_byte ?D1 f i" by (simp add: file_byte_def D' put_disk_inode_def)
    moreover have "in_size node mod BLOCK_SIZE + (sz - in_size node) \<le> BLOCK_SIZE"
      using copy_size(1,4) [of "in_size node" "sz - in_size node"] sz by simp
    moreover have "n * BLOCK_SIZE + in_size node mod BLOCK_SIZE = in_size node" by (simp add: n_def)
    moreover have "inj_on f {..n}" using fo by (simp add: file_ok_def)
    ultimately show ?thesis
      using file_byte_write [of f n n "in_size node mod BLOCK_SIZE" "sz - in_size node" i ?D "\<lambda>_. 0" 0] b l by simp
  qed
qed

lemma inode_append_within:
  assumes "inode_synced s idx node f" "0 < k" "(in_size node + k) div BLOCK_SIZE = in_size node div BLOCK_SIZE"
  shows "\<exists>s'. inode_write idx k (in_size node) d s = Some (int k, s') \<and>
    fs_inodes s' = (fs_inodes s)(idx \<mapsto> node\<lparr>in_size := in_size node + k\<rparr>) \<and> inode_synced s' idx (node\<lparr>in_size := in_size node + k\<rparr>) f \<and>
    (\<forall>i < in_size node + k. file_byte (disk (fs_cache s')) f i =
       (if i < in_size node then file_byte (disk (fs_cache s)) f i else d (i - in_size node)))"
proof -
  let ?sb = "fs_super s" and ?is = "in_size node" and ?n = "in_size node div BLOCK_SIZE"
  define sz where "sz = ?is + k"
  have n: "?n < 2 ^ 16 - 1" using assms(1) by (simp add: inode_synced_def Let_def)
  have eq: "sz div BLOCK_SIZE = ?n" using assms(3) by (simp add: sz_def)
  then have "sz < BLOCK_SIZE * (?n + 1)" using dividend_less_times_div [of BLOCK_SIZE sz] by simp
  also have "\<dots> \<le> BLOCK_SIZE * (2 ^ 16 - 1)" using n by (intro mult_le_mono2) simp
  finally have sz: "?is < sz" "sz < 2 ^ 32" using assms(2) by (simp_all add: sz_def BLOCK_SIZE_def)
  obtain s1 where s1: "inode_truncate idx sz s = Some (0, s1)" "coherent (fs_cache s1)" "fs_super s1 = ?sb"
    "fs_inodes s1 = (fs_inodes s)(idx \<mapsto> node\<lparr>in_size := sz\<rparr>)" "disk (fs_cache s1) = grown_disk s idx node f sz"
    using inode_truncate_within [OF assms(1) sz(1) eq sz(2)] by blast
  note g = grown_disk_file [OF assms(1) sz(1) eq sz(2), folded s1(5)]
  have st: "?is + k < 2 ^ 32" using sz(2) by (simp add: sz_def)
  have cp: "calculate_block_copy_size ?is k = k" using copy_size(4) [OF st] assms(3) by simp
  obtain s2 where s2: "on_cache s1 (get_block ?sb idx ?n (fs_cache s1)) = Some (f ?n, s2)" "same_disk s1 s2"
    using get_block_fs [OF s1(2), of idx ?n] g(1) s1(3) by (auto simp: file_ok_def)
  let ?buf = "copy_into (disk (fs_cache s1) (f ?n)) (?is mod BLOCK_SIZE) d 0 k"
  define s3 where "s3 = s2\<lparr>fs_cache := bd.stored (f ?n) ?buf (bd.touched (f ?n) (fs_cache s2))\<rparr>"
  have f0: "f ?n \<noteq> 0" using g(1) by (simp add: file_ok_def)
  have node: "fs_inodes s idx = Some node" using assms(1) by (simp add: inode_synced_def Let_def)
  have t: "trunc32 (?is + k) = sz" "trunc16 ?n = ?n" "trunc16 (?n + 1) = ?n + 1" using sz(2) n by (simp_all add: sz_def trunc32_def trunc16_def)
  have "write_loop idx k d ?n ?n ?is k s = write_loop idx k d ?n (?n + 1) sz 0 s3"
    using node cp t(1,3) s1(1) sz(1) s2 s1(3) f0
    by (subst write_loop.simps) (simp add: Let_def calculate_block_offset_def s3_def same_disk_def)
  then have "inode_write idx k ?is d s = Some (int k, s3)"
    unfolding inode_write_def t assms(3) using eq t(2) by (simp add: Let_def write_loop.simps [of _ _ _ _ "Suc _"])
  moreover have D3: "disk (fs_cache s3) = (disk (fs_cache s1))(f ?n := ?buf)" "coherent (fs_cache s3)" "fs_super s3 = ?sb"
    "fs_inodes s3 = (fs_inodes s)(idx \<mapsto> node\<lparr>in_size := sz\<rparr>)"
    using s2(2) s1(2-4) by (simp_all add: s3_def same_disk_def)
  moreover have "inode_synced s3 idx (node\<lparr>in_size := sz\<rparr>) f"
  proof -
    have fo: "file_ok ?sb (disk (fs_cache s3)) idx ?n f" using g(1) by (rule file_ok_frame) (auto simp: D3(1))
    have ib: "inode_block ?sb idx \<noteq> f ?n" using g(1) by (auto simp: file_ok_def path_blocks_def Let_def)
    then have di: "disk_inode ?sb (disk (fs_cache s3)) idx = (disk_inode ?sb (disk (fs_cache s)) idx)\<lparr>i_size := sz\<rparr>"
      using g(2) by (simp add: D3(1) disk_inode_def)
    have "indirect_apart ?sb (disk (fs_cache s3)) idx b" if b: "b \<le> ?n" for b
    proof (rule indirect_apart_cong [of ?sb "disk (fs_cache s)"])
      have "file_ok ?sb (disk (fs_cache s)) idx ?n f" using assms(1) by (simp add: inode_synced_def Let_def)
      then show "\<forall>x \<in> path_blocks ?sb (disk (fs_cache s)) idx b - {inode_block ?sb idx}. disk (fs_cache s3) x = disk (fs_cache s) x"
        using b by (auto simp: D3(1) s1(5) grown_disk_def put_disk_inode_def file_ok_def Let_def)
    qed (use assms(1) b di in \<open>auto simp: inode_synced_def Let_def\<close>)
    moreover have "inode_ok (disk_inode ?sb (disk (fs_cache s)) idx)" using assms(1) by (simp add: inode_synced_def Let_def)
    ultimately show ?thesis using fo di n D3(2-4) eq sz(2) by (simp add: inode_synced_def inode_ok_def Let_def)
  qed
  moreover have "file_byte (disk (fs_cache s3)) f i = (if i < ?is then file_byte (disk (fs_cache s)) f i else d (i - ?is))" if i: "i < sz" for i
  proof -
    have b: "i div BLOCK_SIZE \<le> ?n" using i eq div_le_mono [of i sz BLOCK_SIZE] by simp
    have "?is mod BLOCK_SIZE + k \<le> BLOCK_SIZE" using copy_size(1) [OF st] cp by simp
    moreover have "?n * BLOCK_SIZE + ?is mod BLOCK_SIZE = ?is" by simp
    moreover have "inj_on f {..?n}" using g(1) by (simp add: file_ok_def)
    ultimately show ?thesis
      using file_byte_write [of f ?n ?n "?is mod BLOCK_SIZE" k i "disk (fs_cache s1)" d 0] b i g(3) [of i] by (simp add: D3(1) sz_def)
  qed
  ultimately show ?thesis unfolding sz_def by blast
qed

lemma inode_append_read:
  assumes "inode_synced s idx node f" "0 < k" "(in_size node + k) div BLOCK_SIZE = in_size node div BLOCK_SIZE"
  shows "\<exists>s' s''. inode_write idx k (in_size node) d s = Some (int k, s') \<and> fs_inodes s' = (fs_inodes s)(idx \<mapsto> node\<lparr>in_size := in_size node + k\<rparr>) \<and>
    inode_read idx (in_size node + k) 0 s' =
      Some (int (in_size node + k), map (file_byte (disk (fs_cache s)) f) [0..<in_size node] @ map d [0..<k], s'')"
proof -
  let ?is = "in_size node"
  let ?node = "node\<lparr>in_size := ?is + k\<rparr>"
  obtain s' where w: "inode_write idx k ?is d s = Some (int k, s')" "fs_inodes s' = (fs_inodes s)(idx \<mapsto> ?node)" "inode_synced s' idx ?node f"
      "\<forall>i < ?is + k. file_byte (disk (fs_cache s')) f i = (if i < ?is then file_byte (disk (fs_cache s)) f i else d (i - ?is))"
    using inode_append_within [OF assms] by blast
  have y: "coherent (fs_cache s')" "fs_inodes s' idx = Some ?node" "file_ok (fs_super s') (disk (fs_cache s')) idx (in_size ?node div BLOCK_SIZE) f"
      "in_size ?node div BLOCK_SIZE < 2 ^ 16 - 1"
    using w(3) by (auto simp: inode_synced_def Let_def)
  have sz: "in_size ?node < BLOCK_SIZE * (2 ^ 16 - 1)" using y(4) by (metis BLOCK_SIZE_pos div_less_iff_less_mult mult.commute)
  then have "0 + (?is + k) < 2 ^ 32" by (simp add: BLOCK_SIZE_def)
  note r = inode_read_bytes [OF y(1,2) this sz y(3)]
  have "map (file_byte (disk (fs_cache s')) f) [0..<?is + k] = map (file_byte (disk (fs_cache s)) f) [0..<?is] @ map d [0..<k]"
    by (rule nth_equalityI) (use w(4) in \<open>auto simp: nth_append\<close>)
  then show ?thesis using w(1,2) r by auto
qed

text \<open>
  C18: Writing to a file whose blocks are in place, and reading it.  \<^verbatim>\<open>inode_write\<close> of bytes within the size of the
  file returns the number of bytes asked for, nothing else on the disk changes, and every later \<^verbatim>\<open>inode_read\<close> returns
  the new bytes where it overlaps what was written and the old ones elsewhere, through direct, indirect and doubly
  indirect blocks and whatever the alignment.  A write at the end of the file of bytes that fit into its last block
  returns their number, the file has grown by them, and reading it gives the old bytes followed by the new ones.
\<close>

theorem inode_write_read:
  assumes "coherent (fs_cache s)" "fs_inodes s idx = Some node"
    "in_size node < BLOCK_SIZE * (2 ^ 16 - 1)" "file_ok (fs_super s) (disk (fs_cache s)) idx (in_size node div BLOCK_SIZE) f"
  shows "(start + sz \<le> in_size node \<longrightarrow>
      (\<exists>s'. inode_write idx sz start d s = Some (int sz, s') \<and>
        (\<forall>x. x \<notin> f ` {..in_size node div BLOCK_SIZE} \<longrightarrow> disk (fs_cache s') x = disk (fs_cache s) x) \<and>
        (\<forall>from n. from + n \<le> in_size node \<longrightarrow>
          (\<exists>s''. inode_read idx n from s' = Some (int n, map (overwritten (file_byte (disk (fs_cache s)) f) start sz d) [from..<from + n], s''))))) \<and>
    (inode_synced s idx node f \<and> start = in_size node \<and> 0 < sz \<and> (start + sz) div BLOCK_SIZE = start div BLOCK_SIZE \<longrightarrow>
      (\<exists>s' s''. inode_write idx sz start d s = Some (int sz, s') \<and> fs_inodes s' = (fs_inodes s)(idx \<mapsto> node\<lparr>in_size := start + sz\<rparr>) \<and>
        inode_read idx (start + sz) 0 s' =
          Some (int (start + sz), map (file_byte (disk (fs_cache s)) f) [0..<start] @ map d [0..<sz], s'')))"
  using inode_overwrite [OF assms(1,2) _ assms(3,4), of start sz d] inode_append_read [of s idx node f sz d] by blast

text \<open>A disk with one file: inode 1 has ten bytes in block 5, all of them 7.\<close>

definition example_super :: minix3_superblock where
  "example_super = superblock_at (\<lambda>_. 0) 0"

definition example_inode :: minix2_inode where
  "example_inode = zero_inode\<lparr>i_size := 10, i_mode := 0x8000, i_zone := 5 # replicate 9 0\<rparr>"

definition example_disk :: "nat \<Rightarrow> data" where
  "example_disk = (\<lambda>_ _. 7)(2 := put_inode 0 example_inode (\<lambda>_. 0))"

definition example_fs :: fs where
  "example_fs = \<lparr>fs_cache = block_init example_disk (\<lambda>_. 0) (\<lambda>_. True), fs_super = example_super,
     fs_inodes = [1 \<mapsto> \<lparr>in_mode = 0x8000, in_nlinks = 1, in_size = 10\<rparr>]\<rparr>"

lemma example_super_places: "inode_block example_super 1 = 2" "inode_place 1 = 0" "inode_block example_super 2 = 2" "inode_place 2 = 64"
  by (simp_all add: inode_block_def inode_place_def example_super_def superblock_at_def INODE_ZONE_INDEX_def IMAP_ZONE_INDEX_def
      INODES_PER_BLOCK_def sizeof_minix2_inode_def BLOCK_SIZE_def get16_def trunc16_def trunc32_def)

lemma one_block_synced:
  assumes "coherent (fs_cache s)" "fs_inodes s idx = Some node" "in_size node < BLOCK_SIZE"
    "disk_inode (fs_super s) (disk (fs_cache s)) idx = ino" "inode_ok ino" "i_size ino = in_size node"
    "trunc16 (i_zone ino ! 0) = b" "b \<noteq> 0" "b \<noteq> inode_block (fs_super s) idx"
  shows "inode_synced s idx node (\<lambda>_. b)"
  using assms
  by (cases "i_zone ino ! 0") (simp_all add: inode_synced_def file_ok_def disk_block_def path_blocks_def indirect_apart_def Let_def zone_slot_def trunc16_def)

lemma example_synced: "inode_synced example_fs 1 \<lparr>in_mode = 0x8000, in_nlinks = 1, in_size = 10\<rparr> (\<lambda>_. 5)"
proof (rule one_block_synced)
  have ok: "inode_ok example_inode" by (simp add: inode_ok_def example_inode_def zero_inode_def)
  then show "disk_inode (fs_super example_fs) (disk (fs_cache example_fs)) 1 = example_inode"
    unfolding disk_inode_def by (simp add: example_fs_def block_init_def example_super_places [unfolded One_nat_def] example_disk_def inode_at_put_inode)
  show "inode_ok example_inode" by (fact ok)
qed (simp_all add: example_fs_def coherent_def in_step_def memory_lasts_def block_init_def BLOCK_SIZE_def example_inode_def trunc16_def
    example_super_places [unfolded One_nat_def])

theorem inode_write_read_witness:
  "(\<exists>s' s''. inode_write 1 3 4 (\<lambda>j. of_nat (100 + j)) example_fs = Some (3, s') \<and>
     inode_read 1 10 0 s' = Some (10, [7, 7, 7, 7, 100, 101, 102, 7, 7, 7], s'')) \<and>
   (\<exists>s' s''. inode_write 1 2 10 (\<lambda>j. of_nat (100 + j)) example_fs = Some (2, s') \<and>
     inode_read 1 12 0 s' = Some (12, [7, 7, 7, 7, 7, 7, 7, 7, 7, 7, 100, 101], s''))"
proof -
  let ?node = "\<lparr>in_mode = 0x8000, in_nlinks = 1, in_size = 10\<rparr>"
  let ?old = "file_byte (disk (fs_cache example_fs)) (\<lambda>_. 5)" and ?d = "\<lambda>j. of_nat (100 + j) :: u8"
  have c: "coherent (fs_cache example_fs)" by (simp add: example_fs_def coherent_init)
  have n: "fs_inodes example_fs 1 = Some ?node" by (simp add: example_fs_def)
  have f: "file_ok (fs_super example_fs) (disk (fs_cache example_fs)) 1 (in_size ?node div BLOCK_SIZE) (\<lambda>_. 5)"
    using example_synced by (simp add: inode_synced_def Let_def)
  have z: "in_size ?node < BLOCK_SIZE * (2 ^ 16 - 1)" by (simp add: BLOCK_SIZE_def)
  have o: "map (overwritten ?old 4 3 ?d) [0..<10] = [7, 7, 7, 7, 100, 101, 102, 7, 7, 7]" "map ?old [0..<10] @ map ?d [0..<2] = [7, 7, 7, 7, 7, 7, 7, 7, 7, 7, 100, 101]"
    by (simp_all add: upt_rec overwritten_def file_byte_def example_fs_def block_init_def example_disk_def)
  have w: "\<exists>s'. inode_write 1 3 4 ?d example_fs = Some (int 3, s') \<and>
      (\<forall>from n. from + n \<le> 10 \<longrightarrow> (\<exists>s''. inode_read 1 n from s' = Some (int n, map (overwritten ?old 4 3 ?d) [from..<from + n], s'')))"
    using inode_write_read [OF c n z f, of 4 3 ?d] by auto
  then obtain s' where s': "inode_write 1 3 4 ?d example_fs = Some (int 3, s')"
    and r: "\<And>from n. from + n \<le> 10 \<Longrightarrow> \<exists>s''. inode_read 1 n from s' = Some (int n, map (overwritten ?old 4 3 ?d) [from..<from + n], s'')" by blast
  obtain s'' where "inode_read 1 10 0 s' = Some (int 10, map (overwritten ?old 4 3 ?d) [0..<10], s'')" using r [of 0 10] by auto
  note s' this
  moreover obtain t' t'' where "inode_write 1 2 10 ?d example_fs = Some (int 2, t')"
    "inode_read 1 (10 + 2) 0 t' = Some (int (10 + 2), map ?old [0..<10] @ map ?d [0..<2], t'')"
    using inode_write_read [OF c n z f, of 10 2 ?d] example_synced by (auto simp: BLOCK_SIZE_def)
  ultimately show ?thesis using o by simp
qed

end
