(* ===== verification/Cy_Fs_Correct.thy ===== *)
theory Cy_Fs_Correct
  imports Cy_Fs Cy_Inode_Correct
begin

text \<open>
  Correctness of directory entries: linking and unlinking change exactly one name.
\<close>

definition child_named :: "vfs \<Rightarrow> nat \<Rightarrow> u8 list \<Rightarrow> nat option" where
  "child_named s d name = Option.bind (dentries s d) (\<lambda>e. find_child name (d_children e) s)"

lemma read_children_loaded: "dentries s d = Some e \<Longrightarrow> d_loaded e \<Longrightarrow> read_children d s = Some (0, s)"
  by (simp add: read_children_def)

subsection \<open>Names in a directory\<close>

text \<open>
  The invariant of the tree: the children of an entry exist, point back to it, are listed once and have
  different names.
\<close>

definition named :: "vfs \<Rightarrow> nat \<Rightarrow> u8 list" where
  "named s c = d_name (the (dentries s c))"

definition tree_inv :: "vfs \<Rightarrow> bool" where
  "tree_inv s \<longleftrightarrow> (\<forall>d e. dentries s d = Some e \<longrightarrow> d < next_dentry s \<and> length (d_name e) \<le> NAME_MAX \<and> distinct (d_children e) \<and>
     inj_on (named s) (set (d_children e)) \<and> (\<forall>c \<in> set (d_children e). \<exists>x. dentries s c = Some x \<and> d_parent x = d \<and> c \<noteq> d))"

lemma tree_invD:
  assumes "tree_inv s" "dentries s d = Some e"
  shows "d < next_dentry s" "length (d_name e) \<le> NAME_MAX" "distinct (d_children e)" "inj_on (named s) (set (d_children e))"
    "\<And>c. c \<in> set (d_children e) \<Longrightarrow> \<exists>x. dentries s c = Some x \<and> d_parent x = d \<and> c \<noteq> d"
  using assms by (auto simp: tree_inv_def)

lemma find_child_iff:
  assumes "tree_inv s" "dentries s d = Some e"
  shows "find_child n (d_children e) s = Some c \<longleftrightarrow> c \<in> set (d_children e) \<and> named s c = take NAME_MAX n"
proof -
  let ?P = "\<lambda>c. case dentries s c of Some x \<Rightarrow> d_name x = take NAME_MAX n | None \<Rightarrow> False"
  have P: "?P c \<longleftrightarrow> named s c = take NAME_MAX n" if "c \<in> set (d_children e)" for c
    using tree_invD(5) [OF assms that] by (auto simp: named_def)
  have uniq: "c = c'" if "c \<in> set (d_children e)" "c' \<in> set (d_children e)" "?P c" "?P c'" for c c'
    using tree_invD(4) [OF assms] that P by (metis inj_onD)
  show ?thesis
  proof
    assume "find_child n (d_children e) s = Some c"
    then show "c \<in> set (d_children e) \<and> named s c = take NAME_MAX n"
      using P by (auto simp: find_child_def find_Some_iff)
  next
    assume c: "c \<in> set (d_children e) \<and> named s c = take NAME_MAX n"
    then have "find ?P (d_children e) \<noteq> None" using P by (auto simp: find_None_iff)
    then obtain c' where c': "find ?P (d_children e) = Some c'" by blast
    then have "c' \<in> set (d_children e)" "?P c'" by (auto simp: find_Some_iff)
    then show "find_child n (d_children e) s = Some c" using c c' uniq [of c' c] P by (auto simp: find_child_def)
  qed
qed

lemma child_named_iff:
  "tree_inv s \<Longrightarrow> dentries s d = Some e \<Longrightarrow>
   child_named s d n = Some c \<longleftrightarrow> c \<in> set (d_children e) \<and> named s c = take NAME_MAX n"
  by (simp add: child_named_def find_child_iff)

text \<open>The operations on inodes do not touch the tree.\<close>

definition same_tree :: "vfs \<Rightarrow> vfs \<Rightarrow> bool" where
  "same_tree s s' \<longleftrightarrow> dentries s' = dentries s \<and> next_dentry s' = next_dentry s \<and> root_dentry s' = root_dentry s"

lemma on_fs_same_tree: "on_fs s r = Some (x, s') \<Longrightarrow> same_tree s s'"
  by (auto simp: on_fs_def same_tree_def)

lemma write_child_same_tree: "write_child d s = Some (r, s') \<Longrightarrow> same_tree s s'"
  by (auto simp: write_child_def bind_eq_Some_conv on_fs_same_tree split: if_splits)

lemma same_tree_v_fs [simp]: "same_tree (s\<lparr>v_fs := f\<rparr>) s' = same_tree s s'" "same_tree s (s'\<lparr>v_fs := f\<rparr>) = same_tree s s'"
  by (simp_all add: same_tree_def)

lemma same_tree_refl [simp]: "same_tree s s"
  by (simp add: same_tree_def)

lemma remove_loop_same_tree: "remove_loop inode name off s = Some y \<Longrightarrow> same_tree s (snd y)"
proof (erule remove_loop.raw_induct [rotated], goal_cases)
  case (1 f inode name off s y)
  then obtain rs bs g where g: "inode_read inode BLOCK_SIZE off (v_fs s) = Some (rs, bs, g)"
    by (auto simp: bind_eq_Some_conv)
  let ?s = "s\<lparr>v_fs := g\<rparr>"
  let ?es = "map (dirent_at bs) [0..<nat rs div DIRENT_SIZE]"
  show ?case
  proof (cases "rs < 0 \<or> rs = 0 \<or> nat rs mod DIRENT_SIZE \<noteq> 0")
    case True
    then have "y = (- 1, ?s)" using 1(2) unfolding g by (simp add: Let_def split: if_splits)
    then show ?thesis by simp
  next
    case False
    show ?thesis
    proof (cases "find_entry name ?es 0")
      case None
      then have "f inode name (trunc32 (off + nat rs)) ?s = Some y" using 1(2) False unfolding g by (simp add: Let_def)
      then show ?thesis using 1(1) by fastforce
    next
      case (Some i)
      then have "\<exists>r. on_fs ?s (inode_write inode DIRENT_SIZE (trunc32 (off + i * DIRENT_SIZE))
          (put32 0 0 (\<lambda>j. bs ! (i * DIRENT_SIZE + j))) g) = Some (r, snd y)"
        using 1(2) False unfolding g by (auto simp: Let_def)
      then show ?thesis using on_fs_same_tree [of ?s] by fastforce
    qed
  qed
qed

lemma remove_child_same_tree: "remove_child d name s = Some (r, s') \<Longrightarrow> same_tree s s'"
  using remove_loop_same_tree by (fastforce simp: remove_child_def bind_eq_Some_conv)

subsection \<open>Linking\<close>

lemma upd_dentry_simps [simp]:
  "dentries (upd_dentry d f s) x = (if x = d then map_option f (dentries s d) else dentries s x)"
  "next_dentry (upd_dentry d f s) = next_dentry s" "root_dentry (upd_dentry d f s) = root_dentry s" "v_fs (upd_dentry d f s) = v_fs s"
  by (simp_all add: upd_dentry_def)

text \<open>The tree after a new entry \<open>n\<close> for an inode has been put in front of the children of \<open>d\<close>.\<close>

definition linked_tree :: "vfs \<Rightarrow> nat \<Rightarrow> u8 list \<Rightarrow> nat \<Rightarrow> vfs \<Rightarrow> bool" where
  "linked_tree s d name inode s' \<longleftrightarrow> next_dentry s' = next_dentry s + 1 \<and> root_dentry s' = root_dentry s \<and>
     dentries s' (next_dentry s) =
       Some \<lparr>d_name = name, d_loaded = False, d_nentries = 0, d_inode = inode, d_parent = d, d_children = []\<rparr> \<and>
     (\<forall>x. x \<noteq> next_dentry s \<longrightarrow> dentries s' x =
       (if x = d then map_option (\<lambda>e. e\<lparr>d_children := next_dentry s # d_children e, d_nentries := d_nentries e + 1\<rparr>) (dentries s d)
        else dentries s x))"

lemma create_dentry_cases:
  assumes "tree_inv s" "dentries s d = Some e" "d_loaded e" "length name \<le> NAME_MAX"
    "create_dentry d name inode s = Some (r, s')"
  shows "if child_named s d name \<noteq> None then r = - 1 \<and> s' = s else r = 0 \<and> linked_tree s d name inode s'"
proof -
  have dn: "d \<noteq> next_dentry s" using tree_invD(1) [OF assms(1,2)] by simp
  show ?thesis
  proof (cases "find_child name (d_children e) s")
    case (Some c)
    then show ?thesis
      using assms(2-5) by (simp add: create_dentry_def read_children_loaded child_named_def)
  next
    case None
    let ?new = "next_dentry s"
    let ?s1 = "upd_dentry d (\<lambda>e. e\<lparr>d_children := ?new # d_children e\<rparr>) (snd (alloc_dentry (Some d) inode name s))"
    obtain w s2 where w: "write_child ?new ?s1 = Some (w, s2)" and r: "r = 0"
      and s': "\<exists>f. s' = (upd_dentry d (\<lambda>e. e\<lparr>d_nentries := d_nentries e + 1\<rparr>) s2)\<lparr>v_fs := f\<rparr>"
      using assms(2-5) None
      by (auto simp: create_dentry_def read_children_loaded alloc_dentry_def Let_def bind_eq_Some_conv)
    have "same_tree ?s1 s2" using w by (rule write_child_same_tree)
    then have "linked_tree s d name inode s'"
      using s' dn assms(2,4) by (auto simp: linked_tree_def same_tree_def alloc_dentry_def Let_def)
    then show ?thesis using r None assms(2) by (simp add: child_named_def)
  qed
qed

lemma linked_tree_inv:
  assumes inv: "tree_inv s" and d: "dentries s d = Some e" and l: "linked_tree s d name inode s'"
    and n: "length name \<le> NAME_MAX" "child_named s d name = None"
  shows "tree_inv s'"
    "child_named s' d n' = (if take NAME_MAX n' = name then Some (next_dentry s) else child_named s d n')"
    "x \<noteq> d \<Longrightarrow> x \<noteq> next_dentry s \<Longrightarrow> child_named s' x n' = child_named s x n'"
proof -
  let ?new = "next_dentry s"
  have new: "dentries s ?new = None" using tree_invD(1) [OF inv, of ?new] by (cases "dentries s ?new") auto
  have dn: "d \<noteq> ?new" using new d by auto
  have old: "c \<noteq> ?new" if "dentries s x = Some y" "c \<in> set (d_children y)" for x y c
    using tree_invD(5) [OF inv that] new by auto
  have nm: "named s' ?new = name" "\<And>c. c \<noteq> ?new \<Longrightarrow> dentries s c \<noteq> None \<Longrightarrow> named s' c = named s c"
    using l d by (auto simp: linked_tree_def named_def)
  let ?e = "e\<lparr>d_children := ?new # d_children e, d_nentries := d_nentries e + 1\<rparr>"
  have d': "dentries s' d = Some ?e" "dentries s' ?new = Some \<lparr>d_name = name, d_loaded = False, d_nentries = 0, d_inode = inode, d_parent = d, d_children = []\<rparr>"
    using l d dn by (simp_all add: linked_tree_def)
  have oth: "dentries s' x = dentries s x" if "x \<noteq> d" "x \<noteq> ?new" for x using l that by (simp add: linked_tree_def)
  have kids: "\<exists>y'. dentries s' c = Some y' \<and> d_parent y' = x \<and> c \<noteq> x" if c: "dentries s x = Some y" "c \<in> set (d_children y)" for x y c
  proof -
    obtain z where "dentries s c = Some z" "d_parent z = x" "c \<noteq> x" using tree_invD(5) [OF inv c] by blast
    then show ?thesis using oth [of c] old [OF c] d d'(1) by (cases "c = d") auto
  qed
  have nmk: "named s' c = named s c" if c: "dentries s x = Some y" "c \<in> set (d_children y)" for x y c
    using nm(2) [of c] old [OF c] tree_invD(5) [OF inv c] by auto
  have inj: "inj_on (named s') (set (d_children y))" if "dentries s x = Some y" for x y
  proof -
    show ?thesis using tree_invD(4) [OF inv that] nmk [OF that] by (simp add: inj_on_def)
  qed
  have fresh: "named s' c \<noteq> name" if "c \<in> set (d_children e)" for c
  proof
    assume "named s' c = name"
    then have "named s c = take NAME_MAX name" using nm(2) [of c] old [OF d that] tree_invD(5) [OF inv d that] n(1) by auto
    then show False using n(2) child_named_iff [OF inv d, of name c] that by simp
  qed
  have "named s' ?new \<notin> named s' ` set (d_children e)" using fresh nm(1) by force
  then have de: "inj_on (named s') (set (d_children ?e))" "distinct (d_children ?e)"
    using inj [OF d] tree_invD(3) [OF inv d] old [OF d] by (auto simp: inj_on_insert)
  show t: "tree_inv s'" unfolding tree_inv_def
  proof (intro allI impI)
    fix x y assume y: "dentries s' x = Some y"
    have nx: "next_dentry s' = ?new + 1" using l by (simp add: linked_tree_def)
    consider "x = d" | "x = ?new" | "x \<noteq> d" "x \<noteq> ?new" by blast
    then show "x < next_dentry s' \<and> length (d_name y) \<le> NAME_MAX \<and> distinct (d_children y) \<and> inj_on (named s') (set (d_children y)) \<and>
        (\<forall>c \<in> set (d_children y). \<exists>z. dentries s' c = Some z \<and> d_parent z = x \<and> c \<noteq> x)"
    proof cases
      case 1
      then have "y = ?e" using y d' by simp
      then show ?thesis using 1 de kids [OF d] d'(2) dn tree_invD(1,2) [OF inv d] nx by auto
    next
      case 2
      then show ?thesis using y d'(2) n(1) nx by auto
    next
      case 3
      then have o: "dentries s x = Some y" using y oth by simp
      then show ?thesis using tree_invD(1-3) [OF inv o] inj [OF o] kids [OF o] nx by simp
    qed
  qed
  show "child_named s' d n' = (if take NAME_MAX n' = name then Some ?new else child_named s d n')"
  proof (cases "take NAME_MAX n' = name")
    case True
    then show ?thesis using child_named_iff [OF t d'(1), of n' ?new] nm(1) by simp
  next
    case False
    have "child_named s' d n' = Some c \<longleftrightarrow> child_named s d n' = Some c" for c
      unfolding child_named_iff [OF t d'(1)] child_named_iff [OF inv d]
      using False nm(1) old [OF d] nmk [OF d, of c] by auto
    then show ?thesis using False by (simp add: option_eqI)
  qed
  show "child_named s' x n' = child_named s x n'" if x: "x \<noteq> d" "x \<noteq> ?new"
  proof (cases "dentries s x")
    case None
    then show ?thesis using oth [OF x] by (simp add: child_named_def)
  next
    case (Some y)
    then have "dentries s' x = Some y" using oth [OF x] by simp
    then have "child_named s' x n' = Some c \<longleftrightarrow> child_named s x n' = Some c" for c
      unfolding child_named_iff [OF t \<open>dentries s' x = Some y\<close>] child_named_iff [OF inv Some]
      using nmk [OF Some, of c] by auto
    then show ?thesis by (rule option_eqI)
  qed
qed

text \<open>
  C26: Linking.  In a directory that has been read, \<^verbatim>\<open>dentry_link\<close> refuses a name that is taken and
  leaves everything alone; otherwise it returns 0, the name now leads to a new entry for the inode, every
  other name of this and of all other directories leads where it did, and the tree stays well formed.
\<close>

theorem dentry_link_correct:
  assumes "tree_inv s" "dentries s d = Some e" "d_loaded e" "length name \<le> NAME_MAX"
    "dentry_link d name inode s = Some (r, s')"
  shows "if child_named s d name \<noteq> None then r = - 1 \<and> s' = s
    else r = 0 \<and> tree_inv s' \<and> child_named s' d name = Some (next_dentry s) \<and>
      map_option d_inode (dentries s' (next_dentry s)) = Some inode \<and>
      (\<forall>n. length n \<le> NAME_MAX \<longrightarrow> n \<noteq> name \<longrightarrow> child_named s' d n = child_named s d n) \<and>
      (\<forall>x n. x \<noteq> d \<longrightarrow> x \<noteq> next_dentry s \<longrightarrow> child_named s' x n = child_named s x n)"
proof -
  note c = create_dentry_cases [OF assms(1-4) assms(5) [unfolded dentry_link_def]]
  show ?thesis
  proof (cases "child_named s d name")
    case None
    then have l: "linked_tree s d name inode s'" and r: "r = 0" using c by simp_all
    note t = linked_tree_inv [OF assms(1,2) l assms(4) None]
    have "map_option d_inode (dentries s' (next_dentry s)) = Some inode" using l by (simp add: linked_tree_def)
    then show ?thesis using None r t assms(4) by simp
  qed (use c in simp)
qed

subsection \<open>Unlinking\<close>

definition unlinked_tree :: "vfs \<Rightarrow> nat \<Rightarrow> nat \<Rightarrow> vfs \<Rightarrow> bool" where
  "unlinked_tree s p c s' \<longleftrightarrow> next_dentry s' = next_dentry s \<and> root_dentry s' = root_dentry s \<and> dentries s' c = None \<and>
     (\<exists>m. dentries s' p = map_option (\<lambda>e. e\<lparr>d_nentries := m, d_children := remove1 c (d_children e)\<rparr>) (dentries s p)) \<and>
     (\<forall>x. x \<noteq> c \<longrightarrow> x \<noteq> p \<longrightarrow> dentries s' x = dentries s x)"

lemma destroy_dentry_cases:
  assumes "dentries s c = Some x" "dentries s (d_parent x) = Some e" "c \<noteq> d_parent x" "destroy_dentry c s = Some (r, s')"
  shows "r = - 1 \<and> same_tree s s' \<or> r = 0 \<and> unlinked_tree s (d_parent x) c s'"
proof -
  obtain r1 s1 where r1: "remove_child (d_parent x) (d_name x) s = Some (r1, s1)"
    using assms(1,4) by (auto simp: destroy_dentry_def bind_eq_Some_conv)
  have t: "same_tree s s1" using r1 by (rule remove_child_same_tree)
  show ?thesis
  proof (cases "r1 < 0")
    case True
    then show ?thesis using assms(1,4) r1 t by (simp add: destroy_dentry_def)
  next
    case False
    let ?s2 = "upd_dentry (d_parent x) (\<lambda>p. p\<lparr>d_nentries := trunc32 (d_nentries p + 2 ^ 32 - 1)\<rparr>) s1"
    let ?g = "upd_inode (d_inode x) (\<lambda>n. n\<lparr>in_nlinks := trunc32 (in_nlinks n + 2 ^ 32 - 1)\<rparr>) (v_fs s1)"
    let ?s3 = "\<lambda>f. upd_dentry (d_parent x) (\<lambda>p. p\<lparr>d_children := remove1 c (d_children p)\<rparr>) (?s2\<lparr>v_fs := f\<rparr>)"
    have d: "destroy_dentry c s = map_option (\<lambda>f. (0, (?s3 f)\<lparr>dentries := (dentries (?s3 f))(c := None)\<rparr>)) (inode_set (d_inode x) ?g)"
      using assms(1) r1 False by (cases "inode_set (d_inode x) ?g") (simp_all add: destroy_dentry_def Let_def)
    obtain f where f: "inode_set (d_inode x) ?g = Some f" using d assms(4) by (cases "inode_set (d_inode x) ?g") simp_all
    then have "r = 0" "s' = (?s3 f)\<lparr>dentries := (dentries (?s3 f))(c := None)\<rparr>" using d assms(4) by simp_all
    then have "unlinked_tree s (d_parent x) c s'"
      using t assms(1-3) unfolding unlinked_tree_def same_tree_def by auto
    then show ?thesis using \<open>r = 0\<close> by simp
  qed
qed

lemma unlinked_tree_inv:
  assumes inv: "tree_inv s" and c: "dentries s c = Some x" "d_children x = []" "c \<in> set (d_children e)"
    and p: "dentries s p = Some e" and u: "unlinked_tree s p c s'"
  shows "tree_inv s'" "child_named s' p n = (if take NAME_MAX n = d_name x then None else child_named s p n)"
    "y \<noteq> p \<Longrightarrow> y \<noteq> c \<Longrightarrow> child_named s' y n = child_named s y n"
proof -
  have pc: "d_parent x = p" "c \<noteq> p" using tree_invD(5) [OF inv p c(3)] c(1) by auto
  obtain m where m: "dentries s' p = Some (e\<lparr>d_nentries := m, d_children := remove1 c (d_children e)\<rparr>)"
    using u p by (auto simp: unlinked_tree_def)
  have oth: "dentries s' y = dentries s y" if "y \<noteq> c" "y \<noteq> p" for y using u that by (simp add: unlinked_tree_def)
  have cN: "dentries s' c = None" using u by (simp add: unlinked_tree_def)
  have only: "y = p" if "dentries s y = Some z" "c \<in> set (d_children z)" for y z
    using tree_invD(5) [OF inv that] c(1) pc(1) by auto
  have nm: "named s' y = named s y" if "y \<noteq> c" for y
    using oth [of y] m p that by (cases "y = p") (auto simp: named_def)
  have kids: "\<exists>z. dentries s' d = Some z \<and> d_parent z = y \<and> d \<noteq> y" if d: "dentries s y = Some w" "d \<in> set (d_children w)" "d \<noteq> c" for y w d
  proof -
    obtain z where "dentries s d = Some z" "d_parent z = y" "d \<noteq> y" using tree_invD(5) [OF inv d(1,2)] by blast
    then show ?thesis using oth [of d] d(3) m p by (cases "d = p") auto
  qed
  have rm: "set (remove1 c (d_children e)) = set (d_children e) - {c}" using tree_invD(3) [OF inv p] by simp
  show t: "tree_inv s'" unfolding tree_inv_def
  proof (intro allI impI)
    fix y z assume z: "dentries s' y = Some z"
    have nx: "next_dentry s' = next_dentry s" using u by (simp add: unlinked_tree_def)
    have yc: "y \<noteq> c" using z cN by auto
    obtain w where w: "dentries s y = Some w" "d_children z = remove1 c (d_children w)" "d_name z = d_name w"
    proof (cases "y = p")
      case True
      then show thesis using that [of e] z m p by auto
    next
      case False
      then have "dentries s y = Some z" using z oth yc by simp
      moreover from this have "c \<notin> set (d_children z)" using only False by blast
      ultimately show thesis using that [of z] by (simp add: remove1_idem)
    qed
    have "set (d_children z) \<subseteq> set (d_children w) - {c}" "distinct (d_children z)"
      using w(2) tree_invD(3) [OF inv w(1)] by auto
    moreover have "inj_on (named s') (set (d_children w) - {c})"
      using tree_invD(4) [OF inv w(1)] nm by (auto simp: inj_on_def)
    ultimately show "y < next_dentry s' \<and> length (d_name z) \<le> NAME_MAX \<and> distinct (d_children z) \<and> inj_on (named s') (set (d_children z)) \<and>
        (\<forall>d \<in> set (d_children z). \<exists>v. dentries s' d = Some v \<and> d_parent v = y \<and> d \<noteq> y)"
      using tree_invD(1,2) [OF inv w(1)] nx w(3) kids [OF w(1)] inj_on_subset [of "named s'" "set (d_children w) - {c}" "set (d_children z)"]
      by (simp add: subset_iff)
  qed
  have nc: "named s c = d_name x" using c(1) by (simp add: named_def)
  have "child_named s' p n = Some d \<longleftrightarrow> take NAME_MAX n \<noteq> d_name x \<and> child_named s p n = Some d" for d
  proof -
    have "d \<in> set (d_children e) \<Longrightarrow> named s d = named s c \<Longrightarrow> d = c" using tree_invD(4) [OF inv p] c(3) by (auto dest: inj_onD)
    then show ?thesis unfolding child_named_iff [OF t m] child_named_iff [OF inv p] using rm nm [of d] nc by (cases "d = c"; simp; metis)
  qed
  then show "child_named s' p n = (if take NAME_MAX n = d_name x then None else child_named s p n)"
    by (intro option_eqI) simp
  show "child_named s' y n = child_named s y n" if y: "y \<noteq> p" "y \<noteq> c"
  proof (cases "dentries s y")
    case None
    then show ?thesis using oth [OF y(2,1)] by (simp add: child_named_def)
  next
    case (Some z)
    then have z: "dentries s' y = Some z" using oth [OF y(2,1)] by simp
    have "child_named s' y n = Some d \<longleftrightarrow> child_named s y n = Some d" for d
      unfolding child_named_iff [OF t z] child_named_iff [OF inv Some] using nm [of d] only [OF Some] y(1) by (cases "d = c") auto
    then show ?thesis by (rule option_eqI)
  qed
qed

text \<open>
  C27: Unlinking an entry without children either fails and leaves the tree alone, or returns 0 and
  removes exactly its name from its directory: it is not found any more, every other name of every
  directory leads where it did, and the tree stays well formed.
\<close>

theorem dentry_unlink_correct:
  assumes "tree_inv s" "dentries s c = Some x" "d_children x = []" "dentries s (d_parent x) = Some e" "c \<in> set (d_children e)"
    "dentry_unlink c s = Some (r, s')"
  shows "r = - 1 \<and> same_tree s s' \<or>
    r = 0 \<and> tree_inv s' \<and> dentries s' c = None \<and> child_named s' (d_parent x) (d_name x) = None \<and>
      (\<forall>n. length n \<le> NAME_MAX \<longrightarrow> n \<noteq> d_name x \<longrightarrow> child_named s' (d_parent x) n = child_named s (d_parent x) n) \<and>
      (\<forall>y n. y \<noteq> d_parent x \<longrightarrow> y \<noteq> c \<longrightarrow> child_named s' y n = child_named s y n)"
proof -
  have "c \<noteq> d_parent x" using tree_invD(5) [OF assms(1,4,5)] assms(2) by auto
  then consider "r = - 1" "same_tree s s'" | "r = 0" "unlinked_tree s (d_parent x) c s'"
    using destroy_dentry_cases [OF assms(2,4) _ assms(6) [unfolded dentry_unlink_def]] by blast
  then show ?thesis
  proof cases
    case 2
    note t = unlinked_tree_inv [OF assms(1-3,5,4) 2(2)]
    have "length (d_name x) \<le> NAME_MAX" using tree_invD(2) [OF assms(1,2)] .
    then show ?thesis using 2 t by (simp add: unlinked_tree_def)
  qed simp
qed

subsection \<open>An example\<close>

text \<open>
  A file system that is a root directory with one empty file \<open>a\<close> in it, and the tree in memory after it
  has been read.
\<close>

definition example_root :: minix2_inode where
  "example_root = zero_inode\<lparr>i_mode := S_IFDIR, i_nlinks := 2, i_size := 64, i_zone := 5 # replicate 9 0\<rparr>"

definition example_dir_disk :: "nat \<Rightarrow> data" where
  "example_dir_disk = (\<lambda>_ _. 0)(2 := put_inode 0 example_root (\<lambda>_. 0), 5 := dirent_bytes 2 [97])"

definition example_dir_fs :: fs where
  "example_dir_fs =
     \<lparr>fs_cache = block_init example_dir_disk (\<lambda>_. 0) (\<lambda>_. True), fs_super = example_super,
      fs_inodes = [1 \<mapsto> \<lparr>in_mode = S_IFDIR, in_nlinks = 2, in_size = 64\<rparr>, 2 \<mapsto> \<lparr>in_mode = S_IFREG, in_nlinks = 1, in_size = 0\<rparr>]\<rparr>"

definition example_vfs :: vfs where
  "example_vfs =
     \<lparr>v_fs = example_dir_fs,
      dentries = [0 \<mapsto> \<lparr>d_name = [], d_loaded = True, d_nentries = 1, d_inode = 1, d_parent = 0, d_children = [1]\<rparr>,
                  1 \<mapsto> \<lparr>d_name = [97], d_loaded = True, d_nentries = 0, d_inode = 2, d_parent = 0, d_children = []\<rparr>],
      next_dentry = 2, root_dentry = 0\<rparr>"

lemma example_dir_synced: "inode_synced example_dir_fs 1 \<lparr>in_mode = S_IFDIR, in_nlinks = 2, in_size = 64\<rparr> (\<lambda>_. 5)"
proof (rule one_block_synced)
  have ok: "inode_ok example_root" by (simp add: inode_ok_def example_root_def zero_inode_def S_IFDIR_def)
  then show "disk_inode (fs_super example_dir_fs) (disk (fs_cache example_dir_fs)) 1 = example_root"
    unfolding disk_inode_def
    by (simp add: example_dir_fs_def block_init_def example_super_places [unfolded One_nat_def] example_dir_disk_def inode_at_put_inode)
  show "inode_ok example_root" by (fact ok)
qed (simp_all add: example_dir_fs_def coherent_def in_step_def memory_lasts_def block_init_def BLOCK_SIZE_def example_root_def trunc16_def
    example_super_places [unfolded One_nat_def])

lemma example_vfs_inv: "tree_inv example_vfs"
  by (auto simp: tree_inv_def example_vfs_def NAME_MAX_def split: if_splits)

lemma inode_set_returns: "coherent (fs_cache s) \<Longrightarrow> fs_inodes s idx = Some node \<Longrightarrow> \<exists>s'. inode_set idx s = Some s'"
  by (simp add: inode_set_def read_inode_disk write_inode_disk Let_def)

theorem dentry_link_correct_witness:
  "\<exists>s'. dentry_link 0 [98] 2 example_vfs = Some (0, s') \<and> child_named s' 0 [98] = Some 2 \<and> child_named s' 0 [97] = Some 1"
proof -
  obtain g where g: "inode_write 1 64 64 (dirent_bytes 2 [98]) example_dir_fs = Some (64, g)" "coherent (fs_cache g)"
    "fs_inodes g 2 = Some \<lparr>in_mode = S_IFREG, in_nlinks = 1, in_size = 0\<rparr>"
    using inode_append_within [OF example_dir_synced, of 64 "dirent_bytes 2 [98]"]
    by (auto simp: BLOCK_SIZE_def example_dir_fs_def inode_synced_def Let_def)
  obtain h where "inode_set 2 (upd_inode 2 (\<lambda>n. n\<lparr>in_nlinks := trunc32 (in_nlinks n + 1)\<rparr>) g) = Some h"
    using inode_set_returns [of "upd_inode 2 (\<lambda>n. n\<lparr>in_nlinks := trunc32 (in_nlinks n + 1)\<rparr>) g" 2] g(2,3) by (auto simp: upd_inode_def)
  then obtain r s' where l: "dentry_link 0 [98] 2 example_vfs = Some (r, s')"
    using g(1) by (auto simp: dentry_link_def create_dentry_def read_children_def find_child_def alloc_dentry_def upd_dentry_def write_child_def
        on_fs_def example_vfs_def example_dir_fs_def NAME_MAX_def DIRENT_SIZE_def Let_def)
  then show ?thesis
    using dentry_link_correct [OF example_vfs_inv _ _ _ l] by (simp add: example_vfs_def child_named_def find_child_def NAME_MAX_def)
qed

lemma example_removed: "\<exists>s'. destroy_dentry 1 example_vfs = Some (0, s')"
proof -
  let ?node = "\<lparr>in_mode = S_IFDIR, in_nlinks = 2, in_size = 64\<rparr>"
  let ?bs = "map (file_byte example_dir_disk (\<lambda>_. 5)) [0..<64]"
  have c: "coherent (fs_cache example_dir_fs)" and n: "fs_inodes example_dir_fs 1 = Some ?node"
    and f: "file_ok (fs_super example_dir_fs) (disk (fs_cache example_dir_fs)) 1 (in_size ?node div BLOCK_SIZE) (\<lambda>_. 5)"
    using example_dir_synced by (simp_all add: inode_synced_def Let_def)
  have d: "disk (fs_cache example_dir_fs) = example_dir_disk" by (simp add: example_dir_fs_def block_init_def)
  obtain g where g: "inode_read 1 BLOCK_SIZE 0 example_dir_fs = Some (64, ?bs, g)" "same_disk example_dir_fs g"
    using inode_read_bytes [OF c n _ _ f, of 0 BLOCK_SIZE] by (auto simp: BLOCK_SIZE_def d)
  have e: "dirent_at ?bs 0 = (2, [97])"
    by (simp add: dirent_at_def get32_def array_name_def file_byte_def example_dir_disk_def dirent_bytes_def put32_def put16_def get16_def
        DIRENT_SIZE_def BLOCK_SIZE_def NAME_MAX_def upt_rec)
  have g': "coherent (fs_cache g)" "fs_inodes g 1 = Some ?node"
    "file_ok (fs_super g) (disk (fs_cache g)) 1 (in_size ?node div BLOCK_SIZE) (\<lambda>_. 5)"
    using g(2) c n f by (simp_all add: same_disk_def)
  obtain h where h: "inode_write 1 64 0 (put32 0 0 (\<lambda>j. ?bs ! j)) g = Some (64, h)" "coherent (fs_cache h)" "fs_inodes h = fs_inodes example_dir_fs"
    using inode_write_bytes [OF g'(1,2) _ _ g'(3), of 0 64 "put32 0 0 (\<lambda>j. ?bs ! j)"] g(2) by (auto simp: BLOCK_SIZE_def wrote_def same_disk_def)
  have "remove_loop 1 [97] 0 example_vfs = Some (0, example_vfs\<lparr>v_fs := h\<rparr>)"
    using g(1) h(1) e by (subst remove_loop.simps) (simp add: example_vfs_def Let_def DIRENT_SIZE_def on_fs_def trunc32_def)
  moreover obtain k where "inode_set 2 (upd_inode 2 (\<lambda>n. n\<lparr>in_nlinks := trunc32 (in_nlinks n + 2 ^ 32 - 1)\<rparr>) h) = Some k"
    using inode_set_returns [of "upd_inode 2 (\<lambda>n. n\<lparr>in_nlinks := trunc32 (in_nlinks n + 2 ^ 32 - 1)\<rparr>) h" 2] h(2,3)
    by (auto simp: upd_inode_def example_dir_fs_def)
  ultimately show ?thesis
    by (auto simp: destroy_dentry_def remove_child_def upd_dentry_def example_vfs_def Let_def)
qed

theorem dentry_unlink_correct_witness:
  "\<exists>s'. dentry_unlink 1 example_vfs = Some (0, s') \<and> child_named s' 0 [97] = None \<and> dentries s' 1 = None"
proof -
  let ?x = "\<lparr>d_name = [97], d_loaded = True, d_nentries = 0, d_inode = 2, d_parent = 0, d_children = []\<rparr>"
  let ?e = "\<lparr>d_name = [], d_loaded = True, d_nentries = 1, d_inode = 1, d_parent = 0, d_children = [1]\<rparr>"
  obtain s' where u: "dentry_unlink 1 example_vfs = Some (0, s')" using example_removed by (auto simp: dentry_unlink_def)
  have "dentries example_vfs 1 = Some ?x" "dentries example_vfs (d_parent ?x) = Some ?e" by (simp_all add: example_vfs_def)
  then show ?thesis using dentry_unlink_correct [OF example_vfs_inv, of 1 ?x ?e 0 s'] u by simp
qed

end
