(* ===== verification/Cy_Path_Correct.thy ===== *)
theory Cy_Path_Correct
  imports Cy_Fs_Correct
begin

text \<open>
  Correctness of the operations on paths.  What a path means is said by the directories on the disk: their bytes are
  a list of entries, and a path is resolved component by component through these lists, the entries \<^verbatim>\<open>.\<close> and
  \<^verbatim>\<open>..\<close> included.  The tree of entries in memory mirrors the directories that have been read so far; a lookup reads
  the others on its way, and finds what the disk says.
\<close>

subsection \<open>Paths on the disk\<close>



definition disk_node :: "minix3_superblock \<Rightarrow> (nat \<Rightarrow> data) \<Rightarrow> nat \<Rightarrow> inode" where
  "disk_node sb D i = (let ino = disk_inode sb D i in \<lparr>in_mode = i_mode ino, in_nlinks = i_nlinks ino, in_size = i_size ino\<rparr>)"

definition is_dir :: "minix3_superblock \<Rightarrow> (nat \<Rightarrow> data) \<Rightarrow> nat \<Rightarrow> bool" where
  "is_dir sb D i \<longleftrightarrow> S_ISDIR (in_mode (disk_node sb D i))"

definition dir_size :: "minix3_superblock \<Rightarrow> (nat \<Rightarrow> data) \<Rightarrow> nat \<Rightarrow> nat" where
  "dir_size sb D i = in_size (disk_node sb D i)"

text \<open>
  The entries of a directory: number of the inode and name.  An entry whose number is 0 is not in use.  A directory
  whose size is not a number of entries is taken for empty.
\<close>

definition dirents :: "minix3_superblock \<Rightarrow> (nat \<Rightarrow> data) \<Rightarrow> nat \<Rightarrow> nat \<Rightarrow> (nat \<times> u8 list) list" where
  "dirents sb D i off =
     filter (\<lambda>e. fst e \<noteq> 0) (map (dirent_at (map (disk_byte sb D i) [0..<dir_size sb D i])) [off div DIRENT_SIZE..<dir_size sb D i div DIRENT_SIZE])"

definition listing :: "minix3_superblock \<Rightarrow> (nat \<Rightarrow> data) \<Rightarrow> nat \<Rightarrow> (nat \<times> u8 list) list" where
  "listing sb D i = (if is_dir sb D i \<and> dir_size sb D i mod DIRENT_SIZE = 0 then dirents sb D i 0 else [])"




subsection \<open>The tree in memory mirrors the disk\<close>

abbreviation vdisk :: "vfs \<Rightarrow> nat \<Rightarrow> data" where "vdisk s \<equiv> disk (fs_cache (v_fs s))"
abbreviation vsuper :: "vfs \<Rightarrow> minix3_superblock" where "vsuper s \<equiv> fs_super (v_fs s)"

definition holds :: "vfs \<Rightarrow> nat \<Rightarrow> nat \<times> u8 list \<Rightarrow> bool" where
  "holds s c e \<longleftrightarrow> (\<exists>x. dentries s c = Some x \<and> d_inode x = fst e \<and> d_name x = snd e)"





text \<open>A step that only reads: the disk stays, and what is in memory keeps its inode and its name.\<close>

definition only_read :: "vfs \<Rightarrow> vfs \<Rightarrow> bool" where
  "only_read s s' \<longleftrightarrow> vdisk s' = vdisk s \<and> vsuper s' = vsuper s \<and> root_dentry s' = root_dentry s \<and>
     (\<forall>d e. dentries s d = Some e \<longrightarrow> (\<exists>e'. dentries s' d = Some e' \<and> d_inode e' = d_inode e \<and> d_name e' = d_name e))"

lemma only_read_refl [simp]: "only_read s s"
  by (simp add: only_read_def)



subsection \<open>Reading a directory\<close>



















text \<open>What is known of an entry after \<^verbatim>\<open>read_children\<close>.\<close>

definition was_read :: "vfs \<Rightarrow> dentry \<Rightarrow> nat \<Rightarrow> bool" where
  "was_read s e i \<longleftrightarrow> d_inode e = i \<and> d_nentries e = length (listing (vsuper s) (vdisk s) i) \<and>
     list_all2 (holds s) (d_children e) (rev (listing (vsuper s) (vdisk s) i))"


subsection \<open>Looking up\<close>


text \<open>The result of a lookup stands for the inode that the disk gives the path.\<close>

definition found :: "vfs \<Rightarrow> nat option \<Rightarrow> nat option \<Rightarrow> bool" where
  "found s r q \<longleftrightarrow> (case q of None \<Rightarrow> r = None | Some i \<Rightarrow> \<exists>c x. r = Some c \<and> dentries s c = Some x \<and> was_read s x i)"





subsection \<open>Errors\<close>


lemma found_None [simp]: "found s r None \<longleftrightarrow> r = None"
  by (simp add: found_def)


























end
