(* ===== verification/Cy_Mmu.thy ===== *)
theory Cy_Mmu
  imports Cy_Page Cy_Waitq
begin

text \<open>
  \<^verbatim>\<open>mmu.c\<close>: the translation tables of the address spaces.  A mapping is the list of the pages that
  belong to it, in the order of the chain \<^verbatim>\<open>page_head\<close>, and the address of its first-level table.  The
  tables are words of memory, known by their address; the pages come from the page allocator.  A
  function that works on a mapping returns the mapping it leaves.
\<close>

definition L1_ENTRY_NUM :: nat where "L1_ENTRY_NUM = 4096"
definition L2_ENTRY_NUM :: nat where "L2_ENTRY_NUM = 256"
definition L1_SIZE :: nat where "L1_SIZE = L1_ENTRY_NUM * 4"
definition L2_SIZE :: nat where "L2_SIZE = L2_ENTRY_NUM * 4"

definition GET_L1_INDEX :: "u32 \<Rightarrow> u32" where "GET_L1_INDEX addr = drop_bit 20 addr"
definition GET_L2_INDEX :: "u32 \<Rightarrow> u32" where "GET_L2_INDEX addr = drop_bit 12 (addr AND 0xff000)"
definition GET_PAGE_SIZE :: "u32 \<Rightarrow> u32" where "GET_PAGE_SIZE sz = drop_bit 12 (sz + of_nat PAGE_SIZE - 1)"

definition FL_PAGE_TABLE :: u32 where "FL_PAGE_TABLE = 0x1"
definition SL_SHORT_DESCRIPTOR :: u32 where "SL_SHORT_DESCRIPTOR = 0x2"
definition AP_PRIVILEGED_ACCESS :: u32 where "AP_PRIVILEGED_ACCESS = 0x10"
definition AP_FULL_ACCESS :: u32 where "AP_FULL_ACCESS = 0x30"
definition VIRT_VECTORS_ADDR :: u32 where "VIRT_VECTORS_ADDR = 0xffff0000"

record mapping =
  mp_pid :: pid
  mp_pages :: "nat list"
  mp_address :: u32

record mmu =
  m_buddy :: buddy
  m_tables :: "u32 \<Rightarrow> u32"
  m_mappings :: "mapping list"
  m_ttb :: u32
  m_current :: pid

definition add_page :: "mapping \<Rightarrow> nat \<Rightarrow> mapping" where
  "add_page m page = m\<lparr>mp_pages := page # mp_pages m\<rparr>"

fun release_pages :: "nat list \<Rightarrow> buddy \<Rightarrow> buddy option" where
  "release_pages [] b = Some b"
| "release_pages (page # ps) b = Option.bind (buddy_free b page) (release_pages ps)"

text \<open>\<^verbatim>\<open>memset\<close> of \<open>n\<close> bytes of table to 0.\<close>

definition clear_table :: "u32 \<Rightarrow> nat \<Rightarrow> (u32 \<Rightarrow> u32) \<Rightarrow> u32 \<Rightarrow> u32" where
  "clear_table a n t = (\<lambda>x. if unat (x - a) < n then 0 else t x)"

definition mmu_create_pl1 :: "mapping \<Rightarrow> mmu \<Rightarrow> (u32 \<times> mapping \<times> mmu) option" where
  "mmu_create_pl1 m s =
     Option.bind (buddy_alloc (m_buddy s) L1_SIZE) (\<lambda>(page, b).
       let a = page_address b page
       in Some (a, add_page m page, s\<lparr>m_buddy := b, m_tables := clear_table a L1_SIZE (m_tables s)\<rparr>))"

definition mmu_create_pl2 :: "mapping \<Rightarrow> mmu \<Rightarrow> (u32 \<times> mapping \<times> mmu) option" where
  "mmu_create_pl2 m s =
     Option.bind (buddy_alloc (m_buddy s) L2_SIZE) (\<lambda>(page, b).
       let a = page_address b page
       in Some (a, add_page m page, s\<lparr>m_buddy := b, m_tables := clear_table a L2_SIZE (m_tables s)\<rparr>))"

definition mmu_create_page :: "mapping \<Rightarrow> mmu \<Rightarrow> (u32 \<times> mapping \<times> mmu) option" where
  "mmu_create_page m s =
     Option.bind (buddy_alloc (m_buddy s) PAGE_SIZE) (\<lambda>(page, b).
       Some (page_address b page, add_page m page, s\<lparr>m_buddy := b\<rparr>))"

definition set_word :: "u32 \<Rightarrow> u32 \<Rightarrow> mmu \<Rightarrow> mmu" where
  "set_word a v s = s\<lparr>m_tables := (m_tables s)(a := v)\<rparr>"

definition mmu_create_and_fill_pl2 :: "mapping \<Rightarrow> u32 \<Rightarrow> mmu \<Rightarrow> (u32 \<times> mapping \<times> mmu) option" where
  "mmu_create_and_fill_pl2 m l1_i s =
     (let e = mp_address m + 4 * l1_i
      in if m_tables s e AND FL_PAGE_TABLE = 0 then
           Option.bind (mmu_create_pl2 m s) (\<lambda>(pl2, m, s).
             let s = set_word e ((0xfffffc00 AND pl2) OR FL_PAGE_TABLE) s
             in Some (0xfffffc00 AND m_tables s e, m, s))
         else Some (0xfffffc00 AND m_tables s e, m, s))"

text \<open>The loop of \<^verbatim>\<open>mmu_create_mapping\<close>: \<open>k\<close> entries from index \<open>i\<close> on.\<close>

fun fill_pages :: "u32 \<Rightarrow> u32 \<Rightarrow> nat \<Rightarrow> nat \<Rightarrow> mapping \<Rightarrow> mmu \<Rightarrow> (mapping \<times> mmu) option" where
  "fill_pages pl2 ap i 0 m s = Some (m, s)"
| "fill_pages pl2 ap i (Suc k) m s =
     Option.bind (mmu_create_page m s) (\<lambda>(page, m, s).
       fill_pages pl2 ap (i + 1) k m (set_word (pl2 + 4 * of_nat i) (page OR SL_SHORT_DESCRIPTOR OR ap) s))"

definition mmu_create_mapping :: "mapping \<Rightarrow> u32 \<Rightarrow> u32 \<Rightarrow> bool \<Rightarrow> mmu \<Rightarrow> (int \<times> mapping \<times> mmu) option" where
  "mmu_create_mapping m addr sz is_privileged s =
     (let l1_i = GET_L1_INDEX addr; l2_i = GET_L2_INDEX addr
      in if of_nat L2_ENTRY_NUM < l2_i + GET_PAGE_SIZE sz then Some (- 1, m, s)
         else
           Option.bind (mmu_create_and_fill_pl2 m l1_i s) (\<lambda>(pl2, m, s).
             map_option (\<lambda>(m, s). (0, m, s))
               (fill_pages pl2 (if is_privileged then AP_PRIVILEGED_ACCESS else AP_FULL_ACCESS)
                  (unat l2_i) (unat (l2_i + GET_PAGE_SIZE sz) - unat l2_i) m s)))"

fun fill_straight :: "u32 \<Rightarrow> u32 \<Rightarrow> nat \<Rightarrow> nat \<Rightarrow> mmu \<Rightarrow> mmu" where
  "fill_straight pl2 addr i 0 s = s"
| "fill_straight pl2 addr i (Suc k) s =
     fill_straight pl2 (addr + of_nat PAGE_SIZE) (i + 1) k
       (set_word (pl2 + 4 * of_nat i) (addr OR SL_SHORT_DESCRIPTOR OR AP_PRIVILEGED_ACCESS) s)"

definition mmu_create_straight_mapping :: "mapping \<Rightarrow> u32 \<Rightarrow> u32 \<Rightarrow> mmu \<Rightarrow> (int \<times> mapping \<times> mmu) option" where
  "mmu_create_straight_mapping m addr sz s =
     (let l1_i = GET_L1_INDEX addr; l2_i = GET_L2_INDEX addr
      in if of_nat L2_ENTRY_NUM < l2_i + GET_PAGE_SIZE sz then Some (- 1, m, s)
         else
           Option.bind (mmu_create_and_fill_pl2 m l1_i s) (\<lambda>(pl2, m, s).
             Some (0, m, fill_straight pl2 (addr AND 0xfffff000) (unat l2_i) (unat (GET_PAGE_SIZE sz)) s)))"

text \<open>The page of the exception vectors; what is copied into it is not part of the tables.\<close>

definition mmu_create_vectors_mapping :: "mapping \<Rightarrow> mmu \<Rightarrow> (mapping \<times> mmu) option" where
  "mmu_create_vectors_mapping m s =
     (let l1_i = GET_L1_INDEX VIRT_VECTORS_ADDR; l2_i = GET_L2_INDEX VIRT_VECTORS_ADDR
      in Option.bind (mmu_create_and_fill_pl2 m l1_i s) (\<lambda>(pl2, m, s).
         Option.bind (mmu_create_page m s) (\<lambda>(page, m, s).
           Some (m, set_word (pl2 + 4 * l2_i) (page OR SL_SHORT_DESCRIPTOR OR AP_PRIVILEGED_ACCESS) s))))"

text \<open>\<open>for (i = 0; i < 0x90; ++i)\<close>, \<open>k\<close> rounds from \<open>i\<close> on.\<close>

fun map_kernel :: "nat \<Rightarrow> nat \<Rightarrow> mapping \<Rightarrow> mmu \<Rightarrow> (mapping \<times> mmu) option" where
  "map_kernel i 0 m s = Some (m, s)"
| "map_kernel i (Suc k) m s =
     Option.bind (mmu_create_straight_mapping m (0x60000000 + 0x100000 * of_nat i) 0x100000 s) (\<lambda>(_, m, s).
       map_kernel (i + 1) k m s)"

definition mmu_create_kernel_mappings :: "mapping \<Rightarrow> mmu \<Rightarrow> (mapping \<times> mmu) option" where
  "mmu_create_kernel_mappings m s =
     Option.bind (mmu_create_vectors_mapping m s) (\<lambda>(m, s).
     Option.bind (map_kernel 0 0x90 m s) (\<lambda>(m, s).
     Option.bind (mmu_create_straight_mapping m 0x10000000 0x20000 s) (\<lambda>(_, m, s).
     Option.bind (mmu_create_straight_mapping m 0x1e000000 0x2000 s) (\<lambda>(_, m, s).
       Some (m, s)))))"

definition find_mapping :: "pid \<Rightarrow> mmu \<Rightarrow> mapping option" where
  "find_mapping p s = find (\<lambda>m. mp_pid m = p) (m_mappings s)"

definition mmu_mapping_fetch :: "pid \<Rightarrow> mmu \<Rightarrow> (mapping \<times> mmu) option" where
  "mmu_mapping_fetch p s =
     (case find_mapping p s of
        Some m \<Rightarrow> Some (m, s)
      | None \<Rightarrow>
          Option.bind (mmu_create_pl1 \<lparr>mp_pid = p, mp_pages = [], mp_address = 0\<rparr> s) (\<lambda>(pl1, m, s).
          Option.bind (mmu_create_kernel_mappings (m\<lparr>mp_address := pl1\<rparr>) s) (\<lambda>(m, s).
            Some (m, s\<lparr>m_mappings := m # m_mappings s\<rparr>))))"

text \<open>The mapping in the list is the structure the functions above have worked on.\<close>

definition put_mapping :: "mapping \<Rightarrow> mmu \<Rightarrow> mmu" where
  "put_mapping m s = s\<lparr>m_mappings := map (\<lambda>x. if mp_pid x = mp_pid m then m else x) (m_mappings s)\<rparr>"

definition mmu_set_ttb :: "pid \<Rightarrow> mmu \<Rightarrow> (pid \<times> mmu) option" where
  "mmu_set_ttb p s =
     Option.bind (mmu_mapping_fetch p s) (\<lambda>(m, s).
       Some (m_current s, s\<lparr>m_ttb := mp_address m AND 0xffffc000, m_current := p\<rparr>))"

definition mmu_init :: "buddy \<Rightarrow> (u32 \<Rightarrow> u32) \<Rightarrow> mmu option" where
  "mmu_init b t =
     map_option snd (mmu_set_ttb 0 \<lparr>m_buddy = b, m_tables = t, m_mappings = [], m_ttb = 0, m_current = 0\<rparr>)"

text \<open>
  For a process that has no mapping, the loop ends with the list head in the place of a mapping, and the
  test for the null pointer does not see it: \<^const>\<open>None\<close>.
\<close>

definition mmu_destroy :: "pid \<Rightarrow> mmu \<Rightarrow> (int \<times> mmu) option" where
  "mmu_destroy p s =
     Option.bind (find_mapping p s) (\<lambda>m.
     Option.bind (mmu_set_ttb 0 s) (\<lambda>(_, s).
       map_option (\<lambda>b. (0, s\<lparr>m_buddy := b, m_mappings := remove1 m (m_mappings s)\<rparr>))
         (release_pages (mp_pages m) (m_buddy s))))"

definition mmu_alloc :: "pid \<Rightarrow> u32 \<Rightarrow> u32 \<Rightarrow> mmu \<Rightarrow> (int \<times> mmu) option" where
  "mmu_alloc p addr sz s =
     Option.bind (mmu_mapping_fetch p s) (\<lambda>(m, s).
     Option.bind (mmu_create_mapping m addr sz False s) (\<lambda>(r, m, s).
       Some (r, put_mapping m s)))"

end
