(* ===== verification/Cy_Mmu_Correct.thy ===== *)
theory Cy_Mmu_Correct
  imports Cy_Mmu
begin

text \<open>
  The translation tables say what they should: a walk of the tables of an address space gives the pages
  that \<^verbatim>\<open>mmu_alloc\<close> has put there, no two address spaces share a page that user programs can reach,
  and no such page holds a translation table.
\<close>

subsection \<open>Addresses in blocks of pages\<close>

definition pa :: "nat \<Rightarrow> u32" where
  "pa p = PAGE_START + of_nat (PAGE_SIZE * p)"

definition pnum :: "u32 \<Rightarrow> nat" where
  "pnum a = unat (a - PAGE_START) div PAGE_SIZE"

lemma page_address_pa: "buddy_inv b \<Longrightarrow> (p, k) \<in> used_blocks b \<Longrightarrow> page_address b p = pa p"
  using used_blocks_bounds(5) by (simp add: page_address_def pa_def)

lemma unat_in_block:
  assumes "buddy_inv b" "(p, k) \<in> used_blocks b" "off < 2 ^ k * PAGE_SIZE"
  shows "unat (pa p + of_nat off - PAGE_START) = PAGE_SIZE * p + off"
proof -
  have "PAGE_SIZE * p + off < PAGE_SIZE * (p + 2 ^ k)" using assms(3) by (simp add: algebra_simps)
  also have "\<dots> \<le> PAGE_SIZE * PAGE_NUM" using used_blocks_bounds(4) [OF assms(1,2)] by (rule mult_le_mono2)
  finally have "PAGE_SIZE * p + off < 2 ^ 32" by (simp add: PAGE_SIZE_def PAGE_NUM_def)
  moreover have "pa p + of_nat off - PAGE_START = (of_nat (PAGE_SIZE * p + off) :: u32)" by (simp add: pa_def)
  moreover have "unat (of_nat (PAGE_SIZE * p + off) :: u32) = PAGE_SIZE * p + off" using calculation(1) by (intro unat_of_nat_small) simp
  ultimately show ?thesis by (simp only:)
qed

lemma in_block_eq:
  assumes b: "buddy_inv b" and p: "(p, k) \<in> used_blocks b" "off < 2 ^ k * PAGE_SIZE"
    and q: "(q, l) \<in> used_blocks b" "off' < 2 ^ l * PAGE_SIZE" and e: "pa p + of_nat off = pa q + of_nat off'"
  shows "p = q \<and> off = off'"
proof -
  have n: "PAGE_SIZE * p + off = PAGE_SIZE * q + off'"
    using unat_in_block [OF b p] unat_in_block [OF b q] e by simp
  have "(PAGE_SIZE * p + off) div PAGE_SIZE = p + off div PAGE_SIZE" "(PAGE_SIZE * q + off') div PAGE_SIZE = q + off' div PAGE_SIZE"
    by (simp_all add: PAGE_SIZE_def)
  moreover have "off div PAGE_SIZE < 2 ^ k" "off' div PAGE_SIZE < 2 ^ l" using p(2) q(2) by (simp_all add: less_mult_imp_div_less)
  ultimately have "p + off div PAGE_SIZE \<in> block_pages (p, k) \<inter> block_pages (q, l)" using n by (auto simp: block_pages_def)
  then have "p = q" using used_blocks_disjoint [OF b p(1) q(1)] by blast
  then show ?thesis using n by simp
qed

lemma pnum_pa: "buddy_inv b \<Longrightarrow> (p, k) \<in> used_blocks b \<Longrightarrow> off < PAGE_SIZE \<Longrightarrow> pnum (pa p + of_nat off) = p"
  using unat_in_block [of b p k off] less_le_trans [of off PAGE_SIZE "2 ^ k * PAGE_SIZE"] by (simp add: pnum_def)

text \<open>Flags in the low bits of the address of a page.\<close>

lemma pa_push_bit: "pa p = push_bit 12 (of_nat (0x65000 + p))"
  by (simp add: pa_def PAGE_START_def PAGE_SIZE_def push_bit_eq_mult)

lemma bit_flag: "fl = take_bit 12 fl \<Longrightarrow> bit fl n \<Longrightarrow> n < 12" for fl :: u32
  by (metis bit_take_bit_iff)

lemma pa_or:
  assumes "fl = take_bit 12 fl"
  shows "(pa p OR fl) AND 0xfffff000 = pa p" "(pa p OR fl) AND 0xfff = fl" "pa p OR fl = pa p + fl"
proof -
  have m: "(0xfffff000 :: u32) = NOT (mask 12)" "(0xfff :: u32) = mask 12" by (simp_all add: mask_numeral not_eq_complement)
  show "(pa p OR fl) AND 0xfffff000 = pa p"
    unfolding m pa_push_bit by (rule bit_eqI) (auto simp: bit_simps dest: bit_flag [OF assms])
  show "(pa p OR fl) AND 0xfff = fl"
    unfolding m pa_push_bit by (rule bit_eqI) (auto simp: bit_simps dest: bit_flag [OF assms])
  have "pa p AND fl = 0"
    unfolding pa_push_bit by (rule bit_eqI) (auto simp: bit_simps dest: bit_flag [OF assms])
  then show "pa p OR fl = pa p + fl" using word_plus_and_or [of "pa p" fl] by simp
qed

lemma pa_flags:
  "0xfffffc00 AND pa p = pa p" "0xfffffc00 AND (pa p OR 1) = pa p" "(pa p OR 1) AND 1 = 1" "4 dvd p \<Longrightarrow> pa p AND 0xffffc000 = pa p"
proof -
  have m: "(0xfffffc00 :: u32) = NOT (mask 10)" "(0xffffc000 :: u32) = NOT (mask 14)"
    by (simp_all add: mask_numeral not_eq_complement)
  show "0xfffffc00 AND pa p = pa p" unfolding m pa_push_bit by (rule bit_eqI) (auto simp: bit_simps)
  show "0xfffffc00 AND (pa p OR 1) = pa p" unfolding m pa_push_bit by (rule bit_eqI) (auto simp: bit_simps bit_1_iff)
  show "(pa p OR 1) AND 1 = 1" unfolding pa_push_bit by (rule bit_eqI) (auto simp: bit_simps bit_1_iff)
  assume "4 dvd p"
  then obtain q where "p = 4 * q" by auto
  then have "pa p = push_bit 14 (of_nat (0x19400 + q))" by (simp add: pa_def PAGE_START_def PAGE_SIZE_def push_bit_eq_mult)
  then show "pa p AND 0xffffc000 = pa p" unfolding m by (simp only:) (rule bit_eqI, auto simp: bit_simps)
qed

subsection \<open>What the tables say\<close>

definition l1_entry :: "(u32 \<Rightarrow> u32) \<Rightarrow> u32 \<Rightarrow> nat \<Rightarrow> u32" where
  "l1_entry t a i = t (a + of_nat (4 * i))"

definition l2_entry :: "(u32 \<Rightarrow> u32) \<Rightarrow> u32 \<Rightarrow> nat \<Rightarrow> nat \<Rightarrow> u32" where
  "l2_entry t a i j = t ((0xfffffc00 AND l1_entry t a i) + of_nat (4 * j))"

definition user_entry :: "u32 \<Rightarrow> bool" where
  "user_entry d \<longleftrightarrow> d AND SL_SHORT_DESCRIPTOR \<noteq> 0 \<and> d AND AP_FULL_ACCESS = AP_FULL_ACCESS"

text \<open>
  The second-level tables of an address space, by their index, and the pages user programs can reach,
  by both indices.
\<close>

definition tabs :: "(u32 \<Rightarrow> u32) \<Rightarrow> u32 \<Rightarrow> nat \<Rightarrow> nat option" where
  "tabs t a i = (if i < L1_ENTRY_NUM \<and> l1_entry t a i \<noteq> 0 then Some (pnum (l1_entry t a i)) else None)"

definition frames :: "(u32 \<Rightarrow> u32) \<Rightarrow> u32 \<Rightarrow> nat \<times> nat \<Rightarrow> nat option" where
  "frames t a = (\<lambda>(i, j). if i < L1_ENTRY_NUM \<and> j < L2_ENTRY_NUM \<and> l1_entry t a i \<noteq> 0 \<and> user_entry (l2_entry t a i j)
     then Some (pnum (l2_entry t a i j)) else None)"

definition owns :: "buddy \<Rightarrow> mapping \<Rightarrow> nat \<Rightarrow> nat \<Rightarrow> bool" where
  "owns b m p k \<longleftrightarrow> p \<in> set (mp_pages m) \<and> (p, k) \<in> used_blocks b"

definition mapping_ok :: "mmu \<Rightarrow> mapping \<Rightarrow> bool" where
  "mapping_ok s m \<longleftrightarrow> (let t = m_tables s; a = mp_address m; b = m_buddy s in
     distinct (mp_pages m) \<and> (\<forall>p \<in> set (mp_pages m). \<exists>k. (p, k) \<in> used_blocks b) \<and>
     a = pa (pnum a) \<and> owns b m (pnum a) 2 \<and>
     (\<forall>i p. tabs t a i = Some p \<longrightarrow> l1_entry t a i = pa p OR 1 \<and> owns b m p 0) \<and>
     (\<forall>i j q. frames t a (i, j) = Some q \<longrightarrow> l2_entry t a i j = pa q OR 0x32 \<and> owns b m q 0) \<and>
     inj_on (tabs t a) (dom (tabs t a)) \<and> inj_on (frames t a) (dom (frames t a)) \<and> ran (tabs t a) \<inter> ran (frames t a) = {})"

lemma mapping_okD:
  assumes "mapping_ok s m"
  shows "distinct (mp_pages m)" "p \<in> set (mp_pages m) \<Longrightarrow> \<exists>k. (p, k) \<in> used_blocks (m_buddy s)"
    "mp_address m = pa (pnum (mp_address m))" "owns (m_buddy s) m (pnum (mp_address m)) 2"
    "tabs (m_tables s) (mp_address m) i = Some p \<Longrightarrow> l1_entry (m_tables s) (mp_address m) i = pa p OR 1"
    "tabs (m_tables s) (mp_address m) i = Some p \<Longrightarrow> owns (m_buddy s) m p 0"
    "frames (m_tables s) (mp_address m) (i, j) = Some q \<Longrightarrow> l2_entry (m_tables s) (mp_address m) i j = pa q OR 0x32"
    "frames (m_tables s) (mp_address m) (i, j) = Some q \<Longrightarrow> owns (m_buddy s) m q 0"
    "inj_on (tabs (m_tables s) (mp_address m)) (dom (tabs (m_tables s) (mp_address m)))"
    "inj_on (frames (m_tables s) (mp_address m)) (dom (frames (m_tables s) (mp_address m)))"
    "ran (tabs (m_tables s) (mp_address m)) \<inter> ran (frames (m_tables s) (mp_address m)) = {}"
  using assms unfolding mapping_ok_def Let_def by blast+

definition mmu_ok :: "mmu \<Rightarrow> mapping set \<Rightarrow> bool" where
  "mmu_ok s M \<longleftrightarrow> buddy_inv (m_buddy s) \<and> (\<forall>m \<in> M. mapping_ok s m) \<and>
     (\<forall>m \<in> M. \<forall>m' \<in> M. m \<noteq> m' \<longrightarrow> set (mp_pages m) \<inter> set (mp_pages m') = {})"

definition mmu_inv :: "mmu \<Rightarrow> bool" where
  "mmu_inv s \<longleftrightarrow> mmu_ok s (set (m_mappings s)) \<and> distinct (map mp_pid (m_mappings s))"

lemma mmu_ok_cong [simp]:
  "mmu_ok (s\<lparr>m_mappings := x\<rparr>) M = mmu_ok s M" "mmu_ok (s\<lparr>m_ttb := t\<rparr>) M = mmu_ok s M" "mmu_ok (s\<lparr>m_current := c\<rparr>) M = mmu_ok s M"
  "mmu_ok (s\<lparr>m_ttb := t, m_current := c\<rparr>) M = mmu_ok s M"
  by (simp_all add: mmu_ok_def mapping_ok_def)

text \<open>Words that lie in the pages of a mapping decide what its tables say.\<close>

definition same_words :: "buddy \<Rightarrow> mapping \<Rightarrow> (u32 \<Rightarrow> u32) \<Rightarrow> (u32 \<Rightarrow> u32) \<Rightarrow> bool" where
  "same_words b m t t' \<longleftrightarrow> (\<forall>p k off. owns b m p k \<longrightarrow> off < 2 ^ k * PAGE_SIZE \<longrightarrow> t' (pa p + of_nat off) = t (pa p + of_nat off))"

lemma same_words_tables:
  assumes ok: "mapping_ok s m" and w: "same_words (m_buddy s) m (m_tables s) t'"
  shows "i < L1_ENTRY_NUM \<Longrightarrow> l1_entry t' (mp_address m) i = l1_entry (m_tables s) (mp_address m) i"
    "tabs t' (mp_address m) = tabs (m_tables s) (mp_address m)"
    "tabs (m_tables s) (mp_address m) i = Some p \<Longrightarrow> j < L2_ENTRY_NUM \<Longrightarrow> l2_entry t' (mp_address m) i j = l2_entry (m_tables s) (mp_address m) i j"
    "frames t' (mp_address m) = frames (m_tables s) (mp_address m)"
proof -
  let ?a = "mp_address m" and ?t = "m_tables s"
  have e: "l1_entry t' ?a i = l1_entry ?t ?a i" if i: "i < L1_ENTRY_NUM" for i
  proof -
    have "4 * i < 2 ^ 2 * PAGE_SIZE" using i by (simp add: L1_ENTRY_NUM_def PAGE_SIZE_def)
    then have "t' (pa (pnum ?a) + of_nat (4 * i)) = ?t (pa (pnum ?a) + of_nat (4 * i))"
      using w mapping_okD(4) [OF ok] unfolding same_words_def by blast
    then show ?thesis unfolding l1_entry_def using mapping_okD(3) [OF ok] by metis
  qed
  then show "i < L1_ENTRY_NUM \<Longrightarrow> l1_entry t' ?a i = l1_entry ?t ?a i" .
  show "tabs t' ?a = tabs ?t ?a" using e by (auto simp: tabs_def fun_eq_iff)
  have f: "l2_entry t' ?a i j = l2_entry ?t ?a i j" if T: "tabs ?t ?a i = Some p" and j: "j < L2_ENTRY_NUM" for i j p
  proof -
    have i: "i < L1_ENTRY_NUM" using T by (simp add: tabs_def split: if_splits)
    have "4 * j < 2 ^ 0 * PAGE_SIZE" using j by (simp add: L2_ENTRY_NUM_def PAGE_SIZE_def)
    then have "t' (pa p + of_nat (4 * j)) = ?t (pa p + of_nat (4 * j))"
      using w mapping_okD(6) [OF ok T] unfolding same_words_def by blast
    then show ?thesis using e [OF i] mapping_okD(5) [OF ok T] by (simp add: l2_entry_def pa_flags)
  qed
  then show "tabs ?t ?a i = Some p \<Longrightarrow> j < L2_ENTRY_NUM \<Longrightarrow> l2_entry t' ?a i j = l2_entry ?t ?a i j" .
  show "frames t' ?a = frames ?t ?a"
    using e f by (auto simp: frames_def fun_eq_iff tabs_def)
qed

lemma mapping_ok_mono:
  assumes ok: "mapping_ok s m" and w: "same_words (m_buddy s) m (m_tables s) (m_tables s')"
    and u: "used_blocks (m_buddy s) \<subseteq> used_blocks (m_buddy s')"
  shows "mapping_ok s' m"
proof -
  let ?a = "mp_address m" and ?t = "m_tables s" and ?t' = "m_tables s'"
  note same = same_words_tables [OF ok w]
  have o: "owns (m_buddy s) m p k \<Longrightarrow> owns (m_buddy s') m p k" for p k using u by (auto simp: owns_def)
  have T: "l1_entry ?t' ?a i = pa p OR 1 \<and> owns (m_buddy s') m p 0" if "tabs ?t ?a i = Some p" for i p
    using mapping_okD(5,6) [OF ok that] same(1) [of i] that o by (simp add: tabs_def split: if_splits)
  have F: "l2_entry ?t' ?a i j = pa q OR 0x32 \<and> owns (m_buddy s') m q 0" if f: "frames ?t ?a (i, j) = Some q" for i j q
  proof -
    have "tabs ?t ?a i = Some (pnum (l1_entry ?t ?a i))" "j < L2_ENTRY_NUM" using f by (simp_all add: frames_def tabs_def split: if_splits)
    then show ?thesis using same(3) mapping_okD(7,8) [OF ok f] o by simp
  qed
  show ?thesis
    using mapping_okD(1-4) [OF ok] mapping_okD(9-11) [OF ok] T F o u
    unfolding mapping_ok_def Let_def same(2,4) by blast
qed

lemma mmu_okD:
  assumes "mmu_ok s M"
  shows "buddy_inv (m_buddy s)" "m \<in> M \<Longrightarrow> mapping_ok s m"
    "m \<in> M \<Longrightarrow> m' \<in> M \<Longrightarrow> m \<noteq> m' \<Longrightarrow> set (mp_pages m) \<inter> set (mp_pages m') = {}"
  using assms unfolding mmu_ok_def by blast+

text \<open>A write to a word of a block in use is not seen through a mapping that does not own the block.\<close>

lemma same_words_other:
  assumes "buddy_inv b" "(p, k) \<in> used_blocks b" "off < 2 ^ k * PAGE_SIZE" "p \<notin> set (mp_pages m)"
  shows "same_words b m t (t(pa p + of_nat off := v))"
  unfolding same_words_def
proof (intro allI impI)
  fix q l o' assume q: "owns b m q l" "o' < 2 ^ l * PAGE_SIZE"
  then have "pa q + of_nat o' \<noteq> pa p + of_nat off"
    using in_block_eq [OF assms(1) _ q(2) assms(2,3)] assms(4) by (auto simp: owns_def)
  then show "(t(pa p + of_nat off := v)) (pa q + of_nat o') = t (pa q + of_nat o')" by simp
qed

text \<open>Taking a page: it is new to everybody, and what has been there before stays as it is.\<close>

lemma mmu_ok_extend:
  assumes ok: "mmu_ok s (insert m M)" "m \<notin> M" and a: "buddy_alloc (m_buddy s) n = Some (p, b')"
    and w: "\<forall>q k off. (q, k) \<in> used_blocks (m_buddy s) \<longrightarrow> off < 2 ^ k * PAGE_SIZE \<longrightarrow> t' (pa q + of_nat off) = m_tables s (pa q + of_nat off)"
  defines "s' \<equiv> s\<lparr>m_buddy := b', m_tables := t'\<rparr>"
  shows "mmu_ok s' (insert (add_page m p) M)" "(p, fit_order n) \<in> used_blocks b'" "(p, k) \<notin> used_blocks (m_buddy s)"
    "x \<in> insert m M \<Longrightarrow> tabs t' (mp_address x) = tabs (m_tables s) (mp_address x) \<and> frames t' (mp_address x) = frames (m_tables s) (mp_address x)"
    "page_address b' p = pa p"
proof -
  note b = pa.alloc_used [OF mmu_okD(1) [OF ok(1)] a]
  show u: "(p, fit_order n) \<in> used_blocks b'" using b by simp
  then show "page_address b' p = pa p" using b page_address_pa by blast
  have fresh: "(p, k) \<notin> used_blocks (m_buddy s)" for k
  proof
    assume "(p, k) \<in> used_blocks (m_buddy s)"
    then have "block_pages (p, fit_order n) \<inter> block_pages (p, k) = {}" using b by (elim conjE) (rule bspec)
    then show False by (auto simp: block_pages_def)
  qed
  then show "(p, k) \<notin> used_blocks (m_buddy s)" .
  have sw: "same_words (m_buddy s) x (m_tables s) t'" if "x \<in> insert m M" for x
    using w by (auto simp: same_words_def owns_def)
  then show "x \<in> insert m M \<Longrightarrow> tabs t' (mp_address x) = tabs (m_tables s) (mp_address x) \<and> frames t' (mp_address x) = frames (m_tables s) (mp_address x)"
    using same_words_tables(2,4) [OF mmu_okD(2) [OF ok(1)]] by simp
  have k: "mapping_ok s' x" if "x \<in> insert m M" for x
    using mapping_ok_mono [of s x s'] sw mmu_okD(2) [OF ok(1)] that b by (auto simp: s'_def)
  have np: "p \<notin> set (mp_pages x)" if "x \<in> insert m M" for x
    using mapping_okD(2) [OF mmu_okD(2) [OF ok(1) that]] fresh by blast
  have "mapping_ok s' (add_page m p)"
    using k [of m] np [of m] u unfolding mapping_ok_def Let_def by (auto simp: add_page_def owns_def s'_def)
  moreover have "set (mp_pages (add_page m p)) \<inter> set (mp_pages x) = {}" if "x \<in> M" for x
    using mmu_okD(3) [OF ok(1), of m x] that ok(2) np [of x] by (auto simp: add_page_def)
  ultimately show "mmu_ok s' (insert (add_page m p) M)"
    using k b mmu_okD(3) [OF ok(1)] unfolding mmu_ok_def by (auto simp: s'_def Int_commute)
qed

lemma tabs_lt: "tabs t a i = Some p \<Longrightarrow> i < L1_ENTRY_NUM \<and> l1_entry t a i \<noteq> 0"
  by (simp add: tabs_def split: if_splits)

lemma frames_tabs: "frames t a (i, j) = Some q \<Longrightarrow> tabs t a i \<noteq> None \<and> j < L2_ENTRY_NUM"
  by (simp add: frames_def tabs_def split: if_splits)

lemma pnum_or: "buddy_inv b \<Longrightarrow> (p, k) \<in> used_blocks b \<Longrightarrow> n < 2 ^ 12 \<Longrightarrow> pnum (pa p OR of_nat n) = p"
proof -
  assume b: "buddy_inv b" "(p, k) \<in> used_blocks b" and n: "n < 2 ^ 12"
  have "of_nat n = take_bit 12 (of_nat n :: u32)" using n by (simp add: take_bit_of_nat take_bit_nat_eq_self)
  then show ?thesis using pnum_pa [OF b, of n] n by (simp add: pa_or PAGE_SIZE_def)
qed

text \<open>A write to a word of one mapping is a matter of this mapping only.\<close>

lemma mmu_ok_write:
  assumes ok: "mmu_ok s (insert m M)" "m \<notin> M" and q: "owns (m_buddy s) m q k" "off < 2 ^ k * PAGE_SIZE"
    and s': "s' = set_word (pa q + of_nat off) v s"
  shows "x \<in> M \<Longrightarrow> tabs (m_tables s') (mp_address x) = tabs (m_tables s) (mp_address x) \<and> frames (m_tables s') (mp_address x) = frames (m_tables s) (mp_address x)"
    "mapping_ok s' m \<Longrightarrow> mmu_ok s' (insert m M)"
proof -
  have w: "same_words (m_buddy s) x (m_tables s) (m_tables s')" if "x \<in> M" for x
  proof -
    have "q \<notin> set (mp_pages x)" using mmu_okD(3) [OF ok(1), of m x] ok(2) that q(1) by (auto simp: owns_def)
    then show ?thesis
      using same_words_other [OF mmu_okD(1) [OF ok(1)], of q k off x] q by (simp add: s' set_word_def owns_def)
  qed
  then show "x \<in> M \<Longrightarrow> tabs (m_tables s') (mp_address x) = tabs (m_tables s) (mp_address x) \<and> frames (m_tables s') (mp_address x) = frames (m_tables s) (mp_address x)"
    using same_words_tables(2,4) [OF mmu_okD(2) [OF ok(1)]] by simp
  have "mapping_ok s' x" if "x \<in> M" for x
    using mapping_ok_mono [OF mmu_okD(2) [OF ok(1)] w] that by (simp add: s' set_word_def)
  then show "mapping_ok s' m \<Longrightarrow> mmu_ok s' (insert m M)"
    using ok(1) unfolding mmu_ok_def by (simp add: s' set_word_def)
qed

text \<open>A new second-level table, empty, is linked into the first-level table.\<close>

lemma mmu_ok_link:
  assumes ok: "mmu_ok s (insert m M)" "m \<notin> M" and p: "owns (m_buddy s) m p 0"
    and new: "p \<notin> ran (tabs (m_tables s) (mp_address m))" "p \<notin> ran (frames (m_tables s) (mp_address m))"
    and i: "tabs (m_tables s) (mp_address m) i = None" "i < L1_ENTRY_NUM"
    and z: "\<forall>j < L2_ENTRY_NUM. m_tables s (pa p + of_nat (4 * j)) = 0"
  defines "s' \<equiv> set_word (mp_address m + of_nat (4 * i)) (pa p OR 1) s"
  shows "mmu_ok s' (insert m M)" "tabs (m_tables s') (mp_address m) = (tabs (m_tables s) (mp_address m))(i \<mapsto> p)"
    "frames (m_tables s') (mp_address m) = frames (m_tables s) (mp_address m)"
    "x \<in> M \<Longrightarrow> tabs (m_tables s') (mp_address x) = tabs (m_tables s) (mp_address x) \<and> frames (m_tables s') (mp_address x) = frames (m_tables s) (mp_address x)"
proof -
  let ?a = "mp_address m" and ?t = "m_tables s" and ?t' = "m_tables s'" and ?b = "m_buddy s"
  note b = mmu_okD(1) [OF ok(1)] and m = mmu_okD(2) [OF ok(1), of m, simplified]
  have t': "?t' = ?t(?a + of_nat (4 * i) := pa p OR 1)" and b': "m_buddy s' = ?b" by (simp_all add: s'_def set_word_def)
  have root: "(pnum ?a, 2) \<in> used_blocks ?b" "?a = pa (pnum ?a)" using mapping_okD(3,4) [OF m] by (auto simp: owns_def)
  have li: "4 * i' < 2 ^ 2 * PAGE_SIZE" if "i' < L1_ENTRY_NUM" for i' using that by (simp add: L1_ENTRY_NUM_def PAGE_SIZE_def)
  note wr = mmu_ok_write [OF ok mapping_okD(4) [OF m] li [OF i(2)], of s' "pa p OR 1", folded root(2), OF s'_def [THEN meta_eq_to_obj_eq]]
  have e1: "l1_entry ?t' ?a i' = (if i' = i then pa p OR 1 else l1_entry ?t ?a i')" if "i' < L1_ENTRY_NUM" for i'
    using in_block_eq [OF b root(1) li [OF that] root(1) li [OF i(2)]] root(2) by (auto simp: t' l1_entry_def)
  have w: "?t' (pa q + of_nat off) = ?t (pa q + of_nat off)" if "(q, 0) \<in> used_blocks ?b" "off < PAGE_SIZE" for q off
    using in_block_eq [OF b that(1) _ root(1) li [OF i(2)], of off] root that used_blocks_unique [of "pnum ?a" 2 ?b 0] by (auto simp: t')
  have ne: "pa p OR 1 \<noteq> 0" using pa_flags(3) [of p] by (metis and_zero_eq zero_and_eq zero_neq_one)
  have pn: "pnum (pa p OR 1) = p" using pnum_or [OF b, of p 0 1] p by (simp add: owns_def)
  show T: "tabs ?t' ?a = (tabs ?t ?a)(i \<mapsto> p)" 
  proof
    show "tabs ?t' ?a x = ((tabs ?t ?a)(i \<mapsto> p)) x" for x
      using e1 [of x] i(2) ne pn by (cases "x = i"; cases "x < L1_ENTRY_NUM") (simp_all add: tabs_def)
  qed
  have e2: "l2_entry ?t' ?a i' j = (if i' = i then 0 else l2_entry ?t ?a i' j)"
    if "i' = i \<or> tabs ?t ?a i' \<noteq> None" "j < L2_ENTRY_NUM" for i' j
  proof -
    have j: "4 * j < PAGE_SIZE" using that(2) by (simp add: L2_ENTRY_NUM_def PAGE_SIZE_def)
    show ?thesis
    proof (cases "i' = i")
      case True
      then show ?thesis using e1 [OF i(2)] z that(2) w [of p "4 * j"] p j by (simp add: l2_entry_def pa_flags owns_def)
    next
      case False
      then obtain q where q: "tabs ?t ?a i' = Some q" using \<open>i' = i \<or> _\<close> by blast
      then show ?thesis
        using e1 [of i'] tabs_lt [OF q] mapping_okD(5,6) [OF m q] False w [of q "4 * j"] j by (simp add: l2_entry_def pa_flags owns_def)
    qed
  qed
  have nu: "\<not> user_entry 0" by (simp add: user_entry_def)
  have fi: "frames ?t ?a (i, j) = None" for j using i frames_tabs by fastforce
  have F: "frames ?t' ?a (i', j) = frames ?t ?a (i', j)" for i' j
  proof (cases "i' < L1_ENTRY_NUM \<and> j < L2_ENTRY_NUM \<and> i' \<noteq> i")
    case True
    then show ?thesis using e1 [of i'] e2 [of i' j] by (auto simp: frames_def tabs_def)
  next
    case False
    then show ?thesis using e2 [of i j] nu fi [of j] by (auto simp: frames_def)
  qed
  then show "frames ?t' ?a = frames ?t ?a" by auto
  show "x \<in> M \<Longrightarrow> tabs ?t' (mp_address x) = tabs ?t (mp_address x) \<and> frames ?t' (mp_address x) = frames ?t (mp_address x)"
    by (rule wr(1))
  have "l1_entry ?t' ?a i' = pa q OR 1 \<and> owns ?b m q 0" if "((tabs ?t ?a)(i \<mapsto> p)) i' = Some q" for i' q
    using that e1 [of i'] i(2) p mapping_okD(5,6) [OF m, of i' q] tabs_lt [of ?t ?a i' q] by (auto split: if_splits)
  moreover have "l2_entry ?t' ?a i' j = pa q OR 0x32 \<and> owns ?b m q 0" if "frames ?t ?a (i', j) = Some q" for i' j q
    using mapping_okD(7,8) [OF m that] e2 [of i' j] frames_tabs [OF that] i(1) by auto
  moreover have "inj_on ((tabs ?t ?a)(i \<mapsto> p)) (dom ((tabs ?t ?a)(i \<mapsto> p)))"
    using mapping_okD(9) [OF m] new(1) i(1) by (auto simp: inj_on_def ran_def)
  moreover have "ran ((tabs ?t ?a)(i \<mapsto> p)) \<inter> ran (frames ?t ?a) = {}" using mapping_okD(11) [OF m] new(2) i(1) by auto
  ultimately have "mapping_ok s' m"
    using mapping_okD(1-4) [OF m] mapping_okD(10) [OF m] unfolding mapping_ok_def Let_def T b' \<open>frames ?t' ?a = frames ?t ?a\<close> by blast
  then show "mmu_ok s' (insert m M)"
    by (rule wr(2))
qed

lemma inj_on_upd: "inj_on f (dom f) \<Longrightarrow> (\<And>q. new = Some q \<Longrightarrow> q \<notin> ran f) \<Longrightarrow> inj_on (f(x := new)) (dom (f(x := new)))"
  by (auto simp: inj_on_def ran_def dom_def)

lemma ran_upd: "ran (f(x := new)) \<subseteq> ran f \<union> set_option new"
  by (auto simp: ran_def split: if_splits)

text \<open>An entry of a second-level table is written: a page of the mapping that is not used otherwise, or nothing for user programs.\<close>

lemma mmu_ok_leaf:
  assumes ok: "mmu_ok s (insert m M)" "m \<notin> M" and p: "tabs (m_tables s) (mp_address m) i = Some p" and j: "j < L2_ENTRY_NUM"
    and d: "case new of
        None \<Rightarrow> \<not> user_entry d
      | Some q \<Rightarrow> d = pa q OR 0x32 \<and> owns (m_buddy s) m q 0 \<and> q \<notin> ran (tabs (m_tables s) (mp_address m)) \<and> q \<notin> ran (frames (m_tables s) (mp_address m))"
  defines "s' \<equiv> set_word (pa p + of_nat (4 * j)) d s"
  shows "mmu_ok s' (insert m M)" "tabs (m_tables s') (mp_address m) = tabs (m_tables s) (mp_address m)"
    "frames (m_tables s') (mp_address m) = (frames (m_tables s) (mp_address m))((i, j) := new)"
    "x \<in> M \<Longrightarrow> tabs (m_tables s') (mp_address x) = tabs (m_tables s) (mp_address x) \<and> frames (m_tables s') (mp_address x) = frames (m_tables s) (mp_address x)"
proof -
  let ?a = "mp_address m" and ?t = "m_tables s" and ?t' = "m_tables s'" and ?b = "m_buddy s"
  note b = mmu_okD(1) [OF ok(1)] and m = mmu_okD(2) [OF ok(1), of m, simplified]
  have t': "?t' = ?t(pa p + of_nat (4 * j) := d)" and b': "m_buddy s' = ?b" by (simp_all add: s'_def set_word_def)
  have pu: "(p, 0) \<in> used_blocks ?b" "owns ?b m p 0" using mapping_okD(6) [OF m p] by (auto simp: owns_def)
  have root: "(pnum ?a, 2) \<in> used_blocks ?b" "?a = pa (pnum ?a)" using mapping_okD(3,4) [OF m] by (auto simp: owns_def)
  have lj: "4 * j' < 2 ^ 0 * PAGE_SIZE" if "j' < L2_ENTRY_NUM" for j' using that by (simp add: L2_ENTRY_NUM_def PAGE_SIZE_def)
  note wr = mmu_ok_write [OF ok pu(2) lj [OF j], of s' d, OF s'_def [THEN meta_eq_to_obj_eq]]
  have e1: "l1_entry ?t' ?a i' = l1_entry ?t ?a i'" if "i' < L1_ENTRY_NUM" for i'
  proof -
    have "4 * i' < 2 ^ 2 * PAGE_SIZE" using that by (simp add: L1_ENTRY_NUM_def PAGE_SIZE_def)
    then have "pa (pnum ?a) + of_nat (4 * i') \<noteq> pa p + of_nat (4 * j)"
      using in_block_eq [OF b root(1) _ pu(1) lj [OF j], of "4 * i'"] root(1) pu(1) used_blocks_unique [of "pnum ?a" 2 ?b 0] by auto
    then have "?a + of_nat (4 * i') \<noteq> pa p + of_nat (4 * j)" using root(2) by simp
    then show ?thesis by (simp add: t' l1_entry_def)
  qed
  show T: "tabs ?t' ?a = tabs ?t ?a" using e1 by (auto simp: tabs_def fun_eq_iff)
  have e2: "l2_entry ?t' ?a i' j' = (if i' = i \<and> j' = j then d else l2_entry ?t ?a i' j')"
    if q: "tabs ?t ?a i' = Some q" and j': "j' < L2_ENTRY_NUM" for i' j' q
  proof -
    have "q = p \<longleftrightarrow> i' = i" using inj_onD [OF mapping_okD(9) [OF m], of i' i] p q by auto
    moreover have "pa q + of_nat (4 * j') = pa p + of_nat (4 * j) \<longleftrightarrow> q = p \<and> j' = j"
      using in_block_eq [OF b _ lj [OF j'] pu(1) lj [OF j], of q] mapping_okD(6) [OF m q] by (auto simp: owns_def)
    ultimately show ?thesis
      using e1 [of i'] tabs_lt [OF q] mapping_okD(5) [OF m q] by (simp add: l2_entry_def pa_flags t')
  qed
  have u: "user_entry (pa q OR 0x32)" for q
  proof -
    have "(pa q OR 0x32) AND 0xfff = 0x32" by (rule pa_or(2)) simp
    moreover have "(pa q OR 0x32) AND 2 = ((pa q OR 0x32) AND 0xfff) AND 2" "(pa q OR 0x32) AND 0x30 = ((pa q OR 0x32) AND 0xfff) AND 0x30"
      by (simp_all add: and.assoc)
    ultimately show ?thesis by (simp add: user_entry_def SL_SHORT_DESCRIPTOR_def AP_FULL_ACCESS_def)
  qed
  have pq: "pnum (pa q OR 0x32) = q" if "(q, 0) \<in> used_blocks ?b" for q using pnum_or [OF b that, of 50] by simp
  show F: "frames ?t' ?a = (frames ?t ?a)((i, j) := new)"
  proof
    fix x :: "nat \<times> nat"
    obtain i' j' where x: "x = (i', j')" by fastforce
    show "frames ?t' ?a x = ((frames ?t ?a)((i, j) := new)) x"
    proof (cases "tabs ?t ?a i' \<noteq> None \<and> j' < L2_ENTRY_NUM")
      case True
      then obtain q where q: "tabs ?t ?a i' = Some q" by blast
      then show ?thesis
        using e2 [OF q] e1 [of i'] tabs_lt [OF q] True d u pq by (auto simp: x frames_def owns_def split: option.splits)
    next
      case False
      then have "frames ?t' ?a x = None" "frames ?t ?a x = None" using frames_tabs T by (auto simp: x) (metis frames_tabs not_None_eq T)+
      then show ?thesis using False p j by (auto simp: x)
    qed
  qed
  show "x \<in> M \<Longrightarrow> tabs ?t' (mp_address x) = tabs ?t (mp_address x) \<and> frames ?t' (mp_address x) = frames ?t (mp_address x)"
    by (rule wr(1))
  let ?F = "(frames ?t ?a)((i, j) := new)"
  have "l2_entry ?t' ?a i' j' = pa q OR 0x32 \<and> owns ?b m q 0" if f: "?F (i', j') = Some q" for i' j' q
  proof (cases "(i', j') = (i, j)")
    case True
    then show ?thesis using e2 [OF p j] f d by simp
  next
    case False
    then have f': "frames ?t ?a (i', j') = Some q" using f by (auto split: if_splits)
    then obtain r where "tabs ?t ?a i' = Some r" "j' < L2_ENTRY_NUM" using frames_tabs [OF f'] by blast
    then show ?thesis using mapping_okD(7,8) [OF m f'] e2 False by auto
  qed
  moreover have "inj_on ?F (dom ?F)" "ran (tabs ?t ?a) \<inter> ran ?F = {}"
    using inj_on_upd [OF mapping_okD(10) [OF m], of new "(i, j)"] ran_upd [of "frames ?t ?a" "(i, j)" new] mapping_okD(11) [OF m] d
    by (auto split: option.splits)
  moreover have "l1_entry ?t' ?a i' = pa q OR 1" if "tabs ?t ?a i' = Some q" for i' q
    using mapping_okD(5) [OF m that] e1 tabs_lt [OF that] by simp
  ultimately have "mapping_ok s' m"
    using mapping_okD(1-4,6,9) [OF m] unfolding mapping_ok_def Let_def T F b' by blast
  then show "mmu_ok s' (insert m M)" by (rule wr(2))
qed

subsection \<open>The operations on one mapping\<close>

text \<open>
  What every operation on a mapping keeps: who it belongs to and where its tables start, all other
  mappings and what their tables say, and every page in use.
\<close>

definition grown :: "mapping set \<Rightarrow> mapping \<Rightarrow> mmu \<Rightarrow> mapping \<Rightarrow> mmu \<Rightarrow> bool" where
  "grown M m s m' s' \<longleftrightarrow> mp_pid m' = mp_pid m \<and> mp_address m' = mp_address m \<and> mmu_ok s' (insert m' M) \<and>
     m_mappings s' = m_mappings s \<and> m_ttb s' = m_ttb s \<and> m_current s' = m_current s \<and>
     used_blocks (m_buddy s) \<subseteq> used_blocks (m_buddy s') \<and>
     (\<forall>x \<in> M. tabs (m_tables s') (mp_address x) = tabs (m_tables s) (mp_address x) \<and>
        frames (m_tables s') (mp_address x) = frames (m_tables s) (mp_address x))"

lemma grown_refl: "mmu_ok s (insert m M) \<Longrightarrow> grown M m s m s"
  by (simp add: grown_def)

lemma grown_trans: "grown M m s m1 s1 \<Longrightarrow> grown M m1 s1 m2 s2 \<Longrightarrow> grown M m s m2 s2"
  by (auto simp: grown_def)

definition apart :: "mapping set \<Rightarrow> mapping \<Rightarrow> bool" where
  "apart M m \<longleftrightarrow> (\<forall>x \<in> M. mp_pid x \<noteq> mp_pid m)"

lemma apartD: "apart M m \<Longrightarrow> m \<notin> M"
  by (auto simp: apart_def)

lemma grown_apart: "grown M m s m' s' \<Longrightarrow> apart M m \<Longrightarrow> apart M m'"
  by (simp add: grown_def apart_def)

lemma grownD:
  assumes "grown M m s m' s'"
  shows "mmu_ok s' (insert m' M)" "mp_address m' = mp_address m" "mp_pid m' = mp_pid m" "used_blocks (m_buddy s) \<subseteq> used_blocks (m_buddy s')"
  using assms by (simp_all add: grown_def)

lemma fit_orders: "fit_order L1_SIZE = 2" "fit_order L2_SIZE = 0" "fit_order PAGE_SIZE = 0"
  using fits_iff_fit_order_le [of L1_SIZE 1] fits_iff_fit_order_le [of L1_SIZE 2] fits_iff_fit_order_le [of L2_SIZE 0]
    fits_iff_fit_order_le [of PAGE_SIZE 0]
  by (simp_all add: PAGE_SIZE_def L1_SIZE_def L2_SIZE_def L1_ENTRY_NUM_def L2_ENTRY_NUM_def)

text \<open>A new page is no table and no page of a user program.\<close>

lemma fresh_not_mapped:
  assumes "mapping_ok s m" "\<And>k. (p, k) \<notin> used_blocks (m_buddy s)"
  shows "p \<notin> ran (tabs (m_tables s) (mp_address m))" "p \<notin> ran (frames (m_tables s) (mp_address m))"
proof -
  show "p \<notin> ran (tabs (m_tables s) (mp_address m))" using mapping_okD(6) [OF assms(1), of _ p] assms(2) by (auto simp: ran_def owns_def)
  show "p \<notin> ran (frames (m_tables s) (mp_address m))" using mapping_okD(8) [OF assms(1), of _ _ p] assms(2) by (auto simp: ran_def owns_def)
qed

lemma mmu_create_page_grown:
  assumes ok: "mmu_ok s (insert m M)" "apart M m" and c: "mmu_create_page m s = Some (a, m', s')"
  obtains q where "a = pa q" "grown M m s m' s'" "owns (m_buddy s') m' q 0" "\<forall>k. (q, k) \<notin> used_blocks (m_buddy s)" "m_tables s' = m_tables s"
    "tabs (m_tables s') (mp_address m') = tabs (m_tables s) (mp_address m)" "frames (m_tables s') (mp_address m') = frames (m_tables s) (mp_address m)"
proof -
  obtain p b where p: "buddy_alloc (m_buddy s) PAGE_SIZE = Some (p, b)" "a = page_address b p" "m' = add_page m p" "s' = s\<lparr>m_buddy := b\<rparr>"
    using c by (auto simp: mmu_create_page_def bind_eq_Some_conv)
  note e = mmu_ok_extend [OF ok(1) apartD [OF ok(2)] p(1), of "m_tables s", simplified]
  show thesis
  proof (rule that [of p])
    show "a = pa p" using e(5) p(2) by simp
    show "grown M m s m' s'" using e(1) p(3,4) pa.alloc_used [OF mmu_okD(1) [OF ok(1)] p(1)] by (auto simp: grown_def add_page_def)
    show "owns (m_buddy s') m' p 0" using e(2) p(3,4) by (simp add: owns_def add_page_def fit_orders)
    show "\<forall>k. (p, k) \<notin> used_blocks (m_buddy s)" using e(3) by blast
  qed (simp_all add: p add_page_def)
qed

lemma clear_table_used:
  assumes "buddy_inv b" "(p, l) \<in> used_blocks b" "n \<le> 2 ^ l * PAGE_SIZE" "(q, k) \<in> used_blocks b" "q \<noteq> p" "off < 2 ^ k * PAGE_SIZE"
  shows "clear_table (pa p) n t (pa q + of_nat off) = t (pa q + of_nat off)"
proof -
  have "\<not> unat (pa q + of_nat off - pa p) < n"
  proof
    assume u: "unat (pa q + of_nat off - pa p) < n"
    have "pa q + of_nat off = pa p + of_nat (unat (pa q + of_nat off - pa p))" by simp
    then show False using in_block_eq [OF assms(1,4,6,2), of "unat (pa q + of_nat off - pa p)"] u assms(3,5) by simp
  qed
  then show ?thesis by (simp add: clear_table_def)
qed

lemma mmu_create_and_fill_pl2_grown:
  assumes ok: "mmu_ok s (insert m M)" "apart M m" and i: "unat l1_i = i" "i < L1_ENTRY_NUM"
    and c: "mmu_create_and_fill_pl2 m l1_i s = Some (pl2, m', s')"
  obtains p where "pl2 = pa p" "grown M m s m' s'" "tabs (m_tables s') (mp_address m') i = Some p"
    "frames (m_tables s') (mp_address m') = frames (m_tables s) (mp_address m)"
proof -
  let ?a = "mp_address m" and ?t = "m_tables s"
  have m: "mapping_ok s m" using mmu_okD(2) [OF ok(1)] by simp
  define e where "e = ?a + of_nat (4 * i)"
  have "?a + 4 * l1_i = e" by (simp add: e_def i(1) [symmetric])
  note c = c [unfolded mmu_create_and_fill_pl2_def this Let_def]
  show thesis
  proof (cases "tabs ?t ?a i")
    case (Some p)
    then have l: "?t e = pa p OR 1" using mapping_okD(5) [OF m] by (simp add: l1_entry_def e_def)
    have "pl2 = pa p" "m' = m" "s' = s" using c by (simp_all add: l FL_PAGE_TABLE_def pa_flags)
    then show thesis using that [of p] grown_refl [OF ok(1)] Some by simp
  next
    case None
    then have l: "?t e = 0" using i(2) by (simp add: tabs_def l1_entry_def e_def split: if_splits)
    obtain p b where p: "buddy_alloc (m_buddy s) L2_SIZE = Some (p, b)" "m' = add_page m p"
      "s' = set_word e ((0xfffffc00 AND page_address b p) OR FL_PAGE_TABLE)
         (s\<lparr>m_buddy := b, m_tables := clear_table (page_address b p) L2_SIZE ?t\<rparr>)"
      "pl2 = 0xfffffc00 AND m_tables s' e"
      using c l by (auto simp: mmu_create_pl2_def bind_eq_Some_conv Let_def)
    note al = pa.alloc_used [OF mmu_okD(1) [OF ok(1)] p(1), unfolded fit_orders]
    then have al': "buddy_inv b" "(p, 0) \<in> used_blocks b" "used_blocks (m_buddy s) \<subseteq> used_blocks b" by auto
    have pa: "page_address b p = pa p" using al' page_address_pa by blast
    have pn: "(p, k) \<notin> used_blocks (m_buddy s)" for k using mmu_ok_extend(3) [OF ok(1) apartD [OF ok(2)] p(1), of ?t] by simp
    define s1 where "s1 = s\<lparr>m_buddy := b, m_tables := clear_table (pa p) L2_SIZE ?t\<rparr>"
    have w: "\<forall>q k off. (q, k) \<in> used_blocks (m_buddy s) \<longrightarrow> off < 2 ^ k * PAGE_SIZE \<longrightarrow>
        clear_table (pa p) L2_SIZE ?t (pa q + of_nat off) = ?t (pa q + of_nat off)"
    proof (intro allI impI)
      fix q k off assume q: "(q, k) \<in> used_blocks (m_buddy s)" "off < 2 ^ k * PAGE_SIZE"
      then show "clear_table (pa p) L2_SIZE ?t (pa q + of_nat off) = ?t (pa q + of_nat off)"
        using al'(3) pn by (intro clear_table_used [OF al'(1,2)]) (auto simp: L2_SIZE_def L2_ENTRY_NUM_def PAGE_SIZE_def)
    qed
    note x = mmu_ok_extend [OF ok(1) apartD [OF ok(2)] p(1) w, folded p(2) s1_def]
    have a': "mp_address m' = ?a" "mp_pid m' = mp_pid m" by (simp_all add: p(2) add_page_def)
    have t1: "m_tables s1 = clear_table (pa p) L2_SIZE ?t" "m_buddy s1 = b" by (simp_all add: s1_def)
    have same: "tabs (m_tables s1) (mp_address m') = tabs ?t ?a" "frames (m_tables s1) (mp_address m') = frames ?t ?a"
      using x(4) [of m] by (simp_all add: t1 a')
    have ap: "m' \<notin> M" using ok(2) a'(2) by (auto simp: apart_def)
    have z: "m_tables s1 (pa p + of_nat (4 * j)) = 0" if "j < L2_ENTRY_NUM" for j
    proof -
      have "unat (of_nat (4 * j) :: u32) = 4 * j" using that by (intro unat_of_nat_small) (simp add: L2_ENTRY_NUM_def)
      then show ?thesis using that by (simp add: t1 clear_table_def L2_SIZE_def del: of_nat_mult)
    qed
    have s': "s' = set_word e (pa p OR 1) s1" using p(3) by (simp add: pa pa_flags FL_PAGE_TABLE_def s1_def)
    have o: "owns (m_buddy s1) m' p 0" using al'(2) by (simp add: owns_def p(2) add_page_def t1)
    note fr = fresh_not_mapped [OF m pn, folded same]
    have k: "mmu_ok s' (insert m' M)" "tabs (m_tables s') ?a = (tabs ?t ?a)(i \<mapsto> p)" "frames (m_tables s') ?a = frames ?t ?a"
      "x \<in> M \<Longrightarrow> tabs (m_tables s') (mp_address x) = tabs ?t (mp_address x) \<and> frames (m_tables s') (mp_address x) = frames ?t (mp_address x)" for x
      using mmu_ok_link [OF x(1) ap o fr _ i(2)] None z x(4) [of x] x(4) [of m] unfolding a'(1) e_def [symmetric] s' [symmetric] t1 by simp_all
    have "pl2 = pa p" using p(4) by (simp add: s' set_word_def pa_flags)
    moreover have "grown M m s m' s'" using k(1,4) a' al'(3) by (simp add: grown_def s' set_word_def s1_def)
    ultimately show thesis using that [of p] k(2,3) a' by simp
  qed
qed

text \<open>\<open>k\<close> entries of the table \<open>i\<close>, from \<open>j\<close> on, lead to pages nobody has used before, and nothing else has changed.\<close>

definition filled :: "nat \<Rightarrow> nat \<Rightarrow> nat \<Rightarrow> mapping \<Rightarrow> mmu \<Rightarrow> mapping \<Rightarrow> mmu \<Rightarrow> bool" where
  "filled i j k m s m' s' \<longleftrightarrow> (\<forall>i' j'.
     if i' = i \<and> j \<le> j' \<and> j' < j + k
     then \<exists>q. frames (m_tables s') (mp_address m') (i', j') = Some q \<and> (\<forall>l. (q, l) \<notin> used_blocks (m_buddy s))
     else frames (m_tables s') (mp_address m') (i', j') = frames (m_tables s) (mp_address m) (i', j'))"

lemma filledD:
  assumes "filled i j k m s m' s'"
  shows "j \<le> j' \<Longrightarrow> j' < j + k \<Longrightarrow> \<exists>q. frames (m_tables s') (mp_address m') (i, j') = Some q \<and> (\<forall>l. (q, l) \<notin> used_blocks (m_buddy s))"
    "i' \<noteq> i \<or> j' < j \<or> j + k \<le> j' \<Longrightarrow> frames (m_tables s') (mp_address m') (i', j') = frames (m_tables s) (mp_address m) (i', j')"
  using assms unfolding filled_def by (metis, metis not_less)

lemma fill_pages_grown:
  assumes "mmu_ok s (insert m M)" "apart M m" "tabs (m_tables s) (mp_address m) i = Some p" "j + k \<le> L2_ENTRY_NUM"
    "fill_pages (pa p) AP_FULL_ACCESS j k m s = Some (m', s')"
  shows "grown M m s m' s' \<and> filled i j k m s m' s'"
  using assms
proof (induction k arbitrary: j m s)
  case 0
  then show ?case using grown_refl by (auto simp: filled_def)
next
  case (Suc k)
  obtain a m1 s1 where c: "mmu_create_page m s = Some (a, m1, s1)"
    "fill_pages (pa p) AP_FULL_ACCESS (j + 1) k m1 (set_word (pa p + of_nat (4 * j)) (a OR SL_SHORT_DESCRIPTOR OR AP_FULL_ACCESS) s1) = Some (m', s')"
    using Suc.prems(5) by (auto simp: bind_eq_Some_conv)
  obtain q where q: "a = pa q" "grown M m s m1 s1" "owns (m_buddy s1) m1 q 0" "\<forall>l. (q, l) \<notin> used_blocks (m_buddy s)" "m_tables s1 = m_tables s"
    "tabs (m_tables s1) (mp_address m1) = tabs (m_tables s) (mp_address m)" "frames (m_tables s1) (mp_address m1) = frames (m_tables s) (mp_address m)"
    by (rule mmu_create_page_grown [OF Suc.prems(1,2) c(1)])
  have d: "a OR SL_SHORT_DESCRIPTOR OR AP_FULL_ACCESS = pa q OR 0x32" by (simp add: q(1) SL_SHORT_DESCRIPTOR_def AP_FULL_ACCESS_def or.assoc)
  define s2 where "s2 = set_word (pa p + of_nat (4 * j)) (pa q OR 0x32) s1"
  have ap: "apart M m1" using q(2) Suc.prems(2) by (rule grown_apart)
  have p1: "tabs (m_tables s1) (mp_address m1) i = Some p" using q(6) Suc.prems(3) by simp
  have j: "j < L2_ENTRY_NUM" using Suc.prems(4) by simp
  have "mapping_ok s m" using mmu_okD(2) [OF Suc.prems(1)] by simp
  then have n: "q \<notin> ran (tabs (m_tables s1) (mp_address m1))" "q \<notin> ran (frames (m_tables s1) (mp_address m1))"
    unfolding q(6,7) using fresh_not_mapped q(4) by blast+
  have leaf: "mmu_ok s2 (insert m1 M)" "tabs (m_tables s2) (mp_address m1) = tabs (m_tables s1) (mp_address m1)"
    "frames (m_tables s2) (mp_address m1) = (frames (m_tables s1) (mp_address m1))((i, j) \<mapsto> q)"
    "x \<in> M \<Longrightarrow> tabs (m_tables s2) (mp_address x) = tabs (m_tables s1) (mp_address x) \<and> frames (m_tables s2) (mp_address x) = frames (m_tables s1) (mp_address x)" for x
    using mmu_ok_leaf [OF grownD(1) [OF q(2)] apartD [OF ap] p1 j, of "pa q OR 0x32" "Some q", folded s2_def] q(3) n by simp_all
  have g2: "grown M m1 s1 m1 s2" using leaf(1,4) by (simp add: grown_def s2_def set_word_def)
  have g: "grown M m s m1 s2" using q(2) g2 by (rule grown_trans)
  have "fill_pages (pa p) AP_FULL_ACCESS (j + 1) k m1 s2 = Some (m', s')" using c(2) d s2_def by simp
  moreover have "tabs (m_tables s2) (mp_address m1) i = Some p" "j + 1 + k \<le> L2_ENTRY_NUM" using leaf(2) p1 Suc.prems(4) by simp_all
  ultimately have ih: "grown M m1 s2 m' s'" "filled i (j + 1) k m1 s2 m' s'" using Suc.IH [OF leaf(1) ap] by blast+
  have "filled i j (Suc k) m s m' s'"
    unfolding filled_def
  proof (intro allI)
    fix i' j'
    let ?g = "frames (m_tables s') (mp_address m')"
    consider "i' = i" "j' = j" | "i' = i" "j + 1 \<le> j'" "j' < j + 1 + k" | "i' \<noteq> i \<or> j' < j \<or> j + 1 + k \<le> j'" by linarith
    then show "if i' = i \<and> j \<le> j' \<and> j' < j + Suc k then \<exists>q. ?g (i', j') = Some q \<and> (\<forall>l. (q, l) \<notin> used_blocks (m_buddy s))
      else ?g (i', j') = frames (m_tables s) (mp_address m) (i', j')"
    proof cases
      case 1
      then show ?thesis using filledD(2) [OF ih(2), of i j] leaf(3) q(4) by simp
    next
      case 2
      then show ?thesis using filledD(1) [OF ih(2), of j'] grownD(4) [OF g] by auto
    next
      case 3
      then show ?thesis using filledD(2) [OF ih(2), of i' j'] leaf(3) q(7) by auto
    qed
  qed
  then show ?case using grown_trans [OF g ih(1)] by simp
qed

lemma unat_shift: "unat (drop_bit n w) = unat w div 2 ^ n" for w :: u32
  by (subst unat_drop_bit_eq) (rule drop_bit_eq_div)

lemma unat_l1: "unat (GET_L1_INDEX a) < L1_ENTRY_NUM"
proof -
  have "unat (GET_L1_INDEX a) = unat a div 2 ^ 20" by (simp only: GET_L1_INDEX_def unat_shift)
  moreover have "unat a < 2 ^ 32" using unsigned_less [of a, where 'a = nat] by simp
  ultimately show ?thesis by (simp add: L1_ENTRY_NUM_def less_mult_imp_div_less)
qed

lemma unat_l2: "unat (GET_L2_INDEX a) < L2_ENTRY_NUM"
proof -
  have "unat (a AND 0xff000) \<le> 0xff000" using word_and_le1 [of a "0xff000"] by (simp add: word_le_nat_alt and.commute)
  then have "unat (a AND 0xff000) div 2 ^ 12 \<le> 0xff000 div 2 ^ 12" by (rule div_le_mono)
  moreover have "unat (GET_L2_INDEX a) = unat (a AND 0xff000) div 2 ^ 12" by (simp only: GET_L2_INDEX_def unat_shift)
  ultimately show ?thesis by (simp add: L2_ENTRY_NUM_def)
qed

lemma mmu_create_mapping_grown:
  assumes ok: "mmu_ok s (insert m M)" "apart M m" and c: "mmu_create_mapping m addr sz False s = Some (r, m', s')"
  defines "i \<equiv> unat (GET_L1_INDEX addr)" and "j \<equiv> unat (GET_L2_INDEX addr)" and "k \<equiv> unat (GET_L2_INDEX addr + GET_PAGE_SIZE sz) - unat (GET_L2_INDEX addr)"
  shows "grown M m s m' s' \<and> (if L2_ENTRY_NUM < unat (GET_L2_INDEX addr + GET_PAGE_SIZE sz) then r = - 1 \<and> m' = m \<and> s' = s else r = 0 \<and> filled i j k m s m' s')"
proof (cases "L2_ENTRY_NUM < unat (GET_L2_INDEX addr + GET_PAGE_SIZE sz)")
  case True
  then show ?thesis using c grown_refl [OF ok(1)] by (simp add: mmu_create_mapping_def Let_def word_less_nat_alt L2_ENTRY_NUM_def)
next
  case False
  then have nl: "\<not> of_nat L2_ENTRY_NUM < GET_L2_INDEX addr + GET_PAGE_SIZE sz" by (simp add: word_less_nat_alt L2_ENTRY_NUM_def)
  obtain pl2 m1 s1 where c1: "mmu_create_and_fill_pl2 m (GET_L1_INDEX addr) s = Some (pl2, m1, s1)"
    and c2: "fill_pages pl2 AP_FULL_ACCESS j k m1 s1 = Some (m', s')" and r: "r = 0"
    using c nl by (auto simp: mmu_create_mapping_def Let_def bind_eq_Some_conv j_def k_def)
  obtain p where p: "pl2 = pa p" "grown M m s m1 s1" "tabs (m_tables s1) (mp_address m1) i = Some p"
    "frames (m_tables s1) (mp_address m1) = frames (m_tables s) (mp_address m)"
    by (rule mmu_create_and_fill_pl2_grown [OF ok i_def [THEN meta_eq_to_obj_eq, symmetric] _ c1]) (simp add: i_def unat_l1)
  have "j + k \<le> L2_ENTRY_NUM" using False unat_l2 [of addr] by (simp add: j_def k_def)
  then have f: "grown M m1 s1 m' s'" "filled i j k m1 s1 m' s'"
    using fill_pages_grown [OF grownD(1) [OF p(2)] grown_apart [OF p(2) ok(2)] p(3)] c2 p(1) by simp_all
  have "filled i j k m s m' s'"
    using f(2) p(4) grownD(4) [OF p(2)] unfolding filled_def by (auto split: if_splits) (metis subsetD)
  then show ?thesis using grown_trans [OF p(2) f(1)] r False by simp
qed

text \<open>The kernel's own mappings give user programs nothing.\<close>

definition hidden :: "mapping set \<Rightarrow> mapping \<Rightarrow> mmu \<Rightarrow> mapping \<Rightarrow> mmu \<Rightarrow> bool" where
  "hidden M m s m' s' \<longleftrightarrow> grown M m s m' s' \<and> frames (m_tables s') (mp_address m') \<subseteq>\<^sub>m frames (m_tables s) (mp_address m)"

lemma hidden_refl: "mmu_ok s (insert m M) \<Longrightarrow> hidden M m s m s"
  by (simp add: hidden_def grown_refl)

lemma hidden_trans: "hidden M m s m1 s1 \<Longrightarrow> hidden M m1 s1 m2 s2 \<Longrightarrow> hidden M m s m2 s2"
  unfolding hidden_def using grown_trans map_le_trans by blast

lemma hidden_apart: "hidden M m s m' s' \<Longrightarrow> apart M m \<Longrightarrow> apart M m'"
  using grown_apart hidden_def by blast

lemma hidden_ok: "hidden M m s m' s' \<Longrightarrow> mmu_ok s' (insert m' M)"
  using grownD(1) hidden_def by blast

lemma privileged_entry: "\<not> user_entry (push_bit 12 w OR SL_SHORT_DESCRIPTOR OR AP_PRIVILEGED_ACCESS)"
proof -
  have "push_bit 12 w AND (0x30 :: u32) = 0"
  proof (rule bit_eqI)
    show "bit (push_bit 12 w AND (0x30 :: u32)) n = bit (0 :: u32) n" for n using bit_flag [of "0x30" n] by (auto simp: bit_simps)
  qed
  then have "(push_bit 12 w OR 0x12) AND 0x30 = (0x10 :: u32)" by (simp add: bit.conj_disj_distrib2)
  then show ?thesis by (simp add: user_entry_def SL_SHORT_DESCRIPTOR_def AP_PRIVILEGED_ACCESS_def AP_FULL_ACCESS_def or.assoc)
qed

lemma hidden_leaf:
  assumes "mmu_ok s (insert m M)" "apart M m" "tabs (m_tables s) (mp_address m) i = Some p" "j < L2_ENTRY_NUM"
    and s': "s' = set_word (pa p + of_nat (4 * j)) (push_bit 12 w OR SL_SHORT_DESCRIPTOR OR AP_PRIVILEGED_ACCESS) s"
  shows "hidden M m s m s'" "tabs (m_tables s') (mp_address m) = tabs (m_tables s) (mp_address m)"
  using mmu_ok_leaf [OF assms(1) apartD [OF assms(2)] assms(3,4), of "push_bit 12 w OR SL_SHORT_DESCRIPTOR OR AP_PRIVILEGED_ACCESS" None] privileged_entry [of w]
  by (auto simp: hidden_def grown_def s' set_word_def map_le_def)

lemma fill_straight_hidden:
  assumes "mmu_ok s (insert m M)" "apart M m" "tabs (m_tables s) (mp_address m) i = Some p" "j + k \<le> L2_ENTRY_NUM" "addr = push_bit 12 w"
  shows "hidden M m s m (fill_straight (pa p) addr j k s)"
  using assms
proof (induction k arbitrary: addr w j s)
  case 0
  then show ?case by (simp add: hidden_refl)
next
  case (Suc k)
  define s1 where "s1 = set_word (pa p + of_nat (4 * j)) (addr OR SL_SHORT_DESCRIPTOR OR AP_PRIVILEGED_ACCESS) s"
  have "j < L2_ENTRY_NUM" using Suc.prems(4) by simp
  from hidden_leaf [OF Suc.prems(1-3) this, of s1 w]
  have h: "hidden M m s m s1" "tabs (m_tables s1) (mp_address m) = tabs (m_tables s) (mp_address m)" using Suc.prems(5) by (simp_all add: s1_def)
  have "addr + of_nat PAGE_SIZE = push_bit 12 (w + 1)" by (simp add: Suc.prems(5) push_bit_eq_mult PAGE_SIZE_def algebra_simps)
  then have "hidden M m s1 m (fill_straight (pa p) (addr + of_nat PAGE_SIZE) (j + 1) k s1)"
    using Suc.prems(2-4) h(2) by (intro Suc.IH [OF hidden_ok [OF h(1)]]) simp_all
  then show ?case using hidden_trans [OF h(1)] by (simp add: s1_def)
qed

lemma mmu_create_straight_mapping_hidden:
  assumes ok: "mmu_ok s (insert m M)" "apart M m" and c: "mmu_create_straight_mapping m addr sz s = Some (r, m', s')"
  shows "hidden M m s m' s'"
proof (cases "of_nat L2_ENTRY_NUM < GET_L2_INDEX addr + GET_PAGE_SIZE sz")
  case True
  then show ?thesis using c hidden_refl [OF ok(1)] by (simp add: mmu_create_straight_mapping_def Let_def)
next
  case False
  let ?j = "unat (GET_L2_INDEX addr)" and ?k = "unat (GET_PAGE_SIZE sz)"
  obtain pl2 s1 where c1: "mmu_create_and_fill_pl2 m (GET_L1_INDEX addr) s = Some (pl2, m', s1)"
    and c2: "s' = fill_straight pl2 (addr AND 0xfffff000) ?j ?k s1"
    using c False by (auto simp: mmu_create_straight_mapping_def Let_def bind_eq_Some_conv)
  obtain p where p: "pl2 = pa p" "grown M m s m' s1" "tabs (m_tables s1) (mp_address m') (unat (GET_L1_INDEX addr)) = Some p"
    "frames (m_tables s1) (mp_address m') = frames (m_tables s) (mp_address m)"
    by (rule mmu_create_and_fill_pl2_grown [OF ok refl unat_l1 c1])
  have "?k < 2 ^ 20"
  proof -
    have "?k = unat (sz + of_nat PAGE_SIZE - 1) div 2 ^ 12" by (simp only: GET_PAGE_SIZE_def unat_shift)
    moreover have "unat (sz + of_nat PAGE_SIZE - 1) < 2 ^ 32" using unsigned_less [of "sz + of_nat PAGE_SIZE - 1", where 'a = nat] by simp
    ultimately show ?thesis by (simp add: less_mult_imp_div_less)
  qed
  then have "unat (GET_L2_INDEX addr + GET_PAGE_SIZE sz) = ?j + ?k" using unat_l2 [of addr] by (simp add: unat_word_ariths L2_ENTRY_NUM_def)
  then have "?j + ?k \<le> L2_ENTRY_NUM" using False by (simp add: word_less_nat_alt L2_ENTRY_NUM_def)
  moreover have "addr AND 0xfffff000 = push_bit 12 (drop_bit 12 addr)"
  proof -
    have m: "(0xfffff000 :: u32) = NOT (mask 12)" by (simp add: mask_numeral not_eq_complement)
    show ?thesis unfolding m by (rule bit_eqI) (auto simp: bit_simps)
  qed
  ultimately have "hidden M m' s1 m' s'"
    unfolding c2 p(1) by (intro fill_straight_hidden [OF grownD(1) [OF p(2)] grown_apart [OF p(2) ok(2)] p(3)])
  then show ?thesis using hidden_trans [of M m s m' s1] p(2,4) by (simp add: hidden_def)
qed

lemma mmu_create_vectors_mapping_hidden:
  assumes ok: "mmu_ok s (insert m M)" "apart M m" and c: "mmu_create_vectors_mapping m s = Some (m', s')"
  shows "hidden M m s m' s'"
proof -
  let ?j = "unat (GET_L2_INDEX VIRT_VECTORS_ADDR)"
  obtain pl2 m1 s1 a s2 where c1: "mmu_create_and_fill_pl2 m (GET_L1_INDEX VIRT_VECTORS_ADDR) s = Some (pl2, m1, s1)"
    and c2: "mmu_create_page m1 s1 = Some (a, m', s2)"
    and c3: "s' = set_word (pl2 + of_nat (4 * ?j)) (a OR SL_SHORT_DESCRIPTOR OR AP_PRIVILEGED_ACCESS) s2"
    using c by (auto simp: mmu_create_vectors_mapping_def Let_def bind_eq_Some_conv)
  obtain p where p: "pl2 = pa p" "grown M m s m1 s1" "tabs (m_tables s1) (mp_address m1) (unat (GET_L1_INDEX VIRT_VECTORS_ADDR)) = Some p"
    "frames (m_tables s1) (mp_address m1) = frames (m_tables s) (mp_address m)"
    by (rule mmu_create_and_fill_pl2_grown [OF ok refl unat_l1 c1])
  note ap = grown_apart [OF p(2) ok(2)]
  obtain q where q: "a = pa q" "grown M m1 s1 m' s2" "owns (m_buddy s2) m' q 0" "\<forall>k. (q, k) \<notin> used_blocks (m_buddy s1)" "m_tables s2 = m_tables s1"
    "tabs (m_tables s2) (mp_address m') = tabs (m_tables s1) (mp_address m1)" "frames (m_tables s2) (mp_address m') = frames (m_tables s1) (mp_address m1)"
    by (rule mmu_create_page_grown [OF grownD(1) [OF p(2)] ap c2])
  have "hidden M m' s2 m' s'"
    by (rule hidden_leaf(1) [where i = "unat (GET_L1_INDEX VIRT_VECTORS_ADDR)", OF grownD(1) [OF q(2)] grown_apart [OF q(2) ap] _ unat_l2 c3 [unfolded p(1) q(1) pa_push_bit [of q]]])
      (simp add: q(6) p(3))
  moreover have "hidden M m s m' s2" using grown_trans [OF p(2) q(2)] p(4) q(7) by (simp add: hidden_def)
  ultimately show ?thesis using hidden_trans by blast
qed

lemma map_kernel_hidden:
  "mmu_ok s (insert m M) \<Longrightarrow> apart M m \<Longrightarrow> map_kernel i k m s = Some (m', s') \<Longrightarrow> hidden M m s m' s'"
proof (induction k arbitrary: i m s)
  case 0
  then show ?case by (simp add: hidden_refl)
next
  case (Suc k)
  then obtain r m1 s1 where c: "mmu_create_straight_mapping m (0x60000000 + 0x100000 * of_nat i) 0x100000 s = Some (r, m1, s1)"
    "map_kernel (i + 1) k m1 s1 = Some (m', s')"
    by (auto simp: bind_eq_Some_conv)
  have h: "hidden M m s m1 s1" by (rule mmu_create_straight_mapping_hidden [OF Suc.prems(1,2) c(1)])
  then show ?case using Suc.IH [OF hidden_ok [OF h] hidden_apart [OF h Suc.prems(2)] c(2)] hidden_trans by blast
qed

lemma mmu_create_kernel_mappings_hidden:
  assumes ok: "mmu_ok s (insert m M)" "apart M m" and c: "mmu_create_kernel_mappings m s = Some (m', s')"
  shows "hidden M m s m' s'"
proof -
  obtain m1 s1 m2 s2 r3 m3 s3 r4 where c: "mmu_create_vectors_mapping m s = Some (m1, s1)" "map_kernel 0 0x90 m1 s1 = Some (m2, s2)"
    "mmu_create_straight_mapping m2 0x10000000 0x20000 s2 = Some (r3, m3, s3)" "mmu_create_straight_mapping m3 0x1e000000 0x2000 s3 = Some (r4, m', s')"
    using c by (auto simp: mmu_create_kernel_mappings_def bind_eq_Some_conv)
  note h1 = mmu_create_vectors_mapping_hidden [OF ok c(1)]
  note h2 = map_kernel_hidden [OF hidden_ok [OF h1] hidden_apart [OF h1 ok(2)] c(2)]
  note a2 = hidden_apart [OF h2 hidden_apart [OF h1 ok(2)]]
  note h3 = mmu_create_straight_mapping_hidden [OF hidden_ok [OF h2] a2 c(3)]
  note h4 = mmu_create_straight_mapping_hidden [OF hidden_ok [OF h3] hidden_apart [OF h3 a2] c(4)]
  show ?thesis using h1 h2 h3 h4 hidden_trans by blast
qed

text \<open>A new, empty first-level table.\<close>

lemma mmu_create_pl1_ok:
  assumes ok: "mmu_ok s M" and c: "mmu_create_pl1 \<lparr>mp_pid = p, mp_pages = [], mp_address = 0\<rparr> s = Some (pl1, m, s')"
  defines "m' \<equiv> m\<lparr>mp_address := pl1\<rparr>"
  shows "mmu_ok s' (insert m' M)" "frames (m_tables s') (mp_address m') = Map.empty" "mp_pid m' = p"
    "x \<in> M \<Longrightarrow> tabs (m_tables s') (mp_address x) = tabs (m_tables s) (mp_address x) \<and> frames (m_tables s') (mp_address x) = frames (m_tables s) (mp_address x)"
    "m_mappings s' = m_mappings s" "m_ttb s' = m_ttb s" "m_current s' = m_current s" "used_blocks (m_buddy s) \<subseteq> used_blocks (m_buddy s')"
proof -
  obtain q b where q: "buddy_alloc (m_buddy s) L1_SIZE = Some (q, b)" "pl1 = page_address b q" "m = \<lparr>mp_pid = p, mp_pages = [q], mp_address = 0\<rparr>"
    "s' = s\<lparr>m_buddy := b, m_tables := clear_table (page_address b q) L1_SIZE (m_tables s)\<rparr>"
    using c by (auto simp: mmu_create_pl1_def bind_eq_Some_conv Let_def add_page_def)
  note al = pa.alloc_used [OF mmu_okD(1) [OF ok] q(1), unfolded fit_orders]
  then have b: "buddy_inv b" "(q, 2) \<in> used_blocks b" "used_blocks (m_buddy s) \<subseteq> used_blocks b" by auto
  have a: "page_address b q = pa q" using b page_address_pa by blast
  have fresh: "(q, k) \<notin> used_blocks (m_buddy s)" for k
  proof
    assume "(q, k) \<in> used_blocks (m_buddy s)"
    then have "block_pages (q, 2) \<inter> block_pages (q, k) = {}" using al by (elim conjE) (rule bspec)
    then show False by (auto simp: block_pages_def)
  qed
  have m': "m' = \<lparr>mp_pid = p, mp_pages = [q], mp_address = pa q\<rparr>" by (simp add: m'_def q(2,3) a)
  have t': "m_tables s' = clear_table (pa q) L1_SIZE (m_tables s)" "m_buddy s' = b" by (simp_all add: q(4) a)
  have w: "same_words (m_buddy s) x (m_tables s) (m_tables s')" for x
    unfolding same_words_def t'
  proof (intro allI impI)
    fix r k off assume r: "owns (m_buddy s) x r k" "off < 2 ^ k * PAGE_SIZE"
    show "clear_table (pa q) L1_SIZE (m_tables s) (pa r + of_nat off) = m_tables s (pa r + of_nat off)"
      by (rule clear_table_used [OF b(1,2) _ _ _ r(2)])
        (use r(1) fresh [of k] b(3) in \<open>auto simp: owns_def L1_SIZE_def L1_ENTRY_NUM_def PAGE_SIZE_def\<close>)
  qed
  have z: "l1_entry (m_tables s') (pa q) i = 0" if "i < L1_ENTRY_NUM" for i
  proof -
    have "unat (of_nat (4 * i) :: u32) = 4 * i" using that by (intro unat_of_nat_small) (simp add: L1_ENTRY_NUM_def)
    then show ?thesis using that by (simp add: t' l1_entry_def clear_table_def L1_SIZE_def del: of_nat_mult)
  qed
  have T: "tabs (m_tables s') (pa q) = Map.empty" "frames (m_tables s') (pa q) = Map.empty"
    using z by (auto simp: tabs_def frames_def)
  then show "frames (m_tables s') (mp_address m') = Map.empty" by (simp add: m')
  show same: "x \<in> M \<Longrightarrow> tabs (m_tables s') (mp_address x) = tabs (m_tables s) (mp_address x) \<and> frames (m_tables s') (mp_address x) = frames (m_tables s) (mp_address x)" for x
    using same_words_tables(2,4) [OF mmu_okD(2) [OF ok] w] by simp
  have pq: "pnum (pa q) = q" using pnum_pa [OF b(1,2), of 0] by (simp add: PAGE_SIZE_def)
  have "mapping_ok s' m'" using b(2) by (simp add: mapping_ok_def Let_def m' t'(2) T pq owns_def ex_in_conv) blast
  moreover have "mapping_ok s' x" if "x \<in> M" for x
    using mapping_ok_mono [OF mmu_okD(2) [OF ok that] w] b(3) t'(2) by simp
  moreover have "q \<notin> set (mp_pages x)" if "x \<in> M" for x
    using mapping_okD(2) [OF mmu_okD(2) [OF ok that], of q] fresh by blast
  ultimately show "mmu_ok s' (insert m' M)"
    using b(1) mmu_okD(3) [OF ok] unfolding mmu_ok_def by (auto simp: m' t'(2))
  show "mp_pid m' = p" "m_mappings s' = m_mappings s" "m_ttb s' = m_ttb s" "m_current s' = m_current s"
    "used_blocks (m_buddy s) \<subseteq> used_blocks (m_buddy s')"
    using b(3) by (simp_all add: m' q(4))
qed

subsection \<open>The operations of the interface\<close>

text \<open>
  The walk of the tables by the processor, for the short descriptors with 4 KB pages: the physical
  address and the access permissions.
\<close>

definition translate :: "(u32 \<Rightarrow> u32) \<Rightarrow> u32 \<Rightarrow> u32 \<Rightarrow> (u32 \<times> u32) option" where
  "translate t ttb va =
     (let d1 = t (ttb + 4 * GET_L1_INDEX va)
      in if d1 AND 3 \<noteq> FL_PAGE_TABLE then None
         else
           let d2 = t ((0xfffffc00 AND d1) + 4 * GET_L2_INDEX va)
           in if d2 AND SL_SHORT_DESCRIPTOR = 0 then None
              else Some ((d2 AND 0xfffff000) OR (va AND 0xfff), d2 AND AP_FULL_ACCESS))"

text \<open>The physical address a user program of process \<open>p\<close> reaches at \<open>va\<close>.\<close>

definition user_access :: "mmu \<Rightarrow> pid \<Rightarrow> u32 \<Rightarrow> u32 option" where
  "user_access s p va =
     Option.bind (find_mapping p s) (\<lambda>m.
     Option.bind (translate (m_tables s) (mp_address m AND 0xffffc000) va) (\<lambda>(a, ap).
       if ap = AP_FULL_ACCESS then Some a else None))"

definition user_page :: "mmu \<Rightarrow> pid \<Rightarrow> nat \<times> nat \<Rightarrow> nat option" where
  "user_page s p x = Option.bind (find_mapping p s) (\<lambda>m. frames (m_tables s) (mp_address m) x)"

abbreviation indices :: "u32 \<Rightarrow> nat \<times> nat" where
  "indices va \<equiv> (unat (GET_L1_INDEX va), unat (GET_L2_INDEX va))"

lemma find_mapping_in: "find_mapping p s = Some m \<Longrightarrow> m \<in> set (m_mappings s) \<and> mp_pid m = p"
  by (auto simp: find_mapping_def find_Some_iff)

lemma find_mapping_iff:
  assumes "distinct (map mp_pid (m_mappings s))" shows "find_mapping p s = Some m \<longleftrightarrow> m \<in> set (m_mappings s) \<and> mp_pid m = p"
proof
  assume "m \<in> set (m_mappings s) \<and> mp_pid m = p"
  moreover from this obtain m' where "find_mapping p s = Some m'" by (cases "find_mapping p s") (auto simp: find_mapping_def find_None_iff)
  ultimately show "find_mapping p s = Some m" using find_mapping_in [of p s m'] assms by (auto simp: distinct_map inj_on_def)
qed (rule find_mapping_in)

lemma user_access_page:
  assumes inv: "mmu_inv s"
  shows "user_access s p va = map_option (\<lambda>q. pa q OR (va AND 0xfff)) (user_page s p (indices va))"
proof (cases "find_mapping p s")
  case (Some m)
  let ?t = "m_tables s" and ?a = "mp_address m" and ?i = "unat (GET_L1_INDEX va)" and ?j = "unat (GET_L2_INDEX va)"
  have m: "mapping_ok s m" and b: "buddy_inv (m_buddy s)"
    using inv find_mapping_in [OF Some] by (auto simp: mmu_inv_def mmu_ok_def)
  have "4 dvd pnum ?a" using mapping_okD(4) [OF m] used_blocks_bounds(3) [OF b, of "pnum ?a" 2] by (simp add: owns_def)
  then have ttb: "?a AND 0xffffc000 = ?a" using pa_flags(4) mapping_okD(3) [OF m] by metis
  have e1: "?t (?a + 4 * GET_L1_INDEX va) = l1_entry ?t ?a ?i" by (simp add: l1_entry_def)
  have e2: "?t ((0xfffffc00 AND l1_entry ?t ?a ?i) + 4 * GET_L2_INDEX va) = l2_entry ?t ?a ?i ?j" by (simp add: l2_entry_def)
  have three: "(pa q OR 1) AND 3 = 1" for q
  proof -
    have "(pa q OR 1) AND 3 = ((pa q OR 1) AND 0xfff) AND 3" by (simp add: and.assoc)
    then show ?thesis using pa_or(2) [of 1 q] by simp
  qed
  show ?thesis
  proof (cases "tabs ?t ?a ?i")
    case None
    then have "l1_entry ?t ?a ?i = 0" using unat_l1 [of va] by (simp add: tabs_def split: if_splits)
    then show ?thesis
      using Some None ttb e1 by (simp add: user_access_def user_page_def translate_def Let_def FL_PAGE_TABLE_def frames_def)
  next
    case T: (Some q)
    let ?d = "l2_entry ?t ?a ?i ?j"
    have l: "l1_entry ?t ?a ?i = pa q OR 1" using mapping_okD(5) [OF m T] .
    have "user_access s p va = (if user_entry ?d then Some ((?d AND 0xfffff000) OR (va AND 0xfff)) else None)"
      using Some ttb e1 e2 three [of q] unfolding user_access_def translate_def Let_def by (simp add: l user_entry_def FL_PAGE_TABLE_def)
    moreover have "user_page s p (?i, ?j) = (if user_entry ?d then Some (pnum ?d) else None)"
      using Some tabs_lt [OF T] unat_l2 [of va] by (simp add: user_page_def frames_def)
    moreover have "?d AND 0xfffff000 = pa (pnum ?d)" if "user_entry ?d"
    proof -
      have "frames ?t ?a (?i, ?j) = Some (pnum ?d)" using that tabs_lt [OF T] unat_l2 [of va] by (simp add: frames_def)
      then have "?d = pa (pnum ?d) OR 0x32" by (rule mapping_okD(7) [OF m])
      then show ?thesis using pa_or(1) [of "0x32" "pnum ?d"] by simp
    qed
    ultimately show ?thesis by simp
  qed
qed (simp add: user_access_def user_page_def)

lemma mmu_mapping_fetch_inv:
  assumes inv: "mmu_inv s" and f: "mmu_mapping_fetch p s = Some (m, s')"
  shows "mmu_inv s'" "find_mapping p s' = Some m" "user_page s' = user_page s" "used_blocks (m_buddy s) \<subseteq> used_blocks (m_buddy s')"
    "m_ttb s' = m_ttb s" "m_current s' = m_current s" "set (m_mappings s) \<subseteq> set (m_mappings s')"
proof -
  have *: "set (m_mappings s) \<subseteq> set (m_mappings s') \<and> mmu_inv s' \<and> find_mapping p s' = Some m \<and> user_page s' = user_page s \<and> used_blocks (m_buddy s) \<subseteq> used_blocks (m_buddy s') \<and> m_ttb s' = m_ttb s \<and> m_current s' = m_current s"
  proof (cases "find_mapping p s")
    case (Some m')
    then show ?thesis using f inv by (simp add: mmu_mapping_fetch_def)
  next
    case None
    let ?M = "set (m_mappings s)"
    obtain pl1 m0 s1 s2 where c: "mmu_create_pl1 \<lparr>mp_pid = p, mp_pages = [], mp_address = 0\<rparr> s = Some (pl1, m0, s1)"
      "mmu_create_kernel_mappings (m0\<lparr>mp_address := pl1\<rparr>) s1 = Some (m, s2)" "s' = s2\<lparr>m_mappings := m # m_mappings s2\<rparr>"
      using f None by (auto simp: mmu_mapping_fetch_def bind_eq_Some_conv)
    have ok: "mmu_ok s ?M" using inv by (simp add: mmu_inv_def)
    note l = mmu_create_pl1_ok [OF ok c(1)]
    have np: "mp_pid x \<noteq> p" if "x \<in> ?M" for x using None that by (auto simp: find_mapping_def find_None_iff)
    then have ap: "apart ?M (m0\<lparr>mp_address := pl1\<rparr>)" using l(3) by (auto simp: apart_def)
    note h = mmu_create_kernel_mappings_hidden [OF l(1) ap c(2)]
    then have g: "grown ?M (m0\<lparr>mp_address := pl1\<rparr>) s1 m s2" and fr: "frames (m_tables s2) (mp_address m) = Map.empty"
      using l(2) by (auto simp: hidden_def map_le_def domIff fun_eq_iff) (metis option.distinct(1) domIff)
    have mp: "mp_pid m = p" using grownD(3) [OF g] l(3) by simp
    have np_img: "p \<notin> mp_pid ` ?M" using np by auto
    have s2: "m_mappings s2 = m_mappings s" "m_ttb s2 = m_ttb s" "m_current s2 = m_current s" using g l(5-7) by (simp_all add: grown_def)
    have "mmu_inv s'"
      using grownD(1) [OF g] inv np_img mp by (simp add: mmu_inv_def c(3) s2)
    moreover have "find_mapping p s' = Some m" using mp by (simp add: find_mapping_def c(3))
    moreover have "user_page s' q x = user_page s q x" for q x
    proof (cases "q = p")
      case True
      then show ?thesis using None fr mp by (simp add: user_page_def find_mapping_def c(3))
    next
      case False
      then have "find_mapping q s' = find_mapping q s" using mp by (simp add: find_mapping_def c(3) s2)
      moreover have "frames (m_tables s') (mp_address y) = frames (m_tables s) (mp_address y)" if "y \<in> ?M" for y
        using g l(4) [OF that] that by (simp add: grown_def c(3))
      ultimately show ?thesis using find_mapping_in [of q s] by (cases "find_mapping q s") (simp_all add: user_page_def)
    qed
    moreover have "used_blocks (m_buddy s) \<subseteq> used_blocks (m_buddy s')" using grownD(4) [OF g] l(8) by (auto simp: c(3))
    ultimately show ?thesis using s2 by (simp add: c(3) fun_eq_iff subset_insertI)
  qed
  then show "mmu_inv s'" "find_mapping p s' = Some m" "user_page s' = user_page s" "used_blocks (m_buddy s) \<subseteq> used_blocks (m_buddy s')"
    "m_ttb s' = m_ttb s" "m_current s' = m_current s" "set (m_mappings s) \<subseteq> set (m_mappings s')" by simp_all
qed

lemma mmu_set_ttb_inv:
  assumes "mmu_inv s" "mmu_set_ttb p s = Some (old, s')"
  shows "mmu_inv s'" "user_page s' = user_page s" "m_current s' = p" "used_blocks (m_buddy s) \<subseteq> used_blocks (m_buddy s')" "old = m_current s"
    "\<exists>m. find_mapping p s' = Some m \<and> m_ttb s' = mp_address m AND 0xffffc000" "set (m_mappings s) \<subseteq> set (m_mappings s')"
proof -
  obtain m s1 where f: "mmu_mapping_fetch p s = Some (m, s1)" and s': "s' = s1\<lparr>m_ttb := mp_address m AND 0xffffc000, m_current := p\<rparr>" "old = m_current s1"
    using assms(2) by (auto simp: mmu_set_ttb_def bind_eq_Some_conv)
  note i = mmu_mapping_fetch_inv [OF assms(1) f]
  show "mmu_inv s'" using i(1) by (simp add: mmu_inv_def s')
  show "user_page s' = user_page s" using i(3) by (auto simp: user_page_def find_mapping_def s' fun_eq_iff)
  show "m_current s' = p" "used_blocks (m_buddy s) \<subseteq> used_blocks (m_buddy s')" "old = m_current s"
    "\<exists>m. find_mapping p s' = Some m \<and> m_ttb s' = mp_address m AND 0xffffc000" "set (m_mappings s) \<subseteq> set (m_mappings s')"
    using i(2,4,6,7) by (simp_all add: s' find_mapping_def)
qed

lemma mmu_alloc_inv:
  assumes inv: "mmu_inv s" and a: "mmu_alloc p addr sz s = Some (r, s')"
  defines "n \<equiv> unat (GET_L2_INDEX addr + GET_PAGE_SIZE sz)"
  shows "mmu_inv s'" "q \<noteq> p \<Longrightarrow> user_page s' q = user_page s q" "r = (if L2_ENTRY_NUM < n then - 1 else 0)"
    "L2_ENTRY_NUM < n \<Longrightarrow> user_page s' = user_page s"
    "n \<le> L2_ENTRY_NUM \<Longrightarrow> if i = unat (GET_L1_INDEX addr) \<and> unat (GET_L2_INDEX addr) \<le> j \<and> j < n
      then \<exists>f. user_page s' p (i, j) = Some f \<and> (\<forall>l. (f, l) \<notin> used_blocks (m_buddy s))
      else user_page s' p (i, j) = user_page s p (i, j)"
    "m_ttb s' = m_ttb s" "m_current s' = m_current s"
proof -
  obtain m s1 m' s2 where f: "mmu_mapping_fetch p s = Some (m, s1)" and c: "mmu_create_mapping m addr sz False s1 = Some (r, m', s2)"
    and s': "s' = put_mapping m' s2"
    using a by (auto simp: mmu_alloc_def bind_eq_Some_conv)
  note i1 = mmu_mapping_fetch_inv [OF inv f]
  let ?M = "{x \<in> set (m_mappings s1). mp_pid x \<noteq> p}"
  have d: "distinct (map mp_pid (m_mappings s1))" using i1(1) by (simp add: mmu_inv_def)
  have m: "m \<in> set (m_mappings s1)" "mp_pid m = p" using find_mapping_in [OF i1(2)] by simp_all
  have only: "x = m" if "x \<in> set (m_mappings s1)" "mp_pid x = p" for x 
    using find_mapping_iff [OF d, of p x] find_mapping_iff [OF d, of p m] that m by simp
  have M: "insert m ?M = set (m_mappings s1)"
  proof (rule set_eqI)
    show "x \<in> insert m ?M \<longleftrightarrow> x \<in> set (m_mappings s1)" for x using m only [of x] by (cases "mp_pid x = p") blast+
  qed
  have ok: "mmu_ok s1 (insert m ?M)" using i1(1) M by (simp add: mmu_inv_def)
  have ap: "apart ?M m" using m(2) by (auto simp: apart_def)
  note cm = mmu_create_mapping_grown [OF ok ap c, folded n_def]
  then have g: "grown ?M m s1 m' s2" by simp
  have m': "mp_pid m' = p" "m_mappings s2 = m_mappings s1" using g m(2) by (simp_all add: grown_def)
  have set': "set (m_mappings s') = insert m' ?M"
  proof -
    have "set (m_mappings s') = (\<lambda>x. if mp_pid x = p then m' else x) ` insert m ?M" by (simp add: s' put_mapping_def m' M)
    also have "\<dots> = insert m' ((\<lambda>x. if mp_pid x = p then m' else x) ` ?M)" using m(2) by (simp only: image_insert simp_thms if_True)
    also have "(\<lambda>x. if mp_pid x = p then m' else x) ` ?M = (\<lambda>x. x) ` ?M" by (rule image_cong) simp_all
    also have "(\<lambda>x. x) ` ?M = ?M" by (rule image_ident)
    finally show ?thesis .
  qed
  have pids: "map mp_pid (m_mappings s') = map mp_pid (m_mappings s1)" by (auto simp: s' put_mapping_def m')
  have "mmu_ok s' (insert m' ?M)" using grownD(1) [OF g] by (simp add: s' put_mapping_def)
  then show inv': "mmu_inv s'" using d by (simp add: mmu_inv_def set' pids)
  have t': "m_tables s' = m_tables s2" by (simp add: s' put_mapping_def)
  have d': "distinct (map mp_pid (m_mappings s'))" using d by (simp add: pids)
  have fp: "find_mapping p s' = Some m'" using find_mapping_iff [of s' p m'] d m'(1) by (simp add: pids set')
  have fo: "find_mapping q s' = find_mapping q s1" if "q \<noteq> p" for q
  proof -
    have "find_mapping q s' = Some x \<longleftrightarrow> find_mapping q s1 = Some x" for x
      unfolding find_mapping_iff [OF d'] find_mapping_iff [OF d] set' using m'(1) that by auto
    then show ?thesis by (rule option_eqI)
  qed
  have up: "user_page s' p = frames (m_tables s2) (mp_address m')" "user_page s p = frames (m_tables s1) (mp_address m)"
    using fp i1(2) by (simp_all add: user_page_def fun_eq_iff t' i1(3) [symmetric])
  show uo: "user_page s' q = user_page s q" if "q \<noteq> p" for q
  proof
    fix x
    show "user_page s' q x = user_page s q x"
      unfolding i1(3) [symmetric] using fo [OF that] find_mapping_in [of q s1] g that
      by (cases "find_mapping q s1") (auto simp: user_page_def t' grown_def)
  qed
  show "r = (if L2_ENTRY_NUM < n then - 1 else 0)" using cm by (auto split: if_splits)
  show "m_ttb s' = m_ttb s" "m_current s' = m_current s" using g i1(5,6) by (simp_all add: s' put_mapping_def grown_def)
  show "user_page s' = user_page s" if "L2_ENTRY_NUM < n"
  proof
    show "user_page s' q = user_page s q" for q using uo [of q] up cm that by (cases "q = p") simp_all
  qed
  show "if i = unat (GET_L1_INDEX addr) \<and> unat (GET_L2_INDEX addr) \<le> j \<and> j < n
      then \<exists>f. user_page s' p (i, j) = Some f \<and> (\<forall>l. (f, l) \<notin> used_blocks (m_buddy s))
      else user_page s' p (i, j) = user_page s p (i, j)" if n: "n \<le> L2_ENTRY_NUM"
  proof -
    have fl: "filled (unat (GET_L1_INDEX addr)) (unat (GET_L2_INDEX addr)) (n - unat (GET_L2_INDEX addr)) m s1 m' s2"
      using cm n by (simp add: n_def)
    show ?thesis
    proof (cases "i = unat (GET_L1_INDEX addr) \<and> unat (GET_L2_INDEX addr) \<le> j \<and> j < n")
      case True
      then show ?thesis using filledD(1) [OF fl, of j] i1(4) unfolding up by auto
    next
      case False
      then have "i \<noteq> unat (GET_L1_INDEX addr) \<or> j < unat (GET_L2_INDEX addr) \<or> unat (GET_L2_INDEX addr) + (n - unat (GET_L2_INDEX addr)) \<le> j"
        by linarith
      then have "user_page s' p (i, j) = user_page s p (i, j)" using filledD(2) [OF fl, of i j] unfolding up by simp
      then show ?thesis by (subst if_not_P [OF False])
    qed
  qed
qed

lemma release_pages_used:
  "buddy_inv b \<Longrightarrow> distinct ps \<Longrightarrow> \<forall>p \<in> set ps. \<exists>k. (p, k) \<in> used_blocks b \<Longrightarrow>
   \<exists>b'. release_pages ps b = Some b' \<and> buddy_inv b' \<and> used_blocks b' = {(p, k). (p, k) \<in> used_blocks b \<and> p \<notin> set ps}"
proof (induction ps arbitrary: b)
  case (Cons p ps)
  then obtain k where k: "(p, k) \<in> used_blocks b" by auto
  obtain b1 where b1: "buddy_free b p = Some b1" "buddy_inv b1" "used_blocks b1 = used_blocks b - {(p, k)}"
    using pa.free_used [OF Cons.prems(1) k] by blast
  have "used_blocks b1 = {(q, l). (q, l) \<in> used_blocks b \<and> q \<noteq> p}"
    using b1(3) used_blocks_unique [OF k] by auto
  moreover from this have "\<exists>b'. release_pages ps b1 = Some b' \<and> buddy_inv b' \<and> used_blocks b' = {(p, k). (p, k) \<in> used_blocks b1 \<and> p \<notin> set ps}"
    using Cons.prems by (intro Cons.IH [OF b1(2)]) auto
  ultimately show ?case using b1(1) by auto
qed auto

lemma mapping_ok_used:
  assumes "mapping_ok s x" "\<forall>p \<in> set (mp_pages x). \<forall>k. (p, k) \<in> used_blocks (m_buddy s) \<longleftrightarrow> (p, k) \<in> used_blocks b"
  shows "mapping_ok (s\<lparr>m_buddy := b\<rparr>) x"
proof -
  have "owns b x p k = owns (m_buddy s) x p k" for p k using assms(2) by (auto simp: owns_def)
  then show ?thesis using assms unfolding mapping_ok_def Let_def by simp
qed

lemma mmu_destroy_inv:
  assumes inv: "mmu_inv s" and p: "find_mapping p s \<noteq> None" "mmu_destroy p s = Some (r, s')"
  shows "mmu_inv s'" "r = 0" "user_page s' p = Map.empty" "q \<noteq> p \<Longrightarrow> user_page s' q = user_page s q"
    "find_mapping p s' = None"
proof -
  obtain m old s1 b where m: "find_mapping p s = Some m" and t: "mmu_set_ttb 0 s = Some (old, s1)"
    and rel: "release_pages (mp_pages m) (m_buddy s1) = Some b" and r: "r = 0"
    and s': "s' = s1\<lparr>m_buddy := b, m_mappings := remove1 m (m_mappings s1)\<rparr>"
    using p by (auto simp: mmu_destroy_def bind_eq_Some_conv)
  note i = mmu_set_ttb_inv [OF inv t]
  have d: "distinct (map mp_pid (m_mappings s1))" and ok: "mmu_ok s1 (set (m_mappings s1))" using i(1) by (simp_all add: mmu_inv_def)
  have m1: "m \<in> set (m_mappings s1)" "mp_pid m = p" using i(7) find_mapping_in [OF m] by auto
  have mo: "mapping_ok s1 m" using mmu_okD(2) [OF ok m1(1)] .
  have b: "buddy_inv b" "used_blocks b = {(p, k). (p, k) \<in> used_blocks (m_buddy s1) \<and> p \<notin> set (mp_pages m)}"
    using release_pages_used [OF mmu_okD(1) [OF ok] mapping_okD(1) [OF mo]] mapping_okD(2) [OF mo] rel by auto
  have ds: "distinct (m_mappings s1)" using d by (simp add: distinct_map)
  then have set': "set (m_mappings s') = set (m_mappings s1) - {m}" by (simp add: s')
  have d': "distinct (map mp_pid (m_mappings s'))" using d ds by (simp add: s' distinct_map inj_on_diff)
  have ok': "mapping_ok s' x" if "x \<in> set (m_mappings s')" for x
  proof -
    have x: "x \<in> set (m_mappings s1)" "x \<noteq> m" using that set' by auto
    then have "set (mp_pages x) \<inter> set (mp_pages m) = {}" using mmu_okD(3) [OF ok] m1(1) by blast
    then have "mapping_ok (s1\<lparr>m_buddy := b\<rparr>) x" using b(2) by (intro mapping_ok_used mmu_okD(2) [OF ok x(1)]) auto
    then show ?thesis by (simp add: s' mapping_ok_def)
  qed
  have "m_buddy s' = b" by (simp add: s')
  then show "mmu_inv s'" using ok' b(1) mmu_okD(3) [OF ok] set' d' unfolding mmu_inv_def mmu_ok_def by auto
  show "r = 0" by (fact r)
  have fm: "find_mapping q s' = (if q = p then None else find_mapping q s1)" for q
  proof (rule option_eqI)
    show "find_mapping q s' = Some x \<longleftrightarrow> (if q = p then None else find_mapping q s1) = Some x" for x
      using find_mapping_iff [OF d', of q x] find_mapping_iff [OF d, of q x] find_mapping_iff [OF d, of p x] find_mapping_iff [OF d, of p m] m1 set'
      by (cases "q = p") auto
  qed
  then show "find_mapping p s' = None" by simp
  then show "user_page s' p = Map.empty" by (simp add: user_page_def fun_eq_iff)
  have "m_tables s' = m_tables s1" by (simp add: s')
  then show "user_page s' q = user_page s q" if "q \<noteq> p"
    using fm [of q] that unfolding i(2) [symmetric] by (intro ext) (simp add: user_page_def)
qed

subsection \<open>Memory for the tables\<close>

text \<open>There are at least \<open>n\<close> pages left.\<close>

definition room :: "buddy \<Rightarrow> nat \<Rightarrow> bool" where
  "room b n \<longleftrightarrow> buddy_inv b \<and> card (\<Union> (block_pages ` used_blocks b)) + n \<le> PAGE_NUM"

lemma room_le: "room b n \<Longrightarrow> k \<le> n \<Longrightarrow> room b k"
  by (simp add: room_def)

lemma used_pages_bounded: "buddy_inv b \<Longrightarrow> \<Union> (block_pages ` used_blocks b) \<subseteq> {..<PAGE_NUM}"
  using used_blocks_bounds(4) by (fastforce simp: block_pages_def)

lemma room_alloc:
  assumes r: "room b (k + 1)" and n: "n \<le> PAGE_SIZE"
  obtains p b' where "buddy_alloc b n = Some (p, b')" "room b' k"
proof -
  let ?U = "\<Union> (block_pages ` used_blocks b)"
  have inv: "buddy_inv b" using r by (simp add: room_def)
  have "\<exists>i < PAGE_NUM. i \<notin> ?U"
  proof (rule ccontr)
    assume "\<not> (\<exists>i < PAGE_NUM. i \<notin> ?U)"
    then have "?U = {..<PAGE_NUM}" using used_pages_bounded [OF inv] by auto
    then show False using r by (simp add: room_def)
  qed
  then obtain i where i: "i < PAGE_NUM" "i \<notin> ?U" by blast
  obtain B FR US where B: "repr b B FR US" "dom B = FR \<union> US"
    "used_blocks b = {(i, k). i \<in> US \<and> B i = Some k}" "free_blocks b = {(i, k). i \<in> FR \<and> B i = Some k}"
    using inv by (rule buddy_invE)
  obtain q j where q: "B q = Some j" "q \<le> i" "i < q + 2 ^ j" using reprD(1) [OF B(1)] i(1) by (rule tiling_coverE)
  have "q \<notin> US" using i(2) B(3) q by (auto simp: block_pages_def)
  then have "(q, j) \<in> free_blocks b" using B(2,4) q(1) by auto
  moreover have f: "n \<le> 2 ^ j * PAGE_SIZE" using n by (rule order_trans) simp
  ultimately obtain p b' where a: "buddy_alloc b n = Some (p, b')" by (rule buddy_alloc_Some [OF inv])
  have "fit_order n = 0" using n fits_iff_fit_order_le [of n 0] by simp
  note al = pa.alloc_used [OF inv a, unfolded this]
  have "\<Union> (block_pages ` used_blocks b') = insert p ?U" using al by (auto simp: block_pages_def)
  moreover have "finite ?U" using used_pages_bounded [OF inv] finite_subset by blast
  ultimately have "card (\<Union> (block_pages ` used_blocks b')) \<le> Suc (card ?U)" by (simp add: card_insert_if)
  then have "room b' k" using r al by (simp add: room_def)
  then show thesis using a that by blast
qed

lemma mmu_create_and_fill_pl2_returns:
  assumes "room (m_buddy s) (k + 1)"
  shows "\<exists>pl2 m' s'. mmu_create_and_fill_pl2 m i s = Some (pl2, m', s') \<and> room (m_buddy s') k"
proof -
  have "L2_SIZE \<le> PAGE_SIZE" by (simp add: L2_SIZE_def L2_ENTRY_NUM_def PAGE_SIZE_def)
  from room_alloc [OF assms this] obtain p b' where a: "buddy_alloc (m_buddy s) L2_SIZE = Some (p, b')" "room b' k" .
  show ?thesis
  proof (cases "m_tables s (mp_address m + 4 * i) AND FL_PAGE_TABLE = 0")
    case True
    then show ?thesis using a by (simp add: mmu_create_and_fill_pl2_def mmu_create_pl2_def Let_def set_word_def)
  next
    case False
    then show ?thesis using room_le [OF assms, of k] by (simp add: mmu_create_and_fill_pl2_def Let_def)
  qed
qed

lemma mmu_create_page_returns:
  assumes "room (m_buddy s) (k + 1)"
  shows "\<exists>a m' s'. mmu_create_page m s = Some (a, m', s') \<and> room (m_buddy s') k"
proof -
  from room_alloc [OF assms order_refl] obtain p b' where "buddy_alloc (m_buddy s) PAGE_SIZE = Some (p, b')" "room b' k" .
  then show ?thesis by (simp add: mmu_create_page_def)
qed

lemma fill_pages_returns: "room (m_buddy s) n \<Longrightarrow> \<exists>m' s'. fill_pages pl2 ap j n m s = Some (m', s')"
proof (induction n arbitrary: j m s)
  case (Suc n)
  then obtain a m1 s1 where "mmu_create_page m s = Some (a, m1, s1)" "room (m_buddy s1) n"
    using mmu_create_page_returns [of s n m] by auto
  then show ?case using Suc.IH by (simp add: set_word_def)
qed simp

lemma m_buddy_fill_straight [simp]: "m_buddy (fill_straight pl2 a j k s) = m_buddy s"
  by (induction k arbitrary: a j s) (simp_all add: set_word_def)

lemma mmu_create_straight_mapping_returns:
  assumes "room (m_buddy s) (k + 1)"
  shows "\<exists>r m' s'. mmu_create_straight_mapping m addr sz s = Some (r, m', s') \<and> room (m_buddy s') k"
proof -
  obtain pl2 m' s' where "mmu_create_and_fill_pl2 m (GET_L1_INDEX addr) s = Some (pl2, m', s')" "room (m_buddy s') k"
    using mmu_create_and_fill_pl2_returns [OF assms] by blast
  then show ?thesis using room_le [OF assms, of k] by (simp add: mmu_create_straight_mapping_def Let_def)
qed

lemma map_kernel_returns: "room (m_buddy s) (k + n) \<Longrightarrow> \<exists>m' s'. map_kernel i n m s = Some (m', s') \<and> room (m_buddy s') k"
proof (induction n arbitrary: i m s)
  case (Suc n)
  then obtain r m1 s1 where "mmu_create_straight_mapping m (0x60000000 + 0x100000 * of_nat i) 0x100000 s = Some (r, m1, s1)" "room (m_buddy s1) (k + n)"
    using mmu_create_straight_mapping_returns [of s "k + n" m "0x60000000 + 0x100000 * of_nat i" "0x100000"] by auto
  then show ?case using Suc.IH by simp
qed simp

lemma mmu_create_kernel_mappings_returns:
  assumes "room (m_buddy s) (k + 148)"
  shows "\<exists>m' s'. mmu_create_kernel_mappings m s = Some (m', s') \<and> room (m_buddy s') k"
proof -
  have "room (m_buddy s) (k + 146 + 1 + 1)" using assms by (simp add: add.commute)
  then obtain pl2 m1 s1 where 1: "mmu_create_and_fill_pl2 m (GET_L1_INDEX VIRT_VECTORS_ADDR) s = Some (pl2, m1, s1)" "room (m_buddy s1) (k + 146 + 1)"
    using mmu_create_and_fill_pl2_returns [of s "k + 146 + 1" m "GET_L1_INDEX VIRT_VECTORS_ADDR"] by auto
  obtain a m2 s2 where 2: "mmu_create_page m1 s1 = Some (a, m2, s2)" "room (m_buddy s2) (k + 146)"
    using mmu_create_page_returns [OF 1(2)] by blast
  define s3 where "s3 = set_word (pl2 + 4 * GET_L2_INDEX VIRT_VECTORS_ADDR) (a OR SL_SHORT_DESCRIPTOR OR AP_PRIVILEGED_ACCESS) s2"
  have v: "mmu_create_vectors_mapping m s = Some (m2, s3)" using 1(1) 2(1) by (simp add: mmu_create_vectors_mapping_def Let_def s3_def)
  have "room (m_buddy s3) (k + 2 + 0x90)" using 2(2) by (simp add: s3_def set_word_def add.commute)
  then obtain m4 s4 where 4: "map_kernel 0 0x90 m2 s3 = Some (m4, s4)" "room (m_buddy s4) (k + 1 + 1)"
    using map_kernel_returns [of s3 "k + 2" "0x90" 0 m2] by auto
  obtain r5 m5 s5 where 5: "mmu_create_straight_mapping m4 0x10000000 0x20000 s4 = Some (r5, m5, s5)" "room (m_buddy s5) (k + 1)"
    using mmu_create_straight_mapping_returns [OF 4(2)] by blast
  obtain r6 m6 s6 where 6: "mmu_create_straight_mapping m5 0x1e000000 0x2000 s5 = Some (r6, m6, s6)" "room (m_buddy s6) k"
    using mmu_create_straight_mapping_returns [OF 5(2)] by blast
  show ?thesis using v 4(1) 5(1) 6 by (simp add: mmu_create_kernel_mappings_def)
qed

subsection \<open>Properties\<close>

text \<open>
  The states of the address spaces: the operations of the interface in any order, and whatever the rest
  of the kernel does with pages that are not theirs.
\<close>

inductive mmu_reachable :: "mmu \<Rightarrow> bool" where
  init: "buddy_inv b \<Longrightarrow> mmu_init b t = Some s \<Longrightarrow> mmu_reachable s"
| alloc: "mmu_reachable s \<Longrightarrow> mmu_alloc p addr sz s = Some (r, s') \<Longrightarrow> mmu_reachable s'"
| destroy: "mmu_reachable s \<Longrightarrow> find_mapping p s \<noteq> None \<Longrightarrow> mmu_destroy p s = Some (r, s') \<Longrightarrow> mmu_reachable s'"
| set_ttb: "mmu_reachable s \<Longrightarrow> mmu_set_ttb p s = Some (old, s') \<Longrightarrow> mmu_reachable s'"
| other: "mmu_reachable s \<Longrightarrow> buddy_inv b \<Longrightarrow>
    \<forall>m \<in> set (m_mappings s). \<forall>p \<in> set (mp_pages m). \<forall>k. (p, k) \<in> used_blocks (m_buddy s) \<longleftrightarrow> (p, k) \<in> used_blocks b \<Longrightarrow>
    mmu_reachable (s\<lparr>m_buddy := b\<rparr>)"

lemma mmu_start_inv: "buddy_inv b \<Longrightarrow> mmu_inv \<lparr>m_buddy = b, m_tables = t, m_mappings = [], m_ttb = 0, m_current = 0\<rparr>"
  by (simp add: mmu_inv_def mmu_ok_def)

lemma mmu_reachable_inv: "mmu_reachable s \<Longrightarrow> mmu_inv s"
proof (induction rule: mmu_reachable.induct)
  case (init b t s)
  then show ?case using mmu_set_ttb_inv(1) [OF mmu_start_inv [OF init(1)]] by (auto simp: mmu_init_def)
next
  case (other s b)
  then show ?case using mapping_ok_used [of s _ b] by (auto simp: mmu_inv_def mmu_ok_def)
qed (use mmu_alloc_inv(1) mmu_destroy_inv(1) mmu_set_ttb_inv(1) in blast)+

text \<open>
  C13: Address spaces are separate.  In every state of the tables, when user programs of two processes
  reach addresses in the same physical page, it is the same process at the same page of its address
  space, and this page does not belong to a translation table of any process.
\<close>

theorem user_pages_private:
  assumes "mmu_reachable s" "user_access s p va = Some a" "user_access s q vb = Some b" "pnum a = pnum b"
  shows "p = q \<and> GET_L1_INDEX va = GET_L1_INDEX vb \<and> GET_L2_INDEX va = GET_L2_INDEX vb \<and>
    (\<forall>m \<in> set (m_mappings s). pnum a \<notin> ran (tabs (m_tables s) (mp_address m)) \<and> pnum a \<notin> block_pages (pnum (mp_address m), 2))"
proof -
  have inv: "mmu_inv s" using assms(1) by (rule mmu_reachable_inv)
  then have b: "buddy_inv (m_buddy s)" and ok: "mmu_ok s (set (m_mappings s))" by (simp_all add: mmu_inv_def mmu_ok_def)
  have page: "\<exists>m f. find_mapping p' s = Some m \<and> m \<in> set (m_mappings s) \<and> frames (m_tables s) (mp_address m) (indices v) = Some f \<and> pnum x = f \<and> owns (m_buddy s) m f 0"
    if u: "user_access s p' v = Some x" for p' v x
  proof -
    obtain f where f: "user_page s p' (indices v) = Some f" "x = pa f OR (v AND 0xfff)" using u user_access_page [OF inv, of p' v] by auto
    then obtain m where m: "find_mapping p' s = Some m" "frames (m_tables s) (mp_address m) (indices v) = Some f" by (auto simp: user_page_def bind_eq_Some_conv)
    have mo: "m \<in> set (m_mappings s)" using find_mapping_in [OF m(1)] by simp
    have o: "owns (m_buddy s) m f 0" using mapping_okD(8) [OF mmu_okD(2) [OF ok mo] m(2)] .
    have "unat (v AND 0xfff) < 2 ^ 12" using word_and_le1 [of v "0xfff"] by (simp add: word_le_nat_alt and.commute)
    then have "pnum x = f" using pnum_or [OF b, of f 0 "unat (v AND 0xfff)"] o f(2) by (simp add: owns_def)
    then show ?thesis using m mo o by blast
  qed
  obtain m f where m: "find_mapping p s = Some m" "m \<in> set (m_mappings s)" "frames (m_tables s) (mp_address m) (indices va) = Some f" "pnum a = f" "owns (m_buddy s) m f 0"
    using page [OF assms(2)] by blast
  obtain m' where m': "find_mapping q s = Some m'" "m' \<in> set (m_mappings s)" "frames (m_tables s) (mp_address m') (indices vb) = Some f" "owns (m_buddy s) m' f 0"
    using page [OF assms(3)] m(4) assms(4) by auto
  have e: "m' = m" using mmu_okD(3) [OF ok m(2) m'(2)] m(5) m'(4) by (auto simp: owns_def)
  then have "p = q" using find_mapping_in [OF m(1)] find_mapping_in [OF m'(1)] by simp
  moreover have "indices va = indices vb"
    using inj_onD [OF mapping_okD(10) [OF mmu_okD(2) [OF ok m(2)]], of "indices va" "indices vb"] m(3) m'(3) e by auto
  moreover have "f \<notin> ran (tabs (m_tables s) (mp_address x)) \<and> f \<notin> block_pages (pnum (mp_address x), 2)" if x: "x \<in> set (m_mappings s)" for x
  proof
    note xo = mmu_okD(2) [OF ok x]
    show "f \<notin> ran (tabs (m_tables s) (mp_address x))"
    proof
      assume "f \<in> ran (tabs (m_tables s) (mp_address x))"
      then obtain i where i: "tabs (m_tables s) (mp_address x) i = Some f" by (auto simp: ran_def)
      then have "x = m" using mapping_okD(6) [OF xo i] mmu_okD(3) [OF ok x m(2)] m(5) by (auto simp: owns_def)
      then show False using mapping_okD(11) [OF xo] i m(3) by (auto simp: ran_def)
    qed
    show "f \<notin> block_pages (pnum (mp_address x), 2)"
    proof
      assume "f \<in> block_pages (pnum (mp_address x), 2)"
      moreover have "(pnum (mp_address x), 2) \<in> used_blocks (m_buddy s)" "(f, 0) \<in> used_blocks (m_buddy s)"
        using mapping_okD(4) [OF xo] m(5) by (auto simp: owns_def)
      ultimately show False
        using used_blocks_disjoint [OF b, of f 0 "pnum (mp_address x)" 2] used_blocks_unique [of f 0 "m_buddy s" 2] by (auto simp: block_pages_def)
    qed
  qed
  ultimately show ?thesis using m(4) by (simp add: word_unat_eq_iff)
qed

text \<open>
  C14: Mapping pages.  \<^verbatim>\<open>mmu_alloc\<close> of a range that crosses the end of a 1 MB section is refused
  and changes no address space.  Otherwise each page of the range in the address space of the process
  leads to a page of memory of its own that nobody used before, with the offset kept; the rest of this
  and all other address spaces stay as they are, and the tables stay well formed.
\<close>

theorem mmu_alloc_correct:
  assumes "mmu_inv s" "mmu_alloc p addr sz s = Some (r, s')"
  shows "mmu_inv s' \<and> (\<forall>q va. q \<noteq> p \<longrightarrow> user_access s' q va = user_access s q va) \<and>
    (if L2_ENTRY_NUM < unat (GET_L2_INDEX addr + GET_PAGE_SIZE sz) then r = - 1 \<and> (\<forall>va. user_access s' p va = user_access s p va)
     else r = 0 \<and> (\<forall>va.
       if GET_L1_INDEX va = GET_L1_INDEX addr \<and> GET_L2_INDEX addr \<le> GET_L2_INDEX va \<and> GET_L2_INDEX va < GET_L2_INDEX addr + GET_PAGE_SIZE sz
       then \<exists>f. user_access s' p va = Some (pa f OR (va AND 0xfff)) \<and> (\<forall>k. (f, k) \<notin> used_blocks (m_buddy s))
       else user_access s' p va = user_access s p va))"
proof -
  let ?n = "unat (GET_L2_INDEX addr + GET_PAGE_SIZE sz)"
  note a = mmu_alloc_inv [OF assms]
  note u = user_access_page [OF a(1)] user_access_page [OF assms(1)]
  have "if GET_L1_INDEX va = GET_L1_INDEX addr \<and> GET_L2_INDEX addr \<le> GET_L2_INDEX va \<and> GET_L2_INDEX va < GET_L2_INDEX addr + GET_PAGE_SIZE sz
       then \<exists>f. user_access s' p va = Some (pa f OR (va AND 0xfff)) \<and> (\<forall>k. (f, k) \<notin> used_blocks (m_buddy s))
       else user_access s' p va = user_access s p va" if n: "?n \<le> L2_ENTRY_NUM" for va
    using a(5) [OF n, of "unat (GET_L1_INDEX va)" "unat (GET_L2_INDEX va)"] unfolding u
    by (auto simp: word_unat_eq_iff word_le_nat_alt word_less_nat_alt split: if_splits)
  moreover have "user_access s' q va = user_access s q va" if "q \<noteq> p" for q va unfolding u using a(2) [OF that] by simp
  moreover have "user_access s' p va = user_access s p va" if "L2_ENTRY_NUM < ?n" for va unfolding u using a(4) [OF that] by simp
  ultimately show ?thesis using a(1,3) by (simp add: not_less)
qed

lemma mmu_init_example: "\<exists>s. mmu_init buddy_init t = Some s \<and> mmu_reachable s \<and> room (m_buddy s) 1000 \<and> find_mapping 0 s \<noteq> None"
proof -
  let ?s = "\<lparr>m_buddy = buddy_init, m_tables = t, m_mappings = [], m_ttb = 0, m_current = 0\<rparr>"
  have "(0, PAGE_MAX_ORDER) \<in> free_blocks buddy_init" by (simp add: buddy_init_free PAGE_NUM_def)
  moreover have "L1_SIZE \<le> 2 ^ PAGE_MAX_ORDER * PAGE_SIZE" by (simp add: PAGE_SIZE_def PAGE_MAX_ORDER_def L1_SIZE_def L1_ENTRY_NUM_def)
  ultimately obtain p b where b: "buddy_alloc buddy_init L1_SIZE = Some (p, b)" "buddy_inv b" "used_blocks b = insert (p, fit_order L1_SIZE) (used_blocks buddy_init)"
    by (rule buddy_alloc_Some [OF buddy_init_inv])
  then have "room b (1000 + 148)" by (simp add: room_def buddy_init_used fit_orders block_pages_def PAGE_NUM_def)
  let ?s1 = "?s\<lparr>m_buddy := b, m_tables := clear_table (page_address b p) L1_SIZE t\<rparr>"
  let ?m = "\<lparr>mp_pid = 0, mp_pages = [p], mp_address = page_address b p\<rparr>"
  obtain m s2 where k: "mmu_create_kernel_mappings ?m ?s1 = Some (m, s2)" "room (m_buddy s2) 1000"
    using mmu_create_kernel_mappings_returns [of ?s1 1000 ?m] \<open>room b (1000 + 148)\<close> by auto
  have f: "mmu_mapping_fetch 0 ?s = Some (m, s2\<lparr>m_mappings := m # m_mappings s2\<rparr>)"
    using b(1) k(1) by (simp add: mmu_mapping_fetch_def find_mapping_def mmu_create_pl1_def Let_def add_page_def)
  have mp: "mp_pid m = 0" using find_mapping_in [OF mmu_mapping_fetch_inv(2) [OF mmu_start_inv [OF buddy_init_inv] f]] by simp
  obtain s where s: "mmu_init buddy_init t = Some s" "m_buddy s = m_buddy s2" "m_mappings s = m # m_mappings s2"
    using f by (simp add: mmu_init_def mmu_set_ttb_def)
  have "mmu_reachable s" by (rule mmu_reachable.init [OF buddy_init_inv s(1)])
  moreover have "find_mapping 0 s \<noteq> None" using s(3) mp by (simp add: find_mapping_def)
  ultimately show ?thesis using s(1,2) k(2) by auto
qed

lemma mmu_alloc_example: "\<exists>s s'. mmu_reachable s \<and> mmu_alloc 0 0x10000 0x2000 s = Some (0, s')"
proof -
  obtain s where s: "mmu_reachable s" "room (m_buddy s) 1000" "find_mapping 0 s \<noteq> None" using mmu_init_example by blast
  then obtain m where m: "find_mapping 0 s = Some m" by blast
  have i: "GET_L2_INDEX 0x10000 = 0x10" "GET_PAGE_SIZE 0x2000 = 2" by (simp_all add: GET_L2_INDEX_def GET_PAGE_SIZE_def PAGE_SIZE_def)
  have "room (m_buddy s) (999 + 1)" using s(2) by simp
  then obtain pl2 m1 s1 where c: "mmu_create_and_fill_pl2 m (GET_L1_INDEX 0x10000) s = Some (pl2, m1, s1)" "room (m_buddy s1) 999"
    using mmu_create_and_fill_pl2_returns [of s 999] by blast
  then obtain m2 s2 where "fill_pages pl2 AP_FULL_ACCESS 0x10 2 m1 s1 = Some (m2, s2)"
    using fill_pages_returns [OF room_le [OF c(2), of 2], of pl2 AP_FULL_ACCESS "0x10" m1] by auto
  then have "mmu_alloc 0 0x10000 0x2000 s = Some (0, put_mapping m2 s2)"
    using m c(1) by (simp add: mmu_alloc_def mmu_mapping_fetch_def mmu_create_mapping_def Let_def i L2_ENTRY_NUM_def)
  then show ?thesis using s(1) by blast
qed

theorem mmu_alloc_correct_witness:
  "\<exists>s s' f. mmu_alloc 0 0x10000 0x2000 s = Some (0, s') \<and> mmu_inv s' \<and> user_access s' 0 0x11234 = Some (pa f OR 0x234)"
proof -
  obtain s s' where s: "mmu_reachable s" "mmu_alloc 0 0x10000 0x2000 s = Some (0, s')" using mmu_alloc_example by blast
  have i: "GET_L2_INDEX 0x10000 = 0x10" "GET_PAGE_SIZE 0x2000 = 2" "GET_L2_INDEX 0x11234 = 0x11" "GET_L1_INDEX 0x10000 = 0" "GET_L1_INDEX 0x11234 = 0"
    by (simp_all add: GET_L2_INDEX_def GET_L1_INDEX_def GET_PAGE_SIZE_def PAGE_SIZE_def)
  have "\<exists>f. user_access s' 0 0x11234 = Some (pa f OR 0x234)" "mmu_inv s'"
    using mmu_alloc_correct [OF mmu_reachable_inv [OF s(1)] s(2)] by (auto simp: i L2_ENTRY_NUM_def dest!: spec [of _ "0x11234 :: u32"])
  then show ?thesis using s(2) by blast
qed

theorem user_pages_private_witness:
  "\<exists>s a b. mmu_reachable s \<and> user_access s 0 0x10000 = Some a \<and> user_access s 0 0x11000 = Some b \<and> pnum a \<noteq> pnum b"
proof -
  obtain s s' where s: "mmu_reachable s" "mmu_alloc 0 0x10000 0x2000 s = Some (0, s')" using mmu_alloc_example by blast
  have r: "mmu_reachable s'" using s by (rule mmu_reachable.alloc)
  have i: "GET_L2_INDEX 0x10000 = 0x10" "GET_PAGE_SIZE 0x2000 = 2" "GET_L2_INDEX 0x11000 = 0x11" "GET_L1_INDEX 0x10000 = 0" "GET_L1_INDEX 0x11000 = 0"
    by (simp_all add: GET_L2_INDEX_def GET_L1_INDEX_def GET_PAGE_SIZE_def PAGE_SIZE_def)
  note al = mmu_alloc_inv(5) [OF mmu_reachable_inv [OF s(1)] s(2), of 0]
  obtain f g where "user_page s' 0 (0, 0x10) = Some f" "user_page s' 0 (0, 0x11) = Some g"
    using al [of "0x10"] al [of "0x11"] by (auto simp: i L2_ENTRY_NUM_def)
  then obtain a b where ab: "user_access s' 0 0x10000 = Some a" "user_access s' 0 0x11000 = Some b"
    using user_access_page [OF mmu_reachable_inv [OF r]] by (simp add: i)
  then have "pnum a \<noteq> pnum b" using user_pages_private [OF r ab] by (auto simp: i)
  then show ?thesis using r ab by blast
qed

end
