(* ===== verification/Cy_Tty.thy ===== *)
theory Cy_Tty
  imports Cy_Waitq Cy_Unix
begin

text \<open>
  \<^verbatim>\<open>uart.c\<close> and \<^verbatim>\<open>tty.c\<close>.  The serial port is a device with a receive queue and a transmit queue: \<open>u_rx\<close>
  holds what has come in and has not been read, \<open>u_room\<close> says how many bytes the transmit queue takes
  before its full flag is set, \<open>u_tx\<close> is everything that was sent.  The busy loop of \<^verbatim>\<open>uart_send\<close> ends when
  the device has sent a byte, which makes room for one.  A terminal call runs until it returns or sleeps
  on a wait queue; it continues with what it has done so far.
\<close>

record uart =
  u_rx :: "u8 list"
  u_room :: nat
  u_tx :: "u8 list"
  u_imsc :: u32

definition UARTIMSC_RXIM :: u32 where "UARTIMSC_RXIM = push_bit 4 1"
definition UARTIMSC_TXIM :: u32 where "UARTIMSC_TXIM = push_bit 5 1"
definition UARTIMSC_RTIM :: u32 where "UARTIMSC_RTIM = push_bit 6 1"

definition uart_can_recv :: "uart \<Rightarrow> bool" where
  "uart_can_recv u \<longleftrightarrow> u_rx u \<noteq> []"

definition uart_can_send :: "uart \<Rightarrow> bool" where
  "uart_can_send u \<longleftrightarrow> u_room u > 0"

definition uart_set_interrupt :: "u32 \<Rightarrow> uart \<Rightarrow> uart option" where
  "uart_set_interrupt flags u =
     (if flags AND O_ACCMODE = O_RDONLY then Some (u\<lparr>u_imsc := u_imsc u OR (UARTIMSC_RXIM OR UARTIMSC_RTIM)\<rparr>)
      else if flags AND O_ACCMODE = O_WRONLY then Some (u\<lparr>u_imsc := u_imsc u OR UARTIMSC_TXIM\<rparr>)
      else None)"

definition uart_clear_interrupt :: "u32 \<Rightarrow> uart \<Rightarrow> uart option" where
  "uart_clear_interrupt flags u =
     (if flags AND O_ACCMODE = O_RDONLY then Some (u\<lparr>u_imsc := u_imsc u AND NOT (UARTIMSC_RXIM OR UARTIMSC_RTIM)\<rparr>)
      else if flags AND O_ACCMODE = O_WRONLY then Some (u\<lparr>u_imsc := u_imsc u AND NOT UARTIMSC_TXIM\<rparr>)
      else None)"

text \<open>With an empty receive queue the loop waits for input that the call does not bring: \<^const>\<open>None\<close>.\<close>

definition uart_recv :: "uart \<Rightarrow> (u8 \<times> uart) option" where
  "uart_recv u = (case u_rx u of [] \<Rightarrow> None | c # cs \<Rightarrow> Some (c, u\<lparr>u_rx := cs\<rparr>))"

definition uart_send :: "u8 \<Rightarrow> uart \<Rightarrow> uart" where
  "uart_send c u = u\<lparr>u_tx := u_tx u @ [c], u_room := u_room u - 1\<rparr>"

definition uart_getc :: "uart \<Rightarrow> (u8 \<times> uart) option" where
  "uart_getc u = map_option (\<lambda>(c, u). (if c = 13 then 10 else c, u)) (uart_recv u)"

definition uart_putc :: "u8 \<Rightarrow> uart \<Rightarrow> uart" where
  "uart_putc c u = uart_send c (if c = 10 then uart_send 13 u else u)"

text \<open>The loops of \<^verbatim>\<open>uart_read\<close> and \<^verbatim>\<open>uart_write\<close>; the number of bytes is the length of the list.\<close>

fun uart_read :: "nat \<Rightarrow> uart \<Rightarrow> (u8 list \<times> uart) option" where
  "uart_read 0 u = Some ([], u)"
| "uart_read (Suc n) u =
     Option.bind (uart_getc u) (\<lambda>(c, u).
       if c = 10 then Some ([c], u) else map_option (\<lambda>(cs, u). (c # cs, u)) (uart_read n u))"

definition uart_write :: "u8 list \<Rightarrow> uart \<Rightarrow> nat \<times> uart" where
  "uart_write data u = (length data, fold uart_putc data u)"

subsection \<open>The terminal (tty.c)\<close>

record tty =
  t_uart :: uart
  tty_read_waitq :: waitq
  tty_write_waitq :: waitq

definition tty_init :: "uart \<Rightarrow> tty" where
  "tty_init u = \<lparr>t_uart = u, tty_read_waitq = process_waitq_init, tty_write_waitq = process_waitq_init\<rparr>"

text \<open>One round of \<^verbatim>\<open>tty_getc\<close>; no character means that the process is asleep.\<close>

definition tty_getc :: "pid \<Rightarrow> states \<Rightarrow> tty \<Rightarrow> (u8 option \<times> states \<times> tty) option" where
  "tty_getc me st t =
     (if \<not> uart_can_recv (t_uart t) then
        Option.bind (uart_set_interrupt O_RDONLY (t_uart t)) (\<lambda>u.
          let (q, st) = block_on me (tty_read_waitq t) st
          in Some (None, st, t\<lparr>t_uart := u, tty_read_waitq := q\<rparr>))
      else map_option (\<lambda>(c, u). (Some c, st, t\<lparr>t_uart := u\<rparr>)) (uart_getc (t_uart t)))"

definition tty_putc :: "pid \<Rightarrow> u8 \<Rightarrow> states \<Rightarrow> tty \<Rightarrow> (bool \<times> states \<times> tty) option" where
  "tty_putc me c st t =
     (if \<not> uart_can_send (t_uart t) then
        Option.bind (uart_set_interrupt O_WRONLY (t_uart t)) (\<lambda>u.
          let (q, st) = block_on me (tty_write_waitq t) st
          in Some (False, st, t\<lparr>t_uart := u, tty_write_waitq := q\<rparr>))
      else Some (True, st, t\<lparr>t_uart := uart_putc c (t_uart t)\<rparr>))"

definition wake_next :: "states \<Rightarrow> tty \<Rightarrow> states \<times> tty" where
  "wake_next st t =
     (let (_, q, st) = process_wake (tty_read_waitq t) st;
          t = t\<lparr>tty_read_waitq := q\<rparr>;
          (_, q, st) = process_wake (tty_write_waitq t) st
      in (st, t\<lparr>tty_write_waitq := q\<rparr>))"

definition tty_resume :: "states \<Rightarrow> tty \<Rightarrow> states \<times> tty" where
  "tty_resume st t =
     (let (st, t) =
            (if uart_can_recv (t_uart t) then
               let (_, q, st) = process_wake (tty_read_waitq t) st in (st, t\<lparr>tty_read_waitq := q\<rparr>)
             else (st, t))
      in if uart_can_send (t_uart t) then
           let (_, q, st) = process_wake (tty_write_waitq t) st in (st, t\<lparr>tty_write_waitq := q\<rparr>)
         else (st, t))"

datatype tty_outcome = Tty_Return "u8 list" | Tty_Sleep_Get "u8 list" | Tty_Sleep_Echo u8 "u8 list"

text \<open>
  The loop of \<^verbatim>\<open>tty_read\<close> with the bytes read so far; \<open>echo\<close> is a byte that was received and is yet to be
  sent back.
\<close>

function tty_read :: "pid \<Rightarrow> nat \<Rightarrow> u8 list \<Rightarrow> u8 option \<Rightarrow> states \<Rightarrow> tty \<Rightarrow> (tty_outcome \<times> states \<times> tty) option" where
  "tty_read me sz got echo st t =
     (if length got < sz then
        case echo of
          None \<Rightarrow>
            Option.bind (tty_getc me st t) (\<lambda>(c, st, t).
              case c of
                None \<Rightarrow> Some (Tty_Sleep_Get got, st, t)
              | Some ch \<Rightarrow> tty_read me sz got (Some ch) st t)
        | Some ch \<Rightarrow>
            Option.bind (tty_putc me ch st t) (\<lambda>(sent, st, t).
              if \<not> sent then Some (Tty_Sleep_Echo ch got, st, t)
              else if ch = 10 then let (st, t) = wake_next st t in Some (Tty_Return (got @ [ch]), st, t)
              else tty_read me sz (got @ [ch]) None st t)
      else let (st, t) = wake_next st t in Some (Tty_Return got, st, t))"
  by pat_completeness auto
termination
  by (relation "measure (\<lambda>(me, sz, got, echo, st, t). 2 * (sz - length got) + (if echo = None then 1 else 0))") auto

declare tty_read.simps [simp del]

text \<open>Awake again, the call first turns the interrupt off that it had turned on.\<close>

definition tty_read_again :: "pid \<Rightarrow> nat \<Rightarrow> u8 list \<Rightarrow> u8 option \<Rightarrow> states \<Rightarrow> tty \<Rightarrow> (tty_outcome \<times> states \<times> tty) option" where
  "tty_read_again me sz got echo st t =
     Option.bind (uart_clear_interrupt (if echo = None then O_RDONLY else O_WRONLY) (t_uart t)) (\<lambda>u.
       tty_read me sz got echo st (t\<lparr>t_uart := u\<rparr>))"

text \<open>The loop of \<^verbatim>\<open>tty_write\<close>: \<open>Inr\<close> when all is written, \<open>Inl\<close> the bytes still to write when asleep.\<close>

fun tty_write :: "pid \<Rightarrow> u8 list \<Rightarrow> states \<Rightarrow> tty \<Rightarrow> ((u8 list + unit) \<times> states \<times> tty) option" where
  "tty_write me [] st t = (let (st, t) = wake_next st t in Some (Inr (), st, t))"
| "tty_write me (c # cs) st t =
     Option.bind (tty_putc me c st t) (\<lambda>(sent, st, t).
       if \<not> sent then Some (Inl (c # cs), st, t) else tty_write me cs st t)"

definition tty_write_again :: "pid \<Rightarrow> u8 list \<Rightarrow> states \<Rightarrow> tty \<Rightarrow> ((u8 list + unit) \<times> states \<times> tty) option" where
  "tty_write_again me cs st t =
     Option.bind (uart_clear_interrupt O_WRONLY (t_uart t)) (\<lambda>u. tty_write me cs st (t\<lparr>t_uart := u\<rparr>))"

end
