(* ===== verification/Cy_Elf.thy ===== *)
theory Cy_Elf
  imports Cy_Fs_Correct Cy_Page Cy_Arith
begin

text \<open>
  \<^verbatim>\<open>elf.c\<close> and the address bounds of \<^verbatim>\<open>user.h\<close>.  An executable is a file of the file system; loading
  it reads its text and data segments into pages of the buddy allocator.  The bytes in such a page are
  kept beside it in the segment.
\<close>

subsection \<open>Address bounds (user.h)\<close>

definition USER_ADDRESS_START :: u32 where "USER_ADDRESS_START = 0x00010000"
definition USER_ADDRESS_END :: u32 where "USER_ADDRESS_END = 0x60000000"
definition BRK_ADDRESS_END :: u32 where "BRK_ADDRESS_END = 0x10000000"

definition IS_USER_ADDRESSS :: "u32 \<Rightarrow> bool" where
  "IS_USER_ADDRESSS address \<longleftrightarrow> address \<ge> USER_ADDRESS_START \<and> address < USER_ADDRESS_END"

definition IS_EXECUTABLE_ADDRESS :: "u32 \<Rightarrow> bool" where
  "IS_EXECUTABLE_ADDRESS address \<longleftrightarrow> address \<ge> USER_ADDRESS_START \<and> address < BRK_ADDRESS_END"

subsection \<open>The headers of an executable\<close>

definition ELF_MAGIC :: "u8 list" where "ELF_MAGIC = [0x7f, 0x45, 0x4c, 0x46]"
definition ELF_CLASS_32BIT :: u8 where "ELF_CLASS_32BIT = 1"
definition ELF_DATA_2LE :: u8 where "ELF_DATA_2LE = 1"
definition ELF_VERSION_CURRENT :: nat where "ELF_VERSION_CURRENT = 1"
definition ELF_TYPE_EXEC :: nat where "ELF_TYPE_EXEC = 2"
definition ELF_ARCH_ARM :: nat where "ELF_ARCH_ARM = 40"
definition ELF_FLAGS_EABI :: "u32 \<Rightarrow> u32" where "ELF_FLAGS_EABI flags = flags AND 0xff000000"
definition ELF_FLAGS_EABI_V5 :: u32 where "ELF_FLAGS_EABI_V5 = 0x05000000"
definition ELF_PH_TYPE_LOAD :: nat where "ELF_PH_TYPE_LOAD = 1"
definition ELF_PH_FLAGS_X :: nat where "ELF_PH_FLAGS_X = 1"
definition ELF_PH_FLAGS_W :: nat where "ELF_PH_FLAGS_W = 2"
definition ELF_PH_FLAGS_R :: nat where "ELF_PH_FLAGS_R = 4"

record elf_header =
  eh_magic :: "u8 list"
  eh_class :: u8
  eh_data :: u8
  eh_id_version :: u8
  eh_type :: nat
  eh_arch :: nat
  eh_version :: nat
  eh_entry_point :: u32
  eh_program_header_offset :: nat
  eh_flags :: u32
  eh_program_header_size :: nat
  eh_program_header_num :: nat

definition elf_header_size :: nat where "elf_header_size = 52"

text \<open>The fields of the structure that are used, at their places in the 52 bytes that were read.\<close>

definition elf_header_at :: "data \<Rightarrow> elf_header" where
  "elf_header_at d =
     \<lparr>eh_magic = map d [0..<4], eh_class = d 4, eh_data = d 5, eh_id_version = d 6,
      eh_type = get16 d 16, eh_arch = get16 d 18, eh_version = get32 d 20, eh_entry_point = of_nat (get32 d 24),
      eh_program_header_offset = get32 d 28, eh_flags = of_nat (get32 d 36),
      eh_program_header_size = get16 d 42, eh_program_header_num = get16 d 44\<rparr>"

record elf_program_header =
  ph_type :: nat
  ph_offset :: nat
  ph_virtual_addr :: u32
  ph_file_size :: u32
  ph_memory_size :: u32
  ph_flags :: nat

definition elf_program_header_size :: nat where "elf_program_header_size = 32"

definition elf_program_header_at :: "data \<Rightarrow> elf_program_header" where
  "elf_program_header_at d =
     \<lparr>ph_type = get32 d 0, ph_offset = get32 d 4, ph_virtual_addr = of_nat (get32 d 8),
      ph_file_size = of_nat (get32 d 16), ph_memory_size = of_nat (get32 d 20), ph_flags = get32 d 24\<rparr>"

subsection \<open>Segments\<close>

record elf_segment =
  es_page :: "nat option"
  es_bytes :: "u8 list"
  es_addr :: u32
  es_file_size :: u32
  es_memory_size :: u32

record elf_executable =
  ex_entry_point :: u32
  ex_text :: elf_segment
  ex_data :: elf_segment

definition validate_segment :: "elf_segment \<Rightarrow> bool" where
  "validate_segment sg \<longleftrightarrow>
     (let addr = es_addr sg; sz = es_memory_size sg
      in if es_file_size sg > es_memory_size sg then False
         else if add_overflow_unsigned_long addr sz then False
         else if \<not> IS_EXECUTABLE_ADDRESS addr \<or> \<not> IS_EXECUTABLE_ADDRESS (addr + sz) then False
         else True)"

definition release_segment :: "elf_segment \<Rightarrow> buddy \<Rightarrow> (elf_segment \<times> buddy) option" where
  "release_segment sg b =
     (case es_page sg of
        None \<Rightarrow> Some (sg, b)
      | Some p \<Rightarrow> map_option (\<lambda>b. (sg\<lparr>es_page := None\<rparr>, b)) (buddy_free b p))"

definition load_segment :: "elf_segment \<Rightarrow> elf_program_header \<Rightarrow> nat \<Rightarrow> vfs \<Rightarrow> buddy \<Rightarrow> (int \<times> elf_segment \<times> vfs \<times> buddy) option" where
  "load_segment sg header inode s b =
     (if es_page sg \<noteq> None then Some (-1, sg, s, b)
      else
        let sg = sg\<lparr>es_addr := ph_virtual_addr header, es_file_size := ph_file_size header, es_memory_size := ph_memory_size header\<rparr>
        in Option.bind (buddy_alloc b (unat (es_file_size sg))) (\<lambda>(page, b).
          let sg = sg\<lparr>es_page := Some page\<rparr>;
              fail = (\<lambda>s. map_option (\<lambda>(sg, b). (-1, sg, s, b)) (release_segment sg b))
          in if \<not> validate_segment sg then fail s
             else
               Option.bind (on_fs s (map_option (\<lambda>(r, bs, f). ((r, bs), f)) (inode_read inode (unat (es_file_size sg)) (ph_offset header) (v_fs s))))
                 (\<lambda>((r, bs), s).
                   if r < 0 \<or> r \<noteq> uint (es_file_size sg) then fail s
                   else Some (0, sg\<lparr>es_bytes := bs\<rparr>, s, b))))"

definition elf_release :: "elf_executable \<Rightarrow> buddy \<Rightarrow> (elf_executable \<times> buddy) option" where
  "elf_release ex b =
     Option.bind (release_segment (ex_text ex) b) (\<lambda>(text, b).
     Option.bind (release_segment (ex_data ex) b) (\<lambda>(data, b).
       Some (ex\<lparr>ex_text := text, ex_data := data\<rparr>, b)))"

text \<open>The structure cleared by \<^verbatim>\<open>memset\<close>.\<close>

definition no_segment :: elf_segment where
  "no_segment = \<lparr>es_page = None, es_bytes = [], es_addr = 0, es_file_size = 0, es_memory_size = 0\<rparr>"

definition no_executable :: elf_executable where
  "no_executable = \<lparr>ex_entry_point = 0, ex_text = no_segment, ex_data = no_segment\<rparr>"

definition valid_header :: "elf_header \<Rightarrow> bool" where
  "valid_header h \<longleftrightarrow>
     \<not> (eh_magic h \<noteq> ELF_MAGIC \<or> eh_class h \<noteq> ELF_CLASS_32BIT \<or> eh_data h \<noteq> ELF_DATA_2LE \<or>
        unat (eh_id_version h) \<noteq> ELF_VERSION_CURRENT \<or> eh_type h \<noteq> ELF_TYPE_EXEC \<or> eh_arch h \<noteq> ELF_ARCH_ARM \<or>
        eh_version h \<noteq> ELF_VERSION_CURRENT \<or> ELF_FLAGS_EABI (eh_flags h) \<noteq> ELF_FLAGS_EABI_V5)"

text \<open>The bytes \<^verbatim>\<open>inode_read\<close> has put into a structure.\<close>

definition read_struct :: "nat \<Rightarrow> nat \<Rightarrow> nat \<Rightarrow> vfs \<Rightarrow> ((int \<times> data) \<times> vfs) option" where
  "read_struct inode sz start s =
     on_fs s (map_option (\<lambda>(r, bs, f). ((r, (\<lambda>i. if i < length bs then bs ! i else 0)), f)) (inode_read inode sz start (v_fs s)))"

text \<open>
  The loop over the program headers, \<open>n\<close> of them from the \<open>i\<close>-th on.  \<open>Inl True\<close> is a jump to \<open>fail\<close>,
  which releases the segments; after a short read the function returns without that.
\<close>

fun load_headers :: "nat \<Rightarrow> nat \<Rightarrow> elf_header \<Rightarrow> nat \<Rightarrow> elf_executable \<Rightarrow> vfs \<Rightarrow> buddy \<Rightarrow> ((bool + unit) \<times> elf_executable \<times> vfs \<times> buddy) option" where
  "load_headers 0 i h inode ex s b = Some (Inr (), ex, s, b)"
| "load_headers (Suc n) i h inode ex s b =
     Option.bind (read_struct inode elf_program_header_size (trunc32 (eh_program_header_offset h + eh_program_header_size h * i)) s) (\<lambda>((rs, d), s).
       if rs \<noteq> int elf_program_header_size then Some (Inl False, ex, s, b)
       else
         let ph = elf_program_header_at d
         in if ph_type ph \<noteq> ELF_PH_TYPE_LOAD then load_headers n (i + 1) h inode ex s b
            else if ph_flags ph = ELF_PH_FLAGS_R OR ELF_PH_FLAGS_X then
              Option.bind (load_segment (ex_text ex) ph inode s b) (\<lambda>(r, sg, s, b).
                let ex = ex\<lparr>ex_text := sg\<rparr>
                in if r < 0 then Some (Inl True, ex, s, b) else load_headers n (i + 1) h inode ex s b)
            else if ph_flags ph = ELF_PH_FLAGS_R OR ELF_PH_FLAGS_W then
              Option.bind (load_segment (ex_data ex) ph inode s b) (\<lambda>(r, sg, s, b).
                let ex = ex\<lparr>ex_data := sg\<rparr>
                in if r < 0 then Some (Inl True, ex, s, b) else load_headers n (i + 1) h inode ex s b)
            else load_headers n (i + 1) h inode ex s b)"

definition elf_load :: "u8 list \<Rightarrow> vfs \<Rightarrow> buddy \<Rightarrow> (int \<times> elf_executable \<times> vfs \<times> buddy) option" where
  "elf_load path s b =
     Option.bind (dentry_lookup path s) (\<lambda>(d, s).
       case d of
         None \<Rightarrow> Some (-1, no_executable, s, b)
       | Some d \<Rightarrow>
           Option.bind (dentries s d) (\<lambda>e.
           Option.bind (read_struct (d_inode e) elf_header_size 0 s) (\<lambda>((rs, bs), s).
             if rs \<noteq> int elf_header_size then Some (-1, no_executable, s, b)
             else
               let h = elf_header_at bs
               in if \<not> valid_header h then Some (-1, no_executable, s, b)
                  else
                    Option.bind (load_headers (eh_program_header_num h) 0 h (d_inode e) no_executable s b) (\<lambda>(r, ex, s, b).
                      case r of
                        Inr _ \<Rightarrow> Some (0, ex\<lparr>ex_entry_point := eh_entry_point h\<rparr>, s, b)
                      | Inl False \<Rightarrow> Some (-1, ex, s, b)
                      | Inl True \<Rightarrow> map_option (\<lambda>(ex, b). (-1, ex, s, b)) (elf_release ex b)))))"

text \<open>
  \<^verbatim>\<open>copy_segment\<close>: the bytes a segment puts into memory from its address on, the ones of the file and
  then zeros.
\<close>

definition segment_image :: "elf_segment \<Rightarrow> u8 list" where
  "segment_image sg =
     take (unat (es_file_size sg)) (es_bytes sg) @ replicate (unat (es_memory_size sg - es_file_size sg)) 0"

end
