(* ===== verification/Cy_Kernel.thy ===== *)
theory Cy_Kernel
  imports Cy_Mmu_Correct Cy_Pipe Cy_Signal Cy_Tty Cy_Elf "HOL-Library.Monad_Syntax"
begin

text \<open>
  The state of the kernel as \<^verbatim>\<open>process.c\<close> sees it, and the memory of user programs.

  Processes, open files and pipes are objects of slab caches: maps from their ids.  The memory of a
  process is a function of its virtual addresses; an address counts only where the translation tables
  give the process a page there, and \<^theory_text>\<open>Cy_Mmu_Correct\<close> shows that two processes never share one.
  A page that is newly mapped holds whatever the memory held before, \<open>k_stale\<close>.

  The kernel is not interrupted.  An access of the kernel to an address without a page ends in the data
  abort handler, which finds the saved status register not in user mode and halts: \<^const>\<open>None\<close>.  The pages
  of devices, which are mapped for the kernel inside the range of user addresses, are outside the model,
  and an access to them is \<^const>\<open>None\<close> as well.
\<close>

subsection \<open>Contexts, segments, signals (process.h, process.c, lib/unix.h)\<close>

record process_context =
  c_cpsr :: u32
  c_r :: "u32 list"
  c_sp :: u32
  c_lr :: u32
  c_pc :: u32

definition zero_context :: process_context where
  "zero_context = \<lparr>c_cpsr = 0, c_r = replicate 13 0, c_sp = 0, c_lr = 0, c_pc = 0\<rparr>"

record segment =
  sg_start :: u32
  sg_current :: u32
  sg_end :: u32
  sg_flags :: u32

definition zero_segment :: segment where
  "zero_segment = \<lparr>sg_start = 0, sg_current = 0, sg_end = 0, sg_flags = 0\<rparr>"

record k_sigaction =
  ksa_handler :: u32
  ksa_flags :: u32
  ksa_restorer :: u32
  ksa_mask :: sigset

definition zero_sigaction :: k_sigaction where
  "zero_sigaction = \<lparr>ksa_handler = 0, ksa_flags = 0, ksa_restorer = 0, ksa_mask = sigemptyset\<rparr>"

record process_signal =
  sig_mask :: sigset
  sig_pending :: sigset
  sig_actions :: "k_sigaction list"

definition MAX_FD_SIZE :: nat where "MAX_FD_SIZE = 32"
definition SEGMENT_TYPE_SIZE :: nat where "SEGMENT_TYPE_SIZE = 4"
definition SEGMENT_TYPE_TEXT :: nat where "SEGMENT_TYPE_TEXT = 0"
definition SEGMENT_TYPE_DATA :: nat where "SEGMENT_TYPE_DATA = 1"
definition SEGMENT_TYPE_STACK :: nat where "SEGMENT_TYPE_STACK = 2"
definition SEGMENT_TYPE_HEAP :: nat where "SEGMENT_TYPE_HEAP = 3"
definition SEGMENT_FLAGS_GROWSUP :: u32 where "SEGMENT_FLAGS_GROWSUP = 1"
definition SEGMENT_FLAGS_GROWSDOWN :: u32 where "SEGMENT_FLAGS_GROWSDOWN = 2"
definition STACK_START :: u32 where "STACK_START = 0x58000000"
definition STACK_END :: u32 where "STACK_END = USER_ADDRESS_END"
definition ARG_MAX_SIZE :: nat where "ARG_MAX_SIZE = 4 * 1024"
definition INITIAL_STACK_SIZE :: nat where "INITIAL_STACK_SIZE = ARG_MAX_SIZE"
definition KERNEL_STACK_SIZE :: nat where "KERNEL_STACK_SIZE = PAGE_SIZE * 4"

definition ALIGN :: "u32 \<Rightarrow> nat \<Rightarrow> u32" where
  "ALIGN p n = (p + (push_bit n 1 - 1)) AND NOT (push_bit n 1 - 1)"

definition PAGE_ALIGN :: "u32 \<Rightarrow> u32" where
  "PAGE_ALIGN addr = (addr + of_nat PAGE_SIZE - 1) AND NOT (of_nat PAGE_SIZE - 1)"

definition PAGE_MASK :: "u32 \<Rightarrow> u32" where
  "PAGE_MASK addr = addr AND NOT (of_nat PAGE_SIZE - 1)"

definition FILE_STATUS_FLAGS :: u32 where
  "FILE_STATUS_FLAGS = O_APPEND OR O_ASYNC OR O_DIRECT OR O_DSYNC OR O_NOATIME OR O_NONBLOCK OR O_SYNC"

definition PIPE2_FLAGS :: u32 where "PIPE2_FLAGS = O_CLOEXEC OR O_DIRECT OR O_NONBLOCK"

subsection \<open>Open files (file.h)\<close>

text \<open>The union of \<^verbatim>\<open>struct file\<close> holds the id of the directory entry or of the pipe; there is one terminal.\<close>

record open_file =
  f_type :: file_type
  f_ref :: nat
  f_flags :: u32
  f_offset :: nat
  f_count :: nat

definition FILE_FOR_READ :: "open_file \<Rightarrow> bool" where
  "FILE_FOR_READ f \<longleftrightarrow> f_flags f AND O_ACCMODE = O_RDWR \<or> f_flags f AND O_ACCMODE = O_RDONLY"

definition FILE_FOR_WRITE :: "open_file \<Rightarrow> bool" where
  "FILE_FOR_WRITE f \<longleftrightarrow> f_flags f AND O_ACCMODE = O_RDWR \<or> f_flags f AND O_ACCMODE = O_WRONLY"

subsection \<open>Processes\<close>

text \<open>
  Where a sleeping process is: the call that went to sleep, with what it has done so far, and what
  follows it.  This is what \<^verbatim>\<open>system_suspend\<close> keeps on the kernel stack of the process.
\<close>

datatype blocked =
    In_Pipe_Read nat u32 nat "u8 list"
  | In_Pipe_Write nat u32 nat nat
  | In_Tty_Read u32 nat "u8 list" "u8 option"
  | In_Tty_Write u32 nat nat
  | In_Wait u32

datatype after =
    To_Caller
  | To_Readv int u32 int int int
  | To_Writev int u32 int int int

record process =
  pr_parent :: pid
  pr_children :: "pid list"
  pr_exit_status :: u32
  pr_context :: process_context
  pr_suspend :: "(blocked \<times> after) option"
  pr_segments :: "segment list"
  pr_brk :: u32
  pr_kernel_stack :: u32
  pr_files :: "nat option list"
  pr_close_on_exec :: bitset
  pr_signal :: process_signal

record kernel =
  k_current :: "pid option"
  k_all :: "pid list"
  k_run :: "pid list"
  k_max_id :: nat
  k_states :: states
  k_procs :: "pid \<rightharpoonup> process"
  k_files :: "nat \<rightharpoonup> open_file"
  k_next_file :: nat
  k_pipes :: "nat \<rightharpoonup> pipe"
  k_next_pipe :: nat
  k_child_waitq :: waitq
  k_terminal :: "u8 list"
  k_vfs :: vfs
  k_mmu :: mmu
  k_user :: "pid \<Rightarrow> u32 \<Rightarrow> u8"
  k_stale :: "u32 \<Rightarrow> u8"
  k_tty :: tty
  k_shutdown :: bool

definition set_proc :: "pid \<Rightarrow> process \<Rightarrow> kernel \<Rightarrow> kernel" where
  "set_proc p x k = k\<lparr>k_procs := (k_procs k)(p \<mapsto> x)\<rparr>"

definition upd_proc :: "pid \<Rightarrow> (process \<Rightarrow> process) \<Rightarrow> kernel \<Rightarrow> kernel" where
  "upd_proc p f k = k\<lparr>k_procs := (k_procs k)(p := map_option f (k_procs k p))\<rparr>"

text \<open>\<^verbatim>\<open>current_process\<close> with its structure.\<close>

definition current :: "kernel \<Rightarrow> (pid \<times> process) option" where
  "current k = do { p \<leftarrow> k_current k; x \<leftarrow> k_procs k p; Some (p, x) }"

subsection \<open>User memory\<close>

text \<open>The kernel reaches user memory through the tables that are in use.\<close>

definition mapped :: "u32 \<Rightarrow> kernel \<Rightarrow> bool" where
  "mapped a k \<longleftrightarrow> user_access (k_mmu k) (m_current (k_mmu k)) a \<noteq> None"

definition peek :: "u32 \<Rightarrow> kernel \<Rightarrow> u8" where
  "peek a k = k_user k (m_current (k_mmu k)) a"

definition load8 :: "u32 \<Rightarrow> kernel \<Rightarrow> u8 option" where
  "load8 a k = (if mapped a k then Some (peek a k) else None)"

definition store8 :: "u32 \<Rightarrow> u8 \<Rightarrow> kernel \<Rightarrow> kernel option" where
  "store8 a v k =
     (if mapped a k then
        let p = m_current (k_mmu k) in Some (k\<lparr>k_user := (k_user k)(p := (k_user k p)(a := v))\<rparr>)
      else None)"

fun load_bytes :: "u32 \<Rightarrow> nat \<Rightarrow> kernel \<Rightarrow> u8 list option" where
  "load_bytes a 0 k = Some []"
| "load_bytes a (Suc n) k = do { b \<leftarrow> load8 a k; bs \<leftarrow> load_bytes (a + 1) n k; Some (b # bs) }"

fun store_bytes :: "u32 \<Rightarrow> u8 list \<Rightarrow> kernel \<Rightarrow> kernel option" where
  "store_bytes a [] k = Some k"
| "store_bytes a (b # bs) k = do { k \<leftarrow> store8 a b k; store_bytes (a + 1) bs k }"

definition all_mapped :: "u32 \<Rightarrow> nat \<Rightarrow> kernel \<Rightarrow> bool" where
  "all_mapped a n k \<longleftrightarrow> list_all (\<lambda>i. mapped (a + of_nat i) k) [0..<n]"

definition peek_bytes :: "u32 \<Rightarrow> nat \<Rightarrow> kernel \<Rightarrow> u8 list" where
  "peek_bytes a n k = map (\<lambda>i. peek (a + of_nat i) k) [0..<n]"

text \<open>Words in little-endian order.\<close>

definition bytes32 :: "u32 \<Rightarrow> u8 list" where
  "bytes32 w = [ucast w, ucast (drop_bit 8 w), ucast (drop_bit 16 w), ucast (drop_bit 24 w)]"

definition word_at :: "u8 list \<Rightarrow> nat \<Rightarrow> u32" where
  "word_at bs i =
     ucast (bs ! i) OR push_bit 8 (ucast (bs ! (i + 1))) OR push_bit 16 (ucast (bs ! (i + 2))) OR push_bit 24 (ucast (bs ! (i + 3)))"

definition load32 :: "u32 \<Rightarrow> kernel \<Rightarrow> u32 option" where
  "load32 a k = map_option (\<lambda>bs. word_at bs 0) (load_bytes a 4 k)"

definition store32 :: "u32 \<Rightarrow> u32 \<Rightarrow> kernel \<Rightarrow> kernel option" where
  "store32 a w k = store_bytes a (bytes32 w) k"

text \<open>\<^verbatim>\<open>mmu_alloc\<close> in the kernel: pages that were not there before come with stale contents.\<close>

definition map_pages :: "pid \<Rightarrow> u32 \<Rightarrow> u32 \<Rightarrow> kernel \<Rightarrow> (int \<times> kernel) option" where
  "map_pages p addr sz k = do {
     (r, m) \<leftarrow> mmu_alloc p addr sz (k_mmu k);
     let old = k_mmu k;
     Some (r, k\<lparr>k_mmu := m,
       k_user := (k_user k)(p := (\<lambda>a.
         if user_access m p a = user_access old p a then k_user k p a
         else case user_access m p a of Some x \<Rightarrow> k_stale k x | None \<Rightarrow> k_user k p a))\<rparr>)
   }"

definition switch_ttb :: "pid \<Rightarrow> kernel \<Rightarrow> (pid \<times> kernel) option" where
  "switch_ttb p k = do { (old, m) \<leftarrow> mmu_set_ttb p (k_mmu k); Some (old, k\<lparr>k_mmu := m\<rparr>) }"

definition take_page :: "nat \<Rightarrow> kernel \<Rightarrow> (nat \<times> kernel) option" where
  "take_page sz k = do {
     (page, b) \<leftarrow> buddy_alloc (m_buddy (k_mmu k)) sz;
     Some (page, k\<lparr>k_mmu := (k_mmu k)\<lparr>m_buddy := b\<rparr>\<rparr>)
   }"

definition drop_page :: "nat \<Rightarrow> kernel \<Rightarrow> kernel option" where
  "drop_page page k = do {
     b \<leftarrow> buddy_free (m_buddy (k_mmu k)) page;
     Some (k\<lparr>k_mmu := (k_mmu k)\<lparr>m_buddy := b\<rparr>\<rparr>)
   }"

end
