(* ===== verification/Cy_File.thy ===== *)
theory Cy_File
  imports Cy_Kernel
begin

text \<open>
  The file descriptors of \<^verbatim>\<open>process.c\<close>: the table of a process, the reference counts of open files and
  the calls on them.  A call that can sleep returns \<open>Asleep\<close> with the place where it stopped, after the
  process was blocked on its wait queue; \<^theory_text>\<open>Cy_Process\<close> continues it from there.
\<close>

datatype io = Done int | Asleep blocked

subsection \<open>The table\<close>

definition set_file :: "nat \<Rightarrow> open_file \<Rightarrow> kernel \<Rightarrow> kernel" where
  "set_file f x k = k\<lparr>k_files := (k_files k)(f \<mapsto> x)\<rparr>"

definition set_slot :: "pid \<Rightarrow> nat \<Rightarrow> nat option \<Rightarrow> kernel \<Rightarrow> kernel" where
  "set_slot p i v k = upd_proc p (\<lambda>x. x\<lparr>pr_files := (pr_files x)[i := v]\<rparr>) k"

definition set_cloexec :: "pid \<Rightarrow> nat \<Rightarrow> kernel \<Rightarrow> kernel" where
  "set_cloexec p i k = upd_proc p (\<lambda>x. x\<lparr>pr_close_on_exec := bitset_add (pr_close_on_exec x) i\<rparr>) k"

definition clear_cloexec :: "pid \<Rightarrow> nat \<Rightarrow> kernel \<Rightarrow> kernel" where
  "clear_cloexec p i k = upd_proc p (\<lambda>x. x\<lparr>pr_close_on_exec := bitset_remove (pr_close_on_exec x) i\<rparr>) k"

text \<open>The loop that looks for an unused descriptor from \<open>i\<close> on.\<close>

function first_free :: "nat option list \<Rightarrow> nat \<Rightarrow> nat option" where
  "first_free files i =
     (if i < MAX_FD_SIZE then if files ! i = None then Some i else first_free files (i + 1) else None)"
  by pat_completeness auto
termination
  by (relation "measure (\<lambda>(files, i). MAX_FD_SIZE - i)") auto

declare first_free.simps [simp del]

definition zero_file :: open_file where
  "zero_file = \<lparr>f_type = FF_UNUSED, f_ref = 0, f_flags = 0, f_offset = 0, f_count = 1\<rparr>"

definition alloc_file :: "pid \<Rightarrow> kernel \<Rightarrow> (int \<times> kernel) option" where
  "alloc_file p k = do {
     x \<leftarrow> k_procs k p;
     case first_free (pr_files x) 0 of
       None \<Rightarrow> Some (- errno_code EMFILE, k)
     | Some i \<Rightarrow>
         let f = k_next_file k
         in Some (int i, set_slot p i (Some f) (set_file f zero_file (k\<lparr>k_next_file := f + 1\<rparr>)))
   }"

text \<open>\<^verbatim>\<open>pipe_release\<close> and \<^verbatim>\<open>pipe_countup\<close> on a pipe of the kernel; a pipe nobody has open is freed with its page.\<close>

definition release_pipe :: "nat \<Rightarrow> u32 \<Rightarrow> kernel \<Rightarrow> kernel option" where
  "release_pipe i flags k = do {
     pipe \<leftarrow> k_pipes k i;
     (r, st) \<leftarrow> pipe_release pipe flags (k_states k);
     let k = k\<lparr>k_states := st\<rparr>;
     case r of
       Some pipe \<Rightarrow> Some (k\<lparr>k_pipes := (k_pipes k)(i \<mapsto> pipe)\<rparr>)
     | None \<Rightarrow> drop_page (p_page pipe) (k\<lparr>k_pipes := (k_pipes k)(i := None)\<rparr>)
   }"

definition release_file :: "nat \<Rightarrow> kernel \<Rightarrow> kernel option" where
  "release_file f k = do {
     x \<leftarrow> k_files k f;
     if f_count x = 0 then None
     else do {
       let x = x\<lparr>f_count := f_count x - 1\<rparr>;
       k \<leftarrow> (case f_type x of FF_PIPE \<Rightarrow> release_pipe (f_ref x) (f_flags x) k | _ \<Rightarrow> Some k);
       Some (if f_count x = 0 then k\<lparr>k_files := (k_files k)(f := None)\<rparr> else set_file f x k)
     }
   }"

definition countup_file :: "nat \<Rightarrow> kernel \<Rightarrow> kernel option" where
  "countup_file f k = do {
     x \<leftarrow> k_files k f;
     let k = set_file f (x\<lparr>f_count := f_count x + 1\<rparr>) k;
     case f_type x of
       FF_PIPE \<Rightarrow> do {
         pipe \<leftarrow> k_pipes k (f_ref x);
         pipe \<leftarrow> pipe_countup pipe (f_flags x);
         Some (k\<lparr>k_pipes := (k_pipes k)(f_ref x \<mapsto> pipe)\<rparr>)
       }
     | _ \<Rightarrow> Some k
   }"

definition create_tty :: "pid \<Rightarrow> kernel \<Rightarrow> (int \<times> kernel) option" where
  "create_tty p k = do {
     (fd, k) \<leftarrow> alloc_file p k;
     if fd < 0 then Some (fd, k)
     else do {
       x \<leftarrow> k_procs k p;
       f \<leftarrow> pr_files x ! nat fd;
       file \<leftarrow> k_files k f;
       Some (0, set_file f (file\<lparr>f_type := FF_TTY, f_flags := O_RDWR\<rparr>) k)
     }
   }"

definition get_file :: "int \<Rightarrow> kernel \<Rightarrow> nat option option" where
  "get_file fd k =
     (if fd < 0 \<or> fd \<ge> int MAX_FD_SIZE then Some None
      else do { (p, x) \<leftarrow> current k; Some (pr_files x ! nat fd) })"

text \<open>The calls on a descriptor begin with \<^verbatim>\<open>get_file\<close> and \<^verbatim>\<open>EBADF\<close>; the file is known afterwards.\<close>

definition with_file :: "int \<Rightarrow> kernel \<Rightarrow> 'a \<Rightarrow> (nat \<Rightarrow> open_file \<Rightarrow> 'a option) \<Rightarrow> 'a option" where
  "with_file fd k bad body = do {
     f \<leftarrow> get_file fd k;
     case f of None \<Rightarrow> Some bad | Some f \<Rightarrow> do { x \<leftarrow> k_files k f; body f x }
   }"

lemma with_file_cong [fundef_cong]:
  "fd = fd' \<Longrightarrow> k = k' \<Longrightarrow> bad = bad' \<Longrightarrow> (\<And>f x. k_files k f = Some x \<Longrightarrow> body f x = body' f x) \<Longrightarrow>
     with_file fd k bad body = with_file fd' k' bad' body'"
  by (auto simp: with_file_def intro!: bind_option_cong split: option.splits)

subsection \<open>Opening and closing\<close>

definition process_close :: "int \<Rightarrow> kernel \<Rightarrow> (int \<times> kernel) option" where
  "process_close fd k =
     with_file fd k (- errno_code EBADF, k) (\<lambda>f x. do {
       (p, _) \<leftarrow> current k;
       k \<leftarrow> release_file f k;
       Some (0, clear_cloexec p (nat fd) (set_slot p (nat fd) None k))
     })"

definition close_with :: "int \<Rightarrow> int \<Rightarrow> kernel \<Rightarrow> (int \<times> kernel) option" where
  "close_with r fd k = do { (_, k) \<leftarrow> process_close fd k; Some (r, k) }"

text \<open>The end of \<^verbatim>\<open>process_open\<close>, once the path has led to a directory entry.\<close>

definition open_dentry :: "int \<Rightarrow> nat \<Rightarrow> nat \<Rightarrow> u32 \<Rightarrow> kernel \<Rightarrow> (int \<times> kernel) option" where
  "open_dentry fd f d flags k = do {
     (p, _) \<leftarrow> current k;
     e \<leftarrow> dentries (k_vfs k) d;
     node \<leftarrow> fs_inodes (v_fs (k_vfs k)) (d_inode e);
     file \<leftarrow> k_files k f;
     if FILE_FOR_WRITE file \<and> S_ISDIR (in_mode node) then close_with (- errno_code EISDIR) fd k
     else do {
       let k = set_file f (file\<lparr>f_type := FF_INODE, f_ref := d\<rparr>) k;
       (r, v) \<leftarrow> (if flags AND O_TRUNC \<noteq> 0 then on_fs (k_vfs k) (inode_truncate (d_inode e) 0 (v_fs (k_vfs k))) else Some (0, k_vfs k));
       let k = k\<lparr>k_vfs := v\<rparr>;
       if r < 0 then None
       else Some (fd, if flags AND O_CLOEXEC \<noteq> 0 then set_cloexec p (nat fd) k else k)
     }
   }"

definition open_path :: "u8 list \<Rightarrow> int \<Rightarrow> nat \<Rightarrow> u32 \<Rightarrow> u32 \<Rightarrow> kernel \<Rightarrow> (int \<times> kernel) option" where
  "open_path path fd f flags mode k = do {
     (r, v) \<leftarrow> (if flags AND O_CREAT \<noteq> 0 then fs_create path flags (unat mode) (k_vfs k) else Some (0, k_vfs k));
     let k = k\<lparr>k_vfs := v\<rparr>;
     if r < 0 then close_with r fd k
     else do {
       (d, v) \<leftarrow> dentry_lookup path (k_vfs k);
       let k = k\<lparr>k_vfs := v\<rparr>;
       case d of
         None \<Rightarrow> close_with (- errno_code ENOENT) fd k
       | Some d \<Rightarrow> open_dentry fd f d flags k
     }
   }"

definition process_open :: "u8 list \<Rightarrow> u32 \<Rightarrow> u32 \<Rightarrow> kernel \<Rightarrow> (int \<times> kernel) option" where
  "process_open path flags mode k = do {
     (p, _) \<leftarrow> current k;
     (fd, k) \<leftarrow> alloc_file p k;
     if fd < 0 then Some (fd, k)
     else do {
       (_, x) \<leftarrow> current k;
       f \<leftarrow> pr_files x ! nat fd;
       file \<leftarrow> k_files k f;
       open_path path fd f flags mode (set_file f (file\<lparr>f_flags := flags AND (FILE_STATUS_FLAGS OR O_ACCMODE)\<rparr>) k)
     }
   }"

subsection \<open>Reading and writing\<close>

text \<open>\<^verbatim>\<open>process_kill\<close>.\<close>

definition find_process :: "pid \<Rightarrow> kernel \<Rightarrow> pid option" where
  "find_process pid k = find (\<lambda>p. p = pid) (k_all k)"

definition process_kill :: "int \<Rightarrow> int \<Rightarrow> kernel \<Rightarrow> (int \<times> kernel) option" where
  "process_kill pid sig k =
     (if sig < 1 \<or> sig \<ge> NSIG then Some (- errno_code EINVAL, k)
      else if pid < 1 then Some (- errno_code ESRCH, k)
      else
        case find_process (nat pid) k of
          None \<Rightarrow> Some (- errno_code ESRCH, k)
        | Some p \<Rightarrow>
            Some (0, upd_proc p (\<lambda>x. x\<lparr>pr_signal := (pr_signal x)\<lparr>sig_pending := snd (sigaddset (sig_pending (pr_signal x)) sig)\<rparr>\<rparr>) k))"

text \<open>
  The calls that can sleep, from the place where they are.  The bytes a pipe has taken from user memory
  must be mapped, the bytes a reader got are stored there.
\<close>

definition run_pipe_read :: "nat \<Rightarrow> u32 \<Rightarrow> nat \<Rightarrow> u8 list \<Rightarrow> kernel \<Rightarrow> (io \<times> kernel) option" where
  "run_pipe_read i addr sz got k = do {
     me \<leftarrow> k_current k;
     pipe \<leftarrow> k_pipes k i;
     (out, st, pipe) \<leftarrow> pipe_read me sz got (k_states k) pipe;
     let k = k\<lparr>k_states := st, k_pipes := (k_pipes k)(i \<mapsto> pipe)\<rparr>;
     case out of
       Read_Return n bs \<Rightarrow> do { k \<leftarrow> store_bytes addr bs k; Some (Done (int n), k) }
     | Read_Sleep bs \<Rightarrow> do { k \<leftarrow> store_bytes addr bs k; Some (Asleep (In_Pipe_Read i addr sz bs), k) }
     | Read_Next bs \<Rightarrow> None
   }"

definition run_pipe_write :: "nat \<Rightarrow> u32 \<Rightarrow> nat \<Rightarrow> nat \<Rightarrow> kernel \<Rightarrow> (io \<times> kernel) option" where
  "run_pipe_write i addr sz written k = do {
     me \<leftarrow> k_current k;
     pipe \<leftarrow> k_pipes k i;
     (out, st, pipe) \<leftarrow> pipe_write me (peek_bytes addr sz k) written (k_states k) pipe;
     let k = k\<lparr>k_states := st, k_pipes := (k_pipes k)(i \<mapsto> pipe)\<rparr>;
     case out of
       Write_Return n \<Rightarrow> if all_mapped addr n k then Some (Done (int n), k) else None
     | Write_Broken \<Rightarrow> do { (_, k) \<leftarrow> process_kill (int me) SIGPIPE k; Some (Done (- errno_code EPIPE), k) }
     | Write_Sleep n \<Rightarrow> if all_mapped addr n k then Some (Asleep (In_Pipe_Write i addr sz n), k) else None
     | Write_Next n \<Rightarrow> None
   }"

definition end_tty_read :: "u32 \<Rightarrow> nat \<Rightarrow> kernel \<Rightarrow> tty_outcome \<times> states \<times> tty \<Rightarrow> (io \<times> kernel) option" where
  "end_tty_read addr sz k r = (case r of (out, st, t) \<Rightarrow>
     let k = k\<lparr>k_states := st, k_tty := t\<rparr>
     in case out of
          Tty_Return bs \<Rightarrow> do { k \<leftarrow> store_bytes addr bs k; Some (Done (int (length bs)), k) }
        | Tty_Sleep_Get bs \<Rightarrow> do { k \<leftarrow> store_bytes addr bs k; Some (Asleep (In_Tty_Read addr sz bs None), k) }
        | Tty_Sleep_Echo c bs \<Rightarrow> do { k \<leftarrow> store_bytes addr bs k; Some (Asleep (In_Tty_Read addr sz bs (Some c)), k) })"

text \<open>Asleep in \<^verbatim>\<open>tty_write\<close>, the next byte has been read from memory but not sent.\<close>

definition end_tty_write :: "u32 \<Rightarrow> nat \<Rightarrow> kernel \<Rightarrow> (u8 list + unit) \<times> states \<times> tty \<Rightarrow> (io \<times> kernel) option" where
  "end_tty_write addr sz k r = (case r of (out, st, t) \<Rightarrow>
     let k = k\<lparr>k_states := st, k_tty := t\<rparr>
     in case out of
          Inr _ \<Rightarrow> if all_mapped addr sz k then Some (Done (int sz), k) else None
        | Inl rest \<Rightarrow>
            let i = sz - length rest
            in if all_mapped addr (i + 1) k then Some (Asleep (In_Tty_Write addr sz i), k) else None)"

text \<open>
  \<^verbatim>\<open>process_write\<close>.  Writing to a file needs the whole buffer: one that is partly unmapped halts the
  kernel even where the disk would be full before the unmapped part.
\<close>

definition process_write :: "int \<Rightarrow> u32 \<Rightarrow> u32 \<Rightarrow> kernel \<Rightarrow> (io \<times> kernel) option" where
  "process_write fd data sz k =
     with_file fd k (Done (- errno_code EBADF), k) (\<lambda>f x.
       if \<not> FILE_FOR_WRITE x then Some (Done (- errno_code EBADF), k)
       else
         case f_type x of
           FF_TTY \<Rightarrow> do {
             me \<leftarrow> k_current k;
             r \<leftarrow> tty_write me (peek_bytes data (unat sz) k) (k_states k) (k_tty k);
             end_tty_write data (unat sz) k r
           }
         | FF_INODE \<Rightarrow> do {
             bs \<leftarrow> load_bytes data (unat sz) k;
             e \<leftarrow> dentries (k_vfs k) (f_ref x);
             node \<leftarrow> fs_inodes (v_fs (k_vfs k)) (d_inode e);
             let off = (if f_flags x AND O_APPEND \<noteq> 0 then in_size node else f_offset x);
             (r, v) \<leftarrow> on_fs (k_vfs k) (inode_write (d_inode e) (unat sz) off (\<lambda>i. bs ! i) (v_fs (k_vfs k)));
             let k = set_file f (x\<lparr>f_offset := if r < 0 then off else trunc32 (off + nat r)\<rparr>) (k\<lparr>k_vfs := v\<rparr>);
             Some (Done r, k)
           }
         | FF_PIPE \<Rightarrow> run_pipe_write (f_ref x) data (unat sz) 0 k
         | FF_UNUSED \<Rightarrow> None)"

definition process_read :: "int \<Rightarrow> u32 \<Rightarrow> u32 \<Rightarrow> kernel \<Rightarrow> (io \<times> kernel) option" where
  "process_read fd data sz k =
     with_file fd k (Done (- errno_code EBADF), k) (\<lambda>f x.
       if \<not> FILE_FOR_READ x then Some (Done (- errno_code EBADF), k)
       else
         case f_type x of
           FF_TTY \<Rightarrow> do {
             me \<leftarrow> k_current k;
             r \<leftarrow> tty_read me (unat sz) [] None (k_states k) (k_tty k);
             end_tty_read data (unat sz) k r
           }
         | FF_INODE \<Rightarrow> do {
             e \<leftarrow> dentries (k_vfs k) (f_ref x);
             node \<leftarrow> fs_inodes (v_fs (k_vfs k)) (d_inode e);
             if S_ISDIR (in_mode node) then Some (Done (- errno_code EISDIR), k)
             else do {
               (r, bs, s) \<leftarrow> inode_read (d_inode e) (unat sz) (f_offset x) (v_fs (k_vfs k));
               k \<leftarrow> store_bytes data bs (k\<lparr>k_vfs := (k_vfs k)\<lparr>v_fs := s\<rparr>\<rparr>);
               if r < 0 then Some (Done r, k)
               else Some (Done r, set_file f (x\<lparr>f_offset := trunc32 (f_offset x + nat r)\<rparr>) k)
             }
           }
         | FF_PIPE \<Rightarrow> run_pipe_read (f_ref x) data (unat sz) [] k
         | FF_UNUSED \<Rightarrow> None)"

subsection \<open>Directories, offsets, status\<close>

text \<open>\<^verbatim>\<open>struct dirent64\<close> as it is laid out for the user: the fields, the name and its NUL, at least 24 bytes.\<close>

definition dirent64_bytes :: "nat \<Rightarrow> nat \<Rightarrow> nat \<Rightarrow> u8 list \<Rightarrow> u8 list" where
  "dirent64_bytes ino off reclen name =
     (let bs = bytes32 (of_nat ino) @ [0, 0, 0, 0] @ bytes32 (of_nat off) @ [0, 0, 0, 0] @
                 [of_nat reclen, of_nat (reclen div 256), 0] @ name @ [0]
      in bs @ replicate (24 - length bs) 0)"

text \<open>
  The loop of \<^verbatim>\<open>process_getdents64\<close>, with \<open>r\<close> bytes written.  A name that fills its array has no NUL, and
  \<^verbatim>\<open>strncpy\<close> would read the byte behind it: \<^const>\<open>None\<close>.
\<close>

partial_function (option) getdents_loop :: "nat \<Rightarrow> nat \<Rightarrow> u32 \<Rightarrow> nat \<Rightarrow> nat \<Rightarrow> kernel \<Rightarrow> (int \<times> kernel) option" where
  "getdents_loop f inode data sz r k =
     Option.bind (k_files k f) (\<lambda>x.
     Option.bind (inode_read inode DIRENT_SIZE (f_offset x) (v_fs (k_vfs k))) (\<lambda>(nread, bs, s).
       let k = k\<lparr>k_vfs := (k_vfs k)\<lparr>v_fs := s\<rparr>\<rparr>;
           next = (\<lambda>k. set_file f (x\<lparr>f_offset := trunc32 (f_offset x + nat nread)\<rparr>) k)
       in if nread < 0 then Some (if r \<noteq> 0 then int r else nread, k)
          else if nread = 0 \<or> nread \<noteq> int DIRENT_SIZE then Some (int r, k)
          else
            let (ino, name) = dirent_at bs 0;
                reclen = unat (ALIGN (of_nat (19 + length name + 1)) 3)
            in if ino = 0 then getdents_loop f inode data sz r (next k)
               else if r + reclen > sz then Some (if r \<noteq> 0 then int r else - errno_code EINVAL, k)
               else if length name = NAME_MAX then None
               else
                 Option.bind (store_bytes (data + of_nat r) (dirent64_bytes ino (trunc32 (f_offset x + nat nread)) reclen name) k) (\<lambda>k.
                   if r + reclen = sz then Some (int sz, next k)
                   else getdents_loop f inode data sz (r + reclen) (next k))))"

definition process_getdents64 :: "int \<Rightarrow> u32 \<Rightarrow> u32 \<Rightarrow> kernel \<Rightarrow> (int \<times> kernel) option" where
  "process_getdents64 fd data sz k =
     with_file fd k (- errno_code EBADF, k) (\<lambda>f x.
       if \<not> FILE_FOR_READ x then Some (- errno_code EBADF, k)
       else if f_type x \<noteq> FF_INODE then Some (- errno_code ENOTDIR, k)
       else do {
         e \<leftarrow> dentries (k_vfs k) (f_ref x);
         node \<leftarrow> fs_inodes (v_fs (k_vfs k)) (d_inode e);
         if \<not> S_ISDIR (in_mode node) then Some (- errno_code ENOTDIR, k)
         else getdents_loop f (d_inode e) data (unat sz) 0 k
       })"

definition SEEK_SET :: int where "SEEK_SET = 0"
definition SEEK_CUR :: int where "SEEK_CUR = 1"
definition SEEK_END :: int where "SEEK_END = 2"

definition process_llseek :: "int \<Rightarrow> u64 \<Rightarrow> int \<Rightarrow> kernel \<Rightarrow> (int \<times> kernel) option" where
  "process_llseek fd offset whence k =
     with_file fd k (- errno_code EBADF, k) (\<lambda>f x.
       if f_type x \<noteq> FF_INODE then Some (- errno_code ESPIPE, k)
       else do {
         e \<leftarrow> dentries (k_vfs k) (f_ref x);
         node \<leftarrow> fs_inodes (v_fs (k_vfs k)) (d_inode e);
         let move = (\<lambda>next_offset :: u64.
               if next_offset <s 0 \<or> ucast ULONG_MAX <s next_offset then Some (- errno_code EOVERFLOW, k)
               else Some (sint next_offset, set_file f (x\<lparr>f_offset := unat next_offset\<rparr>) k));
         let cur = of_nat (f_offset x); let last = of_nat (in_size node);
         if whence = SEEK_SET then move offset
         else if whence = SEEK_CUR then
           if add_overflow_long_long cur offset then Some (- errno_code EOVERFLOW, k) else move (cur + offset)
         else if whence = SEEK_END then
           if add_overflow_long_long last offset then Some (- errno_code EOVERFLOW, k) else move (last + offset)
         else Some (- errno_code EINVAL, k)
       })"

text \<open>\<^verbatim>\<open>struct stat64\<close> in memory, 104 bytes.\<close>

definition stat64_bytes :: "stat64 \<Rightarrow> u8 list" where
  "stat64_bytes s =
     replicate 16 0 @ bytes32 (of_nat (st_mode s)) @ bytes32 (of_nat (st_nlink s)) @ replicate 24 0 @
     bytes32 (of_nat (st_size s)) @ replicate 4 0 @ bytes32 (of_nat (st_blksize s)) @ replicate 4 0 @
     bytes32 (of_nat (st_blocks s)) @ replicate 4 0 @ replicate 24 0 @ bytes32 (of_nat (st_ino s)) @ replicate 4 0"

definition store_stat :: "u32 \<Rightarrow> stat64 option \<Rightarrow> kernel \<Rightarrow> kernel option" where
  "store_stat buf s k = (case s of None \<Rightarrow> Some k | Some s \<Rightarrow> store_bytes buf (stat64_bytes s) k)"

definition process_fstat64 :: "int \<Rightarrow> u32 \<Rightarrow> kernel \<Rightarrow> (int \<times> kernel) option" where
  "process_fstat64 fd buf k =
     with_file fd k (- errno_code EBADF, k) (\<lambda>f x. do {
       (r, s) \<leftarrow> fs_fstat64 (f_type x) (f_ref x) (k_vfs k);
       k \<leftarrow> store_stat buf s k;
       Some (r, k)
     })"

definition sizeof_termios :: nat where "sizeof_termios = 60"

definition process_ioctl :: "int \<Rightarrow> u32 \<Rightarrow> u32 \<Rightarrow> kernel \<Rightarrow> (int \<times> kernel) option" where
  "process_ioctl fd request argp k =
     with_file fd k (- errno_code EBADF, k) (\<lambda>f x.
       if f_type x \<noteq> FF_TTY then Some (- errno_code ENOTTY, k)
       else if request = TCGETS then do { k \<leftarrow> store_bytes argp (k_terminal k) k; Some (0, k) }
       else if request = TCSETS \<or> request = TCSETSW \<or> request = TCSETSF then
         do { bs \<leftarrow> load_bytes argp sizeof_termios k; Some (0, k\<lparr>k_terminal := bs\<rparr>) }
       else if request = TIOCGWINSZ then do { k \<leftarrow> store_bytes argp [24, 0, 80, 0] k; Some (0, k) }
       else Some (- errno_code EINVAL, k))"

subsection \<open>Duplicating descriptors, pipes\<close>

definition process_dupfd :: "int \<Rightarrow> int \<Rightarrow> u32 \<Rightarrow> kernel \<Rightarrow> (int \<times> kernel) option" where
  "process_dupfd fd from flags k =
     with_file fd k (- errno_code EBADF, k) (\<lambda>f _.
       if from < 0 \<or> from \<ge> int MAX_FD_SIZE then Some (- errno_code EINVAL, k)
       else do {
         (p, x) \<leftarrow> current k;
         case first_free (pr_files x) (nat from) of
           None \<Rightarrow> Some (- errno_code EMFILE, k)
         | Some i \<Rightarrow> do {
             k \<leftarrow> countup_file f k;
             let k = (if flags AND O_CLOEXEC \<noteq> 0 then set_cloexec p i k else k);
             Some (int i, set_slot p i (Some f) k)
           }
       })"

text \<open>The end of \<^verbatim>\<open>process_dup2\<close> and \<^verbatim>\<open>process_dup3\<close>.\<close>

definition dup_to :: "nat \<Rightarrow> int \<Rightarrow> u32 \<Rightarrow> kernel \<Rightarrow> (int \<times> kernel) option" where
  "dup_to f newfd flags k = do {
     (p, x) \<leftarrow> current k;
     (_, k) \<leftarrow> (if pr_files x ! nat newfd \<noteq> None then process_close newfd k else Some (0, k));
     k \<leftarrow> countup_file f k;
     let k = (if flags AND O_CLOEXEC \<noteq> 0 then set_cloexec p (nat newfd) k else k);
     Some (newfd, set_slot p (nat newfd) (Some f) k)
   }"

definition process_dup2 :: "int \<Rightarrow> int \<Rightarrow> kernel \<Rightarrow> (int \<times> kernel) option" where
  "process_dup2 oldfd newfd k =
     with_file oldfd k (- errno_code EBADF, k) (\<lambda>f _.
       if newfd < 0 \<or> newfd \<ge> int MAX_FD_SIZE then Some (- errno_code EBADF, k)
       else if oldfd = newfd then Some (newfd, k)
       else dup_to f newfd 0 k)"

definition process_dup3 :: "int \<Rightarrow> int \<Rightarrow> u32 \<Rightarrow> kernel \<Rightarrow> (int \<times> kernel) option" where
  "process_dup3 oldfd newfd flags k =
     with_file oldfd k (- errno_code EBADF, k) (\<lambda>f _.
       if newfd < 0 \<or> newfd \<ge> int MAX_FD_SIZE then Some (- errno_code EBADF, k)
       else if oldfd = newfd then Some (- errno_code EINVAL, k)
       else dup_to f newfd flags k)"

definition process_fcntl64 :: "int \<Rightarrow> u32 \<Rightarrow> u32 \<Rightarrow> kernel \<Rightarrow> (int \<times> kernel) option" where
  "process_fcntl64 fd cmd arg k =
     with_file fd k (- errno_code EBADF, k) (\<lambda>f file. do {
       (p, x) \<leftarrow> current k;
       if cmd = F_DUPFD then process_dupfd fd (sint arg) 0 k
       else if cmd = F_GETFD then Some (if bitset_test (pr_close_on_exec x) (nat fd) then uint FD_CLOEXEC else 0, k)
       else if cmd = F_SETFD then
         Some (0, if arg AND FD_CLOEXEC \<noteq> 0 then set_cloexec p (nat fd) k else clear_cloexec p (nat fd) k)
       else if cmd = F_GETFL then Some (sint (f_flags file AND (FILE_STATUS_FLAGS OR O_ACCMODE)), k)
       else if cmd = F_SETFL then
         Some (0, set_file f (file\<lparr>f_flags := arg AND FILE_STATUS_FLAGS OR f_flags file AND O_ACCMODE\<rparr>) k)
       else Some (- errno_code EINVAL, k)
     })"

definition new_pipe :: "kernel \<Rightarrow> (nat \<times> kernel) option" where
  "new_pipe k = do {
     (page, k) \<leftarrow> take_page PAGE_SIZE k;
     let i = k_next_pipe k;
     let pipe = pipe_create page (\<lambda>j. k_stale k (page_address (m_buddy (k_mmu k)) page + of_nat j));
     Some (i, k\<lparr>k_pipes := (k_pipes k)(i \<mapsto> pipe), k_next_pipe := i + 1\<rparr>)
   }"

text \<open>The two files of \<^verbatim>\<open>process_pipe2\<close> become the ends of a new pipe.\<close>

definition connect_pipe :: "nat \<Rightarrow> nat \<Rightarrow> u32 \<Rightarrow> kernel \<Rightarrow> kernel option" where
  "connect_pipe rd wr flags k = do {
     (i, k) \<leftarrow> new_pipe k;
     rfile \<leftarrow> k_files k rd;
     wfile \<leftarrow> k_files k wr;
     let k = set_file rd (rfile\<lparr>f_type := FF_PIPE, f_ref := i, f_flags := O_RDONLY OR O_APPEND OR flags AND PIPE2_FLAGS\<rparr>) k;
     Some (set_file wr (wfile\<lparr>f_type := FF_PIPE, f_ref := i, f_flags := O_WRONLY OR O_APPEND OR flags AND PIPE2_FLAGS\<rparr>) k)
   }"

definition process_pipe2 :: "u32 \<Rightarrow> u32 \<Rightarrow> kernel \<Rightarrow> (int \<times> kernel) option" where
  "process_pipe2 pipefd flags k =
     (if flags AND NOT PIPE2_FLAGS \<noteq> 0 then Some (- errno_code EINVAL, k)
      else do {
        (p, _) \<leftarrow> current k;
        (rfd, k) \<leftarrow> alloc_file p k;
        if rfd < 0 then Some (rfd, k)
        else do {
          (wfd, k) \<leftarrow> alloc_file p k;
          if wfd < 0 then close_with wfd rfd k
          else do {
            (_, x) \<leftarrow> current k;
            rd \<leftarrow> pr_files x ! nat rfd;
            wr \<leftarrow> pr_files x ! nat wfd;
            k \<leftarrow> connect_pipe rd wr flags k;
            let k = (if flags AND O_CLOEXEC \<noteq> 0 then set_cloexec p (nat wfd) (set_cloexec p (nat rfd) k) else k);
            k \<leftarrow> store32 pipefd (word_of_int rfd) k;
            k \<leftarrow> store32 (pipefd + 4) (word_of_int wfd) k;
            Some (0, k)
          }
        }
      })"

text \<open>\<^verbatim>\<open>process_pipe\<close> is the call without flags.\<close>

definition process_pipe :: "u32 \<Rightarrow> kernel \<Rightarrow> (int \<times> kernel) option" where
  "process_pipe pipefd k = process_pipe2 pipefd 0 k"

end
