(* ===== verification/Cy_Process.thy ===== *)
theory Cy_Process
  imports Cy_File
begin

text \<open>
  The rest of \<^verbatim>\<open>process.c\<close>: creation and destruction of processes, their segments, program start,
  sleeping and waking, the scheduler, signals.
\<close>

subsection \<open>Start of the system\<close>

definition OPOST :: u32 where "OPOST = 0x1"
definition ONLCR :: u32 where "ONLCR = 0x4"
definition ICRNL :: u32 where "ICRNL = 0x100"
definition IXON :: u32 where "IXON = 0x400"
definition IXANY :: u32 where "IXANY = 0x800"
definition IMAXBEL :: u32 where "IMAXBEL = 0x2000"
definition CREAD :: u32 where "CREAD = 0x80"
definition CS8 :: u32 where "CS8 = 0x30"
definition B9600 :: u32 where "B9600 = 0xd"
definition ISIG :: u32 where "ISIG = 0x1"
definition ICANON :: u32 where "ICANON = 0x2"
definition ECHO :: u32 where "ECHO = 0x8"
definition ECHOE :: u32 where "ECHOE = 0x10"
definition ECHOCTL :: u32 where "ECHOCTL = 0x200"
definition ECHOKE :: u32 where "ECHOKE = 0x800"
definition IEXTEN :: u32 where "IEXTEN = 0x8000"

text \<open>The settings of the terminal as they lie in memory: the four flag words, the line, the characters, the speeds.\<close>

definition terminal_config :: "u8 list" where
  "terminal_config =
     bytes32 (ICRNL OR IXON OR IXANY OR IMAXBEL) @ bytes32 (OPOST OR ONLCR) @ bytes32 (CREAD OR CS8 OR B9600) @
     bytes32 (ISIG OR ICANON OR IEXTEN OR ECHO OR ECHOE OR ECHOCTL OR ECHOKE) @ [0] @
     (replicate 32 0)[5 := 0, 6 := 1, 0 := 3, 1 := 28, 4 := 4, 10 := 26, 3 := 21, 2 := 127, 14 := 23] @ replicate 11 0"

text \<open>The state after \<^verbatim>\<open>process_init\<close>, on what the other parts of the kernel have set up before.\<close>

definition process_init :: "vfs \<Rightarrow> mmu \<Rightarrow> tty \<Rightarrow> (pid \<Rightarrow> u32 \<Rightarrow> u8) \<Rightarrow> (u32 \<Rightarrow> u8) \<Rightarrow> kernel" where
  "process_init v m t mem stale =
     \<lparr>k_current = None, k_all = [], k_run = [], k_max_id = 1, k_states = (\<lambda>_. STATE_READY), k_procs = Map.empty,
      k_files = Map.empty, k_next_file = 0, k_pipes = Map.empty, k_next_pipe = 0, k_child_waitq = process_waitq_init,
      k_terminal = terminal_config, k_vfs = v, k_mmu = m, k_user = mem, k_stale = stale, k_tty = t, k_shutdown = False\<rparr>"

subsection \<open>Processes\<close>

text \<open>The structure cleared by \<^verbatim>\<open>memset\<close>, with its kernel stack.\<close>

definition zero_process :: "u32 \<Rightarrow> process" where
  "zero_process stack =
     \<lparr>pr_parent = 0, pr_children = [], pr_exit_status = 0, pr_context = zero_context, pr_suspend = None,
      pr_segments = replicate SEGMENT_TYPE_SIZE zero_segment, pr_brk = 0, pr_kernel_stack = stack,
      pr_files = replicate MAX_FD_SIZE None, pr_close_on_exec = replicate (bitset_nslots MAX_FD_SIZE) 0,
      pr_signal = \<lparr>sig_mask = sigemptyset, sig_pending = sigemptyset, sig_actions = replicate (nat NSIG - 1) zero_sigaction\<rparr>\<rparr>"

text \<open>The next id is an \<^verbatim>\<open>int\<close>: there is none behind the largest one.\<close>

definition process_alloc :: "kernel \<Rightarrow> (pid \<times> kernel) option" where
  "process_alloc k =
     (if 0x7fffffff \<le> k_max_id k then None
      else do {
        let p = k_max_id k;
        let k = k\<lparr>k_max_id := p + 1, k_all := p # k_all k, k_states := (k_states k)(p := STATE_READY)\<rparr>;
        (page, k) \<leftarrow> take_page KERNEL_STACK_SIZE k;
        Some (p, set_proc p (zero_process (page_address (m_buddy (k_mmu k)) page)) k)
      })"

definition find_toplevel_process :: "kernel \<Rightarrow> pid option" where
  "find_toplevel_process k = find (\<lambda>p. map_option pr_parent (k_procs k p) = Some p) (k_all k)"

text \<open>
  \<^verbatim>\<open>list_remove\<close> takes a process out of whatever list its node is in.  The structure is freed at the end.
\<close>

definition set_parents :: "(pid \<Rightarrow> pid) \<Rightarrow> pid list \<Rightarrow> kernel \<Rightarrow> kernel" where
  "set_parents g cs k = fold (\<lambda>c. upd_proc c (\<lambda>x. x\<lparr>pr_parent := g c\<rparr>)) cs k"

definition adopt :: "pid list \<Rightarrow> kernel \<Rightarrow> kernel" where
  "adopt cs k =
     (if cs = [] then k
      else
        case find_toplevel_process k of
          Some t \<Rightarrow> upd_proc t (\<lambda>x. x\<lparr>pr_children := cs @ pr_children x\<rparr>) (set_parents (\<lambda>_. t) cs k)
        | None \<Rightarrow> set_parents (\<lambda>c. c) cs k)"

definition unlink_process :: "pid \<Rightarrow> kernel \<Rightarrow> kernel" where
  "unlink_process p k =
     k\<lparr>k_run := remove1 p (k_run k), k_all := remove1 p (k_all k),
       k_procs := (\<lambda>q. map_option (\<lambda>x. x\<lparr>pr_children := remove1 p (pr_children x)\<rparr>) (k_procs k q))\<rparr>"

definition destroy_mapping :: "pid \<Rightarrow> kernel \<Rightarrow> kernel option" where
  "destroy_mapping p k = do { (_, m) \<leftarrow> mmu_destroy p (k_mmu k); Some (k\<lparr>k_mmu := m\<rparr>) }"

definition process_destroy :: "pid \<Rightarrow> kernel \<Rightarrow> kernel option" where
  "process_destroy p k = do {
     (me, _) \<leftarrow> current k;
     x \<leftarrow> k_procs k p;
     if me = p then None
     else do {
       let k = adopt (pr_children x) (unlink_process p k);
       page \<leftarrow> page_find_by_address (pr_kernel_stack x);
       k \<leftarrow> drop_page page k;
       k \<leftarrow> destroy_mapping p k;
       (_, k) \<leftarrow> switch_ttb me k;
       Some (k\<lparr>k_procs := (k_procs k)(p := None)\<rparr>)
     }
   }"

subsection \<open>Segments\<close>

definition create_segments :: "elf_executable \<Rightarrow> segment list" where
  "create_segments ex =
     (let text_start = es_addr (ex_text ex);
          text_end = PAGE_ALIGN (es_addr (ex_text ex) + es_memory_size (ex_text ex));
          data_start = PAGE_MASK (es_addr (ex_data ex));
          data_end = PAGE_ALIGN (es_addr (ex_data ex) + es_memory_size (ex_data ex));
          heap_start = (if data_end \<noteq> 0 then data_end else text_end)
      in (replicate SEGMENT_TYPE_SIZE zero_segment)
           [SEGMENT_TYPE_TEXT := \<lparr>sg_start = text_start, sg_current = text_end, sg_end = text_end, sg_flags = SEGMENT_FLAGS_GROWSUP\<rparr>,
            SEGMENT_TYPE_DATA := \<lparr>sg_start = data_start, sg_current = data_end, sg_end = data_end, sg_flags = SEGMENT_FLAGS_GROWSUP\<rparr>,
            SEGMENT_TYPE_HEAP := \<lparr>sg_start = heap_start, sg_current = heap_start, sg_end = heap_start, sg_flags = SEGMENT_FLAGS_GROWSUP\<rparr>,
            SEGMENT_TYPE_STACK := \<lparr>sg_start = STACK_START, sg_current = STACK_END - of_nat INITIAL_STACK_SIZE, sg_end = STACK_END, sg_flags = SEGMENT_FLAGS_GROWSDOWN\<rparr>])"

definition find_segment :: "u32 \<Rightarrow> segment list \<Rightarrow> nat option" where
  "find_segment address sgs =
     find (\<lambda>i. address \<ge> sg_start (sgs ! i) \<and> address < sg_end (sgs ! i)) [0..<SEGMENT_TYPE_SIZE]"

text \<open>The part of a segment that is in memory.\<close>

definition segment_bounds :: "segment \<Rightarrow> (u32 \<times> u32) option" where
  "segment_bounds sg =
     (if sg_flags sg AND SEGMENT_FLAGS_GROWSUP \<noteq> 0 then Some (sg_start sg, sg_current sg)
      else if sg_flags sg AND SEGMENT_FLAGS_GROWSDOWN \<noteq> 0 then Some (sg_current sg, sg_end sg)
      else None)"

fun alloc_segments :: "pid \<Rightarrow> segment list \<Rightarrow> kernel \<Rightarrow> kernel option" where
  "alloc_segments p [] k = Some k"
| "alloc_segments p (sg # sgs) k = do {
     (start, end) \<leftarrow> segment_bounds sg;
     (_, k) \<leftarrow> map_pages p start (end - start) k;
     alloc_segments p sgs k
   }"

text \<open>The loop of \<^verbatim>\<open>copy_segment\<close>: a page at a time through the buffer, from one address space to the other.\<close>

partial_function (option) copy_pages :: "pid \<Rightarrow> u32 \<Rightarrow> u32 \<Rightarrow> kernel \<Rightarrow> kernel option" where
  "copy_pages p cur end k =
     (if cur < end then
        Option.bind (k_current k) (\<lambda>me.
        Option.bind (load_bytes cur PAGE_SIZE k) (\<lambda>buf.
        Option.bind (map_pages p cur (of_nat PAGE_SIZE) k) (\<lambda>(_, k).
        Option.bind (switch_ttb p k) (\<lambda>(_, k).
        Option.bind (store_bytes cur buf k) (\<lambda>k.
        Option.bind (switch_ttb me k) (\<lambda>(_, k).
          copy_pages p (cur + of_nat PAGE_SIZE) end k))))))
      else Some k)"

definition copy_segment :: "pid \<Rightarrow> segment \<Rightarrow> kernel \<Rightarrow> kernel option" where
  "copy_segment p sg k = do {
     (start, end) \<leftarrow> segment_bounds sg;
     (page, k) \<leftarrow> take_page PAGE_SIZE k;
     k \<leftarrow> copy_pages p start end k;
     drop_page page k
   }"

fun copy_segments :: "pid \<Rightarrow> segment list \<Rightarrow> kernel \<Rightarrow> kernel option" where
  "copy_segments p [] k = Some k"
| "copy_segments p (sg # sgs) k = do { k \<leftarrow> copy_segment p sg k; copy_segments p sgs k }"

subsection \<open>Arguments and program start\<close>

text \<open>The string at an address of the user, and the strings of a list of pointers that a null pointer ends.\<close>

partial_function (option) load_string :: "u32 \<Rightarrow> kernel \<Rightarrow> u8 list option" where
  "load_string a k =
     Option.bind (load8 a k) (\<lambda>b. if b = 0 then Some [] else Option.bind (load_string (a + 1) k) (\<lambda>s. Some (b # s)))"

partial_function (option) load_strings :: "u32 \<Rightarrow> kernel \<Rightarrow> u8 list list option" where
  "load_strings a k =
     Option.bind (load32 a k) (\<lambda>p.
       if p = 0 then Some []
       else
         Option.bind (load_string p k) (\<lambda>s.
         Option.bind (load_strings (a + 4) k) (\<lambda>ss. Some (s # ss))))"

definition load_avep :: "u32 \<Rightarrow> kernel \<Rightarrow> u8 list list option" where
  "load_avep a k = (if a = 0 then Some [] else load_strings a k)"

text \<open>The strings in the page stand for the arrays of pointers and the characters that \<^verbatim>\<open>prepare_argv_and_envp\<close> writes there.\<close>

record argv_envp =
  av_size :: u32
  av_nr :: nat
  av_argc :: nat
  av_argv :: "u8 list list"
  av_envp :: "u8 list list"
  av_page :: "nat option"

definition strings_size :: "u8 list list \<Rightarrow> nat" where
  "strings_size ss = sum_list (map (\<lambda>s. length s + 1) ss)"

text \<open>\<open>size\<close>, computed in 32 bits and compared as a signed number.\<close>

definition avep_size :: "nat \<Rightarrow> nat \<Rightarrow> u32" where
  "avep_size nr nc =
     (let sz = ALIGN (4 + of_nat nr * 4 + of_nat nc) 3 in if sz <s 0x100 then 0x100 else sz)"

text \<open>What does not fit into the page would be written behind it: \<^const>\<open>None\<close>.\<close>

definition prepare_argv_and_envp :: "u8 list list \<Rightarrow> u8 list list \<Rightarrow> kernel \<Rightarrow> ((int + argv_envp) \<times> kernel) option" where
  "prepare_argv_and_envp argv envp k =
     (let nr = 2 + length argv + length envp;
          nc = strings_size argv + strings_size envp;
          sz = avep_size nr nc
      in if of_nat ARG_MAX_SIZE <s sz then Some (Inl (- errno_code E2BIG), k)
         else do {
           (page, k) \<leftarrow> take_page (unat sz) k;
           if nr * 4 + nc > PAGE_SIZE then None
           else Some (Inr \<lparr>av_size = sz, av_nr = nr, av_argc = length argv, av_argv = argv, av_envp = envp, av_page = Some page\<rparr>, k)
         })"

text \<open>One of the two loops: a pointer to each string, and the string with its NUL.\<close>

fun copy_strings :: "u8 list list \<Rightarrow> u32 \<Rightarrow> u32 \<Rightarrow> kernel \<Rightarrow> (u32 \<times> u32 \<times> kernel) option" where
  "copy_strings [] uarg uchar k = Some (uarg, uchar, k)"
| "copy_strings (s # ss) uarg uchar k = do {
     k \<leftarrow> store32 uarg uchar k;
     k \<leftarrow> store_bytes uchar (s @ [0]) k;
     copy_strings ss (uarg + 4) (uchar + of_nat (length s + 1)) k
   }"

definition copy_argv_and_envp :: "argv_envp \<Rightarrow> u32 \<Rightarrow> kernel \<Rightarrow> (u32 \<times> kernel) option" where
  "copy_argv_and_envp av ustack k = do {
     let uarg = ustack - av_size av;
     let uchar = uarg + 4 * of_nat (av_nr av) + 4;
     k \<leftarrow> store32 uarg (of_nat (av_argc av)) k;
     (uarg, uchar, k) \<leftarrow> copy_strings (av_argv av) (uarg + 4) uchar k;
     k \<leftarrow> store32 uarg 0 k;
     (uarg, uchar, k) \<leftarrow> copy_strings (av_envp av) (uarg + 4) uchar k;
     k \<leftarrow> store32 uarg 0 k;
     Some (ustack - av_size av, k)
   }"

definition release_argv_and_envp :: "argv_envp \<Rightarrow> kernel \<Rightarrow> kernel option" where
  "release_argv_and_envp av k = (case av_page av of None \<Rightarrow> Some k | Some page \<Rightarrow> drop_page page k)"

definition load_executable :: "u8 list \<Rightarrow> kernel \<Rightarrow> (int \<times> elf_executable \<times> kernel) option" where
  "load_executable path k = do {
     (r, ex, v, b) \<leftarrow> elf_load path (k_vfs k) (m_buddy (k_mmu k));
     Some (r, ex, k\<lparr>k_vfs := v, k_mmu := (k_mmu k)\<lparr>m_buddy := b\<rparr>\<rparr>)
   }"

definition elf_copy :: "elf_executable \<Rightarrow> kernel \<Rightarrow> kernel option" where
  "elf_copy ex k = do {
     k \<leftarrow> store_bytes (es_addr (ex_text ex)) (segment_image (ex_text ex)) k;
     store_bytes (es_addr (ex_data ex)) (segment_image (ex_data ex)) k
   }"

definition release_executable :: "elf_executable \<Rightarrow> kernel \<Rightarrow> kernel option" where
  "release_executable ex k = do {
     (_, b) \<leftarrow> elf_release ex (m_buddy (k_mmu k));
     Some (k\<lparr>k_mmu := (k_mmu k)\<lparr>m_buddy := b\<rparr>\<rparr>)
   }"

text \<open>The common end of \<^verbatim>\<open>process_create\<close> and \<^verbatim>\<open>process_exec\<close>: the memory of the new program, and its context.\<close>

definition start_program :: "pid \<Rightarrow> elf_executable \<Rightarrow> argv_envp \<Rightarrow> kernel \<Rightarrow> kernel option" where
  "start_program p ex av k = do {
     x \<leftarrow> k_procs k p;
     k \<leftarrow> alloc_segments p (pr_segments x) k;
     k \<leftarrow> elf_copy ex k;
     k \<leftarrow> release_executable ex k;
     (stack, k) \<leftarrow> copy_argv_and_envp av STACK_END k;
     k \<leftarrow> release_argv_and_envp av k;
     Some (upd_proc p (\<lambda>x. x\<lparr>pr_context := zero_context\<lparr>c_cpsr := 0x10, c_sp := stack, c_pc := ex_entry_point ex\<rparr>\<rparr>) k)
   }"

definition set_segments :: "pid \<Rightarrow> elf_executable \<Rightarrow> kernel \<Rightarrow> kernel" where
  "set_segments p ex k =
     upd_proc p (\<lambda>x. x\<lparr>pr_segments := create_segments ex, pr_brk := sg_start (create_segments ex ! SEGMENT_TYPE_HEAP)\<rparr>) k"

text \<open>The terminal is opened once, for the descriptors 0, 1 and 2.\<close>

definition open_terminal :: "pid \<Rightarrow> kernel \<Rightarrow> kernel option" where
  "open_terminal p k = do {
     (r, k) \<leftarrow> create_tty p k;
     x \<leftarrow> k_procs k p;
     tty \<leftarrow> pr_files x ! 0;
     if r < 0 then None
     else do {
       k \<leftarrow> countup_file tty k;
       k \<leftarrow> countup_file tty (set_slot p 1 (Some tty) k);
       Some (set_slot p 2 (Some tty) k)
     }
   }"

definition process_create :: "u8 list \<Rightarrow> kernel \<Rightarrow> (int \<times> kernel) option" where
  "process_create path k = do {
     (av, k) \<leftarrow> prepare_argv_and_envp [path] [] k;
     case av of
       Inl r \<Rightarrow> Some (r, k)
     | Inr av \<Rightarrow> do {
         (r, ex, k) \<leftarrow> load_executable path k;
         if r < 0 then do { k \<leftarrow> release_argv_and_envp av k; Some (- errno_code EACCES, k) }
         else do {
           (p, k) \<leftarrow> process_alloc k;
           let k = set_segments p ex (upd_proc p (\<lambda>x. x\<lparr>pr_parent := p\<rparr>) k);
           (old, k) \<leftarrow> switch_ttb p k;
           k \<leftarrow> start_program p ex av k;
           k \<leftarrow> open_terminal p k;
           (_, k) \<leftarrow> switch_ttb old k;
           Some (int p, k)
         }
       }
   }"

text \<open>Handlers do not survive the start of a program; actions and descriptors are gone through in loops.\<close>

definition reset_handlers :: "process_signal \<Rightarrow> process_signal" where
  "reset_handlers sg =
     sg\<lparr>sig_actions := map (\<lambda>a. if ksa_handler a \<noteq> SIG_DFL \<and> ksa_handler a \<noteq> SIG_IGN then a\<lparr>ksa_handler := SIG_DFL\<rparr> else a) (sig_actions sg)\<rparr>"

fun close_marked :: "pid \<Rightarrow> nat list \<Rightarrow> kernel \<Rightarrow> kernel option" where
  "close_marked p [] k = Some k"
| "close_marked p (i # is) k = do {
     x \<leftarrow> k_procs k p;
     case pr_files x ! i of
       Some f \<Rightarrow>
         if bitset_test (pr_close_on_exec x) i then do {
           k \<leftarrow> release_file f k;
           close_marked p is (clear_cloexec p i (set_slot p i None k))
         }
         else close_marked p is k
     | None \<Rightarrow> close_marked p is k
   }"

definition process_exec :: "u8 list \<Rightarrow> u8 list list \<Rightarrow> u8 list list \<Rightarrow> kernel \<Rightarrow> (int \<times> kernel) option" where
  "process_exec path argv envp k = do {
     (p, _) \<leftarrow> current k;
     (av, k) \<leftarrow> prepare_argv_and_envp argv envp k;
     case av of
       Inl r \<Rightarrow> Some (r, k)
     | Inr av \<Rightarrow> do {
         (r, ex, k) \<leftarrow> load_executable path k;
         if r < 0 then do { k \<leftarrow> release_argv_and_envp av k; Some (- errno_code EACCES, k) }
         else do {
           let k = upd_proc p (\<lambda>x. x\<lparr>pr_signal := reset_handlers (pr_signal x)\<rparr>) (set_segments p ex k);
           k \<leftarrow> close_marked p [0..<MAX_FD_SIZE] k;
           k \<leftarrow> destroy_mapping p k;
           (_, k) \<leftarrow> switch_ttb p k;
           k \<leftarrow> start_program p ex av k;
           Some (0, k)
         }
       }
   }"

subsection \<open>Fork, exit, wait\<close>

fun countup_files :: "nat option list \<Rightarrow> kernel \<Rightarrow> kernel option" where
  "countup_files [] k = Some k"
| "countup_files (None # fs) k = countup_files fs k"
| "countup_files (Some f # fs) k = do { k \<leftarrow> countup_file f k; countup_files fs k }"

definition process_fork :: "process_context \<Rightarrow> kernel \<Rightarrow> (int \<times> kernel) option" where
  "process_fork context k = do {
     (me, parent) \<leftarrow> current k;
     (p, k) \<leftarrow> process_alloc k;
     let k = upd_proc me (\<lambda>x. x\<lparr>pr_children := p # pr_children x\<rparr>) k;
     let k = upd_proc p (\<lambda>x. x\<lparr>pr_parent := me, pr_context := context\<lparr>c_r := (c_r context)[0 := 0]\<rparr>,
                             pr_brk := pr_brk parent, pr_segments := pr_segments parent\<rparr>) k;
     k \<leftarrow> copy_segments p (pr_segments parent) k;
     k \<leftarrow> countup_files (pr_files parent) (upd_proc p (\<lambda>x. x\<lparr>pr_files := pr_files parent\<rparr>) k);
     Some (int p, upd_proc p (\<lambda>x. x\<lparr>pr_signal := pr_signal parent\<rparr>) k)
   }"

definition WAIT_EXIT_CODE :: "u32 \<Rightarrow> u32" where
  "WAIT_EXIT_CODE status = push_bit 8 (status AND 0xff)"

definition WAIT_SIGNAL :: "u32 \<Rightarrow> u32" where
  "WAIT_SIGNAL signal = signal AND 0x7f"

fun close_all :: "pid \<Rightarrow> nat list \<Rightarrow> kernel \<Rightarrow> kernel option" where
  "close_all p [] k = Some k"
| "close_all p (i # is) k = do {
     x \<leftarrow> k_procs k p;
     case pr_files x ! i of
       Some f \<Rightarrow> do { k \<leftarrow> release_file f (set_slot p i None k); close_all p is k }
     | None \<Rightarrow> close_all p is k
   }"

definition system_shutdown :: "kernel \<Rightarrow> kernel" where
  "system_shutdown k = k\<lparr>k_shutdown := True\<rparr>"

definition process_exit :: "u32 \<Rightarrow> kernel \<Rightarrow> kernel option" where
  "process_exit status k = do {
     (p, _) \<leftarrow> current k;
     let k = upd_proc p (\<lambda>x. x\<lparr>pr_exit_status := status\<rparr>) (k\<lparr>k_states := (k_states k)(p := STATE_DEAD)\<rparr>);
     k \<leftarrow> close_all p [0..<MAX_FD_SIZE] k;
     let k = (if length (k_all k) = 1 then system_shutdown k else k);
     let (_, q, st) = process_wake (k_child_waitq k) (k_states k);
     Some (k\<lparr>k_child_waitq := q, k_states := st\<rparr>)
   }"

text \<open>The loop of \<^verbatim>\<open>process_wait\<close>, up to the sleep.\<close>

definition run_wait :: "u32 \<Rightarrow> kernel \<Rightarrow> (io \<times> kernel) option" where
  "run_wait status k = do {
     (me, x) \<leftarrow> current k;
     case find (\<lambda>c. k_states k c = STATE_DEAD) (pr_children x) of
       Some c \<Rightarrow> do {
         y \<leftarrow> k_procs k c;
         k \<leftarrow> process_destroy c k;
         k \<leftarrow> store32 status (pr_exit_status y) k;
         Some (Done (int c), k)
       }
     | None \<Rightarrow>
         let (q, st) = block_on me (k_child_waitq k) (k_states k)
         in Some (Asleep (In_Wait status), k\<lparr>k_child_waitq := q, k_states := st\<rparr>)
   }"

definition process_wait :: "u32 \<Rightarrow> kernel \<Rightarrow> (io \<times> kernel) option" where
  "process_wait status k = do {
     (me, x) \<leftarrow> current k;
     if pr_children x = [] then Some (Done (- errno_code ECHILD), k) else run_wait status k
   }"

definition process_getpid :: "kernel \<Rightarrow> int option" where
  "process_getpid k = do { (p, _) \<leftarrow> current k; Some (int p) }"

definition process_getppid :: "kernel \<Rightarrow> int option" where
  "process_getppid k = do { (_, x) \<leftarrow> current k; Some (int (pr_parent x)) }"

subsection \<open>Memory\<close>

partial_function (option) grow_heap :: "pid \<Rightarrow> u32 \<Rightarrow> u32 \<Rightarrow> kernel \<Rightarrow> (u32 \<times> kernel) option" where
  "grow_heap p cur end k =
     (if cur < end then
        Option.bind (map_pages p cur (of_nat PAGE_SIZE) k) (\<lambda>(_, k). grow_heap p (cur + of_nat PAGE_SIZE) end k)
      else Some (cur, k))"

definition process_brk :: "u32 \<Rightarrow> kernel \<Rightarrow> (u32 \<times> kernel) option" where
  "process_brk address k = do {
     (p, x) \<leftarrow> current k;
     let sg = pr_segments x ! SEGMENT_TYPE_HEAP;
     if address < pr_brk x \<or> address \<ge> BRK_ADDRESS_END then Some (pr_brk x, k)
     else if sg_end sg < address then do {
       let end = PAGE_ALIGN address;
       (cur, k) \<leftarrow> grow_heap p (sg_current sg) end k;
       Some (address, upd_proc p (\<lambda>x. x\<lparr>pr_brk := address,
         pr_segments := (pr_segments x)[SEGMENT_TYPE_HEAP := sg\<lparr>sg_end := end, sg_current := cur\<rparr>]\<rparr>) k)
     }
     else Some (address, upd_proc p (\<lambda>x. x\<lparr>pr_brk := address\<rparr>) k)
   }"

partial_function (option) grow_stack :: "pid \<Rightarrow> u32 \<Rightarrow> u32 \<Rightarrow> kernel \<Rightarrow> (u32 \<times> kernel) option" where
  "grow_stack p cur base k =
     (if cur > base then
        Option.bind (map_pages p (cur - of_nat PAGE_SIZE) (of_nat PAGE_SIZE) k) (\<lambda>(_, k).
          grow_stack p (cur - of_nat PAGE_SIZE) base k)
      else Some (cur, k))"

definition process_demand_page :: "u32 \<Rightarrow> kernel \<Rightarrow> (bool \<times> kernel) option" where
  "process_demand_page address k = do {
     (p, x) \<leftarrow> current k;
     case find_segment address (pr_segments x) of
       None \<Rightarrow> Some (False, k)
     | Some i \<Rightarrow>
         let sg = pr_segments x ! i
         in if sg_flags sg AND SEGMENT_FLAGS_GROWSDOWN \<noteq> 0 then
              if address < sg_start sg \<and> address \<ge> sg_current sg then Some (False, k)
              else do {
                (cur, k) \<leftarrow> grow_stack p (sg_current sg) (PAGE_MASK address) k;
                Some (True, upd_proc p (\<lambda>x. x\<lparr>pr_segments := (pr_segments x)[i := sg\<lparr>sg_current := cur\<rparr>]\<rparr>) k)
              }
            else Some (False, k)
   }"

subsection \<open>Signals\<close>

definition SIG_BLOCK :: int where "SIG_BLOCK = 0"
definition SIG_UNBLOCK :: int where "SIG_UNBLOCK = 1"
definition SIG_SETMASK :: int where "SIG_SETMASK = 2"

definition words_at :: "u8 list \<Rightarrow> nat \<Rightarrow> u32 list" where
  "words_at bs n = map (\<lambda>i. word_at bs (4 * i)) [0..<n]"

definition words_bytes :: "u32 list \<Rightarrow> u8 list" where
  "words_bytes ws = concat (map bytes32 ws)"

definition sigset_bytes :: "sigset \<Rightarrow> u8 list" where
  "sigset_bytes s = words_bytes [field0 s, field1 s]"

definition sigset_at :: "u32 list \<Rightarrow> sigset" where
  "sigset_at ws = \<lparr>field0 = ws ! 0, field1 = ws ! 1\<rparr>"

definition sigaction_bytes :: "k_sigaction \<Rightarrow> u8 list" where
  "sigaction_bytes a = words_bytes [ksa_handler a, ksa_flags a, ksa_restorer a, field0 (ksa_mask a), field1 (ksa_mask a)]"

definition sigaction_at :: "u32 list \<Rightarrow> k_sigaction" where
  "sigaction_at ws = \<lparr>ksa_handler = ws ! 0, ksa_flags = ws ! 1, ksa_restorer = ws ! 2, ksa_mask = sigset_at (drop 3 ws)\<rparr>"

definition context_bytes :: "process_context \<Rightarrow> u8 list" where
  "context_bytes c = words_bytes (c_cpsr c # c_r c @ [c_sp c, c_lr c, c_pc c])"

definition context_at :: "u32 list \<Rightarrow> process_context" where
  "context_at ws = \<lparr>c_cpsr = ws ! 0, c_r = take 13 (drop 1 ws), c_sp = ws ! 14, c_lr = ws ! 15, c_pc = ws ! 16\<rparr>"

definition load_words :: "u32 \<Rightarrow> nat \<Rightarrow> kernel \<Rightarrow> u32 list option" where
  "load_words a n k = map_option (\<lambda>bs. words_at bs n) (load_bytes a (4 * n) k)"

definition push_to_stack :: "u32 \<Rightarrow> u8 list \<Rightarrow> kernel \<Rightarrow> (u32 \<times> kernel) option" where
  "push_to_stack sp data k = do {
     let signal_sp = (sp - of_nat (length data)) AND NOT (push_bit 3 1 - 1);
     k \<leftarrow> store_bytes signal_sp data k;
     Some (signal_sp, k)
   }"

definition pop_from_stack :: "u32 \<Rightarrow> nat \<Rightarrow> kernel \<Rightarrow> (u32 list \<times> u32) option" where
  "pop_from_stack sp n k = do { ws \<leftarrow> load_words sp n k; Some (ws, ALIGN (sp + 4 * of_nat n) 3) }"

text \<open>\<^verbatim>\<open>actions\<close> has no element for the last signal number: \<^const>\<open>None\<close>.\<close>

definition action_of :: "int \<Rightarrow> process_signal \<Rightarrow> k_sigaction option" where
  "action_of sig sg = (if nat sig < length (sig_actions sg) then Some (sig_actions sg ! nat sig) else None)"

definition process_sigaction :: "int \<Rightarrow> u32 \<Rightarrow> u32 \<Rightarrow> kernel \<Rightarrow> (int \<times> kernel) option" where
  "process_sigaction sig ksa ksa_old k =
     (if sig < 1 \<or> sig \<ge> NSIG then Some (- errno_code EINVAL, k)
      else if sig = SIGKILL \<or> sig = SIGSTOP then Some (- errno_code EINVAL, k)
      else do {
        (p, x) \<leftarrow> current k;
        k \<leftarrow> (if ksa_old \<noteq> 0 then do { a \<leftarrow> action_of sig (pr_signal x); store_bytes ksa_old (sigaction_bytes a) k } else Some k);
        if ksa \<noteq> 0 then do {
          _ \<leftarrow> action_of sig (pr_signal x);
          ws \<leftarrow> load_words ksa 5 k;
          let a = sigaction_at ws;
          let a = a\<lparr>ksa_mask := snd (sigdelset (snd (sigdelset (ksa_mask a) SIGKILL)) SIGSTOP)\<rparr>;
          Some (0, upd_proc p (\<lambda>x. x\<lparr>pr_signal := (pr_signal x)\<lparr>sig_actions := (sig_actions (pr_signal x))[nat sig := a]\<rparr>\<rparr>) k)
        }
        else Some (0, k)
      })"

definition set_mask :: "pid \<Rightarrow> sigset \<Rightarrow> kernel \<Rightarrow> kernel" where
  "set_mask p m k = upd_proc p (\<lambda>x. x\<lparr>pr_signal := (pr_signal x)\<lparr>sig_mask := m\<rparr>\<rparr>) k"

definition process_sigprocmask :: "int \<Rightarrow> u32 \<Rightarrow> u32 \<Rightarrow> kernel \<Rightarrow> (int \<times> kernel) option" where
  "process_sigprocmask how new oldset k = do {
     (p, x) \<leftarrow> current k;
     let old = sig_mask (pr_signal x);
     (r, k) \<leftarrow>
       (if new \<noteq> 0 then
          if how = SIG_BLOCK then do {
            ws \<leftarrow> load_words new 2 k;
            Some (0, set_mask p (snd (sigdelset (snd (sigdelset (sigorset old (sigset_at ws)) SIGKILL)) SIGSTOP)) k)
          }
          else if how = SIG_UNBLOCK then do {
            ws \<leftarrow> load_words new 2 k;
            Some (0, set_mask p (sigandset old (signotset (sigset_at ws))) k)
          }
          else if how = SIG_SETMASK then do {
            ws \<leftarrow> load_words new 2 k;
            Some (0, set_mask p (snd (sigdelset (snd (sigdelset (sigset_at ws) SIGKILL)) SIGSTOP)) k)
          }
          else Some (- errno_code EINVAL, k)
        else Some (0, k));
     if r < 0 then Some (r, k)
     else if oldset \<noteq> 0 then do { k \<leftarrow> store_bytes oldset (sigset_bytes old) k; Some (0, k) }
     else Some (0, k)
   }"

definition process_sigreturn :: "kernel \<Rightarrow> kernel option" where
  "process_sigreturn k = do {
     (p, x) \<leftarrow> current k;
     (mask, signal_sp) \<leftarrow> pop_from_stack (c_sp (pr_context x)) 2 k;
     (context, _) \<leftarrow> pop_from_stack signal_sp 17 k;
     Some (upd_proc p (\<lambda>x. x\<lparr>pr_context := context_at context\<rparr>) (set_mask p (sigset_at mask) k))
   }"

text \<open>
  Delivery of a signal on the way back to the program: \<open>Some sig\<close> when the process is to be ended by it.
\<close>

definition deliver_signal :: "pid \<Rightarrow> process \<Rightarrow> kernel \<Rightarrow> (int option \<times> kernel) option" where
  "deliver_signal p x k =
     (let sg = pr_signal x;
          sig = sigpeekset (sigandset (sig_pending sg) (signotset (sig_mask sg)));
          done = upd_proc p (\<lambda>x. x\<lparr>pr_signal := (pr_signal x)\<lparr>sig_pending := snd (sigdelset (sig_pending (pr_signal x)) sig)\<rparr>\<rparr>)
      in if sig = 0 then Some (None, k)
         else do {
           a \<leftarrow> action_of sig sg;
           if ksa_handler a = SIG_DFL then
             Some (if sig = SIGCHLD \<or> sig = SIGURG \<or> sig = SIGWINCH then (None, done k) else (Some sig, k))
           else if ksa_handler a \<noteq> SIG_IGN then do {
             (sp, k) \<leftarrow> push_to_stack (c_sp (pr_context x)) (context_bytes (pr_context x)) k;
             (sp, k) \<leftarrow> push_to_stack sp (sigset_bytes (sig_mask sg)) k;
             let c = zero_context\<lparr>c_cpsr := 0x10, c_r := (replicate 13 0)[0 := word_of_int sig], c_sp := sp, c_lr := ksa_restorer a, c_pc := ksa_handler a\<rparr>;
             let m = snd (sigaddset (sigorset (sig_mask sg) (ksa_mask a)) sig);
             Some (None, done (set_mask p m (upd_proc p (\<lambda>x. x\<lparr>pr_context := c\<rparr>) k)))
           }
           else Some (None, done k)
         })"

subsection \<open>Reading and writing several buffers\<close>

text \<open>A call from the system call layer: what it returns, or where it is asleep.\<close>

datatype call = Ret int | Suspend blocked after

fun emulate_readv :: "nat \<Rightarrow> int \<Rightarrow> u32 \<Rightarrow> int \<Rightarrow> int \<Rightarrow> int \<Rightarrow> kernel \<Rightarrow> (call \<times> kernel) option" where
  "emulate_readv 0 fd iov iovcnt i nread k = Some (Ret nread, k)"
| "emulate_readv (Suc n) fd iov iovcnt i nread k = do {
     len \<leftarrow> load32 (iov + 8 * word_of_int i + 4) k;
     if len = 0 then emulate_readv n fd iov iovcnt (i + 1) nread k
     else do {
       base \<leftarrow> load32 (iov + 8 * word_of_int i) k;
       (r, k) \<leftarrow> process_read fd base len k;
       case r of
         Asleep b \<Rightarrow> Some (Suspend b (To_Readv fd iov iovcnt i nread), k)
       | Done r \<Rightarrow>
           if r < 0 then Some (Ret r, k)
           else do {
             len \<leftarrow> load32 (iov + 8 * word_of_int i + 4) k;
             if r = 0 \<or> len \<noteq> word_of_int r then Some (Ret (nread + r), k)
             else emulate_readv n fd iov iovcnt (i + 1) (nread + r) k
           }
     }
   }"

fun emulate_writev :: "nat \<Rightarrow> int \<Rightarrow> u32 \<Rightarrow> int \<Rightarrow> int \<Rightarrow> int \<Rightarrow> kernel \<Rightarrow> (call \<times> kernel) option" where
  "emulate_writev 0 fd iov iovcnt i nwritten k = Some (Ret nwritten, k)"
| "emulate_writev (Suc n) fd iov iovcnt i nwritten k = do {
     len \<leftarrow> load32 (iov + 8 * word_of_int i + 4) k;
     if len = 0 then emulate_writev n fd iov iovcnt (i + 1) nwritten k
     else do {
       base \<leftarrow> load32 (iov + 8 * word_of_int i) k;
       (r, k) \<leftarrow> process_write fd base len k;
       case r of
         Asleep b \<Rightarrow> Some (Suspend b (To_Writev fd iov iovcnt i nwritten), k)
       | Done r \<Rightarrow>
           if r < 0 then Some (Ret r, k)
           else do {
             len \<leftarrow> load32 (iov + 8 * word_of_int i + 4) k;
             if len \<noteq> word_of_int r then Some (Ret (nwritten + r), k)
             else emulate_writev n fd iov iovcnt (i + 1) (nwritten + r) k
           }
     }
   }"

definition process_readv :: "int \<Rightarrow> u32 \<Rightarrow> int \<Rightarrow> kernel \<Rightarrow> (call \<times> kernel) option" where
  "process_readv fd iov iovcnt k = emulate_readv (nat iovcnt) fd iov iovcnt 0 0 k"

definition process_writev :: "int \<Rightarrow> u32 \<Rightarrow> int \<Rightarrow> kernel \<Rightarrow> (call \<times> kernel) option" where
  "process_writev fd iov iovcnt k = emulate_writev (nat iovcnt) fd iov iovcnt 0 0 k"

subsection \<open>Sleeping and the scheduler\<close>

text \<open>\<open>args[0] = r\<close>, in the saved context of the calling process.\<close>

definition set_return :: "u32 \<Rightarrow> kernel \<Rightarrow> kernel option" where
  "set_return w k = do {
     (p, x) \<leftarrow> current k;
     Some (set_proc p (x\<lparr>pr_context := (pr_context x)\<lparr>c_r := (c_r (pr_context x))[0 := w]\<rparr>\<rparr>) k)
   }"

text \<open>
  The end of a call: its result is returned to the program, or the place where it sleeps is kept.  A
  sleeping process has been blocked on its queue by the call.
\<close>

definition finish_call :: "call \<Rightarrow> kernel \<Rightarrow> kernel option" where
  "finish_call c k =
     (case c of
        Ret r \<Rightarrow> set_return (word_of_int r) k
      | Suspend b a \<Rightarrow> do { (p, x) \<leftarrow> current k; Some (set_proc p (x\<lparr>pr_suspend := Some (b, a)\<rparr>) k) })"

definition call_of :: "after \<Rightarrow> io \<Rightarrow> call" where
  "call_of a r = (case r of Done n \<Rightarrow> Ret n | Asleep b \<Rightarrow> Suspend b a)"

text \<open>A call that was asleep goes on where \<^verbatim>\<open>process_sleep\<close> returns.\<close>

definition run_blocked :: "blocked \<Rightarrow> kernel \<Rightarrow> (io \<times> kernel) option" where
  "run_blocked b k =
     (case b of
        In_Pipe_Read i addr sz got \<Rightarrow> run_pipe_read i addr sz got k
      | In_Pipe_Write i addr sz written \<Rightarrow> run_pipe_write i addr sz written k
      | In_Tty_Read addr sz got echo \<Rightarrow> do {
          me \<leftarrow> k_current k;
          r \<leftarrow> tty_read_again me sz got echo (k_states k) (k_tty k);
          end_tty_read addr sz k r
        }
      | In_Tty_Write addr sz i \<Rightarrow> do {
          me \<leftarrow> k_current k;
          r \<leftarrow> tty_write_again me (drop i (peek_bytes addr sz k)) (k_states k) (k_tty k);
          end_tty_write addr sz k r
        }
      | In_Wait status \<Rightarrow> run_wait status k)"

definition run_after :: "after \<Rightarrow> io \<Rightarrow> kernel \<Rightarrow> (call \<times> kernel) option" where
  "run_after a r k =
     (case a of
        To_Caller \<Rightarrow> Some (call_of a r, k)
      | To_Readv fd iov iovcnt i nread \<Rightarrow>
          (case r of
             Asleep b \<Rightarrow> Some (Suspend b a, k)
           | Done n \<Rightarrow>
               if n < 0 then Some (Ret n, k)
               else do {
                 len \<leftarrow> load32 (iov + 8 * word_of_int i + 4) k;
                 if n = 0 \<or> len \<noteq> word_of_int n then Some (Ret (nread + n), k)
                 else emulate_readv (nat (iovcnt - (i + 1))) fd iov iovcnt (i + 1) (nread + n) k
               })
      | To_Writev fd iov iovcnt i nwritten \<Rightarrow>
          (case r of
             Asleep b \<Rightarrow> Some (Suspend b a, k)
           | Done n \<Rightarrow>
               if n < 0 then Some (Ret n, k)
               else do {
                 len \<leftarrow> load32 (iov + 8 * word_of_int i + 4) k;
                 if len \<noteq> word_of_int n then Some (Ret (nwritten + n), k)
                 else emulate_writev (nat (iovcnt - (i + 1))) fd iov iovcnt (i + 1) (nwritten + n) k
               }))"

definition resume_call :: "blocked \<Rightarrow> after \<Rightarrow> kernel \<Rightarrow> kernel option" where
  "resume_call b a k = do {
     (r, k) \<leftarrow> run_blocked b k;
     (c, k) \<leftarrow> run_after a r k;
     finish_call c k
   }"

definition process_schedule :: "kernel \<Rightarrow> kernel" where
  "process_schedule k =
     k\<lparr>k_run := fold (\<lambda>p q. if k_states k p = STATE_READY then p # q else q) (k_all k) (k_run k)\<rparr>"

definition process_dequeue :: "kernel \<Rightarrow> bool \<times> kernel" where
  "process_dequeue k =
     (case k_run k of
        [] \<Rightarrow> (False, k\<lparr>k_current := None\<rparr>)
      | p # q \<Rightarrow> (True, k\<lparr>k_run := q, k_current := Some p\<rparr>))"

text \<open>
  Where the kernel goes: to the program of the current process, to wait for an interrupt, or into
  \<^verbatim>\<open>process_switch\<close> again, after a call that slept has run on or a signal has ended the process.
\<close>

datatype destination = To_User | To_Idle | To_Switch

definition process_dispatch :: "kernel \<Rightarrow> (destination \<times> kernel) option" where
  "process_dispatch k = do {
     (p, x) \<leftarrow> current k;
     (_, k) \<leftarrow> switch_ttb p k;
     case pr_suspend x of
       Some (b, a) \<Rightarrow> do {
         k \<leftarrow> resume_call b a (set_proc p (x\<lparr>pr_suspend := None\<rparr>) k);
         Some (To_Switch, k)
       }
     | None \<Rightarrow> do {
         (dead, k) \<leftarrow> deliver_signal p x k;
         case dead of
           None \<Rightarrow> Some (To_User, k)
         | Some sig \<Rightarrow> do { k \<leftarrow> process_exit (WAIT_SIGNAL (word_of_int sig)) k; Some (To_Switch, k) }
       }
   }"

text \<open>One pass of \<^verbatim>\<open>process_switch\<close>, up to the next call of it.\<close>

definition switch_once :: "kernel \<Rightarrow> (destination \<times> kernel) option" where
  "switch_once k =
     (let k = (if k_run k = [] then process_schedule k else k);
          (found, k) = process_dequeue k
      in if found then process_dispatch k else Some (To_Idle, k))"

partial_function (option) process_switch :: "kernel \<Rightarrow> (destination \<times> kernel) option" where
  "process_switch k =
     Option.bind (switch_once k) (\<lambda>(n, k). case n of To_Switch \<Rightarrow> process_switch k | _ \<Rightarrow> Some (n, k))"

end
