(* ===== verification/Cy_Syscall.thy ===== *)
theory Cy_Syscall
  imports Cy_Process
begin

text \<open>
  \<^verbatim>\<open>syscall.c\<close>: the checks of pointers that come from a program, one function per system call, and the
  table.  A call works on the saved context of the current process; the scheduler runs after it, see
  \<^theory_text>\<open>Cy_System\<close>.
\<close>

subsection \<open>Checks\<close>

definition check_address_range :: "u32 \<Rightarrow> u32 \<Rightarrow> bool" where
  "check_address_range p s \<longleftrightarrow>
     (if add_overflow_unsigned_long p s then False else IS_USER_ADDRESSS p \<and> IS_USER_ADDRESSS (p + s))"

text \<open>The loop over the vectors, \<open>n\<close> of them from \<open>iov\<close> on.\<close>

fun check_iovec :: "nat \<Rightarrow> u32 \<Rightarrow> kernel \<Rightarrow> bool option" where
  "check_iovec 0 iov k = Some True"
| "check_iovec (Suc n) iov k =
     (if \<not> check_address_range iov 8 then Some False
      else do {
        len \<leftarrow> load32 (iov + 4) k;
        if len = 0 then check_iovec n (iov + 8) k
        else do {
          base \<leftarrow> load32 iov k;
          if \<not> check_address_range base len then Some False else check_iovec n (iov + 8) k
        }
      })"

lemma user_address_next:
  assumes "IS_USER_ADDRESSS s" "0 < d" "d \<le> 4"
  shows "unat USER_ADDRESS_END - unat (s + d) < unat USER_ADDRESS_END - unat s"
proof -
  have s: "unat s < 0x60000000" using assms(1) by (simp add: IS_USER_ADDRESSS_def USER_ADDRESS_END_def word_less_nat_alt)
  have d: "0 < unat d" "unat d \<le> 4" using assms(2,3) by (simp_all add: word_less_nat_alt word_le_nat_alt)
  have "unat (s + d) = unat s + unat d" using s d by (simp add: unat_word_ariths)
  then show ?thesis using s d by (simp add: USER_ADDRESS_END_def)
qed

function check_string :: "u32 \<Rightarrow> kernel \<Rightarrow> bool option" where
  "check_string s k =
     (if \<not> IS_USER_ADDRESSS s then Some False
      else Option.bind (load8 s k) (\<lambda>b. if b = 0 then Some True else check_string (s + 1) k))"
  by pat_completeness auto
termination
  by (relation "measure (\<lambda>(s, k). unat USER_ADDRESS_END - unat s)") (auto intro: user_address_next)

function check_pointers :: "u32 \<Rightarrow> kernel \<Rightarrow> bool option" where
  "check_pointers avep k =
     (if \<not> IS_USER_ADDRESSS avep then Some False
      else
        Option.bind (load32 avep k) (\<lambda>s.
          if s = 0 then Some True
          else Option.bind (check_string s k) (\<lambda>ok. if \<not> ok then Some False else check_pointers (avep + 4) k)))"
  by pat_completeness auto
termination
  by (relation "measure (\<lambda>(s, k). unat USER_ADDRESS_END - unat s)") (auto intro: user_address_next)

declare check_string.simps [simp del] check_pointers.simps [simp del]

definition check_avep :: "u32 \<Rightarrow> kernel \<Rightarrow> bool option" where
  "check_avep avep k = (if avep = 0 then Some True else check_pointers avep k)"

subsection \<open>Arguments and answers\<close>

definition arg :: "nat \<Rightarrow> kernel \<Rightarrow> u32 option" where
  "arg i k = do { (_, x) \<leftarrow> current k; Some (c_r (pr_context x) ! i) }"

definition answer :: "(int \<times> kernel) option \<Rightarrow> kernel option" where
  "answer r = do { (n, k) \<leftarrow> r; set_return (word_of_int n) k }"

definition fault :: "kernel \<Rightarrow> kernel option" where
  "fault k = set_return (word_of_int (- errno_code EFAULT)) k"

text \<open>The calls that can sleep.\<close>

definition blocking :: "(io \<times> kernel) option \<Rightarrow> kernel option" where
  "blocking r = do { (io, k) \<leftarrow> r; finish_call (call_of To_Caller io) k }"

definition answer_vfs :: "(int \<times> vfs) option \<Rightarrow> kernel \<Rightarrow> kernel option" where
  "answer_vfs r k = do { (n, v) \<leftarrow> r; set_return (word_of_int n) (k\<lparr>k_vfs := v\<rparr>) }"

subsection \<open>The calls\<close>

definition syscall_exit :: "kernel \<Rightarrow> kernel option" where
  "syscall_exit k = do { status \<leftarrow> arg 0 k; process_exit (WAIT_EXIT_CODE status) k }"

definition syscall_fork :: "kernel \<Rightarrow> kernel option" where
  "syscall_fork k = do { (_, x) \<leftarrow> current k; answer (process_fork (pr_context x) k) }"

definition syscall_read :: "kernel \<Rightarrow> kernel option" where
  "syscall_read k = do {
     fd \<leftarrow> arg 0 k; data \<leftarrow> arg 1 k; sz \<leftarrow> arg 2 k;
     if \<not> check_address_range data sz then fault k else blocking (process_read (sint fd) data sz k)
   }"

definition syscall_write :: "kernel \<Rightarrow> kernel option" where
  "syscall_write k = do {
     fd \<leftarrow> arg 0 k; data \<leftarrow> arg 1 k; sz \<leftarrow> arg 2 k;
     if \<not> check_address_range data sz then fault k else blocking (process_write (sint fd) data sz k)
   }"

text \<open>The calls on a path begin with the check of the string.\<close>

definition with_path :: "u32 \<Rightarrow> kernel \<Rightarrow> (u8 list \<Rightarrow> kernel option) \<Rightarrow> kernel option" where
  "with_path a k body = do {
     ok \<leftarrow> check_string a k;
     if \<not> ok then fault k else do { path \<leftarrow> load_string a k; body path }
   }"

definition syscall_open :: "kernel \<Rightarrow> kernel option" where
  "syscall_open k = do {
     a \<leftarrow> arg 0 k; flags \<leftarrow> arg 1 k; mode \<leftarrow> arg 2 k;
     with_path a k (\<lambda>path. answer (process_open path flags mode k))
   }"

definition syscall_close :: "kernel \<Rightarrow> kernel option" where
  "syscall_close k = do { fd \<leftarrow> arg 0 k; answer (process_close (sint fd) k) }"

definition syscall_unlink :: "kernel \<Rightarrow> kernel option" where
  "syscall_unlink k = do { a \<leftarrow> arg 0 k; with_path a k (\<lambda>path. answer_vfs (fs_unlink path (k_vfs k)) k) }"

definition syscall_execve :: "kernel \<Rightarrow> kernel option" where
  "syscall_execve k = do {
     a \<leftarrow> arg 0 k; argv \<leftarrow> arg 1 k; envp \<leftarrow> arg 2 k;
     with_path a k (\<lambda>path. do {
       ok \<leftarrow> check_avep argv k;
       ok' \<leftarrow> (if ok then check_avep envp k else Some False);
       if \<not> ok' then fault k
       else do {
         args \<leftarrow> load_avep argv k;
         env \<leftarrow> load_avep envp k;
         (r, k) \<leftarrow> process_exec path args env k;
         if r < 0 then set_return (word_of_int r) k else Some k
       }
     })
   }"

definition syscall_getpid :: "kernel \<Rightarrow> kernel option" where
  "syscall_getpid k = do { r \<leftarrow> process_getpid k; set_return (word_of_int r) k }"

definition syscall_getppid :: "kernel \<Rightarrow> kernel option" where
  "syscall_getppid k = do { r \<leftarrow> process_getppid k; set_return (word_of_int r) k }"

definition syscall_kill :: "kernel \<Rightarrow> kernel option" where
  "syscall_kill k = do { pid \<leftarrow> arg 0 k; sig \<leftarrow> arg 1 k; answer (process_kill (sint pid) (sint sig) k) }"

definition syscall_mkdir :: "kernel \<Rightarrow> kernel option" where
  "syscall_mkdir k = do { a \<leftarrow> arg 0 k; mode \<leftarrow> arg 1 k; with_path a k (\<lambda>path. answer_vfs (fs_mkdir path (unat mode) (k_vfs k)) k) }"

definition syscall_rmdir :: "kernel \<Rightarrow> kernel option" where
  "syscall_rmdir k = do { a \<leftarrow> arg 0 k; with_path a k (\<lambda>path. answer_vfs (fs_rmdir path (k_vfs k)) k) }"

definition syscall_dup :: "kernel \<Rightarrow> kernel option" where
  "syscall_dup k = do { fd \<leftarrow> arg 0 k; answer (process_dupfd (sint fd) 0 0 k) }"

definition syscall_dup2 :: "kernel \<Rightarrow> kernel option" where
  "syscall_dup2 k = do { oldfd \<leftarrow> arg 0 k; newfd \<leftarrow> arg 1 k; answer (process_dup2 (sint oldfd) (sint newfd) k) }"

definition syscall_dup3 :: "kernel \<Rightarrow> kernel option" where
  "syscall_dup3 k = do {
     oldfd \<leftarrow> arg 0 k; newfd \<leftarrow> arg 1 k; flags \<leftarrow> arg 2 k;
     answer (process_dup3 (sint oldfd) (sint newfd) flags k)
   }"

definition syscall_pipe :: "kernel \<Rightarrow> kernel option" where
  "syscall_pipe k = do {
     pipefd \<leftarrow> arg 0 k;
     if \<not> check_address_range pipefd 8 then fault k else answer (process_pipe pipefd k)
   }"

definition syscall_pipe2 :: "kernel \<Rightarrow> kernel option" where
  "syscall_pipe2 k = do {
     pipefd \<leftarrow> arg 0 k; flags \<leftarrow> arg 1 k;
     if \<not> check_address_range pipefd 8 then fault k else answer (process_pipe2 pipefd flags k)
   }"

definition syscall_brk :: "kernel \<Rightarrow> kernel option" where
  "syscall_brk k = do { address \<leftarrow> arg 0 k; (r, k) \<leftarrow> process_brk address k; set_return r k }"

definition syscall_ioctl :: "kernel \<Rightarrow> kernel option" where
  "syscall_ioctl k = do {
     fd \<leftarrow> arg 0 k; request \<leftarrow> arg 1 k; argp \<leftarrow> arg 2 k;
     if request = TCGETS \<or> request = TCSETS \<or> request = TCSETSW \<or> request = TCSETSF then
       if \<not> check_address_range argp (of_nat sizeof_termios) then fault k
       else answer (process_ioctl (sint fd) request argp k)
     else if request = TIOCGWINSZ then
       if \<not> check_address_range argp 8 then fault k
       else answer (process_ioctl (sint fd) request argp k)
     else answer (process_ioctl (sint fd) request 0 k)
   }"

definition syscall_rt_sigaction :: "kernel \<Rightarrow> kernel option" where
  "syscall_rt_sigaction k = do {
     signum \<leftarrow> arg 0 k; ksa \<leftarrow> arg 1 k; ksa_old \<leftarrow> arg 2 k;
     if ksa \<noteq> 0 \<and> \<not> check_address_range ksa 20 then fault k
     else if ksa_old \<noteq> 0 \<and> \<not> check_address_range ksa_old 20 then fault k
     else answer (process_sigaction (sint signum) ksa ksa_old k)
   }"

definition syscall_rt_sigprocmask :: "kernel \<Rightarrow> kernel option" where
  "syscall_rt_sigprocmask k = do {
     how \<leftarrow> arg 0 k; new \<leftarrow> arg 1 k; oldset \<leftarrow> arg 2 k;
     if new \<noteq> 0 \<and> \<not> check_address_range new 8 then fault k
     else if oldset \<noteq> 0 \<and> \<not> check_address_range oldset 8 then fault k
     else answer (process_sigprocmask (sint how) new oldset k)
   }"

definition syscall_wait4 :: "kernel \<Rightarrow> kernel option" where
  "syscall_wait4 k = do {
     status \<leftarrow> arg 1 k;
     if \<not> check_address_range status 4 then fault k else blocking (process_wait status k)
   }"

definition syscall_sigreturn :: "kernel \<Rightarrow> kernel option" where
  "syscall_sigreturn k = process_sigreturn k"

text \<open>
  \<^verbatim>\<open>system_uname\<close>.  The names of the system are in a header the build generates: a parameter.  Every
  array of \<^verbatim>\<open>struct utsname\<close> has 65 bytes.
\<close>

record config =
  CYANURUS_SYSNAME :: "u8 list"
  CYANURUS_RELEASE :: "u8 list"
  CYANURUS_VERSION :: "u8 list"
  CYANURUS_MACHINE :: "u8 list"

definition none_name :: "u8 list" where "none_name = [0x28, 0x6e, 0x6f, 0x6e, 0x65, 0x29]"

fun store_names :: "u32 \<Rightarrow> u8 list list \<Rightarrow> kernel \<Rightarrow> kernel option" where
  "store_names a [] k = Some k"
| "store_names a (s # ss) k = do { k \<leftarrow> store_bytes a (s @ [0]) k; store_names (a + 65) ss k }"

definition system_uname :: "config \<Rightarrow> u32 \<Rightarrow> kernel \<Rightarrow> (int \<times> kernel) option" where
  "system_uname cfg uts k = do {
     k \<leftarrow> store_names uts [CYANURUS_SYSNAME cfg, none_name, CYANURUS_RELEASE cfg, CYANURUS_VERSION cfg, CYANURUS_MACHINE cfg, none_name] k;
     Some (0, k)
   }"

definition syscall_uname :: "config \<Rightarrow> kernel \<Rightarrow> kernel option" where
  "syscall_uname cfg k = do {
     uts \<leftarrow> arg 0 k;
     if \<not> check_address_range uts 390 then fault k else answer (system_uname cfg uts k)
   }"

definition answer_call :: "(call \<times> kernel) option \<Rightarrow> kernel option" where
  "answer_call r = do { (c, k) \<leftarrow> r; finish_call c k }"

definition syscall_readv :: "kernel \<Rightarrow> kernel option" where
  "syscall_readv k = do {
     fd \<leftarrow> arg 0 k; iov \<leftarrow> arg 1 k; iovcnt \<leftarrow> arg 2 k;
     ok \<leftarrow> check_iovec (nat (sint iovcnt)) iov k;
     if \<not> ok then fault k else answer_call (process_readv (sint fd) iov (sint iovcnt) k)
   }"

definition syscall_writev :: "kernel \<Rightarrow> kernel option" where
  "syscall_writev k = do {
     fd \<leftarrow> arg 0 k; iov \<leftarrow> arg 1 k; iovcnt \<leftarrow> arg 2 k;
     ok \<leftarrow> check_iovec (nat (sint iovcnt)) iov k;
     if \<not> ok then fault k else answer_call (process_writev (sint fd) iov (sint iovcnt) k)
   }"

definition syscall__llseek :: "kernel \<Rightarrow> kernel option" where
  "syscall__llseek k = do {
     fd \<leftarrow> arg 0 k; high \<leftarrow> arg 1 k; low \<leftarrow> arg 2 k; result \<leftarrow> arg 3 k; whence \<leftarrow> arg 4 k;
     let offset = push_bit 32 (ucast high) OR ucast low;
     if \<not> check_address_range result 8 then fault k
     else do {
       (r, k) \<leftarrow> process_llseek (sint fd) offset (sint whence) k;
       if r < 0 then set_return (word_of_int r) k
       else do {
         k \<leftarrow> store_bytes result (bytes32 (word_of_int r) @ bytes32 (word_of_int (r div 2 ^ 32))) k;
         set_return 0 k
       }
     }
   }"

definition syscall_getcwd :: "kernel \<Rightarrow> kernel option" where
  "syscall_getcwd k = do {
     buf \<leftarrow> arg 0 k; sz \<leftarrow> arg 1 k;
     if sz < 2 then set_return (word_of_int (- errno_code ERANGE)) k
     else if \<not> check_address_range buf sz then fault k
     else store_bytes buf [0x2f, 0] k
   }"

definition syscall_lstat64 :: "kernel \<Rightarrow> kernel option" where
  "syscall_lstat64 k = do {
     a \<leftarrow> arg 0 k; buf \<leftarrow> arg 1 k;
     with_path a k (\<lambda>path.
       if \<not> check_address_range buf 104 then fault k
       else do {
         (r, st, v) \<leftarrow> fs_lstat64 path (k_vfs k);
         k \<leftarrow> store_stat buf st (k\<lparr>k_vfs := v\<rparr>);
         set_return (word_of_int r) k
       })
   }"

text \<open>There are no symbolic links, and \<^verbatim>\<open>syscall_stat64\<close> has the same body.\<close>

definition syscall_stat64 :: "kernel \<Rightarrow> kernel option" where
  "syscall_stat64 k = syscall_lstat64 k"

definition syscall_fstat64 :: "kernel \<Rightarrow> kernel option" where
  "syscall_fstat64 k = do {
     fd \<leftarrow> arg 0 k; buf \<leftarrow> arg 1 k;
     if \<not> check_address_range buf 104 then fault k else answer (process_fstat64 (sint fd) buf k)
   }"

definition syscall_getdents64 :: "kernel \<Rightarrow> kernel option" where
  "syscall_getdents64 k = do {
     fd \<leftarrow> arg 0 k; data \<leftarrow> arg 1 k; sz \<leftarrow> arg 2 k;
     if \<not> check_address_range data sz then fault k else answer (process_getdents64 (sint fd) data sz k)
   }"

definition syscall_fcntl64 :: "kernel \<Rightarrow> kernel option" where
  "syscall_fcntl64 k = do {
     fd \<leftarrow> arg 0 k; cmd \<leftarrow> arg 1 k; remaining \<leftarrow> arg 2 k;
     answer (process_fcntl64 (sint fd) cmd remaining k)
   }"

definition syscall_pass :: "int \<Rightarrow> kernel \<Rightarrow> kernel option" where
  "syscall_pass ret k = set_return (word_of_int ret) k"

subsection \<open>The table\<close>

definition syscall_table :: "config \<Rightarrow> (u32 \<times> (kernel \<Rightarrow> kernel option)) list" where
  "syscall_table cfg =
     [(1, syscall_exit), (2, syscall_fork), (3, syscall_read), (4, syscall_write), (5, syscall_open), (6, syscall_close),
      (10, syscall_unlink), (11, syscall_execve), (20, syscall_getpid), (37, syscall_kill), (39, syscall_mkdir),
      (40, syscall_rmdir), (41, syscall_dup), (42, syscall_pipe), (45, syscall_brk), (54, syscall_ioctl),
      (63, syscall_dup2), (64, syscall_getppid), (114, syscall_wait4), (119, syscall_sigreturn),
      (122, syscall_uname cfg), (140, syscall__llseek), (145, syscall_readv), (146, syscall_writev),
      (174, syscall_rt_sigaction), (175, syscall_rt_sigprocmask), (183, syscall_getcwd), (195, syscall_stat64),
      (196, syscall_lstat64), (197, syscall_fstat64), (217, syscall_getdents64), (221, syscall_fcntl64),
      (358, syscall_dup3), (359, syscall_pipe2), (248, syscall_pass 0), (270, syscall_pass 0),
      (199, syscall_pass 1), (200, syscall_pass 1), (201, syscall_pass 1), (202, syscall_pass 1)]"

definition syscall_handler :: "config \<Rightarrow> kernel \<Rightarrow> kernel option" where
  "syscall_handler cfg k = do {
     number \<leftarrow> arg 7 k;
     case map_of (syscall_table cfg) number of
       Some call \<Rightarrow> call k
     | None \<Rightarrow> syscall_pass (- errno_code EINVAL) k
   }"

end
