(* ===== verification/Cy_System.thy ===== *)
theory Cy_System
  imports Cy_Syscall
begin

text \<open>
  \<^verbatim>\<open>system.c\<close> and \<^verbatim>\<open>kernel.c\<close>: the start of the system, the exception handlers, and the machine as a step
  relation.  Every handler ends in \<^verbatim>\<open>process_switch\<close>, which does not return to it; its passes are steps of
  their own.
\<close>

subsection \<open>Handlers\<close>

definition IRQ_TIMER01 :: u32 where "IRQ_TIMER01 = 34"
definition IRQ_UART0 :: u32 where "IRQ_UART0 = 37"
definition DFSR_FS :: "u32 \<Rightarrow> u32" where "DFSR_FS dfsr = dfsr AND (push_bit 5 1 - 1)"

definition IS_USER_MODE :: "process_context \<Rightarrow> bool" where
  "IS_USER_MODE c \<longleftrightarrow> c_cpsr c AND (push_bit 5 1 - 1) = 0x10"

text \<open>On entry the registers are stored in the current process, if there is one (\<^verbatim>\<open>asm/vectors.s\<close>).\<close>

definition process_set_context :: "process_context \<Rightarrow> kernel \<Rightarrow> kernel" where
  "process_set_context c k =
     (case k_current k of None \<Rightarrow> k | Some p \<Rightarrow> upd_proc p (\<lambda>x. x\<lparr>pr_context := c\<rparr>) k)"

text \<open>The timer and an unknown interrupt change nothing the model has.\<close>

definition system_irq_handler :: "u32 \<Rightarrow> kernel \<Rightarrow> kernel" where
  "system_irq_handler irq k =
     (if irq = IRQ_TIMER01 then k
      else if irq = IRQ_UART0 then
        let (st, t) = tty_resume (k_states k) (k_tty k) in k\<lparr>k_states := st, k_tty := t\<rparr>
      else k)"

definition system_svc_handler :: "config \<Rightarrow> kernel \<Rightarrow> kernel option" where
  "system_svc_handler cfg k = syscall_handler cfg k"

definition system_data_abort_handler :: "u32 \<Rightarrow> u32 \<Rightarrow> kernel \<Rightarrow> kernel option" where
  "system_data_abort_handler dfsr dfar k = do {
     (p, x) \<leftarrow> current k;
     if \<not> IS_USER_MODE (pr_context x) then None
     else do {
       (ok, k) \<leftarrow> (if DFSR_FS dfsr = 0x05 \<or> DFSR_FS dfsr = 0x07 then process_demand_page dfar k else Some (False, k));
       if ok then Some k else do { (_, k) \<leftarrow> process_kill (int p) SIGSEGV k; Some k }
     }
   }"

subsection \<open>Start\<close>

definition sbin_init :: "u8 list" where
  "sbin_init = [0x2f, 0x73, 0x62, 0x69, 0x6e, 0x2f, 0x69, 0x6e, 0x69, 0x74]"

text \<open>
  What the disk, the memory and the serial port hold at the start, and which requests of the block cache for memory
  will be granted.
\<close>

definition system_init :: "(nat \<Rightarrow> data) \<Rightarrow> data \<Rightarrow> (nat \<Rightarrow> bool) \<Rightarrow> (u32 \<Rightarrow> u32) \<Rightarrow> uart \<Rightarrow> (pid \<Rightarrow> u32 \<Rightarrow> u8) \<Rightarrow> (u32 \<Rightarrow> u8) \<Rightarrow> kernel option" where
  "system_init disk0 page memory tables u mem stale = do {
     v \<leftarrow> fs_init disk0 page memory;
     m \<leftarrow> mmu_init buddy_init tables;
     Some (process_init v m (tty_init u) mem stale)
   }"

definition run_init :: "kernel \<Rightarrow> kernel option" where
  "run_init k = do {
     (r, k) \<leftarrow> process_create sbin_init k;
     if r < 0 then None else Some k
   }"

subsection \<open>The machine\<close>

text \<open>
  A program computes on its registers and on its own memory until it traps or is interrupted: then the
  registers are any with the mode bits of user mode, and its memory holds anything.  This is what the processor
  promises for a program that was started in user mode, and only then: a process whose saved registers have other
  mode bits runs with the rights of the kernel, and the machine has no step for it.  The kernel itself starts programs
  in user mode; but \<^verbatim>\<open>sigreturn\<close> takes the mode bits from the memory of the program, unchecked.
\<close>

definition in_user_mode :: "kernel \<Rightarrow> bool" where
  "in_user_mode k \<longleftrightarrow> (case current k of Some (_, x) \<Rightarrow> IS_USER_MODE (pr_context x) | None \<Rightarrow> False)"

definition user_runs :: "(u32 \<Rightarrow> u8) \<Rightarrow> kernel \<Rightarrow> kernel" where
  "user_runs mem k = (case k_current k of None \<Rightarrow> k | Some p \<Rightarrow> k\<lparr>k_user := (k_user k)(p := mem)\<rparr>)"

definition user_context :: "process_context \<Rightarrow> bool" where
  "user_context c \<longleftrightarrow> IS_USER_MODE c \<and> length (c_r c) = 13"

definition enter :: "process_context \<Rightarrow> (u32 \<Rightarrow> u8) \<Rightarrow> kernel \<Rightarrow> kernel" where
  "enter c mem k = process_set_context c (user_runs mem k)"

inductive kstep :: "config \<Rightarrow> destination \<times> kernel \<Rightarrow> destination \<times> kernel \<Rightarrow> bool" for cfg where
  svc: "in_user_mode k \<Longrightarrow> user_context c \<Longrightarrow> system_svc_handler cfg (enter c mem k) = Some k' \<Longrightarrow> kstep cfg (To_User, k) (To_Switch, k')"
| abort: "in_user_mode k \<Longrightarrow> user_context c \<Longrightarrow> system_data_abort_handler dfsr dfar (enter c mem k) = Some k' \<Longrightarrow> kstep cfg (To_User, k) (To_Switch, k')"
| irq: "in_user_mode k \<Longrightarrow> user_context c \<Longrightarrow> kstep cfg (To_User, k) (To_Switch, system_irq_handler irq (enter c mem k))"
| wake: "kstep cfg (To_Idle, k) (To_Switch, system_irq_handler irq k)"
| switch: "switch_once k = Some (n, k') \<Longrightarrow> kstep cfg (To_Switch, k) (n, k')"
| device: "kstep cfg (n, k) (n, k\<lparr>k_tty := (k_tty k)\<lparr>t_uart := u\<rparr>\<rparr>)"

inductive reachable :: "config \<Rightarrow> destination \<times> kernel \<Rightarrow> bool" for cfg where
  start: "system_init disk0 page memory tables u mem stale = Some k \<Longrightarrow> run_init k = Some k' \<Longrightarrow> reachable cfg (To_Switch, k')"
| step: "reachable cfg s \<Longrightarrow> kstep cfg s s' \<Longrightarrow> reachable cfg s'"

inductive_cases kstepE: "kstep cfg s s'"

end
