(* ===== verification/Cy_Kernel_Inv.thy ===== *)
theory Cy_Kernel_Inv
  imports Cy_System
begin

text \<open>
  The invariant of the kernel's own structures: reference counts of open files, the ends of pipes, the
  process table and tree, the run queue and the wait queues.  This theory defines it and shows how the
  small operations change it; \<^theory_text>\<open>Cy_Kernel_Correct\<close> carries it through every call and handler.
\<close>

subsection \<open>What the invariant looks at\<close>

definition files_of :: "kernel \<Rightarrow> pid \<Rightarrow> nat option list" where
  "files_of k p = (case k_procs k p of Some x \<Rightarrow> pr_files x | None \<Rightarrow> [])"

text \<open>The descriptors of all processes that refer to a file, and the count in the file.\<close>

definition refs :: "kernel \<Rightarrow> nat \<Rightarrow> nat" where
  "refs k f = (\<Sum>p \<in> set (k_all k). count_list (files_of k p) (Some f))"

definition cnt :: "kernel \<Rightarrow> nat \<Rightarrow> nat" where
  "cnt k f = (case k_files k f of Some x \<Rightarrow> f_count x | None \<Rightarrow> 0)"

text \<open>The pipe of a file with the end it is, and how many opens an end has.\<close>

type_synonym pipe_end = "nat \<times> u32"

definition end_of :: "kernel \<Rightarrow> nat \<Rightarrow> pipe_end option" where
  "end_of k f = (case k_files k f of
     Some x \<Rightarrow> if f_type x = FF_PIPE then Some (f_ref x, f_flags x AND O_ACCMODE) else None
   | None \<Rightarrow> None)"

definition opens_at :: "kernel \<Rightarrow> nat \<Rightarrow> pipe_end \<Rightarrow> nat" where
  "opens_at k f e = (if end_of k f = Some e then cnt k f else 0)"

definition opens :: "kernel \<Rightarrow> pipe_end \<Rightarrow> nat" where
  "opens k e = (\<Sum>f < k_next_file k. opens_at k f e)"

definition has_end :: "kernel \<Rightarrow> pid \<Rightarrow> pipe_end \<Rightarrow> bool" where
  "has_end k p e \<longleftrightarrow> (\<exists>f. Some f \<in> set (files_of k p) \<and> end_of k f = Some e)"

text \<open>All wait queues, by name, and the queue on which a call sleeps.\<close>

datatype queue_name = Children | Terminal_In | Terminal_Out | Readers nat | Writers nat

definition queue :: "kernel \<Rightarrow> queue_name \<Rightarrow> waitq" where
  "queue k q = (case q of
     Children \<Rightarrow> k_child_waitq k
   | Terminal_In \<Rightarrow> tty_read_waitq (k_tty k)
   | Terminal_Out \<Rightarrow> tty_write_waitq (k_tty k)
   | Readers i \<Rightarrow> (case k_pipes k i of Some p \<Rightarrow> p_readers_waitq p | None \<Rightarrow> [])
   | Writers i \<Rightarrow> (case k_pipes k i of Some p \<Rightarrow> p_writers_waitq p | None \<Rightarrow> []))"

fun site :: "blocked \<Rightarrow> queue_name" where
  "site (In_Pipe_Read i addr sz got) = Readers i"
| "site (In_Pipe_Write i addr sz n) = Writers i"
| "site (In_Tty_Read addr sz got None) = Terminal_In"
| "site (In_Tty_Read addr sz got (Some c)) = Terminal_Out"
| "site (In_Tty_Write addr sz n) = Terminal_Out"
| "site (In_Wait status) = Children"

definition suspended_in :: "kernel \<Rightarrow> pid \<Rightarrow> blocked option" where
  "suspended_in k p = Option.bind (k_procs k p) (\<lambda>x. map_option fst (pr_suspend x))"

definition needed_end :: "queue_name \<Rightarrow> pipe_end option" where
  "needed_end q = (case q of Readers i \<Rightarrow> Some (i, O_RDONLY) | Writers i \<Rightarrow> Some (i, O_WRONLY) | _ \<Rightarrow> None)"

subsection \<open>The invariant\<close>

text \<open>
  The count of a file is the number of descriptors that refer to it; in the middle of a call it is off
  by \<open>d\<close>.
\<close>

definition file_inv :: "(nat \<Rightarrow> int) \<Rightarrow> kernel \<Rightarrow> bool" where
  "file_inv d k \<longleftrightarrow>
     (\<forall>f. int (cnt k f) = int (refs k f) + d f) \<and>
     (\<forall>f. k_files k f \<noteq> None \<longrightarrow> 0 < cnt k f \<and> f < k_next_file k)"

definition ends_inv :: "kernel \<Rightarrow> bool" where
  "ends_inv k \<longleftrightarrow>
     (\<forall>f i m. end_of k f = Some (i, m) \<longrightarrow> m = O_RDONLY \<or> m = O_WRONLY) \<and>
     (\<forall>i. k_pipes k i = None \<longrightarrow> opens k (i, O_RDONLY) = 0 \<and> opens k (i, O_WRONLY) = 0) \<and>
     (\<forall>i p. k_pipes k i = Some p \<longrightarrow>
        p_readers p = opens k (i, O_RDONLY) \<and> p_writers p = opens k (i, O_WRONLY) \<and>
        0 < p_readers p + p_writers p \<and> pipe_inv p \<and> i < k_next_pipe k)"

text \<open>A dead process has closed everything; only the current process may still be at it.\<close>

definition table_inv :: "kernel \<Rightarrow> bool" where
  "table_inv k \<longleftrightarrow>
     0 < k_max_id k \<and> k_max_id k < 0x80000000 \<and> distinct (k_all k) \<and> set (k_all k) = dom (k_procs k) \<and> (\<forall>p \<in> set (k_all k). 0 < p \<and> p < k_max_id k) \<and>
     (\<forall>p. k_procs k p \<noteq> None \<longrightarrow> length (files_of k p) = MAX_FD_SIZE) \<and>
     (\<forall>p. k_states k p = STATE_DEAD \<longrightarrow> (k_current k = Some p \<or> set (files_of k p) \<subseteq> {None}) \<and> suspended_in k p = None)"

definition parent_of :: "kernel \<Rightarrow> pid \<Rightarrow> pid option" where
  "parent_of k p = map_option pr_parent (k_procs k p)"

definition children_of :: "kernel \<Rightarrow> pid \<Rightarrow> pid list" where
  "children_of k p = (case k_procs k p of Some x \<Rightarrow> pr_children x | None \<Rightarrow> [])"

text \<open>A parent is older than its children, apart from the first process, which is its own parent.\<close>

definition family_inv :: "kernel \<Rightarrow> bool" where
  "family_inv k \<longleftrightarrow>
     (\<forall>p. distinct (children_of k p)) \<and>
     (\<forall>p c. c \<in> set (children_of k p) \<longleftrightarrow> c \<noteq> p \<and> parent_of k c = Some p) \<and>
     (\<forall>c p. parent_of k c = Some p \<longrightarrow> k_procs k p \<noteq> None) \<and>
     (\<forall>c p. parent_of k c = Some p \<longrightarrow> p < c \<or> c = 1 \<and> p = 1)"

definition run_inv :: "kernel \<Rightarrow> bool" where
  "run_inv k \<longleftrightarrow>
     distinct (k_run k) \<and> (\<forall>p \<in> set (k_run k). k_procs k p \<noteq> None \<and> k_states k p = STATE_READY \<and> k_current k \<noteq> Some p) \<and>
     (\<forall>p. k_current k = Some p \<longrightarrow> k_procs k p \<noteq> None)"

text \<open>A process is blocked exactly when it is on a wait queue, once and on one queue only.\<close>

definition queue_inv :: "(queue_name \<Rightarrow> waitq) \<Rightarrow> states \<Rightarrow> bool" where
  "queue_inv Q st \<longleftrightarrow>
     (\<forall>q. distinct (Q q)) \<and> (\<forall>q q' p. p \<in> set (Q q) \<longrightarrow> p \<in> set (Q q') \<longrightarrow> q = q') \<and>
     (\<forall>p. st p = STATE_BLOCKED \<longleftrightarrow> (\<exists>q. p \<in> set (Q q)))"

text \<open>A sleeper is on the queue of its call, and a call on a pipe keeps the end it works on open.\<close>

definition sleep_inv :: "kernel \<Rightarrow> bool" where
  "sleep_inv k \<longleftrightarrow>
     (\<forall>q p. p \<in> set (queue k q) \<longrightarrow> (\<exists>b. suspended_in k p = Some b \<and> site b = q)) \<and>
     (\<forall>p b e. suspended_in k p = Some b \<longrightarrow> needed_end (site b) = Some e \<longrightarrow> has_end k p e)"

definition kinv :: "(nat \<Rightarrow> int) \<Rightarrow> kernel \<Rightarrow> bool" where
  "kinv d k \<longleftrightarrow>
     file_inv d k \<and> ends_inv k \<and> table_inv k \<and> family_inv k \<and> run_inv k \<and>
     queue_inv (queue k) (k_states k) \<and> sleep_inv k"

lemmas kinvI = kinv_def [THEN iffD2, unfolded conj_imp_eq_imp_imp]

lemma kinvD:
  assumes "kinv d k"
  shows "file_inv d k" "ends_inv k" "table_inv k" "family_inv k" "run_inv k" "queue_inv (queue k) (k_states k)" "sleep_inv k"
  using assms by (simp_all add: kinv_def)

lemma ends_invD:
  assumes "ends_inv k"
  shows "end_of k f = Some (i, m) \<Longrightarrow> m = O_RDONLY \<or> m = O_WRONLY"
    "k_pipes k i = None \<Longrightarrow> opens k (i, O_RDONLY) = 0" "k_pipes k i = None \<Longrightarrow> opens k (i, O_WRONLY) = 0"
    "k_pipes k i = Some p \<Longrightarrow> p_readers p = opens k (i, O_RDONLY)" "k_pipes k i = Some p \<Longrightarrow> p_writers p = opens k (i, O_WRONLY)"
    "k_pipes k i = Some p \<Longrightarrow> 0 < p_readers p + p_writers p" "k_pipes k i = Some p \<Longrightarrow> pipe_inv p"
    "k_pipes k i = Some p \<Longrightarrow> i < k_next_pipe k"
  using assms by (auto simp: ends_inv_def, metis neq0_conv)

text \<open>The current process is running: not asleep, not dead.\<close>

definition awake :: "kernel \<Rightarrow> bool" where
  "awake k \<longleftrightarrow> (\<exists>p. k_current k = Some p \<and> k_procs k p \<noteq> None \<and> suspended_in k p = None \<and> k_states k p = STATE_READY)"

definition ok :: "kernel \<Rightarrow> bool" where
  "ok k \<longleftrightarrow> kinv (\<lambda>_. 0) k \<and> awake k"

lemma okI: "kinv (\<lambda>_. 0) k \<Longrightarrow> awake k \<Longrightarrow> ok k"
  by (simp add: ok_def)

lemma okD:
  assumes "ok k"
  shows "kinv (\<lambda>_. 0) k" "awake k"
  using assms by (simp_all add: ok_def)

subsection \<open>Changes the invariant does not see\<close>

definition core where
  "core k =
     (k_current k, k_all k, k_run k, k_max_id k, k_states k,
      (\<lambda>p. map_option (\<lambda>x. (pr_parent x, pr_children x, pr_suspend x, pr_files x)) (k_procs k p)),
      (\<lambda>f. map_option (\<lambda>x. (f_count x, if f_type x = FF_PIPE then Some (f_ref x, f_flags x AND O_ACCMODE) else None)) (k_files k f)),
      k_next_file k, k_pipes k, k_next_pipe k, k_child_waitq k, tty_read_waitq (k_tty k), tty_write_waitq (k_tty k))"

lemma core_simps [simp]:
  "core (k\<lparr>k_vfs := v\<rparr>) = core k" "core (k\<lparr>k_mmu := m\<rparr>) = core k" "core (k\<lparr>k_user := u\<rparr>) = core k"
  "core (k\<lparr>k_terminal := t\<rparr>) = core k" "core (k\<lparr>k_shutdown := b\<rparr>) = core k" "core (k\<lparr>k_mmu := m, k_user := u\<rparr>) = core k"
  "core (k\<lparr>k_vfs := v, k_mmu := m\<rparr>) = core k" "core (k\<lparr>k_tty := (k_tty k)\<lparr>t_uart := u'\<rparr>\<rparr>) = core k"
  by (simp_all add: core_def)

lemma coreD:
  assumes "core k' = core k"
  shows "k_current k' = k_current k" "k_all k' = k_all k" "k_run k' = k_run k" "k_max_id k' = k_max_id k"
    "k_states k' = k_states k" "k_next_file k' = k_next_file k" "k_pipes k' = k_pipes k" "k_next_pipe k' = k_next_pipe k"
    "queue k' = queue k" "files_of k' = files_of k" "suspended_in k' = suspended_in k" "parent_of k' = parent_of k"
    "children_of k' = children_of k" "cnt k' = cnt k" "end_of k' = end_of k"
    "k_procs k' p = None \<longleftrightarrow> k_procs k p = None" "k_files k' f = None \<longleftrightarrow> k_files k f = None"
    "k_procs k p = Some x \<Longrightarrow> \<exists>x'. k_procs k' p = Some x' \<and> pr_parent x' = pr_parent x \<and> pr_children x' = pr_children x \<and>
       pr_suspend x' = pr_suspend x \<and> pr_files x' = pr_files x"
proof -
  have p: "map_option (\<lambda>x. (pr_parent x, pr_children x, pr_suspend x, pr_files x)) (k_procs k' p) =
      map_option (\<lambda>x. (pr_parent x, pr_children x, pr_suspend x, pr_files x)) (k_procs k p)" for p
    using assms by (simp add: core_def fun_eq_iff)
  have f: "map_option (\<lambda>x. (f_count x, if f_type x = FF_PIPE then Some (f_ref x, f_flags x AND O_ACCMODE) else None)) (k_files k' f) =
      map_option (\<lambda>x. (f_count x, if f_type x = FF_PIPE then Some (f_ref x, f_flags x AND O_ACCMODE) else None)) (k_files k f)" for f
    using assms by (simp add: core_def fun_eq_iff)
  have "files_of k' q = files_of k q" "suspended_in k' q = suspended_in k q" "parent_of k' q = parent_of k q"
    "children_of k' q = children_of k q" for q
    using p [of q] by (cases "k_procs k q"; cases "k_procs k' q"; simp add: files_of_def suspended_in_def parent_of_def children_of_def)+
  then show "files_of k' = files_of k" "suspended_in k' = suspended_in k" "parent_of k' = parent_of k" "children_of k' = children_of k"
    by blast+
  have "cnt k' f = cnt k f" "end_of k' f = end_of k f" for f
    using f [of f] by (cases "k_files k f"; cases "k_files k' f"; simp add: cnt_def end_of_def)+
  then show "cnt k' = cnt k" "end_of k' = end_of k" by blast+
  show "k_procs k' p = None \<longleftrightarrow> k_procs k p = None" using p [of p] by (cases "k_procs k p"; cases "k_procs k' p"; simp)
  show "k_files k' f = None \<longleftrightarrow> k_files k f = None" using f [of f] by (cases "k_files k f"; cases "k_files k' f"; simp)
qed (use assms in \<open>auto simp: core_def queue_def fun_eq_iff split: queue_name.splits dest!: spec [of _ p]\<close>)

lemma kinv_core:
  assumes "core k' = core k"
  shows "kinv d k' \<longleftrightarrow> kinv d k" "awake k' \<longleftrightarrow> awake k" "ok k' \<longleftrightarrow> ok k"
proof -
  note c = coreD [OF assms]
  have r: "refs k' = refs k" "opens k' = opens k" "has_end k' = has_end k" unfolding fun_eq_iff refs_def opens_def opens_at_def has_end_def c by simp_all
  have dom: "dom (k_procs k') = dom (k_procs k)" unfolding dom_def c(16) ..
  show i: "kinv d k' \<longleftrightarrow> kinv d k" for d
    unfolding kinv_def file_inv_def ends_inv_def table_inv_def family_inv_def run_inv_def sleep_inv_def
    unfolding c r dom ..
  show "awake k' \<longleftrightarrow> awake k" unfolding awake_def c ..
  then show "ok k' \<longleftrightarrow> ok k" by (simp add: ok_def i)
qed

lemma core_upd_proc:
  assumes "\<And>x. pr_parent (g x) = pr_parent x \<and> pr_children (g x) = pr_children x \<and> pr_suspend (g x) = pr_suspend x \<and> pr_files (g x) = pr_files x"
  shows "core (upd_proc p g k) = core k"
  using assms by (auto simp: core_def upd_proc_def fun_eq_iff option.map_comp comp_def)

lemma core_set_file:
  assumes "k_files k f = Some x" "f_count x' = f_count x"
    "(if f_type x' = FF_PIPE then Some (f_ref x', f_flags x' AND O_ACCMODE) else None) = (if f_type x = FF_PIPE then Some (f_ref x, f_flags x AND O_ACCMODE) else None)"
  shows "core (set_file f x' k) = core k"
  using assms by (auto simp: core_def set_file_def fun_eq_iff)

named_theorems cores \<open>operations outside the view of the invariant\<close>

lemmas bind_Some = Option.bind_eq_Some_conv

text \<open>What holds of the result of a call, if it comes back.\<close>

definition post :: "'a option \<Rightarrow> ('a \<Rightarrow> bool) \<Rightarrow> bool" where
  "post c P \<longleftrightarrow> (\<forall>x. c = Some x \<longrightarrow> P x)"

lemma postD: "c = Some x \<Longrightarrow> post c P \<Longrightarrow> P x"
  by (simp add: post_def)

lemma post_simps [simp]: "post None P" "post (Some x) P \<longleftrightarrow> P x"
  by (simp_all add: post_def)

lemma post_rules:
  "(\<And>x. m = Some x \<Longrightarrow> post (h x) P) \<Longrightarrow> post (Option.bind m h) P"
  "(b \<Longrightarrow> post c P) \<Longrightarrow> (\<not> b \<Longrightarrow> post d P) \<Longrightarrow> post (if b then c else d) P"
  "(\<And>x y. v = (x, y) \<Longrightarrow> post (g x y) P) \<Longrightarrow> post (case v of (x, y) \<Rightarrow> g x y) P"
  "(u = None \<Longrightarrow> post c P) \<Longrightarrow> (\<And>x. u = Some x \<Longrightarrow> post (f x) P) \<Longrightarrow> post (case u of None \<Rightarrow> c | Some x \<Rightarrow> f x) P"
  by (auto simp: post_def bind_Some split: prod.splits option.splits)

lemma post_all: "(\<And>x. c = Some x \<Longrightarrow> P x) \<Longrightarrow> post c P"
  by (auto simp: post_def)

lemma post_pair: "(\<And>a b. c = Some (a, b) \<Longrightarrow> P a b) \<Longrightarrow> post c (\<lambda>(a, b). P a b)"
  by (auto simp: post_def)

lemma post_pairD: "c = Some (a, b) \<Longrightarrow> post c (\<lambda>(a, b). P a b) \<Longrightarrow> P a b"
  by (simp add: post_def)

lemma core_store8 [cores]: "store8 a v k = Some k' \<Longrightarrow> core k' = core k"
  by (auto simp: store8_def Let_def split: if_splits)

lemma core_store_bytes [cores]: "store_bytes a bs k = Some k' \<Longrightarrow> core k' = core k"
  by (induction a bs k rule: store_bytes.induct) (auto simp: bind_Some dest: core_store8)

lemma core_store32 [cores]: "store32 a w k = Some k' \<Longrightarrow> core k' = core k"
  by (simp add: store32_def core_store_bytes)

lemma core_map_pages [cores]: "map_pages p a sz k = Some (r, k') \<Longrightarrow> core k' = core k"
  by (auto simp: map_pages_def bind_Some Let_def)

lemma core_switch_ttb [cores]: "switch_ttb p k = Some (r, k') \<Longrightarrow> core k' = core k"
  by (auto simp: switch_ttb_def bind_Some)

lemma core_take_page [cores]: "take_page n k = Some (r, k') \<Longrightarrow> core k' = core k"
  by (auto simp: take_page_def bind_Some)

lemma core_drop_page [cores]: "drop_page n k = Some k' \<Longrightarrow> core k' = core k"
  by (auto simp: drop_page_def bind_Some)

lemma core_destroy_mapping [cores]: "destroy_mapping p k = Some k' \<Longrightarrow> core k' = core k"
  by (auto simp: destroy_mapping_def bind_Some)

lemma core_load_executable [cores]: "load_executable path k = Some (r, ex, k') \<Longrightarrow> core k' = core k"
  by (auto simp: load_executable_def bind_Some)

lemma core_release_executable [cores]: "release_executable ex k = Some k' \<Longrightarrow> core k' = core k"
  by (auto simp: release_executable_def bind_Some)

lemma core_elf_copy [cores]: "elf_copy ex k = Some k' \<Longrightarrow> core k' = core k"
  by (auto simp: elf_copy_def bind_Some dest!: cores)

lemma core_copy_strings [cores]: "copy_strings ss a b k = Some (x, y, k') \<Longrightarrow> core k' = core k"
  by (induction ss arbitrary: a b k) (fastforce simp: bind_Some dest: cores)+

lemma core_copy_argv_and_envp [cores]: "copy_argv_and_envp av a k = Some (x, k') \<Longrightarrow> core k' = core k"
  by (auto simp: copy_argv_and_envp_def bind_Some Let_def dest!: cores)

lemma core_release_argv_and_envp [cores]: "release_argv_and_envp av k = Some k' \<Longrightarrow> core k' = core k"
  by (auto simp: release_argv_and_envp_def split: option.splits dest!: cores)

lemma core_prepare_argv_and_envp [cores]: "prepare_argv_and_envp argv envp k = Some (x, k') \<Longrightarrow> core k' = core k"
  by (auto simp: prepare_argv_and_envp_def bind_Some Let_def split: if_splits dest!: cores)

lemma core_alloc_segments [cores]: "alloc_segments p sgs k = Some k' \<Longrightarrow> core k' = core k"
  by (induction sgs arbitrary: k) (fastforce simp: bind_Some dest: cores)+

lemma core_copy_pages [cores]: "copy_pages p cur end k = Some k' \<Longrightarrow> core k' = core k"
  by (erule copy_pages.raw_induct [where P = "\<lambda>p cur e k k'. core k' = core k", rotated])
    (fastforce simp: bind_Some split: if_splits dest: cores)

lemma core_copy_segment [cores]: "copy_segment p sg k = Some k' \<Longrightarrow> core k' = core k"
  by (auto simp: copy_segment_def bind_Some dest!: cores)

lemma core_copy_segments [cores]: "copy_segments p sgs k = Some k' \<Longrightarrow> core k' = core k"
  by (induction sgs arbitrary: k) (fastforce simp: bind_Some dest: cores)+

lemma core_grow_heap [cores]: "grow_heap p cur end k = Some (c, k') \<Longrightarrow> core k' = core k"
proof -
  assume "grow_heap p cur end k = Some (c, k')"
  then have "core (snd (c, k')) = core k"
    by (rule grow_heap.raw_induct [where P = "\<lambda>p cur e k r. core (snd r) = core k", rotated])
      (fastforce simp: bind_Some split: if_splits dest: cores)
  then show ?thesis by simp
qed

lemma core_grow_stack [cores]: "grow_stack p cur base k = Some (c, k') \<Longrightarrow> core k' = core k"
proof -
  assume "grow_stack p cur base k = Some (c, k')"
  then have "core (snd (c, k')) = core k"
    by (rule grow_stack.raw_induct [where P = "\<lambda>p cur e k r. core (snd r) = core k", rotated])
      (fastforce simp: bind_Some split: if_splits dest: cores)
  then show ?thesis by simp
qed

subsection \<open>Counting\<close>

lemma count_list_update:
  "i < length xs \<Longrightarrow> count_list (xs[i := v]) a + of_bool (xs ! i = a) = count_list xs a + of_bool (v = a)"
proof (induction xs arbitrary: i)
  case (Cons x xs)
  then show ?case by (cases i) (auto simp: Cons.IH add.assoc)
qed simp

lemma count_list_pos: "0 < count_list xs a \<longleftrightarrow> a \<in> set xs"
  using count_notin [of a xs] by (induction xs) auto

lemma refs_change:
  assumes "p \<in> set (k_all k)" "k_all k' = k_all k" "files_of k' = (files_of k)(p := ys)"
  shows "refs k' f + count_list (files_of k p) (Some f) = refs k f + count_list ys (Some f)"
proof -
  have "refs h f = count_list (files_of h p) (Some f) + (\<Sum>q \<in> set (k_all k) - {p}. count_list (files_of h q) (Some f))"
    if "k_all h = k_all k" for h
    unfolding refs_def that using assms(1) by (simp add: sum.remove)
  from this [of k] this [OF assms(2)] show ?thesis by (simp add: assms(3))
qed

lemma refs_pos:
  assumes "p \<in> set (k_all k)" "Some f \<in> set (files_of k p)"
  shows "0 < refs k f"
proof -
  have "count_list (files_of k p) (Some f) \<le> refs k f" unfolding refs_def using assms(1) by (intro member_le_sum) auto
  then show ?thesis using assms(2) by (simp flip: count_list_pos)
qed

lemma opens_change:
  assumes "f < k_next_file k" "k_next_file k' = k_next_file k"
    "\<And>g. g \<noteq> f \<Longrightarrow> end_of k' g = end_of k g \<and> cnt k' g = cnt k g"
  shows "opens k' e + opens_at k f e = opens k e + opens_at k' f e"
proof -
  have "opens h e = opens_at h f e + (\<Sum>g \<in> {..<k_next_file k} - {f}. opens_at h g e)" if "k_next_file h = k_next_file k" for h
    using assms(1) by (simp add: opens_def that sum.remove opens_at_def)
  moreover have "(\<Sum>g \<in> {..<k_next_file k} - {f}. opens_at k' g e) = (\<Sum>g \<in> {..<k_next_file k} - {f}. opens_at k g e)"
    by (rule sum.cong) (simp_all add: opens_at_def assms(3))
  ultimately show ?thesis using assms(2) by simp
qed

lemma opens_pos:
  assumes "f < k_next_file k" "end_of k f = Some e" "0 < cnt k f"
  shows "0 < opens k e"
proof -
  have "opens_at k f e \<le> opens k e" unfolding opens_def using assms(1) by (intro member_le_sum) auto
  then show ?thesis using assms(2,3) by (simp add: opens_at_def)
qed

subsection \<open>Queues\<close>

lemma in_queues_upd: "(\<exists>q'. p \<in> set ((Q(q := xs)) q')) \<longleftrightarrow> p \<in> set xs \<or> (\<exists>q'. q' \<noteq> q \<and> p \<in> set (Q q'))"
  by (metis fun_upd_other fun_upd_same)

lemma queue_invD:
  assumes "queue_inv Q st"
  shows "distinct (Q q)" "p \<in> set (Q q) \<Longrightarrow> p \<in> set (Q q') \<Longrightarrow> q = q'" "st p = STATE_BLOCKED \<longleftrightarrow> (\<exists>q. p \<in> set (Q q))"
  using assms unfolding queue_inv_def by blast+

lemma queue_inv_wake:
  assumes "queue_inv Q st"
  shows "queue_inv (Q(q := drop n (Q q))) (\<lambda>p. if p \<in> set (take n (Q q)) then STATE_READY else st p)"
proof -
  note Q = queue_invD [OF assms]
  have sub: "set ((Q(q := drop n (Q q))) q') \<subseteq> set (Q q')" for q' by (auto dest: in_set_dropD)
  have split: "p \<in> set (Q q) \<longleftrightarrow> p \<in> set (take n (Q q)) \<or> p \<in> set (drop n (Q q))" for p
    by (metis Un_iff append_take_drop_id set_append)
  have apart: "p \<in> set (take n (Q q)) \<Longrightarrow> p \<notin> set (drop n (Q q))" for p
    using Q(1) [of q] by (metis append_take_drop_id disjoint_iff distinct_append)
  show ?thesis unfolding queue_inv_def
  proof (intro conjI allI impI)
    fix q' show "distinct ((Q(q := drop n (Q q))) q')" using Q(1) by simp
  next
    fix q1 q2 p assume "p \<in> set ((Q(q := drop n (Q q))) q1)" "p \<in> set ((Q(q := drop n (Q q))) q2)"
    then show "q1 = q2" using sub Q(2) by blast
  next
    fix p
    show "(if p \<in> set (take n (Q q)) then STATE_READY else st p) = STATE_BLOCKED \<longleftrightarrow> (\<exists>q'. p \<in> set ((Q(q := drop n (Q q))) q'))"
      unfolding in_queues_upd using Q(3) [of p] Q(2) [of p] split [of p] apart [of p] by (auto, metis)
  qed
qed

lemma queue_inv_block:
  assumes "queue_inv Q st" "st me \<noteq> STATE_BLOCKED"
  shows "queue_inv (Q(q := me # Q q)) (st(me := STATE_BLOCKED))"
proof -
  note Q = queue_invD [OF assms(1)]
  have new: "me \<notin> set (Q q')" for q' using Q(3) [of me] assms(2) by blast
  show ?thesis unfolding queue_inv_def in_queues_upd using Q(1) new
    by (auto simp: Q(3) dest: Q(2), metis)
qed

lemma queue_inv_state: "queue_inv Q st \<Longrightarrow> st p \<noteq> STATE_BLOCKED \<Longrightarrow> s \<noteq> STATE_BLOCKED \<Longrightarrow> queue_inv Q (st(p := s))"
  by (auto simp: queue_inv_def)

text \<open>
  Calls that only move processes between queues and states: the invariant holds afterwards if the
  queues are right.
\<close>

definition same_but_queues :: "kernel \<Rightarrow> kernel \<Rightarrow> bool" where
  "same_but_queues k k' \<longleftrightarrow>
     k_current k' = k_current k \<and> k_all k' = k_all k \<and> k_run k' = k_run k \<and> k_max_id k' = k_max_id k \<and>
     k_next_file k' = k_next_file k \<and> k_next_pipe k' = k_next_pipe k \<and> files_of k' = files_of k \<and>
     parent_of k' = parent_of k \<and> children_of k' = children_of k \<and> dom (k_procs k') = dom (k_procs k) \<and>
     cnt k' = cnt k \<and> end_of k' = end_of k \<and> dom (k_files k') = dom (k_files k) \<and>
     (\<forall>i. rel_option (\<lambda>p p'. p_readers p' = p_readers p \<and> p_writers p' = p_writers p \<and> (pipe_inv p \<longrightarrow> pipe_inv p')) (k_pipes k i) (k_pipes k' i))"

lemma kinv_queues:
  assumes "kinv d k" "same_but_queues k k'" "queue_inv (queue k') (k_states k')"
    "\<And>q p. p \<in> set (queue k' q) \<Longrightarrow> \<exists>b. suspended_in k' p = Some b \<and> site b = q"
    "\<And>p b e. suspended_in k' p = Some b \<Longrightarrow> needed_end (site b) = Some e \<Longrightarrow> has_end k p e"
    "\<And>p. p \<in> set (k_run k) \<Longrightarrow> k_states k' p = STATE_READY"
    "\<And>p. k_states k' p = STATE_DEAD \<Longrightarrow> k_states k p = STATE_DEAD \<and> suspended_in k' p = None"
  shows "kinv d k'"
proof -
  note i = kinvD [OF assms(1)]
  note s = assms(2) [unfolded same_but_queues_def]
  have e: "k_all k' = k_all k" "files_of k' = files_of k" "cnt k' = cnt k" "end_of k' = end_of k" "k_next_file k' = k_next_file k"
    using s by simp_all
  have r: "refs k' = refs k" "opens k' = opens k" "has_end k' = has_end k"
    unfolding fun_eq_iff refs_def opens_def opens_at_def has_end_def e by simp_all
  have none: "k_procs k' p = None \<longleftrightarrow> k_procs k p = None" "k_files k' f = None \<longleftrightarrow> k_files k f = None" for p f
    using s by (metis domIff)+
  have pipes: "rel_option (\<lambda>p p'. p_readers p' = p_readers p \<and> p_writers p' = p_writers p \<and> (pipe_inv p \<longrightarrow> pipe_inv p')) (k_pipes k i) (k_pipes k' i)" for i
    using s by blast
  show ?thesis
  proof (rule kinvI)
    show "file_inv d k'" using i(1) s unfolding file_inv_def r none by simp
    show "ends_inv k'" unfolding ends_inv_def r
    proof (intro conjI allI impI)
      fix j assume "k_pipes k' j = None"
      then have "k_pipes k j = None" using pipes [of j] by (cases "k_pipes k j") auto
      then show "opens k (j, O_RDONLY) = 0" "opens k (j, O_WRONLY) = 0" using i(2) by (simp_all add: ends_inv_def)
    next
      fix j p assume "k_pipes k' j = Some p"
      then obtain p0 where "k_pipes k j = Some p0" "p_readers p = p_readers p0" "p_writers p = p_writers p0" "pipe_inv p0 \<longrightarrow> pipe_inv p"
        using pipes [of j] by (cases "k_pipes k j") auto
      moreover note ends_invD(4-8) [OF i(2) this(1)]
      ultimately show "p_readers p = opens k (j, O_RDONLY)" "p_writers p = opens k (j, O_WRONLY)" "0 < p_readers p + p_writers p"
        "pipe_inv p" "j < k_next_pipe k'"
        using s by simp_all
    qed (use i(2) s in \<open>auto simp: ends_inv_def\<close>)
    show "table_inv k'" using i(3) s assms(7) unfolding table_inv_def none by simp
    show "family_inv k'" using i(4) s unfolding family_inv_def none by simp
    show "run_inv k'" using i(5) s assms(6) unfolding run_inv_def none by simp
    show "sleep_inv k'" using assms(4,5) unfolding sleep_inv_def r by blast
  qed (rule assms(3))
qed

lemma kinv_wake:
  assumes "kinv d k" "same_but_queues k k'" "suspended_in k' = suspended_in k"
    "queue k' = (queue k)(q := drop n (queue k q))" "k_states k' = (\<lambda>p. if p \<in> set (take n (queue k q)) then STATE_READY else k_states k p)"
  shows "kinv d k'"
proof (rule kinv_queues [OF assms(1,2)])
  note i = kinvD [OF assms(1)]
  show "queue_inv (queue k') (k_states k')" unfolding assms(4,5) by (rule queue_inv_wake [OF i(6)])
  show "\<exists>b. suspended_in k' p = Some b \<and> site b = q'" if "p \<in> set (queue k' q')" for p q'
  proof -
    have "p \<in> set (queue k q')" using that by (auto simp: assms(4) dest: in_set_dropD split: if_splits)
    then show ?thesis using i(7) unfolding assms(3) sleep_inv_def by blast
  qed
  show "has_end k p e" if "suspended_in k' p = Some b" "needed_end (site b) = Some e" for p b e
    using i(7) that unfolding assms(3) sleep_inv_def by blast
  show "k_states k' p = STATE_READY" if "p \<in> set (k_run k)" for p using i(5) that by (auto simp: assms(5) run_inv_def)
  show "k_states k p = STATE_DEAD \<and> suspended_in k' p = None" if "k_states k' p = STATE_DEAD" for p
    using i(3) that by (auto simp: assms(3,5) table_inv_def split: if_splits)
qed

lemma awake_wake:
  assumes "awake k" "same_but_queues k k'" "suspended_in k' = suspended_in k"
    "k_states k' = (\<lambda>p. if p \<in> W then STATE_READY else k_states k p)"
  shows "awake k'"
  using assms by (auto simp: awake_def same_but_queues_def) blast

subsection \<open>Descriptors\<close>

lemma upd_proc_obs [simp]:
  "k_current (upd_proc p g k) = k_current k" "k_all (upd_proc p g k) = k_all k" "k_run (upd_proc p g k) = k_run k"
  "k_max_id (upd_proc p g k) = k_max_id k" "k_states (upd_proc p g k) = k_states k" "k_files (upd_proc p g k) = k_files k"
  "k_next_file (upd_proc p g k) = k_next_file k" "k_pipes (upd_proc p g k) = k_pipes k" "k_next_pipe (upd_proc p g k) = k_next_pipe k"
  "k_child_waitq (upd_proc p g k) = k_child_waitq k" "k_tty (upd_proc p g k) = k_tty k" "k_mmu (upd_proc p g k) = k_mmu k"
  "k_procs (upd_proc p g k) = (k_procs k)(p := map_option g (k_procs k p))"
  by (simp_all add: upd_proc_def)

lemma same_files:
  assumes "k_files k' = k_files k"
  shows "cnt k' = cnt k" "end_of k' = end_of k" "k_next_file k' = k_next_file k \<Longrightarrow> opens k' = opens k"
proof -
  show e: "cnt k' = cnt k" "end_of k' = end_of k" using assms by (simp_all add: fun_eq_iff cnt_def end_of_def)
  show "opens k' = opens k" if "k_next_file k' = k_next_file k" unfolding fun_eq_iff opens_def opens_at_def e that by simp
qed

lemma upd_proc_obs2 [simp]:
  "queue (upd_proc p g k) = queue k" "cnt (upd_proc p g k) = cnt k" "end_of (upd_proc p g k) = end_of k" "opens (upd_proc p g k) = opens k"
  "dom (k_procs (upd_proc p g k)) = dom (k_procs k)"
  using same_files [of "upd_proc p g k" k] by (simp_all add: fun_eq_iff queue_def split: queue_name.splits) (auto simp: dom_def)

text \<open>The parts of a process that an update leaves alone.\<close>

lemma upd_proc_parts:
  "\<forall>x. pr_files (g x) = pr_files x \<Longrightarrow> files_of (upd_proc p g k) = files_of k"
  "\<forall>x. pr_suspend (g x) = pr_suspend x \<Longrightarrow> suspended_in (upd_proc p g k) = suspended_in k"
  "\<forall>x. pr_parent (g x) = pr_parent x \<Longrightarrow> parent_of (upd_proc p g k) = parent_of k"
  "\<forall>x. pr_children (g x) = pr_children x \<Longrightarrow> children_of (upd_proc p g k) = children_of k"
  by (cases "k_procs k p"; simp add: fun_eq_iff files_of_def suspended_in_def parent_of_def children_of_def)+

lemma set_slot_obs [simp]:
  "k_current (set_slot p i v k) = k_current k" "k_all (set_slot p i v k) = k_all k" "k_run (set_slot p i v k) = k_run k"
  "k_max_id (set_slot p i v k) = k_max_id k" "k_states (set_slot p i v k) = k_states k" "k_files (set_slot p i v k) = k_files k"
  "k_next_file (set_slot p i v k) = k_next_file k" "k_pipes (set_slot p i v k) = k_pipes k" "k_next_pipe (set_slot p i v k) = k_next_pipe k"
  "queue (set_slot p i v k) = queue k" "suspended_in (set_slot p i v k) = suspended_in k" "parent_of (set_slot p i v k) = parent_of k"
  "children_of (set_slot p i v k) = children_of k" "cnt (set_slot p i v k) = cnt k" "end_of (set_slot p i v k) = end_of k"
  "k_procs (set_slot p i v k) q = None \<longleftrightarrow> k_procs k q = None" "opens (set_slot p i v k) = opens k"
  "dom (k_procs (set_slot p i v k)) = dom (k_procs k)"
  by (simp_all add: set_slot_def upd_proc_parts del: upd_proc_obs(13)) auto

lemma files_of_set_slot [simp]: "files_of (set_slot p i v k) = (files_of k)(p := (files_of k p)[i := v])"
  by (cases "k_procs k p") (simp_all add: set_slot_def files_of_def fun_eq_iff)

lemma refs_set_slot:
  assumes "table_inv k" "k_procs k p \<noteq> None" "i < MAX_FD_SIZE"
  shows "refs (set_slot p i v k) f + of_bool (files_of k p ! i = Some f) = refs k f + of_bool (v = Some f)"
proof -
  have p: "p \<in> set (k_all k)" and l: "i < length (files_of k p)" using assms by (auto simp: table_inv_def)
  show ?thesis using refs_change [of p k "set_slot p i v k" "(files_of k p)[i := v]" f] count_list_update [OF l, of v "Some f"] p by simp
qed

lemma kinv_set_slot:
  assumes "kinv d k" "k_procs k p \<noteq> None" "i < MAX_FD_SIZE" "k_states k p \<noteq> STATE_DEAD \<or> v = None"
    "files_of k p ! i = None \<or> suspended_in k p = None"
  shows "kinv (\<lambda>f. d f + of_bool (files_of k p ! i = Some f) - of_bool (v = Some f)) (set_slot p i v k)"
proof (rule kinvI)
  note i = kinvD [OF assms(1)]
  let ?k = "set_slot p i v k"
  have "int (cnt k f) = int (refs ?k f) + (d f + of_bool (files_of k p ! i = Some f) - of_bool (v = Some f))" for f
    using i(1) refs_set_slot [OF i(3) assms(2,3), of v f] by (auto simp: file_inv_def of_bool_def split: if_splits)
  then show "file_inv (\<lambda>f. d f + of_bool (files_of k p ! i = Some f) - of_bool (v = Some f)) ?k" using i(1) by (simp add: file_inv_def)
  show "ends_inv ?k" using i(2) unfolding ends_inv_def set_slot_obs .
  have "set ((files_of k p)[i := None]) \<subseteq> {None}" if "set (files_of k p) \<subseteq> {None}"
    using that set_update_subset_insert [of "files_of k p" i None] by auto
  then have "k_states k q = STATE_DEAD \<Longrightarrow> (k_current k = Some q \<or> set (files_of ?k q) \<subseteq> {None}) \<and> suspended_in k q = None"
    if "k_states k q = STATE_DEAD \<Longrightarrow> (k_current k = Some q \<or> set (files_of k q) \<subseteq> {None}) \<and> suspended_in k q = None" for q
    using that assms(4) by (cases "q = p"; cases v) auto
  then show "table_inv ?k" using i(3) by (simp add: table_inv_def)
  show "family_inv ?k" using i(4) by (simp add: family_inv_def del: not_None_eq)
  show "run_inv ?k" using i(5) by (simp add: run_inv_def del: not_None_eq)
  show "queue_inv (queue ?k) (k_states ?k)" using i(6) by simp
  have "has_end ?k q e" if h: "has_end k q e" "q = p \<longrightarrow> files_of k p ! i = None" for q e
  proof (cases "q = p")
    case True
    obtain f where f: "Some f \<in> set (files_of k p)" "end_of k f = Some e" using h(1) unfolding has_end_def True by blast
    then obtain j where "j < length (files_of k p)" "files_of k p ! j = Some f" by (auto simp: in_set_conv_nth)
    moreover from this have "j \<noteq> i" using h(2) True by auto
    ultimately have "Some f \<in> set ((files_of k p)[i := v])" by (metis length_list_update nth_list_update_neq nth_mem)
    then show ?thesis using f(2) by (auto simp: has_end_def True)
  qed (use h in \<open>simp add: has_end_def\<close>)
  then show "sleep_inv ?k" using i(7) assms(5) unfolding sleep_inv_def by (metis option.distinct(1) set_slot_obs(10,11))
qed

subsection \<open>Reference counts\<close>

lemma set_file_obs [simp]:
  "k_current (set_file f x k) = k_current k" "k_all (set_file f x k) = k_all k" "k_run (set_file f x k) = k_run k"
  "k_max_id (set_file f x k) = k_max_id k" "k_states (set_file f x k) = k_states k" "k_procs (set_file f x k) = k_procs k"
  "k_next_file (set_file f x k) = k_next_file k" "k_pipes (set_file f x k) = k_pipes k" "k_next_pipe (set_file f x k) = k_next_pipe k"
  "k_child_waitq (set_file f x k) = k_child_waitq k" "k_tty (set_file f x k) = k_tty k" "k_mmu (set_file f x k) = k_mmu k"
  "k_files (set_file f x k) = (k_files k)(f \<mapsto> x)"
  by (simp_all add: set_file_def)

lemma same_procs:
  assumes "k_procs k' = k_procs k"
  shows "files_of k' = files_of k" "suspended_in k' = suspended_in k" "parent_of k' = parent_of k" "children_of k' = children_of k"
    "k_all k' = k_all k \<Longrightarrow> refs k' = refs k" "end_of k' = end_of k \<Longrightarrow> has_end k' = has_end k"
proof -
  show e: "files_of k' = files_of k" "suspended_in k' = suspended_in k" "parent_of k' = parent_of k" "children_of k' = children_of k"
    using assms by (simp_all add: fun_eq_iff files_of_def suspended_in_def parent_of_def children_of_def)
  show "refs k' = refs k" if "k_all k' = k_all k" unfolding fun_eq_iff refs_def e that by simp
  show "has_end k' = has_end k" if "end_of k' = end_of k" unfolding fun_eq_iff has_end_def e that by simp
qed

text \<open>One file changes its count, and the pipe it is an end of follows.\<close>

lemma kinv_recount:
  assumes "kinv d k" "k_files k f \<noteq> None" "f < k_next_file k"
    and same: "k_procs k' = k_procs k" "k_current k' = k_current k" "k_all k' = k_all k" "k_run k' = k_run k" "k_max_id k' = k_max_id k"
      "k_next_file k' = k_next_file k" "k_next_pipe k' = k_next_pipe k"
    and other: "\<And>g. g \<noteq> f \<Longrightarrow> k_files k' g = k_files k g"
    and new: "int (cnt k' f) = int (cnt k f) + (d' f - d f)" "k_files k' f \<noteq> None \<longleftrightarrow> 0 < cnt k' f" "k_files k' f \<noteq> None \<Longrightarrow> end_of k' f = end_of k f"
      "\<And>g. g \<noteq> f \<Longrightarrow> d' g = d g" "k_files k' f = None \<Longrightarrow> 0 \<le> d' f"
    and pipes: "ends_inv k'" and queues: "queue_inv (queue k') (k_states k')" "\<And>q p. p \<in> set (queue k' q) \<Longrightarrow> p \<in> set (queue k q)"
      "\<And>p. k_states k' p \<noteq> k_states k p \<Longrightarrow> k_states k' p = STATE_READY"
  shows "kinv d' k'"
proof (rule kinvI)
  note i = kinvD [OF assms(1)]
  note p = same_procs [OF same(1)]
  have cnt: "cnt k' g = cnt k g" "end_of k' g = end_of k g" if "g \<noteq> f" for g using other [OF that] by (simp_all add: cnt_def end_of_def)
  have eq: "int (cnt k' g) = int (refs k' g) + d' g" for g
    using i(1) new(1) new(4) [of g] cnt [of g] unfolding p(5) [OF same(3)] file_inv_def by (cases "g = f") auto
  moreover have "0 < cnt k' g \<and> g < k_next_file k'" if "k_files k' g \<noteq> None" for g
    using that i(1) new(2) cnt(1) [of g] other [of g] assms(3) unfolding same file_inv_def by (cases "g = f") auto
  ultimately show "file_inv d' k'" unfolding file_inv_def by blast
  show "table_inv k'" using i(3) queues(3) unfolding table_inv_def p same by (metis process_state.distinct(3))
  show "family_inv k'" using i(4) unfolding family_inv_def p same .
  show "run_inv k'" using i(5) queues(3) unfolding run_inv_def p same by metis
  have "has_end k' q e" if h: "has_end k q e" for q e
  proof -
    obtain g where g: "Some g \<in> set (files_of k q)" "end_of k g = Some e" using h unfolding has_end_def by blast
    then have "q \<in> set (k_all k)" using i(3) by (auto simp: table_inv_def files_of_def split: option.splits)
    then have "0 < refs k' g" unfolding p(5) [OF same(3)] using g(1) by (rule refs_pos)
    then have "end_of k' g = end_of k g" using eq [of g] new(2,3,5) cnt(2) [of g] by (cases "g = f"; cases "k_files k' f") auto
    then show ?thesis using g unfolding has_end_def p by auto
  qed
  then show "sleep_inv k'" using i(7) queues(2) unfolding sleep_inv_def p by blast
qed (fact pipes, fact queues)

lemma pipe_release_read:
  assumes "flags AND O_ACCMODE = O_RDONLY" "pipe_release p flags st = Some (r, st')"
  shows "0 < p_readers p" "r = (if p_readers p = 1 \<and> p_writers p = 0 then None
      else Some (p\<lparr>p_readers := p_readers p - 1, p_writers_waitq := if p_readers p = 1 then [] else p_writers_waitq p\<rparr>))"
    "st' = (if p_readers p = 1 then (\<lambda>q. if q \<in> set (p_writers_waitq p) then STATE_READY else st q) else st)"
  using assms by (auto simp: pipe_release_def wake_all_eq Let_def split: if_splits)

lemma pipe_release_write:
  assumes "flags AND O_ACCMODE = O_WRONLY" "pipe_release p flags st = Some (r, st')"
  shows "0 < p_writers p" "r = (if p_writers p = 1 \<and> p_readers p = 0 then None
      else Some (p\<lparr>p_writers := p_writers p - 1, p_readers_waitq := if p_writers p = 1 then [] else p_readers_waitq p\<rparr>))"
    "st' = (if p_writers p = 1 then (\<lambda>q. if q \<in> set (p_readers_waitq p) then STATE_READY else st q) else st)"
proof -
  have "flags AND O_ACCMODE \<noteq> O_RDONLY" unfolding assms(1) by (simp add: O_RDONLY_def O_WRONLY_def)
  then show "0 < p_writers p" "r = (if p_writers p = 1 \<and> p_readers p = 0 then None
      else Some (p\<lparr>p_writers := p_writers p - 1, p_readers_waitq := if p_writers p = 1 then [] else p_readers_waitq p\<rparr>))"
    "st' = (if p_writers p = 1 then (\<lambda>q. if q \<in> set (p_readers_waitq p) then STATE_READY else st q) else st)"
    using assms by (auto simp: pipe_release_def wake_all_eq Let_def split: if_splits)
qed

text \<open>The file after its count went down by one.\<close>

lemma opens_release:
  assumes "k_files k f = Some x" "0 < f_count x" "f < k_next_file k" "k_next_file k' = k_next_file k"
    "k_files k' = (k_files k)(f := if f_count x = 1 then None else Some (x\<lparr>f_count := f_count x - 1\<rparr>))"
  shows "cnt k' f = cnt k f - 1" "opens k e = opens k' e + of_bool (end_of k f = Some e)"
    "g \<noteq> f \<Longrightarrow> end_of k' g = end_of k g" "k_files k' f \<noteq> None \<longleftrightarrow> 0 < cnt k' f" "k_files k' f \<noteq> None \<Longrightarrow> end_of k' f = end_of k f"
proof -
  show c: "cnt k' f = cnt k f - 1" "k_files k' f \<noteq> None \<longleftrightarrow> 0 < cnt k' f" "k_files k' f \<noteq> None \<Longrightarrow> end_of k' f = end_of k f"
    using assms(1,2) by (auto simp: cnt_def assms(5) end_of_def)
  show o: "end_of k' g = end_of k g" if "g \<noteq> f" for g using that by (simp add: end_of_def assms(5))
  have "opens k' e + opens_at k f e = opens k e + opens_at k' f e"
    by (rule opens_change [OF assms(3,4)]) (simp add: o cnt_def assms(5))
  moreover have "opens_at k f e = opens_at k' f e + of_bool (end_of k f = Some e)"
    using assms(1,2) by (auto simp: opens_at_def cnt_def end_of_def assms(5))
  ultimately show "opens k e = opens k' e + of_bool (end_of k f = Some e)" by simp
qed

text \<open>Nobody sleeps on an end that has no opens left.\<close>

lemma no_sleepers:
  assumes "kinv d k" "\<And>g. 0 \<le> d g" "1 \<le> d f" "needed_end q = Some e"
    and rel: "k_files k f = Some x" "0 < f_count x" "f < k_next_file k" "k_next_file k' = k_next_file k"
      "k_files k' = (k_files k)(f := if f_count x = 1 then None else Some (x\<lparr>f_count := f_count x - 1\<rparr>))"
    and "opens k' e = 0"
  shows "queue k q = []"
proof (rule ccontr)
  note i = kinvD [OF assms(1)]
  note o = opens_release [OF rel]
  assume "queue k q \<noteq> []"
  then obtain p where "p \<in> set (queue k q)" by (cases "queue k q") auto
  then obtain b where b: "suspended_in k p = Some b" "site b = q" using i(7) unfolding sleep_inv_def by blast
  then obtain g where g: "Some g \<in> set (files_of k p)" "end_of k g = Some e" using i(7) assms(4) unfolding sleep_inv_def has_end_def by blast
  then have "p \<in> set (k_all k)" using i(3) by (auto simp: table_inv_def files_of_def split: option.splits)
  then have r: "0 < refs k g" using g(1) by (rule refs_pos)
  then have c: "int (cnt k g) \<ge> 1 + d g" using i(1) unfolding file_inv_def by (metis (no_types, opaque_lifting) add_le_cancel_right int_one_le_iff_zero_less of_nat_0_less_iff)
  have "0 < cnt k' g \<and> end_of k' g = Some e"
  proof (cases "g = f")
    case True
    then have "0 < cnt k' g" using c assms(3) o(1) by simp
    then show ?thesis using g(2) o(4,5) True by auto
  next
    case False
    then have "cnt k' g = cnt k g" by (simp add: cnt_def rel(5))
    then show ?thesis using c assms(2) [of g] g(2) o(3) [OF False] by simp
  qed
  moreover have "k_files k g \<noteq> None" using g(2) by (auto simp: end_of_def split: option.splits)
  then have "g < k_next_file k'" using i(1) rel(4) unfolding file_inv_def by simp
  ultimately have "0 < opens k' e" using opens_pos by blast
  then show False using assms(10) by simp
qed

text \<open>Releasing a reference that no descriptor holds any more.\<close>

lemma kinv_release_pipe:
  assumes "kinv d k" "\<And>g. 0 \<le> d g" "1 \<le> d f"
    and rel: "k_files k f = Some x" "0 < f_count x" "f < k_next_file k" "k_next_file k' = k_next_file k"
      "k_files k' = (k_files k)(f := if f_count x = 1 then None else Some (x\<lparr>f_count := f_count x - 1\<rparr>))"
    and same: "k_procs k' = k_procs k" "k_current k' = k_current k" "k_all k' = k_all k" "k_run k' = k_run k" "k_max_id k' = k_max_id k"
      "k_next_pipe k' = k_next_pipe k" "k_child_waitq k' = k_child_waitq k" "k_tty k' = k_tty k"
    and pipe: "f_type x = FF_PIPE" "k_pipes k (f_ref x) = Some p" "pipe_release p (f_flags x) (k_states k) = Some (r, k_states k')"
      "k_pipes k' = (k_pipes k)(f_ref x := r)"
  shows "kinv (d(f := d f - 1)) k'"
proof -
  note i = kinvD [OF assms(1)]
  note o = opens_release [OF rel]
  let ?i = "f_ref x" and ?m = "f_flags x AND O_ACCMODE"
  have e: "end_of k f = Some (?i, ?m)" using rel(1) pipe(1) by (simp add: end_of_def)
  note ends = ends_invD(4-8) [OF i(2) pipe(2)]
  have nw: "O_RDONLY \<noteq> O_WRONLY" by (simp add: O_RDONLY_def O_WRONLY_def)
  have c: "int (cnt k' f) = int (cnt k f) + ((d(f := d f - 1)) f - d f)" using o(1) rel(1,2) by (simp add: cnt_def)
  have ends': "ends_inv k'" if "pipe_inv p \<Longrightarrow> r = None \<longrightarrow> opens k' (?i, O_RDONLY) = 0 \<and> opens k' (?i, O_WRONLY) = 0"
    "\<And>p'. r = Some p' \<Longrightarrow> p_readers p' = opens k' (?i, O_RDONLY) \<and> p_writers p' = opens k' (?i, O_WRONLY) \<and> 0 < p_readers p' + p_writers p' \<and> pipe_inv p'"
    unfolding ends_inv_def
  proof (intro conjI allI impI)
    fix g j m assume "end_of k' g = Some (j, m)"
    then have "end_of k g = Some (j, m)" using o(3) [of g] o(5) by (cases "g = f"; cases "k_files k' f") (auto simp: end_of_def)
    then show "m = O_RDONLY \<or> m = O_WRONLY" by (rule ends_invD(1) [OF i(2)])
  next
    fix j assume j: "k_pipes k' j = None"
    then show "opens k' (j, O_RDONLY) = 0" "opens k' (j, O_WRONLY) = 0"
      using that(1) ends(4) o(2) e i(2) by (auto simp: pipe(4) ends_inv_def split: if_splits)
  next
    fix j p' assume j: "k_pipes k' j = Some p'"
    have "opens k' (j, m) = opens k (j, m)" if "j \<noteq> ?i" for m using o(2) [of "(j, m)"] e that by simp
    then show "p_readers p' = opens k' (j, O_RDONLY)" "p_writers p' = opens k' (j, O_WRONLY)" "0 < p_readers p' + p_writers p'" "pipe_inv p'" "j < k_next_pipe k'"
      using j that(2) ends(5) ends_invD(4-8) [OF i(2), of j p'] same(6) by (auto simp: pipe(4) split: if_splits)
  qed
  have fin: "kinv (d(f := d f - 1)) k'"
    if "ends_inv k'" "queue k' = (queue k)(q := drop n (queue k q))" "k_states k' = (\<lambda>p. if p \<in> set (take n (queue k q)) then STATE_READY else k_states k p)" for q n
  proof (rule kinv_recount [where d' = "d(f := d f - 1)", OF assms(1) _ rel(3) same(1-5) rel(4) same(6) _ c o(4,5) _ _ that(1)])
    show "queue_inv (queue k') (k_states k')" unfolding that(2,3) by (rule queue_inv_wake [OF i(6)])
    show "p \<in> set (queue k q')" if "p \<in> set (queue k' q')" for p q'
      using that \<open>queue k' = _\<close> by (auto dest: in_set_dropD split: if_splits)
  qed (use rel assms(3) that(3) in \<open>auto split: if_splits\<close>)
  from ends_invD(1) [OF i(2) e] show ?thesis
  proof
    assume m: "?m = O_RDONLY"
    note pr = pipe_release_read [OF m pipe(3)]
    have op: "p_readers p = opens k' (?i, O_RDONLY) + 1" "p_writers p = opens k' (?i, O_WRONLY)"
      using o(2) [of "(?i, O_RDONLY)"] o(2) [of "(?i, O_WRONLY)"] ends(1,2) e m nw by simp_all
    have "queue k (Readers ?i) = []" if "p_readers p = 1"
      by (rule no_sleepers [OF assms(1-3) _ rel]) (use that op in \<open>simp_all add: needed_end_def\<close>)
    then have "queue k' = (queue k)(Writers ?i := drop (if p_readers p = 1 then length (p_writers_waitq p) else 0) (queue k (Writers ?i)))"
      using pr(2) pipe(2,4) same by (auto simp: fun_eq_iff queue_def split: queue_name.splits option.splits)
    moreover have "k_states k' = (\<lambda>q. if q \<in> set (take (if p_readers p = 1 then length (p_writers_waitq p) else 0) (queue k (Writers ?i))) then STATE_READY else k_states k q)"
      using pr(3) pipe(2) by (simp add: fun_eq_iff queue_def)
    moreover have "ends_inv k'" by (rule ends') (use pr(2) op ends(3,4) in \<open>auto split: if_splits\<close>)
    ultimately show ?thesis by (rule fin [rotated])
  next
    assume m: "?m = O_WRONLY"
    note pr = pipe_release_write [OF m pipe(3)]
    have op: "p_writers p = opens k' (?i, O_WRONLY) + 1" "p_readers p = opens k' (?i, O_RDONLY)"
      using o(2) [of "(?i, O_RDONLY)"] o(2) [of "(?i, O_WRONLY)"] ends(1,2) e m nw by simp_all
    have "queue k (Writers ?i) = []" if "p_writers p = 1"
      by (rule no_sleepers [OF assms(1-3) _ rel]) (use that op in \<open>simp_all add: needed_end_def\<close>)
    then have "queue k' = (queue k)(Readers ?i := drop (if p_writers p = 1 then length (p_readers_waitq p) else 0) (queue k (Readers ?i)))"
      using pr(2) pipe(2,4) same by (auto simp: fun_eq_iff queue_def split: queue_name.splits option.splits)
    moreover have "k_states k' = (\<lambda>q. if q \<in> set (take (if p_writers p = 1 then length (p_readers_waitq p) else 0) (queue k (Readers ?i))) then STATE_READY else k_states k q)"
      using pr(3) pipe(2) by (simp add: fun_eq_iff queue_def)
    moreover have "ends_inv k'" by (rule ends') (use pr(2) op ends(3,4) in \<open>auto split: if_splits\<close>)
    ultimately show ?thesis by (rule fin [rotated])
  qed
qed

text \<open>What a release leaves alone.\<close>

definition frame :: "kernel \<Rightarrow> kernel \<Rightarrow> bool" where
  "frame k k' \<longleftrightarrow> k_procs k' = k_procs k \<and> k_current k' = k_current k \<and> k_all k' = k_all k \<and> k_run k' = k_run k \<and> k_max_id k' = k_max_id k \<and>
     (\<forall>p. k_states k' p \<noteq> k_states k p \<longrightarrow> k_states k' p = STATE_READY)"

lemma frame_awake: "frame k k' \<Longrightarrow> awake k \<Longrightarrow> awake k'"
  by (auto simp: frame_def awake_def suspended_in_def bind_eq_None_conv) metis

lemma pipe_release_states: "pipe_release p flags st = Some (r, st') \<Longrightarrow> st' q \<noteq> st q \<Longrightarrow> st' q = STATE_READY"
  by (auto simp: pipe_release_def wake_all_eq Let_def split: if_splits)

lemma release_pipe_eq:
  assumes "release_pipe i flags k = Some k'"
  shows "\<exists>p r st m. k_pipes k i = Some p \<and> pipe_release p flags (k_states k) = Some (r, st) \<and>
    k' = k\<lparr>k_states := st, k_pipes := (k_pipes k)(i := r), k_mmu := m\<rparr>"
proof -
  obtain p r st where p: "k_pipes k i = Some p" "pipe_release p flags (k_states k) = Some (r, st)"
    using assms by (auto simp: release_pipe_def bind_Some)
  have "\<exists>m. k' = k\<lparr>k_states := st, k_pipes := (k_pipes k)(i := r), k_mmu := m\<rparr>"
  proof (cases r)
    case None
    then show ?thesis using assms p by (auto simp: release_pipe_def Let_def drop_page_def bind_Some)
  next
    case (Some q)
    then have "k' = k\<lparr>k_states := st, k_pipes := (k_pipes k)(i := r), k_mmu := k_mmu k\<rparr>" using assms p by (cases k) (auto simp: release_pipe_def Let_def)
    then show ?thesis by blast
  qed
  then show ?thesis using p by blast
qed

lemma release_file_cases:
  assumes "release_file f k = Some k'" "k_files k f = Some x"
  obtains (plain) "f_type x \<noteq> FF_PIPE" "k' = k\<lparr>k_files := (k_files k)(f := if f_count x = 1 then None else Some (x\<lparr>f_count := f_count x - 1\<rparr>))\<rparr>"
  | (pipe) p r st m where "f_type x = FF_PIPE" "k_pipes k (f_ref x) = Some p" "pipe_release p (f_flags x) (k_states k) = Some (r, st)"
      "k' = k\<lparr>k_states := st, k_pipes := (k_pipes k)(f_ref x := r), k_mmu := m,
        k_files := (k_files k)(f := if f_count x = 1 then None else Some (x\<lparr>f_count := f_count x - 1\<rparr>))\<rparr>"
proof (cases "f_type x = FF_PIPE")
  case False
  then have "k' = k\<lparr>k_files := (k_files k)(f := if f_count x = 1 then None else Some (x\<lparr>f_count := f_count x - 1\<rparr>))\<rparr>"
    using assms by (cases "f_type x") (auto simp: release_file_def set_file_def Let_def split: if_splits)
  then show thesis by (rule plain [OF False])
next
  case True
  have "\<exists>p r st m. k_pipes k (f_ref x) = Some p \<and> pipe_release p (f_flags x) (k_states k) = Some (r, st) \<and>
      k' = k\<lparr>k_states := st, k_pipes := (k_pipes k)(f_ref x := r), k_mmu := m,
        k_files := (k_files k)(f := if f_count x = 1 then None else Some (x\<lparr>f_count := f_count x - 1\<rparr>))\<rparr>"
  proof -
    obtain k1 where k1: "release_pipe (f_ref x) (f_flags x) k = Some k1"
      "k' = (if f_count x = 1 then k1\<lparr>k_files := (k_files k1)(f := None)\<rparr> else set_file f (x\<lparr>f_count := f_count x - 1\<rparr>) k1)"
      using assms True by (auto simp: release_file_def Let_def bind_Some split: if_splits)
    obtain p r st m where p: "k_pipes k (f_ref x) = Some p" "pipe_release p (f_flags x) (k_states k) = Some (r, st)"
      "k1 = k\<lparr>k_states := st, k_pipes := (k_pipes k)(f_ref x := r), k_mmu := m\<rparr>"
      using release_pipe_eq [OF k1(1)] by blast
    have "k' = k\<lparr>k_states := st, k_pipes := (k_pipes k)(f_ref x := r), k_mmu := m,
        k_files := (k_files k)(f := if f_count x = 1 then None else Some (x\<lparr>f_count := f_count x - 1\<rparr>))\<rparr>"
      unfolding k1(2) p(3) set_file_def by simp
    then show ?thesis using p(1,2) by blast
  qed
  then show thesis using pipe [OF True] by blast
qed

lemma kinv_release:
  assumes "kinv d k" "\<And>g. 0 \<le> d g" "1 \<le> d f" "release_file f k = Some k'"
  shows "kinv (d(f := d f - 1)) k'" "frame k k'"
proof -
  note i = kinvD [OF assms(1)]
  obtain x where x: "k_files k f = Some x" "0 < f_count x" using assms(4) by (auto simp: release_file_def bind_Some split: if_splits)
  then have f: "f < k_next_file k" using i(1) by (auto simp: file_inv_def)
  from assms(4) x(1) have "kinv (d(f := d f - 1)) k' \<and> frame k k'"
  proof (cases rule: release_file_cases)
    case plain
    note o = opens_release [OF x f, of k']
    have e: "end_of k f = None" using plain x(1) by (simp add: end_of_def)
    have q: "queue k' = queue k" by (simp add: plain(2) fun_eq_iff queue_def split: queue_name.splits)
    have "end_of k' g = end_of k g" for g using o(3) [of g] e plain x(1) by (cases "g = f") (auto simp: end_of_def)
    then have "end_of k' = end_of k" by blast
    moreover have "opens k' = opens k" using o(2) e by (simp add: fun_eq_iff plain(2))
    moreover have "k_pipes k' = k_pipes k" "k_next_pipe k' = k_next_pipe k" by (simp_all add: plain(2))
    ultimately have "ends_inv k'" using i(2) unfolding ends_inv_def by metis
    moreover have "int (cnt k' f) = int (cnt k f) + ((d(f := d f - 1)) f - d f)" using o(1) x by (simp add: cnt_def plain(2))
    ultimately have "kinv (d(f := d f - 1)) k'"
      by (intro kinv_recount [where d' = "d(f := d f - 1)" and f = f, OF assms(1) _ f]) (use x o(4,5) q i(6) assms(3) in \<open>auto simp: plain(2)\<close>)
    then show ?thesis by (simp add: frame_def plain(2))
  next
    case (pipe p r st m)
    have "kinv (d(f := d f - 1)) k'"
      by (rule kinv_release_pipe [OF assms(1-3) x f, of k']) (use pipe in simp_all)
    then show ?thesis using pipe_release_states [OF pipe(3)] by (simp add: frame_def pipe(4))
  qed
  then show "kinv (d(f := d f - 1)) k'" "frame k k'" by simp_all
qed

end
