(* ===== verification/Cy_Kernel_Files.thy ===== *)
theory Cy_Kernel_Files
  imports Cy_Kernel_Inv
begin

text \<open>The invariant of \<^theory_text>\<open>Cy_Kernel_Inv\<close> and the calls on descriptors.\<close>

subsection \<open>More references\<close>

lemma pipe_countup_Some:
  assumes "pipe_countup p flags = Some q"
  shows "(flags AND O_ACCMODE = O_RDONLY \<and> q = p\<lparr>p_readers := p_readers p + 1\<rparr>) \<or> (flags AND O_ACCMODE = O_WRONLY \<and> q = p\<lparr>p_writers := p_writers p + 1\<rparr>)"
  using assms by (auto simp: pipe_countup_def split: if_splits)

lemma countup_file_eq:
  assumes "countup_file f k = Some k'"
  obtains x where "k_files k f = Some x" "f_type x \<noteq> FF_PIPE" "k' = set_file f (x\<lparr>f_count := f_count x + 1\<rparr>) k"
  | x p q where "k_files k f = Some x" "f_type x = FF_PIPE" "k_pipes k (f_ref x) = Some p" "pipe_countup p (f_flags x) = Some q"
      "k' = (set_file f (x\<lparr>f_count := f_count x + 1\<rparr>) k)\<lparr>k_pipes := (k_pipes k)(f_ref x \<mapsto> q)\<rparr>"
proof -
  obtain x where x: "k_files k f = Some x" using assms by (auto simp: countup_file_def bind_Some)
  show thesis
  proof (cases "f_type x = FF_PIPE")
    case True
    then show ?thesis using assms x that(2) by (auto simp: countup_file_def bind_Some Let_def)
  next
    case False
    then show ?thesis using assms x that(1) by (cases "f_type x") (auto simp: countup_file_def Let_def)
  qed
qed

lemma kinv_countup:
  assumes "kinv d k" "countup_file f k = Some k'"
  shows "kinv (d(f := d f + 1)) k'" "frame k k'" "end_of k' = end_of k" "dom (k_files k') = dom (k_files k)"
proof -
  note i = kinvD [OF assms(1)]
  obtain x where x: "k_files k f = Some x" using assms(2) by (auto simp: countup_file_def bind_Some)
  then have f: "f < k_next_file k" using i(1) by (auto simp: file_inv_def)
  have k': "k_files k' = (k_files k)(f \<mapsto> x\<lparr>f_count := f_count x + 1\<rparr>)" "frame k k'" "k_next_file k' = k_next_file k"
      "k_next_pipe k' = k_next_pipe k" "k_states k' = k_states k" "k_child_waitq k' = k_child_waitq k" "k_tty k' = k_tty k"
    using assms(2) x by (cases rule: countup_file_eq; simp add: frame_def)+
  have c: "cnt k' f = cnt k f + 1" "end_of k' f = end_of k f" using x by (simp_all add: cnt_def k' end_of_def)
  have o: "end_of k' g = end_of k g" "cnt k' g = cnt k g" if "g \<noteq> f" for g using that by (simp_all add: k' end_of_def cnt_def)
  have ends: "end_of k' = end_of k" using o(1) c(2) by (metis ext)
  have op: "opens k' e = opens k e + of_bool (end_of k f = Some e)" for e
    using opens_change [OF f k'(3), of e] o c by (simp add: opens_at_def split: if_splits)
  have "ends_inv k' \<and> queue k' = queue k"
    using assms(2)
  proof (cases rule: countup_file_eq)
    case (1 y)
    then have "opens k' = opens k" using op x by (simp add: fun_eq_iff end_of_def)
    then show ?thesis using i(2) ends unfolding ends_inv_def by (simp add: 1(3) fun_eq_iff queue_def split: queue_name.splits) metis
  next
    case (2 y p q)
    then have e: "end_of k f = Some (f_ref x, f_flags x AND O_ACCMODE)" using x by (simp add: end_of_def)
    have nw: "O_RDONLY \<noteq> O_WRONLY" by (simp add: O_RDONLY_def O_WRONLY_def)
    have pi: "k_pipes k' = (k_pipes k)(f_ref x \<mapsto> q)" using 2 x by simp
    have q: "queue k' = queue k" using 2 pipe_countup_Some [OF 2(4)] x k' by (auto simp: fun_eq_iff queue_def split: queue_name.splits)
    have "ends_inv k'" unfolding ends_inv_def ends
    proof (intro conjI allI impI)
      fix j p' assume "k_pipes k' j = Some p'"
      then show "p_readers p' = opens k' (j, O_RDONLY)" "p_writers p' = opens k' (j, O_WRONLY)" "0 < p_readers p' + p_writers p'" "pipe_inv p'" "j < k_next_pipe k'"
        using pipe_countup_Some [OF 2(4)] ends_invD(4-8) [OF i(2)] 2(1,3) x nw by (auto simp: pi op e k'(4) split: if_splits)
    qed (use ends_invD(1-3) [OF i(2)] e in \<open>auto simp: pi op split: if_splits\<close>)
    then show ?thesis using q by simp
  qed
  then show "kinv (d(f := d f + 1)) k'"
    by (intro kinv_recount [where d' = "d(f := d f + 1)" and f = f, OF assms(1) _ f])
      (use x k' c i(6) in \<open>auto simp: frame_def\<close>)
  show "frame k k'" "end_of k' = end_of k" "dom (k_files k') = dom (k_files k)" using k'(1,2) ends x by auto
qed

lemma awakeD:
  assumes "awake k" "current k = Some (p, x)"
  shows "k_procs k p \<noteq> None" "suspended_in k p = None" "k_states k p = STATE_READY" "k_current k = Some p" "k_procs k p = Some x"
  using assms by (auto simp: awake_def current_def bind_Some)

lemma currentD: "current k = Some (p, x) \<Longrightarrow> k_current k = Some p \<and> k_procs k p = Some x"
  by (auto simp: current_def bind_Some)

lemma ok_core: "core k' = core k \<Longrightarrow> ok k \<Longrightarrow> ok k'"
  using kinv_core(3) by blast

lemma ok_simps [simp]:
  "ok (k\<lparr>k_vfs := v\<rparr>) = ok k" "ok (k\<lparr>k_mmu := m\<rparr>) = ok k" "ok (k\<lparr>k_user := u\<rparr>) = ok k"
  "ok (k\<lparr>k_terminal := t\<rparr>) = ok k" "ok (k\<lparr>k_shutdown := b\<rparr>) = ok k"
  by (rule kinv_core; simp)+

lemma awake_set_slot [simp]: "awake (set_slot p i v k) = awake k"
  by (simp add: awake_def)

text \<open>A new file.\<close>

lemma ends_inv_cong:
  "end_of k' = end_of k \<Longrightarrow> opens k' = opens k \<Longrightarrow> k_pipes k' = k_pipes k \<Longrightarrow> k_next_pipe k' = k_next_pipe k \<Longrightarrow> ends_inv k' = ends_inv k"
  by (simp only: ends_inv_def)

lemma kinv_new_file:
  assumes "kinv d k" "f = k_next_file k" "f_count x = 1" "f_type x \<noteq> FF_PIPE"
  shows "kinv (d(f := d f + 1)) (set_file f x (k\<lparr>k_next_file := f + 1\<rparr>))"
    "awake (set_file f x (k\<lparr>k_next_file := f + 1\<rparr>)) = awake k"
proof -
  note i = kinvD [OF assms(1)]
  define h where "h = set_file f x (k\<lparr>k_next_file := f + 1\<rparr>)"
  have new: "k_files k f = None" using i(1) unfolding file_inv_def assms(2) by blast
  have p: "k_procs h = k_procs k" "k_all h = k_all k" "k_pipes h = k_pipes k" "k_next_pipe h = k_next_pipe k" "k_current h = k_current k"
    "k_run h = k_run k" "k_max_id h = k_max_id k" "k_states h = k_states k" "k_next_file h = Suc f" "k_files h = (k_files k)(f \<mapsto> x)"
    "k_child_waitq h = k_child_waitq k" "k_tty h = k_tty k"
    by (simp_all add: h_def)
  note pr = same_procs(1-4) [OF p(1)] same_procs(5) [OF p(1,2)]
  have e: "end_of h = end_of k" using new assms(4) by (auto simp: fun_eq_iff end_of_def p)
  have c: "cnt h g = cnt k g + of_bool (g = f)" for g using new assms(3) by (simp add: cnt_def p)
  have ef: "end_of k f = None" using new by (simp add: end_of_def)
  have at: "opens_at h g ee = opens_at k g ee" for g ee using ef by (cases "g = f") (simp_all add: opens_at_def e c)
  have o: "opens h = opens k" using ef by (simp add: fun_eq_iff opens_def p lessThan_Suc at assms(2) [symmetric]) (simp add: opens_at_def)
  have q: "queue h = queue k" by (simp add: fun_eq_iff queue_def p split: queue_name.splits)
  have "kinv (d(f := d f + 1)) h"
  proof (rule kinvI)
    show "file_inv (d(f := d f + 1)) h" using i(1) new assms(2) unfolding file_inv_def pr p by (auto simp: c less_Suc_eq)
    show "ends_inv h" using i(2) ends_inv_cong [OF e o p(3,4)] by simp
    show "table_inv h" using i(3) unfolding table_inv_def pr p .
    show "family_inv h" using i(4) unfolding family_inv_def pr p .
    show "run_inv h" using i(5) unfolding run_inv_def p .
    show "queue_inv (queue h) (k_states h)" using i(6) q p by simp
    show "sleep_inv h" using i(7) unfolding sleep_inv_def pr q same_procs(6) [OF p(1) e] .
  qed
  then show "kinv (d(f := d f + 1)) (set_file f x (k\<lparr>k_next_file := f + 1\<rparr>))" by (simp only: h_def)
  have "awake h = awake k" unfolding awake_def pr p ..
  then show "awake (set_file f x (k\<lparr>k_next_file := f + 1\<rparr>)) = awake k" by (simp only: h_def)
qed

lemma first_free_Some:
  "first_free fs i = Some j \<Longrightarrow> i \<le> j \<and> j < MAX_FD_SIZE \<and> fs ! j = None \<and> (\<forall>l. i \<le> l \<longrightarrow> l < j \<longrightarrow> fs ! l \<noteq> None)"
proof (induction fs i rule: first_free.induct)
  case (1 fs i)
  show ?case
  proof (cases "i < MAX_FD_SIZE \<and> fs ! i \<noteq> None")
    case True
    then have "first_free fs (i + 1) = Some j" using 1(2) by (subst (asm) first_free.simps) auto
    then have "i + 1 \<le> j \<and> j < MAX_FD_SIZE \<and> fs ! j = None \<and> (\<forall>l. i + 1 \<le> l \<longrightarrow> l < j \<longrightarrow> fs ! l \<noteq> None)" using 1(1) True by blast
    then show ?thesis using True by (metis Suc_eq_plus1 Suc_leD Suc_leI le_neq_implies_less)
  next
    case False
    then show ?thesis using 1(2) by (subst (asm) first_free.simps) (auto split: if_splits)
  qed
qed

lemma first_free_None: "first_free fs i = None \<Longrightarrow> i \<le> l \<Longrightarrow> l < MAX_FD_SIZE \<Longrightarrow> fs ! l \<noteq> None"
proof (induction fs i rule: first_free.induct)
  case (1 fs i)
  have i: "i < MAX_FD_SIZE" "fs ! i \<noteq> None" "first_free fs (i + 1) = None"
    using 1(2-4) by (subst (asm) first_free.simps, simp split: if_splits)+
  then show ?case using 1(1) [OF i(1,2,3)] 1(3,4) by (cases "l = i") auto
qed

lemma alloc_file_ok:
  assumes "ok k" "current k = Some (p, x)" "alloc_file p k = Some (fd, k')"
  shows "ok k'" "fd < 0 \<longleftrightarrow> first_free (pr_files x) 0 = None" "fd < 0 \<Longrightarrow> k' = k"
    "\<not> fd < 0 \<Longrightarrow> \<exists>i. first_free (pr_files x) 0 = Some i \<and> fd = int i \<and> i < MAX_FD_SIZE \<and>
       k' = set_slot p i (Some (k_next_file k)) (set_file (k_next_file k) zero_file (k\<lparr>k_next_file := k_next_file k + 1\<rparr>))"
proof -
  note c = awakeD [OF okD(2) [OF assms(1)] assms(2)]
  let ?f = "k_next_file k"
  let ?k = "set_file ?f zero_file (k\<lparr>k_next_file := ?f + 1\<rparr>)"
  show 2: "fd < 0 \<longleftrightarrow> first_free (pr_files x) 0 = None" "fd < 0 \<Longrightarrow> k' = k"
    using assms(3) c(5) by (auto simp: alloc_file_def Let_def split: option.splits)
  show 3: "\<exists>i. first_free (pr_files x) 0 = Some i \<and> fd = int i \<and> i < MAX_FD_SIZE \<and> k' = set_slot p i (Some ?f) ?k" if "\<not> fd < 0"
    using assms(3) c(5) that first_free_Some [of "pr_files x" 0] by (auto simp: alloc_file_def Let_def split: option.splits)
  show "ok k'"
  proof (cases "fd < 0")
    case False
    then obtain i where i: "first_free (pr_files x) 0 = Some i" "i < MAX_FD_SIZE" "k' = set_slot p i (Some ?f) ?k" using 3 by blast
    have n: "kinv ((\<lambda>_. 0)(?f := 0 + 1)) ?k" "awake ?k"
      using kinv_new_file [of "\<lambda>_. 0" k ?f zero_file] okD [OF assms(1)] by (simp_all add: zero_file_def)
    have s: "files_of ?k p ! i = None" using first_free_Some [OF i(1)] c(5) by (simp add: files_of_def)
    have "kinv (\<lambda>f. ((\<lambda>_. 0)(?f := 0 + 1)) f + of_bool (files_of ?k p ! i = Some f) - of_bool (Some ?f = Some f)) k'"
      unfolding i(3) by (rule kinv_set_slot [OF n(1)]) (use c i(2) s in simp_all)
    moreover have "(\<lambda>f. ((\<lambda>_. 0 :: int)(?f := 0 + 1)) f + of_bool (files_of ?k p ! i = Some f) - of_bool (Some ?f = Some f)) = (\<lambda>_. 0)"
      using s by (simp add: fun_eq_iff)
    ultimately show ?thesis using n(2) by (simp add: i(3) ok_def)
  qed (use 2(2) assms(1) in simp)
qed

subsection \<open>Closing\<close>

lemma release_pipe_procs: "release_pipe i flags (k\<lparr>k_procs := P\<rparr>) = map_option (k_procs_update (\<lambda>_. P)) (release_pipe i flags k)"
proof (cases "k_pipes k i")
  case (Some p)
  show ?thesis
  proof (cases "pipe_release p flags (k_states k)")
    case None
    then show ?thesis using Some by (simp add: release_pipe_def)
  next
    case (Some rst)
    obtain r st where "rst = (r, st)" by (cases rst)
    then show ?thesis using Some \<open>k_pipes k i = Some p\<close>
      by (cases r; cases "buddy_free (m_buddy (k_mmu k)) (p_page p)") (simp_all add: release_pipe_def Let_def drop_page_def)
  qed
qed (simp add: release_pipe_def)

lemma release_file_procs: "release_file f (k\<lparr>k_procs := P\<rparr>) = map_option (k_procs_update (\<lambda>_. P)) (release_file f k)"
proof (cases "k_files k f")
  case (Some x)
  then show ?thesis
  proof (cases "f_type x = FF_PIPE")
    case True
    then show ?thesis using Some
      by (cases "release_pipe (f_ref x) (f_flags x) k") (simp_all add: release_file_def Let_def set_file_def release_pipe_procs)
  next
    case False
    then have "(case f_type x of FF_PIPE \<Rightarrow> c | _ \<Rightarrow> d) = d" for c d :: "kernel option" by (cases "f_type x") simp_all
    then show ?thesis using Some by (simp add: release_file_def Let_def set_file_def)
  qed
qed (simp add: release_file_def)

lemma release_file_slot: "release_file f (set_slot p i v k) = map_option (set_slot p i v) (release_file f k)"
proof (cases "release_file f k")
  case None
  then show ?thesis by (simp add: set_slot_def upd_proc_def release_file_procs)
next
  case (Some k')
  then obtain x where x: "k_files k f = Some x" by (auto simp: release_file_def bind_Some)
  have "k_procs k' = k_procs k" using Some x by (cases rule: release_file_cases) simp_all
  then show ?thesis using Some by (simp add: set_slot_def upd_proc_def release_file_procs)
qed

text \<open>A descriptor is closed: its reference is released and the slot cleared.\<close>

lemma close_slot_ok:
  assumes "kinv (\<lambda>_. 0) k" "k_procs k p \<noteq> None" "suspended_in k p = None" "i < MAX_FD_SIZE" "files_of k p ! i = Some f" "release_file f k = Some k'"
  shows "kinv (\<lambda>_. 0) (set_slot p i None k')" "frame (set_slot p i None k) (set_slot p i None k')" "frame k k'"
proof -
  let ?d = "(\<lambda>_. 0 :: int)(f := 1)"
  have "(\<lambda>g. 0 + of_bool (files_of k p ! i = Some g) - of_bool (None = Some g)) = ?d" using assms(5) by (auto simp: fun_eq_iff)
  moreover have "kinv (\<lambda>g. 0 + of_bool (files_of k p ! i = Some g) - of_bool (None = Some g)) (set_slot p i None k)"
    by (rule kinv_set_slot [OF assms(1)]) (use assms(2-4) in simp_all)
  ultimately have d: "kinv ?d (set_slot p i None k)" by simp
  have r: "release_file f (set_slot p i None k) = Some (set_slot p i None k')" using assms(6) by (simp add: release_file_slot)
  have "?d(f := ?d f - 1) = (\<lambda>_. 0)" by (simp add: fun_eq_iff)
  moreover note kinv_release [OF d _ _ r]
  ultimately show "kinv (\<lambda>_. 0) (set_slot p i None k')" "frame (set_slot p i None k) (set_slot p i None k')" by simp_all
  obtain x where x: "k_files k f = Some x" using assms(6) by (auto simp: release_file_def bind_Some)
  from assms(6) x show "frame k k'"
    by (cases rule: release_file_cases) (auto simp: frame_def dest: pipe_release_states)
qed

lemma core_cloexec [simp]: "core (set_cloexec p i k) = core k" "core (clear_cloexec p i k) = core k"
  by (simp_all add: set_cloexec_def clear_cloexec_def core_upd_proc)

lemma cloexec_obs [simp]:
  "k_files (set_cloexec p i k) = k_files k" "k_files (clear_cloexec p i k) = k_files k"
  "k_next_file (set_cloexec p i k) = k_next_file k" "k_next_file (clear_cloexec p i k) = k_next_file k"
  by (simp_all add: set_cloexec_def clear_cloexec_def)

lemma ok_cloexec [simp]: "kinv d (set_cloexec p i k) = kinv d k" "awake (set_cloexec p i k) = awake k" "ok (set_cloexec p i k) = ok k"
  "kinv d (clear_cloexec p i k) = kinv d k" "awake (clear_cloexec p i k) = awake k" "ok (clear_cloexec p i k) = ok k"
  by (rule kinv_core; simp)+

lemma get_file_Some:
  assumes "get_file fd k = Some (Some f)"
  shows "\<exists>p x. current k = Some (p, x) \<and> 0 \<le> fd \<and> nat fd < MAX_FD_SIZE \<and> pr_files x ! nat fd = Some f \<and> files_of k p ! nat fd = Some f"
proof -
  obtain p x where "current k = Some (p, x)" "0 \<le> fd" "fd < int MAX_FD_SIZE" "pr_files x ! nat fd = Some f"
    using assms by (auto simp: get_file_def bind_Some split: if_splits)
  then show ?thesis using currentD [of k p x] by (auto simp: files_of_def)
qed

lemma with_file_Some:
  assumes "with_file fd k bad body = Some r"
  obtains "get_file fd k = Some None" "r = bad"
  | f x where "get_file fd k = Some (Some f)" "k_files k f = Some x" "body f x = Some r"
proof -
  obtain g where "get_file fd k = Some g" using assms by (auto simp: with_file_def bind_Some)
  then show thesis using assms that by (cases g) (auto simp: with_file_def bind_Some)
qed

lemma process_close_ok:
  assumes "ok k" "process_close fd k = Some (r, k')"
  shows "ok k'"
  using assms(2) unfolding process_close_def
proof (cases rule: with_file_Some)
  case (2 f x)
  obtain p y where p: "current k = Some (p, y)" "nat fd < MAX_FD_SIZE" "files_of k p ! nat fd = Some f" using get_file_Some [OF 2(1)] by blast
  obtain k1 where k1: "release_file f k = Some k1" "k' = clear_cloexec p (nat fd) (set_slot p (nat fd) None k1)" using 2(3) p(1) by (auto simp: bind_Some)
  note c = awakeD [OF okD(2) [OF assms(1)] p(1)]
  note cl = close_slot_ok [OF okD(1) [OF assms(1)] c(1,2) p(2,3) k1(1)]
  then show ?thesis using frame_awake [OF cl(3)] assms(1) by (simp add: k1(2) ok_def)
qed (use assms(1) in simp)

lemma close_with_ok:
  assumes "ok k" "close_with r fd k = Some (r', k')"
  shows "ok k'"
proof -
  obtain a where "process_close fd k = Some (a, k')" using assms(2) by (auto simp: close_with_def bind_Some)
  then show ?thesis by (rule process_close_ok [OF assms(1)])
qed

subsection \<open>Opening\<close>

lemma alloc_file_new:
  assumes "ok k" "current k = Some (p, x)" "alloc_file p k = Some (fd, k')" "\<not> fd < 0" "current k' = Some (q, y)"
  shows "q = p" "pr_files y ! nat fd = Some (k_next_file k)" "k_files k' (k_next_file k) = Some zero_file" "nat fd < MAX_FD_SIZE"
    "k_next_file k' = k_next_file k + 1"
    "pr_files y = (pr_files x)[nat fd := Some (k_next_file k)]" "k_pipes k' = k_pipes k" "k_next_pipe k' = k_next_pipe k"
proof -
  obtain i where i: "fd = int i" "i < MAX_FD_SIZE"
    "k' = set_slot p i (Some (k_next_file k)) (set_file (k_next_file k) zero_file (k\<lparr>k_next_file := k_next_file k + 1\<rparr>))"
    using alloc_file_ok(4) [OF assms(1-4)] by blast
  have x: "k_current k = Some p" "k_procs k p = Some x" using currentD [OF assms(2)] by simp_all
  have l: "length (pr_files x) = MAX_FD_SIZE" using kinvD(3) [OF okD(1) [OF assms(1)]] x(2) by (auto simp: table_inv_def files_of_def split: option.splits)
  have "k_current k' = Some q" "k_procs k' q = Some y" using currentD [OF assms(5)] by simp_all
  then have y: "q = p" "y = x\<lparr>pr_files := (pr_files x)[i := Some (k_next_file k)]\<rparr>" using x by (auto simp: i(3) set_slot_def)
  show "q = p" "pr_files y ! nat fd = Some (k_next_file k)" "k_files k' (k_next_file k) = Some zero_file" "nat fd < MAX_FD_SIZE"
    "k_next_file k' = k_next_file k + 1"
    "pr_files y = (pr_files x)[nat fd := Some (k_next_file k)]" "k_pipes k' = k_pipes k" "k_next_pipe k' = k_next_pipe k"
    using y i l by simp_all
qed

lemma core_cong_file:
  "k_files k f = Some x \<Longrightarrow> f_type x \<noteq> FF_PIPE \<Longrightarrow> f_type y \<noteq> FF_PIPE \<Longrightarrow> f_count y = f_count x \<Longrightarrow> core (set_file f y k) = core k"
  by (rule core_set_file) simp_all

lemma open_dentry_ok:
  assumes "ok k" "k_files k f = Some x" "f_type x \<noteq> FF_PIPE" "open_dentry fd f d flags k = Some (r, k')"
  shows "ok k'"
proof -
  have "ok (set_file f (x\<lparr>f_type := FF_INODE, f_ref := d\<rparr>) k)"
    by (rule ok_core [OF _ assms(1)]) (simp add: core_cong_file [OF assms(2,3)])
  then show ?thesis using assms(2,4) close_with_ok [OF assms(1)]
    by (auto simp: open_dentry_def bind_Some Let_def split: if_splits)
qed

lemma open_path_ok:
  assumes "ok k" "k_files k f = Some x" "f_type x \<noteq> FF_PIPE" "open_path path fd f flags mode k = Some (r, k')"
  shows "ok k'"
proof -
  have v: "ok (k\<lparr>k_vfs := v\<rparr>)" "k_files (k\<lparr>k_vfs := v\<rparr>) f = Some x" for v using assms(1,2) by simp_all
  show ?thesis using assms(4) close_with_ok [OF v(1)] open_dentry_ok [OF v assms(3)]
    by (auto simp: open_path_def bind_Some Let_def split: if_splits option.splits)
qed

lemma process_open_ok:
  assumes "ok k" "process_open path flags mode k = Some (r, k')"
  shows "ok k'"
proof -
  obtain p x fd k1 where a: "current k = Some (p, x)" "alloc_file p k = Some (fd, k1)" using assms(2) by (auto simp: process_open_def bind_Some)
  note ok1 = alloc_file_ok(1) [OF assms(1) a]
  show ?thesis
  proof (cases "fd < 0")
    case True
    then show ?thesis using assms(2) a ok1 by (auto simp: process_open_def)
  next
    case False
    obtain q y where y: "current k1 = Some (q, y)" using okD(2) [OF ok1] by (auto simp: awake_def current_def)
    note n = alloc_file_new [OF assms(1) a False y]
    let ?x = "zero_file\<lparr>f_flags := flags AND (FILE_STATUS_FLAGS OR O_ACCMODE)\<rparr>"
    let ?k = "set_file (k_next_file k) ?x k1"
    have "ok ?k" by (rule ok_core [OF core_cong_file [OF n(3)] ok1]) (simp_all add: zero_file_def)
    moreover have "open_path path fd (k_next_file k) flags mode ?k = Some (r, k')" using assms(2) a y n(1-3) False by (simp add: process_open_def)
    ultimately show ?thesis using open_path_ok [of ?k "k_next_file k" ?x] by (simp add: zero_file_def)
  qed
qed

subsection \<open>Pipes\<close>

lemma pipe2_mode:
  "(O_RDONLY OR O_APPEND OR flags AND PIPE2_FLAGS) AND O_ACCMODE = O_RDONLY"
  "(O_WRONLY OR O_APPEND OR flags AND PIPE2_FLAGS) AND O_ACCMODE = O_WRONLY"
proof -
  have "PIPE2_FLAGS AND O_ACCMODE = 0" by (simp add: PIPE2_FLAGS_def unix_flags)
  then have "flags AND PIPE2_FLAGS AND O_ACCMODE = 0" by simp
  then have z: "(flags AND PIPE2_FLAGS) AND O_ACCMODE = 0" by (simp only: and.assoc)
  have "O_APPEND AND O_ACCMODE = 0" "O_RDONLY AND O_ACCMODE = O_RDONLY" "O_WRONLY AND O_ACCMODE = O_WRONLY" by (simp_all add: unix_flags)
  then show "(O_RDONLY OR O_APPEND OR flags AND PIPE2_FLAGS) AND O_ACCMODE = O_RDONLY"
    "(O_WRONLY OR O_APPEND OR flags AND PIPE2_FLAGS) AND O_ACCMODE = O_WRONLY"
    using z by (simp_all add: bit.conj_disj_distrib2)
qed

lemma kinv_connect:
  assumes "kinv d k" "k_files k rd = Some a" "k_files k wr = Some b" "f_type a \<noteq> FF_PIPE" "f_type b \<noteq> FF_PIPE" "f_count a = 1" "f_count b = 1" "rd \<noteq> wr"
    and new: "f_type a' = FF_PIPE" "f_ref a' = k_next_pipe k" "f_flags a' AND O_ACCMODE = O_RDONLY" "f_count a' = 1"
      "f_type b' = FF_PIPE" "f_ref b' = k_next_pipe k" "f_flags b' AND O_ACCMODE = O_WRONLY" "f_count b' = 1"
    and pipe: "p_readers p = 1" "p_writers p = 1" "p_readers_waitq p = []" "p_writers_waitq p = []" "pipe_inv p"
    and k': "k' = set_file wr b' (set_file rd a' (k\<lparr>k_pipes := (k_pipes k)(k_next_pipe k \<mapsto> p), k_next_pipe := k_next_pipe k + 1\<rparr>))"
  shows "kinv d k'" "awake k' = awake k"
proof -
  note i = kinvD [OF assms(1)]
  let ?i = "k_next_pipe k"
  define h where "h = set_file rd a' k"
  have lt: "rd < k_next_file k" "wr < k_next_file k" using i(1) assms(2,3) by (auto simp: file_inv_def)
  have pn: "k_pipes k ?i = None" using ends_invD(8) [OF i(2), of ?i] by (cases "k_pipes k ?i") auto
  have p: "k_procs k' = k_procs k" "k_all k' = k_all k" "k_pipes k' = (k_pipes k)(?i \<mapsto> p)" "k_next_pipe k' = Suc ?i" "k_current k' = k_current k"
    "k_run k' = k_run k" "k_max_id k' = k_max_id k" "k_states k' = k_states k" "k_next_file k' = k_next_file k"
    "k_files k' = (k_files k)(rd \<mapsto> a', wr \<mapsto> b')" "k_child_waitq k' = k_child_waitq k" "k_tty k' = k_tty k"
    by (simp_all add: k')
  note pr = same_procs(1-4) [OF p(1)] same_procs(5) [OF p(1,2)]
  have e: "end_of k' f = (if f = rd then Some (?i, O_RDONLY) else if f = wr then Some (?i, O_WRONLY) else end_of k f)" for f
    using new assms(8) by (simp add: end_of_def p)
  have en: "end_of k rd = None" "end_of k wr = None" using assms(2-5) by (simp_all add: end_of_def)
  have c: "cnt k' = cnt k" using assms(2,3,6,7) new by (auto simp: fun_eq_iff cnt_def p)
  have cc: "cnt k rd = 1" "cnt k wr = 1" using assms(2,3,6,7) by (simp_all add: cnt_def)
  have h: "end_of h f = (if f = rd then Some (?i, O_RDONLY) else end_of k f)" "cnt h = cnt k" "k_next_file h = k_next_file k" for f
    using new assms(2,6) by (auto simp: h_def end_of_def cnt_def fun_eq_iff)
  have o: "opens k' ee = opens k ee + of_bool (ee = (?i, O_RDONLY)) + of_bool (ee = (?i, O_WRONLY))" for ee
    using opens_change [OF lt(1) h(3), of ee] opens_change [of wr h k' ee] lt(2) assms(8) cc
    by (simp add: h e c p opens_at_def en split: if_splits)
  have nw: "O_RDONLY \<noteq> O_WRONLY" by (simp add: O_RDONLY_def O_WRONLY_def)
  have q: "queue k' = queue k" using pn pipe by (auto simp: fun_eq_iff queue_def p split: queue_name.splits)
  show "kinv d k'"
  proof (rule kinvI)
    show "file_inv d k'" using i(1) assms(2,3) unfolding file_inv_def pr c p by auto
    show "ends_inv k'" unfolding ends_inv_def
    proof (intro conjI allI impI)
      fix f j m assume "end_of k' f = Some (j, m)"
      then show "m = O_RDONLY \<or> m = O_WRONLY" using ends_invD(1) [OF i(2)] by (auto simp: e split: if_splits)
    next
      fix j assume "k_pipes k' j = None"
      then show "opens k' (j, O_RDONLY) = 0" "opens k' (j, O_WRONLY) = 0"
        using ends_invD(2,3) [OF i(2), of j] by (auto simp: o p split: if_splits)
    next
      fix j r assume "k_pipes k' j = Some r"
      then show "p_readers r = opens k' (j, O_RDONLY)" "p_writers r = opens k' (j, O_WRONLY)" "0 < p_readers r + p_writers r" "pipe_inv r" "j < k_next_pipe k'"
        using ends_invD(2,3) [OF i(2) pn] ends_invD(4-8) [OF i(2), of j r] pipe nw by (auto simp: o p split: if_splits)
    qed
    show "table_inv k'" using i(3) unfolding table_inv_def pr p .
    show "family_inv k'" using i(4) unfolding family_inv_def pr p .
    show "run_inv k'" using i(5) unfolding run_inv_def p .
    show "queue_inv (queue k') (k_states k')" using i(6) q p by simp
    have "has_end k' r ee" if "has_end k r ee" for r ee using that en unfolding has_end_def pr e by force
    then show "sleep_inv k'" using i(7) unfolding sleep_inv_def pr q by blast
  qed
  show "awake k' = awake k" unfolding awake_def pr p ..
qed

lemma connect_pipe_ok:
  assumes "ok k" "k_files k rd = Some zero_file" "k_files k wr = Some zero_file" "rd \<noteq> wr" "connect_pipe rd wr flags k = Some k'"
  shows "ok k'"
proof -
  obtain i k1 where n: "new_pipe k = Some (i, k1)" using assms(5) by (auto simp: connect_pipe_def bind_Some)
  then obtain page k2 where t: "take_page PAGE_SIZE k = Some (page, k2)" by (auto simp: new_pipe_def bind_Some)
  let ?p = "pipe_create page (\<lambda>j. k_stale k2 (page_address (m_buddy (k_mmu k2)) page + of_nat j))"
  have i: "i = k_next_pipe k2" "k1 = k2\<lparr>k_pipes := (k_pipes k2)(i \<mapsto> ?p), k_next_pipe := i + 1\<rparr>" using n t by (auto simp: new_pipe_def Let_def)
  obtain m where k2: "k2 = k\<lparr>k_mmu := m\<rparr>" using t by (auto simp: take_page_def bind_Some)
  have "ok k2" using assms(1) by (simp add: k2)
  moreover have "k_files k1 = k_files k" by (simp add: i(2) k2)
  moreover have "?p = pipe_create page (\<lambda>j. k_stale k2 (page_address (m_buddy (k_mmu k2)) page + of_nat j))" ..
  ultimately show ?thesis
    using kinv_connect [of "\<lambda>_. 0" k2 rd zero_file wr zero_file "zero_file\<lparr>f_type := FF_PIPE, f_ref := i, f_flags := O_RDONLY OR O_APPEND OR flags AND PIPE2_FLAGS\<rparr>"
        "zero_file\<lparr>f_type := FF_PIPE, f_ref := i, f_flags := O_WRONLY OR O_APPEND OR flags AND PIPE2_FLAGS\<rparr>" ?p k'] assms
    by (simp add: connect_pipe_def n Let_def i ok_def zero_file_def pipe2_mode pipe_create_def process_waitq_init_def pipe_inv_def PAGE_SIZE_def k2)
qed

lemma process_pipe2_ok:
  assumes "ok k" "process_pipe2 pipefd flags k = Some (r, k')"
  shows "ok k'"
proof (cases "flags AND NOT PIPE2_FLAGS \<noteq> 0")
  case True
  then show ?thesis using assms by (simp add: process_pipe2_def)
next
  case False
  then obtain p x rfd k1 where a: "current k = Some (p, x)" "alloc_file p k = Some (rfd, k1)" using assms(2) by (auto simp: process_pipe2_def bind_Some)
  note ok1 = alloc_file_ok(1) [OF assms(1) a]
  show ?thesis
  proof (cases "rfd < 0")
    case True
    then show ?thesis using assms(2) False a ok1 by (auto simp: process_pipe2_def)
  next
    case rfd: False
    obtain q y where y: "current k1 = Some (q, y)" using okD(2) [OF ok1] by (auto simp: awake_def current_def)
    note n = alloc_file_new [OF assms(1) a rfd y]
    note y' = y [unfolded n(1)]
    obtain wfd k2 where b: "alloc_file p k1 = Some (wfd, k2)" using assms(2) False a rfd by (auto simp: process_pipe2_def bind_Some)
    note ok2 = alloc_file_ok(1) [OF ok1 y' b]
    show ?thesis
    proof (cases "wfd < 0")
      case True
      then show ?thesis using assms(2) False a rfd b close_with_ok [OF ok2] by (auto simp: process_pipe2_def)
    next
      case wfd: False
      obtain q2 z where z: "current k2 = Some (q2, z)" using okD(2) [OF ok2] by (auto simp: awake_def current_def)
      note n2 = alloc_file_new [OF ok1 y' b wfd z]
      obtain j where j: "first_free (pr_files y) 0 = Some j" "wfd = int j" "j < MAX_FD_SIZE"
        "k2 = set_slot p j (Some (k_next_file k1)) (set_file (k_next_file k1) zero_file (k1\<lparr>k_next_file := k_next_file k1 + 1\<rparr>))"
        using alloc_file_ok(4) [OF ok1 y' b wfd] by blast
      have "nat wfd \<noteq> nat rfd" using first_free_Some [OF j(1)] n(2) j(2) by auto
      then have zf: "pr_files z ! nat rfd = Some (k_next_file k)" "pr_files z ! nat wfd = Some (k_next_file k1)" using n2(2,6) n(2) by simp_all
      have rd: "k_files k2 (k_next_file k) = Some zero_file" using n(3,5) by (simp add: j(4))
      have "\<exists>k3. connect_pipe (k_next_file k) (k_next_file k1) flags k2 = Some k3 \<and> core k' = core k3"
        using assms(2) False a rfd b wfd z zf by (auto simp: process_pipe2_def bind_Some Let_def split: if_splits dest!: core_store32)
      then show ?thesis using connect_pipe_ok [OF ok2 rd n2(3)] n(5) ok_core by fastforce
    qed
  qed
qed

subsection \<open>Duplicating\<close>

lemma add_slot_ok:
  assumes "ok k" "current k = Some (p, x)" "i < MAX_FD_SIZE" "pr_files x ! i = None" "countup_file f k = Some k'"
  shows "ok (set_slot p i (Some f) k')"
proof -
  note c = awakeD [OF okD(2) [OF assms(1)] assms(2)]
  let ?d = "(\<lambda>_. 0 :: int)(f := 0 + 1)"
  note u = kinv_countup [OF okD(1) [OF assms(1)] assms(5)]
  have fr: "k_procs k' = k_procs k" "k_states k' p = STATE_READY" using u(2) c(3) by (auto simp: frame_def) metis
  have s: "files_of k' p ! i = None" using assms(4) c(5) by (simp add: files_of_def fr)
  have "kinv (\<lambda>g. ?d g + of_bool (files_of k' p ! i = Some g) - of_bool (Some f = Some g)) (set_slot p i (Some f) k')"
    by (rule kinv_set_slot [OF u(1)]) (use c assms(3) s fr in simp_all)
  moreover have "(\<lambda>g. ?d g + of_bool (files_of k' p ! i = Some g) - of_bool (Some f = Some g)) = (\<lambda>_. 0)" using s by (simp add: fun_eq_iff)
  ultimately show ?thesis using frame_awake [OF u(2) okD(2) [OF assms(1)]] by (simp add: ok_def)
qed

lemma set_slot_cloexec: "set_slot p i v (set_cloexec q j k) = set_cloexec q j (set_slot p i v k)"
  by (cases "k_procs k p"; cases "k_procs k q") (auto simp: set_slot_def set_cloexec_def upd_proc_def fun_eq_iff)

lemma process_dupfd_ok:
  assumes "ok k" "process_dupfd fd from flags k = Some (r, k')"
  shows "ok k'"
  using assms(2) unfolding process_dupfd_def
proof (cases rule: with_file_Some)
  case (2 f y)
  then show ?thesis using assms(1) add_slot_ok [OF assms(1)] first_free_Some
    by (auto simp: bind_Some Let_def set_slot_cloexec split: if_splits option.splits)
qed (use assms(1) in simp)

lemma process_close_effect:
  assumes "ok k" "process_close fd k = Some (r, k')" "current k = Some (p, x)" "pr_files x ! nat fd \<noteq> None" "0 \<le> fd" "nat fd < MAX_FD_SIZE"
  shows "\<exists>x'. current k' = Some (p, x') \<and> pr_files x' = (pr_files x)[nat fd := None]"
proof -
  obtain f where f: "pr_files x ! nat fd = Some f" using assms(4) by blast
  then have g: "get_file fd k = Some (Some f)" using assms(3,5,6) by (simp add: get_file_def)
  from assms(2) obtain k1 where k1: "release_file f k = Some k1" "k' = clear_cloexec p (nat fd) (set_slot p (nat fd) None k1)"
    unfolding process_close_def by (cases rule: with_file_Some) (use g assms(3) in \<open>auto simp: bind_Some\<close>)
  note c = awakeD [OF okD(2) [OF assms(1)] assms(3)]
  have "files_of k p ! nat fd = Some f" using f c(5) by (simp add: files_of_def)
  from close_slot_ok(3) [OF okD(1) [OF assms(1)] c(1,2) assms(6) this k1(1)] have "k_current k1 = Some p" "k_procs k1 p = Some x"
    using c by (simp_all add: frame_def)
  then show ?thesis by (simp add: k1(2) current_def clear_cloexec_def set_slot_def upd_proc_def)
qed

lemma dup_to_ok:
  assumes "ok k" "dup_to f newfd flags k = Some (r, k')" "0 \<le> newfd" "newfd < int MAX_FD_SIZE"
  shows "ok k'"
proof -
  obtain p x where x: "current k = Some (p, x)" using assms(2) by (auto simp: dup_to_def bind_Some)
  then have l: "length (pr_files x) = MAX_FD_SIZE" using kinvD(3) [OF okD(1) [OF assms(1)]] currentD [OF x]
    by (auto simp: table_inv_def files_of_def split: option.splits)
  obtain r1 k1 where k1: "(if pr_files x ! nat newfd \<noteq> None then process_close newfd k else Some (0, k)) = Some (r1, k1)"
    using assms(2) x by (auto simp: dup_to_def bind_Some)
  have fd: "nat newfd < MAX_FD_SIZE" using assms(3,4) by simp
  have "ok k1 \<and> (\<exists>x'. current k1 = Some (p, x') \<and> pr_files x' ! nat newfd = None)"
  proof (cases "pr_files x ! nat newfd = None")
    case True
    then show ?thesis using k1 assms(1) x by simp
  next
    case False
    then have c: "process_close newfd k = Some (r1, k1)" using k1 by simp
    show ?thesis using process_close_ok [OF assms(1) c] process_close_effect [OF assms(1) c x False assms(3) fd] fd l by auto
  qed
  then obtain x' where k1': "ok k1" "current k1 = Some (p, x')" "pr_files x' ! nat newfd = None" by blast
  obtain k2 where k2: "countup_file f k1 = Some k2" using assms(2) x k1 by (auto simp: dup_to_def bind_Some)
  have "ok (set_slot p (nat newfd) (Some f) k2)" by (rule add_slot_ok [OF k1'(1,2) fd k1'(3) k2])
  then show ?thesis using assms(2) x k1 k2 by (auto simp: dup_to_def Let_def set_slot_cloexec split: if_splits)
qed

lemma process_dup2_ok:
  assumes "ok k" "process_dup2 oldfd newfd k = Some (r, k')"
  shows "ok k'"
  using assms(2) unfolding process_dup2_def
  by (cases rule: with_file_Some) (use assms(1) dup_to_ok [OF assms(1)] in \<open>auto split: if_splits\<close>)

lemma process_dup3_ok:
  assumes "ok k" "process_dup3 oldfd newfd flags k = Some (r, k')"
  shows "ok k'"
  using assms(2) unfolding process_dup3_def
  by (cases rule: with_file_Some) (use assms(1) dup_to_ok [OF assms(1)] in \<open>auto split: if_splits\<close>)

lemma setfl_mode: "(new AND FILE_STATUS_FLAGS OR flags AND O_ACCMODE) AND O_ACCMODE = flags AND O_ACCMODE"
proof -
  have "FILE_STATUS_FLAGS AND O_ACCMODE = 0" by (simp add: FILE_STATUS_FLAGS_def unix_flags)
  then have "(new AND FILE_STATUS_FLAGS) AND O_ACCMODE = 0" by (simp add: and.assoc)
  then show ?thesis by (simp add: bit.conj_disj_distrib2 and.assoc)
qed

lemma process_fcntl64_ok:
  assumes "ok k" "process_fcntl64 fd cmd new k = Some (r, k')"
  shows "ok k'"
  using assms(2) unfolding process_fcntl64_def
proof (cases rule: with_file_Some)
  case (2 f x)
  have "ok (set_file f (x\<lparr>f_flags := new AND FILE_STATUS_FLAGS OR f_flags x AND O_ACCMODE\<rparr>) k)"
    by (rule ok_core [OF core_set_file [OF 2(2)] assms(1)]) (simp_all add: setfl_mode)
  then show ?thesis using assms(1) process_dupfd_ok [OF assms(1)]
    by (intro post_pairD [OF 2(3), where P = "\<lambda>_. ok"] post_rules) (auto intro: post_pair)
qed (use assms(1) in simp)

subsection \<open>Calls the invariant does not see\<close>

lemma core_process_kill [cores]: "process_kill pid sig k = Some (r, k') \<Longrightarrow> core k' = core k"
  by (auto simp: process_kill_def core_upd_proc split: if_splits option.splits)

lemma core_process_llseek [cores]:
  assumes "process_llseek fd off wh k = Some (r, k')"
  shows "core k' = core k"
  using assms unfolding process_llseek_def
proof (cases rule: with_file_Some)
  case (2 f x)
  have "core (set_file f (x\<lparr>f_offset := n\<rparr>) k) = core k" for n by (rule core_set_file [OF 2(2)]) simp_all
  then show ?thesis unfolding Let_def
    by (intro post_pairD [OF 2(3) [unfolded Let_def], where P = "\<lambda>_ k'. core k' = core k"] post_rules) simp_all
qed simp

lemma core_process_fstat64 [cores]:
  assumes "process_fstat64 fd buf k = Some (r, k')"
  shows "core k' = core k"
  using assms unfolding process_fstat64_def
  by (cases rule: with_file_Some) (auto simp: bind_Some store_stat_def split: option.splits dest: cores)

lemma core_process_ioctl [cores]:
  assumes "process_ioctl fd req argp k = Some (r, k')"
  shows "core k' = core k"
  using assms unfolding process_ioctl_def
  by (cases rule: with_file_Some) (auto simp del: store_bytes.simps simp: bind_Some split: if_splits dest: cores)

end
