(* ===== verification/Cy_Kernel_Block.thy ===== *)
theory Cy_Kernel_Block
  imports Cy_Kernel_Files
begin

text \<open>
  The invariant of \<^theory_text>\<open>Cy_Kernel_Inv\<close> and the calls that can sleep: a call returns with the invariant, or
  its process is blocked on the right queue and the invariant holds once the place where it sleeps is
  recorded.
\<close>

subsection \<open>What the calls do to the queues\<close>

text \<open>The front of a queue has been woken.\<close>

definition wakes :: "waitq \<Rightarrow> states \<Rightarrow> waitq \<Rightarrow> states \<Rightarrow> bool" where
  "wakes q st q' st' \<longleftrightarrow> (\<exists>n. q' = drop n q \<and> st' = (\<lambda>p. if p \<in> set (take n q) then STATE_READY else st p))"

lemma wakes_refl [simp]: "wakes q st q st"
  unfolding wakes_def by (rule exI [of _ 0]) simp

lemma wakes_wake: "wakes q st (fst (snd (process_wake q st))) (snd (snd (process_wake q st)))"
  by (cases q) (auto simp: wakes_def fun_eq_iff intro: exI [of _ 0] exI [of _ 1])

lemma wakes_trans:
  assumes "wakes q st q1 st1" "wakes q1 st1 q2 st2"
  shows "wakes q st q2 st2"
proof -
  obtain n m where n: "q1 = drop n q" "st1 = (\<lambda>p. if p \<in> set (take n q) then STATE_READY else st p)"
    "q2 = drop m q1" "st2 = (\<lambda>p. if p \<in> set (take m q1) then STATE_READY else st1 p)"
    using assms by (auto simp: wakes_def)
  have "set (take (n + m) q) = set (take n q) \<union> set (take m (drop n q))" by (simp add: take_add)
  then have "q2 = drop (n + m) q \<and> st2 = (\<lambda>p. if p \<in> set (take (n + m) q) then STATE_READY else st p)"
    using n by (simp add: fun_eq_iff add.commute)
  then show ?thesis unfolding wakes_def by blast
qed

definition same_pipe :: "pipe \<Rightarrow> pipe \<Rightarrow> bool" where
  "same_pipe p p' \<longleftrightarrow> p_readers p' = p_readers p \<and> p_writers p' = p_writers p \<and> (pipe_inv p \<longrightarrow> pipe_inv p')"

text \<open>The two queues of a call on a pipe: the one it wakes and the one it sleeps on.\<close>

definition moved :: "pid \<Rightarrow> bool \<Rightarrow> waitq \<Rightarrow> waitq \<Rightarrow> states \<Rightarrow> waitq \<Rightarrow> waitq \<Rightarrow> states \<Rightarrow> bool" where
  "moved me asleep w s st w' s' st' \<longleftrightarrow>
     (\<exists>st1. wakes w st w' st1 \<and> (if asleep then s' = me # s \<and> st' = st1(me := STATE_BLOCKED) else s' = s \<and> st' = st1))"

lemma moved_sleep: "moved me True w s st w (me # s) (st(me := STATE_BLOCKED))"
  unfolding moved_def by (rule exI [of _ st]) simp

lemma moved_wake: "process_wake w st = (b, w', st') \<Longrightarrow> moved me False w s st w' s st'"
  using wakes_wake [of w st] by (simp add: moved_def)

lemma moved_refl [simp]: "moved me False w s st w s st"
  by (simp add: moved_def)

lemma moved_trans: "moved me False w s st w1 s1 st1 \<Longrightarrow> moved me a w1 s1 st1 w2 s2 st2 \<Longrightarrow> moved me a w s st w2 s2 st2"
  unfolding moved_def by (auto split: if_splits intro: wakes_trans)

fun read_sleeps :: "read_outcome \<Rightarrow> bool" where
  "read_sleeps (Read_Sleep bs) = True"
| "read_sleeps _ = False"

fun write_sleeps :: "write_outcome \<Rightarrow> bool" where
  "write_sleeps (Write_Sleep n) = True"
| "write_sleeps _ = False"

lemma no_sleep [simp]: "read_sleeps (if c then Read_Return n bs else Read_Next bs') = False" "write_sleeps (if c then Write_Return n else Write_Next m) = False"
  by simp_all

lemma pipe_read_round_moves:
  assumes "pipe_read_round me sz got st p = Some (out, st', p')"
  shows "same_pipe p p' \<and> moved me (read_sleeps out) (p_writers_waitq p) (p_readers_waitq p) st (p_writers_waitq p') (p_readers_waitq p') st'"
proof -
  have "post (pipe_read_round me sz got st p) (\<lambda>(out, st', p').
      same_pipe p p' \<and> moved me (read_sleeps out) (p_writers_waitq p) (p_readers_waitq p) st (p_writers_waitq p') (p_readers_waitq p') st')"
    unfolding pipe_read_round_def Let_def block_on_def
    by (intro post_rules) (auto simp: same_pipe_def pipe_inv_def split del: if_split intro: moved_sleep moved_wake)
  then show ?thesis using assms by (simp add: post_def)
qed

lemma pipe_read_moves:
  "pipe_read me sz got st p = Some r \<Longrightarrow> case r of (out, st', p') \<Rightarrow>
     same_pipe p p' \<and> moved me (read_sleeps out) (p_writers_waitq p) (p_readers_waitq p) st (p_writers_waitq p') (p_readers_waitq p') st'"
proof (erule pipe_read.raw_induct [where P = "\<lambda>me sz got st p r. case r of (out, st', p') \<Rightarrow>
     same_pipe p p' \<and> moved me (read_sleeps out) (p_writers_waitq p) (p_readers_waitq p) st (p_writers_waitq p') (p_readers_waitq p') st'", rotated])
  fix rec me sz got st p r
  assume IH: "\<And>me sz got st p r. rec me sz got st p = Some r \<Longrightarrow> case r of (out, st', p') \<Rightarrow>
     same_pipe p p' \<and> moved me (read_sleeps out) (p_writers_waitq p) (p_readers_waitq p) st (p_writers_waitq p') (p_readers_waitq p') st'"
    and r: "Option.bind (pipe_read_round me sz got st p) (\<lambda>(out, st, p). case out of Read_Next got \<Rightarrow> rec me sz got st p | _ \<Rightarrow> Some (out, st, p)) = Some r"
  obtain out st1 p1 where o: "pipe_read_round me sz got st p = Some (out, st1, p1)" using r by (auto simp: bind_Some)
  note m = pipe_read_round_moves [OF o]
  show "case r of (out, st', p') \<Rightarrow>
     same_pipe p p' \<and> moved me (read_sleeps out) (p_writers_waitq p) (p_readers_waitq p) st (p_writers_waitq p') (p_readers_waitq p') st'"
  proof (cases "\<exists>g. out = Read_Next g")
    case True
    then obtain g where g: "out = Read_Next g" by blast
    have "rec me sz g st1 p1 = Some r" using r o g by simp
    from IH [OF this] m g show ?thesis by (auto simp: same_pipe_def intro: moved_trans)
  next
    case False
    then show ?thesis using r o m by (cases out) auto
  qed
qed

lemma pipe_write_round_moves:
  assumes "pipe_write_round me data n st p = Some (out, st', p')"
  shows "same_pipe p p' \<and> moved me (write_sleeps out) (p_readers_waitq p) (p_writers_waitq p) st (p_readers_waitq p') (p_writers_waitq p') st'"
proof -
  have "post (pipe_write_round me data n st p) (\<lambda>(out, st', p').
      same_pipe p p' \<and> moved me (write_sleeps out) (p_readers_waitq p) (p_writers_waitq p) st (p_readers_waitq p') (p_writers_waitq p') st')"
    unfolding pipe_write_round_def Let_def block_on_def
    by (intro post_rules) (auto simp: same_pipe_def pipe_inv_def intro: moved_sleep moved_wake)
  then show ?thesis using assms by (simp add: post_def)
qed

lemma pipe_write_moves:
  "pipe_write me data n st p = Some r \<Longrightarrow> case r of (out, st', p') \<Rightarrow>
     same_pipe p p' \<and> moved me (write_sleeps out) (p_readers_waitq p) (p_writers_waitq p) st (p_readers_waitq p') (p_writers_waitq p') st'"
proof (erule pipe_write.raw_induct [where P = "\<lambda>me data n st p r. case r of (out, st', p') \<Rightarrow>
     same_pipe p p' \<and> moved me (write_sleeps out) (p_readers_waitq p) (p_writers_waitq p) st (p_readers_waitq p') (p_writers_waitq p') st'", rotated])
  fix rec me data n st p r
  assume IH: "\<And>me data n st p r. rec me data n st p = Some r \<Longrightarrow> case r of (out, st', p') \<Rightarrow>
     same_pipe p p' \<and> moved me (write_sleeps out) (p_readers_waitq p) (p_writers_waitq p) st (p_readers_waitq p') (p_writers_waitq p') st'"
    and r: "Option.bind (pipe_write_round me data n st p) (\<lambda>(out, st, p). case out of Write_Next n \<Rightarrow> rec me data n st p | _ \<Rightarrow> Some (out, st, p)) = Some r"
  obtain out st1 p1 where o: "pipe_write_round me data n st p = Some (out, st1, p1)" using r by (auto simp: bind_Some)
  note m = pipe_write_round_moves [OF o]
  show "case r of (out, st', p') \<Rightarrow>
     same_pipe p p' \<and> moved me (write_sleeps out) (p_readers_waitq p) (p_writers_waitq p) st (p_readers_waitq p') (p_writers_waitq p') st'"
  proof (cases "\<exists>g. out = Write_Next g")
    case True
    then obtain g where g: "out = Write_Next g" by blast
    have "rec me data g st1 p1 = Some r" using r o g by simp
    from IH [OF this] m g show ?thesis by (auto simp: same_pipe_def intro: moved_trans)
  next
    case False
    then show ?thesis using r o m by (cases out) auto
  qed
qed

subsection \<open>Asleep\<close>

text \<open>The current process is about to sleep in \<open>b\<close>: with its place recorded, the invariant holds.\<close>

definition asleep :: "blocked \<Rightarrow> kernel \<Rightarrow> bool" where
  "asleep b k \<longleftrightarrow> (\<exists>me x. current k = Some (me, x) \<and> (\<forall>a. kinv (\<lambda>_. 0) (set_proc me (x\<lparr>pr_suspend := Some (b, a)\<rparr>) k)))"

fun io_ok :: "io \<Rightarrow> kernel \<Rightarrow> bool" where
  "io_ok (Done r) k = ok k"
| "io_ok (Asleep b) k = asleep b k"

lemma asleep_core:
  assumes "core k' = core k" "asleep b k"
  shows "asleep b k'"
proof -
  obtain me x where x: "current k = Some (me, x)" "\<And>a. kinv (\<lambda>_. 0) (set_proc me (x\<lparr>pr_suspend := Some (b, a)\<rparr>) k)" using assms(2) by (auto simp: asleep_def)
  note c = coreD [OF assms(1)]
  obtain x' where x': "k_procs k' me = Some x'" "pr_parent x' = pr_parent x" "pr_children x' = pr_children x" "pr_files x' = pr_files x"
    using c(18) [of me x] currentD [OF x(1)] by blast
  have "core (set_proc me (x'\<lparr>pr_suspend := Some (b, a)\<rparr>) k') = core (set_proc me (x\<lparr>pr_suspend := Some (b, a)\<rparr>) k)" for a
    using assms(1) x' by (auto simp: core_def set_proc_def fun_eq_iff)
  from kinv_core(1) [OF this] x(2) have "kinv (\<lambda>_. 0) (set_proc me (x'\<lparr>pr_suspend := Some (b, a)\<rparr>) k')" for a by blast
  moreover have "current k' = Some (me, x')" using x'(1) c(1) currentD [OF x(1)] by (simp add: current_def)
  ultimately show ?thesis unfolding asleep_def by blast
qed

lemma io_ok_core: "core k' = core k \<Longrightarrow> io_ok r k \<Longrightarrow> io_ok r k'"
  by (cases r) (simp_all add: ok_core asleep_core)

text \<open>The step that wakes the front of a queue and puts the current process on another one.\<close>

lemma sleep_invD:
  assumes "sleep_inv k"
  shows "p \<in> set (queue k q) \<Longrightarrow> \<exists>b. suspended_in k p = Some b \<and> site b = q"
    "suspended_in k p = Some b \<Longrightarrow> needed_end (site b) = Some e \<Longrightarrow> has_end k p e"
  using assms unfolding sleep_inv_def by blast+

lemma kinv_block:
  assumes "ok k" "current k = Some (me, x)" "same_but_queues k k'" "k_procs k' = k_procs k" "w \<noteq> q"
    "queue k' = (queue k)(w := drop n (queue k w), q := me # queue k q)"
    "k_states k' = (\<lambda>p. if p \<in> set (take n (queue k w)) then STATE_READY else k_states k p)(me := STATE_BLOCKED)"
    "site b = q" "\<And>e. needed_end q = Some e \<Longrightarrow> has_end k me e"
  shows "asleep b k'"
proof -
  note i = kinvD [OF okD(1) [OF assms(1)]]
  note c = awakeD [OF okD(2) [OF assms(1)] assms(2)]
  have cur: "current k' = Some (me, x)" using assms(3,4) c(4,5) by (simp add: current_def same_but_queues_def)
  have notin: "me \<notin> set (queue k q')" for q' using queue_invD(3) [OF i(6), of me] c(3) by auto
  have "kinv (\<lambda>_. 0) (set_proc me (x\<lparr>pr_suspend := Some (b, a)\<rparr>) k')" for a
  proof -
    let ?k = "set_proc me (x\<lparr>pr_suspend := Some (b, a)\<rparr>) k'"
    have s: "suspended_in ?k = (suspended_in k)(me := Some b)" using assms(4) by (auto simp: fun_eq_iff suspended_in_def set_proc_def)
    have q: "queue ?k = (queue k)(w := drop n (queue k w), q := me # queue k q)" unfolding assms(6) [symmetric] by (simp add: fun_eq_iff queue_def set_proc_def split: queue_name.splits)
    have st: "k_states ?k = (\<lambda>p. if p \<in> set (take n (queue k w)) then STATE_READY else k_states k p)(me := STATE_BLOCKED)" using assms(7) by (simp add: set_proc_def)
    have sb: "same_but_queues k ?k"
      using assms(3,4) c(5) unfolding same_but_queues_def
      by (auto simp: set_proc_def files_of_def parent_of_def children_of_def cnt_def end_of_def fun_eq_iff split: if_splits)
    show ?thesis
    proof (rule kinv_queues [OF okD(1) [OF assms(1)] sb])
      let ?Q = "(queue k)(w := drop n (queue k w))"
      have "?Q(q := me # queue k q) = ?Q(q := me # ?Q q)" using assms(5) by simp
      then show "queue_inv (queue ?k) (k_states ?k)" unfolding q st
        by (simp only:) (rule queue_inv_block [OF queue_inv_wake [OF i(6)]], simp add: c(3))
    next
      fix q' p assume "p \<in> set (queue ?k q')"
      then show "\<exists>b. suspended_in ?k p = Some b \<and> site b = q'"
        using sleep_invD(1) [OF i(7)] notin assms(8) unfolding s q by (auto split: if_splits dest: in_set_dropD)
    next
      fix p b' e assume "suspended_in ?k p = Some b'" "needed_end (site b') = Some e"
      then show "has_end k p e" using sleep_invD(2) [OF i(7)] assms(8,9) by (cases "p = me") (simp_all add: s)
    next
      fix p assume "p \<in> set (k_run k)"
      then show "k_states ?k p = STATE_READY" using i(5) c(4) unfolding st by (auto simp: run_inv_def)
    next
      fix p assume "k_states ?k p = STATE_DEAD"
      then show "k_states k p = STATE_DEAD \<and> suspended_in ?k p = None" using i(3) unfolding s st table_inv_def by (auto split: if_splits)
    qed
  qed
  then show ?thesis using cur by (auto simp: asleep_def)
qed

lemma moved_ok:
  assumes "ok k" "current k = Some (me, x)" "same_but_queues k k'" "k_procs k' = k_procs k" "w \<noteq> q"
    "queue k' = (queue k)(w := w', q := q')" "moved me a (queue k w) (queue k q) (k_states k) w' q' (k_states k')"
  shows "\<not> a \<Longrightarrow> ok k'" "a \<Longrightarrow> site b = q \<Longrightarrow> (\<And>e. needed_end q = Some e \<Longrightarrow> has_end k me e) \<Longrightarrow> asleep b k'"
proof -
  obtain n st1 where n: "w' = drop n (queue k w)" "st1 = (\<lambda>p. if p \<in> set (take n (queue k w)) then STATE_READY else k_states k p)"
    "if a then q' = me # queue k q \<and> k_states k' = st1(me := STATE_BLOCKED) else q' = queue k q \<and> k_states k' = st1"
    using assms(7) by (auto simp: moved_def wakes_def)
  show "ok k'" if a: "\<not> a"
  proof (rule okI)
    have s: "suspended_in k' = suspended_in k" by (rule same_procs) (rule assms(4))
    have st: "k_states k' = (\<lambda>p. if p \<in> set (take n (queue k w)) then STATE_READY else k_states k p)" using n a by simp
    have q: "queue k' = (queue k)(w := drop n (queue k w))" using assms(5,6) n a by (auto simp: fun_eq_iff)
    show "kinv (\<lambda>_. 0) k'" by (rule kinv_wake [OF okD(1) [OF assms(1)] assms(3) s q st])
    show "awake k'" by (rule awake_wake [OF okD(2) [OF assms(1)] assms(3) s st])
  qed
  show "asleep b k'" if "a" "site b = q" "\<And>e. needed_end q = Some e \<Longrightarrow> has_end k me e"
    by (rule kinv_block [OF assms(1-5)]) (use assms(6) n that in simp_all)
qed

subsection \<open>Pipes\<close>

lemma same_but_pipe:
  assumes "k_pipes k i = Some p" "same_pipe p p'"
  shows "same_but_queues k (k\<lparr>k_states := st, k_pipes := (k_pipes k)(i \<mapsto> p')\<rparr>)"
    "queue (k\<lparr>k_states := st, k_pipes := (k_pipes k)(i \<mapsto> p')\<rparr>) = (queue k)(Readers i := p_readers_waitq p', Writers i := p_writers_waitq p')"
    "queue k (Readers i) = p_readers_waitq p" "queue k (Writers i) = p_writers_waitq p"
  using assms
  by (auto simp: same_but_queues_def same_pipe_def files_of_def parent_of_def children_of_def cnt_def end_of_def queue_def fun_eq_iff
      split: queue_name.splits intro: option.rel_refl)

lemma has_end_file:
  assumes "get_file fd k = Some (Some f)" "k_files k f = Some y" "f_type y = FF_PIPE" "current k = Some (me, x)" "ok k"
  shows "has_end k me (f_ref y, f_flags y AND O_ACCMODE)"
proof -
  obtain p z where p: "current k = Some (p, z)" "nat fd < MAX_FD_SIZE" "files_of k p ! nat fd = Some f" using get_file_Some [OF assms(1)] by blast
  have "length (files_of k p) = MAX_FD_SIZE" using kinvD(3) [OF okD(1) [OF assms(5)]] currentD [OF p(1)] by (simp add: table_inv_def)
  then have "Some f \<in> set (files_of k p)" using p(2,3) by (metis nth_mem)
  moreover have "end_of k f = Some (f_ref y, f_flags y AND O_ACCMODE)" using assms(2,3) by (simp add: end_of_def)
  ultimately show ?thesis using p(1) assms(4) unfolding has_end_def by auto
qed

lemma run_pipe_read_ok:
  assumes "ok k" "current k = Some (me, x)" "has_end k me (i, O_RDONLY)" "run_pipe_read i addr sz got k = Some (r, k')"
  shows "io_ok r k'"
proof -
  have me: "k_current k = Some me" using currentD [OF assms(2)] by simp
  obtain p out st p' where p: "k_pipes k i = Some p" "pipe_read me sz got (k_states k) p = Some (out, st, p')"
    using assms(4) me by (auto simp: run_pipe_read_def bind_Some)
  let ?k = "k\<lparr>k_states := st, k_pipes := (k_pipes k)(i \<mapsto> p')\<rparr>"
  have m: "same_pipe p p'" "moved me (read_sleeps out) (p_writers_waitq p) (p_readers_waitq p) (k_states k) (p_writers_waitq p') (p_readers_waitq p') st"
    using pipe_read_moves [OF p(2)] by simp_all
  note s = same_but_pipe(1,2) [OF p(1) m(1), of st] same_but_pipe(3,4) [OF p(1) m(1)]
  have "queue ?k = (queue k)(Writers i := p_writers_waitq p', Readers i := p_readers_waitq p')" unfolding s(2) by (simp add: fun_upd_twist)
  then have o: "\<not> read_sleeps out \<Longrightarrow> ok ?k" "read_sleeps out \<Longrightarrow> asleep (In_Pipe_Read i addr sz bs) ?k" for bs
    using moved_ok [OF assms(1,2) s(1), where w = "Writers i" and q = "Readers i" and a = "read_sleeps out"] m(2) s(3,4) assms(3)
    by (simp_all add: needed_end_def)
  show ?thesis
  proof (cases out)
    case (Read_Return n bs)
    then show ?thesis using assms(4) me p o(1) by (auto simp: run_pipe_read_def bind_Some dest!: core_store_bytes intro: ok_core)
  next
    case (Read_Sleep bs)
    then have "r = Asleep (In_Pipe_Read i addr sz bs)" "core k' = core ?k"
      using assms(4) me p by (auto simp: run_pipe_read_def bind_Some dest!: core_store_bytes)
    then show ?thesis using asleep_core [OF _ o(2)] Read_Sleep by simp
  next
    case (Read_Next bs)
    then show ?thesis using assms(4) me p by (simp add: run_pipe_read_def)
  qed
qed

lemma run_pipe_write_ok:
  assumes "ok k" "current k = Some (me, x)" "has_end k me (i, O_WRONLY)" "run_pipe_write i addr sz n k = Some (r, k')"
  shows "io_ok r k'"
proof -
  have me: "k_current k = Some me" using currentD [OF assms(2)] by simp
  obtain p out st p' where p: "k_pipes k i = Some p" "pipe_write me (peek_bytes addr sz k) n (k_states k) p = Some (out, st, p')"
    using assms(4) me by (auto simp: run_pipe_write_def bind_Some)
  let ?k = "k\<lparr>k_states := st, k_pipes := (k_pipes k)(i \<mapsto> p')\<rparr>"
  have m: "same_pipe p p'" "moved me (write_sleeps out) (p_readers_waitq p) (p_writers_waitq p) (k_states k) (p_readers_waitq p') (p_writers_waitq p') st"
    using pipe_write_moves [OF p(2)] by simp_all
  note s = same_but_pipe(1,2) [OF p(1) m(1), of st] same_but_pipe(3,4) [OF p(1) m(1)]
  have o: "\<not> write_sleeps out \<Longrightarrow> ok ?k" "write_sleeps out \<Longrightarrow> asleep (In_Pipe_Write i addr sz l) ?k" for l
    using moved_ok [OF assms(1,2) s(1), where w = "Readers i" and q = "Writers i" and a = "write_sleeps out"] m(2) s(2-4) assms(3)
    by (simp_all add: needed_end_def)
  show ?thesis
  proof (cases out)
    case Write_Broken
    then show ?thesis using assms(4) me p o(1) by (auto simp: run_pipe_write_def bind_Some dest!: core_process_kill intro: ok_core)
  qed (use assms(4) me p o in \<open>auto simp: run_pipe_write_def Let_def split: if_splits\<close>)
qed

subsection \<open>The terminal\<close>

definition put_tty :: "states \<times> tty \<Rightarrow> kernel \<Rightarrow> kernel" where
  "put_tty r k = k\<lparr>k_states := fst r, k_tty := snd r\<rparr>"

lemma put_tty_obs:
  "same_but_queues k (put_tty r k)" "k_procs (put_tty r k) = k_procs k" "k_states (put_tty r k) = fst r"
  "queue (put_tty r k) = (queue k)(Terminal_In := tty_read_waitq (snd r), Terminal_Out := tty_write_waitq (snd r))"
  "k_current (put_tty r k) = k_current k" "k_tty (put_tty r k) = snd r" "put_tty r (put_tty r' k) = put_tty r k"
  by (auto simp: put_tty_def same_but_queues_def files_of_def parent_of_def children_of_def cnt_def end_of_def queue_def fun_eq_iff
      split: queue_name.splits intro: option.rel_refl)

lemma tty_queues: "queue k Terminal_In = tty_read_waitq (k_tty k)" "queue k Terminal_Out = tty_write_waitq (k_tty k)"
  by (simp_all add: queue_def)

text \<open>One of the two queues of the terminal is woken.\<close>

lemma kinv_tty_wake:
  assumes "kinv d k"
    "process_wake (tty_read_waitq (k_tty k)) (k_states k) = (b, q, st) \<and> t = (k_tty k)\<lparr>tty_read_waitq := q\<rparr> \<or>
     process_wake (tty_write_waitq (k_tty k)) (k_states k) = (b, q, st) \<and> t = (k_tty k)\<lparr>tty_write_waitq := q\<rparr>"
  shows "kinv d (put_tty (st, t) k)" "awake k \<Longrightarrow> awake (put_tty (st, t) k)"
proof -
  have s: "suspended_in (put_tty (st, t) k) = suspended_in k" by (rule same_procs) (rule put_tty_obs)
  obtain w n where "queue (put_tty (st, t) k) = (queue k)(w := drop n (queue k w))"
    "st = (\<lambda>p. if p \<in> set (take n (queue k w)) then STATE_READY else k_states k p)"
    using assms(2)
  proof
    assume r: "process_wake (tty_read_waitq (k_tty k)) (k_states k) = (b, q, st) \<and> t = (k_tty k)\<lparr>tty_read_waitq := q\<rparr>"
    then obtain n where "q = drop n (queue k Terminal_In)" "st = (\<lambda>p. if p \<in> set (take n (queue k Terminal_In)) then STATE_READY else k_states k p)"
      using wakes_wake [of "tty_read_waitq (k_tty k)" "k_states k"] by (auto simp: wakes_def tty_queues)
    then show thesis using r that [of Terminal_In n] by (auto simp: put_tty_obs(4) fun_eq_iff tty_queues)
  next
    assume r: "process_wake (tty_write_waitq (k_tty k)) (k_states k) = (b, q, st) \<and> t = (k_tty k)\<lparr>tty_write_waitq := q\<rparr>"
    then obtain n where "q = drop n (queue k Terminal_Out)" "st = (\<lambda>p. if p \<in> set (take n (queue k Terminal_Out)) then STATE_READY else k_states k p)"
      using wakes_wake [of "tty_write_waitq (k_tty k)" "k_states k"] by (auto simp: wakes_def tty_queues)
    then show thesis using r that [of Terminal_Out n] by (auto simp: put_tty_obs(4) fun_eq_iff tty_queues)
  qed
  note w = this
  have st: "k_states (put_tty (st, t) k) = (\<lambda>p. if p \<in> set (take n (queue k w)) then STATE_READY else k_states k p)" using w(2) by (simp add: put_tty_obs)
  show "kinv d (put_tty (st, t) k)" by (rule kinv_wake [OF assms(1) put_tty_obs(1) s w(1) st])
  show "awake (put_tty (st, t) k)" if "awake k" by (rule awake_wake [OF that put_tty_obs(1) s st])
qed

lemmas kinv_tty_in = kinv_tty_wake [OF _ disjI1 [OF conjI [OF _ refl]]]
lemmas kinv_tty_out = kinv_tty_wake [OF _ disjI2 [OF conjI [OF _ refl]]]

lemma kinv_wake_next:
  assumes "kinv d k"
  shows "kinv d (put_tty (wake_next (k_states k) (k_tty k)) k)" "awake k \<Longrightarrow> awake (put_tty (wake_next (k_states k) (k_tty k)) k)"
proof -
  obtain b q st where r: "process_wake (tty_read_waitq (k_tty k)) (k_states k) = (b, q, st)" by (metis prod_cases3)
  let ?k = "put_tty (st, (k_tty k)\<lparr>tty_read_waitq := q\<rparr>) k"
  note k = kinv_tty_in [OF assms r]
  obtain b' q' st' where w: "process_wake (tty_write_waitq (k_tty ?k)) (k_states ?k) = (b', q', st')" by (metis prod_cases3)
  have "put_tty (wake_next (k_states k) (k_tty k)) k = put_tty (st', (k_tty ?k)\<lparr>tty_write_waitq := q'\<rparr>) ?k"
    using r w by (simp add: wake_next_def put_tty_obs)
  then show "kinv d (put_tty (wake_next (k_states k) (k_tty k)) k)" "awake k \<Longrightarrow> awake (put_tty (wake_next (k_states k) (k_tty k)) k)"
    using kinv_tty_out [OF k(1) w] k(2) by simp_all
qed

lemma kinv_tty_resume:
  assumes "kinv d k"
  shows "kinv d (put_tty (tty_resume (k_states k) (k_tty k)) k)" "awake k \<Longrightarrow> awake (put_tty (tty_resume (k_states k) (k_tty k)) k)"
proof -
  define k1 where "k1 = (if uart_can_recv (t_uart (k_tty k)) then let (_, q, st) = process_wake (tty_read_waitq (k_tty k)) (k_states k)
    in put_tty (st, (k_tty k)\<lparr>tty_read_waitq := q\<rparr>) k else k)"
  have 1: "kinv d k1" "awake k \<Longrightarrow> awake k1"
    using assms kinv_tty_in [OF assms] by (auto simp: k1_def split: prod.splits)
  define k2 where "k2 = (if uart_can_send (t_uart (k_tty k1)) then let (_, q, st) = process_wake (tty_write_waitq (k_tty k1)) (k_states k1)
    in put_tty (st, (k_tty k1)\<lparr>tty_write_waitq := q\<rparr>) k1 else k1)"
  have 2: "kinv d k2" "awake k1 \<Longrightarrow> awake k2"
    using 1(1) kinv_tty_out [OF 1(1)] by (auto simp: k2_def split: prod.splits)
  have "put_tty (tty_resume (k_states k) (k_tty k)) k = k2"
    by (auto simp: tty_resume_def k2_def k1_def put_tty_def split: prod.splits)
  then show "kinv d (put_tty (tty_resume (k_states k) (k_tty k)) k)" "awake k \<Longrightarrow> awake (put_tty (tty_resume (k_states k) (k_tty k)) k)"
    using 1 2 by simp_all
qed

text \<open>What a call on the terminal does to the queues.\<close>

lemma uart_set_interrupt_Some [simp]:
  "uart_set_interrupt O_RDONLY u = Some (u\<lparr>u_imsc := u_imsc u OR (UARTIMSC_RXIM OR UARTIMSC_RTIM)\<rparr>)"
  "uart_set_interrupt O_WRONLY u = Some (u\<lparr>u_imsc := u_imsc u OR UARTIMSC_TXIM\<rparr>)"
  by (simp_all add: uart_set_interrupt_def unix_flags)

text \<open>A call that sleeps has only put its process on the queue, one that returns has woken the next ones.\<close>

definition tty_moved :: "pid \<Rightarrow> tty_outcome \<Rightarrow> states \<Rightarrow> tty \<Rightarrow> states \<Rightarrow> tty \<Rightarrow> bool" where
  "tty_moved me out st t st' t' \<longleftrightarrow>
     (case out of
        Tty_Return bs \<Rightarrow> (\<exists>u. wake_next st (t\<lparr>t_uart := u\<rparr>) = (st', t'))
      | Tty_Sleep_Get bs \<Rightarrow> (\<exists>u. st' = st(me := STATE_BLOCKED) \<and> t' = t\<lparr>t_uart := u, tty_read_waitq := me # tty_read_waitq t\<rparr>)
      | Tty_Sleep_Echo c bs \<Rightarrow> (\<exists>u. st' = st(me := STATE_BLOCKED) \<and> t' = t\<lparr>t_uart := u, tty_write_waitq := me # tty_write_waitq t\<rparr>))"

lemma tty_moved_uart: "tty_moved me out st (t\<lparr>t_uart := u\<rparr>) st' t' = tty_moved me out st t st' t'"
  by (simp add: tty_moved_def split: tty_outcome.splits)

lemma wake_next_uart: "wake_next st t = r \<Longrightarrow> \<exists>u. wake_next st (t\<lparr>t_uart := u\<rparr>) = r"
  by (rule exI [of _ "t_uart t"]) simp

lemma tty_read_moves: "tty_read me sz got echo st t = Some (out, st', t') \<Longrightarrow> tty_moved me out st t st' t'"
proof (induction me sz got echo st t rule: tty_read.induct)
  case (1 me sz got echo st t)
  show ?case
  proof (cases "length got < sz")
    case False
    then show ?thesis using 1(3) by (subst (asm) tty_read.simps) (auto simp: tty_moved_def split: prod.splits intro: wake_next_uart)
  next
    case sz: True
    show ?thesis
    proof (cases echo)
      case None
      then obtain c st1 t1 where c: "tty_getc me st t = Some (c, st1, t1)" using 1(3) sz by (subst (asm) tty_read.simps) (auto simp: bind_Some)
      show ?thesis
      proof (cases c)
        case None
        have "out = Tty_Sleep_Get got" "st' = st1" "t' = t1" using 1(3) sz c None \<open>echo = None\<close> by (subst (asm) tty_read.simps, simp)+
        then show ?thesis using c None by (auto simp: tty_getc_def tty_moved_def block_on_def split: if_splits)
      next
        case (Some ch)
        then obtain u where u: "st1 = st" "t1 = t\<lparr>t_uart := u\<rparr>" using c by (auto simp: tty_getc_def block_on_def split: if_splits)
        have "tty_read me sz got (Some ch) st1 t1 = Some (out, st', t')" using 1(3) sz c Some \<open>echo = None\<close> by (subst (asm) tty_read.simps) simp
        from 1(1) [OF sz \<open>echo = None\<close> c refl refl Some this] show ?thesis by (simp add: u tty_moved_uart)
      qed
    next
      case (Some ch)
      then obtain sent st1 t1 where c: "tty_putc me ch st t = Some (sent, st1, t1)" using 1(3) sz by (subst (asm) tty_read.simps) (auto simp: bind_Some)
      show ?thesis
      proof (cases sent)
        case False
        have "out = Tty_Sleep_Echo ch got" "st' = st1" "t' = t1" using 1(3) sz c False Some by (subst (asm) tty_read.simps, simp)+
        then show ?thesis using c False by (auto simp: tty_putc_def tty_moved_def block_on_def split: if_splits)
      next
        case True
        then obtain u where u: "st1 = st" "t1 = t\<lparr>t_uart := u\<rparr>" using c by (auto simp: tty_putc_def block_on_def split: if_splits)
        show ?thesis
        proof (cases "ch = 10")
          case nl: True
          then show ?thesis using 1(3) sz c Some True u by (subst (asm) tty_read.simps) (auto simp: tty_moved_def split: prod.splits)
        next
          case nl: False
          have "tty_read me sz (got @ [ch]) None st1 t1 = Some (out, st', t')" using 1(3) sz c Some True nl by (subst (asm) tty_read.simps) simp
          from 1(2) [OF sz Some c refl refl _ nl this] True show ?thesis by (simp add: u tty_moved_uart)
        qed
      qed
    qed
  qed
qed

lemma tty_write_moves:
  "tty_write me cs st t = Some (out, st', t') \<Longrightarrow>
     case out of
       Inr _ \<Rightarrow> (\<exists>u. wake_next st (t\<lparr>t_uart := u\<rparr>) = (st', t'))
     | Inl rest \<Rightarrow> (\<exists>u. st' = st(me := STATE_BLOCKED) \<and> t' = t\<lparr>t_uart := u, tty_write_waitq := me # tty_write_waitq t\<rparr>)"
proof (induction me cs st t rule: tty_write.induct)
  case (1 me st t)
  then show ?case by (auto split: prod.splits intro: wake_next_uart)
next
  case (2 me c cs st t)
  show ?case
  proof (cases "uart_can_send (t_uart t)")
    case True
    then have p: "tty_putc me c st t = Some (True, st, t\<lparr>t_uart := uart_putc c (t_uart t)\<rparr>)" by (simp add: tty_putc_def)
    then show ?thesis using 2(1) [OF p refl refl] 2(2) by (cases out) simp_all
  next
    case False
    then show ?thesis using 2(2) by (auto simp: tty_putc_def block_on_def)
  qed
qed

lemma tty_wake_ok:
  assumes "ok k" "wake_next (k_states k) ((k_tty k)\<lparr>t_uart := u\<rparr>) = r"
  shows "ok (put_tty r k)"
proof -
  let ?k = "k\<lparr>k_tty := (k_tty k)\<lparr>t_uart := u\<rparr>\<rparr>"
  have "ok ?k" by (rule ok_core [OF core_simps(8) assms(1)])
  moreover have "put_tty r k = put_tty (wake_next (k_states ?k) (k_tty ?k)) ?k" using assms(2) by (simp add: put_tty_def)
  ultimately show ?thesis using kinv_wake_next [of "\<lambda>_. 0" ?k] by (simp add: ok_def)
qed

lemma tty_block_ok:
  assumes "ok k" "current k = Some (me, x)" "st = (k_states k)(me := STATE_BLOCKED)"
  shows "site b = Terminal_In \<Longrightarrow> asleep b (put_tty (st, (k_tty k)\<lparr>t_uart := u, tty_read_waitq := me # tty_read_waitq (k_tty k)\<rparr>) k)"
    "site b = Terminal_Out \<Longrightarrow> asleep b (put_tty (st, (k_tty k)\<lparr>t_uart := u, tty_write_waitq := me # tty_write_waitq (k_tty k)\<rparr>) k)"
  by (rule moved_ok(2) [OF assms(1,2) put_tty_obs(1,2), where a = True and w = Terminal_Out and q = Terminal_In
        and w' = "tty_write_waitq (k_tty k)" and q' = "me # tty_read_waitq (k_tty k)"],
      simp_all add: put_tty_obs(3,4) tty_queues assms(3) moved_sleep needed_end_def fun_upd_twist)
    (rule moved_ok(2) [OF assms(1,2) put_tty_obs(1,2), where a = True and w = Terminal_In and q = Terminal_Out
        and w' = "tty_read_waitq (k_tty k)" and q' = "me # tty_write_waitq (k_tty k)"],
      simp_all add: put_tty_obs(3,4) tty_queues assms(3) moved_sleep needed_end_def)

lemma end_tty_read_ok:
  assumes "ok k" "current k = Some (me, x)" "tty_moved me out (k_states k) (k_tty k) st t" "end_tty_read addr sz k (out, st, t) = Some (r, k')"
  shows "io_ok r k'"
proof -
  have k: "k\<lparr>k_states := st, k_tty := t\<rparr> = put_tty (st, t) k" by (simp add: put_tty_def)
  have "io_ok (case out of Tty_Return bs \<Rightarrow> Done (int (length bs)) | Tty_Sleep_Get bs \<Rightarrow> Asleep (In_Tty_Read addr sz bs None)
      | Tty_Sleep_Echo c bs \<Rightarrow> Asleep (In_Tty_Read addr sz bs (Some c))) (put_tty (st, t) k)"
    using assms(3) by (auto simp: tty_moved_def tty_block_ok [OF assms(1,2) refl] split: tty_outcome.splits intro: tty_wake_ok [OF assms(1)])
  then show ?thesis using assms(4) unfolding end_tty_read_def prod.case Let_def k
    by (cases out) (auto simp: bind_Some dest!: core_store_bytes simp: ok_core asleep_core)
qed

lemma end_tty_write_ok:
  assumes "ok k" "current k = Some (me, x)" "tty_write me cs (k_states k) ((k_tty k)\<lparr>t_uart := u\<rparr>) = Some out" "end_tty_write addr sz k out = Some (r, k')"
  shows "io_ok r k'"
proof -
  obtain res st t where o: "out = (res, st, t)" by (cases out) auto
  have k: "k\<lparr>k_states := st, k_tty := t\<rparr> = put_tty (st, t) k" by (simp add: put_tty_def)
  have "case res of Inr _ \<Rightarrow> ok (put_tty (st, t) k) | Inl _ \<Rightarrow> asleep (In_Tty_Write addr sz i) (put_tty (st, t) k)" for i
    using tty_write_moves [OF assms(3) [unfolded o]]
    by (auto simp: tty_block_ok [OF assms(1,2) refl] split: sum.splits intro: tty_wake_ok [OF assms(1)])
  then show ?thesis using assms(4) unfolding o end_tty_write_def prod.case Let_def k
    by (auto split: sum.splits if_splits)
qed

subsection \<open>Reading and writing\<close>

lemma store_bytes_files: "store_bytes a bs k = Some k' \<Longrightarrow> k_files k' = k_files k"
  by (induction a bs k rule: store_bytes.induct) (auto simp: bind_Some store8_def Let_def split: if_splits)

lemma core_getdents_loop: "getdents_loop f ino data sz n k = Some r \<Longrightarrow> core (snd r) = core k"
proof (erule getdents_loop.raw_induct [where P = "\<lambda>f ino data sz n k r. core (snd r) = core k", rotated])
  fix rec f ino data sz n k r
  assume IH: "\<And>f ino data sz n k r. rec f ino data sz n k = Some r \<Longrightarrow> core (snd r) = core k"
    and r: "Option.bind (k_files k f) (\<lambda>x.
     Option.bind (inode_read ino DIRENT_SIZE (f_offset x) (v_fs (k_vfs k))) (\<lambda>(nread, bs, s).
       let k = k\<lparr>k_vfs := (k_vfs k)\<lparr>v_fs := s\<rparr>\<rparr>;
           next = (\<lambda>k. set_file f (x\<lparr>f_offset := trunc32 (f_offset x + nat nread)\<rparr>) k)
       in if nread < 0 then Some (if n \<noteq> 0 then int n else nread, k)
          else if nread = 0 \<or> nread \<noteq> int DIRENT_SIZE then Some (int n, k)
          else
            let (i, name) = dirent_at bs 0;
                reclen = unat (ALIGN (of_nat (19 + length name + 1)) 3)
            in if i = 0 then rec f ino data sz n (next k)
               else if n + reclen > sz then Some (if n \<noteq> 0 then int n else - errno_code EINVAL, k)
               else if length name = NAME_MAX then None
               else
                 Option.bind (store_bytes (data + of_nat n) (dirent64_bytes i (trunc32 (f_offset x + nat nread)) reclen name) k) (\<lambda>k.
                   if n + reclen = sz then Some (int sz, next k)
                   else rec f ino data sz (n + reclen) (next k)))) = Some r"
  have n: "core (set_file f (x\<lparr>f_offset := off\<rparr>) h) = core k" if "k_files k f = Some x" "core h = core k" "k_files h = k_files k" for x off h
    using core_set_file [of h f x "x\<lparr>f_offset := off\<rparr>"] that by simp
  have p: "post (rec f ino data sz m h) (\<lambda>r. core (snd r) = core k)" if "core h = core k" for m h
    by (rule post_all) (use IH that in fastforce)
  have st: "core h = core k \<and> k_files h = k_files k" if "store_bytes a bs (k\<lparr>k_vfs := v\<rparr>) = Some h" for a bs v h
    using core_store_bytes [OF that] store_bytes_files [OF that] by simp
  show "core (snd r) = core k"
    by (rule postD [OF r]) (unfold Let_def, intro post_rules, auto simp: n dest!: st intro!: p)
qed

lemma core_process_getdents64 [cores]:
  assumes "process_getdents64 fd data sz k = Some (r, k')"
  shows "core k' = core k"
  using assms unfolding process_getdents64_def
  by (cases rule: with_file_Some) (auto simp: bind_Some split: if_splits dest: core_getdents_loop)

lemma for_read_write:
  assumes "ok k" "k_files k f = Some x" "f_type x = FF_PIPE"
  shows "FILE_FOR_READ x \<Longrightarrow> f_flags x AND O_ACCMODE = O_RDONLY" "FILE_FOR_WRITE x \<Longrightarrow> f_flags x AND O_ACCMODE = O_WRONLY"
proof -
  have "end_of k f = Some (f_ref x, f_flags x AND O_ACCMODE)" using assms(2,3) by (simp add: end_of_def)
  then have m: "f_flags x AND O_ACCMODE = O_RDONLY \<or> f_flags x AND O_ACCMODE = O_WRONLY" using ends_invD(1) [OF kinvD(2) [OF okD(1) [OF assms(1)]]] by blast
  then show "FILE_FOR_READ x \<Longrightarrow> f_flags x AND O_ACCMODE = O_RDONLY" "FILE_FOR_WRITE x \<Longrightarrow> f_flags x AND O_ACCMODE = O_WRONLY"
    by (auto simp: FILE_FOR_READ_def FILE_FOR_WRITE_def unix_flags)
qed

lemma process_read_ok:
  assumes "ok k" "process_read fd data sz k = Some (r, k')"
  shows "io_ok r k'"
  using assms(2) unfolding process_read_def
proof (cases rule: with_file_Some)
  case (2 f x)
  obtain me y where me: "current k = Some (me, y)" using get_file_Some [OF 2(1)] by blast
  show ?thesis
  proof (cases "f_type x")
    case FF_PIPE
    then show ?thesis using 2(3) has_end_file [OF 2(1,2) FF_PIPE me assms(1)] for_read_write(1) [OF assms(1) 2(2) FF_PIPE] run_pipe_read_ok [OF assms(1) me] assms(1)
      by (auto split: if_splits)
  next
    case FF_TTY
    then show ?thesis using 2(3) assms(1) currentD [OF me]
      by (auto simp: bind_Some split: if_splits intro: end_tty_read_ok [OF assms(1) me tty_read_moves])
  next
    case FF_INODE
    have h: "ok h" "ok (set_file f (x\<lparr>f_offset := off\<rparr>) h)" if "store_bytes a bs (k\<lparr>k_vfs := v\<rparr>) = Some h" for a bs v h off
      using core_set_file [of h f x "x\<lparr>f_offset := off\<rparr>"] core_store_bytes [OF that] store_bytes_files [OF that] 2(2)
      by (simp_all add: ok_core [OF _ assms(1)])
    show ?thesis by (rule post_pairD [OF 2(3), where P = io_ok])
        (unfold FF_INODE file_type.case, intro post_rules, simp_all add: assms(1) h)
  qed (use 2(3) assms(1) in \<open>auto split: if_splits\<close>)
qed (use assms(1) in simp)

lemma process_write_ok:
  assumes "ok k" "process_write fd data sz k = Some (r, k')"
  shows "io_ok r k'"
  using assms(2) unfolding process_write_def
proof (cases rule: with_file_Some)
  case (2 f x)
  obtain me y where me: "current k = Some (me, y)" using get_file_Some [OF 2(1)] by blast
  show ?thesis
  proof (cases "f_type x")
    case FF_PIPE
    then show ?thesis using 2(3) has_end_file [OF 2(1,2) FF_PIPE me assms(1)] for_read_write(2) [OF assms(1) 2(2) FF_PIPE] run_pipe_write_ok [OF assms(1) me] assms(1)
      by (auto split: if_splits)
  next
    case FF_TTY
    then show ?thesis using 2(3) end_tty_write_ok [OF assms(1) me, where u = "t_uart (k_tty k)"] assms(1) currentD [OF me]
      by (auto simp: bind_Some split: if_splits)
  next
    case FF_INODE
    have h: "ok (set_file f (x\<lparr>f_offset := off\<rparr>) (k\<lparr>k_vfs := v\<rparr>))" for v off
      by (rule ok_core [OF core_set_file [of _ _ x]]) (use 2(2) assms(1) in simp_all)
    show ?thesis by (rule post_pairD [OF 2(3), where P = io_ok])
        (unfold FF_INODE file_type.case Let_def, intro post_rules, simp_all add: assms(1) h)
  qed (use 2(3) assms(1) in \<open>auto split: if_splits\<close>)
qed (use assms(1) in simp)

text \<open>Vectored calls.\<close>

fun call_ok :: "call \<Rightarrow> kernel \<Rightarrow> bool" where
  "call_ok (Ret r) k = ok k"
| "call_ok (Suspend b a) k = asleep b k"

lemma post_io: "(\<And>b. r = Asleep b \<Longrightarrow> post (f b) P) \<Longrightarrow> (\<And>n. r = Done n \<Longrightarrow> post (g n) P) \<Longrightarrow> post (case r of Done n \<Rightarrow> g n | Asleep b \<Rightarrow> f b) P"
  by (cases r) simp_all

lemma emulate_readv_ok: "ok k \<Longrightarrow> post (emulate_readv n fd iov m i got k) (\<lambda>(c, k'). call_ok c k')"
proof (induction n fd iov m i got k rule: emulate_readv.induct)
  case (2 n fd iov m i got k)
  have "case r of Done v \<Rightarrow> ok k' | Asleep b \<Rightarrow> asleep b k'" if "process_read fd base len k = Some (r, k')" for base len r k'
    using process_read_ok [OF 2(3) that] by (cases r) simp_all
  then show ?case unfolding emulate_readv.simps
    by (intro post_rules post_io) (use 2 in \<open>fastforce intro: 2\<close>)+
qed simp

lemma emulate_writev_ok: "ok k \<Longrightarrow> post (emulate_writev n fd iov m i sent k) (\<lambda>(c, k'). call_ok c k')"
proof (induction n fd iov m i sent k rule: emulate_writev.induct)
  case (2 n fd iov m i sent k)
  have "case r of Done v \<Rightarrow> ok k' | Asleep b \<Rightarrow> asleep b k'" if "process_write fd base len k = Some (r, k')" for base len r k'
    using process_write_ok [OF 2(3) that] by (cases r) simp_all
  then show ?case unfolding emulate_writev.simps
    by (intro post_rules post_io) (use 2 in \<open>fastforce intro: 2\<close>)+
qed simp

end
