(* ===== verification/Cy_Kernel_Proc.thy ===== *)
theory Cy_Kernel_Proc
  imports Cy_Kernel_Block
begin

text \<open>The invariant of \<^theory_text>\<open>Cy_Kernel_Inv\<close> and the life of processes: fork, exec, exit, wait.\<close>

subsection \<open>A new process\<close>

lemma set_proc_obs [simp]:
  "k_files (set_proc p x k) = k_files k" "k_pipes (set_proc p x k) = k_pipes k" "k_all (set_proc p x k) = k_all k" "k_run (set_proc p x k) = k_run k"
  "k_states (set_proc p x k) = k_states k" "k_current (set_proc p x k) = k_current k" "k_max_id (set_proc p x k) = k_max_id k"
  "k_next_file (set_proc p x k) = k_next_file k" "k_next_pipe (set_proc p x k) = k_next_pipe k" "k_child_waitq (set_proc p x k) = k_child_waitq k"
  "k_tty (set_proc p x k) = k_tty k" "k_procs (set_proc p x k) = (k_procs k)(p \<mapsto> x)"
  by (simp_all add: set_proc_def)

lemma procs_obs:
  "k_procs k = (k_procs h)(p \<mapsto> x) \<Longrightarrow> files_of k = (files_of h)(p := pr_files x)"
  "k_procs k = (k_procs h)(p \<mapsto> x) \<Longrightarrow> suspended_in k = (suspended_in h)(p := map_option fst (pr_suspend x))"
  "k_procs k = (k_procs h)(p \<mapsto> x) \<Longrightarrow> parent_of k = (parent_of h)(p := Some (pr_parent x))"
  "k_procs k = (k_procs h)(p \<mapsto> x) \<Longrightarrow> children_of k = (children_of h)(p := pr_children x)"
  by (simp_all add: fun_eq_iff files_of_def suspended_in_def parent_of_def children_of_def)

definition enrol :: "pid \<Rightarrow> process \<Rightarrow> kernel \<Rightarrow> kernel" where
  "enrol p x k = set_proc p x (k\<lparr>k_max_id := p + 1, k_all := p # k_all k, k_states := (k_states k)(p := STATE_READY)\<rparr>)"

lemma enrol_obs [simp]:
  "k_files (enrol p x k) = k_files k" "k_pipes (enrol p x k) = k_pipes k" "k_all (enrol p x k) = p # k_all k" "k_run (enrol p x k) = k_run k"
  "k_states (enrol p x k) = (k_states k)(p := STATE_READY)" "k_current (enrol p x k) = k_current k" "k_max_id (enrol p x k) = p + 1"
  "k_next_file (enrol p x k) = k_next_file k" "k_next_pipe (enrol p x k) = k_next_pipe k" "k_child_waitq (enrol p x k) = k_child_waitq k"
  "k_tty (enrol p x k) = k_tty k" "k_procs (enrol p x k) = (k_procs k)(p \<mapsto> x)"
  by (simp_all add: enrol_def)

lemmas enrol_parts = procs_obs [OF enrol_obs(12)]

lemma new_id:
  assumes "kinv d k" "p = k_max_id k"
  shows "k_procs k p = None" "p \<notin> set (k_all k)" "0 < p" "k_states k p \<noteq> STATE_BLOCKED" "p \<notin> set (queue k q)" "p \<notin> set (k_run k)"
    "p \<notin> set (children_of k r)" "parent_of k c \<noteq> Some p" "k_current k \<noteq> Some p"
proof -
  note i = kinvD [OF assms(1)]
  show n: "p \<notin> set (k_all k)" "0 < p" using i(3) assms(2) by (auto simp: table_inv_def)
  then show o: "k_procs k p = None" using i(3) by (auto simp: table_inv_def)
  show q: "p \<notin> set (queue k q)" for q using sleep_invD(1) [OF i(7), of p q] o by (auto simp: suspended_in_def)
  then show "k_states k p \<noteq> STATE_BLOCKED" using queue_invD(3) [OF i(6)] by blast
  show "p \<notin> set (k_run k)" "k_current k \<noteq> Some p" using i(5) o by (auto simp: run_inv_def)
  have "parent_of k p = None" using o by (simp add: parent_of_def)
  then show "p \<notin> set (children_of k r)" using i(4) unfolding family_inv_def by (metis option.distinct(1))
  show "parent_of k c \<noteq> Some p" using i(4) o unfolding family_inv_def by blast
qed

lemma family_enrol:
  assumes "family_inv k" "k_procs k p = None" "\<And>q. p \<notin> set (children_of k q)" "\<And>c. parent_of k c \<noteq> Some p"
    "parent_of k' = (parent_of k)(p := Some q)" "children_of k' = (children_of k)(p := [], q := if q = p then [] else p # children_of k q)"
    "q = p \<or> k_procs k q \<noteq> None" "q < p \<or> p = 1 \<and> q = 1" "\<And>r. k_procs k' r \<noteq> None \<longleftrightarrow> r = p \<or> k_procs k r \<noteq> None"
  shows "family_inv k'"
proof -
  have F: "distinct (children_of k r)" "c \<in> set (children_of k r) \<longleftrightarrow> c \<noteq> r \<and> parent_of k c = Some r" "parent_of k c = Some r \<Longrightarrow> k_procs k r \<noteq> None"
    "parent_of k c = Some r \<Longrightarrow> r < c \<or> c = 1 \<and> r = 1" for r c
    using assms(1) unfolding family_inv_def by blast+
  show ?thesis unfolding family_inv_def
  proof (intro conjI allI impI)
    fix r show "distinct (children_of k' r)" using F(1) assms(3,6) by simp
  next
    fix r c show "c \<in> set (children_of k' r) \<longleftrightarrow> c \<noteq> r \<and> parent_of k' c = Some r"
      using F(2) [of c r] assms(3,4) by (auto simp: assms(5,6))
  next
    fix c r assume "parent_of k' c = Some r"
    then show "k_procs k' r \<noteq> None" using F(3) [of c r] assms(5,7) unfolding assms(9) by (auto split: if_splits)
  next
    fix c r assume "parent_of k' c = Some r"
    then show "r < c \<or> c = 1 \<and> r = 1" using F(4) [of c r] assms(5,8) by (auto split: if_splits)
  qed
qed

lemma kinv_enrol:
  assumes "kinv d k" "p = k_max_id k" "pr_suspend x = None" "pr_children x = []" "length (pr_files x) = MAX_FD_SIZE"
    "pr_parent x = p \<and> p = 1 \<or> k_procs k (pr_parent x) \<noteq> None"
    "k' = (if pr_parent x = p then enrol p x k else upd_proc (pr_parent x) (\<lambda>y. y\<lparr>pr_children := p # pr_children y\<rparr>) (enrol p x k))"
    "p < 0x7fffffff"
  shows "kinv (\<lambda>f. d f - int (count_list (pr_files x) (Some f))) k'"
proof -
  note i = kinvD [OF assms(1)]
  note n = new_id [OF assms(1,2)]
  have p: "k_all k' = p # k_all k" "k_pipes k' = k_pipes k" "k_next_pipe k' = k_next_pipe k" "k_current k' = k_current k" "k_run k' = k_run k"
    "k_max_id k' = p + 1" "k_states k' = (k_states k)(p := STATE_READY)" "k_next_file k' = k_next_file k" "k_files k' = k_files k"
    "k_child_waitq k' = k_child_waitq k" "k_tty k' = k_tty k"
    by (simp_all add: assms(7))
  have pr: "k_procs k' r = None \<longleftrightarrow> r \<noteq> p \<and> k_procs k r = None" for r using n(1) assms(6) by (auto simp: assms(7))
  have fs: "files_of k' = (files_of k)(p := pr_files x)" "suspended_in k' = (suspended_in k)(p := None)" "parent_of k' = (parent_of k)(p := Some (pr_parent x))"
    "children_of k' = (children_of k)(p := [], pr_parent x := if pr_parent x = p then [] else p # children_of k (pr_parent x))"
    using assms(3,4,6) n(1) by (auto simp: assms(7) fun_eq_iff files_of_def suspended_in_def parent_of_def children_of_def)
  note e = same_files(1,2) [OF p(9)] same_files(3) [OF p(9,8)]
  have q: "queue k' = queue k" by (simp add: fun_eq_iff queue_def p split: queue_name.splits)
  have ref: "refs k' f = refs k f + count_list (pr_files x) (Some f)" for f
  proof -
    have "(\<Sum>r \<in> set (k_all k). count_list (files_of k' r) (Some f)) = refs k f" unfolding refs_def by (rule sum.cong) (use n(2) in \<open>auto simp: fs\<close>)
    then show ?thesis using n(2) by (simp add: refs_def [of k'] p fs)
  qed
  have has: "has_end k r ee \<Longrightarrow> r \<noteq> p \<Longrightarrow> has_end k' r ee" for r ee by (auto simp: has_end_def fs e)
  show ?thesis
  proof (rule kinvI)
    show "file_inv (\<lambda>f. d f - int (count_list (pr_files x) (Some f))) k'" using i(1) by (simp add: file_inv_def e ref p)
    show "ends_inv k'" using i(2) ends_inv_cong [OF e(2,3) p(2,3)] by simp
    show "table_inv k'" using i(3) n(2,3) assms(2,5,8) unfolding table_inv_def p pr by (auto simp: fs dom_def pr less_Suc_eq)
    have "pr_parent x < p \<or> p = 1 \<and> pr_parent x = 1" using i(3) assms(2,6) unfolding table_inv_def by auto
    then show "family_inv k'" by (intro family_enrol [OF i(4) n(1,7,8) fs(3,4)]) (use assms(6) pr in auto)
    show "run_inv k'" using i(5) n(6) unfolding run_inv_def p pr by auto
    show "queue_inv (queue k') (k_states k')" unfolding q p by (rule queue_inv_state [OF i(6) n(4)]) simp
    show "sleep_inv k'" unfolding sleep_inv_def q fs
      using sleep_invD [OF i(7)] n(5) has by (auto split: if_splits)
  qed
qed

subsection \<open>Fork\<close>

lemma frame_refl [simp]: "frame k k"
  by (simp add: frame_def)

lemma frame_trans: "frame k k1 \<Longrightarrow> frame k1 k2 \<Longrightarrow> frame k k2"
  by (auto simp: frame_def) metis

lemma kinv_countup_files:
  "kinv d k \<Longrightarrow> countup_files fs k = Some k' \<Longrightarrow> kinv (\<lambda>f. d f + int (count_list fs (Some f))) k' \<and> frame k k'"
proof (induction fs k arbitrary: d rule: countup_files.induct)
  case (3 f fs k)
  obtain k1 where k1: "countup_file f k = Some k1" "countup_files fs k1 = Some k'" using 3(3) by (auto simp: bind_Some)
  note c = kinv_countup [OF 3(2) k1(1)]
  have "(\<lambda>g. (d(f := d f + 1)) g + int (count_list fs (Some g))) = (\<lambda>g. d g + int (count_list (Some f # fs) (Some g)))" by (auto simp: fun_eq_iff)
  then show ?case using 3(1) [OF k1(1) c(1) k1(2)] frame_trans [OF c(2)] by auto
qed simp_all

lemma core_upd_cong:
  assumes "core k' = core k"
    "\<And>x x'. pr_parent x' = pr_parent x \<Longrightarrow> pr_children x' = pr_children x \<Longrightarrow> pr_suspend x' = pr_suspend x \<Longrightarrow> pr_files x' = pr_files x \<Longrightarrow>
       pr_parent (g x') = pr_parent (g x) \<and> pr_children (g x') = pr_children (g x) \<and> pr_suspend (g x') = pr_suspend (g x) \<and> pr_files (g x') = pr_files (g x)"
  shows "core (upd_proc p g k') = core (upd_proc p g k)"
proof -
  let ?v = "\<lambda>x. (pr_parent x, pr_children x, pr_suspend x, pr_files x)"
  have v: "map_option ?v (k_procs k' q) = map_option ?v (k_procs k q)" for q
    using assms(1) unfolding core_def prod.inject by (elim conjE) (erule fun_cong)
  have "map_option ?v (map_option g (k_procs k' p)) = map_option ?v (map_option g (k_procs k p))"
  proof (cases "k_procs k p")
    case (Some x)
    then obtain x' where "k_procs k' p = Some x'" "?v x' = ?v x" using v [of p] by (cases "k_procs k' p") simp_all
    then show ?thesis using Some assms(2) [of x' x] by simp
  qed (use v [of p] in simp)
  with v have "(\<lambda>q. map_option ?v (k_procs (upd_proc p g k') q)) = (\<lambda>q. map_option ?v (k_procs (upd_proc p g k) q))" by (simp add: fun_eq_iff)
  then show ?thesis using assms(1) unfolding core_def prod.inject upd_proc_obs(1-11) by (elim conjE) (intro conjI)
qed

lemma process_alloc_enrol:
  assumes "process_alloc k = Some (p, k')"
  shows "\<exists>m a. p = k_max_id k \<and> p < 0x7fffffff \<and> k' = (enrol p (zero_process a) k)\<lparr>k_mmu := m\<rparr>"
proof -
  obtain page b where b: "buddy_alloc (m_buddy (k_mmu k)) KERNEL_STACK_SIZE = Some (page, b)" "p = k_max_id k" "p < 0x7fffffff"
    using assms by (auto simp: process_alloc_def Let_def bind_Some take_page_def split: if_splits)
  then have "k' = (enrol p (zero_process (page_address b page)) k)\<lparr>k_mmu := (k_mmu k)\<lparr>m_buddy := b\<rparr>\<rparr>"
    using assms by (cases k) (simp add: process_alloc_def Let_def take_page_def enrol_def set_proc_def)
  then show ?thesis using b(2,3) by blast
qed

lemma process_fork_ok:
  assumes "ok k" "process_fork c k = Some (r, k')"
  shows "ok k'"
proof -
  obtain me x where me: "current k = Some (me, x)" using assms(2) by (auto simp: process_fork_def bind_Some)
  note a = awakeD [OF okD(2) [OF assms(1)] me]
  obtain p k1 where k1: "process_alloc k = Some (p, k1)" using assms(2) me by (auto simp: process_fork_def bind_Some)
  obtain m st where p: "p = k_max_id k" "k1 = (enrol p (zero_process st) k)\<lparr>k_mmu := m\<rparr>" "p < 0x7fffffff" using process_alloc_enrol [OF k1] by blast
  note n = new_id [OF okD(1) [OF assms(1)] p(1)]
  have ne: "p \<noteq> me" using n(9) a(4) by simp
  let ?child = "upd_proc p (\<lambda>y. y\<lparr>pr_parent := me, pr_context := c\<lparr>c_r := (c_r c)[0 := 0]\<rparr>, pr_brk := pr_brk x, pr_segments := pr_segments x\<rparr>)"
  let ?k3 = "?child (upd_proc me (\<lambda>x. x\<lparr>pr_children := p # pr_children x\<rparr>) k1)"
  let ?fs = "upd_proc p (\<lambda>y. y\<lparr>pr_files := pr_files x\<rparr>)"
  obtain k4 k6 where k4: "copy_segments p (pr_segments x) ?k3 = Some k4" and k6: "countup_files (pr_files x) (?fs k4) = Some k6"
    and k': "k' = upd_proc p (\<lambda>y. y\<lparr>pr_signal := pr_signal x\<rparr>) k6"
    using assms(2) me k1 by (auto simp: process_fork_def bind_Some Let_def)
  let ?x = "(zero_process st)\<lparr>pr_parent := me, pr_files := pr_files x\<rparr>"
  let ?h = "upd_proc me (\<lambda>y. y\<lparr>pr_children := p # pr_children y\<rparr>) (enrol p ?x k)"
  have "core (?fs k4) = core (?fs ?k3)" by (rule core_upd_cong [OF core_copy_segments [OF k4]]) simp
  also have "core (?fs ?k3) = core ?h" using a(5) ne by (simp add: p(2) core_def fun_eq_iff zero_process_def)
  finally have co: "core (?fs k4) = core ?h" .
  have len: "length (pr_files x) = MAX_FD_SIZE" using kinvD(3) [OF okD(1) [OF assms(1)]] a(5) by (auto simp: table_inv_def files_of_def split: option.splits)
  have "kinv (\<lambda>f. 0 - int (count_list (pr_files ?x) (Some f))) ?h"
    by (rule kinv_enrol [OF okD(1) [OF assms(1)] p(1)]) (use ne a(1) len p(3) in \<open>simp_all add: zero_process_def\<close>)
  then have "kinv (\<lambda>f. - int (count_list (pr_files x) (Some f))) (?fs k4)" using kinv_core(1) [OF co] by simp
  from kinv_countup_files [OF this k6] have 6: "kinv (\<lambda>_. 0) k6" "frame (?fs k4) k6" by simp_all
  have "awake ?h" using okD(2) [OF assms(1)] a ne by (simp add: awake_def suspended_in_def)
  then have "awake k6" using frame_awake [OF 6(2)] kinv_core(2) [OF co] by simp
  then have "ok k6" using 6(1) by (simp add: ok_def)
  then show ?thesis unfolding k' by (rule ok_core [OF core_upd_proc, rotated]) simp
qed

subsection \<open>Exec\<close>

text \<open>Descriptors are closed one by one, of a process that is not asleep.\<close>

lemma frame_procs: "frame k k' \<Longrightarrow> k_procs k' = k_procs k \<and> k_current k' = k_current k \<and> (\<forall>p. k_states k p = STATE_READY \<longrightarrow> k_states k' p = STATE_READY)"
  unfolding frame_def by metis

lemma close_marked_ok:
  "ok k \<Longrightarrow> k_current k = Some p \<Longrightarrow> set is \<subseteq> {..<MAX_FD_SIZE} \<Longrightarrow> close_marked p is k = Some k' \<Longrightarrow> ok k'"
proof (induction p "is" k rule: close_marked.induct)
  case (2 p i "is" k)
  obtain x where x: "k_procs k p = Some x" using 2(7) by (auto simp: bind_Some)
  have c: "current k = Some (p, x)" using 2(5) x by (simp add: current_def)
  note a = awakeD [OF okD(2) [OF 2(4)] c]
  show ?case
  proof (cases "\<exists>f. pr_files x ! i = Some f \<and> bitset_test (pr_close_on_exec x) i")
    case True
    then obtain f where f: "pr_files x ! i = Some f" "bitset_test (pr_close_on_exec x) i" by blast
    then obtain k1 where k1: "release_file f k = Some k1" "close_marked p is (clear_cloexec p i (set_slot p i None k1)) = Some k'"
      using 2(7) x by (auto simp: bind_Some)
    note cl = close_slot_ok [OF okD(1) [OF 2(4)] a(1,2), of i f k1]
    have i: "i < MAX_FD_SIZE" "files_of k p ! i = Some f" using 2(6) f x by (auto simp: files_of_def)
    have "awake k1" using cl(3) [OF i k1(1)] frame_awake okD(2) [OF 2(4)] by blast
    then have "ok (clear_cloexec p i (set_slot p i None k1))" using cl(1) [OF i k1(1)] by (simp add: ok_def)
    moreover have "k_current (clear_cloexec p i (set_slot p i None k1)) = Some p"
      using frame_procs [OF cl(3) [OF i k1(1)]] 2(5) by (simp add: clear_cloexec_def)
    ultimately show ?thesis using 2(2) [OF x f k1(1)] k1(2) 2(6) by simp
  next
    case False
    then have "close_marked p is k = Some k'" using 2(7) x by (auto simp: bind_Some split: option.splits if_splits)
    then show ?thesis using 2(1,3) [OF x] 2(4-6) False by (cases "pr_files x ! i") auto
  qed
qed simp

lemma core_set_segments [simp]: "core (set_segments p ex k) = core k"
  by (simp add: set_segments_def core_upd_proc)

lemma core_start_program [cores]: "start_program p ex av k = Some k' \<Longrightarrow> core k' = core k"
  by (auto simp: start_program_def bind_Some Let_def core_upd_proc dest!: cores)

lemma process_exec_ok:
  assumes "ok k" "process_exec path argv envp k = Some (r, k')"
  shows "ok k'"
proof -
  obtain p x where p: "current k = Some (p, x)" using assms(2) by (auto simp: process_exec_def bind_Some)
  obtain av k1 where k1: "prepare_argv_and_envp argv envp k = Some (av, k1)" using assms(2) p by (auto simp: process_exec_def bind_Some)
  note c1 = core_prepare_argv_and_envp [OF k1]
  have ok1: "ok k1" by (rule ok_core [OF c1 assms(1)])
  show ?thesis
  proof (cases av)
    case (Inl e)
    then show ?thesis using assms(2) p k1 ok1 by (auto simp: process_exec_def)
  next
    case (Inr w)
    obtain e ex k2 where k2: "load_executable path k1 = Some (e, ex, k2)" using assms(2) p k1 Inr by (auto simp: process_exec_def bind_Some)
    have ok2: "ok k2" by (rule ok_core [OF core_load_executable [OF k2] ok1])
    show ?thesis
    proof (cases "e < 0")
      case True
      then show ?thesis using assms(2) p k1 Inr k2 ok2 by (auto simp: process_exec_def bind_Some dest!: cores intro: ok_core)
    next
      case False
      let ?k = "upd_proc p (\<lambda>x. x\<lparr>pr_signal := reset_handlers (pr_signal x)\<rparr>) (set_segments p ex k2)"
      have co: "core ?k = core k2" by (simp add: core_upd_proc)
      have "k_current ?k = Some p" using coreD(1) [OF co] coreD(1) [OF core_load_executable [OF k2]] coreD(1) [OF c1] currentD [OF p] by simp
      note cl = close_marked_ok [OF ok_core [OF co ok2] this]
      obtain k3 k4 u k5 where "close_marked p [0..<MAX_FD_SIZE] ?k = Some k3" "destroy_mapping p k3 = Some k4" "switch_ttb p k4 = Some (u, k5)" "start_program p ex w k5 = Some k'"
        using assms(2) p k1 Inr k2 False by (auto simp: process_exec_def bind_Some Let_def)
      then show ?thesis using cl [of "[0..<MAX_FD_SIZE]" k3] ok_core [of k' k3] by (auto simp: atLeast0LessThan dest!: cores)
    qed
  qed
qed

subsection \<open>Exit\<close>

text \<open>The current process is not asleep; it may be dead and still have files open.\<close>

definition up :: "pid \<Rightarrow> kernel \<Rightarrow> bool" where
  "up p k \<longleftrightarrow> kinv (\<lambda>_. 0) k \<and> k_current k = Some p \<and> k_procs k p \<noteq> None \<and> suspended_in k p = None"

text \<open>A process that has died has no open files.\<close>

definition settled :: "kernel \<Rightarrow> bool" where
  "settled k \<longleftrightarrow> (\<forall>p. k_states k p = STATE_DEAD \<longrightarrow> set (files_of k p) \<subseteq> {None})"

lemma close_all_up:
  "up p k \<Longrightarrow> set is \<subseteq> {..<MAX_FD_SIZE} \<Longrightarrow> close_all p is k = Some k' \<Longrightarrow>
     up p k' \<and> (\<forall>i \<in> set is. files_of k' p ! i = None) \<and> (\<forall>i. files_of k p ! i = None \<longrightarrow> files_of k' p ! i = None)"
proof (induction p "is" k rule: close_all.induct)
  case (2 p i "is" k)
  obtain x where x: "k_procs k p = Some x" using 2(5) by (auto simp: bind_Some)
  have i: "i < MAX_FD_SIZE" "set is \<subseteq> {..<MAX_FD_SIZE}" using 2(4) by auto
  show ?case
  proof (cases "pr_files x ! i")
    case None
    then have "close_all p is k = Some k'" using 2(5) x by simp
    with 2(1) [OF x None 2(3) i(2)] None x show ?thesis by (auto simp: files_of_def)
  next
    case (Some f)
    then obtain k1 where k1: "release_file f (set_slot p i None k) = Some k1" "close_all p is k1 = Some k'" using 2(5) x by (auto simp: bind_Some)
    then obtain k0 where k0: "release_file f k = Some k0" "k1 = set_slot p i None k0" by (auto simp: release_file_slot)
    have u: "kinv (\<lambda>_. 0) k" "k_procs k p \<noteq> None" "suspended_in k p = None" "k_current k = Some p" using 2(3) unfolding up_def by blast+
    have fi: "files_of k p ! i = Some f" using Some x by (simp add: files_of_def)
    note c = close_slot_ok [OF u(1-3) i(1) fi k0(1)]
    have pr: "k_procs k0 = k_procs k" "k_current k0 = k_current k" using frame_procs [OF c(3)] by simp_all
    note s = same_procs(1,2) [OF pr(1)]
    have up1: "up p k1" using u(2-4) c(1) pr s by (simp add: up_def k0(2))
    have l: "length (files_of k p) = MAX_FD_SIZE" using kinvD(3) [OF u(1)] u(2) by (simp add: table_inv_def)
    have "files_of k0 = files_of k" by (rule s)
    then have f1: "files_of k1 p = (files_of k p)[i := None]" by (simp add: k0(2))
    have "files_of k1 p ! i = None" "\<And>j. files_of k p ! j = None \<Longrightarrow> files_of k1 p ! j = None"
      using f1 l i(1) by (simp_all add: nth_list_update)
    then show ?thesis using 2(2) [OF x Some k1(1) up1 i(2) k1(2)] by auto
  qed
qed simp

lemma up_dead:
  assumes "ok k" "current k = Some (p, x)"
  shows "up p (k\<lparr>k_states := (k_states k)(p := STATE_DEAD)\<rparr>)"
proof -
  note i = kinvD [OF okD(1) [OF assms(1)]]
  note a = awakeD [OF okD(2) [OF assms(1)] assms(2)]
  let ?k = "k\<lparr>k_states := (k_states k)(p := STATE_DEAD)\<rparr>"
  have o: "files_of ?k = files_of k" "suspended_in ?k = suspended_in k" "parent_of ?k = parent_of k" "children_of ?k = children_of k" "refs ?k = refs k"
    by (rule same_procs; simp)+
  have e: "cnt ?k = cnt k" "end_of ?k = end_of k" "opens ?k = opens k" by (rule same_files; simp)+
  have q: "queue ?k = queue k" by (simp add: fun_eq_iff queue_def split: queue_name.splits)
  have h: "has_end ?k = has_end k" by (rule same_procs(6)) (simp_all add: e)
  have "kinv (\<lambda>_. 0) ?k"
  proof (rule kinvI)
    show "file_inv (\<lambda>_. 0) ?k" using i(1) unfolding file_inv_def o e by auto
    show "ends_inv ?k" using i(2) ends_inv_cong [OF e(2,3)] by simp
    show "table_inv ?k" using i(3) a(2,4) unfolding table_inv_def o by auto
    show "family_inv ?k" using i(4) unfolding family_inv_def o by simp
    show "run_inv ?k" using i(5) a(4) unfolding run_inv_def by auto
    show "queue_inv (queue ?k) (k_states ?k)" using queue_inv_state [OF i(6), of p STATE_DEAD] a(3) by (simp add: q)
    show "sleep_inv ?k" using i(7) unfolding sleep_inv_def q o h .
  qed
  then show ?thesis using a o by (simp add: up_def)
qed

lemma kinv_wake_child:
  assumes "kinv d k" "process_wake (k_child_waitq k) (k_states k) = (b, q, st)"
  shows "kinv d (k\<lparr>k_child_waitq := q, k_states := st\<rparr>)" "k_states k p = STATE_DEAD \<longleftrightarrow> st p = STATE_DEAD"
proof -
  let ?k = "k\<lparr>k_child_waitq := q, k_states := st\<rparr>"
  obtain n where n: "q = drop n (queue k Children)" "st = (\<lambda>p. if p \<in> set (take n (queue k Children)) then STATE_READY else k_states k p)"
    using wakes_wake [of "k_child_waitq k" "k_states k"] assms(2) by (auto simp: wakes_def queue_def)
  have sb: "same_but_queues k ?k"
    by (auto simp: same_but_queues_def files_of_def parent_of_def children_of_def cnt_def end_of_def fun_eq_iff intro: option.rel_refl)
  have s: "suspended_in ?k = suspended_in k" by (rule same_procs) simp
  have Q: "queue ?k = (queue k)(Children := drop n (queue k Children))" using n(1) by (simp add: fun_eq_iff queue_def split: queue_name.splits)
  have st: "k_states ?k = (\<lambda>p. if p \<in> set (take n (queue k Children)) then STATE_READY else k_states k p)" using n(2) by simp
  show "kinv d ?k" by (rule kinv_wake [OF assms(1) sb s Q st])
  have "k_states k p = STATE_BLOCKED" if "p \<in> set (take n (queue k Children))"
    using queue_invD(3) [OF kinvD(6) [OF assms(1)]] in_set_takeD [OF that] by blast
  then show "k_states k p = STATE_DEAD \<longleftrightarrow> st p = STATE_DEAD" by (auto simp: n(2))
qed

lemma process_exit_ok:
  assumes "ok k" "process_exit status k = Some k'"
  shows "kinv (\<lambda>_. 0) k'" "settled k'"
proof -
  obtain p x where p: "current k = Some (p, x)" using assms(2) by (auto simp: process_exit_def bind_Some)
  let ?k = "upd_proc p (\<lambda>x. x\<lparr>pr_exit_status := status\<rparr>) (k\<lparr>k_states := (k_states k)(p := STATE_DEAD)\<rparr>)"
  obtain k1 where k1: "close_all p [0..<MAX_FD_SIZE] ?k = Some k1" using assms(2) p by (auto simp: process_exit_def bind_Some)
  have c: "core ?k = core (k\<lparr>k_states := (k_states k)(p := STATE_DEAD)\<rparr>)" by (rule core_upd_proc) simp
  have "up p ?k" using up_dead [OF assms(1) p] kinv_core(1) [OF c] coreD(1,11,16) [OF c] unfolding up_def by simp
  from close_all_up [OF this _ k1] have u: "up p k1" "\<forall>i < MAX_FD_SIZE. files_of k1 p ! i = None" by (auto simp: atLeast0LessThan)
  have "length (files_of k1 p) = MAX_FD_SIZE" using kinvD(3) [of "\<lambda>_. 0" k1] u(1) by (simp add: up_def table_inv_def)
  then have none: "set (files_of k1 p) \<subseteq> {None}" using u(2) by (auto simp: in_set_conv_nth)
  define k2 where "k2 = (if length (k_all k1) = 1 then system_shutdown k1 else k1)"
  have c2: "core k2 = core k1" by (simp add: k2_def system_shutdown_def)
  obtain b q st where w: "process_wake (k_child_waitq k2) (k_states k2) = (b, q, st)" by (metis prod_cases3)
  have k': "k' = k2\<lparr>k_child_waitq := q, k_states := st\<rparr>" using assms(2) p k1 w by (simp add: process_exit_def k2_def)
  have i2: "kinv (\<lambda>_. 0) k2" using u(1) kinv_core(1) [OF c2] by (simp add: up_def)
  show "kinv (\<lambda>_. 0) k'" unfolding k' by (rule kinv_wake_child [OF i2 w])
  have "k_current k1 = Some p" using u(1) by (simp add: up_def)
  then have "set (files_of k1 r) \<subseteq> {None}" if "k_states k1 r = STATE_DEAD" for r
    using kinvD(3) [of "\<lambda>_. 0" k1] u(1) that none unfolding up_def table_inv_def by (cases "r = p") auto
  then have "settled k2" using coreD(5,10) [OF c2] by (simp add: settled_def)
  moreover have "files_of k' = files_of k2" by (rule same_procs) (simp add: k')
  ultimately show "settled k'" using kinv_wake_child(2) [OF i2 w] by (simp add: settled_def k')
qed

subsection \<open>Wait\<close>

lemma set_parents_eq:
  "set_parents g cs k = k\<lparr>k_procs := \<lambda>c. map_option (\<lambda>x. if c \<in> set cs then x\<lparr>pr_parent := g c\<rparr> else x) (k_procs k c)\<rparr>"
proof (induction cs arbitrary: k)
  case (Cons c cs)
  have "set_parents g (c # cs) k = set_parents g cs (upd_proc c (\<lambda>x. x\<lparr>pr_parent := g c\<rparr>) k)" by (simp add: set_parents_def)
  also have "\<dots> = k\<lparr>k_procs := \<lambda>c'. map_option (\<lambda>x. if c' \<in> set (c # cs) then x\<lparr>pr_parent := g c'\<rparr> else x) (k_procs k c')\<rparr>"
    unfolding Cons.IH by (auto simp: upd_proc_def fun_eq_iff option.map_comp comp_def intro!: arg_cong [where f = "\<lambda>P. k\<lparr>k_procs := P\<rparr>"] map_option_cong)
  finally show ?case .
qed (simp add: set_parents_def option.map_ident)

text \<open>What the removal of a process leaves of the tree.\<close>

definition heir :: "pid \<Rightarrow> kernel \<Rightarrow> pid option" where
  "heir p k = find_toplevel_process (unlink_process p k)"

lemma removed_obs:
  assumes "k_procs k p = Some x" "h = adopt (pr_children x) (unlink_process p k)" "k' = h\<lparr>k_procs := (k_procs h)(p := None)\<rparr>"
  shows "k_all k' = remove1 p (k_all k)" "k_run k' = remove1 p (k_run k)" "k_states k' = k_states k" "k_current k' = k_current k" "k_max_id k' = k_max_id k"
    "k_files k' = k_files k" "k_next_file k' = k_next_file k" "k_pipes k' = k_pipes k" "k_next_pipe k' = k_next_pipe k" "queue k' = queue k"
    "files_of k' = (files_of k)(p := [])" "suspended_in k' = (suspended_in k)(p := None)" "k_procs k' q = None \<longleftrightarrow> q = p \<or> k_procs k q = None"
    "parent_of k' c = (if c = p then None else if c \<in> set (pr_children x) then map_option (\<lambda>_. case heir p k of Some t \<Rightarrow> t | None \<Rightarrow> c) (k_procs k c) else parent_of k c)"
    "children_of k' q = (if q = p \<or> k_procs k q = None then [] else if pr_children x \<noteq> [] \<and> heir p k = Some q then pr_children x @ remove1 p (children_of k q) else remove1 p (children_of k q))"
proof -
  let ?u = "unlink_process p k"
  have h: "k_all h = k_all ?u" "k_run h = k_run ?u" "k_states h = k_states k" "k_current h = k_current k" "k_max_id h = k_max_id k"
    "k_files h = k_files k" "k_next_file h = k_next_file k" "k_pipes h = k_pipes k" "k_next_pipe h = k_next_pipe k" "k_child_waitq h = k_child_waitq k" "k_tty h = k_tty k"
    by (auto simp: assms(2) adopt_def set_parents_eq unlink_process_def split: option.splits)
  then show "k_all k' = remove1 p (k_all k)" "k_run k' = remove1 p (k_run k)" "k_states k' = k_states k" "k_current k' = k_current k" "k_max_id k' = k_max_id k"
    "k_files k' = k_files k" "k_next_file k' = k_next_file k" "k_pipes k' = k_pipes k" "k_next_pipe k' = k_next_pipe k"
    by (simp_all add: assms(3) unlink_process_def)
  show "queue k' = queue k" using h by (simp add: fun_eq_iff queue_def assms(3) split: queue_name.splits)
  have pr: "k_procs k' q = (if q = p then None else map_option (\<lambda>y. y\<lparr>
      pr_parent := if q \<in> set (pr_children x) then (case heir p k of Some t \<Rightarrow> t | None \<Rightarrow> q) else pr_parent y,
      pr_children := (if pr_children x \<noteq> [] \<and> heir p k = Some q then pr_children x else []) @ remove1 p (pr_children y)\<rparr>) (k_procs k q))" for q
    by (cases "k_procs k q"; cases "heir p k")
      (auto simp: assms(3) assms(2) adopt_def set_parents_eq heir_def unlink_process_def)
  have "files_of k' r = (if r = p then [] else files_of k r)" "suspended_in k' r = (if r = p then None else suspended_in k r)" for r
    by (cases "k_procs k r"; simp add: pr files_of_def suspended_in_def)+
  then show "files_of k' = (files_of k)(p := [])" "suspended_in k' = (suspended_in k)(p := None)" by (simp_all add: fun_eq_iff)
  show "k_procs k' q = None \<longleftrightarrow> q = p \<or> k_procs k q = None" by (simp add: pr)
  show "parent_of k' c = (if c = p then None else if c \<in> set (pr_children x) then map_option (\<lambda>_. case heir p k of Some t \<Rightarrow> t | None \<Rightarrow> c) (k_procs k c) else parent_of k c)"
    by (cases "k_procs k c") (simp_all add: pr parent_of_def)
  show "children_of k' q = (if q = p \<or> k_procs k q = None then [] else if pr_children x \<noteq> [] \<and> heir p k = Some q then pr_children x @ remove1 p (children_of k q) else remove1 p (children_of k q))"
    by (cases "k_procs k q") (simp_all add: pr children_of_def)
qed

text \<open>Every process goes back to the first one, which therefore exists and takes over the children of a process that is removed.\<close>

lemma descends:
  assumes "family_inv k" "k_procs k c \<noteq> None"
  shows "(\<lambda>c p. parent_of k c = Some p)\<^sup>*\<^sup>* c 1" "parent_of k 1 = Some 1"
proof -
  have "(\<lambda>c p. parent_of k c = Some p)\<^sup>*\<^sup>* c 1 \<and> parent_of k 1 = Some 1"
    using assms(2)
  proof (induction c rule: less_induct)
    case (less c)
    then obtain p where p: "parent_of k c = Some p" by (auto simp: parent_of_def)
    then have "k_procs k p \<noteq> None" "p < c \<or> c = 1 \<and> p = 1" using assms(1) unfolding family_inv_def by blast+
    then show ?case using less.IH [of p] p by (auto intro: converse_rtranclp_into_rtranclp)
  qed
  then show "(\<lambda>c p. parent_of k c = Some p)\<^sup>*\<^sup>* c 1" "parent_of k 1 = Some 1" by blast+
qed

lemma heir_first:
  assumes "kinv d k" "k_procs k p \<noteq> None" "parent_of k p \<noteq> Some p"
  shows "heir p k = Some 1"
proof -
  note i = kinvD [OF assms(1)]
  have one: "parent_of k 1 = Some 1" by (rule descends(2) [OF i(4) assms(2)])
  have all: "set (k_all k) = dom (k_procs k)" using i(3) by (simp add: table_inv_def)
  have u: "k_all (unlink_process p k) = remove1 p (k_all k)" "map_option pr_parent (k_procs (unlink_process p k) c) = parent_of k c" for c
    by (simp_all add: unlink_process_def parent_of_def option.map_comp comp_def)
  have "1 \<noteq> p" "1 \<in> set (k_all k)" using one assms(3) all by (auto simp: parent_of_def)
  then have "1 \<in> set (remove1 p (k_all k))" by (simp add: in_set_remove1)
  then have "find (\<lambda>c. parent_of k c = Some c) (remove1 p (k_all k)) \<noteq> None" using one by (auto simp: find_None_iff)
  moreover have "t = 1" if "parent_of k t = Some t" for t using that i(4) unfolding family_inv_def by blast
  ultimately show ?thesis unfolding heir_def find_toplevel_process_def u by (auto simp: find_Some_iff)
qed

lemma heir_top:
  assumes "kinv d k" "heir p k = Some t" "parent_of k p \<noteq> Some p"
  shows "t \<noteq> p" "parent_of k t = Some t" "k_procs k t \<noteq> None"
proof -
  have "map_option pr_parent (k_procs (unlink_process p k) t) = Some t" using assms(2) unfolding heir_def find_toplevel_process_def by (auto simp: find_Some_iff)
  then show "parent_of k t = Some t" "k_procs k t \<noteq> None" by (auto simp: unlink_process_def parent_of_def)
  then show "t \<noteq> p" using assms(3) by auto
qed

lemma family_removed:
  assumes "kinv d k" "k_procs k p = Some x" "pr_parent x \<noteq> p"
    and parent: "\<And>c. parent_of k' c = (if c = p then None else if c \<in> set (pr_children x) then map_option (\<lambda>_. case heir p k of Some t \<Rightarrow> t | None \<Rightarrow> c) (k_procs k c) else parent_of k c)"
    and children: "\<And>q. children_of k' q = (if q = p \<or> k_procs k q = None then [] else if pr_children x \<noteq> [] \<and> heir p k = Some q then pr_children x @ remove1 p (children_of k q) else remove1 p (children_of k q))"
    and procs: "\<And>q. k_procs k' q = None \<longleftrightarrow> q = p \<or> k_procs k q = None"
  shows "family_inv k'"
proof -
  have F: "distinct (children_of k r)" "c \<in> set (children_of k r) \<longleftrightarrow> c \<noteq> r \<and> parent_of k c = Some r" "parent_of k c = Some r \<Longrightarrow> k_procs k r \<noteq> None"
    "parent_of k c = Some r \<Longrightarrow> r < c \<or> c = 1 \<and> r = 1" for r c
    using kinvD(4) [OF assms(1)] unfolding family_inv_def by blast+
  have cx: "children_of k p = pr_children x" "parent_of k p \<noteq> Some p" using assms(2,3) by (simp_all add: children_of_def parent_of_def)
  note H = heir_top [OF assms(1) _ cx(2)]
  have kid: "c \<in> set (pr_children x) \<longleftrightarrow> c \<noteq> p \<and> parent_of k c = Some p" for c using F(2) [of c p] by (simp add: cx)
  have alive: "parent_of k c = Some r \<Longrightarrow> k_procs k c \<noteq> None" for c r by (auto simp: parent_of_def)
  have par: "parent_of k' c = (if c = p then None else if parent_of k c = Some p then Some (case heir p k of Some t \<Rightarrow> t | None \<Rightarrow> c) else parent_of k c)" for c
    using alive [of c p] unfolding parent kid by (cases "k_procs k c") auto
  have mem: "c \<in> set (children_of k' r) \<longleftrightarrow> r \<noteq> p \<and> c \<noteq> p \<and> (parent_of k c = Some p \<and> heir p k = Some r \<or> c \<noteq> r \<and> parent_of k c = Some r)" for r c
  proof (cases "r = p \<or> k_procs k r = None")
    case True
    then show ?thesis using F(3) [of c r] H(3) [of r] unfolding children by auto
  next
    case False
    then have "set (children_of k' r) = (if heir p k = Some r then set (pr_children x) else {}) \<union> (set (children_of k r) - {p})"
      unfolding children by (auto simp: set_remove1_eq [OF F(1)])
    then have "c \<in> set (children_of k' r) \<longleftrightarrow> heir p k = Some r \<and> c \<in> set (pr_children x) \<or> c \<in> set (children_of k r) \<and> c \<noteq> p" by simp
    then show ?thesis unfolding kid F(2) using False by blast
  qed
  show ?thesis unfolding family_inv_def
  proof (intro conjI allI impI)
    fix r
    have "c \<notin> set (children_of k r)" if "r \<noteq> p" "c \<in> set (pr_children x)" for c using that F(2) [of c r] kid [of c] by simp
    then have "distinct (pr_children x @ remove1 p (children_of k r))" if "r \<noteq> p"
      using F(1) [of p, unfolded cx(1)] F(1) [of r] that set_remove1_subset [of p "children_of k r"] by auto
    then show "distinct (children_of k' r)" using F(1) [of r] by (simp add: children)
  next
    fix r c show "c \<in> set (children_of k' r) \<longleftrightarrow> c \<noteq> r \<and> parent_of k' c = Some r"
      unfolding mem par using H(1,2) [of r] by (cases "heir p k") auto
  next
    fix c r assume "parent_of k' c = Some r"
    then show "k_procs k' r \<noteq> None" unfolding par procs using F(3) [of c r] alive [of c] H(1,3) [of r] by (auto split: if_splits option.splits)
  next
    fix c r assume c: "parent_of k' c = Some r"
    show "r < c \<or> c = 1 \<and> r = 1"
    proof (cases "c \<noteq> p \<and> parent_of k c = Some p")
      case True
      then have "r = 1" using c heir_first [OF assms(1) _ cx(2)] assms(2) by (simp add: par)
      moreover have "p < c" using F(4) [of c p] True cx(2) by auto
      ultimately show ?thesis using F(4) [of p "pr_parent x"] assms(2,3) by (auto simp: parent_of_def)
    next
      case False
      then show ?thesis using c F(4) [of c r] by (auto simp: par split: if_splits)
    qed
  qed
qed

lemma kinv_removed:
  assumes "kinv d k" "k_procs k p = Some x" "pr_parent x \<noteq> p" "k_states k p = STATE_DEAD" "k_current k \<noteq> Some p"
    "h = adopt (pr_children x) (unlink_process p k)" "k' = h\<lparr>k_procs := (k_procs h)(p := None)\<rparr>"
  shows "kinv d k'" "awake k \<Longrightarrow> awake k'" "settled k \<Longrightarrow> settled k'" "k_current k' = k_current k"
proof -
  note i = kinvD [OF assms(1)]
  note o = removed_obs [OF assms(2,6,7)]
  note e = same_files(1,2) [OF o(6)] same_files(3) [OF o(6,7)]
  have dead: "set (files_of k p) \<subseteq> {None}" "suspended_in k p = None" using i(3) assms(4,5) by (auto simp: table_inv_def)
  have d: "distinct (k_all k)" using i(3) by (simp add: table_inv_def)
  have notrun: "p \<notin> set (k_run k)" using i(5) assms(4) by (auto simp: run_inv_def)
  have s: "suspended_in k' = suspended_in k" using dead(2) by (auto simp: o(12) fun_eq_iff)
  have ref: "refs k' f = refs k f" for f
  proof -
    have c: "count_list (files_of k p) (Some f) = 0" using dead(1) count_list_pos [of "files_of k p" "Some f"] by auto
    have p: "p \<in> set (k_all k)" using i(3) assms(2) by (auto simp: table_inv_def)
    have "refs k' f = (\<Sum>r \<in> set (k_all k) - {p}. count_list (files_of k r) (Some f))"
      unfolding refs_def o(1) set_remove1_eq [OF d] by (rule sum.cong) (auto simp: o(11))
    also have "\<dots> = refs k f" unfolding refs_def using p by (simp add: sum.remove [OF _ p] c)
    finally show ?thesis .
  qed
  have q: "p \<notin> set (queue k r)" for r using queue_invD(3) [OF i(6), of p] assms(4) by auto
  have has: "has_end k r ee \<Longrightarrow> r \<noteq> p \<Longrightarrow> has_end k' r ee" for r ee by (auto simp: has_end_def o(11) e)
  show "kinv d k'"
  proof (rule kinvI)
    show "file_inv d k'" using i(1) unfolding file_inv_def e ref o(6,7) .
    show "ends_inv k'" using i(2) ends_inv_cong [OF e(2,3) o(8,9)] by simp
    have "dom (k_procs k') = dom (k_procs k) - {p}" by (auto simp: dom_def o(13))
    then show "table_inv k'" using i(3) unfolding table_inv_def o(1,3,4,5,11) s set_remove1_eq [OF d] o(13) by auto
    show "family_inv k'" by (rule family_removed [OF assms(1-3) o(14,15,13)])
    show "run_inv k'" using i(5) notrun assms(5) unfolding run_inv_def o(2,3,4,13) by (auto simp: remove1_idem)
    show "queue_inv (queue k') (k_states k')" using i(6) by (simp only: o)
    show "sleep_inv k'" using sleep_invD [OF i(7)] has dead(2) unfolding sleep_inv_def o(10) s by (metis option.distinct(1))
  qed
  show "k_current k' = k_current k" by (rule o)
  show "awake k'" if "awake k" using that assms(5) unfolding awake_def o(3,4,13) s by auto
  show "settled k'" if "settled k" using that by (auto simp: settled_def o(3,11))
qed

lemma core_delete: "core k' = core k \<Longrightarrow> core (k'\<lparr>k_procs := (k_procs k')(p := None)\<rparr>) = core (k\<lparr>k_procs := (k_procs k)(p := None)\<rparr>)"
proof -
  assume c: "core k' = core k"
  let ?v = "\<lambda>x. (pr_parent x, pr_children x, pr_suspend x, pr_files x)"
  have "map_option ?v (k_procs k' q) = map_option ?v (k_procs k q)" for q
    using c unfolding core_def prod.inject by (elim conjE) (erule fun_cong)
  then have "(\<lambda>q. map_option ?v (((k_procs k')(p := None)) q)) = (\<lambda>q. map_option ?v (((k_procs k)(p := None)) q))" by (simp add: fun_eq_iff)
  then show ?thesis using c unfolding core_def prod.inject by simp
qed

lemma process_destroy_ok:
  assumes "ok k" "process_destroy p k = Some k'" "k_procs k p = Some x" "pr_parent x \<noteq> p" "k_states k p = STATE_DEAD" "k_current k \<noteq> Some p"
  shows "ok k'"
proof -
  obtain me y where me: "current k = Some (me, y)" "me \<noteq> p" using assms(2,6) by (auto simp: process_destroy_def bind_Some current_def)
  let ?h = "adopt (pr_children x) (unlink_process p k)"
  obtain h where "core h = core ?h" "k' = h\<lparr>k_procs := (k_procs h)(p := None)\<rparr>"
    using assms(2,3) me by (auto simp: process_destroy_def bind_Some Let_def dest!: cores)
  then have c: "core k' = core (?h\<lparr>k_procs := (k_procs ?h)(p := None)\<rparr>)" using core_delete by blast
  show ?thesis using kinv_removed [OF okD(1) [OF assms(1)] assms(3-6) refl refl] okD(2) [OF assms(1)] ok_core [OF c] by (simp add: ok_def)
qed

lemma run_wait_ok:
  assumes "ok k" "run_wait status k = Some (r, k')"
  shows "io_ok r k'"
proof -
  obtain me x where me: "current k = Some (me, x)" using assms(2) by (auto simp: run_wait_def bind_Some)
  note a = awakeD [OF okD(2) [OF assms(1)] me]
  show ?thesis
  proof (cases "find (\<lambda>c. k_states k c = STATE_DEAD) (pr_children x)")
    case (Some c)
    then have c: "c \<in> set (children_of k me)" "k_states k c = STATE_DEAD" using a(5) by (auto simp: find_Some_iff children_of_def)
    obtain y k1 where y: "k_procs k c = Some y" "process_destroy c k = Some k1" "core k' = core k1" "r = Done (int c)"
      using assms(2) me Some by (auto simp: run_wait_def bind_Some dest!: cores)
    have "c \<noteq> me \<and> parent_of k c = Some me" using c(1) kinvD(4) [OF okD(1) [OF assms(1)]] unfolding family_inv_def by blast
    then have "ok k1" using process_destroy_ok [OF assms(1) y(2,1) _ c(2)] y(1) a(4) by (simp add: parent_of_def)
    then show ?thesis using y(3,4) ok_core by simp
  next
    case None
    let ?k = "k\<lparr>k_child_waitq := me # k_child_waitq k, k_states := (k_states k)(me := STATE_BLOCKED)\<rparr>"
    have r: "r = Asleep (In_Wait status)" "k' = ?k" using assms(2) me None by (auto simp: run_wait_def block_on_def)
    have sb: "same_but_queues k ?k"
      by (auto simp: same_but_queues_def files_of_def parent_of_def children_of_def cnt_def end_of_def fun_eq_iff intro: option.rel_refl)
    have "asleep (In_Wait status) ?k"
      by (rule moved_ok(2) [OF assms(1) me sb, where a = True and w = Terminal_In and q = Children and w' = "queue k Terminal_In" and q' = "me # queue k Children"])
        (auto simp: queue_def fun_eq_iff moved_sleep needed_end_def split: queue_name.splits)
    then show ?thesis by (simp add: r)
  qed
qed

lemma process_wait_ok: "ok k \<Longrightarrow> process_wait status k = Some (r, k') \<Longrightarrow> io_ok r k'"
  by (auto simp: process_wait_def bind_Some split: if_splits dest: run_wait_ok)

end
