(* ===== verification/Cy_Kernel_Correct.thy ===== *)
theory Cy_Kernel_Correct
  imports Cy_Kernel_Proc
begin

text \<open>
  The invariant of \<^theory_text>\<open>Cy_Kernel_Inv\<close> through the system calls, the scheduler and the machine: every reachable
  state has it.
\<close>

subsection \<open>Memory and signals\<close>

lemma core_process_brk [cores]: "process_brk a k = Some (r, k') \<Longrightarrow> core k' = core k"
  by (auto simp: process_brk_def bind_Some Let_def core_upd_proc split: if_splits dest!: cores)

lemma core_process_demand_page [cores]: "process_demand_page a k = Some (r, k') \<Longrightarrow> core k' = core k"
  by (auto simp: process_demand_page_def bind_Some Let_def core_upd_proc split: if_splits option.splits dest!: cores)

lemma core_push_to_stack [cores]: "push_to_stack sp data k = Some (r, k') \<Longrightarrow> core k' = core k"
  by (auto simp: push_to_stack_def bind_Some Let_def dest!: cores)

lemma core_set_mask [simp]: "core (set_mask p m k) = core k"
  by (simp add: set_mask_def core_upd_proc)

lemma core_process_sigaction [cores]: "process_sigaction sig a b k = Some (r, k') \<Longrightarrow> core k' = core k"
  by (auto simp: process_sigaction_def bind_Some Let_def core_upd_proc split: if_splits dest!: cores)

lemma core_process_sigprocmask [cores]:
  assumes "process_sigprocmask how a b k = Some (r, k')"
  shows "core k' = core k"
proof -
  let ?change = "\<lambda>p old. if a \<noteq> 0 then
      if how = SIG_BLOCK then Option.bind (load_words a 2 k) (\<lambda>ws. Some (0, set_mask p (snd (sigdelset (snd (sigdelset (sigorset old (sigset_at ws)) SIGKILL)) SIGSTOP)) k))
      else if how = SIG_UNBLOCK then Option.bind (load_words a 2 k) (\<lambda>ws. Some (0, set_mask p (sigandset old (signotset (sigset_at ws))) k))
      else if how = SIG_SETMASK then Option.bind (load_words a 2 k) (\<lambda>ws. Some (0, set_mask p (snd (sigdelset (snd (sigdelset (sigset_at ws) SIGKILL)) SIGSTOP)) k))
      else Some (- errno_code EINVAL, k)
    else Some (0, k)"
  have c: "core h = core k" if "?change p old = Some (i, h)" for p old i h
    by (rule post_pairD [OF that, where P = "\<lambda>_ h. core h = core k"]) (intro post_rules, simp_all)
  show ?thesis
    by (rule post_pairD [OF assms, where P = "\<lambda>_ h. core h = core k"])
      (unfold process_sigprocmask_def Let_def, intro post_rules, auto dest!: c core_store_bytes)
qed

lemma core_process_sigreturn [cores]: "process_sigreturn k = Some k' \<Longrightarrow> core k' = core k"
  by (auto simp: process_sigreturn_def bind_Some core_upd_proc)

lemma core_deliver_signal [cores]: "deliver_signal p x k = Some (r, k') \<Longrightarrow> core k' = core k"
  by (auto simp: deliver_signal_def bind_Some Let_def core_upd_proc split: if_splits dest!: cores)

subsection \<open>The end of a call\<close>

lemma settledI:
  assumes "kinv d k" "\<And>p. k_current k = Some p \<Longrightarrow> k_states k p \<noteq> STATE_DEAD \<or> suspended_in k p \<noteq> None"
  shows "settled k"
  using kinvD(3) [OF assms(1)] assms(2) unfolding settled_def table_inv_def by metis

definition sound :: "kernel \<Rightarrow> bool" where
  "sound k \<longleftrightarrow> kinv (\<lambda>_. 0) k \<and> settled k"

lemma ok_sound: "ok k \<Longrightarrow> sound k"
  unfolding sound_def by (auto simp: ok_def awake_def intro!: settledI)

lemma core_set_return [cores]: "set_return w k = Some k' \<Longrightarrow> core k' = core k"
proof -
  assume "set_return w k = Some k'"
  then obtain p x where "k_procs k p = Some x" "k' = set_proc p (x\<lparr>pr_context := (pr_context x)\<lparr>c_r := (c_r (pr_context x))[0 := w]\<rparr>\<rparr>) k"
    by (auto simp: set_return_def bind_Some current_def)
  then show ?thesis by (auto simp: core_def fun_eq_iff)
qed

lemma set_return_sound: "ok k \<Longrightarrow> post (set_return w k) sound"
  by (rule post_all) (blast intro: ok_sound ok_core core_set_return)

lemma finish_call_sound: "call_ok c k \<Longrightarrow> post (finish_call c k) sound"
proof (cases c)
  case (Suspend b a)
  assume "call_ok c k"
  then obtain me x where me: "current k = Some (me, x)" "kinv (\<lambda>_. 0) (set_proc me (x\<lparr>pr_suspend := Some (b, a)\<rparr>) k)"
    using Suspend by (auto simp: asleep_def)
  let ?k = "set_proc me (x\<lparr>pr_suspend := Some (b, a)\<rparr>) k"
  have "settled ?k" by (rule settledI [OF me(2)]) (use currentD [OF me(1)] in \<open>simp add: suspended_in_def\<close>)
  then show ?thesis using me by (simp add: finish_call_def Suspend sound_def)
qed (simp add: finish_call_def set_return_sound)

lemma call_of_ok: "io_ok r k \<Longrightarrow> call_ok (call_of a r) k"
  by (cases r) (simp_all add: call_of_def)

lemma answer_sound:
  assumes "\<And>r k'. c = Some (r, k') \<Longrightarrow> ok k'"
  shows "post (answer c) sound"
  unfolding answer_def by (intro post_rules) (use assms in \<open>auto intro: set_return_sound\<close>)

lemma fault_sound: "ok k \<Longrightarrow> post (fault k) sound"
  by (simp add: fault_def set_return_sound)

lemma blocking_sound:
  assumes "\<And>r k'. c = Some (r, k') \<Longrightarrow> io_ok r k'"
  shows "post (blocking c) sound"
  unfolding blocking_def by (intro post_rules) (use assms in \<open>auto intro: finish_call_sound call_of_ok\<close>)

lemma answer_call_sound:
  assumes "post c (\<lambda>(r, k'). call_ok r k')"
  shows "post (answer_call c) sound"
  unfolding answer_call_def by (intro post_rules) (use assms postD in \<open>fastforce intro: finish_call_sound\<close>)

lemma answer_vfs_sound: "ok k \<Longrightarrow> post (answer_vfs c k) sound"
  unfolding answer_vfs_def by (intro post_rules) (auto intro: set_return_sound)

lemma with_path_sound:
  assumes "ok k" "\<And>path. post (body path) sound"
  shows "post (with_path a k body) sound"
  unfolding with_path_def by (intro post_rules) (use assms in \<open>auto intro: fault_sound\<close>)

lemma answer_core_sound:
  assumes "ok k" "\<And>r k'. c = Some (r, k') \<Longrightarrow> core k' = core k"
  shows "post (answer c) sound"
  by (rule answer_sound) (use assms ok_core in blast)

subsection \<open>System calls\<close>

lemma syscall_exit_sound: "ok k \<Longrightarrow> post (syscall_exit k) sound"
  unfolding syscall_exit_def by (intro post_rules post_all) (simp add: sound_def process_exit_ok)

lemma syscall_execve_sound:
  assumes "ok k"
  shows "post (syscall_execve k) sound"
  unfolding syscall_execve_def
  by (intro post_rules with_path_sound [OF assms]) (use assms in \<open>auto dest: process_exec_ok intro: fault_sound set_return_sound ok_sound\<close>)

lemma file_calls_sound:
  assumes "ok k"
  shows "post (syscall_fork k) sound" "post (syscall_read k) sound" "post (syscall_write k) sound" "post (syscall_open k) sound" "post (syscall_close k) sound"
    "post (syscall_unlink k) sound" "post (syscall_mkdir k) sound" "post (syscall_rmdir k) sound" "post (syscall_dup k) sound" "post (syscall_dup2 k) sound"
    "post (syscall_dup3 k) sound" "post (syscall_pipe k) sound" "post (syscall_pipe2 k) sound" "post (syscall_fcntl64 k) sound" "post (syscall_wait4 k) sound"
  unfolding syscall_fork_def syscall_read_def syscall_write_def syscall_open_def syscall_close_def syscall_unlink_def syscall_mkdir_def syscall_rmdir_def
    syscall_dup_def syscall_dup2_def syscall_dup3_def syscall_pipe_def process_pipe_def syscall_pipe2_def syscall_fcntl64_def syscall_wait4_def
  by (intro post_rules with_path_sound [OF assms] answer_sound blocking_sound fault_sound answer_vfs_sound;
      (assumption | rule assms | erule process_fork_ok [OF assms] process_read_ok [OF assms] process_write_ok [OF assms] process_open_ok [OF assms]
        process_close_ok [OF assms] process_dupfd_ok [OF assms] process_dup2_ok [OF assms] process_dup3_ok [OF assms] process_pipe2_ok [OF assms]
        process_fcntl64_ok [OF assms] process_wait_ok [OF assms]))+

lemma core_store_names [cores]: "store_names a ss k = Some k' \<Longrightarrow> core k' = core k"
  by (induction a ss k rule: store_names.induct) (fastforce simp: bind_Some dest: core_store_bytes)+

lemma core_system_uname [cores]: "system_uname cfg uts k = Some (r, k') \<Longrightarrow> core k' = core k"
  by (auto simp del: store_names.simps simp: system_uname_def bind_Some dest!: cores)

lemma other_calls_sound:
  assumes "ok k"
  shows "post (syscall_kill k) sound" "post (syscall_ioctl k) sound" "post (syscall_rt_sigaction k) sound" "post (syscall_rt_sigprocmask k) sound"
    "post (syscall_uname cfg k) sound" "post (syscall_fstat64 k) sound" "post (syscall_getdents64 k) sound"
  unfolding syscall_kill_def syscall_ioctl_def syscall_rt_sigaction_def syscall_rt_sigprocmask_def syscall_uname_def syscall_fstat64_def syscall_getdents64_def
  by (intro post_rules answer_core_sound [OF assms] fault_sound [OF assms]; erule cores)+

lemma simple_calls_sound:
  assumes "ok k"
  shows "post (syscall_getpid k) sound" "post (syscall_getppid k) sound" "post (syscall_pass r k) sound"
  unfolding syscall_getpid_def syscall_getppid_def syscall_pass_def by (intro post_rules set_return_sound assms)+

lemma store_calls_sound:
  assumes "ok k"
  shows "post (syscall_brk k) sound" "post (syscall__llseek k) sound" "post (syscall_getcwd k) sound" "post (syscall_lstat64 k) sound" "post (syscall_sigreturn k) sound"
proof -
  have c: "ok h" if "core h = core k" for h by (rule ok_core [OF that assms])
  show "post (syscall_brk k) sound" unfolding syscall_brk_def by (intro post_rules) (auto dest!: cores intro: set_return_sound c)
  show "post (syscall__llseek k) sound" unfolding syscall__llseek_def Let_def
    by (intro post_rules fault_sound [OF assms]) (auto simp del: store_bytes.simps dest!: cores intro!: set_return_sound c)
  show "post (syscall_getcwd k) sound" unfolding syscall_getcwd_def
    by (intro post_rules fault_sound [OF assms] set_return_sound [OF assms]) (auto simp del: store_bytes.simps dest!: cores intro!: post_all ok_sound c)
  show "post (syscall_lstat64 k) sound" unfolding syscall_lstat64_def store_stat_def
    by (intro post_rules fault_sound [OF assms] with_path_sound [OF assms]) (auto split: option.splits dest!: cores intro!: set_return_sound c)
  show "post (syscall_sigreturn k) sound" unfolding syscall_sigreturn_def by (rule post_all) (auto dest!: cores intro: ok_sound c)
qed

lemma vector_calls_sound:
  assumes "ok k"
  shows "post (syscall_readv k) sound" "post (syscall_writev k) sound"
  unfolding syscall_readv_def syscall_writev_def process_readv_def process_writev_def
  by (intro post_rules fault_sound [OF assms] answer_call_sound emulate_readv_ok [OF assms] emulate_writev_ok [OF assms])+

lemmas calls_sound = syscall_exit_sound syscall_execve_sound file_calls_sound other_calls_sound simple_calls_sound store_calls_sound vector_calls_sound

lemma syscall_handler_sound:
  assumes "ok k"
  shows "post (syscall_handler cfg k) sound"
proof -
  have "post (c k) sound" if "(n, c) \<in> set (syscall_table cfg)" for n c
    using that assms by (auto simp: syscall_table_def syscall_stat64_def calls_sound)
  then show ?thesis unfolding syscall_handler_def
    by (intro post_rules) (auto simp: simple_calls_sound [OF assms] dest: map_of_SomeD)
qed

subsection \<open>Calls that go on\<close>

lemma run_blocked_ok:
  assumes "ok k" "current k = Some (me, x)" "\<And>e. needed_end (site b) = Some e \<Longrightarrow> has_end k me e" "run_blocked b k = Some (r, k')"
  shows "io_ok r k'"
proof (cases b)
  case (In_Pipe_Read i addr sz got)
  then show ?thesis using run_pipe_read_ok [OF assms(1,2)] assms(3,4) by (simp add: run_blocked_def needed_end_def)
next
  case (In_Pipe_Write i addr sz n)
  then show ?thesis using run_pipe_write_ok [OF assms(1,2)] assms(3,4) by (simp add: run_blocked_def needed_end_def)
next
  case (In_Tty_Read addr sz got echo)
  then obtain u out st t where o: "tty_read me sz got echo (k_states k) ((k_tty k)\<lparr>t_uart := u\<rparr>) = Some (out, st, t)" "end_tty_read addr sz k (out, st, t) = Some (r, k')"
    using assms(4) currentD [OF assms(2)] by (auto simp: run_blocked_def tty_read_again_def bind_Some)
  from tty_read_moves [OF o(1)] show ?thesis by (intro end_tty_read_ok [OF assms(1,2) _ o(2)]) (simp add: tty_moved_uart)
next
  case (In_Tty_Write addr sz i)
  then obtain u out where o: "tty_write me (drop i (peek_bytes addr sz k)) (k_states k) ((k_tty k)\<lparr>t_uart := u\<rparr>) = Some out" "end_tty_write addr sz k out = Some (r, k')"
    using assms(4) currentD [OF assms(2)] by (auto simp: run_blocked_def tty_write_again_def bind_Some)
  then show ?thesis by (rule end_tty_write_ok [OF assms(1,2)])
next
  case (In_Wait status)
  then show ?thesis using run_wait_ok [OF assms(1)] assms(4) by (simp add: run_blocked_def)
qed

lemma run_after_ok:
  assumes "io_ok r k"
  shows "post (run_after a r k) (\<lambda>(c, k'). call_ok c k')"
proof (cases a)
  case To_Caller
  then show ?thesis using call_of_ok [OF assms] by (simp add: run_after_def)
next
  case (To_Readv fd iov m i got)
  show ?thesis unfolding run_after_def To_Readv after.case
    by (intro post_rules post_io) (use assms emulate_readv_ok in auto)
next
  case (To_Writev fd iov m i sent)
  show ?thesis unfolding run_after_def To_Writev after.case
    by (intro post_rules post_io) (use assms emulate_writev_ok in auto)
qed

lemma resume_call_sound:
  assumes "ok k" "current k = Some (me, x)" "\<And>e. needed_end (site b) = Some e \<Longrightarrow> has_end k me e"
  shows "post (resume_call b a k) sound"
  unfolding resume_call_def
proof (intro post_rules)
  fix u r k1 v c k2 assume "run_blocked b k = Some u" "u = (r, k1)" and r: "run_after a r k1 = Some v" "v = (c, k2)"
  then have "io_ok r k1" using run_blocked_ok [OF assms] by simp
  from run_after_ok [OF this, of a] r have "call_ok c k2" by (simp add: post_def)
  then show "post (finish_call c k2) sound" by (rule finish_call_sound)
qed

subsection \<open>The scheduler\<close>

lemma kinv_current:
  assumes "kinv d k" "settled k" "k' = k\<lparr>k_run := q, k_current := c\<rparr>" "distinct q"
    "\<And>r. r \<in> set q \<Longrightarrow> k_procs k r \<noteq> None \<and> k_states k r = STATE_READY \<and> c \<noteq> Some r" "\<And>p. c = Some p \<Longrightarrow> k_procs k p \<noteq> None"
  shows "kinv d k'" "settled k'"
proof -
  note i = kinvD [OF assms(1)]
  have p: "k_procs k' = k_procs k" "k_all k' = k_all k" "k_pipes k' = k_pipes k" "k_next_pipe k' = k_next_pipe k" "k_max_id k' = k_max_id k"
    "k_states k' = k_states k" "k_next_file k' = k_next_file k" "k_files k' = k_files k"
    by (simp_all add: assms(3))
  note pr = same_procs(1-4) [OF p(1)] same_procs(5) [OF p(1,2)]
  note e = same_files(1,2) [OF p(8)] same_files(3) [OF p(8,7)]
  have Q: "queue k' = queue k" by (simp add: fun_eq_iff queue_def assms(3) split: queue_name.splits)
  show "kinv d k'"
  proof (rule kinvI)
    show "file_inv d k'" using i(1) unfolding file_inv_def pr e p .
    show "ends_inv k'" using i(2) ends_inv_cong [OF e(2,3) p(3,4)] by simp
    show "table_inv k'" using i(3) assms(2) unfolding table_inv_def settled_def pr p by blast
    show "family_inv k'" using i(4) unfolding family_inv_def pr p .
    show "run_inv k'" using assms(4-6) unfolding run_inv_def p by (simp add: assms(3))
    show "queue_inv (queue k') (k_states k')" using i(6) Q p by simp
    show "sleep_inv k'" using i(7) unfolding sleep_inv_def pr Q same_procs(6) [OF p(1) e(2)] .
  qed
  show "settled k'" using assms(2) unfolding settled_def pr p .
qed

lemma schedule_run: "fold (\<lambda>p q. if P p then p # q else q) xs q = rev (filter P xs) @ q"
  by (induction xs arbitrary: q) simp_all

text \<open>The process that is taken from the run queue, refilled when it was empty.\<close>

lemma dequeue_sound:
  assumes "sound k" "process_dequeue (if k_run k = [] then process_schedule k else k) = (found, k')"
  shows "sound k'" "found \<Longrightarrow> \<exists>p x. current k' = Some (p, x) \<and> k_states k' p = STATE_READY" "\<not> found \<Longrightarrow> k_current k' = None"
proof -
  have i: "kinv (\<lambda>_. 0) k" "settled k" using assms(1) by (simp_all add: sound_def)
  define run where "run = (if k_run k = [] then rev (filter (\<lambda>p. k_states k p = STATE_READY) (k_all k)) else k_run k)"
  have t: "distinct (k_all k)" "set (k_all k) = dom (k_procs k)" "distinct (k_run k)" "\<And>r. r \<in> set (k_run k) \<Longrightarrow> k_procs k r \<noteq> None \<and> k_states k r = STATE_READY"
    using kinvD(3,5) [OF i(1)] unfolding table_inv_def run_inv_def by blast+
  then have run: "distinct run" "\<And>r. r \<in> set run \<Longrightarrow> k_procs k r \<noteq> None \<and> k_states k r = STATE_READY"
    by (auto simp: run_def split: if_splits)
  have s: "(if k_run k = [] then process_schedule k else k) = k\<lparr>k_run := run\<rparr>" by (simp add: process_schedule_def run_def schedule_run)
  have "sound k' \<and> (found \<longrightarrow> (\<exists>p x. current k' = Some (p, x) \<and> k_states k' p = STATE_READY)) \<and> (\<not> found \<longrightarrow> k_current k' = None)"
  proof (cases run)
    case Nil
    then have "k' = k\<lparr>k_run := [], k_current := None\<rparr>" "\<not> found" using assms(2) unfolding s by (auto simp: process_dequeue_def)
    then show ?thesis using kinv_current [OF i, where q = "[]" and c = None] by (simp add: sound_def)
  next
    case (Cons p q)
    then have "k' = k\<lparr>k_run := q, k_current := Some p\<rparr>" "found" using assms(2) unfolding s by (auto simp: process_dequeue_def)
    moreover have "p \<notin> set q" "distinct q" using run(1) Cons by auto
    ultimately show ?thesis using kinv_current [OF i, where q = q and c = "Some p"] run(2) Cons by (fastforce simp: sound_def current_def)
  qed
  then show "sound k'" "found \<Longrightarrow> \<exists>p x. current k' = Some (p, x) \<and> k_states k' p = STATE_READY" "\<not> found \<Longrightarrow> k_current k' = None" by blast+
qed

lemma unsuspend_ok:
  assumes "sound k" "current k = Some (p, x)" "k_states k p = STATE_READY"
  shows "ok (set_proc p (x\<lparr>pr_suspend := None\<rparr>) k)" "pr_suspend x = None \<Longrightarrow> ok k"
proof -
  note i = kinvD [OF assms(1) [unfolded sound_def, THEN conjunct1]]
  have x: "k_procs k p = Some x" "k_current k = Some p" using currentD [OF assms(2)] by simp_all
  let ?k = "set_proc p (x\<lparr>pr_suspend := None\<rparr>) k"
  have s: "suspended_in ?k = (suspended_in k)(p := None)" by (simp add: procs_obs(2) [of ?k k])
  have q: "queue ?k = queue k" by (simp add: fun_eq_iff queue_def split: queue_name.splits)
  have sb: "same_but_queues k ?k"
    using x by (auto simp: same_but_queues_def files_of_def parent_of_def children_of_def cnt_def end_of_def fun_eq_iff intro: option.rel_refl)
  have notin: "p \<notin> set (queue k r)" for r using queue_invD(3) [OF i(6), of p] assms(3) by auto
  have "kinv (\<lambda>_. 0) ?k"
  proof (rule kinv_queues [OF _ sb])
    show "kinv (\<lambda>_. 0) k" using assms(1) by (simp add: sound_def)
    show "queue_inv (queue ?k) (k_states ?k)" using i(6) by (simp add: q)
    fix r a assume "a \<in> set (queue ?k r)"
    then show "\<exists>b. suspended_in ?k a = Some b \<and> site b = r" using sleep_invD(1) [OF i(7)] notin by (auto simp: q s)
  next
    fix r b e assume "suspended_in ?k r = Some b" "needed_end (site b) = Some e"
    then show "has_end k r e" using sleep_invD(2) [OF i(7)] by (simp add: s split: if_splits)
  next
    fix r assume "r \<in> set (k_run k)"
    then show "k_states ?k r = STATE_READY" using i(5) by (simp add: run_inv_def)
  next
    fix r assume "k_states ?k r = STATE_DEAD"
    then show "k_states k r = STATE_DEAD \<and> suspended_in ?k r = None" using i(3) by (simp add: s table_inv_def)
  qed
  then show "ok ?k" using x assms(3) s by (simp add: ok_def awake_def)
  show "ok k" if "pr_suspend x = None" using that assms x by (simp add: ok_def awake_def sound_def suspended_in_def)
qed

text \<open>Where the kernel goes, and what holds there.\<close>

fun arrives :: "destination \<times> kernel \<Rightarrow> bool" where
  "arrives (To_User, k) = ok k"
| "arrives (To_Idle, k) = (sound k \<and> k_current k = None)"
| "arrives (To_Switch, k) = sound k"

lemma core_set_proc_cong: "core k' = core k \<Longrightarrow> core (set_proc p x k') = core (set_proc p x k)"
  by (auto simp: core_def fun_eq_iff)

lemma process_dispatch_arrives:
  assumes "sound k" "current k = Some (p, x)" "k_states k p = STATE_READY"
  shows "post (process_dispatch k) arrives"
proof -
  have d: "post (case pr_suspend x of
      Some (b, a) \<Rightarrow> Option.bind (resume_call b a (set_proc p (x\<lparr>pr_suspend := None\<rparr>) k1)) (\<lambda>k. Some (To_Switch, k))
    | None \<Rightarrow> Option.bind (deliver_signal p x k1) (\<lambda>(dead, k). case dead of None \<Rightarrow> Some (To_User, k)
       | Some sig \<Rightarrow> Option.bind (process_exit (WAIT_SIGNAL (word_of_int sig)) k) (\<lambda>k. Some (To_Switch, k)))) arrives"
    if t: "switch_ttb p k = Some (u, k1)" for u k1
  proof (cases "pr_suspend x")
    case None
    have ok1: "ok k1" by (rule ok_core [OF core_switch_ttb [OF t] unsuspend_ok(2) [OF assms None]])
    have ok2: "ok k2" if "deliver_signal p x k1 = Some (r, k2)" for r k2 by (rule ok_core [OF core_deliver_signal [OF that] ok1])
    show ?thesis unfolding None option.case by (intro post_rules) (auto simp: sound_def dest!: ok2 intro: process_exit_ok)
  next
    case (Some ba)
    obtain b a where ba: "ba = (b, a)" by (cases ba)
    let ?k = "set_proc p (x\<lparr>pr_suspend := None\<rparr>)"
    have c: "core (?k k1) = core (?k k)" by (rule core_set_proc_cong [OF core_switch_ttb [OF t]])
    have ok1: "ok (?k k1)" by (rule ok_core [OF c unsuspend_ok(1) [OF assms]])
    have cur: "current (?k k1) = Some (p, x\<lparr>pr_suspend := None\<rparr>)"
      using coreD(1) [OF core_switch_ttb [OF t]] currentD [OF assms(2)] by (simp add: current_def)
    have "has_end (?k k1) p e" if "needed_end (site b) = Some e" for e
    proof -
      have "suspended_in k p = Some b" using Some ba currentD [OF assms(2)] by (simp add: suspended_in_def)
      moreover have "sleep_inv k" using assms(1) kinvD(7) by (auto simp: sound_def)
      ultimately have "has_end k p e" using sleep_invD(2) that by blast
      moreover have "files_of (?k k1) p = files_of k p" "end_of (?k k1) = end_of k"
        using currentD [OF assms(2)] coreD(15) [OF core_switch_ttb [OF t]] by (simp_all add: files_of_def end_of_def fun_eq_iff)
      ultimately show ?thesis by (simp add: has_end_def)
    qed
    from resume_call_sound [OF ok1 cur this, where a = a] show ?thesis
      unfolding Some ba option.case prod.case by (auto simp: post_def bind_Some)
  qed
  show ?thesis unfolding process_dispatch_def using assms(2) d by (intro post_rules) auto
qed

lemma switch_once_arrives:
  assumes "sound k"
  shows "post (switch_once k) arrives"
proof -
  obtain found k1 where d: "process_dequeue (if k_run k = [] then process_schedule k else k) = (found, k1)" by (metis prod.exhaust)
  note s = dequeue_sound [OF assms d]
  show ?thesis
  proof (cases found)
    case True
    then obtain p x where "current k1 = Some (p, x)" "k_states k1 p = STATE_READY" using s(2) by blast
    from process_dispatch_arrives [OF s(1) this] show ?thesis unfolding switch_once_def Let_def d prod.case using True by simp
  next
    case False
    then show ?thesis unfolding switch_once_def Let_def d prod.case using s(1,3) by simp
  qed
qed

subsection \<open>The machine\<close>

lemma core_enter [simp]: "core (enter c mem k) = core k"
  by (simp add: enter_def process_set_context_def user_runs_def core_upd_proc split: option.split)

lemma tty_resume_dead: "tty_resume st t = (st', t') \<Longrightarrow> st' p = STATE_DEAD \<Longrightarrow> st p = STATE_DEAD"
  by (auto simp: tty_resume_def process_wake_def Let_def split: if_splits list.splits prod.splits)

lemma system_irq_handler_sound:
  assumes "sound k"
  shows "sound (system_irq_handler irq k)"
proof -
  obtain st t where r: "tty_resume (k_states k) (k_tty k) = (st, t)" by (cases "tty_resume (k_states k) (k_tty k)")
  have "kinv (\<lambda>_. 0) (put_tty (st, t) k)" using kinv_tty_resume(1) [of "\<lambda>_. 0" k] assms r by (simp add: sound_def)
  moreover have "settled (put_tty (st, t) k)"
    using assms tty_resume_dead [OF r] same_procs(1) [OF put_tty_obs(2)] by (auto simp: sound_def settled_def put_tty_obs)
  ultimately show ?thesis using assms r by (simp add: system_irq_handler_def sound_def put_tty_def)
qed

lemma system_data_abort_handler_sound:
  assumes "ok k"
  shows "post (system_data_abort_handler dfsr dfar k) sound"
proof -
  have d: "ok h" if "(if DFSR_FS dfsr = 0x05 \<or> DFSR_FS dfsr = 0x07 then process_demand_page dfar k else Some (False, k)) = Some (b, h)" for b h
    using that assms by (auto split: if_splits dest!: core_process_demand_page intro: ok_core)
  show ?thesis unfolding system_data_abort_handler_def
    by (intro post_rules) (auto dest!: d core_process_kill intro: ok_sound ok_core)
qed

lemma kstep_arrives:
  assumes "kstep cfg s s'" "arrives s"
  shows "arrives s'"
  using assms
proof (cases rule: kstep.cases)
  case (svc k c mem k')
  have "ok (enter c mem k)" using assms(2) svc(1) ok_core [OF core_enter] by simp
  from syscall_handler_sound [OF this, of cfg] show ?thesis using svc by (simp add: system_svc_handler_def post_def)
next
  case (abort k c dfsr dfar mem k')
  have "ok (enter c mem k)" using assms(2) abort(1) ok_core [OF core_enter] by simp
  from system_data_abort_handler_sound [OF this, of dfsr dfar] show ?thesis using abort by (simp add: post_def)
next
  case (irq k c irq mem)
  have "ok (enter c mem k)" using assms(2) irq(1) ok_core [OF core_enter] by simp
  then show ?thesis using irq system_irq_handler_sound [OF ok_sound] by simp
next
  case (wake k irq)
  then show ?thesis using assms(2) system_irq_handler_sound by simp
next
  case (switch k n k')
  then show ?thesis using assms(2) switch_once_arrives [of k] by (simp add: post_def)
next
  case (device n k u)
  let ?k = "k\<lparr>k_tty := (k_tty k)\<lparr>t_uart := u\<rparr>\<rparr>"
  have c: "core ?k = core k" by simp
  have "sound k \<Longrightarrow> sound ?k" using kinv_core(1) [OF c] coreD(5,10) [OF c] by (simp add: sound_def settled_def)
  then show ?thesis using device assms(2) ok_core [OF c] coreD(1) [OF c] by (cases n) simp_all
qed

subsection \<open>The start\<close>

lemma process_init_kinv: "kinv (\<lambda>_. 0) (process_init v m (tty_init u) mem stale)" (is "kinv _ ?k")
proof (rule kinvI)
  have e: "end_of ?k f = None" "cnt ?k f = 0" "files_of ?k p = []" "suspended_in ?k p = None" "parent_of ?k p = None" "children_of ?k p = []" "refs ?k f = 0" for f p
    by (simp_all add: process_init_def end_of_def cnt_def files_of_def suspended_in_def parent_of_def children_of_def refs_def)
  have q: "queue ?k q = []" for q by (simp add: process_init_def queue_def tty_init_def process_waitq_init_def split: queue_name.split)
  show "file_inv (\<lambda>_. 0) ?k" by (simp add: file_inv_def e) (simp add: process_init_def)
  show "ends_inv ?k" by (simp add: ends_inv_def e opens_def opens_at_def) (simp add: process_init_def)
  show "table_inv ?k" by (simp add: table_inv_def e) (simp add: process_init_def)
  show "family_inv ?k" by (simp add: family_inv_def e)
  show "run_inv ?k" by (simp add: run_inv_def process_init_def)
  show "queue_inv (queue ?k) (k_states ?k)" by (simp add: queue_inv_def q) (simp add: process_init_def)
  show "sleep_inv ?k" by (simp add: sleep_inv_def q e)
qed

lemma kinv_fill_slot:
  assumes "kinv ((\<lambda>_. 0)(f := 1)) k" "k_procs k p = Some x" "i < MAX_FD_SIZE" "k_states k p = STATE_READY" "pr_files x ! i = None"
  shows "kinv (\<lambda>_. 0) (set_slot p i (Some f) k)"
proof -
  have s: "files_of k p ! i = None" using assms(2,5) by (simp add: files_of_def)
  have "kinv (\<lambda>g. ((\<lambda>_. 0)(f := 1)) g + of_bool (files_of k p ! i = Some g) - of_bool (Some f = Some g)) (set_slot p i (Some f) k)"
    by (rule kinv_set_slot [OF assms(1)]) (use assms(2-4) s in simp_all)
  moreover have "(\<lambda>g. ((\<lambda>_. 0 :: int)(f := 1)) g + of_bool (files_of k p ! i = Some g) - of_bool (Some f = Some g)) = (\<lambda>_. 0)" using s by (simp add: fun_eq_iff)
  ultimately show ?thesis by simp
qed

lemma kinv_share_slot:
  assumes "kinv (\<lambda>_. 0) k" "countup_file f k = Some k'" "k_procs k p = Some x" "i < MAX_FD_SIZE" "k_states k p = STATE_READY" "pr_files x ! i = None"
  shows "kinv (\<lambda>_. 0) (set_slot p i (Some f) k')" "k_procs k' = k_procs k" "k_states k' p = STATE_READY" "k_current k' = k_current k"
proof -
  note c = kinv_countup [OF assms(1,2)]
  show p: "k_procs k' = k_procs k" "k_states k' p = STATE_READY" "k_current k' = k_current k" using frame_procs [OF c(2)] assms(5) by simp_all
  have "(\<lambda>_. 0 :: int)(f := 0 + 1) = (\<lambda>_. 0)(f := 1)" by simp
  then show "kinv (\<lambda>_. 0) (set_slot p i (Some f) k')" using kinv_fill_slot [of f k' p x i] c(1) p assms(3-6) by simp
qed

lemma open_terminal_kinv:
  assumes "kinv (\<lambda>_. 0) k" "k_procs k p = Some x" "k_states k p = STATE_READY" "pr_files x = replicate MAX_FD_SIZE None" "open_terminal p k = Some k'"
  shows "kinv (\<lambda>_. 0) k'" "k_current k' = k_current k"
proof -
  let ?f = "k_next_file k"
  have "first_free (pr_files x) 0 = Some 0" by (subst first_free.simps) (simp add: assms(4) MAX_FD_SIZE_def)
  then have al: "alloc_file p k = Some (0, set_slot p 0 (Some ?f) (set_file ?f zero_file (k\<lparr>k_next_file := ?f + 1\<rparr>)))"
    using assms(2) by (simp add: alloc_file_def Let_def)
  let ?tty = "zero_file\<lparr>f_type := FF_TTY, f_flags := O_RDWR\<rparr>"
  let ?k1 = "set_file ?f ?tty (set_slot p 0 (Some ?f) (set_file ?f zero_file (k\<lparr>k_next_file := ?f + 1\<rparr>)))"
  let ?x1 = "x\<lparr>pr_files := (pr_files x)[0 := Some ?f]\<rparr>"
  have m: "0 < MAX_FD_SIZE" "1 < MAX_FD_SIZE" "2 < MAX_FD_SIZE" by (simp_all add: MAX_FD_SIZE_def)
  have cr: "create_tty p k = Some (0, ?k1)" using assms(2,4) m(1) by (simp add: create_tty_def al set_slot_def)
  have "kinv ((\<lambda>_. 0)(?f := 1)) (set_file ?f zero_file (k\<lparr>k_next_file := ?f + 1\<rparr>))"
    using kinv_new_file(1) [OF assms(1) refl, of zero_file] by (simp add: zero_file_def)
  from kinv_fill_slot [OF this, of p x 0]
  have "kinv (\<lambda>_. 0) (set_slot p 0 (Some ?f) (set_file ?f zero_file (k\<lparr>k_next_file := ?f + 1\<rparr>)))" using assms(2-4) m by simp
  moreover have "core ?k1 = core (set_slot p 0 (Some ?f) (set_file ?f zero_file (k\<lparr>k_next_file := ?f + 1\<rparr>)))"
    by (rule core_cong_file [where x = zero_file]) (simp_all add: zero_file_def)
  ultimately have k1: "kinv (\<lambda>_. 0) ?k1" using kinv_core(1) by blast
  have p1: "k_procs ?k1 p = Some ?x1" using assms(2) by (simp add: set_slot_def)
  obtain k2 k3 where k2: "countup_file ?f ?k1 = Some k2" "countup_file ?f (set_slot p 1 (Some ?f) k2) = Some k3" "k' = set_slot p 2 (Some ?f) k3"
    using assms(5) p1 cr m(1) assms(4) by (auto simp: open_terminal_def bind_Some)
  have r1: "k_states ?k1 p = STATE_READY" "pr_files ?x1 ! 1 = None" using assms(3,4) m by simp_all
  note s1 = kinv_share_slot [OF k1 k2(1) p1 m(2) r1]
  let ?x2 = "?x1\<lparr>pr_files := (pr_files ?x1)[1 := Some ?f]\<rparr>"
  have p2: "k_procs (set_slot p 1 (Some ?f) k2) p = Some ?x2" using s1(2) assms(2) by (simp add: set_slot_def)
  have r2: "k_states (set_slot p 1 (Some ?f) k2) p = STATE_READY" "pr_files ?x2 ! 2 = None" using s1(3) assms(4) m by simp_all
  note s2 = kinv_share_slot [OF s1(1) k2(2) p2 m(3) r2]
  show "kinv (\<lambda>_. 0) k'" unfolding k2(3) by (rule s2(1))
  show "k_current k' = k_current k" using s1(4) s2(4) by (simp add: k2(3))
qed

lemma process_create_sound:
  assumes "kinv (\<lambda>_. 0) k" "k_current k = None" "process_create path k = Some (r, k')" "k_max_id k = 1"
  shows "sound k'"
proof -
  have fin: "sound h" if "kinv (\<lambda>_. 0) h" "k_current h = None" for h using that settledI [OF that(1)] by (simp add: sound_def)
  obtain av k1 where k1: "prepare_argv_and_envp [path] [] k = Some (av, k1)" using assms(3) by (auto simp: process_create_def bind_Some)
  note c1 = core_prepare_argv_and_envp [OF k1]
  have i1: "kinv (\<lambda>_. 0) k1" "k_current k1 = None" using assms(1,2) kinv_core(1) [OF c1] coreD(1) [OF c1] by simp_all
  show ?thesis
  proof (cases av)
    case (Inl e)
    then show ?thesis using assms(3) k1 fin [OF i1] by (simp add: process_create_def)
  next
    case (Inr w)
    obtain e ex k2 where k2: "load_executable path k1 = Some (e, ex, k2)" using assms(3) k1 Inr by (auto simp: process_create_def bind_Some)
    note c2 = core_load_executable [OF k2]
    have i2: "kinv (\<lambda>_. 0) k2" "k_current k2 = None" using i1 kinv_core(1) [OF c2] coreD(1) [OF c2] by simp_all
    show ?thesis
    proof (cases "e < 0")
      case True
      then obtain k3 where k3: "release_argv_and_envp w k2 = Some k3" "k' = k3" using assms(3) k1 Inr k2 by (auto simp: process_create_def bind_Some)
      note c3 = core_release_argv_and_envp [OF k3(1)]
      show ?thesis unfolding k3(2) by (rule fin) (use i2 kinv_core(1) [OF c3] coreD(1) [OF c3] in simp_all)
    next
      case False
      obtain p k3 where k3: "process_alloc k2 = Some (p, k3)" using assms(3) k1 Inr k2 False by (auto simp: process_create_def bind_Some)
      obtain m a where p: "p = k_max_id k2" "k3 = (enrol p (zero_process a) k2)\<lparr>k_mmu := m\<rparr>" "p < 0x7fffffff" using process_alloc_enrol [OF k3] by blast
      let ?k = "set_segments p ex (upd_proc p (\<lambda>x. x\<lparr>pr_parent := p\<rparr>) k3)"
      let ?x = "(zero_process a)\<lparr>pr_parent := p\<rparr>"
      have "core ?k = core (enrol p ?x k2)" by (simp add: p(2)) (simp add: core_def fun_eq_iff zero_process_def)
      moreover obtain old k4 k5 where "switch_ttb p ?k = Some (old, k4)" and k5: "start_program p ex w k4 = Some k5"
        and k6: "\<exists>k6 u. open_terminal p k5 = Some k6 \<and> switch_ttb old k6 = Some (u, k')"
        using assms(3) k1 Inr k2 False k3 by (auto simp: process_create_def bind_Some Let_def)
      ultimately have c5: "core k5 = core (enrol p ?x k2)" by (auto dest!: cores)
      have z: "count_list (pr_files ?x) (Some f) = 0" for f by (simp add: zero_process_def)
      have "kinv (\<lambda>f. 0 - int (count_list (pr_files ?x) (Some f))) (enrol p ?x k2)"
        by (rule kinv_enrol [OF i2(1) p(1)]) (use p(1,3) assms(4) coreD(4) [OF c1] coreD(4) [OF c2] in \<open>simp_all add: zero_process_def\<close>)
      then have i5: "kinv (\<lambda>_. 0) k5" "k_current k5 = None" "k_states k5 p = STATE_READY"
        using kinv_core(1) [OF c5] coreD(1,5) [OF c5] i2(2) unfolding z by simp_all
      obtain y where y: "k_procs k5 p = Some y" "pr_files y = replicate MAX_FD_SIZE None"
        using coreD(18) [OF c5, of p ?x] by (auto simp: zero_process_def)
      obtain k6 u where k6: "open_terminal p k5 = Some k6" "switch_ttb old k6 = Some (u, k')" using k6 by blast
      note c6 = core_switch_ttb [OF k6(2)]
      show ?thesis by (rule fin) (use open_terminal_kinv [OF i5(1) y(1) i5(3) y(2) k6(1)] i5(2) kinv_core(1) [OF c6] coreD(1) [OF c6] in simp_all)
    qed
  qed
qed

lemma reachable_arrives: "reachable cfg s \<Longrightarrow> arrives s"
proof (induction rule: reachable.induct)
  case (start disk0 page memory tables u mem stale k k')
  obtain v m where k: "k = process_init v m (tty_init u) mem stale" using start(1) by (auto simp: system_init_def bind_Some)
  obtain r where "process_create sbin_init k = Some (r, k')" using start(2) by (auto simp: run_init_def bind_Some split: if_splits)
  then show ?case using process_create_sound [of k sbin_init r k'] process_init_kinv by (simp add: k process_init_def)
next
  case (step s s')
  then show ?case using kstep_arrives by blast
qed

end
