(* ===== verification/Cy_Kernel_Run.thy ===== *)
theory Cy_Kernel_Run
  imports Cy_Kernel_Correct Cy_Fs_Correct
begin

text \<open>
  What holds in every state the machine comes to after the first process has been created: the
  properties of files, pipes, wait queues and processes that the invariant of \<^theory_text>\<open>Cy_Kernel_Inv\<close> gives, with
  a run of the machine as an example.
\<close>

subsection \<open>An address space\<close>

lemma fill_pages_room: "room (m_buddy s) (k + n) \<Longrightarrow> \<exists>m' s'. fill_pages pl2 ap j n m s = Some (m', s') \<and> room (m_buddy s') k"
proof (induction n arbitrary: j m s)
  case (Suc n)
  then obtain a m1 s1 where "mmu_create_page m s = Some (a, m1, s1)" "room (m_buddy s1) (k + n)"
    using mmu_create_page_returns [of s "k + n" m] by auto
  then show ?case using Suc.IH by (simp add: set_word_def)
qed simp

lemma mmu_first_mapping:
  "\<exists>m s. mmu_mapping_fetch p \<lparr>m_buddy = buddy_init, m_tables = t, m_mappings = [], m_ttb = 0, m_current = 0\<rparr> = Some (m, s) \<and>
     room (m_buddy s) 1000 \<and> mmu_inv s \<and> find_mapping p s = Some m"
proof -
  let ?s = "\<lparr>m_buddy = buddy_init, m_tables = t, m_mappings = [], m_ttb = 0, m_current = 0\<rparr>"
  have "(0, PAGE_MAX_ORDER) \<in> free_blocks buddy_init" by (simp add: buddy_init_free PAGE_NUM_def)
  moreover have "L1_SIZE \<le> 2 ^ PAGE_MAX_ORDER * PAGE_SIZE" by (simp add: PAGE_SIZE_def PAGE_MAX_ORDER_def L1_SIZE_def L1_ENTRY_NUM_def)
  ultimately obtain f b where b: "buddy_alloc buddy_init L1_SIZE = Some (f, b)" "buddy_inv b" "used_blocks b = insert (f, fit_order L1_SIZE) (used_blocks buddy_init)"
    by (rule buddy_alloc_Some [OF buddy_init_inv])
  then have r: "room b (1000 + 148)" by (simp add: room_def buddy_init_used fit_orders block_pages_def PAGE_NUM_def)
  let ?s1 = "?s\<lparr>m_buddy := b, m_tables := clear_table (page_address b f) L1_SIZE t\<rparr>"
  let ?m = "\<lparr>mp_pid = p, mp_pages = [f], mp_address = page_address b f\<rparr>"
  obtain m s2 where k: "mmu_create_kernel_mappings ?m ?s1 = Some (m, s2)" "room (m_buddy s2) 1000"
    using mmu_create_kernel_mappings_returns [of ?s1 1000 ?m] r by auto
  have f: "mmu_mapping_fetch p ?s = Some (m, s2\<lparr>m_mappings := m # m_mappings s2\<rparr>)"
    using b(1) k(1) by (simp add: mmu_mapping_fetch_def find_mapping_def mmu_create_pl1_def Let_def add_page_def)
  note i = mmu_mapping_fetch_inv [OF mmu_start_inv [OF buddy_init_inv] f]
  show ?thesis using f k(2) i(1,2) by auto
qed

lemma mmu_user_example:
  "\<exists>s. find_mapping 1 s \<noteq> None \<and> room (m_buddy s) 900 \<and> (\<forall>va. 0x10000 \<le> va \<longrightarrow> va < 0x11000 \<longrightarrow> user_access s 1 va \<noteq> None)"
proof -
  obtain m s where s: "room (m_buddy s) 1000" "mmu_inv s" "find_mapping 1 s = Some m" using mmu_first_mapping [of 1] by blast
  have i: "GET_L2_INDEX 0x10000 = 0x10" "GET_PAGE_SIZE 0x1000 = 1" "GET_L1_INDEX 0x10000 = 0"
    by (simp_all add: GET_L2_INDEX_def GET_PAGE_SIZE_def PAGE_SIZE_def GET_L1_INDEX_def)
  have "room (m_buddy s) (999 + 1)" using s(1) by simp
  then obtain pl2 m1 s1 where c: "mmu_create_and_fill_pl2 m (GET_L1_INDEX 0x10000) s = Some (pl2, m1, s1)" "room (m_buddy s1) 999"
    using mmu_create_and_fill_pl2_returns [of s 999] by blast
  obtain m2 s2 where f: "fill_pages pl2 AP_FULL_ACCESS 0x10 1 m1 s1 = Some (m2, s2)" "room (m_buddy s2) 900"
    using fill_pages_room [OF room_le [OF c(2), of "900 + 1"], of pl2 AP_FULL_ACCESS "0x10" m1] by auto
  let ?s = "put_mapping m2 s2"
  have a: "mmu_alloc 1 0x10000 0x1000 s = Some (0, ?s)"
    using s(3) c(1) f by (simp add: mmu_alloc_def mmu_mapping_fetch_def mmu_create_mapping_def Let_def i L2_ENTRY_NUM_def)
  note al = mmu_alloc_inv [OF s(2) a]
  have "user_access ?s 1 va \<noteq> None" if va: "0x10000 \<le> va" "va < 0x11000" for va
  proof -
    have d: "drop_bit 12 va = 0x10" using va by (simp add: word_unat_eq_iff unat_drop_bit_eq drop_bit_eq_div unat_div word_le_nat_alt word_less_nat_alt)
    have "drop_bit 20 va = drop_bit 8 (drop_bit 12 va)" by simp
    then have "GET_L1_INDEX va = 0" unfolding d by (simp add: GET_L1_INDEX_def)
    moreover have "GET_L2_INDEX va = drop_bit 12 va AND 0xff"
      by (rule bit_word_eqI) (auto simp: GET_L2_INDEX_def bit_simps)
    ultimately have "GET_L1_INDEX va = 0" "GET_L2_INDEX va = 0x10" unfolding d by simp_all
    moreover obtain g where "user_page ?s 1 (0, 0x10) = Some g" using al(5) [of 0 "0x10"] by (auto simp: i L2_ENTRY_NUM_def)
    ultimately show ?thesis using user_access_page [OF al(1)] by simp
  qed
  moreover have "find_mapping 1 ?s \<noteq> None" using al(5) [of 0 "0x10"] by (auto simp: i L2_ENTRY_NUM_def user_page_def bind_Some)
  ultimately show ?thesis using f(2) by (auto simp: put_mapping_def)
qed

subsection \<open>The state the machine starts from\<close>

text \<open>There is one process, with the terminal as its descriptors 0, 1 and 2, and nothing is running.\<close>

definition booted :: "kernel \<Rightarrow> bool" where
  "booted k \<longleftrightarrow>
     k_current k = None \<and> k_all k = [1] \<and> k_run k = [] \<and> k_max_id k = 2 \<and> k_states k = (\<lambda>_. STATE_READY) \<and>
     (\<exists>x. k_procs k = [1 \<mapsto> x] \<and> pr_parent x = 1 \<and> pr_children x = [] \<and> pr_suspend x = None \<and>
          pr_files x = [Some 0, Some 0, Some 0] @ replicate (MAX_FD_SIZE - 3) None) \<and>
     (\<exists>f. k_files k = [0 \<mapsto> f] \<and> f_type f = FF_TTY \<and> f_count f = 3) \<and> k_next_file k = 1 \<and> k_pipes k = Map.empty \<and>
     k_child_waitq k = [] \<and> tty_read_waitq (k_tty k) = [] \<and> tty_write_waitq (k_tty k) = []"

lemma booted_sound:
  assumes "booted k"
  shows "sound k"
proof -
  obtain x f where b: "k_current k = None" "k_all k = [1]" "k_run k = []" "k_max_id k = 2" "k_states k = (\<lambda>_. STATE_READY)"
    "k_procs k = [1 \<mapsto> x]" "pr_parent x = 1" "pr_children x = []" "pr_suspend x = None" "pr_files x = [Some 0, Some 0, Some 0] @ replicate (MAX_FD_SIZE - 3) None"
    "k_files k = [0 \<mapsto> f]" "f_type f = FF_TTY" "f_count f = 3" "k_next_file k = 1" "k_pipes k = Map.empty"
    "k_child_waitq k = []" "tty_read_waitq (k_tty k) = []" "tty_write_waitq (k_tty k) = []"
    using assms unfolding booted_def by blast
  have q: "queue k r = []" for r using b by (simp add: queue_def split: queue_name.split)
  have e: "end_of k g = None" "cnt k g = (if g = 0 then 3 else 0)" "refs k g = (if g = 0 then 3 else 0)" for g
    using b by (simp_all add: end_of_def cnt_def refs_def files_of_def)
  have p: "suspended_in k r = None" "parent_of k r = (if r = 1 then Some 1 else None)" "children_of k r = []" for r
    using b by (simp_all add: suspended_in_def parent_of_def children_of_def)
  have "kinv (\<lambda>_. 0) k"
  proof (rule kinvI)
    show "file_inv (\<lambda>_. 0) k" using b(11,14) by (simp add: file_inv_def e)
    show "ends_inv k" using b(15) by (simp add: ends_inv_def e opens_def opens_at_def)
    show "table_inv k" using b(2,4,5,6,10) by (auto simp: table_inv_def p files_of_def MAX_FD_SIZE_def)
    show "family_inv k" using b(6) by (auto simp: family_inv_def p)
    show "run_inv k" using b(1,3) by (simp add: run_inv_def)
    show "queue_inv (queue k) (k_states k)" using b(5) by (simp add: queue_inv_def q)
    show "sleep_inv k" by (simp add: sleep_inv_def q p)
  qed
  then show ?thesis using b(5) by (simp add: sound_def settled_def)
qed

text \<open>This is the state that \<^verbatim>\<open>process_create\<close> leaves, called on the state of \<^verbatim>\<open>process_init\<close>.\<close>

lemma open_terminal_booted:
  assumes "k_procs k = [1 \<mapsto> x]" "pr_files x = replicate MAX_FD_SIZE None" "k_files k = Map.empty" "k_next_file k = 0" "open_terminal 1 k = Some k'"
  shows "\<exists>f y. k_files k' = [0 \<mapsto> f] \<and> f_type f = FF_TTY \<and> f_count f = 3 \<and> k_next_file k' = 1 \<and> k_procs k' = [1 \<mapsto> y] \<and>
    y = x\<lparr>pr_files := [Some 0, Some 0, Some 0] @ replicate (MAX_FD_SIZE - 3) None\<rparr> \<and>
    k' = k\<lparr>k_files := k_files k', k_next_file := 1, k_procs := [1 \<mapsto> y]\<rparr>"
proof -
  have "first_free (pr_files x) 0 = Some 0" by (subst first_free.simps) (simp add: assms(2) MAX_FD_SIZE_def)
  moreover have "replicate MAX_FD_SIZE (None :: nat option) = None # None # None # replicate (MAX_FD_SIZE - 3) None"
    by (simp add: MAX_FD_SIZE_def numeral_eq_Suc)
  ultimately show ?thesis using assms(5)
    by (cases k) (use assms(1-4) in \<open>auto simp: open_terminal_def create_tty_def alloc_file_def Let_def set_slot_def set_file_def upd_proc_def countup_file_def
      zero_file_def fun_eq_iff\<close>)
qed

lemma run_init_booted:
  assumes "system_init disk0 page memory tables u mem stale = Some k" "run_init k = Some k'"
  shows "booted k'"
proof -
  obtain v m where k: "k = process_init v m (tty_init u) mem stale" using assms(1) by (auto simp: system_init_def bind_Some)
  obtain r where r: "process_create sbin_init k = Some (r, k')" "\<not> r < 0" using assms(2) by (auto simp: run_init_def bind_Some split: if_splits)
  obtain av0 k1 where k0: "prepare_argv_and_envp [sbin_init] [] k = Some (av0, k1)" using r by (auto simp: process_create_def bind_Some)
  have "e < 0" if "av0 = Inl e" for e using k0 that by (auto simp: prepare_argv_and_envp_def Let_def bind_Some split: if_splits)
  moreover have "e = r" if "av0 = Inl e" for e using r k0 that by (simp add: process_create_def)
  ultimately obtain av where k1: "prepare_argv_and_envp [sbin_init] [] k = Some (Inr av, k1)" using r(2) k0 by (cases av0) auto
  obtain e ex k2 where k2: "load_executable sbin_init k1 = Some (e, ex, k2)" "\<not> e < 0"
    using r k1 by (auto simp: process_create_def bind_Some split: if_splits)
  have c2: "core k2 = core k" using core_load_executable [OF k2(1)] core_prepare_argv_and_envp [OF k1] by simp
  obtain p k3 where k3: "process_alloc k2 = Some (p, k3)" using r k1 k2 by (auto simp: process_create_def bind_Some)
  obtain m' a where p: "p = k_max_id k2" "k3 = (enrol p (zero_process a) k2)\<lparr>k_mmu := m'\<rparr>" using process_alloc_enrol [OF k3] by blast
  have p1: "p = 1" using p(1) coreD(4) [OF c2] by (simp add: k process_init_def)
  let ?k = "set_segments p ex (upd_proc p (\<lambda>x. x\<lparr>pr_parent := p\<rparr>) k3)"
  let ?x = "(zero_process a)\<lparr>pr_parent := p\<rparr>"
  have "core ?k = core (enrol p ?x k2)" by (simp add: p(2)) (simp add: core_def fun_eq_iff zero_process_def)
  moreover obtain old k4 k5 k6 w where "switch_ttb p ?k = Some (old, k4)" "start_program p ex av k4 = Some k5"
    and k6: "open_terminal p k5 = Some k6" "switch_ttb old k6 = Some (w, k')"
    using r k1 k2 k3 by (auto simp: process_create_def bind_Some Let_def)
  ultimately have c: "core k5 = core (enrol p ?x k2)" by (auto dest!: cores)
  note d = coreD [OF c]
  note d2 = coreD [OF c2]
  obtain y where y: "k_procs k5 p = Some y" "pr_parent y = 1" "pr_children y = []" "pr_suspend y = None" "pr_files y = replicate MAX_FD_SIZE None"
    using d(18) [of p ?x] by (auto simp: zero_process_def p1)
  have "k_procs k5 q = None" if "q \<noteq> 1" for q using d(16) [of q] d2(16) [of q] that by (simp add: p1 k process_init_def)
  then have pr: "k_procs k5 = [1 \<mapsto> y]" using y(1) by (auto simp: fun_eq_iff p1)
  have "k_files k5 f = None" for f using d(17) [of f] d2(17) [of f] by (simp add: k process_init_def)
  then have fs: "k_files k5 = Map.empty" "k_next_file k5 = 0" using d(6) d2(6) by (auto simp: k process_init_def)
  have q: "queue k5 = queue k" using d(9) d2(9) by (simp add: fun_eq_iff queue_def split: queue_name.splits)
  have q': "queue k5 qn = []" for qn unfolding q by (simp add: k process_init_def queue_def tty_init_def process_waitq_init_def split: queue_name.split)
  have o: "k_current k5 = None" "k_all k5 = [1]" "k_run k5 = []" "k_max_id k5 = 2" "k_states k5 = (\<lambda>_. STATE_READY)" "k_pipes k5 = Map.empty"
    using d(1-5,7) d2(1-5,7) by (auto simp: p1 k process_init_def)
  obtain m6 where k': "k' = k6\<lparr>k_mmu := m6\<rparr>" using k6(2) by (auto simp: switch_ttb_def bind_Some)
  from open_terminal_booted [OF pr y(5) fs k6(1) [unfolded p1]] obtain f z where b: "k_files k6 = [0 \<mapsto> f]" "f_type f = FF_TTY" "f_count f = 3"
    "z = y\<lparr>pr_files := [Some 0, Some 0, Some 0] @ replicate (MAX_FD_SIZE - 3) None\<rparr>" "k6 = k5\<lparr>k_files := k_files k6, k_next_file := 1, k_procs := [1 \<mapsto> z]\<rparr>"
    by blast
  have f: "k_current k6 = k_current k5" "k_all k6 = k_all k5" "k_run k6 = k_run k5" "k_max_id k6 = k_max_id k5" "k_states k6 = k_states k5"
    "k_pipes k6 = k_pipes k5" "k_child_waitq k6 = k_child_waitq k5" "k_tty k6 = k_tty k5" "k_next_file k6 = 1" "k_procs k6 = [1 \<mapsto> z]"
    by (subst b(5), simp)+
  show ?thesis using o b(1-4) f y(2-4) q' [of Children] q' [of Terminal_In] q' [of Terminal_Out] by (auto simp: booted_def k' queue_def)
qed

lemma reachable_runs:
  assumes "reachable cfg s"
  shows "\<exists>k. booted k \<and> (kstep cfg)\<^sup>*\<^sup>* (To_Switch, k) s"
  using assms by (induction rule: reachable.induct) (auto dest: run_init_booted intro: rtranclp.rtrancl_into_rtrancl)

lemma runs_arrives:
  assumes "booted k0" "(kstep cfg)\<^sup>*\<^sup>* (To_Switch, k0) s"
  shows "arrives s"
  using assms(2) by (induction rule: rtranclp_induct) (use booted_sound [OF assms(1)] kstep_arrives in auto)

lemma arrives_sound: "arrives (n, k) \<Longrightarrow> sound k"
  by (cases n) (auto dest: ok_sound)

lemma runs_inv:
  assumes "booted k0" "(kstep cfg)\<^sup>*\<^sup>* (To_Switch, k0) (n, k)"
  shows "file_inv (\<lambda>_. 0) k" "ends_inv k" "table_inv k" "family_inv k" "run_inv k" "queue_inv (queue k) (k_states k)" "sleep_inv k" "settled k"
  using arrives_sound [OF runs_arrives [OF assms]] kinvD [of "\<lambda>_. 0" k] by (simp_all add: sound_def)

subsection \<open>A run of the machine\<close>

text \<open>
  The first process makes a pipe at address \<open>0x10000\<close> and reads from it.  It has a page of memory there.
\<close>

definition first_process :: process where
  "first_process = (zero_process 0)\<lparr>pr_parent := 1, pr_context := zero_context\<lparr>c_cpsr := 0x10\<rparr>, pr_files := [Some 0, Some 0, Some 0] @ replicate (MAX_FD_SIZE - 3) None\<rparr>"

definition boot_kernel :: "mmu \<Rightarrow> kernel" where
  "boot_kernel m = (process_init example_vfs m (tty_init \<lparr>u_rx = [], u_room = 1, u_tx = [], u_imsc = 0\<rparr>) (\<lambda>_ _. 0) (\<lambda>_. 0))
     \<lparr>k_all := [1], k_max_id := 2, k_procs := [1 \<mapsto> first_process], k_next_file := 1,
      k_files := [0 \<mapsto> zero_file\<lparr>f_type := FF_TTY, f_flags := O_RDWR, f_count := 3\<rparr>]\<rparr>"

lemma boot_kernel_booted: "booted (boot_kernel m)"
  unfolding booted_def boot_kernel_def
  by (intro conjI exI [of _ first_process] exI [of _ "zero_file\<lparr>f_type := FF_TTY, f_flags := O_RDWR, f_count := 3\<rparr>"])
    (simp_all add: process_init_def first_process_def zero_process_def zero_file_def tty_init_def process_waitq_init_def)

definition call_context :: "u32 \<Rightarrow> u32 \<Rightarrow> u32 \<Rightarrow> u32 \<Rightarrow> process_context" where
  "call_context number a b c = zero_context\<lparr>c_cpsr := 0x10, c_r := [a, b, c, 0, 0, 0, 0, number, 0, 0, 0, 0, 0]\<rparr>"

lemma call_context_user: "user_context (call_context number a b c)"
  by (simp add: user_context_def IS_USER_MODE_def call_context_def push_bit_eq_mult)

lemma call_context_mode: "IS_USER_MODE (call_context number a b c)" "IS_USER_MODE (c'\<lparr>c_r := r\<rparr>) \<longleftrightarrow> IS_USER_MODE c'" "IS_USER_MODE (pr_context first_process)"
  by (simp_all add: IS_USER_MODE_def call_context_def first_process_def push_bit_eq_mult)

lemma no_signal_peek: "sigpeekset (sigandset sigemptyset s) = 0"
proof -
  have "find (bit (0 :: u32)) [0..<32] = None" by (simp only: find_None_iff) simp
  then have "builtin_ffs 0 = 0" by (simp only: builtin_ffs_def option.case)
  then show ?thesis by (simp add: sigpeekset_def sigandset_def sigemptyset_def)
qed

text \<open>A pass of the scheduler that refills the run queue and goes to its first process, which has no signals.\<close>

lemma switch_first:
  assumes "k_run k = []" "rev (filter (\<lambda>p. k_states k p = STATE_READY) (k_all k)) = p # ps" "k_procs k p = Some x" "pr_suspend x = None"
    "sig_pending (pr_signal x) = sigemptyset" "find_mapping p (k_mmu k) \<noteq> None"
  shows "\<exists>m. switch_once k = Some (To_User, k\<lparr>k_run := ps, k_current := Some p, k_mmu := m\<rparr>) \<and> m_buddy m = m_buddy (k_mmu k) \<and>
    m_tables m = m_tables (k_mmu k) \<and> m_mappings m = m_mappings (k_mmu k) \<and> m_current m = p"
proof -
  obtain mp where mp: "find_mapping p (k_mmu k) = Some mp" using assms(6) by blast
  let ?m = "(k_mmu k)\<lparr>m_ttb := mp_address mp AND 0xffffc000, m_current := p\<rparr>"
  have t: "mmu_set_ttb p (k_mmu k) = Some (m_current (k_mmu k), ?m)" using mp by (simp add: mmu_set_ttb_def mmu_mapping_fetch_def)
  have "deliver_signal p x h = Some (None, h)" for h using assms(5) no_signal_peek by (simp add: deliver_signal_def Let_def)
  then have "switch_once k = Some (To_User, k\<lparr>k_run := ps, k_current := Some p, k_mmu := ?m\<rparr>)"
    using assms(1-4) t by (simp add: switch_once_def process_schedule_def schedule_run process_dequeue_def process_dispatch_def current_def switch_ttb_def)
  then show ?thesis by (intro exI [of _ ?m]) simp
qed

lemma switch_alone:
  assumes "k_all k = [1]" "k_run k = []" "k_states k 1 = STATE_READY" "k_procs k 1 = Some x" "pr_suspend x = None"
    "sig_pending (pr_signal x) = sigemptyset" "find_mapping 1 (k_mmu k) \<noteq> None"
  shows "\<exists>m. switch_once k = Some (To_User, k\<lparr>k_current := Some 1, k_mmu := m\<rparr>) \<and> m_buddy m = m_buddy (k_mmu k) \<and> m_tables m = m_tables (k_mmu k) \<and>
    m_mappings m = m_mappings (k_mmu k) \<and> m_current m = 1"
proof -
  have "k\<lparr>k_run := [], k_current := Some 1, k_mmu := m\<rparr> = k\<lparr>k_current := Some 1, k_mmu := m\<rparr>" for m using assms(2) by (cases k) simp
  moreover have "rev (filter (\<lambda>p. k_states k p = STATE_READY) (k_all k)) = [1]" using assms(1,3) by simp
  ultimately show ?thesis using switch_first [of k 1 "[]" x] assms(2,4-7) by metis
qed

lemma store_bytes_mapped:
  "(\<And>i. i < length bs \<Longrightarrow> mapped (a + of_nat i) k) \<Longrightarrow> \<exists>u. store_bytes a bs k = Some (k\<lparr>k_user := u\<rparr>)"
proof (induction bs arbitrary: a k)
  case Nil
  show ?case by (rule exI [of _ "k_user k"]) simp
next
  case (Cons b bs)
  have m: "mapped a k" using Cons.prems [of 0] by simp
  let ?u = "(k_user k)(m_current (k_mmu k) := (k_user k (m_current (k_mmu k)))(a := b))"
  have "mapped (a + 1 + of_nat i) (k\<lparr>k_user := ?u\<rparr>)" if "i < length bs" for i
    using Cons.prems [of "Suc i"] that by (simp add: mapped_def ac_simps)
  from Cons.IH [OF this] obtain u where "store_bytes (a + 1) bs (k\<lparr>k_user := ?u\<rparr>) = Some (k\<lparr>k_user := ?u, k_user := u\<rparr>)" by blast
  then show ?case using m by (auto simp: store8_def Let_def)
qed

definition pipe_file :: "u32 \<Rightarrow> open_file" where
  "pipe_file mode = zero_file\<lparr>f_type := FF_PIPE, f_flags := mode OR O_APPEND\<rparr>"

lemma pipe_call:
  assumes "current k = Some (1, x)" "pr_context x = call_context 42 0x10000 0 0" "pr_files x = pr_files first_process" "k_next_file k = 1" "k_next_pipe k = 0"
    "room (m_buddy (k_mmu k)) 900" "\<And>a. 0x10000 \<le> a \<Longrightarrow> a < 0x11000 \<Longrightarrow> mapped a k"
  shows "\<exists>y b u q. syscall_handler cfg k = Some (k\<lparr>k_procs := (k_procs k)(1 \<mapsto> y), k_files := (k_files k)(1 \<mapsto> pipe_file O_RDONLY, 2 \<mapsto> pipe_file O_WRONLY),
      k_next_file := 3, k_pipes := (k_pipes k)(0 \<mapsto> q), k_next_pipe := 1, k_mmu := (k_mmu k)\<lparr>m_buddy := b\<rparr>, k_user := u\<rparr>) \<and>
    pr_files y = [Some 0, Some 0, Some 0, Some 1, Some 2] @ replicate (MAX_FD_SIZE - 5) None \<and> pr_suspend y = pr_suspend x \<and> pr_signal y = pr_signal x \<and> pr_parent y = pr_parent x \<and>
    IS_USER_MODE (pr_context y) \<and> p_length q = 0 \<and> p_writers q = 1 \<and> p_readers_waitq q = []"
proof -
  obtain page b where b: "buddy_alloc (m_buddy (k_mmu k)) PAGE_SIZE = Some (page, b)" 
    by (rule room_alloc [of "m_buddy (k_mmu k)" 0 PAGE_SIZE]) (use room_le [OF assms(6), of 1] in simp_all)
  let ?q = "pipe_create page (\<lambda>j. k_stale k (page_address b page + of_nat j))"
  have c: "k_current k = Some 1" "k_procs k 1 = Some x" using currentD [OF assms(1)] by simp_all
  have fs: "pr_files x = Some 0 # Some 0 # Some 0 # replicate 29 None" using assms(3) by (simp add: first_process_def MAX_FD_SIZE_def)
  have f1: "first_free (Some 0 # Some 0 # Some 0 # replicate 29 None) 0 = Some 3" by (simp add: first_free.simps MAX_FD_SIZE_def)
  have f2: "first_free (Some 0 # Some 0 # Some 0 # Some 1 # replicate 28 None) 0 = Some 4" by (simp add: first_free.simps MAX_FD_SIZE_def)
  let ?x1 = "x\<lparr>pr_files := Some 0 # Some 0 # Some 0 # Some 1 # replicate 28 None\<rparr>"
  let ?x2 = "x\<lparr>pr_files := Some 0 # Some 0 # Some 0 # Some 1 # Some 2 # replicate 27 None\<rparr>"
  let ?k1 = "k\<lparr>k_next_file := 2, k_files := (k_files k)(1 \<mapsto> zero_file), k_procs := (k_procs k)(1 \<mapsto> ?x1)\<rparr>"
  let ?k2 = "k\<lparr>k_next_file := 3, k_files := (k_files k)(1 \<mapsto> zero_file, 2 \<mapsto> zero_file), k_procs := (k_procs k)(1 \<mapsto> ?x2)\<rparr>"
  let ?k3 = "k\<lparr>k_next_file := 3, k_files := (k_files k)(1 \<mapsto> pipe_file O_RDONLY, 2 \<mapsto> pipe_file O_WRONLY), k_procs := (k_procs k)(1 \<mapsto> ?x2),
    k_pipes := (k_pipes k)(0 \<mapsto> ?q), k_next_pipe := 1, k_mmu := (k_mmu k)\<lparr>m_buddy := b\<rparr>\<rparr>"
  have a1: "alloc_file 1 k = Some (3, ?k1)"
    using c fs f1 assms(4) by (cases k) (simp add: alloc_file_def Let_def set_slot_def set_file_def upd_proc_def numeral_eq_Suc)
  have a2: "alloc_file 1 ?k1 = Some (4, ?k2)"
    using f2 by (cases k) (simp add: alloc_file_def Let_def set_slot_def set_file_def upd_proc_def numeral_eq_Suc)
  have a3: "connect_pipe 1 2 0 ?k2 = Some ?k3"
    using b assms(5) by (cases k) (simp add: connect_pipe_def new_pipe_def take_page_def set_file_def Let_def pipe_file_def zero_file_def)
  have m: "mapped (0x10000 + of_nat i) h" if "i < 8" "k_mmu h = (k_mmu k)\<lparr>m_buddy := b\<rparr>" for i h
  proof -
    have "0x10000 \<le> 0x10000 + (of_nat i :: u32)" "0x10000 + (of_nat i :: u32) < 0x11000" using that(1) by (simp_all add: word_le_nat_alt word_less_nat_alt unat_word_ariths unat_of_nat)
    from assms(7) [OF this] show ?thesis using that(2) by (simp add: mapped_def user_access_def find_mapping_def)
  qed
  obtain u1 where u1: "store32 0x10000 3 ?k3 = Some (?k3\<lparr>k_user := u1\<rparr>)"
    using store_bytes_mapped [of "bytes32 3" "0x10000" ?k3] m by (auto simp: store32_def bytes32_def)
  have m': "mapped (0x10004 + of_nat i) h" if "i < 4" "k_mmu h = (k_mmu k)\<lparr>m_buddy := b\<rparr>" for i h using m [of "i + 4" h] that by (simp add: ac_simps)
  obtain u2 where u2: "store32 0x10004 4 (?k3\<lparr>k_user := u1\<rparr>) = Some (?k3\<lparr>k_user := u1, k_user := u2\<rparr>)"
    using store_bytes_mapped [of "bytes32 4" "0x10004" "?k3\<lparr>k_user := u1\<rparr>"] m' by (auto simp: store32_def bytes32_def)
  have cur: "current ?k2 = Some (1, ?x2)" using c by (simp add: current_def)
  have p: "process_pipe 0x10000 k = Some (0, ?k3\<lparr>k_user := u2\<rparr>)"
    using assms(1) a1 a2 a3 cur u1 u2 by (simp add: process_pipe_def process_pipe2_def)
  let ?y = "?x2\<lparr>pr_context := (pr_context x)\<lparr>c_r := (c_r (pr_context x))[0 := 0]\<rparr>\<rparr>"
  have ar: "arg i k = Some (c_r (call_context 42 0x10000 0 0) ! i)" for i using assms(1,2) by (simp add: arg_def)
  have t: "map_of (syscall_table cfg) 42 = Some syscall_pipe" by (simp add: syscall_table_def)
  have "syscall_handler cfg k = answer (process_pipe 0x10000 k)"
    by (simp add: syscall_handler_def ar t call_context_def syscall_pipe_def check_address_range_def add_overflow_unsigned_long_def ULONG_MAX_def IS_USER_ADDRESSS_def
        USER_ADDRESS_START_def USER_ADDRESS_END_def)
  moreover have "answer (process_pipe 0x10000 k) = Some (k\<lparr>k_procs := (k_procs k)(1 \<mapsto> ?y), k_files := (k_files k)(1 \<mapsto> pipe_file O_RDONLY, 2 \<mapsto> pipe_file O_WRONLY),
      k_next_file := 3, k_pipes := (k_pipes k)(0 \<mapsto> ?q), k_next_pipe := 1, k_mmu := (k_mmu k)\<lparr>m_buddy := b\<rparr>, k_user := u2\<rparr>)"
    unfolding answer_def p using c by (cases k) (simp add: set_return_def current_def set_proc_def)
  moreover have "pr_files ?y = [Some 0, Some 0, Some 0, Some 1, Some 2] @ replicate (MAX_FD_SIZE - 5) None" by (simp add: MAX_FD_SIZE_def)
  ultimately show ?thesis
    by (intro exI [of _ ?y] exI [of _ b] exI [of _ u2] exI [of _ ?q]) (simp add: pipe_create_def process_waitq_init_def assms(2) call_context_mode)
qed

lemma read_call:
  assumes "current k = Some (1, x)" "pr_context x = call_context 3 3 0x10000 4" "pr_files x ! 3 = Some 1" "k_files k 1 = Some (pipe_file O_RDONLY)"
    "k_pipes k 0 = Some q" "p_length q = 0" "p_writers q = 1" "p_readers_waitq q = []"
  shows "syscall_handler cfg k = Some (k\<lparr>k_states := (k_states k)(1 := STATE_BLOCKED), k_pipes := (k_pipes k)(0 \<mapsto> q\<lparr>p_readers_waitq := [1]\<rparr>),
    k_procs := (k_procs k)(1 \<mapsto> x\<lparr>pr_suspend := Some (In_Pipe_Read 0 0x10000 4 [], To_Caller)\<rparr>)\<rparr>)"
proof -
  have c: "k_current k = Some 1" "k_procs k 1 = Some x" using currentD [OF assms(1)] by simp_all
  have ar: "arg i k = Some (c_r (call_context 3 3 0x10000 4) ! i)" for i using assms(1,2) by (simp add: arg_def)
  have t: "map_of (syscall_table cfg) 3 = Some syscall_read" by (simp add: syscall_table_def)
  have s: "syscall_handler cfg k = blocking (process_read 3 0x10000 4 k)"
    by (simp add: syscall_handler_def ar t call_context_def syscall_read_def check_address_range_def add_overflow_unsigned_long_def ULONG_MAX_def IS_USER_ADDRESSS_def
        USER_ADDRESS_START_def USER_ADDRESS_END_def)
  have r: "pipe_read 1 4 [] (k_states k) q = Some (Read_Sleep [], (k_states k)(1 := STATE_BLOCKED), q\<lparr>p_readers_waitq := [1]\<rparr>)"
    using assms(6-8) by (subst pipe_read.simps) (simp add: pipe_read_round_def block_on_def)
  have "process_read 3 0x10000 4 k = Some (Asleep (In_Pipe_Read 0 0x10000 4 []),
      k\<lparr>k_states := (k_states k)(1 := STATE_BLOCKED), k_pipes := (k_pipes k)(0 \<mapsto> q\<lparr>p_readers_waitq := [1]\<rparr>)\<rparr>)"
    using assms(1,3,4,5) c r
    by (simp add: process_read_def with_file_def get_file_def MAX_FD_SIZE_def pipe_file_def zero_file_def FILE_FOR_READ_def unix_flags run_pipe_read_def)
  then show ?thesis unfolding s using c by (cases k) (simp add: blocking_def finish_call_def call_of_def current_def set_proc_def)
qed

text \<open>The machine from the start to the call that sleeps.\<close>

lemma example_run:
  "\<exists>k0 k x q. booted k0 \<and> (kstep cfg)\<^sup>*\<^sup>* (To_Switch, k0) (To_Switch, k) \<and> k_all k = [1] \<and> k_procs k = [1 \<mapsto> x] \<and> pr_parent x = 1 \<and>
     pr_files x = [Some 0, Some 0, Some 0, Some 1, Some 2] @ replicate (MAX_FD_SIZE - 5) None \<and>
     k_files k 1 = Some (pipe_file O_RDONLY) \<and> k_files k 2 = Some (pipe_file O_WRONLY) \<and> k_pipes k = [0 \<mapsto> q] \<and>
     p_readers_waitq q = [1] \<and> k_states k 1 = STATE_BLOCKED \<and> end_of k 0 = None"
proof -
  obtain m where m: "find_mapping 1 m \<noteq> None" "room (m_buddy m) 900" "\<And>va. 0x10000 \<le> va \<Longrightarrow> va < 0x11000 \<Longrightarrow> user_access m 1 va \<noteq> None"
    using mmu_user_example by blast
  let ?k0 = "boot_kernel m"
  have k0: "k_all ?k0 = [1]" "k_run ?k0 = []" "k_states ?k0 1 = STATE_READY" "k_procs ?k0 = [1 \<mapsto> first_process]" "k_mmu ?k0 = m" "k_next_file ?k0 = 1" "k_next_pipe ?k0 = 0"
    by (simp_all add: boot_kernel_def process_init_def)
  obtain m1 where m1: "switch_once ?k0 = Some (To_User, ?k0\<lparr>k_current := Some 1, k_mmu := m1\<rparr>)" "m_buddy m1 = m_buddy m" "m_tables m1 = m_tables m"
    "m_mappings m1 = m_mappings m" "m_current m1 = 1"
    using switch_alone [of ?k0 first_process] k0 m(1) by (auto simp: first_process_def zero_process_def)
  let ?k1 = "?k0\<lparr>k_current := Some 1, k_mmu := m1\<rparr>"
  let ?c = "call_context 42 0x10000 0 0"
  let ?e1 = "enter ?c (\<lambda>_. 0) ?k1"
  let ?x1 = "first_process\<lparr>pr_context := ?c\<rparr>"
  have e1: "current ?e1 = Some (1, ?x1)" "k_procs ?e1 = [1 \<mapsto> ?x1]" "k_next_file ?e1 = 1" "k_next_pipe ?e1 = 0" "k_mmu ?e1 = m1" "k_all ?e1 = [1]" "k_run ?e1 = []"
    "k_states ?e1 1 = STATE_READY" "k_pipes ?e1 = Map.empty" "k_files ?e1 0 = Some (zero_file\<lparr>f_type := FF_TTY, f_flags := O_RDWR, f_count := 3\<rparr>)"
    by (simp_all add: enter_def process_set_context_def user_runs_def current_def k0 boot_kernel_def process_init_def upd_proc_def)
  have map1: "mapped a ?e1" if "0x10000 \<le> a" "a < 0x11000" for a
    using m(3) [OF that] m1(3-5) e1(5) by (simp add: mapped_def user_access_def find_mapping_def)
  obtain y b u q where k2: "syscall_handler cfg ?e1 = Some (?e1\<lparr>k_procs := (k_procs ?e1)(1 \<mapsto> y), k_files := (k_files ?e1)(1 \<mapsto> pipe_file O_RDONLY, 2 \<mapsto> pipe_file O_WRONLY),
      k_next_file := 3, k_pipes := (k_pipes ?e1)(0 \<mapsto> q), k_next_pipe := 1, k_mmu := (k_mmu ?e1)\<lparr>m_buddy := b\<rparr>, k_user := u\<rparr>)"
    and y: "pr_files y = [Some 0, Some 0, Some 0, Some 1, Some 2] @ replicate (MAX_FD_SIZE - 5) None" "pr_suspend y = pr_suspend ?x1" "pr_signal y = pr_signal ?x1" "pr_parent y = 1" "IS_USER_MODE (pr_context y)"
    and q: "p_length q = 0" "p_writers q = 1" "p_readers_waitq q = []"
    using pipe_call [OF e1(1), of cfg] m(2) m1(2) e1(3-5) map1 by (auto simp: first_process_def)
  define h where "h = ?e1\<lparr>k_procs := (k_procs ?e1)(1 \<mapsto> y), k_files := (k_files ?e1)(1 \<mapsto> pipe_file O_RDONLY, 2 \<mapsto> pipe_file O_WRONLY),
      k_next_file := 3, k_pipes := (k_pipes ?e1)(0 \<mapsto> q), k_next_pipe := 1, k_mmu := (k_mmu ?e1)\<lparr>m_buddy := b\<rparr>, k_user := u\<rparr>"
  have h: "k_all h = [1]" "k_run h = []" "k_states h 1 = STATE_READY" "k_procs h = [1 \<mapsto> y]" "m_mappings (k_mmu h) = m_mappings m" "k_pipes h = [0 \<mapsto> q]"
    "k_files h 1 = Some (pipe_file O_RDONLY)" "k_files h 2 = Some (pipe_file O_WRONLY)"
    using e1 m1(4) by (simp_all add: h_def)
  have ht: "end_of h 0 = None" using e1(10) by (simp add: h_def end_of_def)
  have "find_mapping 1 (k_mmu h) \<noteq> None" using m(1) h(5) by (simp add: find_mapping_def)
  then obtain m2 where m2: "switch_once h = Some (To_User, h\<lparr>k_current := Some 1, k_mmu := m2\<rparr>)"
    using switch_alone [of h y] h(1-4) y by (auto simp: first_process_def zero_process_def)
  let ?d = "call_context 3 3 0x10000 4"
  let ?e3 = "enter ?d (\<lambda>_. 0) (h\<lparr>k_current := Some 1, k_mmu := m2\<rparr>)"
  let ?y3 = "y\<lparr>pr_context := ?d\<rparr>"
  have e3: "current ?e3 = Some (1, ?y3)" "k_procs ?e3 = [1 \<mapsto> ?y3]" "k_files ?e3 = k_files h" "k_pipes ?e3 = [0 \<mapsto> q]" "k_all ?e3 = [1]"
    using h by (simp_all add: enter_def process_set_context_def user_runs_def current_def upd_proc_def)
  note r = read_call [OF e3(1), of q cfg]
  let ?z = "?e3\<lparr>k_states := (k_states ?e3)(1 := STATE_BLOCKED), k_pipes := (k_pipes ?e3)(0 \<mapsto> q\<lparr>p_readers_waitq := [1]\<rparr>),
    k_procs := (k_procs ?e3)(1 \<mapsto> ?y3\<lparr>pr_suspend := Some (In_Pipe_Read 0 0x10000 4 [], To_Caller)\<rparr>)\<rparr>"
  have r: "syscall_handler cfg ?e3 = Some ?z" using r e3(3,4) h(7) y(1) q by simp
  have "kstep cfg (To_Switch, ?k0) (To_User, ?k1)" by (rule kstep.switch [OF m1(1)])
  moreover have "in_user_mode ?k1" using k0(4) by (simp add: in_user_mode_def current_def call_context_mode)
  then have "kstep cfg (To_User, ?k1) (To_Switch, h)"
    by (rule kstep.svc [OF _ call_context_user [of 42 "0x10000" 0 0], where mem = "\<lambda>_. 0"], unfold system_svc_handler_def) (rule k2 [folded h_def])
  moreover have "kstep cfg (To_Switch, h) (To_User, h\<lparr>k_current := Some 1, k_mmu := m2\<rparr>)" by (rule kstep.switch [OF m2])
  moreover have "in_user_mode (h\<lparr>k_current := Some 1, k_mmu := m2\<rparr>)" using h(4) y(5) by (simp add: in_user_mode_def current_def)
  then have "kstep cfg (To_User, h\<lparr>k_current := Some 1, k_mmu := m2\<rparr>) (To_Switch, ?z)"
    by (rule kstep.svc [OF _ call_context_user [of 3 3 "0x10000" 4], where mem = "\<lambda>_. 0"], unfold system_svc_handler_def) (rule r)
  ultimately have run: "(kstep cfg)\<^sup>*\<^sup>* (To_Switch, ?k0) (To_Switch, ?z)" by (meson converse_rtranclp_into_rtranclp rtranclp.rtrancl_refl)
  show ?thesis
    by (rule exI [of _ ?k0], rule exI [of _ ?z], rule exI [of _ "?y3\<lparr>pr_suspend := Some (In_Pipe_Read 0 0x10000 4 [], To_Caller)\<rparr>"],
        rule exI [of _ "q\<lparr>p_readers_waitq := [1]\<rparr>"], intro conjI boot_kernel_booted run) (use ht in \<open>simp_all add: e3 [simplified] h [simplified] y(1,4) end_of_def\<close>)
qed

text \<open>Another run: the first process exits.\<close>

lemma close_all_closed: "k_procs k p = Some x \<Longrightarrow> (\<And>i. i \<in> set is \<Longrightarrow> pr_files x ! i = None) \<Longrightarrow> close_all p is k = Some k"
  by (induction "is") simp_all

lemma close_tty:
  assumes "k_procs k 1 = Some x" "pr_files x ! i = Some 0" "k_files k 0 = Some f" "f_type f = FF_TTY" "0 < f_count f"
  shows "close_all 1 (i # is) k = close_all 1 is (k\<lparr>k_procs := (k_procs k)(1 \<mapsto> x\<lparr>pr_files := (pr_files x)[i := None]\<rparr>),
    k_files := (k_files k)(0 := if f_count f = 1 then None else Some (f\<lparr>f_count := f_count f - 1\<rparr>))\<rparr>)"
  using assms by (cases k) (simp add: release_file_def Let_def set_slot_def upd_proc_def set_file_def)

lemma close_three:
  assumes "k_procs k 1 = Some x" "pr_files x = Some 0 # Some 0 # Some 0 # replicate 29 None" "k_files k 0 = Some f" "f_type f = FF_TTY" "f_count f = 3"
  shows "close_all 1 [0..<MAX_FD_SIZE] k = Some (k\<lparr>k_procs := (k_procs k)(1 \<mapsto> x\<lparr>pr_files := replicate 32 None\<rparr>), k_files := (k_files k)(0 := None)\<rparr>)"
proof -
  have n: "[0..<MAX_FD_SIZE] = 0 # 1 # 2 # [3..<32]" by (simp add: MAX_FD_SIZE_def upt_rec numeral_eq_Suc)
  let ?x1 = "x\<lparr>pr_files := None # Some 0 # Some 0 # replicate 29 None\<rparr>" and ?x2 = "x\<lparr>pr_files := None # None # Some 0 # replicate 29 None\<rparr>"
  let ?x3 = "x\<lparr>pr_files := replicate 32 None\<rparr>"
  let ?k1 = "k\<lparr>k_procs := (k_procs k)(1 \<mapsto> ?x1), k_files := (k_files k)(0 \<mapsto> f\<lparr>f_count := 2\<rparr>)\<rparr>"
  let ?k2 = "k\<lparr>k_procs := (k_procs k)(1 \<mapsto> ?x2), k_files := (k_files k)(0 \<mapsto> f\<lparr>f_count := 1\<rparr>)\<rparr>"
  let ?k3 = "k\<lparr>k_procs := (k_procs k)(1 \<mapsto> ?x3), k_files := (k_files k)(0 := None)\<rparr>"
  have "close_all 1 (0 # 1 # 2 # [3..<32]) k = close_all 1 (1 # 2 # [3..<32]) ?k1" using assms by (subst close_tty [where f = f and x = x]) simp_all
  also have "\<dots> = close_all 1 (2 # [3..<32]) ?k2" using assms by (subst close_tty [where f = "f\<lparr>f_count := 2\<rparr>" and x = ?x1]) (simp_all del: close_all.simps upt_rec_numeral)
  also have "\<dots> = close_all 1 [3..<32] ?k3" using assms by (subst close_tty [where f = "f\<lparr>f_count := 1\<rparr>" and x = ?x2]) (simp_all del: close_all.simps upt_rec_numeral, simp add: numeral_eq_Suc)
  also have "\<dots> = Some ?k3" by (rule close_all_closed [where x = ?x3]) (simp, simp only: set_upt, simp)
  finally show ?thesis unfolding n .
qed

lemma exit_run: "\<exists>k0 k. booted k0 \<and> (kstep cfg)\<^sup>*\<^sup>* (To_Switch, k0) (To_Switch, k) \<and> k_states k 1 = STATE_DEAD \<and> k_procs k 1 \<noteq> None"
proof -
  obtain m where m: "find_mapping 1 m \<noteq> None" using mmu_user_example by blast
  let ?k0 = "boot_kernel m"
  have k0: "k_all ?k0 = [1]" "k_run ?k0 = []" "k_states ?k0 1 = STATE_READY" "k_procs ?k0 = [1 \<mapsto> first_process]" "k_mmu ?k0 = m"
    "k_files ?k0 = [0 \<mapsto> zero_file\<lparr>f_type := FF_TTY, f_flags := O_RDWR, f_count := 3\<rparr>]" "k_child_waitq ?k0 = []"
    by (simp_all add: boot_kernel_def process_init_def process_waitq_init_def)
  obtain m1 where m1: "switch_once ?k0 = Some (To_User, ?k0\<lparr>k_current := Some 1, k_mmu := m1\<rparr>)"
    using switch_alone [of ?k0 first_process] k0 m(1) by (auto simp: first_process_def zero_process_def)
  let ?k1 = "?k0\<lparr>k_current := Some 1, k_mmu := m1\<rparr>"
  let ?c = "call_context 1 0 0 0"
  define e where "e = enter ?c (\<lambda>_. 0) ?k1"
  let ?x1 = "first_process\<lparr>pr_context := ?c\<rparr>"
  have e1: "current e = Some (1, ?x1)" "k_procs e = [1 \<mapsto> ?x1]" "k_all e = [1]" "k_files e = k_files ?k0" "k_child_waitq e = []"
    by (simp_all add: e_def enter_def process_set_context_def user_runs_def current_def k0 upd_proc_def)
  have fs: "pr_files ?x1 = Some 0 # Some 0 # Some 0 # replicate 29 None" by (simp add: first_process_def MAX_FD_SIZE_def)
  have ar: "arg i e = Some (c_r ?c ! i)" for i using e1(1) by (simp add: arg_def)
  have t: "map_of (syscall_table cfg) 1 = Some syscall_exit" by (simp add: syscall_table_def)
  let ?h = "upd_proc 1 (\<lambda>x. x\<lparr>pr_exit_status := WAIT_EXIT_CODE 0\<rparr>) (e\<lparr>k_states := (k_states e)(1 := STATE_DEAD)\<rparr>)"
  have h: "k_procs ?h 1 = Some (?x1\<lparr>pr_exit_status := WAIT_EXIT_CODE 0\<rparr>)" "k_files ?h 0 = Some (zero_file\<lparr>f_type := FF_TTY, f_flags := O_RDWR, f_count := 3\<rparr>)"
    using e1(2,4) k0(6) by simp_all
  obtain k where k: "syscall_handler cfg e = Some k" "k_states k 1 = STATE_DEAD" "k_procs k 1 \<noteq> None"
  proof -
    let ?g = "?h\<lparr>k_procs := (k_procs ?h)(1 \<mapsto> ?x1\<lparr>pr_exit_status := WAIT_EXIT_CODE 0, pr_files := replicate 32 None\<rparr>), k_files := (k_files ?h)(0 := None)\<rparr>"
    have "close_all 1 [0..<MAX_FD_SIZE] ?h = Some ?g" using close_three [OF h(1) _ h(2)] fs by simp
    then have "process_exit (WAIT_EXIT_CODE 0) e = Some (?g\<lparr>k_shutdown := True\<rparr>)"
      using e1(1,3,5) by (cases e) (simp add: process_exit_def Let_def system_shutdown_def)
    moreover have "syscall_handler cfg e = process_exit (WAIT_EXIT_CODE 0) e" by (simp add: syscall_handler_def ar t syscall_exit_def) (simp add: call_context_def t syscall_exit_def ar)
    ultimately show thesis using that by simp
  qed
  have "kstep cfg (To_Switch, ?k0) (To_User, ?k1)" by (rule kstep.switch [OF m1(1)])
  moreover have "in_user_mode ?k1" using k0 by (simp add: in_user_mode_def current_def call_context_mode)
  then have "kstep cfg (To_User, ?k1) (To_Switch, k)"
    by (rule kstep.svc [OF _ call_context_user [of 1 0 0 0], where mem = "\<lambda>_. 0"], unfold system_svc_handler_def) (rule k(1) [unfolded e_def])
  ultimately have "(kstep cfg)\<^sup>*\<^sup>* (To_Switch, ?k0) (To_Switch, k)" by (meson converse_rtranclp_into_rtranclp rtranclp.rtrancl_refl)
  then show ?thesis using boot_kernel_booted k(2,3) by blast
qed

definition example_config :: config where
  "example_config = \<lparr>CYANURUS_SYSNAME = [0x43], CYANURUS_RELEASE = [0x30], CYANURUS_VERSION = [0x30], CYANURUS_MACHINE = [0x61]\<rparr>"

subsection \<open>Properties\<close>

abbreviation runs :: "config \<Rightarrow> kernel \<Rightarrow> destination \<times> kernel \<Rightarrow> bool" where
  "runs cfg k s \<equiv> (kstep cfg)\<^sup>*\<^sup>* (To_Switch, k) s"

text \<open>
  C2: In every state the machine comes to from its start, whatever programs, interrupts and devices do,
  the count of an open file is the number of descriptors of all processes that refer to it.
\<close>

theorem file_counts_exact:
  assumes "booted k0" "runs cfg k0 (n, k)" "k_files k f = Some x"
  shows "f_count x = (\<Sum>p \<in> set (k_all k). count_list (files_of k p) (Some f)) \<and> 0 < f_count x"
  using runs_inv(1) [OF assms(1,2)] assms(3) unfolding file_inv_def refs_def [symmetric] by (auto simp: cnt_def split: option.splits)

theorem file_counts_exact_witness:
  "\<exists>k0 k x. runs example_config k0 (To_Switch, k) \<and> k_files k 1 = Some x \<and> f_count x = (\<Sum>p \<in> set (k_all k). count_list (files_of k p) (Some 1)) \<and> f_count x = 1"
proof -
  obtain k0 k where r: "booted k0" "runs example_config k0 (To_Switch, k)" "k_files k 1 = Some (pipe_file O_RDONLY)" using example_run by blast
  have "f_count (pipe_file O_RDONLY) = 1" by (simp add: pipe_file_def zero_file_def)
  with file_counts_exact [OF r] r(2,3) show ?thesis by blast
qed

text \<open>
  C3: A descriptor never dangles: the file it refers to exists, and so does the pipe of a file that is an
  end of one.  A pipe is freed only when nobody has it open.
\<close>

theorem no_dangling_descriptor:
  assumes "booted k0" "runs cfg k0 (n, k)" "Some f \<in> set (files_of k p)"
  shows "\<exists>x. k_files k f = Some x \<and> (f_type x = FF_PIPE \<longrightarrow> k_pipes k (f_ref x) \<noteq> None)"
proof -
  note i = runs_inv [OF assms(1,2)]
  have "p \<in> set (k_all k)" using assms(3) i(3) by (auto simp: table_inv_def files_of_def split: option.splits)
  from refs_pos [OF this assms(3)] have c: "0 < cnt k f" using i(1) by (auto simp: file_inv_def)
  then obtain x where x: "k_files k f = Some x" by (auto simp: cnt_def split: option.splits)
  have "k_pipes k (f_ref x) \<noteq> None" if t: "f_type x = FF_PIPE"
  proof -
    have e: "end_of k f = Some (f_ref x, f_flags x AND O_ACCMODE)" using x t by (simp add: end_of_def)
    have "0 < opens k (f_ref x, f_flags x AND O_ACCMODE)" by (rule opens_pos [OF _ e c]) (use i(1) x in \<open>auto simp: file_inv_def\<close>)
    then show ?thesis using ends_invD(1) [OF i(2) e] ends_invD(2,3) [OF i(2), of "f_ref x"] by (cases "k_pipes k (f_ref x)") auto
  qed
  then show ?thesis using x by blast
qed

theorem no_dangling_descriptor_witness:
  "\<exists>k0 k x. runs example_config k0 (To_Switch, k) \<and> Some 2 \<in> set (files_of k 1) \<and> k_files k 2 = Some x \<and> f_type x = FF_PIPE \<and> k_pipes k (f_ref x) \<noteq> None"
proof -
  obtain k0 k x where r: "booted k0" "runs example_config k0 (To_Switch, k)" "k_procs k = [1 \<mapsto> x]" "k_files k 2 = Some (pipe_file O_WRONLY)"
    "pr_files x = [Some 0, Some 0, Some 0, Some 1, Some 2] @ replicate (MAX_FD_SIZE - 5) None" using example_run by blast
  have "Some 2 \<in> set (files_of k 1)" using r by (simp add: files_of_def)
  moreover have "f_type (pipe_file O_WRONLY) = FF_PIPE" by (simp add: pipe_file_def)
  ultimately show ?thesis using no_dangling_descriptor [OF r(1,2), of 2 1] r(2,4) by (metis option.inject)
qed

text \<open>The descriptors of all processes that stand for an end of a pipe.\<close>

definition ends_held :: "kernel \<Rightarrow> pipe_end \<Rightarrow> nat" where
  "ends_held k e = (\<Sum>p \<in> set (k_all k). length (filter (\<lambda>f. Option.bind f (end_of k) = Some e) (files_of k p)))"

lemma filter_count_list:
  assumes "finite F" "\<And>f. Some f \<in> set fs \<Longrightarrow> P (Some f) \<Longrightarrow> f \<in> F" "\<not> P None"
  shows "length (filter P fs) = (\<Sum>f \<in> F. if P (Some f) then count_list fs (Some f) else 0)"
  using assms(2)
proof (induction fs)
  case Nil
  have "(if P (Some f) then count_list [] (Some f) else 0) = 0" for f by simp
  then show ?case by (simp only: list.size filter.simps sum.neutral_const)
next
  case (Cons x fs)
  have IH: "length (filter P fs) = (\<Sum>f \<in> F. if P (Some f) then count_list fs (Some f) else 0)" by (rule Cons.IH) (use Cons.prems in auto)
  show ?case
  proof (cases "P x")
    case True
    then obtain g where g: "x = Some g" "g \<in> F" using assms(3) Cons.prems by (cases x) auto
    have "(\<Sum>f \<in> F. if P (Some f) then count_list (x # fs) (Some f) else 0) = (\<Sum>f \<in> F. (if P (Some f) then count_list fs (Some f) else 0) + (if f = g then 1 else 0))"
      by (rule sum.cong) (use True g(1) in auto)
    then show ?thesis using IH True g(2) assms(1) by (simp add: sum.distrib)
  next
    case False
    have "(\<Sum>f \<in> F. if P (Some f) then count_list (x # fs) (Some f) else 0) = (\<Sum>f \<in> F. if P (Some f) then count_list fs (Some f) else 0)"
      by (rule sum.cong) (use False in auto)
    then show ?thesis using IH False by simp
  qed
qed

lemma opens_held:
  assumes "file_inv (\<lambda>_. 0) k"
  shows "opens k e = ends_held k e"
proof -
  have c: "cnt k f = refs k f" for f using assms by (simp add: file_inv_def)
  have n: "f < k_next_file k" if "end_of k f = Some e" for f
    using assms that by (auto simp: file_inv_def end_of_def split: option.splits)
  have "opens k e = (\<Sum>f < k_next_file k. \<Sum>p \<in> set (k_all k). if end_of k f = Some e then count_list (files_of k p) (Some f) else 0)"
    unfolding opens_def opens_at_def c refs_def by (rule sum.cong) auto
  also have "\<dots> = (\<Sum>p \<in> set (k_all k). \<Sum>f < k_next_file k. if end_of k f = Some e then count_list (files_of k p) (Some f) else 0)"
    by (rule sum.swap)
  also have "\<dots> = ends_held k e" unfolding ends_held_def
    by (rule sum.cong [OF refl], subst filter_count_list [where F = "{..<k_next_file k}"]) (use n in auto)
  finally show ?thesis .
qed

text \<open>
  C9: A pipe counts its readers and writers exactly: each count is the number of descriptors, of all processes
  together, that stand for that end of the pipe, and one of the two is positive as long as the pipe exists.
\<close>

theorem pipe_ends_counted:
  assumes "booted k0" "runs cfg k0 (n, k)" "k_pipes k i = Some q"
  shows "p_readers q = ends_held k (i, O_RDONLY) \<and> p_writers q = ends_held k (i, O_WRONLY) \<and> 0 < p_readers q + p_writers q"
  using ends_invD(4-6) [OF runs_inv(2) [OF assms(1,2)] assms(3)] opens_held [OF runs_inv(1) [OF assms(1,2)]] by simp

theorem pipe_ends_counted_witness:
  "\<exists>k0 k q. runs example_config k0 (To_Switch, k) \<and> k_pipes k 0 = Some q \<and> p_readers q = 1 \<and> p_writers q = 1"
proof -
  obtain k0 k q x where r: "booted k0" "runs example_config k0 (To_Switch, k)" "k_pipes k = [0 \<mapsto> q]" "k_all k = [1]" "k_procs k = [1 \<mapsto> x]"
    "pr_files x = [Some 0, Some 0, Some 0, Some 1, Some 2] @ replicate (MAX_FD_SIZE - 5) None" "k_files k 1 = Some (pipe_file O_RDONLY)" "k_files k 2 = Some (pipe_file O_WRONLY)"
    and t: "end_of k 0 = None"
    using example_run by blast
  have e: "end_of k 1 = Some (0, O_RDONLY)" "end_of k 2 = Some (0, O_WRONLY)" "O_RDONLY \<noteq> O_WRONLY"
    using r(7,8) by (simp_all add: end_of_def pipe_file_def zero_file_def unix_flags)
  have p: "k_pipes k 0 = Some q" using r(3) by simp
  show ?thesis using pipe_ends_counted [OF r(1,2) p] r(2) p e t
    by (intro exI [of _ k0] exI [of _ k] exI [of _ q]) (simp add: ends_held_def files_of_def r(4-6) e [unfolded One_nat_def])
qed

lemma count_distinct: "distinct xs \<Longrightarrow> count_list xs a = of_bool (a \<in> set xs)"
  by (induction xs) auto

text \<open>C4: A process is blocked exactly when it is on a wait queue, and then it is on one queue only and once.\<close>

theorem blocked_iff_waiting:
  assumes "booted k0" "runs cfg k0 (n, k)"
  shows "k_states k p = STATE_BLOCKED \<longleftrightarrow> (\<exists>!q. count_list (queue k q) p = 1)"
proof -
  note Q = queue_invD [OF runs_inv(6) [OF assms]]
  have "count_list (queue k q) p = 1 \<longleftrightarrow> p \<in> set (queue k q)" for q
    using count_distinct [OF Q(1)] by simp
  then show ?thesis using Q(2,3) by (metis (no_types, lifting))
qed

theorem blocked_iff_waiting_witness:
  "\<exists>k0 k. runs example_config k0 (To_Switch, k) \<and> k_states k 1 = STATE_BLOCKED \<and> (\<exists>!q. count_list (queue k q) 1 = 1)"
proof -
  obtain k0 k where r: "booted k0" "runs example_config k0 (To_Switch, k)" "k_states k 1 = STATE_BLOCKED" using example_run by blast
  from blocked_iff_waiting [OF r(1,2), of 1] r(2,3) show ?thesis by blast
qed

text \<open>
  C10: A process on a wait queue sleeps in the call that belongs to that queue, and one that waits on a pipe
  has a descriptor for the end it works on: the pipe cannot be freed under a sleeper.
\<close>

theorem sleepers_keep_their_pipe:
  assumes "booted k0" "runs cfg k0 (n, k)" "p \<in> set (queue k q)"
  shows "\<exists>b. suspended_in k p = Some b \<and> site b = q \<and> (\<forall>e. needed_end q = Some e \<longrightarrow> has_end k p e)"
  using sleep_invD [OF runs_inv(7) [OF assms(1,2)]] assms(3) by blast

theorem sleepers_keep_their_pipe_witness:
  "\<exists>k0 k. runs example_config k0 (To_Switch, k) \<and> 1 \<in> set (queue k (Readers 0)) \<and> has_end k 1 (0, O_RDONLY)"
proof -
  obtain k0 k q where r: "booted k0" "runs example_config k0 (To_Switch, k)" "k_pipes k = [0 \<mapsto> q]" "p_readers_waitq q = [1]" using example_run by blast
  have "1 \<in> set (queue k (Readers 0))" using r(3,4) by (simp add: queue_def)
  moreover from sleepers_keep_their_pipe [OF r(1,2) this] have "has_end k 1 (0, O_RDONLY)" by (auto simp: needed_end_def)
  ultimately show ?thesis using r(2) by blast
qed

text \<open>
  C12: A process that has died holds nothing: all its descriptors are closed, it is not asleep, and it is
  neither on a wait queue nor in the run queue.
\<close>

theorem dead_process_holds_nothing:
  assumes "booted k0" "runs cfg k0 (n, k)" "k_states k p = STATE_DEAD"
  shows "set (files_of k p) \<subseteq> {None} \<and> suspended_in k p = None \<and> p \<notin> set (queue k q) \<and> p \<notin> set (k_run k)"
proof -
  note i = runs_inv [OF assms(1,2)]
  have "p \<notin> set (queue k q)" using queue_invD(3) [OF i(6), of p] assms(3) by auto
  then show ?thesis using i(3,5,8) assms(3) by (auto simp: table_inv_def settled_def run_inv_def)
qed

theorem dead_process_holds_nothing_witness:
  "\<exists>k0 k. runs example_config k0 (To_Switch, k) \<and> k_states k 1 = STATE_DEAD \<and> set (files_of k 1) \<subseteq> {None}"
proof -
  obtain k0 k where r: "booted k0" "runs example_config k0 (To_Switch, k)" "k_states k 1 = STATE_DEAD" using exit_run by blast
  from dead_process_holds_nothing [OF r, of Children] r(2,3) show ?thesis by blast
qed

text \<open>
  C40: The process table is well typed, and nothing in the kernel refers to a process that does not exist.  The ids in
  use are positive, distinct and below the next id, which fits into an \<^verbatim>\<open>int\<close>; each process has 32
  descriptors; the run queue holds processes that are ready and not the current one, each once; and the current
  process, the processes on all wait queues, all parents and all children are in the table.
\<close>

theorem process_table_typed:
  assumes "booted k0" "runs cfg k0 (n, k)"
  shows "distinct (k_all k) \<and> set (k_all k) = dom (k_procs k) \<and> set (k_all k) \<subseteq> {0<..<k_max_id k} \<and> k_max_id k < 2 ^ 31 \<and>
    list_all (\<lambda>p. length (files_of k p) = MAX_FD_SIZE) (k_all k) \<and> distinct (k_run k) \<and>
    set (k_run k) \<subseteq> {p. p \<in> set (k_all k) \<and> k_states k p = STATE_READY \<and> k_current k \<noteq> Some p} \<and>
    set_option (k_current k) \<subseteq> set (k_all k) \<and> (\<Union>q. set (queue k q)) \<subseteq> set (k_all k) \<and>
    (\<Union>p. set_option (parent_of k p)) \<subseteq> set (k_all k) \<and> (\<Union>p. set (children_of k p)) \<subseteq> set (k_all k)"
proof -
  note i = runs_inv [OF assms]
  have t: "distinct (k_all k)" "set (k_all k) = dom (k_procs k)" "\<forall>p \<in> set (k_all k). 0 < p \<and> p < k_max_id k" "\<forall>p. k_procs k p \<noteq> None \<longrightarrow> length (files_of k p) = MAX_FD_SIZE"
    "k_max_id k < 2 ^ 31"
    using i(3) unfolding table_inv_def by (blast, blast, blast, blast, simp)
  have r: "distinct (k_run k)" "\<forall>p \<in> set (k_run k). k_procs k p \<noteq> None \<and> k_states k p = STATE_READY \<and> k_current k \<noteq> Some p"
    "\<forall>p. k_current k = Some p \<longrightarrow> k_procs k p \<noteq> None"
    using i(5) unfolding run_inv_def by blast+
  have "(\<Union>q. set (queue k q)) \<subseteq> set (k_all k)" using sleep_invD(1) [OF i(7)] t(2) by (fastforce simp: suspended_in_def bind_Some)
  moreover have f: "parent_of k c = Some p \<Longrightarrow> k_procs k p \<noteq> None" "c \<in> set (children_of k p) \<Longrightarrow> parent_of k c = Some p" for c p
    using i(4) unfolding family_inv_def by blast+
  then have "(\<Union>p. set_option (parent_of k p)) \<subseteq> set (k_all k)" "(\<Union>p. set (children_of k p)) \<subseteq> set (k_all k)"
    using t(2) by (auto simp: parent_of_def) blast
  ultimately show ?thesis using t r by (auto simp: list_all_iff dom_def)
qed

theorem process_table_typed_witness:
  "\<exists>k0 k. runs example_config k0 (To_Switch, k) \<and> k_all k = [1] \<and> length (files_of k 1) = MAX_FD_SIZE \<and> 1 < k_max_id k \<and> queue k (Readers 0) = [1]"
proof -
  obtain k0 k q where r: "booted k0" "runs example_config k0 (To_Switch, k)" "k_all k = [1]" "k_pipes k = [0 \<mapsto> q]" "p_readers_waitq q = [1]" using example_run by blast
  then have "queue k (Readers 0) = [1]" by (simp add: queue_def)
  with process_table_typed [OF r(1,2)] r(2,3) show ?thesis by auto
qed

end
