(* ===== verification/Cy_Kernel_Memory.thy ===== *)
theory Cy_Kernel_Memory
  imports Cy_Kernel_Run
begin

text \<open>
  Memory of one process is safe from the others: the kernel changes the memory of a process only while the
  translation tables of that process are in use.
\<close>

subsection \<open>The tables in use\<close>

named_theorems currents \<open>operations on translation tables that leave the tables in use\<close>

lemma m_current_set_word [simp]: "m_current (set_word a v s) = m_current s"
  by (simp add: set_word_def)

lemma m_current_put_mapping [simp]: "m_current (put_mapping m s) = m_current s"
  by (simp add: put_mapping_def)

lemma m_current_create [currents]:
  "mmu_create_pl1 m s = Some (a, m', s') \<Longrightarrow> m_current s' = m_current s"
  "mmu_create_pl2 m s = Some (a, m', s') \<Longrightarrow> m_current s' = m_current s"
  "mmu_create_page m s = Some (a, m', s') \<Longrightarrow> m_current s' = m_current s"
  by (auto simp: mmu_create_pl1_def mmu_create_pl2_def mmu_create_page_def Let_def bind_Some)

lemma m_current_fill_pl2 [currents]: "mmu_create_and_fill_pl2 m i s = Some (a, m', s') \<Longrightarrow> m_current s' = m_current s"
  by (auto simp: mmu_create_and_fill_pl2_def Let_def bind_Some split: if_splits dest: currents)

lemma m_current_fill_pages [currents]: "fill_pages pl2 ap i n m s = Some (m', s') \<Longrightarrow> m_current s' = m_current s"
  by (induction n arbitrary: i m s) (fastforce simp: bind_Some dest: currents)+

lemma m_current_fill_straight [simp]: "m_current (fill_straight pl2 a i n s) = m_current s"
  by (induction n arbitrary: a i s) simp_all

lemma m_current_create_mapping [currents]: "mmu_create_mapping m addr sz b s = Some (r, m', s') \<Longrightarrow> m_current s' = m_current s"
  by (auto simp: mmu_create_mapping_def Let_def bind_Some split: if_splits dest!: currents)

lemma m_current_straight [currents]: "mmu_create_straight_mapping m addr sz s = Some (r, m', s') \<Longrightarrow> m_current s' = m_current s"
  by (auto simp: mmu_create_straight_mapping_def Let_def bind_Some split: if_splits dest!: currents)

lemma m_current_vectors [currents]: "mmu_create_vectors_mapping m s = Some (m', s') \<Longrightarrow> m_current s' = m_current s"
  by (auto simp: mmu_create_vectors_mapping_def Let_def bind_Some dest!: currents)

lemma m_current_map_kernel [currents]: "map_kernel i n m s = Some (m', s') \<Longrightarrow> m_current s' = m_current s"
  by (induction n arbitrary: i m s) (fastforce simp: bind_Some dest: currents)+

lemma m_current_kernel_mappings [currents]: "mmu_create_kernel_mappings m s = Some (m', s') \<Longrightarrow> m_current s' = m_current s"
  by (auto simp: mmu_create_kernel_mappings_def bind_Some dest!: currents)

lemma m_current_fetch [currents]: "mmu_mapping_fetch p s = Some (m, s') \<Longrightarrow> m_current s' = m_current s"
  by (auto simp: mmu_mapping_fetch_def bind_Some split: option.splits dest!: currents)

lemma m_current_alloc [currents]: "mmu_alloc p addr sz s = Some (r, s') \<Longrightarrow> m_current s' = m_current s"
  by (auto simp: mmu_alloc_def bind_Some dest!: currents)

lemma m_current_ttb: "mmu_set_ttb p s = Some (r, s') \<Longrightarrow> m_current s' = p \<and> r = m_current s"
  by (auto simp: mmu_set_ttb_def bind_Some dest!: currents)

subsection \<open>Changes to the memory in use only\<close>

text \<open>The space in use, the run queue, and the memory of all processes but one.\<close>

definition space :: "kernel \<Rightarrow> pid" where
  "space k = m_current (k_mmu k)"

definition rest_of :: "pid \<Rightarrow> kernel \<Rightarrow> pid \<times> pid list \<times> (pid \<Rightarrow> (u32 \<Rightarrow> u8) option)" where
  "rest_of p k = (space k, k_run k, \<lambda>q. if q = p then None else Some (k_user k q))"

abbreviation rest :: "kernel \<Rightarrow> pid \<times> pid list \<times> (pid \<Rightarrow> (u32 \<Rightarrow> u8) option)" where
  "rest k \<equiv> rest_of (space k) k"

lemma rest_simps [simp]:
  "rest_of p (k\<lparr>k_files := a1\<rparr>) = rest_of p k" "rest_of p (k\<lparr>k_pipes := a2\<rparr>) = rest_of p k" "rest_of p (k\<lparr>k_states := a3\<rparr>) = rest_of p k"
  "rest_of p (k\<lparr>k_procs := a4\<rparr>) = rest_of p k" "rest_of p (k\<lparr>k_all := a5\<rparr>) = rest_of p k"
  "rest_of p (k\<lparr>k_current := a6\<rparr>) = rest_of p k" "rest_of p (k\<lparr>k_max_id := a7\<rparr>) = rest_of p k" "rest_of p (k\<lparr>k_next_file := a7\<rparr>) = rest_of p k"
  "rest_of p (k\<lparr>k_next_pipe := a7\<rparr>) = rest_of p k" "rest_of p (k\<lparr>k_child_waitq := a5\<rparr>) = rest_of p k" "rest_of p (k\<lparr>k_terminal := a8\<rparr>) = rest_of p k"
  "rest_of p (k\<lparr>k_vfs := a9\<rparr>) = rest_of p k" "rest_of p (k\<lparr>k_tty := b1\<rparr>) = rest_of p k" "rest_of p (k\<lparr>k_shutdown := b2\<rparr>) = rest_of p k"
  "rest_of p (k\<lparr>k_mmu := (k_mmu k)\<lparr>m_buddy := b3\<rparr>\<rparr>) = rest_of p k"
  by (simp_all add: rest_of_def space_def fun_eq_iff)

lemma space_simps [simp]:
  "space (k\<lparr>k_files := a1\<rparr>) = space k" "space (k\<lparr>k_pipes := a2\<rparr>) = space k" "space (k\<lparr>k_states := a3\<rparr>) = space k"
  "space (k\<lparr>k_procs := a4\<rparr>) = space k" "space (k\<lparr>k_all := a5\<rparr>) = space k" "space (k\<lparr>k_run := a5\<rparr>) = space k"
  "space (k\<lparr>k_current := a6\<rparr>) = space k" "space (k\<lparr>k_max_id := a7\<rparr>) = space k" "space (k\<lparr>k_next_file := a7\<rparr>) = space k"
  "space (k\<lparr>k_next_pipe := a7\<rparr>) = space k" "space (k\<lparr>k_child_waitq := a5\<rparr>) = space k" "space (k\<lparr>k_terminal := a8\<rparr>) = space k"
  "space (k\<lparr>k_vfs := a9\<rparr>) = space k" "space (k\<lparr>k_tty := b1\<rparr>) = space k" "space (k\<lparr>k_shutdown := b2\<rparr>) = space k"
  "space (k\<lparr>k_mmu := (k_mmu k)\<lparr>m_buddy := b3\<rparr>\<rparr>) = space k" "space (k\<lparr>k_user := b4\<rparr>) = space k"
  "space (upd_proc q g k) = space k" "space (set_proc q x k) = space k" "space (set_slot q i v k) = space k" "space (set_file f y k) = space k"
  "space (set_cloexec q i k) = space k" "space (clear_cloexec q i k) = space k"
  by (simp_all add: space_def upd_proc_def set_proc_def set_slot_def set_file_def set_cloexec_def clear_cloexec_def)

lemma rest_upd [simp]:
  "rest_of p (upd_proc q g k) = rest_of p k" "rest_of p (set_proc q x k) = rest_of p k" "rest_of p (set_slot q i v k) = rest_of p k" "rest_of p (set_file f y k) = rest_of p k"
  "rest_of p (set_cloexec q i k) = rest_of p k" "rest_of p (clear_cloexec q i k) = rest_of p k"
  by (simp_all add: upd_proc_def set_proc_def set_slot_def set_file_def set_cloexec_def clear_cloexec_def)

lemma rest_spaceD: "rest_of p k' = rest_of q k \<Longrightarrow> space k' = space k"
  by (simp add: rest_of_def)

lemma rest_runD: "rest_of p k' = rest_of q k \<Longrightarrow> k_run k' = k_run k"
  by (simp add: rest_of_def)

lemma rest_trans: "rest k1 = rest k \<Longrightarrow> rest k2 = rest k1 \<Longrightarrow> rest k2 = rest k"
  by simp

named_theorems rests \<open>operations that change no memory but that of the space in use\<close>

lemma rest_store8 [rests]: "store8 a v k = Some k' \<Longrightarrow> rest k' = rest k"
  by (auto simp: store8_def Let_def rest_of_def space_def fun_eq_iff split: if_splits)

lemma rest_store_bytes [rests]: "store_bytes a bs k = Some k' \<Longrightarrow> rest k' = rest k"
  by (induction a bs k rule: store_bytes.induct) (auto simp: bind_Some dest: rest_store8)

lemma rest_store32 [rests]: "store32 a w k = Some k' \<Longrightarrow> rest k' = rest k"
  by (simp add: store32_def rest_store_bytes)

lemma rest_map_pages [rests]: "map_pages p a sz k = Some (r, k') \<Longrightarrow> p = space k \<Longrightarrow> rest k' = rest k"
  by (auto simp: map_pages_def bind_Some Let_def rest_of_def space_def fun_eq_iff dest!: currents)

lemma rest_take_page [rests]: "take_page n k = Some (r, k') \<Longrightarrow> rest k' = rest k"
  by (auto simp: take_page_def bind_Some)

lemma rest_drop_page [rests]: "drop_page n k = Some k' \<Longrightarrow> rest k' = rest k"
  by (auto simp: drop_page_def bind_Some)

subsection \<open>Descriptors\<close>

lemma post_outcomes:
  "(\<And>n bs. out = Read_Return n bs \<Longrightarrow> post (f1 n bs) P) \<Longrightarrow> (\<And>bs. out = Read_Sleep bs \<Longrightarrow> post (f2 bs) P) \<Longrightarrow> (\<And>bs. out = Read_Next bs \<Longrightarrow> post (f3 bs) P) \<Longrightarrow>
     post (case out of Read_Return n bs \<Rightarrow> f1 n bs | Read_Sleep bs \<Rightarrow> f2 bs | Read_Next bs \<Rightarrow> f3 bs) P"
  "(\<And>n. out' = Write_Return n \<Longrightarrow> post (g1 n) P) \<Longrightarrow> (out' = Write_Broken \<Longrightarrow> post g2 P) \<Longrightarrow> (\<And>n. out' = Write_Sleep n \<Longrightarrow> post (g3 n) P) \<Longrightarrow>
     (\<And>n. out' = Write_Next n \<Longrightarrow> post (g4 n) P) \<Longrightarrow>
     post (case out' of Write_Return n \<Rightarrow> g1 n | Write_Broken \<Rightarrow> g2 | Write_Sleep n \<Rightarrow> g3 n | Write_Next n \<Rightarrow> g4 n) P"
  "(\<And>bs. out'' = Tty_Return bs \<Longrightarrow> post (h1 bs) P) \<Longrightarrow> (\<And>bs. out'' = Tty_Sleep_Get bs \<Longrightarrow> post (h2 bs) P) \<Longrightarrow> (\<And>c bs. out'' = Tty_Sleep_Echo c bs \<Longrightarrow> post (h3 c bs) P) \<Longrightarrow>
     post (case out'' of Tty_Return bs \<Rightarrow> h1 bs | Tty_Sleep_Get bs \<Rightarrow> h2 bs | Tty_Sleep_Echo c bs \<Rightarrow> h3 c bs) P"
  "(\<And>x. v = Inl x \<Longrightarrow> post (l x) P) \<Longrightarrow> (\<And>y. v = Inr y \<Longrightarrow> post (r y) P) \<Longrightarrow> post (case v of Inl x \<Rightarrow> l x | Inr y \<Rightarrow> r y) P"
  "(t = FF_UNUSED \<Longrightarrow> post t1 P) \<Longrightarrow> (t = FF_TTY \<Longrightarrow> post t2 P) \<Longrightarrow> (t = FF_INODE \<Longrightarrow> post t3 P) \<Longrightarrow> (t = FF_PIPE \<Longrightarrow> post t4 P) \<Longrightarrow>
     post (case t of FF_UNUSED \<Rightarrow> t1 | FF_TTY \<Rightarrow> t2 | FF_INODE \<Rightarrow> t3 | FF_PIPE \<Rightarrow> t4) P"
  by (simp_all split: read_outcome.split write_outcome.split tty_outcome.split sum.split file_type.split)

text \<open>The shape of the proofs: through the branches of the operation, with the fact for each operation it calls.\<close>

lemma rest_pairI: "c = Some (r, k') \<Longrightarrow> post c (\<lambda>(r, h). rest h = rest k) \<Longrightarrow> rest k' = rest k"
  by (simp add: post_def)

lemma rest_someI: "c = Some k' \<Longrightarrow> post c (\<lambda>h. rest h = rest k) \<Longrightarrow> rest k' = rest k"
  by (simp add: post_def)

lemma rest_someI': "c = Some r \<Longrightarrow> post c (\<lambda>r. rest (snd r) = rest k) \<Longrightarrow> rest (snd r) = rest k"
  by (simp add: post_def)

lemmas rest_rules = rest_pairI rest_someI
lemmas branches = post_rules post_outcomes

lemma rest_release_pipe [rests]: "release_pipe i fl k = Some k' \<Longrightarrow> rest k' = rest k"
  unfolding release_pipe_def Let_def by (erule rest_rules, intro branches; auto simp: post_def dest!: rests)

lemma rest_release_file [rests]: "release_file f k = Some k' \<Longrightarrow> rest k' = rest k"
  unfolding release_file_def Let_def by (erule rest_rules, intro branches; auto simp: post_def split: file_type.split_asm dest!: rests)

lemma rest_countup_file [rests]: "countup_file f k = Some k' \<Longrightarrow> rest k' = rest k"
  unfolding countup_file_def Let_def by (erule rest_rules, intro branches; auto simp: post_def dest!: rests)

lemma rest_alloc_file [rests]: "alloc_file p k = Some (r, k') \<Longrightarrow> rest k' = rest k"
  unfolding alloc_file_def Let_def by (erule rest_rules, intro branches; auto simp: post_def dest!: rests)

lemma rest_process_close [rests]: "process_close fd k = Some (r, k') \<Longrightarrow> rest k' = rest k"
  unfolding process_close_def with_file_def by (erule rest_rules, intro branches; auto simp: post_def dest!: rests)

lemma rest_close_with [rests]: "close_with e fd k = Some (r, k') \<Longrightarrow> rest k' = rest k"
  unfolding close_with_def by (erule rest_rules, intro branches; auto simp: post_def dest!: rests)

lemma rest_open_dentry [rests]: "open_dentry fd f d fl k = Some (r, k') \<Longrightarrow> rest k' = rest k"
  unfolding open_dentry_def Let_def by (erule rest_rules, intro branches; auto simp: post_def dest!: rests)

lemma rest_open_path [rests]: "open_path path fd f fl mode k = Some (r, k') \<Longrightarrow> rest k' = rest k"
  unfolding open_path_def Let_def by (erule rest_rules, intro branches; auto simp: post_def dest!: rests)

lemma rest_process_open [rests]: "process_open path fl mode k = Some (r, k') \<Longrightarrow> rest k' = rest k"
  unfolding process_open_def by (erule rest_rules, intro branches; auto simp: post_def dest!: rests)

lemma rest_process_kill [rests]: "process_kill pid sig k = Some (r, k') \<Longrightarrow> rest k' = rest k"
  unfolding process_kill_def by (erule rest_rules, intro branches; auto simp: post_def dest!: rests)

lemma rest_run_pipe_read [rests]: "run_pipe_read i addr sz got k = Some (r, k') \<Longrightarrow> rest k' = rest k"
  unfolding run_pipe_read_def Let_def by (erule rest_rules, intro branches; auto simp: post_def dest!: rests)

lemma rest_run_pipe_write [rests]: "run_pipe_write i addr sz n k = Some (r, k') \<Longrightarrow> rest k' = rest k"
  unfolding run_pipe_write_def Let_def by (erule rest_rules, intro branches; auto simp: post_def dest!: rests)

lemma rest_end_tty_read [rests]: "end_tty_read addr sz k out = Some (r, k') \<Longrightarrow> rest k' = rest k"
  unfolding end_tty_read_def Let_def by (erule rest_rules, intro branches; auto simp: post_def dest!: rests)

lemma rest_end_tty_write [rests]: "end_tty_write addr sz k out = Some (r, k') \<Longrightarrow> rest k' = rest k"
  unfolding end_tty_write_def Let_def by (erule rest_rules, intro branches; auto simp: post_def dest!: rests)

lemma rest_process_write [rests]: "process_write fd a n k = Some (r, k') \<Longrightarrow> rest k' = rest k"
  unfolding process_write_def with_file_def Let_def by (erule rest_rules, intro branches; auto simp: post_def dest!: rests)

lemma rest_process_read [rests]: "process_read fd a n k = Some (r, k') \<Longrightarrow> rest k' = rest k"
  unfolding process_read_def with_file_def Let_def by (erule rest_rules, intro branches; auto simp: post_def dest!: rests)

lemma rest_process_llseek [rests]: "process_llseek fd off w k = Some (r, k') \<Longrightarrow> rest k' = rest k"
  unfolding process_llseek_def with_file_def Let_def by (erule rest_rules, intro branches; auto simp: post_def dest!: rests)

lemma rest_store_stat [rests]: "store_stat buf st k = Some k' \<Longrightarrow> rest k' = rest k"
  unfolding store_stat_def by (erule rest_rules, intro branches; auto simp: post_def dest!: rests)

lemma rest_process_fstat64 [rests]: "process_fstat64 fd buf k = Some (r, k') \<Longrightarrow> rest k' = rest k"
  unfolding process_fstat64_def with_file_def by (erule rest_rules, intro branches; auto simp: post_def dest!: rests)

lemma rest_process_ioctl [rests]: "process_ioctl fd request argp k = Some (r, k') \<Longrightarrow> rest k' = rest k"
  unfolding process_ioctl_def with_file_def by (erule rest_rules, intro branches; auto simp: post_def simp del: store_bytes.simps dest!: rests)

lemma rest_process_dupfd [rests]: "process_dupfd fd from flags k = Some (r, k') \<Longrightarrow> rest k' = rest k"
  unfolding process_dupfd_def with_file_def Let_def by (erule rest_rules, intro branches; auto simp: post_def dest!: rests)

lemma rest_dup_to [rests]: "dup_to f fd flags k = Some (r, k') \<Longrightarrow> rest k' = rest k"
  unfolding dup_to_def Let_def by (erule rest_rules, intro branches; auto simp: post_def split: if_split_asm dest!: rests)

lemma rest_process_dup2 [rests]: "process_dup2 fd fd2 k = Some (r, k') \<Longrightarrow> rest k' = rest k"
  unfolding process_dup2_def with_file_def by (erule rest_rules, intro branches; auto simp: post_def dest!: rests)

lemma rest_process_dup3 [rests]: "process_dup3 fd fd2 flags k = Some (r, k') \<Longrightarrow> rest k' = rest k"
  unfolding process_dup3_def with_file_def by (erule rest_rules, intro branches; auto simp: post_def dest!: rests)

lemma rest_process_fcntl64 [rests]: "process_fcntl64 fd cmd a k = Some (r, k') \<Longrightarrow> rest k' = rest k"
  unfolding process_fcntl64_def with_file_def by (erule rest_rules, intro branches; auto simp: post_def dest!: rests)

lemma rest_new_pipe [rests]: "new_pipe k = Some (r, k') \<Longrightarrow> rest k' = rest k"
  unfolding new_pipe_def Let_def by (erule rest_rules, intro branches; auto simp: post_def dest!: rests)

lemma rest_connect_pipe [rests]: "connect_pipe rd wr flags k = Some k' \<Longrightarrow> rest k' = rest k"
  unfolding connect_pipe_def Let_def by (erule rest_rules, intro branches; auto simp: post_def dest!: rests)

lemma rest_process_pipe2 [rests]: "process_pipe2 pipefd flags k = Some (r, k') \<Longrightarrow> rest k' = rest k"
  unfolding process_pipe2_def Let_def by (erule rest_rules, intro branches; auto simp: post_def dest!: rests)

subsection \<open>Memory and programs\<close>

text \<open>In a system call the current process is in its own space.\<close>

definition located :: "kernel \<Rightarrow> bool" where
  "located k \<longleftrightarrow> k_current k = Some (space k)"

lemma located_cong: "core k' = core k \<Longrightarrow> rest k' = rest k \<Longrightarrow> located k' \<longleftrightarrow> located k"
  using rest_spaceD [of _ k' _ k] coreD(1) [of k' k] by (simp add: located_def)

lemma locatedD: "located k \<Longrightarrow> current k = Some (p, x) \<Longrightarrow> p = space k"
  by (auto simp: located_def current_def bind_Some)

lemma rest_getdents_loop: "getdents_loop f ino data sz n k = Some r \<Longrightarrow> rest (snd r) = rest k"
  by (erule getdents_loop.raw_induct [where P = "\<lambda>f ino data sz n k r. rest (snd r) = rest k", rotated], erule rest_someI', unfold Let_def, intro branches)
    (auto simp: post_def dest!: rests)

lemma rest_process_getdents64 [rests]: "process_getdents64 fd data sz k = Some (r, k') \<Longrightarrow> rest k' = rest k"
  unfolding process_getdents64_def with_file_def by (erule rest_rules, intro branches; auto simp: post_def dest!: rest_getdents_loop)

lemma rest_grow_heap: "grow_heap p cur end k = Some r \<Longrightarrow> p = space k \<Longrightarrow> rest (snd r) = rest k"
  by (erule grow_heap.raw_induct [where P = "\<lambda>p cur e k r. p = space k \<longrightarrow> rest (snd r) = rest k", rotated, THEN mp])
    (fastforce simp: bind_Some split: if_splits dest: rest_map_pages rest_spaceD)+

lemma rest_grow_stack: "grow_stack p cur base k = Some r \<Longrightarrow> p = space k \<Longrightarrow> rest (snd r) = rest k"
  by (erule grow_stack.raw_induct [where P = "\<lambda>p cur e k r. p = space k \<longrightarrow> rest (snd r) = rest k", rotated, THEN mp])
    (fastforce simp: bind_Some split: if_splits dest: rest_map_pages rest_spaceD)+

lemma rest_process_brk: "process_brk a k = Some (r, k') \<Longrightarrow> located k \<Longrightarrow> rest k' = rest k"
  unfolding process_brk_def Let_def by (erule rest_rules, intro branches; auto dest!: locatedD rest_grow_heap)

lemma rest_process_demand_page: "process_demand_page a k = Some (r, k') \<Longrightarrow> located k \<Longrightarrow> rest k' = rest k"
  unfolding process_demand_page_def Let_def by (erule rest_rules, intro branches; auto dest!: locatedD rest_grow_stack)

lemma rest_push_to_stack [rests]: "push_to_stack sp data k = Some (r, k') \<Longrightarrow> rest k' = rest k"
  unfolding push_to_stack_def Let_def by (erule rest_rules, intro branches; auto simp: post_def dest!: rests)

lemma rest_set_mask [simp]: "rest_of p (set_mask q m k) = rest_of p k" "space (set_mask q m k) = space k"
  by (simp_all add: set_mask_def)

lemma rest_process_sigaction [rests]: "process_sigaction sig a b k = Some (r, k') \<Longrightarrow> rest k' = rest k"
  unfolding process_sigaction_def Let_def by (erule rest_rules, intro branches; auto simp: post_def bind_Some split: if_split_asm dest!: rests)

lemma rest_process_sigprocmask [rests]: "process_sigprocmask how a b k = Some (r, k') \<Longrightarrow> rest k' = rest k"
  unfolding process_sigprocmask_def Let_def by (erule rest_rules, intro branches; auto simp: post_def bind_Some split: if_split_asm dest!: rests)

lemma rest_process_sigreturn [rests]: "process_sigreturn k = Some k' \<Longrightarrow> rest k' = rest k"
  unfolding process_sigreturn_def by (erule rest_rules, intro branches; auto simp: post_def dest!: rests)

lemma rest_deliver_signal [rests]: "deliver_signal p x k = Some (r, k') \<Longrightarrow> rest k' = rest k"
  unfolding deliver_signal_def Let_def by (erule rest_rules, intro branches; auto simp: post_def dest!: rests)

lemma rest_load_executable [rests]: "load_executable path k = Some (e, ex, k') \<Longrightarrow> rest k' = rest k"
  by (auto simp: load_executable_def bind_Some rest_of_def space_def fun_eq_iff)

lemma rest_release_executable [rests]: "release_executable ex k = Some k' \<Longrightarrow> rest k' = rest k"
  unfolding release_executable_def by (erule rest_rules, intro branches; auto simp: post_def dest!: rests)

lemma rest_elf_copy [rests]: "elf_copy ex k = Some k' \<Longrightarrow> rest k' = rest k"
  unfolding elf_copy_def by (erule rest_rules, intro branches; auto simp: post_def dest!: rests)

lemma rest_copy_strings [rests]: "copy_strings ss a b k = Some (x, y, k') \<Longrightarrow> rest k' = rest k"
  by (induction ss a b k rule: copy_strings.induct) (fastforce simp: bind_Some dest: rest_store32 rest_store_bytes)+

lemma rest_copy_argv_and_envp [rests]: "copy_argv_and_envp av a k = Some (r, k') \<Longrightarrow> rest k' = rest k"
  unfolding copy_argv_and_envp_def Let_def by (erule rest_rules, intro branches; auto simp: post_def dest!: rests)

lemma rest_release_argv_and_envp [rests]: "release_argv_and_envp av k = Some k' \<Longrightarrow> rest k' = rest k"
  unfolding release_argv_and_envp_def by (erule rest_rules, intro branches; auto simp: post_def dest!: rests)

lemma rest_prepare_argv_and_envp [rests]: "prepare_argv_and_envp argv envp k = Some (r, k') \<Longrightarrow> rest k' = rest k"
  unfolding prepare_argv_and_envp_def Let_def by (erule rest_rules, intro branches; auto simp: post_def dest!: rests)

lemma rest_alloc_segments: "alloc_segments p sgs k = Some k' \<Longrightarrow> p = space k \<Longrightarrow> rest k' = rest k"
proof (induction sgs arbitrary: k)
  case (Cons sg sgs)
  then obtain a b n k1 where k1: "map_pages p a (b - a) k = Some (n, k1)" "alloc_segments p sgs k1 = Some k'" by (auto simp: bind_Some)
  have "rest k1 = rest k" by (rule rest_map_pages [OF k1(1) Cons.prems(2)])
  with Cons.IH [OF k1(2)] Cons.prems(2) rest_spaceD show ?case by metis
qed simp

lemma rest_start_program:
  assumes "start_program p ex av k = Some k'" "p = space k"
  shows "rest k' = rest k"
  using assms unfolding start_program_def by (auto simp: bind_Some dest!: rest_alloc_segments rests)

lemma rest_set_segments [simp]: "rest_of q (set_segments p ex k) = rest_of q k" "space (set_segments p ex k) = space k"
  by (simp_all add: set_segments_def)

lemma rest_close_marked [rests]: "close_marked p is k = Some k' \<Longrightarrow> rest k' = rest k"
proof (induction "is" arbitrary: k k')
  case (Cons i "is")
  show ?case by (rule rest_someI [OF Cons.prems], unfold close_marked.simps, intro branches) (auto simp: post_def dest!: rests Cons.IH)
qed simp

text \<open>The tables of a process that goes are left for those of the kernel; the caller enters its own again.\<close>

lemma leave_space:
  assumes "destroy_mapping p k = Some k1" "switch_ttb me k1 = Some (u, k2)" "me = space k"
  shows "rest k2 = rest k"
  using assms by (auto simp: destroy_mapping_def switch_ttb_def bind_Some rest_of_def space_def fun_eq_iff dest!: m_current_ttb)

lemma rest_process_exec:
  assumes "process_exec path argv envp k = Some (r, k')" "located k"
  shows "rest k' = rest k"
proof -
  obtain p x av k1 where k1: "current k = Some (p, x)" "prepare_argv_and_envp argv envp k = Some (av, k1)"
    using assms(1) by (auto simp: process_exec_def bind_Some)
  note r1 = rest_prepare_argv_and_envp [OF k1(2)]
  show ?thesis
  proof (cases av)
    case (Inl e)
    then show ?thesis using assms(1) k1 r1 by (simp add: process_exec_def)
  next
    case (Inr w)
    obtain e ex k2 where k2: "load_executable path k1 = Some (e, ex, k2)" using assms(1) k1 Inr by (auto simp: process_exec_def bind_Some)
    have r2: "rest k2 = rest k" using rest_load_executable [OF k2] r1 by simp
    show ?thesis
    proof (cases "e < 0")
      case True
      then show ?thesis using assms(1) k1 k2 Inr r2 by (auto simp: process_exec_def bind_Some dest!: rests)
    next
      case False
      let ?k = "upd_proc p (\<lambda>x. x\<lparr>pr_signal := reset_handlers (pr_signal x)\<rparr>) (set_segments p ex k2)"
      obtain k3 k4 u k5 where k3: "close_marked p [0..<MAX_FD_SIZE] ?k = Some k3" "destroy_mapping p k3 = Some k4" "switch_ttb p k4 = Some (u, k5)" "start_program p ex w k5 = Some k'"
        using assms(1) k1 k2 Inr False by (auto simp: process_exec_def bind_Some Let_def)
      have r3: "rest k3 = rest k" using rest_close_marked [OF k3(1)] r2 by simp
      have p: "p = space k" by (rule locatedD [OF assms(2) k1(1)])
      have r5: "rest k5 = rest k" using leave_space [OF k3(2,3)] p r3 rest_spaceD [OF r3] by simp
      show ?thesis using rest_start_program [OF k3(4)] p r5 rest_spaceD [OF r5] by simp
    qed
  qed
qed

lemma rest_unlink: "p \<notin> set (k_run k) \<Longrightarrow> rest_of q (unlink_process p k) = rest_of q k"
  by (simp add: unlink_process_def rest_of_def space_def remove1_idem fun_eq_iff)

lemma space_unlink [simp]: "space (unlink_process p k) = space k"
  by (simp add: unlink_process_def)

lemma rest_set_parents [simp]: "rest_of q (set_parents g cs k) = rest_of q k" "space (set_parents g cs k) = space k"
  unfolding set_parents_def by (induction cs arbitrary: k) simp_all

lemma rest_adopt [simp]: "rest_of q (adopt cs k) = rest_of q k" "space (adopt cs k) = space k"
  by (simp_all add: adopt_def split: option.split)

lemma rest_process_destroy: "process_destroy p k = Some k' \<Longrightarrow> p \<notin> set (k_run k) \<Longrightarrow> located k \<Longrightarrow> rest k' = rest k"
proof -
  assume q: "p \<notin> set (k_run k)" and a: "process_destroy p k = Some k'" "located k"
  then obtain me x page k1 k2 u k3 where k: "current k = Some (me, x)" "drop_page page (adopt (pr_children (the (k_procs k p))) (unlink_process p k)) = Some k1"
    "destroy_mapping p k1 = Some k2" "switch_ttb me k2 = Some (u, k3)" "k' = k3\<lparr>k_procs := (k_procs k3)(p := None)\<rparr>"
    by (auto simp: process_destroy_def bind_Some Let_def split: if_splits)
  have r1: "rest k1 = rest k" using rest_drop_page [OF k(2)] rest_unlink [OF q] by simp
  then have "rest k3 = rest k" using leave_space [OF k(3,4)] locatedD [OF a(2) k(1)] rest_spaceD [OF r1] by simp
  then show ?thesis by (simp add: k(5))
qed

lemma rest_close_all [rests]: "close_all p is k = Some k' \<Longrightarrow> rest k' = rest k"
proof (induction "is" arbitrary: k k')
  case (Cons i "is")
  show ?case by (rule rest_someI [OF Cons.prems], unfold close_all.simps, intro branches) (auto simp: post_def dest!: rests Cons.IH)
qed simp

lemma rest_process_exit [rests]: "process_exit status k = Some k' \<Longrightarrow> rest k' = rest k"
  unfolding process_exit_def Let_def system_shutdown_def
  by (erule rest_rules, intro branches; auto simp del: close_all.simps upt_rec_numeral split: prod.splits dest!: rests)

text \<open>A child that is waited for is dead, and no dead process is in the run queue.\<close>

definition undead :: "kernel \<Rightarrow> bool" where
  "undead k \<longleftrightarrow> (\<forall>q \<in> set (k_run k). k_states k q \<noteq> STATE_DEAD)"

lemma undeadD: "undead k \<Longrightarrow> find (\<lambda>c. k_states k c = STATE_DEAD) cs = Some c \<Longrightarrow> c \<notin> set (k_run k)"
  by (auto simp: undead_def find_Some_iff)

lemma rest_run_wait: "run_wait status k = Some (r, k') \<Longrightarrow> located k \<Longrightarrow> undead k \<Longrightarrow> rest k' = rest k"
  unfolding run_wait_def Let_def by (erule rest_rules, intro branches; auto dest!: rest_process_destroy [OF _ undeadD] rests)

lemma rest_process_wait: "process_wait status k = Some (r, k') \<Longrightarrow> located k \<Longrightarrow> undead k \<Longrightarrow> rest k' = rest k"
  unfolding process_wait_def by (erule rest_rules, intro branches; auto simp: post_def dest!: rest_run_wait)

subsection \<open>Fork\<close>

text \<open>A fork writes to the memory of the new process, and to no other.\<close>

lemma fork_copy_pages:
  assumes "copy_pages p cur end k = Some k'" "located k"
  shows "rest_of p k' = rest_of p k"
proof -
  have "located k \<longrightarrow> rest_of p k' = rest_of p k"
  proof (rule copy_pages.raw_induct [where P = "\<lambda>p cur e k k'. located k \<longrightarrow> rest_of p k' = rest_of p k", OF _ assms(1)])
    fix rec p cur e k k'
    assume IH: "\<And>p cur e k k'. rec p cur e k = Some k' \<Longrightarrow> located k \<longrightarrow> rest_of p k' = rest_of p k"
      and r: "(if cur < e then Option.bind (k_current k) (\<lambda>me. Option.bind (load_bytes cur PAGE_SIZE k) (\<lambda>buf.
        Option.bind (map_pages p cur (of_nat PAGE_SIZE) k) (\<lambda>(_, k). Option.bind (switch_ttb p k) (\<lambda>(_, k). Option.bind (store_bytes cur buf k) (\<lambda>k.
        Option.bind (switch_ttb me k) (\<lambda>(_, k). rec p (cur + of_nat PAGE_SIZE) e k)))))) else Some k) = Some k'"
    show "located k \<longrightarrow> rest_of p k' = rest_of p k"
    proof (cases "cur < e")
      case True
      then obtain me buf n k1 u k2 k3 v k4 where k: "k_current k = Some me" "map_pages p cur (of_nat PAGE_SIZE) k = Some (n, k1)" "switch_ttb p k1 = Some (u, k2)"
        "store_bytes cur buf k2 = Some k3" "switch_ttb me k3 = Some (v, k4)" "rec p (cur + of_nat PAGE_SIZE) e k4 = Some k'"
        using r by (auto simp: bind_Some)
      have c: "core k4 = core k" using k(2-5) by (auto simp del: store_bytes.simps dest!: cores)
      have s2: "space k2 = p" "k_user k2 = k_user k1" using k(3) by (auto simp: switch_ttb_def bind_Some space_def dest!: m_current_ttb)
      have s4: "space k4 = me" "k_user k4 = k_user k3" using k(5) by (auto simp: switch_ttb_def bind_Some space_def dest!: m_current_ttb)
      have u1: "k_user k1 q = k_user k q" if "q \<noteq> p" for q using k(2) that by (auto simp: map_pages_def bind_Some Let_def)
      have u3: "k_user k3 q = k_user k2 q" if "q \<noteq> p" for q
        using rest_store_bytes [OF k(4)] rest_spaceD [OF rest_store_bytes [OF k(4)]] s2(1) that by (auto simp: rest_of_def fun_eq_iff split: if_splits)
      have l: "located k4" using coreD(1) [OF c] k(1) s4(1) by (simp add: located_def)
      have "rest_of p k4 = rest_of p k" if "located k" using that k(1) s4 u1 u3 s2(2) coreD(3) [OF c] by (auto simp: rest_of_def located_def fun_eq_iff)
      then show ?thesis using IH [OF k(6)] l by simp
    qed (use r in simp)
  qed
  then show ?thesis using assms(2) by simp
qed

lemma fork_copy_segment:
  assumes "copy_segment p sg k = Some k'" "located k"
  shows "rest_of p k' = rest_of p k"
proof -
  obtain start e page k1 k2 where k: "take_page PAGE_SIZE k = Some (page, k1)" "copy_pages p start e k1 = Some k2" "drop_page page k2 = Some k'"
    using assms(1) by (auto simp: copy_segment_def bind_Some)
  have 1: "rest_of p k1 = rest_of p k" using k(1) by (auto simp: take_page_def bind_Some)
  have 3: "rest_of p k' = rest_of p k2" using k(3) by (auto simp: drop_page_def bind_Some)
  have "located k1" using assms(2) coreD(1) [OF core_take_page [OF k(1)]] rest_spaceD [OF 1] by (simp add: located_def)
  from fork_copy_pages [OF k(2) this] 1 3 show ?thesis by simp
qed

lemma fork_copy_segments:
  assumes "copy_segments p sgs k = Some k'" "located k"
  shows "rest_of p k' = rest_of p k"
  using assms
proof (induction sgs arbitrary: k)
  case (Cons sg sgs)
  then obtain k1 where k1: "copy_segment p sg k = Some k1" "copy_segments p sgs k1 = Some k'" by (auto simp: bind_Some)
  note r = fork_copy_segment [OF k1(1) Cons.prems(2)]
  have "located k1" using Cons.prems(2) coreD(1) [OF core_copy_segment [OF k1(1)]] rest_spaceD [OF r] by (simp add: located_def)
  with Cons.IH [OF k1(2)] r show ?case by simp
qed simp

lemma fork_countup_files: "countup_files fs k = Some k' \<Longrightarrow> rest_of p k' = rest_of p k"
proof (induction fs k rule: countup_files.induct)
  case (3 f fs k)
  then obtain k1 where k1: "countup_file f k = Some k1" "countup_files fs k1 = Some k'" by (auto simp: bind_Some)
  have "post (countup_file f k) (\<lambda>h. rest_of p h = rest_of p k)" unfolding countup_file_def Let_def by (intro branches; simp)
  then have "rest_of p k1 = rest_of p k" using k1(1) by (simp add: post_def)
  then show ?case using 3(1) [OF k1] by simp
qed simp_all

lemma process_fork_rest:
  assumes "process_fork c k = Some (r, k')" "located k"
  shows "rest_of (k_max_id k) k' = rest_of (k_max_id k) k"
proof -
  let ?p = "k_max_id k"
  obtain me x p k1 k2 k3 where k: "current k = Some (me, x)" "process_alloc k = Some (p, k1)"
    "copy_segments p (pr_segments x) (upd_proc p (\<lambda>x'. x'\<lparr>pr_parent := me, pr_context := c\<lparr>c_r := (c_r c)[0 := 0]\<rparr>, pr_brk := pr_brk x, pr_segments := pr_segments x\<rparr>)
       (upd_proc me (\<lambda>x. x\<lparr>pr_children := p # pr_children x\<rparr>) k1)) = Some k2"
    "countup_files (pr_files x) (upd_proc p (\<lambda>y. y\<lparr>pr_files := pr_files x\<rparr>) k2) = Some k3" "k' = upd_proc p (\<lambda>y. y\<lparr>pr_signal := pr_signal x\<rparr>) k3"
    using assms(1) by (auto simp: process_fork_def bind_Some Let_def)
  have p: "p = ?p" "rest_of ?p k1 = rest_of ?p k" "k_current k1 = k_current k"
    using k(2) by (auto simp: process_alloc_def bind_Some Let_def take_page_def rest_of_def space_def set_proc_def split: if_splits)
  have l: "located (upd_proc p (\<lambda>x'. x'\<lparr>pr_parent := me, pr_context := c\<lparr>c_r := (c_r c)[0 := 0]\<rparr>, pr_brk := pr_brk x, pr_segments := pr_segments x\<rparr>)
       (upd_proc me (\<lambda>x. x\<lparr>pr_children := p # pr_children x\<rparr>) k1))"
    using assms(2) p(3) rest_spaceD [OF p(2)] by (simp add: located_def)
  show ?thesis using fork_copy_segments [OF k(3) l] fork_countup_files [OF k(4), of p] p by (simp add: k(5))
qed

subsection \<open>System calls\<close>

abbreviation rested :: "kernel \<Rightarrow> kernel \<Rightarrow> bool" where
  "rested k h \<equiv> rest h = rest k"

lemma rest_set_return [rests]: "set_return w k = Some k' \<Longrightarrow> rest k' = rest k"
  by (auto simp: set_return_def bind_Some)

lemma rest_finish_call [rests]: "finish_call c k = Some k' \<Longrightarrow> rest k' = rest k"
  by (auto simp: finish_call_def bind_Some split: call.splits dest!: rest_set_return)

lemma rest_answers:
  "(\<And>r h. c = Some (r, h) \<Longrightarrow> rested k h) \<Longrightarrow> post (answer c) (rested k)"
  "post (fault k) (rested k)"
  "(\<And>r h. c' = Some (r, h) \<Longrightarrow> rested k h) \<Longrightarrow> post (blocking c') (rested k)"
  "(\<And>r h. c'' = Some (r, h) \<Longrightarrow> rested k h) \<Longrightarrow> post (answer_call c'') (rested k)"
  "post (answer_vfs v k) (rested k)"
  "(\<And>path. post (body path) (rested k)) \<Longrightarrow> post (with_path a k body) (rested k)"
  "post (set_return w k) (rested k)"
  unfolding answer_def fault_def blocking_def answer_call_def answer_vfs_def with_path_def
  by (intro branches post_all; auto simp: post_def dest!: rests)+

lemma rest_store_names [rests]: "store_names a ss k = Some k' \<Longrightarrow> rest k' = rest k"
  by (induction a ss k rule: store_names.induct) (fastforce simp: bind_Some dest: rest_store_bytes)+

lemma rest_system_uname [rests]: "system_uname cfg uts k = Some (r, k') \<Longrightarrow> rest k' = rest k"
  by (auto simp del: store_names.simps simp: system_uname_def bind_Some dest!: rests)

lemma rest_emulate_readv: "post (emulate_readv n fd iov m i got k) (\<lambda>(c, h). rest h = rest k)"
proof (induction n arbitrary: i got k)
  case (Suc n)
  have IH: "rest h = rest k" if "emulate_readv n fd iov m i got k = Some (c, h)" for i got k c h using Suc.IH [of i got k] that by (simp add: post_def)
  show ?case unfolding emulate_readv.simps by (intro branches post_io; auto simp: post_def dest!: rests IH)
qed simp

lemma rest_emulate_writev: "post (emulate_writev n fd iov m i sent k) (\<lambda>(c, h). rest h = rest k)"
proof (induction n arbitrary: i sent k)
  case (Suc n)
  have IH: "rest h = rest k" if "emulate_writev n fd iov m i sent k = Some (c, h)" for i sent k c h using Suc.IH [of i sent k] that by (simp add: post_def)
  show ?case unfolding emulate_writev.simps by (intro branches post_io; auto simp: post_def dest!: rests IH)
qed simp

lemma rest_readv_writev [rests]:
  "emulate_readv n fd iov m i got k = Some (c, k') \<Longrightarrow> rest k' = rest k"
  "emulate_writev n fd iov m i got k = Some (c, k') \<Longrightarrow> rest k' = rest k"
  using rest_emulate_readv [of n fd iov m i got k] rest_emulate_writev [of n fd iov m i got k] by (simp_all add: post_def)

lemma calls_rest:
  assumes "located k" "undead k"
  shows "post (syscall_exit k) (rested k)" "post (syscall_read k) (rested k)" "post (syscall_write k) (rested k)" "post (syscall_open k) (rested k)" "post (syscall_close k) (rested k)"
    "post (syscall_unlink k) (rested k)" "post (syscall_mkdir k) (rested k)" "post (syscall_rmdir k) (rested k)" "post (syscall_dup k) (rested k)" "post (syscall_dup2 k) (rested k)"
    "post (syscall_dup3 k) (rested k)" "post (syscall_pipe k) (rested k)" "post (syscall_pipe2 k) (rested k)" "post (syscall_fcntl64 k) (rested k)" "post (syscall_wait4 k) (rested k)"
    "post (syscall_kill k) (rested k)" "post (syscall_ioctl k) (rested k)" "post (syscall_rt_sigaction k) (rested k)" "post (syscall_rt_sigprocmask k) (rested k)"
    "post (syscall_uname cfg k) (rested k)" "post (syscall_fstat64 k) (rested k)" "post (syscall_getdents64 k) (rested k)" "post (syscall_getpid k) (rested k)" "post (syscall_getppid k) (rested k)" "post (syscall_pass r k) (rested k)"
    "post (syscall_sigreturn k) (rested k)" "post (syscall_readv k) (rested k)" "post (syscall_writev k) (rested k)"
  unfolding syscall_exit_def syscall_read_def syscall_write_def syscall_open_def syscall_close_def syscall_unlink_def syscall_mkdir_def syscall_rmdir_def
    syscall_dup_def syscall_dup2_def syscall_dup3_def syscall_pipe_def process_pipe_def syscall_pipe2_def syscall_fcntl64_def syscall_wait4_def
    syscall_kill_def syscall_ioctl_def syscall_rt_sigaction_def syscall_rt_sigprocmask_def syscall_uname_def syscall_fstat64_def syscall_getdents64_def
    syscall_getpid_def syscall_getppid_def syscall_pass_def syscall_sigreturn_def syscall_readv_def syscall_writev_def process_readv_def process_writev_def
  by (intro branches rest_answers post_all; erule rests rest_process_wait [OF _ assms])+

lemma store_calls_rest:
  assumes "located k"
  shows "post (syscall_brk k) (rested k)" "post (syscall__llseek k) (rested k)" "post (syscall_getcwd k) (rested k)" "post (syscall_lstat64 k) (rested k)" "post (syscall_execve k) (rested k)"
  unfolding syscall_brk_def syscall__llseek_def syscall_getcwd_def syscall_lstat64_def syscall_execve_def Let_def
  by (intro branches rest_answers; auto simp del: store_bytes.simps simp: post_def dest!: rest_process_brk [OF _ assms] rest_process_exec [OF _ assms] rests)+

text \<open>What a handler keeps: the run queue and the memory of the other processes.\<close>

definition kept :: "kernel \<Rightarrow> kernel \<Rightarrow> bool" where
  "kept k k' \<longleftrightarrow> space k' = space k \<and> k_run k' = k_run k \<and> (\<forall>q. q \<in> set (k_all k) \<longrightarrow> q \<noteq> space k \<longrightarrow> k_user k' q = k_user k q)"

lemma kept_rest:
  assumes "rest_of p k' = rest_of p k" "p \<notin> set (k_all k) \<or> p = space k"
  shows "kept k k'"
proof -
  have "k_user k' q = k_user k q" if "q \<noteq> p" for q using assms(1) that by (auto simp: rest_of_def dest!: fun_cong [of _ _ q])
  then show ?thesis using assms(2) rest_spaceD [OF assms(1)] rest_runD [OF assms(1)] unfolding kept_def by metis
qed

lemma rested_kept: "rested k k' \<Longrightarrow> kept k k'"
proof -
  assume r: "rested k k'"
  then show ?thesis using kept_rest [of "space k" k' k] rest_spaceD [OF r] by simp
qed

lemma kept_rested: "kept k k1 \<Longrightarrow> rested k1 k2 \<Longrightarrow> kept k k2"
proof -
  assume a: "kept k k1" "rested k1 k2"
  have "k_user k2 q = k_user k1 q" if "q \<noteq> space k1" for q
    using a(2) rest_spaceD [OF a(2)] that by (auto simp: rest_of_def dest!: fun_cong [of _ _ q])
  then show ?thesis using a(1) rest_spaceD [OF a(2)] rest_runD [OF a(2)] by (simp add: kept_def)
qed

lemma syscall_fork_kept:
  assumes "ok k" "located k"
  shows "post (syscall_fork k) (kept k)"
proof -
  have "k_max_id k \<notin> set (k_all k)" using kinvD(3) [OF okD(1) [OF assms(1)]] unfolding table_inv_def by auto
  then have "kept k h" if "process_fork c k = Some (r, h)" for c r h using kept_rest [OF process_fork_rest [OF that assms(2)]] by blast
  then show ?thesis unfolding syscall_fork_def answer_def
    by (intro branches post_all) (auto intro: kept_rested dest!: rests)
qed

lemma kinv_undead: "kinv d k \<Longrightarrow> undead k"
  using kinvD(5) by (fastforce simp: undead_def run_inv_def)

lemma ok_undead: "ok k \<Longrightarrow> undead k"
  using okD(1) by (rule kinv_undead)

lemma syscall_handler_kept:
  assumes "ok k" "located k"
  shows "post (syscall_handler cfg k) (kept k)"
proof -
  note u = ok_undead [OF assms(1)]
  have r: "post c (kept k)" if "post c (rested k)" for c using that rested_kept unfolding post_def by blast
  have "post (c k) (kept k)" if "(n, c) \<in> set (syscall_table cfg)" for n c
    using that assms u syscall_fork_kept calls_rest [THEN r] store_calls_rest [THEN r] by (auto simp: syscall_table_def syscall_stat64_def)
  then show ?thesis unfolding syscall_handler_def
    by (intro branches) (auto intro: calls_rest [OF assms(2) u, THEN r] dest: map_of_SomeD)
qed

lemma data_abort_kept:
  assumes "located k"
  shows "post (system_data_abort_handler dfsr dfar k) (kept k)"
  unfolding system_data_abort_handler_def
  by (intro branches; auto simp: post_def split: if_split_asm intro!: rested_kept dest!: rests rest_process_demand_page [OF _ assms])

subsection \<open>The scheduler\<close>

lemma run_blocked_rest: "run_blocked b k = Some (r, k') \<Longrightarrow> located k \<Longrightarrow> undead k \<Longrightarrow> rest k' = rest k"
  by (cases b) (auto simp: run_blocked_def bind_Some dest!: rest_run_wait rests)

lemma run_after_rest: "run_after a r k = Some (c, k') \<Longrightarrow> rest k' = rest k"
proof -
  assume r: "run_after a r k = Some (c, k')"
  have "post (run_after a r k) (\<lambda>(c, h). rested k h)"
    by (cases a; simp only: run_after_def after.case; intro branches post_io post_all; auto simp: post_def dest!: rests)
  then show ?thesis using r by (simp add: post_def)
qed

lemma resume_call_rest: "resume_call b a k = Some k' \<Longrightarrow> located k \<Longrightarrow> undead k \<Longrightarrow> rest k' = rest k"
  unfolding resume_call_def by (erule rest_rules, intro branches; auto simp: post_def dest!: run_blocked_rest run_after_rest rests)

text \<open>A pass of the scheduler changes the memory of the process it goes to, or none.\<close>

lemma others_rest: "rest k' = rest k \<Longrightarrow> space k' = space k \<and> (\<forall>q. q \<noteq> space k \<longrightarrow> k_user k' q = k_user k q)"
proof -
  assume r: "rest k' = rest k"
  have "k_user k' q = k_user k q" if "q \<noteq> space k" for q
    using r rest_spaceD [OF r] that by (auto simp: rest_of_def dest!: fun_cong [of _ _ q])
  then show ?thesis using rest_spaceD [OF r] by blast
qed

lemma process_dispatch_others:
  assumes "process_dispatch k = Some (n, k')" "k_current k = Some p" "undead k"
  shows "space k' = p" "\<And>q. q \<noteq> p \<Longrightarrow> k_user k' q = k_user k q" "n = To_User \<Longrightarrow> located k'" "k_run k' = k_run k"
proof -
  obtain x u k1 where k1: "current k = Some (p, x)" "switch_ttb p k = Some (u, k1)" using assms by (auto simp: process_dispatch_def bind_Some current_def)
  have s1: "space k1 = p" "k_user k1 = k_user k" using k1(2) by (auto simp: switch_ttb_def bind_Some space_def dest!: m_current_ttb)
  have c1: "k_current k1 = Some p" "k_run k1 = k_run k" "k_states k1 = k_states k" using coreD(1,3,5) [OF core_switch_ttb [OF k1(2)]] assms(2) by simp_all
  have "rest k' = rest k1 \<and> (n = To_User \<longrightarrow> k_current k' = k_current k1)"
  proof (cases "pr_suspend x")
    case None
    then obtain dead k2 where k2: "deliver_signal p x k1 = Some (dead, k2)" using assms(1) k1 by (auto simp: process_dispatch_def bind_Some)
    then show ?thesis using assms(1) k1 None coreD(1) [OF core_deliver_signal [OF k2]]
      by (auto simp: process_dispatch_def bind_Some split: option.split_asm dest!: rests)
  next
    case (Some ba)
    obtain b a where ba: "ba = (b, a)" by (cases ba)
    have l: "located (set_proc p (x\<lparr>pr_suspend := None\<rparr>) k1)" "undead (set_proc p (x\<lparr>pr_suspend := None\<rparr>) k1)"
      using c1 s1(1) assms(3) by (simp_all add: located_def undead_def set_proc_def)
    show ?thesis using assms(1) k1 Some ba by (auto simp: process_dispatch_def bind_Some dest!: resume_call_rest [OF _ l])
  qed
  then have r: "k_run k' = k_run k1" and o: "space k' = p" "\<And>q. q \<noteq> p \<Longrightarrow> k_user k' q = k_user k1 q" "n = To_User \<Longrightarrow> k_current k' = Some p" using others_rest [of k' k1] rest_runD [of _ k' _ k1] s1(1) c1 by auto
  show "space k' = p" "\<And>q. q \<noteq> p \<Longrightarrow> k_user k' q = k_user k q" "n = To_User \<Longrightarrow> located k'" "k_run k' = k_run k" using o r c1(2) s1(2) by (simp_all add: located_def)
qed

text \<open>The run queue a pass takes its process from: a new one when it is empty.\<close>

definition run_queue :: "kernel \<Rightarrow> pid list" where
  "run_queue k = (if k_run k = [] then rev (filter (\<lambda>p. k_states k p = STATE_READY) (k_all k)) else k_run k)"

lemma run_queue_schedule: "(if k_run k = [] then process_schedule k else k) = k\<lparr>k_run := run_queue k\<rparr>"
  by (simp add: run_queue_def process_schedule_def schedule_run)

lemma undead_run_queue: "undead k \<Longrightarrow> p \<in> set (run_queue k) \<Longrightarrow> k_states k p \<noteq> STATE_DEAD"
  by (auto simp: undead_def run_queue_def split: if_splits)

lemma switch_once_passes:
  assumes "switch_once k = Some (n, k')" "undead k"
  shows "case run_queue k of
      [] \<Rightarrow> n = To_Idle \<and> k' = k\<lparr>k_run := [], k_current := None\<rparr>
    | p # ps \<Rightarrow> n \<noteq> To_Idle \<and> space k' = p \<and> k_run k' = ps \<and> (\<forall>q. q \<noteq> p \<longrightarrow> k_user k' q = k_user k q) \<and> (n = To_User \<longrightarrow> located k')"
proof (cases "run_queue k")
  case Nil
  then show ?thesis using assms(1) by (auto simp: switch_once_def run_queue_schedule process_dequeue_def Let_def)
next
  case (Cons p ps)
  let ?k = "k\<lparr>k_run := ps, k_current := Some p\<rparr>"
  have d: "process_dispatch ?k = Some (n, k')" using assms(1) Cons by (simp add: switch_once_def run_queue_schedule process_dequeue_def Let_def)
  have "undead ?k" using undead_run_queue [OF assms(2)] Cons by (simp add: undead_def)
  note o = process_dispatch_others [OF d _ this, of p]
  have "n \<noteq> To_Idle" using d by (auto simp: process_dispatch_def bind_Some split: option.split_asm)
  then show ?thesis using o Cons by simp
qed

lemma switch_once_others:
  assumes "switch_once k = Some (n, k')" "undead k"
  shows "(\<forall>q. q \<noteq> space k' \<longrightarrow> k_user k' q = k_user k q) \<and> (n = To_User \<longrightarrow> located k')"
  using switch_once_passes [OF assms] by (auto split: list.split_asm)

subsection \<open>The machine\<close>

lemma enter_space [simp]: "space (enter c mem k) = space k" "k_all (enter c mem k) = k_all k" "located (enter c mem k) \<longleftrightarrow> located k"
  by (simp_all add: enter_def process_set_context_def user_runs_def located_def split: option.split)

lemma enter_others: "located k \<Longrightarrow> q \<noteq> space k \<Longrightarrow> k_user (enter c mem k) q = k_user k q"
  by (simp add: enter_def process_set_context_def user_runs_def located_def upd_proc_def)

lemma irq_same [simp]: "k_user (system_irq_handler irq k) = k_user k" "space (system_irq_handler irq k) = space k"
  by (simp_all add: system_irq_handler_def split: prod.split)

lemma arrives_undead: "arrives (n, k) \<Longrightarrow> undead k"
  by (cases n) (auto simp: sound_def ok_undead intro: kinv_undead)

lemma kstep_others:
  assumes "kstep cfg (n, k) (n', k')" "arrives (n, k)" "n = To_User \<Longrightarrow> located k"
  shows "\<forall>q. q \<in> set (k_all k) \<longrightarrow> q \<noteq> space k \<longrightarrow> q \<noteq> space k' \<longrightarrow> k_user k' q = k_user k q" "n' = To_User \<Longrightarrow> located k'"
proof -
  have e: "ok (enter c mem k)" "located (enter c mem k)" if "n = To_User" for c mem using that assms(2,3) ok_core [OF core_enter] by simp_all
  have "(\<forall>q. q \<in> set (k_all k) \<longrightarrow> q \<noteq> space k \<longrightarrow> q \<noteq> space k' \<longrightarrow> k_user k' q = k_user k q) \<and> (n' = To_User \<longrightarrow> located k')"
    using assms(1)
  proof (cases rule: kstep.cases)
    case (svc c mem)
    then have "kept (enter c mem k) k'" using syscall_handler_kept [OF e(1) [of c mem] e(2) [of c mem], of cfg] by (simp add: system_svc_handler_def post_def)
    then show ?thesis using svc assms(3) enter_others by (simp add: kept_def)
  next
    case (abort c dfsr dfar mem)
    then have "kept (enter c mem k) k'" using data_abort_kept [OF e(2) [of c mem], of dfsr dfar] by (simp add: post_def)
    then show ?thesis using abort assms(3) enter_others by (simp add: kept_def)
  next
    case (irq c irq mem)
    then show ?thesis using assms(3) enter_others by simp
  next
    case switch
    then show ?thesis using switch_once_others [of k n' k'] arrives_undead [OF assms(2)] by blast
  qed (use assms(3) in \<open>auto simp: located_def\<close>)
  then show "\<forall>q. q \<in> set (k_all k) \<longrightarrow> q \<noteq> space k \<longrightarrow> q \<noteq> space k' \<longrightarrow> k_user k' q = k_user k q" "n' = To_User \<Longrightarrow> located k'" by blast+
qed

lemma runs_located:
  assumes "booted k0" "runs cfg k0 (n, k)"
  shows "n = To_User \<longrightarrow> located k"
  using assms(2)
proof (induction "(n, k)" arbitrary: n k rule: rtranclp_induct)
  case (step s)
  obtain m h where s: "s = (m, h)" by (cases s)
  show ?case using kstep_others(2) [of cfg m h n k] step(2,3) s runs_arrives [OF assms(1) step(1)] by blast
qed simp

end
