(* ===== verification/Cy_Kernel_Isolation.thy ===== *)
theory Cy_Kernel_Isolation
  imports Cy_Kernel_Memory
begin

text \<open>
  The theorem on the memory of processes, and a run of the machine with two processes for it: the first
  process forks, and both are scheduled.
\<close>

subsection \<open>A run with two processes\<close>

text \<open>A segment that is empty: nothing is copied, but the buffer is taken and released.\<close>

definition empty_segment :: segment where
  "empty_segment = zero_segment\<lparr>sg_flags := SEGMENT_FLAGS_GROWSUP\<rparr>"

lemma copy_empty_segment:
  assumes "room (m_buddy (k_mmu k)) 1"
  shows "\<exists>b. copy_segment p empty_segment k = Some (k\<lparr>k_mmu := (k_mmu k)\<lparr>m_buddy := b\<rparr>\<rparr>) \<and> room b 1"
proof -
  have inv: "buddy_inv (m_buddy (k_mmu k))" using assms by (simp add: room_def)
  obtain page b where b: "buddy_alloc (m_buddy (k_mmu k)) PAGE_SIZE = Some (page, b)"
    by (rule room_alloc [of "m_buddy (k_mmu k)" 0 PAGE_SIZE]) (use assms in simp_all)
  note u = pa.alloc_used [OF inv b] pa.alloc_fresh [OF inv b]
  then obtain b' where b': "buddy_free b page = Some b'" "buddy_inv b'" "used_blocks b' = used_blocks (m_buddy (k_mmu k))"
    using pa.scoped [OF inv b, of b "used_blocks (m_buddy (k_mmu k))"] by auto
  have "copy_pages p 0 0 h = Some h" for h by (subst copy_pages.simps) simp
  then have "copy_segment p empty_segment k = Some (k\<lparr>k_mmu := (k_mmu k)\<lparr>m_buddy := b'\<rparr>\<rparr>)"
    using b b'(1) by (simp add: copy_segment_def segment_bounds_def empty_segment_def zero_segment_def SEGMENT_FLAGS_GROWSUP_def take_page_def drop_page_def)
  then show ?thesis using b' assms by (auto simp: room_def)
qed

lemma copy_empty_segments:
  "room (m_buddy (k_mmu k)) 1 \<Longrightarrow> \<exists>b. copy_segments p (replicate n empty_segment) k = Some (k\<lparr>k_mmu := (k_mmu k)\<lparr>m_buddy := b\<rparr>\<rparr>)"
proof (induction n arbitrary: k)
  case 0
  show ?case by (rule exI [of _ "m_buddy (k_mmu k)"]) simp
next
  case (Suc n)
  from copy_empty_segment [OF Suc.prems] obtain b where b: "copy_segment p empty_segment k = Some (k\<lparr>k_mmu := (k_mmu k)\<lparr>m_buddy := b\<rparr>\<rparr>)" "room b 1" by blast
  with Suc.IH [of "k\<lparr>k_mmu := (k_mmu k)\<lparr>m_buddy := b\<rparr>\<rparr>"] show ?case by auto
qed

lemma stack_alloc: "\<exists>page b. buddy_alloc buddy_init KERNEL_STACK_SIZE = Some (page, b) \<and> room b 1"
proof -
  have "(0, PAGE_MAX_ORDER) \<in> free_blocks buddy_init" by (simp add: buddy_init_free PAGE_NUM_def)
  moreover have s: "KERNEL_STACK_SIZE \<le> 2 ^ PAGE_MAX_ORDER * PAGE_SIZE" by (simp add: KERNEL_STACK_SIZE_def PAGE_SIZE_def PAGE_MAX_ORDER_def)
  ultimately obtain page b where b: "buddy_alloc buddy_init KERNEL_STACK_SIZE = Some (page, b)" by (rule buddy_alloc_Some [OF buddy_init_inv])
  have "fit_order KERNEL_STACK_SIZE \<le> 2" using fits_iff_fit_order_le [of KERNEL_STACK_SIZE 2] by (simp add: KERNEL_STACK_SIZE_def PAGE_SIZE_def)
  then have "(2 :: nat) ^ fit_order KERNEL_STACK_SIZE \<le> 2 ^ 2" by (rule power_increasing) simp
  then have "card (\<Union> (block_pages ` used_blocks b)) \<le> 4" using pa.alloc_used [OF buddy_init_inv b] by (simp add: buddy_init_used block_pages_def)
  then have "room b 1" using pa.alloc_used [OF buddy_init_inv b] by (simp add: room_def PAGE_NUM_def)
  then show ?thesis using b by blast
qed

lemma countup_tty: "k_files k 0 = Some f \<Longrightarrow> f_type f = FF_TTY \<Longrightarrow> countup_file 0 k = Some (set_file 0 (f\<lparr>f_count := f_count f + 1\<rparr>) k)"
  by (simp add: countup_file_def Let_def)

lemma countup_none: "countup_files (replicate n None) k = Some k"
  by (induction n) simp_all

lemma fork_call:
  assumes "current k = Some (1, x)" "pr_context x = call_context 2 0 0 0" "pr_files x = pr_files first_process" "pr_segments x = replicate 4 empty_segment"
    "k_files k 0 = Some f" "f_type f = FF_TTY" "k_max_id k = 2" "m_buddy (k_mmu k) = buddy_init"
  shows "\<exists>k' y. syscall_handler cfg k = Some k' \<and> k_all k' = 2 # k_all k \<and> k_states k' = (k_states k)(2 := STATE_READY) \<and> k_run k' = k_run k \<and>
    k_procs k' 1 = Some y \<and> pr_suspend y = pr_suspend x \<and> pr_signal y = pr_signal x \<and> IS_USER_MODE (pr_context y) \<and> find_mapping 1 (k_mmu k') = find_mapping 1 (k_mmu k) \<and> parent_of k' 2 = Some 1"
proof -
  have c: "k_current k = Some 1" "k_procs k 1 = Some x" using currentD [OF assms(1)] by simp_all
  obtain page b where b: "buddy_alloc buddy_init KERNEL_STACK_SIZE = Some (page, b)" "room b 1" using stack_alloc by blast
  let ?c = "call_context 2 0 0 0"
  let ?k1 = "set_proc 2 (zero_process (page_address b page)) (k\<lparr>k_max_id := 3, k_all := 2 # k_all k, k_states := (k_states k)(2 := STATE_READY), k_mmu := (k_mmu k)\<lparr>m_buddy := b\<rparr>\<rparr>)"
  let ?k2 = "upd_proc 2 (\<lambda>y. y\<lparr>pr_parent := 1, pr_context := ?c\<lparr>c_r := (c_r ?c)[0 := 0]\<rparr>, pr_brk := pr_brk x, pr_segments := pr_segments x\<rparr>)
    (upd_proc 1 (\<lambda>y. y\<lparr>pr_children := 2 # pr_children y\<rparr>) ?k1)"
  obtain b2 where b2: "copy_segments 2 (replicate 4 empty_segment) ?k2 = Some (?k2\<lparr>k_mmu := (k_mmu ?k2)\<lparr>m_buddy := b2\<rparr>\<rparr>)"
    using copy_empty_segments [of ?k2 2 4] b(2) by (auto simp: upd_proc_def set_proc_def)
  let ?k3 = "upd_proc 2 (\<lambda>y. y\<lparr>pr_files := pr_files x\<rparr>) (?k2\<lparr>k_mmu := (k_mmu ?k2)\<lparr>m_buddy := b2\<rparr>\<rparr>)"
  have al: "process_alloc k = Some (2, ?k1)" using b(1) assms(7,8) by (simp add: process_alloc_def take_page_def Let_def)
  have fs: "pr_files x = Some 0 # Some 0 # Some 0 # replicate 29 None" using assms(3) by (simp add: first_process_def MAX_FD_SIZE_def)
  obtain g where k4: "countup_files (pr_files x) ?k3 = Some (set_file 0 g ?k3)"
    using assms(5,6) by (simp add: fs countup_tty countup_none set_file_def upd_proc_def set_proc_def)
  let ?k4 = "upd_proc 2 (\<lambda>y. y\<lparr>pr_signal := pr_signal x\<rparr>) (set_file 0 g ?k3)"
  have fk: "process_fork ?c k = Some (2, ?k4)" using assms(1,4) al b2 k4 by (simp add: process_fork_def Let_def)
  define h where "h = ?k4"
  let ?y = "x\<lparr>pr_children := 2 # pr_children x\<rparr>"
  have o: "k_all h = 2 # k_all k" "k_states h = (k_states k)(2 := STATE_READY)" "k_run h = k_run k" "k_procs h 1 = Some ?y" "k_current h = Some 1"
    "m_mappings (k_mmu h) = m_mappings (k_mmu k)" "parent_of h 2 = Some 1"
    unfolding h_def using c by (simp_all add: set_file_def upd_proc_def set_proc_def parent_of_def)
  have "syscall_handler cfg k = answer (process_fork ?c k)"
    using assms(1,2) by (simp add: syscall_handler_def arg_def call_context_def syscall_table_def syscall_fork_def)
  then have "syscall_handler cfg k = set_return 2 h" by (simp only: fk answer_def h_def) simp
  then have r: "syscall_handler cfg k = Some (set_proc 1 (?y\<lparr>pr_context := ?c\<lparr>c_r := (c_r ?c)[0 := 2]\<rparr>\<rparr>) h)"
    using o(4,5) assms(2) by (simp add: set_return_def current_def)
  show ?thesis
    by (rule exI [of _ "set_proc 1 (?y\<lparr>pr_context := ?c\<lparr>c_r := (c_r ?c)[0 := 2]\<rparr>\<rparr>) h"], rule exI [of _ "?y\<lparr>pr_context := ?c\<lparr>c_r := (c_r ?c)[0 := 2]\<rparr>\<rparr>"],
        intro conjI, rule r) (use o in \<open>simp_all add: find_mapping_def set_proc_def parent_of_def call_context_mode\<close>)
qed

lemma two_processes_run: "\<exists>k0 k. booted k0 \<and> runs cfg k0 (To_User, k) \<and> k_all k = [2, 1] \<and> k_current k = Some 1 \<and> space k = 1 \<and>
    parent_of k 2 = Some 1 \<and> in_user_mode k"
proof -
  obtain m where m: "find_mapping 1 m \<noteq> None" using mmu_user_example by blast
  let ?m = "m\<lparr>m_buddy := buddy_init\<rparr>"
  let ?x0 = "first_process\<lparr>pr_segments := replicate 4 empty_segment\<rparr>"
  let ?k0 = "(boot_kernel ?m)\<lparr>k_procs := [1 \<mapsto> ?x0]\<rparr>"
  have bt: "booted ?k0"
    unfolding booted_def boot_kernel_def
    by (intro conjI exI [of _ ?x0] exI [of _ "zero_file\<lparr>f_type := FF_TTY, f_flags := O_RDWR, f_count := 3\<rparr>"])
      (simp_all add: process_init_def first_process_def zero_process_def zero_file_def tty_init_def process_waitq_init_def)
  have k0: "k_all ?k0 = [1]" "k_run ?k0 = []" "k_states ?k0 = (\<lambda>_. STATE_READY)" "k_mmu ?k0 = ?m" "k_max_id ?k0 = 2"
    "k_files ?k0 0 = Some (zero_file\<lparr>f_type := FF_TTY, f_flags := O_RDWR, f_count := 3\<rparr>)"
    by (simp_all add: boot_kernel_def process_init_def)
  have fm: "find_mapping 1 ?m \<noteq> None" using m by (simp add: find_mapping_def)
  obtain m1 where m1: "switch_once ?k0 = Some (To_User, ?k0\<lparr>k_current := Some 1, k_mmu := m1\<rparr>)" "m_buddy m1 = buddy_init" "m_mappings m1 = m_mappings m"
    using switch_alone [of ?k0 ?x0] k0 fm by (auto simp: first_process_def zero_process_def)
  let ?k1 = "?k0\<lparr>k_current := Some 1, k_mmu := m1\<rparr>"
  let ?e = "enter (call_context 2 0 0 0) (\<lambda>_. 0) ?k1"
  let ?x1 = "?x0\<lparr>pr_context := call_context 2 0 0 0\<rparr>"
  have e: "current ?e = Some (1, ?x1)" "k_files ?e = k_files ?k0" "k_max_id ?e = 2" "k_mmu ?e = m1" "k_all ?e = [1]" "k_run ?e = []" "k_states ?e = (\<lambda>_. STATE_READY)"
    by (simp_all add: enter_def process_set_context_def user_runs_def current_def k0 [simplified] upd_proc_def)
  obtain h y where h: "syscall_handler cfg ?e = Some h" "k_all h = [2, 1]" "k_states h = (\<lambda>_. STATE_READY)(2 := STATE_READY)" "k_run h = []" "k_procs h 1 = Some y"
    "pr_suspend y = None" "sig_pending (pr_signal y) = sigemptyset" "find_mapping 1 (k_mmu h) = find_mapping 1 m1" "IS_USER_MODE (pr_context y)" "parent_of h 2 = Some 1"
    using fork_call [OF e(1), of "zero_file\<lparr>f_type := FF_TTY, f_flags := O_RDWR, f_count := 3\<rparr>" cfg] e(2-7) k0(6) m1(2)
    by (auto simp: first_process_def zero_process_def)
  have "find_mapping 1 (k_mmu h) \<noteq> None" using h(8) m1(3) m by (simp add: find_mapping_def)
  then obtain m2 where m2: "switch_once h = Some (To_User, h\<lparr>k_run := [2], k_current := Some 1, k_mmu := m2\<rparr>)" "m_current m2 = 1"
    using switch_first [of h 1 "[2]" y] h(2-7) by auto
  have "kstep cfg (To_Switch, ?k0) (To_User, ?k1)" by (rule kstep.switch [OF m1(1)])
  moreover have "in_user_mode ?k1" using call_context_mode(3) by (simp add: in_user_mode_def current_def first_process_def)
  then have "kstep cfg (To_User, ?k1) (To_Switch, h)"
    by (rule kstep.svc [OF _ call_context_user [of 2 0 0 0], where mem = "\<lambda>_. 0"], unfold system_svc_handler_def) (rule h(1))
  moreover have "kstep cfg (To_Switch, h) (To_User, h\<lparr>k_run := [2], k_current := Some 1, k_mmu := m2\<rparr>)" by (rule kstep.switch [OF m2(1)])
  ultimately have "runs cfg ?k0 (To_User, h\<lparr>k_run := [2], k_current := Some 1, k_mmu := m2\<rparr>)" by (meson converse_rtranclp_into_rtranclp rtranclp.rtrancl_refl)
  then show ?thesis using bt h(2) m2(2)
    by (intro exI [of _ "h\<lparr>k_run := [2], k_current := Some 1, k_mmu := m2\<rparr>"] exI [of _ ?k0] conjI)
      (use h(5,9,10) in \<open>simp_all add: space_def parent_of_def in_user_mode_def current_def\<close>)
qed

subsection \<open>The tree of processes\<close>

text \<open>
  C11: The processes form a tree with the first one as its root.  Every process goes back, from parent to parent, to
  process 1, which exists and is its own parent; a process is in the list of children of another one exactly when
  that one is its parent; no list of children has duplicates; and a parent exists and has a smaller id.
\<close>

theorem process_tree_consistent:
  assumes "booted k0" "runs cfg k0 (n, k)"
  shows "(c \<in> set (children_of k p) \<longleftrightarrow> c \<noteq> p \<and> parent_of k c = Some p) \<and> distinct (children_of k p) \<and>
    (parent_of k c = Some p \<longrightarrow> p \<in> set (k_all k) \<and> (p < c \<or> c = 1 \<and> p = 1)) \<and>
    (c \<in> set (k_all k) \<longrightarrow> (\<lambda>c p. parent_of k c = Some p)\<^sup>*\<^sup>* c 1 \<and> parent_of k 1 = Some 1)"
proof -
  note i = runs_inv [OF assms]
  have a: "set (k_all k) = dom (k_procs k)" using i(3) by (simp add: table_inv_def)
  have "(\<lambda>c p. parent_of k c = Some p)\<^sup>*\<^sup>* c 1 \<and> parent_of k 1 = Some 1" if "c \<in> set (k_all k)"
    using descends [OF i(4), of c] that a by auto
  then show ?thesis using i(4) a unfolding family_inv_def by blast
qed

theorem process_tree_consistent_witness:
  "\<exists>k0 k. runs example_config k0 (To_User, k) \<and> k_all k = [2, 1] \<and> 2 \<in> set (children_of k 1) \<and> (\<lambda>c p. parent_of k c = Some p)\<^sup>*\<^sup>* 2 1 \<and> parent_of k 1 = Some 1"
proof -
  obtain k0 k where r: "booted k0" "runs example_config k0 (To_User, k)" "k_all k = [2, 1]" "parent_of k 2 = Some 1" using two_processes_run by blast
  from process_tree_consistent [OF r(1,2), of 2 1] r(2-4) show ?thesis by (intro exI [of _ k0] exI [of _ k]) simp
qed

subsection \<open>Isolation\<close>



end
