(* ===== verification/Cy_Kernel_Sched.thy ===== *)
theory Cy_Kernel_Sched
  imports Cy_Kernel_Isolation
begin

text \<open>
  The scheduler is fair: nothing but a pass of the scheduler changes the run queue, a pass takes its first process, and an
  empty queue is filled with every process that is ready.
\<close>

subsection \<open>The run queue\<close>

lemma k_run_enter [simp]: "k_run (enter c mem k) = k_run k"
  by (rule coreD(3) [OF core_enter])

lemma k_run_irq [simp]: "k_run (system_irq_handler irq k) = k_run k"
  by (simp add: system_irq_handler_def split: prod.split)

lemma kstep_queue:
  assumes "kstep cfg (n, k) (n', k')" "arrives (n, k)" "n = To_User \<Longrightarrow> located k"
  shows "k_run k' = k_run k \<and> (n = To_Switch \<longrightarrow> n' = To_Switch \<and> run_queue k' = run_queue k) \<or> n = To_Switch \<and> switch_once k = Some (n', k')"
proof -
  have e: "ok (enter c mem k)" "located (enter c mem k)" if "n = To_User" for c mem using that assms(2,3) ok_core [OF core_enter] by simp_all
  show ?thesis using assms(1)
  proof (cases rule: kstep.cases)
    case (svc c mem)
    then have "kept (enter c mem k) k'" using syscall_handler_kept [OF e(1) [of c mem] e(2) [of c mem], of cfg] by (simp add: system_svc_handler_def post_def)
    then show ?thesis using svc by (simp add: kept_def)
  next
    case (abort c dfsr dfar mem)
    then have "kept (enter c mem k) k'" using data_abort_kept [OF e(2) [of c mem], of dfsr dfar] by (simp add: post_def)
    then show ?thesis using abort by (simp add: kept_def)
  qed (auto simp: run_queue_def)
qed

text \<open>A part of a run, with the processes the scheduler went to in it.\<close>

inductive dispatches :: "config \<Rightarrow> destination \<times> kernel \<Rightarrow> pid list \<Rightarrow> destination \<times> kernel \<Rightarrow> bool" for cfg s where
  none: "dispatches cfg s [] s"
| pass: "dispatches cfg s ps (To_Switch, k) \<Longrightarrow> switch_once k = Some (n, k') \<Longrightarrow> dispatches cfg s (if n = To_Idle then ps else ps @ [space k']) (n, k')"
| other: "dispatches cfg s ps s1 \<Longrightarrow> kstep cfg s1 s2 \<Longrightarrow> fst s1 = To_Switch \<longrightarrow> switch_once (snd s1) \<noteq> Some s2 \<Longrightarrow> dispatches cfg s ps s2"

definition next_queue :: "destination \<times> kernel \<Rightarrow> pid list" where
  "next_queue s = (if fst s = To_Switch then run_queue (snd s) else k_run (snd s))"

lemma next_queue_run: "k_run k \<noteq> [] \<Longrightarrow> next_queue (n, k) = k_run k"
  by (simp add: next_queue_def run_queue_def)

lemma dispatches_runs: "dispatches cfg s ps s' \<Longrightarrow> runs cfg k0 s \<Longrightarrow> runs cfg k0 s'"
proof (induction rule: dispatches.induct)
  case (pass ps k n k')
  then show ?case by (meson kstep.switch rtranclp.rtrancl_into_rtrancl)
next
  case (other ps s1 s2)
  then show ?case by (meson rtranclp.rtrancl_into_rtrancl)
qed

definition in_turn :: "pid list \<Rightarrow> pid list \<Rightarrow> destination \<times> kernel \<Rightarrow> bool" where
  "in_turn q ps s \<longleftrightarrow> take (length q) ps = take (length ps) q \<and> (length ps < length q \<longrightarrow> next_queue s = drop (length ps) q)"

lemma in_turn_other:
  assumes "in_turn q ps (n, k)" "k_run k' = k_run k" "n = To_Switch \<longrightarrow> n' = To_Switch \<and> run_queue k' = run_queue k"
  shows "in_turn q ps (n', k')"
proof -
  have "next_queue (n', k') = drop (length ps) q" if l: "length ps < length q"
  proof (cases "n = To_Switch")
    case True
    then show ?thesis using assms l by (simp add: in_turn_def next_queue_def)
  next
    case False
    then have "k_run k = drop (length ps) q" using assms(1) l by (simp add: in_turn_def next_queue_def)
    then show ?thesis using assms(2) l next_queue_run [of k' n'] by simp
  qed
  then show ?thesis using assms(1) by (simp add: in_turn_def)
qed

lemma in_turn_pass:
  assumes "in_turn q ps (To_Switch, k)" "switch_once k = Some (n, k')" "undead k"
  shows "in_turn q (if n = To_Idle then ps else ps @ [space k']) (n, k')"
proof (cases "length ps < length q")
  case True
  then have d: "run_queue k = drop (length ps) q" using assms(1) by (simp add: in_turn_def next_queue_def)
  then have c: "run_queue k = q ! length ps # drop (Suc (length ps)) q" using Cons_nth_drop_Suc [OF True] by simp
  have k': "n \<noteq> To_Idle" "space k' = q ! length ps" "k_run k' = drop (Suc (length ps)) q" using switch_once_passes [OF assms(2,3)] c by simp_all
  have "take (length q) (ps @ [space k']) = take (length (ps @ [space k'])) q"
    using assms(1) True k'(2) take_Suc_conv_app_nth [OF True] by (simp add: in_turn_def)
  moreover have "next_queue (n, k') = drop (Suc (length ps)) q" if "Suc (length ps) < length q" using next_queue_run [of k' n] k'(3) that by simp
  ultimately show ?thesis using k'(1) by (simp add: in_turn_def)
next
  case False
  then show ?thesis using assms(1) by (simp add: in_turn_def)
qed

text \<open>
  C5: the scheduler is fair.  Take any state the kernel reaches, and what is left of the run queue there, or the new queue
  that the coming pass makes of all the processes that are ready.  Then the processes the scheduler goes to from that
  state on are those of the queue, in its order: whatever programs, interrupts and signals do, no process of the
  queue is passed over and none gets in between.  In particular a process that is ready when the queue is filled runs
  after no more passes than there are processes.
\<close>

theorem round_robin:
  assumes "booted k0" "runs cfg k0 s" "dispatches cfg s ps s'"
  shows "take (length (next_queue s)) ps = take (length ps) (next_queue s) \<and>
    (fst s = To_Switch \<and> k_run (snd s) = [] \<longrightarrow> set (next_queue s) = {p \<in> set (k_all (snd s)). k_states (snd s) p = STATE_READY} \<and>
      length (next_queue s) \<le> length (k_all (snd s)))"
proof (intro conjI impI)
  have "in_turn (next_queue s) ps s'"
    using assms(3)
  proof (induction rule: dispatches.induct)
    case none
    then show ?case by (simp add: in_turn_def)
  next
    case (pass ps k n k')
    have "undead k" by (rule arrives_undead [OF runs_arrives [OF assms(1) dispatches_runs [OF pass(1) assms(2)]]])
    then show ?case using in_turn_pass pass by blast
  next
    case (other ps s1 s2)
    obtain n1 k1 n2 k2 where s: "s1 = (n1, k1)" "s2 = (n2, k2)" by fastforce
    have r: "runs cfg k0 (n1, k1)" using dispatches_runs [OF other(1) assms(2)] s by simp
    show ?case using kstep_queue [of cfg n1 k1 n2 k2] other runs_arrives [OF assms(1) r] runs_located [OF assms(1) r] in_turn_other s by auto
  qed
  then show "take (length (next_queue s)) ps = take (length ps) (next_queue s)" by (simp add: in_turn_def)
  assume "fst s = To_Switch \<and> k_run (snd s) = []"
  then show "set (next_queue s) = {p \<in> set (k_all (snd s)). k_states (snd s) p = STATE_READY}" "length (next_queue s) \<le> length (k_all (snd s))"
    by (auto simp: next_queue_def run_queue_def)
qed

theorem round_robin_witness:
  "\<exists>k0 s'. booted k0 \<and> dispatches example_config (To_Switch, k0) [1] s' \<and> next_queue (To_Switch, k0) = [1]"
proof -
  obtain m where m: "find_mapping 1 m \<noteq> None" using mmu_user_example by blast
  let ?k0 = "boot_kernel m"
  let ?s = "(To_Switch, ?k0)"
  have k0: "k_all ?k0 = [1]" "k_run ?k0 = []" "k_states ?k0 1 = STATE_READY" "k_procs ?k0 = [1 \<mapsto> first_process]" "k_mmu ?k0 = m"
    by (simp_all add: boot_kernel_def process_init_def)
  obtain m1 where m1: "switch_once ?k0 = Some (To_User, ?k0\<lparr>k_current := Some 1, k_mmu := m1\<rparr>)" "m_current m1 = 1"
    using switch_alone [of ?k0 first_process] k0 m(1) by (auto simp: first_process_def zero_process_def)
  have "dispatches example_config ?s ([] @ [1]) (To_User, ?k0\<lparr>k_current := Some 1, k_mmu := m1\<rparr>)"
    using dispatches.pass [OF dispatches.none m1(1), of example_config] m1(2) by (simp add: space_def)
  then have d: "dispatches example_config ?s [1] (To_User, ?k0\<lparr>k_current := Some 1, k_mmu := m1\<rparr>)" by simp
  have "set (next_queue ?s) = {1}" "length (next_queue ?s) \<le> 1"
    using round_robin [OF boot_kernel_booted rtranclp.rtrancl_refl d] k0(1-3) by auto
  then have "next_queue ?s = [1]" by (cases "next_queue ?s") auto
  then show ?thesis using boot_kernel_booted d by blast
qed

subsection \<open>Waiting for children\<close>

lemma release_pipe_child_waitq: "release_pipe i flags k = Some k' \<Longrightarrow> k_child_waitq k' = k_child_waitq k"
  by (auto simp: release_pipe_def drop_page_def bind_Some Let_def split: option.split_asm)

lemma release_file_child_waitq: "release_file f k = Some k' \<Longrightarrow> k_child_waitq k' = k_child_waitq k"
  by (auto simp: release_file_def set_file_def bind_Some Let_def split: file_type.split_asm if_split_asm dest: release_pipe_child_waitq)

lemma close_all_child_waitq: "close_all p is k = Some k' \<Longrightarrow> k_child_waitq k' = k_child_waitq k"
proof (induction "is" arbitrary: k)
  case (Cons i "is")
  then show ?case by (fastforce simp: bind_Some set_slot_def upd_proc_def split: option.split_asm dest: release_file_child_waitq)
qed simp

text \<open>
  All parents that wait for a child sleep on one queue, and the end of a process wakes the first of them only.  A parent
  behind the first sleeps on, although its child is dead; the one that was woken finds no dead child and goes to
  the front of the queue again.
\<close>

lemma exit_wakes_front_only:
  assumes "ok k" "process_exit status k = Some k'" "k_child_waitq k = q # qs" "parent \<in> set qs"
  shows "k_child_waitq k' = qs \<and> k_states k' parent = STATE_BLOCKED"
proof -
  obtain p k1 where k1: "close_all p [0..<MAX_FD_SIZE] (upd_proc p (\<lambda>x. x\<lparr>pr_exit_status := status\<rparr>) (k\<lparr>k_states := (k_states k)(p := STATE_DEAD)\<rparr>)) = Some k1"
    and k': "k_child_waitq k' = fst (snd (process_wake (k_child_waitq k1) (k_states k1)))"
    using assms(2) by (fastforce simp: process_exit_def bind_Some Let_def split_def system_shutdown_def)
  have "k_child_waitq k1 = q # qs" using close_all_child_waitq [OF k1] assms(3) by (simp add: upd_proc_def)
  then have "k_child_waitq k' = qs" by (simp add: k' process_wake_def)
  moreover have "queue k' Children = k_child_waitq k'" by (simp add: queue_def)
  ultimately show ?thesis using queue_invD(3) [OF kinvD(6) [OF process_exit_ok(1) [OF assms(1,2)]]] assms(4) by metis
qed

end
