(* ===== verification/Cy_Kernel_Signal.thy ===== *)
theory Cy_Kernel_Signal
  imports Cy_Kernel_Run
begin

text \<open>
  Signal handlers: a program that is made to run a handler, and returns from it with \<^verbatim>\<open>sigreturn\<close>, goes on exactly
  where it was.
\<close>

subsection \<open>Words and bytes in user memory\<close>

lemma length_bytes32 [simp]: "length (bytes32 w) = 4"
  by (simp add: bytes32_def)

lemma bytes32_word: "word_at (bytes32 w @ bs) 0 = w"
proof (rule bit_word_eqI)
  fix n assume "n < LENGTH(32)"
  then consider "n < 8" | "8 \<le> n" "n < 16" | "16 \<le> n" "n < 24" | "24 \<le> n" "n < 32" by fastforce
  then show "bit (word_at (bytes32 w @ bs) 0) n = bit w n" by cases (auto simp: word_at_def bytes32_def bit_simps)
qed

lemma length_words_bytes: "length (words_bytes ws) = 4 * length ws"
  by (induction ws) (simp_all add: words_bytes_def)

lemma word_at_append: "length bs = n \<Longrightarrow> word_at (bs @ cs) (n + i) = word_at cs i"
  by (simp add: word_at_def nth_append add.assoc)

lemma word_at_words_bytes: "i < length ws \<Longrightarrow> word_at (words_bytes ws) (4 * i) = ws ! i"
proof (induction ws arbitrary: i)
  case (Cons w ws)
  have b: "words_bytes (w # ws) = bytes32 w @ words_bytes ws" by (simp add: words_bytes_def)
  show ?case
  proof (cases i)
    case 0
    then show ?thesis by (simp add: b bytes32_word)
  next
    case (Suc j)
    then show ?thesis using Cons word_at_append [of "bytes32 w" 4 "words_bytes ws" "4 * j"] by (simp add: b)
  qed
qed simp

lemma words_roundtrip: "length ws = n \<Longrightarrow> words_at (words_bytes ws) n = ws"
  by (rule nth_equalityI) (simp_all add: words_at_def word_at_words_bytes)

lemma store_bytes_load8:
  assumes "store_bytes a bs k = Some k'" "length bs < 2 ^ 32"
  shows "(\<forall>i < length bs. load8 (a + of_nat i) k' = Some (bs ! i)) \<and> (\<forall>x. (\<forall>i < length bs. x \<noteq> a + of_nat i) \<longrightarrow> load8 x k' = load8 x k)"
  using assms
proof (induction bs arbitrary: a k)
  case (Cons b bs)
  then obtain k1 where k1: "store8 a b k = Some k1" "store_bytes (a + 1) bs k1 = Some k'" by (auto simp: bind_Some)
  note ih = Cons.IH [OF k1(2)]
  have s: "load8 x k1 = (if x = a then Some b else load8 x k)" for x
    using k1(1) by (auto simp: store8_def load8_def mapped_def peek_def Let_def split: if_splits)
  have n: "a \<noteq> a + 1 + of_nat i" if "i < length bs" for i
  proof
    assume "a = a + 1 + of_nat i"
    then have "(of_nat (Suc i) :: u32) = 0" by (simp add: add.assoc)
    then have "unat (of_nat (Suc i) :: u32) = 0" by simp
    then show False using that Cons.prems(2) by (simp add: unat_of_nat del: of_nat_Suc)
  qed
  have e: "a + of_nat (Suc i) = a + 1 + of_nat i" for i by simp
  show ?case
  proof (intro conjI allI impI)
    fix i assume "i < length (b # bs)"
    then show "load8 (a + of_nat i) k' = Some ((b # bs) ! i)" using ih Cons.prems(2) n s by (cases i) (auto simp: e simp del: of_nat_Suc)
  next
    fix x assume x: "\<forall>i < length (b # bs). x \<noteq> a + of_nat i"
    have "x \<noteq> a" using x [rule_format, of 0] by simp
    moreover have "\<forall>i < length bs. x \<noteq> a + 1 + of_nat i" using x [rule_format, of "Suc _"] by (simp add: add.assoc)
    ultimately show "load8 x k' = load8 x k" using ih Cons.prems(2) s by simp
  qed
qed simp

lemma load_bytes_eq: "(\<And>i. i < length bs \<Longrightarrow> load8 (a + of_nat i) k = Some (bs ! i)) \<Longrightarrow> load_bytes a (length bs) k = Some bs"
proof (induction bs arbitrary: a)
  case (Cons b bs)
  have "load8 a k = Some b" using Cons.prems [of 0] by simp
  moreover have "load_bytes (a + 1) (length bs) k = Some bs" using Cons.prems [of "Suc _"] by (intro Cons.IH) (simp add: add.assoc)
  ultimately show ?case by simp
qed simp

subsection \<open>The stack\<close>

abbreviation aligned :: "u32 \<Rightarrow> bool" where
  "aligned a \<equiv> a AND 7 = 0"

lemma aligned_and: "aligned (a AND NOT 7)" "aligned a \<Longrightarrow> a AND NOT 7 = a"
proof -
  show "aligned (a AND NOT 7)" by (simp add: and.assoc)
  assume z: "aligned a"
  have "a = (a AND NOT 7) OR (a AND 7)" by (rule bit_word_eqI) (auto simp: bit_simps)
  then show "a AND NOT 7 = a" using z by simp
qed

lemma and_7: "(a :: u32) AND 7 = take_bit 3 a"
  by (simp add: take_bit_eq_mask mask_eq_exp_minus_1)

lemma aligned_push_bit: "aligned (push_bit 3 b)"
  unfolding and_7 by (rule bit_word_eqI) (auto simp: bit_simps)

lemma aligned_minus8: "aligned a \<Longrightarrow> aligned (a - 8)"
proof -
  assume "aligned a"
  then have "a = push_bit 3 (drop_bit 3 a)" using bits_ident [of 3 a] by (simp add: and_7)
  then have "a - 8 = push_bit 3 (drop_bit 3 a - 1)" by (simp add: push_bit_eq_mult algebra_simps)
  then show ?thesis using aligned_push_bit by metis
qed

lemma aligned_plus8: "aligned a \<Longrightarrow> aligned (a + 8)"
proof -
  assume "aligned a"
  then have "a = push_bit 3 (drop_bit 3 a)" using bits_ident [of 3 a] by (simp add: and_7)
  then have "a + 8 = push_bit 3 (drop_bit 3 a + 1)" by (simp add: push_bit_eq_mult algebra_simps)
  then show ?thesis using aligned_push_bit by metis
qed

lemma aligned_ALIGN: "aligned a \<Longrightarrow> ALIGN a 3 = a"
proof -
  assume a: "aligned a"
  then have "a + 7 = a OR 7" by (simp add: disjunctive_add bit_eq_iff bit_and_iff)
  then have "(a + 7) AND NOT 7 = a AND NOT 7" by (simp add: bit.conj_disj_distrib2)
  then show ?thesis using aligned_and(2) [OF a] by (simp add: ALIGN_def)
qed

lemma push_to_stack_load8:
  assumes "push_to_stack sp data k = Some (sp', k')" "length data < 2 ^ 32"
  shows "sp' = (sp - of_nat (length data)) AND NOT 7" "i < length data \<Longrightarrow> load8 (sp' + of_nat i) k' = Some (data ! i)"
    "(\<And>i. i < length data \<Longrightarrow> x \<noteq> sp' + of_nat i) \<Longrightarrow> load8 x k' = load8 x k" "k_procs k' = k_procs k"
proof -
  have s: "sp' = (sp - of_nat (length data)) AND NOT 7" "store_bytes sp' data k = Some k'"
    using assms(1) by (auto simp: push_to_stack_def bind_Some Let_def)
  show "sp' = (sp - of_nat (length data)) AND NOT 7" by (rule s(1))
  show "i < length data \<Longrightarrow> load8 (sp' + of_nat i) k' = Some (data ! i)" "(\<And>i. i < length data \<Longrightarrow> x \<noteq> sp' + of_nat i) \<Longrightarrow> load8 x k' = load8 x k"
    using store_bytes_load8 [OF s(2) assms(2)] by blast+
  show "k_procs k' = k_procs k" using s(2) by (induction data arbitrary: sp' k) (auto simp: bind_Some store8_def Let_def split: if_splits)
qed

subsection \<open>Handlers\<close>

lemma load8_upd_proc [simp]: "load8 a (upd_proc p f k) = load8 a k"
  by (simp add: load8_def mapped_def peek_def upd_proc_def)

text \<open>What \<^verbatim>\<open>process_dispatch\<close> leaves on the stack for a handler: the mask, and above it the context.\<close>

lemma pushed_twice:
  assumes "push_to_stack sp d1 k = Some (sp1, k')" "push_to_stack sp1 d2 k' = Some (sp2, k'')" "length d1 = 68" "length d2 = 8"
  shows "sp1 = sp2 + 8" "aligned sp2" "aligned sp1" "i < 8 \<Longrightarrow> load8 (sp2 + of_nat i) k'' = Some (d2 ! i)" "i < 68 \<Longrightarrow> load8 (sp1 + of_nat i) k'' = Some (d1 ! i)"
    "k_procs k'' = k_procs k"
proof -
  note p1 = push_to_stack_load8 [OF assms(1)] and p2 = push_to_stack_load8 [OF assms(2)]
  have a: "aligned sp1" "sp2 = (sp1 - 8) AND NOT 7" using p1(1) p2(1) assms(3,4) aligned_and(1) by simp_all
  show s: "sp1 = sp2 + 8" "aligned sp2" "aligned sp1" using a aligned_minus8 [OF a(1)] aligned_and(2) by simp_all
  show "i < 8 \<Longrightarrow> load8 (sp2 + of_nat i) k'' = Some (d2 ! i)" using p2(2) assms(4) by simp
  show "k_procs k'' = k_procs k" using p1(4) p2(4) assms(3,4) by simp
  assume i: "i < 68"
  have "sp1 + of_nat i \<noteq> sp2 + of_nat j" if "j < 8" for j
  proof
    assume "sp1 + of_nat i = sp2 + of_nat j"
    then have "(of_nat (8 + i) :: u32) = of_nat j" by (simp add: s(1) add.assoc)
    then have "unat (of_nat (8 + i) :: u32) = unat (of_nat j :: u32)" by (rule arg_cong)
    then show False using i that by (simp add: unat_of_nat del: of_nat_add)
  qed
  then show "load8 (sp1 + of_nat i) k'' = Some (d1 ! i)" using p2(3) [of "sp1 + of_nat i"] p1(2) [of i] i assms(3,4) by simp
qed

lemma popped:
  assumes "\<And>i. i < 4 * n \<Longrightarrow> load8 (sp + of_nat i) k = Some (words_bytes ws ! i)" "length ws = n"
  shows "pop_from_stack sp n k = Some (ws, ALIGN (sp + 4 * of_nat n) 3)"
proof -
  have "load_bytes sp (4 * n) k = Some (words_bytes ws)" using load_bytes_eq [of "words_bytes ws" sp k] assms by (simp add: length_words_bytes)
  then show ?thesis using words_roundtrip [OF assms(2)] by (simp add: pop_from_stack_def load_words_def)
qed

lemma context_at_words: "length (c_r c) = 13 \<Longrightarrow> context_at (c_cpsr c # c_r c @ [c_sp c, c_lr c, c_pc c]) = c"
  by (cases c) (simp add: context_at_def nth_append)

text \<open>
  C7: a program gets back to where a signal interrupted it.  When a signal with a handler is delivered, the program continues
  in the handler, with the number of the signal as argument, an aligned stack, and the signal and those of its
  action blocked.  When the handler comes to its \<^verbatim>\<open>sigreturn\<close> with the stack pointer it was given, and the 76 bytes
  above it as the kernel left them, then every register, the status, the stack pointer, the place in the program and
  the mask are again what they were before the signal, whatever happened to the rest of the system in between.
\<close>

theorem signal_handler_returns:
  assumes "k_procs k p = Some x" "length (c_r (pr_context x)) = 13"
    "sig = sigpeekset (sigandset (sig_pending (pr_signal x)) (signotset (sig_mask (pr_signal x))))" "sig \<noteq> 0"
    "action_of sig (pr_signal x) = Some a" "ksa_handler a \<noteq> SIG_DFL" "ksa_handler a \<noteq> SIG_IGN"
    "deliver_signal p x k = Some (r, k1)" "k_procs k1 p = Some x1"
    "current k2 = Some (p, y)" "c_sp (pr_context y) = c_sp (pr_context x1)"
    "\<forall>i < 76. load8 (c_sp (pr_context x1) + of_nat i) k2 = load8 (c_sp (pr_context x1) + of_nat i) k1"
  shows "r = None \<and> c_pc (pr_context x1) = ksa_handler a \<and> c_lr (pr_context x1) = ksa_restorer a \<and> c_r (pr_context x1) ! 0 = word_of_int sig
    \<and> aligned (c_sp (pr_context x1)) \<and> IS_USER_MODE (pr_context x1)
    \<and> sig_mask (pr_signal x1) = snd (sigaddset (sigorset (sig_mask (pr_signal x)) (ksa_mask a)) sig)
    \<and> (\<exists>k3 z. process_sigreturn k2 = Some k3 \<and> k_procs k3 p = Some z \<and> pr_context z = pr_context x \<and> sig_mask (pr_signal z) = sig_mask (pr_signal x))"
proof -
  let ?c = "pr_context x"
  let ?m = "sig_mask (pr_signal x)"
  let ?cw = "c_cpsr ?c # c_r ?c @ [c_sp ?c, c_lr ?c, c_pc ?c]"
  let ?mw = "[field0 ?m, field1 ?m]"
  obtain sp1 k' sp2 k'' where push: "push_to_stack (c_sp ?c) (context_bytes ?c) k = Some (sp1, k')" "push_to_stack sp1 (sigset_bytes ?m) k' = Some (sp2, k'')"
    and k1: "r = None" "k1 = upd_proc p (\<lambda>x. x\<lparr>pr_signal := (pr_signal x)\<lparr>sig_pending := snd (sigdelset (sig_pending (pr_signal x)) sig)\<rparr>\<rparr>)
      (set_mask p (snd (sigaddset (sigorset ?m (ksa_mask a)) sig)) (upd_proc p (\<lambda>x. x\<lparr>pr_context := zero_context\<lparr>c_cpsr := 0x10, c_r := (replicate 13 0)[0 := word_of_int sig],
        c_sp := sp2, c_lr := ksa_restorer a, c_pc := ksa_handler a\<rparr>\<rparr>) k''))"
    using assms(4-8) unfolding deliver_signal_def Let_def assms(3) [symmetric] by (auto simp: bind_Some)
  have len: "length (context_bytes ?c) = 68" "length (sigset_bytes ?m) = 8"
    using assms(2) by (simp_all add: context_bytes_def sigset_bytes_def length_words_bytes)
  note s = pushed_twice [OF push len]
  have x1: "x1 = x\<lparr>pr_context := zero_context\<lparr>c_cpsr := 0x10, c_r := (replicate 13 0)[0 := word_of_int sig], c_sp := sp2, c_lr := ksa_restorer a, c_pc := ksa_handler a\<rparr>,
      pr_signal := (pr_signal x)\<lparr>sig_mask := snd (sigaddset (sigorset ?m (ksa_mask a)) sig), sig_pending := snd (sigdelset (sig_pending (pr_signal x)) sig)\<rparr>\<rparr>"
    using assms(1,9) s(6) by (simp add: k1(2) set_mask_def upd_proc_def)
  have l: "load8 a k1 = load8 a k''" for a by (simp add: k1(2) set_mask_def)
  have sp: "c_sp (pr_context x1) = sp2" by (simp add: x1)
  have m: "load8 (sp2 + of_nat i) k2 = Some (words_bytes ?mw ! i)" if "i < 4 * 2" for i
    using assms(12) s(4) [of i] that by (simp add: sp l sigset_bytes_def)
  have c: "load8 (sp1 + of_nat i) k2 = Some (words_bytes ?cw ! i)" if "i < 4 * 17" for i
    using assms(12) [rule_format, of "8 + i"] s(5) [of i] that by (simp add: sp l s(1) add.assoc context_bytes_def)
  have "process_sigreturn k2 = Some (upd_proc p (\<lambda>x. x\<lparr>pr_context := context_at ?cw\<rparr>) (set_mask p (sigset_at ?mw) k2))"
    using popped [OF m] popped [OF c] aligned_ALIGN [OF s(3)] assms(2,10,11) s(1) by (simp add: process_sigreturn_def sp numeral_2_eq_2)
  moreover have "k_procs k2 p = Some y" using assms(10) by (auto simp: current_def bind_Some)
  moreover have "sigset_at ?mw = ?m" by (simp add: sigset_at_def)
  ultimately have "\<exists>k3 z. process_sigreturn k2 = Some k3 \<and> k_procs k3 p = Some z \<and> pr_context z = ?c \<and> sig_mask (pr_signal z) = ?m"
    using context_at_words [OF assms(2)] by (simp add: set_mask_def upd_proc_def)
  then show ?thesis using k1(1) s(2) by (simp add: x1 IS_USER_MODE_def)
qed

definition example_handler :: k_sigaction where
  "example_handler = \<lparr>ksa_handler = 0x10500, ksa_flags = 0, ksa_restorer = 0x10600, ksa_mask = sigemptyset\<rparr>"

definition signalled :: process where
  "signalled = first_process\<lparr>pr_context := \<lparr>c_cpsr = 0x60000010, c_r = replicate 13 7, c_sp = 0x10804, c_lr = 0x10100, c_pc = 0x10104\<rparr>,
     pr_signal := \<lparr>sig_mask = sigemptyset, sig_pending = snd (sigaddset sigemptyset SIGSEGV), sig_actions = replicate 64 example_handler\<rparr>\<rparr>"

lemma push_mapped:
  assumes "\<And>i. i < length data \<Longrightarrow> mapped (((sp - of_nat (length data)) AND NOT 7) + of_nat i) k"
  shows "\<exists>u. push_to_stack sp data k = Some ((sp - of_nat (length data)) AND NOT 7, k\<lparr>k_user := u\<rparr>)"
  using store_bytes_mapped [of data "(sp - of_nat (length data)) AND NOT 7" k] assms by (auto simp: push_to_stack_def Let_def)

theorem signal_handler_returns_witness:
  "\<exists>k k1 k3 x1 z. k_procs k 1 = Some signalled \<and> deliver_signal 1 signalled k = Some (None, k1) \<and> k_procs k1 1 = Some x1 \<and> c_pc (pr_context x1) = 0x10500 \<and>
     process_sigreturn k1 = Some k3 \<and> k_procs k3 1 = Some z \<and> pr_context z = pr_context signalled"
proof -
  obtain m where m: "\<And>va. 0x10000 \<le> va \<Longrightarrow> va < 0x11000 \<Longrightarrow> user_access m 1 va \<noteq> None" using mmu_user_example by blast
  define k where "k = (boot_kernel m)\<lparr>k_mmu := m\<lparr>m_current := 1\<rparr>, k_current := Some 1, k_procs := [1 \<mapsto> signalled]\<rparr>"
  have mp: "mapped (0x107c0 + of_nat i) (k\<lparr>k_user := u\<rparr>)" "mapped (0x107b8 + of_nat i) (k\<lparr>k_user := u\<rparr>)" if "i < 68" for i u
  proof -
    have "unat (0x107c0 + of_nat i :: u32) = 0x107c0 + i" "unat (0x107b8 + of_nat i :: u32) = 0x107b8 + i" using that by (simp_all add: unat_word_ariths unat_of_nat)
    then show "mapped (0x107c0 + of_nat i) (k\<lparr>k_user := u\<rparr>)" "mapped (0x107b8 + of_nat i) (k\<lparr>k_user := u\<rparr>)"
      using m [of "0x107c0 + of_nat i"] m [of "0x107b8 + of_nat i"] that
      by (simp_all add: mapped_def k_def user_access_def find_mapping_def word_le_nat_alt word_less_nat_alt)
  qed
  let ?c = "context_bytes (pr_context signalled)"
  let ?s = "sigset_bytes (sig_mask (pr_signal signalled))"
  have len: "length ?c = 68" "length ?s = 8" by (simp_all add: context_bytes_def sigset_bytes_def length_words_bytes signalled_def)
  obtain u1 where u1: "push_to_stack 0x10804 ?c k = Some (0x107c0, k\<lparr>k_user := u1\<rparr>)" using push_mapped [of ?c "0x10804" k] mp(1) [of _ "k_user k"] len(1) by auto
  obtain u2 where u2: "push_to_stack 0x107c0 ?s (k\<lparr>k_user := u1\<rparr>) = Some (0x107b8, k\<lparr>k_user := u2\<rparr>)" using push_mapped [of ?s "0x107c0" "k\<lparr>k_user := u1\<rparr>"] mp(2) [of _ u1] len(2) by auto
  have sig: "sigpeekset (sigandset (sig_pending (pr_signal signalled)) (signotset (sig_mask (pr_signal signalled)))) = 11"
    unfolding signalled_def process.simps process_signal.simps by code_simp
  have act: "action_of 11 (pr_signal signalled) = Some example_handler" by (simp add: action_of_def signalled_def)
  have sp: "c_sp (pr_context signalled) = 0x10804" by (simp add: signalled_def)
  obtain k1 where k1: "deliver_signal 1 signalled k = Some (None, k1)"
    unfolding deliver_signal_def Let_def sig act sp using u1 u2 by (auto simp: example_handler_def SIG_DFL_def SIG_IGN_def)
  have cur: "k_current k1 = Some 1" "k_procs k1 1 \<noteq> None" using coreD(1,16) [OF core_deliver_signal [OF k1]] by (simp_all add: k_def)
  then obtain x1 where x1: "k_procs k1 1 = Some x1" "current k1 = Some (1, x1)" by (auto simp: current_def)
  have "ksa_handler example_handler \<noteq> SIG_DFL" "ksa_handler example_handler \<noteq> SIG_IGN" by (simp_all add: example_handler_def SIG_DFL_def SIG_IGN_def)
  moreover have "k_procs k 1 = Some signalled" "length (c_r (pr_context signalled)) = 13" by (simp_all add: k_def signalled_def)
  ultimately show ?thesis
    using signal_handler_returns [of k 1 signalled 11 example_handler None k1 x1 k1 x1] sig act k1 x1 by (auto simp: example_handler_def)
qed

subsection \<open>What sigreturn does not check\<close>

text \<open>
  The context comes from memory of the program and is taken as it is.  A program that puts 17 words of its own on its
  stack continues with them, the mode bits of the status among them, and with any mask, also one with
  \<^verbatim>\<open>SIGKILL\<close>.
\<close>

lemma sigreturn_unchecked:
  assumes "current k = Some (p, x)" "length ws = 17" "length ms = 2" "aligned (c_sp (pr_context x))"
    "\<And>i. i < 8 \<Longrightarrow> load8 (c_sp (pr_context x) + of_nat i) k = Some (words_bytes ms ! i)"
    "\<And>i. i < 68 \<Longrightarrow> load8 (c_sp (pr_context x) + 8 + of_nat i) k = Some (words_bytes ws ! i)"
  shows "\<exists>k' z. process_sigreturn k = Some k' \<and> k_procs k' p = Some z \<and> c_cpsr (pr_context z) = ws ! 0 \<and> c_pc (pr_context z) = ws ! 16 \<and> sig_mask (pr_signal z) = sigset_at ms"
proof -
  let ?sp = "c_sp (pr_context x)"
  have "aligned (?sp + 8)" by (rule aligned_plus8 [OF assms(4)])
  then have "pop_from_stack ?sp 2 k = Some (ms, ?sp + 8)" "pop_from_stack (?sp + 8) 17 k = Some (ws, ALIGN (?sp + 8 + 68) 3)"
    using popped [of 2 ?sp k ms] popped [of 17 "?sp + 8" k ws] aligned_ALIGN [of "?sp + 8"] assms(2,3,5,6) by simp_all
  moreover have "k_procs k p = Some x" using assms(1) by (auto simp: current_def bind_Some)
  ultimately show ?thesis using assms(1) by (simp add: process_sigreturn_def set_mask_def upd_proc_def context_at_def)
qed

end
