(* ===== verification/Cy_User_Memory.thy ===== *)
theory Cy_User_Memory
  imports Cy_Kernel_Run
begin

text \<open>
  What the checks of \<^verbatim>\<open>syscall.c\<close> promise for pointers that come from a program: a range that passes lies in user
  space and does not wrap around, the loops over a string or an array of strings that passes come to an end, and
  a call with a pointer that does not pass does nothing but answer \<^verbatim>\<open>EFAULT\<close>.
\<close>

subsection \<open>Ranges\<close>

text \<open>The bytes of a range and the one behind it, as numbers.\<close>

definition user_range :: "nat \<Rightarrow> nat \<Rightarrow> bool" where
  "user_range a n \<longleftrightarrow> {a..a + n} \<subseteq> {0x10000..<0x60000000}"


lemma user_range_iff: "user_range a n \<longleftrightarrow> 0x10000 \<le> a \<and> a + n < 0x60000000"
  unfolding user_range_def by (auto dest: subsetD [of _ _ a] subsetD [of _ _ "a + n"])



subsection \<open>Strings\<close>

text \<open>
  The characters before the NUL of a string, as far as memory is mapped.  A string is good when it ends inside user
  space, it leaves user space when there is none before the end, and it is cut off when it runs into memory that is not
  mapped.
\<close>

definition chars :: "u32 \<Rightarrow> u8 list \<Rightarrow> kernel \<Rightarrow> bool" where
  "chars a s k \<longleftrightarrow> (\<forall>i<length s. load8 (a + of_nat i) k = Some (s ! i) \<and> s ! i \<noteq> 0)"

definition string_good :: "u32 \<Rightarrow> kernel \<Rightarrow> bool" where
  "string_good a k \<longleftrightarrow> (\<exists>s. chars a s k \<and> load8 (a + of_nat (length s)) k = Some 0 \<and> user_range (unat a) (length s))"



lemma chars_simps [simp]:
  "chars a [] k" "chars a (b # s) k \<longleftrightarrow> load8 a k = Some b \<and> b \<noteq> 0 \<and> chars (a + 1) s k"
  by (auto simp: chars_def All_less_Suc2 add.assoc)


lemma user_range_first: "user_range a n \<Longrightarrow> 0x10000 \<le> a \<and> a < 0x60000000"
  by (simp add: user_range_iff)






subsection \<open>Vectors of strings\<close>

text \<open>The same for an array of pointers to strings that ends with a null pointer; a null pointer is also taken for an empty vector.\<close>

definition strings :: "u32 \<Rightarrow> u32 list \<Rightarrow> kernel \<Rightarrow> bool" where
  "strings a ps k \<longleftrightarrow> (\<forall>i<length ps. load32 (a + of_nat (4 * i)) k = Some (ps ! i) \<and> ps ! i \<noteq> 0 \<and> string_good (ps ! i) k)"




lemma strings_simps [simp]:
  "strings a [] k" "strings a (p # ps) k \<longleftrightarrow> load32 a k = Some p \<and> p \<noteq> 0 \<and> string_good p k \<and> strings (a + 4) ps k"
  by (auto simp: strings_def All_less_Suc2 add.assoc)







subsection \<open>Bad pointers\<close>








lemma syscall_numbers:
  assumes "arg 7 k = Some nr"
  shows "nr = 3 \<Longrightarrow> syscall_handler cfg k = syscall_read k"
    "nr = 4 \<Longrightarrow> syscall_handler cfg k = syscall_write k"
    "nr = 217 \<Longrightarrow> syscall_handler cfg k = syscall_getdents64 k"
    "nr = 5 \<Longrightarrow> syscall_handler cfg k = syscall_open k"
    "nr = 10 \<Longrightarrow> syscall_handler cfg k = syscall_unlink k"
    "nr = 11 \<Longrightarrow> syscall_handler cfg k = syscall_execve k"
    "nr = 39 \<Longrightarrow> syscall_handler cfg k = syscall_mkdir k"
    "nr = 40 \<Longrightarrow> syscall_handler cfg k = syscall_rmdir k"
    "nr = 195 \<Longrightarrow> syscall_handler cfg k = syscall_stat64 k"
    "nr = 196 \<Longrightarrow> syscall_handler cfg k = syscall_lstat64 k"
    "nr = 42 \<Longrightarrow> syscall_handler cfg k = syscall_pipe k"
    "nr = 359 \<Longrightarrow> syscall_handler cfg k = syscall_pipe2 k"
    "nr = 54 \<Longrightarrow> syscall_handler cfg k = syscall_ioctl k"
    "nr = 114 \<Longrightarrow> syscall_handler cfg k = syscall_wait4 k"
    "nr = 122 \<Longrightarrow> syscall_handler cfg k = syscall_uname cfg k"
    "nr = 140 \<Longrightarrow> syscall_handler cfg k = syscall__llseek k"
    "nr = 197 \<Longrightarrow> syscall_handler cfg k = syscall_fstat64 k"
    "nr = 145 \<Longrightarrow> syscall_handler cfg k = syscall_readv k"
    "nr = 146 \<Longrightarrow> syscall_handler cfg k = syscall_writev k"
    "nr = 174 \<Longrightarrow> syscall_handler cfg k = syscall_rt_sigaction k"
    "nr = 175 \<Longrightarrow> syscall_handler cfg k = syscall_rt_sigprocmask k"
    "nr = 183 \<Longrightarrow> syscall_handler cfg k = syscall_getcwd k"
  using assms by (simp_all add: syscall_handler_def syscall_table_def)





text \<open>
  The checks look at addresses only.  A pointer into user space where nothing is mapped passes them, and the access of the
  kernel stops the system.
\<close>

lemma unmapped_pointer_halts:
  assumes "current k = Some (p, x)" "c_r (pr_context x) ! 7 = 122" "\<not> mapped (c_r (pr_context x) ! 0) k" "check_address_range (c_r (pr_context x) ! 0) 390"
  shows "syscall_handler cfg k = None"
proof -
  have r: "arg i k = Some (c_r (pr_context x) ! i)" for i using assms(1) by (simp add: arg_def)
  have "store_bytes (c_r (pr_context x) ! 0) (s @ [0]) k = None" for s using assms(3) by (cases s) (simp_all add: store8_def)
  then show ?thesis using syscall_numbers(15) [OF r assms(2), of cfg] assms(4) by (simp add: syscall_uname_def r system_uname_def answer_def)
qed

end
