(* ===== verification/Cy_Logger.thy ===== *)
theory Cy_Logger
  imports Cy_Stdarg Cy_String Cy_Tty
begin

text \<open>
  \<^verbatim>\<open>logger.c\<close>: a message is formatted into a buffer of 128 bytes on the stack, gets a newline and goes to the
  serial port.  Memory is that of \<^verbatim>\<open>lib/string.c\<close>; \<open>str\<close> is the address of the buffer and \<open>nl\<close> that of the
  literal with the newline.  The least level to be written is a setting of the build and a parameter here.
\<close>

datatype logger_level = LOGGER_LEVEL_DEBUG | LOGGER_LEVEL_INFO | LOGGER_LEVEL_WARN | LOGGER_LEVEL_ERROR | LOGGER_LEVEL_FATAL

primrec level_number :: "logger_level \<Rightarrow> nat" where
  "level_number LOGGER_LEVEL_DEBUG = 0"
| "level_number LOGGER_LEVEL_INFO = 1"
| "level_number LOGGER_LEVEL_WARN = 2"
| "level_number LOGGER_LEVEL_ERROR = 3"
| "level_number LOGGER_LEVEL_FATAL = 4"

text \<open>The buffer as \<^verbatim>\<open>vsnprintf\<close> sees it, and the memory after it was written.\<close>

definition chars_at :: "memory \<Rightarrow> nat \<Rightarrow> nat \<Rightarrow> char" where
  "chars_at m str = (\<lambda>i. char_of (unat (m (str + i))))"

definition byte_of :: "char \<Rightarrow> u8" where
  "byte_of c = of_nat (of_char c)"

definition with_chars :: "memory \<Rightarrow> nat \<Rightarrow> (nat \<Rightarrow> char) \<Rightarrow> memory" where
  "with_chars m str buf = (\<lambda>a. if a < str then m a else byte_of (buf (a - str)))"

definition logger_write :: "logger_level \<Rightarrow> nat \<Rightarrow> nat \<Rightarrow> logger_level \<Rightarrow> string \<Rightarrow> va_arg list \<Rightarrow> memory \<Rightarrow> uart \<Rightarrow> (int \<times> memory \<times> uart) option" where
  "logger_write threshold str nl level format ap m u =
     (if level_number level < level_number threshold then Some (0, m, u)
      else
        Option.bind (vsnprintf (chars_at m str) (128 - 1) format ap) (\<lambda>(r, buf).
          let m = with_chars m str buf
          in if r = EOF then Some (- 1, m, u)
             else
               Option.bind (strcat m str nl) (\<lambda>m.
               Option.bind (strlen m str) (\<lambda>n.
                 let (r, u) = uart_write (map m [str..<str + n]) u in Some (int r, m, u)))))"

definition logger_debug :: "logger_level \<Rightarrow> nat \<Rightarrow> nat \<Rightarrow> string \<Rightarrow> va_arg list \<Rightarrow> memory \<Rightarrow> uart \<Rightarrow> (int \<times> memory \<times> uart) option" where
  "logger_debug threshold str nl format ap m u = logger_write threshold str nl LOGGER_LEVEL_DEBUG format ap m u"

definition logger_info :: "logger_level \<Rightarrow> nat \<Rightarrow> nat \<Rightarrow> string \<Rightarrow> va_arg list \<Rightarrow> memory \<Rightarrow> uart \<Rightarrow> (int \<times> memory \<times> uart) option" where
  "logger_info threshold str nl format ap m u = logger_write threshold str nl LOGGER_LEVEL_INFO format ap m u"

definition logger_warn :: "logger_level \<Rightarrow> nat \<Rightarrow> nat \<Rightarrow> string \<Rightarrow> va_arg list \<Rightarrow> memory \<Rightarrow> uart \<Rightarrow> (int \<times> memory \<times> uart) option" where
  "logger_warn threshold str nl format ap m u = logger_write threshold str nl LOGGER_LEVEL_WARN format ap m u"

definition logger_error :: "logger_level \<Rightarrow> nat \<Rightarrow> nat \<Rightarrow> string \<Rightarrow> va_arg list \<Rightarrow> memory \<Rightarrow> uart \<Rightarrow> (int \<times> memory \<times> uart) option" where
  "logger_error threshold str nl format ap m u = logger_write threshold str nl LOGGER_LEVEL_ERROR format ap m u"

definition logger_fatal :: "logger_level \<Rightarrow> nat \<Rightarrow> nat \<Rightarrow> string \<Rightarrow> va_arg list \<Rightarrow> memory \<Rightarrow> uart \<Rightarrow> (int \<times> memory \<times> uart) option" where
  "logger_fatal threshold str nl format ap m u = logger_write threshold str nl LOGGER_LEVEL_FATAL format ap m u"

subsection \<open>What is written\<close>

definition message_bytes :: "string \<Rightarrow> u8 list" where
  "message_bytes out = takeWhile (\<lambda>b. b \<noteq> 0) (map byte_of (take 126 out))"

lemma byte_of_char_of [simp]: "byte_of (char_of (unat b)) = b"
proof -
  have "unat b < 256" using unsigned_less [of b] by simp
  then show ?thesis by (simp add: byte_of_def)
qed

lemma with_chars_outside: "(\<And>i. 128 \<le> i \<Longrightarrow> buf i = chars_at m str i) \<Longrightarrow> a \<notin> {str..<str + 128} \<Longrightarrow> with_chars m str buf a = m a"
  by (auto simp: with_chars_def chars_at_def)

lemma takeWhile_cstr: "(\<And>i. i < length xs \<Longrightarrow> m (p + i) = xs ! i) \<Longrightarrow> m (p + length xs) = 0 \<Longrightarrow> cstr m p (takeWhile (\<lambda>b. b \<noteq> 0) xs)"
proof (induction xs arbitrary: p)
  case (Cons x xs)
  have "m p = x" using Cons.prems(1) [of 0] by simp
  moreover have "cstr m (p + 1) (takeWhile (\<lambda>b. b \<noteq> 0) xs)" using Cons.prems(1) [of "Suc _"] Cons.prems(2) by (intro Cons.IH) (fastforce, simp)
  ultimately show ?case by simp
qed simp

lemma message_bytes_length: "length (message_bytes out) \<le> 126"
  unfolding message_bytes_def by (rule order_trans [OF length_takeWhile_le]) simp

lemma message_cstr: "cstr (with_chars m str (terminated out 127 (chars_at m str))) str (message_bytes out)"
  unfolding message_bytes_def
  by (rule takeWhile_cstr) (auto simp: with_chars_def terminated_def byte_of_def)

lemma strcat_newline:
  assumes "cstr m str s" "cstr m nl [10]" "nl + 1 < str \<or> str + length s + 2 \<le> nl"
  shows "strcat m str nl = Some (put m str (s @ [10, 0]))" "strlen (put m str (s @ [10, 0])) str = Some (Suc (length s))"
    "map (put m str (s @ [10, 0])) [str..<str + Suc (length s)] = s @ [10]"
proof -
  have "strcpy m (str + length s) nl = Some (put m (str + length s) [10, 0])" using strcpy_cstr [OF assms(2), of "str + length s"] assms(3) by auto
  then show "strcat m str nl = Some (put m str (s @ [10, 0]))"
    using put_cstr_append [OF assms(1), of "[10, 0]"] find_end_cstr [OF assms(1)] by (simp add: strcat_def)
  have c: "cstr (put m str (s @ [10, 0])) str (s @ [10])" using cstr_put [of "s @ [10]" m str] cstr_nonzero [OF assms(1)] by simp
  show "strlen (put m str (s @ [10, 0])) str = Some (Suc (length s))" using strlen_cstr [OF c] by simp
  show "map (put m str (s @ [10, 0])) [str..<str + Suc (length s)] = s @ [10]"
    by (rule nth_equalityI) (use cstr_nth [OF c] in \<open>simp_all del: upt_Suc\<close>)
qed

lemma logger_line:
  assumes "cstr m nl [10]" "nl + 1 < str \<or> str + 128 \<le> nl" "level_number threshold \<le> level_number level"
    and v: "vsnprintf (chars_at m str) 127 format ap = Some (v, buf)" "v \<noteq> EOF"
    and s: "cstr (with_chars m str buf) str s" "length s \<le> 126"
  shows "logger_write threshold str nl level format ap m u =
    Some (int (length s) + 1, put (with_chars m str buf) str (s @ [10, 0]), snd (uart_write (s @ [10]) u))"
proof -
  let ?m = "with_chars m str buf"
  have "?m a = m a" if "a \<notin> {str..<str + 128}" for a by (rule with_chars_outside) (use that vsnprintf_outside [OF v(1)] in auto)
  then have "cstr ?m nl [10]" using assms(1,2) by auto
  moreover have "nl + 1 < str \<or> str + length s + 2 \<le> nl" using assms(2) s(2) by linarith
  ultimately have c: "strcat ?m str nl = Some (put ?m str (s @ [10, 0]))" "strlen (put ?m str (s @ [10, 0])) str = Some (Suc (length s))"
    "map (put ?m str (s @ [10, 0])) [str..<str + Suc (length s)] = s @ [10]"
    using strcat_newline [OF s(1)] by blast+
  then show ?thesis using assms(3) v c by (simp add: logger_write_def Let_def uart_write_def del: upt_Suc)
qed

lemma logger_formats:
  assumes "cstr m nl [10]" "nl + 1 < str \<or> str + 128 \<le> nl" "level_number threshold \<le> level_number level" "fmt format ap = Some (Some out)"
    "length out \<le> INT_MAX"
  shows "logger_write threshold str nl level format ap m u =
    Some (int (length (message_bytes out)) + 1, put (with_chars m str (terminated out 127 (chars_at m str))) str (message_bytes out @ [10, 0]),
      snd (uart_write (message_bytes out @ [10]) u))"
proof -
  have "vsnprintf (chars_at m str) 127 format ap = Some (int (length out), terminated out 127 (chars_at m str))"
    using vsnprintf_fmt [where sz = 127 and format = format and ap = ap and str = "chars_at m str"] assms(4,5) by (simp add: INT_MAX_def)
  then show ?thesis by (rule logger_line [OF assms(1-3) _ _ message_cstr message_bytes_length]) (simp add: EOF_def)
qed

text \<open>Whatever was formatted, the buffer holds a string of at most 126 bytes.\<close>

lemma buffer_string:
  assumes "j < 127" "buf j = CHR 0x00"
  obtains s where "cstr (with_chars m str buf) str s" "length s \<le> 126"
proof -
  let ?xs = "map (\<lambda>i. byte_of (buf i)) [0..<j]"
  have "cstr (with_chars m str buf) str (takeWhile (\<lambda>b. b \<noteq> 0) ?xs)"
    by (rule takeWhile_cstr) (use assms(2) in \<open>simp_all add: with_chars_def byte_of_def\<close>)
  moreover have "length (takeWhile (\<lambda>b. b \<noteq> 0) ?xs) \<le> 126" by (rule order_trans [OF length_takeWhile_le]) (use assms(1) in simp)
  ultimately show thesis by (rule that)
qed

lemma logger_written:
  assumes "cstr m nl [10]" "nl + 1 < str \<or> str + 128 \<le> nl" "fmt format ap = Some (Some out)"
  obtains r m' u' where "logger_write threshold str nl level format ap m u = Some (r, m', u')" "\<And>a. a \<notin> {str..<str + 128} \<Longrightarrow> m' a = m a"
proof (cases "level_number level < level_number threshold")
  case True
  then show thesis using that by (simp add: logger_write_def)
next
  case False
  have "\<exists>v buf. vsnprintf (chars_at m str) 127 format ap = Some (v, buf) \<and> (\<exists>j < 127. buf j = CHR 0x00)"
    using vsnprintf_fmt [where sz = 127 and format = format and ap = ap and str = "chars_at m str"] assms(3) by (simp add: INT_MAX_def) blast
  then obtain v buf j where v: "vsnprintf (chars_at m str) 127 format ap = Some (v, buf)" and j: "j < 127" "buf j = CHR 0x00" by blast
  have b: "with_chars m str buf a = m a" if "a \<notin> {str..<str + 128}" for a
    by (rule with_chars_outside) (use that vsnprintf_outside [OF v] in auto)
  obtain s where s: "cstr (with_chars m str buf) str s" "length s \<le> 126" using buffer_string [of j buf m str] j by blast
  show thesis
  proof (cases "v = EOF")
    case True
    then show thesis using that b v False by (simp add: logger_write_def)
  next
    case ok: False
    have p: "put (with_chars m str buf) str (s @ [10, 0]) a = m a" if "a \<notin> {str..<str + 128}" for a
      using b [OF that] s(2) that by (auto intro!: trans [OF put_outside])
    have "logger_write threshold str nl level format ap m u =
        Some (int (length s) + 1, put (with_chars m str buf) str (s @ [10, 0]), snd (uart_write (s @ [10]) u))"
      using False by (intro logger_line [OF assms(1,2) _ v ok s]) simp
    then show thesis using p by (rule that)
  qed
qed

lemma logger_returns:
  assumes "cstr m nl [10]" "nl + 1 < str \<or> str + 128 \<le> nl" "fmt format ap = Some (Some out)"
  obtains r m' u' where "logger_write threshold str nl level format ap m u = Some (r, m', u')"
  by (rule logger_written [OF assms, of threshold level u]) (rule that)

text \<open>
  C32: the buffer of a log message never overflows, and what is logged is the formatted message.  Let the literal
  with the newline lie outside the 128 bytes of the buffer.  Then no call changes memory outside these bytes,
  whatever the level, the format and the arguments; a message at a level that is not filtered and within the range of
  \<^verbatim>\<open>int\<close> reaches the serial port as its formatting up to the first NUL, cut to 126 bytes, and a newline, which is
  what the result counts, and a longer one returns, too; a malformed format sends nothing and gives -1.
\<close>

theorem logger_write_correct:
  assumes "cstr m nl [10]" "nl + 1 < str \<or> str + 128 \<le> nl"
  shows "(\<forall>r m' u' a. logger_write threshold str nl level format ap m u = Some (r, m', u') \<and> a \<notin> {str..<str + 128} \<longrightarrow> m' a = m a)
    \<and> (level_number threshold \<le> level_number level \<longrightarrow>
        (case fmt format ap of
           None \<Rightarrow> logger_write threshold str nl level format ap m u = None
         | Some None \<Rightarrow> (\<exists>m'. logger_write threshold str nl level format ap m u = Some (- 1, m', u))
         | Some (Some out) \<Rightarrow> (\<exists>r m' u'. logger_write threshold str nl level format ap m u = Some (r, m', u')) \<and>
             (length out \<le> INT_MAX \<longrightarrow> (\<exists>m'. logger_write threshold str nl level format ap m u =
               Some (int (length (message_bytes out)) + 1, m', snd (uart_write (message_bytes out @ [10]) u))))))"
proof (intro conjI allI impI)
  note fmtd = vsnprintf_fmt [where sz = 127 and format = format and ap = ap and str = "chars_at m str"]
  fix r m' u' a
  assume a: "logger_write threshold str nl level format ap m u = Some (r, m', u') \<and> a \<notin> {str..<str + 128}"
  show "m' a = m a"
  proof (cases "level_number level < level_number threshold \<or> (\<exists>out. fmt format ap = Some (Some out))")
    case True
    then show ?thesis using a logger_written [OF assms, of format ap _ threshold level u] by (fastforce simp: logger_write_def)
  next
    case False
    then obtain v buf where v: "vsnprintf (chars_at m str) 127 format ap = Some (v, buf)" using a by (cases "vsnprintf (chars_at m str) 127 format ap") (auto simp: logger_write_def)
    have "with_chars m str buf a = m a" by (rule with_chars_outside) (use a vsnprintf_outside [OF v] in auto)
    moreover have "v = EOF" using fmtd v False by (auto simp: INT_MAX_def split: option.splits)
    ultimately show ?thesis using a False v by (auto simp: logger_write_def)
  qed
next
  assume l: "level_number threshold \<le> level_number level"
  note fmtd = vsnprintf_fmt [where sz = 127 and format = format and ap = ap and str = "chars_at m str"]
  consider "fmt format ap = None" | "fmt format ap = Some None" | out where "fmt format ap = Some (Some out)" by (metis option.exhaust)
  then show "case fmt format ap of
           None \<Rightarrow> logger_write threshold str nl level format ap m u = None
         | Some None \<Rightarrow> (\<exists>m'. logger_write threshold str nl level format ap m u = Some (- 1, m', u))
         | Some (Some out) \<Rightarrow> (\<exists>r m' u'. logger_write threshold str nl level format ap m u = Some (r, m', u')) \<and>
             (length out \<le> INT_MAX \<longrightarrow> (\<exists>m'. logger_write threshold str nl level format ap m u =
               Some (int (length (message_bytes out)) + 1, m', snd (uart_write (message_bytes out @ [10]) u))))"
  proof cases
    case (3 out)
    have "\<exists>r m' u'. logger_write threshold str nl level format ap m u = Some (r, m', u')" by (rule logger_returns [OF assms 3, of threshold level u]) blast
    then show ?thesis using 3 logger_formats [OF assms l 3] by simp
  qed (use fmtd l in \<open>auto simp: INT_MAX_def logger_write_def\<close>)
qed

theorem logger_write_correct_witness:
  "\<exists>m'. logger_write LOGGER_LEVEL_INFO 1000 10 LOGGER_LEVEL_WARN ''irq %d'' [Word_Arg 5] ((\<lambda>_. 0)(10 := 10)) \<lparr>u_rx = [], u_room = 16, u_tx = [], u_imsc = 0\<rparr> =
     Some (6, m', \<lparr>u_rx = [], u_room = 9, u_tx = [0x69, 0x72, 0x71, 0x20, 0x35, 13, 10], u_imsc = 0\<rparr>)"
proof -
  have f: "fmt ''irq %d'' [Word_Arg 5] = Some (Some ''irq 5'')" by code_simp
  have b: "message_bytes ''irq 5'' = [0x69, 0x72, 0x71, 0x20, 0x35]" by (simp add: message_bytes_def byte_of_def)
  show ?thesis
    using logger_write_correct [of "(\<lambda>_. 0)(10 := 10)" 10 1000 LOGGER_LEVEL_INFO LOGGER_LEVEL_WARN "''irq %d''" "[Word_Arg 5]" "\<lparr>u_rx = [], u_room = 16, u_tx = [], u_imsc = 0\<rparr>"]
    by (simp add: f b uart_write_def uart_putc_def uart_send_def INT_MAX_def)
qed

end
