(* ===== verification/Cy_Mmc.thy ===== *)
theory Cy_Mmc
  imports Cy_Block
begin

text \<open>
  \<^verbatim>\<open>mmc.c\<close>: the driver of the card with the file system.  It works on the registers of the host controller,
  which are the parameter \<open>b\<close> of every function: a bus has a state of its own, reading a register gives a
  word and may change the state, writing one changes it.  Buffers are functions from the index of a word.
  The driver never waits for the controller and never looks at a status it has read, so that its accesses to the
  registers are fixed in advance: this is shown for every bus.  At the end follows what that is good for: on an ideal
  controller, which has every word ready when it is asked for, and with a card that is never busy and makes no error,
  the driver implements a disk.
\<close>

subsection \<open>Registers and commands\<close>

record 's bus =
  bus_read :: "u32 \<Rightarrow> 's \<Rightarrow> u32 \<times> 's"
  bus_write :: "u32 \<Rightarrow> u32 \<Rightarrow> 's \<Rightarrow> 's"

definition MMC_BASE :: u32 where "MMC_BASE = 0x10005000"
definition MMC_POWER :: u32 where "MMC_POWER = 0x00"
definition MMC_CLOCK :: u32 where "MMC_CLOCK = 0x04"
definition MMC_ARGUMENT :: u32 where "MMC_ARGUMENT = 0x08"
definition MMC_COMMAND :: u32 where "MMC_COMMAND = 0x0c"
definition MMC_RESPONSE0 :: u32 where "MMC_RESPONSE0 = 0x14"
definition MMC_RESPONSE1 :: u32 where "MMC_RESPONSE1 = 0x18"
definition MMC_RESPONSE2 :: u32 where "MMC_RESPONSE2 = 0x1c"
definition MMC_RESPONSE3 :: u32 where "MMC_RESPONSE3 = 0x20"
definition MMC_DATA_TIMER :: u32 where "MMC_DATA_TIMER = 0x24"
definition MMC_DATA_LENGTH :: u32 where "MMC_DATA_LENGTH = 0x28"
definition MMC_DATA_CTRL :: u32 where "MMC_DATA_CTRL = 0x2c"
definition MMC_STATUS :: u32 where "MMC_STATUS = 0x34"
definition MMC_CLEAR :: u32 where "MMC_CLEAR = 0x38"
definition MMC_MASK0 :: u32 where "MMC_MASK0 = 0x3c"
definition MMC_FIFO :: u32 where "MMC_FIFO = 0x80"

definition MMC_CMD_GO_IDLE_STATE :: u32 where "MMC_CMD_GO_IDLE_STATE = 0"
definition MMC_CMD_ALL_SEND_CID :: u32 where "MMC_CMD_ALL_SEND_CID = 2"
definition MMC_CMD_SEND_RELATIVE_ADDR :: u32 where "MMC_CMD_SEND_RELATIVE_ADDR = 3"
definition MMC_CMD_SELECT_CARD :: u32 where "MMC_CMD_SELECT_CARD = 7"
definition MMC_CMD_SEND_IF_COND :: u32 where "MMC_CMD_SEND_IF_COND = 8"
definition MMC_CMD_SEND_CSD :: u32 where "MMC_CMD_SEND_CSD = 9"
definition MMC_CMD_READ_SINGLE_BLOCK :: u32 where "MMC_CMD_READ_SINGLE_BLOCK = 17"
definition MMC_CMD_WRITE_SINGLE_BLOCK :: u32 where "MMC_CMD_WRITE_SINGLE_BLOCK = 24"
definition MMC_CMD_SD_APP_OP_COND :: u32 where "MMC_CMD_SD_APP_OP_COND = 41"
definition MMC_CMD_APP_CMD :: u32 where "MMC_CMD_APP_CMD = 55"

definition MMC_CMD_RESPONSE :: u32 where "MMC_CMD_RESPONSE = push_bit 6 1"
definition MMC_CMD_LONG_RSP :: u32 where "MMC_CMD_LONG_RSP = push_bit 7 1"
definition MMC_CMD_ENABLE :: u32 where "MMC_CMD_ENABLE = push_bit 10 1"

definition MMC_RCA_MASK :: u32 where "MMC_RCA_MASK = NOT (push_bit 16 1 - 1)"
definition MMC_FIFO_SIZE :: nat where "MMC_FIFO_SIZE = 16"
definition MMC_BLOCK_SIZE :: nat where "MMC_BLOCK_SIZE = 0x200"

lemmas mmc_registers = MMC_POWER_def MMC_CLOCK_def MMC_ARGUMENT_def MMC_COMMAND_def MMC_RESPONSE0_def MMC_RESPONSE1_def MMC_RESPONSE2_def MMC_RESPONSE3_def
  MMC_DATA_TIMER_def MMC_DATA_LENGTH_def MMC_DATA_CTRL_def MMC_STATUS_def MMC_CLEAR_def MMC_MASK0_def MMC_FIFO_def

lemmas mmc_commands = MMC_CMD_GO_IDLE_STATE_def MMC_CMD_ALL_SEND_CID_def MMC_CMD_SEND_RELATIVE_ADDR_def MMC_CMD_SELECT_CARD_def MMC_CMD_SEND_IF_COND_def
  MMC_CMD_SEND_CSD_def MMC_CMD_READ_SINGLE_BLOCK_def MMC_CMD_WRITE_SINGLE_BLOCK_def MMC_CMD_SD_APP_OP_COND_def MMC_CMD_APP_CMD_def MMC_CMD_RESPONSE_def
  MMC_CMD_LONG_RSP_def MMC_CMD_ENABLE_def

definition reg_read :: "'s bus \<Rightarrow> u32 \<Rightarrow> 's \<Rightarrow> u32 \<times> 's" where
  "reg_read b r s = bus_read b (MMC_BASE + r) s"

definition reg_write :: "'s bus \<Rightarrow> u32 \<Rightarrow> u32 \<Rightarrow> 's \<Rightarrow> 's" where
  "reg_write b r v s = bus_write b (MMC_BASE + r) v s"

subsection \<open>The driver\<close>

record mmc_cmd_resp =
  r_status :: u32
  r_mask :: u32
  r_resp :: "u32 list"

definition mmc_send_command :: "'s bus \<Rightarrow> u32 \<Rightarrow> u32 \<Rightarrow> mmc_cmd_resp \<Rightarrow> 's \<Rightarrow> mmc_cmd_resp \<times> 's" where
  "mmc_send_command b cmd arg cresp s =
     (let s = reg_write b MMC_ARGUMENT arg s;
          s = reg_write b MMC_COMMAND cmd s;
          (status, s) = reg_read b MMC_STATUS s;
          (mask, s) = reg_read b MMC_MASK0 s;
          s = reg_write b MMC_CLEAR 0xfff s;
          cresp = cresp\<lparr>r_status := status, r_mask := mask\<rparr>
      in if cmd AND MMC_CMD_RESPONSE \<noteq> 0 then
           let (r0, s) = reg_read b MMC_RESPONSE0 s;
               (r1, s) = reg_read b MMC_RESPONSE1 s;
               (r2, s) = reg_read b MMC_RESPONSE2 s;
               (r3, s) = reg_read b MMC_RESPONSE3 s
           in (cresp\<lparr>r_resp := [r0, r1, r2, r3]\<rparr>, s)
         else (cresp, s))"

text \<open>The inner loops: \<open>n\<close> words between the buffer, from \<open>p\<close> on, and the data register.\<close>

fun fifo_write :: "'s bus \<Rightarrow> nat \<Rightarrow> nat \<Rightarrow> (nat \<Rightarrow> u32) \<Rightarrow> 's \<Rightarrow> 's" where
  "fifo_write b 0 p buf s = s"
| "fifo_write b (Suc n) p buf s = fifo_write b n (p + 1) buf (reg_write b MMC_FIFO (buf p) s)"

fun fifo_read :: "'s bus \<Rightarrow> nat \<Rightarrow> nat \<Rightarrow> (nat \<Rightarrow> u32) \<Rightarrow> 's \<Rightarrow> (nat \<Rightarrow> u32) \<times> 's" where
  "fifo_read b 0 p buf s = (buf, s)"
| "fifo_read b (Suc n) p buf s = (let (w, s) = reg_read b MMC_FIFO s in fifo_read b n (p + 1) (buf(p := w)) s)"

text \<open>The outer loops; the one that reads looks at the status in every round.\<close>

fun write_rounds :: "'s bus \<Rightarrow> nat \<Rightarrow> nat \<Rightarrow> (nat \<Rightarrow> u32) \<Rightarrow> 's \<Rightarrow> 's" where
  "write_rounds b 0 p buf s = s"
| "write_rounds b (Suc n) p buf s = write_rounds b n (p + MMC_FIFO_SIZE) buf (fifo_write b MMC_FIFO_SIZE p buf s)"

fun read_rounds :: "'s bus \<Rightarrow> nat \<Rightarrow> nat \<Rightarrow> (nat \<Rightarrow> u32) \<Rightarrow> 's \<Rightarrow> (nat \<Rightarrow> u32) \<times> 's" where
  "read_rounds b 0 p buf s = (buf, s)"
| "read_rounds b (Suc n) p buf s =
     (let (status, s) = reg_read b MMC_STATUS s;
          (buf, s) = fifo_read b MMC_FIFO_SIZE p buf s
      in read_rounds b n (p + MMC_FIFO_SIZE) buf s)"

text \<open>One block, to or from the words of the buffer from \<open>p\<close> on.  \<open>cresp\<close> is what the local variable holds before it is set.\<close>

definition mmc_write_block :: "'s bus \<Rightarrow> mmc_cmd_resp \<Rightarrow> u64 \<Rightarrow> nat \<Rightarrow> (nat \<Rightarrow> u32) \<Rightarrow> 's \<Rightarrow> int \<times> 's" where
  "mmc_write_block b cresp address p buf s =
     (let s = reg_write b MMC_DATA_TIMER 0xa000 s;
          s = reg_write b MMC_DATA_LENGTH 0x200 s;
          s = reg_write b MMC_DATA_CTRL 0x91 s;
          (cresp, s) = mmc_send_command b (MMC_CMD_WRITE_SINGLE_BLOCK OR MMC_CMD_RESPONSE OR MMC_CMD_ENABLE) (ucast address) cresp s
      in (0, write_rounds b (MMC_BLOCK_SIZE div 4 div MMC_FIFO_SIZE) p buf s))"

definition mmc_read_block :: "'s bus \<Rightarrow> mmc_cmd_resp \<Rightarrow> u64 \<Rightarrow> nat \<Rightarrow> (nat \<Rightarrow> u32) \<Rightarrow> 's \<Rightarrow> int \<times> (nat \<Rightarrow> u32) \<times> 's" where
  "mmc_read_block b cresp address p buf s =
     (let s = reg_write b MMC_DATA_TIMER 0xa000 s;
          s = reg_write b MMC_DATA_LENGTH 0x200 s;
          s = reg_write b MMC_DATA_CTRL 0x93 s;
          (cresp, s) = mmc_send_command b (MMC_CMD_READ_SINGLE_BLOCK OR MMC_CMD_RESPONSE OR MMC_CMD_ENABLE) (ucast address) cresp s
      in (0, read_rounds b (MMC_BLOCK_SIZE div 4 div MMC_FIFO_SIZE) p buf s))"

text \<open>The loops of \<^verbatim>\<open>mmc_write\<close> and \<^verbatim>\<open>mmc_read\<close>, with \<open>n\<close> blocks to go.\<close>

fun mmc_write_loop :: "'s bus \<Rightarrow> mmc_cmd_resp \<Rightarrow> nat \<Rightarrow> u64 \<Rightarrow> nat \<Rightarrow> (nat \<Rightarrow> u32) \<Rightarrow> 's \<Rightarrow> int \<times> 's" where
  "mmc_write_loop b cresp 0 address p buf s = (0, s)"
| "mmc_write_loop b cresp (Suc n) address p buf s =
     (let (r, s) = mmc_write_block b cresp address p buf s
      in if r < 0 then (-1, s) else mmc_write_loop b cresp n (address + of_nat MMC_BLOCK_SIZE) (p + MMC_BLOCK_SIZE div 4) buf s)"

fun mmc_read_loop :: "'s bus \<Rightarrow> mmc_cmd_resp \<Rightarrow> nat \<Rightarrow> u64 \<Rightarrow> nat \<Rightarrow> (nat \<Rightarrow> u32) \<Rightarrow> 's \<Rightarrow> int \<times> (nat \<Rightarrow> u32) \<times> 's" where
  "mmc_read_loop b cresp 0 address p buf s = (0, buf, s)"
| "mmc_read_loop b cresp (Suc n) address p buf s =
     (let (r, buf, s) = mmc_read_block b cresp address p buf s
      in if r < 0 then (-1, buf, s) else mmc_read_loop b cresp n (address + of_nat MMC_BLOCK_SIZE) (p + MMC_BLOCK_SIZE div 4) buf s)"

definition mmc_write :: "'s bus \<Rightarrow> mmc_cmd_resp \<Rightarrow> u64 \<Rightarrow> nat \<Rightarrow> (nat \<Rightarrow> u32) \<Rightarrow> 's \<Rightarrow> int \<times> 's" where
  "mmc_write b cresp address sz buf s =
     (if sz mod MMC_BLOCK_SIZE \<noteq> 0 then (-1, s) else mmc_write_loop b cresp (sz div MMC_BLOCK_SIZE) address 0 buf s)"

definition mmc_read :: "'s bus \<Rightarrow> mmc_cmd_resp \<Rightarrow> u64 \<Rightarrow> nat \<Rightarrow> (nat \<Rightarrow> u32) \<Rightarrow> 's \<Rightarrow> int \<times> (nat \<Rightarrow> u32) \<times> 's" where
  "mmc_read b cresp address sz buf s =
     (if sz mod MMC_BLOCK_SIZE \<noteq> 0 then (-1, buf, s) else mmc_read_loop b cresp (sz div MMC_BLOCK_SIZE) address 0 buf s)"

definition mmc_init :: "'s bus \<Rightarrow> mmc_cmd_resp \<Rightarrow> 's \<Rightarrow> 's" where
  "mmc_init b cresp s =
     (let s = reg_write b MMC_CLEAR 0xfff s;
          s = reg_write b MMC_MASK0 0x2ff s;
          s = reg_write b MMC_POWER 0x2 s;
          s = reg_write b MMC_CLOCK 0x11d s;
          s = reg_write b MMC_POWER 0x3 s;
          (cresp, s) = mmc_send_command b (MMC_CMD_GO_IDLE_STATE OR MMC_CMD_ENABLE) 0x00 cresp s;
          (cresp, s) = mmc_send_command b (MMC_CMD_SEND_IF_COND OR MMC_CMD_RESPONSE OR MMC_CMD_ENABLE) 0x1aa cresp s;
          (cresp, s) = mmc_send_command b (MMC_CMD_APP_CMD OR MMC_CMD_ENABLE) 0x00 cresp s;
          (cresp, s) = mmc_send_command b (MMC_CMD_SD_APP_OP_COND OR MMC_CMD_ENABLE) 0x40300000 cresp s;
          (cresp, s) = mmc_send_command b (MMC_CMD_ALL_SEND_CID OR MMC_CMD_RESPONSE OR MMC_CMD_LONG_RSP OR MMC_CMD_ENABLE) 0x00 cresp s;
          (cresp, s) = mmc_send_command b (MMC_CMD_SEND_RELATIVE_ADDR OR MMC_CMD_RESPONSE OR MMC_CMD_ENABLE) 0x00 cresp s;
          rca = r_resp cresp ! 0 AND MMC_RCA_MASK;
          (cresp, s) = mmc_send_command b (MMC_CMD_SEND_CSD OR MMC_CMD_RESPONSE OR MMC_CMD_LONG_RSP OR MMC_CMD_ENABLE) rca cresp s;
          (cresp, s) = mmc_send_command b (MMC_CMD_SELECT_CARD OR MMC_CMD_RESPONSE OR MMC_CMD_ENABLE) rca cresp s
      in s)"

subsection \<open>The accesses of the driver\<close>

text \<open>A script of accesses to registers, and what reading them gives: registers and words in the order of the accesses.\<close>

datatype access = Get u32 | Put u32 u32

fun play :: "'s bus \<Rightarrow> access list \<Rightarrow> 's \<Rightarrow> (u32 \<times> u32) list \<times> 's" where
  "play b [] s = ([], s)"
| "play b (Get r # as) s = (let (w, s) = reg_read b r s; (ws, s) = play b as s in ((r, w) # ws, s))"
| "play b (Put r v # as) s = play b as (reg_write b r v s)"

definition words_of :: "(u32 \<times> u32) list \<Rightarrow> u32 list" where
  "words_of rs = map snd (filter (\<lambda>x. fst x = MMC_FIFO) rs)"

text \<open>A command with its argument; bit 6 stands for an answer of the card.\<close>

definition command_script :: "u32 \<Rightarrow> u32 \<Rightarrow> access list" where
  "command_script cmd a = [Put MMC_ARGUMENT a, Put MMC_COMMAND cmd, Get MMC_STATUS, Get MMC_MASK0, Put MMC_CLEAR 0xfff] @
     (if cmd AND 0x40 \<noteq> 0 then map Get [MMC_RESPONSE0, MMC_RESPONSE1, MMC_RESPONSE2, MMC_RESPONSE3] else [])"

text \<open>
  The transfer of block \<open>i\<close> of 512 bytes: the data path is set up for 512 bytes in the direction of the transfer, command 24
  (write a block) or 17 (read a block) names the address on the card, and 128 words go through the data register.
\<close>

definition block_address :: "u64 \<Rightarrow> nat \<Rightarrow> u32" where
  "block_address address i = ucast (address + of_nat (512 * i))"

definition start_script :: "u32 \<Rightarrow> u32 \<Rightarrow> u32 \<Rightarrow> access list" where
  "start_script ctrl cmd a = [Put MMC_DATA_TIMER 0xa000, Put MMC_DATA_LENGTH 0x200, Put MMC_DATA_CTRL ctrl] @ command_script cmd a"

definition write_script :: "u64 \<Rightarrow> nat \<Rightarrow> (nat \<Rightarrow> u32) \<Rightarrow> access list" where
  "write_script address n buf = concat (map (\<lambda>i.
     start_script 0x91 (24 OR 0x440) (block_address address i) @ map (\<lambda>j. Put MMC_FIFO (buf (128 * i + j))) [0..<128]) [0..<n])"

definition read_script :: "u64 \<Rightarrow> nat \<Rightarrow> access list" where
  "read_script address n = concat (map (\<lambda>i.
     start_script 0x93 (17 OR 0x440) (block_address address i) @ concat (replicate 8 (Get MMC_STATUS # replicate 16 (Get MMC_FIFO)))) [0..<n])"

text \<open>
  Bringing the card up: idle, interface condition, operating condition (an application command), identification, and the
  relative address it answers with; the second part selects it with that address.
\<close>

definition identify_script :: "access list" where
  "identify_script = [Put MMC_CLEAR 0xfff, Put MMC_MASK0 0x2ff, Put MMC_POWER 0x2, Put MMC_CLOCK 0x11d, Put MMC_POWER 0x3] @
     command_script (0 OR 0x400) 0 @ command_script (8 OR 0x440) 0x1aa @ command_script (55 OR 0x400) 0 @ command_script (41 OR 0x400) 0x40300000 @
     command_script (2 OR 0x4c0) 0 @ [Put MMC_ARGUMENT 0, Put MMC_COMMAND (3 OR 0x440), Get MMC_STATUS, Get MMC_MASK0, Put MMC_CLEAR 0xfff]"

definition select_script :: "u32 \<Rightarrow> access list" where
  "select_script rca = command_script (9 OR 0x4c0) rca @ command_script (7 OR 0x440) rca"

lemma play_Get [simp]:
  "play b (Get r # as) s = ((r, fst (reg_read b r s)) # fst (play b as (snd (reg_read b r s))), snd (play b as (snd (reg_read b r s))))"
  by (simp add: Let_def split_def)

declare play.simps(2) [simp del]

lemma play_append: "play b (xs @ ys) s = (fst (play b xs s) @ fst (play b ys (snd (play b xs s))), snd (play b ys (snd (play b xs s))))"
proof (induction xs arbitrary: s)
  case (Cons x xs)
  then show ?case by (cases x) simp_all
qed simp

lemma words_of_simps [simp]: "words_of [] = []" "words_of (x # xs) = (if fst x = MMC_FIFO then [snd x] else []) @ words_of xs" "words_of (xs @ ys) = words_of xs @ words_of ys"
  by (simp_all add: words_of_def)

text \<open>Words put into a buffer from \<open>p\<close> on.\<close>

definition filled :: "nat \<Rightarrow> u32 list \<Rightarrow> (nat \<Rightarrow> u32) \<Rightarrow> nat \<Rightarrow> u32" where
  "filled p ws buf j = (if p \<le> j \<and> j < p + length ws then ws ! (j - p) else buf j)"

lemma filled_Nil [simp]: "filled p [] buf = buf"
  by (auto simp: filled_def fun_eq_iff)

lemma filled_Cons: "filled (p + 1) ws (buf(p := w)) = filled p (w # ws) buf"
  by (auto simp: filled_def fun_eq_iff nth_Cons')

lemma filled_append: "filled (p + length xs) ys (filled p xs buf) = filled p (xs @ ys) buf"
  by (auto simp: filled_def fun_eq_iff nth_append)

lemma send_command_script:
  "snd (mmc_send_command b cmd a cresp s) = snd (play b (command_script cmd a) s)"
  by (simp add: mmc_send_command_def command_script_def Let_def split_def MMC_CMD_RESPONSE_def push_bit_eq_mult)

lemma command_words [simp]: "words_of (fst (play b (command_script cmd a) s)) = []" "words_of (fst (play b (start_script ctrl cmd a) s)) = []"
  by (simp_all add: command_script_def start_script_def split_def mmc_registers)

lemma fifo_write_script: "fifo_write b n p buf s = snd (play b (map (\<lambda>j. Put MMC_FIFO (buf j)) [p..<p + n]) s)"
  by (induction n arbitrary: p s) (simp_all add: upt_conv_Cons del: upt_Suc)

lemma write_rounds_script: "write_rounds b n p buf s = snd (play b (map (\<lambda>j. Put MMC_FIFO (buf j)) [p..<p + n * 16]) s)"
proof (induction n arbitrary: p s)
  case (Suc n)
  have "[p..<p + Suc n * 16] = [p..<p + 16] @ [p + 16..<p + 16 + n * 16]" using upt_add_eq_append [of p "p + 16" "n * 16"] by (simp add: add.assoc)
  then show ?case using Suc by (simp add: fifo_write_script play_append MMC_FIFO_SIZE_def del: upt_Suc)
qed simp

lemma fifo_read_script:
  "fifo_read b n p buf s = (filled p (words_of (fst (play b (replicate n (Get MMC_FIFO)) s))) buf, snd (play b (replicate n (Get MMC_FIFO)) s))"
  by (induction n arbitrary: p s buf) (simp_all add: Let_def split_def filled_Cons [unfolded One_nat_def, simplified])

lemma fifo_words: "length (words_of (fst (play b (replicate n (Get MMC_FIFO)) s))) = n"
  by (induction n arbitrary: s) (simp_all add: split_def)

lemma read_rounds_script:
  "read_rounds b n p buf s = (let r = play b (concat (replicate n (Get MMC_STATUS # replicate 16 (Get MMC_FIFO)))) s in (filled p (words_of (fst r)) buf, snd r))
   \<and> length (words_of (fst (play b (concat (replicate n (Get MMC_STATUS # replicate 16 (Get MMC_FIFO)))) s))) = n * 16"
proof (induction n arbitrary: p s buf)
  case (Suc n)
  have st: "MMC_STATUS \<noteq> MMC_FIFO" by (simp add: mmc_registers)
  let ?s = "snd (reg_read b MMC_STATUS s)"
  note f = fifo_words [of b 16 ?s] filled_append [of p "words_of (fst (play b (replicate 16 (Get MMC_FIFO)) ?s))"]
  show ?case using Suc st f by (simp add: Let_def split_def fifo_read_script play_append MMC_FIFO_SIZE_def)
qed simp

lemma block_scripts:
  "mmc_write_block b cresp address p buf s =
     (0, snd (play b (start_script 0x91 (24 OR 0x440) (ucast address) @ map (\<lambda>j. Put MMC_FIFO (buf j)) [p..<p + 128]) s))"
  "mmc_read_block b cresp address p buf s =
     (let r = play b (start_script 0x93 (17 OR 0x440) (ucast address) @ concat (replicate 8 (Get MMC_STATUS # replicate 16 (Get MMC_FIFO)))) s
      in (0, filled p (words_of (fst r)) buf, snd r))"
  "length (words_of (fst (play b (start_script 0x93 (17 OR 0x440) (ucast address) @ concat (replicate 8 (Get MMC_STATUS # replicate 16 (Get MMC_FIFO)))) s))) = 128"
proof -
  have z: "MMC_BLOCK_SIZE div 4 div MMC_FIFO_SIZE = 8" by (simp add: MMC_BLOCK_SIZE_def MMC_FIFO_SIZE_def)
  have c: "MMC_CMD_WRITE_SINGLE_BLOCK OR MMC_CMD_RESPONSE OR MMC_CMD_ENABLE = 24 OR 0x440" "MMC_CMD_READ_SINGLE_BLOCK OR MMC_CMD_RESPONSE OR MMC_CMD_ENABLE = 17 OR 0x440"
    by (simp_all add: mmc_commands push_bit_eq_mult)
  note m = send_command_script
  show "mmc_write_block b cresp address p buf s =
      (0, snd (play b (start_script 0x91 (24 OR 0x440) (ucast address) @ map (\<lambda>j. Put MMC_FIFO (buf j)) [p..<p + 128]) s))"
    by (simp add: mmc_write_block_def Let_def split_def z c m write_rounds_script play_append start_script_def del: upt_Suc)
  show "mmc_read_block b cresp address p buf s =
      (let r = play b (start_script 0x93 (17 OR 0x440) (ucast address) @ concat (replicate 8 (Get MMC_STATUS # replicate 16 (Get MMC_FIFO)))) s
       in (0, filled p (words_of (fst r)) buf, snd r))"
    by (simp add: mmc_read_block_def Let_def split_def z c m read_rounds_script play_append start_script_def)
  show "length (words_of (fst (play b (start_script 0x93 (17 OR 0x440) (ucast address) @ concat (replicate 8 (Get MMC_STATUS # replicate 16 (Get MMC_FIFO)))) s))) = 128"
    using read_rounds_script [of b 8] by (simp add: play_append)
qed

text \<open>The first block and the rest.\<close>

lemma script_Suc:
  "write_script address (Suc n) buf = (start_script 0x91 (24 OR 0x440) (ucast address) @ map (\<lambda>j. Put MMC_FIFO (buf j)) [0..<128]) @ write_script (address + 512) n (\<lambda>j. buf (128 + j))"
  "read_script address (Suc n) =
     (start_script 0x93 (17 OR 0x440) (ucast address) @ concat (replicate 8 (Get MMC_STATUS # replicate 16 (Get MMC_FIFO)))) @ read_script (address + 512) n"
proof -
  have u: "[0..<Suc n] = 0 # map Suc [0..<n]" by (simp add: upt_conv_Cons map_Suc_upt del: upt_Suc)
  have a: "block_address address 0 = ucast address" "block_address address (Suc i) = block_address (address + 512) i" for i
    by (simp_all add: block_address_def algebra_simps)
  have b: "128 * Suc i + j = 128 + (128 * i + j)" "128 * 0 + j = j" for i j :: nat by simp_all
  show "write_script address (Suc n) buf = (start_script 0x91 (24 OR 0x440) (ucast address) @ map (\<lambda>j. Put MMC_FIFO (buf j)) [0..<128]) @ write_script (address + 512) n (\<lambda>j. buf (128 + j))"
    "read_script address (Suc n) =
     (start_script 0x93 (17 OR 0x440) (ucast address) @ concat (replicate 8 (Get MMC_STATUS # replicate 16 (Get MMC_FIFO)))) @ read_script (address + 512) n"
    unfolding write_script_def read_script_def u list.map concat.simps map_map o_def a b by (rule refl)+
qed

lemma mmc_write_loop_script: "mmc_write_loop b cresp n address p buf s = (0, snd (play b (write_script address n (\<lambda>j. buf (p + j))) s))"
proof (induction n arbitrary: address p s)
  case (Suc n)
  have z: "MMC_BLOCK_SIZE div 4 = 128" "of_nat MMC_BLOCK_SIZE = (512 :: u64)" by (simp_all add: MMC_BLOCK_SIZE_def)
  have "map (\<lambda>j. Put MMC_FIFO (buf j)) [p..<p + 128] = map (\<lambda>j. Put MMC_FIFO (buf (p + j))) [0..<128]"
    by (intro nth_equalityI) (simp_all del: upt_Suc upt_rec_numeral)
  then show ?case using Suc by (simp add: block_scripts z script_Suc play_append add.assoc del: upt_Suc upt_rec_numeral)
qed (simp add: write_script_def)

lemma mmc_read_loop_script:
  "mmc_read_loop b cresp n address p buf s = (let r = play b (read_script address n) s in (0, filled p (words_of (fst r)) buf, snd r))
   \<and> length (words_of (fst (play b (read_script address n) s))) = 128 * n"
proof (induction n arbitrary: address p s buf)
  case (Suc n)
  have z: "MMC_BLOCK_SIZE div 4 = 128" "of_nat MMC_BLOCK_SIZE = (512 :: u64)" by (simp_all add: MMC_BLOCK_SIZE_def)
  let ?x = "start_script 0x93 (17 OR 0x440) (ucast address) @ concat (replicate 8 (Get MMC_STATUS # replicate 16 (Get MMC_FIFO)))"
  have l: "length (words_of (fst (play b ?x s))) = 128" by (rule block_scripts(3))
  note f = filled_append [of p "words_of (fst (play b ?x s))", unfolded l]
  have e: "mmc_read_block b cresp address p buf s = (0, filled p (words_of (fst (play b ?x s))) buf, snd (play b ?x s))"
    unfolding block_scripts(2) Let_def ..
  show ?case using Suc l f unfolding mmc_read_loop.simps e script_Suc(2) play_append [of b ?x]
    by (simp add: Let_def z del: append_assoc)
qed (simp add: read_script_def)

lemma mmc_init_script:
  "mmc_init b cresp s = (let s1 = snd (play b identify_script s); (rca, _) = reg_read b MMC_RESPONSE0 s1
     in snd (play b (map Get [MMC_RESPONSE0, MMC_RESPONSE1, MMC_RESPONSE2, MMC_RESPONSE3] @ select_script (rca AND 0xffff0000)) s1))"
proof -
  have c: "MMC_CMD_GO_IDLE_STATE OR MMC_CMD_ENABLE = 0 OR 0x400" "MMC_CMD_SEND_IF_COND OR MMC_CMD_RESPONSE OR MMC_CMD_ENABLE = 8 OR 0x440"
    "MMC_CMD_APP_CMD OR MMC_CMD_ENABLE = 55 OR 0x400" "MMC_CMD_SD_APP_OP_COND OR MMC_CMD_ENABLE = 41 OR 0x400"
    "MMC_CMD_ALL_SEND_CID OR MMC_CMD_RESPONSE OR MMC_CMD_LONG_RSP OR MMC_CMD_ENABLE = 2 OR 0x4c0" "MMC_CMD_SEND_RELATIVE_ADDR OR MMC_CMD_RESPONSE OR MMC_CMD_ENABLE = 3 OR 0x440"
    "MMC_CMD_SEND_CSD OR MMC_CMD_RESPONSE OR MMC_CMD_LONG_RSP OR MMC_CMD_ENABLE = 9 OR 0x4c0" "MMC_CMD_SELECT_CARD OR MMC_CMD_RESPONSE OR MMC_CMD_ENABLE = 7 OR 0x440"
    by (simp_all add: mmc_commands push_bit_eq_mult)
  have rm: "MMC_RCA_MASK = 0xffff0000" by (simp add: MMC_RCA_MASK_def push_bit_eq_mult)
  have i: "command_script (3 OR 0x440) 0 = [Put MMC_ARGUMENT 0, Put MMC_COMMAND (3 OR 0x440), Get MMC_STATUS, Get MMC_MASK0, Put MMC_CLEAR 0xfff] @
    map Get [MMC_RESPONSE0, MMC_RESPONSE1, MMC_RESPONSE2, MMC_RESPONSE3]"
    by (simp add: command_script_def)
  have r: "r_resp (fst (mmc_send_command b (3 OR 0x440) 0 cresp s)) ! 0 =
    fst (reg_read b MMC_RESPONSE0 (snd (play b [Put MMC_ARGUMENT 0, Put MMC_COMMAND (3 OR 0x440), Get MMC_STATUS, Get MMC_MASK0, Put MMC_CLEAR 0xfff] s)))" for cresp s
    by (simp add: mmc_send_command_def Let_def split_def MMC_CMD_RESPONSE_def push_bit_eq_mult)
  show ?thesis
    unfolding mmc_init_def c rm Let_def split_def fst_conv snd_conv send_command_script r i identify_script_def select_script_def play_append
    by (simp add: play_append)
qed

text \<open>
  C15: the driver's side of the protocol with the card, for every controller.  \<^verbatim>\<open>mmc_write\<close> sends, block after block of 512 bytes,
  exactly the set-up of the data path, the command to write with the address of the block on the card, and the 128 words of
  the block, in order; \<^verbatim>\<open>mmc_read\<close> sends the set-up and the command to read and fills the buffer with the words that the data
  register gives, in order and nothing else; both report success.  A size that is not a multiple of 512 bytes is refused
  with no access at all.  \<^verbatim>\<open>mmc_init\<close> brings the card up and selects it with the relative address the card answered.  No
  access depends on a status: the driver relies on a controller that keeps up with it.
\<close>

theorem mmc_protocol:
  "mmc_write b cresp address sz buf s =
     (if 512 dvd sz then (0, snd (play b (write_script address (sz div 512) buf) s)) else (- 1, s))
   \<and> (\<exists>buf'. mmc_read b cresp address sz buf s =
        (if 512 dvd sz then (0, buf', snd (play b (read_script address (sz div 512)) s)) else (- 1, buf, s))
      \<and> (\<forall>j. buf' j = (if j < 128 * (sz div 512) then words_of (fst (play b (read_script address (sz div 512)) s)) ! j else buf j)))
   \<and> mmc_init b cresp s = (let s1 = snd (play b identify_script s); (rca, _) = reg_read b MMC_RESPONSE0 s1
        in snd (play b (map Get [MMC_RESPONSE0, MMC_RESPONSE1, MMC_RESPONSE2, MMC_RESPONSE3] @ select_script (rca AND 0xffff0000)) s1))"
proof (intro conjI)
  have z: "sz mod MMC_BLOCK_SIZE = 0 \<longleftrightarrow> 512 dvd sz" by (simp add: MMC_BLOCK_SIZE_def dvd_eq_mod_eq_0)
  have d: "sz div MMC_BLOCK_SIZE = sz div 512" by (simp add: MMC_BLOCK_SIZE_def)
  show "mmc_write b cresp address sz buf s = (if 512 dvd sz then (0, snd (play b (write_script address (sz div 512) buf) s)) else (- 1, s))"
    by (simp add: mmc_write_def z d mmc_write_loop_script)
  let ?r = "play b (read_script address (sz div 512)) s"
  have "filled 0 (words_of (fst ?r)) buf j = (if j < 128 * (sz div 512) then words_of (fst ?r) ! j else buf j)" for j
    using mmc_read_loop_script [of b cresp "sz div 512" address 0 buf s] by (simp add: filled_def)
  then show "\<exists>buf'. mmc_read b cresp address sz buf s = (if 512 dvd sz then (0, buf', snd ?r) else (- 1, buf, s))
      \<and> (\<forall>j. buf' j = (if j < 128 * (sz div 512) then words_of (fst ?r) ! j else buf j))"
    using mmc_read_loop_script [of b cresp "sz div 512" address 0 buf s]
    by (intro exI [of _ "filled 0 (words_of (fst ?r)) buf"]) (simp add: mmc_read_def z d Let_def)
qed (rule mmc_init_script)

subsection \<open>An ideal card\<close>

text \<open>
  A model of a controller with a standard-capacity card in it that is as simple as it can be: the states of
  the card from its identification to the transfer state, the relative address it publishes, and transfers
  of single blocks, which are addressed by bytes and start only when the data path is set up for 512 bytes in
  the right direction.  A block is on the card once its last word has been sent.  Unlike a real one it is ready for
  every word and every command, and nothing is lost.
\<close>

datatype phase = Card_Idle | Card_Ready | Card_Ident | Card_Standby | Card_Transfer

datatype transfer = No_Transfer | Receiving u32 nat | Sending u32 "u32 list"

record sd_card =
  sd_phase :: phase
  sd_app :: bool
  sd_last :: u32
  sd_rca :: u32
  sd_arg :: u32
  sd_len :: u32
  sd_ctrl :: u32
  sd_transfer :: transfer
  sd_blocks :: "u32 \<Rightarrow> u32 list"

definition sd_start :: "u32 \<Rightarrow> transfer \<Rightarrow> sd_card \<Rightarrow> sd_card" where
  "sd_start ctrl t d =
     (if sd_phase d = Card_Transfer \<and> sd_len d = 0x200 \<and> sd_ctrl d = ctrl \<and> sd_arg d AND 0x1ff = 0
      then d\<lparr>sd_transfer := t\<rparr> else d)"

definition sd_execute :: "u32 \<Rightarrow> sd_card \<Rightarrow> sd_card" where
  "sd_execute n d =
     (if n = MMC_CMD_GO_IDLE_STATE then d\<lparr>sd_phase := Card_Idle, sd_transfer := No_Transfer\<rparr>
      else if n = MMC_CMD_SD_APP_OP_COND then if sd_app d \<and> sd_phase d = Card_Idle then d\<lparr>sd_phase := Card_Ready\<rparr> else d
      else if n = MMC_CMD_ALL_SEND_CID then if sd_phase d = Card_Ready then d\<lparr>sd_phase := Card_Ident\<rparr> else d
      else if n = MMC_CMD_SEND_RELATIVE_ADDR then if sd_phase d = Card_Ident then d\<lparr>sd_phase := Card_Standby\<rparr> else d
      else if n = MMC_CMD_SELECT_CARD then
        if sd_phase d = Card_Standby \<and> sd_arg d AND MMC_RCA_MASK = sd_rca d AND MMC_RCA_MASK then d\<lparr>sd_phase := Card_Transfer\<rparr> else d
      else if n = MMC_CMD_READ_SINGLE_BLOCK then sd_start 0x93 (Receiving (sd_arg d) 0) d
      else if n = MMC_CMD_WRITE_SINGLE_BLOCK then sd_start 0x91 (Sending (sd_arg d) []) d
      else d)"

definition sd_command :: "u32 \<Rightarrow> sd_card \<Rightarrow> sd_card" where
  "sd_command cmd d =
     (if cmd AND MMC_CMD_ENABLE = 0 then d
      else let n = cmd AND 0x3f in (sd_execute n d)\<lparr>sd_app := (n = MMC_CMD_APP_CMD), sd_last := n\<rparr>)"

definition sd_write :: "u32 \<Rightarrow> u32 \<Rightarrow> sd_card \<Rightarrow> sd_card" where
  "sd_write r v d =
     (if r = MMC_ARGUMENT then d\<lparr>sd_arg := v\<rparr>
      else if r = MMC_DATA_LENGTH then d\<lparr>sd_len := v\<rparr>
      else if r = MMC_DATA_CTRL then d\<lparr>sd_ctrl := v\<rparr>
      else if r = MMC_COMMAND then sd_command v d
      else if r = MMC_FIFO then
        case sd_transfer d of
          Sending a ws \<Rightarrow>
            if length ws + 1 < MMC_BLOCK_SIZE div 4 then d\<lparr>sd_transfer := Sending a (ws @ [v])\<rparr>
            else d\<lparr>sd_transfer := No_Transfer, sd_blocks := (sd_blocks d)(a := ws @ [v])\<rparr>
        | _ \<Rightarrow> d
      else d)"

definition sd_read :: "u32 \<Rightarrow> sd_card \<Rightarrow> sd_card" where
  "sd_read r d =
     (if r = MMC_FIFO then
        case sd_transfer d of
          Receiving a n \<Rightarrow> d\<lparr>sd_transfer := if n + 1 < MMC_BLOCK_SIZE div 4 then Receiving a (n + 1) else No_Transfer\<rparr>
        | _ \<Rightarrow> d
      else d)"

definition sd_reply :: "u32 \<Rightarrow> sd_card \<Rightarrow> u32 \<Rightarrow> bool" where
  "sd_reply r d v \<longleftrightarrow>
     (r = MMC_RESPONSE0 \<and> sd_last d = MMC_CMD_SEND_RELATIVE_ADDR \<longrightarrow> v AND MMC_RCA_MASK = sd_rca d AND MMC_RCA_MASK) \<and>
     (r = MMC_FIFO \<longrightarrow> (case sd_transfer d of Receiving a n \<Rightarrow> v = sd_blocks d a ! n | _ \<Rightarrow> True))"

text \<open>Seen through \<open>obs\<close>, a bus behaves like the ideal card at the registers the driver uses.\<close>

definition used_registers :: "u32 set" where
  "used_registers = {MMC_POWER, MMC_CLOCK, MMC_ARGUMENT, MMC_COMMAND, MMC_RESPONSE0, MMC_RESPONSE1, MMC_RESPONSE2, MMC_RESPONSE3, MMC_DATA_TIMER,
     MMC_DATA_LENGTH, MMC_DATA_CTRL, MMC_STATUS, MMC_CLEAR, MMC_MASK0, MMC_FIFO}"

definition sd_host :: "'s bus \<Rightarrow> ('s \<Rightarrow> sd_card) \<Rightarrow> bool" where
  "sd_host b obs \<longleftrightarrow>
     (\<forall>r \<in> used_registers. \<forall>s.
        (\<forall>v. obs (reg_write b r v s) = sd_write r v (obs s)) \<and>
        obs (snd (reg_read b r s)) = sd_read r (obs s) \<and> sd_reply r (obs s) (fst (reg_read b r s)))"

lemma sd_hostD:
  assumes "sd_host b obs" "r \<in> used_registers"
  shows "obs (reg_write b r v s) = sd_write r v (obs s)" "obs (snd (reg_read b r s)) = sd_read r (obs s)" "sd_reply r (obs s) (fst (reg_read b r s))"
  using assms unfolding sd_host_def by blast+

lemma register_used [simp]:
  "MMC_POWER \<in> used_registers" "MMC_CLOCK \<in> used_registers" "MMC_ARGUMENT \<in> used_registers" "MMC_COMMAND \<in> used_registers" "MMC_RESPONSE0 \<in> used_registers"
  "MMC_RESPONSE1 \<in> used_registers" "MMC_RESPONSE2 \<in> used_registers" "MMC_RESPONSE3 \<in> used_registers" "MMC_DATA_TIMER \<in> used_registers"
  "MMC_DATA_LENGTH \<in> used_registers" "MMC_DATA_CTRL \<in> used_registers" "MMC_STATUS \<in> used_registers" "MMC_CLEAR \<in> used_registers" "MMC_MASK0 \<in> used_registers"
  "MMC_FIFO \<in> used_registers"
  by (simp_all add: used_registers_def)

text \<open>Registers that have no part in a transfer.\<close>

lemma sd_write_simps [simp]:
  "sd_write MMC_ARGUMENT v d = d\<lparr>sd_arg := v\<rparr>" "sd_write MMC_DATA_LENGTH v d = d\<lparr>sd_len := v\<rparr>" "sd_write MMC_DATA_CTRL v d = d\<lparr>sd_ctrl := v\<rparr>"
  "sd_write MMC_COMMAND v d = sd_command v d" "sd_write MMC_POWER v d = d" "sd_write MMC_CLOCK v d = d" "sd_write MMC_DATA_TIMER v d = d"
  "sd_write MMC_CLEAR v d = d" "sd_write MMC_MASK0 v d = d"
  by (simp_all add: sd_write_def mmc_registers)

lemma sd_read_simps [simp]:
  "sd_read MMC_STATUS d = d" "sd_read MMC_MASK0 d = d" "sd_read MMC_RESPONSE0 d = d" "sd_read MMC_RESPONSE1 d = d" "sd_read MMC_RESPONSE2 d = d" "sd_read MMC_RESPONSE3 d = d"
  by (simp_all add: sd_read_def mmc_registers)

lemma send_command_obs:
  assumes "sd_host b obs"
  shows "obs (snd (mmc_send_command b cmd a cresp s)) = sd_command cmd ((obs s)\<lparr>sd_arg := a\<rparr>)"
    "cmd AND MMC_CMD_RESPONSE \<noteq> 0 \<Longrightarrow>
       sd_reply MMC_RESPONSE0 (sd_command cmd ((obs s)\<lparr>sd_arg := a\<rparr>)) (r_resp (fst (mmc_send_command b cmd a cresp s)) ! 0)"
proof -
  note h = sd_hostD [OF assms]
  show "obs (snd (mmc_send_command b cmd a cresp s)) = sd_command cmd ((obs s)\<lparr>sd_arg := a\<rparr>)"
    by (simp add: mmc_send_command_def Let_def split_def h)
  let ?s1 = "reg_write b MMC_COMMAND cmd (reg_write b MMC_ARGUMENT a s)"
  let ?s2 = "reg_write b MMC_CLEAR 0xfff (snd (reg_read b MMC_MASK0 (snd (reg_read b MMC_STATUS ?s1))))"
  show "sd_reply MMC_RESPONSE0 (sd_command cmd ((obs s)\<lparr>sd_arg := a\<rparr>)) (r_resp (fst (mmc_send_command b cmd a cresp s)) ! 0)" if "cmd AND MMC_CMD_RESPONSE \<noteq> 0"
    using that h(3) [of MMC_RESPONSE0 ?s2] by (simp add: mmc_send_command_def Let_def split_def h)
qed

text \<open>The commands the driver sends.\<close>

lemma sd_command_simps [simp]:
  "sd_command (MMC_CMD_GO_IDLE_STATE OR MMC_CMD_ENABLE) d = d\<lparr>sd_phase := Card_Idle, sd_transfer := No_Transfer, sd_app := False, sd_last := 0\<rparr>"
  "sd_command (MMC_CMD_SEND_IF_COND OR MMC_CMD_RESPONSE OR MMC_CMD_ENABLE) d = d\<lparr>sd_app := False, sd_last := 8\<rparr>"
  "sd_command (MMC_CMD_APP_CMD OR MMC_CMD_ENABLE) d = d\<lparr>sd_app := True, sd_last := 55\<rparr>"
  "sd_command (MMC_CMD_SD_APP_OP_COND OR MMC_CMD_ENABLE) d =
     d\<lparr>sd_phase := if sd_app d \<and> sd_phase d = Card_Idle then Card_Ready else sd_phase d, sd_app := False, sd_last := 41\<rparr>"
  "sd_command (MMC_CMD_ALL_SEND_CID OR MMC_CMD_RESPONSE OR MMC_CMD_LONG_RSP OR MMC_CMD_ENABLE) d =
     d\<lparr>sd_phase := if sd_phase d = Card_Ready then Card_Ident else sd_phase d, sd_app := False, sd_last := 2\<rparr>"
  "sd_command (MMC_CMD_SEND_RELATIVE_ADDR OR MMC_CMD_RESPONSE OR MMC_CMD_ENABLE) d =
     d\<lparr>sd_phase := if sd_phase d = Card_Ident then Card_Standby else sd_phase d, sd_app := False, sd_last := 3\<rparr>"
  "sd_command (MMC_CMD_SEND_CSD OR MMC_CMD_RESPONSE OR MMC_CMD_LONG_RSP OR MMC_CMD_ENABLE) d = d\<lparr>sd_app := False, sd_last := 9\<rparr>"
  "sd_command (MMC_CMD_SELECT_CARD OR MMC_CMD_RESPONSE OR MMC_CMD_ENABLE) d =
     d\<lparr>sd_phase := if sd_phase d = Card_Standby \<and> sd_arg d AND MMC_RCA_MASK = sd_rca d AND MMC_RCA_MASK then Card_Transfer else sd_phase d, sd_app := False, sd_last := 7\<rparr>"
  "sd_command (MMC_CMD_READ_SINGLE_BLOCK OR MMC_CMD_RESPONSE OR MMC_CMD_ENABLE) d = (sd_start 0x93 (Receiving (sd_arg d) 0) d)\<lparr>sd_app := False, sd_last := 17\<rparr>"
  "sd_command (MMC_CMD_WRITE_SINGLE_BLOCK OR MMC_CMD_RESPONSE OR MMC_CMD_ENABLE) d = (sd_start 0x91 (Sending (sd_arg d) []) d)\<lparr>sd_app := False, sd_last := 24\<rparr>"
  by (simp_all add: sd_command_def sd_execute_def mmc_commands push_bit_eq_mult Let_def)

lemma relative_address:
  assumes "sd_host b obs"
  shows "r_resp (fst (mmc_send_command b (MMC_CMD_SEND_RELATIVE_ADDR OR MMC_CMD_RESPONSE OR MMC_CMD_ENABLE) a cresp s)) ! 0 AND MMC_RCA_MASK = sd_rca (obs s) AND MMC_RCA_MASK"
  using send_command_obs(2) [OF assms, where cmd = "MMC_CMD_SEND_RELATIVE_ADDR OR MMC_CMD_RESPONSE OR MMC_CMD_ENABLE" and s = s and a = a and cresp = cresp]
  by (simp add: sd_reply_def) (simp add: mmc_commands push_bit_eq_mult)

text \<open>After \<^verbatim>\<open>mmc_init\<close> the card is selected, whatever state it was in, and its blocks are as they were.\<close>

lemma mmc_init_obs:
  assumes "sd_host b obs"
  shows "sd_phase (obs (mmc_init b cresp s)) = Card_Transfer" "sd_blocks (obs (mmc_init b cresp s)) = sd_blocks (obs s)"
proof -
  note h = sd_hostD [OF assms]
  note c = send_command_obs(1) [OF assms] relative_address [OF assms]
  show "sd_phase (obs (mmc_init b cresp s)) = Card_Transfer" "sd_blocks (obs (mmc_init b cresp s)) = sd_blocks (obs s)"
    by (simp_all add: mmc_init_def Let_def split_def h c)
qed

subsection \<open>Transfers\<close>

text \<open>Sending: the last word completes the block.\<close>

lemma sd_sent:
  assumes "sd_transfer d = Sending a ws" "length ws + length xs \<le> 128" "length ws < 128"
  shows "fold (sd_write MMC_FIFO) xs d =
    (if length ws + length xs < 128 then d\<lparr>sd_transfer := Sending a (ws @ xs)\<rparr> else d\<lparr>sd_transfer := No_Transfer, sd_blocks := (sd_blocks d)(a := ws @ xs)\<rparr>)"
  using assms
proof (induction xs arbitrary: d ws)
  case (Cons x xs)
  let ?d = "sd_write MMC_FIFO x d"
  show ?case
  proof (cases xs)
    case Nil
    then show ?thesis using Cons.prems by (simp add: sd_write_def mmc_registers MMC_BLOCK_SIZE_def)
  next
    case (Cons y ys)
    then have d: "?d = d\<lparr>sd_transfer := Sending a (ws @ [x])\<rparr>" using Cons.prems by (simp add: sd_write_def mmc_registers MMC_BLOCK_SIZE_def)
    then show ?thesis using Cons.IH [of ?d "ws @ [x]"] Cons.prems Cons by simp
  qed
qed simp

lemma fifo_write_obs: "sd_host b obs \<Longrightarrow> obs (fifo_write b n p buf s) = fold (sd_write MMC_FIFO) (map buf [p..<p + n]) (obs s)"
proof (induction n arbitrary: p s)
  case (Suc n)
  have "[p..<p + Suc n] = p # [p + 1..<p + 1 + n]" by (simp add: upt_rec)
  then show ?case using Suc by (simp del: upt_Suc add: sd_hostD(1))
qed simp

lemma write_rounds_obs: "sd_host b obs \<Longrightarrow> obs (write_rounds b n p buf s) = fold (sd_write MMC_FIFO) (map buf [p..<p + n * MMC_FIFO_SIZE]) (obs s)"
proof (induction n arbitrary: p s)
  case (Suc n)
  have "[p..<p + Suc n * MMC_FIFO_SIZE] = [p..<p + MMC_FIFO_SIZE] @ [p + MMC_FIFO_SIZE..<p + MMC_FIFO_SIZE + n * MMC_FIFO_SIZE]"
    by (metis add.assoc le_add1 mult_Suc upt_add_eq_append)
  then show ?case using Suc by (simp add: fifo_write_obs)
qed simp

text \<open>Receiving \<open>n\<close> words of the block at \<open>a\<close>, after \<open>m\<close> words of it.\<close>

definition received :: "u32 \<Rightarrow> nat \<Rightarrow> transfer" where
  "received a n = (if n < 128 then Receiving a n else No_Transfer)"

lemma sd_transfer_same: "sd_transfer d = t \<Longrightarrow> d\<lparr>sd_transfer := t\<rparr> = d"
  by (cases d) simp

lemma fifo_read_obs:
  assumes "sd_host b obs" "fifo_read b n p buf s = (buf', s')" "sd_transfer (obs s) = received a m" "m + n \<le> 128"
  shows "obs s' = (obs s)\<lparr>sd_transfer := received a (m + n)\<rparr> \<and> (\<forall>j. buf' j = (if p \<le> j \<and> j < p + n then sd_blocks (obs s) a ! (m + (j - p)) else buf j))"
  using assms(2-4)
proof (induction n arbitrary: p s m buf)
  case (Suc n)
  obtain w s1 where r: "reg_read b MMC_FIFO s = (w, s1)" by (cases "reg_read b MMC_FIFO s")
  have t: "sd_transfer (obs s) = Receiving a m" using Suc.prems by (simp add: received_def)
  have s1: "obs s1 = (obs s)\<lparr>sd_transfer := received a (Suc m)\<rparr>" using sd_hostD(2) [OF assms(1) register_used(15), of s] t r by (simp add: sd_read_def received_def MMC_BLOCK_SIZE_def)
  have w: "w = sd_blocks (obs s) a ! m" using sd_hostD(3) [OF assms(1) register_used(15), of s] t r by (simp add: sd_reply_def)
  have f: "fifo_read b n (p + 1) (buf(p := w)) s1 = (buf', s')" using Suc.prems(1) r by (simp add: Let_def)
  from Suc.IH [OF f, of "Suc m"] s1 Suc.prems have IH: "obs s' = (obs s1)\<lparr>sd_transfer := received a (Suc m + n)\<rparr>"
    "\<And>j. buf' j = (if p + 1 \<le> j \<and> j < p + 1 + n then sd_blocks (obs s1) a ! (Suc m + (j - (p + 1))) else (buf(p := w)) j)"
    by simp_all
  have "buf' j = (if p \<le> j \<and> j < p + Suc n then sd_blocks (obs s) a ! (m + (j - p)) else buf j)" for j
  proof -
    have "Suc m + (j - (p + 1)) = m + (j - p)" if "p + 1 \<le> j" using that by simp
    then show ?thesis using IH(2) [of j] s1 w by (cases "j = p") auto
  qed
  then show ?case using IH(1) s1 by simp
qed (auto simp: sd_transfer_same)

lemma read_rounds_obs:
  assumes "sd_host b obs" "read_rounds b n p buf s = (buf', s')" "sd_transfer (obs s) = received a m" "m + n * MMC_FIFO_SIZE \<le> 128"
  shows "obs s' = (obs s)\<lparr>sd_transfer := received a (m + n * MMC_FIFO_SIZE)\<rparr> \<and>
    (\<forall>j. buf' j = (if p \<le> j \<and> j < p + n * MMC_FIFO_SIZE then sd_blocks (obs s) a ! (m + (j - p)) else buf j))"
  using assms(2-4)
proof (induction n arbitrary: p s m buf)
  case (Suc n)
  let ?z = MMC_FIFO_SIZE
  obtain st s1 buf1 s2 where r: "reg_read b MMC_STATUS s = (st, s1)" "fifo_read b ?z p buf s1 = (buf1, s2)" "read_rounds b n (p + ?z) buf1 s2 = (buf', s')"
    using Suc.prems(1) by (auto simp: Let_def split: prod.splits)
  have s1: "obs s1 = obs s" using sd_hostD(2) [OF assms(1) register_used(12), of s] r(1) by simp
  from fifo_read_obs [OF assms(1) r(2), of a m] s1 Suc.prems
  have f: "obs s2 = (obs s)\<lparr>sd_transfer := received a (m + ?z)\<rparr>" "\<And>j. buf1 j = (if p \<le> j \<and> j < p + ?z then sd_blocks (obs s) a ! (m + (j - p)) else buf j)" by simp_all
  from Suc.IH [OF r(3), of "m + ?z"] f(1) Suc.prems
  have IH: "obs s' = (obs s2)\<lparr>sd_transfer := received a (m + ?z + n * ?z)\<rparr>"
    "\<And>j. buf' j = (if p + ?z \<le> j \<and> j < p + ?z + n * ?z then sd_blocks (obs s2) a ! (m + ?z + (j - (p + ?z))) else buf1 j)"
    by simp_all
  have "buf' j = (if p \<le> j \<and> j < p + Suc n * ?z then sd_blocks (obs s) a ! (m + (j - p)) else buf j)" for j
  proof -
    have "m + ?z + (j - (p + ?z)) = m + (j - p)" if "p + ?z \<le> j" using that by simp
    then show ?thesis using IH(2) [of j] f by auto
  qed
  then show ?case using IH(1) f(1) by (simp add: add.assoc)
qed (auto simp: sd_transfer_same)

lemma mmc_read_block_obs:
  assumes "sd_host b obs" "mmc_read_block b cresp address p buf s = (r, buf', s')" "sd_phase (obs s) = Card_Transfer" "(ucast address :: u32) AND 0x1ff = 0"
  shows "r = 0 \<and> sd_phase (obs s') = Card_Transfer \<and> sd_blocks (obs s') = sd_blocks (obs s) \<and>
    (\<forall>j. buf' j = (if p \<le> j \<and> j < p + 128 then sd_blocks (obs s) (ucast address) ! (j - p) else buf j))"
proof -
  note h = sd_hostD [OF assms(1)]
  let ?s1 = "reg_write b MMC_DATA_CTRL 0x93 (reg_write b MMC_DATA_LENGTH 0x200 (reg_write b MMC_DATA_TIMER 0xa000 s))"
  let ?s2 = "snd (mmc_send_command b (MMC_CMD_READ_SINGLE_BLOCK OR MMC_CMD_RESPONSE OR MMC_CMD_ENABLE) (ucast address) cresp ?s1)"
  have z: "MMC_BLOCK_SIZE div 4 div MMC_FIFO_SIZE = 8" "8 * MMC_FIFO_SIZE = 128" by (simp_all add: MMC_BLOCK_SIZE_def MMC_FIFO_SIZE_def)
  have r: "r = 0" "read_rounds b 8 p buf ?s2 = (buf', s')" using assms(2) by (simp_all add: mmc_read_block_def Let_def split_def z)
  have s2: "sd_transfer (obs ?s2) = received (ucast address) 0" "sd_phase (obs ?s2) = Card_Transfer" "sd_blocks (obs ?s2) = sd_blocks (obs s)"
    using assms(3,4) by (simp_all add: send_command_obs(1) [OF assms(1)] h sd_start_def received_def)
  from read_rounds_obs [OF assms(1) r(2) s2(1)] r(1) s2 show ?thesis by (simp add: z)
qed

lemma mmc_write_block_obs:
  assumes "sd_host b obs" "mmc_write_block b cresp address p buf s = (r, s')" "sd_phase (obs s) = Card_Transfer" "(ucast address :: u32) AND 0x1ff = 0"
  shows "r = 0 \<and> sd_phase (obs s') = Card_Transfer \<and> sd_blocks (obs s') = (sd_blocks (obs s))(ucast address := map buf [p..<p + 128])"
proof -
  note h = sd_hostD [OF assms(1)]
  let ?s1 = "reg_write b MMC_DATA_CTRL 0x91 (reg_write b MMC_DATA_LENGTH 0x200 (reg_write b MMC_DATA_TIMER 0xa000 s))"
  let ?s2 = "snd (mmc_send_command b (MMC_CMD_WRITE_SINGLE_BLOCK OR MMC_CMD_RESPONSE OR MMC_CMD_ENABLE) (ucast address) cresp ?s1)"
  have z: "MMC_BLOCK_SIZE div 4 div MMC_FIFO_SIZE = 8" "8 * MMC_FIFO_SIZE = 128" by (simp_all add: MMC_BLOCK_SIZE_def MMC_FIFO_SIZE_def)
  have r: "r = 0" "s' = write_rounds b 8 p buf ?s2" using assms(2) by (simp_all add: mmc_write_block_def Let_def split_def z)
  have s2: "sd_transfer (obs ?s2) = Sending (ucast address) []" "sd_phase (obs ?s2) = Card_Transfer" "sd_blocks (obs ?s2) = sd_blocks (obs s)"
    using assms(3,4) by (simp_all add: send_command_obs(1) [OF assms(1)] h sd_start_def)
  have "obs s' = fold (sd_write MMC_FIFO) (map buf [p..<p + 128]) (obs ?s2)" unfolding r(2) write_rounds_obs [OF assms(1)] z ..
  then show ?thesis using sd_sent [OF s2(1), of "map buf [p..<p + 128]"] s2 r(1) by simp
qed

subsection \<open>On an ideal card the driver implements a disk\<close>

text \<open>The address of block \<open>i\<close> of 512 bytes from an address on, in the width of the argument register.\<close>

definition card_address :: "u64 \<Rightarrow> nat \<Rightarrow> u32" where
  "card_address address i = ucast (address + of_nat (i * MMC_BLOCK_SIZE))"

lemma card_address_Suc: "card_address (address + of_nat MMC_BLOCK_SIZE) i = card_address address (Suc i)"
  by (simp add: card_address_def algebra_simps)

lemma mmc_read_loop_obs:
  assumes "sd_host b obs" "mmc_read_loop b cresp n address p buf s = (r, buf', s')" "sd_phase (obs s) = Card_Transfer" "\<And>i. i < n \<Longrightarrow> card_address address i AND 0x1ff = 0"
  shows "r = 0 \<and> sd_phase (obs s') = Card_Transfer \<and> sd_blocks (obs s') = sd_blocks (obs s) \<and>
    (\<forall>j. buf' j = (if p \<le> j \<and> j < p + n * 128 then sd_blocks (obs s) (card_address address ((j - p) div 128)) ! ((j - p) mod 128) else buf j))"
  using assms(2-4)
proof (induction n arbitrary: address p buf s)
  case (Suc n)
  have z: "MMC_BLOCK_SIZE div 4 = 128" by (simp add: MMC_BLOCK_SIZE_def)
  obtain r1 buf1 s1 where k: "mmc_read_block b cresp address p buf s = (r1, buf1, s1)" by (cases "mmc_read_block b cresp address p buf s")
  have a0: "card_address address 0 = ucast address" by (simp add: card_address_def)
  from mmc_read_block_obs [OF assms(1) k Suc.prems(2)] Suc.prems(3) [of 0] a0
  have b1: "r1 = 0" "sd_phase (obs s1) = Card_Transfer" "sd_blocks (obs s1) = sd_blocks (obs s)"
    "\<And>j. buf1 j = (if p \<le> j \<and> j < p + 128 then sd_blocks (obs s) (card_address address 0) ! (j - p) else buf j)" by simp_all
  have l: "mmc_read_loop b cresp n (address + of_nat MMC_BLOCK_SIZE) (p + 128) buf1 s1 = (r, buf', s')" using Suc.prems(1) k b1(1) by (simp add: z)
  have "card_address (address + of_nat MMC_BLOCK_SIZE) i AND 0x1ff = 0" if "i < n" for i using Suc.prems(3) [of "Suc i"] that by (simp add: card_address_Suc)
  from Suc.IH [OF l b1(2) this]
  have IH: "r = 0" "sd_phase (obs s') = Card_Transfer" "sd_blocks (obs s') = sd_blocks (obs s)"
    "\<And>j. buf' j = (if p + 128 \<le> j \<and> j < p + 128 + n * 128 then sd_blocks (obs s) (card_address address (Suc ((j - (p + 128)) div 128))) ! ((j - (p + 128)) mod 128) else buf1 j)"
    using b1(3) by (simp_all add: card_address_Suc)
  have "buf' j = (if p \<le> j \<and> j < p + Suc n * 128 then sd_blocks (obs s) (card_address address ((j - p) div 128)) ! ((j - p) mod 128) else buf j)" for j
  proof -
    have "Suc ((j - (p + 128)) div 128) = (j - p) div 128" "(j - (p + 128)) mod 128 = (j - p) mod 128" if "p + 128 \<le> j"
      using that by (simp_all add: le_div_geq le_mod_geq)
    then show ?thesis using IH(4) [of j] b1(4) [of j] by auto
  qed
  then show ?case using IH(1-3) by simp
qed auto

lemma mmc_write_loop_obs:
  assumes "sd_host b obs" "mmc_write_loop b cresp n address p buf s = (r, s')" "sd_phase (obs s) = Card_Transfer" "\<And>i. i < n \<Longrightarrow> card_address address i AND 0x1ff = 0"
    "inj_on (card_address address) {..<n}"
  shows "r = 0 \<and> sd_phase (obs s') = Card_Transfer \<and> (\<forall>i < n. sd_blocks (obs s') (card_address address i) = map buf [p + i * 128..<p + i * 128 + 128]) \<and>
    (\<forall>a. a \<notin> card_address address ` {..<n} \<longrightarrow> sd_blocks (obs s') a = sd_blocks (obs s) a)"
  using assms(2-5)
proof (induction n arbitrary: address p s)
  case (Suc n)
  have z: "MMC_BLOCK_SIZE div 4 = 128" by (simp add: MMC_BLOCK_SIZE_def)
  obtain r1 s1 where k: "mmc_write_block b cresp address p buf s = (r1, s1)" by (cases "mmc_write_block b cresp address p buf s")
  have a0: "card_address address 0 = ucast address" by (simp add: card_address_def)
  from mmc_write_block_obs [OF assms(1) k Suc.prems(2)] Suc.prems(3) [of 0] a0
  have b1: "r1 = 0" "sd_phase (obs s1) = Card_Transfer" "sd_blocks (obs s1) = (sd_blocks (obs s))(card_address address 0 := map buf [p..<p + 128])" by simp_all
  have l: "mmc_write_loop b cresp n (address + of_nat MMC_BLOCK_SIZE) (p + 128) buf s1 = (r, s')" using Suc.prems(1) k b1(1) by (simp add: z)
  let ?a = "\<lambda>i. card_address address (Suc i)"
  have fn: "card_address (address + of_nat MMC_BLOCK_SIZE) = ?a" by (simp add: fun_eq_iff card_address_Suc)
  have al: "?a i AND 0x1ff = 0" if "i < n" for i using Suc.prems(3) [of "Suc i"] that by simp
  have inj: "inj_on ?a {..<n}" using Suc.prems(4) by (auto simp: inj_on_def)
  have im: "card_address address ` {..<Suc n} = insert (card_address address 0) (?a ` {..<n})" by (simp add: lessThan_Suc_eq_insert_0 image_image)
  have new: "card_address address 0 \<notin> ?a ` {..<n}" using Suc.prems(4) by (auto simp: inj_on_def)
  from Suc.IH [OF l b1(2)] al inj
  have IH: "r = 0" "sd_phase (obs s') = Card_Transfer" "\<And>i. i < n \<Longrightarrow> sd_blocks (obs s') (?a i) = map buf [p + 128 + i * 128..<p + 128 + i * 128 + 128]"
    "\<And>a. a \<notin> ?a ` {..<n} \<Longrightarrow> sd_blocks (obs s') a = sd_blocks (obs s1) a"
    unfolding fn by blast+
  have "sd_blocks (obs s') (card_address address i) = map buf [p + i * 128..<p + i * 128 + 128]" if "i < Suc n" for i
    using that IH(3) IH(4) [OF new] b1(3) by (cases i) (simp_all add: algebra_simps)
  moreover have "sd_blocks (obs s') a = sd_blocks (obs s) a" if "a \<notin> card_address address ` {..<Suc n}" for a
    using that IH(4) [of a] b1(3) unfolding im by simp
  ultimately show ?case using IH(1,2) by blast
qed simp

text \<open>Word \<open>j\<close> of block \<open>i\<close> of the file system, as it lies on the card.\<close>

definition card_word :: "sd_card \<Rightarrow> nat \<Rightarrow> nat \<Rightarrow> u32" where
  "card_word d i j = sd_blocks d (of_nat (i * BLOCK_SIZE + j div 128 * MMC_BLOCK_SIZE)) ! (j mod 128)"

lemma block_addresses:
  assumes "i < 2 ^ 16" "k < 8"
  shows "card_address (of_nat (i * BLOCK_SIZE)) k = of_nat (i * BLOCK_SIZE + k * MMC_BLOCK_SIZE)" "unat (card_address (of_nat (i * BLOCK_SIZE)) k) = i * 4096 + k * 512"
    "card_address (of_nat (i * BLOCK_SIZE)) k AND 0x1ff = 0"
proof -
  let ?a = "card_address (of_nat (i * BLOCK_SIZE)) k"
  have b: "i * 4096 + k * 512 < 2 ^ 32" using assms by simp
  have "(of_nat (i * BLOCK_SIZE) :: u64) + of_nat (k * MMC_BLOCK_SIZE) = of_nat (i * BLOCK_SIZE + k * MMC_BLOCK_SIZE)" by (simp only: of_nat_add)
  then have "?a = ucast (of_nat (i * BLOCK_SIZE + k * MMC_BLOCK_SIZE) :: u64)" by (simp only: card_address_def)
  also have "\<dots> = of_nat (take_bit 64 (i * BLOCK_SIZE + k * MMC_BLOCK_SIZE))" by (simp only: unsigned_of_nat) simp
  also have "take_bit 64 (i * BLOCK_SIZE + k * MMC_BLOCK_SIZE) = i * BLOCK_SIZE + k * MMC_BLOCK_SIZE"
    using b by (intro take_bit_nat_eq_self) (simp add: BLOCK_SIZE_def MMC_BLOCK_SIZE_def)
  finally show e: "?a = of_nat (i * BLOCK_SIZE + k * MMC_BLOCK_SIZE)" .
  show u: "unat ?a = i * 4096 + k * 512"
    unfolding e by (subst unat_of_nat_small) (use b in \<open>simp_all add: BLOCK_SIZE_def MMC_BLOCK_SIZE_def\<close>)
  have "unat (?a AND 0x1ff) = unat (take_bit 9 ?a)" by (simp add: take_bit_eq_mask mask_eq_exp_minus_1)
  also have "\<dots> = unat ?a mod 512" unfolding unsigned_take_bit_eq by (simp add: take_bit_eq_mod)
  also have "\<dots> = (8 * i + k) * 512 mod 512" unfolding u by (simp add: algebra_simps)
  finally have "unat (?a AND 0x1ff) = 0" by (simp only: mod_mult_self2_is_0)
  then show "?a AND 0x1ff = 0" by (simp add: unat_eq_0)
qed

lemma block_addresses_apart:
  assumes "i < 2 ^ 16" "i' < 2 ^ 16" "k < 8" "k' < 8" "card_address (of_nat (i * BLOCK_SIZE)) k = card_address (of_nat (i' * BLOCK_SIZE)) k'"
  shows "i = i' \<and> k = k'"
proof -
  have "i * 4096 + k * 512 = i' * 4096 + k' * 512"
    using block_addresses(2) [OF assms(1,3)] block_addresses(2) [OF assms(2,4)] assms(5) by simp
  then have e: "8 * i + k = 8 * i' + k'" by simp
  then have "(8 * i + k) div 8 = (8 * i' + k') div 8" by simp
  then have "i = i'" using assms(3,4) by simp
  then show ?thesis using e by simp
qed

lemma block_addresses_inj: "i < 2 ^ 16 \<Longrightarrow> inj_on (card_address (of_nat (i * BLOCK_SIZE))) {..<8}"
  using block_addresses_apart [of i i] by (simp add: inj_on_def)

text \<open>
  On an ideal card, \<^verbatim>\<open>mmc_init\<close> leaves the card selected with its
  contents, whatever state it was in, and from then on the driver implements the disk that the block cache
  uses.  For every block index (16 bits wide) reading returns the 4096 bytes of the block and changes nothing
  on the card, writing stores them and leaves every other block alone.  A size that is not a multiple of 512
  bytes is refused, with nothing done.
\<close>

lemma ideal_card_disk:
  assumes "sd_host b obs" "sd_phase (obs s) = Card_Transfer" "i < 2 ^ 16" "sz mod 512 \<noteq> 0"
  shows "(sd_phase (obs (mmc_init b cresp s)) = Card_Transfer \<and> sd_blocks (obs (mmc_init b cresp s)) = sd_blocks (obs s)) \<and>
    (\<exists>buf' s'. mmc_read b cresp (of_nat (i * BLOCK_SIZE)) BLOCK_SIZE buf s = (0, buf', s') \<and> sd_phase (obs s') = Card_Transfer \<and> sd_blocks (obs s') = sd_blocks (obs s) \<and>
       (\<forall>j < 1024. buf' j = card_word (obs s) i j) \<and> (\<forall>j \<ge> 1024. buf' j = buf j)) \<and>
    (\<exists>s'. mmc_write b cresp (of_nat (i * BLOCK_SIZE)) BLOCK_SIZE buf s = (0, s') \<and> sd_phase (obs s') = Card_Transfer \<and>
       (\<forall>i' < 2 ^ 16. \<forall>j < 1024. card_word (obs s') i' j = (if i' = i then buf j else card_word (obs s) i' j))) \<and>
    mmc_read b cresp a sz buf s = (-1, buf, s) \<and> mmc_write b cresp a sz buf s = (-1, s)"
proof -
  let ?a = "of_nat (i * BLOCK_SIZE) :: u64"
  have z: "BLOCK_SIZE mod MMC_BLOCK_SIZE = 0" "BLOCK_SIZE div MMC_BLOCK_SIZE = 8" by (simp_all add: BLOCK_SIZE_def MMC_BLOCK_SIZE_def)
  obtain r buf' s1 where rd: "mmc_read_loop b cresp 8 ?a 0 buf s = (r, buf', s1)" by (cases "mmc_read_loop b cresp 8 ?a 0 buf s")
  note R = mmc_read_loop_obs [OF assms(1) rd assms(2) block_addresses(3) [OF assms(3)]]
  have R': "buf' j = card_word (obs s) i j" if "j < 1024" for j
    using R that block_addresses(1) [OF assms(3), of "j div 128"] by (simp add: card_word_def)
  obtain r2 s2 where wr: "mmc_write_loop b cresp 8 ?a 0 buf s = (r2, s2)" by (cases "mmc_write_loop b cresp 8 ?a 0 buf s")
  note W = mmc_write_loop_obs [OF assms(1) wr assms(2) block_addresses(3) [OF assms(3)] block_addresses_inj [OF assms(3)]]
  have W': "card_word (obs s2) i' j = (if i' = i then buf j else card_word (obs s) i' j)" if "i' < 2 ^ 16" "j < 1024" for i' j
  proof -
    let ?c = "card_address (of_nat (i' * BLOCK_SIZE)) (j div 128)"
    have k: "j div 128 < 8" using that(2) by simp
    have w: "card_word d i' j = sd_blocks d ?c ! (j mod 128)" for d using block_addresses(1) [OF that(1) k] by (simp add: card_word_def)
    show ?thesis
    proof (cases "i' = i")
      case True
      then have "sd_blocks (obs s2) ?c = map buf [j div 128 * 128..<j div 128 * 128 + 128]" using W k by simp
      then show ?thesis using True w by (simp add: mult.commute)
    next
      case False
      then have "?c \<notin> card_address ?a ` {..<8}" using block_addresses_apart [OF assms(3) that(1) _ k] by (metis imageE lessThan_iff)
      then show ?thesis using False w W by simp
    qed
  qed
  have "mmc_read b cresp ?a BLOCK_SIZE buf s = (0, buf', s1)" "mmc_write b cresp ?a BLOCK_SIZE buf s = (0, s2)"
    using rd wr R W by (simp_all only: mmc_read_def mmc_write_def z) simp_all
  moreover have "buf' j = buf j" if "1024 \<le> j" for j using R that by simp
  moreover have "mmc_read b cresp a sz buf s = (-1, buf, s)" "mmc_write b cresp a sz buf s = (-1, s)"
    using assms(4) by (simp_all add: mmc_read_def mmc_write_def MMC_BLOCK_SIZE_def)
  ultimately show ?thesis using mmc_init_obs [OF assms(1)] R R' W W' by blast
qed

end
