(* ===== verification/Cy_Asm.thy ===== *)
theory Cy_Asm
  imports Cy_Prelude
begin

text \<open>
  The assembler of the kernel: exception entry (\<^verbatim>\<open>asm/vectors.s\<close>), entering, suspending and resuming a
  context (\<^verbatim>\<open>asm/system.s\<close>), the switch of the memory management unit (\<^verbatim>\<open>asm/mmu.s\<close>) and
  \<^verbatim>\<open>lib/setjmp.s\<close>, over the registers of an ARMv7 processor with their banks.  Memory is a function from
  the addresses of words.
\<close>

subsection \<open>The processor\<close>

record cpu =
  gpr :: "nat \<Rightarrow> u32"
  bank_sp :: "u32 \<Rightarrow> u32"
  bank_lr :: "u32 \<Rightarrow> u32"
  pc :: u32
  cpsr :: u32
  spsr :: "u32 \<Rightarrow> u32"
  sctlr :: u32
  waits :: bool
  words :: "u32 \<Rightarrow> u32"

definition mode :: "cpu \<Rightarrow> u32" where
  "mode c = cpsr c AND 0x1f"

text \<open>System mode uses the registers of user mode.\<close>

definition bank :: "u32 \<Rightarrow> u32" where
  "bank m = (if m = 0x1f then 0x10 else m)"

definition get_in :: "u32 \<Rightarrow> nat \<Rightarrow> cpu \<Rightarrow> u32" where
  "get_in m i c = (if i < 13 then gpr c i else if i = 13 then bank_sp c (bank m) else if i = 14 then bank_lr c (bank m) else pc c)"

definition set_in :: "u32 \<Rightarrow> nat \<Rightarrow> u32 \<Rightarrow> cpu \<Rightarrow> cpu" where
  "set_in m i v c =
     (if i < 13 then c\<lparr>gpr := (gpr c)(i := v)\<rparr>
      else if i = 13 then c\<lparr>bank_sp := (bank_sp c)(bank m := v)\<rparr>
      else if i = 14 then c\<lparr>bank_lr := (bank_lr c)(bank m := v)\<rparr>
      else c\<lparr>pc := v\<rparr>)"

abbreviation get :: "nat \<Rightarrow> cpu \<Rightarrow> u32" where "get i c \<equiv> get_in (mode c) i c"
abbreviation set_reg :: "nat \<Rightarrow> u32 \<Rightarrow> cpu \<Rightarrow> cpu" where "set_reg i v c \<equiv> set_in (mode c) i v c"

fun put_words :: "u32 \<Rightarrow> u32 list \<Rightarrow> (u32 \<Rightarrow> u32) \<Rightarrow> u32 \<Rightarrow> u32" where
  "put_words a [] w = w"
| "put_words a (v # vs) w = put_words (a + 4) vs (w(a := v))"

text \<open>
  \<^verbatim>\<open>STMFD rn!, {rs}\<close>: the registers below \<^verbatim>\<open>rn\<close>, the lowest at the lowest address, with the new address
  written back; \<^verbatim>\<open>STMFD rn, {rs}^\<close> stores those of user mode and writes nothing back.
\<close>

definition STMFD :: "nat \<Rightarrow> nat list \<Rightarrow> cpu \<Rightarrow> cpu" where
  "STMFD rn rs c =
     (let a = get rn c - 4 * of_nat (length rs)
      in set_reg rn a (c\<lparr>words := put_words a (map (\<lambda>i. get i c) rs) (words c)\<rparr>))"

definition STMFD_user :: "nat \<Rightarrow> nat list \<Rightarrow> cpu \<Rightarrow> cpu" where
  "STMFD_user rn rs c =
     (let a = get rn c - 4 * of_nat (length rs) in c\<lparr>words := put_words a (map (\<lambda>i. get_in 0x10 i c) rs) (words c)\<rparr>)"

fun load_regs :: "u32 \<Rightarrow> nat list \<Rightarrow> u32 \<Rightarrow> cpu \<Rightarrow> cpu" where
  "load_regs m [] a c = c"
| "load_regs m (i # is) a c = load_regs m is (a + 4) (set_in m i (words c a) c)"

definition LDMFD :: "nat \<Rightarrow> nat list \<Rightarrow> cpu \<Rightarrow> cpu" where
  "LDMFD rn rs c = load_regs (mode c) rs (get rn c) (set_reg rn (get rn c + 4 * of_nat (length rs)) c)"

definition LDMFD_user :: "nat \<Rightarrow> nat list \<Rightarrow> cpu \<Rightarrow> cpu" where
  "LDMFD_user rn rs c = load_regs 0x10 rs (get rn c) c"

text \<open>\<^verbatim>\<open>LDMFD rn!, {pc}^\<close> also takes the saved status of the mode back: the return from an exception.\<close>

definition LDMFD_return :: "nat \<Rightarrow> cpu \<Rightarrow> cpu" where
  "LDMFD_return rn c =
     (let a = get rn c; m = mode c
      in (set_reg rn (a + 4) c)\<lparr>pc := words c a, cpsr := spsr c m\<rparr>)"

definition STMIA :: "nat \<Rightarrow> nat list \<Rightarrow> cpu \<Rightarrow> cpu" where
  "STMIA rn rs c = c\<lparr>words := put_words (get rn c) (map (\<lambda>i. get i c) rs) (words c)\<rparr>"

definition LDMIA :: "nat \<Rightarrow> nat list \<Rightarrow> cpu \<Rightarrow> cpu" where
  "LDMIA rn rs c = load_regs (mode c) rs (get rn c) c"

text \<open>
  \<^verbatim>\<open>MSR\<close> without a suffix writes the fields \<^verbatim>\<open>f\<close> and \<^verbatim>\<open>c\<close>: the bits 31 to 24 and 7 to 0.  Of those of
  \<^verbatim>\<open>cpsr\<close>, the execution state bits (26 to 24 and 5) are not written by this instruction, and user mode writes
  the flags only.  The other bits keep their values.
\<close>

definition merge :: "u32 \<Rightarrow> u32 \<Rightarrow> u32 \<Rightarrow> u32" where
  "merge written new old = (new AND written) OR (old AND NOT written)"

definition spsr_fc :: u32 where "spsr_fc = 0xff0000ff"
definition cpsr_fc :: u32 where "cpsr_fc = 0xf80000df"
definition cpsr_flags :: u32 where "cpsr_flags = 0xf8000000"

definition MRS_spsr :: "nat \<Rightarrow> cpu \<Rightarrow> cpu" where "MRS_spsr i c = set_reg i (spsr c (mode c)) c"
definition MRS_cpsr :: "nat \<Rightarrow> cpu \<Rightarrow> cpu" where "MRS_cpsr i c = set_reg i (cpsr c) c"

definition MSR_spsr :: "nat \<Rightarrow> cpu \<Rightarrow> cpu" where
  "MSR_spsr i c = c\<lparr>spsr := (spsr c)(mode c := merge spsr_fc (get i c) (spsr c (mode c)))\<rparr>"

definition MSR_cpsr :: "nat \<Rightarrow> cpu \<Rightarrow> cpu" where
  "MSR_cpsr i c = c\<lparr>cpsr := merge (if mode c = 0x10 then cpsr_flags else cpsr_fc) (get i c) (cpsr c)\<rparr>"

definition BX :: "nat \<Rightarrow> cpu \<Rightarrow> cpu" where "BX i c = c\<lparr>pc := get i c\<rparr>"

subsection \<open>Exception entry (asm/vectors.s)\<close>

definition push_process_context :: "cpu \<Rightarrow> cpu" where
  "push_process_context c =
     (let c = STMFD 13 [14] c;
          c = STMFD_user 13 [0..<15] c;
          c = set_reg 13 (get 13 c - 60) c;
          c = MRS_spsr 1 c
      in STMFD 13 [1] c)"

text \<open>
  What the C functions called by \<^verbatim>\<open>switch_kernel_stack\<close> do to the processor: the registers that belong to the
  callee hold anything, the others are kept.  \<^verbatim>\<open>process_set_context\<close> copies 17 words into the process,
  \<^verbatim>\<open>process_get_kernel_stack\<close> returns the end of its stack.
\<close>

definition clobber :: "(nat \<Rightarrow> u32) \<Rightarrow> cpu \<Rightarrow> cpu" where
  "clobber junk c = set_reg 14 (junk 14) (c\<lparr>gpr := (\<lambda>i. if i \<in> {0, 1, 2, 3, 12} then junk i else gpr c i)\<rparr>)"

definition copy_words :: "u32 \<Rightarrow> u32 \<Rightarrow> nat \<Rightarrow> (u32 \<Rightarrow> u32) \<Rightarrow> u32 \<Rightarrow> u32" where
  "copy_words dst src n w = put_words dst (map (\<lambda>k. w (src + 4 * of_nat k)) [0..<n]) w"

record process_place =
  place_context :: u32
  stack_end :: u32

definition switch_kernel_stack :: "u32 \<Rightarrow> (u32 \<Rightarrow> process_place) \<Rightarrow> (nat \<Rightarrow> u32) \<Rightarrow> cpu \<Rightarrow> cpu" where
  "switch_kernel_stack current_process place junk c =
     (let c = set_reg 4 current_process c;
          c = set_reg 4 (words c (get 4 c)) c
      in if get 4 c = 0 then c
         else
           let c = set_reg 0 (get 4 c) c;
               c = set_reg 1 (get 13 c) c;
               c = c\<lparr>words := copy_words (place_context (place (get 0 c))) (get 1 c) 17 (words c)\<rparr>;
               c = clobber junk c;
               c = set_reg 0 (get 4 c) c;
               p = get 0 c;
               c = set_reg 0 (stack_end (place p)) (clobber junk c)
           in set_reg 13 (get 0 c) c)"

definition irq_handler :: "u32 \<Rightarrow> u32 \<Rightarrow> (u32 \<Rightarrow> process_place) \<Rightarrow> (nat \<Rightarrow> u32) \<Rightarrow> cpu \<Rightarrow> cpu" where
  "irq_handler irq_stack current_process place junk c =
     (let c = set_reg 13 irq_stack c;
          c = set_reg 14 (get 14 c - 4) c
      in switch_kernel_stack current_process place junk (push_process_context c))"

definition svc_handler :: "u32 \<Rightarrow> u32 \<Rightarrow> (u32 \<Rightarrow> process_place) \<Rightarrow> (nat \<Rightarrow> u32) \<Rightarrow> cpu \<Rightarrow> cpu" where
  "svc_handler svc_stack current_process place junk c =
     switch_kernel_stack current_process place junk (push_process_context (set_reg 13 svc_stack c))"

definition data_abort_handler :: "u32 \<Rightarrow> u32 \<Rightarrow> (u32 \<Rightarrow> process_place) \<Rightarrow> (nat \<Rightarrow> u32) \<Rightarrow> cpu \<Rightarrow> cpu" where
  "data_abort_handler data_abort_stack current_process place junk c =
     (let c = set_reg 13 data_abort_stack c;
          c = set_reg 14 (get 14 c - 8) c
      in switch_kernel_stack current_process place junk (push_process_context c))"

subsection \<open>Contexts (asm/system.s)\<close>

definition system_dispatch :: "cpu \<Rightarrow> cpu" where
  "system_dispatch c =
     (let c = set_reg 14 (get 0 c) c;
          c = LDMFD 14 [0] c;
          c = MSR_spsr 0 c;
          c = LDMFD_user 14 [0..<15] c;
          c = set_reg 14 (get 14 c + 60) c
      in LDMFD_return 14 c)"

text \<open>Up to the call of \<^verbatim>\<open>process_switch\<close>, which does not return.\<close>

definition system_suspend :: "cpu \<Rightarrow> cpu" where
  "system_suspend c =
     (let c = set_reg 0 (get 0 c + 68) c;
          c = STMFD 0 [14] c;
          c = STMFD 0 [4..<15] c;
          c = set_reg 0 (get 0 c - 16) c;
          c = MRS_cpsr 1 c
      in STMFD 0 [1] c)"

definition system_resume :: "cpu \<Rightarrow> cpu" where
  "system_resume c =
     (let c = LDMFD 0 [1] c;
          c = MSR_cpsr 1 c;
          c = set_reg 0 (get 0 c + 16) c
      in LDMFD 0 [4..<16] c)"

definition system_idle :: "cpu \<Rightarrow> cpu" where
  "system_idle c =
     (let c = MRS_cpsr 0 c;
          c = set_reg 0 (get 0 c OR 0x1f) c;
          c = set_reg 0 (get 0 c AND NOT 0x80) c
      in (MSR_cpsr 0 c)\<lparr>waits := True\<rparr>)"

subsection \<open>asm/mmu.s, lib/setjmp.s\<close>

definition mmu_enable :: "cpu \<Rightarrow> cpu" where
  "mmu_enable c =
     (let c = set_reg 0 (sctlr c) c;
          c = set_reg 0 (get 0 c OR 0x1) c
      in BX 14 (c\<lparr>sctlr := get 0 c\<rparr>))"

definition mmu_disable :: "cpu \<Rightarrow> cpu" where
  "mmu_disable c =
     (let c = set_reg 0 (sctlr c) c;
          c = set_reg 0 (get 0 c AND NOT 0x1) c
      in BX 14 (c\<lparr>sctlr := get 0 c\<rparr>))"

definition setjmp :: "cpu \<Rightarrow> cpu" where
  "setjmp c = BX 14 (set_reg 0 0 (STMIA 0 [4..<15] c))"

definition longjmp :: "cpu \<Rightarrow> cpu" where
  "longjmp c = (let c = LDMIA 0 [4..<15] c in BX 14 (set_reg 0 (get 1 c) c))"

subsection \<open>Registers and memory\<close>

lemma merge_fc: "merge spsr_fc new old = (new AND 0xff0000ff) OR (old AND 0x00ffff00)" "merge cpsr_fc new old = (new AND 0xf80000df) OR (old AND 0x07ffff20)"
proof -
  have "NOT (0xff0000ff :: u32) = 0x00ffff00" "NOT (0xf80000df :: u32) = 0x07ffff20" by code_simp+
  then show "merge spsr_fc new old = (new AND 0xff0000ff) OR (old AND 0x00ffff00)" "merge cpsr_fc new old = (new AND 0xf80000df) OR (old AND 0x07ffff20)"
    by (simp_all only: merge_def spsr_fc_def cpsr_fc_def)
qed

lemma merge_mode: "merge cpsr_fc new old AND 0x1f = new AND 0x1f"
  by (simp add: merge_def cpsr_fc_def bit.conj_disj_distrib2 and.assoc)

lemma mode_set_in [simp]: "mode (set_in m i v c) = mode c" "words (set_in m i v c) = words c" "cpsr (set_in m i v c) = cpsr c" "spsr (set_in m i v c) = spsr c"
  by (simp_all add: mode_def set_in_def)

lemma mode_update [simp]: "mode (c\<lparr>words := w\<rparr>) = mode c" "mode (c\<lparr>spsr := sp\<rparr>) = mode c" "mode (c\<lparr>pc := v\<rparr>) = mode c" "mode (c\<lparr>gpr := g\<rparr>) = mode c"
  by (simp_all add: mode_def)

lemma get_in_update [simp]: "get_in m i (c\<lparr>words := w\<rparr>) = get_in m i c" "get_in m i (c\<lparr>spsr := sp\<rparr>) = get_in m i c" "get_in m i (c\<lparr>cpsr := v\<rparr>) = get_in m i c"
  by (simp_all add: get_in_def)

lemma get_set_in:
  "i \<le> 15 \<Longrightarrow> j \<le> 15 \<Longrightarrow> get_in m i (set_in n j v c) = (if i = j \<and> (i < 13 \<or> i = 15 \<or> bank m = bank n) then v else get_in m i c)"
  by (auto simp: get_in_def set_in_def)

lemma offset_eq: "k < 2 ^ 30 \<Longrightarrow> j < 2 ^ 30 \<Longrightarrow> (a :: u32) + 4 * of_nat k = a + 4 * of_nat j \<longleftrightarrow> k = j"
proof -
  assume b: "k < 2 ^ 30" "j < 2 ^ 30"
  have "unat (4 * of_nat n :: u32) = 4 * n" if "n < 2 ^ 30" for n using that by (simp add: unat_word_ariths unat_of_nat)
  then show ?thesis using b by (metis add_left_cancel mult_cancel1 zero_neq_numeral)
qed

lemma put_words_other: "(\<And>k. k < length vs \<Longrightarrow> x \<noteq> a + 4 * of_nat k) \<Longrightarrow> put_words a vs w x = w x"
proof (induction vs arbitrary: a w)
  case (Cons v vs)
  have "x \<noteq> a" using Cons.prems [of 0] by simp
  moreover have "x \<noteq> a + 4 + 4 * of_nat k" if "k < length vs" for k using Cons.prems [of "Suc k"] that by (simp add: algebra_simps)
  ultimately have "x \<noteq> a" "put_words (a + 4) vs (w(a := v)) x = (w(a := v)) x" by (simp, intro Cons.IH)
  then show ?case by (metis fun_upd_other put_words.simps(2))
qed simp

lemma put_words_nth: "k < length vs \<Longrightarrow> length vs < 2 ^ 30 \<Longrightarrow> put_words a vs w (a + 4 * of_nat k) = vs ! k"
proof (induction vs arbitrary: a w k)
  case (Cons v vs)
  show ?case
  proof (cases k)
    case 0
    have "put_words (a + 4) vs (w(a := v)) a = (w(a := v)) a"
    proof (rule put_words_other)
      fix j assume "j < length vs"
      then show "a \<noteq> a + 4 + 4 * of_nat j" using offset_eq [of 0 "Suc j" a] Cons.prems(2) by (simp add: algebra_simps)
    qed
    then show ?thesis using 0 by simp
  next
    case (Suc j)
    have "a + 4 * of_nat k = a + 4 + 4 * of_nat j" using Suc by (simp add: algebra_simps)
    moreover have "put_words (a + 4) vs (w(a := v)) (a + 4 + 4 * of_nat j) = vs ! j" by (rule Cons.IH) (use Cons.prems Suc in simp_all)
    ultimately show ?thesis using Suc by (metis nth_Cons_Suc put_words.simps(2))
  qed
qed simp

lemma load_regs_frame [simp]: "words (load_regs m is a c) = words c" "cpsr (load_regs m is a c) = cpsr c" "spsr (load_regs m is a c) = spsr c" "mode (load_regs m is a c) = mode c"
  by (induction "is" arbitrary: a c) (simp_all add: mode_def)

lemma load_regs_other: "set is \<subseteq> {..15} \<Longrightarrow> i \<le> 15 \<Longrightarrow> i \<notin> set is \<or> (i \<in> {13, 14} \<and> bank n \<noteq> bank m) \<Longrightarrow> get_in n i (load_regs m is a c) = get_in n i c"
  by (induction "is" arbitrary: a c) (auto simp: get_set_in)

lemma load_regs_nth: "distinct is \<Longrightarrow> set is \<subseteq> {..15} \<Longrightarrow> k < length is \<Longrightarrow> get_in m (is ! k) (load_regs m is a c) = words c (a + 4 * of_nat k)"
proof (induction "is" arbitrary: a c k)
  case (Cons i "is")
  show ?case
  proof (cases k)
    case 0
    then show ?thesis using Cons.prems by (simp add: load_regs_other get_set_in)
  next
    case (Suc j)
    then show ?thesis using Cons.IH [of j "a + 4" "set_in m i (words c a) c"] Cons.prems by (simp add: algebra_simps)
  qed
qed simp

subsection \<open>A context on the stack\<close>

definition privileged :: "cpu \<Rightarrow> bool" where
  "privileged c \<longleftrightarrow> mode c \<noteq> 0x10 \<and> mode c \<noteq> 0x1f"

lemma privileged_bank: "privileged c \<Longrightarrow> bank (mode c) = mode c" "privileged c \<Longrightarrow> mode c \<noteq> 0x10" "bank 0x10 = 0x10"
  by (simp_all add: privileged_def bank_def)

text \<open>The 17 words of \<^verbatim>\<open>struct process_context\<close> for the interrupted program.\<close>

definition interrupted :: "cpu \<Rightarrow> u32 list" where
  "interrupted c = spsr c (mode c) # map (\<lambda>i. get_in 0x10 i c) [0..<15] @ [get 14 c]"

lemma three_pieces:
  assumes "length ys = 15" "k < 17"
  shows "put_words b [x] (put_words (b + 4) ys (put_words (b + 64) [z] w)) (b + 4 * of_nat k) = (x # ys @ [z]) ! k"
proof -
  have n: "b + 4 * of_nat k \<noteq> b + 4 * of_nat j" if "j \<noteq> k" "j < 17" for j using offset_eq [of k j b] that assms(2) by simp
  consider "k = 0" | j where "k = Suc j" "j < 15" | "k = 16"
  proof (cases k)
    case (Suc j)
    then show thesis using that(2) [of j] that(3) assms(2) by fastforce
  qed (rule that(1))
  then show ?thesis
  proof cases
    case 1
    then show ?thesis by simp
  next
    case (2 j)
    have "put_words (b + 4) ys (put_words (b + 64) [z] w) (b + 4 + 4 * of_nat j) = ys ! j" by (rule put_words_nth) (use 2 assms(1) in simp_all)
    moreover have "b + 4 * of_nat k = b + 4 + 4 * of_nat j" using 2 by (simp add: algebra_simps)
    moreover have "b + 4 * of_nat k \<noteq> b" using n [of 0] 2 by simp
    ultimately show ?thesis using 2 assms(1) by (simp add: nth_append add.assoc)
  next
    case 3
    have "put_words (b + 4) ys (put_words (b + 64) [z] w) (b + 64) = put_words (b + 64) [z] w (b + 64)"
    proof (rule put_words_other)
      fix j assume "j < length ys"
      then show "b + 64 \<noteq> b + 4 + 4 * of_nat j" using n [of "Suc j"] 3 assms(1) by (simp add: algebra_simps)
    qed
    moreover have "b + 64 \<noteq> b" using n [of 0] 3 by simp
    ultimately show ?thesis using 3 assms(1) by (simp add: nth_append)
  qed
qed

lemma push_process_context_words:
  assumes "privileged c"
  defines "b \<equiv> get 13 c - 68"
  shows "k < 17 \<Longrightarrow> words (push_process_context c) (b + 4 * of_nat k) = interrupted c ! k"
    "(\<And>k. k < 17 \<Longrightarrow> x \<noteq> b + 4 * of_nat k) \<Longrightarrow> words (push_process_context c) x = words c x"
    "get 13 (push_process_context c) = b" "mode (push_process_context c) = mode c"
proof -
  note p = privileged_bank(1,2) [OF assms(1)] privileged_bank(3)
  have a: "get 13 c - 4 = b + 64" "get 13 c - 4 - 60 = b + 4" "get 13 c - 4 - 60 - 4 = b" by (simp_all add: b_def)
  have u: "map (\<lambda>i. get_in 0x10 i (set_in (mode c) 13 v (c\<lparr>words := w\<rparr>))) [0..<15] = map (\<lambda>i. get_in 0x10 i c) [0..<15]" for v w
    using p by (auto simp: get_set_in)
  have w: "words (push_process_context c) = put_words b [spsr c (mode c)] (put_words (b + 4) (map (\<lambda>i. get_in 0x10 i c) [0..<15]) (put_words (b + 64) [get 14 c] (words c)))"
    using p a by (simp add: push_process_context_def STMFD_def STMFD_user_def MRS_spsr_def Let_def get_set_in u ac_simps del: upt_rec_numeral map_eq_conv)
  show "words (push_process_context c) (b + 4 * of_nat k) = interrupted c ! k" if "k < 17" unfolding w interrupted_def by (rule three_pieces) (use that in simp_all)
  show "words (push_process_context c) x = words c x" if x: "\<And>k. k < 17 \<Longrightarrow> x \<noteq> b + 4 * of_nat k"
  proof -
    have "x \<noteq> b + 4 + 4 * of_nat j" if "j < 15" for j using x [of "Suc j"] that by (simp add: algebra_simps)
    moreover have "x \<noteq> b" "x \<noteq> b + 64" using x [of 0] x [of 16] by simp_all
    ultimately show ?thesis unfolding w by (simp, subst put_words_other) simp_all
  qed
  show "get 13 (push_process_context c) = b" "mode (push_process_context c) = mode c"
    using p a by (simp_all add: push_process_context_def STMFD_def STMFD_user_def MRS_spsr_def Let_def get_set_in del: upt_rec_numeral)
qed

lemma copy_words_nth: "k < n \<Longrightarrow> n < 2 ^ 30 \<Longrightarrow> copy_words dst src n w (dst + 4 * of_nat k) = w (src + 4 * of_nat k)"
  using put_words_nth [of k "map (\<lambda>k. w (src + 4 * of_nat k)) [0..<n]" dst w] by (simp add: copy_words_def)

lemma clobber_simps [simp]: "mode (clobber junk c) = mode c" "words (clobber junk c) = words c" "gpr (clobber junk c) 4 = gpr c 4"
  by (simp_all add: clobber_def) (simp add: set_in_def)

lemma switch_kernel_stack_words:
  assumes "words c cp = p" "p \<noteq> 0" "k < 17"
  shows "words (switch_kernel_stack cp place junk c) (place_context (place p) + 4 * of_nat k) = words c (get 13 c + 4 * of_nat k)"
  using assms copy_words_nth [of k 17 "place_context (place p)" "get 13 c" "words c"]
  by (simp add: switch_kernel_stack_def Let_def get_set_in)

text \<open>Entering a context whose words are \<open>ws\<close>.\<close>

lemma system_dispatch_words:
  assumes "privileged d" "\<And>k. k < 17 \<Longrightarrow> words d (gpr d 0 + 4 * of_nat k) = ws ! k"
  shows "i < 15 \<Longrightarrow> get_in 0x10 i (system_dispatch d) = ws ! Suc i" "pc (system_dispatch d) = ws ! 16"
    "cpsr (system_dispatch d) = merge spsr_fc (ws ! 0) (spsr d (mode d))"
proof -
  note p = privileged_bank(1,2) [OF assms(1)] privileged_bank(3)
  let ?a = "gpr d 0"
  let ?m = "mode d"
  let ?s = "merge spsr_fc (ws ! 0) (spsr d ?m)"
  define d1 where "d1 = MSR_spsr 0 (LDMFD 14 [0] (set_reg 14 (get 0 d) d))"
  have d1: "mode d1 = ?m" "words d1 = words d" "spsr d1 = (spsr d)(?m := ?s)" "get_in ?m 14 d1 = ?a + 4"
    using assms(2) [of 0] p by (simp_all add: d1_def MSR_spsr_def LDMFD_def get_set_in) (simp_all add: get_in_def set_in_def)
  define d2 where "d2 = load_regs 0x10 [0..<15] (?a + 4) d1"
  have d2: "mode d2 = ?m" "words d2 = words d" "spsr d2 = spsr d1" by (simp_all add: d2_def d1(1,2) del: upt_rec_numeral)
  have l: "get_in ?m 14 d2 = ?a + 4" unfolding d2_def using load_regs_other [of "[0..<15]" 14 ?m "0x10" "?a + 4" d1] p d1(4) by (simp del: upt_rec_numeral add: subset_eq)
  have r: "system_dispatch d = (set_in ?m 14 (?a + 64 + 4) (set_in ?m 14 (?a + 64) d2))\<lparr>pc := words d (?a + 64), cpsr := ?s\<rparr>"
    using d1 d2 l p by (simp add: system_dispatch_def Let_def d1_def [symmetric] LDMFD_user_def d2_def [symmetric] LDMFD_return_def get_set_in add.assoc)
  show "cpsr (system_dispatch d) = ?s" by (simp add: r)
  show "pc (system_dispatch d) = ws ! 16" using assms(2) [of 16] by (simp add: r)
  show "get_in 0x10 i (system_dispatch d) = ws ! Suc i" if "i < 15"
  proof -
    have "get_in 0x10 i d2 = words d (?a + 4 + 4 * of_nat i)"
      using load_regs_nth [of "[0..<15]" i "0x10" "?a + 4" d1] that d1(2) by (simp del: upt_rec_numeral add: d2_def subset_eq)
    also have "\<dots> = ws ! Suc i" using assms(2) [of "Suc i"] that by (simp add: algebra_simps)
    finally show ?thesis using that p by (auto simp: r get_in_def set_in_def split: if_splits)
  qed
qed

subsection \<open>Interrupted programs go on\<close>

text \<open>
  What the processor does on an exception taken to mode \<open>m\<close>: the status and the return address go to the bank
  of that mode; interrupts are masked, after an interrupt and an abort asynchronous aborts too, and the processor
  goes on in ARM state with the least byte first (bits TE and EE of \<^verbatim>\<open>SCTLR\<close> are not set).  The address is 4 bytes ahead of the instruction to go on with for an interrupt, 8 for a data
  abort (the instruction is run again) and none for a system call.
\<close>

definition take_exception :: "u32 \<Rightarrow> u32 \<Rightarrow> cpu \<Rightarrow> cpu" where
  "take_exception m offset c =
     c\<lparr>spsr := (spsr c)(m := cpsr c), bank_lr := (bank_lr c)(m := pc c + offset),
       cpsr := (cpsr c AND NOT 0x0700fe3f) OR 0x80 OR (if m = 0x13 then 0 else 0x100) OR m\<rparr>"

lemma take_exception_mode: "m \<in> {0x12, 0x13, 0x17} \<Longrightarrow> mode (take_exception m offset c) = m"
  by (auto simp: mode_def take_exception_def bit.conj_disj_distrib2 and.assoc)

lemma saved_words:
  assumes "privileged c" "words c cp = p" "p \<noteq> 0" "\<And>k. k < 17 \<Longrightarrow> cp \<noteq> get 13 c - 68 + 4 * of_nat k" "k < 17"
  shows "words (switch_kernel_stack cp place junk (push_process_context c)) (place_context (place p) + 4 * of_nat k) = interrupted c ! k"
  using push_process_context_words [OF assms(1)] assms(2-) by (subst switch_kernel_stack_words) simp_all

definition take_irq :: "u32 \<Rightarrow> u32 \<Rightarrow> (u32 \<Rightarrow> process_place) \<Rightarrow> (nat \<Rightarrow> u32) \<Rightarrow> cpu \<Rightarrow> cpu" where
  "take_irq stack current_process place junk c = irq_handler stack current_process place junk (take_exception 0x12 4 c)"

definition take_svc :: "u32 \<Rightarrow> u32 \<Rightarrow> (u32 \<Rightarrow> process_place) \<Rightarrow> (nat \<Rightarrow> u32) \<Rightarrow> cpu \<Rightarrow> cpu" where
  "take_svc stack current_process place junk c = svc_handler stack current_process place junk (take_exception 0x13 0 c)"

definition take_abort :: "u32 \<Rightarrow> u32 \<Rightarrow> (u32 \<Rightarrow> process_place) \<Rightarrow> (nat \<Rightarrow> u32) \<Rightarrow> cpu \<Rightarrow> cpu" where
  "take_abort stack current_process place junk c = data_abort_handler stack current_process place junk (take_exception 0x17 8 c)"

lemma taken_words:
  assumes "e \<in> {take_irq stack cp place junk c, take_svc stack cp place junk c, take_abort stack cp place junk c}"
    "words c cp = p" "p \<noteq> 0" "\<And>k. k < 17 \<Longrightarrow> cp \<noteq> stack - 68 + 4 * of_nat k" "k < 17"
  shows "words e (place_context (place p) + 4 * of_nat k) = (cpsr c # map (\<lambda>i. get_in 0x10 i c) [0..<15] @ [pc c]) ! k"
proof -
  obtain m offset c' where e: "e = switch_kernel_stack cp place junk (push_process_context c')"
    and m: "m \<in> {0x12, 0x13, 0x17}"
    and c': "c' = set_in m 14 (pc c) (set_in m 13 stack (take_exception m offset c))"
  proof -
    have l: "get_in m 14 (set_in m 13 stack (take_exception m offset c)) = pc c + offset" if "m \<in> {0x12, 0x13, 0x17}" for m offset
      using that by (auto simp: get_in_def set_in_def bank_def take_exception_def)
    have z: "set_in m 14 (pc c) (set_in m 13 stack (take_exception m 0 c)) = set_in m 13 stack (take_exception m 0 c)" if "m \<in> {0x12, 0x13, 0x17}" for m
      using that by (auto simp: set_in_def bank_def take_exception_def)
    consider "e = take_irq stack cp place junk c" | "e = take_svc stack cp place junk c" | "e = take_abort stack cp place junk c" using assms(1) by blast
    then show thesis
    proof cases
      case 1
      then show ?thesis using that [of "set_in 0x12 14 (pc c) (set_in 0x12 13 stack (take_exception 0x12 4 c))" "0x12" 4] l
        by (simp add: take_irq_def irq_handler_def take_exception_mode Let_def)
    next
      case 2
      then show ?thesis using that [of "set_in 0x13 14 (pc c) (set_in 0x13 13 stack (take_exception 0x13 0 c))" "0x13" 0] z
        by (simp add: take_svc_def svc_handler_def take_exception_mode)
    next
      case 3
      then show ?thesis using that [of "set_in 0x17 14 (pc c) (set_in 0x17 13 stack (take_exception 0x17 8 c))" "0x17" 8] l
        by (simp add: take_abort_def data_abort_handler_def take_exception_mode Let_def)
    qed
  qed
  have d: "mode c' = m" "privileged c'" "words c' = words c" "get 13 c' = stack"
    using m by (auto simp: c' privileged_def take_exception_mode) (auto simp: take_exception_def get_in_def set_in_def bank_def)
  have "interrupted c' = cpsr c # map (\<lambda>i. get_in 0x10 i c) [0..<15] @ [pc c]"
    unfolding interrupted_def d(1) using m
    by (auto simp: c') (auto simp: take_exception_def get_in_def set_in_def bank_def)
  then show ?thesis unfolding e using saved_words [OF d(2), of cp p k place junk] assms(2-) d by simp
qed

text \<open>
  C6: an interrupted program goes on as if nothing had happened.  Let a program be running with registers \<open>c\<close>
  when an interrupt, a system call or a data abort is taken, with some current process \<open>p\<close> whose variable is
  not on the exception stack.  Whatever the kernel does afterwards, in whatever privileged mode and with whatever
  registers it ends up: if the 17 words of the context of \<open>p\<close> are still those the handler saved, then
  \<^verbatim>\<open>system_dispatch\<close> of that context gives the program back every register from \<^verbatim>\<open>r0\<close> to \<^verbatim>\<open>lr\<close>, the
  address of the instruction to go on with (the next one, or the one that aborted), and of its status the bits 31 to
  24 and 7 to 0: the flags, the state, the interrupt masks and the mode.  The bits between them are what the saved
  status register of the kernel's mode happened to hold, since \<^verbatim>\<open>MSR spsr, r0\<close> does not write them.
\<close>

theorem interrupt_transparent:
  assumes "e \<in> {take_irq stack current_process place junk c, take_svc stack current_process place junk c, take_abort stack current_process place junk c}"
    "words c current_process = p" "p \<noteq> 0" "\<forall>k < 17. current_process \<noteq> stack - 68 + 4 * of_nat k"
    "privileged d" "gpr d 0 = place_context (place p)"
    "\<forall>k < 17. words d (place_context (place p) + 4 * of_nat k) = words e (place_context (place p) + 4 * of_nat k)"
  shows "(\<forall>i < 15. get_in 0x10 i (system_dispatch d) = get_in 0x10 i c) \<and> pc (system_dispatch d) = pc c \<and>
    cpsr (system_dispatch d) = (cpsr c AND 0xff0000ff) OR (spsr d (mode d) AND 0x00ffff00)"
proof -
  let ?ws = "cpsr c # map (\<lambda>i. get_in 0x10 i c) [0..<15] @ [pc c]"
  have w: "words d (gpr d 0 + 4 * of_nat k) = ?ws ! k" if "k < 17" for k
    using taken_words [OF assms(1-3) _ that] assms(4,6,7) that by simp
  have "get_in 0x10 i (system_dispatch d) = get_in 0x10 i c" if "i < 15" for i
    using system_dispatch_words(1) [of d ?ws, OF assms(5) w that] that by (simp add: nth_append del: upt_rec_numeral)
  moreover have "?ws ! 16 = pc c" by (simp add: nth_append)
  ultimately show ?thesis using system_dispatch_words(2,3) [of d ?ws, OF assms(5) w] by (simp add: merge_fc)
qed

definition example_cpu :: cpu where
  "example_cpu = \<lparr>gpr = \<lambda>i. 100 + of_nat i, bank_sp = \<lambda>m. 0x1000 * m, bank_lr = \<lambda>m. 0x2000 + m, pc = 0x8000, cpsr = 0x60000010, spsr = \<lambda>_. 0,
     sctlr = 1, waits = False, words = (\<lambda>_. 0)(0x70000000 := 0x70001000)\<rparr>"

theorem interrupt_transparent_witness:
  "\<exists>e d. e = take_abort 0x60000000 0x70000000 (\<lambda>_. \<lparr>place_context = 0x70002000, stack_end = 0x70004000\<rparr>) (\<lambda>_. 7) example_cpu
     \<and> d = e\<lparr>gpr := \<lambda>_. 0x70002000, cpsr := 0x13, bank_lr := \<lambda>_. 1, spsr := \<lambda>_. 0xabcd00\<rparr> \<and> get_in 0x10 3 (system_dispatch d) = 103 \<and> pc (system_dispatch d) = 0x8000
     \<and> cpsr (system_dispatch d) = 0x60abcd10"
proof -
  let ?place = "\<lambda>_. \<lparr>place_context = 0x70002000, stack_end = 0x70004000\<rparr>"
  define e where "e = take_abort 0x60000000 0x70000000 ?place (\<lambda>_. 7) example_cpu"
  define d where "d = e\<lparr>gpr := \<lambda>_. 0x70002000, cpsr := 0x13, bank_lr := \<lambda>_. 1, spsr := \<lambda>_. 0xabcd00\<rparr>"
  have s: "0x70000000 \<noteq> (0x60000000 :: u32) - 68 + 4 * of_nat k" if "k < 17" for k
  proof
    assume a: "0x70000000 = (0x60000000 :: u32) - 68 + 4 * of_nat k"
    have "(0x60000000 :: u32) - 68 + 4 * of_nat k = 0x70000000 + (4 * of_nat k - 0x10000044)" by simp
    then have "4 * of_nat k = (0x10000044 :: u32)" using a by simp
    moreover have "unat (4 * of_nat k :: u32) = 4 * k" using that by (simp add: unat_word_ariths unat_of_nat)
    ultimately show False using that by simp
  qed
  have r: "(\<forall>i < 15. get_in 0x10 i (system_dispatch d) = get_in 0x10 i example_cpu) \<and> pc (system_dispatch d) = pc example_cpu \<and>
      cpsr (system_dispatch d) = (cpsr example_cpu AND 0xff0000ff) OR (spsr d (mode d) AND 0x00ffff00)"
    by (rule interrupt_transparent [where e = e and stack = "0x60000000" and current_process = "0x70000000" and place = ?place and junk = "\<lambda>_. 7"
        and c = example_cpu and p = "0x70001000" and d = d])
      (use s in \<open>simp_all add: e_def d_def example_cpu_def privileged_def mode_def\<close>)
  have "get_in 0x10 3 (system_dispatch d) = get_in 0x10 3 example_cpu" using r by simp
  also have "\<dots> = 103" by (simp add: example_cpu_def get_in_def)
  finally have "get_in 0x10 3 (system_dispatch d) = 103" "pc (system_dispatch d) = 0x8000" using r by (simp_all add: example_cpu_def)
  moreover have "spsr d (mode d) = 0xabcd00" by (simp add: d_def)
  ultimately have "get_in 0x10 3 (system_dispatch d) = 103" "pc (system_dispatch d) = 0x8000" "cpsr (system_dispatch d) = 0x60abcd10"
    using r by (simp_all add: example_cpu_def)
  then show ?thesis using e_def d_def by blast
qed

subsection \<open>Suspended calls and jumps\<close>

lemma system_suspend_words:
  assumes "gpr c 0 = a"
  shows "words (system_suspend c) a = cpsr c" "i \<in> {4..<15} \<Longrightarrow> words (system_suspend c) (a + 4 + 4 * of_nat i) = get i c" "words (system_suspend c) (a + 64) = get 14 c"
proof -
  let ?rs = "map (\<lambda>i. get i c) [4..<15]"
  have z: "get_in m 0 c = a" for m using assms by (simp add: get_in_def)
  have r: "map (\<lambda>i. get_in (mode c) i (set_in (mode c) 0 v (c'\<lparr>words := w\<rparr>))) [4..<15] = map (\<lambda>i. get_in (mode c) i c') [4..<15]" for v w c' by (auto simp: get_set_in)
  have r': "map (\<lambda>i. get_in (mode c) i (set_in (mode c) 0 v c')) [4..<15] = map (\<lambda>i. get_in (mode c) i c') [4..<15]" for v c' by (auto simp: get_set_in)
  have w: "words (system_suspend c) = (put_words (a + 20) ?rs (put_words (a + 64) [get 14 c] (words c)))(a := cpsr c)"
    using z by (simp add: system_suspend_def STMFD_def MRS_cpsr_def Let_def get_set_in r r' add.commute [of a] del: upt_rec_numeral map_eq_conv)
  have n: "a + 20 + 4 * of_nat k \<noteq> a" "a + 20 + 4 * of_nat k \<noteq> a + 64" if "k < 11" for k
    using offset_eq [of "k + 5" 0 a] offset_eq [of "k + 5" 16 a] that by (simp_all add: algebra_simps)
  show "words (system_suspend c) a = cpsr c" by (simp add: w)
  show "words (system_suspend c) (a + 64) = get 14 c"
    using n(2) put_words_other [of ?rs "a + 64" "a + 20" "put_words (a + 64) [get 14 c] (words c)"] by (simp add: w del: upt_rec_numeral)
  show "words (system_suspend c) (a + 4 + 4 * of_nat i) = get i c" if "i \<in> {4..<15}"
  proof -
    have l: "i - 4 < 11" using that by auto
    have e: "a + 4 + 4 * of_nat i = a + 20 + 4 * of_nat (i - 4)" using that by (simp add: of_nat_diff algebra_simps)
    show ?thesis unfolding e w using n(1) [of "i - 4"] put_words_nth [of "i - 4" ?rs "a + 20" "put_words (a + 64) [get 14 c] (words c)"] that l by (auto simp del: upt_rec_numeral put_words.simps(2))
  qed
qed

lemma system_resume_words:
  assumes "gpr d 0 = a" "i \<in> {4..<16}" "mode d \<noteq> 0x10"
  shows "get_in (words d a AND 0x1f) i (system_resume d) = words d (a + 4 + 4 * of_nat i)"
    "cpsr (system_resume d) = merge cpsr_fc (words d a) (cpsr d)"
proof -
  have z: "get_in m 0 d = a" for m using assms by (simp add: get_in_def)
  define m where "m = words d a AND 0x1f"
  define d' where "d' = MSR_cpsr 1 (LDMFD 0 [1] d)"
  have d': "mode d' = m" "words d' = words d" "get_in m' 0 d' = a + 4" "cpsr d' = merge cpsr_fc (words d a) (cpsr d)" for m'
    using z assms(3) by (simp_all add: d'_def m_def MSR_cpsr_def LDMFD_def get_set_in) (simp add: mode_def merge_mode)
  have r: "system_resume d = load_regs m [4..<16] (a + 20) (set_in m 0 (a + 68) (set_in m 0 (a + 20) d'))"
    unfolding system_resume_def Let_def d'_def [symmetric] using d' by (simp add: LDMFD_def get_set_in add.commute [of a] del: upt_rec_numeral)
  show "cpsr (system_resume d) = merge cpsr_fc (words d a) (cpsr d)" by (simp add: r d'(4) del: upt_rec_numeral)
  have "get_in m ([4..<16] ! (i - 4)) (system_resume d) = words d (a + 20 + 4 * of_nat (i - 4))"
    unfolding r by (subst load_regs_nth) (use assms(2) d'(2) in \<open>auto simp: subset_eq simp del: upt_rec_numeral\<close>)
  then show "get_in (words d a AND 0x1f) i (system_resume d) = words d (a + 4 + 4 * of_nat i)"
    using assms(2) by (simp add: m_def of_nat_diff algebra_simps del: upt_rec_numeral)
qed

text \<open>
  C16: a suspended call goes on as if it had returned.  When the kernel suspends the work it does for a process with
  \<^verbatim>\<open>system_suspend\<close> and later, in any mode but user mode and with any registers, resumes the context the words of
  which are still those saved, then the registers a callee keeps and the stack pointer are those at the call, control
  continues at the return address of the call, and so are the mode, the interrupt masks and the flags: the bits that
  \<^verbatim>\<open>MSR cpsr, r1\<close> writes.  The other bits of the status are those of the resuming kernel.
\<close>

theorem suspend_resume:
  assumes "gpr c 0 = a" "gpr d 0 = a" "\<forall>k < 17. words d (a + 4 * of_nat k) = words (system_suspend c) (a + 4 * of_nat k)" "mode d \<noteq> 0x10"
  shows "(\<forall>i \<in> {4..14}. get i (system_resume d) = get i c) \<and> mode (system_resume d) = mode c \<and> pc (system_resume d) = get 14 c \<and>
    cpsr (system_resume d) = (cpsr c AND 0xf80000df) OR (cpsr d AND 0x07ffff20)"
proof -
  note s = system_suspend_words [OF assms(1)]
  have w: "words d a = cpsr c" "words d (a + 64) = get 14 c" using assms(3) [rule_format, of 0] assms(3) [rule_format, of 16] s by simp_all
  have x: "words d (a + 4 + 4 * of_nat i) = get i c" if "i \<in> {4..<15}" for i
    using s(2) [OF that] assms(3) [rule_format, of "Suc i"] that by (simp add: algebra_simps)
  note r = system_resume_words(1) [OF assms(2) _ assms(4)]
  have c: "cpsr (system_resume d) = merge cpsr_fc (cpsr c) (cpsr d)" using system_resume_words(2) [OF assms(2) _ assms(4), of 4] w by simp
  then have m: "mode (system_resume d) = mode c" "words d a AND 0x1f = mode c" using w by (simp_all add: mode_def merge_mode)
  have "get i (system_resume d) = get i c" if "i \<in> {4..14}" for i using r [of i] x [of i] that m by auto
  moreover have "pc (system_resume d) = get 14 c" using r [of 15] w(2) by (simp add: get_in_def add.commute [of a])
  ultimately show ?thesis using c m(1) by (simp add: merge_fc)
qed

theorem suspend_resume_witness:
  "\<exists>c d. c = example_cpu\<lparr>cpsr := 0x13, gpr := (\<lambda>i. 100 + of_nat i)(0 := 0x70002000)\<rparr> \<and> d = (system_suspend c)\<lparr>gpr := \<lambda>_. 0x70002000, cpsr := 0x12\<rparr>
     \<and> pc (system_resume d) = 0x2013"
proof -
  define c where "c = example_cpu\<lparr>cpsr := 0x13, gpr := (\<lambda>i. 100 + of_nat i)(0 := 0x70002000)\<rparr>"
  define d where "d = (system_suspend c)\<lparr>gpr := \<lambda>_. 0x70002000, cpsr := 0x12\<rparr>"
  have "(\<forall>i \<in> {4..14}. get i (system_resume d) = get i c) \<and> mode (system_resume d) = mode c \<and> pc (system_resume d) = get 14 c \<and>
      cpsr (system_resume d) = (cpsr c AND 0xf80000df) OR (cpsr d AND 0x07ffff20)"
    by (rule suspend_resume [where a = "0x70002000"]) (simp_all add: c_def d_def mode_def)
  then have "pc (system_resume d) = 0x2013" by (simp add: c_def example_cpu_def get_in_def mode_def bank_def)
  then show ?thesis using c_def d_def by blast
qed

text \<open>\<^verbatim>\<open>longjmp\<close> comes back from the \<^verbatim>\<open>setjmp\<close> that filled the buffer, with the value given to it.\<close>

lemma setjmp_longjmp:
  assumes "gpr c 0 = a" "gpr d 0 = a" "mode d = mode c" "\<forall>k < 11. words d (a + 4 * of_nat k) = words (setjmp c) (a + 4 * of_nat k)"
  shows "gpr (setjmp c) 0 = 0" "i \<in> {4..14} \<Longrightarrow> get i (longjmp d) = get i c" "pc (longjmp d) = get 14 c" "gpr (longjmp d) 0 = gpr d 1"
proof -
  have z: "get_in m 0 c = a" "get_in m 0 d = a" "get_in m 1 d = gpr d 1" for m using assms by (simp_all add: get_in_def)
  have w: "words (setjmp c) = put_words a (map (\<lambda>i. get i c) [4..<15]) (words c)" using z by (simp add: setjmp_def BX_def STMIA_def del: upt_rec_numeral)
  define d' where "d' = load_regs (mode c) [4..<15] a d"
  have d': "mode d' = mode c" "get_in (mode c) 1 d' = gpr d 1" using z load_regs_other [of "[4..<15]" 1] assms(3) by (simp_all add: d'_def subset_eq del: upt_rec_numeral)
  have x: "get_in (mode c) i d' = get i c" if "i \<in> {4..14}" for i
  proof -
    have l: "i - 4 < 11" using that by auto
    have "get_in (mode c) ([4..<15] ! (i - 4)) d' = words d (a + 4 * of_nat (i - 4))"
      unfolding d'_def by (rule load_regs_nth) (use that in \<open>auto simp: subset_eq simp del: upt_rec_numeral\<close>)
    also have "\<dots> = map (\<lambda>i. get i c) [4..<15] ! (i - 4)"
      using assms(4) [rule_format, of "i - 4"] put_words_nth [of "i - 4" "map (\<lambda>i. get i c) [4..<15]" a "words c"] that l by (simp add: w del: upt_rec_numeral)
    finally show ?thesis using that by (auto simp del: upt_rec_numeral)
  qed
  have l: "longjmp d = (set_in (mode c) 0 (gpr d 1) d')\<lparr>pc := get_in (mode c) 14 d'\<rparr>"
    using d' z assms(3) by (simp add: longjmp_def LDMIA_def BX_def Let_def d'_def get_set_in del: upt_rec_numeral)
  show "gpr (setjmp c) 0 = 0" by (simp add: setjmp_def BX_def set_in_def)
  show "pc (longjmp d) = get 14 c" using x [of 14] by (simp add: l)
  show "gpr (longjmp d) 0 = gpr d 1" by (simp add: l) (simp add: set_in_def)
  show "get i (longjmp d) = get i c" if "i \<in> {4..14}" using x [OF that] that d' by (auto simp: l) (auto simp: get_in_def set_in_def)
qed

end
