(* ===== verification/Cy_Devices.thy ===== *)
theory Cy_Devices
  imports Cy_Logger Cy_Mmc Cy_Asm Cy_System
begin

text \<open>
  The small drivers and the rest of \<^verbatim>\<open>system.c\<close>: the interrupt controller (\<^verbatim>\<open>gic.c\<close>), the timer
  (\<^verbatim>\<open>timer.c\<close>), the handler of interrupts with the devices it talks to, the messages of a crash, and
  \<^verbatim>\<open>aeabi.c\<close>.  Device registers are those of a bus as in \<^verbatim>\<open>mmc.c\<close>.
\<close>

subsection \<open>gic.c\<close>

definition io_read32 :: "'s bus \<Rightarrow> u32 \<Rightarrow> 's \<Rightarrow> u32 \<times> 's" where
  "io_read32 b a s = bus_read b a s"

definition io_write32 :: "'s bus \<Rightarrow> u32 \<Rightarrow> u32 \<Rightarrow> 's \<Rightarrow> 's" where
  "io_write32 b a v s = bus_write b a v s"

definition GIC_DIST_BASE :: u32 where "GIC_DIST_BASE = 0x1e001000"
definition GIC_CPU_BASE :: u32 where "GIC_CPU_BASE = 0x1e000100"
definition GICC_CTLR :: u32 where "GICC_CTLR = 0x0000"
definition GICC_PMR :: u32 where "GICC_PMR = 0x0004"
definition GICC_IAR :: u32 where "GICC_IAR = 0x000c"
definition GICC_EOIR :: u32 where "GICC_EOIR = 0x0010"
definition GICD_CTLR :: u32 where "GICD_CTLR = 0x0000"

text \<open>Interrupt numbers are not negative.\<close>

definition GICD_ISENABLER :: "nat \<Rightarrow> u32" where "GICD_ISENABLER n = GIC_DIST_BASE + 0x100 + of_nat (n div 32) * 4"
definition GICD_ITARGETSR :: "nat \<Rightarrow> u32" where "GICD_ITARGETSR n = GIC_DIST_BASE + 0x800 + of_nat (n div 4) * 4"
definition GICD_ICFGR :: "nat \<Rightarrow> u32" where "GICD_ICFGR n = GIC_DIST_BASE + 0xc00 + of_nat (n div 16) * 4"

definition gic_init :: "'s bus \<Rightarrow> 's \<Rightarrow> 's" where
  "gic_init b s =
     (let s = io_write32 b (GIC_CPU_BASE + GICC_PMR) 0xff s;
          s = io_write32 b (GIC_CPU_BASE + GICC_CTLR) 0x1 s
      in io_write32 b (GIC_DIST_BASE + GICD_CTLR) 0x1 s)"

definition gic_enable_irq :: "'s bus \<Rightarrow> nat \<Rightarrow> 's \<Rightarrow> 's" where
  "gic_enable_irq b n s =
     (let (v, s) = io_read32 b (GICD_ISENABLER n) s;
          s = io_write32 b (GICD_ISENABLER n) (v OR push_bit (n mod 32) 1) s;
          (v, s) = io_read32 b (GICD_ITARGETSR n) s;
          s = io_write32 b (GICD_ITARGETSR n) (v OR push_bit ((n mod 4) * 8) 1) s;
          (v, s) = io_read32 b (GICD_ICFGR n) s
      in io_write32 b (GICD_ICFGR n) (v AND NOT (push_bit ((n mod 16) * 2) 3)) s)"

definition gic_interrupt_acknowledge :: "'s bus \<Rightarrow> 's \<Rightarrow> u32 \<times> 's" where
  "gic_interrupt_acknowledge b s = (let (v, s) = io_read32 b (GIC_CPU_BASE + GICC_IAR) s in (v AND 0x3ff, s))"

definition gic_end_of_interrupt :: "'s bus \<Rightarrow> u32 \<Rightarrow> 's \<Rightarrow> 's" where
  "gic_end_of_interrupt b irq s = io_write32 b (GIC_CPU_BASE + GICC_EOIR) (irq AND 0x3ff) s"

subsection \<open>timer.c\<close>

text \<open>The offsets count words.\<close>

definition TIMER0 :: u32 where "TIMER0 = 0x10011000"
definition TIMER_CONTROL :: u32 where "TIMER_CONTROL = 0x2"
definition TIMER_INTCLR :: u32 where "TIMER_INTCLR = 0x3"
definition TIMER_MIS :: u32 where "TIMER_MIS = 0x5"
definition TIMER_EN :: u32 where "TIMER_EN = 0x80"
definition TIMER_PERIODIC :: u32 where "TIMER_PERIODIC = 0x40"
definition TIMER_INTEN :: u32 where "TIMER_INTEN = 0x20"
definition TIMER_32BIT :: u32 where "TIMER_32BIT = 0x02"
definition TIMER_FREQUENCY :: nat where "TIMER_FREQUENCY = 1000000"

definition timer_enable :: "'s bus \<Rightarrow> 's \<Rightarrow> 's" where
  "timer_enable b s =
     (let s = gic_enable_irq b (unat IRQ_TIMER01) s;
          s = io_write32 b TIMER0 (of_nat (TIMER_FREQUENCY div 100)) s
      in io_write32 b (TIMER0 + 4 * TIMER_CONTROL) (TIMER_EN OR TIMER_PERIODIC OR TIMER_32BIT OR TIMER_INTEN) s)"

definition timer_is_masked :: "'s bus \<Rightarrow> 's \<Rightarrow> u32 \<times> 's" where
  "timer_is_masked b s = io_read32 b (TIMER0 + 4 * TIMER_MIS) s"

definition timer_clear_interrupt :: "'s bus \<Rightarrow> 's \<Rightarrow> 's" where
  "timer_clear_interrupt b s = io_write32 b (TIMER0 + 4 * TIMER_INTCLR) 1 s"

subsection \<open>system.c\<close>

definition SCTLR_V :: u32 where "SCTLR_V = push_bit 13 1"
definition SYS_CFGCTRL :: u32 where "SYS_CFGCTRL = 0x100000a4"
definition SYS_CFG_START :: u32 where "SYS_CFG_START = push_bit 31 1"
definition SYS_CFG_WRITE :: u32 where "SYS_CFG_WRITE = push_bit 30 1"
definition SYS_CFG_SHUTDOWN :: u32 where "SYS_CFG_SHUTDOWN = push_bit 20 8"

definition enable_hight_vectors :: "cpu \<Rightarrow> cpu" where
  "enable_hight_vectors c = c\<lparr>sctlr := sctlr c OR SCTLR_V\<rparr>"

definition data_abort_source :: "u32 \<Rightarrow> string" where
  "data_abort_source dfsr =
     (let fs = DFSR_FS dfsr
      in if fs = 0x01 then ''Alignment fault''
         else if fs = 0x04 then ''Fault on instruction cache maintenance''
         else if fs = 0x0c then ''Synchronous external abort on translation table walk, First level''
         else if fs = 0x0e then ''Synchronous external abort on translation table walk, Second level''
         else if fs = 0x1c then ''Synchronous parity error on translation table walk, First level''
         else if fs = 0x1e then ''Synchronous parity error on translation table walk, Second level''
         else if fs = 0x05 then ''Translation fault, First level''
         else if fs = 0x07 then ''Translation fault, Second level''
         else if fs = 0x03 then ''Access flag fault, First level''
         else if fs = 0x06 then ''Access flag fault, Second level''
         else if fs = 0x09 then ''Domain fault, First level''
         else if fs = 0x0b then ''Domain fault, Second level''
         else if fs = 0x0d then ''Permission fault, First level''
         else if fs = 0x0f then ''Permission fault, Second level''
         else if fs = 0x02 then ''Debug event''
         else if fs = 0x08 then ''Synchronous external abort''
         else if fs = 0x10 then ''TLB conflict abort''
         else if fs = 0x14 then ''Lockdown''
         else if fs = 0x1a then ''Coprocessor abort''
         else if fs = 0x19 then ''Synchronous parity error on memory access''
         else if fs = 0x16 then ''Asynchronous external abort''
         else if fs = 0x18 then ''Asynchronous parity error on memory access''
         else ''Unknown fault'')"

text \<open>
  \<^verbatim>\<open>system_irq_handler\<close> up to \<^verbatim>\<open>process_switch\<close>, with the controller and the timer beside the kernel; for an
  unknown interrupt it logs its number.
\<close>

definition system_irq_handler_devices :: "'s bus \<Rightarrow> logger_level \<Rightarrow> nat \<Rightarrow> nat \<Rightarrow> memory \<Rightarrow> 's \<Rightarrow> kernel \<Rightarrow> ('s \<times> kernel) option" where
  "system_irq_handler_devices b threshold str nl m s k =
     (let (irq, s) = gic_interrupt_acknowledge b s
      in map_option (\<lambda>(s, k). (gic_end_of_interrupt b irq s, k))
        (if irq = IRQ_TIMER01 then
           let (v, s) = timer_is_masked b s in Some (if v \<noteq> 0 then timer_clear_interrupt b s else s, k)
         else if irq = IRQ_UART0 then
           let (st, t) = tty_resume (k_states k) (k_tty k) in Some (s, k\<lparr>k_states := st, k_tty := t\<rparr>)
         else
           map_option (\<lambda>(_, _, u). (s, k\<lparr>k_tty := (k_tty k)\<lparr>t_uart := u\<rparr>\<rparr>))
             (logger_warn threshold str nl ''unknown irq: %d'' [Word_Arg irq] m (t_uart (k_tty k)))))"

text \<open>The states in which the system stops: it sleeps for ever after the message.\<close>

definition system_sleep :: "cpu \<Rightarrow> cpu" where
  "system_sleep c = c\<lparr>waits := True\<rparr>"

definition system_halt :: "logger_level \<Rightarrow> nat \<Rightarrow> nat \<Rightarrow> memory \<Rightarrow> uart \<times> cpu \<Rightarrow> (uart \<times> cpu) option" where
  "system_halt threshold str nl m = (\<lambda>(u, c). map_option (\<lambda>(_, _, u). (u, system_sleep c)) (logger_fatal threshold str nl ''system abort.'' [] m u))"

definition system_bug_on :: "string \<Rightarrow> u32 \<Rightarrow> string \<Rightarrow> logger_level \<Rightarrow> nat \<Rightarrow> nat \<Rightarrow> memory \<Rightarrow> uart \<times> cpu \<Rightarrow> (uart \<times> cpu) option" where
  "system_bug_on file_name line func threshold str nl m = (\<lambda>(u, c).
     Option.bind (logger_fatal threshold str nl ''bug on @%s() (%s:%u)'' [String_Arg func, String_Arg file_name, Word_Arg line] m u) (\<lambda>(_, m, u).
       system_halt threshold str nl m (u, c)))"

text \<open>The end of \<^verbatim>\<open>system_data_abort_handler\<close> from its label \<^verbatim>\<open>fail\<close> on.\<close>

definition data_abort_fail :: "u32 \<Rightarrow> u32 \<Rightarrow> logger_level \<Rightarrow> nat \<Rightarrow> nat \<Rightarrow> memory \<Rightarrow> uart \<times> cpu \<Rightarrow> (uart \<times> cpu) option" where
  "data_abort_fail dfsr dfar threshold str nl m = (\<lambda>(u, c).
     Option.bind (logger_debug threshold str nl ''%s (address: 0x%08x)'' [String_Arg (data_abort_source dfsr), Word_Arg dfar] m u) (\<lambda>(_, m, u).
       system_halt threshold str nl m (u, c)))"

definition system_shutdown_device :: "'s bus \<Rightarrow> 's \<Rightarrow> 's" where
  "system_shutdown_device b s = io_write32 b SYS_CFGCTRL (SYS_CFG_START OR SYS_CFG_WRITE OR SYS_CFG_SHUTDOWN) s"

subsection \<open>aeabi.c\<close>

definition aeabi_memset :: "memory \<Rightarrow> nat \<Rightarrow> nat \<Rightarrow> u8 \<Rightarrow> memory" where
  "aeabi_memset m buf sz c = memset m buf c sz"

definition aeabi_memcpy :: "memory \<Rightarrow> nat \<Rightarrow> nat \<Rightarrow> nat \<Rightarrow> memory" where
  "aeabi_memcpy m dest src sz = memcpy m dest src sz"

definition aeabi_memclr :: "memory \<Rightarrow> nat \<Rightarrow> nat \<Rightarrow> memory" where
  "aeabi_memclr m dest n = memset m dest 0 n"

definition aeabi_memclr8 :: "memory \<Rightarrow> nat \<Rightarrow> nat \<Rightarrow> memory" where
  "aeabi_memclr8 m dest n = memset m dest 0 n"

definition aeabi_ldiv0 :: "logger_level \<Rightarrow> nat \<Rightarrow> nat \<Rightarrow> memory \<Rightarrow> uart \<times> cpu \<Rightarrow> (uart \<times> cpu) option" where
  "aeabi_ldiv0 = system_halt"

definition aeabi_idiv0 :: "logger_level \<Rightarrow> nat \<Rightarrow> nat \<Rightarrow> memory \<Rightarrow> uart \<times> cpu \<Rightarrow> (uart \<times> cpu) option" where
  "aeabi_idiv0 = system_halt"

subsection \<open>Interrupts are enabled one by one\<close>

text \<open>
  The registers of the distributor as documented: reading changes none of them, a one written to a bit of an enable
  register sets the bit and a zero leaves it, the target and configuration registers take what is written.
\<close>

definition enable_register :: "u32 \<Rightarrow> bool" where
  "enable_register a \<longleftrightarrow> (\<exists>n < 1020. a = GICD_ISENABLER n)"

definition gic_distributor :: "'s bus \<Rightarrow> ('s \<Rightarrow> u32 \<Rightarrow> u32) \<Rightarrow> bool" where
  "gic_distributor b view \<longleftrightarrow>
     (\<forall>a s. fst (bus_read b a s) = view s a \<and> view (snd (bus_read b a s)) = view s) \<and>
     (\<forall>a v s. view (bus_write b a v s) = (view s)(a := if enable_register a then view s a OR v else v))"

definition irq_enabled :: "(u32 \<Rightarrow> u32) \<Rightarrow> nat \<Rightarrow> bool" where
  "irq_enabled r j = bit (r (GICD_ISENABLER j)) (j mod 32)"

definition irq_targets :: "(u32 \<Rightarrow> u32) \<Rightarrow> nat \<Rightarrow> nat \<Rightarrow> bool" where
  "irq_targets r j c = bit (r (GICD_ITARGETSR j)) ((j mod 4) * 8 + c)"

definition irq_config :: "(u32 \<Rightarrow> u32) \<Rightarrow> nat \<Rightarrow> nat \<Rightarrow> bool" where
  "irq_config r j c = bit (r (GICD_ICFGR j)) ((j mod 16) * 2 + c)"

lemma gic_addresses:
  assumes "j < 1020" "n < 1020"
  shows "GICD_ISENABLER j = GICD_ISENABLER n \<longleftrightarrow> j div 32 = n div 32" "GICD_ITARGETSR j = GICD_ITARGETSR n \<longleftrightarrow> j div 4 = n div 4"
    "GICD_ICFGR j = GICD_ICFGR n \<longleftrightarrow> j div 16 = n div 16"
    "GICD_ISENABLER j \<noteq> GICD_ITARGETSR n" "GICD_ISENABLER j \<noteq> GICD_ICFGR n" "GICD_ITARGETSR j \<noteq> GICD_ICFGR n"
proof -
  have d: "i < 1020 \<Longrightarrow> i div 32 < 32" "i < 1020 \<Longrightarrow> i div 4 < 256" "i < 1020 \<Longrightarrow> i div 16 < 64" for i :: nat by linarith+
  have u: "GICD_ISENABLER i = GIC_DIST_BASE + of_nat (64 + i div 32) * 4" "GICD_ITARGETSR i = GIC_DIST_BASE + of_nat (512 + i div 4) * 4"
    "GICD_ICFGR i = GIC_DIST_BASE + of_nat (768 + i div 16) * 4" for i
    by (simp_all add: GICD_ISENABLER_def GICD_ITARGETSR_def GICD_ICFGR_def)
  have o: "of_nat x * 4 = (of_nat y * 4 :: u32) \<longleftrightarrow> x = y" if "x < 2 ^ 30" "y < 2 ^ 30" for x y
    using offset_eq [OF that, of 0] by (simp add: mult.commute)
  note d = d [OF assms(1)] d [OF assms(2)]
  show "GICD_ISENABLER j = GICD_ISENABLER n \<longleftrightarrow> j div 32 = n div 32" "GICD_ITARGETSR j = GICD_ITARGETSR n \<longleftrightarrow> j div 4 = n div 4"
    "GICD_ICFGR j = GICD_ICFGR n \<longleftrightarrow> j div 16 = n div 16"
    "GICD_ISENABLER j \<noteq> GICD_ITARGETSR n" "GICD_ISENABLER j \<noteq> GICD_ICFGR n" "GICD_ITARGETSR j \<noteq> GICD_ICFGR n"
    using d by (simp_all add: u o del: of_nat_add)
qed

lemma div_mod_eq: "(j :: nat) div m = n div m \<Longrightarrow> j mod m = n mod m \<longleftrightarrow> j = n"
  by (metis div_mult_mod_eq)

lemma gic_enable_registers:
  assumes "gic_distributor b view" "n < 1020"
  shows "view (gic_enable_irq b n s) = (view s)
    (GICD_ISENABLER n := view s (GICD_ISENABLER n) OR push_bit (n mod 32) 1,
     GICD_ITARGETSR n := view s (GICD_ITARGETSR n) OR push_bit (n mod 4 * 8) 1,
     GICD_ICFGR n := view s (GICD_ICFGR n) AND NOT (push_bit (n mod 16 * 2) 3))"
proof -
  have e: "enable_register (GICD_ISENABLER n)" "\<not> enable_register (GICD_ITARGETSR n)" "\<not> enable_register (GICD_ICFGR n)"
    using gic_addresses(4,5) assms(2) unfolding enable_register_def by metis+
  have r: "fst (bus_read b a s) = view s a" "view (snd (bus_read b a s)) = view s"
    "view (bus_write b a v s) = (view s)(a := if enable_register a then view s a OR v else v)" for a v s
    using assms(1) by (simp_all add: gic_distributor_def)
  have i: "x OR (x OR v) = x OR v" for x v :: u32 by (simp add: or.assoc [symmetric])
  show ?thesis using gic_addresses [OF assms(2) assms(2)] e by (simp add: gic_enable_irq_def io_read32_def io_write32_def split_def Let_def r i)
qed

lemma gic_enable_irq_exactly:
  fixes s
  assumes "gic_distributor b view" "n < 1020" "j < 1020" "c < 8" "e < 2"
  defines "r \<equiv> view s" and "r' \<equiv> view (gic_enable_irq b n s)"
  shows "irq_enabled r' j \<longleftrightarrow> j = n \<or> irq_enabled r j" "irq_targets r' j c \<longleftrightarrow> j = n \<and> c = 0 \<or> irq_targets r j c" "irq_config r' j e \<longleftrightarrow> j \<noteq> n \<and> irq_config r j e"
proof -
  note a = gic_addresses [OF assms(3,2)] gic_addresses(4-6) [OF assms(2,3), symmetric] gic_addresses(4-6) [OF assms(2,2)]
  have r': "r' = r (GICD_ISENABLER n := r (GICD_ISENABLER n) OR push_bit (n mod 32) 1,
     GICD_ITARGETSR n := r (GICD_ITARGETSR n) OR push_bit (n mod 4 * 8) 1,
     GICD_ICFGR n := r (GICD_ICFGR n) AND NOT (push_bit (n mod 16 * 2) 3))"
    unfolding r_def r'_def by (rule gic_enable_registers [OF assms(1,2)])
  have l: "r' (GICD_ISENABLER j) = (if j div 32 = n div 32 then r (GICD_ISENABLER j) OR push_bit (n mod 32) 1 else r (GICD_ISENABLER j))"
    "r' (GICD_ITARGETSR j) = (if j div 4 = n div 4 then r (GICD_ITARGETSR j) OR push_bit (n mod 4 * 8) 1 else r (GICD_ITARGETSR j))"
    "r' (GICD_ICFGR j) = (if j div 16 = n div 16 then r (GICD_ICFGR j) AND NOT (push_bit (n mod 16 * 2) 3) else r (GICD_ICFGR j))"
    by (simp_all add: r' a) (simp_all add: GICD_ISENABLER_def GICD_ITARGETSR_def GICD_ICFGR_def)
  have b: "bit (push_bit k 1 :: u32) i \<longleftrightarrow> i = k \<and> i < 32" for i k by (auto simp: bit_simps)
  have "(3 :: u32) = mask 2" by (simp add: mask_eq_exp_minus_1)
  then have b3: "bit (push_bit k 3 :: u32) i \<longleftrightarrow> (i = k \<or> i = Suc k) \<and> i < 32" for i k by (simp only: bit_push_bit_iff bit_mask_iff) auto
  have m: "j mod 32 < 32" "j mod 4 < 4" "j mod 16 < 16" by simp_all
  have t: "x * 8 + c = y * 8 \<longleftrightarrow> x = y \<and> c = 0" for x y using assms(4) by presburger
  have f: "x * 2 + e = y * 2 \<or> x * 2 + e = Suc (y * 2) \<longleftrightarrow> x = y" for x y using assms(5) by presburger
  have h: "j mod 4 * 8 + c < 32" "j mod 16 * 2 + e < 32" using m assms(4,5) by linarith+
  show "irq_enabled r' j \<longleftrightarrow> j = n \<or> irq_enabled r j"
    using div_mod_eq [of j 32 n] m(1) by (auto simp: irq_enabled_def l b bit_or_iff simp del: push_bit_of_1)
  show "irq_targets r' j c \<longleftrightarrow> j = n \<and> c = 0 \<or> irq_targets r j c"
    using div_mod_eq [of j 4 n] h(1) by (auto simp: irq_targets_def l b bit_or_iff t simp del: push_bit_of_1)
  show "irq_config r' j e \<longleftrightarrow> j \<noteq> n \<and> irq_config r j e"
    using div_mod_eq [of j 16 n] h(2) by (auto simp: irq_config_def l b3 bit_and_iff bit_not_iff f)
qed

subsection \<open>Interrupts are completed\<close>

text \<open>
  The processor interface as documented: an acknowledged interrupt is active (number 1023 says that there was none)
  until its number is written to the end-of-interrupt register.  No other register changes that.
\<close>

definition gic_interface :: "'s bus \<Rightarrow> ('s \<Rightarrow> u32 list) \<Rightarrow> bool" where
  "gic_interface b active \<longleftrightarrow>
     (\<forall>s. let v = fst (bus_read b (GIC_CPU_BASE + GICC_IAR) s) AND 0x3ff
          in active (snd (bus_read b (GIC_CPU_BASE + GICC_IAR) s)) = (if v = 1023 then active s else v # active s)) \<and>
     (\<forall>v s. active (bus_write b (GIC_CPU_BASE + GICC_EOIR) v s) = remove1 (v AND 0x3ff) (active s)) \<and>
     (\<forall>a s. a \<noteq> GIC_CPU_BASE + GICC_IAR \<longrightarrow> active (snd (bus_read b a s)) = active s) \<and>
     (\<forall>a v s. a \<noteq> GIC_CPU_BASE + GICC_EOIR \<longrightarrow> active (bus_write b a v s) = active s)"

lemma unknown_irq_logged:
  assumes "cstr m nl [10]" "nl + 1 < str \<or> str + 128 \<le> nl"
  obtains r m' u' where "logger_warn threshold str nl ''unknown irq: %d'' [Word_Arg (v AND 0x3ff)] m u = Some (r, m', u')"
proof -
  have "sint (v AND 0x3ff) \<noteq> - (2 ^ 31)"
  proof
    assume "sint (v AND 0x3ff) = - (2 ^ 31)"
    then have "v AND 0x3ff = (word_of_int (- (2 ^ 31)) :: u32)" by (metis of_int_sint scast_id)
    moreover have "v AND 0x3ff \<le> 0x3ff" by (rule word_and_le1)
    ultimately show False by simp
  qed
  then have "\<exists>out. fmt ''unknown irq: %d'' [Word_Arg (v AND 0x3ff)] = Some (Some out)"
    by (simp add: fmt.simps(2) after_zero_def is_digit_def convert_def decimal_def int_max_def)
  then show ?thesis using that logger_returns [OF assms] unfolding logger_warn_def by metis
qed

text \<open>
  an interrupt is handled and completed.  On an interrupt controller that behaves as documented, the handler always
  gets to the switch of processes; the interrupt it acknowledged has been completed, so that the set of active
  interrupts is what it was; and the kernel has made the step the model of the machine has for that
  interrupt, up to what an unknown interrupt has put on the serial port.
\<close>

theorem irq_completed:
  assumes "gic_interface b active" "1023 \<notin> set (active s)" "cstr m nl [10]" "nl + 1 < str \<or> str + 128 \<le> nl"
  shows "\<exists>irq s' u. system_irq_handler_devices b threshold str nl m s k =
      Some (s', (system_irq_handler irq k)\<lparr>k_tty := (k_tty (system_irq_handler irq k))\<lparr>t_uart := u\<rparr>\<rparr>) \<and>
    irq = fst (gic_interrupt_acknowledge b s) \<and> active s' = active s"
proof -
  obtain v s1 where r: "bus_read b (GIC_CPU_BASE + GICC_IAR) s = (v, s1)" by fastforce
  let ?irq = "v AND 0x3ff"
  have a1: "active s1 = (if ?irq = 1023 then active s else ?irq # active s)" using assms(1) r unfolding gic_interface_def Let_def by (metis fst_conv snd_conv)
  have e: "active (gic_end_of_interrupt b ?irq s2) = active s" if "active s2 = active s1" for s2
    using assms(1,2) that a1 by (auto simp: gic_interface_def gic_end_of_interrupt_def io_write32_def and.assoc remove1_idem)
  have t: "TIMER0 + 4 * TIMER_MIS \<noteq> GIC_CPU_BASE + GICC_IAR" "TIMER0 + 4 * TIMER_INTCLR \<noteq> GIC_CPU_BASE + GICC_EOIR"
    by (simp_all add: TIMER0_def TIMER_MIS_def TIMER_INTCLR_def GIC_CPU_BASE_def GICC_IAR_def GICC_EOIR_def)
  have i: "k\<lparr>k_tty := (k_tty k)\<lparr>t_uart := t_uart (k_tty k)\<rparr>\<rparr> = k" for k :: kernel by simp
  have g: "gic_interrupt_acknowledge b s = (?irq, s1)" by (simp add: gic_interrupt_acknowledge_def io_read32_def r)
  consider "?irq = IRQ_TIMER01" | "?irq = IRQ_UART0" "?irq \<noteq> IRQ_TIMER01" | "?irq \<noteq> IRQ_TIMER01" "?irq \<noteq> IRQ_UART0" by blast
  then show ?thesis
  proof cases
    case 1
    obtain w s2 where w: "timer_is_masked b s1 = (w, s2)" by fastforce
    then have "active s2 = active s1" using assms(1) t(1) unfolding gic_interface_def timer_is_masked_def io_read32_def by (metis snd_conv)
    moreover have "active (timer_clear_interrupt b s2) = active s2" using assms(1) t(2) unfolding gic_interface_def timer_clear_interrupt_def io_write32_def by blast
    ultimately have "active (if w \<noteq> 0 then timer_clear_interrupt b s2 else s2) = active s1" by simp
    moreover have "system_irq_handler_devices b threshold str nl m s k = Some (gic_end_of_interrupt b ?irq (if w \<noteq> 0 then timer_clear_interrupt b s2 else s2), system_irq_handler ?irq k)"
      using 1 w by (simp add: system_irq_handler_devices_def g system_irq_handler_def Let_def)
    ultimately show ?thesis using e i [of "system_irq_handler ?irq k"] unfolding g by (metis fst_conv)
  next
    case 2
    let ?k = "system_irq_handler ?irq k"
    have "system_irq_handler_devices b threshold str nl m s k = Some (gic_end_of_interrupt b ?irq s1, ?k)"
      using 2 by (simp add: system_irq_handler_devices_def g system_irq_handler_def split_def Let_def)
    then show ?thesis using e [of s1] i [of ?k] unfolding g by (metis fst_conv)
  next
    case 3
    obtain r m' u' where "logger_warn threshold str nl ''unknown irq: %d'' [Word_Arg ?irq] m (t_uart (k_tty k)) = Some (r, m', u')"
      by (rule unknown_irq_logged [OF assms(3,4)])
    then have "system_irq_handler_devices b threshold str nl m s k = Some (gic_end_of_interrupt b ?irq s1, k\<lparr>k_tty := (k_tty k)\<lparr>t_uart := u'\<rparr>\<rparr>)"
      using 3 by (simp add: system_irq_handler_devices_def g Let_def)
    then show ?thesis using e [of s1] 3 unfolding g by (auto simp: system_irq_handler_def)
  qed
qed

text \<open>A controller with one interrupt pending, and a timer.\<close>

definition example_gic :: "(u32 list \<times> u32 list) bus" where
  "example_gic = \<lparr>bus_read = \<lambda>a (pending, active). if a = GIC_CPU_BASE + GICC_IAR then
       (case pending of [] \<Rightarrow> (1023, pending, active) | v # vs \<Rightarrow> (v, vs, if v AND 0x3ff = 1023 then active else (v AND 0x3ff) # active))
     else (1, pending, active),
     bus_write = \<lambda>a v (pending, active). if a = GIC_CPU_BASE + GICC_EOIR then (pending, remove1 (v AND 0x3ff) active) else (pending, active)\<rparr>"

theorem irq_completed_witness:
  "\<forall>k. \<exists>s' k'. system_irq_handler_devices example_gic LOGGER_LEVEL_INFO 1000 10 ((\<lambda>_. 0)(10 := 10)) ([IRQ_TIMER01], []) k = Some (s', k') \<and> snd s' = []"
proof
  fix k
  have g: "gic_interface example_gic snd" by (auto simp: gic_interface_def example_gic_def Let_def split: list.splits)
  show "\<exists>s' k'. system_irq_handler_devices example_gic LOGGER_LEVEL_INFO 1000 10 ((\<lambda>_. 0)(10 := 10)) ([IRQ_TIMER01], []) k = Some (s', k') \<and> snd s' = []"
    using irq_completed [OF g, of "([IRQ_TIMER01], [])" "(\<lambda>_. 0)(10 := 10)" 10 1000 LOGGER_LEVEL_INFO k] by fastforce
qed

end
