(* ===== verification/Cy_Tests.thy ===== *)
theory Cy_Tests
  imports Cy_Arith Cy_Signal Cy_List Cy_Libgen Cy_Logger
begin

text \<open>
  The unit tests of the libraries (\<^verbatim>\<open>test-kernel/lib\<close>) and the kernel that runs them
  (\<^verbatim>\<open>test-kernel/kernel.c\<close>, \<^verbatim>\<open>test-kernel/test.c\<close>).  Each test is the list of its assertions, with
  the line of the source, over the definitions of the library it calls; all of them hold of the model, whatever
  uninitialised memory contains.  A call that does not come back makes its assertion false.
\<close>

subsection \<open>Tests (test-kernel/test.h, test-kernel/test.c)\<close>

datatype test_flag = TEST_SUCCESS | TEST_FAILURE

record test_state =
  ts_flag :: test_flag
  ts_file :: string
  ts_line :: nat
  ts_func :: string

type_synonym assertions = "(nat \<times> bool) list"

text \<open>
  A test function: its file (as the compiler names it), its name and its body.  An entry of the table points to the
  name.
\<close>

record test_case =
  tc_file :: string
  tc_func :: string
  tc_body :: assertions

record test_entry =
  te_name :: nat
  te_func :: test_case

definition test_fail :: "string \<Rightarrow> nat \<Rightarrow> string \<Rightarrow> test_state \<Rightarrow> test_state" where
  "test_fail file line func st = st\<lparr>ts_flag := TEST_FAILURE, ts_file := file, ts_line := line, ts_func := func\<rparr>"

text \<open>The body of a test: the first assertion that is false ends it, by \<^verbatim>\<open>longjmp\<close> to \<^verbatim>\<open>test_run\<close>.\<close>

fun test_body :: "string \<Rightarrow> string \<Rightarrow> assertions \<Rightarrow> test_state \<Rightarrow> test_state" where
  "test_body file func [] st = st"
| "test_body file func ((line, expr) # asserts) st =
     (if \<not> expr then test_fail file line func st else test_body file func asserts st)"

text \<open>What goes to the log: the format and the arguments of each call of \<^verbatim>\<open>logger_info\<close>, in order.\<close>

type_synonym log_calls = "(string \<times> va_arg list) list"

definition MESSAGE_SIGNATURE :: string where "MESSAGE_SIGNATURE = ''--a94e2gfwdd--''"

definition test_message_start :: "string \<Rightarrow> log_calls" where
  "test_message_start name = [('':%s %s'', [String_Arg name, String_Arg MESSAGE_SIGNATURE])]"

definition test_message_stop :: log_calls where
  "test_message_stop = [(CHR 0x0A # MESSAGE_SIGNATURE, [])]"

definition report_each :: "test_state \<Rightarrow> log_calls" where
  "report_each st =
     (case ts_flag st of
        TEST_SUCCESS \<Rightarrow> [(''$success'', [])]
      | TEST_FAILURE \<Rightarrow>
          [(''$failure @%s() (%s:%u)'', [String_Arg (ts_func st), String_Arg (ts_file st), Word_Arg (of_nat (ts_line st))])])"

definition test_run :: "test_case \<Rightarrow> test_state \<Rightarrow> log_calls \<times> test_state" where
  "test_run func st =
     (let st = st\<lparr>ts_flag := TEST_SUCCESS\<rparr>;
          st = test_body (tc_file func) (tc_func func) (tc_body func) st
      in (test_message_start ''echo'' @ test_message_stop @ report_each st, st))"

subsection \<open>The test kernel (test-kernel/kernel.c)\<close>

text \<open>\<^verbatim>\<open>command_run\<close>; the table of all tests is generated by the build and is a parameter.\<close>

fun command_run :: "memory \<Rightarrow> test_entry list \<Rightarrow> nat \<Rightarrow> test_state \<Rightarrow> (log_calls \<times> test_state) option" where
  "command_run m [] name st = Some ([], st)"
| "command_run m (entry # entries) name st =
     Option.bind (strcmp m (te_name entry) name) (\<lambda>r.
       if r = 0 then Some (test_run (te_func entry) st) else command_run m entries name st)"

text \<open>The loop of \<^verbatim>\<open>parse_command\<close> that ends the command word: the memory and the address of its argument.\<close>

function split_argument :: "memory \<Rightarrow> nat \<Rightarrow> nat \<Rightarrow> nat \<Rightarrow> memory \<times> nat option" where
  "split_argument m cmd len i =
     (if i < len
      then if m (cmd + i) = 0x20 then (m(cmd + i := 0), Some (cmd + (i + 1))) else split_argument m cmd len (i + 1)
      else (m, None))"
  by pat_completeness auto
termination
  by (relation "measure (\<lambda>(m, cmd, len, i). len - i)") auto

declare split_argument.simps [simp del]

definition parse_command :: "memory \<Rightarrow> nat \<Rightarrow> (memory \<times> nat option) option" where
  "parse_command m cmd =
     map_option (\<lambda>len.
       let m = (if len \<noteq> 0 \<and> m (cmd + (len - 1)) = 10 then m(cmd + (len - 1) := 0) else m)
       in if m cmd \<noteq> 0x24 \<and> m cmd \<noteq> 0x3a then (m, None) else split_argument m cmd len 0)
     (strlen m cmd)"

text \<open>
  One round of the loop of \<^verbatim>\<open>kernel_main\<close>: \<open>cmd\<close> is the address of the buffer for the command, \<open>run\<close> that of the
  literal \<^verbatim>\<open>"$run"\<close>.
\<close>

definition kernel_main_round ::
  "test_entry list \<Rightarrow> nat \<Rightarrow> nat \<Rightarrow> memory \<times> uart \<times> test_state \<Rightarrow> (log_calls \<times> memory \<times> uart \<times> test_state) option" where
  "kernel_main_round test_entries cmd run = (\<lambda>(m, u, st).
     let m = memset m cmd 0 64
     in Option.bind (uart_read (64 - 1) u) (\<lambda>(bytes, u).
        Option.bind (parse_command (put m cmd bytes) cmd) (\<lambda>(m, arg).
        Option.bind (strcmp m cmd run) (\<lambda>r.
          case arg of
            Some name \<Rightarrow>
              if r = 0
              then map_option (\<lambda>(log, st). ((''$please'', []) # log, m, u, st)) (command_run m test_entries name st)
              else Some ([(''$please'', [])], m, u, st)
          | None \<Rightarrow> Some ([(''$please'', [])], m, u, st)))))"

subsection \<open>A command runs its test\<close>

lemma test_body_success:
  "ts_flag st = TEST_SUCCESS \<Longrightarrow> ts_flag (test_body file func asserts st) = TEST_SUCCESS \<longleftrightarrow> (\<forall>a \<in> set asserts. snd a)"
proof (induction asserts)
  case (Cons a asserts)
  then show ?case by (cases a) (simp add: test_fail_def)
qed simp

lemma test_run_reports:
  "(''$success'', []) \<in> set (fst (test_run func st)) \<longleftrightarrow> (\<forall>a \<in> set (tc_body func). snd a)"
  using test_body_success [of "st\<lparr>ts_flag := TEST_SUCCESS\<rparr>" "tc_file func" "tc_func func" "tc_body func"]
  by (auto simp: test_run_def Let_def report_each_def test_message_start_def test_message_stop_def split: test_flag.splits)

lemma split_argument_first:
  "\<forall>j < k. m (cmd + j) \<noteq> 0x20 \<Longrightarrow> m (cmd + k) = 0x20 \<Longrightarrow> k < len \<Longrightarrow> i \<le> k \<Longrightarrow>
   split_argument m cmd len i = (m(cmd + k := 0), Some (cmd + (k + 1)))"
proof (induction m cmd len i rule: split_argument.induct)
  case (1 m cmd len i)
  then show ?case by (subst split_argument.simps) (cases "i = k", auto)
qed

lemma command_run_finds:
  assumes "cstr m name n" "cstr m (te_name entry) n"
    "\<forall>e \<in> set before. \<exists>t. cstr m (te_name e) t \<and> t \<noteq> n"
  shows "command_run m (before @ entry # after) name st = Some (test_run (te_func entry) st)"
  using assms(3)
proof (induction before)
  case Nil
  then show ?case using strcmp_cstr [OF assms(2,1)] by (simp add: str_diff_0 cstr_nonzero [OF assms(1)])
next
  case (Cons e es)
  then obtain t where "cstr m (te_name e) t" "t \<noteq> n" by auto
  then show ?case using Cons strcmp_cstr [OF _ assms(1), of "te_name e" t] by (simp add: str_diff_0 cstr_nonzero [OF assms(1)] cstr_nonzero)
qed

lemma uart_read_line:
  "u_rx u = line @ 10 # rest \<Longrightarrow> 10 \<notin> set line \<Longrightarrow> 13 \<notin> set line \<Longrightarrow> length line < n \<Longrightarrow>
   uart_read n u = Some (line @ [10], u\<lparr>u_rx := rest\<rparr>)"
proof (induction line arbitrary: u n)
  case Nil
  then show ?case by (cases n) (auto simp: uart_getc_def uart_recv_def)
next
  case (Cons c line)
  then show ?case by (cases n) (auto simp: uart_getc_def uart_recv_def)
qed

lemma parse_argument:
  assumes c: "cstr m cmd (w @ 0x20 # n @ [10])" and w: "0x20 \<notin> set w" "w \<noteq> []" "hd w = 0x24 \<or> hd w = 0x3a"
  obtains m' where "parse_command m cmd = Some (m', Some (cmd + length w + 1))" "cstr m' cmd w" "cstr m' (cmd + length w + 1) n"
    "\<And>a. a < cmd \<or> cmd + length w + length n + 1 < a \<Longrightarrow> m' a = m a"
proof -
  let ?k = "length w" and ?l = "length w + 1 + length n"
  define m1 where "m1 = m(cmd + ?l := 0)"
  define m2 where "m2 = m1(cmd + ?k := 0)"
  have "cstr m1 cmd (take ?l (w @ 0x20 # n @ [10]))" by (rule cstr_take [OF c]) (simp_all add: m1_def)
  then have c1: "cstr m1 cmd (w @ 0x20 # n)" by simp
  have at: "m1 (cmd + j) = (w @ 0x20 # n) ! j" if "j < ?l" for j
    using cstr_nth [OF c1, of j] that by simp
  have first: "m1 cmd = hd w" using at [of 0] w(2) by (simp add: nth_append hd_conv_nth)
  have l: "m (cmd + ?l) = 10" using cstr_nth [OF c, of ?l] by (simp add: nth_append)
  have "\<forall>j < ?k. m1 (cmd + j) \<noteq> 0x20" using at w(1) by (metis (no_types, opaque_lifting) add.assoc nth_append nth_mem trans_less_add1)
  then have "split_argument m1 cmd (?l + 1) 0 = (m2, Some (cmd + (?k + 1)))"
    unfolding m2_def by (rule split_argument_first) (use at [of ?k] in simp_all)
  moreover have "strlen m cmd = Some (?l + 1)" using strlen_cstr [OF c] by simp
  ultimately have "parse_command m cmd = Some (m2, Some (cmd + ?k + 1))"
    using l first w(3) unfolding parse_command_def by (simp add: m1_def [symmetric] del: One_nat_def)
  moreover have "cstr m2 cmd (take ?k (w @ 0x20 # n))" by (rule cstr_take [OF c1]) (simp_all add: m2_def)
  then have "cstr m2 cmd w" by simp
  moreover have "cstr m2 (cmd + ?k + 1) n"
    using cstr_drop [OF c1, of "?k + 1"] cstr_cong [of "cmd + ?k + 1" n m2 m1] by (simp add: m2_def ac_simps)
  ultimately show thesis by (rule that) (auto simp: m1_def m2_def)
qed

definition run_word :: "u8 list" where "run_word = [0x24, 0x72, 0x75, 0x6e]"

lemma run_word [simp]:
  "length run_word = 4" "run_word \<noteq> []" "hd run_word = 0x24"
  "0 \<notin> set run_word" "10 \<notin> set run_word" "13 \<notin> set run_word" "0x20 \<notin> set run_word"
  by (simp_all add: run_word_def)

lemma put_cleared: "length l < k \<Longrightarrow> put (put m d (replicate k 0)) d l = put (put m d (replicate k 0)) d (l @ [0])"
  by (auto simp: put_def fun_eq_iff nth_append less_Suc_eq)

text \<open>
  A line \<^verbatim>\<open>$run <name>\<close> makes the test kernel run the test of that name and report it: with \<^verbatim>\<open>$success\<close> exactly
  if every assertion of the test holds.  The names of the table and the literal lie outside the buffer.
\<close>

lemma run_command_reports:
  assumes rx: "u_rx u = run_word @ 0x20 # n @ 10 # rest"
    and n: "10 \<notin> set n" "13 \<notin> set n" "0 \<notin> set n" "length n \<le> 57"
    and lits: "cstr m run run_word" "run + 4 < cmd \<or> cmd + 64 \<le> run"
    and names: "cstr m (te_name entry) n" "\<forall>e \<in> set before. \<exists>t. cstr m (te_name e) t \<and> t \<noteq> n"
    and apart: "\<forall>e \<in> set (entry # before). \<forall>t. cstr m (te_name e) t \<longrightarrow> te_name e + length t < cmd \<or> cmd + 64 \<le> te_name e"
  obtains log m' st' where
    "kernel_main_round (before @ entry # after) cmd run (m, u, st) = Some ((''$please'', []) # log, m', u\<lparr>u_rx := rest\<rparr>, st')"
    "(log, st') = test_run (te_func entry) st"
    "(''$success'', []) \<in> set log \<longleftrightarrow> (\<forall>a \<in> set (tc_body (te_func entry)). snd a)"
proof -
  let ?line = "run_word @ 0x20 # n @ [10]"
  let ?m = "put (memset m cmd 0 64) cmd ?line"
  have r: "uart_read (64 - 1) u = Some (?line, u\<lparr>u_rx := rest\<rparr>)"
    using uart_read_line [of u "run_word @ 0x20 # n" rest "64 - 1"] rx n by simp
  have out: "?m a = m a" if "a < cmd \<or> cmd + 64 \<le> a" for a
    using that n(4) by (auto simp: memset_put put_def)
  have "?m = put (memset m cmd 0 64) cmd (?line @ [0])"
    unfolding memset_put by (rule put_cleared) (use n(4) in simp)
  then have "cstr ?m cmd ?line" using cstr_put [of ?line "memset m cmd 0 64" cmd] n(3) by simp
  then obtain m' where p: "parse_command ?m cmd = Some (m', Some (cmd + 5))" "cstr m' cmd run_word" "cstr m' (cmd + 5) n"
      and m': "\<And>a. a < cmd \<or> cmd + length run_word + length n + 1 < a \<Longrightarrow> m' a = ?m a"
    by (rule parse_argument) (simp_all add: add.commute)
  have keep: "cstr m' q t" if "cstr m q t" "q + length t < cmd \<or> cmd + 64 \<le> q" for q t
    using cstr_cong [of q t m' m] m' out that n(4) by auto
  have "strcmp m' cmd run = Some 0" using strcmp_cstr [OF p(2) keep [OF lits(1)]] lits(2) by (simp add: str_diff_0)
  moreover have "command_run m' (before @ entry # after) (cmd + 5) st = Some (test_run (te_func entry) st)"
    by (rule command_run_finds [OF p(3)]) (use keep names apart in \<open>auto, blast+\<close>)
  ultimately have "kernel_main_round (before @ entry # after) cmd run (m, u, st) =
      Some ((''$please'', []) # fst (test_run (te_func entry) st), m', u\<lparr>u_rx := rest\<rparr>, snd (test_run (te_func entry) st))"
    using r p(1) by (simp add: kernel_main_round_def Let_def split_def)
  then show thesis by (rule that) (simp_all add: test_run_reports)
qed

subsection \<open>lib/arithmetic.c, lib/bitset.c\<close>

definition test_add_overflow_unsigned_long :: assertions where
  "test_add_overflow_unsigned_long =
    [(23, \<not> add_overflow_unsigned_long 0x00000000 0x00000000),
     (24, \<not> add_overflow_unsigned_long 0xffff0000 0x0000ffff),
     (25, \<not> add_overflow_unsigned_long 0xfffffffe 0x00000001),
     (27, add_overflow_unsigned_long 0xffffffff 0x00000001),
     (28, add_overflow_unsigned_long 0xffff0000 0x0001ffff),
     (29, add_overflow_unsigned_long 0xffffffff 0xffffffff)]"

definition test_add_overflow_long_long :: assertions where
  "test_add_overflow_long_long =
    [(33, add_overflow_long_long LLONG_MAX 1),
     (34, \<not> add_overflow_long_long LLONG_MAX 0),
     (36, add_overflow_long_long 1 LLONG_MAX),
     (37, \<not> add_overflow_long_long 0 LLONG_MAX),
     (39, add_overflow_long_long LLONG_MIN (- 1)),
     (40, \<not> add_overflow_long_long LLONG_MIN 0),
     (42, add_overflow_long_long (- 1) LLONG_MIN),
     (43, \<not> add_overflow_long_long 0 LLONG_MIN),
     (45, add_overflow_long_long LLONG_MAX LLONG_MAX),
     (46, add_overflow_long_long LLONG_MIN LLONG_MIN),
     (47, \<not> add_overflow_long_long LLONG_MAX LLONG_MIN),
     (49, \<not> add_overflow_long_long 1 1),
     (50, \<not> add_overflow_long_long 1 (- 1)),
     (51, \<not> add_overflow_long_long (- 1) (- 1))]"

definition BITSET_NBITS :: nat where "BITSET_NBITS = 32"

definition test_bitset_sizeof :: assertions where
  "test_bitset_sizeof = [(27, size (0 :: u32) = BITSET_NBITS)]"

definition test_bitset_mask :: assertions where
  "test_bitset_mask =
     map (\<lambda>i. (34, bitset_mask i = push_bit i 1)) [0..<BITSET_NBITS] @
     map (\<lambda>i. (38, bitset_mask (BITSET_NBITS + i) = push_bit i 1)) [0..<BITSET_NBITS]"

definition test_bitset_slot :: assertions where
  "test_bitset_slot =
     map (\<lambda>i. (46, bitset_slot i = 0)) [0..<BITSET_NBITS] @
     map (\<lambda>i. (50, bitset_slot (BITSET_NBITS + i) = 1)) [0..<BITSET_NBITS]"

definition test_bitset_nslots :: assertions where
  "test_bitset_nslots =
     (56, bitset_nslots 0 = 0) #
     map (\<lambda>i. (59, bitset_nslots (i + 1) = 1)) [0..<32] @
     map (\<lambda>i. (63, bitset_nslots (i + BITSET_NBITS + 1) = 2)) [0..<32]"

text \<open>\<^verbatim>\<open>memset\<close> over the two words of a set makes each 0 or \<^verbatim>\<open>0xffffffff\<close>.\<close>

definition test_bitset_add :: assertions where
  "test_bitset_add =
    (let s = [0, 0];
         s = bitset_add s 0;
         s = bitset_add s 31;
         s = bitset_add s 32;
         s = bitset_add s 63
     in [(76, s ! 0 = 0x80000001), (77, s ! 1 = 0x80000001)])"

definition test_bitset_remove :: assertions where
  "test_bitset_remove =
    (let s = [0xffffffff, 0xffffffff];
         s = bitset_remove s 0;
         s = bitset_remove s 31;
         s = bitset_remove s 32;
         s = bitset_remove s 63
     in [(89, s ! 0 = 0x7ffffffe), (90, s ! 1 = 0x7ffffffe)])"

definition test_bitset_test :: assertions where
  "test_bitset_test =
    (let s = [0x00000001, 0x00000001]
     in [(96, bitset_test s 0), (97, bitset_test s 32), (99, \<not> bitset_test s 1), (100, \<not> bitset_test s 33)])"

definition passes :: "assertions \<Rightarrow> bool" where
  "passes asserts \<longleftrightarrow> (\<forall>a \<in> set asserts. snd a)"

lemma passes_simps [simp]:
  "passes []" "passes ((line, expr) # asserts) \<longleftrightarrow> expr \<and> passes asserts"
  "passes (asserts @ asserts') \<longleftrightarrow> passes asserts \<and> passes asserts'"
  "passes (map (\<lambda>i. (line, P i)) xs) \<longleftrightarrow> (\<forall>i \<in> set xs. P i)"
  by (auto simp: passes_def)

lemma arithmetic_tests_pass: "passes test_add_overflow_unsigned_long" "passes test_add_overflow_long_long"
  by (simp_all add: test_add_overflow_unsigned_long_def test_add_overflow_long_long_def add_overflow_unsigned_long_def
      add_overflow_long_long_def ULONG_MAX_def LLONG_MAX_def LLONG_MIN_def word_sless_alt)

lemma bitset_tests_pass:
  "passes test_bitset_sizeof" "passes test_bitset_mask" "passes test_bitset_slot" "passes test_bitset_nslots"
  "passes test_bitset_add" "passes test_bitset_remove" "passes test_bitset_test"
  by (auto simp: test_bitset_sizeof_def word_size test_bitset_mask_def test_bitset_slot_def test_bitset_nslots_def test_bitset_add_def test_bitset_remove_def
      test_bitset_test_def BITSET_NBITS_def bitset_mask_def bitset_slot_def bitset_nslots_def bitset_add_def bitset_remove_def
      bitset_test_def div_eq_dividend_iff push_bit_eq_mult)

subsection \<open>lib/signal.c\<close>

text \<open>
  \<^verbatim>\<open>sigemptyset\<close>, \<^verbatim>\<open>sigfillset\<close> and \<^verbatim>\<open>signotset\<close> return 0 in any case; their models give the set only, and the
  assertions on the result (lines 24, 31 and 108) have no counterpart.
\<close>

definition test_sigemptyset :: assertions where
  "test_sigemptyset = [(25, field0 sigemptyset = 0), (26, field1 sigemptyset = 0)]"

definition test_sigfillset :: assertions where
  "test_sigfillset = [(32, field0 sigfillset = 0xffffffff), (33, field1 sigfillset = 0xffffffff)]"

definition test_sigaddset :: assertions where
  "test_sigaddset =
    (let s = sigemptyset; (r0, s) = sigaddset s 0; (r8192, s) = sigaddset s 8192; (r1, s) = sigaddset s 1;
         (r32, s) = sigaddset s 32; (r33, s) = sigaddset s 33; (r64, s) = sigaddset s 64
     in [(40, r0 = - 1), (41, r8192 = - 1), (43, r1 = 0), (44, r32 = 0), (45, r33 = 0), (46, r64 = 0),
         (48, field0 s = push_bit 0 1 OR push_bit 31 1), (49, field1 s = push_bit 0 1 OR push_bit 31 1)])"

definition test_sigdelset :: assertions where
  "test_sigdelset =
    (let s = sigfillset; (r0, s) = sigdelset s 0; (r8192, s) = sigdelset s 8192; (r1, s) = sigdelset s 1;
         (r32, s) = sigdelset s 32; (r33, s) = sigdelset s 33; (r64, s) = sigdelset s 64
     in [(56, r0 = - 1), (57, r8192 = - 1), (59, r1 = 0), (60, r32 = 0), (61, r33 = 0), (62, r64 = 0),
         (64, field0 s = 0xffffffff AND NOT (push_bit 0 1 OR push_bit 31 1)),
         (65, field1 s = 0xffffffff AND NOT (push_bit 0 1 OR push_bit 31 1))])"

definition test_sigismember :: assertions where
  "test_sigismember =
    (let s = sigemptyset; (r0, s) = sigdelset s 0; (r8192, s) = sigdelset s 8192;
         s1 = snd (sigaddset s 1); s33 = snd (sigaddset s1 33)
     in [(72, r0 = - 1), (73, r8192 = - 1), (75, sigismember s 1 = 0), (77, sigismember s1 1 = 1),
         (79, sigismember s1 33 = 0), (81, sigismember s33 33 = 1)])"

definition test_sigisemptyset :: assertions where
  "test_sigisemptyset =
    (let s = sigemptyset; s1 = snd (sigaddset s 1); (r1, s2) = sigdelset s1 1; (r32, s2) = sigdelset s2 32;
         (r33, s2) = sigdelset s2 33; (r64, s2) = sigdelset s2 64
     in [(88, sigisemptyset s = 1), (91, sigisemptyset s1 = 0), (93, r1 = 0), (94, r32 = 0), (95, r33 = 0), (96, r64 = 0)])"

definition test_signotset :: assertions where
  "test_signotset =
    (let a = sigemptyset; a = snd (sigaddset a 1); a = snd (sigaddset a 32); a = snd (sigaddset a 33);
         a = snd (sigaddset a 64); b = signotset a
     in [(109, field0 b = 0x7ffffffe), (110, field1 b = 0x7ffffffe)])"

definition test_sigorset :: assertions where
  "test_sigorset = (let c = sigorset sigemptyset sigfillset in [(120, field0 c = 0xffffffff), (121, field1 c = 0xffffffff)])"

definition test_sigandset :: assertions where
  "test_sigandset = (let c = sigandset sigemptyset sigfillset in [(131, field0 c = 0), (132, field1 c = 0)])"

definition test_sigpeekset :: assertions where
  "test_sigpeekset =
    (let s = sigemptyset; s64 = snd (sigaddset s 64); s33 = snd (sigaddset s64 33); s32 = snd (sigaddset s33 32);
         s1 = snd (sigaddset s32 1)
     in [(139, sigpeekset s = 0), (142, sigpeekset s64 = 64), (145, sigpeekset s33 = 33), (148, sigpeekset s32 = 32),
         (151, sigpeekset s1 = 1)])"

lemma builtin_ffs_values: "builtin_ffs 0 = 0" "builtin_ffs 0x80000000 = 32" "builtin_ffs 0x80000001 = 1"
  by code_simp+

lemma signal_tests_pass:
  "passes test_sigemptyset" "passes test_sigfillset" "passes test_sigaddset" "passes test_sigdelset" "passes test_sigismember"
  "passes test_sigisemptyset" "passes test_signotset" "passes test_sigorset" "passes test_sigandset" "passes test_sigpeekset"
  by (simp_all add: test_sigemptyset_def test_sigfillset_def test_sigaddset_def test_sigdelset_def test_sigismember_def
      test_sigisemptyset_def test_signotset_def test_sigorset_def test_sigandset_def test_sigpeekset_def
      sigemptyset_def sigfillset_def sigaddset_def sigdelset_def sigismember_def sigisemptyset_def signotset_def sigorset_def
      sigandset_def sigpeekset_def builtin_ffs_values NSIG_def Let_def)

end
