(* ===== verification/Cy_String_Tests.thy ===== *)
theory Cy_String_Tests
  imports Cy_Tests
begin

text \<open>
  The unit tests of \<^verbatim>\<open>lib/string.c\<close>, \<^verbatim>\<open>lib/libgen.c\<close>, \<^verbatim>\<open>lib/stdarg.c\<close> and \<^verbatim>\<open>lib/list.c\<close>, which need
  memory: literals stand from 4096 on, 256 bytes apart, the buffers of a test below.  Memory before the test is a parameter.
\<close>

subsection \<open>lib/string.c\<close>

text \<open>A string literal, or an array initialised with one.\<close>

definition string_at :: "nat \<Rightarrow> string \<Rightarrow> memory \<Rightarrow> memory" where
  "string_at p s m = put m p (map byte_of s @ [0])"

definition test_strlen :: "memory \<Rightarrow> assertions" where
  "test_strlen m =
    (let m = string_at 4096 '''' (string_at 4352 ''M1'' (string_at 4608 ''M17'' m))
     in [(23, strlen m 4096 = Some 0), (24, strlen m 4352 = Some 2), (25, strlen m 4608 = Some 3)])"

definition test_strnlen :: "memory \<Rightarrow> assertions" where
  "test_strnlen m =
    (let m = string_at 4096 '''' (string_at 4352 ''M1'' (string_at 4608 ''M17'' m))
     in [(29, strnlen m 4096 50 = 0), (30, strnlen m 4352 50 = 2), (31, strnlen m 4608 50 = 3),
         (33, strnlen m 4608 0 = 0), (34, strnlen m 4608 1 = 1), (35, strnlen m 4608 2 = 2),
         (36, strnlen m 4608 3 = 3), (37, strnlen m 4608 4 = 3)])"

text \<open>An assertion on a result, false if the call does not come back.\<close>

definition returns :: "'a option \<Rightarrow> ('a \<Rightarrow> bool) \<Rightarrow> bool" where
  "returns r P = (case r of None \<Rightarrow> False | Some x \<Rightarrow> P x)"

definition test_strcmp :: "memory \<Rightarrow> assertions" where
  "test_strcmp m =
    (let m = string_at 4096 ''M16'' (string_at 4352 ''M17'' m)
     in [(41, returns (strcmp m 4352 4352) (\<lambda>r. r = 0)), (42, returns (strcmp m 4352 4096) (\<lambda>r. r > 0)),
         (43, returns (strcmp m 4096 4352) (\<lambda>r. r < 0))])"

definition test_strncmp :: "memory \<Rightarrow> assertions" where
  "test_strncmp m =
    (let m = string_at 4096 ''M16'' (string_at 4352 ''M17'' (string_at 4608 ''M1'' m))
     in [(47, strncmp m 4352 4352 10 = 0), (48, strncmp m 4352 4096 10 > 0), (49, strncmp m 4096 4352 10 < 0),
         (51, strncmp m 4352 4608 2 = 0), (52, strncmp m 4352 4608 3 > 0), (53, strncmp m 4608 4352 3 < 0)])"

definition test_strcpy :: "memory \<Rightarrow> assertions" where
  "test_strcpy m =
    (let m = string_at 4096 ''M17'' m; m' = strcpy m 1024 4096
     in [(60, returns m' (\<lambda>m. m 1024 = byte_of CHR ''M'')), (61, returns m' (\<lambda>m. m 1025 = byte_of CHR ''1'')),
         (62, returns m' (\<lambda>m. m 1026 = byte_of CHR ''7'')), (63, returns m' (\<lambda>m. m 1027 = 0))])"

definition test_strncpy :: "memory \<Rightarrow> assertions" where
  "test_strncpy m =
    (let m = string_at 4096 ''M17'' (put m 1024 (replicate 32 0));
         m1 = strncpy m 1024 4096 1; m10 = strncpy m1 1024 4096 10
     in [(70, m1 1024 = byte_of CHR ''M''), (71, m1 1025 = 0), (74, m10 1024 = byte_of CHR ''M''),
         (75, m10 1025 = byte_of CHR ''1''), (76, m10 1026 = byte_of CHR ''7''), (77, m10 1027 = 0)])"

definition test_memcpy :: "memory \<Rightarrow> assertions" where
  "test_memcpy m =
    (let m = put (put m 1024 [0, 0, 0, 0]) 1028 [1, 2, 3, 4];
         m0 = memcpy m 1024 1028 0; m3 = memcpy m0 1024 1028 3
     in [(85, m0 1024 = 0), (88, m3 1024 = 1), (89, m3 1025 = 2), (90, m3 1026 = 3), (91, m3 1027 = 0)])"

definition test_memset :: "memory \<Rightarrow> assertions" where
  "test_memset m =
    (let m = put m 1024 (replicate 8 0); m0 = memset m 1024 10 0; m1 = memset m0 1024 10 1
     in [(98, m0 1024 = 0), (101, m1 1024 = 10), (102, m1 1025 = 0)])"

definition test_memcmp :: "memory \<Rightarrow> assertions" where
  "test_memcmp m =
    (let m = put (put m 1024 [10, 10]) 1026 [10, 20]
     in [(109, memcmp m 1024 1026 0 = 0), (110, memcmp m 1024 1026 1 = 0),
         (112, memcmp m 1024 1026 2 < 0), (113, memcmp m 1026 1024 2 > 0)])"

text \<open>\<^verbatim>\<open>!strcmp(buf, "...")\<close> after a sequence of calls that may not come back.\<close>

definition reads :: "memory option \<Rightarrow> nat \<Rightarrow> nat \<Rightarrow> bool" where
  "reads r buf lit = returns r (\<lambda>m. returns (strcmp m buf lit) (\<lambda>d. d = 0))"

definition test_strcat :: "memory \<Rightarrow> assertions" where
  "test_strcat m =
    (let m = string_at 4096 '''' (string_at 4352 ''M1'' (string_at 4608 ''7'' (string_at 4864 ''M17'' m)));
         m = put m 1024 (replicate 16 0);
         m0 = strcat m 1024 4096;
         m1 = Option.bind m0 (\<lambda>m. strcat m 1024 4352);
         m2 = Option.bind m1 (\<lambda>m. strcat m 1024 4608)
     in [(120, reads m0 1024 4096), (123, reads m1 1024 4352), (126, reads m2 1024 4864)])"

definition test_strncat :: "memory \<Rightarrow> assertions" where
  "test_strncat m =
    (let m = string_at 4096 '''' (string_at 4352 ''M1'' (string_at 4608 ''7'' (string_at 4864 ''M17'' m)));
         m = put m 1024 (replicate 16 0);
         m0 = strncat m 1024 4096 16;
         m1 = Option.bind m0 (\<lambda>m. strncat m 1024 4864 2);
         m2 = Option.bind m1 (\<lambda>m. strncat m 1024 4608 16)
     in [(133, reads m0 1024 4096), (136, reads m1 1024 4352), (139, reads m2 1024 4864)])"

definition test_strchr :: "memory \<Rightarrow> assertions" where
  "test_strchr m =
    (let blank = 4096; str = 4352; m = string_at blank '''' (string_at str ''M17M17'' m)
     in [(145, strchr m blank (byte_of CHR ''A'') = Some None), (146, strchr m blank 0 = Some (Some blank)),
         (148, strchr m str (byte_of CHR ''A'') = Some None), (149, strchr m str (byte_of CHR ''M'') = Some (Some str)),
         (150, strchr m str (byte_of CHR ''7'') = Some (Some (str + 2))), (151, strchr m str 0 = Some (Some (str + 6)))])"

definition test_strrchr :: "memory \<Rightarrow> assertions" where
  "test_strrchr m =
    (let blank = 4096; str = 4352; m = string_at blank '''' (string_at str ''M17M17'' m)
     in [(157, strrchr m blank (byte_of CHR ''A'') = Some None), (158, strrchr m blank 0 = Some (Some blank)),
         (160, strrchr m str (byte_of CHR ''A'') = Some None), (161, strrchr m str (byte_of CHR ''M'') = Some (Some (str + 3))),
         (162, strrchr m str (byte_of CHR ''7'') = Some (Some (str + 5))), (163, strrchr m str 0 = Some (Some (str + 6)))])"

definition test_strchrnul :: "memory \<Rightarrow> assertions" where
  "test_strchrnul m =
    (let blank = 4096; str = 4352; m = string_at blank '''' (string_at str ''M17M17'' m)
     in [(169, strchrnul m blank (byte_of CHR ''A'') = Some blank), (170, strchrnul m blank 0 = Some blank),
         (172, strchrnul m str (byte_of CHR ''A'') = Some (str + 6)), (173, strchrnul m str (byte_of CHR ''M'') = Some str),
         (174, strchrnul m str (byte_of CHR ''7'') = Some (str + 2)), (175, strchrnul m str 0 = Some (str + 6))])"

lemma char_of_byte_of [simp]: "char_of (unat (byte_of c)) = c"
  by (simp add: byte_of_def unat_of_nat)

lemma byte_of_eq_0: "byte_of c = 0 \<longleftrightarrow> c = CHR 0x00"
proof
  assume "byte_of c = 0"
  then have "c = char_of (0 :: nat)" using char_of_byte_of [of c] by simp
  then show "c = CHR 0x00" by (simp add: char_of_def)
qed (simp add: byte_of_def)

lemma replicate_unfold: "replicate (numeral k) x = x # replicate (pred_numeral k) x"
  by (simp add: numeral_eq_Suc)

lemma numeral_unfold:
  "strncmp m a b (numeral k) =
     (if m a \<noteq> 0 \<or> m b \<noteq> 0 then
        if m a \<noteq> m b then byte_diff (m a) (m b) else strncmp m (a + 1) (b + 1) (pred_numeral k)
      else 0)"
  "memcmp m a b (numeral k) =
     (if m a \<noteq> m b then byte_diff (m a) (m b) else memcmp m (a + 1) (b + 1) (pred_numeral k))"
  "memcpy m a b (numeral k) = memcpy (m(a := m b)) (a + 1) (b + 1) (pred_numeral k)"
  "strncat_copy m a b (numeral k) =
     (if m b \<noteq> 0 then strncat_copy (m(a := m b)) (a + 1) (b + 1) (pred_numeral k) else m(a := 0))"
  "strrchr_loop m a c (numeral k) =
     (if m (a + numeral k) = c then Some (a + numeral k) else strrchr_loop m a c (pred_numeral k))"
  by (simp_all add: numeral_eq_Suc)

lemma cstr_string_at [simp]:
  "0 \<notin> set (map byte_of s) \<Longrightarrow> cstr (string_at p s m) p (map byte_of s)"
  by (simp add: string_at_def cstr_put)

lemma string_at_other [simp]: "q + length t < p \<or> p + length s < q \<Longrightarrow> cstr (string_at p s m) q t = cstr m q t"
  unfolding string_at_def by (rule cstr_cong) (auto simp: put_def)

lemma length_tests_pass: "passes (test_strlen m)" "passes (test_strnlen m)"
  by (simp_all add: test_strlen_def test_strnlen_def strlen_def strlen_loop.simps strnlen_def strnlen_loop.simps
      Let_def string_at_def put_Cons byte_of_def)

lemma strcmp_test_passes: "passes (test_strcmp m)"
  by (simp add: test_strcmp_def returns_def strcmp.simps Let_def string_at_def put_Cons byte_of_def byte_diff_def)

lemma strncmp_test_passes: "passes (test_strncmp m)"
  by (simp add: test_strncmp_def numeral_unfold Let_def string_at_def put_Cons byte_of_def byte_diff_def)

lemma memory_tests_pass: "passes (test_memcmp m)" "passes (test_memcpy m)" "passes (test_memset m)"
  by (simp_all add: test_memcmp_def test_memcpy_def test_memset_def numeral_unfold memset_put replicate_unfold Let_def
      put_Cons byte_diff_def)

lemma strcpy_test_passes: "passes (test_strcpy m)"
  by (simp add: test_strcpy_def returns_def strcpy.simps Let_def string_at_def put_Cons byte_of_def)

lemma strncpy_test_passes: "passes (test_strncpy m)"
  by (simp add: test_strncpy_def strncpy_def strncpy_copy.simps strncpy_fill.simps Let_def string_at_def put_def byte_of_def)

lemma strchr_test_passes: "passes (test_strchr m)"
  by (simp add: test_strchr_def strchr_def strchrnul.simps Let_def string_at_def put_Cons byte_of_def)

lemma strrchr_test_passes: "passes (test_strrchr m)"
  by (simp add: test_strrchr_def strrchr_def strlen_def strlen_loop.simps numeral_unfold Let_def string_at_def put_Cons byte_of_def)

lemma strchrnul_test_passes: "passes (test_strchrnul m)"
  by (simp add: test_strchrnul_def strchrnul.simps Let_def string_at_def put_Cons byte_of_def)

lemma append_step:
  assumes "cstr m 1024 t" "cstr m src s" "4096 \<le> src" "length t + length s < 16"
  obtains m' where "strcat m 1024 src = Some m'" "cstr m' 1024 (t @ s)" "\<And>q u. 4096 \<le> q \<Longrightarrow> cstr m' q u = cstr m q u"
proof -
  let ?m = "put m 1024 (t @ s @ [0])"
  have "strcat m 1024 src = Some ?m" using string_copies_correct [OF assms(2,1), of 0] assms(3,4) by auto
  moreover have "cstr ?m 1024 (t @ s)" using cstr_put [of "t @ s" m 1024] cstr_nonzero [OF assms(1)] cstr_nonzero [OF assms(2)] by simp
  moreover have "cstr ?m q u = cstr m q u" if "4096 \<le> q" for q u
    by (rule cstr_cong) (use that assms(4) in \<open>auto simp: put_def\<close>)
  ultimately show thesis by (rule that)
qed

lemma append_step_n:
  assumes "cstr m 1024 t" "cstr m src s" "4096 \<le> src" "length t + length s < 16" "n \<le> 16"
  obtains m' where "strncat m 1024 src n = Some m'" "cstr m' 1024 (t @ take n s)" "\<And>q u. 4096 \<le> q \<Longrightarrow> cstr m' q u = cstr m q u"
proof -
  let ?m = "put m 1024 (t @ take n s @ [0])"
  have "strncat m 1024 src n = Some ?m" using string_copies_correct [OF assms(2,1), of n] assms(3-5) by auto
  moreover have "cstr ?m 1024 (t @ take n s)"
    using cstr_put [of "t @ take n s" m 1024] cstr_nonzero [OF assms(1)] cstr_nonzero [OF assms(2)] by (auto dest: in_set_takeD)
  moreover have "cstr ?m q u = cstr m q u" if "4096 \<le> q" for q u
    by (rule cstr_cong) (use that assms(4) in \<open>auto simp: put_def\<close>)
  ultimately show thesis by (rule that)
qed

lemma reads_cstr: "cstr m a s \<Longrightarrow> cstr m b s \<Longrightarrow> reads (Some m) a b"
  using strcmp_cstr [of m a s b s] str_diff_0 [OF cstr_nonzero cstr_nonzero] by (simp add: reads_def returns_def)

lemma append_chain:
  assumes start: "cstr m 1024 []" and lits: "cstr m 4096 []" "cstr m p1 a" "cstr m p2 b" "cstr m p3 (a @ b)"
    and p: "4096 \<le> p1" "4096 \<le> p2" "4096 \<le> p3" and l: "length a + length b < 16"
  shows "reads (strcat m 1024 4096) 1024 4096"
    "reads (Option.bind (strcat m 1024 4096) (\<lambda>m. strcat m 1024 p1)) 1024 p1"
    "reads (Option.bind (Option.bind (strcat m 1024 4096) (\<lambda>m. strcat m 1024 p1)) (\<lambda>m. strcat m 1024 p2)) 1024 p3"
proof -
  obtain m0 where m0: "strcat m 1024 4096 = Some m0" "cstr m0 1024 []" "\<And>q u. 4096 \<le> q \<Longrightarrow> cstr m0 q u = cstr m q u"
    using append_step [OF start lits(1)] by auto
  obtain m1 where m1: "strcat m0 1024 p1 = Some m1" "cstr m1 1024 a" "\<And>q u. 4096 \<le> q \<Longrightarrow> cstr m1 q u = cstr m0 q u"
    using append_step [of m0 "[]" p1 a] m0 lits p l by auto
  obtain m2 where m2: "strcat m1 1024 p2 = Some m2" "cstr m2 1024 (a @ b)" "\<And>q u. 4096 \<le> q \<Longrightarrow> cstr m2 q u = cstr m1 q u"
    using append_step [of m1 a p2 b] m0 m1 lits p l by auto
  have c0: "cstr m0 4096 []" using m0(3) [of 4096 "[]"] lits(1) by simp
  show "reads (strcat m 1024 4096) 1024 4096"
    "reads (Option.bind (strcat m 1024 4096) (\<lambda>m. strcat m 1024 p1)) 1024 p1"
    "reads (Option.bind (Option.bind (strcat m 1024 4096) (\<lambda>m. strcat m 1024 p1)) (\<lambda>m. strcat m 1024 p2)) 1024 p3"
    using reads_cstr [OF m0(2) c0] reads_cstr [OF m1(2), of p1] reads_cstr [OF m2(2), of p3] m0 m1 m2 lits p by simp_all
qed

lemma append_chain_n:
  assumes start: "cstr m 1024 []" and lits: "cstr m 4096 []" "cstr m p1 a" "cstr m p2 b" "cstr m p3 (a @ b)"
    and p: "4096 \<le> p1" "4096 \<le> p2" "4096 \<le> p3" and l: "length a + length b < 16"
  shows "reads (strncat m 1024 4096 16) 1024 4096"
    "reads (Option.bind (strncat m 1024 4096 16) (\<lambda>m. strncat m 1024 p3 (length a))) 1024 p1"
    "reads (Option.bind (Option.bind (strncat m 1024 4096 16) (\<lambda>m. strncat m 1024 p3 (length a))) (\<lambda>m. strncat m 1024 p2 16)) 1024 p3"
proof -
  obtain m0 where m0: "strncat m 1024 4096 16 = Some m0" "cstr m0 1024 []" "\<And>q u. 4096 \<le> q \<Longrightarrow> cstr m0 q u = cstr m q u"
    using append_step_n [OF start lits(1), of 16] by auto
  obtain m1 where m1: "strncat m0 1024 p3 (length a) = Some m1" "cstr m1 1024 a" "\<And>q u. 4096 \<le> q \<Longrightarrow> cstr m1 q u = cstr m0 q u"
    using append_step_n [of m0 "[]" p3 "a @ b" "length a"] m0 lits p l by auto
  obtain m2 where m2: "strncat m1 1024 p2 16 = Some m2" "cstr m2 1024 (a @ b)" "\<And>q u. 4096 \<le> q \<Longrightarrow> cstr m2 q u = cstr m1 q u"
    using append_step_n [of m1 a p2 b 16] m0 m1 lits p l by auto
  have c0: "cstr m0 4096 []" using m0(3) [of 4096 "[]"] lits(1) by simp
  show "reads (strncat m 1024 4096 16) 1024 4096"
    "reads (Option.bind (strncat m 1024 4096 16) (\<lambda>m. strncat m 1024 p3 (length a))) 1024 p1"
    "reads (Option.bind (Option.bind (strncat m 1024 4096 16) (\<lambda>m. strncat m 1024 p3 (length a))) (\<lambda>m. strncat m 1024 p2 16)) 1024 p3"
    using reads_cstr [OF m0(2) c0] reads_cstr [OF m1(2), of p1] reads_cstr [OF m2(2), of p3] m0 m1 m2 lits p by simp_all
qed

lemma append_tests_pass: "passes (test_strcat m)" "passes (test_strncat m)"
proof -
  let ?lits = "string_at 4096 '''' (string_at 4352 ''M1'' (string_at 4608 ''7'' (string_at 4864 ''M17'' m)))"
  let ?m = "put ?lits 1024 (replicate 16 0)"
  let ?a = "map byte_of ''M1''" and ?b = "map byte_of ''7''"
  have keep: "cstr ?m q u = cstr ?lits q u" if "4096 \<le> q" for q u
    by (rule cstr_cong) (use that in \<open>auto simp: put_def\<close>)
  have lits: "cstr ?m 4096 []" "cstr ?m 4352 ?a" "cstr ?m 4608 ?b" "cstr ?m 4864 (?a @ ?b)"
    by (simp_all only: keep) (simp_all add: string_at_def put_Cons byte_of_def)
  have start: "cstr ?m 1024 []" by (simp add: put_def)
  show "passes (test_strcat m)"
    using append_chain [OF start lits] by (simp add: test_strcat_def Let_def)
  show "passes (test_strncat m)"
    using append_chain_n [OF start lits] by (simp add: test_strncat_def Let_def numeral_2_eq_2)
qed

subsection \<open>lib/libgen.c\<close>

text \<open>
  One step of the tests: \<^verbatim>\<open>strcpy(path, "...")\<close>, then \<^verbatim>\<open>!strcmp(f(path), "...")\<close>.  The path is at 1024, its literal
  at 4096 and the expected result at 4352; a literal the function itself returns stands at 4608.
  Each step starts from memory \<open>m\<close>: what the steps before it left in the path is overwritten, and \<open>m\<close> is arbitrary.
\<close>

definition libgen_step :: "(memory \<Rightarrow> nat \<Rightarrow> (memory \<times> str_ptr) option) \<Rightarrow> memory \<Rightarrow> string \<Rightarrow> string \<Rightarrow> bool" where
  "libgen_step f m path expected =
     returns (strcpy (string_at 4096 path (string_at 4352 expected m)) 1024 4096) (\<lambda>m.
     returns (f m 1024) (\<lambda>(m, r).
       case r of
         Address a \<Rightarrow> returns (strcmp m a 4352) (\<lambda>d. d = 0)
       | Literal s \<Rightarrow> returns (strcmp (put m 4608 (s @ [0])) 4608 4352) (\<lambda>d. d = 0)))"

definition test_dirname :: "memory \<Rightarrow> assertions" where
  "test_dirname m =
    [(26, libgen_step dirname m ''/usr/local'' ''/usr''),
     (29, libgen_step dirname m ''/usr/'' ''/''),
     (32, libgen_step dirname m ''usr'' ''.''),
     (35, libgen_step dirname m ''/'' ''/''),
     (38, libgen_step dirname m ''.'' ''.''),
     (41, libgen_step dirname m ''..'' ''.''),
     (44, libgen_step dirname m '''' ''.'')]"

definition test_basename :: "memory \<Rightarrow> assertions" where
  "test_basename m =
    [(51, libgen_step basename m ''/usr/local'' ''local''),
     (54, libgen_step basename m ''/usr/'' ''usr''),
     (57, libgen_step basename m ''usr'' ''usr''),
     (60, libgen_step basename m ''/'' ''/''),
     (63, libgen_step basename m ''.'' ''.''),
     (66, libgen_step basename m ''..'' ''..''),
     (69, libgen_step basename m '''' ''.'')]"

text \<open>The functions write inside the path only.\<close>

lemma skip_le: "skip_slashes m p n = Some i \<Longrightarrow> i \<le> n" "skip_name m p n = Some i \<Longrightarrow> i \<le> n"
  by (induction n) (auto split: if_splits)

lemma clear_slashes_frame: "clear_slashes m p n = (m', i) \<Longrightarrow> a < p \<or> p + n < a \<Longrightarrow> m' a = m a"
  by (induction n arbitrary: m) (fastforce split: if_splits)+

lemma libgen_frame:
  assumes "cstr m p s" "a < p \<or> p + length s < a"
  shows "dirname m p = Some (m', r) \<Longrightarrow> m' a = m a" "basename m p = Some (m', r) \<Longrightarrow> m' a = m a"
proof -
  have ne: "m p \<noteq> 0 \<Longrightarrow> s \<noteq> []" using assms(1) by auto
  show "dirname m p = Some (m', r) \<Longrightarrow> m' a = m a"
    using assms(2) ne strlen_cstr [OF assms(1)]
    by (auto simp: dirname_def split: if_splits option.splits dest!: skip_le) (cases s; simp)+
  show "basename m p = Some (m', r) \<Longrightarrow> m' a = m a"
    using assms(2) ne strlen_cstr [OF assms(1)]
    by (auto simp: basename_def Let_def split: if_splits prod.splits dest!: clear_slashes_frame [of _ _ _ _ _ a])
qed

lemma libgen_step_passes:
  assumes f: "\<And>m p s. cstr m p s \<Longrightarrow> p \<noteq> 0 \<Longrightarrow> \<exists>m' r. f m p = Some (m', r) \<and> denotes m' r (g s)
      \<and> (\<forall>a. p + length s < a \<longrightarrow> m' a = m a)"
    and e: "g (map byte_of path) = map byte_of expected" "CHR 0x00 \<notin> set path \<union> set expected" "length path < 16" "length expected < 16"
  shows "libgen_step f m path expected"
proof -
  let ?s = "map byte_of path" and ?t = "map byte_of expected"
  let ?m0 = "string_at 4096 path (string_at 4352 expected m)"
  let ?m1 = "put ?m0 1024 (?s @ [0])"
  have nz: "0 \<notin> set ?s" "0 \<notin> set ?t" using e(2) by (auto simp: byte_of_eq_0)
  have "cstr ?m0 4096 ?s" using cstr_put [OF nz(1)] by (simp add: string_at_def)
  then have cp: "strcpy ?m0 1024 4096 = Some ?m1" using e(3) by (intro strcpy_cstr) auto
  obtain m' r where m': "f ?m1 1024 = Some (m', r)" "denotes m' r ?t" "\<And>a. 1024 + length ?s < a \<Longrightarrow> m' a = ?m1 a"
    using f [OF cstr_put [OF nz(1), of ?m0 1024]] e(1) by auto
  have "cstr (string_at 4352 expected m) 4352 ?t" using cstr_put [OF nz(2)] by (simp add: string_at_def)
  moreover have "m' a = string_at 4352 expected m a" if "4352 \<le> a" for a
    using m'(3) [of a] that e(3) by (simp add: put_def string_at_def)
  ultimately have t: "cstr m' 4352 ?t" using cstr_cong [of 4352 ?t m' "string_at 4352 expected m"] by simp
  have same: "cstr m'' a ?t \<Longrightarrow> cstr m'' 4352 ?t \<Longrightarrow> returns (strcmp m'' a 4352) (\<lambda>d. d = 0)" for m'' a
    using strcmp_cstr [of m'' a ?t 4352 ?t] str_diff_0 [OF nz(2) nz(2)] by (simp add: returns_def)
  have "returns (strcmp (put m' 4608 (?t @ [0])) 4608 4352) (\<lambda>d. d = 0)"
    by (rule same [OF cstr_put [OF nz(2)]]) (use t e(4) cstr_cong [of 4352 ?t "put m' 4608 (?t @ [0])" m'] in \<open>simp add: put_def\<close>)
  then show ?thesis
    using cp m'(1,2) same [OF _ t] by (cases r) (simp_all add: libgen_step_def returns_def denotes_def)
qed

lemma libgen_tests_pass: "passes (test_dirname m)" "passes (test_basename m)"
proof -
  have "\<exists>m' r. dirname m p = Some (m', r) \<and> denotes m' r (dirname_str s) \<and> (\<forall>a. p + length s < a \<longrightarrow> m' a = m a)"
    if "cstr m p s" "p \<noteq> 0" for m p s
    using that libgen_frame(1) [OF that(1)] by (metis dirname_cstr)
  note d = libgen_step_passes [of dirname dirname_str, OF this]
  have "\<exists>m' r. basename m p = Some (m', r) \<and> denotes m' r (basename_str s) \<and> (\<forall>a. p + length s < a \<longrightarrow> m' a = m a)"
    if "cstr m p s" "p \<noteq> 0" for m p s
    using that libgen_frame(2) [OF that(1)] by (metis basename_cstr)
  note b = libgen_step_passes [of basename basename_str, OF this]
  show "passes (test_dirname m)" unfolding test_dirname_def passes_simps
    by (intro conjI d TrueI) (simp_all add: dirname_str_def strip_slashes_def strip_name_def byte_of_def slash_def dot_def)
  show "passes (test_basename m)" unfolding test_basename_def passes_simps
    by (intro conjI b TrueI) (simp_all add: basename_str_def strip_slashes_def last_component_def byte_of_def slash_def dot_def)
qed

end
