(* ===== verification/Cy_Stdarg_Tests.thy ===== *)
theory Cy_Stdarg_Tests
  imports Cy_String_Tests
begin

text \<open>
  The unit tests of \<^verbatim>\<open>lib/stdarg.c\<close>.  Each call is evaluated with the reference formatting, which the correctness
  of \<^const>\<open>vsnprintf\<close> carries over to the code.
\<close>

text \<open>\<^verbatim>\<open>snprintf\<close> on memory; the variable arguments are the list.\<close>

definition snprintf :: "memory \<Rightarrow> nat \<Rightarrow> nat \<Rightarrow> string \<Rightarrow> va_arg list \<Rightarrow> (int \<times> memory) option" where
  "snprintf m str sz format ap = map_option (\<lambda>(r, buf). (r, with_chars m str buf)) (vsnprintf (chars_at m str) sz format ap)"

text \<open>
  The literal with the expected text stands at 4096, the buffer of 1024 bytes at 8192.  Each call starts from memory \<open>m\<close>,
  which is arbitrary: what earlier calls left in the buffer makes no difference.
\<close>

definition format_assertions :: "memory \<Rightarrow> nat \<Rightarrow> string \<Rightarrow> va_arg list \<Rightarrow> string \<Rightarrow> assertions" where
  "format_assertions m line format ap expected =
    (let r = snprintf (string_at 4096 expected m) 8192 1024 format ap
     in [(line, returns r (\<lambda>(n, m). n > 0)),
         (line + 1, returns r (\<lambda>(n, m). returns (strcmp m 8192 4096) (\<lambda>d. d = 0)))])"

definition char_arg :: "char \<Rightarrow> va_arg" where
  "char_arg c = Word_Arg (of_char c)"

text \<open>Formats that end in a quote.\<close>

definition quote :: "string \<Rightarrow> string" where
  "quote s = s @ [CHR 0x27]"

definition test_stdarg_snprintf_0 :: "memory \<Rightarrow> assertions" where
  "test_stdarg_snprintf_0 m =
     format_assertions m 28 ''aiueo%%'' [] ''aiueo%'' @
     format_assertions m 31 (quote ''char: '%c' '%1c' '%4c'') [char_arg CHR ''a'', char_arg CHR ''b'', char_arg CHR ''c'']
       (quote ''char: 'a' 'b' '   c'') @
     format_assertions m 34 (quote ''str: '%s' '%1s' '%4s'') [String_Arg ''ka'', String_Arg ''ki'', String_Arg ''ku'']
       (quote ''str: 'ka' 'ki' '  ku'') @
     format_assertions m 37 (quote ''hex: '%x' '%6x' '%06x'') [Word_Arg 0xffffffff, Word_Arg 0xb2, Word_Arg 0xc3]
       (quote ''hex: 'ffffffff' '    b2' '0000c3'') @
     format_assertions m 40 (quote ''signed dec: '%d' '%4d' '%04d'') [Word_Arg 10, Word_Arg (- 1), Word_Arg (- 2)]
       (quote ''signed dec: '10' '  -1' '-002'') @
     format_assertions m 43 (quote ''unsigned dec: '%u' '%4u' '%04u'') [Word_Arg 0xffffffff, Word_Arg 1, Word_Arg 2]
       (quote ''unsigned dec: '4294967295' '   1' '0002'')"

definition test_stdarg_snprintf_1 :: "memory \<Rightarrow> assertions" where
  "test_stdarg_snprintf_1 m =
     (51, returns (snprintf m 8192 (INT_MAX + 1) ''aiueo'' []) (\<lambda>(n, m). n = EOF)) #
     (53, returns (snprintf m 8192 1024 ''aiueo'' []) (\<lambda>(n, m). n = 5)) #
     (54, returns (snprintf m 8192 1024 ''aiueo'' []) (\<lambda>(n, m). strlen m 8192 = Some 5)) #
     concat (map (\<lambda>i.
       [(57, returns (snprintf m 8192 i ''aiueo'' []) (\<lambda>(n, m). n = 5)),
        (58, returns (snprintf m 8192 i ''aiueo'' []) (\<lambda>(n, m). strlen m 8192 = Some (i - 1)))]) [6, 5, 4, 3, 2, 1]) @
     [(61, returns (snprintf m 8192 0 ''aiueo'' []) (\<lambda>(n, m). n = 5))]"

lemma cstrI: "(\<And>i. i < length s \<Longrightarrow> m (p + i) = s ! i \<and> s ! i \<noteq> 0) \<Longrightarrow> m (p + length s) = 0 \<Longrightarrow> cstr m p s"
proof (induction s arbitrary: p)
  case (Cons c s)
  have "cstr m (p + 1) s" using Cons.prems(1) [of "Suc _"] Cons.prems(2) by (intro Cons.IH) auto
  then show ?case using Cons.prems(1) [of 0] by simp
qed simp

lemma snprintf_fmt:
  assumes "fmt format ap = Some (Some out)" "sz \<le> INT_MAX" "CHR 0x00 \<notin> set out" "length out \<le> INT_MAX"
  obtains m' where "snprintf m str sz format ap = Some (int (length out), m')"
    "0 < sz \<Longrightarrow> cstr m' str (map byte_of (take (sz - 1) out))" "\<And>a. a < str \<Longrightarrow> m' a = m a"
proof -
  let ?m = "with_chars m str (terminated out sz (chars_at m str))"
  have "snprintf m str sz format ap = Some (int (length out), ?m)"
    using vsnprintf_fmt [OF assms(2), where format = format and ap = ap and str = "chars_at m str"] assms(1,4) by (simp add: snprintf_def)
  moreover have "cstr ?m str (map byte_of (take (sz - 1) out))" if "0 < sz"
    by (rule cstrI) (use that assms(3) in \<open>auto simp: with_chars_def terminated_def byte_of_eq_0 min_def in_set_conv_nth split: if_splits\<close>)
  moreover have "?m a = m a" if "a < str" for a using that by (simp add: with_chars_def)
  ultimately show thesis by (rule that)
qed

lemma format_assertions_pass:
  assumes "fmt format ap = Some (Some expected)" "CHR 0x00 \<notin> set expected" "expected \<noteq> []" "length expected < 1023"
  shows "passes (format_assertions m line format ap expected)"
proof -
  let ?m = "string_at 4096 expected m" and ?s = "map byte_of expected"
  obtain m' where m': "snprintf ?m 8192 1024 format ap = Some (int (length expected), m')"
      "cstr m' 8192 (map byte_of (take (1024 - 1) expected))" "\<And>a. a < 8192 \<Longrightarrow> m' a = ?m a"
    using snprintf_fmt [OF assms(1) _ assms(2), of 1024 ?m 8192] assms(4) by (auto simp: INT_MAX_def)
  have nz: "0 \<notin> set ?s" using assms(2) by (auto simp: byte_of_eq_0)
  have "cstr ?m 4096 ?s" using cstr_put [OF nz] by (simp add: string_at_def)
  then have "cstr m' 4096 ?s" using cstr_cong [of 4096 ?s m' ?m] m'(3) assms(4) by simp
  moreover have "cstr m' 8192 ?s" using m'(2) assms(4) by simp
  ultimately have "strcmp m' 8192 4096 = Some (str_diff ?s ?s)" using strcmp_cstr by blast
  then have "strcmp m' 8192 4096 = Some 0" using str_diff_0 [OF nz nz] by simp
  then show ?thesis using m'(1) assms(3) by (simp add: format_assertions_def returns_def)
qed

lemma snprintf_sizes:
  assumes "sz \<le> INT_MAX"
  shows "returns (snprintf m 8192 sz ''aiueo'' []) (\<lambda>(n, m). n = 5)"
    "0 < sz \<Longrightarrow> returns (snprintf m 8192 sz ''aiueo'' []) (\<lambda>(n, m). strlen m 8192 = Some (min (sz - 1) 5))"
proof -
  have "fmt ''aiueo'' [] = Some (Some ''aiueo'')" by code_simp
  then obtain m' where "snprintf m 8192 sz ''aiueo'' [] = Some (int (length ''aiueo''), m')"
      "0 < sz \<Longrightarrow> cstr m' 8192 (map byte_of (take (sz - 1) ''aiueo''))"
    using assms by (rule snprintf_fmt [where m = m and str = 8192]) (auto simp: INT_MAX_def)
  then show "returns (snprintf m 8192 sz ''aiueo'' []) (\<lambda>(n, m). n = 5)"
    "0 < sz \<Longrightarrow> returns (snprintf m 8192 sz ''aiueo'' []) (\<lambda>(n, m). strlen m 8192 = Some (min (sz - 1) 5))"
    using strlen_cstr by (auto simp: returns_def)
qed

lemma formats:
  "fmt ''aiueo%%'' [] = Some (Some ''aiueo%'')"
  "fmt (quote ''char: '%c' '%1c' '%4c'') [char_arg CHR ''a'', char_arg CHR ''b'', char_arg CHR ''c''] =
     Some (Some (quote ''char: 'a' 'b' '   c''))"
  "fmt (quote ''str: '%s' '%1s' '%4s'') [String_Arg ''ka'', String_Arg ''ki'', String_Arg ''ku''] =
     Some (Some (quote ''str: 'ka' 'ki' '  ku''))"
  "fmt (quote ''hex: '%x' '%6x' '%06x'') [Word_Arg 0xffffffff, Word_Arg 0xb2, Word_Arg 0xc3] =
     Some (Some (quote ''hex: 'ffffffff' '    b2' '0000c3''))"
  "fmt (quote ''signed dec: '%d' '%4d' '%04d'') [Word_Arg 10, Word_Arg (- 1), Word_Arg (- 2)] =
     Some (Some (quote ''signed dec: '10' '  -1' '-002''))"
  "fmt (quote ''unsigned dec: '%u' '%4u' '%04u'') [Word_Arg 0xffffffff, Word_Arg 1, Word_Arg 2] =
     Some (Some (quote ''unsigned dec: '4294967295' '   1' '0002''))"
proof -
  show "fmt ''aiueo%%'' [] = Some (Some ''aiueo%'')" by code_simp
  show "fmt (quote ''char: '%c' '%1c' '%4c'') [char_arg CHR ''a'', char_arg CHR ''b'', char_arg CHR ''c''] =
     Some (Some (quote ''char: 'a' 'b' '   c''))" by code_simp
  show "fmt (quote ''str: '%s' '%1s' '%4s'') [String_Arg ''ka'', String_Arg ''ki'', String_Arg ''ku''] =
     Some (Some (quote ''str: 'ka' 'ki' '  ku''))" by code_simp
  show "fmt (quote ''hex: '%x' '%6x' '%06x'') [Word_Arg 0xffffffff, Word_Arg 0xb2, Word_Arg 0xc3] =
     Some (Some (quote ''hex: 'ffffffff' '    b2' '0000c3''))" 
    by (simp add: fmt.simps(2) quote_def after_zero_def convert_def is_digit_def decimal_def digit_value_def int_max_def pad_left_def digits.simps replicate_unfold)
  show "fmt (quote ''signed dec: '%d' '%4d' '%04d'') [Word_Arg 10, Word_Arg (- 1), Word_Arg (- 2)] =
     Some (Some (quote ''signed dec: '10' '  -1' '-002''))" by code_simp
  show "fmt (quote ''unsigned dec: '%u' '%4u' '%04u'') [Word_Arg 0xffffffff, Word_Arg 1, Word_Arg 2] =
     Some (Some (quote ''unsigned dec: '4294967295' '   1' '0002''))" 
    by (simp add: fmt.simps(2) quote_def after_zero_def convert_def is_digit_def decimal_def digit_value_def int_max_def pad_left_def digits.simps replicate_unfold)
qed

lemma stdarg_tests_pass: "passes (test_stdarg_snprintf_0 m)" "passes (test_stdarg_snprintf_1 m)"
proof -
  show "passes (test_stdarg_snprintf_0 m)"
    unfolding test_stdarg_snprintf_0_def passes_simps
    by (intro conjI format_assertions_pass formats) (simp_all add: quote_def)
  have too_long: "returns (snprintf m 8192 (INT_MAX + 1) ''aiueo'' []) (\<lambda>(n, m). n = EOF)"
    by (simp add: snprintf_def vsnprintf_def returns_def)
  show "passes (test_stdarg_snprintf_1 m)"
    using too_long snprintf_sizes [of 1024 m] snprintf_sizes [of 6 m] snprintf_sizes [of 5 m] snprintf_sizes [of 4 m]
      snprintf_sizes [of 3 m] snprintf_sizes [of 2 m] snprintf_sizes [of 1 m] snprintf_sizes [of 0 m]
    by (simp add: test_stdarg_snprintf_1_def INT_MAX_def)
qed

end
