(* ===== verification/Cy_List_Tests.thy ===== *)
theory Cy_List_Tests
  imports Cy_Stdarg_Tests
begin

text \<open>
  The unit tests of \<^verbatim>\<open>lib/list.c\<close>.  The store before a test is a parameter.  Lengths are counted by walking the list
  in both directions.
\<close>

definition head :: addr where "head = 100"
definition other_head :: addr where "other_head = 200"

text \<open>\<^verbatim>\<open>&entries[i].next\<close>, and the address of the literal \<^verbatim>\<open>entries[i].name\<close>.\<close>

definition entry :: "nat \<Rightarrow> addr" where "entry i = 300 + 12 * i"

definition entry_name :: "addr \<Rightarrow> nat" where
  "entry_name a = (if a = entry 0 then 4096 else if a = entry 1 then 4352 else if a = entry 2 then 4608 else 0)"

definition entry_names :: "memory \<Rightarrow> memory" where
  "entry_names m = string_at 4096 ''one'' (string_at 4352 ''two'' (string_at 4608 ''three'' m))"

partial_function (option) count_loop :: "store \<Rightarrow> addr \<Rightarrow> addr \<Rightarrow> nat \<Rightarrow> nat option" where
  "count_loop h l item c = (if item \<noteq> l then count_loop h l (next (h item)) (c + 1) else Some c)"

definition count :: "store \<Rightarrow> addr \<Rightarrow> nat option" where
  "count h l = count_loop h l (next (h l)) 0"

partial_function (option) count_reverse_loop :: "store \<Rightarrow> addr \<Rightarrow> addr \<Rightarrow> nat \<Rightarrow> nat option" where
  "count_reverse_loop h l item c = (if item \<noteq> l then count_reverse_loop h l (prev (h item)) (c + 1) else Some c)"

definition count_reverse :: "store \<Rightarrow> addr \<Rightarrow> nat option" where
  "count_reverse h l = count_reverse_loop h l (prev (h l)) 0"

text \<open>The two assertions on the lengths, at \<open>line\<close> and the line after it.\<close>

definition counts :: "nat \<Rightarrow> store \<Rightarrow> nat \<Rightarrow> assertions" where
  "counts line h n = [(line, count h head = Some n), (line + 1, count_reverse h head = Some n)]"

definition test_list_init :: "store \<Rightarrow> assertions" where
  "test_list_init h = (let h = list_init h head in [(64, next (h head) = head), (65, prev (h head) = head)])"

definition test_list_add :: "store \<Rightarrow> assertions" where
  "test_list_add h =
    (let h0 = list_init h head; h1 = list_add h0 head (entry 0); h2 = list_add h1 head (entry 1); h3 = list_add h2 head (entry 2)
     in counts 70 h0 0 @ counts 74 h1 1 @ counts 78 h2 2 @ counts 82 h3 3)"

definition test_list_concat_0 :: "store \<Rightarrow> assertions" where
  "test_list_concat_0 h =
    (let h = list_init (list_init h head) other_head;
         h = list_add h head (entry 0);
         h = list_concat h head other_head
     in counts 95 h 1 @ [(98, list_empty h other_head)])"

definition test_list_concat_1 :: "store \<Rightarrow> assertions" where
  "test_list_concat_1 h =
    (let h = list_init (list_init h head) other_head;
         h = list_add h head (entry 0);
         h = list_add h other_head (entry 1);
         h = list_add h other_head (entry 2);
         h = list_concat h head other_head
     in counts 113 h 3 @ [(116, list_empty h other_head)])"

definition test_list_remove :: "store \<Rightarrow> assertions" where
  "test_list_remove h =
    (let h = list_init h head;
         h3 = list_add (list_add (list_add h head (entry 0)) head (entry 1)) head (entry 2);
         h2 = list_remove h3 (entry 1);
         h1 = list_remove h2 (entry 0);
         h0 = list_remove h1 (entry 2)
     in counts 128 h3 3 @ counts 134 h2 2 @ counts 140 h1 1 @ counts 146 h0 0)"

definition test_list_empty :: "store \<Rightarrow> assertions" where
  "test_list_empty h =
    (let h0 = list_init h head; h1 = list_add h0 head (entry 0); h2 = list_remove h1 (entry 0)
     in [(152, list_empty h0 head), (155, \<not> list_empty h1 head), (158, list_empty h2 head)])"

definition test_list_length :: "store \<Rightarrow> assertions" where
  "test_list_length h =
    (let h0 = list_init h head; h1 = list_add h0 head (entry 0); h2 = list_add h1 head (entry 1); h3 = list_add h2 head (entry 2)
     in [(163, list_length h0 head = Some 0), (166, list_length h1 head = Some 1), (169, list_length h2 head = Some 2),
         (172, list_length h3 head = Some 3)])"

text \<open>The assertion of the loops: the name of the item is that of \<^verbatim>\<open>entries[i]\<close>.\<close>

definition same_name :: "memory \<Rightarrow> addr \<Rightarrow> nat \<Rightarrow> bool" where
  "same_name m a i = returns (strcmp m (entry_name a) (entry_name (entry i))) (\<lambda>d. d = 0)"

definition three_entries :: "store \<Rightarrow> store" where
  "three_entries h = list_add (list_add (list_add (list_init h head) head (entry 2)) head (entry 1)) head (entry 0)"

definition test_list_foreach :: "memory \<Rightarrow> store \<Rightarrow> assertions" where
  "test_list_foreach m h =
    (let m = entry_names m; h = three_entries h
     in case list_foreach h head (next (h head)) [] of
          None \<Rightarrow> [(184, False)]
        | Some items \<Rightarrow> map (\<lambda>(i, a). (185, same_name m a i)) (enumerate 0 items))"

text \<open>\<^verbatim>\<open>list_foreach_safe\<close> with the body of the test, which clears the item: the next item is read before.\<close>

partial_function (option) foreach_safe_loop :: "memory \<Rightarrow> store \<Rightarrow> addr \<Rightarrow> addr \<Rightarrow> nat \<Rightarrow> assertions \<Rightarrow> assertions option" where
  "foreach_safe_loop m h item temp i asserts =
     (if item \<noteq> head
      then let asserts = asserts @ [(200, same_name m item i)];
               h = h(item := \<lparr>prev = 0, next = 0\<rparr>)
           in foreach_safe_loop m h temp (next (h temp)) (i + 1) asserts
      else Some asserts)"

definition test_list_foreach_safe :: "memory \<Rightarrow> store \<Rightarrow> assertions" where
  "test_list_foreach_safe m h =
    (let m = entry_names m; h = three_entries h; item = next (h head)
     in case foreach_safe_loop m h item (next (h item)) 0 [] of
          None \<Rightarrow> [(199, False)]
        | Some asserts \<Rightarrow> asserts)"

lemmas list_ops = list_init_def list_add_def list_remove_def list_concat_def list_empty_def head_def other_head_def entry_def

lemmas counting = counts_def count_def count_reverse_def count_loop.simps count_reverse_loop.simps

lemma list_add_test_passes: "passes (test_list_add h)"
  by (simp add: test_list_add_def counting list_ops Let_def)

lemma list_concat_tests_pass: "passes (test_list_concat_0 h)" "passes (test_list_concat_1 h)"
  by (simp_all add: test_list_concat_0_def test_list_concat_1_def counting list_ops Let_def)

lemma list_remove_test_passes: "passes (test_list_remove h)"
  by (simp add: test_list_remove_def counting list_ops Let_def)

lemma list_query_tests_pass: "passes (test_list_init h)" "passes (test_list_empty h)" "passes (test_list_length h)"
  by (simp_all add: test_list_init_def test_list_empty_def test_list_length_def list_length_def list_length_loop.simps list_ops Let_def)

lemma same_name_refl: "i < 3 \<Longrightarrow> same_name (entry_names m) (entry i) i"
proof -
  have "\<exists>s. cstr (entry_names m) 4096 s" "\<exists>s. cstr (entry_names m) 4352 s" "\<exists>s. cstr (entry_names m) 4608 s"
    by (rule exI [of _ "map byte_of ''one''"] exI [of _ "map byte_of ''two''"] exI [of _ "map byte_of ''three''"],
        simp add: entry_names_def string_at_def put_Cons byte_of_def)+
  then have "i < 3 \<Longrightarrow> \<exists>s. cstr (entry_names m) (entry_name (entry i)) s"
    by (auto simp: entry_name_def entry_def less_Suc_eq numeral_3_eq_3)
  moreover assume "i < 3"
  ultimately obtain s where "cstr (entry_names m) (entry_name (entry i)) s" by blast
  then show ?thesis using reads_cstr by (simp add: same_name_def reads_def returns_def)
qed

lemma three_entries_links:
  "next (three_entries h head) = entry 0" "next (three_entries h (entry 0)) = entry (Suc 0)"
  "next (three_entries h (entry (Suc 0))) = entry 2" "next (three_entries h (entry 2)) = head"
  by (simp_all add: three_entries_def list_ops Let_def)

lemma entry_distinct [simp]: "entry i \<noteq> head" "head \<noteq> entry i" "entry i = entry j \<longleftrightarrow> i = j"
  by (simp_all add: entry_def head_def)

lemma foreach_test_passes: "passes (test_list_foreach m h)"
proof -
  have "list_foreach (three_entries h) head (entry 0) [] = Some [entry 0, entry 1, entry 2]"
    by (simp add: list_foreach.simps three_entries_links)
  then show ?thesis
    using same_name_refl [of 0 m] same_name_refl [of 1 m] same_name_refl [of 2 m]
    by (simp add: test_list_foreach_def three_entries_links Let_def numeral_2_eq_2)
qed

lemma foreach_safe_test_passes: "passes (test_list_foreach_safe m h)"
proof -
  have "foreach_safe_loop m' (three_entries h) (entry 0) (entry 1) 0 [] =
      Some [(200, same_name m' (entry 0) 0), (200, same_name m' (entry 1) 1), (200, same_name m' (entry 2) 2)]" for m'
    by (simp add: foreach_safe_loop.simps three_entries_links [unfolded numeral_2_eq_2] Let_def numeral_2_eq_2)
  then show ?thesis
    using same_name_refl [of 0 m] same_name_refl [of 1 m] same_name_refl [of 2 m]
    by (simp add: test_list_foreach_safe_def three_entries_links Let_def numeral_2_eq_2)
qed

subsection \<open>All tests of the libraries\<close>

definition library_tests :: "memory \<Rightarrow> store \<Rightarrow> test_case list" where
  "library_tests m h =
     map (\<lambda>(func, body). \<lparr>tc_file = ''lib/arithmetic.c'', tc_func = func, tc_body = body\<rparr>)
       [(''test_add_overflow_unsigned_long'', test_add_overflow_unsigned_long),
        (''test_add_overflow_long_long'', test_add_overflow_long_long)] @
     map (\<lambda>(func, body). \<lparr>tc_file = ''lib/bitset.c'', tc_func = func, tc_body = body\<rparr>)
       [(''test_bitset_sizeof'', test_bitset_sizeof), (''test_bitset_mask'', test_bitset_mask),
        (''test_bitset_slot'', test_bitset_slot), (''test_bitset_nslots'', test_bitset_nslots),
        (''test_bitset_add'', test_bitset_add), (''test_bitset_remove'', test_bitset_remove),
        (''test_bitset_test'', test_bitset_test)] @
     map (\<lambda>(func, body). \<lparr>tc_file = ''lib/libgen.c'', tc_func = func, tc_body = body\<rparr>)
       [(''test_dirname'', test_dirname m), (''test_basename'', test_basename m)] @
     map (\<lambda>(func, body). \<lparr>tc_file = ''lib/list.c'', tc_func = func, tc_body = body\<rparr>)
       [(''test_list_init'', test_list_init h), (''test_list_add'', test_list_add h),
        (''test_list_concat_0'', test_list_concat_0 h), (''test_list_concat_1'', test_list_concat_1 h),
        (''test_list_remove'', test_list_remove h), (''test_list_empty'', test_list_empty h),
        (''test_list_length'', test_list_length h), (''test_list_foreach'', test_list_foreach m h),
        (''test_list_foreach_safe'', test_list_foreach_safe m h)] @
     map (\<lambda>(func, body). \<lparr>tc_file = ''lib/signal.c'', tc_func = func, tc_body = body\<rparr>)
       [(''test_sigemptyset'', test_sigemptyset), (''test_sigfillset'', test_sigfillset), (''test_sigaddset'', test_sigaddset),
        (''test_sigdelset'', test_sigdelset), (''test_sigismember'', test_sigismember),
        (''test_sigisemptyset'', test_sigisemptyset), (''test_signotset'', test_signotset), (''test_sigorset'', test_sigorset),
        (''test_sigandset'', test_sigandset), (''test_sigpeekset'', test_sigpeekset)] @
     map (\<lambda>(func, body). \<lparr>tc_file = ''lib/stdarg.c'', tc_func = func, tc_body = body\<rparr>)
       [(''test_stdarg_snprintf_0'', test_stdarg_snprintf_0 m), (''test_stdarg_snprintf_1'', test_stdarg_snprintf_1 m)] @
     map (\<lambda>(func, body). \<lparr>tc_file = ''lib/string.c'', tc_func = func, tc_body = body\<rparr>)
       [(''test_strlen'', test_strlen m), (''test_strnlen'', test_strnlen m), (''test_strcmp'', test_strcmp m),
        (''test_strncmp'', test_strncmp m), (''test_strcpy'', test_strcpy m), (''test_strncpy'', test_strncpy m),
        (''test_memcpy'', test_memcpy m), (''test_memset'', test_memset m), (''test_memcmp'', test_memcmp m),
        (''test_strcat'', test_strcat m), (''test_strncat'', test_strncat m), (''test_strchr'', test_strchr m),
        (''test_strrchr'', test_strrchr m), (''test_strchrnul'', test_strchrnul m)]"

lemma library_tests_pass: "list_all (\<lambda>t. passes (tc_body t)) (library_tests m h)"
  by (simp add: library_tests_def arithmetic_tests_pass bitset_tests_pass libgen_tests_pass list_query_tests_pass list_add_test_passes
      list_concat_tests_pass list_remove_test_passes foreach_test_passes foreach_safe_test_passes signal_tests_pass stdarg_tests_pass
      length_tests_pass strcmp_test_passes strncmp_test_passes strcpy_test_passes strncpy_test_passes memory_tests_pass
      append_tests_pass strchr_test_passes strrchr_test_passes strchrnul_test_passes)

text \<open>A test of the libraries that the test kernel runs is reported with \<^verbatim>\<open>$success\<close>.\<close>

lemma library_tests_succeed:
  "t \<in> set (library_tests m h) \<Longrightarrow> (''$success'', []) \<in> set (fst (test_run t st))"
  using library_tests_pass [of m h] by (auto simp: test_run_reports passes_def list_all_iff)

end
