(* ===== verification/Spec2Isabelle.thy ===== *)
theory Spec2Isabelle
  imports Cy_Signal Cy_List Cy_Slab_Correct Cy_Libgen Cy_Stdarg Cy_Pipe Cy_Path_Correct Cy_Mmu_Correct Cy_Kernel_Sched Cy_Kernel_Signal Cy_User_Memory Cy_Devices Cy_List_Tests
begin

text \<open>
  \<^bold>\<open>Cyanurus\<close> is a small Unix-like kernel for ARMv7: about 6500 lines of C and assembler under
  \<^verbatim>\<open>src/src/kernel\<close>.  Paths below are relative to that directory.  This development models all of it,
  function by function, and proves what makes the parts and the whole correct.

  \<^bold>\<open>The parts of the program and how they interact.\<close>
  A library (\<^verbatim>\<open>lib/\<close>) has strings, intrusive lists, bit sets, signal sets and formatted output.  Pages come from
  a buddy allocator (\<^verbatim>\<open>buddy.c\<close>, \<^verbatim>\<open>page.c\<close>), objects from caches on top of it (\<^verbatim>\<open>slab.c\<close>), address spaces are
  two-level translation tables (\<^verbatim>\<open>mmu.c\<close>).  A Minix file system (\<^verbatim>\<open>superblock.c\<close>, \<^verbatim>\<open>inode.c\<close>, \<^verbatim>\<open>dentry.c\<close>,
  \<^verbatim>\<open>fs.c\<close>) works on a block cache (\<^verbatim>\<open>block.c\<close>) over a card (\<^verbatim>\<open>mmc.c\<close>).  Processes (\<^verbatim>\<open>process.c\<close>) have
  segments, descriptors, signals and wait queues; they use pipes (\<^verbatim>\<open>pipe.c\<close>), the terminal (\<^verbatim>\<open>tty.c\<close>, \<^verbatim>\<open>uart.c\<close>)
  and files, and start from executables (\<^verbatim>\<open>elf.c\<close>).  Programs enter the kernel by exceptions
  (\<^verbatim>\<open>asm/vectors.s\<close>); \<^verbatim>\<open>system.c\<close> and \<^verbatim>\<open>syscall.c\<close> handle them, and every handler ends in the scheduler
  \<^verbatim>\<open>process_switch\<close>, which leaves the kernel through \<^verbatim>\<open>asm/system.s\<close> or idles.

  \<^bold>\<open>How the code is modelled.\<close>
  A structure is a record, an enumeration a datatype, an integer of the C program a word of its width (\<open>u8\<close> to \<open>u64\<close> of
  \<^theory_text>\<open>Cy_Prelude\<close>) where wrap-around matters.  A function that changes state takes and returns the state.  \<^term>\<open>None\<close> as
  a result means that control does not come back: \<^verbatim>\<open>SYSTEM_BUG_ON\<close>, a failing allocation, an access to memory
  that is not there, or a loop that does not end.  Errors of the C program are the negated error numbers it
  returns.  Loops along pointers are \<^theory_text>\<open>partial_function (option)\<close>, so that a theorem that such a function
  returns shows that the loop ends; counted loops are recursive functions with a termination proof.  There is no fuel.
  A call that sleeps gives the point where it continues (\<open>blocked\<close> and \<open>after\<close> in
  \<^theory_text>\<open>Cy_Process\<close>), which stands for the kernel stack of the suspended process.

  \<^bold>\<open>Theories.\<close>
  \<^item> \<^theory_text>\<open>Cy_Prelude\<close>: integer types, error numbers, shared lemmas, and the locale \<^theory_text>\<open>index_set\<close> of sets of numbers that
    bit sets and signal sets both implement.
  \<^item> \<^theory_text>\<open>Cy_Arith\<close>, \<^theory_text>\<open>Cy_Signal\<close>, \<^theory_text>\<open>Cy_List\<close>, \<^theory_text>\<open>Cy_String\<close>, \<^theory_text>\<open>Cy_Libgen\<close>, \<^theory_text>\<open>Cy_Stdarg\<close>, \<^theory_text>\<open>Cy_Unix\<close>: the library.  Lists
    are nodes in a store and implement the locale \<^theory_text>\<open>intrusive_list\<close> of sequences; strings are bytes in a memory, with the
    overlap of source and destination as the C functions have it; \<^verbatim>\<open>vsnprintf\<close> equals a reference
    formatter.
  \<^item> \<^theory_text>\<open>Cy_Tests\<close>, \<^theory_text>\<open>Cy_String_Tests\<close>, \<^theory_text>\<open>Cy_Stdarg_Tests\<close>, \<^theory_text>\<open>Cy_List_Tests\<close>: the kernel that runs the tests
    (\<^verbatim>\<open>src/src/test-kernel/kernel.c\<close>, \<^verbatim>\<open>test.c\<close>) and all tests of the library.  They hold of the models, which checks
    the models against what the authors of the code expect of it; and a command to run a test reports success exactly
    if its assertions hold.
  \<^item> \<^theory_text>\<open>Cy_Buddy\<close> is \<^verbatim>\<open>buddy.c\<close>; \<^theory_text>\<open>Cy_Buddy_Spec\<close>, \<^theory_text>\<open>Cy_Buddy_Correct\<close>, \<^theory_text>\<open>Cy_Buddy_Alloc\<close> and \<^theory_text>\<open>Cy_Buddy_Free\<close> relate it to
    tilings of the page frames; \<^theory_text>\<open>Cy_Page\<close> has the contract \<^theory_text>\<open>block_allocator\<close> for its clients.
  \<^item> \<^theory_text>\<open>Cy_Slab\<close> and \<^theory_text>\<open>Cy_Slab_Correct\<close>: \<^verbatim>\<open>slab.c\<close>; objects handed out are disjoint and a released one is free again.
  \<^item> \<^theory_text>\<open>Cy_Mmu\<close> and \<^theory_text>\<open>Cy_Mmu_Correct\<close>: \<^verbatim>\<open>mmu.c\<close> over a memory of words, with the table walk of the processor as
    specification; no page that programs reach belongs to two address spaces.
  \<^item> \<^theory_text>\<open>Cy_Block\<close> (with the contract \<^theory_text>\<open>block_device\<close>), \<^theory_text>\<open>Cy_Inode\<close>, \<^theory_text>\<open>Cy_Inode_Correct\<close>, \<^theory_text>\<open>Cy_Dentry\<close>, \<^theory_text>\<open>Cy_Fs\<close>,
    \<^theory_text>\<open>Cy_Fs_Correct\<close>: the file system down to the bytes of its blocks.
  \<^item> \<^theory_text>\<open>Cy_Mmc\<close>: \<^verbatim>\<open>mmc.c\<close>, register by register; on a card that behaves as documented it is the disk \<^theory_text>\<open>Cy_Block\<close> works on.
  \<^item> \<^theory_text>\<open>Cy_Waitq\<close>, \<^theory_text>\<open>Cy_Pipe\<close>, \<^theory_text>\<open>Cy_Tty\<close>, \<^theory_text>\<open>Cy_Logger\<close>: wait queues, pipes, the serial port and the terminal, the log.
  \<^item> \<^theory_text>\<open>Cy_Elf\<close>, \<^theory_text>\<open>Cy_Kernel\<close>, \<^theory_text>\<open>Cy_File\<close>, \<^theory_text>\<open>Cy_Process\<close>, \<^theory_text>\<open>Cy_Syscall\<close>, \<^theory_text>\<open>Cy_System\<close>: executables, the state of the kernel
    with the memory of user programs, \<^verbatim>\<open>process.c\<close>, every system call, the handlers, and the machine as the
    step relation \<^const>\<open>kstep\<close>: programs compute and trap, interrupts come at any time, and the scheduler makes its
    passes.
  \<^item> \<^theory_text>\<open>Cy_Asm\<close>: the assembler, instruction by instruction, over the banked registers of the processor.
  \<^item> \<^theory_text>\<open>Cy_Devices\<close>: \<^verbatim>\<open>gic.c\<close>, \<^verbatim>\<open>timer.c\<close>, \<^verbatim>\<open>aeabi.c\<close> and the parts of \<^verbatim>\<open>system.c\<close> that work on devices.
  \<^item> \<^theory_text>\<open>Cy_Kernel_Inv\<close>, \<^theory_text>\<open>Cy_Kernel_Files\<close>, \<^theory_text>\<open>Cy_Kernel_Block\<close>, \<^theory_text>\<open>Cy_Kernel_Proc\<close>, \<^theory_text>\<open>Cy_Kernel_Correct\<close>: the invariant of the kernel
    and its proof for every call, handler and pass of the scheduler.
  \<^item> \<^theory_text>\<open>Cy_Kernel_Run\<close>: what the invariant says of every state that is reached; \<^theory_text>\<open>Cy_Kernel_Memory\<close> and
    \<^theory_text>\<open>Cy_Kernel_Isolation\<close>: memory of a process is changed only by itself, or by the kernel on its behalf;
    \<^theory_text>\<open>Cy_Kernel_Sched\<close>: the scheduler is fair; \<^theory_text>\<open>Cy_Kernel_Signal\<close>: signal handlers; \<^theory_text>\<open>Cy_User_Memory\<close>: pointers that
    come from programs.

  \<^bold>\<open>What is shown.\<close>
  For the whole kernel, in every state it reaches from the start: reference counts of files and ends of pipes are exact, no
  descriptor dangles, a process is blocked exactly when it is on one wait queue, a sleeping call keeps what it sleeps
  on, parents and children agree, the dead hold nothing, memory is isolated, and the run queue is served in order.  For
  the borders: an exception, a suspended call and a signal handler give back the registers they interrupted; a
  pointer outside user space is answered with \<^verbatim>\<open>EFAULT\<close> and nothing else.  For each component: its operations do what
  they promise on every branch, against an abstract view (sets, sequences, tilings, maps from addresses to frames,
  file contents, a disk) or a reference definition.  Each theorem with hypotheses is followed by a witness at a
  concrete input; the witnesses of the kernel run the machine from its start.

  \<^bold>\<open>Assumptions.\<close>
  Devices (the card, the interrupt controller, the timer) are parameters, and what is relied on is stated as a
  hypothesis after their documentation, with an example that satisfies it.  The start of the kernel is the state
  after the first process was created, with any file system, memory and serial port.  The step relation lets a program
  change its registers and its own memory to anything, but keeps it in user mode; the lemma \<open>sigreturn_unchecked\<close> of
  \<^theory_text>\<open>Cy_Kernel_Signal\<close> shows that \<^verbatim>\<open>sigreturn\<close> takes the mode from the stack of the program, so that the theorems on
  runs hold for programs that do not use this.  In the kernel proper (from \<^theory_text>\<open>Cy_Kernel\<close> on) memory of the
  kernel's own structures is not addressed: a process, an open file or a pipe has a number where C has a pointer, and
  objects from caches are always there.  The components below show that the allocators deserve this.

  \<^bold>\<open>Not modelled.\<close>
  \<^item> The vector table and the two handlers of \<^verbatim>\<open>asm/vectors.s\<close> that only start or stop the system, the linker
    script, and barriers and cache operations: they have no effect on the state of the model.
  \<^item> \<^verbatim>\<open>lib/termios.h\<close> beyond the flags the kernel sets, and prototypes in headers.
  \<^item> The user side: \<^verbatim>\<open>src/src/crt\<close> and \<^verbatim>\<open>src/src/init\<close> call the C library, a git submodule whose sources are not in
    the tree.
  \<^item> The tests of the other parts in \<^verbatim>\<open>src/src/test-kernel\<close>, which run on an image of a card that the build makes and
    that is not in the tree; the user programs of \<^verbatim>\<open>src/src/test-user\<close>; the Ruby program that runs all tests in an
    emulator (\<^verbatim>\<open>src/tool\<close>).
  \<^item> Time: the timer only causes interrupts, which come at any time in the model.
\<close>

end
